(* ===== verification/Prelude.thy ===== *)
theory Prelude
  imports "HOL-Library.Word" "HOL-Library.Monad_Syntax"
begin

text \<open>
  What every component of the model shares: the memory in which nodes live, the fixed-length
  arrays inside a node with the bulk operations of \<^verbatim>\<open>lib/common/arrayops.hpp\<close>, and
  facts about lists that the component proofs use.

  A computation that can go wrong (a null or dangling pointer, an index outside an array, a
  block size that would be negative, memory exhausted) is a function into an option type, and
  \<^term>\<open>None\<close> is the fault. So a theorem that a computation is \<^term>\<open>Some\<close> of something
  says in particular that it is memory safe.
\<close>

section \<open>Base types\<close>

text \<open>\<^verbatim>\<open>uint64_t\<close> keys and values, and the addresses of nodes: all 64 bits wide, since
  nodes keep values and child pointers in one union.\<close>

type_synonym addr = "64 word"
type_synonym key = "64 word"
type_synonym val = "64 word"
type_synonym kv = "key \<times> val"

abbreviation nullptr :: addr where
  "nullptr \<equiv> 0"

named_theorems mem_simps \<open>symbolic execution of memory and array operations\<close>

section \<open>Lists\<close>

lemma takeWhile_le_less_drop:
  fixes ks :: "'a::linorder list"
  assumes "sorted ks"
  shows "\<forall>x \<in> set (dropWhile (\<lambda>x. x \<le> k) ks). k < x"
  using assms
  by (induction ks) auto

lemma take_length_takeWhile [simp]: "take (length (takeWhile P xs)) xs = takeWhile P xs"
  by (induction xs) auto

lemma drop_length_takeWhile [simp]: "drop (length (takeWhile P xs)) xs = dropWhile P xs"
  by (induction xs) auto

lemma length_takeWhile_less_iff:
  "length (takeWhile P xs) < length xs \<longleftrightarrow> (\<exists>x \<in> set xs. \<not> P x)"
  by (induction xs) auto

lemma list_split_nth:
  assumes "i < length xs"
  obtains ys y zs where "xs = ys @ y # zs" "length ys = i" "xs ! i = y"
  using assms id_take_nth_drop [of i xs] by (metis length_take min.absorb4)

lemma list_all2_split_nth:
  assumes "list_all2 P xs ys" "i < length ys"
  obtains xs1 x xs2 ys1 y ys2 where "xs = xs1 @ x # xs2" "ys = ys1 @ y # ys2"
    "length xs1 = i" "length ys1 = i" "P x y" "list_all2 P xs1 ys1" "list_all2 P xs2 ys2"
proof -
  from assms(2) obtain ys1 y ys2 where ys: "ys = ys1 @ y # ys2" "length ys1 = i"
    by (blast elim: list_split_nth)
  with assms(1) obtain xs1 x xs2 where "xs = xs1 @ x # xs2" "list_all2 P xs1 ys1" "P x y"
    "list_all2 P xs2 ys2"
    by (auto simp: list_all2_append2 list_all2_Cons2)
  with ys show thesis
    by (auto intro!: that dest: list_all2_lengthD)
qed

section \<open>Arrays: lib/common/arrayops.hpp\<close>

text \<open>
  An array is a list of its fixed length. A pointer into the middle of an array, as in
  \<^verbatim>\<open>t->keys+B\<close>, is the list with the elements before it dropped.
\<close>

definition arr_get :: "'a list \<Rightarrow> nat \<Rightarrow> 'a option" where
  "arr_get xs i = (if i < length xs then Some (xs ! i) else None)"

definition arr_set :: "'a list \<Rightarrow> nat \<Rightarrow> 'a \<Rightarrow> 'a list option" where
  "arr_set xs i x = (if i < length xs then Some (xs[i := x]) else None)"

text \<open>\<^verbatim>\<open>memset(arr+pos, 0, n*sizeof(T))\<close>\<close>

definition arr_zero :: "'a::zero list \<Rightarrow> nat \<Rightarrow> nat \<Rightarrow> 'a list option" where
  "arr_zero xs pos n =
     (if pos + n \<le> length xs then Some (take pos xs @ replicate n 0 @ drop (pos + n) xs) else None)"

definition arr_copy :: "'a list \<Rightarrow> 'a list \<Rightarrow> nat \<Rightarrow> 'a list option" where
  "arr_copy dst src n =
     (if n \<le> length dst \<and> n \<le> length src then Some (take n src @ drop n dst) else None)"

text \<open>The unsigned block size \<^verbatim>\<open>size-pos\<close> must not be negative.\<close>

definition arr_insert :: "'a list \<Rightarrow> nat \<Rightarrow> nat \<Rightarrow> 'a \<Rightarrow> 'a list option" where
  "arr_insert arr n pos x =
     (if pos \<le> n \<and> n < length arr
      then Some (take pos arr @ x # take (n - pos) (drop pos arr) @ drop (n + 1) arr)
      else None)"

definition arr_copy_insert :: "'a list \<Rightarrow> 'a list \<Rightarrow> nat \<Rightarrow> nat \<Rightarrow> 'a \<Rightarrow> 'a list option" where
  "arr_copy_insert dst src n pos x =
     (if pos \<le> n \<and> n < length dst \<and> n \<le> length src
      then Some (take pos src @ x # take (n - pos) (drop pos src) @ drop (n + 1) dst)
      else None)"

definition arr_copy_update :: "'a list \<Rightarrow> 'a list \<Rightarrow> nat \<Rightarrow> nat \<Rightarrow> 'a \<Rightarrow> 'a list option" where
  "arr_copy_update dst src n pos x =
     do { dst' \<leftarrow> arr_copy dst src n; arr_set dst' pos x }"

definition arr_copy_split ::
  "'a list \<Rightarrow> 'a list \<Rightarrow> 'a list \<Rightarrow> nat \<Rightarrow> nat \<Rightarrow> ('a list \<times> 'a list) option" where
  "arr_copy_split dsth dstt src n pos =
     (if pos \<le> n
      then do {
        dsth' \<leftarrow> arr_copy dsth src pos;
        dstt' \<leftarrow> arr_copy dstt (drop pos src) (n - pos);
        Some (dsth', dstt') }
      else None)"

text \<open>\<^verbatim>\<open>for (j = 0; j < n; j++) { dst[pos+j] = src[off+j]; }\<close>\<close>

fun arr_fill :: "'a list \<Rightarrow> nat \<Rightarrow> 'a list \<Rightarrow> nat \<Rightarrow> nat \<Rightarrow> 'a list option" where
  "arr_fill dst pos src off 0 = Some dst"
| "arr_fill dst pos src off (Suc n) =
     do { x \<leftarrow> arr_get src off; dst \<leftarrow> arr_set dst pos x; arr_fill dst (Suc pos) src (Suc off) n }"

lemma arr_fill_Some:
  "pos + n \<le> length dst \<Longrightarrow> off + n \<le> length src \<Longrightarrow>
   arr_fill dst pos src off n = Some (take pos dst @ take n (drop off src) @ drop (pos + n) dst)"
proof (induction n arbitrary: dst pos off)
  case (Suc n)
  have "take (Suc n) (drop off src) = src ! off # take n (drop (Suc off) src)"
    using Suc.prems(2) by (simp add: Cons_nth_drop_Suc [symmetric])
  moreover have "take (Suc pos) (dst[pos := x]) = take pos dst @ [x]" for x
    using Suc.prems(1) by (simp add: take_Suc_conv_app_nth)
  ultimately show ?case
    using Suc.prems Suc.IH [of "Suc pos" "dst[pos := src ! off]" "Suc off"]
    by (simp add: arr_get_def arr_set_def)
qed simp

lemma arr_get_Some [mem_simps]: "i < length xs \<Longrightarrow> arr_get xs i = Some (xs ! i)"
  by (simp add: arr_get_def)

lemma arr_set_Some [mem_simps]: "i < length xs \<Longrightarrow> arr_set xs i x = Some (xs[i := x])"
  by (simp add: arr_set_def)

lemma arr_zero_Some [mem_simps]:
  "pos + n \<le> length xs \<Longrightarrow>
   arr_zero xs pos n = Some (take pos xs @ replicate n 0 @ drop (pos + n) xs)"
  by (simp add: arr_zero_def)

lemma arr_copy_Some [mem_simps]:
  "n \<le> length dst \<Longrightarrow> n \<le> length src \<Longrightarrow> arr_copy dst src n = Some (take n src @ drop n dst)"
  by (simp add: arr_copy_def)

lemma arr_insert_Some [mem_simps]:
  "pos \<le> n \<Longrightarrow> n < length arr \<Longrightarrow>
   arr_insert arr n pos x = Some (take pos arr @ x # take (n - pos) (drop pos arr) @ drop (n + 1) arr)"
  by (simp add: arr_insert_def)

lemma arr_copy_insert_Some [mem_simps]:
  "pos \<le> n \<Longrightarrow> n < length dst \<Longrightarrow> n \<le> length src \<Longrightarrow>
   arr_copy_insert dst src n pos x
     = Some (take pos src @ x # take (n - pos) (drop pos src) @ drop (n + 1) dst)"
  by (simp add: arr_copy_insert_def)

text \<open>The used part of an array after an insertion.\<close>

lemma take_insert_used [mem_simps]:
  assumes "pos \<le> n" "n \<le> length src"
  shows "take (Suc n) (take pos src @ x # take (n - pos) (drop pos src) @ rest)
           = take pos (take n src) @ x # drop pos (take n src)"
  using assms by (simp add: Suc_diff_le drop_take min_def)

lemma arr_insert_length: "arr_insert arr n pos x = Some arr' \<Longrightarrow> length arr' = length arr"
  by (auto simp: arr_insert_def split: if_splits)

lemma arr_insert_used:
  assumes "arr_insert arr n pos x = Some arr'"
  shows "take (Suc n) arr' = take pos (take n arr) @ x # drop pos (take n arr)"
  using assms take_insert_used [of pos n arr x "drop (Suc n) arr"]
  by (auto simp: arr_insert_def split: if_splits)

section \<open>Memory\<close>

text \<open>
  The nodes of one tree library live in a memory: the cells allocated now, by address, and the
  blocks that the calls of \<^verbatim>\<open>aligned_alloc\<close> to come will return. A block comes with the
  contents it happens to have, which the code must not rely on: \<^verbatim>\<open>aligned_alloc\<close> is the
  allocator's, and the model holds for every list of blocks it may return.
\<close>

record 'n mem =
  cells :: "addr \<rightharpoonup> 'n"
  blocks :: "(addr \<times> 'n) list"

definition mem_get :: "'n mem \<Rightarrow> addr \<Rightarrow> 'n option" where
  "mem_get m a = cells m a"

text \<open>Assign through a pointer: the new contents computed from the old, with possible faults.\<close>

definition mem_upd :: "'n mem \<Rightarrow> addr \<Rightarrow> ('n \<Rightarrow> 'n option) \<Rightarrow> 'n mem option" where
  "mem_upd m a f =
     do { n \<leftarrow> cells m a; n' \<leftarrow> f n; Some (m\<lparr>cells := (cells m)(a \<mapsto> n')\<rparr>) }"

definition mem_alloc :: "'n mem \<Rightarrow> (addr \<times> 'n mem) option" where
  "mem_alloc m =
     (case blocks m of
        [] \<Rightarrow> None
      | (a, junk) # bs \<Rightarrow> Some (a, m\<lparr>cells := (cells m)(a \<mapsto> junk), blocks := bs\<rparr>))"

definition mem_free :: "'n mem \<Rightarrow> addr \<Rightarrow> 'n mem option" where
  "mem_free m a =
     (case cells m a of None \<Rightarrow> None | Some _ \<Rightarrow> Some (m\<lparr>cells := (cells m)(a := None)\<rparr>))"

text \<open>
  What the allocator documents: the next \<^term>\<open>k\<close> blocks exist, none is null, none is in use,
  no two are the same. \<^term>\<open>P\<close> is the shape of a block (the lengths of its arrays).
\<close>

definition mem_ok :: "('n \<Rightarrow> bool) \<Rightarrow> nat \<Rightarrow> 'n mem \<Rightarrow> bool" where
  "mem_ok P k m \<longleftrightarrow>
     k \<le> length (blocks m) \<and> distinct (map fst (blocks m)) \<and>
     (\<forall>b \<in> set (blocks m). fst b \<noteq> nullptr \<and> cells m (fst b) = None \<and> P (snd b))"

lemma mem_get_eq [mem_simps]: "mem_get m a = cells m a"
  by (simp add: mem_get_def)

lemma mem_upd_Some [mem_simps]:
  "cells m a = Some n \<Longrightarrow> f n = Some n' \<Longrightarrow> mem_upd m a f = Some (m\<lparr>cells := (cells m)(a \<mapsto> n')\<rparr>)"
  by (simp add: mem_upd_def)

lemma mem_free_Some [mem_simps]:
  "cells m a = Some n \<Longrightarrow> mem_free m a = Some (m\<lparr>cells := (cells m)(a := None)\<rparr>)"
  by (simp add: mem_free_def)

lemma mem_ok_mono: "mem_ok P k m \<Longrightarrow> k' \<le> k \<Longrightarrow> mem_ok P k' m"
  by (auto simp: mem_ok_def)

lemma mem_alloc_ok:
  assumes "mem_ok P (Suc k) m"
  obtains a junk bs where "mem_alloc m = Some (a, m\<lparr>cells := (cells m)(a \<mapsto> junk), blocks := bs\<rparr>)"
    "blocks m = (a, junk) # bs" "a \<noteq> nullptr" "cells m a = None" "P junk"
    "\<And>f. dom f \<subseteq> insert a (dom (cells m)) \<Longrightarrow> mem_ok P k (m\<lparr>cells := f, blocks := bs\<rparr>)"
proof -
  from assms obtain a junk bs where s: "blocks m = (a, junk) # bs"
    by (cases "blocks m") (auto simp: mem_ok_def)
  show thesis
  proof (rule that [OF _ s])
    show "mem_alloc m = Some (a, m\<lparr>cells := (cells m)(a \<mapsto> junk), blocks := bs\<rparr>)"
      by (simp add: mem_alloc_def s)
    have free: "\<forall>b \<in> set bs. fst b \<noteq> a \<and> fst b \<notin> dom (cells m)"
      using assms s by (auto simp: mem_ok_def image_iff)
    show "mem_ok P k (m\<lparr>cells := f, blocks := bs\<rparr>)" if "dom f \<subseteq> insert a (dom (cells m))" for f
    proof -
      have "f (fst b) = None" if "b \<in> set bs" for b
        using free that \<open>dom f \<subseteq> insert a (dom (cells m))\<close> by (metis domIff insertE subsetD)
      with assms s show ?thesis by (auto simp: mem_ok_def)
    qed
  qed (use assms s in \<open>auto simp: mem_ok_def\<close>)
qed

lemma mem_ok_cells:
  assumes "mem_ok P k m" "dom f \<subseteq> dom (cells m)"
  shows "mem_ok P k (m\<lparr>cells := f\<rparr>)"
proof -
  have "f a = None" if "cells m a = None" for a
    using assms(2) that by auto
  with assms(1) show ?thesis by (simp add: mem_ok_def)
qed

text \<open>
  The two ways memory changes: a fresh cell appears, or an allocated cell is assigned. Every
  operation of the tree libraries is described in these terms, with \<^term>\<open>k\<close> further blocks
  still to be had.
\<close>

definition mem_new :: "('n \<Rightarrow> bool) \<Rightarrow> nat \<Rightarrow> 'n mem \<Rightarrow> addr \<Rightarrow> 'n \<Rightarrow> 'n mem \<Rightarrow> bool" where
  "mem_new P k m a n m' \<longleftrightarrow>
     a \<noteq> nullptr \<and> cells m a = None \<and> cells m' = (cells m)(a \<mapsto> n) \<and> mem_ok P k m'"

definition mem_set :: "('n \<Rightarrow> bool) \<Rightarrow> nat \<Rightarrow> 'n mem \<Rightarrow> addr \<Rightarrow> 'n \<Rightarrow> 'n mem \<Rightarrow> bool" where
  "mem_set P k m a n m' \<longleftrightarrow>
     cells m a \<noteq> None \<and> cells m' = (cells m)(a \<mapsto> n) \<and> mem_ok P k m'"

lemma mem_alloc_new:
  assumes "mem_ok P (Suc k) m"
  obtains a junk m' where "mem_alloc m = Some (a, m')" "mem_new P k m a junk m'" "P junk"
proof -
  show thesis
  proof (rule mem_alloc_ok [OF assms])
    fix a junk bs
    assume b: "mem_alloc m = Some (a, m\<lparr>cells := (cells m)(a \<mapsto> junk), blocks := bs\<rparr>)"
      "a \<noteq> nullptr" "cells m a = None" "P junk"
      "\<And>f. dom f \<subseteq> insert a (dom (cells m)) \<Longrightarrow> mem_ok P k (m\<lparr>cells := f, blocks := bs\<rparr>)"
    from b(5) [of "(cells m)(a \<mapsto> junk)"] b(2,3)
    have "mem_new P k m a junk (m\<lparr>cells := (cells m)(a \<mapsto> junk), blocks := bs\<rparr>)"
      by (simp add: mem_new_def)
    then show thesis by (rule that [OF b(1) _ b(4)])
  qed
qed

lemma mem_upd_set:
  assumes "cells m a = Some n" "f n = Some n'" "mem_ok P k m"
  obtains m' where "mem_upd m a f = Some m'" "mem_set P k m a n' m'"
  using assms mem_ok_cells [OF assms(3), of "(cells m)(a \<mapsto> n')"]
  by (auto simp: mem_upd_def mem_set_def)

text \<open>Assigning to a cell that was fresh in \<^term>\<open>m0\<close>.\<close>

lemma mem_upd_new:
  assumes "mem_new P k m0 a n m" "f n = Some n'"
  obtains m' where "mem_upd m a f = Some m'" "mem_new P k m0 a n' m'"
proof -
  from assms(1) have "cells m a = Some n" "mem_ok P k m" by (simp_all add: mem_new_def)
  from mem_upd_set [where f = f, OF this(1) assms(2) this(2)] obtain m' where
    "mem_upd m a f = Some m'" "mem_set P k m a n' m'" .
  with assms(1) show thesis by (intro that) (auto simp: mem_new_def mem_set_def)
qed

text \<open>
  The change a computation makes to memory, as seen from outside: it owned the cells \<^term>\<open>F\<close>
  before and owns \<^term>\<open>F'\<close> after. Other cells are untouched, new cells come from free memory,
  and a cell no longer owned has been freed, so that nothing leaks.
\<close>

definition heap_step :: "(addr \<rightharpoonup> 'n) \<Rightarrow> addr set \<Rightarrow> (addr \<rightharpoonup> 'n) \<Rightarrow> addr set \<Rightarrow> bool" where
  "heap_step h F h' F' \<longleftrightarrow> (\<forall>x.
     (x \<in> F \<longrightarrow> h x \<noteq> None) \<and> (x \<in> F' \<longrightarrow> h' x \<noteq> None) \<and>
     (x \<notin> F \<longrightarrow> (if x \<in> F' then h x = None else h' x = h x)) \<and>
     (x \<in> F \<longrightarrow> x \<notin> F' \<longrightarrow> h' x = None))"

lemma map_le_Some: "h \<subseteq>\<^sub>m h' \<Longrightarrow> h a = Some n \<Longrightarrow> h' a = Some n"
  unfolding map_le_def by (metis domI)

lemma heap_step_refl: "F \<subseteq> dom h \<Longrightarrow> heap_step h F h F"
  by (auto simp: heap_step_def)

lemma heap_step_trans:
  assumes "heap_step h F h' F'" "heap_step h' F' h'' F''"
  shows "heap_step h F h'' F''"
  unfolding heap_step_def
proof
  fix x
  from assms [unfolded heap_step_def, THEN spec [of _ x]]
  show "(x \<in> F \<longrightarrow> h x \<noteq> None) \<and> (x \<in> F'' \<longrightarrow> h'' x \<noteq> None) \<and>
     (x \<notin> F \<longrightarrow> (if x \<in> F'' then h x = None else h'' x = h x)) \<and> (x \<in> F \<longrightarrow> x \<notin> F'' \<longrightarrow> h'' x = None)"
    by (cases "x \<in> F"; cases "x \<in> F'"; cases "x \<in> F''") simp_all
qed

lemma heap_step_frame:
  assumes "heap_step h F h' F'" "G \<subseteq> dom h" "F \<inter> G = {}"
  shows "heap_step h (F \<union> G) h' (F' \<union> G)" "F' \<inter> G = {}" "\<And>x. x \<in> G \<Longrightarrow> h' x = h x"
proof -
  have *: "x \<notin> F' \<and> h x \<noteq> None \<and> x \<notin> F \<and> h' x = h x" if "x \<in> G" for x
    using assms(1) [unfolded heap_step_def, THEN spec [of _ x]] that assms(2,3)
    by (auto split: if_splits)
  then show "F' \<inter> G = {}" "\<And>x. x \<in> G \<Longrightarrow> h' x = h x" by auto
  show "heap_step h (F \<union> G) h' (F' \<union> G)"
    unfolding heap_step_def
  proof
    fix x
    from assms(1) [unfolded heap_step_def, THEN spec [of _ x]] * [of x]
    show "(x \<in> F \<union> G \<longrightarrow> h x \<noteq> None) \<and> (x \<in> F' \<union> G \<longrightarrow> h' x \<noteq> None) \<and>
     (x \<notin> F \<union> G \<longrightarrow> (if x \<in> F' \<union> G then h x = None else h' x = h x)) \<and>
     (x \<in> F \<union> G \<longrightarrow> x \<notin> F' \<union> G \<longrightarrow> h' x = None)"
      by (cases "x \<in> F"; cases "x \<in> F'"; cases "x \<in> G") simp_all
  qed
qed

lemma heap_step_new: "h a = None \<Longrightarrow> h' = h(a \<mapsto> n) \<Longrightarrow> heap_step h {} h' {a}"
  by (auto simp: heap_step_def)

lemma heap_step_set: "h a \<noteq> None \<Longrightarrow> h' = h(a \<mapsto> n) \<Longrightarrow> heap_step h {a} h' {a}"
  by (auto simp: heap_step_def)

text \<open>Assigning and freeing owned cells.\<close>

lemma heap_step_upd: "heap_step h F h' F' \<Longrightarrow> a \<in> F' \<Longrightarrow> heap_step h F (h'(a \<mapsto> n)) F'"
  unfolding heap_step_def by (metis fun_upd_apply option.distinct(1))

lemma heap_step_free:
  assumes "heap_step h F h' F'" "a \<in> F'"
  shows "heap_step h F (h'(a := None)) (F' - {a})"
  unfolding heap_step_def
proof
  fix x
  from assms(1) [unfolded heap_step_def, THEN spec [of _ x]] assms(2)
  show "(x \<in> F \<longrightarrow> h x \<noteq> None) \<and> (x \<in> F' - {a} \<longrightarrow> (h'(a := None)) x \<noteq> None) \<and>
     (x \<notin> F \<longrightarrow> (if x \<in> F' - {a} then h x = None else (h'(a := None)) x = h x)) \<and>
     (x \<in> F \<longrightarrow> x \<notin> F' - {a} \<longrightarrow> (h'(a := None)) x = None)"
    by (cases "x = a"; cases "x \<in> F"; cases "x \<in> F'") simp_all
qed

lemma heap_step_add:
  assumes "heap_step h F h' F'" "h' a = None"
  shows "heap_step h F (h'(a \<mapsto> n)) (insert a F')"
  unfolding heap_step_def
proof
  fix x
  from assms(1) [unfolded heap_step_def, THEN spec [of _ x]] assms(2)
  show "(x \<in> F \<longrightarrow> h x \<noteq> None) \<and> (x \<in> insert a F' \<longrightarrow> (h'(a \<mapsto> n)) x \<noteq> None) \<and>
     (x \<notin> F \<longrightarrow> (if x \<in> insert a F' then h x = None else (h'(a \<mapsto> n)) x = h x)) \<and>
     (x \<in> F \<longrightarrow> x \<notin> insert a F' \<longrightarrow> (h'(a \<mapsto> n)) x = None)"
    by (cases "x = a"; cases "x \<in> F"; cases "x \<in> F'") simp_all
qed

lemma heap_step_cong: "heap_step h F h' F' \<Longrightarrow> F = G \<Longrightarrow> F' = G' \<Longrightarrow> heap_step h G h' G'"
  by simp

section \<open>A concrete allocator, for the witnesses\<close>

text \<open>\<^term>\<open>k\<close> blocks at the addresses from \<^term>\<open>b\<close> on, all with the contents \<^term>\<open>n\<close>.\<close>

definition demo_blocks :: "nat \<Rightarrow> nat \<Rightarrow> 'n \<Rightarrow> (addr \<times> 'n) list" where
  "demo_blocks b k n = map (\<lambda>i. (of_nat (b + i), n)) [0..<k]"

lemma unat_demo_addr: "i < 10000 \<Longrightarrow> unat (of_nat i :: addr) = i"
  by (simp add: unat_of_nat)

lemma demo_addr_inj: "i < 10000 \<Longrightarrow> j < 10000 \<Longrightarrow> (of_nat i :: addr) = of_nat j \<longleftrightarrow> i = j"
  by (metis unat_demo_addr)

lemma demo_blocks_ok:
  assumes "P n" "0 < b" "b + k < 10000" "j \<le> k" "dom c \<subseteq> of_nat ` {0..<b}"
  shows "mem_ok P j \<lparr>cells = c, blocks = demo_blocks b k n\<rparr>"
proof -
  have "c (of_nat (b + i)) = None" "(of_nat (b + i) :: addr) \<noteq> nullptr" if "i < k" for i
  proof -
    have "(of_nat (b + i) :: addr) \<notin> of_nat ` {0..<b}"
    proof
      assume "(of_nat (b + i) :: addr) \<in> of_nat ` {0..<b}"
      then obtain x where "x < b" "(of_nat (b + i) :: addr) = of_nat x" by auto
      then show False using that assms(3) demo_addr_inj [of "b + i" x] by simp
    qed
    then show "c (of_nat (b + i)) = None" using assms(5) by blast
    show "(of_nat (b + i) :: addr) \<noteq> nullptr"
      using that assms(2,3) demo_addr_inj [of "b + i" 0] by (simp del: of_nat_add)
  qed
  moreover have "inj_on (\<lambda>i. of_nat (b + i) :: addr) {0..<k}"
    using assms(3) by (intro inj_onI) (auto simp: demo_addr_inj simp del: of_nat_add)
  ultimately show ?thesis
    using assms(1,4) by (auto simp: mem_ok_def demo_blocks_def distinct_map comp_def simp del: of_nat_add)
qed

end
