(* ===== verification/Ordered_Map.thy ===== *)
theory Ordered_Map
  imports Prelude
begin

text \<open>
  The abstract specification of every index: a finite map, kept as the list of its bindings in
  strictly ascending key order, for keys of any linear order. Point lookup is \<^term>\<open>map_of\<close>, an update is \<open>kv_upd\<close>,
  and a scan of at most \<^term>\<open>n\<close> bindings from a key on is \<open>kv_scan\<close>.
\<close>

abbreviation ordered :: "('k::linorder \<times> 'v) list \<Rightarrow> bool" where
  "ordered xs \<equiv> sorted_wrt (<) (map fst xs)"

definition kv_upd :: "'k::linorder \<Rightarrow> 'v \<Rightarrow> ('k \<times> 'v) list \<Rightarrow> ('k \<times> 'v) list" where
  "kv_upd k v xs = takeWhile (\<lambda>x. fst x < k) xs @ (k, v) # dropWhile (\<lambda>x. fst x \<le> k) xs"

definition kv_scan :: "'k::linorder \<Rightarrow> nat \<Rightarrow> ('k \<times> 'v) list \<Rightarrow> ('k \<times> 'v) list" where
  "kv_scan k n xs = take n (dropWhile (\<lambda>x. fst x < k) xs)"

lemma takeWhile_fst_less: "\<forall>x \<in> set xs. fst x < (k::'k::linorder) \<Longrightarrow> takeWhile (\<lambda>x. fst x < k) xs = xs"
  by (induction xs) auto

lemma dropWhile_fst_le: "\<forall>x \<in> set xs. fst x < (k::'k::linorder) \<Longrightarrow> dropWhile (\<lambda>x. fst x \<le> k) xs = []"
  by (induction xs) auto

lemma dropWhile_fst_less: "\<forall>x \<in> set xs. fst x < (k::'k::linorder) \<Longrightarrow> dropWhile (\<lambda>x. fst x < k) xs = []"
  by (induction xs) auto

lemma kv_upd_below:
  assumes "\<forall>x \<in> set xs. fst x < k"
  shows "kv_upd k v (xs @ ys) = xs @ kv_upd k v ys"
  using assms by (induction xs) (auto simp: kv_upd_def)

lemma kv_upd_above:
  assumes "\<forall>x \<in> set zs. k < fst x"
  shows "kv_upd k v (ys @ zs) = kv_upd k v ys @ zs"
proof (induction ys)
  case Nil
  show ?case using assms by (cases zs) (auto simp: kv_upd_def)
next
  case (Cons y ys)
  from assms have "takeWhile (\<lambda>x. fst x < k) zs = []" "dropWhile (\<lambda>x. fst x \<le> k) zs = zs"
    by (cases zs; auto)+
  with Cons show ?case
    by (auto simp: kv_upd_def dropWhile_append takeWhile_append)
qed

lemma kv_upd_middle:
  assumes "\<forall>x \<in> set xs. fst x < k" "\<forall>x \<in> set zs. k < fst x"
  shows "kv_upd k v (xs @ ys @ zs) = xs @ kv_upd k v ys @ zs"
  by (simp add: kv_upd_below kv_upd_above assms)

lemma dropWhile_fst_above: "\<forall>x \<in> set xs. (k::'k::linorder) < fst x \<Longrightarrow> dropWhile (\<lambda>x. fst x \<le> k) xs = xs"
  by (cases xs) (auto simp: not_le)

lemma ordered_append:
  "ordered (xs @ ys) \<longleftrightarrow> ordered xs \<and> ordered ys \<and> (\<forall>x \<in> set xs. \<forall>y \<in> set ys. fst x < fst y)"
  by (auto simp: sorted_wrt_append)

lemma ordered_Cons: "ordered (x # xs) \<longleftrightarrow> (\<forall>y \<in> set xs. fst x < fst y) \<and> ordered xs"
  by auto

lemma kv_upd_Nil: "kv_upd k v [] = [(k, v)]"
  by (simp add: kv_upd_def)

lemma kv_upd_Cons:
  assumes "ordered (x # xs)"
  shows "kv_upd k v (x # xs) =
    (if fst x < k then x # kv_upd k v xs else if fst x = k then (k, v) # xs else (k, v) # x # xs)"
proof -
  have "fst x = k \<Longrightarrow> dropWhile (\<lambda>x. fst x \<le> k) xs = xs"
    using assms by (intro dropWhile_fst_above) (simp add: ordered_Cons)
  then show ?thesis by (auto simp: kv_upd_def not_less)
qed

lemma set_fst_kv_upd:
  assumes "ordered xs"
  shows "fst ` set (kv_upd k v xs) = insert k (fst ` set xs)"
  using assms
proof (induction xs)
  case (Cons x xs)
  then have "fst ` set (kv_upd k v xs) = insert k (fst ` set xs)" by simp
  then show ?case by (simp only: kv_upd_Cons [OF Cons.prems]) auto
qed (simp add: kv_upd_Nil)

lemma set_kv_upd:
  assumes "ordered cs"
  shows "set (kv_upd b a cs) = insert (b, a) {x \<in> set cs. fst x \<noteq> b}"
  using assms
proof (induction cs)
  case (Cons c cs)
  then have "set (kv_upd b a cs) = insert (b, a) {x \<in> set cs. fst x \<noteq> b}" "\<forall>x \<in> set cs. fst c < fst x" by simp_all
  then show ?case unfolding kv_upd_Cons [OF Cons.prems] by auto
qed (simp add: kv_upd_def)

lemma ordered_kv_upd:
  assumes "ordered xs"
  shows "ordered (kv_upd k v xs)"
  using assms
proof (induction xs)
  case (Cons x xs)
  then have IH: "ordered (kv_upd k v xs)" and o: "ordered xs" and
    above: "\<forall>y \<in> set xs. fst x < fst y"
    by simp_all
  have "fst x < k \<Longrightarrow> \<forall>y \<in> set (kv_upd k v xs). fst x < fst y"
    using above set_fst_kv_upd [OF o, of k v] by (metis (no_types, lifting) imageE imageI insertE)
  moreover have "k < fst x \<Longrightarrow> \<forall>y \<in> set xs. k < fst y"
    using above by (meson less_trans)
  ultimately show ?case
    using IH o above by (auto simp: kv_upd_Cons [OF Cons.prems])
qed (simp add: kv_upd_Nil)

lemma map_of_kv_upd_apply:
  assumes "ordered xs"
  shows "map_of (kv_upd k v xs) k' = (if k' = k then Some v else map_of xs k')"
  using assms
proof (induction xs)
  case (Cons x xs)
  then have "map_of (kv_upd k v xs) k' = (if k' = k then Some v else map_of xs k')" by simp
  then show ?case
    unfolding kv_upd_Cons [OF Cons.prems] by (cases x) auto
qed (simp add: kv_upd_Nil)

lemma map_of_kv_upd: "ordered xs \<Longrightarrow> map_of (kv_upd k v xs) = (map_of xs)(k \<mapsto> v)"
  by (rule ext) (simp add: map_of_kv_upd_apply)

lemma map_of_append_ordered:
  fixes k :: "'k::linorder"
  assumes "\<forall>x \<in> set xs. fst x < k" "\<forall>x \<in> set zs. k < fst x"
  shows "map_of (xs @ ys @ zs) k = map_of ys k"
proof -
  have "map_of xs k = None" using assms(1) by (induction xs) auto
  moreover have "map_of zs k = None" using assms(2) by (induction zs) auto
  ultimately show ?thesis by (simp add: map_add_def split: option.split)
qed

lemma map_of_ordered_nth:
  assumes "ordered xs" "i < length xs"
  shows "map_of xs (fst (xs ! i)) = Some (snd (xs ! i))"
proof -
  have "distinct (map fst xs)"
    using assms(1) strict_sorted_iff by blast
  with assms(2) show ?thesis
    by (simp add: map_of_eq_Some_iff)
qed

lemma kv_scan_below:
  assumes "\<forall>x \<in> set xs. fst x < k"
  shows "kv_scan k n (xs @ ys) = kv_scan k n ys"
  using assms by (simp add: kv_scan_def dropWhile_append)

lemma kv_scan_append_above:
  assumes "\<forall>x \<in> set zs. k \<le> fst x"
  shows "kv_scan k n (ys @ zs) = take n (dropWhile (\<lambda>x. fst x < k) ys @ zs)"
proof (cases "\<exists>y \<in> set ys. \<not> fst y < k")
  case True
  then show ?thesis by (auto simp: kv_scan_def dropWhile_append)
next
  case False
  with assms have "dropWhile (\<lambda>x. fst x < k) zs = zs" by (cases zs) auto
  with False show ?thesis
    by (auto simp: kv_scan_def dropWhile_append dropWhile_fst_less)
qed

text \<open>Appending what still fits.\<close>

definition fill :: "nat \<Rightarrow> kv list \<Rightarrow> kv list \<Rightarrow> kv list" where
  "fill n ret xs = ret @ take (n - length ret) xs"

lemma fill_fill [simp]: "fill n (fill n ret xs) ys = fill n ret (xs @ ys)"
  by (cases "length xs \<le> n - length ret") (auto simp: fill_def)

lemma fill_Nil [simp]: "fill n ret [] = ret"
  by (simp add: fill_def)

lemma fill_full: "n \<le> length ret \<Longrightarrow> fill n ret xs = ret"
  by (simp add: fill_def)

lemma fill_Cons: "length ret < n \<Longrightarrow> fill n ret (x # xs) = fill n (ret @ [x]) xs"
  by (simp add: fill_def Suc_diff_Suc [symmetric])

end
