(* ===== verification/Btree_Spec.thy ===== *)
theory Btree_Spec
  imports Ordered_Map
begin

text \<open>
  The functional B+-tree that the pointer code of \<^verbatim>\<open>lib/trees/btree\<close> (and the in-place code
  of \<^verbatim>\<open>lib/trees/betree\<close>) implements: the values are in the leaves, an internal node holds
  \<open>n\<close> separators and \<open>n + 1\<close> children, and a full child is split before the descent enters it.
  The memory-level theories prove that their code refines \<open>bt_insert\<close>; this theory proves that
  \<open>bt_insert\<close> updates the map, keeps the search-tree order, the balance and the fill bounds.
\<close>

section \<open>Trees\<close>

datatype bt = BLeaf "kv list" | BNode "bt list" "key list"

fun bt_inorder :: "bt \<Rightarrow> kv list" where
  "bt_inorder (BLeaf kvs) = kvs"
| "bt_inorder (BNode ts ks) = concat (map bt_inorder ts)"

abbreviation bts_inorder :: "bt list \<Rightarrow> kv list" where
  "bts_inorder ts \<equiv> concat (map bt_inorder ts)"

fun bt_height :: "bt \<Rightarrow> nat" where
  "bt_height (BLeaf kvs) = 0"
| "bt_height (BNode ts ks) = Suc (Max (insert 0 (set (map bt_height ts))))"

lemma bt_height_child: "t \<in> set ts \<Longrightarrow> bt_height t < bt_height (BNode ts ks)"
  by (simp add: less_Suc_eq_le)

lemma bt_height_BNode_le:
  assumes "\<And>t. t \<in> set ts \<Longrightarrow> bt_height t < n" "0 < n"
  shows "bt_height (BNode ts ks) \<le> n"
  using assms by (simp add: Suc_le_eq)

text \<open>All leaves at depth \<^term>\<open>n\<close>.\<close>

fun bt_bal :: "nat \<Rightarrow> bt \<Rightarrow> bool" where
  "bt_bal n (BLeaf kvs) = (n = 0)"
| "bt_bal n (BNode ts ks) = (case n of 0 \<Rightarrow> False | Suc n' \<Rightarrow> \<forall>t \<in> set ts. bt_bal n' t)"

text \<open>Fill bounds of a node that is not the root, for \<^verbatim>\<open>B = 8\<close>.\<close>

fun bt_ord :: "bt \<Rightarrow> bool" where
  "bt_ord (BLeaf kvs) = (8 \<le> length kvs \<and> length kvs \<le> 15)"
| "bt_ord (BNode ts ks) = (7 \<le> length ks \<and> length ks \<le> 15 \<and> length ts = Suc (length ks) \<and>
     (\<forall>t \<in> set ts. bt_ord t))"

fun bt_root_ord :: "bt \<Rightarrow> bool" where
  "bt_root_ord (BLeaf kvs) = (length kvs \<le> 15)"
| "bt_root_ord (BNode ts ks) = (1 \<le> length ks \<and> length ks \<le> 15 \<and> length ts = Suc (length ks) \<and>
     (\<forall>t \<in> set ts. bt_ord t))"

section \<open>Search-tree order\<close>

text \<open>An upper bound of \<^term>\<open>None\<close> is no bound.\<close>

fun below :: "key \<Rightarrow> key option \<Rightarrow> bool" where
  "below k None = True"
| "below k (Some h) = (k < h)"

lemma below_trans: "below k h \<Longrightarrow> k' < k \<Longrightarrow> below k' h"
  by (cases h) auto

lemma below_trans_le: "below k h \<Longrightarrow> k' \<le> k \<Longrightarrow> below k' h"
  by (cases h) auto

text \<open>
  The keys of the leaves lie in \<open>[lo, hi)\<close> and ascend; the separators lie strictly inside and
  ascend; and a separator divides the keys of the children on its two sides.
\<close>

fun bt_wf :: "key \<Rightarrow> key option \<Rightarrow> bt \<Rightarrow> bool"
  and bts_wf :: "key \<Rightarrow> key option \<Rightarrow> bt list \<Rightarrow> key list \<Rightarrow> bool" where
  "bt_wf lo hi (BLeaf kvs) = (ordered kvs \<and> (\<forall>x \<in> set kvs. lo \<le> fst x \<and> below (fst x) hi))"
| "bt_wf lo hi (BNode ts ks) = bts_wf lo hi ts ks"
| "bts_wf lo hi [] ks = False"
| "bts_wf lo hi (t # ts) [] = (ts = [] \<and> bt_wf lo hi t)"
| "bts_wf lo hi (t # ts) (k # ks) =
     (lo < k \<and> below k hi \<and> bt_wf lo (Some k) t \<and> bts_wf k hi ts ks)"

lemma bts_wf_length: "bts_wf lo hi ts ks \<Longrightarrow> length ts = Suc (length ks)"
  by (induction ts arbitrary: lo ks) (case_tac ks; auto)+

lemma bts_wf_Cons:
  "bts_wf lo hi (t # ts) ks \<longleftrightarrow>
    (case ks of [] \<Rightarrow> ts = [] \<and> bt_wf lo hi t
     | k # ks' \<Rightarrow> lo < k \<and> below k hi \<and> bt_wf lo (Some k) t \<and> bts_wf k hi ts ks')"
  by (cases ks) auto

text \<open>The part of a node to the left of the child searched, and that child's bounds.\<close>

fun bts_wf_pre :: "key \<Rightarrow> key option \<Rightarrow> bt list \<Rightarrow> key list \<Rightarrow> bool" where
  "bts_wf_pre lo hi [] [] = True"
| "bts_wf_pre lo hi (t # ts) (k # ks) =
     (lo < k \<and> below k hi \<and> bt_wf lo (Some k) t \<and> bts_wf_pre k hi ts ks)"
| "bts_wf_pre lo hi _ _ = False"

definition child_lo :: "key \<Rightarrow> key list \<Rightarrow> key" where
  "child_lo lo ks1 = last (lo # ks1)"

definition child_hi :: "key option \<Rightarrow> key list \<Rightarrow> key option" where
  "child_hi hi ks2 = (case ks2 of [] \<Rightarrow> hi | k # _ \<Rightarrow> Some k)"

lemma bts_wf_append:
  assumes "length ts1 = length ks1"
  shows "bts_wf lo hi (ts1 @ t # ts2) (ks1 @ ks2) \<longleftrightarrow>
    bts_wf_pre lo hi ts1 ks1 \<and> bts_wf (child_lo lo ks1) hi (t # ts2) ks2"
  using assms
  by (induction ts1 ks1 arbitrary: lo rule: list_induct2) (auto simp: child_lo_def)

lemma bts_wf_child:
  assumes "length ts1 = length ks1" "bts_wf lo hi (ts1 @ t # ts2) (ks1 @ ks2)"
  shows "bt_wf (child_lo lo ks1) (child_hi hi ks2) t"
  using assms by (auto simp: bts_wf_append bts_wf_Cons child_hi_def split: list.splits)

lemma bts_wf_replace:
  assumes "length ts1 = length ks1" "bts_wf lo hi (ts1 @ t # ts2) (ks1 @ ks2)"
    and "bt_wf (child_lo lo ks1) (child_hi hi ks2) t'"
  shows "bts_wf lo hi (ts1 @ t' # ts2) (ks1 @ ks2)"
  using assms by (auto simp: bts_wf_append bts_wf_Cons child_hi_def split: list.splits)

lemma bts_wf_split:
  assumes "length ts1 = length ks1" "bts_wf lo hi (ts1 @ t # ts2) (ks1 @ ks2)"
    and "bt_wf (child_lo lo ks1) (Some p) l" "bt_wf p (child_hi hi ks2) r"
    and "child_lo lo ks1 < p" "below p (child_hi hi ks2)"
  shows "bts_wf lo hi (ts1 @ l # r # ts2) (ks1 @ p # ks2)"
proof -
  have "below p hi"
    using assms(1,2,6)
    by (auto simp: bts_wf_append bts_wf_Cons child_hi_def intro: below_trans split: list.splits)
  with assms show ?thesis
    by (auto simp: bts_wf_append bts_wf_Cons child_hi_def split: list.splits)
qed

lemma bts_wf_pre_weaken: "bts_wf_pre lo hi ts ks \<Longrightarrow> bts_wf_pre lo None ts ks"
  by (induction lo hi ts ks rule: bts_wf_pre.induct) auto

lemma child_lo_simps [simp]: "child_lo lo [] = lo" "child_lo lo (k # ks) = child_lo k ks"
  by (simp_all add: child_lo_def)

lemma child_lo_ge: "bts_wf_pre lo hi ts ks \<Longrightarrow> lo \<le> child_lo lo ks"
proof (induction lo hi ts ks rule: bts_wf_pre.induct)
  case (2 lo hi t ts k ks)
  then show ?case by (auto intro: order.trans [of lo k])
qed auto

lemma bt_wf_keys:
  "bt_wf lo hi t \<Longrightarrow> x \<in> set (bt_inorder t) \<Longrightarrow> lo \<le> fst x \<and> below (fst x) hi"
  "bts_wf lo hi ts ks \<Longrightarrow> x \<in> set (bts_inorder ts) \<Longrightarrow> lo \<le> fst x \<and> below (fst x) hi"
proof (induction lo hi t and lo hi ts ks rule: bt_wf_bts_wf.induct)
  case (5 lo hi t ts k ks)
  then show ?case
    by (auto intro: below_trans order.trans less_imp_le)
qed auto

lemma bt_wf_ordered:
  "bt_wf lo hi t \<Longrightarrow> ordered (bt_inorder t)"
  "bts_wf lo hi ts ks \<Longrightarrow> ordered (bts_inorder ts)"
proof (induction lo hi t and lo hi ts ks rule: bt_wf_bts_wf.induct)
  case (5 lo hi t ts k ks)
  have "\<forall>x \<in> set (bt_inorder t). \<forall>y \<in> set (bts_inorder ts). fst x < fst y"
  proof (intro ballI)
    fix x y
    assume "x \<in> set (bt_inorder t)" "y \<in> set (bts_inorder ts)"
    then show "fst x < fst y"
      using 5 bt_wf_keys(1) [of lo "Some k" t x] bt_wf_keys(2) [of k hi ts ks y]
      by (auto simp del: set_concat)
  qed
  with 5 have "ordered (bt_inorder t @ bts_inorder ts)"
    unfolding ordered_append by simp
  then show ?case by simp
qed auto

text \<open>The separators ascend strictly, and keys left of a separator are smaller.\<close>

lemma bts_wf_separators: "bts_wf lo hi ts ks \<Longrightarrow> sorted_wrt (<) ks \<and> (\<forall>k \<in> set ks. lo < k)"
proof (induction ts arbitrary: lo ks)
  case (Cons t ts)
  then show ?case by (cases ks) (fastforce dest: less_trans)+
qed simp

lemma bts_wf_pre_keys:
  "bts_wf_pre lo hi ts ks \<Longrightarrow> ks \<noteq> [] \<Longrightarrow> x \<in> set (bts_inorder ts) \<Longrightarrow> fst x < child_lo lo ks"
proof (induction lo hi ts ks rule: bts_wf_pre.induct)
  case (2 lo hi t ts k ks)
  from 2 have k: "k \<le> child_lo k ks" by (auto dest: child_lo_ge)
  show ?case
  proof (cases "x \<in> set (bt_inorder t)")
    case True
    with 2 have "fst x < k" by (auto dest: bt_wf_keys(1))
    with k show ?thesis by simp
  next
    case False
    with 2 show ?thesis by (cases "ks = []"; cases ts) auto
  qed
qed auto

text \<open>
  The number of separators not above the key is the index of the child to search: the result of
  the loop \<^verbatim>\<open>findch\<close>.
\<close>

definition findch_idx :: "key list \<Rightarrow> key \<Rightarrow> nat" where
  "findch_idx ks k = length (takeWhile (\<lambda>x. x \<le> k) ks)"

definition findval_idx :: "key list \<Rightarrow> key \<Rightarrow> nat" where
  "findval_idx ks k = length (takeWhile (\<lambda>x. x < k) ks)"

lemma findch_idx_le: "findch_idx ks k \<le> length ks"
  by (simp add: findch_idx_def length_takeWhile_le)

lemma findval_idx_le: "findval_idx ks k \<le> length ks"
  by (simp add: findval_idx_def length_takeWhile_le)

lemma findch_cases:
  assumes "bts_wf lo hi ts ks"
  obtains ts1 t ts2 ks1 ks2 where "ts = ts1 @ t # ts2" "ks = ks1 @ ks2"
    "length ts1 = length ks1" "findch_idx ks k = length ks1"
    "\<forall>x \<in> set ks1. x \<le> k" "\<forall>x \<in> set ks2. k < x"
proof -
  let ?i = "findch_idx ks k"
  let ?ks1 = "takeWhile (\<lambda>x. x \<le> k) ks" and ?ks2 = "dropWhile (\<lambda>x. x \<le> k) ks"
  have "?i < length ts"
    using assms findch_idx_le [of ks k] by (auto dest: bts_wf_length)
  then obtain ts1 t ts2 where "ts = ts1 @ t # ts2" "length ts1 = ?i"
    by (blast elim: list_split_nth)
  moreover have "sorted ks"
    using assms by (auto dest!: bts_wf_separators simp: strict_sorted_iff)
  ultimately show thesis
    by (intro that [of ts1 t ts2 ?ks1 ?ks2])
      (auto simp: findch_idx_def takeWhile_le_less_drop dest: set_takeWhileD)
qed

text \<open>Everything left of the searched child is below the key, everything right of it above.\<close>

lemma findch_sides:
  assumes wf: "bts_wf lo hi (ts1 @ t # ts2) (ks1 @ ks2)" and len: "length ts1 = length ks1"
    and k: "\<forall>x \<in> set ks1. x \<le> k" "\<forall>x \<in> set ks2. k < x"
  shows "\<forall>x \<in> set (bts_inorder ts1). fst x < k" "\<forall>x \<in> set (bts_inorder ts2). k < fst x"
proof -
  from wf len have pre: "bts_wf_pre lo hi ts1 ks1"
    and rest: "bts_wf (child_lo lo ks1) hi (t # ts2) ks2"
    by (simp_all add: bts_wf_append)
  show "\<forall>x \<in> set (bts_inorder ts1). fst x < k"
  proof (cases "ks1 = []")
    case True
    with len show ?thesis by simp
  next
    case False
    then have "child_lo lo ks1 \<in> set ks1" by (simp add: child_lo_def)
    then have "child_lo lo ks1 \<le> k" using k(1) by blast
    then show ?thesis
      using bts_wf_pre_keys [OF pre False] by (meson less_le_trans)
  qed
  show "\<forall>x \<in> set (bts_inorder ts2). k < fst x"
  proof (cases ks2)
    case Nil
    with rest show ?thesis by simp
  next
    case (Cons k2 ks2')
    with rest have "bts_wf k2 hi ts2 ks2'" by simp
    then have "\<forall>x \<in> set (bts_inorder ts2). k2 \<le> fst x"
      using bt_wf_keys(2) by blast
    moreover have "k < k2" using k(2) Cons by simp
    ultimately show ?thesis by (meson less_le_trans)
  qed
qed

lemma findch_bounds:
  assumes wf: "bts_wf lo hi (ts1 @ t # ts2) (ks1 @ ks2)" and len: "length ts1 = length ks1"
    and k: "\<forall>x \<in> set ks1. x \<le> k" "\<forall>x \<in> set ks2. k < x" and "lo \<le> k" "below k hi"
  shows "child_lo lo ks1 \<le> k" "below k (child_hi hi ks2)"
proof -
  show "child_lo lo ks1 \<le> k"
    using k(1) \<open>lo \<le> k\<close> by (cases "ks1 = []") (simp_all add: child_lo_def)
  show "below k (child_hi hi ks2)"
    using k(2) \<open>below k hi\<close> by (cases ks2) (simp_all add: child_hi_def)
qed

section \<open>Lookup and scan\<close>

function bt_find :: "bt \<Rightarrow> key \<Rightarrow> val option" where
  "bt_find (BLeaf kvs) k = map_of kvs k"
| "bt_find (BNode ts ks) k =
     (if findch_idx ks k < length ts then bt_find (ts ! findch_idx ks k) k else None)"
  by pat_completeness auto
termination
  by (relation "measure (\<lambda>(t, k). bt_height t)") (auto simp: less_Suc_eq_le)

lemma bt_find_map_of:
  assumes "bt_wf lo hi t"
  shows "bt_find t k = map_of (bt_inorder t) k"
  using assms
proof (induction t k arbitrary: lo hi rule: bt_find.induct)
  case (2 ts ks k)
  from \<open>bt_wf lo hi (BNode ts ks)\<close> have wf: "bts_wf lo hi ts ks" by simp
  then obtain ts1 t ts2 ks1 ks2 where
    d: "ts = ts1 @ t # ts2" "ks = ks1 @ ks2" "length ts1 = length ks1"
      "findch_idx ks k = length ks1" "\<forall>x \<in> set ks1. x \<le> k" "\<forall>x \<in> set ks2. k < x"
    by (rule findch_cases)
  have at: "ts ! findch_idx ks k = t"
    using d by (metis nth_append_length)
  have "bt_find (BNode ts ks) k = bt_find t k"
    using d at by simp
  also have "\<dots> = map_of (bt_inorder t) k"
    using "2.IH" [of "child_lo lo ks1" "child_hi hi ks2"] d at wf
    by (simp add: bts_wf_child)
  also have "\<dots> = map_of (bt_inorder (BNode ts ks)) k"
    using findch_sides [of lo hi ts1 t ts2 ks1 ks2 k] wf d
    by (simp add: map_of_append_ordered del: map_of_append)
  finally show ?case .
qed simp

section \<open>Insertion\<close>

text \<open>
  Updating a leaf yields one leaf, or two leaves and the key that divides them. The value of a
  key that is there already is overwritten by \<^term>\<open>ow\<close>, a parameter: the in-place update and
  the copy-on-write update of \<^verbatim>\<open>lib/trees/btree\<close> differ only there.
\<close>

type_synonym overwrite = "kv list \<Rightarrow> nat \<Rightarrow> val \<Rightarrow> kv list"

datatype up = One bt | Two bt key bt

fun up_inorder :: "up \<Rightarrow> kv list" where
  "up_inorder (One t) = bt_inorder t"
| "up_inorder (Two l p r) = bt_inorder l @ bt_inorder r"

definition leaf_upd :: "overwrite \<Rightarrow> kv list \<Rightarrow> key \<Rightarrow> val \<Rightarrow> up" where
  "leaf_upd ow kvs k v =
     (let i = findval_idx (map fst kvs) k; kvs' = take i kvs @ (k, v) # drop i kvs
      in if i < length kvs \<and> fst (kvs ! i) = k then One (BLeaf (ow kvs i v))
         else if length kvs < 15 then One (BLeaf kvs')
         else Two (BLeaf (take 8 kvs')) (fst (kvs' ! 8)) (BLeaf (drop 8 kvs')))"

definition put_child :: "bt list \<Rightarrow> key list \<Rightarrow> nat \<Rightarrow> up \<Rightarrow> bt" where
  "put_child ts ks i u =
     (case u of One t \<Rightarrow> BNode (ts[i := t]) ks
      | Two l p r \<Rightarrow> BNode (take i ts @ l # r # drop (i + 1) ts) (take i ks @ p # drop i ks))"

definition split_l :: "bt list \<Rightarrow> key list \<Rightarrow> bt" where
  "split_l ts ks = BNode (take 8 ts) (take 7 ks)"

definition split_r :: "bt list \<Rightarrow> key list \<Rightarrow> bt" where
  "split_r ts ks = BNode (drop 8 ts) (drop 8 ks)"

lemma bt_height_mono: "set us \<subseteq> set ts \<Longrightarrow> bt_height (BNode us ks) \<le> bt_height (BNode ts ks')"
  by (auto intro!: Max_mono)

lemma bt_height_split:
  "bt_height (split_l ts ks) \<le> bt_height (BNode ts ks')"
  "bt_height (split_r ts ks) \<le> bt_height (BNode ts ks')"
  unfolding split_l_def split_r_def by (intro bt_height_mono set_take_subset set_drop_subset)+

lemma bt_height_nth:
  "i < length ts \<Longrightarrow> ts ! i = BNode ts' ks' \<Longrightarrow> bt_height (BNode ts' ks') < bt_height (BNode ts ks)"
  by (metis bt_height_child nth_mem)

text \<open>
  \<open>bt_ins\<close> is the descent through an internal node that is not full.
\<close>

function bt_ins :: "overwrite \<Rightarrow> key \<Rightarrow> val \<Rightarrow> bt \<Rightarrow> bt" where
  "bt_ins ow k v (BLeaf kvs) = BLeaf kvs"
| "bt_ins ow k v (BNode ts ks) =
     (let i = findch_idx ks k in
      if i < length ts then
        (case ts ! i of
           BLeaf kvs \<Rightarrow> put_child ts ks i (leaf_upd ow kvs k v)
         | BNode ts' ks' \<Rightarrow>
             if length ks' < 15 then BNode (ts[i := bt_ins ow k v (BNode ts' ks')]) ks
             else if ks' ! 7 \<le> k
             then put_child ts ks i (Two (split_l ts' ks') (ks' ! 7) (bt_ins ow k v (split_r ts' ks')))
             else put_child ts ks i (Two (bt_ins ow k v (split_l ts' ks')) (ks' ! 7) (split_r ts' ks')))
      else BNode ts ks)"
  by pat_completeness auto
termination
proof (relation "measure (\<lambda>(ow, k, v, t). bt_height t)", goal_cases)
  case 1
  show ?case by simp
next
  case (2 ow k v ts ks i ts' ks')
  then show ?case by (simp add: bt_height_nth del: bt_height.simps)
next
  case (3 ow k v ts ks i ts' ks')
  then show ?case
    using order_le_less_trans [OF bt_height_split(2) bt_height_nth]
    by (simp del: bt_height.simps)
next
  case (4 ow k v ts ks i ts' ks')
  then show ?case
    using order_le_less_trans [OF bt_height_split(1) bt_height_nth]
    by (simp del: bt_height.simps)
qed

fun bt_insert :: "overwrite \<Rightarrow> key \<Rightarrow> val \<Rightarrow> bt \<Rightarrow> bt" where
  "bt_insert ow k v (BLeaf kvs) =
     (case leaf_upd ow kvs k v of One t \<Rightarrow> t | Two l p r \<Rightarrow> BNode [l, r] [p])"
| "bt_insert ow k v (BNode ts ks) =
     (if length ks < 15 then bt_ins ow k v (BNode ts ks)
      else if ks ! 7 \<le> k then BNode [split_l ts ks, bt_ins ow k v (split_r ts ks)] [ks ! 7]
      else BNode [bt_ins ow k v (split_l ts ks), split_r ts ks] [ks ! 7])"

declare bt_ins.simps(2) [simp del]

lemma bt_ins_leaf:
  assumes "findch_idx ks k < length ts" "ts ! findch_idx ks k = BLeaf kvs"
  shows "bt_ins ow k v (BNode ts ks) = put_child ts ks (findch_idx ks k) (leaf_upd ow kvs k v)"
  using assms by (simp add: bt_ins.simps(2) Let_def)

lemma bt_ins_room:
  assumes "findch_idx ks k < length ts" "ts ! findch_idx ks k = BNode us js" "length js < 15"
  shows "bt_ins ow k v (BNode ts ks) = put_child ts ks (findch_idx ks k) (One (bt_ins ow k v (BNode us js)))"
  using assms by (subst bt_ins.simps(2)) (simp add: Let_def put_child_def)

lemma bt_ins_full:
  assumes "findch_idx ks k < length ts" "ts ! findch_idx ks k = BNode us js" "\<not> length js < 15"
  shows "bt_ins ow k v (BNode ts ks) = put_child ts ks (findch_idx ks k)
    (if js ! 7 \<le> k then Two (split_l us js) (js ! 7) (bt_ins ow k v (split_r us js))
     else Two (bt_ins ow k v (split_l us js)) (js ! 7) (split_r us js))"
  using assms by (subst bt_ins.simps(2)) (simp add: Let_def)

section \<open>Leaves\<close>

lemma findval_idx_split:
  assumes "ordered kvs" and i: "i = findval_idx (map fst kvs) k"
  shows "\<forall>x \<in> set (take i kvs). fst x < k"
    and "\<forall>x \<in> set (drop i kvs). k \<le> fst x"
    and "i < length kvs \<and> fst (kvs ! i) = k \<longleftrightarrow> k \<in> fst ` set kvs"
proof -
  have take: "take i kvs = takeWhile (\<lambda>x. fst x < k) kvs"
    and drop: "drop i kvs = dropWhile (\<lambda>x. fst x < k) kvs"
    unfolding i findval_idx_def
    by (simp_all add: takeWhile_map comp_def)
  show lo: "\<forall>x \<in> set (take i kvs). fst x < k"
    unfolding take by (auto dest: set_takeWhileD)
  show hi: "\<forall>x \<in> set (drop i kvs). k \<le> fst x"
    unfolding drop using assms(1) by (induction kvs) (auto simp: not_less intro: less_imp_le order_trans)
  show "i < length kvs \<and> fst (kvs ! i) = k \<longleftrightarrow> k \<in> fst ` set kvs"
  proof
    assume "i < length kvs \<and> fst (kvs ! i) = k"
    then show "k \<in> fst ` set kvs" by force
  next
    assume "k \<in> fst ` set kvs"
    then obtain x where x: "x \<in> set kvs" "fst x = k" by blast
    then have "x \<in> set (take i kvs) \<or> x \<in> set (drop i kvs)"
      by (metis append_take_drop_id set_append UnE)
    with lo x have "x \<in> set (drop i kvs)" by auto
    moreover obtain y ys where ys: "drop i kvs = y # ys"
      using calculation by (cases "drop i kvs") auto
    ultimately have "x = y \<or> x \<in> set ys" by simp
    moreover have "ordered (drop i kvs)"
      using assms(1) by (simp add: drop_map [symmetric] sorted_wrt_drop)
    ultimately have "fst y \<le> fst x" using ys by auto
    moreover have "k \<le> fst y" using hi ys by simp
    ultimately have "fst y = k" using x(2) by simp
    moreover have "i < length kvs" "y = kvs ! i"
      using ys by (metis drop_eq_Nil2 list.distinct(1) not_le, metis hd_drop_conv_nth drop_eq_Nil2 list.distinct(1) list.sel(1) not_le)
    ultimately show "i < length kvs \<and> fst (kvs ! i) = k" by simp
  qed
qed

lemma leaf_insert_kv_upd:
  assumes "ordered kvs" "k \<notin> fst ` set kvs" "i = findval_idx (map fst kvs) k"
  shows "take i kvs @ (k, v) # drop i kvs = kv_upd k v kvs"
proof -
  have "\<forall>x \<in> set (drop i kvs). k < fst x"
    using findval_idx_split [OF assms(1,3)] assms(2) by (metis image_eqI in_set_dropD order_le_less)
  moreover have "kv_upd k v [] = [(k, v)]" by (rule kv_upd_Nil)
  ultimately show ?thesis
    using kv_upd_middle [of "take i kvs" k "drop i kvs" v "[]"] findval_idx_split(1) [OF assms(1,3)]
    by simp
qed

section \<open>Node surgery keeps the order\<close>

fun up_wf :: "key \<Rightarrow> key option \<Rightarrow> up \<Rightarrow> bool" where
  "up_wf lo hi (One t) = bt_wf lo hi t"
| "up_wf lo hi (Two l p r) = (bt_wf lo (Some p) l \<and> bt_wf p hi r \<and> lo < p \<and> below p hi)"

lemma put_child_append:
  assumes "length ts1 = length ks1"
  shows "put_child (ts1 @ t # ts2) (ks1 @ ks2) (length ks1) u =
    (case u of One t' \<Rightarrow> BNode (ts1 @ t' # ts2) (ks1 @ ks2)
     | Two l p r \<Rightarrow> BNode (ts1 @ l # r # ts2) (ks1 @ p # ks2))"
  using assms by (simp add: put_child_def assms [symmetric] split: up.split)

lemma put_child_wf:
  assumes "length ts1 = length ks1" "bts_wf lo hi (ts1 @ t # ts2) (ks1 @ ks2)"
    and "up_wf (child_lo lo ks1) (child_hi hi ks2) u"
  shows "bt_wf lo hi (put_child (ts1 @ t # ts2) (ks1 @ ks2) (length ks1) u)"
  using assms
  by (cases u) (auto simp: put_child_append intro: bts_wf_replace bts_wf_split)

lemma put_child_inorder:
  assumes "length ts1 = length ks1"
  shows "bt_inorder (put_child (ts1 @ t # ts2) (ks1 @ ks2) (length ks1) u)
    = bts_inorder ts1 @ up_inorder u @ bts_inorder ts2"
  using assms by (cases u) (simp_all add: put_child_append)

lemma bts_wf_pre_bound:
  "bts_wf_pre lo hi ts ks \<Longrightarrow> child_lo lo ks < p \<Longrightarrow> bts_wf_pre lo (Some p) ts ks"
proof (induction lo hi ts ks rule: bts_wf_pre.induct)
  case (2 lo hi t ts k ks)
  then show ?case using child_lo_ge [of k hi ts ks] by (auto intro: le_less_trans)
qed auto

lemma split_wf:
  assumes "bt_wf lo hi (BNode ts ks)" "15 \<le> length ks"
  shows "up_wf lo hi (Two (split_l ts ks) (ks ! 7) (split_r ts ks))"
proof -
  from assms have wf: "bts_wf lo hi ts ks" and len: "length ts = Suc (length ks)"
    by (auto dest: bts_wf_length)
  obtain ts1 t ts2 where ts: "ts = ts1 @ t # ts2" "length ts1 = 7"
    by (rule list_split_nth [of 7 ts]) (use len assms(2) in auto)
  obtain ks1 p ks2 where ks: "ks = ks1 @ p # ks2" "length ks1 = 7" "ks ! 7 = p"
    by (rule list_split_nth [of 7 ks]) (use assms(2) in auto)
  have eqs: "take 8 ts = ts1 @ [t]" "drop 8 ts = ts2" "take 7 ks = ks1" "drop 8 ks = ks2"
    using ts ks by simp_all
  from wf have pre: "bts_wf_pre lo hi ts1 ks1" and r: "bts_wf (child_lo lo ks1) hi (t # ts2) (p # ks2)"
    using ts ks bts_wf_append [of ts1 ks1 lo hi t ts2 "p # ks2"] by auto
  have "bts_wf lo (Some p) (ts1 @ [t]) ks1"
    using bts_wf_append [of ts1 ks1 lo "Some p" t "[]" "[]"] ts(2) ks(2) r
      bts_wf_pre_bound [OF pre, of p] by simp
  moreover have "lo < p" using child_lo_ge [OF pre] r by auto
  ultimately show ?thesis
    using r by (simp add: split_l_def split_r_def eqs ks(3))
qed

lemma split_inorder: "bt_inorder (split_l ts ks) @ bt_inorder (split_r ts ks) = bts_inorder ts"
  by (simp add: split_l_def split_r_def flip: concat_append map_append)

text \<open>An update rewrites one leaf, and all other bindings are left of or right of the key.\<close>

definition upd_at :: "overwrite \<Rightarrow> key \<Rightarrow> val \<Rightarrow> kv list \<Rightarrow> kv list \<Rightarrow> bool" where
  "upd_at ow k v xs ys \<longleftrightarrow>
     (\<exists>as kvs bs. xs = as @ kvs @ bs \<and> ys = as @ up_inorder (leaf_upd ow kvs k v) @ bs \<and>
        (\<forall>x \<in> set as. fst x < k) \<and> (\<forall>x \<in> set bs. k < fst x))"

lemma upd_at_leaf: "upd_at ow k v kvs (up_inorder (leaf_upd ow kvs k v))"
  unfolding upd_at_def by (rule exI [of _ "[]"], rule exI [of _ kvs], rule exI [of _ "[]"]) simp

lemma upd_at_context:
  assumes "upd_at ow k v xs ys" "\<forall>x \<in> set as. fst x < k" "\<forall>x \<in> set bs. k < fst x"
  shows "upd_at ow k v (as @ xs @ bs) (as @ ys @ bs)"
proof -
  from assms(1) obtain as' kvs bs' where "xs = as' @ kvs @ bs'"
    "ys = as' @ up_inorder (leaf_upd ow kvs k v) @ bs'"
    "\<forall>x \<in> set as'. fst x < k" "\<forall>x \<in> set bs'. k < fst x"
    unfolding upd_at_def by blast
  with assms(2,3) show ?thesis
    unfolding upd_at_def
    by (intro exI [of _ "as @ as'"] exI [of _ kvs] exI [of _ "bs' @ bs"]) auto
qed

section \<open>The contract of overwriting, and what follows from it\<close>

text \<open>
  All that the search tree needs from an overwrite: it keeps the keys, and the value at the
  index overwritten is the new one. The other values of the leaf are not constrained.
\<close>

locale leaf_overwrite =
  fixes ow :: overwrite
  assumes ow_keys: "map fst (ow kvs i v) = map fst kvs"
    and ow_value: "i < length kvs \<Longrightarrow> snd (ow kvs i v ! i) = v"
begin

lemma ow_length: "length (ow kvs i v) = length kvs"
  by (metis length_map ow_keys)

lemma leaf_upd_absent:
  assumes "ordered kvs" "k \<notin> fst ` set kvs"
  shows "up_inorder (leaf_upd ow kvs k v) = kv_upd k v kvs"
  using findval_idx_split(3) [OF assms(1) refl] leaf_insert_kv_upd [OF assms refl] assms(2)
  by (simp add: leaf_upd_def Let_def)

lemma leaf_upd_present:
  assumes "ordered kvs" "k \<in> fst ` set kvs"
  shows "leaf_upd ow kvs k v = One (BLeaf (ow kvs (findval_idx (map fst kvs) k) v))"
  using findval_idx_split(3) [OF assms(1) refl] assms(2)
  by (simp add: leaf_upd_def Let_def)

lemma leaf_upd_keys:
  assumes "ordered kvs"
  shows "map fst (up_inorder (leaf_upd ow kvs k v)) = map fst (kv_upd k v kvs)"
proof (cases "k \<in> fst ` set kvs")
  case True
  let ?i = "findval_idx (map fst kvs) k"
  from True have i: "?i < length kvs" "fst (kvs ! ?i) = k"
    using findval_idx_split(3) [OF assms refl] by auto
  have "kvs = take ?i kvs @ kvs ! ?i # drop (Suc ?i) kvs"
    by (rule id_take_nth_drop [OF i(1)])
  then obtain as x bs where kvs: "kvs = as @ x # bs" "fst x = k"
    using i by metis
  have "\<forall>y \<in> set as. fst y < k" "\<forall>y \<in> set bs. k < fst y"
    using assms kvs by (auto simp: sorted_wrt_append)
  then have "kv_upd k v kvs = as @ (k, v) # bs"
    using kv_upd_middle [of as k bs v "[x]"] kv_upd_Cons [of x "[]" k v] kvs by simp
  moreover have "map fst (up_inorder (leaf_upd ow kvs k v)) = map fst kvs"
    by (simp add: leaf_upd_present [OF assms True] ow_keys)
  ultimately show ?thesis using kvs by simp
next
  case False
  then show ?thesis by (simp add: leaf_upd_absent assms)
qed

lemma leaf_upd_wf:
  assumes "bt_wf lo hi (BLeaf kvs)" "lo \<le> k" "below k hi"
  shows "up_wf lo hi (leaf_upd ow kvs k v)"
proof -
  let ?ys = "up_inorder (leaf_upd ow kvs k v)"
  from assms(1) have o: "ordered kvs" by simp
  have "set (map fst ?ys) = insert k (fst ` set kvs)"
    using set_fst_kv_upd [OF o] leaf_upd_keys [OF o, of k v] by (metis set_map)
  then have "lo \<le> fst y \<and> below (fst y) hi" if "y \<in> set ?ys" for y
  proof -
    have "fst y \<in> insert k (fst ` set kvs)"
      using that \<open>set (map fst ?ys) = _\<close> by (metis image_eqI set_map)
    then show ?thesis using assms by auto
  qed
  then have bounds: "\<forall>y \<in> set ?ys. lo \<le> fst y \<and> below (fst y) hi" by blast
  have oy: "ordered ?ys"
    using ordered_kv_upd [OF o, of k v] leaf_upd_keys [OF o, of k v] by simp
  show ?thesis
  proof (cases "leaf_upd ow kvs k v")
    case (One t)
    then obtain ys where "t = BLeaf ys"
      by (auto simp: leaf_upd_def Let_def split: if_splits)
    with One oy bounds show ?thesis by simp
  next
    case (Two l p r)
    define i where "i = findval_idx (map fst kvs) k"
    define ys where "ys = take i kvs @ (k, v) # drop i kvs"
    from Two have ys: "l = BLeaf (take 8 ys)" "p = fst (ys ! 8)" "r = BLeaf (drop 8 ys)"
      "15 \<le> length kvs"
      by (auto simp: leaf_upd_def Let_def i_def ys_def simp del: take_append drop_append split: if_splits)
    have len: "length ys = Suc (length kvs)"
      using findval_idx_le [of "map fst kvs" k] by (simp add: ys_def i_def)
    have eq: "?ys = ys" by (simp add: Two ys)
    have d8: "drop 8 ys = ys ! 8 # drop 9 ys"
      using ys(4) len Cons_nth_drop_Suc [of 8 ys] by simp
    then have "take 8 ys @ ys ! 8 # drop 9 ys = ys" by (metis append_take_drop_id)
    then have "ordered (take 8 ys @ ys ! 8 # drop 9 ys)" using oy eq by simp
    then have lt: "\<forall>x \<in> set (take 8 ys). fst x < p" "\<forall>x \<in> set (drop 8 ys). p \<le> fst x"
      unfolding d8 ys(2) by (auto simp: sorted_wrt_append intro: less_imp_le)
    have "ordered (take 8 ys)" "ordered (drop 8 ys)"
      using oy unfolding eq by (simp_all add: take_map [symmetric] drop_map [symmetric] sorted_wrt_take sorted_wrt_drop)
    moreover have "lo < p"
    proof -
      have "ys ! 0 \<in> set (take 8 ys)" using ys(4) len by (simp add: in_set_conv_nth, intro exI [of _ 0]) simp
      then have "fst (ys ! 0) < p" "lo \<le> fst (ys ! 0)"
        using lt bounds unfolding eq by (auto dest: in_set_takeD)
      then show ?thesis by simp
    qed
    moreover have "ys ! 8 \<in> set ys" using ys(4) len by simp
    ultimately show ?thesis
      using bounds lt unfolding eq Two ys(1,3)
      by (auto simp: ys(2) dest: in_set_takeD in_set_dropD)
  qed
qed

text \<open>The effect of an update that does not depend on the values it may lose.\<close>

lemma upd_at_keys:
  assumes "upd_at ow k v xs ys" "ordered xs"
  shows "map fst ys = map fst (kv_upd k v xs)" "map_of ys k = Some v"
    "k \<notin> fst ` set xs \<Longrightarrow> ys = kv_upd k v xs"
proof -
  from assms(1) obtain as kvs bs where u: "xs = as @ kvs @ bs"
    "ys = as @ up_inorder (leaf_upd ow kvs k v) @ bs"
    "\<forall>x \<in> set as. fst x < k" "\<forall>x \<in> set bs. k < fst x"
    unfolding upd_at_def by blast
  with assms(2) have o: "ordered kvs" by (simp add: sorted_wrt_append)
  show keys: "map fst ys = map fst (kv_upd k v xs)"
    using u leaf_upd_keys [OF o, of k v] by (simp add: kv_upd_middle)
  show "k \<notin> fst ` set xs \<Longrightarrow> ys = kv_upd k v xs"
    using u leaf_upd_absent [OF o, of k v] by (simp add: kv_upd_middle image_Un)
  have "map_of (up_inorder (leaf_upd ow kvs k v)) k = Some v"
  proof (cases "k \<in> fst ` set kvs")
    case True
    let ?i = "findval_idx (map fst kvs) k"
    from True have i: "?i < length kvs" "fst (kvs ! ?i) = k"
      using findval_idx_split(3) [OF o refl] by auto
    have "fst (ow kvs ?i v ! ?i) = map fst (ow kvs ?i v) ! ?i"
      by (simp add: i ow_length)
    also have "\<dots> = k" unfolding ow_keys using i by simp
    finally have key: "fst (ow kvs ?i v ! ?i) = k" .
    moreover have "ordered (ow kvs ?i v)"
      using o by (simp add: ow_keys)
    ultimately show ?thesis
      using map_of_ordered_nth [of "ow kvs ?i v" ?i, unfolded key] i
      by (simp only: leaf_upd_present [OF o True] ow_length ow_value up_inorder.simps bt_inorder.simps)
  next
    case False
    then show ?thesis
      by (simp add: leaf_upd_absent o map_of_kv_upd)
  qed
  then show "map_of ys k = Some v"
    unfolding u(2) by (simp only: map_of_append_ordered [OF u(3,4)])
qed

text \<open>Putting an updated child, or its two halves, back into the node.\<close>

lemma put_child_correct:
  assumes len: "length ts1 = length ks1" and wf: "bts_wf lo hi (ts1 @ t # ts2) (ks1 @ ks2)"
    and k: "\<forall>x \<in> set ks1. x \<le> k" "\<forall>x \<in> set ks2. k < x"
    and u: "up_wf (child_lo lo ks1) (child_hi hi ks2) u" "upd_at ow k v (bt_inorder t) (up_inorder u)"
  shows "bt_wf lo hi (put_child (ts1 @ t # ts2) (ks1 @ ks2) (length ks1) u) \<and>
    upd_at ow k v (bts_inorder (ts1 @ t # ts2))
      (bt_inorder (put_child (ts1 @ t # ts2) (ks1 @ ks2) (length ks1) u))"
proof
  show "bt_wf lo hi (put_child (ts1 @ t # ts2) (ks1 @ ks2) (length ks1) u)"
    by (rule put_child_wf [OF len wf u(1)])
  have "upd_at ow k v (bts_inorder ts1 @ bt_inorder t @ bts_inorder ts2)
      (bts_inorder ts1 @ up_inorder u @ bts_inorder ts2)"
    by (rule upd_at_context [OF u(2) findch_sides [OF wf len k]])
  then show "upd_at ow k v (bts_inorder (ts1 @ t # ts2))
      (bt_inorder (put_child (ts1 @ t # ts2) (ks1 @ ks2) (length ks1) u))"
    by (simp only: put_child_inorder [OF len] map_append list.map concat_append concat.simps)
qed

text \<open>Updating one half of a split node.\<close>

lemma split_upd_right:
  assumes split: "up_wf lo hi (Two l p r)" and "p \<le> k"
    and r': "bt_wf p hi r'" "upd_at ow k v (bt_inorder r) (bt_inorder r')"
  shows "up_wf lo hi (Two l p r') \<and>
    upd_at ow k v (bt_inorder l @ bt_inorder r) (up_inorder (Two l p r'))"
proof
  show "up_wf lo hi (Two l p r')" using split r' by simp
  have "\<forall>x \<in> set (bt_inorder l). fst x < k"
  proof
    fix x assume "x \<in> set (bt_inorder l)"
    with split have "fst x < p" using bt_wf_keys(1) [of lo "Some p" l x] by simp
    with \<open>p \<le> k\<close> show "fst x < k" by simp
  qed
  then show "upd_at ow k v (bt_inorder l @ bt_inorder r) (up_inorder (Two l p r'))"
    using upd_at_context [OF r'(2), of "bt_inorder l" "[]"] by simp
qed

lemma split_upd_left:
  assumes split: "up_wf lo hi (Two l p r)" and "k < p"
    and l': "bt_wf lo (Some p) l'" "upd_at ow k v (bt_inorder l) (bt_inorder l')"
  shows "up_wf lo hi (Two l' p r) \<and>
    upd_at ow k v (bt_inorder l @ bt_inorder r) (up_inorder (Two l' p r))"
proof
  show "up_wf lo hi (Two l' p r)" using split l' by simp
  have "\<forall>x \<in> set (bt_inorder r). k < fst x"
  proof
    fix x assume "x \<in> set (bt_inorder r)"
    with split have "p \<le> fst x" using bt_wf_keys(1) [of p hi r x] by simp
    with \<open>k < p\<close> show "k < fst x" by simp
  qed
  then show "upd_at ow k v (bt_inorder l @ bt_inorder r) (up_inorder (Two l' p r))"
    using upd_at_context [OF l'(2), of "[]" "bt_inorder r"] by simp
qed

text \<open>One unfolding of the descent, for the two places where it meets a full node.\<close>

lemma split_upd:
  assumes wf: "bt_wf lo hi (BNode ts ks)" "15 \<le> length ks" and k: "lo \<le> k" "below k hi"
    and IH: "\<And>lo hi us js. BNode us js \<in> {split_l ts ks, split_r ts ks} \<Longrightarrow> bt_wf lo hi (BNode us js) \<Longrightarrow>
      lo \<le> k \<Longrightarrow> below k hi \<Longrightarrow> bt_wf lo hi (bt_ins ow k v (BNode us js)) \<and>
      upd_at ow k v (bt_inorder (BNode us js)) (bt_inorder (bt_ins ow k v (BNode us js)))"
    and u: "u = (if ks ! 7 \<le> k then Two (split_l ts ks) (ks ! 7) (bt_ins ow k v (split_r ts ks))
      else Two (bt_ins ow k v (split_l ts ks)) (ks ! 7) (split_r ts ks))"
  shows "up_wf lo hi u \<and> upd_at ow k v (bts_inorder ts) (up_inorder u)"
proof -
  let ?l = "split_l ts ks" and ?r = "split_r ts ks" and ?p = "ks ! 7"
  have split: "up_wf lo hi (Two ?l ?p ?r)" by (rule split_wf [OF wf])
  have eq: "bts_inorder ts = bt_inorder ?l @ bt_inorder ?r" by (simp add: split_inorder)
  show ?thesis
  proof (cases "?p \<le> k")
    case True
    have "bt_wf ?p hi (bt_ins ow k v ?r) \<and> upd_at ow k v (bt_inorder ?r) (bt_inorder (bt_ins ow k v ?r))"
      using IH [of "drop 8 ts" "drop 8 ks" ?p hi] split True k(2) by (simp add: split_r_def)
    then have "bt_wf ?p hi (bt_ins ow k v ?r)"
      "upd_at ow k v (bt_inorder ?r) (bt_inorder (bt_ins ow k v ?r))" by blast+
    from split_upd_right [OF split True this] show ?thesis unfolding u eq by (simp only: True if_True)
  next
    case False
    have "bt_wf lo (Some ?p) (bt_ins ow k v ?l) \<and> upd_at ow k v (bt_inorder ?l) (bt_inorder (bt_ins ow k v ?l))"
      using IH [of "take 8 ts" "take 7 ks" lo "Some ?p"] split False k(1) by (simp add: split_l_def)
    then have "bt_wf lo (Some ?p) (bt_ins ow k v ?l)"
      "upd_at ow k v (bt_inorder ?l) (bt_inorder (bt_ins ow k v ?l))" by blast+
    moreover have "k < ?p" using False by simp
    ultimately show ?thesis
      using split_upd_left [OF split] unfolding u eq by (simp only: False if_False)
  qed
qed

lemma bt_ins_correct:
  assumes "bt_wf lo hi (BNode ts ks)" "lo \<le> k" "below k hi"
  shows "bt_wf lo hi (bt_ins ow k v (BNode ts ks)) \<and>
    upd_at ow k v (bt_inorder (BNode ts ks)) (bt_inorder (bt_ins ow k v (BNode ts ks)))"
  using assms
proof (induction "bt_height (BNode ts ks)" arbitrary: ts ks lo hi rule: less_induct)
  case less
  from less.prems have wf: "bts_wf lo hi ts ks" by simp
  then obtain ts1 t ts2 ks1 ks2 where
    d: "ts = ts1 @ t # ts2" "ks = ks1 @ ks2" "length ts1 = length ks1"
      "findch_idx ks k = length ks1" "\<forall>x \<in> set ks1. x \<le> k" "\<forall>x \<in> set ks2. k < x"
    by (rule findch_cases)
  let ?lo = "child_lo lo ks1" and ?hi = "child_hi hi ks2"
  have at: "ts ! length ks1 = t" "length ks1 < length ts"
    using d by (metis nth_append_length, simp)
  note wf' = wf [unfolded d(1,2)]
  have bounds: "?lo \<le> k" "below k ?hi"
    using findch_bounds [OF wf' d(3,5,6)] less.prems by blast+
  have child: "bt_wf ?lo ?hi t" by (rule bts_wf_child [OF d(3) wf'])
  have small: "bt_height t < bt_height (BNode ts ks)"
    by (rule bt_height_child) (simp add: d(1))
  have step: "?case" if "up_wf ?lo ?hi u" "upd_at ow k v (bt_inorder t) (up_inorder u)"
      "bt_ins ow k v (BNode ts ks) = put_child ts ks (length ks1) u" for u
    using put_child_correct [OF d(3) wf' d(5,6) that(1,2)] that(3)
    unfolding d(1,2) bt_inorder.simps by (simp only:)
  show ?case
  proof (cases t)
    case (BLeaf kvs)
    show ?thesis
    proof (rule step)
      show "bt_ins ow k v (BNode ts ks) = put_child ts ks (length ks1) (leaf_upd ow kvs k v)"
        using BLeaf at d(4) by (simp add: bt_ins.simps(2) Let_def)
    qed (use child bounds BLeaf in \<open>simp_all add: leaf_upd_wf upd_at_leaf\<close>)
  next
    case (BNode us js)
    show ?thesis
    proof (cases "length js < 15")
      case True
      show ?thesis
      proof (rule step)
        show "bt_ins ow k v (BNode ts ks) = put_child ts ks (length ks1) (One (bt_ins ow k v t))"
          using True BNode at d(4) by (simp add: bt_ins.simps(2) Let_def put_child_def)
      qed (use less.hyps [of us js ?lo ?hi] small child bounds BNode in simp_all)
    next
      case False
      let ?u = "if js ! 7 \<le> k then Two (split_l us js) (js ! 7) (bt_ins ow k v (split_r us js))
        else Two (bt_ins ow k v (split_l us js)) (js ! 7) (split_r us js)"
      have "up_wf ?lo ?hi ?u \<and> upd_at ow k v (bts_inorder us) (up_inorder ?u)"
      proof (rule split_upd [OF _ _ bounds _ refl])
        fix lo hi us' js'
        assume "BNode us' js' \<in> {split_l us js, split_r us js}" "bt_wf lo hi (BNode us' js')"
          "lo \<le> k" "below k hi"
        moreover from this(1) have "bt_height (BNode us' js') < bt_height (BNode ts ks)"
          using small BNode bt_height_split [of us js js] by (auto simp del: bt_height.simps)
        ultimately show "bt_wf lo hi (bt_ins ow k v (BNode us' js')) \<and>
            upd_at ow k v (bt_inorder (BNode us' js')) (bt_inorder (bt_ins ow k v (BNode us' js')))"
          by (intro less.hyps)
      qed (use child BNode False in simp_all)
      moreover have "bt_ins ow k v (BNode ts ks) = put_child ts ks (length ks1) ?u"
        using False BNode at d(4) by (simp add: bt_ins.simps(2) Let_def)
      ultimately show ?thesis using step [of ?u] BNode by simp
    qed
  qed
qed

text \<open>Inserting at the root: the order is kept and exactly one leaf is rewritten.\<close>

lemma bt_insert_correct:
  assumes "bt_wf lo hi t" "lo \<le> k" "below k hi"
  shows "bt_wf lo hi (bt_insert ow k v t) \<and> upd_at ow k v (bt_inorder t) (bt_inorder (bt_insert ow k v t))"
proof -
  have root: "bt_wf lo hi (BNode [l, r] [p]) \<and> upd_at ow k v (bt_inorder t) (bt_inorder (BNode [l, r] [p]))"
    if "up_wf lo hi (Two l p r) \<and> upd_at ow k v (bt_inorder t) (up_inorder (Two l p r))" for l p r
    using that by simp
  show ?thesis
  proof (cases t)
    case (BLeaf kvs)
    have "up_wf lo hi (leaf_upd ow kvs k v) \<and> upd_at ow k v (bt_inorder t) (up_inorder (leaf_upd ow kvs k v))"
      using assms BLeaf by (simp add: leaf_upd_wf upd_at_leaf)
    then show ?thesis
      using root BLeaf by (cases "leaf_upd ow kvs k v") simp_all
  next
    case (BNode ts ks)
    show ?thesis
    proof (cases "length ks < 15")
      case True
      then show ?thesis using bt_ins_correct [of lo hi ts ks k v] assms BNode by simp
    next
      case False
      have "up_wf lo hi u \<and> upd_at ow k v (bts_inorder ts) (up_inorder u)"
        if "u = (if ks ! 7 \<le> k then Two (split_l ts ks) (ks ! 7) (bt_ins ow k v (split_r ts ks))
          else Two (bt_ins ow k v (split_l ts ks)) (ks ! 7) (split_r ts ks))" for u
        by (rule split_upd [OF _ _ assms(2,3) _ that]) (use assms(1) BNode False bt_ins_correct in simp_all)
      then show ?thesis
        using root BNode False by (cases "ks ! 7 \<le> k") simp_all
    qed
  qed
qed

end

section \<open>Balance and fill\<close>

fun up_shape :: "nat \<Rightarrow> up \<Rightarrow> bool" where
  "up_shape n (One t) = (bt_bal n t \<and> bt_ord t)"
| "up_shape n (Two l p r) = (bt_bal n l \<and> bt_ord l \<and> bt_bal n r \<and> bt_ord r)"

definition kids_shape :: "nat \<Rightarrow> bt list \<Rightarrow> bool" where
  "kids_shape n ts \<longleftrightarrow> (\<forall>t \<in> set ts. bt_bal n t \<and> bt_ord t)"

lemma kids_shape_simps [simp]:
  "kids_shape n []" "kids_shape n (t # ts) \<longleftrightarrow> bt_bal n t \<and> bt_ord t \<and> kids_shape n ts"
  "kids_shape n (ts @ us) \<longleftrightarrow> kids_shape n ts \<and> kids_shape n us"
  by (auto simp: kids_shape_def)

lemma kids_shape_subset: "kids_shape n ts \<Longrightarrow> set us \<subseteq> set ts \<Longrightarrow> kids_shape n us"
  by (auto simp: kids_shape_def)

text \<open>A node of height \<^term>\<open>Suc n\<close> whose number of separators is between \<^term>\<open>a\<close> and \<^term>\<open>b\<close>.\<close>

fun node_shape :: "nat \<Rightarrow> nat \<Rightarrow> nat \<Rightarrow> bt \<Rightarrow> bool" where
  "node_shape n a b (BLeaf kvs) = False"
| "node_shape n a b (BNode ts ks) =
     (kids_shape n ts \<and> length ts = Suc (length ks) \<and> a \<le> length ks \<and> length ks \<le> b)"

lemma node_shape_iff: "bt_bal (Suc n) (BNode ts ks) \<and> bt_ord (BNode ts ks) \<longleftrightarrow> node_shape n 7 15 (BNode ts ks)"
  by (auto simp: kids_shape_def)

lemma node_shape_mono: "node_shape n a b t \<Longrightarrow> a' \<le> a \<Longrightarrow> b \<le> b' \<Longrightarrow> node_shape n a' b' t"
  by (cases t) auto

lemma node_shape_up: "node_shape n 7 15 t \<Longrightarrow> bt_bal (Suc n) t \<and> bt_ord t"
  by (cases t) (simp_all only: node_shape_iff node_shape.simps)

lemma put_child_shape:
  assumes "kids_shape n ts" "up_shape n u" "i < length ts" "length ts = Suc (length ks)"
  shows "node_shape n (length ks) (Suc (length ks)) (put_child ts ks i u)"
proof (cases u)
  case (One t)
  moreover have "kids_shape n (ts[i := t])"
    using assms One set_update_subset_insert [of ts i t] by (auto simp: kids_shape_def)
  ultimately show ?thesis using assms(4) by (simp add: put_child_def)
next
  case (Two l p r)
  moreover have "kids_shape n (take i ts)" "kids_shape n (drop (i + 1) ts)"
    using assms(1) by (auto intro: kids_shape_subset dest: in_set_takeD in_set_dropD)
  ultimately show ?thesis
    using assms(2,3,4) by (cases "i = length ks") (auto simp: put_child_def min_def)
qed

lemma split_shape:
  assumes "node_shape n 15 15 (BNode ts ks)"
  shows "node_shape n 7 7 (split_l ts ks)" "node_shape n 7 7 (split_r ts ks)"
  using assms
  by (auto simp: split_l_def split_r_def min_def dest: in_set_takeD in_set_dropD
      intro: kids_shape_subset [of n ts])

context leaf_overwrite
begin

lemma leaf_upd_shape:
  assumes "bt_bal n (BLeaf kvs)" "bt_ord (BLeaf kvs)"
  shows "up_shape n (leaf_upd ow kvs k v)"
  using assms findval_idx_le [of "map fst kvs" k]
  by (auto simp: leaf_upd_def Let_def ow_length)

lemma bt_ins_shape:
  assumes "node_shape n a b (BNode ts ks)" "b < 15"
  shows "node_shape n a (Suc b) (bt_ins ow k v (BNode ts ks))"
  using assms
proof (induction n arbitrary: ts ks a b)
  case 0
  let ?i = "findch_idx ks k"
  from 0 have i: "?i < length ts" using findch_idx_le [of ks k] by simp
  with 0 have c: "bt_bal 0 (ts ! ?i)" "bt_ord (ts ! ?i)" by (simp_all add: kids_shape_def)
  then obtain kvs where leaf: "ts ! ?i = BLeaf kvs" by (cases "ts ! ?i") simp_all
  then have "bt_ins ow k v (BNode ts ks) = put_child ts ks ?i (leaf_upd ow kvs k v)"
    using i by (simp add: bt_ins.simps(2) Let_def)
  moreover have "node_shape 0 (length ks) (Suc (length ks)) (put_child ts ks ?i (leaf_upd ow kvs k v))"
    by (rule put_child_shape) (use 0 i c leaf leaf_upd_shape in simp_all)
  ultimately show ?case using 0 by (auto elim: node_shape_mono)
next
  case (Suc n)
  let ?i = "findch_idx ks k"
  from Suc.prems have i: "?i < length ts" using findch_idx_le [of ks k] by simp
  with Suc.prems have c: "bt_bal (Suc n) (ts ! ?i)" "bt_ord (ts ! ?i)" by (simp_all add: kids_shape_def)
  then obtain us js where node: "ts ! ?i = BNode us js" by (cases "ts ! ?i") simp_all
  with c have child: "node_shape n 7 15 (BNode us js)" by (simp only: node_shape_iff [symmetric])
  have step: ?case if "bt_ins ow k v (BNode ts ks) = put_child ts ks ?i u" "up_shape (Suc n) u" for u
    using put_child_shape [of "Suc n" ts u ?i ks] that i Suc.prems by (auto elim: node_shape_mono)
  show ?case
  proof (cases "length js < 15")
    case True
    then have "node_shape n 7 (length js) (BNode us js)" using child by simp
    then have "node_shape n 7 15 (bt_ins ow k v (BNode us js))"
      using Suc.IH [of 7 "length js" us js] True by (auto elim: node_shape_mono)
    then show ?thesis
      by (intro step [of "One (bt_ins ow k v (BNode us js))"])
        (use node i True node_shape_up in \<open>simp_all add: bt_ins.simps(2) Let_def put_child_def\<close>)
  next
    case False
    with child have "node_shape n 15 15 (BNode us js)" by simp
    note sp = split_shape [OF this]
    let ?u = "if js ! 7 \<le> k then Two (split_l us js) (js ! 7) (bt_ins ow k v (split_r us js))
      else Two (bt_ins ow k v (split_l us js)) (js ! 7) (split_r us js)"
    have "node_shape n 7 15 (bt_ins ow k v (split_l us js))" "node_shape n 7 15 (bt_ins ow k v (split_r us js))"
      using Suc.IH [of 7 7 "take 8 us" "take 7 js"] Suc.IH [of 7 7 "drop 8 us" "drop 8 js"] sp
      by (auto simp: split_l_def split_r_def elim!: node_shape_mono)
    moreover have "node_shape n 7 15 (split_l us js)" "node_shape n 7 15 (split_r us js)"
      using sp by (auto elim: node_shape_mono)
    ultimately have "up_shape (Suc n) ?u" by (simp add: node_shape_up)
    moreover have "bt_ins ow k v (BNode ts ks) = put_child ts ks ?i ?u"
      using node i False by (simp add: bt_ins.simps(2) Let_def)
    ultimately show ?thesis by (rule step [rotated])
  qed
qed

lemma bt_insert_shape:
  assumes "bt_bal n t" "bt_root_ord t"
  shows "bt_root_ord (bt_insert ow k v t) \<and>
    (bt_bal n (bt_insert ow k v t) \<or> bt_bal (Suc n) (bt_insert ow k v t))"
proof (cases t)
  case (BLeaf kvs)
  then show ?thesis
    using assms findval_idx_le [of "map fst kvs" k]
    by (auto simp: leaf_upd_def Let_def ow_length)
next
  case (BNode ts ks)
  with assms obtain n' where n: "n = Suc n'" by (cases n) simp_all
  with assms BNode have shape: "node_shape n' 1 15 (BNode ts ks)" by (auto simp: kids_shape_def)
  have root: ?thesis if "node_shape m 1 15 (bt_insert ow k v t)" "m = n' \<or> m = Suc n'" for m
    using that n by (cases "bt_insert ow k v t") (auto simp: kids_shape_def)
  show ?thesis
  proof (cases "length ks < 15")
    case True
    then have "node_shape n' 1 (length ks) (BNode ts ks)" using shape by simp
    then have "node_shape n' 1 15 (bt_ins ow k v (BNode ts ks))"
      by (rule bt_ins_shape [THEN node_shape_mono]) (use True in simp_all)
    with root [of n'] show ?thesis using BNode True by simp
  next
    case False
    with shape have "node_shape n' 15 15 (BNode ts ks)" by simp
    note sp = split_shape [OF this]
    have "node_shape n' 7 15 (bt_ins ow k v (split_l ts ks))" "node_shape n' 7 15 (bt_ins ow k v (split_r ts ks))"
      using bt_ins_shape [of n' 7 7 "take 8 ts" "take 7 ks" k v]
        bt_ins_shape [of n' 7 7 "drop 8 ts" "drop 8 ks" k v] sp
      by (auto simp: split_l_def split_r_def elim!: node_shape_mono)
    moreover have "node_shape n' 7 15 (split_l ts ks)" "node_shape n' 7 15 (split_r ts ks)"
      using sp by (auto elim: node_shape_mono)
    ultimately have "node_shape (Suc n') 1 15 (bt_insert ow k v t)"
      using BNode False by (auto dest!: node_shape_up)
    with root show ?thesis by blast
  qed
qed

end

section \<open>The two ways of overwriting\<close>

text \<open>In place: the value array is assigned at one index, and everything else stays.\<close>

definition ow_inplace :: overwrite where
  "ow_inplace kvs i v = kvs[i := (fst (kvs ! i), v)]"

text \<open>
  Copy on write, as \<^verbatim>\<open>copy_leaf\<close> does it: only the keys are copied to the new block, so that
  all values but the assigned one are what the block held before, here \<^term>\<open>junk\<close>.
\<close>

definition ow_cow :: "(nat \<Rightarrow> val) \<Rightarrow> overwrite" where
  "ow_cow junk kvs i v = zip (map fst kvs) ((map junk [0..<length kvs])[i := v])"

text \<open>An overwrite that loses nothing: then an update is exactly the update of the map.\<close>

locale exact_overwrite = leaf_overwrite +
  assumes ow_exact: "i < length kvs \<Longrightarrow> ow kvs i v = kvs[i := (fst (kvs ! i), v)]"
begin

lemma leaf_upd_exact:
  assumes "ordered kvs"
  shows "up_inorder (leaf_upd ow kvs k v) = kv_upd k v kvs"
proof (cases "k \<in> fst ` set kvs")
  case True
  let ?i = "findval_idx (map fst kvs) k"
  from True have i: "?i < length kvs" "fst (kvs ! ?i) = k"
    using findval_idx_split(3) [OF assms refl] by auto
  obtain as x bs where kvs: "kvs = as @ x # bs" "length as = ?i" "kvs ! ?i = x"
    by (rule list_split_nth [OF i(1)])
  have "\<forall>y \<in> set as. fst y < k" "\<forall>y \<in> set bs. k < fst y"
    using assms kvs i by (auto simp: sorted_wrt_append)
  then have "kv_upd k v kvs = as @ (k, v) # bs"
    using kv_upd_middle [of as k bs v "[x]"] kv_upd_Cons [of x "[]" k v] kvs i by simp
  moreover have "ow kvs ?i v = as @ (k, v) # bs"
    using ow_exact [OF i(1), of v] i(2) kvs(1,2) by (metis list_update_length)
  ultimately show ?thesis by (simp add: leaf_upd_present [OF assms True])
next
  case False
  then show ?thesis by (simp add: leaf_upd_absent assms)
qed

lemma upd_at_exact:
  assumes "upd_at ow k v xs ys" "ordered xs"
  shows "ys = kv_upd k v xs"
proof -
  from assms(1) obtain as kvs bs where u: "xs = as @ kvs @ bs"
    "ys = as @ up_inorder (leaf_upd ow kvs k v) @ bs"
    "\<forall>x \<in> set as. fst x < k" "\<forall>x \<in> set bs. k < fst x"
    unfolding upd_at_def by blast
  with assms(2) have "ordered kvs" by (simp add: sorted_wrt_append)
  with u show ?thesis by (simp add: leaf_upd_exact kv_upd_middle)
qed

lemma bt_insert_exact:
  assumes "bt_wf 0 None t"
  shows "bt_inorder (bt_insert ow k v t) = kv_upd k v (bt_inorder t)"
  using bt_insert_correct [OF assms, of k v] bt_wf_ordered(1) [OF assms]
  by (auto intro: upd_at_exact)

end

interpretation inplace: exact_overwrite ow_inplace
  by unfold_locales (simp_all add: ow_inplace_def map_update [symmetric] list_update_same_conv map_update)

interpretation cow: leaf_overwrite "ow_cow junk" for junk
  by unfold_locales (simp_all add: ow_cow_def)

text \<open>The two agree wherever the key is new.\<close>

lemma ow_irrelevant:
  assumes "bt_wf 0 None t" "k \<notin> fst ` set (bt_inorder t)"
  shows "bt_inorder (bt_insert (ow_cow junk) k v t) = bt_inorder (bt_insert ow_inplace k v t)"
  using cow.bt_insert_correct [OF assms(1), of k junk v] inplace.bt_insert_exact [OF assms(1), of k v]
    cow.upd_at_keys(3) [OF _ bt_wf_ordered(1) [OF assms(1)] assms(2)]
  by auto

section \<open>Inner roots\<close>

fun bt_inner :: "bt \<Rightarrow> bool" where
  "bt_inner (BLeaf kvs) = False"
| "bt_inner (BNode ts ks) = True"

lemma bt_ins_inner: "bt_inner (bt_ins ow k v (BNode ts ks))"
  by (subst bt_ins.simps(2)) (simp add: Let_def put_child_def split: bt.split up.split)

lemma bt_insert_inner: "bt_inner t \<Longrightarrow> bt_inner (bt_insert ow k v t)"
  by (cases t) (simp_all add: bt_ins_inner)

end
