(* ===== verification/Btree_Node.thy ===== *)
theory Btree_Node
  imports Btree_Spec
begin

text \<open>
  \<^verbatim>\<open>lib/trees/btree/node.hpp\<close>: the node of the B+-tree, its constructors and copies, the
  searches in it, and the insertion of a child. Then the relation between a pointer and the
  functional tree it represents, and the effect of every node operation in its terms.
\<close>

section \<open>Nodes\<close>

datatype btree_type = BT_INTERNAL | BT_LEAF

definition btree_B :: nat where
  "btree_B = 8"

text \<open>
  \<^verbatim>\<open>keys[2*B-1]\<close>, and the union of \<^verbatim>\<open>chs[2*B]\<close> and \<^verbatim>\<open>vals[2*B-1]\<close>: \<^term>\<open>bt_slots\<close> holds
  the 16 words of the union, which are child pointers or values as \<^verbatim>\<open>type\<close> says.
\<close>

record bnode =
  bt_ver :: "32 word"
  bt_type :: btree_type
  bt_size :: nat
  bt_keys :: "key list"
  bt_slots :: "64 word list"

type_synonym bmem = "bnode mem"

text \<open>The shape of a block of \<^verbatim>\<open>sizeof(node)\<close> bytes, whatever its contents.\<close>

definition bnode_ok :: "bnode \<Rightarrow> bool" where
  "bnode_ok n \<longleftrightarrow> length (bt_keys n) = 15 \<and> length (bt_slots n) = 16"

section \<open>Construction and copies\<close>

definition btree_new_node :: "32 word \<Rightarrow> btree_type \<Rightarrow> nat \<Rightarrow> bmem \<Rightarrow> (addr \<times> bmem) option" where
  "btree_new_node ver ty sz m =
     do { (t, m) \<leftarrow> mem_alloc m;
          m \<leftarrow> mem_upd m t (\<lambda>n. Some (n\<lparr>bt_ver := ver, bt_type := ty, bt_size := sz\<rparr>));
          Some (t, m) }"

definition btree_new_leaf :: "32 word \<Rightarrow> nat \<Rightarrow> bmem \<Rightarrow> (addr \<times> bmem) option" where
  "btree_new_leaf ver sz m =
     do { (t, m) \<leftarrow> btree_new_node ver BT_LEAF sz m;
          m \<leftarrow> mem_upd m t (\<lambda>n. do {
                 ks \<leftarrow> arr_zero (bt_keys n) sz (2 * btree_B - sz - 1);
                 vs \<leftarrow> arr_zero (bt_slots n) sz (2 * btree_B - sz);
                 Some (n\<lparr>bt_keys := ks, bt_slots := vs\<rparr>) });
          Some (t, m) }"

definition btree_new_internal :: "32 word \<Rightarrow> nat \<Rightarrow> bmem \<Rightarrow> (addr \<times> bmem) option" where
  "btree_new_internal ver sz m =
     do { (t, m) \<leftarrow> btree_new_node ver BT_INTERNAL sz m;
          m \<leftarrow> mem_upd m t (\<lambda>n. do {
                 ks \<leftarrow> arr_zero (bt_keys n) sz (2 * btree_B - sz - 1);
                 cs \<leftarrow> arr_zero (bt_slots n) (sz + 1) (2 * btree_B - sz - 1);
                 Some (n\<lparr>bt_keys := ks, bt_slots := cs\<rparr>) });
          Some (t, m) }"

definition btree_new_root :: "32 word \<Rightarrow> key \<Rightarrow> addr \<Rightarrow> addr \<Rightarrow> bmem \<Rightarrow> (addr \<times> bmem) option" where
  "btree_new_root ver key ch0 ch1 m =
     do { (t, m) \<leftarrow> btree_new_internal ver 1 m;
          m \<leftarrow> mem_upd m t (\<lambda>n. do {
                 ks \<leftarrow> arr_set (bt_keys n) 0 key;
                 cs \<leftarrow> arr_set (bt_slots n) 0 ch0;
                 cs \<leftarrow> arr_set cs 1 ch1;
                 Some (n\<lparr>bt_keys := ks, bt_slots := cs\<rparr>) });
          Some (t, m) }"

text \<open>
  \<^verbatim>\<open>memcpy(t_new, t, 128)\<close>: the first 128 bytes of a node are \<^verbatim>\<open>ver\<close>, \<^verbatim>\<open>type\<close>, \<^verbatim>\<open>size\<close>, padding
  to 8 bytes, and the 15 keys of 8 bytes. The union starts at byte 128 and is not copied.
\<close>

definition btree_copy_leaf :: "32 word \<Rightarrow> addr \<Rightarrow> bmem \<Rightarrow> (addr \<times> bmem) option" where
  "btree_copy_leaf ver t m =
     do { src \<leftarrow> mem_get m t;
          (t_new, m) \<leftarrow> mem_alloc m;
          m \<leftarrow> mem_upd m t_new (\<lambda>n. Some (n\<lparr>bt_ver := ver, bt_type := bt_type src,
                 bt_size := bt_size src, bt_keys := bt_keys src\<rparr>));
          Some (t_new, m) }"

definition btree_copy_internal :: "32 word \<Rightarrow> addr \<Rightarrow> bmem \<Rightarrow> (addr \<times> bmem) option" where
  "btree_copy_internal ver t m =
     do { src \<leftarrow> mem_get m t;
          (t_new, m) \<leftarrow> mem_alloc m;
          m \<leftarrow> mem_upd m t_new (\<lambda>n. do {
                 ks \<leftarrow> arr_copy (bt_keys n) (bt_keys src) (2 * btree_B - 1);
                 Some (n\<lparr>bt_ver := ver, bt_type := BT_INTERNAL, bt_size := bt_size src, bt_keys := ks\<rparr>) });
          Some (t_new, m) }"

definition btree_split :: "32 word \<Rightarrow> addr \<Rightarrow> bmem \<Rightarrow> ((key \<times> addr \<times> addr) \<times> bmem) option" where
  "btree_split ver t m =
     do { (t_l, m) \<leftarrow> btree_new_internal ver (btree_B - 1) m;
          (t_r, m) \<leftarrow> btree_new_internal ver (btree_B - 1) m;
          src \<leftarrow> mem_get m t;
          m \<leftarrow> mem_upd m t_l (\<lambda>n. do {
                 ks \<leftarrow> arr_copy (bt_keys n) (bt_keys src) (btree_B - 1);
                 Some (n\<lparr>bt_keys := ks\<rparr>) });
          m \<leftarrow> mem_upd m t_r (\<lambda>n. do {
                 ks \<leftarrow> arr_copy (bt_keys n) (drop btree_B (bt_keys src)) (btree_B - 1);
                 Some (n\<lparr>bt_keys := ks\<rparr>) });
          key \<leftarrow> arr_get (bt_keys src) (btree_B - 1);
          Some ((key, t_l, t_r), m) }"

definition btree_copych :: "addr \<Rightarrow> addr \<Rightarrow> bmem \<Rightarrow> bmem option" where
  "btree_copych t_new t_old m =
     do { src \<leftarrow> mem_get m t_old;
          mem_upd m t_new (\<lambda>n. do {
            cs \<leftarrow> arr_copy (bt_slots n) (bt_slots src) (2 * btree_B);
            Some (n\<lparr>bt_slots := cs\<rparr>) }) }"

text \<open>The argument \<^verbatim>\<open>nodeptr* ts\<close> is always a place in a child array: child \<^term>\<open>i\<close> of \<^term>\<open>t\<close>.\<close>

definition btree_copych_split :: "addr \<Rightarrow> nat \<Rightarrow> addr \<Rightarrow> bmem \<Rightarrow> bmem option" where
  "btree_copych_split t i t_old m =
     do { n \<leftarrow> mem_get m t;
          ts0 \<leftarrow> arr_get (bt_slots n) i;
          ts1 \<leftarrow> arr_get (bt_slots n) (i + 1);
          src \<leftarrow> mem_get m t_old;
          m \<leftarrow> mem_upd m ts0 (\<lambda>n. do {
                 cs \<leftarrow> arr_copy (bt_slots n) (bt_slots src) btree_B;
                 Some (n\<lparr>bt_slots := cs\<rparr>) });
          mem_upd m ts1 (\<lambda>n. do {
            cs \<leftarrow> arr_copy (bt_slots n) (drop btree_B (bt_slots src)) btree_B;
            Some (n\<lparr>bt_slots := cs\<rparr>) }) }"

section \<open>Search in a node, and the insertion of a child\<close>

function btree_findch_from :: "bnode \<Rightarrow> key \<Rightarrow> nat \<Rightarrow> nat option" where
  "btree_findch_from t key pos =
     (if pos < bt_size t
      then do { k \<leftarrow> arr_get (bt_keys t) pos;
                if k > key then Some pos else btree_findch_from t key (pos + 1) }
      else Some (bt_size t))"
  by pat_completeness auto
termination
  by (relation "measure (\<lambda>(t, key, pos). bt_size t - pos)") auto

definition btree_findch :: "bnode \<Rightarrow> key \<Rightarrow> nat option" where
  "btree_findch t key = btree_findch_from t key 0"

function btree_findval_from :: "bnode \<Rightarrow> key \<Rightarrow> nat \<Rightarrow> nat option" where
  "btree_findval_from t key pos =
     (if pos < bt_size t
      then do { k \<leftarrow> arr_get (bt_keys t) pos;
                if k < key then btree_findval_from t key (pos + 1) else Some pos }
      else Some pos)"
  by pat_completeness auto
termination
  by (relation "measure (\<lambda>(t, key, pos). bt_size t - pos)") auto

definition btree_findval :: "bnode \<Rightarrow> key \<Rightarrow> nat option" where
  "btree_findval t key = btree_findval_from t key 0"

text \<open>\<^verbatim>\<open>i < t->size && t->keys[i] == key\<close>\<close>

definition btree_key_at :: "bnode \<Rightarrow> nat \<Rightarrow> key \<Rightarrow> bool option" where
  "btree_key_at t i key =
     (if i < bt_size t then do { k \<leftarrow> arr_get (bt_keys t) i; Some (k = key) } else Some False)"

definition btree_insert_child :: "addr \<Rightarrow> key \<Rightarrow> addr \<Rightarrow> addr \<Rightarrow> nat \<Rightarrow> bmem \<Rightarrow> bmem option" where
  "btree_insert_child t key t_l t_r pos m =
     mem_upd m t (\<lambda>n. do {
       ks \<leftarrow> arr_insert (bt_keys n) (bt_size n) pos key;
       cs \<leftarrow> arr_set (bt_slots n) pos t_l;
       cs \<leftarrow> arr_insert cs (bt_size n + 1) (pos + 1) t_r;
       Some (n\<lparr>bt_keys := ks, bt_slots := cs, bt_size := bt_size n + 1\<rparr>) })"

declare btree_findch_from.simps [simp del] btree_findval_from.simps [simp del]

section \<open>What a node represents\<close>

definition leaf_node :: "bnode \<Rightarrow> kv list \<Rightarrow> bool" where
  "leaf_node n kvs \<longleftrightarrow> bnode_ok n \<and> bt_type n = BT_LEAF \<and> bt_size n = length kvs \<and> length kvs \<le> 15 \<and>
     take (length kvs) (bt_keys n) = map fst kvs \<and> take (length kvs) (bt_slots n) = map snd kvs"

definition inner_node :: "bnode \<Rightarrow> key list \<Rightarrow> addr list \<Rightarrow> bool" where
  "inner_node n ks cs \<longleftrightarrow> bnode_ok n \<and> bt_type n = BT_INTERNAL \<and> bt_size n = length ks \<and> length ks \<le> 15 \<and>
     take (length ks) (bt_keys n) = ks \<and> take (Suc (length ks)) (bt_slots n) = cs"

lemma inner_node_length: "inner_node n ks cs \<Longrightarrow> length cs = Suc (length ks)"
  by (auto simp: inner_node_def bnode_ok_def)

lemma take_eq_appendD:
  assumes "take n xs = ys" "n \<le> length xs"
  obtains zs where "xs = ys @ zs" "length ys = n"
  using assms by (metis append_take_drop_id length_take min.absorb2)

lemma findch_from_takeWhile:
  assumes "bt_size n = length (xs @ ys)" "take (length (xs @ ys)) (bt_keys n) = xs @ ys"
    "length (xs @ ys) \<le> length (bt_keys n)" "pos = length xs"
  shows "btree_findch_from n k pos = Some (pos + length (takeWhile (\<lambda>x. x \<le> k) ys))"
  using assms
proof (induction ys arbitrary: xs pos)
  case Nil
  then show ?case by (subst btree_findch_from.simps) simp
next
  case (Cons y ys)
  from Cons.prems have "bt_keys n ! pos = (xs @ y # ys) ! pos"
    by (metis length_append length_Cons less_add_Suc1 nth_take add_Suc_right)
  then have y: "bt_keys n ! pos = y" using Cons.prems(4) by simp
  have "btree_findch_from n k (pos + 1) = Some (pos + 1 + length (takeWhile (\<lambda>x. x \<le> k) ys))"
    by (rule Cons.IH [of "xs @ [y]"]) (use Cons.prems in simp_all)
  with y Cons.prems show ?case
    by (subst btree_findch_from.simps) (simp add: mem_simps not_less)
qed

lemma findval_from_takeWhile:
  assumes "bt_size n = length (xs @ ys)" "take (length (xs @ ys)) (bt_keys n) = xs @ ys"
    "length (xs @ ys) \<le> length (bt_keys n)" "pos = length xs"
  shows "btree_findval_from n k pos = Some (pos + length (takeWhile (\<lambda>x. x < k) ys))"
  using assms
proof (induction ys arbitrary: xs pos)
  case Nil
  then show ?case by (subst btree_findval_from.simps) simp
next
  case (Cons y ys)
  from Cons.prems have "bt_keys n ! pos = (xs @ y # ys) ! pos"
    by (metis length_append length_Cons less_add_Suc1 nth_take add_Suc_right)
  then have y: "bt_keys n ! pos = y" using Cons.prems(4) by simp
  have "btree_findval_from n k (pos + 1) = Some (pos + 1 + length (takeWhile (\<lambda>x. x < k) ys))"
    by (rule Cons.IH [of "xs @ [y]"]) (use Cons.prems in simp_all)
  with y Cons.prems show ?case
    by (subst btree_findval_from.simps) (simp add: mem_simps)
qed

lemma findch_ok [mem_simps]: "inner_node n ks cs \<Longrightarrow> btree_findch n k = Some (findch_idx ks k)"
  using findch_from_takeWhile [of n "[]" ks 0 k]
  by (simp add: btree_findch_def findch_idx_def inner_node_def bnode_ok_def)

lemma findval_ok [mem_simps]: "leaf_node n kvs \<Longrightarrow> btree_findval n k = Some (findval_idx (map fst kvs) k)"
  using findval_from_takeWhile [of n "[]" "map fst kvs" 0 k]
  by (simp add: btree_findval_def findval_idx_def leaf_node_def bnode_ok_def)

lemma leaf_node_nth:
  assumes "leaf_node n kvs" "i < length kvs"
  shows "bt_keys n ! i = fst (kvs ! i)" "bt_slots n ! i = snd (kvs ! i)"
  using assms unfolding leaf_node_def by (metis nth_map nth_take)+

lemma key_at_ok [mem_simps]:
  assumes "leaf_node n kvs"
  shows "btree_key_at n i k = Some (i < length kvs \<and> fst (kvs ! i) = k)"
  using assms leaf_node_nth(1) [OF assms, of i]
  by (auto simp: btree_key_at_def mem_simps leaf_node_def bnode_ok_def)

lemma inner_node_child:
  assumes "inner_node n ks cs" "i < length cs"
  shows "arr_get (bt_slots n) i = Some (cs ! i)"
  using assms unfolding inner_node_def bnode_ok_def arr_get_def
  by (metis inner_node_length assms(1) le_imp_less_Suc length_take less_le_trans min.cobounded1 nth_take)

lemma inner_node_key:
  assumes "inner_node n ks cs" "i < length ks"
  shows "arr_get (bt_keys n) i = Some (ks ! i)"
  using assms unfolding inner_node_def bnode_ok_def arr_get_def
  by (metis less_le_trans nth_take)

section \<open>The effect of the constructors\<close>

lemma new_node_ok:
  assumes "mem_ok bnode_ok (Suc k) m"
  obtains a n m' where "btree_new_node ver ty sz m = Some (a, m')" "mem_new bnode_ok k m a n m'"
    "bnode_ok n" "bt_ver n = ver" "bt_type n = ty" "bt_size n = sz"
proof -
  from mem_alloc_new [OF assms] obtain a junk m1 where
    m1: "mem_alloc m = Some (a, m1)" "mem_new bnode_ok k m a junk m1" "bnode_ok junk" .
  let ?n = "junk\<lparr>bt_ver := ver, bt_type := ty, bt_size := sz\<rparr>"
  from mem_upd_new [OF m1(2), of "\<lambda>n. Some (n\<lparr>bt_ver := ver, bt_type := ty, bt_size := sz\<rparr>)" ?n]
  obtain m' where "mem_upd m1 a (\<lambda>n. Some (n\<lparr>bt_ver := ver, bt_type := ty, bt_size := sz\<rparr>)) = Some m'"
    "mem_new bnode_ok k m a ?n m'" by auto
  with m1 show thesis
    by (intro that [of a m' ?n]) (auto simp: btree_new_node_def bnode_ok_def)
qed

lemma new_leaf_ok:
  assumes "mem_ok bnode_ok (Suc k) m" "sz \<le> 15"
  obtains a n m' where "btree_new_leaf ver sz m = Some (a, m')" "mem_new bnode_ok k m a n m'"
    "bnode_ok n" "bt_ver n = ver" "bt_type n = BT_LEAF" "bt_size n = sz"
proof -
  from new_node_ok [OF assms(1)] obtain a n m1 where
    m1: "btree_new_node ver BT_LEAF sz m = Some (a, m1)" "mem_new bnode_ok k m a n m1"
    "bnode_ok n" "bt_ver n = ver" "bt_type n = BT_LEAF" "bt_size n = sz" .
  let ?n = "n\<lparr>bt_keys := take sz (bt_keys n) @ replicate (15 - sz) 0,
    bt_slots := take sz (bt_slots n) @ replicate (16 - sz) 0\<rparr>"
  let ?f = "\<lambda>n. do { ks \<leftarrow> arr_zero (bt_keys n) sz (2 * btree_B - sz - 1);
    vs \<leftarrow> arr_zero (bt_slots n) sz (2 * btree_B - sz); Some (n\<lparr>bt_keys := ks, bt_slots := vs\<rparr>) }"
  have "?f n = Some ?n"
    using m1(3) assms(2) by (simp add: mem_simps btree_B_def bnode_ok_def)
  from mem_upd_new [where f = ?f, OF m1(2) this] obtain m' where
    "mem_upd m1 a ?f = Some m'" "mem_new bnode_ok k m a ?n m'" .
  with m1 assms(2) show thesis
    by (intro that [of a m' ?n]) (auto simp: btree_new_leaf_def bnode_ok_def)
qed

lemma new_internal_ok:
  assumes "mem_ok bnode_ok (Suc k) m" "sz \<le> 15"
  obtains a n m' where "btree_new_internal ver sz m = Some (a, m')" "mem_new bnode_ok k m a n m'"
    "bnode_ok n" "bt_ver n = ver" "bt_type n = BT_INTERNAL" "bt_size n = sz"
proof -
  from new_node_ok [OF assms(1)] obtain a n m1 where
    m1: "btree_new_node ver BT_INTERNAL sz m = Some (a, m1)" "mem_new bnode_ok k m a n m1"
    "bnode_ok n" "bt_ver n = ver" "bt_type n = BT_INTERNAL" "bt_size n = sz" .
  let ?n = "n\<lparr>bt_keys := take sz (bt_keys n) @ replicate (15 - sz) 0,
    bt_slots := take (sz + 1) (bt_slots n) @ replicate (15 - sz) 0\<rparr>"
  let ?f = "\<lambda>n. do { ks \<leftarrow> arr_zero (bt_keys n) sz (2 * btree_B - sz - 1);
    cs \<leftarrow> arr_zero (bt_slots n) (sz + 1) (2 * btree_B - sz - 1); Some (n\<lparr>bt_keys := ks, bt_slots := cs\<rparr>) }"
  have "?f n = Some ?n"
    using m1(3) assms(2) by (simp add: mem_simps btree_B_def bnode_ok_def)
  from mem_upd_new [where f = ?f, OF m1(2) this] obtain m' where
    "mem_upd m1 a ?f = Some m'" "mem_new bnode_ok k m a ?n m'" .
  with m1 assms(2) show thesis
    by (intro that [of a m' ?n]) (auto simp: btree_new_internal_def bnode_ok_def)
qed

lemma new_root_ok:
  assumes "mem_ok bnode_ok (Suc k) m"
  obtains a n m' where "btree_new_root ver p l r m = Some (a, m')" "mem_new bnode_ok k m a n m'"
    "inner_node n [p] [l, r]" "bt_ver n = ver"
proof -
  have "(1::nat) \<le> 15" by simp
  from new_internal_ok [OF assms this] obtain a n m1 where
    m1: "btree_new_internal ver 1 m = Some (a, m1)" "mem_new bnode_ok k m a n m1"
    "bnode_ok n" "bt_ver n = ver" "bt_type n = BT_INTERNAL" "bt_size n = 1" .
  let ?n = "n\<lparr>bt_keys := (bt_keys n)[0 := p], bt_slots := (bt_slots n)[0 := l, 1 := r]\<rparr>"
  let ?f = "\<lambda>n. do { ks \<leftarrow> arr_set (bt_keys n) 0 p; cs \<leftarrow> arr_set (bt_slots n) 0 l;
    cs \<leftarrow> arr_set cs 1 r; Some (n\<lparr>bt_keys := ks, bt_slots := cs\<rparr>) }"
  have "?f n = Some ?n"
    using m1(3) by (simp add: mem_simps bnode_ok_def)
  from mem_upd_new [where f = ?f, OF m1(2) this] obtain m' where
    "mem_upd m1 a ?f = Some m'" "mem_new bnode_ok k m a ?n m'" .
  moreover have "inner_node ?n [p] [l, r]"
    using m1 by (cases "bt_keys n"; cases "bt_slots n"; cases "tl (bt_slots n)")
      (auto simp: inner_node_def bnode_ok_def)
  ultimately show thesis
    using m1 by (intro that [of a m' ?n]) (auto simp: btree_new_root_def)
qed

section \<open>The effect of copies, of the split, and of the insertion of a child\<close>

text \<open>An internal node whose children are still to be filled in.\<close>

definition inner_shell :: "bnode \<Rightarrow> key list \<Rightarrow> bool" where
  "inner_shell n ks \<longleftrightarrow> bnode_ok n \<and> bt_type n = BT_INTERNAL \<and> bt_size n = length ks \<and> length ks \<le> 15 \<and>
     take (length ks) (bt_keys n) = ks"

lemma inner_shell_node:
  assumes "inner_shell n ks" "length cs = Suc (length ks)" "cs' = take (Suc (length ks)) cs'' "
    "length cs'' = 16" "cs' = cs"
  shows "inner_node (n\<lparr>bt_slots := cs''\<rparr>) ks cs"
  using assms by (simp add: inner_node_def inner_shell_def bnode_ok_def)

lemma copy_leaf_ok:
  assumes "cells m t = Some src" "bnode_ok src" "mem_ok bnode_ok (Suc k) m"
  obtains a n m' where "btree_copy_leaf ver t m = Some (a, m')" "mem_new bnode_ok k m a n m'"
    "bnode_ok n" "bt_type n = bt_type src" "bt_size n = bt_size src" "bt_keys n = bt_keys src"
proof -
  from mem_alloc_new [OF assms(3)] obtain a junk m1 where
    m1: "mem_alloc m = Some (a, m1)" "mem_new bnode_ok k m a junk m1" "bnode_ok junk" .
  let ?f = "\<lambda>n. Some (n\<lparr>bt_ver := ver, bt_type := bt_type src, bt_size := bt_size src, bt_keys := bt_keys src\<rparr>)"
  have "?f junk = Some (the (?f junk))" by simp
  from mem_upd_new [where f = ?f, OF m1(2) this] obtain m' where
    "mem_upd m1 a ?f = Some m'" "mem_new bnode_ok k m a (the (?f junk)) m'" .
  with m1 assms show thesis
    by (intro that [of a m' "the (?f junk)"]) (auto simp: btree_copy_leaf_def mem_simps bnode_ok_def)
qed

lemma copy_internal_ok:
  assumes "cells m t = Some src" "inner_node src ks cs" "mem_ok bnode_ok (Suc k) m"
  obtains a n m' where "btree_copy_internal ver t m = Some (a, m')" "mem_new bnode_ok k m a n m'"
    "inner_shell n ks" "bt_ver n = ver"
proof -
  from mem_alloc_new [OF assms(3)] obtain a junk m1 where
    m1: "mem_alloc m = Some (a, m1)" "mem_new bnode_ok k m a junk m1" "bnode_ok junk" .
  let ?f = "\<lambda>n. do { ks \<leftarrow> arr_copy (bt_keys n) (bt_keys src) (2 * btree_B - 1);
    Some (n\<lparr>bt_ver := ver, bt_type := BT_INTERNAL, bt_size := bt_size src, bt_keys := ks\<rparr>) }"
  let ?n = "junk\<lparr>bt_ver := ver, bt_type := BT_INTERNAL, bt_size := bt_size src, bt_keys := bt_keys src\<rparr>"
  have "?f junk = Some ?n"
    using assms(2) m1(3) by (simp add: mem_simps btree_B_def inner_node_def bnode_ok_def)
  from mem_upd_new [where f = ?f, OF m1(2) this] obtain m' where
    "mem_upd m1 a ?f = Some m'" "mem_new bnode_ok k m a ?n m'" .
  moreover have "inner_shell ?n ks"
    using assms(2) m1(3) by (simp add: inner_shell_def inner_node_def bnode_ok_def)
  ultimately show thesis
    using m1 assms by (intro that [of a m' ?n]) (simp_all add: btree_copy_internal_def mem_simps)
qed

lemma split_ok:
  assumes "cells m t = Some src" "inner_node src ks cs" "length ks = 15" "mem_ok bnode_ok (Suc (Suc k)) m"
  obtains l r nl nr m' where "btree_split ver t m = Some ((ks ! 7, l, r), m')" "l \<noteq> r"
    "l \<noteq> nullptr" "r \<noteq> nullptr" "cells m l = None" "cells m r = None"
    "cells m' = (cells m)(l \<mapsto> nl, r \<mapsto> nr)" "mem_ok bnode_ok k m'"
    "inner_shell nl (take 7 ks)" "inner_shell nr (drop 8 ks)" "bt_ver nl = ver" "bt_ver nr = ver"
proof -
  have "(7::nat) \<le> 15" by simp
  from new_internal_ok [OF assms(4) this, of ver] obtain l nl m1 where
    m1: "btree_new_internal ver 7 m = Some (l, m1)" "mem_new bnode_ok (Suc k) m l nl m1"
    "bnode_ok nl" "bt_ver nl = ver" "bt_type nl = BT_INTERNAL" "bt_size nl = 7" .
  then have "mem_ok bnode_ok (Suc k) m1" by (simp add: mem_new_def)
  from new_internal_ok [OF this \<open>7 \<le> 15\<close>, of ver] obtain r nr m2 where
    m2: "btree_new_internal ver 7 m1 = Some (r, m2)" "mem_new bnode_ok k m1 r nr m2"
    "bnode_ok nr" "bt_ver nr = ver" "bt_type nr = BT_INTERNAL" "bt_size nr = 7" .
  let ?l = "nl\<lparr>bt_keys := take 7 (bt_keys src) @ drop 7 (bt_keys nl)\<rparr>"
  let ?r = "nr\<lparr>bt_keys := take 7 (drop 8 (bt_keys src)) @ drop 7 (bt_keys nr)\<rparr>"
  define m3 where "m3 = m2\<lparr>cells := (cells m2)(l \<mapsto> ?l)\<rparr>"
  define m4 where "m4 = m3\<lparr>cells := (cells m3)(r \<mapsto> ?r)\<rparr>"
  have src: "length (bt_keys src) = 15" "take 15 (bt_keys src) = ks"
    using assms(2,3) by (auto simp: inner_node_def bnode_ok_def)
  then have keys: "bt_keys src = ks" by simp
  have addr: "l \<noteq> r" "l \<noteq> nullptr" "r \<noteq> nullptr" "cells m l = None" "cells m r = None"
    using m1(2) m2(2) by (auto simp: mem_new_def split: if_splits)
  have c2: "cells m2 = (cells m)(l \<mapsto> nl, r \<mapsto> nr)"
    using m1(2) m2(2) by (simp add: mem_new_def)
  have t: "cells m2 t = Some src"
    using c2 assms(1) addr by (auto simp: domIff)
  have u1: "mem_upd m2 l (\<lambda>n. do { ks \<leftarrow> arr_copy (bt_keys n) (bt_keys src) (btree_B - 1);
      Some (n\<lparr>bt_keys := ks\<rparr>) }) = Some m3"
    using c2 addr m1(3) src by (simp add: m3_def mem_upd_def arr_copy_def btree_B_def bnode_ok_def)
  have u2: "mem_upd m3 r (\<lambda>n. do { ks \<leftarrow> arr_copy (bt_keys n) (drop btree_B (bt_keys src)) (btree_B - 1);
      Some (n\<lparr>bt_keys := ks\<rparr>) }) = Some m4"
    using c2 addr m2(3) src by (simp add: m3_def m4_def mem_upd_def arr_copy_def btree_B_def bnode_ok_def)
  have run: "btree_split ver t m = Some ((ks ! 7, l, r), m4)"
    using assms(3) by (simp add: btree_split_def btree_B_def m1(1) m2(1) mem_get_def t keys
        u1 [unfolded btree_B_def keys, simplified] u2 [unfolded btree_B_def keys, simplified] arr_get_def)
  have c4: "cells m4 = (cells m)(l \<mapsto> ?l, r \<mapsto> ?r)"
    using c2 addr by (auto simp: m4_def m3_def)
  have "mem_ok bnode_ok k m2" using m2(2) by (simp add: mem_new_def)
  then have "mem_ok bnode_ok k m4"
    unfolding m4_def m3_def using c2 by (intro mem_ok_cells) auto
  moreover have "inner_shell ?l (take 7 ks)" "inner_shell ?r (drop 8 ks)"
    using m1 m2 src keys assms(3) by (auto simp: inner_shell_def bnode_ok_def)
  ultimately show thesis
    using that [OF run addr c4] m1(4) m2(4) by simp
qed

lemma copych_ok:
  assumes "cells m a = Some n" "inner_shell n ks" "cells m b = Some src" "inner_node src ks cs"
    "mem_ok bnode_ok k m"
  obtains n' m' where "btree_copych a b m = Some m'" "mem_set bnode_ok k m a n' m'" "inner_node n' ks cs"
    "bt_ver n' = bt_ver n"
proof -
  let ?f = "\<lambda>n. do { cs \<leftarrow> arr_copy (bt_slots n) (bt_slots src) (2 * btree_B); Some (n\<lparr>bt_slots := cs\<rparr>) }"
  have "?f n = Some (n\<lparr>bt_slots := bt_slots src\<rparr>)"
    using assms(2,4) by (simp add: mem_simps btree_B_def inner_node_def inner_shell_def bnode_ok_def)
  from mem_upd_set [where f = ?f, OF assms(1) this assms(5)] obtain m' where
    "mem_upd m a ?f = Some m'" "mem_set bnode_ok k m a (n\<lparr>bt_slots := bt_slots src\<rparr>) m'" .
  moreover have "inner_node (n\<lparr>bt_slots := bt_slots src\<rparr>) ks cs"
    using assms(2,4) by (simp add: inner_node_def inner_shell_def bnode_ok_def)
  ultimately show thesis
    using assms(3) by (intro that [of m' "n\<lparr>bt_slots := bt_slots src\<rparr>"]) (simp_all add: btree_copych_def mem_simps)
qed

lemma copych_split_ok:
  assumes "cells m t = Some n" "arr_get (bt_slots n) i = Some l" "arr_get (bt_slots n) (i + 1) = Some r"
    "l \<noteq> r" "cells m l = Some nl" "cells m r = Some nr"
    "inner_shell nl (take 7 ks)" "inner_shell nr (drop 8 ks)"
    "cells m old = Some src" "inner_node src ks cs" "length ks = 15" "mem_ok bnode_ok k m"
  obtains nl' nr' m' where "btree_copych_split t i old m = Some m'"
    "cells m' = (cells m)(l \<mapsto> nl', r \<mapsto> nr')" "mem_ok bnode_ok k m'"
    "inner_node nl' (take 7 ks) (take 8 cs)" "inner_node nr' (drop 8 ks) (drop 8 cs)"
    "bt_ver nl' = bt_ver nl" "bt_ver nr' = bt_ver nr"
proof -
  have src: "bt_slots src = cs" "length cs = 16"
    using assms(10,11) by (auto simp: inner_node_def bnode_ok_def)
  let ?l = "nl\<lparr>bt_slots := take 8 cs @ drop 8 (bt_slots nl)\<rparr>"
  let ?r = "nr\<lparr>bt_slots := drop 8 cs @ drop 8 (bt_slots nr)\<rparr>"
  let ?m = "m\<lparr>cells := (cells m)(l \<mapsto> ?l, r \<mapsto> ?r)\<rparr>"
  have len: "length (bt_slots nl) = 16" "length (bt_slots nr) = 16"
    using assms(7,8) by (simp_all add: inner_shell_def bnode_ok_def)
  have "btree_copych_split t i old m = Some ?m"
    using assms(1-6,9) src len
    by (simp add: btree_copych_split_def mem_get_def mem_upd_def arr_copy_def btree_B_def)
  moreover have "mem_ok bnode_ok k ?m"
    using assms(5,6,12) by (intro mem_ok_cells) auto
  moreover have "inner_node ?l (take 7 ks) (take 8 cs)" "inner_node ?r (drop 8 ks) (drop 8 cs)"
    using assms(7,8,11) src len by (simp_all add: inner_node_def inner_shell_def bnode_ok_def)
  ultimately show thesis
    by (intro that [of ?m ?l ?r]) simp_all
qed

lemma insert_child_ok:
  assumes "cells m t = Some n" "inner_node n ks cs" "i \<le> length ks" "length ks < 15" "mem_ok bnode_ok k m"
  obtains n' m' where "btree_insert_child t p l r i m = Some m'" "mem_set bnode_ok k m t n' m'"
    "inner_node n' (take i ks @ p # drop i ks) (take i cs @ l # r # drop (i + 1) cs)" "bt_ver n' = bt_ver n"
proof -
  let ?f = "\<lambda>n. do { ks \<leftarrow> arr_insert (bt_keys n) (bt_size n) i p; cs \<leftarrow> arr_set (bt_slots n) i l;
    cs \<leftarrow> arr_insert cs (bt_size n + 1) (i + 1) r;
    Some (n\<lparr>bt_keys := ks, bt_slots := cs, bt_size := bt_size n + 1\<rparr>) }"
  have n: "bnode_ok n" "bt_type n = BT_INTERNAL" "bt_size n = length ks" "take (length ks) (bt_keys n) = ks"
    "take (Suc (length ks)) (bt_slots n) = cs"
    using assms(2) by (simp_all add: inner_node_def)
  then have len: "length (bt_keys n) = 15" "length (bt_slots n) = 16" by (simp_all add: bnode_ok_def)
  obtain ka where ka: "arr_insert (bt_keys n) (length ks) i p = Some ka"
    using assms(3,4) len by (simp add: arr_insert_def)
  obtain ca where ca: "arr_insert ((bt_slots n)[i := l]) (Suc (length ks)) (Suc i) r = Some ca"
    using assms(3,4) len by (simp add: arr_insert_def)
  let ?n = "n\<lparr>bt_keys := ka, bt_slots := ca, bt_size := Suc (length ks)\<rparr>"
  have fn: "?f n = Some ?n"
    using assms(3,4) len n ka ca by (simp add: mem_simps)
  from mem_upd_set [where f = ?f, OF assms(1) fn assms(5)] obtain m' where
    m': "mem_upd m t ?f = Some m'" "mem_set bnode_ok k m t ?n m'" .
  have "take (Suc (length ks)) ka = take i ks @ p # drop i ks"
    using arr_insert_used [OF ka] n by simp
  moreover have "take (Suc (Suc (length ks))) ca = take i cs @ l # r # drop (i + 1) cs"
  proof -
    have "take (Suc (length ks)) ((bt_slots n)[i := l]) = cs[i := l]"
      using n(5) by (metis take_update_swap)
    moreover have "i < length cs" using assms(3) inner_node_length [OF assms(2)] by simp
    ultimately show ?thesis
      using arr_insert_used [OF ca] by (simp add: take_Suc_conv_app_nth)
  qed
  moreover have "length ka = 15" "length ca = 16"
    using arr_insert_length [OF ka] arr_insert_length [OF ca] len by simp_all
  ultimately have "inner_node ?n (take i ks @ p # drop i ks) (take i cs @ l # r # drop (i + 1) cs)"
    using n assms(3,4) by (simp add: inner_node_def bnode_ok_def)
  with m' show thesis
    by (intro that [of m' ?n]) (simp_all add: btree_insert_child_def)
qed

lemma insert_child_app_ok:
  assumes "cells m t = Some n" "inner_node n (ks1 @ ks2) (cs1 @ c # cs2)" "length cs1 = length ks1"
    "length (ks1 @ ks2) < 15" "mem_ok bnode_ok k m"
  obtains n' m' where "btree_insert_child t p l r (length ks1) m = Some m'" "mem_set bnode_ok k m t n' m'"
    "inner_node n' (ks1 @ p # ks2) (cs1 @ l # r # cs2)" "bt_ver n' = bt_ver n"
proof -
  have "length ks1 \<le> length (ks1 @ ks2)" by simp
  from insert_child_ok [where p = p and l = l and r = r, OF assms(1,2) this assms(4,5)]
  obtain n' m' where "btree_insert_child t p l r (length ks1) m = Some m'" "mem_set bnode_ok k m t n' m'"
    and n': "inner_node n' (take (length ks1) (ks1 @ ks2) @ p # drop (length ks1) (ks1 @ ks2))
      (take (length ks1) (cs1 @ c # cs2) @ l # r # drop (length ks1 + 1) (cs1 @ c # cs2))"
    and "bt_ver n' = bt_ver n" .
  moreover from n' assms(3) have "inner_node n' (ks1 @ p # ks2) (cs1 @ l # r # cs2)" by simp
  ultimately show thesis by (rule_tac that)
qed

text \<open>\<^verbatim>\<open>t->chs[i] = p\<close>\<close>

definition btree_set_child :: "addr \<Rightarrow> nat \<Rightarrow> addr \<Rightarrow> bmem \<Rightarrow> bmem option" where
  "btree_set_child t i p m =
     mem_upd m t (\<lambda>n. do { cs \<leftarrow> arr_set (bt_slots n) i p; Some (n\<lparr>bt_slots := cs\<rparr>) })"

lemma set_child_ok:
  assumes "cells m t = Some n" "inner_node n ks cs" "i < length cs" "mem_ok bnode_ok k m"
  obtains n' m' where "btree_set_child t i p m = Some m'" "mem_set bnode_ok k m t n' m'"
    "inner_node n' ks (cs[i := p])" "bt_ver n' = bt_ver n"
proof -
  let ?f = "\<lambda>n. do { cs \<leftarrow> arr_set (bt_slots n) i p; Some (n\<lparr>bt_slots := cs\<rparr>) }"
  let ?n = "n\<lparr>bt_slots := (bt_slots n)[i := p]\<rparr>"
  have "length cs \<le> 16" using assms(2) inner_node_length [OF assms(2)] by (simp add: inner_node_def)
  then have "?f n = Some ?n"
    using assms(2,3) by (simp add: mem_simps inner_node_def bnode_ok_def)
  from mem_upd_set [where f = ?f, OF assms(1) this assms(4)] obtain m' where
    "mem_upd m t ?f = Some m'" "mem_set bnode_ok k m t ?n m'" .
  moreover have "inner_node ?n ks (cs[i := p])"
    using assms(2,3) by (auto simp: inner_node_def bnode_ok_def take_update_swap)
  ultimately show thesis
    by (intro that [of m' ?n]) (simp_all add: btree_set_child_def)
qed

end
