(* ===== verification/Btree_Repr.thy ===== *)
theory Btree_Repr
  imports Btree_Node
begin

text \<open>
  What a pointer represents: trees whose nodes carry their addresses. A tree is represented in a
  heap when every node's cell has the contents the tree says, and its footprint is the list of
  its addresses, which separation (distinctness) and framing are about.
\<close>

datatype atree = ALeaf addr "kv list" | ANode addr "atree list" "key list"

fun addr_of :: "atree \<Rightarrow> addr" where
  "addr_of (ALeaf a kvs) = a"
| "addr_of (ANode a ts ks) = a"

fun erase :: "atree \<Rightarrow> bt" where
  "erase (ALeaf a kvs) = BLeaf kvs"
| "erase (ANode a ts ks) = BNode (map erase ts) ks"

fun footprint :: "atree \<Rightarrow> addr list" where
  "footprint (ALeaf a kvs) = [a]"
| "footprint (ANode a ts ks) = a # concat (map footprint ts)"

abbreviation footprints :: "atree list \<Rightarrow> addr list" where
  "footprints ts \<equiv> concat (map footprint ts)"

fun repr :: "(addr \<rightharpoonup> bnode) \<Rightarrow> atree \<Rightarrow> bool" where
  "repr h (ALeaf a kvs) = (a \<noteq> nullptr \<and> (\<exists>n. h a = Some n \<and> leaf_node n kvs))"
| "repr h (ANode a ts ks) =
     (a \<noteq> nullptr \<and> (\<exists>n. h a = Some n \<and> inner_node n ks (map addr_of ts)) \<and> (\<forall>t \<in> set ts. repr h t))"

abbreviation reprs :: "(addr \<rightharpoonup> bnode) \<Rightarrow> atree list \<Rightarrow> bool" where
  "reprs h ts \<equiv> \<forall>t \<in> set ts. repr h t"

lemma addr_in_footprint [simp]: "addr_of t \<in> set (footprint t)"
  by (cases t) auto

lemma footprint_not_Nil [simp]: "footprint t \<noteq> []"
  by (cases t) auto

lemma repr_not_null: "repr h t \<Longrightarrow> addr_of t \<noteq> nullptr"
  by (cases t) auto

lemma repr_dom: "repr h t \<Longrightarrow> set (footprint t) \<subseteq> dom h"
  by (induction t) auto

lemma reprs_dom: "reprs h ts \<Longrightarrow> set (footprints ts) \<subseteq> dom h"
  using repr_dom by fastforce

text \<open>A tree stays represented as long as its footprint is left alone.\<close>

lemma repr_frame: "repr h t \<Longrightarrow> (\<And>x. x \<in> set (footprint t) \<Longrightarrow> h' x = h x) \<Longrightarrow> repr h' t"
proof (induction t)
  case (ANode a ts ks)
  have "repr h' t" if t: "t \<in> set ts" for t
  proof (rule ANode.IH [OF t])
    show "repr h t" using ANode.prems(1) t by simp
    show "h' x = h x" if "x \<in> set (footprint t)" for x
      using ANode.prems(2) [of x] t that by auto
  qed
  with ANode.prems show ?case by auto
qed auto

lemma reprs_frame:
  assumes "reprs h ts" "\<And>x. x \<in> set (footprints ts) \<Longrightarrow> h' x = h x"
  shows "reprs h' ts"
proof
  fix t assume t: "t \<in> set ts"
  show "repr h' t"
    by (rule repr_frame [of h]) (use t assms in auto)
qed

lemma repr_mono:
  assumes "repr h t" "h \<subseteq>\<^sub>m h'"
  shows "repr h' t"
proof (rule repr_frame [OF assms(1)])
  fix x assume "x \<in> set (footprint t)"
  then have "x \<in> dom h" using repr_dom [OF assms(1)] by blast
  then show "h' x = h x" using assms(2) by (simp add: map_le_def)
qed

lemma repr_upd: "repr h t \<Longrightarrow> a \<notin> set (footprint t) \<Longrightarrow> repr (h(a := x)) t"
  by (erule repr_frame) (metis fun_upd_other)

lemma reprs_upd: "reprs h ts \<Longrightarrow> a \<notin> set (footprints ts) \<Longrightarrow> reprs (h(a := x)) ts"
  by (erule reprs_frame) (metis fun_upd_other)

lemma repr_length:
  assumes "repr h (ANode a ts ks)"
  shows "length ts = Suc (length ks) \<and> length ks \<le> 15"
proof -
  from assms obtain n where "inner_node n ks (map addr_of ts)" by auto
  then show ?thesis using inner_node_length [of n ks "map addr_of ts"] by (simp add: inner_node_def)
qed

fun aheight :: "atree \<Rightarrow> nat" where
  "aheight (ALeaf a kvs) = 0"
| "aheight (ANode a ts ks) = Suc (Max (insert 0 (set (map aheight ts))))"

lemma aheight_erase [simp]: "bt_height (erase t) = aheight t"
proof (induction t)
  case (ANode a ts ks)
  then have "map (bt_height \<circ> erase) ts = map aheight ts" by simp
  then show ?case by (simp only: erase.simps bt_height.simps aheight.simps map_map)
qed simp

lemma aheight_child: "t \<in> set ts \<Longrightarrow> aheight t < aheight (ANode a ts ks)"
  by (simp add: less_Suc_eq_le)

lemma aheight_child_le: "t \<in> set ts \<Longrightarrow> aheight (ANode a ts ks) \<le> Suc n \<Longrightarrow> aheight t \<le> n"
  using aheight_child [of t ts a ks] by linarith

lemma aheight_child_less: "t \<in> set ts \<Longrightarrow> aheight (ANode a ts ks) < Suc n \<Longrightarrow> aheight t < n"
  using aheight_child [of t ts a ks] by linarith

lemma aheight_subset: "set us \<subseteq> set ts \<Longrightarrow> aheight (ANode a us ks) \<le> aheight (ANode b ts js)"
  by (auto intro!: Max_mono)

declare aheight.simps(2) [simp del]

lemma inner_not_leaf: "inner_node n ks cs \<Longrightarrow> bt_type n \<noteq> BT_LEAF"
  by (simp add: inner_node_def)

lemma leaf_is_leaf: "leaf_node n kvs \<Longrightarrow> bt_type n = BT_LEAF"
  by (simp add: leaf_node_def)

text \<open>The child the search goes to, in the tree and in memory.\<close>

lemma child_at:
  assumes "inner_node n ks (map addr_of ts)"
  obtains t where "t = ts ! findch_idx ks k" "t \<in> set ts" "findch_idx ks k < length ts"
    "arr_get (bt_slots n) (findch_idx ks k) = Some (addr_of t)"
proof -
  have "findch_idx ks k < length ts"
    using findch_idx_le [of ks k] inner_node_length [OF assms] by simp
  then show thesis
    using inner_node_child [OF assms, of "findch_idx ks k"] by (intro that [OF refl]) simp_all
qed

text \<open>A full node superseded by its two halves.\<close>

definition half_l :: "addr \<Rightarrow> atree list \<Rightarrow> key list \<Rightarrow> atree" where
  "half_l l us js = ANode l (take 8 us) (take 7 js)"

definition half_r :: "addr \<Rightarrow> atree list \<Rightarrow> key list \<Rightarrow> atree" where
  "half_r r us js = ANode r (drop 8 us) (drop 8 js)"

lemma erase_halves:
  "erase (half_l l us js) = split_l (map erase us) js" "erase (half_r r us js) = split_r (map erase us) js"
  by (simp_all add: half_l_def half_r_def split_l_def split_r_def take_map drop_map)

lemma addr_of_halves [simp]: "addr_of (half_l l us js) = l" "addr_of (half_r r us js) = r"
  by (simp_all add: half_l_def half_r_def)

lemma aheight_halves:
  "aheight (half_l l us js) \<le> aheight (ANode a us js)" "aheight (half_r r us js) \<le> aheight (ANode a us js)"
  unfolding half_l_def half_r_def by (intro aheight_subset set_take_subset set_drop_subset)+

lemma footprints_take_drop: "footprints (take n us) @ footprints (drop n us) = footprints us"
  by (metis append_take_drop_id concat_append map_append)

lemma aheight_halves_less:
  assumes "ANode ch us js \<in> set ts" "aheight (ANode a ts ks) \<le> Suc h"
  shows "aheight (half_l l us js) \<le> h" "aheight (half_r r us js) \<le> h"
  using aheight_halves [of l us js ch] aheight_halves(2) [of r us js ch] aheight_child_le [OF assms] by linarith+

text \<open>The child that the descent goes to, with its siblings on both sides.\<close>

lemma split_at_child:
  assumes "inner_node n ks (map addr_of ts)"
  obtains ts1 c ts2 ks1 ks2 where "ts = ts1 @ c # ts2" "ks = ks1 @ ks2" "length ts1 = length ks1"
    "findch_idx ks k = length ks1" "arr_get (bt_slots n) (length ks1) = Some (addr_of c)" "c \<in> set ts"
    "map erase ts ! length ks1 = erase c" "length ks1 < length ts"
proof -
  obtain c where c: "c = ts ! findch_idx ks k" "c \<in> set ts" "findch_idx ks k < length ts"
    "arr_get (bt_slots n) (findch_idx ks k) = Some (addr_of c)"
    by (rule child_at [OF assms])
  from c(3) obtain ts1 c' ts2 where ts: "ts = ts1 @ c' # ts2" "length ts1 = findch_idx ks k" "ts ! findch_idx ks k = c'"
    by (rule list_split_nth)
  let ?ks1 = "take (findch_idx ks k) ks" and ?ks2 = "drop (findch_idx ks k) ks"
  have "length ?ks1 = findch_idx ks k" using findch_idx_le [of ks k] by simp
  with c ts show thesis by (intro that [of ts1 c ts2 ?ks1 ?ks2]) (simp_all add: nth_map del: map_append)
qed

text \<open>The result of an update that may split.\<close>

datatype aup = AOne atree | ATwo atree key atree

fun erase_up :: "aup \<Rightarrow> up" where
  "erase_up (AOne t) = One (erase t)"
| "erase_up (ATwo l p r) = Two (erase l) p (erase r)"

fun footprint_up :: "aup \<Rightarrow> addr list" where
  "footprint_up (AOne t) = footprint t"
| "footprint_up (ATwo l p r) = footprint l @ footprint r"

fun repr_up :: "(addr \<rightharpoonup> bnode) \<Rightarrow> key \<times> addr \<times> addr \<Rightarrow> aup \<Rightarrow> bool" where
  "repr_up h (p, l, r) (AOne t) = (repr h t \<and> addr_of t = l \<and> r = nullptr)"
| "repr_up h (p, l, r) (ATwo t1 q t2) =
     (repr h t1 \<and> repr h t2 \<and> addr_of t1 = l \<and> addr_of t2 = r \<and> p = q)"

text \<open>A new root over two trees.\<close>

lemma root_over:
  assumes "reprs h1 [u1, u2]" "distinct (footprints [u1, u2])"
    "heap_step h F h1 (set (footprints [u1, u2]))" "h1 x = None" "x \<noteq> nullptr"
    "inner_node n [p] [addr_of u1, addr_of u2]" "h2 = h1(x \<mapsto> n)"
  shows "repr h2 (ANode x [u1, u2] [p])" "distinct (footprint (ANode x [u1, u2] [p]))"
    "heap_step h F h2 (set (footprint (ANode x [u1, u2] [p])))"
proof -
  have x: "x \<notin> set (footprints [u1, u2])" using reprs_dom [OF assms(1)] assms(4) by auto
  then show "distinct (footprint (ANode x [u1, u2] [p]))" using assms(2) by simp
  show "repr h2 (ANode x [u1, u2] [p])"
    using assms(1,5-7) x by (auto intro: repr_upd)
  show "heap_step h F h2 (set (footprint (ANode x [u1, u2] [p])))"
    using heap_step_add [OF assms(3,4), of n] assms(7) by simp
qed

end
