(* ===== verification/Btree_Query.thy ===== *)
theory Btree_Query
  imports Btree_Repr
begin

text \<open>
  \<^verbatim>\<open>lib/trees/btree/query.hpp\<close>: point lookup and range scan of the pointer structure, and their
  correctness against the ordered map the tree represents. The loops over a path and the
  recursion over a subtree take fuel, of which the height of the tree is enough.
\<close>

section \<open>The code\<close>

text \<open>\<^verbatim>\<open>while (t->type != LEAF) { t = t->chs[findch(t, key)]; }\<close>\<close>

fun btree_descend :: "nat \<Rightarrow> addr \<Rightarrow> key \<Rightarrow> bmem \<Rightarrow> addr option" where
  "btree_descend 0 t key m = None"
| "btree_descend (Suc fuel) t key m =
     do { n \<leftarrow> mem_get m t;
          if bt_type n \<noteq> BT_LEAF
          then do { i \<leftarrow> btree_findch n key; c \<leftarrow> arr_get (bt_slots n) i; btree_descend fuel c key m }
          else Some t }"

definition btree_find :: "nat \<Rightarrow> addr \<Rightarrow> key \<Rightarrow> bmem \<Rightarrow> val option option" where
  "btree_find fuel t key m =
     (if t = nullptr then Some None
      else do {
        t \<leftarrow> btree_descend fuel t key m;
        n \<leftarrow> mem_get m t;
        i \<leftarrow> btree_findval n key;
        hit \<leftarrow> btree_key_at n i key;
        if hit then do { v \<leftarrow> arr_get (bt_slots n) i; Some (Some v) } else Some None })"

text \<open>The second loop of \<^verbatim>\<open>scan_append\<close>, over the bindings of a leaf.\<close>

function btree_scan_leaf :: "bnode \<Rightarrow> nat \<Rightarrow> nat \<Rightarrow> kv list \<Rightarrow> kv list option" where
  "btree_scan_leaf t i n ret =
     (if length ret < n \<and> i < bt_size t
      then do { k \<leftarrow> arr_get (bt_keys t) i; v \<leftarrow> arr_get (bt_slots t) i;
                btree_scan_leaf t (i + 1) n (ret @ [(k, v)]) }
      else Some ret)"
  by pat_completeness auto
termination
  by (relation "measure (\<lambda>(t, i, n, ret). bt_size t - i)") auto

text \<open>\<open>btree_scan_children\<close> is the first loop of \<^verbatim>\<open>scan_append\<close>, over the children.\<close>

function btree_scan_append :: "nat \<Rightarrow> addr \<Rightarrow> nat \<Rightarrow> nat \<Rightarrow> kv list \<Rightarrow> bmem \<Rightarrow> kv list option"
  and btree_scan_children :: "nat \<Rightarrow> bnode \<Rightarrow> nat \<Rightarrow> nat \<Rightarrow> kv list \<Rightarrow> bmem \<Rightarrow> kv list option" where
  "btree_scan_append 0 t i n ret m = None"
| "btree_scan_append (Suc fuel) t i n ret m =
     do { x \<leftarrow> mem_get m t;
          if bt_type x \<noteq> BT_LEAF then btree_scan_children fuel x i n ret m
          else btree_scan_leaf x i n ret }"
| "btree_scan_children fuel x i n ret m =
     (if length ret < n \<and> i \<le> bt_size x
      then do { c \<leftarrow> arr_get (bt_slots x) i;
                ret \<leftarrow> btree_scan_append fuel c 0 n ret m;
                btree_scan_children fuel x (i + 1) n ret m }
      else Some ret)"
  by pat_completeness auto
termination
  by (relation "measures [\<lambda>s. case s of Inl (f, _) \<Rightarrow> f | Inr (f, _) \<Rightarrow> f,
        \<lambda>s. case s of Inl _ \<Rightarrow> 0 | Inr (f, x, i, _) \<Rightarrow> Suc (bt_size x) - i + 1]") auto

fun btree_scan_search :: "nat \<Rightarrow> addr \<Rightarrow> key \<Rightarrow> nat \<Rightarrow> kv list \<Rightarrow> bmem \<Rightarrow> kv list option" where
  "btree_scan_search 0 t key n ret m = None"
| "btree_scan_search (Suc fuel) t key n ret m =
     do { x \<leftarrow> mem_get m t;
          if bt_type x = BT_LEAF
          then do { i \<leftarrow> btree_findval x key; btree_scan_append (Suc fuel) t i n ret m }
          else do {
            i \<leftarrow> btree_findch x key;
            c \<leftarrow> arr_get (bt_slots x) i;
            ret \<leftarrow> btree_scan_search fuel c key n ret m;
            btree_scan_append (Suc fuel) t (i + 1) n ret m } }"

definition btree_scan :: "nat \<Rightarrow> addr \<Rightarrow> key \<Rightarrow> nat \<Rightarrow> bmem \<Rightarrow> kv list option" where
  "btree_scan fuel t key n m = btree_scan_search fuel t key n [] m"

declare btree_scan_leaf.simps [simp del] btree_scan_children.simps [simp del]

section \<open>Lookup\<close>

lemma bts_wf_mem: "bts_wf lo hi ts ks \<Longrightarrow> t \<in> set ts \<Longrightarrow> \<exists>lo hi. bt_wf lo hi t"
proof (induction ts arbitrary: lo ks)
  case (Cons t' ts)
  then show ?case by (cases ks) auto
qed simp

lemma leaf_lookup:
  assumes "ordered kvs" "i = findval_idx (map fst kvs) k"
  shows "map_of kvs k = (if i < length kvs \<and> fst (kvs ! i) = k then Some (snd (kvs ! i)) else None)"
  using map_of_ordered_nth [OF assms(1), of i] findval_idx_split(3) [OF assms]
  by (auto simp: map_of_eq_None_iff)

lemma descend_find:
  assumes "repr (cells m) t" "aheight t < fuel" "bt_wf lo hi (erase t)"
  obtains a n kvs where "btree_descend fuel (addr_of t) k m = Some a" "cells m a = Some n" "leaf_node n kvs"
    "bt_find (erase t) k = map_of kvs k" "ordered kvs"
  using assms
proof (induction fuel arbitrary: t lo hi thesis)
  case (Suc fuel)
  show ?case
  proof (cases t)
    case (ALeaf a kvs)
    with Suc.prems obtain n where "cells m a = Some n" "leaf_node n kvs" by auto
    with ALeaf Suc.prems(4) show ?thesis
      by (intro Suc.prems(1) [of a n kvs]) (simp_all add: mem_get_def leaf_is_leaf)
  next
    case (ANode a ts ks)
    with Suc.prems obtain n where n: "cells m a = Some n" "inner_node n ks (map addr_of ts)" "reprs (cells m) ts"
      by auto
    obtain c where c: "c = ts ! findch_idx ks k" "c \<in> set ts" "findch_idx ks k < length ts"
      "arr_get (bt_slots n) (findch_idx ks k) = Some (addr_of c)"
      by (rule child_at [OF n(2)])
    have h: "aheight c < fuel" using Suc.prems(3) aheight_child_less [OF c(2)] ANode by blast
    obtain lo' hi' where "bt_wf lo' hi' (erase c)"
      using Suc.prems(4) ANode c(2) bts_wf_mem [of lo hi "map erase ts" ks "erase c"] by auto
    with c(2) n(3) h obtain b n' kvs where "btree_descend fuel (addr_of c) k m = Some b"
      "cells m b = Some n'" "leaf_node n' kvs" "bt_find (erase c) k = map_of kvs k" "ordered kvs"
      by (rule_tac Suc.IH [of c]) auto
    with n c ANode show ?thesis
      by (intro Suc.prems(1) [of b n' kvs])
        (simp_all add: mem_get_def inner_not_leaf findch_ok)
  qed
qed simp

lemma find_map_of:
  assumes "repr (cells m) t" "aheight t < fuel" "bt_wf lo hi (erase t)"
  shows "btree_find fuel (addr_of t) k m = Some (map_of (bt_inorder (erase t)) k)"
proof -
  obtain a n kvs where d: "btree_descend fuel (addr_of t) k m = Some a" "cells m a = Some n" "leaf_node n kvs"
    "bt_find (erase t) k = map_of kvs k" "ordered kvs"
    by (rule descend_find [OF assms])
  let ?i = "findval_idx (map fst kvs) k"
  have "btree_find fuel (addr_of t) k m
    = Some (if ?i < length kvs \<and> fst (kvs ! ?i) = k then Some (snd (kvs ! ?i)) else None)"
    using d leaf_node_nth(2) [OF d(3), of ?i] repr_not_null [OF assms(1)]
    by (auto simp: btree_find_def mem_get_def findval_ok key_at_ok arr_get_def leaf_node_def bnode_ok_def)
  also have "\<dots> = Some (map_of (bt_inorder (erase t)) k)"
    using leaf_lookup [OF d(5) refl, of k] d(4) bt_find_map_of [OF assms(3), of k] by simp
  finally show ?thesis .
qed

section \<open>Scan\<close>

lemma scan_leaf_ok:
  assumes "leaf_node x kvs"
  shows "btree_scan_leaf x i n ret = Some (fill n ret (drop i kvs))"
  using assms
proof (induction x i n ret rule: btree_scan_leaf.induct)
  case (1 x i n ret)
  from "1.prems" have x: "bt_size x = length kvs" "length (bt_keys x) = 15" "length (bt_slots x) = 16" "length kvs \<le> 15"
    by (simp_all add: leaf_node_def bnode_ok_def)
  show ?case
  proof (cases "length ret < n \<and> i < length kvs")
    case True
    then have "drop i kvs = kvs ! i # drop (Suc i) kvs" by (simp add: Cons_nth_drop_Suc)
    with True x leaf_node_nth [OF "1.prems", of i] "1.IH" [of "fst (kvs ! i)" "snd (kvs ! i)"] "1.prems" show ?thesis
      by (subst btree_scan_leaf.simps) (simp add: arr_get_def fill_Cons)
  next
    case False
    then show ?thesis
      by (subst btree_scan_leaf.simps) (auto simp: x fill_full)
  qed
qed

lemma scan_append_ok:
  shows "repr (cells m) t \<Longrightarrow> aheight t < fuel \<Longrightarrow> t = ALeaf a kvs \<or> i = 0 \<Longrightarrow>
      btree_scan_append fuel (addr_of t) i n ret m =
        Some (fill n ret (case t of ALeaf a kvs \<Rightarrow> drop i kvs | ANode _ _ _ \<Rightarrow> bt_inorder (erase t)))"
    and "inner_node x ks (map addr_of ts) \<Longrightarrow> reprs (cells m) ts \<Longrightarrow> \<forall>t \<in> set ts. aheight t < fuel \<Longrightarrow>
      btree_scan_children fuel x i n ret m = Some (fill n ret (bts_inorder (drop i (map erase ts))))"
proof (induction fuel "addr_of t" i n ret m and fuel x i n ret m arbitrary: t a kvs and ks ts
    rule: btree_scan_append_btree_scan_children.induct)
  case (1 i n ret m)
  then show ?case by simp
next
  case (2 fuel i n ret m)
  show ?case
  proof (cases t)
    case (ALeaf a kvs)
    with "2.prems" obtain x where "cells m a = Some x" "leaf_node x kvs" by auto
    with ALeaf show ?thesis by (simp add: mem_get_def leaf_is_leaf scan_leaf_ok)
  next
    case (ANode a ts ks)
    with "2.prems" obtain x where x: "cells m a = Some x" "inner_node x ks (map addr_of ts)" "reprs (cells m) ts"
      by auto
    have "\<forall>t \<in> set ts. aheight t < fuel" using "2.prems"(2) ANode aheight_child_less by blast
    with x ANode "2.prems"(3) "2.hyps"(1) [of x ks ts] show ?thesis
      by (simp add: mem_get_def inner_not_leaf)
  qed
next
  case (3 fuel x i n ret m)
  have len: "bt_size x = length ks" "length ts = Suc (length ks)"
    using "3.prems"(1) inner_node_length [OF "3.prems"(1)] by (simp_all add: inner_node_def)
  show ?case
  proof (cases "length ret < n \<and> i < length ts")
    case True
    let ?c = "ts ! i"
    have c: "arr_get (bt_slots x) i = Some (addr_of ?c)" "?c \<in> set ts"
      using inner_node_child [OF "3.prems"(1), of i] True by simp_all
    have "btree_scan_append fuel (addr_of ?c) 0 n ret m = Some (fill n ret (bt_inorder (erase ?c)))"
      using "3.hyps"(1) [OF _ c(1)] True len c "3.prems" by (auto split: atree.split)
    moreover have "map erase (drop i ts) = erase ?c # map erase (drop (Suc i) ts)"
      using True by (simp add: Cons_nth_drop_Suc [symmetric])
    ultimately show ?thesis
      using "3.hyps"(2) [OF _ c(1) _ "3.prems"] True len c(1)
      by (subst btree_scan_children.simps) (simp add: drop_map)
  next
    case False
    then show ?thesis
      by (subst btree_scan_children.simps) (auto simp: len fill_full)
  qed
qed

lemma dropWhile_middle:
  fixes k :: key
  assumes "\<forall>x \<in> set xs. fst x < k" "\<forall>x \<in> set zs. k \<le> fst x"
  shows "dropWhile (\<lambda>x. fst x < k) (xs @ ys @ zs) = dropWhile (\<lambda>x. fst x < k) ys @ zs"
proof -
  have zs: "dropWhile (\<lambda>x. fst x < k) zs = zs" using assms(2) by (cases zs) auto
  have "dropWhile (\<lambda>x. fst x < k) (ys @ zs) = dropWhile (\<lambda>x. fst x < k) ys @ zs"
    by (induction ys) (auto simp: zs)
  then show ?thesis using assms(1) by (simp add: dropWhile_append)
qed

lemma scan_search_ok:
  assumes "repr (cells m) t" "aheight t < fuel" "bt_wf lo hi (erase t)"
  shows "btree_scan_search fuel (addr_of t) k n ret m =
    Some (fill n ret (dropWhile (\<lambda>x. fst x < k) (bt_inorder (erase t))))"
  using assms
proof (induction fuel arbitrary: t lo hi ret)
  case (Suc fuel)
  show ?case
  proof (cases t)
    case (ALeaf a kvs)
    with Suc.prems obtain x where "cells m a = Some x" "leaf_node x kvs" by auto
    moreover have "drop (findval_idx (map fst kvs) k) kvs = dropWhile (\<lambda>x. fst x < k) kvs"
      by (simp add: findval_idx_def takeWhile_map comp_def)
    ultimately show ?thesis
      using ALeaf by (simp add: mem_get_def leaf_is_leaf scan_leaf_ok findval_ok)
  next
    case (ANode a ts ks)
    with Suc.prems obtain x where x: "cells m a = Some x" "inner_node x ks (map addr_of ts)" "reprs (cells m) ts"
      by auto
    have h: "\<forall>t \<in> set ts. aheight t < fuel" using Suc.prems(2) ANode aheight_child_less by blast
    obtain c where c: "c = ts ! findch_idx ks k" "c \<in> set ts" "findch_idx ks k < length ts"
      "arr_get (bt_slots x) (findch_idx ks k) = Some (addr_of c)"
      by (rule child_at [OF x(2)])
    from Suc.prems(3) ANode have wf: "bts_wf lo hi (map erase ts) ks" by simp
    then obtain us u us' ks1 ks2 where d: "map erase ts = us @ u # us'" "ks = ks1 @ ks2" "length us = length ks1"
      "findch_idx ks k = length ks1" "\<forall>x \<in> set ks1. x \<le> k" "\<forall>x \<in> set ks2. k < x"
      by (rule findch_cases)
    have u: "erase c = u" "drop (Suc (findch_idx ks k)) (map erase ts) = us'"
      using c d by (metis nth_append_length nth_map, simp)
    have wfc: "bt_wf (child_lo lo ks1) (child_hi hi ks2) u"
      using bts_wf_child [OF d(3)] wf d by simp
    have "btree_scan_search fuel (addr_of c) k n ret m = Some (fill n ret (dropWhile (\<lambda>x. fst x < k) (bt_inorder u)))"
      using Suc.IH [of c "child_lo lo ks1" "child_hi hi ks2"] wfc u(1) c(2) x(3) h by simp
    moreover have "btree_scan_children fuel x (Suc (findch_idx ks k)) n ret' m = Some (fill n ret' (bts_inorder us'))" for ret'
      using scan_append_ok(2) [OF x(2,3) h] u(2) by simp
    moreover have "dropWhile (\<lambda>x. fst x < k) (bts_inorder (map erase ts))
      = dropWhile (\<lambda>x. fst x < k) (bt_inorder u) @ bts_inorder us'"
      using findch_sides [of lo hi us u us' ks1 ks2 k] wf d by (simp add: dropWhile_middle less_imp_le)
    ultimately show ?thesis
      using ANode x(1) c(4) by (simp add: mem_get_def inner_not_leaf [OF x(2)] findch_ok [OF x(2)])
  qed
qed simp

lemma scan_kv_scan:
  assumes "repr (cells m) t" "aheight t < fuel" "bt_wf lo hi (erase t)"
  shows "btree_scan fuel (addr_of t) k n m = Some (kv_scan k n (bt_inorder (erase t)))"
  by (simp add: btree_scan_def scan_search_ok [OF assms] fill_def kv_scan_def)

end
