(* ===== verification/Btree_Leaf.thy ===== *)
theory Btree_Leaf
  imports Btree_Repr
begin

text \<open>
  Updating a leaf: \<^verbatim>\<open>update_leaf_inplace\<close> of \<^verbatim>\<open>lib/trees/btree/update_inplace.hpp\<close> and
  \<^verbatim>\<open>update_leaf_cow\<close> of \<^verbatim>\<open>lib/trees/btree/update_cow.hpp\<close>. Both return a key and one or two
  pointers, the second null when the leaf did not split.
\<close>

section \<open>The split of a full leaf, the same code in both\<close>

definition btree_leaf_split ::
  "32 word \<Rightarrow> addr \<Rightarrow> nat \<Rightarrow> key \<Rightarrow> val \<Rightarrow> bmem \<Rightarrow> ((key \<times> addr \<times> addr) \<times> bmem) option" where
  "btree_leaf_split ver t i k v m =
     do { (t_l, m) \<leftarrow> btree_new_leaf ver btree_B m;
          (t_r, m) \<leftarrow> btree_new_leaf ver btree_B m;
          src \<leftarrow> mem_get m t;
          m \<leftarrow> (if i < btree_B
            then do {
              m \<leftarrow> mem_upd m t_l (\<lambda>n. do {
                     ks \<leftarrow> arr_copy_insert (bt_keys n) (bt_keys src) (btree_B - 1) i k;
                     vs \<leftarrow> arr_copy_insert (bt_slots n) (bt_slots src) (btree_B - 1) i v;
                     Some (n\<lparr>bt_keys := ks, bt_slots := vs\<rparr>) });
              mem_upd m t_r (\<lambda>n. do {
                ks \<leftarrow> arr_copy (bt_keys n) (drop (btree_B - 1) (bt_keys src)) btree_B;
                vs \<leftarrow> arr_copy (bt_slots n) (drop (btree_B - 1) (bt_slots src)) btree_B;
                Some (n\<lparr>bt_keys := ks, bt_slots := vs\<rparr>) }) }
            else do {
              m \<leftarrow> mem_upd m t_l (\<lambda>n. do {
                     ks \<leftarrow> arr_copy (bt_keys n) (bt_keys src) btree_B;
                     vs \<leftarrow> arr_copy (bt_slots n) (bt_slots src) btree_B;
                     Some (n\<lparr>bt_keys := ks, bt_slots := vs\<rparr>) });
              mem_upd m t_r (\<lambda>n. do {
                ks \<leftarrow> arr_copy_insert (bt_keys n) (drop btree_B (bt_keys src)) (btree_B - 1) (i - btree_B) k;
                vs \<leftarrow> arr_copy_insert (bt_slots n) (drop btree_B (bt_slots src)) (btree_B - 1) (i - btree_B) v;
                Some (n\<lparr>bt_keys := ks, bt_slots := vs\<rparr>) }) });
          n_r \<leftarrow> mem_get m t_r;
          p \<leftarrow> arr_get (bt_keys n_r) 0;
          Some ((p, t_l, t_r), m) }"

lemma take_insert_left:
  assumes "i < 8" "length xs = 15"
  shows "take 8 (take i xs @ x # drop i xs) = take i xs @ x # take (7 - i) (drop i xs)"
    "drop 8 (take i xs @ x # drop i xs) = drop 7 xs"
  using assms by (simp_all add: min_def take_Cons' drop_Cons' numeral_eq_Suc Suc_diff_le)

lemma take_insert_right:
  assumes "\<not> i < 8" "i \<le> 15" "length xs = 15"
  shows "take 8 (take i xs @ x # drop i xs) = take 8 xs"
    "drop 8 (take i xs @ x # drop i xs) =
      take (i - 8) (drop 8 xs) @ x # take (7 - (i - 8)) (drop (i - 8) (drop 8 xs))"
  using assms by (simp_all add: min_def drop_take)

lemma leaf_split_ok:
  assumes src: "cells m t = Some src" "leaf_node src kvs" "length kvs = 15" and i: "i \<le> 15"
    and ok: "mem_ok bnode_ok (Suc (Suc j)) m"
    and kvs': "kvs' = take i kvs @ (k, v) # drop i kvs"
  obtains l r nl nr m' where "btree_leaf_split ver t i k v m = Some ((fst (kvs' ! 8), l, r), m')"
    "l \<noteq> r" "l \<noteq> nullptr" "r \<noteq> nullptr" "cells m l = None" "cells m r = None"
    "cells m' = (cells m)(l \<mapsto> nl, r \<mapsto> nr)" "mem_ok bnode_ok j m'"
    "leaf_node nl (take 8 kvs')" "leaf_node nr (drop 8 kvs')" "bt_ver nl = ver" "bt_ver nr = ver"
proof -
  have "(8::nat) \<le> 15" by simp
  from new_leaf_ok [OF ok this, of ver] obtain l nl m1 where
    m1: "btree_new_leaf ver 8 m = Some (l, m1)" "mem_new bnode_ok (Suc j) m l nl m1"
    "bnode_ok nl" "bt_ver nl = ver" "bt_type nl = BT_LEAF" "bt_size nl = 8" .
  then have "mem_ok bnode_ok (Suc j) m1" by (simp add: mem_new_def)
  from new_leaf_ok [OF this \<open>8 \<le> 15\<close>, of ver] obtain r nr m2 where
    m2: "btree_new_leaf ver 8 m1 = Some (r, m2)" "mem_new bnode_ok j m1 r nr m2"
    "bnode_ok nr" "bt_ver nr = ver" "bt_type nr = BT_LEAF" "bt_size nr = 8" .
  have addr: "l \<noteq> r" "l \<noteq> nullptr" "r \<noteq> nullptr" "cells m l = None" "cells m r = None"
    using m1(2) m2(2) by (auto simp: mem_new_def split: if_splits)
  have c2: "cells m2 = (cells m)(l \<mapsto> nl, r \<mapsto> nr)"
    using m1(2) m2(2) by (simp add: mem_new_def)
  have t: "t \<noteq> l" "t \<noteq> r" using src(1) addr by auto
  have ok2: "mem_ok bnode_ok j m2" using m2(2) by (simp add: mem_new_def)
  have len: "length (bt_keys src) = 15" "length (bt_slots src) = 16" "length (bt_keys nl) = 15"
    "length (bt_slots nl) = 16" "length (bt_keys nr) = 15" "length (bt_slots nr) = 16"
    using src m1(3) m2(3) by (simp_all add: leaf_node_def bnode_ok_def)
  define ks vs where "ks = map fst kvs" and "vs = map snd kvs"
  have kv: "take 15 (bt_keys src) = ks" "take 15 (bt_slots src) = vs" "length ks = 15" "length vs = 15"
    using src by (simp_all add: leaf_node_def ks_def vs_def)
  then have keys: "bt_keys src = ks" using len by simp
  obtain z where slots: "bt_slots src = vs @ z"
    using kv(2) by (metis append_take_drop_id)
  have ks': "map fst kvs' = take i ks @ k # drop i ks" and vs': "map snd kvs' = take i vs @ v # drop i vs"
    by (simp_all add: kvs' ks_def vs_def take_map drop_map)
  let ?kl = "take 8 (map fst kvs') @ drop 8 (bt_keys nl)" and ?vl = "take 8 (map snd kvs') @ drop 8 (bt_slots nl)"
  let ?kr = "drop 8 (map fst kvs') @ drop 8 (bt_keys nr)" and ?vr = "drop 8 (map snd kvs') @ drop 8 (bt_slots nr)"
  let ?l = "nl\<lparr>bt_keys := ?kl, bt_slots := ?vl\<rparr>" and ?r = "nr\<lparr>bt_keys := ?kr, bt_slots := ?vr\<rparr>"
  let ?m = "m2\<lparr>cells := (cells m2)(l \<mapsto> ?l, r \<mapsto> ?r)\<rparr>"
  have len': "length kvs' = 16" using src(3) i by (simp add: kvs')
  have d8: "drop 8 (map fst kvs') ! 0 = fst (kvs' ! 8)" using len' by (simp add: drop_map)
  have p: "arr_get ?kr 0 = Some (fst (kvs' ! 8))"
    using len len' d8 by (simp add: arr_get_def nth_append del: map_append)
  have run: "btree_leaf_split ver t i k v m = Some ((fst (kvs' ! 8), l, r), ?m)"
  proof (cases "i < 8")
    case True
    note tl = take_insert_left [OF True, of ks k] take_insert_left [OF True, of vs v]
    have "arr_copy_insert (bt_keys nl) (bt_keys src) 7 i k = Some ?kl"
      "arr_copy_insert (bt_slots nl) (bt_slots src) 7 i v = Some ?vl"
      "arr_copy (bt_keys nr) (drop 7 (bt_keys src)) 8 = Some ?kr"
      "arr_copy (bt_slots nr) (drop 7 (bt_slots src)) 8 = Some ?vr"
      using True len kv tl unfolding ks' vs'
      by (simp_all add: arr_copy_insert_def arr_copy_def keys slots)
    then show ?thesis
      using True addr p by (simp add: btree_leaf_split_def btree_B_def m1(1) m2(1) mem_get_def t src(1) mem_upd_def c2)
  next
    case False
    note tr = take_insert_right [OF False i, of ks k] take_insert_right [OF False i, of vs v]
    have "arr_copy (bt_keys nl) (bt_keys src) 8 = Some ?kl"
      "arr_copy (bt_slots nl) (bt_slots src) 8 = Some ?vl"
      "arr_copy_insert (bt_keys nr) (drop 8 (bt_keys src)) 7 (i - 8) k = Some ?kr"
      "arr_copy_insert (bt_slots nr) (drop 8 (bt_slots src)) 7 (i - 8) v = Some ?vr"
      using False i len kv tr unfolding ks' vs'
      by (simp_all add: arr_copy_insert_def arr_copy_def keys slots)
    then show ?thesis
      using False addr p by (simp add: btree_leaf_split_def btree_B_def m1(1) m2(1) mem_get_def t src(1) mem_upd_def c2)
  qed
  have "mem_ok bnode_ok j ?m" using c2 by (intro mem_ok_cells [OF ok2]) auto
  moreover have "leaf_node ?l (take 8 kvs')" "leaf_node ?r (drop 8 kvs')"
    using m1 m2 len' len by (simp_all add: leaf_node_def bnode_ok_def take_map drop_map)
  moreover have "cells ?m = (cells m)(l \<mapsto> ?l, r \<mapsto> ?r)" using c2 addr(1) by (auto simp: fun_eq_iff)
  ultimately show thesis
    using that [OF run addr] m1(4) m2(4) by simp
qed

section \<open>The updates of a leaf\<close>

definition btree_update_leaf_inplace ::
  "addr \<Rightarrow> key \<Rightarrow> val \<Rightarrow> bmem \<Rightarrow> ((key \<times> addr \<times> addr) \<times> bmem) option" where
  "btree_update_leaf_inplace t k v m =
     do { n \<leftarrow> mem_get m t;
          i \<leftarrow> btree_findval n k;
          hit \<leftarrow> btree_key_at n i k;
          if hit
          then do {
            m \<leftarrow> mem_upd m t (\<lambda>n. do { vs \<leftarrow> arr_set (bt_slots n) i v; Some (n\<lparr>bt_slots := vs\<rparr>) });
            Some ((k, t, nullptr), m) }
          else if bt_size n < 2 * btree_B - 1
          then do {
            m \<leftarrow> mem_upd m t (\<lambda>n. do {
                   ks \<leftarrow> arr_insert (bt_keys n) (bt_size n) i k;
                   vs \<leftarrow> arr_insert (bt_slots n) (bt_size n) i v;
                   Some (n\<lparr>bt_keys := ks, bt_slots := vs, bt_size := bt_size n + 1\<rparr>) });
            Some ((k, t, nullptr), m) }
          else btree_leaf_split 0 t i k v m }"

definition btree_update_leaf_cow ::
  "32 word \<Rightarrow> key \<Rightarrow> val \<Rightarrow> addr \<Rightarrow> bmem \<Rightarrow> ((key \<times> addr \<times> addr) \<times> bmem) option" where
  "btree_update_leaf_cow ver k v t m =
     do { n \<leftarrow> mem_get m t;
          i \<leftarrow> btree_findval n k;
          hit \<leftarrow> btree_key_at n i k;
          if hit
          then do {
            (t_new, m) \<leftarrow> btree_copy_leaf ver t m;
            m \<leftarrow> mem_upd m t_new (\<lambda>n. do { vs \<leftarrow> arr_set (bt_slots n) i v; Some (n\<lparr>bt_slots := vs\<rparr>) });
            Some ((k, t_new, nullptr), m) }
          else if bt_size n < 2 * btree_B - 1
          then do {
            (t_new, m) \<leftarrow> btree_new_leaf ver (bt_size n + 1) m;
            m \<leftarrow> mem_upd m t_new (\<lambda>n'. do {
                   ks \<leftarrow> arr_copy_insert (bt_keys n') (bt_keys n) (bt_size n) i k;
                   vs \<leftarrow> arr_copy_insert (bt_slots n') (bt_slots n) (bt_size n) i v;
                   Some (n'\<lparr>bt_keys := ks, bt_slots := vs\<rparr>) });
            Some ((k, t_new, nullptr), m) }
          else btree_leaf_split ver t i k v m }"

lemma leaf_split_up:
  assumes "cells m t = Some src" "leaf_node src kvs" "length kvs = 15"
    "i = findval_idx (map fst kvs) k" "\<not> (i < length kvs \<and> fst (kvs ! i) = k)" "mem_ok bnode_ok (j + 2) m"
  obtains r u m' where "btree_leaf_split ver t i k v m = Some (r, m')" "mem_ok bnode_ok j m'"
    "repr_up (cells m') r u" "erase_up u = leaf_upd ow kvs k v"
    "heap_step (cells m) {} (cells m') (set (footprint_up u))" "distinct (footprint_up u)"
    "snd (snd r) \<noteq> nullptr"
proof -
  let ?kvs = "take i kvs @ (k, v) # drop i kvs"
  have "i \<le> 15" using findval_idx_le [of "map fst kvs" k] assms(3,4) by simp
  moreover have "mem_ok bnode_ok (Suc (Suc j)) m" using assms(6) by simp
  ultimately obtain l r nl nr m' where s: "btree_leaf_split ver t i k v m = Some ((fst (?kvs ! 8), l, r), m')"
    "l \<noteq> r" "l \<noteq> nullptr" "r \<noteq> nullptr" "cells m l = None" "cells m r = None"
    "cells m' = (cells m)(l \<mapsto> nl, r \<mapsto> nr)" "mem_ok bnode_ok j m'"
    "leaf_node nl (take 8 ?kvs)" "leaf_node nr (drop 8 ?kvs)"
    by (rule leaf_split_ok [where ver = ver and k = k and v = v, OF assms(1-3) _ _ refl])
  let ?u = "ATwo (ALeaf l (take 8 ?kvs)) (fst (?kvs ! 8)) (ALeaf r (drop 8 ?kvs))"
  have "erase_up ?u = leaf_upd ow kvs k v"
    unfolding leaf_upd_def Let_def assms(4) [symmetric] using assms(3,5) by auto
  moreover have "repr_up (cells m') (fst (?kvs ! 8), l, r) ?u"
    using s(2-10) by auto
  moreover have "heap_step (cells m) {} (cells m') (set (footprint_up ?u))"
    using s(2-7) by (auto simp: heap_step_def)
  ultimately show thesis
    using s(1,2,4,8) by (intro that [of "(fst (?kvs ! 8), l, r)" m' ?u]) simp_all
qed

text \<open>
  In place: the leaf is changed where it is, or it is superseded by two fresh leaves and left for
  the caller to free.
\<close>

lemma update_leaf_inplace_ok:
  assumes leaf: "cells m t = Some n" "leaf_node n kvs" "t \<noteq> nullptr" and ok: "mem_ok bnode_ok (j + 2) m"
  obtains r u m' where "btree_update_leaf_inplace t k v m = Some (r, m')" "mem_ok bnode_ok j m'"
    "repr_up (cells m') r u" "erase_up u = leaf_upd ow_inplace kvs k v"
    "heap_step (cells m) {t} (cells m') (insert t (set (footprint_up u)))" "distinct (footprint_up u)"
    "case u of AOne t' \<Rightarrow> snd (snd r) = nullptr \<and> addr_of t' = t \<and> footprint t' = [t]
       | ATwo _ _ _ \<Rightarrow> snd (snd r) \<noteq> nullptr \<and> t \<notin> set (footprint_up u)"
proof -
  define i where "i = findval_idx (map fst kvs) k"
  have il: "i \<le> length kvs" using findval_idx_le [of "map fst kvs" k] by (simp add: i_def)
  have n: "bnode_ok n" "bt_type n = BT_LEAF" "bt_size n = length kvs" "length kvs \<le> 15"
    "take (length kvs) (bt_keys n) = map fst kvs" "take (length kvs) (bt_slots n) = map snd kvs"
    "length (bt_keys n) = 15" "length (bt_slots n) = 16"
    using leaf(2) by (simp_all add: leaf_node_def bnode_ok_def)
  note search = findval_ok [OF leaf(2), of k, folded i_def]
  have hit: "btree_key_at n i k = Some (i < length kvs \<and> fst (kvs ! i) = k)"
    by (rule key_at_ok [OF leaf(2)])
  have okj: "mem_ok bnode_ok j m" by (rule mem_ok_mono [OF ok]) simp
  note result = that
  have one: thesis if run: "btree_update_leaf_inplace t k v m = Some ((k, t, nullptr), m')"
    and set: "mem_set bnode_ok j m t n' m'" "leaf_node n' kvs'" and "One (BLeaf kvs') = leaf_upd ow_inplace kvs k v"
    for m' n' kvs'
    using set that(4) leaf by (intro result [OF run, of "AOne (ALeaf t kvs')"]) (auto simp: mem_set_def heap_step_def)
  show thesis
  proof (cases "i < length kvs \<and> fst (kvs ! i) = k")
    case True
    let ?f = "\<lambda>n. do { vs \<leftarrow> arr_set (bt_slots n) i v; Some (n\<lparr>bt_slots := vs\<rparr>) }"
    let ?n = "n\<lparr>bt_slots := (bt_slots n)[i := v]\<rparr>"
    have "?f n = Some ?n" using True n by (simp add: mem_simps)
    from mem_upd_set [where f = ?f, OF leaf(1) this okj] obtain m' where
      m': "mem_upd m t ?f = Some m'" "mem_set bnode_ok j m t ?n m'" .
    have "leaf_node ?n (ow_inplace kvs i v)"
      using n True by (auto simp: leaf_node_def bnode_ok_def ow_inplace_def map_update take_update_swap
          map_update [symmetric] list_update_same_conv)
    moreover have "One (BLeaf (ow_inplace kvs i v)) = leaf_upd ow_inplace kvs k v"
      unfolding leaf_upd_def Let_def i_def [symmetric] using True by simp
    moreover have "btree_update_leaf_inplace t k v m = Some ((k, t, nullptr), m')"
      using True m'(1) by (simp add: btree_update_leaf_inplace_def mem_get_def leaf(1) search hit)
    ultimately show thesis by (rule one [OF _ m'(2), rotated 1])
  next
    case False
    with hit have miss: "btree_key_at n i k = Some False" by simp
    show thesis
    proof (cases "length kvs < 15")
      case True
      obtain ks where ks: "arr_insert (bt_keys n) (length kvs) i k = Some ks"
        using n il True by (simp add: arr_insert_def)
      obtain vs where vs: "arr_insert (bt_slots n) (length kvs) i v = Some vs"
        using n il True by (simp add: arr_insert_def)
      let ?f = "\<lambda>n. do { ks \<leftarrow> arr_insert (bt_keys n) (bt_size n) i k; vs \<leftarrow> arr_insert (bt_slots n) (bt_size n) i v;
        Some (n\<lparr>bt_keys := ks, bt_slots := vs, bt_size := bt_size n + 1\<rparr>) }"
      let ?n = "n\<lparr>bt_keys := ks, bt_slots := vs, bt_size := Suc (length kvs)\<rparr>"
      let ?kvs = "take i kvs @ (k, v) # drop i kvs"
      have "?f n = Some ?n" using n ks vs by simp
      from mem_upd_set [where f = ?f, OF leaf(1) this okj] obtain m' where
        m': "mem_upd m t ?f = Some m'" "mem_set bnode_ok j m t ?n m'" .
      have "leaf_node ?n ?kvs"
        using n True arr_insert_used [OF ks] arr_insert_used [OF vs] arr_insert_length [OF ks] arr_insert_length [OF vs]
        by (simp add: leaf_node_def bnode_ok_def take_map drop_map min.absorb2 il)
      moreover have "One (BLeaf ?kvs) = leaf_upd ow_inplace kvs k v"
        unfolding leaf_upd_def Let_def i_def [symmetric] using False True by auto
      moreover have "btree_update_leaf_inplace t k v m = Some ((k, t, nullptr), m')"
        using True m'(1) n by (simp add: btree_update_leaf_inplace_def mem_get_def leaf(1) search miss btree_B_def)
      ultimately show thesis by (rule one [OF _ m'(2), rotated 1])
    next
      case full: False
      with n have len: "length kvs = 15" by simp
      have "btree_update_leaf_inplace t k v m = btree_leaf_split 0 t i k v m"
        using full n by (simp add: btree_update_leaf_inplace_def mem_get_def leaf(1) search miss btree_B_def)
      moreover obtain r u m' where s: "btree_leaf_split 0 t i k v m = Some (r, m')" "mem_ok bnode_ok j m'"
        "repr_up (cells m') r u" "erase_up u = leaf_upd ow_inplace kvs k v"
        "heap_step (cells m) {} (cells m') (set (footprint_up u))" "distinct (footprint_up u)"
        "snd (snd r) \<noteq> nullptr"
        by (rule leaf_split_up [OF leaf(1,2) len i_def False ok])
      moreover from heap_step_frame [OF s(5), of "{t}"] leaf(1)
      have "heap_step (cells m) {t} (cells m') (insert t (set (footprint_up u)))" "t \<notin> set (footprint_up u)"
        by auto
      moreover have "\<exists>l p r'. u = ATwo l p r'"
        using s(3,7) repr_not_null by (cases u; cases r) auto
      ultimately show thesis by (intro that [of r m' u]) auto
    qed
  qed
qed

text \<open>Copy on write: only fresh cells are written.\<close>

lemma update_leaf_cow_ok:
  assumes leaf: "cells m t = Some n" "leaf_node n kvs" and ok: "mem_ok bnode_ok (j + 2) m"
  obtains r u m' g where "btree_update_leaf_cow ver k v t m = Some (r, m')" "mem_ok bnode_ok j m'"
    "repr_up (cells m') r u" "erase_up u = leaf_upd (ow_cow g) kvs k v"
    "heap_step (cells m) {} (cells m') (set (footprint_up u))" "distinct (footprint_up u)"
proof -
  define i where "i = findval_idx (map fst kvs) k"
  have il: "i \<le> length kvs" using findval_idx_le [of "map fst kvs" k] by (simp add: i_def)
  have n: "bnode_ok n" "bt_type n = BT_LEAF" "bt_size n = length kvs" "length kvs \<le> 15"
    "take (length kvs) (bt_keys n) = map fst kvs" "take (length kvs) (bt_slots n) = map snd kvs"
    "length (bt_keys n) = 15" "length (bt_slots n) = 16"
    using leaf(2) by (simp_all add: leaf_node_def bnode_ok_def)
  note search = findval_ok [OF leaf(2), of k, folded i_def]
  have hit: "btree_key_at n i k = Some (i < length kvs \<and> fst (kvs ! i) = k)"
    by (rule key_at_ok [OF leaf(2)])
  have ok1: "mem_ok bnode_ok (Suc j) m" by (rule mem_ok_mono [OF ok]) simp
  note result = that
  have one: thesis if run: "btree_update_leaf_cow ver k v t m = Some ((k, a, nullptr), m')"
    and new: "mem_new bnode_ok j m a n' m'" "leaf_node n' kvs'" and "One (BLeaf kvs') = leaf_upd (ow_cow g) kvs k v"
    for m' n' kvs' a g
    using new that(4) by (intro result [OF run, of "AOne (ALeaf a kvs')" g]) (auto simp: mem_new_def heap_step_def)
  show thesis
  proof (cases "i < length kvs \<and> fst (kvs ! i) = k")
    case True
    obtain a n1 m1 where m1: "btree_copy_leaf ver t m = Some (a, m1)" "mem_new bnode_ok j m a n1 m1"
      "bnode_ok n1" "bt_type n1 = bt_type n" "bt_size n1 = bt_size n" "bt_keys n1 = bt_keys n"
      by (rule copy_leaf_ok [OF leaf(1) n(1) ok1, of ver])
    let ?f = "\<lambda>n. do { vs \<leftarrow> arr_set (bt_slots n) i v; Some (n\<lparr>bt_slots := vs\<rparr>) }"
    let ?n = "n1\<lparr>bt_slots := (bt_slots n1)[i := v]\<rparr>"
    let ?g = "\<lambda>j. bt_slots n1 ! j"
    have "?f n1 = Some ?n" using True n m1(3) by (simp add: mem_simps bnode_ok_def)
    from mem_upd_new [where f = ?f, OF m1(2) this] obtain m' where
      m': "mem_upd m1 a ?f = Some m'" "mem_new bnode_ok j m a ?n m'" .
    have "take (length kvs) (bt_slots n1) = map ?g [0..<length kvs]"
      using m1(3) n(4) by (intro nth_equalityI) (auto simp: bnode_ok_def)
    then have "leaf_node ?n (ow_cow ?g kvs i v)"
      using n m1 by (simp add: leaf_node_def bnode_ok_def ow_cow_def take_update_swap)
    moreover have "One (BLeaf (ow_cow ?g kvs i v)) = leaf_upd (ow_cow ?g) kvs k v"
      unfolding leaf_upd_def Let_def i_def [symmetric] using True by simp
    moreover have "btree_update_leaf_cow ver k v t m = Some ((k, a, nullptr), m')"
      using True m1(1) m'(1) by (simp add: btree_update_leaf_cow_def mem_get_def leaf(1) search hit)
    ultimately show thesis by (rule one [OF _ m'(2), rotated 1])
  next
    case False
    with hit have miss: "btree_key_at n i k = Some False" by simp
    show thesis
    proof (cases "length kvs < 15")
      case True
      have sz: "Suc (length kvs) \<le> 15" using True by simp
      obtain a n1 m1 where m1: "btree_new_leaf ver (Suc (length kvs)) m = Some (a, m1)" "mem_new bnode_ok j m a n1 m1"
        "bnode_ok n1" "bt_ver n1 = ver" "bt_type n1 = BT_LEAF" "bt_size n1 = Suc (length kvs)"
        by (rule new_leaf_ok [OF ok1 sz, of ver])
      let ?f = "\<lambda>n'. do { ks \<leftarrow> arr_copy_insert (bt_keys n') (bt_keys n) (bt_size n) i k;
        vs \<leftarrow> arr_copy_insert (bt_slots n') (bt_slots n) (bt_size n) i v; Some (n'\<lparr>bt_keys := ks, bt_slots := vs\<rparr>) }"
      let ?n = "n1\<lparr>bt_keys := take i (bt_keys n) @ k # take (length kvs - i) (drop i (bt_keys n)) @ drop (length kvs + 1) (bt_keys n1),
        bt_slots := take i (bt_slots n) @ v # take (length kvs - i) (drop i (bt_slots n)) @ drop (length kvs + 1) (bt_slots n1)\<rparr>"
      let ?kvs = "take i kvs @ (k, v) # drop i kvs"
      have "?f n1 = Some ?n"
        using n m1(3) il True by (simp add: mem_simps bnode_ok_def del: take_insert_used)
      from mem_upd_new [where f = ?f, OF m1(2) this] obtain m' where
        m': "mem_upd m1 a ?f = Some m'" "mem_new bnode_ok j m a ?n m'" .
      have "leaf_node ?n ?kvs"
        using n True m1 il min.absorb2 [OF order.trans [OF il n(4)]] take_insert_used [of i "length kvs" "bt_keys n" k "drop (length kvs + 1) (bt_keys n1)"]
          take_insert_used [of i "length kvs" "bt_slots n" v "drop (length kvs + 1) (bt_slots n1)"]
        by (simp add: leaf_node_def bnode_ok_def take_map drop_map min.absorb2)
      moreover have "One (BLeaf ?kvs) = leaf_upd (ow_cow (\<lambda>_. 0)) kvs k v"
        unfolding leaf_upd_def Let_def i_def [symmetric] using False True by auto
      moreover have "btree_update_leaf_cow ver k v t m = Some ((k, a, nullptr), m')"
        using True m1(1) m'(1) n by (simp add: btree_update_leaf_cow_def mem_get_def leaf(1) search miss btree_B_def)
      ultimately show thesis by (rule one [OF _ m'(2), rotated 1])
    next
      case full: False
      with n have len: "length kvs = 15" by simp
      have "btree_update_leaf_cow ver k v t m = btree_leaf_split ver t i k v m"
        using full n by (simp add: btree_update_leaf_cow_def mem_get_def leaf(1) search miss btree_B_def)
      moreover obtain r u m' where s: "btree_leaf_split ver t i k v m = Some (r, m')" "mem_ok bnode_ok j m'"
        "repr_up (cells m') r u" "erase_up u = leaf_upd (ow_cow (\<lambda>_. 0)) kvs k v"
        "heap_step (cells m) {} (cells m') (set (footprint_up u))" "distinct (footprint_up u)"
        by (rule leaf_split_up [OF leaf(1,2) len i_def False ok])
      ultimately show thesis by (intro that [of r m' u]) auto
    qed
  qed
qed

end
