(* ===== verification/Btree_Inplace.thy ===== *)
theory Btree_Inplace
  imports Btree_Leaf
begin

text \<open>
  \<^verbatim>\<open>lib/trees/btree/update_inplace.hpp\<close>: the descent that splits full nodes on its way, on
  memory, and its refinement of \<open>bt_insert\<close>. The recursion takes fuel; the height of the tree
  is enough. Besides the represented tree the theorem accounts for memory: what is allocated
  is in the new tree, what left the tree is freed, and nothing else changes.
\<close>

section \<open>The code\<close>

fun btree_update_internal_inplace :: "nat \<Rightarrow> addr \<Rightarrow> key \<Rightarrow> val \<Rightarrow> bmem \<Rightarrow> bmem option" where
  "btree_update_internal_inplace 0 t k v m = None"
| "btree_update_internal_inplace (Suc fuel) t k v m =
     do { n \<leftarrow> mem_get m t;
          i \<leftarrow> btree_findch n k;
          ch \<leftarrow> arr_get (bt_slots n) i;
          c \<leftarrow> mem_get m ch;
          if bt_type c = BT_LEAF
          then do {
            ((p, t_l, t_r), m) \<leftarrow> btree_update_leaf_inplace ch k v m;
            if t_r \<noteq> nullptr
            then do { m \<leftarrow> mem_free m ch; btree_insert_child t p t_l t_r i m }
            else Some m }
          else if bt_size c < 2 * btree_B - 1
          then btree_update_internal_inplace fuel ch k v m
          else do {
            ((p, t_l, t_r), m) \<leftarrow> btree_split 0 ch m;
            m \<leftarrow> btree_insert_child t p t_l t_r i m;
            m \<leftarrow> btree_copych_split t i ch m;
            m \<leftarrow> mem_free m ch;
            n \<leftarrow> mem_get m t;
            c \<leftarrow> arr_get (bt_slots n) (if p \<le> k then i + 1 else i);
            btree_update_internal_inplace fuel c k v m } }"

definition btree_update_root_inplace :: "nat \<Rightarrow> addr \<Rightarrow> key \<Rightarrow> val \<Rightarrow> bmem \<Rightarrow> (addr \<times> bmem) option" where
  "btree_update_root_inplace fuel t k v m =
     do { n \<leftarrow> mem_get m t;
          if bt_type n = BT_LEAF
          then do {
            ((p, t_l, t_r), m) \<leftarrow> btree_update_leaf_inplace t k v m;
            if t_r \<noteq> nullptr
            then do { m \<leftarrow> mem_free m t; btree_new_root 0 p t_l t_r m }
            else Some (t, m) }
          else if bt_size n < 2 * btree_B - 1
          then do { m \<leftarrow> btree_update_internal_inplace fuel t k v m; Some (t, m) }
          else do {
            ((p, t_l, t_r), m) \<leftarrow> btree_split 0 t m;
            (t_new, m) \<leftarrow> btree_new_root 0 p t_l t_r m;
            m \<leftarrow> btree_copych_split t_new 0 t m;
            m \<leftarrow> mem_free m t;
            n \<leftarrow> mem_get m t_new;
            c \<leftarrow> arr_get (bt_slots n) (if p \<le> k then 1 else 0);
            m \<leftarrow> btree_update_internal_inplace fuel c k v m;
            Some (t_new, m) } }"

section \<open>Putting changed children back\<close>

lemma put_back:
  assumes h: "h a = Some n" "a \<noteq> nullptr" "reprs h ts1" "reprs h ts2" "reprs h us"
    and d: "distinct (a # footprints (ts1 @ us @ ts2))"
    and step: "heap_step h (set (footprints us)) h1 (set (footprints us'))"
    and new: "reprs h1 us'" "distinct (footprints us')"
    and node: "h2 = h1(a \<mapsto> n')" "inner_node n' ks' (map addr_of (ts1 @ us' @ ts2))"
  shows "repr h2 (ANode a (ts1 @ us' @ ts2) ks')" "distinct (footprint (ANode a (ts1 @ us' @ ts2) ks'))"
    "heap_step h (set (footprint (ANode a (ts1 @ us @ ts2) ks))) h2 (set (footprint (ANode a (ts1 @ us' @ ts2) ks')))"
    "\<And>x. x \<in> insert a (set (footprints (ts1 @ ts2))) \<Longrightarrow> h1 x = h x"
proof -
  let ?G = "insert a (set (footprints (ts1 @ ts2)))"
  have G: "?G \<subseteq> dom h" "set (footprints us) \<inter> ?G = {}"
    using h(1) reprs_dom [OF h(3)] reprs_dom [OF h(4)] d by auto
  note fr = heap_step_frame [OF step G]
  show same: "h1 x = h x" if "x \<in> ?G" for x by (rule fr(3) [OF that])
  have "reprs h1 ts1" "reprs h1 ts2"
    using h(3,4) same by (auto elim!: reprs_frame)
  moreover have a: "a \<notin> set (footprints us')" using fr(2) by auto
  ultimately have "reprs h2 ts1" "reprs h2 ts2" "reprs h2 us'"
    unfolding node(1) using d new(1) by (auto intro!: repr_upd)
  with node h(2) show "repr h2 (ANode a (ts1 @ us' @ ts2) ks')" by auto
  show "distinct (footprint (ANode a (ts1 @ us' @ ts2) ks'))"
    using d new(2) fr(2) a by auto
  have "heap_step h (set (footprints us) \<union> ?G) h2 (set (footprints us') \<union> ?G)"
    unfolding node(1) by (rule heap_step_upd [OF fr(1)]) simp
  then show "heap_step h (set (footprint (ANode a (ts1 @ us @ ts2) ks))) h2
      (set (footprint (ANode a (ts1 @ us' @ ts2) ks')))"
    by (rule heap_step_cong) auto
qed

text \<open>The node itself unchanged, and one child changed without moving.\<close>

lemma put_back_same:
  assumes h: "repr h (ANode a (ts1 @ c # ts2) ks)" "distinct (footprint (ANode a (ts1 @ c # ts2) ks))"
    and step: "heap_step h (set (footprint c)) h1 (set (footprint c'))"
    and new: "repr h1 c'" "distinct (footprint c')" "addr_of c' = addr_of c"
  shows "repr h1 (ANode a (ts1 @ c' # ts2) ks)" "distinct (footprint (ANode a (ts1 @ c' # ts2) ks))"
    "heap_step h (set (footprint (ANode a (ts1 @ c # ts2) ks))) h1 (set (footprint (ANode a (ts1 @ c' # ts2) ks)))"
proof -
  from h(1) obtain n where n: "h a = Some n" "inner_node n ks (map addr_of (ts1 @ c # ts2))" "a \<noteq> nullptr"
    "reprs h ts1" "reprs h ts2" "reprs h [c]" by auto
  have d: "distinct (a # footprints (ts1 @ [c] @ ts2))" using h(2) by simp
  have n': "inner_node n ks (map addr_of (ts1 @ [c'] @ ts2))" using n(2) new(3) by simp
  have "a \<in> dom h" "a \<notin> set (footprint c)" using n(1) d by auto
  then have "h1 a = h a" using heap_step_frame(3) [OF step, of "{a}"] by simp
  then have upd: "h1 = h1(a \<mapsto> n)" using n(1) by (simp add: fun_upd_idem)
  have "heap_step h (set (footprints [c])) h1 (set (footprints [c']))" "reprs h1 [c']" "distinct (footprints [c'])"
    using step new by simp_all
  from put_back(1,2) [OF n(1,3-6) d this upd n'] put_back(3) [OF n(1,3-6) d this upd n', of ks]
  show "repr h1 (ANode a (ts1 @ c' # ts2) ks)" "distinct (footprint (ANode a (ts1 @ c' # ts2) ks))"
    "heap_step h (set (footprint (ANode a (ts1 @ c # ts2) ks))) h1 (set (footprint (ANode a (ts1 @ c' # ts2) ks)))"
    by simp_all
qed

lemma split_heap:
  assumes h: "reprs h us" "h ch \<noteq> None" "distinct (footprint (ANode ch us js))"
    and fresh: "h l = None" "h r = None" "l \<noteq> r" "l \<noteq> nullptr" "r \<noteq> nullptr"
    and nodes: "inner_node nl (take 7 js) (take 8 (map addr_of us))" "inner_node nr (drop 8 js) (drop 8 (map addr_of us))"
    and h1: "h1 = (h(l \<mapsto> nl, r \<mapsto> nr))(ch := None)"
  shows "repr h1 (half_l l us js)" "repr h1 (half_r r us js)"
    "distinct (footprints [half_l l us js, half_r r us js])"
    "heap_step h (set (footprint (ANode ch us js))) h1 (set (footprints [half_l l us js, half_r r us js]))"
proof -
  have dom: "set (footprints us) \<subseteq> dom h" by (rule reprs_dom [OF h(1)])
  have ch: "ch \<notin> set (footprints us)" "ch \<noteq> l" "ch \<noteq> r" using h fresh by auto
  have new: "l \<notin> set (footprints us)" "r \<notin> set (footprints us)" using dom fresh by auto
  have us: "reprs h1 us"
    by (rule reprs_frame [OF h(1)]) (use h1 ch new in auto)
  have app: "footprints us = footprints (take 8 us) @ footprints (drop 8 us)"
    by (simp add: footprints_take_drop)
  have sub: "set (footprints (take 8 us)) \<union> set (footprints (drop 8 us)) = set (footprints us)"
    by (simp only: app set_append)
  show "repr h1 (half_l l us js)" "repr h1 (half_r r us js)"
    using us nodes h1 ch fresh
    by (auto simp: half_l_def half_r_def take_map drop_map dest: in_set_takeD in_set_dropD)
  show "distinct (footprints [half_l l us js, half_r r us js])"
    using h(3) new fresh(3) app sub by (auto simp: half_l_def half_r_def)
  have step: "heap_step h (set (footprint (ANode ch us js))) (h(l \<mapsto> nl, r \<mapsto> nr))
      (insert l (insert r (set (footprint (ANode ch us js)))))"
    using dom h(2) fresh by (auto simp: heap_step_def domIff)
  have "heap_step h (set (footprint (ANode ch us js))) h1
      (insert l (insert r (set (footprint (ANode ch us js)))) - {ch})"
    unfolding h1 by (rule heap_step_free [OF step]) simp
  then show "heap_step h (set (footprint (ANode ch us js))) h1 (set (footprints [half_l l us js, half_r r us js]))"
    by (rule heap_step_cong) (use ch sub in \<open>auto simp: half_l_def half_r_def\<close>)
qed

text \<open>The steps of the code that split the full child \<^term>\<open>i\<close> of a node with room.\<close>

lemma inplace_split_child:
  assumes old: "repr (cells m) (ANode a (ts1 @ ANode ch us js # ts2) (ks1 @ ks2))"
    "distinct (footprint (ANode a (ts1 @ ANode ch us js # ts2) (ks1 @ ks2)))"
    and len: "length ts1 = length ks1" "length (ks1 @ ks2) < 15" "length js = 15"
    and ok: "mem_ok bnode_ok (Suc (Suc j)) m"
  obtains l r m1 m2 m3 m4 n where "btree_split 0 ch m = Some ((js ! 7, l, r), m1)"
    "btree_insert_child a (js ! 7) l r (length ks1) m1 = Some m2"
    "btree_copych_split a (length ks1) ch m2 = Some m3" "mem_free m3 ch = Some m4"
    "mem_ok bnode_ok j m4" "cells m4 a = Some n"
    "arr_get (bt_slots n) (length ks1) = Some l" "arr_get (bt_slots n) (length ks1 + 1) = Some r"
    "repr (cells m4) (ANode a (ts1 @ [half_l l us js, half_r r us js] @ ts2) (ks1 @ js ! 7 # ks2))"
    "distinct (footprint (ANode a (ts1 @ [half_l l us js, half_r r us js] @ ts2) (ks1 @ js ! 7 # ks2)))"
    "heap_step (cells m) (set (footprint (ANode a (ts1 @ ANode ch us js # ts2) (ks1 @ ks2)))) (cells m4)
      (set (footprint (ANode a (ts1 @ [half_l l us js, half_r r us js] @ ts2) (ks1 @ js ! 7 # ks2))))"
proof -
  let ?c = "ANode ch us js"
  from old(1) obtain n c where n: "cells m a = Some n" "inner_node n (ks1 @ ks2) (map addr_of (ts1 @ ?c # ts2))"
    "a \<noteq> nullptr" "reprs (cells m) ts1" "reprs (cells m) ts2"
    and c: "cells m ch = Some c" "inner_node c js (map addr_of us)" "reprs (cells m) us" "ch \<noteq> nullptr"
    by auto
  have ac: "a \<noteq> ch" using old(2) by simp
  obtain l r nl nr m1 where m1: "btree_split 0 ch m = Some ((js ! 7, l, r), m1)" "l \<noteq> r"
    "l \<noteq> nullptr" "r \<noteq> nullptr" "cells m l = None" "cells m r = None"
    "cells m1 = (cells m)(l \<mapsto> nl, r \<mapsto> nr)" "mem_ok bnode_ok j m1"
    "inner_shell nl (take 7 js)" "inner_shell nr (drop 8 js)"
    by (rule split_ok [where ver = 0, OF c(1,2) len(3) ok])
  have al: "a \<noteq> l" "a \<noteq> r" "ch \<noteq> l" "ch \<noteq> r" using n(1) c(1) m1(5,6) by auto
  have i: "length ks1 \<le> length (ks1 @ ks2)" by simp
  have "cells m1 a = Some n" using m1(7) n(1) al by simp
  note a1 = this
  have "length (map addr_of ts1) = length ks1" using len(1) by simp
  from insert_child_app_ok [where p = "js ! 7" and l = l and r = r, OF a1 n(2) [unfolded map_append list.map] this len(2) m1(8)]
  obtain n2 m2 where m2: "btree_insert_child a (js ! 7) l r (length ks1) m1 = Some m2"
    "mem_set bnode_ok j m1 a n2 m2"
    "inner_node n2 (ks1 @ js ! 7 # ks2) (map addr_of ts1 @ l # r # map addr_of ts2)"
    by blast
  then have c2: "cells m2 = (cells m)(l \<mapsto> nl, r \<mapsto> nr, a \<mapsto> n2)" "mem_ok bnode_ok j m2"
    using m1(7) by (simp_all add: mem_set_def)
  have slots: "arr_get (bt_slots n2) (length ks1) = Some l" "arr_get (bt_slots n2) (length ks1 + 1) = Some r"
    using inner_node_child [OF m2(3), of "length ks1"] inner_node_child [OF m2(3), of "length ks1 + 1"] len(1)
    by (auto simp: nth_append)
  have at: "cells m2 a = Some n2" "cells m2 l = Some nl" "cells m2 r = Some nr" "cells m2 ch = Some c"
    using c2 al m1(2) ac c(1) by simp_all
  from copych_split_ok [OF at(1) slots m1(2) at(2,3) m1(9,10) at(4) c(2) len(3) c2(2)]
  obtain nl' nr' m3 where m3: "btree_copych_split a (length ks1) ch m2 = Some m3"
    "cells m3 = (cells m2)(l \<mapsto> nl', r \<mapsto> nr')" "mem_ok bnode_ok j m3"
    "inner_node nl' (take 7 js) (take 8 (map addr_of us))" "inner_node nr' (drop 8 js) (drop 8 (map addr_of us))" .
  define m4 where "m4 = m3\<lparr>cells := (cells m3)(ch := None)\<rparr>"
  have m4: "mem_free m3 ch = Some m4"
    using m3(2) at(4) al by (simp add: mem_free_def m4_def)
  define h1 where "h1 = ((cells m)(l \<mapsto> nl', r \<mapsto> nr'))(ch := None)"
  have c4: "cells m4 = h1(a \<mapsto> n2)"
    unfolding m4_def h1_def using m3(2) c2(1) al ac m1(2) by (auto simp: fun_eq_iff)
  have dc: "distinct (footprint ?c)" using old(2) by simp
  have "cells m ch \<noteq> None" using c(1) by simp
  note sh = split_heap [OF c(3) this dc m1(5,6,2-4) m3(4,5) h1_def]
  have d: "distinct (a # footprints (ts1 @ [?c] @ ts2))" using old(2) by simp
  have rc: "reprs (cells m) [?c]" using old(1) by simp
  have step: "heap_step (cells m) (set (footprints [?c])) h1 (set (footprints [half_l l us js, half_r r us js]))"
    using sh(4) by simp
  have rn: "reprs h1 [half_l l us js, half_r r us js]" using sh(1,2) by simp
  have n2: "inner_node n2 (ks1 @ js ! 7 # ks2) (map addr_of (ts1 @ [half_l l us js, half_r r us js] @ ts2))"
    using m2(3) by simp
  note pb = put_back(1,2) [OF n(1,3-5) rc d step rn sh(3) c4 n2]
    put_back(3) [OF n(1,3-5) rc d step rn sh(3) c4 n2, of "ks1 @ ks2"]
  have "mem_ok bnode_ok j m4"
    unfolding m4_def by (rule mem_ok_cells [OF m3(3)]) auto
  moreover have "cells m4 a = Some n2" using c4 by simp
  ultimately show thesis
    using that [OF m1(1) m2(1) m3(1) m4 _ _ slots pb(1,2)] pb(3) by simp
qed

section \<open>The descent refines \<open>bt_ins\<close>\<close>

lemma internal_inplace_ok:
  assumes "repr (cells m) (ANode a ts ks)" "distinct (footprint (ANode a ts ks))" "length ks < 15"
    "aheight (ANode a ts ks) \<le> fuel" "mem_ok bnode_ok (2 * fuel + j) m"
  obtains m' ts' ks' where "btree_update_internal_inplace fuel a k v m = Some m'"
    "repr (cells m') (ANode a ts' ks')" "distinct (footprint (ANode a ts' ks'))"
    "erase (ANode a ts' ks') = bt_ins ow_inplace k v (erase (ANode a ts ks))"
    "heap_step (cells m) (set (footprint (ANode a ts ks))) (cells m') (set (footprint (ANode a ts' ks')))"
    "mem_ok bnode_ok j m'"
  using assms
proof (induction fuel arbitrary: a ts ks m thesis)
  case 0
  then show ?case by (simp add: aheight.simps)
next
  case (Suc fuel)
  from Suc.prems(2) obtain n where n: "cells m a = Some n" "inner_node n ks (map addr_of ts)" "a \<noteq> nullptr"
    "reprs (cells m) ts" by auto
  obtain ts1 c ts2 ks1 ks2 where d: "ts = ts1 @ c # ts2" "ks = ks1 @ ks2" "length ts1 = length ks1"
    "findch_idx ks k = length ks1" "arr_get (bt_slots n) (length ks1) = Some (addr_of c)" "c \<in> set ts"
    "map erase ts ! length ks1 = erase c" "length ks1 < length ts"
    by (rule split_at_child [OF n(2)])
  have hc: "aheight c \<le> fuel" using aheight_child_le [OF d(6) Suc.prems(5)] .
  have okj: "mem_ok bnode_ok (2 * fuel + (j + 2)) m" using Suc.prems(6) by (simp add: algebra_simps)
  note run = n(1) findch_ok [OF n(2), of k] d(4,5)
  have rc: "repr (cells m) c" using n(4) d(6) by blast
  show ?case
  proof (cases c)
    case (ALeaf b kvs)
    with rc obtain x where x: "cells m b = Some x" "leaf_node x kvs" "b \<noteq> nullptr" by auto
    have ok2: "mem_ok bnode_ok (j + 2) m" by (rule mem_ok_mono [OF okj]) simp
    obtain r u m1 where m1: "btree_update_leaf_inplace b k v m = Some (r, m1)" "mem_ok bnode_ok j m1"
      "repr_up (cells m1) r u" "erase_up u = leaf_upd ow_inplace kvs k v"
      "heap_step (cells m) {b} (cells m1) (insert b (set (footprint_up u)))" "distinct (footprint_up u)"
      "case u of AOne t' \<Rightarrow> snd (snd r) = nullptr \<and> addr_of t' = b \<and> footprint t' = [b]
         | ATwo _ _ _ \<Rightarrow> snd (snd r) \<noteq> nullptr \<and> b \<notin> set (footprint_up u)"
      by (rule update_leaf_inplace_ok [OF x ok2])
    obtain p l r' where r: "r = (p, l, r')" by (cases r) auto
    have ins: "bt_ins ow_inplace k v (BNode (map erase ts) ks) = put_child (map erase ts) ks (length ks1) (erase_up u)"
      using bt_ins_leaf [of ks k "map erase ts" kvs ow_inplace v] d ALeaf m1(4) by simp
    show ?thesis
    proof (cases u)
      case (AOne c')
      have res: "btree_update_internal_inplace (Suc fuel) a k v m = Some m1"
        using run x leaf_is_leaf [OF x(2)] ALeaf m1(1,7) AOne r by (simp add: mem_get_def)
      have c': "repr (cells m1) c'" "addr_of c' = addr_of c" "distinct (footprint c')"
        "heap_step (cells m) (set (footprint c)) (cells m1) (set (footprint c'))"
        using m1 AOne ALeaf r by simp_all
      note pb = put_back_same [OF Suc.prems(2,3) [unfolded d(1)] c'(4,1,3,2)]
      have "erase (ANode a (ts1 @ c' # ts2) ks) = bt_ins ow_inplace k v (erase (ANode a ts ks))"
        using ins AOne d(1,2,3) put_child_append [of "map erase ts1" ks1 "erase c" "map erase ts2" ks2] by simp
      from Suc.prems(1) [OF res pb(1,2) this _ m1(2)] pb(3) show ?thesis by (simp add: d(1))
    next
      case (ATwo tl q tr)
      define m2 where "m2 = m1\<lparr>cells := (cells m1)(b := None)\<rparr>"
      have b: "b \<notin> set (footprint_up u)" "r' \<noteq> nullptr" using m1(7) ATwo r by simp_all
      have u: "repr (cells m1) tl" "repr (cells m1) tr" "addr_of tl = l" "addr_of tr = r'" "p = q"
        using m1(3) ATwo r by simp_all
      have free: "mem_free m1 b = Some m2"
        using m1(5) unfolding heap_step_def by (auto simp: mem_free_def m2_def split: option.split)
      have step: "heap_step (cells m) (set (footprints [c])) (cells m2) (set (footprints [tl, tr]))"
        using heap_step_free [OF m1(5), of b] b(1) ATwo ALeaf by (simp add: m2_def)
      have new: "reprs (cells m2) [tl, tr]" "distinct (footprints [tl, tr])"
        using u b(1) ATwo m1(6) by (auto simp: m2_def intro: repr_upd)
      have dd: "distinct (a # footprints (ts1 @ [c] @ ts2))" using Suc.prems(3) d(1) by simp
      have "a \<noteq> b" using dd ALeaf by simp
      have sib: "reprs (cells m) ts1" "reprs (cells m) ts2" "reprs (cells m) [c]"
        using n(4) d(1) by auto
      have "cells m2 a = cells m a"
        using heap_step_frame(3) [OF step, of "{a}"] dd n(1) by auto
      then have a2: "cells m2 a = Some n" using n(1) by simp
      have ok2: "mem_ok bnode_ok j m2" unfolding m2_def by (rule mem_ok_cells [OF m1(2)]) auto
      have "length (map addr_of ts1) = length ks1" using d(3) by simp
      from insert_child_app_ok [where p = p and l = l and r = r', OF a2 n(2) [unfolded d(1,2) map_append list.map] this
          Suc.prems(4) [unfolded d(2)] ok2]
      obtain n3 m3 where m3: "btree_insert_child a p l r' (length ks1) m2 = Some m3"
        "mem_set bnode_ok j m2 a n3 m3" "inner_node n3 (ks1 @ p # ks2) (map addr_of ts1 @ l # r' # map addr_of ts2)"
        by blast
      then have n3: "inner_node n3 (ks1 @ q # ks2) (map addr_of (ts1 @ [tl, tr] @ ts2))"
        using u by simp
      from m3(2) have c3: "cells m3 = (cells m2)(a \<mapsto> n3)" "mem_ok bnode_ok j m3" by (simp_all add: mem_set_def)
      have res: "btree_update_internal_inplace (Suc fuel) a k v m = Some m3"
        using run x leaf_is_leaf [OF x(2)] ALeaf m1(1) r b(2) free m3(1) by (simp add: mem_get_def)
      note pb = put_back(1,2) [OF n(1,3) sib dd step new c3(1) n3]
        put_back(3) [OF n(1,3) sib dd step new c3(1) n3, of ks]
      have "erase (ANode a (ts1 @ [tl, tr] @ ts2) (ks1 @ q # ks2)) = bt_ins ow_inplace k v (erase (ANode a ts ks))"
        using ins ATwo d(1,2,3) put_child_append [of "map erase ts1" ks1 "erase c" "map erase ts2" ks2] by simp
      from Suc.prems(1) [OF res pb(1,2) this _ c3(2)] pb(3) show ?thesis by (simp add: d(1))
    qed
  next
    case (ANode ch us js)
    with rc obtain x where x: "cells m ch = Some x" "inner_node x js (map addr_of us)" by auto
    then have sz: "bt_size x = length js" "bt_type x \<noteq> BT_LEAF" "length js \<le> 15" by (auto simp: inner_node_def)
    have dc: "distinct (footprint c)" using Suc.prems(3) d(1) by simp
    show ?thesis
    proof (cases "length js < 15")
      case True
      have "mem_ok bnode_ok (2 * fuel + j) m" by (rule mem_ok_mono [OF okj]) simp
      from Suc.IH [OF _ rc [unfolded ANode] dc [unfolded ANode] True hc [unfolded ANode] this]
      obtain m' us' js' where m': "btree_update_internal_inplace fuel ch k v m = Some m'"
        "repr (cells m') (ANode ch us' js')" "distinct (footprint (ANode ch us' js'))"
        "erase (ANode ch us' js') = bt_ins ow_inplace k v (erase (ANode ch us js))"
        "heap_step (cells m) (set (footprint (ANode ch us js))) (cells m') (set (footprint (ANode ch us' js')))"
        "mem_ok bnode_ok j m'"
        by blast
      have res: "btree_update_internal_inplace (Suc fuel) a k v m = Some m'"
        using run x sz ANode True m'(1) by (simp add: btree_B_def mem_get_def)
      have c': "addr_of (ANode ch us' js') = addr_of c" using ANode by simp
      note pb = put_back_same [OF Suc.prems(2,3) [unfolded d(1)] m'(5) [folded ANode] m'(2,3) c']
      have "erase (ANode a (ts1 @ ANode ch us' js' # ts2) ks) = bt_ins ow_inplace k v (erase (ANode a ts ks))"
        using bt_ins_room [of ks k "map erase ts" "map erase us" js ow_inplace v] d True ANode m'(4)
          put_child_append [of "map erase ts1" ks1 "erase c" "map erase ts2" ks2] by simp
      from Suc.prems(1) [OF res pb(1,2) this _ m'(6)] pb(3) show ?thesis by (simp add: d(1))
    next
      case False
      then have full: "length js = 15" using sz(3) by simp
      have ok2: "mem_ok bnode_ok (Suc (Suc (2 * fuel + j))) m" using okj by simp
      obtain l r m1 m2 m3 m4 n4 where s: "btree_split 0 ch m = Some ((js ! 7, l, r), m1)"
        "btree_insert_child a (js ! 7) l r (length ks1) m1 = Some m2"
        "btree_copych_split a (length ks1) ch m2 = Some m3" "mem_free m3 ch = Some m4"
        "mem_ok bnode_ok (2 * fuel + j) m4" "cells m4 a = Some n4"
        "arr_get (bt_slots n4) (length ks1) = Some l" "arr_get (bt_slots n4) (length ks1 + 1) = Some r"
        "repr (cells m4) (ANode a (ts1 @ [half_l l us js, half_r r us js] @ ts2) (ks1 @ js ! 7 # ks2))"
        "distinct (footprint (ANode a (ts1 @ [half_l l us js, half_r r us js] @ ts2) (ks1 @ js ! 7 # ks2)))"
        "heap_step (cells m) (set (footprint (ANode a (ts1 @ ANode ch us js # ts2) (ks1 @ ks2)))) (cells m4)
          (set (footprint (ANode a (ts1 @ [half_l l us js, half_r r us js] @ ts2) (ks1 @ js ! 7 # ks2))))"
        using inplace_split_child [of m a ts1 ch us js ts2 ks1 ks2 "2 * fuel + j"] Suc.prems(2,3,4) d(1,2,3) full ok2 ANode
        by metis
      let ?L = "half_l l us js" and ?R = "half_r r us js" and ?ks = "ks1 @ js ! 7 # ks2"
      have hh: "aheight ?L \<le> fuel" "aheight ?R \<le> fuel"
        using aheight_halves_less [OF d(6) [unfolded ANode] Suc.prems(5)] by blast+
      have ins: "bt_ins ow_inplace k v (BNode (map erase ts) ks) = put_child (map erase ts) ks (length ks1)
          (if js ! 7 \<le> k then Two (erase ?L) (js ! 7) (bt_ins ow_inplace k v (erase ?R))
           else Two (bt_ins ow_inplace k v (erase ?L)) (js ! 7) (erase ?R))"
        using bt_ins_full [of ks k "map erase ts" "map erase us" js ow_inplace v] d ANode full
        by (simp add: erase_halves)
      note pc = put_child_append [of "map erase ts1" ks1 "erase c" "map erase ts2" ks2]
      show ?thesis
      proof (cases "js ! 7 \<le> k")
        case True
        have "repr (cells m4) ?R" "distinct (footprint ?R)" "length (drop 8 js) < 15"
          using s(9,10) full by simp_all
        from Suc.IH [OF _ this [unfolded half_r_def] hh(2) [unfolded half_r_def] s(5)]
        obtain m' us' js' where m': "btree_update_internal_inplace fuel r k v m4 = Some m'"
          "repr (cells m') (ANode r us' js')" "distinct (footprint (ANode r us' js'))"
          "erase (ANode r us' js') = bt_ins ow_inplace k v (erase ?R)"
          "heap_step (cells m4) (set (footprint ?R)) (cells m') (set (footprint (ANode r us' js')))"
          "mem_ok bnode_ok j m'" unfolding half_r_def by blast
        have res: "btree_update_internal_inplace (Suc fuel) a k v m = Some m'"
          using run x sz ANode False s(1-8) m'(1) True by (simp add: btree_B_def mem_get_def)
        have t4: "repr (cells m4) (ANode a ((ts1 @ [?L]) @ ?R # ts2) ?ks)"
          "distinct (footprint (ANode a ((ts1 @ [?L]) @ ?R # ts2) ?ks))" using s(9,10) by simp_all
        have "addr_of (ANode r us' js') = addr_of ?R" by simp
        note pb = put_back_same [OF t4 m'(5,2,3) this]
        have "erase (ANode a ((ts1 @ [?L]) @ ANode r us' js' # ts2) ?ks) = bt_ins ow_inplace k v (erase (ANode a ts ks))"
          using ins True m'(4) d(1-3) pc by simp
        from Suc.prems(1) [OF res pb(1,2) this _ m'(6)] heap_step_trans [OF s(11) heap_step_cong [OF pb(3)]]
        show ?thesis by (simp add: d(1,2) ANode)
      next
        case small: False
        have "repr (cells m4) ?L" "distinct (footprint ?L)" "length (take 7 js) < 15"
          using s(9,10) full by simp_all
        from Suc.IH [OF _ this [unfolded half_l_def] hh(1) [unfolded half_l_def] s(5)]
        obtain m' us' js' where m': "btree_update_internal_inplace fuel l k v m4 = Some m'"
          "repr (cells m') (ANode l us' js')" "distinct (footprint (ANode l us' js'))"
          "erase (ANode l us' js') = bt_ins ow_inplace k v (erase ?L)"
          "heap_step (cells m4) (set (footprint ?L)) (cells m') (set (footprint (ANode l us' js')))"
          "mem_ok bnode_ok j m'" unfolding half_l_def by blast
        have res: "btree_update_internal_inplace (Suc fuel) a k v m = Some m'"
          using run x sz ANode False s(1-8) m'(1) small by (simp add: btree_B_def mem_get_def)
        have t4: "repr (cells m4) (ANode a (ts1 @ ?L # ?R # ts2) ?ks)"
          "distinct (footprint (ANode a (ts1 @ ?L # ?R # ts2) ?ks))" using s(9,10) by simp_all
        have "addr_of (ANode l us' js') = addr_of ?L" by simp
        note pb = put_back_same [OF t4 m'(5,2,3) this]
        have "erase (ANode a (ts1 @ ANode l us' js' # ?R # ts2) ?ks) = bt_ins ow_inplace k v (erase (ANode a ts ks))"
          using ins small m'(4) d(1-3) pc by simp
        from Suc.prems(1) [OF res pb(1,2) this _ m'(6)] heap_step_trans [OF s(11) heap_step_cong [OF pb(3)]]
        show ?thesis by (simp add: d(1,2) ANode)
      qed
    qed
  qed
qed

section \<open>The update at the root refines \<open>bt_insert\<close>\<close>

text \<open>A full root, split under a new root.\<close>

lemma inplace_split_root:
  assumes old: "repr (cells m) (ANode a us js)" "distinct (footprint (ANode a us js))" "length js = 15"
    and ok: "mem_ok bnode_ok (j + 3) m"
  obtains l r x n m1 m2 m3 m4 where "btree_split 0 a m = Some ((js ! 7, l, r), m1)"
    "btree_new_root 0 (js ! 7) l r m1 = Some (x, m2)" "btree_copych_split x 0 a m2 = Some m3"
    "mem_free m3 a = Some m4" "mem_ok bnode_ok j m4" "cells m4 x = Some n"
    "arr_get (bt_slots n) 0 = Some l" "arr_get (bt_slots n) 1 = Some r"
    "repr (cells m4) (ANode x [half_l l us js, half_r r us js] [js ! 7])"
    "distinct (footprint (ANode x [half_l l us js, half_r r us js] [js ! 7]))"
    "heap_step (cells m) (set (footprint (ANode a us js))) (cells m4)
      (set (footprint (ANode x [half_l l us js, half_r r us js] [js ! 7])))"
proof -
  from old(1) obtain c where c: "cells m a = Some c" "inner_node c js (map addr_of us)" "reprs (cells m) us" "a \<noteq> nullptr"
    by auto
  have ok3: "mem_ok bnode_ok (Suc (Suc (Suc j))) m" using ok by (simp add: eval_nat_numeral)
  obtain l r nl nr m1 where m1: "btree_split 0 a m = Some ((js ! 7, l, r), m1)" "l \<noteq> r"
    "l \<noteq> nullptr" "r \<noteq> nullptr" "cells m l = None" "cells m r = None"
    "cells m1 = (cells m)(l \<mapsto> nl, r \<mapsto> nr)" "mem_ok bnode_ok (Suc j) m1"
    "inner_shell nl (take 7 js)" "inner_shell nr (drop 8 js)"
    by (rule split_ok [where ver = 0, OF c(1,2) old(3) ok3])
  obtain x n m2 where m2: "btree_new_root 0 (js ! 7) l r m1 = Some (x, m2)" "mem_new bnode_ok j m1 x n m2"
    "inner_node n [js ! 7] [l, r]" "bt_ver n = 0"
    by (rule new_root_ok [OF m1(8)])
  then have c2: "cells m2 = (cells m)(l \<mapsto> nl, r \<mapsto> nr, x \<mapsto> n)" "mem_ok bnode_ok j m2" "x \<noteq> nullptr"
    and x: "cells m1 x = None" using m1(7) by (simp_all add: mem_new_def)
  have ne: "x \<noteq> l" "x \<noteq> r" "a \<noteq> l" "a \<noteq> r" "a \<noteq> x" "cells m x = None"
    using x m1 c(1) by (auto split: if_splits)
  have slots: "arr_get (bt_slots n) 0 = Some l" "arr_get (bt_slots n) (0 + 1) = Some r"
    using inner_node_child [OF m2(3), of 0] inner_node_child [OF m2(3), of 1] by simp_all
  have at: "cells m2 x = Some n" "cells m2 l = Some nl" "cells m2 r = Some nr" "cells m2 a = Some c"
    using c2 ne m1(2) c(1) by simp_all
  from copych_split_ok [OF at(1) slots m1(2) at(2,3) m1(9,10) at(4) c(2) old(3) c2(2)]
  obtain nl' nr' m3 where m3: "btree_copych_split x 0 a m2 = Some m3"
    "cells m3 = (cells m2)(l \<mapsto> nl', r \<mapsto> nr')" "mem_ok bnode_ok j m3"
    "inner_node nl' (take 7 js) (take 8 (map addr_of us))" "inner_node nr' (drop 8 js) (drop 8 (map addr_of us))" .
  define m4 where "m4 = m3\<lparr>cells := (cells m3)(a := None)\<rparr>"
  have m4: "mem_free m3 a = Some m4"
    using m3(2) at(4) ne by (simp add: mem_free_def m4_def)
  define h1 where "h1 = ((cells m)(l \<mapsto> nl', r \<mapsto> nr'))(a := None)"
  have c4: "cells m4 = h1(x \<mapsto> n)"
    unfolding m4_def h1_def using m3(2) c2(1) ne m1(2) by (auto simp: fun_eq_iff)
  have "cells m a \<noteq> None" using c(1) by simp
  note sh = split_heap [OF c(3) this old(2) m1(5,6,2-4) m3(4,5) h1_def]
  have "h1 x = None" using ne by (simp add: h1_def)
  moreover have "reprs h1 [half_l l us js, half_r r us js]" using sh(1,2) by simp
  moreover have "inner_node n [js ! 7] [addr_of (half_l l us js), addr_of (half_r r us js)]"
    using m2(3) by simp
  ultimately have ro: "repr (cells m4) (ANode x [half_l l us js, half_r r us js] [js ! 7])"
    "distinct (footprint (ANode x [half_l l us js, half_r r us js] [js ! 7]))"
    "heap_step (cells m) (set (footprint (ANode a us js))) (cells m4)
      (set (footprint (ANode x [half_l l us js, half_r r us js] [js ! 7])))"
    using root_over [OF _ sh(3,4) _ c2(3) _ c4, of "js ! 7"] by blast+
  have "mem_ok bnode_ok j m4"
    unfolding m4_def by (rule mem_ok_cells [OF m3(3)]) auto
  moreover have "cells m4 x = Some n" using c4 by simp
  moreover have "arr_get (bt_slots n) 1 = Some r" using slots(2) by simp
  ultimately show thesis
    using that [OF m1(1) m2(1) m3(1) m4 _ _ slots(1) _ ro] by simp
qed

lemma root_inplace_ok:
  assumes t: "repr (cells m) t" "distinct (footprint t)" "aheight t \<le> fuel"
    and ok: "mem_ok bnode_ok (2 * fuel + 3 + j) m"
  obtains m' t' where "btree_update_root_inplace fuel (addr_of t) k v m = Some (addr_of t', m')"
    "repr (cells m') t'" "distinct (footprint t')" "erase t' = bt_insert ow_inplace k v (erase t)"
    "heap_step (cells m) (set (footprint t)) (cells m') (set (footprint t'))" "mem_ok bnode_ok j m'"
proof (cases t)
  case (ALeaf b kvs)
  with t obtain x where x: "cells m b = Some x" "leaf_node x kvs" "b \<noteq> nullptr" by auto
  have ok2: "mem_ok bnode_ok (Suc j + 2) m" by (rule mem_ok_mono [OF ok]) simp
  obtain r u m1 where m1: "btree_update_leaf_inplace b k v m = Some (r, m1)" "mem_ok bnode_ok (Suc j) m1"
    "repr_up (cells m1) r u" "erase_up u = leaf_upd ow_inplace kvs k v"
    "heap_step (cells m) {b} (cells m1) (insert b (set (footprint_up u)))" "distinct (footprint_up u)"
    "case u of AOne t' \<Rightarrow> snd (snd r) = nullptr \<and> addr_of t' = b \<and> footprint t' = [b]
       | ATwo _ _ _ \<Rightarrow> snd (snd r) \<noteq> nullptr \<and> b \<notin> set (footprint_up u)"
    by (rule update_leaf_inplace_ok [OF x ok2])
  obtain p l r' where r: "r = (p, l, r')" by (cases r) auto
  have ins: "bt_insert ow_inplace k v (erase t) = (case erase_up u of One t \<Rightarrow> t | Two l p r \<Rightarrow> BNode [l, r] [p])"
    using ALeaf m1(4) by simp
  show thesis
  proof (cases u)
    case (AOne t')
    then have "btree_update_root_inplace fuel (addr_of t) k v m = Some (addr_of t', m1)"
      using x leaf_is_leaf [OF x(2)] ALeaf m1(1,7) r by (simp add: btree_update_root_inplace_def mem_get_def)
    moreover have "erase t' = bt_insert ow_inplace k v (erase t)" using ins AOne by simp
    moreover have "mem_ok bnode_ok j m1" by (rule mem_ok_mono [OF m1(2)]) simp
    ultimately show thesis using that [of t' m1] AOne m1(3,5,6,7) ALeaf by (simp add: r)
  next
    case (ATwo tl q tr)
    define m2 where "m2 = m1\<lparr>cells := (cells m1)(b := None)\<rparr>"
    have b: "b \<notin> set (footprint_up u)" "r' \<noteq> nullptr" using m1(7) ATwo r by simp_all
    have u: "repr (cells m1) tl" "repr (cells m1) tr" "addr_of tl = l" "addr_of tr = r'" "p = q"
      using m1(3) ATwo r by simp_all
    have free: "mem_free m1 b = Some m2"
      using m1(5) unfolding heap_step_def by (auto simp: mem_free_def m2_def split: option.split)
    have step: "heap_step (cells m) (set (footprint t)) (cells m2) (set (footprints [tl, tr]))"
      using heap_step_free [OF m1(5), of b] b(1) ATwo ALeaf by (simp add: m2_def)
    have new: "reprs (cells m2) [tl, tr]" "distinct (footprints [tl, tr])"
      using u b(1) ATwo m1(6) by (auto simp: m2_def intro: repr_upd)
    have ok3: "mem_ok bnode_ok (Suc j) m2" unfolding m2_def by (rule mem_ok_cells [OF m1(2)]) auto
    obtain a n m3 where m3: "btree_new_root 0 p l r' m2 = Some (a, m3)" "mem_new bnode_ok j m2 a n m3"
      "inner_node n [p] [l, r']" by (rule new_root_ok [OF ok3])
    then have c3: "cells m3 = (cells m2)(a \<mapsto> n)" "mem_ok bnode_ok j m3" "a \<noteq> nullptr" "cells m2 a = None"
      by (simp_all add: mem_new_def)
    have n: "inner_node n [q] [addr_of tl, addr_of tr]" using m3(3) u by simp
    note ro = root_over [OF new step c3(4,3) n c3(1)]
    have "btree_update_root_inplace fuel (addr_of t) k v m = Some (addr_of (ANode a [tl, tr] [q]), m3)"
      using x leaf_is_leaf [OF x(2)] ALeaf m1(1) r b(2) free m3(1)
      by (simp add: btree_update_root_inplace_def mem_get_def)
    from that [OF this ro(1,2) _ ro(3) c3(2)] show thesis using ins ATwo by simp
  qed
next
  case (ANode a us js)
  with t obtain c where c: "cells m a = Some c" "inner_node c js (map addr_of us)" by auto
  then have sz: "bt_size c = length js" "bt_type c \<noteq> BT_LEAF" "length js \<le> 15" by (auto simp: inner_node_def)
  show thesis
  proof (cases "length js < 15")
    case True
    have "mem_ok bnode_ok (2 * fuel + j) m" by (rule mem_ok_mono [OF ok]) simp
    from internal_inplace_ok [OF t(1,2) [unfolded ANode] True t(3) [unfolded ANode] this]
    obtain m' us' js' where m': "btree_update_internal_inplace fuel a k v m = Some m'"
      "repr (cells m') (ANode a us' js')" "distinct (footprint (ANode a us' js'))"
      "erase (ANode a us' js') = bt_ins ow_inplace k v (erase (ANode a us js))"
      "heap_step (cells m) (set (footprint (ANode a us js))) (cells m') (set (footprint (ANode a us' js')))"
      "mem_ok bnode_ok j m'" .
    have "btree_update_root_inplace fuel (addr_of t) k v m = Some (addr_of (ANode a us' js'), m')"
      using c sz True ANode m'(1) by (simp add: btree_update_root_inplace_def mem_get_def btree_B_def)
    from that [OF this m'(2,3) _ _ m'(6)] m'(4,5) ANode True show thesis by simp
  next
    case False
    then have full: "length js = 15" using sz(3) by simp
    have ok3: "mem_ok bnode_ok (2 * fuel + j + 3) m" using ok by (simp add: algebra_simps)
    obtain l r x n m1 m2 m3 m4 where s: "btree_split 0 a m = Some ((js ! 7, l, r), m1)"
      "btree_new_root 0 (js ! 7) l r m1 = Some (x, m2)" "btree_copych_split x 0 a m2 = Some m3"
      "mem_free m3 a = Some m4" "mem_ok bnode_ok (2 * fuel + j) m4" "cells m4 x = Some n"
      "arr_get (bt_slots n) 0 = Some l" "arr_get (bt_slots n) 1 = Some r"
      "repr (cells m4) (ANode x [half_l l us js, half_r r us js] [js ! 7])"
      "distinct (footprint (ANode x [half_l l us js, half_r r us js] [js ! 7]))"
      "heap_step (cells m) (set (footprint (ANode a us js))) (cells m4)
        (set (footprint (ANode x [half_l l us js, half_r r us js] [js ! 7])))"
      by (rule inplace_split_root [OF t(1,2) [unfolded ANode] full ok3])
    let ?L = "half_l l us js" and ?R = "half_r r us js"
    have hh: "aheight ?L \<le> fuel" "aheight ?R \<le> fuel"
      using aheight_halves(1) [of l us js a] aheight_halves(2) [of r us js a] t(3) unfolding ANode by linarith+
    have ins: "bt_insert ow_inplace k v (erase t) =
      (if js ! 7 \<le> k then BNode [erase ?L, bt_ins ow_inplace k v (erase ?R)] [js ! 7]
       else BNode [bt_ins ow_inplace k v (erase ?L), erase ?R] [js ! 7])"
      using ANode full by (simp add: erase_halves)
    show thesis
    proof (cases "js ! 7 \<le> k")
      case True
      have "repr (cells m4) ?R" "distinct (footprint ?R)" "length (drop 8 js) < 15"
        using s(9,10) full by simp_all
      from internal_inplace_ok [OF this [unfolded half_r_def] hh(2) [unfolded half_r_def] s(5)]
      obtain m' us' js' where m': "btree_update_internal_inplace fuel r k v m4 = Some m'"
        "repr (cells m') (ANode r us' js')" "distinct (footprint (ANode r us' js'))"
        "erase (ANode r us' js') = bt_ins ow_inplace k v (erase ?R)"
        "heap_step (cells m4) (set (footprint ?R)) (cells m') (set (footprint (ANode r us' js')))"
        "mem_ok bnode_ok j m'" unfolding half_r_def .
      have t4: "repr (cells m4) (ANode x ([?L] @ ?R # []) [js ! 7])"
        "distinct (footprint (ANode x ([?L] @ ?R # []) [js ! 7]))" using s(9,10) by simp_all
      have "addr_of (ANode r us' js') = addr_of ?R" by simp
      note pb = put_back_same [OF t4 m'(5,2,3) this]
      have "btree_update_root_inplace fuel (addr_of t) k v m = Some (addr_of (ANode x ([?L] @ ANode r us' js' # []) [js ! 7]), m')"
        using c sz False ANode s(1-8) m'(1) True by (simp add: btree_update_root_inplace_def mem_get_def btree_B_def)
      from that [OF this pb(1,2) _ _ m'(6)] heap_step_trans [OF s(11) heap_step_cong [OF pb(3)]] m'(4) ins True
      show thesis by (simp add: ANode)
    next
      case small: False
      have "repr (cells m4) ?L" "distinct (footprint ?L)" "length (take 7 js) < 15"
        using s(9,10) full by simp_all
      from internal_inplace_ok [OF this [unfolded half_l_def] hh(1) [unfolded half_l_def] s(5)]
      obtain m' us' js' where m': "btree_update_internal_inplace fuel l k v m4 = Some m'"
        "repr (cells m') (ANode l us' js')" "distinct (footprint (ANode l us' js'))"
        "erase (ANode l us' js') = bt_ins ow_inplace k v (erase ?L)"
        "heap_step (cells m4) (set (footprint ?L)) (cells m') (set (footprint (ANode l us' js')))"
        "mem_ok bnode_ok j m'" unfolding half_l_def .
      have t4: "repr (cells m4) (ANode x ([] @ ?L # [?R]) [js ! 7])"
        "distinct (footprint (ANode x ([] @ ?L # [?R]) [js ! 7]))" using s(9,10) by simp_all
      have "addr_of (ANode l us' js') = addr_of ?L" by simp
      note pb = put_back_same [OF t4 m'(5,2,3) this]
      have "btree_update_root_inplace fuel (addr_of t) k v m = Some (addr_of (ANode x ([] @ ANode l us' js' # [?R]) [js ! 7]), m')"
        using c sz False ANode s(1-8) m'(1) small by (simp add: btree_update_root_inplace_def mem_get_def btree_B_def)
      from that [OF this pb(1,2) _ _ m'(6)] heap_step_trans [OF s(11) heap_step_cong [OF pb(3)]] m'(4) ins small
      show thesis by (simp add: ANode)
    qed
  qed
qed

end
