(* ===== verification/Conctrl_Context.thy ===== *)
theory Conctrl_Context
  imports Prelude
begin

text \<open>
  \<^verbatim>\<open>lib/conctrl/context.hpp\<close>: the record an update carries through its stages, and the loop
  that drives it: call the handler of the current stage until the stage is \<^verbatim>\<open>DONE\<close>. The
  handlers, a table of functions, are the part a tree library supplies.
\<close>

definition conctrl_INIT :: nat where
  "conctrl_INIT = 0"

definition conctrl_DONE :: nat where
  "conctrl_DONE = 15"

record ctx =
  cx_op :: nat
  cx_retry :: bool
  cx_wait_child :: bool
  cx_wait_subtree :: bool
  cx_new_checkpoint :: bool
  cx_sno :: "32 word"
  cx_cno :: "32 word"
  cx_root :: addr
  cx_t_cur :: addr
  cx_t_past :: addr
  cx_key :: key
  cx_val :: val

text \<open>An entry that is a null pointer is the function that faults.\<close>

type_synonym ('c, 'm) handlers = "nat \<Rightarrow> 'c \<Rightarrow> 'm \<Rightarrow> (nat \<times> 'c \<times> 'm) option"

text \<open>\<^verbatim>\<open>while (ctx->op != DONE) { ctx->op = T::handlers[ctx->op](ctx); }\<close>\<close>

fun conctrl_run ::
  "('x ctx_scheme, 'm) handlers \<Rightarrow> nat \<Rightarrow> 'x ctx_scheme \<Rightarrow> 'm \<Rightarrow> ('x ctx_scheme \<times> 'm) option" where
  "conctrl_run H 0 c m = None"
| "conctrl_run H (Suc fuel) c m =
     (if cx_op c \<noteq> conctrl_DONE
      then do { (op', c, m) \<leftarrow> H (cx_op c) c m; conctrl_run H fuel (c\<lparr>cx_op := op'\<rparr>) m }
      else Some (c, m))"

text \<open>\<^verbatim>\<open>ctx->op = T::handlers[0](ctx);\<close> and the loop.\<close>

definition conctrl_exec ::
  "('x ctx_scheme, 'm) handlers \<Rightarrow> nat \<Rightarrow> 'x ctx_scheme \<Rightarrow> 'm \<Rightarrow> ('x ctx_scheme \<times> 'm) option" where
  "conctrl_exec H fuel c m =
     do { (op', c, m) \<leftarrow> H 0 c m; conctrl_run H fuel (c\<lparr>cx_op := op'\<rparr>) m }"

lemma conctrl_run_mono:
  "conctrl_run H fuel c m = Some r \<Longrightarrow> fuel \<le> fuel' \<Longrightarrow> conctrl_run H fuel' c m = Some r"
proof (induction fuel arbitrary: fuel' c m)
  case (Suc fuel)
  then obtain f where f: "fuel' = Suc f" "fuel \<le> f" by (cases fuel') auto
  show ?case
  proof (cases "cx_op c = conctrl_DONE")
    case False
    with Suc.prems(1) obtain op' c' m' where "H (cx_op c) c m = Some (op', c', m')"
      "conctrl_run H fuel (c'\<lparr>cx_op := op'\<rparr>) m' = Some r"
      by (auto split: bind_splits)
    with False f Suc.IH show ?thesis by simp
  qed (use Suc.prems f in simp)
qed simp

end
