(* ===== verification/Returns.thy ===== *)
theory Returns
  imports Prelude
begin

text \<open>
  Partial correctness of computations in the option type, shown along the computation: rules that
  reduce \<open>returns P r\<close>, which says that \<^term>\<open>r\<close> is a fault or a value with \<^term>\<open>P\<close>.
\<close>

definition returns :: "('a \<Rightarrow> bool) \<Rightarrow> 'a option \<Rightarrow> bool" where
  "returns P r \<longleftrightarrow> (\<forall>x. r = Some x \<longrightarrow> P x)"

lemma returnsD: "returns P r \<Longrightarrow> r = Some x \<Longrightarrow> P x"
  by (simp add: returns_def)

lemma returns_bind: "(\<And>x. returns P (f x)) \<Longrightarrow> returns P (r \<bind> f)"
  by (cases r) (simp_all add: returns_def)

lemma returns_bind_with: "returns Q r \<Longrightarrow> (\<And>x. Q x \<Longrightarrow> returns P (f x)) \<Longrightarrow> returns P (r \<bind> f)"
  by (cases r) (simp_all add: returns_def)

lemma returns_Some: "P x \<Longrightarrow> returns P (Some x)"
  by (simp add: returns_def)

lemma returns_None: "returns P None"
  by (simp add: returns_def)

lemma returns_if: "(b \<Longrightarrow> returns P x) \<Longrightarrow> (\<not> b \<Longrightarrow> returns P y) \<Longrightarrow> returns P (if b then x else y)"
  by simp

lemma returns_prod: "(\<And>a b. x = (a, b) \<Longrightarrow> returns P (f a b)) \<Longrightarrow> returns P (case x of (a, b) \<Rightarrow> f a b)"
  by (cases x) simp

lemma returns_option: "returns P f \<Longrightarrow> (\<And>a. returns P (g a)) \<Longrightarrow> returns P (case x of None \<Rightarrow> f | Some a \<Rightarrow> g a)"
  by (cases x) simp_all

lemma returns_prod_app: "(\<And>a b. x = (a, b) \<Longrightarrow> returns P (f a b y)) \<Longrightarrow> returns P ((case x of (a, b) \<Rightarrow> f a b) y)"
  by (cases x) simp

lemmas returns_steps = returns_bind returns_Some returns_None returns_if returns_prod returns_prod_app returns_option

lemma returnsI: "(\<And>x. r = Some x \<Longrightarrow> P x) \<Longrightarrow> returns P r"
  by (simp add: returns_def)

end
