(* ===== verification/Btree_Cow.thy ===== *)
theory Btree_Cow
  imports Btree_Leaf Conctrl_Context Returns
begin

text \<open>
  Copy on write in the B+-tree: \<^verbatim>\<open>update_cow.hpp\<close>, \<^verbatim>\<open>context.hpp\<close> and \<^verbatim>\<open>handlers.hpp\<close> of
  \<^verbatim>\<open>lib/trees/btree\<close>. Each handler copies one node of the path and returns the next stage; a
  copied node gets its children only at the stage after. The theorems run the stages to the end:
  the version the update started from is still there, and the new root represents the tree
  that \<open>bt_insert\<close> gives, sharing all nodes that are not on the path.
\<close>

section \<open>The code\<close>

record btree_ctx = ctx +
  cx_split_idx :: nat

definition btree_SEARCH_DOWN :: nat where
  "btree_SEARCH_DOWN = 1"

definition btree_SEARCH_SPLIT :: nat where
  "btree_SEARCH_SPLIT = 2"

definition btree_update_cow :: "btree_ctx \<Rightarrow> bmem \<Rightarrow> (nat \<times> btree_ctx \<times> bmem) option" where
  "btree_update_cow c m =
     do { let t_cur = cx_t_cur c;
          n \<leftarrow> mem_get m t_cur;
          i \<leftarrow> btree_findch n (cx_key c);
          t_past \<leftarrow> arr_get (bt_slots n) i;
          let c = c\<lparr>cx_t_past := t_past\<rparr>;
          n_past \<leftarrow> mem_get m t_past;
          if bt_type n_past = BT_LEAF
          then do {
            ((key, t_l, t_r), m) \<leftarrow> btree_update_leaf_cow (cx_sno c) (cx_key c) (cx_val c) t_past m;
            m \<leftarrow> (if t_r = nullptr then btree_set_child t_cur i t_l m
                  else btree_insert_child t_cur key t_l t_r i m);
            Some (conctrl_DONE, c, m) }
          else if bt_size n_past = 2 * btree_B - 1
          then do {
            ((key, t_l, t_r), m) \<leftarrow> btree_split (cx_sno c) t_past m;
            m \<leftarrow> btree_insert_child t_cur key t_l t_r i m;
            Some (btree_SEARCH_SPLIT, c\<lparr>cx_split_idx := i\<rparr>, m) }
          else do {
            (t_new, m) \<leftarrow> btree_copy_internal (cx_sno c) t_past m;
            m \<leftarrow> btree_set_child t_cur i t_new m;
            n \<leftarrow> mem_get m t_cur;
            t \<leftarrow> arr_get (bt_slots n) i;
            Some (btree_SEARCH_DOWN, c\<lparr>cx_t_cur := t\<rparr>, m) } }"

text \<open>
  In \<^verbatim>\<open>handle_init\<close> the \<^verbatim>\<open>return\<close> stands inside the \<^verbatim>\<open>else\<close> branch, so that a leaf that did
  not split falls through to the code for an internal node.
\<close>

definition btree_handle_init :: "btree_ctx \<Rightarrow> bmem \<Rightarrow> (nat \<times> btree_ctx \<times> bmem) option" where
  "btree_handle_init c m =
     do { let t_past = cx_t_past c;
          n_past \<leftarrow> mem_get m t_past;
          (done, c, m) \<leftarrow>
            (if bt_type n_past = BT_LEAF
             then do {
               ((key, t_l, t_r), m) \<leftarrow> btree_update_leaf_cow (cx_sno c) (cx_key c) (cx_val c) t_past m;
               if t_r = nullptr then Some (False, c\<lparr>cx_root := t_l\<rparr>, m)
               else do {
                 (t, m) \<leftarrow> btree_new_root (cx_sno c) key t_l t_r m;
                 Some (True, c\<lparr>cx_root := t\<rparr>, m) } }
             else Some (False, c, m));
          if done then Some (conctrl_DONE, c, m)
          else if bt_size n_past < 2 * btree_B - 1
          then do {
            (t, m) \<leftarrow> btree_copy_internal (cx_sno c) t_past m;
            m \<leftarrow> btree_copych t t_past m;
            btree_update_cow (c\<lparr>cx_root := t, cx_t_cur := t\<rparr>) m }
          else do {
            ((key, t_l, t_r), m) \<leftarrow> btree_split (cx_sno c) t_past m;
            (t, m) \<leftarrow> btree_new_root (cx_sno c) key t_l t_r m;
            m \<leftarrow> btree_copych_split t 0 t_past m;
            n \<leftarrow> mem_get m t;
            t_cur \<leftarrow> arr_get (bt_slots n) (if cx_key c < key then 0 else 1);
            btree_update_cow (c\<lparr>cx_root := t, cx_t_cur := t_cur\<rparr>) m } }"

definition btree_handle_search_down :: "btree_ctx \<Rightarrow> bmem \<Rightarrow> (nat \<times> btree_ctx \<times> bmem) option" where
  "btree_handle_search_down c m =
     do { m \<leftarrow> btree_copych (cx_t_cur c) (cx_t_past c) m; btree_update_cow c m }"

definition btree_handle_search_split :: "btree_ctx \<Rightarrow> bmem \<Rightarrow> (nat \<times> btree_ctx \<times> bmem) option" where
  "btree_handle_search_split c m =
     do { let t_cur = cx_t_cur c;
          m \<leftarrow> btree_copych_split t_cur (cx_split_idx c) (cx_t_past c) m;
          n \<leftarrow> mem_get m t_cur;
          k \<leftarrow> arr_get (bt_keys n) (cx_split_idx c);
          t \<leftarrow> arr_get (bt_slots n) (cx_split_idx c + (if k \<le> cx_key c then 1 else 0));
          btree_update_cow (c\<lparr>cx_t_cur := t\<rparr>) m }"

text \<open>\<^verbatim>\<open>interface::handlers\<close> of \<^verbatim>\<open>src/adapters/btree.hpp\<close>.\<close>

definition btree_handlers :: "(btree_ctx, bmem) handlers" where
  "btree_handlers op' =
     (if op' = conctrl_INIT then btree_handle_init
      else if op' = btree_SEARCH_DOWN then btree_handle_search_down
      else if op' = btree_SEARCH_SPLIT then btree_handle_search_split
      else (\<lambda>c m. None))"

section \<open>The stages below the root\<close>

text \<open>
  \<^term>\<open>c\<close> is the fresh node being filled, its children the trees \<^term>\<open>ts\<close> of the past version.
  Afterwards \<^term>\<open>t'\<close> is represented at \<^term>\<open>c\<close>, everything but \<^term>\<open>c\<close> is as it was, and the
  nodes of \<^term>\<open>t'\<close> are old nodes shared, or were free memory.
\<close>

definition cow_step :: "(addr \<rightharpoonup> bnode) \<Rightarrow> (addr \<rightharpoonup> bnode) \<Rightarrow> addr \<Rightarrow> atree list \<Rightarrow> atree \<Rightarrow> bool" where
  "cow_step h h' c ts t' \<longleftrightarrow>
     repr h' t' \<and> addr_of t' = c \<and> h(c := None) \<subseteq>\<^sub>m h' \<and>
     set (footprint t') \<subseteq> insert c (set (footprints ts) \<union> - dom h)"

lemma cow_put_back:
  assumes "reprs (h(c := None)) (ts1 @ t # ts2)" "c \<noteq> nullptr" "h(c := None) \<subseteq>\<^sub>m h'"
    "\<forall>u \<in> set us. repr h' u \<and> set (footprint u) \<subseteq> set (footprint t) \<union> - dom h"
    "h' c = Some n'" "inner_node n' ks' (map addr_of (ts1 @ us @ ts2))"
  shows "cow_step h h' c (ts1 @ t # ts2) (ANode c (ts1 @ us @ ts2) ks')"
proof -
  have "reprs h' ts1" "reprs h' ts2"
    using assms(1) repr_mono [OF _ assms(3)] by auto
  then have "repr h' (ANode c (ts1 @ us @ ts2) ks')" using assms by auto
  moreover have "set (footprint (ANode c (ts1 @ us @ ts2) ks')) \<subseteq> insert c (set (footprints (ts1 @ t # ts2)) \<union> - dom h)"
    using assms(4) by auto
  ultimately show ?thesis using assms(3) by (simp add: cow_step_def)
qed

lemma map_le_upd_free: "h c = None \<Longrightarrow> h \<subseteq>\<^sub>m g \<Longrightarrow> h \<subseteq>\<^sub>m g(c := x)"
  by (auto simp: map_le_def domIff)

lemma heap_step_map_le: "heap_step h {} h' F \<Longrightarrow> h \<subseteq>\<^sub>m h'"
  unfolding heap_step_def map_le_def by (metis domIff empty_iff)

lemma heap_step_fresh: "heap_step h {} h' F \<Longrightarrow> F \<subseteq> - dom h"
  unfolding heap_step_def by (auto split: if_splits)

text \<open>A handler and the run of the stages after it.\<close>

definition btree_cow_from :: "nat \<Rightarrow> btree_ctx \<Rightarrow> bmem \<Rightarrow> (btree_ctx \<times> bmem) option" where
  "btree_cow_from fuel c m =
     do { (op', c, m) \<leftarrow> btree_update_cow c m; conctrl_run btree_handlers fuel (c\<lparr>cx_op := op'\<rparr>) m }"

lemma run_done: "conctrl_run H (Suc fuel) (c\<lparr>cx_op := conctrl_DONE\<rparr>) m = Some (c\<lparr>cx_op := conctrl_DONE\<rparr>, m)"
  by simp

lemma run_search_down:
  "conctrl_run btree_handlers (Suc fuel) (c\<lparr>cx_op := btree_SEARCH_DOWN\<rparr>) m =
    do { m \<leftarrow> btree_copych (cx_t_cur c) (cx_t_past c) m; btree_cow_from fuel (c\<lparr>cx_op := btree_SEARCH_DOWN\<rparr>) m }"
  by (simp add: btree_handlers_def btree_SEARCH_DOWN_def conctrl_DONE_def conctrl_INIT_def
      btree_handle_search_down_def btree_cow_from_def)

lemma run_search_split:
  "conctrl_run btree_handlers (Suc fuel) (c\<lparr>cx_op := btree_SEARCH_SPLIT\<rparr>) m =
    do { m \<leftarrow> btree_copych_split (cx_t_cur c) (cx_split_idx c) (cx_t_past c) m;
         n \<leftarrow> mem_get m (cx_t_cur c);
         k \<leftarrow> arr_get (bt_keys n) (cx_split_idx c);
         t \<leftarrow> arr_get (bt_slots n) (cx_split_idx c + (if k \<le> cx_key c then 1 else 0));
         btree_cow_from fuel (c\<lparr>cx_op := btree_SEARCH_SPLIT, cx_t_cur := t\<rparr>) m }"
  by (simp add: btree_handlers_def btree_SEARCH_SPLIT_def btree_SEARCH_DOWN_def conctrl_DONE_def conctrl_INIT_def
      btree_handle_search_split_def btree_cow_from_def Let_def)

text \<open>The splice of a new child over an old one.\<close>

lemma cow_from_ok:
  assumes "cells m c = Some n" "inner_node n ks (map addr_of ts)" "c \<noteq> nullptr" "length ks < 15"
    "reprs ((cells m)(c := None)) ts" "\<forall>t \<in> set ts. aheight t < fuel"
    "mem_ok bnode_ok (2 * fuel + j) m" "cx_t_cur x = c"
  obtains x' m' g t' where "btree_cow_from fuel x m = Some (x', m')"
    "cx_root x' = cx_root x" "mem_ok bnode_ok j m'" "cow_step (cells m) (cells m') c ts t'"
    "erase t' = bt_ins (ow_cow g) (cx_key x) (cx_val x) (BNode (map erase ts) ks)"
  using assms
proof (induction fuel arbitrary: c n ks ts m x thesis)
  case 0
  from "0.prems"(3) inner_node_length have "ts \<noteq> []" by fastforce
  with "0.prems"(7) show ?case by (cases ts) auto
next
  case (Suc fuel)
  let ?k = "cx_key x" and ?v = "cx_val x" and ?ver = "cx_sno x"
  note n = Suc.prems(2,3)
  obtain ts1 t ts2 ks1 ks2 where d: "ts = ts1 @ t # ts2" "ks = ks1 @ ks2" "length ts1 = length ks1"
    "findch_idx ks ?k = length ks1" "arr_get (bt_slots n) (length ks1) = Some (addr_of t)" "t \<in> set ts"
    "map erase ts ! length ks1 = erase t" "length ks1 < length ts"
    by (rule split_at_child [OF n(2)])
  have rt: "repr ((cells m)(c := None)) t" using Suc.prems(6) d(6) by blast
  note pc = put_child_append [of "map erase ts1" ks1 "erase t" "map erase ts2" ks2]
  note rts = Suc.prems(6) [unfolded d(1)]
  have il: "length ks1 < length (map addr_of ts)" using d(8) by simp
  have len: "length (map addr_of ts1) = length ks1" using d(3) by simp
  note up = n(1) findch_ok [OF n(2), of ?k] d(4,5) Suc.prems(9)
  show ?case
  proof (cases t)
    case (ALeaf b kvs)
    with rt obtain y where y: "cells m b = Some y" "leaf_node y kvs" "b \<noteq> c" by (auto split: if_splits)
    have ok2: "mem_ok bnode_ok (j + 2) m" by (rule mem_ok_mono [OF Suc.prems(8)]) simp
    obtain r u m1 g where m1: "btree_update_leaf_cow ?ver ?k ?v b m = Some (r, m1)" "mem_ok bnode_ok j m1"
      "repr_up (cells m1) r u" "erase_up u = leaf_upd (ow_cow g) kvs ?k ?v"
      "heap_step (cells m) {} (cells m1) (set (footprint_up u))" "distinct (footprint_up u)"
      by (rule update_leaf_cow_ok [where ver = ?ver and k = ?k and v = ?v, OF y(1,2) ok2])
    obtain p l r' where r: "r = (p, l, r')" by (cases r) auto
    have ins: "bt_ins (ow_cow g) ?k ?v (BNode (map erase ts) ks) = put_child (map erase ts) ks (length ks1) (erase_up u)"
      using bt_ins_leaf [of ks ?k "map erase ts" kvs "ow_cow g" ?v] d ALeaf m1(4) by simp
    have le: "cells m \<subseteq>\<^sub>m cells m1" by (rule heap_step_map_le [OF m1(5)])
    have fresh: "set (footprint_up u) \<subseteq> - dom (cells m)"
      using m1(5) by (auto simp: heap_step_def split: if_splits)
    have c1: "cells m1 c = Some n" by (rule map_le_Some [OF le n(1)])
    have fin: ?thesis if run: "(if r' = nullptr then btree_set_child c (length ks1) l m1
          else btree_insert_child c p l r' (length ks1) m1) = Some m2"
      and set: "mem_set bnode_ok j m1 c n2 m2" "inner_node n2 ks' (map addr_of (ts1 @ us @ ts2))"
      and us: "\<forall>v \<in> set us. repr (cells m1) v \<and> set (footprint v) \<subseteq> - dom (cells m)"
      and e: "BNode (map erase (ts1 @ us @ ts2)) ks' = put_child (map erase ts) ks (length ks1) (erase_up u)"
      for m2 n2 us ks'
    proof (rule Suc.prems(1))
      from set(1) have c2: "cells m2 = (cells m1)(c \<mapsto> n2)" "mem_ok bnode_ok j m2" by (simp_all add: mem_set_def)
      show "btree_cow_from (Suc fuel) x m = Some (x\<lparr>cx_t_past := b, cx_op := conctrl_DONE\<rparr>, m2)"
        using up y leaf_is_leaf [OF y(2)] ALeaf m1(1) r run
        by (simp add: btree_cow_from_def btree_update_cow_def Let_def mem_get_def)
      show "cow_step (cells m) (cells m2) c ts (ANode c (ts1 @ us @ ts2) ks')"
        unfolding d(1)
      proof (rule cow_put_back [OF rts Suc.prems(4) _ _ _ set(2)])
        show "(cells m)(c := None) \<subseteq>\<^sub>m cells m2"
          using le unfolding c2 by (auto simp: map_le_def)
        have "c \<notin> set (footprint v)" if "v \<in> set us" for v using us that n(1) by blast
        then show "\<forall>u \<in> set us. repr (cells m2) u \<and> set (footprint u) \<subseteq> set (footprint t) \<union> - dom (cells m)"
          using us unfolding c2 by (auto intro: repr_upd)
        show "cells m2 c = Some n2" by (simp add: c2)
      qed
      show "erase (ANode c (ts1 @ us @ ts2) ks') = bt_ins (ow_cow g) ?k ?v (BNode (map erase ts) ks)"
        using e ins by simp
    qed (use set(1) in \<open>simp_all add: mem_set_def\<close>)
    show ?thesis
    proof (cases u)
      case (AOne t')
      with m1(3) r have t': "repr (cells m1) t'" "addr_of t' = l" "r' = nullptr" by simp_all
      from set_child_ok [where p = l, OF c1 n(2) il m1(2)] obtain n2 m2 where
        m2: "btree_set_child c (length ks1) l m1 = Some m2" "mem_set bnode_ok j m1 c n2 m2"
        "inner_node n2 ks ((map addr_of ts)[length ks1 := l])" .
      moreover have "(map addr_of ts)[length ks1 := l] = map addr_of (ts1 @ [t'] @ ts2)"
        using d(1,3) t'(2) by (simp add: len [symmetric] del: length_map)
      ultimately show ?thesis
        using t' fresh AOne pc d(1-3) by (intro fin [of m2 n2 ks "[t']"]) simp_all
    next
      case (ATwo tl q tr)
      with m1(3) r have t': "repr (cells m1) tl" "repr (cells m1) tr" "addr_of tl = l" "addr_of tr = r'" "p = q"
        by simp_all
      have "r' \<noteq> nullptr" using repr_not_null [OF t'(2)] t'(4) by simp
      from insert_child_app_ok [where p = p and l = l and r = r', OF c1 n(2) [unfolded d(1,2) map_append list.map] len
          Suc.prems(5) [unfolded d(2)] m1(2)]
      obtain n2 m2 where "btree_insert_child c p l r' (length ks1) m1 = Some m2"
        "mem_set bnode_ok j m1 c n2 m2" "inner_node n2 (ks1 @ p # ks2) (map addr_of ts1 @ l # r' # map addr_of ts2)"
        by blast
      with t' fresh ATwo pc d(1-3) \<open>r' \<noteq> nullptr\<close> show ?thesis
        by (intro fin [of m2 n2 "ks1 @ q # ks2" "[tl, tr]"]) simp_all
    qed
  next
    case (ANode b us js)
    with rt obtain y where y: "cells m b = Some y" "inner_node y js (map addr_of us)" "b \<noteq> c"
      "reprs ((cells m)(c := None)) us" by (auto split: if_splits)
    then have sz: "bt_size y = length js" "bt_type y \<noteq> BT_LEAF" "length js \<le> 15" by (auto simp: inner_node_def)
    have h: "\<forall>t \<in> set us. aheight t < fuel"
      using Suc.prems(7) d(6) aheight_child_less [of _ us b js fuel] ANode by blast
    note at = map_le_Some [of "(cells m)(c := None)"]
    show ?thesis
    proof (cases "length js < 15")
      case True
      have ok1: "mem_ok bnode_ok (Suc (2 * fuel + j)) m" by (rule mem_ok_mono [OF Suc.prems(8)]) simp
      obtain l n1 m1 where m1: "btree_copy_internal ?ver b m = Some (l, m1)" "mem_new bnode_ok (2 * fuel + j) m l n1 m1"
        "inner_shell n1 js" by (rule copy_internal_ok [where ver = ?ver, OF y(1,2) ok1])
      then have c1: "cells m1 = (cells m)(l \<mapsto> n1)" "mem_ok bnode_ok (2 * fuel + j) m1" "cells m l = None" "l \<noteq> nullptr"
        by (simp_all add: mem_new_def)
      then have ne: "l \<noteq> c" "l \<noteq> b" using n(1) y(1) by auto
      then have "cells m1 c = Some n" using c1 n(1) by simp
      from set_child_ok [where p = l, OF this n(2) il c1(2)] obtain n2 m2 where
        m2: "btree_set_child c (length ks1) l m1 = Some m2" "mem_set bnode_ok (2 * fuel + j) m1 c n2 m2"
        "inner_node n2 ks ((map addr_of ts)[length ks1 := l])" .
      then have c2: "cells m2 = (cells m)(l \<mapsto> n1, c \<mapsto> n2)" "mem_ok bnode_ok (2 * fuel + j) m2"
        using c1 by (simp_all add: mem_set_def)
      then have "cells m2 l = Some n1" "cells m2 b = Some y" using ne y by simp_all
      from copych_ok [OF this(1) m1(3) this(2) y(2) c2(2)] obtain n3 m3 where
        m3: "btree_copych l b m2 = Some m3" "mem_set bnode_ok (2 * fuel + j) m2 l n3 m3"
        "inner_node n3 js (map addr_of us)" .
      then have c3: "cells m3 = (cells m)(c \<mapsto> n2, l \<mapsto> n3)" "mem_ok bnode_ok (2 * fuel + j) m3"
        using c2 ne(1) by (auto simp: mem_set_def fun_eq_iff)
      have le3: "(cells m)(c := None) \<subseteq>\<^sub>m (cells m3)(l := None)"
        using c3(1) c1(3) by (auto simp: map_le_def)
      let ?x = "x\<lparr>cx_t_past := b, cx_t_cur := l, cx_op := btree_SEARCH_DOWN\<rparr>"
      have us3: "reprs ((cells m3)(l := None)) us" using y(4) repr_mono [OF _ le3] by blast
      have "cells m3 l = Some n3" using c3 by simp
      from Suc.IH [where x = ?x, OF _ this m3(3) c1(4) True us3 h c3(2)]
      obtain x' m' g t' where r: "btree_cow_from fuel ?x m3 = Some (x', m')"
        "cx_root x' = cx_root x" "mem_ok bnode_ok j m'" "cow_step (cells m3) (cells m') l us t'"
        "erase t' = bt_ins (ow_cow g) ?k ?v (BNode (map erase us) js)" by simp blast
      have t': "repr (cells m') t'" "addr_of t' = l" "(cells m3)(l := None) \<subseteq>\<^sub>m cells m'"
        "set (footprint t') \<subseteq> insert l (set (footprints us) \<union> - dom (cells m3))"
        using r(4) by (simp_all add: cow_step_def)
      show ?thesis
      proof (rule Suc.prems(1) [OF _ r(2,3)])
        have "(map addr_of ts)[length ks1 := l] ! length ks1 = l" using il by simp
        then have "arr_get (bt_slots n2) (length ks1) = Some l"
          using inner_node_child [OF m2(3), of "length ks1"] il by simp
        then have "btree_update_cow x m = Some (btree_SEARCH_DOWN, x\<lparr>cx_t_past := b, cx_t_cur := l\<rparr>, m2)"
          using up y(1) sz ANode True m1(1) m2(1) c2(1)
          by (simp add: btree_update_cow_def Let_def mem_get_def btree_B_def)
        then show "btree_cow_from (Suc fuel) x m = Some (x', m')"
          using m3(1) r(1) by (simp add: btree_cow_from_def [of "Suc fuel"] run_search_down del: conctrl_run.simps)
        show "cow_step (cells m) (cells m') c ts (ANode c (ts1 @ [t'] @ ts2) ks)"
          unfolding d(1)
        proof (rule cow_put_back [OF rts Suc.prems(4)])
          show "(cells m)(c := None) \<subseteq>\<^sub>m cells m'" by (rule map_le_trans [OF le3 t'(3)])
          show "\<forall>u \<in> set [t']. repr (cells m') u \<and> set (footprint u) \<subseteq> set (footprint t) \<union> - dom (cells m)"
            using t'(1,4) ANode c3(1) c1(3) by (auto split: if_splits)
          show "cells m' c = Some n2"
            by (rule map_le_Some [OF t'(3)]) (use c3(1) ne in simp)
          have "(map addr_of ts)[length ks1 := l] = map addr_of (ts1 @ [t'] @ ts2)"
            using d(1,3) t'(2) by (simp add: len [symmetric] del: length_map)
          with m2(3) show "inner_node n2 ks (map addr_of (ts1 @ [t'] @ ts2))" by simp
        qed
        show "erase (ANode c (ts1 @ [t'] @ ts2) ks) = bt_ins (ow_cow g) ?k ?v (BNode (map erase ts) ks)"
          using bt_ins_room [of ks ?k "map erase ts" "map erase us" js "ow_cow g" ?v] d True ANode r(5) pc by simp
      qed
    next
      case False
      then have full: "length js = 15" using sz(3) by simp
      have ok1: "mem_ok bnode_ok (Suc (Suc (2 * fuel + j))) m" using Suc.prems(8) by simp
      obtain l r nl nr m1 where m1: "btree_split ?ver b m = Some ((js ! 7, l, r), m1)" "l \<noteq> r"
        "l \<noteq> nullptr" "r \<noteq> nullptr" "cells m l = None" "cells m r = None"
        "cells m1 = (cells m)(l \<mapsto> nl, r \<mapsto> nr)" "mem_ok bnode_ok (2 * fuel + j) m1"
        "inner_shell nl (take 7 js)" "inner_shell nr (drop 8 js)"
        by (rule split_ok [where ver = ?ver, OF y(1,2) full ok1])
      have ne: "l \<noteq> c" "r \<noteq> c" "l \<noteq> b" "r \<noteq> b" using n(1) y(1) m1(5,6) by auto
      have "cells m1 c = Some n" using m1(7) n(1) ne by simp
      from insert_child_app_ok [where p = "js ! 7" and l = l and r = r,
          OF this n(2) [unfolded d(1,2) map_append list.map] len Suc.prems(5) [unfolded d(2)] m1(8)]
      obtain n2 m2 where m2: "btree_insert_child c (js ! 7) l r (length ks1) m1 = Some m2"
        "mem_set bnode_ok (2 * fuel + j) m1 c n2 m2"
        "inner_node n2 (ks1 @ js ! 7 # ks2) (map addr_of ts1 @ l # r # map addr_of ts2)" by blast
      then have c2: "cells m2 = (cells m)(l \<mapsto> nl, r \<mapsto> nr, c \<mapsto> n2)" "mem_ok bnode_ok (2 * fuel + j) m2"
        using m1(7) by (simp_all add: mem_set_def)
      have slots: "arr_get (bt_slots n2) (length ks1) = Some l" "arr_get (bt_slots n2) (length ks1 + 1) = Some r"
        using inner_node_child [OF m2(3), of "length ks1"] inner_node_child [OF m2(3), of "length ks1 + 1"] len
        by (auto simp: nth_append)
      have key: "arr_get (bt_keys n2) (length ks1) = Some (js ! 7)"
        using inner_node_key [OF m2(3), of "length ks1"] by simp
      have a2: "cells m2 c = Some n2" "cells m2 l = Some nl" "cells m2 r = Some nr" "cells m2 b = Some y"
        using c2 ne m1(2) y by simp_all
      from copych_split_ok [OF a2(1) slots m1(2) a2(2,3) m1(9,10) a2(4) y(2) full c2(2)]
      obtain nl' nr' m3 where m3: "btree_copych_split c (length ks1) b m2 = Some m3"
        "cells m3 = (cells m2)(l \<mapsto> nl', r \<mapsto> nr')" "mem_ok bnode_ok (2 * fuel + j) m3"
        "inner_node nl' (take 7 js) (take 8 (map addr_of us))" "inner_node nr' (drop 8 js) (drop 8 (map addr_of us))" .
      then have c3: "cells m3 c = Some n2" "cells m3 l = Some nl'" "cells m3 r = Some nr'"
        using c2 ne m1(2) by simp_all
      have le3: "(cells m)(c := None) \<subseteq>\<^sub>m (cells m3)(l := None, r := None)"
        using c2(1) m3(2) m1(5,6) by (auto simp: map_le_def)
      have us3: "reprs ((cells m3)(l := None, r := None)) us" using y(4) repr_mono [OF _ le3] by blast
      let ?L = "half_l l us js" and ?R = "half_r r us js"
      let ?q = "if js ! 7 \<le> ?k then r else l"
      let ?x = "x\<lparr>cx_t_past := b, cx_split_idx := length ks1, cx_op := btree_SEARCH_SPLIT, cx_t_cur := ?q\<rparr>"
      have run: "btree_cow_from (Suc fuel) x m = btree_cow_from fuel ?x m3"
      proof -
        have "btree_update_cow x m = Some (btree_SEARCH_SPLIT, x\<lparr>cx_t_past := b, cx_split_idx := length ks1\<rparr>, m2)"
          using up y(1) sz ANode full m1(1) m2(1) by (simp add: btree_update_cow_def Let_def mem_get_def btree_B_def)
        then show ?thesis
          using m3(1) c3(1) key slots up
          by (simp add: btree_cow_from_def [of "Suc fuel"] run_search_split mem_get_def del: conctrl_run.simps)
      qed
      have fin: ?thesis
        if q: "cells m3 ?q = Some nq" "inner_node nq jq (map addr_of uq)" "length jq < 15" "set uq \<subseteq> set us"
          and other: "repr ((cells m3)(?q := None)) v" "set (footprint v) \<subseteq> {l, r} \<union> set (footprints us)"
          and F: "\<And>t'. set (F t') = {t', v}" "\<And>t'. addr_of t' = ?q \<Longrightarrow> map addr_of (F t') = [l, r]"
          and ins: "\<And>t' g. erase t' = bt_ins (ow_cow g) ?k ?v (BNode (map erase uq) jq) \<Longrightarrow>
            erase (ANode c (ts1 @ F t' @ ts2) (ks1 @ js ! 7 # ks2)) = bt_ins (ow_cow g) ?k ?v (BNode (map erase ts) ks)"
        for nq jq uq F v
      proof -
        have leq: "(cells m3)(l := None, r := None) \<subseteq>\<^sub>m (cells m3)(?q := None)" by (auto simp: map_le_def)
        have uq: "reprs ((cells m3)(?q := None)) uq" using us3 q(4) repr_mono [OF _ leq] by blast
        have hq: "\<forall>t \<in> set uq. aheight t < fuel" using h q(4) by blast
        have "?q \<noteq> nullptr" "cx_t_cur ?x = ?q" using m1(3,4) by simp_all
        from Suc.IH [where x = ?x, OF _ q(1,2) this(1) q(3) uq hq m3(3) this(2)]
        obtain x' m' g t' where r: "btree_cow_from fuel ?x m3 = Some (x', m')"
          "cx_root x' = cx_root x" "mem_ok bnode_ok j m'" "cow_step (cells m3) (cells m') ?q uq t'"
          "erase t' = bt_ins (ow_cow g) ?k ?v (BNode (map erase uq) jq)" by simp blast
        have t': "repr (cells m') t'" "addr_of t' = ?q" "(cells m3)(?q := None) \<subseteq>\<^sub>m cells m'"
          "set (footprint t') \<subseteq> insert ?q (set (footprints uq) \<union> - dom (cells m3))"
          using r(4) by (simp_all only: cow_step_def)
        show ?thesis
        proof (rule Suc.prems(1) [OF run [unfolded r(1)] r(2,3) _ ins [OF r(5)]])
          show "cow_step (cells m) (cells m') c ts (ANode c (ts1 @ F t' @ ts2) (ks1 @ js ! 7 # ks2))"
            unfolding d(1)
          proof (rule cow_put_back [OF rts Suc.prems(4)])
            show "(cells m)(c := None) \<subseteq>\<^sub>m cells m'"
              by (rule map_le_trans [OF le3 map_le_trans [OF leq t'(3)]])
            have "set (footprints uq) \<subseteq> set (footprints us)" using q(4) by auto
            moreover have "dom (cells m) \<subseteq> dom (cells m3)" using m3(2) c2(1) by auto
            moreover have "?q \<in> {l, r}" by simp
            ultimately have "set (footprint t') \<subseteq> {l, r} \<union> set (footprints us) \<union> - dom (cells m)"
              using t'(4) by blast
            moreover have "{l, r} \<union> set (footprints us) \<union> - dom (cells m) \<subseteq> set (footprint t) \<union> - dom (cells m)"
              using ANode m1(5,6) by auto
            moreover have "set (footprint v) \<subseteq> {l, r} \<union> set (footprints us) \<union> - dom (cells m)"
              using other(2) by blast
            ultimately show "\<forall>u \<in> set (F t'). repr (cells m') u \<and> set (footprint u) \<subseteq> set (footprint t) \<union> - dom (cells m)"
              unfolding F(1) using t'(1) repr_mono [OF other(1) t'(3)] by blast
            show "cells m' c = Some n2"
              by (rule map_le_Some [OF t'(3)]) (use c3(1) ne in simp)
            show "inner_node n2 (ks1 @ js ! 7 # ks2) (map addr_of (ts1 @ F t' @ ts2))"
              using m2(3) F(2) [OF t'(2)] by simp
          qed
        qed
      qed
      note full_ins = bt_ins_full [of ks ?k "map erase ts" "map erase us" js _ ?v]
      have dom: "l \<notin> set (footprints us)" "r \<notin> set (footprints us)"
        using reprs_dom [OF us3] by auto
      have sub: "set (take 8 us) \<subseteq> set us" "set (drop 8 us) \<subseteq> set us"
        by (rule set_take_subset, rule set_drop_subset)
      show ?thesis
      proof (cases "js ! 7 \<le> ?k")
        case True
        have le: "(cells m3)(l := None, r := None) \<subseteq>\<^sub>m (cells m3)(r := None)" by (auto simp: map_le_def)
        show ?thesis
        proof (rule fin [of nr' "drop 8 js" "drop 8 us" ?L "\<lambda>t'. [?L, t']"])
          show "repr ((cells m3)(?q := None)) ?L"
            using True c3(2) m1(2,3) m3(4) us3 sub(1) repr_mono [OF _ le] by (auto simp: half_l_def take_map)
          show "set (footprint ?L) \<subseteq> {l, r} \<union> set (footprints us)"
            using sub(1) by (auto simp: half_l_def)
        qed (use True c3 m3(5) full sub full_ins d False ANode pc in \<open>simp_all add: drop_map erase_halves split_r_def insert_commute\<close>)
      next
        case small: False
        have le: "(cells m3)(l := None, r := None) \<subseteq>\<^sub>m (cells m3)(l := None)" by (auto simp: map_le_def)
        show ?thesis
        proof (rule fin [of nl' "take 7 js" "take 8 us" ?R "\<lambda>t'. [t', ?R]"])
          show "repr ((cells m3)(?q := None)) ?R"
            using small c3(3) m1(2,4) m3(5) us3 sub(2) repr_mono [OF _ le] by (auto simp: half_r_def drop_map)
          show "set (footprint ?R) \<subseteq> {l, r} \<union> set (footprints us)"
            using sub(2) by (auto simp: half_r_def)
        qed (use small c3 m3(4) full sub full_ins d False ANode pc in \<open>simp_all add: take_map erase_halves split_l_def\<close>)
      qed
    qed
  qed
qed

section \<open>An update from the root\<close>

text \<open>The result of a whole update: a new version over an old one that is untouched.\<close>

definition cow_version :: "(addr \<rightharpoonup> bnode) \<Rightarrow> (addr \<rightharpoonup> bnode) \<Rightarrow> atree \<Rightarrow> atree \<Rightarrow> bool" where
  "cow_version h h' t t' \<longleftrightarrow>
     repr h' t' \<and> h \<subseteq>\<^sub>m h' \<and> set (footprint t') \<subseteq> set (footprint t) \<union> - dom h"

lemma cow_under_new_root:
  assumes h: "reprs h us" "length js = 15" "h l = None" "h r = None" "h z = None" "z \<noteq> l" "z \<noteq> r" "l \<noteq> r"
    "z \<noteq> nullptr" "h b \<noteq> None"
    and h3: "h3 = h(l \<mapsto> nl, r \<mapsto> nr, z \<mapsto> nz)" "inner_node nz [p] [l, r]"
    and q: "q \<in> {l, r}" "cow_step h3 h' q uq t'" "set uq \<subseteq> set us"
    and v: "repr (h3(q := None)) v" "set (footprint v) \<subseteq> {l, r} \<union> set (footprints us)"
    and F: "set F = {t', v}" "map addr_of F = [l, r]"
  shows "cow_version h h' (ANode b us js) (ANode z F [p])"
proof -
  from q(2) have t': "repr h' t'" "h3(q := None) \<subseteq>\<^sub>m h'"
    "set (footprint t') \<subseteq> insert q (set (footprints uq) \<union> - dom h3)"
    by (simp_all add: cow_step_def)
  have hq: "h \<subseteq>\<^sub>m h3(q := None)"
    using q(1) h(3-5) by (auto simp: h3 map_le_def)
  have le: "h \<subseteq>\<^sub>m h'" by (rule map_le_trans [OF hq t'(2)])
  have "h' z = Some nz"
    by (rule map_le_Some [OF t'(2)]) (use q(1) h(6,7) in \<open>auto simp: h3\<close>)
  moreover have "reprs h' F" unfolding F(1) using t'(1) repr_mono [OF v(1) t'(2)] by blast
  ultimately have "repr h' (ANode z F [p])" using F(2) h3(2) h(9) by auto
  moreover have "set (footprint (ANode z F [p])) \<subseteq> set (footprint (ANode b us js)) \<union> - dom h"
  proof -
    have d: "dom h \<subseteq> dom h3" "q \<notin> dom h" "l \<notin> dom h" "r \<notin> dom h" "z \<notin> dom h"
      using h(3-5) q(1) by (auto simp: h3)
    have "set (footprints uq) \<subseteq> set (footprints us)" using q(3) by auto
    then have "set (footprint t') \<subseteq> set (footprints us) \<union> - dom h" using t'(3) d(1,2) by blast
    moreover have "set (footprint v) \<subseteq> set (footprints us) \<union> - dom h" using v(2) d(3,4) by blast
    moreover have "set (footprints F) = set (footprint t') \<union> set (footprint v)"
      using F(1) by auto
    ultimately show ?thesis using d(5) by auto
  qed
  ultimately show ?thesis using le by (simp add: cow_version_def)
qed

lemma cow_exec_node:
  assumes t: "repr (cells m) (ANode a us js)" "aheight (ANode a us js) \<le> fuel"
    and ok: "mem_ok bnode_ok (2 * fuel + 3 + j) m" and x: "cx_t_past x = a"
  obtains x' m' g t' where "conctrl_exec btree_handlers fuel x m = Some (x', m')"
    "cx_root x' = addr_of t'" "mem_ok bnode_ok j m'" "cow_version (cells m) (cells m') (ANode a us js) t'"
    "erase t' = bt_insert (ow_cow g) (cx_key x) (cx_val x) (BNode (map erase us) js)"
proof -
  let ?k = "cx_key x" and ?v = "cx_val x" and ?ver = "cx_sno x"
  from t(1) obtain y where y: "cells m a = Some y" "inner_node y js (map addr_of us)" "reprs (cells m) us" by auto
  then have sz: "bt_size y = length js" "bt_type y \<noteq> BT_LEAF" "length js \<le> 15" by (auto simp: inner_node_def)
  have hs: "\<forall>t \<in> set us. aheight t < fuel" using t(2) aheight_child [of _ us a js] by fastforce
  show thesis
  proof (cases "length js < 15")
    case True
    have ok1: "mem_ok bnode_ok (Suc (2 * fuel + j)) m" by (rule mem_ok_mono [OF ok]) simp
    obtain l n1 m1 where m1: "btree_copy_internal ?ver a m = Some (l, m1)" "mem_new bnode_ok (2 * fuel + j) m l n1 m1"
      "inner_shell n1 js" by (rule copy_internal_ok [where ver = ?ver, OF y(1,2) ok1])
    then have c1: "cells m1 = (cells m)(l \<mapsto> n1)" "mem_ok bnode_ok (2 * fuel + j) m1" "cells m l = None" "l \<noteq> nullptr"
      by (simp_all add: mem_new_def)
    then have "cells m1 l = Some n1" "cells m1 a = Some y" using y(1) by auto
    from copych_ok [OF this(1) m1(3) this(2) y(2) c1(2)] obtain n3 m3 where
      m3: "btree_copych l a m1 = Some m3" "mem_set bnode_ok (2 * fuel + j) m1 l n3 m3"
      "inner_node n3 js (map addr_of us)" .
    then have c3: "cells m3 = (cells m)(l \<mapsto> n3)" "mem_ok bnode_ok (2 * fuel + j) m3"
      using c1 by (auto simp: mem_set_def fun_eq_iff)
    then have c3l: "(cells m3)(l := None) = cells m" "cells m3 l = Some n3" using c1(3) by auto
    let ?x = "x\<lparr>cx_root := l, cx_t_cur := l\<rparr>"
    have us3: "reprs ((cells m3)(l := None)) us" using y(3) c3l by simp
    have "cx_t_cur ?x = l" by simp
    from cow_from_ok [where x = ?x, OF c3l(2) m3(3) c1(4) True us3 hs c3(2) this]
    obtain x' m' g t' where r0: "btree_cow_from fuel ?x m3 = Some (x', m')"
      "cx_root x' = cx_root ?x" "mem_ok bnode_ok j m'" "cow_step (cells m3) (cells m') l us t'"
      "erase t' = bt_ins (ow_cow g) (cx_key ?x) (cx_val ?x) (BNode (map erase us) js)" .
    then have r: "btree_cow_from fuel ?x m3 = Some (x', m')"
      "cx_root x' = l" "mem_ok bnode_ok j m'" "cow_step (cells m3) (cells m') l us t'"
      "erase t' = bt_ins (ow_cow g) ?k ?v (BNode (map erase us) js)" by simp_all
    have "conctrl_exec btree_handlers fuel x m = Some (x', m')"
      using x y(1) sz True m1(1) m3(1) r(1)
      by (simp add: conctrl_exec_def btree_handlers_def conctrl_INIT_def btree_handle_init_def Let_def mem_get_def
          btree_B_def btree_cow_from_def)
    moreover have "cow_version (cells m) (cells m') (ANode a us js) t'"
      using r(4) c3l c1(3) c3(1) by (auto simp: cow_step_def cow_version_def split: if_splits)
    moreover have "cx_root x' = addr_of t'" using r(2,4) by (simp add: cow_step_def)
    ultimately show thesis using that r(3,5) True by simp
  next
    case False
    then have full: "length js = 15" using sz(3) by simp
    have ok1: "mem_ok bnode_ok (Suc (Suc (Suc (2 * fuel + j)))) m" using ok by (simp add: eval_nat_numeral)
    obtain l r nl nr m1 where m1: "btree_split ?ver a m = Some ((js ! 7, l, r), m1)" "l \<noteq> r"
      "l \<noteq> nullptr" "r \<noteq> nullptr" "cells m l = None" "cells m r = None"
      "cells m1 = (cells m)(l \<mapsto> nl, r \<mapsto> nr)" "mem_ok bnode_ok (Suc (2 * fuel + j)) m1"
      "inner_shell nl (take 7 js)" "inner_shell nr (drop 8 js)"
      by (rule split_ok [where ver = ?ver, OF y(1,2) full ok1])
    obtain z nz m2 where m2: "btree_new_root ?ver (js ! 7) l r m1 = Some (z, m2)"
      "mem_new bnode_ok (2 * fuel + j) m1 z nz m2" "inner_node nz [js ! 7] [l, r]" "bt_ver nz = ?ver"
      by (rule new_root_ok [OF m1(8)])
    then have c2: "cells m2 = (cells m)(l \<mapsto> nl, r \<mapsto> nr, z \<mapsto> nz)" "mem_ok bnode_ok (2 * fuel + j) m2" "z \<noteq> nullptr"
      and z: "cells m1 z = None" using m1(7) by (simp_all add: mem_new_def)
    have ne: "z \<noteq> l" "z \<noteq> r" "a \<noteq> l" "a \<noteq> r" "a \<noteq> z" "cells m z = None"
      using z m1 y(1) by (auto split: if_splits)
    have slots: "arr_get (bt_slots nz) 0 = Some l" "arr_get (bt_slots nz) (0 + 1) = Some r"
      using inner_node_child [OF m2(3), of 0] inner_node_child [OF m2(3), of 1] by simp_all
    have a2: "cells m2 z = Some nz" "cells m2 l = Some nl" "cells m2 r = Some nr" "cells m2 a = Some y"
      using c2 ne m1(2) y(1) by simp_all
    from copych_split_ok [OF a2(1) slots m1(2) a2(2,3) m1(9,10) a2(4) y(2) full c2(2)]
    obtain nl' nr' m3 where m3: "btree_copych_split z 0 a m2 = Some m3"
      "cells m3 = (cells m2)(l \<mapsto> nl', r \<mapsto> nr')" "mem_ok bnode_ok (2 * fuel + j) m3"
      "inner_node nl' (take 7 js) (take 8 (map addr_of us))" "inner_node nr' (drop 8 js) (drop 8 (map addr_of us))" .
    have c3: "cells m3 = (cells m)(l \<mapsto> nl', r \<mapsto> nr', z \<mapsto> nz)"
      using m3(2) c2 ne m1(2) by (auto simp: fun_eq_iff)
    then have z3: "cells m3 z = Some nz" by simp
    let ?L = "half_l l us js" and ?R = "half_r r us js"
    let ?q = "if ?k < js ! 7 then l else r"
    let ?x = "x\<lparr>cx_root := z, cx_t_cur := ?q\<rparr>"
    have run: "conctrl_exec btree_handlers fuel x m = btree_cow_from fuel ?x m3"
      using x y(1) sz full m1(1) m2(1) m3(1) z3 slots
      by (simp add: conctrl_exec_def btree_handlers_def conctrl_INIT_def btree_handle_init_def Let_def mem_get_def
          btree_B_def btree_cow_from_def)
    have "cells m \<subseteq>\<^sub>m (cells m3)(?q := None)"
      unfolding c3 using m1(5,6) ne(6) by (auto simp: map_le_def)
    then have us3: "reprs ((cells m3)(?q := None)) us" using y(3) repr_mono by blast
    have sub: "set (take 8 us) \<subseteq> set us" "set (drop 8 us) \<subseteq> set us"
      by (rule set_take_subset, rule set_drop_subset)
    note result = that
    have fin: thesis
      if q: "cells m3 ?q = Some nq" "inner_node nq jq (map addr_of uq)" "length jq < 15" "set uq \<subseteq> set us"
        and other: "repr ((cells m3)(?q := None)) v" "set (footprint v) \<subseteq> {l, r} \<union> set (footprints us)"
        and F: "\<And>t'. set (F t') = {t', v}" "\<And>t'. addr_of t' = ?q \<Longrightarrow> map addr_of (F t') = [l, r]"
        and ins: "\<And>t' g. erase t' = bt_ins (ow_cow g) ?k ?v (BNode (map erase uq) jq) \<Longrightarrow>
          BNode (map erase (F t')) [js ! 7] = bt_insert (ow_cow g) ?k ?v (BNode (map erase us) js)"
      for nq jq uq F v
    proof -
      have uq: "reprs ((cells m3)(?q := None)) uq" "\<forall>t \<in> set uq. aheight t < fuel" using us3 hs q(4) by blast+
      have "?q \<noteq> nullptr" "cx_t_cur ?x = ?q" using m1(3,4) by simp_all
      from cow_from_ok [where x = ?x, OF q(1,2) this(1) q(3) uq m3(3) this(2)]
      obtain x' m' g t' where r0: "btree_cow_from fuel ?x m3 = Some (x', m')"
        "cx_root x' = cx_root ?x" "mem_ok bnode_ok j m'" "cow_step (cells m3) (cells m') ?q uq t'"
        "erase t' = bt_ins (ow_cow g) (cx_key ?x) (cx_val ?x) (BNode (map erase uq) jq)" .
      then have r: "btree_cow_from fuel ?x m3 = Some (x', m')"
        "cx_root x' = z" "mem_ok bnode_ok j m'" "cow_step (cells m3) (cells m') ?q uq t'"
        "erase t' = bt_ins (ow_cow g) ?k ?v (BNode (map erase uq) jq)" by simp_all
      have "addr_of t' = ?q" using r(4) by (simp add: cow_step_def)
      note F' = F(2) [OF this]
      have "?q \<in> {l, r}" "cells m a \<noteq> None" using y(1) by simp_all
      from cow_under_new_root [OF y(3) full m1(5,6) ne(6,1,2) m1(2) c2(3) this(2) c3 m2(3) this(1) r(4) q(4) other F(1) F']
      have "cow_version (cells m) (cells m') (ANode a us js) (ANode z (F t') [js ! 7])" .
      with ins [OF r(5)] show thesis
        using r(2) by (intro result [OF run [unfolded r(1)] _ r(3), of "ANode z (F t') [js ! 7]" g]) simp_all
    qed
    show thesis
    proof (cases "?k < js ! 7")
      case True
      show thesis
      proof (rule fin [of nl' "take 7 js" "take 8 us" ?R "\<lambda>t'. [t', ?R]"])
        show "repr ((cells m3)(?q := None)) ?R"
          using True m1(2,4) m3(5) us3 sub(2) ne by (auto simp: c3 half_r_def drop_map)
        show "set (footprint ?R) \<subseteq> {l, r} \<union> set (footprints us)"
          using sub(2) by (auto simp: half_r_def)
      qed (use True not_le [THEN iffD2, OF True] c3 m3(4) full sub ne m1(2) in \<open>simp_all add: take_map erase_halves split_l_def\<close>)
    next
      case big: False
      show thesis
      proof (rule fin [of nr' "drop 8 js" "drop 8 us" ?L "\<lambda>t'. [?L, t']"])
        show "repr ((cells m3)(?q := None)) ?L"
          using big m1(2,3) m3(4) us3 sub(1) ne by (auto simp: c3 half_l_def take_map)
        show "set (footprint ?L) \<subseteq> {l, r} \<union> set (footprints us)"
          using sub(1) by (auto simp: half_l_def)
      qed (use big leI [OF big] c3 m3(5) full sub ne in \<open>simp_all add: drop_map erase_halves split_r_def insert_commute\<close>)
    qed
  qed
qed

text \<open>The one case in which a root that is a leaf is handled as meant: it splits.\<close>

lemma cow_exec_leaf:
  assumes t: "repr (cells m) (ALeaf a kvs)" "length kvs = 15" "cx_key x \<notin> fst ` set kvs"
    and ok: "mem_ok bnode_ok (3 + j) m" and x: "cx_t_past x = a" and fuel: "0 < fuel"
  obtains x' m' g t' where "conctrl_exec btree_handlers fuel x m = Some (x', m')"
    "cx_root x' = addr_of t'" "mem_ok bnode_ok j m'" "cow_version (cells m) (cells m') (ALeaf a kvs) t'"
    "erase t' = bt_insert (ow_cow g) (cx_key x) (cx_val x) (BLeaf kvs)"
proof -
  let ?k = "cx_key x" and ?v = "cx_val x" and ?ver = "cx_sno x"
  from t(1) obtain y where y: "cells m a = Some y" "leaf_node y kvs" by auto
  have ok2: "mem_ok bnode_ok (Suc j + 2) m" using ok by (simp add: eval_nat_numeral)
  obtain r u m1 g where m1: "btree_update_leaf_cow ?ver ?k ?v a m = Some (r, m1)" "mem_ok bnode_ok (Suc j) m1"
    "repr_up (cells m1) r u" "erase_up u = leaf_upd (ow_cow g) kvs ?k ?v"
    "heap_step (cells m) {} (cells m1) (set (footprint_up u))" "distinct (footprint_up u)"
    by (rule update_leaf_cow_ok [where ver = ?ver and k = ?k and v = ?v, OF y ok2])
  obtain p l r' where r: "r = (p, l, r')" by (cases r) auto
  have "\<not> (findval_idx (map fst kvs) ?k < length kvs \<and> fst (kvs ! findval_idx (map fst kvs) ?k) = ?k)"
    using t(3) nth_mem [of _ kvs] by (metis image_eqI)
  then have two: "\<exists>xs p ys. leaf_upd (ow_cow g) kvs ?k ?v = Two xs p ys"
    using t(2) by (auto simp: leaf_upd_def Let_def)
  then obtain u1 q u2 where u: "u = ATwo u1 q u2" using m1(4) by (cases u) auto
  have ur: "repr (cells m1) u1" "repr (cells m1) u2" "addr_of u1 = l" "addr_of u2 = r'" "p = q"
    using m1(3) u r by simp_all
  have nn: "r' \<noteq> nullptr" using repr_not_null [OF ur(2)] ur(4) by simp
  obtain z nz m2 where m2: "btree_new_root ?ver p l r' m1 = Some (z, m2)" "mem_new bnode_ok j m1 z nz m2"
    "inner_node nz [p] [l, r']" "bt_ver nz = ?ver"
    by (rule new_root_ok [OF m1(2)])
  then have c2: "cells m2 = (cells m1)(z \<mapsto> nz)" "mem_ok bnode_ok j m2" "z \<noteq> nullptr" "cells m1 z = None"
    by (simp_all add: mem_new_def)
  have "heap_step (cells m) {} (cells m1) (set (footprints [u1, u2]))" using m1(5) u by simp
  moreover have "reprs (cells m1) [u1, u2]" "distinct (footprints [u1, u2])"
    "inner_node nz [p] [addr_of u1, addr_of u2]" using ur m2(3) m1(6) u by simp_all
  ultimately have "repr (cells m2) (ANode z [u1, u2] [p])"
    "heap_step (cells m) {} (cells m2) (set (footprint (ANode z [u1, u2] [p])))"
    using root_over [OF _ _ _ c2(4,3) _ c2(1)] by blast+
  then have v: "cow_version (cells m) (cells m2) (ALeaf a kvs) (ANode z [u1, u2] [p])"
    using heap_step_map_le heap_step_fresh unfolding cow_version_def by blast
  have "conctrl_exec btree_handlers fuel x m = Some (x\<lparr>cx_root := z, cx_op := conctrl_DONE\<rparr>, m2)"
    using x y(1) leaf_is_leaf [OF y(2)] m1(1) r nn m2(1) fuel
    by (cases fuel) (simp_all add: conctrl_exec_def btree_handlers_def conctrl_INIT_def btree_handle_init_def
        Let_def mem_get_def)
  then show thesis
    by (rule that [OF _ _ c2(2) v, of _ g]) (use m1(4) [symmetric] u ur in simp_all)
qed

definition cow_root_ready :: "bt \<Rightarrow> key \<Rightarrow> bool" where
  "cow_root_ready t k = (case t of BLeaf kvs \<Rightarrow> length kvs = 15 \<and> k \<notin> fst ` set kvs | BNode _ _ \<Rightarrow> True)"

lemma cow_exec_ok:
  assumes "repr (cells m) t" "aheight t < fuel" "cow_root_ready (erase t) (cx_key x)"
    "mem_ok bnode_ok (2 * fuel + 3 + j) m" "cx_t_past x = addr_of t"
  obtains x' m' g t' where "conctrl_exec btree_handlers fuel x m = Some (x', m')"
    "cx_root x' = addr_of t'" "mem_ok bnode_ok j m'" "cow_version (cells m) (cells m') t t'"
    "erase t' = bt_insert (ow_cow g) (cx_key x) (cx_val x) (erase t)"
proof (cases t)
  case (ALeaf a kvs)
  have "mem_ok bnode_ok (3 + j) m" by (rule mem_ok_mono [OF assms(4)]) simp
  moreover have "repr (cells m) (ALeaf a kvs)" "length kvs = 15" "cx_key x \<notin> fst ` set kvs" "cx_t_past x = a" "0 < fuel"
    using assms ALeaf by (auto simp: cow_root_ready_def)
  ultimately obtain x' m' g t' where "conctrl_exec btree_handlers fuel x m = Some (x', m')"
    "cx_root x' = addr_of t'" "mem_ok bnode_ok j m'" "cow_version (cells m) (cells m') (ALeaf a kvs) t'"
    "erase t' = bt_insert (ow_cow g) (cx_key x) (cx_val x) (BLeaf kvs)"
    by (elim cow_exec_leaf)
  then show thesis by (rule that [unfolded ALeaf erase.simps])
next
  case (ANode a us js)
  have "repr (cells m) (ANode a us js)" "aheight (ANode a us js) \<le> fuel" "cx_t_past x = a"
    using assms ANode by simp_all
  then obtain x' m' g t' where "conctrl_exec btree_handlers fuel x m = Some (x', m')"
    "cx_root x' = addr_of t'" "mem_ok bnode_ok j m'" "cow_version (cells m) (cells m') (ANode a us js) t'"
    "erase t' = bt_insert (ow_cow g) (cx_key x) (cx_val x) (BNode (map erase us) js)"
    using assms(4) by (elim cow_exec_node)
  then show thesis by (rule that [unfolded ANode erase.simps])
qed

section \<open>An update of a small leaf at the root\<close>

text \<open>The cells a computation can reach: those in memory and those it may still be given.\<close>

definition mem_room :: "'n mem \<Rightarrow> addr set" where
  "mem_room m = dom (cells m) \<union> fst ` set (blocks m)"

abbreviation in_room :: "'n mem \<Rightarrow> ('a \<times> 'n mem) option \<Rightarrow> bool" where
  "in_room m \<equiv> returns (\<lambda>r. mem_room (snd r) \<subseteq> mem_room m)"

lemma room_alloc: "in_room m (mem_alloc m)"
  by (auto simp: returns_def mem_alloc_def mem_room_def split: list.splits)

lemma room_upd: "returns (\<lambda>m'. mem_room m' \<subseteq> mem_room m) (mem_upd m a f)"
  by (auto simp: returns_def mem_upd_def mem_room_def split: bind_splits)

lemma room_bind:
  assumes "in_room m e" "\<And>a m'. in_room m' (f (a, m'))"
  shows "in_room m (e \<bind> f)"
  by (rule returns_bind_with [OF assms(1)]) (use assms(2) in \<open>fastforce simp: returns_def\<close>)

lemma room_upd_return: "in_room m (mem_upd m a f \<bind> (\<lambda>m'. Some (x, m')))"
  by (rule returns_bind_with [OF room_upd]) (simp add: returns_def)

lemma room_copy_leaf: "in_room m (btree_copy_leaf ver t m)"
  unfolding btree_copy_leaf_def
  by (rule returns_bind, rule room_bind [OF room_alloc]) (simp add: room_upd_return)

lemma room_new_leaf: "in_room m (btree_new_leaf ver sz m)"
  unfolding btree_new_leaf_def btree_new_node_def
  by (rule room_bind, rule room_bind [OF room_alloc]) (simp_all add: room_upd_return)

lemma room_small_leaf:
  assumes "cells m t = Some n" "bt_size n < 15"
  shows "in_room m (btree_update_leaf_cow ver k v t m)"
proof -
  have small: "bt_size n < 2 * btree_B - 1 \<longleftrightarrow> True" using assms(2) by (simp add: btree_B_def)
  show ?thesis
    unfolding btree_update_leaf_cow_def mem_get_def assms(1) bind.bind_lunit small if_True
    by (rule returns_bind, rule returns_bind, rule returns_if)
      (rule room_bind [OF room_copy_leaf], simp add: room_upd_return, rule room_bind [OF room_new_leaf], simp add: room_upd_return)
qed

text \<open>
  Control reaches the code for internal nodes: what becomes the root is a copy of the old leaf as an
  internal node, and the word of the leaf at the place of a child for the key is followed.
\<close>

lemma cow_exec_leaf_root_follows:
  assumes t: "cells m a = Some n" "leaf_node n kvs" "length kvs < 15"
    and ok: "mem_ok bnode_ok 3 m" and x: "cx_t_past x = a"
  obtains z m' n' where "btree_handle_init x m = btree_update_cow (x\<lparr>cx_root := z, cx_t_cur := z\<rparr>) m'"
    "cells m z = None" "cells m' z = Some n'" "bt_type n' = BT_INTERNAL" "bt_keys n' = bt_keys n" "bt_slots n' = bt_slots n"
    "btree_findch n' (cx_key x) = Some (findch_idx (map fst kvs) (cx_key x))" "mem_room m' \<subseteq> mem_room m"
proof -
  let ?k = "cx_key x" and ?v = "cx_val x" and ?ver = "cx_sno x"
  have ok2: "mem_ok bnode_ok (1 + 2) m" using ok by (simp add: numeral_eq_Suc)
  obtain r u m1 g where m1: "btree_update_leaf_cow ?ver ?k ?v a m = Some (r, m1)" "mem_ok bnode_ok 1 m1"
    "repr_up (cells m1) r u" "erase_up u = leaf_upd (ow_cow g) kvs ?k ?v"
    "heap_step (cells m) {} (cells m1) (set (footprint_up u))" "distinct (footprint_up u)"
    by (rule update_leaf_cow_ok [where ver = ?ver and k = ?k and v = ?v, OF t(1,2) ok2])
  obtain p l r' where r: "r = (p, l, r')" by (cases r) auto
  have "\<exists>t. leaf_upd (ow_cow g) kvs ?k ?v = One t" using t(3) by (auto simp: leaf_upd_def Let_def)
  then obtain u1 where u: "u = AOne u1" using m1(4) by (cases u) auto
  then have ur: "r' = nullptr" using m1(3) r by simp
  have le: "cells m \<subseteq>\<^sub>m cells m1" by (rule heap_step_map_le [OF m1(5)])
  have a1: "cells m1 a = Some n" by (rule map_le_Some [OF le t(1)])
  have sz: "bt_size n = length kvs" "bt_type n = BT_LEAF" "length (bt_keys n) = 15" "length (bt_slots n) = 16"
    "take (length kvs) (bt_keys n) = map fst kvs"
    using t(2) by (simp_all add: leaf_node_def bnode_ok_def)
  have room: "mem_room m1 \<subseteq> mem_room m"
    using returnsD [OF room_small_leaf m1(1)] t(1,3) sz(1) by simp
  have "mem_ok bnode_ok (Suc 0) m1" using m1(2) by simp
  from mem_alloc_new [OF this] obtain z junk m2 where
    m2: "mem_alloc m1 = Some (z, m2)" "mem_new bnode_ok 0 m1 z junk m2" "bnode_ok junk" .
  then have c2: "cells m2 = (cells m1)(z \<mapsto> junk)" "z \<noteq> a" "cells m1 z = None" using a1 by (auto simp: mem_new_def)
  let ?n = "junk\<lparr>bt_ver := ?ver, bt_type := BT_INTERNAL, bt_size := length kvs, bt_keys := bt_keys n, bt_slots := bt_slots n\<rparr>"
  let ?m = "m2\<lparr>cells := (cells m1)(z \<mapsto> ?n)\<rparr>"
  have "inner_node ?n (map fst kvs) (take (Suc (length kvs)) (bt_slots n))"
    using sz t(3) m2(3) by (simp add: inner_node_def bnode_ok_def)
  then have "btree_findch ?n ?k = Some (findch_idx (map fst kvs) ?k)" by (rule findch_ok)
  moreover have "cells m z = None" using c2(3) map_le_Some [OF le, of z] by (cases "cells m z") auto
  moreover have "mem_room ?m \<subseteq> mem_room m"
  proof -
    have "mem_room ?m = mem_room m2" by (simp add: mem_room_def c2(1))
    also have "\<dots> \<subseteq> mem_room m1" using returnsD [OF room_alloc m2(1)] by simp
    finally show ?thesis using room by simp
  qed
  moreover have "btree_handle_init x m = btree_update_cow (x\<lparr>cx_root := z, cx_t_cur := z\<rparr>) ?m"
    using x t(1,3) a1 sz m1(1) r ur m2(1,3) c2
    by (simp add: btree_handle_init_def Let_def mem_get_def btree_B_def btree_copy_internal_def btree_copych_def
        mem_upd_def arr_copy_def bnode_ok_def)
  ultimately show thesis by (intro that [of z ?m ?n]) simp_all
qed

lemma cow_exec_leaf_root_faults:
  assumes t: "cells m a = Some n" "leaf_node n kvs" "length kvs < 15" and ok: "mem_ok bnode_ok 3 m" and x: "cx_t_past x = a"
    and w: "bt_slots n ! findch_idx (map fst kvs) (cx_key x) = w" "w \<notin> mem_room m"
  obtains z m' n' i where "btree_handle_init x m = btree_update_cow (x\<lparr>cx_root := z, cx_t_cur := z\<rparr>) m'"
    "mem_get m' z = Some n'" "btree_findch n' (cx_key x) = Some i" "arr_get (bt_slots n') i = Some w" "mem_get m' w = None"
    "conctrl_exec btree_handlers fuel x m = None"
proof (rule cow_exec_leaf_root_follows [OF t ok x])
  fix z m' n'
  let ?i = "findch_idx (map fst kvs) (cx_key x)"
  assume r: "btree_handle_init x m = btree_update_cow (x\<lparr>cx_root := z, cx_t_cur := z\<rparr>) m'" "cells m' z = Some n'"
    "bt_slots n' = bt_slots n" "btree_findch n' (cx_key x) = Some ?i" "mem_room m' \<subseteq> mem_room m"
  have "?i < 16" using findch_idx_le [of "map fst kvs" "cx_key x"] t(3) by simp
  then have get: "arr_get (bt_slots n') ?i = Some w" using r(3) t(2) w(1) by (simp add: arr_get_def leaf_node_def bnode_ok_def)
  have null: "mem_get m' w = None" using r(5) w(2) by (auto simp: mem_get_def mem_room_def)
  have "btree_update_cow (x\<lparr>cx_root := z, cx_t_cur := z\<rparr>) m' = None"
    using r(2,4) get null by (simp add: btree_update_cow_def Let_def mem_get_def)
  with r(1) have "conctrl_exec btree_handlers fuel x m = None"
    by (simp add: conctrl_exec_def btree_handlers_def conctrl_INIT_def)
  with r(1,2,4) get null show thesis by (intro that [of z m' n' ?i]) (simp_all add: mem_get_def)
qed

end
