(* ===== verification/Btree_Build.thy ===== *)
theory Btree_Build
  imports Btree_Repr "HOL-Library.Product_Lexorder"
begin

text \<open>
  \<^verbatim>\<open>lib/trees/btree/build.hpp\<close>: bulk loading. A level of \<^verbatim>\<open>n\<close> entries is packed into
  \<^verbatim>\<open>m = n/B\<close> nodes, the remainder \<^verbatim>\<open>r\<close> spread over them with an error accumulator \<^verbatim>\<open>k\<close>, and
  the levels are built bottom up until one node is left. The theorem: the loops end exactly at
  \<^verbatim>\<open>n\<close>, and from sorted entries with distinct keys comes a search tree that is ordered,
  balanced, filled within bounds, and holds exactly those entries.
\<close>

section \<open>The code\<close>

text \<open>The loop of \<^verbatim>\<open>build_internal\<close> that packs one level; \<^term>\<open>n\<close> is the number of its entries.\<close>

function btree_pack_internal ::
  "key list \<Rightarrow> addr list \<Rightarrow> nat \<Rightarrow> nat \<Rightarrow> nat \<Rightarrow> nat \<Rightarrow> nat \<Rightarrow> key list \<Rightarrow> addr list \<Rightarrow> bmem
     \<Rightarrow> ((key list \<times> addr list) \<times> bmem) option" where
  "btree_pack_internal chkeys chs n m r i k keys ts mm =
     (if i < n
      then do {
        let size = btree_B + (k + r) div m;
        key \<leftarrow> arr_get chkeys i;
        (t, mm) \<leftarrow> btree_new_internal 0 (size - 1) mm;
        c \<leftarrow> arr_get chs i;
        mm \<leftarrow> mem_upd mm t (\<lambda>x. do {
               cs \<leftarrow> arr_set (bt_slots x) 0 c;
               ks \<leftarrow> arr_fill (bt_keys x) 0 chkeys (i + 1) (size - 1);
               cs \<leftarrow> arr_fill cs 1 chs (i + 1) (size - 1);
               Some (x\<lparr>bt_keys := ks, bt_slots := cs\<rparr>) });
        btree_pack_internal chkeys chs n m r (i + size) ((k + r) mod m) (keys @ [key]) (ts @ [t]) mm }
      else Some ((keys, ts), mm))"
  by pat_completeness auto
termination
  by (relation "measure (\<lambda>(chkeys, chs, n, m, r, i, k, keys, ts, mm). n - i)") (auto simp: btree_B_def)

text \<open>The recursion of \<^verbatim>\<open>build_internal\<close> over levels; it ends when a level has fewer than \<^verbatim>\<open>2*B\<close> entries.\<close>

fun btree_build_internal :: "nat \<Rightarrow> key list \<Rightarrow> addr list \<Rightarrow> bmem \<Rightarrow> (addr \<times> bmem) option" where
  "btree_build_internal 0 chkeys chs mm = None"
| "btree_build_internal (Suc fuel) chkeys chs mm =
     (let n = length chkeys in
      if n < 2 * btree_B
      then do {
        (t, mm) \<leftarrow> btree_new_internal 0 (n - 1) mm;
        mm \<leftarrow> mem_upd mm t (\<lambda>x. do {
               ks \<leftarrow> arr_fill (bt_keys x) 0 chkeys 1 (n - 1);
               cs \<leftarrow> arr_fill (bt_slots x) 0 chs 0 n;
               Some (x\<lparr>bt_keys := ks, bt_slots := cs\<rparr>) });
        Some (t, mm) }
      else do {
        let m = n div btree_B;
        let r = n - m * btree_B;
        ((keys, ts), mm) \<leftarrow> btree_pack_internal chkeys chs n m r 0 0 [] [] mm;
        btree_build_internal fuel keys ts mm })"

function btree_pack_leaves ::
  "kv list \<Rightarrow> nat \<Rightarrow> nat \<Rightarrow> nat \<Rightarrow> nat \<Rightarrow> nat \<Rightarrow> key list \<Rightarrow> addr list \<Rightarrow> bmem
     \<Rightarrow> ((key list \<times> addr list) \<times> bmem) option" where
  "btree_pack_leaves elems n m r i k keys ts mm =
     (if i < n
      then do {
        let size = btree_B + (k + r) div m;
        e \<leftarrow> arr_get elems i;
        (t, mm) \<leftarrow> btree_new_leaf 0 size mm;
        mm \<leftarrow> mem_upd mm t (\<lambda>x. do {
               ks \<leftarrow> arr_fill (bt_keys x) 0 (map fst elems) i size;
               vs \<leftarrow> arr_fill (bt_slots x) 0 (map snd elems) i size;
               Some (x\<lparr>bt_keys := ks, bt_slots := vs\<rparr>) });
        btree_pack_leaves elems n m r (i + size) ((k + r) mod m) (keys @ [fst e]) (ts @ [t]) mm }
      else Some ((keys, ts), mm))"
  by pat_completeness auto
termination
  by (relation "measure (\<lambda>(elems, n, m, r, i, k, keys, ts, mm). n - i)") (auto simp: btree_B_def)

definition btree_build_sorted :: "nat \<Rightarrow> kv list \<Rightarrow> bmem \<Rightarrow> (addr \<times> bmem) option" where
  "btree_build_sorted fuel elems mm =
     (let n = length elems in
      if n < 2 * btree_B
      then do {
        (t, mm) \<leftarrow> btree_new_leaf 0 n mm;
        mm \<leftarrow> mem_upd mm t (\<lambda>x. do {
               ks \<leftarrow> arr_fill (bt_keys x) 0 (map fst elems) 0 n;
               vs \<leftarrow> arr_fill (bt_slots x) 0 (map snd elems) 0 n;
               Some (x\<lparr>bt_keys := ks, bt_slots := vs\<rparr>) });
        Some (t, mm) }
      else do {
        let m = n div btree_B;
        let r = n - m * btree_B;
        ((keys, ts), mm) \<leftarrow> btree_pack_leaves elems n m r 0 0 [] [] mm;
        btree_build_internal fuel keys ts mm })"

text \<open>\<^verbatim>\<open>std::sort\<close> on pairs compares lexicographically.\<close>

definition btree_build :: "nat \<Rightarrow> kv list \<Rightarrow> bmem \<Rightarrow> (addr \<times> bmem) option" where
  "btree_build fuel elems mm = btree_build_sorted fuel (sort elems) mm"

declare btree_pack_internal.simps [simp del] btree_pack_leaves.simps [simp del]

section \<open>The sizes of the nodes of a level\<close>

text \<open>After \<^term>\<open>t\<close> nodes the index and the accumulator of the loop are these.\<close>

definition pack_at :: "nat \<Rightarrow> nat \<Rightarrow> nat \<Rightarrow> nat \<Rightarrow> nat \<Rightarrow> bool" where
  "pack_at m r t i k \<longleftrightarrow> 2 \<le> m \<and> r < 8 \<and> t \<le> m \<and> i = 8 * t + t * r div m \<and> k = t * r mod m"

lemma pack_at_0: "2 \<le> m \<Longrightarrow> r < 8 \<Longrightarrow> pack_at m r 0 0 0"
  by (simp add: pack_at_def)

lemma pack_at_end:
  assumes "pack_at m r t i k"
  shows "i < 8 * m + r \<longleftrightarrow> t < m" "i \<le> 8 * m + r"
proof -
  have "t * r div m \<le> m * r div m"
    using assms by (intro div_le_mono mult_le_mono1) (simp add: pack_at_def)
  then have "t * r div m \<le> r" using assms by (simp add: pack_at_def)
  moreover have "i = 8 * m + r" if "t = m" using assms that by (simp add: pack_at_def)
  ultimately show "i < 8 * m + r \<longleftrightarrow> t < m" "i \<le> 8 * m + r"
    using assms by (cases "t = m"; simp add: pack_at_def)+
qed

lemma pack_at_step:
  assumes "pack_at m r t i k" "t < m"
  shows "pack_at m r (Suc t) (i + (8 + (k + r) div m)) ((k + r) mod m)"
    "8 + (k + r) div m \<le> 12" "i + (8 + (k + r) div m) \<le> 8 * m + r"
proof -
  have m: "2 \<le> m" "r < 8" "k = t * r mod m" "i = 8 * t + t * r div m" using assms(1) by (simp_all add: pack_at_def)
  have "Suc t * r div m = t * r div m + (k + r) div m"
  proof -
    have "Suc t * r = (t * r div m) * m + (k + r)" by (simp add: m(3) algebra_simps)
    then show ?thesis using m(1) by (metis div_mult_self3 not_numeral_le_zero)
  qed
  moreover have "Suc t * r mod m = (k + r) mod m"
    by (simp add: m(3) mod_simps add.commute)
  ultimately show *: "pack_at m r (Suc t) (i + (8 + (k + r) div m)) ((k + r) mod m)"
    using m assms(2) by (simp add: pack_at_def)
  show "i + (8 + (k + r) div m) \<le> 8 * m + r" by (rule pack_at_end(2) [OF *])
  have "k < m" using m(1,3) by simp
  then have "k + r < 5 * m" using m(1,2) by linarith
  then have "(k + r) div m < 5" using m(1) by (simp add: less_mult_imp_div_less)
  then show "8 + (k + r) div m \<le> 12" by simp
qed

section \<open>Ownership while nodes are added\<close>

lemma pack_combine:
  assumes 1: "heap_step h F h1 (set (footprint t))" "repr h1 t" "distinct (footprint t)"
    and 2: "heap_step h1 G h2 (set (footprints ts))" "reprs h2 ts" "distinct (footprints ts)"
    and G: "G \<subseteq> dom h" "F \<inter> G = {}"
  shows "heap_step h (F \<union> G) h2 (set (footprints (t # ts)))" "reprs h2 (t # ts)" "distinct (footprints (t # ts))"
proof -
  note fr1 = heap_step_frame [OF 1(1) G]
  have d: "set (footprint t) \<subseteq> dom h1" "G \<inter> set (footprint t) = {}"
    using repr_dom [OF 1(2)] fr1(2) by auto
  note fr2 = heap_step_frame [OF 2(1) d]
  have "heap_step h1 (set (footprint t) \<union> G) h2 (set (footprints (t # ts)))"
    by (rule heap_step_cong [OF fr2(1)]) auto
  then show "heap_step h (F \<union> G) h2 (set (footprints (t # ts)))" by (rule heap_step_trans [OF fr1(1)])
  show "reprs h2 (t # ts)" using 2(2) repr_frame [OF 1(2)] fr2(3) by auto
  show "distinct (footprints (t # ts))" using 1(3) 2(3) fr2(2) by auto
qed

section \<open>Packing keeps the order\<close>

lemma bts_wf_split_at:
  assumes "bts_wf lo hi (us @ ts) (js @ k # ks)" "length us = Suc (length js)"
  shows "lo < k" "below k hi" "bts_wf lo (Some k) us js" "bts_wf k hi ts ks"
proof -
  from assms(2) obtain vs v where us: "us = vs @ [v]" "length vs = length js"
    by (metis append_butlast_last_id length_append_singleton length_0_conv nat.distinct(1) nat.inject)
  have w: "bts_wf_pre lo hi vs js" "bts_wf (child_lo lo js) hi (v # ts) (k # ks)"
    using assms(1) bts_wf_append [OF us(2), of lo hi v ts "k # ks"] us(1) by simp_all
  then show "below k hi" "bts_wf k hi ts ks" by simp_all
  have lo: "child_lo lo js < k" "bt_wf (child_lo lo js) (Some k) v" using w(2) by simp_all
  then show "lo < k" using child_lo_ge [OF w(1)] by simp
  show "bts_wf lo (Some k) us js"
    using bts_wf_append [OF us(2), of lo "Some k" v "[]" "[]"] bts_wf_pre_bound [OF w(1) lo(1)] lo(2) us(1) by simp
qed

lemma bts_wf_lo_mono:
  "bt_wf lo hi t \<Longrightarrow> lo' \<le> lo \<Longrightarrow> bt_wf lo' hi t"
  "bts_wf lo hi ts ks \<Longrightarrow> lo' \<le> lo \<Longrightarrow> bts_wf lo' hi ts ks"
proof (induction lo hi t and lo hi ts ks arbitrary: lo' and lo' rule: bt_wf_bts_wf.induct)
  case (1 lo hi kvs)
  then show ?case by (auto intro: order.trans)
qed (auto intro: le_less_trans)

text \<open>A level: its trees, and for every tree a lower bound of its keys.\<close>

definition pack_level :: "nat \<Rightarrow> key list \<Rightarrow> atree list \<Rightarrow> bool" where
  "pack_level d ks ts \<longleftrightarrow>
     length ks = length ts \<and> kids_shape d (map erase ts) \<and>
     (ts \<noteq> [] \<longrightarrow> bts_wf (hd ks) None (map erase ts) (tl ks))"

lemma pack_level_Cons:
  assumes "bt_bal d (erase t)" "bt_ord (erase t)" "pack_level d ks ts"
    "bt_wf k (if ts = [] then None else Some (hd ks)) (erase t)" "ts \<noteq> [] \<Longrightarrow> k < hd ks"
  shows "pack_level d (k # ks) (t # ts)"
  using assms by (cases ks; cases ts) (auto simp: pack_level_def)

text \<open>The entries of one node and those after it.\<close>

lemma chunk_split:
  assumes "i + s \<le> length xs" "0 < s"
  shows "drop i xs = xs ! i # take (s - 1) (drop (i + 1) xs) @ drop (i + s) xs"
proof -
  have "drop i xs = xs ! i # drop (Suc i) xs" using assms by (simp add: Cons_nth_drop_Suc)
  moreover have "drop (Suc i) xs = take (s - 1) (drop (Suc i) xs) @ drop (i + s) xs"
    using assms(2) append_take_drop_id [of "s - 1" "drop (Suc i) xs"] by (cases s) (simp_all add: add.commute)
  ultimately show ?thesis by simp
qed

lemma take_chunk:
  assumes "i + s \<le> length xs" "0 < s"
  shows "take s (drop i xs) = xs ! i # take (s - 1) (drop (i + 1) xs)"
  using assms by (cases s) (simp_all add: Cons_nth_drop_Suc [symmetric])

lemma chunk_rest: "take s (drop i xs) @ drop (i + s) xs = drop i xs"
  using append_take_drop_id [of s "drop i xs"] by (simp add: add.commute)

lemma chunk_all: "take i xs @ take s (drop i xs) @ drop (i + s) xs = xs"
  by (simp only: chunk_rest append_take_drop_id)

lemma pack_leaves_ok:
  assumes "pack_at m r t i k" "length elems = 8 * m + r" "ordered elems" "mem_ok bnode_ok (m - t + j) mm"
  obtains ks us mm' where
    "btree_pack_leaves elems (length elems) m r i k keys ts mm = Some ((keys @ ks, ts @ map addr_of us), mm')"
    "mem_ok bnode_ok j mm'" "pack_level 0 ks us" "length us = m - t" "us \<noteq> [] \<longrightarrow> hd ks = fst (elems ! i)"
    "bts_inorder (map erase us) = drop i elems"
    "heap_step (cells mm) {} (cells mm') (set (footprints us))" "reprs (cells mm') us" "distinct (footprints us)"
  using assms
proof (induction "m - t" arbitrary: t i k keys ts mm thesis)
  case 0
  then have "t = m" by (simp add: pack_at_def)
  with pack_at_end [OF "0.prems"(2)] "0.prems"(3) have i: "i = length elems" by simp
  then have "btree_pack_leaves elems (length elems) m r i k keys ts mm = Some ((keys, ts), mm)"
    by (subst btree_pack_leaves.simps) simp
  then show ?case
    by (rule "0.prems"(1) [of "[]" "[]" mm, simplified])
      (use "0.prems"(5) \<open>t = m\<close> i in \<open>simp_all add: pack_level_def heap_step_refl kids_shape_def\<close>)
next
  case (Suc d)
  then have t: "t < m" by simp
  let ?s = "8 + (k + r) div m" and ?k = "(k + r) mod m"
  note st = pack_at_step [OF Suc.prems(2) t]
  have i: "i < length elems" "i + ?s \<le> length elems" using pack_at_end(1) [OF Suc.prems(2)] t st(3) Suc.prems(3) by simp_all
  have s15: "?s \<le> 15" using st(2) by simp
  have "m - t + j = Suc (d + j)" using Suc.hyps(2) by simp
  then have "mem_ok bnode_ok (Suc (d + j)) mm" using Suc.prems(5) by simp
  from new_leaf_ok [OF this s15, of 0] obtain a n m1 where
    m1: "btree_new_leaf 0 ?s mm = Some (a, m1)" "mem_new bnode_ok (d + j) mm a n m1" "bnode_ok n" "bt_ver n = 0"
    "bt_type n = BT_LEAF" "bt_size n = ?s" .
  let ?kvs = "take ?s (drop i elems)"
  let ?f = "\<lambda>x. do { ks \<leftarrow> arr_fill (bt_keys x) 0 (map fst elems) i ?s;
    vs \<leftarrow> arr_fill (bt_slots x) 0 (map snd elems) i ?s; Some (x\<lparr>bt_keys := ks, bt_slots := vs\<rparr>) }"
  let ?n = "n\<lparr>bt_keys := map fst ?kvs @ drop ?s (bt_keys n), bt_slots := map snd ?kvs @ drop ?s (bt_slots n)\<rparr>"
  have "?f n = Some ?n"
    using m1(3) i(2) s15 by (simp add: arr_fill_Some bnode_ok_def take_map drop_map)
  from mem_upd_new [where f = ?f, OF m1(2) this] obtain m2 where
    m2: "mem_upd m1 a ?f = Some m2" "mem_new bnode_ok (d + j) mm a ?n m2" .
  have len: "length ?kvs = ?s" using i(2) by simp
  then have leaf: "leaf_node ?n ?kvs"
    using m1(3,5,6) s15 by (simp add: leaf_node_def bnode_ok_def)
  have a: "a \<noteq> nullptr" "cells mm a = None" "cells m2 = (cells mm)(a \<mapsto> ?n)" "mem_ok bnode_ok (d + j) m2"
    using m2(2) by (simp_all add: mem_new_def)
  have d: "d = m - Suc t" using Suc.hyps(2) by simp
  have okd: "mem_ok bnode_ok (m - Suc t + j) m2" using a(4) d by simp
  obtain ks us mm' where r: "btree_pack_leaves elems (length elems) m r (i + ?s) ?k (keys @ [fst (elems ! i)]) (ts @ [a]) m2
      = Some (((keys @ [fst (elems ! i)]) @ ks, (ts @ [a]) @ map addr_of us), mm')"
    "mem_ok bnode_ok j mm'" "pack_level 0 ks us" "length us = m - Suc t" "us \<noteq> [] \<longrightarrow> hd ks = fst (elems ! (i + ?s))"
    "bts_inorder (map erase us) = drop (i + ?s) elems"
    "heap_step (cells m2) {} (cells mm') (set (footprints us))" "reprs (cells mm') us" "distinct (footprints us)"
    by (rule Suc.hyps(1) [where keys = "keys @ [fst (elems ! i)]" and ts = "ts @ [a]" and mm = m2,
          OF d _ st(1) Suc.prems(3,4) okd])
  let ?t = "ALeaf a ?kvs"
  have run: "btree_pack_leaves elems (length elems) m r i k keys ts mm
      = Some ((keys @ fst (elems ! i) # ks, ts @ map addr_of (?t # us)), mm')"
    using i m1(1) m2(1) r(1)
    by (subst btree_pack_leaves.simps) (simp add: Let_def btree_B_def arr_get_def)
  have "ordered (take i elems @ ?kvs @ drop (i + ?s) elems)"
    unfolding chunk_all by (rule Suc.prems(4))
  then have o: "ordered ?kvs" "\<forall>x \<in> set ?kvs. \<forall>y \<in> set (drop (i + ?s) elems). fst x < fst y"
    unfolding ordered_append by auto
  have hd: "?kvs = elems ! i # take (?s - 1) (drop (i + 1) elems)" by (rule take_chunk) (use i in simp_all)
  have lo: "\<forall>x \<in> set ?kvs. fst (elems ! i) \<le> fst x" using o(1) unfolding hd by (auto intro: less_imp_le)
  have next_elem: "us \<noteq> [] \<Longrightarrow> elems ! (i + ?s) \<in> set (drop (i + ?s) elems)"
  proof -
    assume "us \<noteq> []"
    then have "i + ?s < length elems"
      using r(4) pack_at_end(1) [OF st(1)] Suc.prems(3) by (cases us) auto
    then show ?thesis by (metis Cons_nth_drop_Suc list.set_intros(1))
  qed
  have "pack_level 0 (fst (elems ! i) # ks) (?t # us)"
  proof (rule pack_level_Cons [OF _ _ r(3)])
    show "bt_ord (erase ?t)" using len s15 by simp
    have "fst x < fst (elems ! (i + ?s))" if "us \<noteq> []" "x \<in> set ?kvs" for x
      using o(2) next_elem [OF that(1)] that(2) by blast
    then show "bt_wf (fst (elems ! i)) (if us = [] then None else Some (hd ks)) (erase ?t)"
      using o(1) lo r(5) by simp
    show "fst (elems ! i) < hd ks" if "us \<noteq> []"
      using o(2) next_elem [OF that] r(5) that unfolding hd by simp
  qed simp
  moreover have "repr (cells m2) ?t" using a(1,3) leaf by simp
  moreover have "heap_step (cells mm) {} (cells m2) (set (footprint ?t))"
    using heap_step_new [OF a(2,3)] by simp
  moreover have "length (?t # us) = m - t" using r(4) d Suc.hyps(2) by simp
  moreover have "bts_inorder (map erase (?t # us)) = drop i elems"
    using r(6) chunk_rest [of ?s i elems] by simp
  ultimately show ?case
    using pack_combine [of "cells mm" "{}" "cells m2" ?t "{}" "cells mm'" us] r(7-9)
    by (intro Suc.prems(1) [OF run r(2)]) simp_all
qed

text \<open>One internal node over a chunk of children.\<close>

lemma new_parent_ok:
  assumes ok: "mem_ok bnode_ok (Suc j) mm" and s: "1 \<le> s" "s \<le> 15"
    and len: "i + s \<le> length chkeys" "length cs = length chkeys"
    and cs: "reprs (cells mm) (take s (drop i cs))" "distinct (footprints (take s (drop i cs)))"
  obtains a n m1 m2 where "btree_new_internal 0 (s - 1) mm = Some (a, m1)"
    "mem_upd m1 a (\<lambda>x. do { cs' \<leftarrow> arr_set (bt_slots x) 0 (map addr_of cs ! i);
       ks \<leftarrow> arr_fill (bt_keys x) 0 chkeys (i + 1) (s - 1); cs' \<leftarrow> arr_fill cs' 1 (map addr_of cs) (i + 1) (s - 1);
       Some (x\<lparr>bt_keys := ks, bt_slots := cs'\<rparr>) }) = Some m2"
    "mem_ok bnode_ok j m2" "cells m2 = (cells mm)(a \<mapsto> n)" "cells mm a = None"
    "inner_node n (take (s - 1) (drop (i + 1) chkeys)) (map addr_of (take s (drop i cs)))"
    "repr (cells m2) (ANode a (take s (drop i cs)) (take (s - 1) (drop (i + 1) chkeys)))"
    "distinct (footprint (ANode a (take s (drop i cs)) (take (s - 1) (drop (i + 1) chkeys))))"
    "heap_step (cells mm) (set (footprints (take s (drop i cs)))) (cells m2)
       (set (footprint (ANode a (take s (drop i cs)) (take (s - 1) (drop (i + 1) chkeys)))))"
proof -
  let ?ks = "take (s - 1) (drop (i + 1) chkeys)" and ?cs = "take s (drop i cs)" and ?chs = "map addr_of cs"
  have "s - 1 \<le> 15" using s by simp
  from new_internal_ok [OF ok this, of 0] obtain a n m1 where
    m1: "btree_new_internal 0 (s - 1) mm = Some (a, m1)" "mem_new bnode_ok j mm a n m1" "bnode_ok n" "bt_ver n = 0"
    "bt_type n = BT_INTERNAL" "bt_size n = s - 1" .
  let ?f = "\<lambda>x. do { cs' \<leftarrow> arr_set (bt_slots x) 0 (?chs ! i); ks \<leftarrow> arr_fill (bt_keys x) 0 chkeys (i + 1) (s - 1);
    cs' \<leftarrow> arr_fill cs' 1 ?chs (i + 1) (s - 1); Some (x\<lparr>bt_keys := ks, bt_slots := cs'\<rparr>) }"
  let ?n = "n\<lparr>bt_keys := ?ks @ drop (s - 1) (bt_keys n),
    bt_slots := ?chs ! i # take (s - 1) (drop (i + 1) ?chs) @ drop s (bt_slots n)\<rparr>"
  have "?f n = Some ?n"
    using m1(3) s len by (simp add: arr_fill_Some arr_set_def bnode_ok_def take_Suc_conv_app_nth)
  from mem_upd_new [where f = ?f, OF m1(2) this] obtain m2 where
    m2: "mem_upd m1 a ?f = Some m2" "mem_new bnode_ok j mm a ?n m2" .
  have a: "a \<noteq> nullptr" "cells mm a = None" "cells m2 = (cells mm)(a \<mapsto> ?n)" "mem_ok bnode_ok j m2"
    using m2(2) by (simp_all add: mem_new_def)
  have "map addr_of ?cs = ?chs ! i # take (s - 1) (drop (i + 1) ?chs)"
    using take_chunk [of i s ?chs] len s by (simp add: take_map drop_map)
  then have node: "inner_node ?n ?ks (map addr_of ?cs)"
    using m1(3,5,6) s len by (cases s) (simp_all add: inner_node_def bnode_ok_def)
  have fr: "a \<notin> set (footprints ?cs)" using reprs_dom [OF cs(1)] a(2) by auto
  have "repr (cells m2) (ANode a ?cs ?ks)"
    using node a(1) reprs_upd [OF cs(1) fr, of "Some ?n"] by (simp add: a(3))
  moreover have "heap_step (cells mm) (set (footprints ?cs)) (cells m2) (set (footprint (ANode a ?cs ?ks)))"
    using heap_step_add [OF heap_step_refl [OF reprs_dom [OF cs(1)]] a(2), of ?n] by (simp add: a(3))
  moreover have "distinct (footprint (ANode a ?cs ?ks))" using cs(2) fr by simp
  ultimately show thesis by (rule_tac that [OF m1(1) m2(1) a(4,3,2) node])
qed

lemma pack_internal_ok:
  assumes "pack_at m r t i k" "length chkeys = 8 * m + r" "length cs = length chkeys" "mem_ok bnode_ok (m - t + j) mm"
    "i < length chkeys \<longrightarrow> bts_wf (chkeys ! i) None (map erase (drop i cs)) (drop (i + 1) chkeys)"
    "kids_shape d (map erase cs)" "reprs (cells mm) (drop i cs)" "distinct (footprints (drop i cs))"
  obtains ks us mm' where
    "btree_pack_internal chkeys (map addr_of cs) (length chkeys) m r i k keys ts mm = Some ((keys @ ks, ts @ map addr_of us), mm')"
    "mem_ok bnode_ok j mm'" "pack_level (Suc d) ks us" "length us = m - t" "us \<noteq> [] \<longrightarrow> hd ks = chkeys ! i"
    "bts_inorder (map erase us) = bts_inorder (map erase (drop i cs))"
    "heap_step (cells mm) (set (footprints (drop i cs))) (cells mm') (set (footprints us))"
    "reprs (cells mm') us" "distinct (footprints us)"
  using assms
proof (induction "m - t" arbitrary: t i k keys ts mm thesis)
  case 0
  then have "t = m" by (simp add: pack_at_def)
  with pack_at_end [OF "0.prems"(2)] "0.prems"(3) have i: "i = length chkeys" by simp
  then have "btree_pack_internal chkeys (map addr_of cs) (length chkeys) m r i k keys ts mm = Some ((keys, ts), mm)"
    by (subst btree_pack_internal.simps) simp
  then show ?case
    by (rule "0.prems"(1) [of "[]" "[]" mm, simplified])
      (use "0.prems"(4,5) \<open>t = m\<close> i in \<open>simp_all add: pack_level_def heap_step_refl kids_shape_def\<close>)
next
  case (Suc e)
  then have t: "t < m" by simp
  let ?s = "8 + (k + r) div m" and ?k = "(k + r) mod m"
  note st = pack_at_step [OF Suc.prems(2) t]
  have i: "i < length chkeys" "i + ?s \<le> length chkeys" using pack_at_end(1) [OF Suc.prems(2)] t st(3) Suc.prems(3) by simp_all
  have s15: "1 \<le> ?s" "?s \<le> 15" using st(2) by simp_all
  let ?cs = "take ?s (drop i cs)" and ?rest = "drop (i + ?s) cs" and ?ks = "take (?s - 1) (drop (i + 1) chkeys)"
  have split: "?cs @ ?rest = drop i cs" by (rule chunk_rest)
  have "reprs (cells mm) (?cs @ ?rest)" "distinct (footprints (?cs @ ?rest))"
    unfolding split by (rule Suc.prems(8), rule Suc.prems(9))
  then have rc: "reprs (cells mm) ?cs" "reprs (cells mm) ?rest" "distinct (footprints ?cs)" "distinct (footprints ?rest)"
    "set (footprints ?cs) \<inter> set (footprints ?rest) = {}"
    by auto
  have "m - t + j = Suc (e + j)" using Suc.hyps(2) by simp
  then have "mem_ok bnode_ok (Suc (e + j)) mm" using Suc.prems(5) by simp
  from new_parent_ok [OF this s15 i(2) Suc.prems(4) rc(1,3)] obtain a n m1 m2 where
    p: "btree_new_internal 0 (?s - 1) mm = Some (a, m1)"
    "mem_upd m1 a (\<lambda>x. do { cs' \<leftarrow> arr_set (bt_slots x) 0 (map addr_of cs ! i);
       ks \<leftarrow> arr_fill (bt_keys x) 0 chkeys (i + 1) (?s - 1); cs' \<leftarrow> arr_fill cs' 1 (map addr_of cs) (i + 1) (?s - 1);
       Some (x\<lparr>bt_keys := ks, bt_slots := cs'\<rparr>) }) = Some m2"
    "mem_ok bnode_ok (e + j) m2" "cells m2 = (cells mm)(a \<mapsto> n)" "cells mm a = None"
    "inner_node n ?ks (map addr_of ?cs)" "repr (cells m2) (ANode a ?cs ?ks)"
    "distinct (footprint (ANode a ?cs ?ks))"
    "heap_step (cells mm) (set (footprints ?cs)) (cells m2) (set (footprint (ANode a ?cs ?ks)))" .
  let ?t = "ANode a ?cs ?ks"
  have d: "e = m - Suc t" using Suc.hyps(2) by simp
  have okd: "mem_ok bnode_ok (m - Suc t + j) m2" using p(3) d by simp
  have fr: "a \<notin> set (footprints ?rest)" using reprs_dom [OF rc(2)] p(5) by auto
  have r2: "reprs (cells m2) ?rest" unfolding p(4) by (rule reprs_upd [OF rc(2) fr])
  from Suc.prems(6) i(1) have wf: "bts_wf (chkeys ! i) None (map erase ?cs @ map erase ?rest) (drop (i + 1) chkeys)"
    by (simp only: map_append [symmetric] split)
  have lcs: "length ?cs = ?s" using i(2) Suc.prems(4) by simp
  have wfs: "bts_wf (chkeys ! i) (if i + ?s < length chkeys then Some (chkeys ! (i + ?s)) else None) (map erase ?cs) ?ks \<and>
    (i + ?s < length chkeys \<longrightarrow> chkeys ! i < chkeys ! (i + ?s) \<and>
      bts_wf (chkeys ! (i + ?s)) None (map erase ?rest) (drop (i + ?s + 1) chkeys))"
  proof (cases "i + ?s < length chkeys")
    case True
    have "drop (i + 1) chkeys = ?ks @ drop (i + 1 + (?s - 1)) chkeys" by (simp only: chunk_rest)
    also have "drop (i + 1 + (?s - 1)) chkeys = chkeys ! (i + ?s) # drop (i + ?s + 1) chkeys"
      using Cons_nth_drop_Suc [OF True] by (simp add: ac_simps)
    finally have k: "drop (i + 1) chkeys = ?ks @ chkeys ! (i + ?s) # drop (i + ?s + 1) chkeys" .
    have l: "length (map erase ?cs) = Suc (length ?ks)" using lcs i(2) by simp
    from bts_wf_split_at [OF back_subst [where P = "bts_wf (chkeys ! i) None (map erase ?cs @ map erase ?rest)", OF wf k] l] True
    show ?thesis by simp
  next
    case False
    then have e: "i + ?s = length chkeys" using i(2) by simp
    then have "?rest = []" "?ks = drop (i + 1) chkeys" using Suc.prems(4) by simp_all
    with wf False show ?thesis by simp
  qed
  then have wf': "i + ?s < length chkeys \<longrightarrow> bts_wf (chkeys ! (i + ?s)) None (map erase ?rest) (drop (i + ?s + 1) chkeys)"
    by blast
  obtain ks us mm' where r: "btree_pack_internal chkeys (map addr_of cs) (length chkeys) m r (i + ?s) ?k
      (keys @ [chkeys ! i]) (ts @ [a]) m2 = Some (((keys @ [chkeys ! i]) @ ks, (ts @ [a]) @ map addr_of us), mm')"
    "mem_ok bnode_ok j mm'" "pack_level (Suc d) ks us" "length us = m - Suc t" "us \<noteq> [] \<longrightarrow> hd ks = chkeys ! (i + ?s)"
    "bts_inorder (map erase us) = bts_inorder (map erase ?rest)"
    "heap_step (cells m2) (set (footprints ?rest)) (cells mm') (set (footprints us))" "reprs (cells mm') us"
    "distinct (footprints us)"
    by (rule Suc.hyps(1) [where keys = "keys @ [chkeys ! i]" and ts = "ts @ [a]" and mm = m2,
          OF d _ st(1) Suc.prems(3,4) okd wf' Suc.prems(7) r2 rc(4)])
  have run: "btree_pack_internal chkeys (map addr_of cs) (length chkeys) m r i k keys ts mm
      = Some ((keys @ chkeys ! i # ks, ts @ map addr_of (?t # us)), mm')"
    using i p(1,2) r(1) Suc.prems(4)
    by (subst btree_pack_internal.simps) (simp add: Let_def btree_B_def arr_get_def)
  have ends: "us = [] \<longleftrightarrow> \<not> i + ?s < length chkeys"
    using pack_at_end(1) [OF st(1)] r(4) Suc.prems(3) by auto
  have "set (map erase ?cs) \<subseteq> set (map erase cs)"
    by (auto dest!: in_set_takeD in_set_dropD)
  then have "kids_shape d (map erase ?cs)" by (rule kids_shape_subset [OF Suc.prems(7)])
  moreover have "length ?ks = ?s - 1" using i(2) by simp
  ultimately have "node_shape d 7 15 (erase ?t)" using lcs s15 by simp
  then have "bt_bal (Suc d) (erase ?t) \<and> bt_ord (erase ?t)" by (rule node_shape_up)
  then have "pack_level (Suc d) (chkeys ! i # ks) (?t # us)"
    using wfs r(5) ends by (intro pack_level_Cons r(3)) (auto split: if_splits)
  moreover have "length (?t # us) = m - t" using r(4) d Suc.hyps(2) by simp
  moreover have "bts_inorder (map erase (?t # us)) = bts_inorder (map erase (drop i cs))"
    using r(6) arg_cong [OF split, of "\<lambda>xs. bts_inorder (map erase xs)"] by simp
  moreover have "set (footprints ?cs) \<union> set (footprints ?rest) = set (footprints (drop i cs))"
    by (simp only: set_append [symmetric] concat_append [symmetric] map_append [symmetric] split)
  ultimately show ?case
    using pack_combine [OF p(9,7,8) r(7-9) reprs_dom [OF rc(2)] rc(5)]
    by (intro Suc.prems(1) [OF run r(2)]) simp_all
qed

section \<open>The levels up to the root\<close>

text \<open>What a bulk load promises of the tree: \<^term>\<open>F\<close> are the nodes it was built over.\<close>

definition built :: "key \<Rightarrow> kv list \<Rightarrow> (addr \<rightharpoonup> bnode) \<Rightarrow> addr set \<Rightarrow> (addr \<rightharpoonup> bnode) \<Rightarrow> atree \<Rightarrow> bool" where
  "built lo xs h F h' t \<longleftrightarrow>
     repr h' t \<and> distinct (footprint t) \<and> heap_step h F h' (set (footprint t)) \<and>
     bt_wf lo None (erase t) \<and> bt_root_ord (erase t) \<and> (\<exists>d. bt_bal d (erase t)) \<and> bt_inorder (erase t) = xs"

lemma build_internal_ok:
  assumes "pack_level d ks cs" "2 \<le> length cs" "length ks \<le> fuel" "mem_ok bnode_ok (length ks + j) mm"
    "reprs (cells mm) cs" "distinct (footprints cs)"
  obtains t mm' where "btree_build_internal fuel ks (map addr_of cs) mm = Some (addr_of t, mm')"
    "built (hd ks) (bts_inorder (map erase cs)) (cells mm) (set (footprints cs)) (cells mm') t" "mem_ok bnode_ok j mm'"
  using assms
proof (induction fuel arbitrary: d ks cs mm thesis)
  case 0
  then show ?case by (simp add: pack_level_def)
next
  case (Suc fuel)
  let ?n = "length ks"
  from Suc.prems(2,3) have lv: "length cs = ?n" "kids_shape d (map erase cs)" "2 \<le> ?n"
    "bts_wf (hd ks) None (map erase cs) (tl ks)" by (auto simp: pack_level_def)
  then have hd: "hd ks = ks ! 0" "tl ks = drop 1 ks" by (cases ks; simp add: drop_Suc)+
  show ?case
  proof (cases "?n < 16")
    case True
    have ok1: "mem_ok bnode_ok (Suc j) mm" by (rule mem_ok_mono [OF Suc.prems(5)]) (use lv in simp)
    have s: "1 \<le> ?n" "?n \<le> 15" "0 + ?n \<le> ?n" using lv True by simp_all
    have "reprs (cells mm) (take ?n (drop 0 cs))" "distinct (footprints (take ?n (drop 0 cs)))"
      using Suc.prems(6,7) lv(1) by simp_all
    from new_parent_ok [OF ok1 s lv(1) this] obtain a n m1 m2 where
      p: "btree_new_internal 0 (?n - 1) mm = Some (a, m1)"
      "mem_upd m1 a (\<lambda>x. do { cs' \<leftarrow> arr_set (bt_slots x) 0 (map addr_of cs ! 0);
         ks \<leftarrow> arr_fill (bt_keys x) 0 ks (0 + 1) (?n - 1); cs' \<leftarrow> arr_fill cs' 1 (map addr_of cs) (0 + 1) (?n - 1);
         Some (x\<lparr>bt_keys := ks, bt_slots := cs'\<rparr>) }) = Some m2"
      "mem_ok bnode_ok j m2" "cells m2 = (cells mm)(a \<mapsto> n)" "cells mm a = None"
      "inner_node n (take (?n - 1) (drop (0 + 1) ks)) (map addr_of (take ?n (drop 0 cs)))"
      "repr (cells m2) (ANode a (take ?n (drop 0 cs)) (take (?n - 1) (drop (0 + 1) ks)))"
      "distinct (footprint (ANode a (take ?n (drop 0 cs)) (take (?n - 1) (drop (0 + 1) ks))))"
      "heap_step (cells mm) (set (footprints (take ?n (drop 0 cs)))) (cells m2)
         (set (footprint (ANode a (take ?n (drop 0 cs)) (take (?n - 1) (drop (0 + 1) ks)))))" .
    let ?t = "ANode a cs (drop 1 ks)"
    have "cells m1 a \<noteq> None" using p(2) by (auto simp: mem_upd_def split: bind_splits)
    obtain n' where n': "?n = Suc n'" using lv(3) by (cases ?n) simp_all
    have f: "(\<lambda>x. do { ks' \<leftarrow> arr_fill (bt_keys x) 0 ks 1 (?n - 1); cs' \<leftarrow> arr_fill (bt_slots x) 0 (map addr_of cs) 0 ?n;
         Some (x\<lparr>bt_keys := ks', bt_slots := cs'\<rparr>) }) =
      (\<lambda>x. do { cs' \<leftarrow> arr_set (bt_slots x) 0 (map addr_of cs ! 0);
         ks \<leftarrow> arr_fill (bt_keys x) 0 ks (0 + 1) (?n - 1); cs' \<leftarrow> arr_fill cs' 1 (map addr_of cs) (0 + 1) (?n - 1);
         Some (x\<lparr>bt_keys := ks, bt_slots := cs'\<rparr>) })"
      using lv(1) n' by (auto simp: arr_get_def fun_eq_iff split: bind_splits option.splits)
    have "mem_upd m1 a (\<lambda>x. do { ks' \<leftarrow> arr_fill (bt_keys x) 0 ks 1 (?n - 1);
        cs' \<leftarrow> arr_fill (bt_slots x) 0 (map addr_of cs) 0 ?n; Some (x\<lparr>bt_keys := ks', bt_slots := cs'\<rparr>) }) = Some m2"
      unfolding f by (rule p(2))
    with p(1) True have run: "btree_build_internal (Suc fuel) ks (map addr_of cs) mm = Some (addr_of ?t, m2)"
      by (simp add: Let_def btree_B_def)
    have "?n - 1 \<le> 15" using True by simp
    then have "bt_root_ord (erase ?t)" using lv by (auto simp: kids_shape_def)
    moreover have "bt_bal (Suc d) (erase ?t)" using lv(2) by (auto simp: kids_shape_def)
    moreover have "bt_wf (hd ks) None (erase ?t)" using lv(4) hd(2) by simp
    moreover have "repr (cells m2) ?t" "distinct (footprint ?t)"
      "heap_step (cells mm) (set (footprints cs)) (cells m2) (set (footprint ?t))"
      using p(7-9) lv(1) by simp_all
    moreover have "bt_inorder (erase ?t) = bts_inorder (map erase cs)" by simp
    ultimately have "built (hd ks) (bts_inorder (map erase cs)) (cells mm) (set (footprints cs)) (cells m2) ?t"
      unfolding built_def by blast
    then show ?thesis by (rule Suc.prems(1) [OF run _ p(3)])
  next
    case False
    let ?m = "?n div 8" and ?r = "?n - ?n div 8 * 8"
    have m: "2 \<le> ?m" using False by simp
    have r: "?r < 8" "?n = 8 * ?m + ?r" by simp_all
    have half: "?m + ?m \<le> ?n" using div_mult_mod_eq [of ?n 8] by linarith
    have okp: "mem_ok bnode_ok (?m - 0 + (?m + j)) mm" by (rule mem_ok_mono [OF Suc.prems(5)]) (use half in linarith)
    have wf: "0 < ?n \<longrightarrow> bts_wf (ks ! 0) None (map erase (drop 0 cs)) (drop (0 + 1) ks)"
      using lv(4) hd by simp
    have "reprs (cells mm) (drop 0 cs)" "distinct (footprints (drop 0 cs))" using Suc.prems(6,7) by simp_all
    from pack_internal_ok [where keys = "[]" and ts = "[]", OF pack_at_0 [OF m r(1)] r(2) lv(1) okp wf lv(2) this]
    obtain keys us mm1 where pk: "btree_pack_internal ks (map addr_of cs) ?n ?m ?r 0 0 [] [] mm
        = Some (([] @ keys, [] @ map addr_of us), mm1)"
      "mem_ok bnode_ok (?m + j) mm1" "pack_level (Suc d) keys us" "length us = ?m - 0" "us \<noteq> [] \<longrightarrow> hd keys = ks ! 0"
      "bts_inorder (map erase us) = bts_inorder (map erase (drop 0 cs))"
      "heap_step (cells mm) (set (footprints (drop 0 cs))) (cells mm1) (set (footprints us))"
      "reprs (cells mm1) us" "distinct (footprints us)" .
    have lk: "length keys = ?m" using pk(3,4) by (simp add: pack_level_def)
    have "2 \<le> length us" "length keys \<le> fuel" "mem_ok bnode_ok (length keys + j) mm1"
      using m pk(2,4) lk half Suc.prems(4) by simp_all
    from Suc.IH [OF _ pk(3) this pk(8,9)] obtain t mm' where t:
      "btree_build_internal fuel keys (map addr_of us) mm1 = Some (addr_of t, mm')"
      "built (hd keys) (bts_inorder (map erase us)) (cells mm1) (set (footprints us)) (cells mm') t" "mem_ok bnode_ok j mm'" .
    have "hd keys = hd ks" using pk(4,5) m hd(1) by auto
    moreover have "btree_build_internal (Suc fuel) ks (map addr_of cs) mm = Some (addr_of t, mm')"
      using False pk(1) t(1) by (simp add: Let_def btree_B_def)
    moreover have "heap_step (cells mm) (set (footprints cs)) (cells mm') (set (footprint t))"
      using heap_step_trans [of "cells mm" _ "cells mm1"] pk(7) t(2) by (simp add: built_def)
    ultimately show ?thesis
      using t(2,3) pk(6) by (intro Suc.prems(1) [of t mm']) (simp_all add: built_def)
  qed
qed

lemma build_sorted_ok:
  assumes "ordered elems" "length elems \<le> fuel" "mem_ok bnode_ok (Suc (length elems) + j) mm"
  obtains t mm' where "btree_build_sorted fuel elems mm = Some (addr_of t, mm')"
    "built 0 elems (cells mm) {} (cells mm') t" "mem_ok bnode_ok j mm'"
proof (cases "length elems < 16")
  case True
  let ?n = "length elems"
  have ok1: "mem_ok bnode_ok (Suc j) mm" by (rule mem_ok_mono [OF assms(3)]) simp
  have "?n \<le> 15" using True by simp
  from new_leaf_ok [OF ok1 this, of 0] obtain a n m1 where
    m1: "btree_new_leaf 0 ?n mm = Some (a, m1)" "mem_new bnode_ok j mm a n m1" "bnode_ok n" "bt_ver n = 0"
    "bt_type n = BT_LEAF" "bt_size n = ?n" .
  let ?f = "\<lambda>x. do { ks \<leftarrow> arr_fill (bt_keys x) 0 (map fst elems) 0 ?n;
    vs \<leftarrow> arr_fill (bt_slots x) 0 (map snd elems) 0 ?n; Some (x\<lparr>bt_keys := ks, bt_slots := vs\<rparr>) }"
  let ?n' = "n\<lparr>bt_keys := map fst elems @ drop ?n (bt_keys n), bt_slots := map snd elems @ drop ?n (bt_slots n)\<rparr>"
  have "?f n = Some ?n'"
    using m1(3) True by (simp add: arr_fill_Some bnode_ok_def)
  from mem_upd_new [where f = ?f, OF m1(2) this] obtain m2 where
    m2: "mem_upd m1 a ?f = Some m2" "mem_new bnode_ok j mm a ?n' m2" .
  have leaf: "leaf_node ?n' elems"
    using m1(3,5,6) True by (simp add: leaf_node_def bnode_ok_def)
  have a: "a \<noteq> nullptr" "cells mm a = None" "cells m2 = (cells mm)(a \<mapsto> ?n')" "mem_ok bnode_ok j m2"
    using m2(2) by (simp_all add: mem_new_def)
  have "btree_build_sorted fuel elems mm = Some (addr_of (ALeaf a elems), m2)"
    using True m1(1) m2(1) by (simp add: btree_build_sorted_def Let_def btree_B_def)
  moreover have "built 0 elems (cells mm) {} (cells m2) (ALeaf a elems)"
    using leaf a assms(1) True heap_step_new [OF a(2,3)] by (auto simp: built_def)
  ultimately show thesis by (rule that [OF _ _ a(4)])
next
  case False
  let ?n = "length elems"
  let ?m = "?n div 8" and ?r = "?n - ?n div 8 * 8"
  have m: "2 \<le> ?m" using False by simp
  have r: "?r < 8" "?n = 8 * ?m + ?r" by simp_all
  have half: "?m + ?m \<le> ?n" using div_mult_mod_eq [of ?n 8] by linarith
  have okp: "mem_ok bnode_ok (?m - 0 + (?m + j)) mm" by (rule mem_ok_mono [OF assms(3)]) (use half in linarith)
  from pack_leaves_ok [where keys = "[]" and ts = "[]", OF pack_at_0 [OF m r(1)] r(2) assms(1) okp]
  obtain keys us mm1 where pk: "btree_pack_leaves elems ?n ?m ?r 0 0 [] [] mm = Some (([] @ keys, [] @ map addr_of us), mm1)"
    "mem_ok bnode_ok (?m + j) mm1" "pack_level 0 keys us" "length us = ?m - 0" "us \<noteq> [] \<longrightarrow> hd keys = fst (elems ! 0)"
    "bts_inorder (map erase us) = drop 0 elems"
    "heap_step (cells mm) {} (cells mm1) (set (footprints us))" "reprs (cells mm1) us" "distinct (footprints us)" .
  have lk: "length keys = ?m" using pk(3,4) by (simp add: pack_level_def)
  have "2 \<le> length us" "length keys \<le> fuel" "mem_ok bnode_ok (length keys + j) mm1"
    using m pk(2,4) lk half assms(2) by simp_all
  from build_internal_ok [OF pk(3) this pk(8,9)] obtain t mm' where t:
    "btree_build_internal fuel keys (map addr_of us) mm1 = Some (addr_of t, mm')"
    "built (hd keys) (bts_inorder (map erase us)) (cells mm1) (set (footprints us)) (cells mm') t" "mem_ok bnode_ok j mm'" .
  have "btree_build_sorted fuel elems mm = Some (addr_of t, mm')"
    using False pk(1) t(1) by (simp add: btree_build_sorted_def Let_def btree_B_def)
  moreover have "heap_step (cells mm) {} (cells mm') (set (footprint t))"
    using heap_step_trans [OF pk(7)] t(2) by (simp add: built_def)
  then have "built 0 elems (cells mm) {} (cells mm') t"
    using t(2) pk(6) bts_wf_lo_mono(1) [of "hd keys" None "erase t" 0] by (simp add: built_def)
  ultimately show thesis by (rule that [OF _ _ t(3)])
qed

lemma ordered_sort:
  fixes elems :: "kv list"
  assumes "distinct (map fst elems)"
  shows "ordered (sort elems)"
proof -
  have "sorted (map fst (sort elems))"
    unfolding sorted_map by (rule sorted_wrt_mono_rel [OF _ sorted_sort]) (auto simp: less_eq_prod_def)
  moreover have "distinct (map fst (sort elems))"
    using assms by (simp add: distinct_map)
  ultimately show ?thesis by (simp add: strict_sorted_iff)
qed

end
