(* ===== verification/Btree_Correct.thy ===== *)
theory Btree_Correct
  imports Btree_Query Btree_Inplace Btree_Cow Btree_Build
begin

text \<open>
  The B+-tree of \<^verbatim>\<open>lib/trees/btree\<close> as a whole: its invariant, the height a tree of 64-bit keys
  can have (which bounds every loop and recursion), and the properties of its interface.
\<close>

section \<open>The invariant\<close>

abbreviation btree_map :: "atree \<Rightarrow> kv list" where
  "btree_map t \<equiv> bt_inorder (erase t)"

text \<open>
  A version: what readers and the copy-on-write code rely on. The in-place code also relies on
  separation, which holds of a tree nobody shares.
\<close>

definition btree_version :: "bmem \<Rightarrow> atree \<Rightarrow> bool" where
  "btree_version m t \<longleftrightarrow>
     repr (cells m) t \<and> bt_wf 0 None (erase t) \<and> bt_root_ord (erase t) \<and> bt_bal (aheight t) (erase t)"

definition btree_inv :: "bmem \<Rightarrow> atree \<Rightarrow> bool" where
  "btree_inv m t \<longleftrightarrow> btree_version m t \<and> distinct (footprint t)"

lemma bal_height: "bt_bal n t \<Longrightarrow> bt_root_ord t \<or> bt_ord t \<Longrightarrow> bt_height t = n"
proof (induction n arbitrary: t)
  case 0
  then show ?case by (cases t) simp_all
next
  case (Suc n)
  then obtain ts ks where t: "t = BNode ts ks" by (cases t) simp_all
  with Suc.prems have "\<forall>u \<in> set ts. bt_height u = n" "ts \<noteq> []"
    using Suc.IH by auto
  then have "set (map bt_height ts) = {n}" by (cases ts) auto
  then show ?case by (simp add: t del: set_map)
qed

lemma btree_versionI:
  assumes "repr (cells m) t" "bt_wf 0 None (erase t)" "bt_root_ord (erase t)" "bt_bal d (erase t)"
  shows "btree_version m t"
  using assms bal_height [OF assms(4)] aheight_erase [of t] by (simp add: btree_version_def)

lemma btree_version_mono: "btree_version m t \<Longrightarrow> cells m \<subseteq>\<^sub>m cells m' \<Longrightarrow> btree_version m' t"
  using repr_mono by (auto simp: btree_version_def)

lemma btree_version_ordered: "btree_version m t \<Longrightarrow> ordered (btree_map t)"
  using bt_wf_ordered(1) by (auto simp: btree_version_def)

section \<open>Height\<close>

lemma sum_list_ge: "(\<And>x. x \<in> set xs \<Longrightarrow> (a::nat) \<le> f x) \<Longrightarrow> length xs * a \<le> (\<Sum>x\<leftarrow>xs. f x)"
  by (induction xs) (auto simp: add_mono)

lemma bt_size_ord: "bt_bal n t \<Longrightarrow> bt_ord t \<Longrightarrow> 8 ^ Suc n \<le> length (bt_inorder t)"
proof (induction n arbitrary: t)
  case 0
  then show ?case by (cases t) simp_all
next
  case (Suc n)
  then obtain ts ks where t: "t = BNode ts ks" by (cases t) simp_all
  have a: "length ts * 8 ^ Suc n \<le> (\<Sum>u\<leftarrow>ts. length (bt_inorder u))"
    by (rule sum_list_ge) (use Suc t in auto)
  have "8 * 8 ^ Suc n \<le> length ts * (8::nat) ^ Suc n"
    using Suc.prems t by (intro mult_le_mono1) simp
  from order.trans [OF this a] show ?case by (simp add: t length_concat comp_def)
qed

lemma bt_size_root:
  assumes "bt_bal (Suc n) t" "bt_root_ord t"
  shows "2 * 8 ^ Suc n \<le> length (bt_inorder t)"
proof -
  from assms obtain ts ks where t: "t = BNode ts ks" by (cases t) simp_all
  have a: "length ts * 8 ^ Suc n \<le> (\<Sum>u\<leftarrow>ts. length (bt_inorder u))"
    by (rule sum_list_ge) (use assms t bt_size_ord in auto)
  have "2 * 8 ^ Suc n \<le> length ts * (8::nat) ^ Suc n"
    using assms t by (intro mult_le_mono1) simp
  from order.trans [OF this a] show ?thesis by (simp add: t length_concat comp_def)
qed

lemma ordered_length: "ordered (xs :: kv list) \<Longrightarrow> length xs \<le> 2 ^ 64"
proof -
  assume "ordered xs"
  then have "distinct (map fst xs)" using strict_sorted_iff by blast
  then have "length xs = card (set (map fst xs))" by (metis distinct_card length_map)
  also have "\<dots> \<le> card (UNIV :: key set)" by (intro card_mono) simp_all
  finally show ?thesis by (simp add: card_word)
qed

lemma btree_version_height:
  assumes "btree_version m t"
  shows "aheight t \<le> 21"
proof (rule ccontr)
  assume "\<not> aheight t \<le> 21"
  then obtain n where n: "aheight t = Suc n" "21 \<le> n" by (cases "aheight t") auto
  with assms have "2 * 8 ^ Suc n \<le> length (btree_map t)"
    by (intro bt_size_root) (simp_all add: btree_version_def)
  moreover have "length (btree_map t) \<le> 2 ^ 64"
    using assms bt_wf_ordered(1) by (intro ordered_length) (auto simp: btree_version_def)
  moreover have "(2::nat) * 8 ^ Suc 21 \<le> 2 * 8 ^ Suc n"
    using n(2) by (intro mult_le_mono2 power_increasing) simp_all
  ultimately have "(2::nat) * 8 ^ Suc 21 \<le> 2 ^ 64" by linarith
  then show False by simp
qed

lemma btree_version_update:
  assumes "btree_version m t" "leaf_overwrite ow" "repr (cells m') t'" "erase t' = bt_insert ow k v (erase t)"
  shows "btree_version m' t'" "upd_at ow k v (btree_map t) (btree_map t')"
proof -
  from assms(1) have t: "bt_wf 0 None (erase t)" "bt_root_ord (erase t)" "bt_bal (aheight t) (erase t)"
    by (simp_all add: btree_version_def)
  have wf: "bt_wf 0 None (erase t') \<and> upd_at ow k v (btree_map t) (btree_map t')"
    unfolding assms(4) by (rule leaf_overwrite.bt_insert_correct [OF assms(2) t(1)]) simp_all
  then show "upd_at ow k v (btree_map t) (btree_map t')" by simp
  have "bt_root_ord (erase t') \<and> (bt_bal (aheight t) (erase t') \<or> bt_bal (Suc (aheight t)) (erase t'))"
    unfolding assms(4) by (rule leaf_overwrite.bt_insert_shape [OF assms(2) t(3,2)])
  with wf assms(3) show "btree_version m' t'"
    by (auto intro: btree_versionI)
qed

section \<open>Concrete memories for the witnesses\<close>

text \<open>A leaf at address 1, and \<^term>\<open>k\<close> blocks to come at the addresses from 2 on.\<close>

definition btree_demo_leaf :: "kv list \<Rightarrow> bnode" where
  "btree_demo_leaf kvs = \<lparr>bt_ver = 0, bt_type = BT_LEAF, bt_size = length kvs,
     bt_keys = map fst kvs @ replicate (15 - length kvs) 0, bt_slots = map snd kvs @ replicate (16 - length kvs) 0\<rparr>"

definition btree_demo :: "nat \<Rightarrow> kv list \<Rightarrow> bmem" where
  "btree_demo k kvs = \<lparr>cells = [1 \<mapsto> btree_demo_leaf kvs], blocks = demo_blocks 2 k (btree_demo_leaf [])\<rparr>"

definition btree_empty_mem :: "nat \<Rightarrow> bmem" where
  "btree_empty_mem k = \<lparr>cells = Map.empty, blocks = demo_blocks 2 k (btree_demo_leaf [])\<rparr>"

lemma demo_leaf_ok: "length kvs \<le> 15 \<Longrightarrow> bnode_ok (btree_demo_leaf kvs)"
  by (simp add: bnode_ok_def btree_demo_leaf_def)

lemma btree_demo_ok: "j \<le> k \<Longrightarrow> k < 900 \<Longrightarrow> mem_ok bnode_ok j (btree_demo k kvs)"
  unfolding btree_demo_def by (rule demo_blocks_ok) (auto simp: demo_leaf_ok image_iff intro: bexI [of _ 1])

lemma btree_empty_mem_ok: "j \<le> k \<Longrightarrow> k < 900 \<Longrightarrow> mem_ok bnode_ok j (btree_empty_mem k)"
  unfolding btree_empty_mem_def by (rule demo_blocks_ok) (auto simp: demo_leaf_ok)

lemma demo_leaf_node: "length kvs \<le> 15 \<Longrightarrow> leaf_node (btree_demo_leaf kvs) kvs"
  by (simp add: leaf_node_def bnode_ok_def btree_demo_leaf_def)

lemma btree_demo_inv: "ordered kvs \<Longrightarrow> length kvs \<le> 15 \<Longrightarrow> btree_inv (btree_demo k kvs) (ALeaf 1 kvs)"
  by (simp add: btree_inv_def btree_version_def btree_demo_def demo_leaf_node)

section \<open>The interface in terms of the invariant\<close>

lemma version_find:
  "btree_version m t \<Longrightarrow> 22 \<le> fuel \<Longrightarrow> btree_find fuel (addr_of t) k m = Some (map_of (btree_map t) k)"
  using find_map_of [of m t fuel 0 None k] btree_version_height [of m t] by (simp add: btree_version_def)

lemma version_scan:
  "btree_version m t \<Longrightarrow> 22 \<le> fuel \<Longrightarrow> btree_scan fuel (addr_of t) k n m = Some (kv_scan k n (btree_map t))"
  using scan_kv_scan [of m t fuel 0 None k n] btree_version_height [of m t] by (simp add: btree_version_def)

lemma inv_update:
  assumes "btree_inv m t" "22 \<le> fuel" "mem_ok bnode_ok (2 * fuel + 3 + j) m"
  obtains t' m' where "btree_update_root_inplace fuel (addr_of t) k v m = Some (addr_of t', m')"
    "btree_inv m' t'" "btree_map t' = kv_upd k v (btree_map t)"
    "heap_step (cells m) (set (footprint t)) (cells m') (set (footprint t'))" "mem_ok bnode_ok j m'"
proof -
  from assms(1) have v: "btree_version m t" and d: "distinct (footprint t)" by (simp_all add: btree_inv_def)
  then have "repr (cells m) t" "aheight t \<le> fuel"
    using btree_version_height [OF v] assms(2) by (simp_all add: btree_version_def)
  from root_inplace_ok [OF this(1) d this(2) assms(3)] obtain m' t' where
    t': "btree_update_root_inplace fuel (addr_of t) k v m = Some (addr_of t', m')"
    "repr (cells m') t'" "distinct (footprint t')" "erase t' = bt_insert ow_inplace k v (erase t)"
    "heap_step (cells m) (set (footprint t)) (cells m') (set (footprint t'))" "mem_ok bnode_ok j m'" .
  note u = btree_version_update [OF v inplace.leaf_overwrite_axioms t'(2,4)]
  have "btree_map t' = kv_upd k v (btree_map t)"
    by (rule inplace.upd_at_exact [OF u(2) btree_version_ordered [OF v]])
  with t' u(1) show thesis by (intro that) (simp_all add: btree_inv_def)
qed

text \<open>
  What copy on write does to the contents: the keys are those of an update, and so are the
  bindings when the key is new. When it is not, only the value of the key itself is right.
\<close>

definition cow_update :: "key \<Rightarrow> val \<Rightarrow> kv list \<Rightarrow> kv list \<Rightarrow> bool" where
  "cow_update k v xs ys \<longleftrightarrow>
     map fst ys = map fst (kv_upd k v xs) \<and> map_of ys k = Some v \<and> (k \<notin> fst ` set xs \<longrightarrow> ys = kv_upd k v xs)"

lemma version_cow:
  assumes "btree_version m t" "cow_root_ready (erase t) (cx_key x)" "22 \<le> fuel"
    "mem_ok bnode_ok (2 * fuel + 3 + j) m" "cx_t_past x = addr_of t"
  obtains x' m' t' where "conctrl_exec btree_handlers fuel x m = Some (x', m')"
    "cx_root x' = addr_of t'" "btree_version m' t'" "cow_update (cx_key x) (cx_val x) (btree_map t) (btree_map t')"
    "cells m \<subseteq>\<^sub>m cells m'" "set (footprint t') \<subseteq> set (footprint t) \<union> - dom (cells m)" "mem_ok bnode_ok j m'"
    "bt_inner (erase t) \<longrightarrow> bt_inner (erase t')"
proof -
  from assms have "repr (cells m) t" "aheight t < fuel"
    using btree_version_height [OF assms(1)] by (simp_all add: btree_version_def)
  from cow_exec_ok [OF this assms(2,4,5)] obtain x' m' g t' where
    t': "conctrl_exec btree_handlers fuel x m = Some (x', m')"
    "cx_root x' = addr_of t'" "mem_ok bnode_ok j m'" "cow_version (cells m) (cells m') t t'"
    "erase t' = bt_insert (ow_cow g) (cx_key x) (cx_val x) (erase t)" .
  then have c: "repr (cells m') t'" "cells m \<subseteq>\<^sub>m cells m'" "set (footprint t') \<subseteq> set (footprint t) \<union> - dom (cells m)"
    by (simp_all add: cow_version_def)
  note u = btree_version_update [OF assms(1) cow.leaf_overwrite_axioms c(1) t'(5)]
  have "cow_update (cx_key x) (cx_val x) (btree_map t) (btree_map t')"
    using cow.upd_at_keys [OF u(2) btree_version_ordered [OF assms(1)]] by (simp add: cow_update_def)
  moreover have "bt_inner (erase t) \<longrightarrow> bt_inner (erase t')"
    unfolding t'(5) using bt_insert_inner by blast
  ultimately show thesis using t' u(1) c by (intro that)
qed

lemma build_version:
  assumes "distinct (map fst elems)" "length elems \<le> fuel" "mem_ok bnode_ok (Suc (length elems) + j) m"
  obtains t m' where "btree_build fuel elems m = Some (addr_of t, m')" "btree_inv m' t"
    "btree_map t = sort elems" "heap_step (cells m) {} (cells m') (set (footprint t))" "mem_ok bnode_ok j m'"
proof -
  have s: "length (sort elems) \<le> fuel" "mem_ok bnode_ok (Suc (length (sort elems)) + j) m"
    using assms(2,3) by simp_all
  from build_sorted_ok [OF ordered_sort [OF assms(1)] s] obtain t m' where
    t: "btree_build_sorted fuel (sort elems) m = Some (addr_of t, m')" "built 0 (sort elems) (cells m) {} (cells m') t"
    "mem_ok bnode_ok j m'" .
  from t(2) obtain d where "repr (cells m') t" "bt_wf 0 None (erase t)" "bt_root_ord (erase t)" "bt_bal d (erase t)"
    by (auto simp: built_def)
  then have "btree_version m' t" by (rule btree_versionI)
  with t show thesis by (intro that [of t m']) (simp_all add: btree_build_def btree_inv_def built_def)
qed

section \<open>Properties\<close>

text \<open>
  C1. The in-place update of \<^verbatim>\<open>update_root_inplace\<close>, on any tree that satisfies the invariant:
  it terminates without a fault, the tree at the returned root satisfies the invariant again
  (order, balance, fill bounds, separation), its contents are the old contents with the one
  binding put in or overwritten, and memory is accounted for exactly: cells outside the tree are
  untouched, what is new in the tree was free, what left the tree has been freed.
\<close>

theorem btree_inplace_update_correct:
  assumes "btree_inv m t" "22 \<le> fuel" "mem_ok bnode_ok (2 * fuel + 3 + j) m"
  shows "\<exists>t' m'. btree_update_root_inplace fuel (addr_of t) k v m = Some (addr_of t', m') \<and> btree_inv m' t' \<and>
    btree_map t' = kv_upd k v (btree_map t) \<and>
    heap_step (cells m) (set (footprint t)) (cells m') (set (footprint t')) \<and> mem_ok bnode_ok j m'"
  by (rule inv_update [OF assms, of k v]) blast

theorem btree_inplace_update_correct_witness:
  "\<exists>t' m'. btree_update_root_inplace 22 1 7 70 (btree_demo 60 [(5, 50)]) = Some (addr_of t', m') \<and>
    btree_map t' = [(5, 50), (7, 70)]"
proof -
  have "btree_inv (btree_demo 60 [(5, 50)]) (ALeaf 1 [(5, 50)])" by (rule btree_demo_inv) simp_all
  from btree_inplace_update_correct [OF this, of 22 0 7 70] show ?thesis
    using btree_demo_ok [of 47 60] by (auto simp: kv_upd_def)
qed

text \<open>
  C2. A copy-on-write update (all stages of \<^verbatim>\<open>handle_init\<close>, \<^verbatim>\<open>handle_search_down\<close> and
  \<^verbatim>\<open>handle_search_split\<close> run to \<^verbatim>\<open>DONE\<close>) from a root that is not a small leaf: it terminates
  without a fault; every cell allocated before is unchanged, so the version it started from is
  still a tree with the same contents; and the new root is a version whose keys are those of
  the update, with the new value at the key, and exactly the updated map when the key is new.
\<close>

theorem btree_cow_update_correct:
  assumes "btree_version m t" "cow_root_ready (erase t) (cx_key x)" "22 \<le> fuel"
    "mem_ok bnode_ok (2 * fuel + 3 + j) m" "cx_t_past x = addr_of t"
  shows "\<exists>x' m' t'. conctrl_exec btree_handlers fuel x m = Some (x', m') \<and> cx_root x' = addr_of t' \<and>
    btree_version m' t' \<and> cow_update (cx_key x) (cx_val x) (btree_map t) (btree_map t') \<and>
    cells m \<subseteq>\<^sub>m cells m' \<and> btree_version m' t \<and>
    set (footprint t') \<subseteq> set (footprint t) \<union> - dom (cells m) \<and> mem_ok bnode_ok j m'"
proof (rule version_cow [OF assms])
  fix x' m' t'
  assume r: "conctrl_exec btree_handlers fuel x m = Some (x', m')" "cx_root x' = addr_of t'" "btree_version m' t'"
    "cow_update (cx_key x) (cx_val x) (btree_map t) (btree_map t')" "cells m \<subseteq>\<^sub>m cells m'"
    "set (footprint t') \<subseteq> set (footprint t) \<union> - dom (cells m)" "mem_ok bnode_ok j m'"
  with btree_version_mono [OF assms(1) r(5)] show ?thesis by blast
qed

definition btree_demo_ctx :: "key \<Rightarrow> val \<Rightarrow> btree_ctx" where
  "btree_demo_ctx k v = \<lparr>cx_op = 0, cx_retry = False, cx_wait_child = False, cx_wait_subtree = False,
     cx_new_checkpoint = False, cx_sno = 1, cx_cno = 0, cx_root = 0, cx_t_cur = 0, cx_t_past = 1,
     cx_key = k, cx_val = v, cx_split_idx = 0\<rparr>"

definition btree_demo_full :: "kv list" where
  "btree_demo_full = [(1, 10), (2, 20), (3, 30), (4, 40), (5, 50), (6, 60), (7, 70), (8, 80), (9, 90),
     (10, 100), (11, 110), (12, 120), (13, 130), (14, 140), (15, 150)]"

lemma btree_demo_full_inv: "btree_inv (btree_demo k btree_demo_full) (ALeaf 1 btree_demo_full)"
  by (rule btree_demo_inv) (simp_all add: btree_demo_full_def)

theorem btree_cow_update_correct_witness:
  "\<exists>x' m' t'. conctrl_exec btree_handlers 22 (btree_demo_ctx 0 7) (btree_demo 60 btree_demo_full) = Some (x', m') \<and>
    btree_version m' t' \<and> btree_map t' = (0, 7) # btree_demo_full"
proof -
  have v: "btree_version (btree_demo 60 btree_demo_full) (ALeaf 1 btree_demo_full)"
    using btree_demo_full_inv by (simp add: btree_inv_def)
  have "cow_root_ready (erase (ALeaf 1 btree_demo_full)) (cx_key (btree_demo_ctx 0 7))"
    by (simp add: cow_root_ready_def btree_demo_full_def btree_demo_ctx_def)
  moreover have "mem_ok bnode_ok (2 * 22 + 3 + 0) (btree_demo 60 btree_demo_full)"
    by (rule btree_demo_ok) simp_all
  moreover have "cx_t_past (btree_demo_ctx 0 7) = addr_of (ALeaf 1 btree_demo_full)" by (simp add: btree_demo_ctx_def)
  moreover have "kv_upd 0 7 btree_demo_full = (0, 7) # btree_demo_full"
    by (simp add: kv_upd_def btree_demo_full_def)
  moreover have "0 \<notin> fst ` set btree_demo_full" by (simp add: btree_demo_full_def)
  ultimately show ?thesis
    using btree_cow_update_correct [OF v, of "btree_demo_ctx 0 7" 22 0]
    by (auto simp: cow_update_def btree_demo_ctx_def)
qed

text \<open>
  C3. \<^verbatim>\<open>find\<close> on any version returns the binding of the key in the represented map, or nothing
  when there is none; it never faults, and 22 steps are enough for every tree of 64-bit keys.
\<close>

theorem btree_find_correct:
  assumes "btree_version m t" "22 \<le> fuel"
  shows "btree_find fuel (addr_of t) k m = Some (map_of (btree_map t) k)"
  by (rule version_find [OF assms])

theorem btree_find_correct_witness:
  "btree_find 22 1 5 (btree_demo 0 [(5, 50), (7, 70)]) = Some (Some 50) \<and>
   btree_find 22 1 6 (btree_demo 0 [(5, 50), (7, 70)]) = Some None"
proof -
  have "btree_version (btree_demo 0 [(5, 50), (7, 70)]) (ALeaf 1 [(5, 50), (7, 70)])"
    using btree_demo_inv [of "[(5, 50), (7, 70)]" 0] by (simp add: btree_inv_def)
  from btree_find_correct [OF this, of 22 5] btree_find_correct [OF this, of 22 6] show ?thesis by simp
qed

text \<open>
  C4. \<^verbatim>\<open>scan\<close> from a key returns, in key order, the first \<^term>\<open>n\<close> bindings whose key is not
  below it (all of them when there are fewer).
\<close>

theorem btree_scan_correct:
  assumes "btree_version m t" "22 \<le> fuel"
  shows "btree_scan fuel (addr_of t) k n m = Some (kv_scan k n (btree_map t))"
  by (rule version_scan [OF assms])

theorem btree_scan_correct_witness:
  "btree_scan 22 1 6 2 (btree_demo 0 [(5, 50), (7, 70), (8, 80), (9, 90)]) = Some [(7, 70), (8, 80)]"
proof -
  have "btree_version (btree_demo 0 [(5, 50), (7, 70), (8, 80), (9, 90)]) (ALeaf 1 [(5, 50), (7, 70), (8, 80), (9, 90)])"
    using btree_demo_inv [of "[(5, 50), (7, 70), (8, 80), (9, 90)]" 0] by (simp add: btree_inv_def)
  from btree_scan_correct [OF this, of 22 6 2] show ?thesis by (simp add: kv_scan_def)
qed

text \<open>
  C5. Bulk loading: from entries with distinct keys in any order, \<^verbatim>\<open>build\<close> returns a tree that
  satisfies the whole invariant (every node within its fill bounds, all leaves at one depth)
  and holds exactly the entries; it writes fresh cells only and leaks none.
\<close>

theorem btree_build_correct:
  assumes "distinct (map fst elems)" "length elems \<le> fuel" "mem_ok bnode_ok (Suc (length elems) + j) m"
  shows "\<exists>t m'. btree_build fuel elems m = Some (addr_of t, m') \<and> btree_inv m' t \<and>
    btree_map t = sort elems \<and> heap_step (cells m) {} (cells m') (set (footprint t)) \<and> mem_ok bnode_ok j m'"
  by (rule build_version [OF assms]) blast

theorem btree_build_correct_witness:
  "\<exists>t m'. btree_build 20 (map (\<lambda>i. (of_nat i, 0)) [0..<20]) (btree_empty_mem 30) = Some (addr_of t, m') \<and> btree_inv m' t"
proof -
  let ?es = "map (\<lambda>i. (of_nat i :: key, 0 :: val)) [0..<20]"
  have "distinct (map fst ?es)" "length ?es \<le> 20" by (simp_all add: upt_rec)
  moreover have "mem_ok bnode_ok (Suc (length ?es) + 0) (btree_empty_mem 30)" by (rule btree_empty_mem_ok) simp_all
  ultimately show ?thesis using btree_build_correct [of ?es 20 0 "btree_empty_mem 30"] by blast
qed

text \<open>
  C6. Persistence for readers: after a copy-on-write update \<^verbatim>\<open>find\<close> on the old root still gives
  every old binding, \<^verbatim>\<open>find\<close> on the new root gives the new value of the key, and when the key is
  new every other key has its old value there.
\<close>

theorem btree_cow_snapshot:
  assumes "btree_version m t" "cow_root_ready (erase t) (cx_key x)" "22 \<le> fuel"
    "mem_ok bnode_ok (2 * fuel + 3 + j) m" "cx_t_past x = addr_of t"
  shows "\<exists>x' m'. conctrl_exec btree_handlers fuel x m = Some (x', m') \<and>
    (\<forall>k. btree_find fuel (addr_of t) k m' = btree_find fuel (addr_of t) k m) \<and>
    btree_find fuel (cx_root x') (cx_key x) m' = Some (Some (cx_val x)) \<and>
    (btree_find fuel (addr_of t) (cx_key x) m = Some None \<longrightarrow>
      (\<forall>k. k \<noteq> cx_key x \<longrightarrow> btree_find fuel (cx_root x') k m' = btree_find fuel (addr_of t) k m))"
proof (rule version_cow [OF assms])
  fix x' m' t'
  assume r: "conctrl_exec btree_handlers fuel x m = Some (x', m')" "cx_root x' = addr_of t'" "btree_version m' t'"
    "cow_update (cx_key x) (cx_val x) (btree_map t) (btree_map t')" "cells m \<subseteq>\<^sub>m cells m'"
  note old = version_find [OF btree_version_mono [OF assms(1) r(5)] assms(3)] version_find [OF assms(1,3)]
  note new = version_find [OF r(3) assms(3)]
  show ?thesis
    using r(1,2,4) old new map_of_kv_upd [OF btree_version_ordered [OF assms(1)]]
    by (intro exI [of _ x'] exI [of _ m']) (auto simp: cow_update_def map_of_eq_None_iff)
qed

theorem btree_cow_snapshot_witness:
  "\<exists>x' m'. conctrl_exec btree_handlers 22 (btree_demo_ctx 0 7) (btree_demo 60 btree_demo_full) = Some (x', m') \<and>
    btree_find 22 1 0 m' = Some None \<and> btree_find 22 (cx_root x') 0 m' = Some (Some 7) \<and>
    btree_find 22 (cx_root x') 3 m' = Some (Some 30)"
proof -
  have v: "btree_version (btree_demo 60 btree_demo_full) (ALeaf 1 btree_demo_full)"
    using btree_demo_full_inv by (simp add: btree_inv_def)
  have "cow_root_ready (erase (ALeaf 1 btree_demo_full)) (cx_key (btree_demo_ctx 0 7))"
    by (simp add: cow_root_ready_def btree_demo_full_def btree_demo_ctx_def)
  moreover have "mem_ok bnode_ok (2 * 22 + 3 + 0) (btree_demo 60 btree_demo_full)"
    by (rule btree_demo_ok) simp_all
  moreover have "cx_t_past (btree_demo_ctx 0 7) = addr_of (ALeaf 1 btree_demo_full)" by (simp add: btree_demo_ctx_def)
  ultimately show ?thesis
    using btree_cow_snapshot [OF v, of "btree_demo_ctx 0 7" 22 0] version_find [OF v, of 22 0] version_find [OF v, of 22 3]
    by (auto simp: btree_demo_ctx_def btree_demo_full_def)
qed

text \<open>
  C7. What \<^verbatim>\<open>copy_leaf\<close> loses. Overwriting the value of a key that is in a leaf yields a leaf with
  the same keys in which every value but the new one is what the fresh block happened to hold,
  since \<^verbatim>\<open>memcpy(t_new, t, 128)\<close> stops before the values.
\<close>

theorem btree_cow_overwrite_loses_values:
  assumes "cells m t = Some n" "leaf_node n kvs" "ordered kvs" "i < length kvs"
    "blocks m = (a, junk) # bs" "a \<noteq> t" "bnode_ok junk"
  shows "\<exists>m' n'. btree_update_leaf_cow ver (fst (kvs ! i)) v t m = Some ((fst (kvs ! i), a, nullptr), m') \<and>
    cells m' a = Some n' \<and> leaf_node n' (zip (map fst kvs) ((take (length kvs) (bt_slots junk))[i := v]))"
proof -
  let ?k = "fst (kvs ! i)" and ?j = "findval_idx (map fst kvs) (fst (kvs ! i))"
  have n: "bnode_ok n" "bt_type n = BT_LEAF" "bt_size n = length kvs" "length kvs \<le> 15"
    "take (length kvs) (bt_keys n) = map fst kvs" "length (bt_keys n) = 15"
    using assms(2) by (simp_all add: leaf_node_def bnode_ok_def)
  have j: "?j < length kvs" "fst (kvs ! ?j) = ?k"
    using findval_idx_split(3) [OF assms(3) refl, of ?k] assms(4) by auto
  have "?j = i"
    using j assms(3,4) by (metis length_map nth_eq_iff_index_eq nth_map strict_sorted_iff)
  then have search: "btree_findval n ?k = Some i" "btree_key_at n i ?k = Some True"
    using findval_ok [OF assms(2), of ?k] key_at_ok [OF assms(2), of i ?k] assms(4) by simp_all
  show ?thesis
    using j assms n by (simp add: search btree_update_leaf_cow_def mem_get_def btree_copy_leaf_def mem_alloc_def
        mem_upd_def arr_set_def bnode_ok_def leaf_node_def take_update_swap)
qed

theorem btree_cow_overwrite_loses_values_witness:
  "\<exists>m' n'. btree_update_leaf_cow 1 5 51 1 (btree_demo 1 [(5, 50), (7, 70)]) = Some ((5, 2, nullptr), m') \<and>
    cells m' 2 = Some n' \<and> leaf_node n' [(5, 51), (7, 0)]"
proof -
  let ?m = "btree_demo 1 [(5, 50), (7, 70)]"
  have "cells ?m 1 = Some (btree_demo_leaf [(5, 50), (7, 70)])" by (simp add: btree_demo_def)
  moreover have "blocks ?m = (2, btree_demo_leaf []) # []" by (simp add: btree_demo_def demo_blocks_def)
  moreover have "(take (Suc (Suc 0)) (bt_slots (btree_demo_leaf [])))[0 := 51] = [51, 0]"
    by (simp add: btree_demo_leaf_def eval_nat_numeral)
  ultimately show ?thesis
    using btree_cow_overwrite_loses_values [of ?m 1 _ "[(5, 50), (7, 70)]" 0 2 "btree_demo_leaf []" "[]" 1 51,
        OF _ demo_leaf_node _ _ _ _ demo_leaf_ok] by simp
qed

text \<open>
  C8. The fall-through of \<^verbatim>\<open>handle_init\<close>. When the root is a leaf with room, control goes on into the code
  for internal nodes: the leaf that has just been made is dropped, a copy of the old one as an internal
  node becomes the root, and the word of the leaf where a child for the key would be is followed.
  That word is the value of the next higher key, or what lies behind the last value. Unless it happens
  to be the address of a node the access faults, whatever the memory still to be had; in a leaf \<^verbatim>\<open>build\<close>
  makes of no entries it is null.
\<close>

theorem btree_cow_small_root_faults:
  assumes "cells m a = Some n" "leaf_node n kvs" "length kvs < 15" "mem_ok bnode_ok 3 m" "cx_t_past x = a"
    "bt_slots n ! findch_idx (map fst kvs) (cx_key x) = w" "w \<notin> mem_room m"
  shows "(\<exists>z m' n' i. btree_handle_init x m = btree_update_cow (x\<lparr>cx_root := z, cx_t_cur := z\<rparr>) m' \<and> mem_get m' z = Some n' \<and>
      btree_findch n' (cx_key x) = Some i \<and> arr_get (bt_slots n') i = Some w \<and> mem_get m' w = None) \<and>
    conctrl_exec btree_handlers fuel x m = None"
  by (rule cow_exec_leaf_root_faults [OF assms, of fuel]) blast

lemma btree_demo_room: "mem_room (btree_demo 3 kvs) = {1, 2, 3, 4}"
  by (auto simp: mem_room_def btree_demo_def demo_blocks_def upt_rec)

theorem btree_cow_small_root_faults_witness:
  "conctrl_exec btree_handlers 22 (btree_demo_ctx 3 4) (btree_demo 3 [(5, 500)]) = None \<and>
   conctrl_exec btree_handlers 22 (btree_demo_ctx 3 4) (btree_demo 3 []) = None"
proof -
  have ok: "mem_ok bnode_ok 3 (btree_demo 3 kvs)" for kvs by (rule btree_demo_ok) simp_all
  have leaf: "cells (btree_demo 3 kvs) 1 = Some (btree_demo_leaf kvs)" "cx_t_past (btree_demo_ctx 3 4) = 1" for kvs
    by (simp_all add: btree_demo_def btree_demo_ctx_def)
  note faults = btree_cow_small_root_faults [OF leaf(1) demo_leaf_node _ ok leaf(2), unfolded btree_demo_room, THEN conjunct2]
  have "conctrl_exec btree_handlers 22 (btree_demo_ctx 3 4) (btree_demo 3 [(5, 500)]) = None"
    by (rule faults [of _ 500]) (simp_all add: btree_demo_ctx_def btree_demo_leaf_def findch_idx_def)
  moreover have "conctrl_exec btree_handlers 22 (btree_demo_ctx 3 4) (btree_demo 3 []) = None"
    by (rule faults [of _ nullptr]) (simp_all add: btree_demo_ctx_def btree_demo_leaf_def findch_idx_def)
  ultimately show ?thesis by blast
qed

end
