(* ===== verification/Seqcow.thy ===== *)
theory Seqcow
  imports Conctrl_Context
begin

text \<open>
  \<^verbatim>\<open>lib/conctrl/seqcow.hpp\<close>: clients claim a task number, write their request into the
  context of that number in a ring of \<^verbatim>\<open>BUFFER_SIZE\<close> contexts, and one worker thread executes
  the tasks in order and publishes the root of the last one. The threads are a step relation:
  every atomic operation, and every store of a client into its context, is a step of its own, but
  for the worker, which loads the flag and the counter of tasks in one step and executes a whole task in one.
  Loads and stores are sequentially consistent here.

  The contract between scheduler and tree library is the locale \<open>cow_index\<close>.
\<close>

section \<open>State\<close>

definition conctrl_BUFFER_SIZE :: nat where
  "conctrl_BUFFER_SIZE = 65536"

text \<open>
  A client is between calls of \<^verbatim>\<open>update\<close>, or has a task number and spins for a place, or has
  done \<^term>\<open>i\<close> of the five stores of its request.
\<close>

datatype sq_client = SQ_Idle | SQ_Waiting nat key val | SQ_Writing nat nat key val

datatype sq_pc = SQ_Poll | SQ_Exec | SQ_Publish | SQ_Commit | SQ_Done

text \<open>
  The members of the class, the locals of \<^verbatim>\<open>worker_main_\<close>, and, in \<^term>\<open>sq_hist\<close>, the requests
  in the order of their task numbers, which no step reads.
\<close>

record ('c, 'm) seqcow =
  sq_ctxs :: "nat \<Rightarrow> 'c"
  sq_mem :: 'm
  sq_root :: addr
  sq_submitted :: nat
  sq_committed :: nat
  sq_stop :: bool
  sq_pc :: sq_pc
  sq_local_stop :: bool
  sq_local_submitted :: nat
  sq_local_committed :: nat
  sq_next :: nat
  sq_clients :: "nat \<Rightarrow> sq_client"
  sq_hist :: "(key \<times> val) list"

section \<open>The worker's task\<close>

definition seqcow_exec_task ::
  "('x ctx_scheme, 'm) handlers \<Rightarrow> nat \<Rightarrow> nat \<Rightarrow> ('x ctx_scheme, 'm) seqcow \<Rightarrow> ('x ctx_scheme, 'm) seqcow option" where
  "seqcow_exec_task H fuel tid s =
     do { let c = (sq_ctxs s (tid mod conctrl_BUFFER_SIZE))
                \<lparr>cx_t_past := cx_root (sq_ctxs s ((tid - 1) mod conctrl_BUFFER_SIZE))\<rparr>;
          (c, m) \<leftarrow> conctrl_exec H fuel c (sq_mem s);
          Some (s\<lparr>sq_ctxs := (sq_ctxs s)(tid mod conctrl_BUFFER_SIZE := c), sq_mem := m\<rparr>) }"

section \<open>The client's stores\<close>

fun seqcow_store :: "nat \<Rightarrow> nat \<Rightarrow> key \<Rightarrow> val \<Rightarrow> 'x ctx_scheme \<Rightarrow> 'x ctx_scheme" where
  "seqcow_store i tid k v c =
     (if i = 0 then c\<lparr>cx_op := conctrl_INIT\<rparr>
      else if i = 1 then c\<lparr>cx_retry := False, cx_wait_child := False, cx_wait_subtree := False, cx_new_checkpoint := False\<rparr>
      else if i = 2 then c\<lparr>cx_sno := of_nat tid\<rparr>
      else if i = 3 then c\<lparr>cx_key := k\<rparr>
      else c\<lparr>cx_val := v\<rparr>)"

text \<open>What of a request is in its context after \<^term>\<open>i\<close> stores.\<close>

definition sq_stored :: "nat \<Rightarrow> nat \<Rightarrow> key \<Rightarrow> val \<Rightarrow> 'x ctx_scheme \<Rightarrow> bool" where
  "sq_stored i tid k v c \<longleftrightarrow> (0 < i \<longrightarrow> cx_op c = conctrl_INIT) \<and> (2 < i \<longrightarrow> cx_sno c = of_nat tid) \<and>
     (3 < i \<longrightarrow> cx_key c = k) \<and> (4 < i \<longrightarrow> cx_val c = v)"

lemma sq_stored_store: "i < 5 \<Longrightarrow> sq_stored i tid k v c \<Longrightarrow> sq_stored (Suc i) tid k v (seqcow_store i tid k v c)"
  by (auto simp: sq_stored_def)

lemma sq_stored_store_again: "i \<le> 5 \<Longrightarrow> j < 5 \<Longrightarrow> sq_stored i tid k v c \<Longrightarrow> sq_stored i tid k v (seqcow_store j tid k v c)"
  by (auto simp: sq_stored_def)

lemma seqcow_store_root: "cx_root (seqcow_store i tid k v c) = cx_root c"
  by simp

declare seqcow_store.simps [simp del]

section \<open>The steps\<close>

text \<open>\<^verbatim>\<open>update\<close>, called by any client at any time.\<close>

inductive seqcow_client_step ::
  "('x ctx_scheme, 'm) seqcow \<Rightarrow> ('x ctx_scheme, 'm) seqcow \<Rightarrow> bool" where
  submit: "sq_clients s i = SQ_Idle \<Longrightarrow>
    seqcow_client_step s (s\<lparr>sq_submitted := Suc (sq_submitted s), sq_hist := sq_hist s @ [(k, v)],
      sq_clients := (sq_clients s)(i := SQ_Waiting (Suc (sq_submitted s)) k v)\<rparr>)"
| place: "sq_clients s i = SQ_Waiting tid k v \<Longrightarrow> tid < sq_committed s + conctrl_BUFFER_SIZE \<Longrightarrow>
    seqcow_client_step s (s\<lparr>sq_clients := (sq_clients s)(i := SQ_Writing 0 tid k v)\<rparr>)"
| store: "sq_clients s i = SQ_Writing j tid k v \<Longrightarrow> j < 5 \<Longrightarrow> p = tid mod conctrl_BUFFER_SIZE \<Longrightarrow>
    seqcow_client_step s (s\<lparr>sq_ctxs := (sq_ctxs s)(p := seqcow_store j tid k v (sq_ctxs s p)),
      sq_clients := (sq_clients s)(i := SQ_Writing (Suc j) tid k v)\<rparr>)"
| return: "sq_clients s i = SQ_Writing 5 tid k v \<Longrightarrow>
    seqcow_client_step s (s\<lparr>sq_clients := (sq_clients s)(i := SQ_Idle)\<rparr>)"

text \<open>\<^verbatim>\<open>worker_main_\<close>.\<close>

inductive seqcow_worker_step ::
  "('x ctx_scheme, 'm) handlers \<Rightarrow> nat \<Rightarrow> ('x ctx_scheme, 'm) seqcow \<Rightarrow> ('x ctx_scheme, 'm) seqcow \<Rightarrow> bool"
  for H fuel where
  poll: "sq_pc s = SQ_Poll \<Longrightarrow> \<not> sq_local_stop s \<or> sq_local_committed s < sq_local_submitted s \<Longrightarrow>
    seqcow_worker_step H fuel s (s\<lparr>sq_local_stop := sq_stop s, sq_local_submitted := sq_submitted s,
      sq_next := sq_local_committed s, sq_pc := SQ_Exec\<rparr>)"
| finish: "sq_pc s = SQ_Poll \<Longrightarrow> sq_local_stop s \<Longrightarrow> \<not> sq_local_committed s < sq_local_submitted s \<Longrightarrow>
    seqcow_worker_step H fuel s (s\<lparr>sq_pc := SQ_Done\<rparr>)"
| exec: "sq_pc s = SQ_Exec \<Longrightarrow> sq_next s < sq_local_submitted s \<Longrightarrow>
    seqcow_exec_task H fuel (Suc (sq_next s)) s = Some s' \<Longrightarrow>
    seqcow_worker_step H fuel s (s'\<lparr>sq_next := Suc (sq_next s),
      sq_pc := if Suc (sq_next s) > sq_local_committed s + conctrl_BUFFER_SIZE div 2 then SQ_Publish else SQ_Exec\<rparr>)"
| caught_up: "sq_pc s = SQ_Exec \<Longrightarrow> \<not> sq_next s < sq_local_submitted s \<Longrightarrow>
    seqcow_worker_step H fuel s (s\<lparr>sq_pc := SQ_Publish\<rparr>)"
| publish: "sq_pc s = SQ_Publish \<Longrightarrow> sq_next s > sq_local_committed s \<Longrightarrow>
    seqcow_worker_step H fuel s (s\<lparr>sq_local_committed := sq_next s,
      sq_root := cx_root (sq_ctxs s (sq_next s mod conctrl_BUFFER_SIZE)), sq_pc := SQ_Commit\<rparr>)"
| nothing_new: "sq_pc s = SQ_Publish \<Longrightarrow> \<not> sq_next s > sq_local_committed s \<Longrightarrow>
    seqcow_worker_step H fuel s (s\<lparr>sq_pc := SQ_Poll\<rparr>)"
| commit: "sq_pc s = SQ_Commit \<Longrightarrow>
    seqcow_worker_step H fuel s (s\<lparr>sq_committed := sq_local_committed s, sq_pc := SQ_Poll\<rparr>)"

text \<open>The two interleave; the destructor raises the stop flag.\<close>

inductive seqcow_step ::
  "('x ctx_scheme, 'm) handlers \<Rightarrow> nat \<Rightarrow> ('x ctx_scheme, 'm) seqcow \<Rightarrow> ('x ctx_scheme, 'm) seqcow \<Rightarrow> bool"
  for H fuel where
  client: "seqcow_client_step s s' \<Longrightarrow> seqcow_step H fuel s s'"
| worker: "seqcow_worker_step H fuel s s' \<Longrightarrow> seqcow_step H fuel s s'"
| stop: "seqcow_step H fuel s (s\<lparr>sq_stop := True\<rparr>)"

lemmas seqcow_step_submit = seqcow_step.client [OF seqcow_client_step.submit]
lemmas seqcow_step_place = seqcow_step.client [OF seqcow_client_step.place]
lemmas seqcow_step_store = seqcow_step.client [OF seqcow_client_step.store]
lemmas seqcow_step_return = seqcow_step.client [OF seqcow_client_step.return]
lemmas seqcow_step_poll = seqcow_step.worker [OF seqcow_worker_step.poll]
lemmas seqcow_step_finish = seqcow_step.worker [OF seqcow_worker_step.finish]
lemmas seqcow_step_exec = seqcow_step.worker [OF seqcow_worker_step.exec]
lemmas seqcow_step_caught_up = seqcow_step.worker [OF seqcow_worker_step.caught_up]
lemmas seqcow_step_publish = seqcow_step.worker [OF seqcow_worker_step.publish]
lemmas seqcow_step_nothing_new = seqcow_step.worker [OF seqcow_worker_step.nothing_new]
lemmas seqcow_step_commit = seqcow_step.worker [OF seqcow_worker_step.commit]

text \<open>The constructor: contexts zeroed, their stage \<^verbatim>\<open>DONE\<close>, the first one holding the initial root.\<close>

definition seqcow_init :: "'x ctx_scheme \<Rightarrow> addr \<Rightarrow> 'm \<Rightarrow> ('x ctx_scheme, 'm) seqcow" where
  "seqcow_init zero t_init m =
     \<lparr>sq_ctxs = (\<lambda>_. zero\<lparr>cx_op := conctrl_DONE\<rparr>)(0 := zero\<lparr>cx_op := conctrl_DONE, cx_sno := 0, cx_root := t_init\<rparr>),
      sq_mem = m, sq_root = t_init, sq_submitted = 0, sq_committed = 0, sq_stop = False, sq_pc = SQ_Poll,
      sq_local_stop = False, sq_local_submitted = 0, sq_local_committed = 0, sq_next = 0,
      sq_clients = (\<lambda>_. SQ_Idle), sq_hist = []\<rparr>"

text \<open>\<^verbatim>\<open>query\<close>: a function of the published root; \<^verbatim>\<open>wait_for_processing(n)\<close> returns when this holds.\<close>

definition seqcow_query :: "(addr \<Rightarrow> 'm \<Rightarrow> 'r) \<Rightarrow> ('c, 'm) seqcow \<Rightarrow> 'r" where
  "seqcow_query f s = f (sq_root s) (sq_mem s)"

definition seqcow_processed :: "nat \<Rightarrow> ('c, 'm) seqcow \<Rightarrow> bool" where
  "seqcow_processed n s \<longleftrightarrow> \<not> sq_committed s < n"

inductive seqcow_reach ::
  "('x ctx_scheme, 'm) handlers \<Rightarrow> nat \<Rightarrow> ('x ctx_scheme, 'm) seqcow \<Rightarrow> ('x ctx_scheme, 'm) seqcow \<Rightarrow> bool"
  for H fuel s0 where
  start: "seqcow_reach H fuel s0 s0"
| step: "seqcow_reach H fuel s0 s \<Longrightarrow> seqcow_step H fuel s s' \<Longrightarrow> seqcow_reach H fuel s0 s'"

section \<open>The runs in which no task starts before its request is written\<close>

text \<open>The client that has claimed a task number and not yet returned.\<close>

fun sq_holds :: "sq_client \<Rightarrow> nat \<Rightarrow> bool" where
  "sq_holds SQ_Idle t = False"
| "sq_holds (SQ_Waiting tid k v) t = (t = tid)"
| "sq_holds (SQ_Writing i tid k v) t = (t = tid)"

definition seqcow_orderly_step ::
  "('x ctx_scheme, 'm) handlers \<Rightarrow> nat \<Rightarrow> ('x ctx_scheme, 'm) seqcow \<Rightarrow> ('x ctx_scheme, 'm) seqcow \<Rightarrow> bool" where
  "seqcow_orderly_step H fuel s s' \<longleftrightarrow> seqcow_step H fuel s s' \<and>
     (sq_next s' = Suc (sq_next s) \<longrightarrow> (\<forall>i. \<not> sq_holds (sq_clients s i) (Suc (sq_next s))))"

inductive seqcow_orderly ::
  "('x ctx_scheme, 'm) handlers \<Rightarrow> nat \<Rightarrow> ('x ctx_scheme, 'm) seqcow \<Rightarrow> ('x ctx_scheme, 'm) seqcow \<Rightarrow> bool"
  for H fuel s0 where
  start: "seqcow_orderly H fuel s0 s0"
| step: "seqcow_orderly H fuel s0 s \<Longrightarrow> seqcow_orderly_step H fuel s s' \<Longrightarrow> seqcow_orderly H fuel s0 s'"

lemma seqcow_orderly_reach: "seqcow_orderly H fuel s0 s \<Longrightarrow> seqcow_reach H fuel s0 s"
  by (induction rule: seqcow_orderly.induct) (auto intro: seqcow_reach.intros simp: seqcow_orderly_step_def)

end
