(* ===== verification/Seqcow_Correct.thy ===== *)
theory Seqcow_Correct
  imports Seqcow
begin

text \<open>
  What the scheduler of \<^verbatim>\<open>seqcow.hpp\<close> guarantees about any tree library that keeps the contract
  \<open>cow_index\<close>: a copy-on-write update yields a new version and leaves all others alone.
\<close>

section \<open>The contract\<close>

text \<open>The contents after a list of requests, each applied to the result of the one before.\<close>

fun upds :: "(key \<Rightarrow> val \<Rightarrow> 'a \<Rightarrow> 'a \<Rightarrow> bool) \<Rightarrow> (key \<times> val) list \<Rightarrow> 'a \<Rightarrow> 'a \<Rightarrow> bool" where
  "upds upd [] a b \<longleftrightarrow> a = b"
| "upds upd (r # rs) a b \<longleftrightarrow> (\<exists>c. upd (fst r) (snd r) a c \<and> upds upd rs c b)"

lemma upds_snoc: "upds upd (rs @ [r]) a c \<longleftrightarrow> (\<exists>b. upds upd rs a b \<and> upd (fst r) (snd r) b c)"
  by (induction rs arbitrary: a) auto

text \<open>
  \<^term>\<open>ver m r a\<close>: in memory \<^term>\<open>m\<close> the root \<^term>\<open>r\<close> is a version with contents \<^term>\<open>a\<close>;
  \<^term>\<open>room n m\<close>: there is memory for \<^term>\<open>n\<close> updates.
\<close>

locale cow_index =
  fixes H :: "('x ctx_scheme, 'm) handlers"
    and fuel :: nat
    and ver :: "'m \<Rightarrow> addr \<Rightarrow> 'a \<Rightarrow> bool"
    and upd :: "key \<Rightarrow> val \<Rightarrow> 'a \<Rightarrow> 'a \<Rightarrow> bool"
    and room :: "nat \<Rightarrow> 'm \<Rightarrow> bool"
  assumes exec_ok: "ver m (cx_t_past c) a \<Longrightarrow> room (Suc n) m \<Longrightarrow>
    \<exists>c' m' a'. conctrl_exec H fuel c m = Some (c', m') \<and> ver m' (cx_root c') a' \<and>
      upd (cx_key c) (cx_val c) a a' \<and> room n m' \<and> (\<forall>r b. ver m r b \<longrightarrow> ver m' r b)"

section \<open>The invariant of the orderly runs\<close>

definition sq_counters :: "('c, 'm) seqcow \<Rightarrow> bool" where
  "sq_counters s \<longleftrightarrow> sq_committed s \<le> sq_local_committed s \<and> sq_local_committed s \<le> sq_next s \<and>
     sq_next s \<le> sq_submitted s \<and> sq_local_submitted s \<le> sq_submitted s \<and> length (sq_hist s) = sq_submitted s \<and>
     (sq_pc s \<in> {SQ_Poll, SQ_Commit, SQ_Done} \<longrightarrow> sq_next s = sq_local_committed s) \<and>
     (sq_pc s \<noteq> SQ_Commit \<longrightarrow> sq_committed s = sq_local_committed s) \<and> (sq_local_stop s \<longrightarrow> sq_stop s)"

fun sq_client_ok :: "('x ctx_scheme, 'm) seqcow \<Rightarrow> sq_client \<Rightarrow> bool" where
  "sq_client_ok s SQ_Idle = True"
| "sq_client_ok s (SQ_Waiting t k v) =
     (sq_next s < t \<and> t \<le> sq_submitted s \<and> sq_hist s ! (t - 1) = (k, v))"
| "sq_client_ok s (SQ_Writing j t k v) =
     (sq_next s < t \<and> t \<le> sq_submitted s \<and> sq_hist s ! (t - 1) = (k, v) \<and> j \<le> 5 \<and>
      t < sq_committed s + conctrl_BUFFER_SIZE \<and> sq_stored j t k v (sq_ctxs s (t mod conctrl_BUFFER_SIZE)))"

definition sq_ready :: "('x ctx_scheme, 'm) seqcow \<Rightarrow> nat \<Rightarrow> bool" where
  "sq_ready s t \<longleftrightarrow> t < sq_committed s + conctrl_BUFFER_SIZE \<and>
     sq_stored 5 t (fst (sq_hist s ! (t - 1))) (snd (sq_hist s ! (t - 1))) (sq_ctxs s (t mod conctrl_BUFFER_SIZE))"

definition sq_clients_ok :: "('x ctx_scheme, 'm) seqcow \<Rightarrow> bool" where
  "sq_clients_ok s \<longleftrightarrow> (\<forall>i. sq_client_ok s (sq_clients s i)) \<and>
     (\<forall>t. sq_next s < t \<and> t \<le> sq_submitted s \<and> (\<forall>i. \<not> sq_holds (sq_clients s i) t) \<longrightarrow> sq_ready s t)"

lemma sq_client_ok_holds: "sq_client_ok s cl \<Longrightarrow> sq_holds cl t \<Longrightarrow> sq_next s < t \<and> t \<le> sq_submitted s"
  by (cases cl) auto

lemma same_slot:
  fixes t u :: nat
  assumes "t mod B = u mod B" "c < t" "t < c + B" "c < u" "u < c + B"
  shows "t = u"
proof -
  have *: "x = y" if "x mod B = y mod B" "c < x" "y < c + B" "x \<le> y" for x y :: nat
  proof -
    from that(1,4) have "B dvd y - x" using mod_eq_dvd_iff_nat [of x y B] by simp
    moreover have "y - x < B" using that by linarith
    ultimately have "y - x = 0" using dvd_imp_le by fastforce
    with that show ?thesis by linarith
  qed
  show ?thesis using * [of t u] * [of u t] assms by (cases "t \<le> u") auto
qed

context cow_index
begin

definition sq_tree :: "nat \<Rightarrow> 'a \<Rightarrow> ('x ctx_scheme, 'm) seqcow \<Rightarrow> bool" where
  "sq_tree N a0 s \<longleftrightarrow>
     (\<exists>a. upds upd (take (sq_next s) (sq_hist s)) a0 a \<and>
       ver (sq_mem s) (cx_root (sq_ctxs s (sq_next s mod conctrl_BUFFER_SIZE))) a) \<and>
     (\<exists>a. upds upd (take (sq_local_committed s) (sq_hist s)) a0 a \<and> ver (sq_mem s) (sq_root s) a) \<and>
     room (N - sq_next s) (sq_mem s)"

definition sq_inv :: "nat \<Rightarrow> 'a \<Rightarrow> ('x ctx_scheme, 'm) seqcow \<Rightarrow> bool" where
  "sq_inv N a0 s \<longleftrightarrow> sq_counters s \<and> sq_clients_ok s \<and> sq_tree N a0 s"

lemma init_inv: "ver m t a0 \<Longrightarrow> room N m \<Longrightarrow> sq_inv N a0 (seqcow_init zero t m)"
  by (simp add: sq_inv_def sq_counters_def sq_clients_ok_def sq_tree_def seqcow_init_def)

lemma exec_task_ok:
  assumes "sq_inv N a0 s" "sq_next s < sq_submitted s" "sq_submitted s \<le> N"
    "\<forall>i. \<not> sq_holds (sq_clients s i) (Suc (sq_next s))"
  obtains c m a where
    "seqcow_exec_task H fuel (Suc (sq_next s)) s =
       Some (s\<lparr>sq_ctxs := (sq_ctxs s)(Suc (sq_next s) mod conctrl_BUFFER_SIZE := c), sq_mem := m\<rparr>)"
    "upds upd (take (Suc (sq_next s)) (sq_hist s)) a0 a" "ver m (cx_root c) a"
    "\<forall>r b. ver (sq_mem s) r b \<longrightarrow> ver m r b" "room (N - Suc (sq_next s)) m"
proof -
  let ?n = "sq_next s"
  let ?x = "sq_ctxs s (Suc ?n mod conctrl_BUFFER_SIZE)\<lparr>cx_t_past := cx_root (sq_ctxs s (?n mod conctrl_BUFFER_SIZE))\<rparr>"
  from assms(1) have inv: "sq_counters s" "sq_clients_ok s" "sq_tree N a0 s" by (simp_all add: sq_inv_def)
  from inv(2) assms(2,4) have "sq_ready s (Suc ?n)" by (simp add: sq_clients_ok_def)
  then have req: "cx_key ?x = fst (sq_hist s ! ?n)" "cx_val ?x = snd (sq_hist s ! ?n)"
    by (simp_all add: sq_ready_def sq_stored_def)
  from inv(3) obtain a where a: "upds upd (take ?n (sq_hist s)) a0 a" "ver (sq_mem s) (cx_t_past ?x) a"
    and "room (N - ?n) (sq_mem s)" by (auto simp: sq_tree_def)
  moreover have n: "N - ?n = Suc (N - Suc ?n)" using assms(2,3) by simp
  ultimately obtain c m a' where r: "conctrl_exec H fuel ?x (sq_mem s) = Some (c, m)" "ver m (cx_root c) a'"
    "upd (cx_key ?x) (cx_val ?x) a a'" "room (N - Suc ?n) m" "\<forall>r b. ver (sq_mem s) r b \<longrightarrow> ver m r b"
    using exec_ok [of "sq_mem s" ?x a "N - Suc ?n"] by auto
  have "?n < length (sq_hist s)" using inv(1) assms(2) by (simp add: sq_counters_def)
  then have "take (Suc ?n) (sq_hist s) = take ?n (sq_hist s) @ [sq_hist s ! ?n]" by (rule take_Suc_conv_app_nth)
  with a(1) r(3) have u: "upds upd (take (Suc ?n) (sq_hist s)) a0 a'" unfolding req by (auto simp: upds_snoc)
  show thesis
    by (rule that [OF _ u r(2,5,4)]) (use r(1) in \<open>simp add: seqcow_exec_task_def\<close>)
qed


end

section \<open>Runs with a single request\<close>

lemma orderly_trans:
  assumes "seqcow_orderly H fuel s1 s2" "seqcow_orderly H fuel s0 s1"
  shows "seqcow_orderly H fuel s0 s2"
  using assms by (induction rule: seqcow_orderly.induct) (auto intro: seqcow_orderly.step)

lemma reach_trans:
  assumes "seqcow_reach H fuel s1 s2" "seqcow_reach H fuel s0 s1"
  shows "seqcow_reach H fuel s0 s2"
  using assms by (induction rule: seqcow_reach.induct) (auto intro: seqcow_reach.step)

text \<open>The states of a run in which client 0 alone has called \<^verbatim>\<open>update\<close>, once.\<close>

definition sq_one ::
  "key \<Rightarrow> val \<Rightarrow> sq_client \<Rightarrow> (nat \<Rightarrow> 'c) \<Rightarrow> 'm \<Rightarrow> addr \<Rightarrow> nat \<Rightarrow> sq_pc \<Rightarrow> nat \<Rightarrow> nat \<Rightarrow> nat \<Rightarrow> ('c, 'm) seqcow" where
  "sq_one k v cl ctxs m r cm pc ls lc n = \<lparr>sq_ctxs = ctxs, sq_mem = m, sq_root = r, sq_submitted = 1,
     sq_committed = cm, sq_stop = False, sq_pc = pc, sq_local_stop = False, sq_local_submitted = ls,
     sq_local_committed = lc, sq_next = n, sq_clients = (\<lambda>_. SQ_Idle)(0 := cl), sq_hist = [(k, v)]\<rparr>"

lemma one_submit:
  "seqcow_orderly H fuel (seqcow_init zero t m)
    (sq_one k v (SQ_Waiting 1 k v) (sq_ctxs (seqcow_init zero t m)) m t 0 SQ_Poll 0 0 0)" (is "seqcow_orderly H fuel ?s ?s'")
proof -
  have "seqcow_step H fuel ?s ?s'"
    using seqcow_step_submit [of ?s 0 H fuel k v] by (simp add: sq_one_def seqcow_init_def)
  then have "seqcow_orderly_step H fuel ?s ?s'" by (simp add: seqcow_orderly_step_def sq_one_def seqcow_init_def)
  then show ?thesis by (rule seqcow_orderly.step [OF seqcow_orderly.start])
qed

lemma one_store:
  assumes "j \<le> 5"
  shows "\<exists>xs. seqcow_orderly H fuel (sq_one k v (SQ_Waiting 1 k v) ctxs m r cm pc ls lc n)
    (sq_one k v (SQ_Writing j 1 k v) xs m r cm pc ls lc n)" (is "\<exists>xs. seqcow_orderly H fuel ?s _")
  using assms
proof (induction j)
  let ?P = "\<lambda>j xs. sq_one k v (SQ_Writing j 1 k v) xs m r cm pc ls lc n"
  case 0
  have "seqcow_step H fuel ?s (?P 0 ctxs)"
    using seqcow_step_place [of ?s 0 1 k v] by (simp add: sq_one_def conctrl_BUFFER_SIZE_def)
  then have "seqcow_orderly_step H fuel ?s (?P 0 ctxs)" by (simp add: seqcow_orderly_step_def sq_one_def)
  then show ?case by (blast intro: seqcow_orderly.intros)
next
  let ?P = "\<lambda>j xs. sq_one k v (SQ_Writing j 1 k v) xs m r cm pc ls lc n"
  case (Suc j)
  then obtain xs where o: "seqcow_orderly H fuel ?s (?P j xs)" by auto
  let ?ys = "xs(1 := seqcow_store j 1 k v (xs 1))"
  have B: "Suc 0 mod conctrl_BUFFER_SIZE = Suc 0" "conctrl_BUFFER_SIZE \<noteq> Suc 0" by (simp_all add: conctrl_BUFFER_SIZE_def)
  have "seqcow_step H fuel (?P j xs) (?P (Suc j) ?ys)"
    using seqcow_step_store [of "?P j xs" 0 j 1 k v 1 H fuel] Suc.prems by (simp add: sq_one_def B)
  then have "seqcow_orderly_step H fuel (?P j xs) (?P (Suc j) ?ys)" by (simp add: seqcow_orderly_step_def sq_one_def)
  with o show ?case by (blast intro: seqcow_orderly.step)
qed

lemma one_client:
  "\<exists>xs. seqcow_orderly H fuel (sq_one k v (SQ_Waiting 1 k v) ctxs m r cm pc ls lc n) (sq_one k v SQ_Idle xs m r cm pc ls lc n)"
proof -
  obtain xs where o: "seqcow_orderly H fuel (sq_one k v (SQ_Waiting 1 k v) ctxs m r cm pc ls lc n)
    (sq_one k v (SQ_Writing 5 1 k v) xs m r cm pc ls lc n)" (is "seqcow_orderly H fuel ?s ?s1")
    using one_store [of 5 H fuel k v ctxs m r cm pc ls lc n] by auto
  let ?s' = "sq_one k v SQ_Idle xs m r cm pc ls lc n"
  have "seqcow_step H fuel ?s1 ?s'"
    using seqcow_step_return [of ?s1 0 1 k v] by (simp add: sq_one_def)
  then have "seqcow_orderly_step H fuel ?s1 ?s'" by (simp add: seqcow_orderly_step_def sq_one_def)
  with o show ?thesis by (blast intro: seqcow_orderly.step)
qed

lemma one_request:
  "\<exists>xs. seqcow_orderly H fuel (seqcow_init zero t m) (sq_one k v SQ_Idle xs m t 0 SQ_Poll 0 0 0)"
proof -
  obtain xs where "seqcow_orderly H fuel (sq_one k v (SQ_Waiting 1 k v) (sq_ctxs (seqcow_init zero t m)) m t 0 SQ_Poll 0 0 0)
      (sq_one k v SQ_Idle xs m t 0 SQ_Poll 0 0 0)"
    using one_client [of H fuel k v "sq_ctxs (seqcow_init zero t m)" m t 0 SQ_Poll 0 0 0] by blast
  from orderly_trans [OF this one_submit] show ?thesis by blast
qed

section \<open>Every step keeps it\<close>

text \<open>A change that only concerns one client, which holds the same task as before.\<close>

lemma clients_ok_same_task:
  assumes "sq_clients_ok s" "\<And>t. sq_holds cl t = sq_holds (sq_clients s i) t"
    "sq_client_ok s cl"
  shows "sq_clients_ok (s\<lparr>sq_clients := (sq_clients s)(i := cl)\<rparr>)"
proof -
  let ?s = "s\<lparr>sq_clients := (sq_clients s)(i := cl)\<rparr>"
  have ok: "sq_client_ok ?s c = sq_client_ok s c" for c by (cases c) auto
  have "(\<forall>j. \<not> sq_holds (sq_clients ?s j) t) \<longleftrightarrow> (\<forall>j. \<not> sq_holds (sq_clients s j) t)" for t
    using assms(2) [of t] by (auto split: if_splits)
  with assms show ?thesis unfolding sq_clients_ok_def ok by (auto simp: sq_ready_def)
qed

lemma nobody_holds_upd:
  assumes "\<forall>j. \<not> sq_holds (sq_clients s' j) t" "sq_clients s' = (sq_clients s)(i := cl)"
  shows "\<not> sq_holds cl t" "\<not> sq_holds (sq_clients s i) t \<Longrightarrow> \<not> sq_holds (sq_clients s j) t"
proof -
  have c: "sq_clients s' i = cl" "j \<noteq> i \<Longrightarrow> sq_clients s' j = sq_clients s j" for j
    using assms(2) by simp_all
  show "\<not> sq_holds cl t" using assms(1) c(1) by metis
  show "\<not> sq_holds (sq_clients s i) t \<Longrightarrow> \<not> sq_holds (sq_clients s j) t" using assms(1) c(2) by metis
qed

lemma clients_ok_return:
  assumes "sq_clients_ok s" "sq_clients s i = SQ_Writing 5 tid k v"
  shows "sq_clients_ok (s\<lparr>sq_clients := (sq_clients s)(i := SQ_Idle)\<rparr>)"
proof -
  let ?s = "s\<lparr>sq_clients := (sq_clients s)(i := SQ_Idle)\<rparr>"
  have ok: "sq_client_ok ?s c = sq_client_ok s c" for c by (cases c) auto
  have "sq_client_ok s (SQ_Writing 5 tid k v)" using assms by (metis sq_clients_ok_def)
  then have "sq_ready s tid" by (simp add: sq_ready_def)
  moreover have "sq_ready s t" if "sq_next s < t" "t \<le> sq_submitted s" "t \<noteq> tid"
    "\<forall>j. \<not> sq_holds (sq_clients ?s j) t" for t
  proof -
    have "\<not> sq_holds (sq_clients s j) t" for j
      by (rule nobody_holds_upd(2) [OF that(4), of s i]) (use that(3) assms(2) in simp_all)
    with assms(1) that show ?thesis by (simp add: sq_clients_ok_def)
  qed
  ultimately have "sq_ready s t" if "sq_next s < t" "t \<le> sq_submitted s"
    "\<forall>j. \<not> sq_holds (sq_clients ?s j) t" for t using that by blast
  with assms show ?thesis unfolding sq_clients_ok_def ok by (auto simp: sq_ready_def)
qed

lemma clients_ok_submit:
  assumes "sq_clients_ok s" "sq_clients s i = SQ_Idle" "sq_counters s"
  shows "sq_clients_ok (s\<lparr>sq_submitted := Suc (sq_submitted s), sq_hist := sq_hist s @ [(k, v)],
    sq_clients := (sq_clients s)(i := SQ_Waiting (Suc (sq_submitted s)) k v)\<rparr>)" (is "sq_clients_ok ?s")
proof -
  have h: "length (sq_hist s) = sq_submitted s" "sq_next s \<le> sq_submitted s" using assms(3) by (simp_all add: sq_counters_def)
  have nth: "(sq_hist s @ [(k, v)]) ! (t - 1) = sq_hist s ! (t - 1)" if "sq_next s < t" "t \<le> sq_submitted s" for t
    using that h by (auto simp: nth_append)
  have "sq_client_ok ?s c" if "sq_client_ok s c" for c using that nth by (cases c) auto
  moreover have "sq_client_ok ?s (SQ_Waiting (Suc (sq_submitted s)) k v)" using h by (simp add: nth_append)
  moreover have "sq_ready ?s t" if "sq_next s < t" "t \<le> Suc (sq_submitted s)" "\<forall>j. \<not> sq_holds (sq_clients ?s j) t" for t
  proof -
    have "t \<noteq> Suc (sq_submitted s)"
      using nobody_holds_upd(1) [OF that(3), of s i "SQ_Waiting (Suc (sq_submitted s)) k v"] by auto
    with that(2) have t: "t \<le> sq_submitted s" by simp
    have "\<not> sq_holds (sq_clients s j) t" for j
      by (rule nobody_holds_upd(2) [OF that(3), of s i]) (use assms(2) in simp_all)
    with assms(1) that(1) t have "sq_ready s t" by (simp add: sq_clients_ok_def)
    with nth [OF that(1) t] show ?thesis by (simp add: sq_ready_def)
  qed
  ultimately show ?thesis using assms(1) by (auto simp: sq_clients_ok_def)
qed

lemma clients_ok_store:
  assumes "sq_clients_ok s" "sq_clients s i = SQ_Writing j tid k v" "j < 5" "sq_counters s"
    "p = tid mod conctrl_BUFFER_SIZE"
  shows "sq_clients_ok (s\<lparr>sq_ctxs := (sq_ctxs s)(p := seqcow_store j tid k v (sq_ctxs s p)),
    sq_clients := (sq_clients s)(i := SQ_Writing (Suc j) tid k v)\<rparr>)" (is "sq_clients_ok ?s")
proof -
  have c: "sq_committed s \<le> sq_next s" using assms(4) by (simp add: sq_counters_def)
  have w: "sq_client_ok s (SQ_Writing j tid k v)" using assms(1,2) by (metis sq_clients_ok_def)
  have same: "t = tid \<and> k' = k \<and> v' = v" if "sq_client_ok s (SQ_Writing j' t k' v')" "t mod conctrl_BUFFER_SIZE = p" for t j' k' v'
  proof -
    have "t = tid" by (rule same_slot [of t conctrl_BUFFER_SIZE tid "sq_committed s"]) (use that w c assms(5) in auto)
    with that w show ?thesis by simp
  qed
  have "sq_client_ok ?s c" if "sq_client_ok s c" for c
    using that same sq_stored_store_again assms(3) by (cases c) (auto simp del: sq_stored_store_again)
  moreover have "sq_client_ok ?s (SQ_Writing (Suc j) tid k v)"
    using w assms(3,5) sq_stored_store by auto
  moreover have "sq_ready ?s t" if "sq_next s < t" "t \<le> sq_submitted s" "\<forall>j. \<not> sq_holds (sq_clients ?s j) t" for t
  proof -
    have tid: "t \<noteq> tid" using nobody_holds_upd(1) [OF that(3), of s i "SQ_Writing (Suc j) tid k v"] by auto
    have "\<not> sq_holds (sq_clients s j) t" for j
      by (rule nobody_holds_upd(2) [OF that(3), of s i]) (use tid assms(2) in simp_all)
    with assms(1) that have r: "sq_ready s t" by (simp add: sq_clients_ok_def)
    from tid have "t mod conctrl_BUFFER_SIZE \<noteq> p"
      using same_slot [of t conctrl_BUFFER_SIZE tid "sq_committed s"] r w c that(1) assms(5) by (auto simp: sq_ready_def)
    with r show ?thesis by (simp add: sq_ready_def)
  qed
  ultimately show ?thesis using assms(1) by (auto simp: sq_clients_ok_def)
qed

lemma clients_ok_exec:
  assumes "sq_clients_ok s" "\<forall>i. \<not> sq_holds (sq_clients s i) (Suc (sq_next s))" "sq_counters s"
  shows "sq_clients_ok (s\<lparr>sq_ctxs := (sq_ctxs s)(Suc (sq_next s) mod conctrl_BUFFER_SIZE := c), sq_mem := m,
    sq_next := Suc (sq_next s), sq_pc := pc\<rparr>)" (is "sq_clients_ok ?s")
proof -
  let ?n = "Suc (sq_next s)"
  have c: "sq_committed s \<le> sq_next s" using assms(3) by (simp add: sq_counters_def)
  have slot: "t mod conctrl_BUFFER_SIZE \<noteq> ?n mod conctrl_BUFFER_SIZE" if "?n < t" "t < sq_committed s + conctrl_BUFFER_SIZE" for t
    using same_slot [of t conctrl_BUFFER_SIZE ?n "sq_committed s"] that c by auto
  have "sq_client_ok ?s cl" if "sq_client_ok s cl" "\<not> sq_holds cl ?n" for cl
    using that slot by (cases cl) auto
  moreover have "sq_ready ?s t" if "?n < t" "sq_ready s t" for t
    using that slot by (auto simp: sq_ready_def)
  ultimately show ?thesis using assms(1,2) by (auto simp: sq_clients_ok_def)
qed

lemma clients_ok_commit:
  assumes "sq_clients_ok s" "sq_committed s \<le> n"
  shows "sq_clients_ok (s\<lparr>sq_committed := n, sq_pc := pc\<rparr>)"
proof -
  have "sq_client_ok (s\<lparr>sq_committed := n, sq_pc := pc\<rparr>) cl" if "sq_client_ok s cl" for cl
    using that assms(2) by (cases cl) auto
  with assms show ?thesis by (auto simp: sq_clients_ok_def sq_ready_def)
qed

text \<open>What a step of the worker that touches neither clients nor contexts leaves.\<close>

lemma clients_ok_cong:
  assumes "sq_clients s' = sq_clients s" "sq_ctxs s' = sq_ctxs s" "sq_next s' = sq_next s"
    "sq_submitted s' = sq_submitted s" "sq_committed s' = sq_committed s" "sq_hist s' = sq_hist s"
  shows "sq_clients_ok s' = sq_clients_ok s"
proof -
  have "sq_client_ok s' cl = sq_client_ok s cl" for cl using assms by (cases cl) simp_all
  with assms show ?thesis by (simp add: sq_clients_ok_def sq_ready_def)
qed

context cow_index
begin

lemma tree_cong:
  assumes "sq_next s' = sq_next s" "sq_local_committed s' = sq_local_committed s" "sq_mem s' = sq_mem s"
    "sq_root s' = sq_root s" "\<And>p. cx_root (sq_ctxs s' p) = cx_root (sq_ctxs s p)"
    "\<And>n. n \<le> sq_next s \<Longrightarrow> take n (sq_hist s') = take n (sq_hist s)" "sq_local_committed s \<le> sq_next s"
  shows "sq_tree N a0 s' = sq_tree N a0 s"
  using assms by (simp add: sq_tree_def)

lemma exec_inv:
  assumes "sq_inv N a0 s" "sq_pc s = SQ_Exec" "sq_next s < sq_local_submitted s"
    "\<forall>i. \<not> sq_holds (sq_clients s i) (Suc (sq_next s))" "sq_submitted s \<le> N" "pc = SQ_Publish \<or> pc = SQ_Exec"
    "seqcow_exec_task H fuel (Suc (sq_next s)) s = Some s'"
  shows "sq_inv N a0 (s'\<lparr>sq_next := Suc (sq_next s), sq_pc := pc\<rparr>)"
proof -
  from assms(1) have inv: "sq_counters s" "sq_clients_ok s" "sq_tree N a0 s" by (simp_all add: sq_inv_def)
  then have n: "sq_next s < sq_submitted s" using assms(3) by (simp add: sq_counters_def)
  obtain c m a where t: "seqcow_exec_task H fuel (Suc (sq_next s)) s =
      Some (s\<lparr>sq_ctxs := (sq_ctxs s)(Suc (sq_next s) mod conctrl_BUFFER_SIZE := c), sq_mem := m\<rparr>)"
    "upds upd (take (Suc (sq_next s)) (sq_hist s)) a0 a" "ver m (cx_root c) a"
    "\<forall>r b. ver (sq_mem s) r b \<longrightarrow> ver m r b" "room (N - Suc (sq_next s)) m"
    by (rule exec_task_ok [OF assms(1) n assms(5,4)])
  from assms(7) t(1) have s': "s' = s\<lparr>sq_ctxs := (sq_ctxs s)(Suc (sq_next s) mod conctrl_BUFFER_SIZE := c), sq_mem := m\<rparr>"
    by simp
  show ?thesis
    using inv n t(2-) assms(2,3,6) clients_ok_exec [OF inv(2) assms(4) inv(1), where c = c and m = m and pc = pc]
    by (auto simp: s' sq_inv_def sq_counters_def sq_tree_def)
qed

lemma client_step_inv:
  assumes "sq_inv N a0 s" "seqcow_client_step s s'"
  shows "sq_inv N a0 s'"
proof -
  from assms(1) have c: "sq_counters s" and cl: "sq_clients_ok s" and t: "sq_tree N a0 s" by (simp_all add: sq_inv_def)
  then have len: "length (sq_hist s) = sq_submitted s" "sq_local_committed s \<le> sq_next s" "sq_next s \<le> sq_submitted s"
    by (simp_all add: sq_counters_def)
  from assms(2) show ?thesis
  proof cases
  case (submit i k v)
    have "sq_tree N a0 s' = sq_tree N a0 s" by (rule tree_cong) (use len in \<open>simp_all add: submit\<close>)
    with t clients_ok_submit [OF cl submit(2) c] c show ?thesis by (simp add: submit(1) sq_inv_def sq_counters_def)
  next
  case (place i tid k v)
    have w: "sq_client_ok s (SQ_Waiting tid k v)" using cl place(2) by (metis sq_clients_ok_def)
    have "sq_client_ok s (SQ_Writing 0 tid k v)" using w place(3) by (simp add: sq_stored_def)
    from clients_ok_same_task [OF cl _ this, of i] place(2) t c show ?thesis
      by (simp add: place(1) sq_inv_def sq_counters_def sq_tree_def)
  next
  case (store i j tid k v p)
    have "sq_tree N a0 s' = sq_tree N a0 s"
      by (rule tree_cong) (use len in \<open>simp_all add: store seqcow_store_root\<close>)
    with t clients_ok_store [OF cl store(2,3) c store(4)] c show ?thesis
      by (simp add: store(1) sq_inv_def sq_counters_def)
  next
  case (return i tid k v)
    from clients_ok_return [OF cl return(2)] t c show ?thesis
      by (simp add: return(1) sq_inv_def sq_counters_def sq_tree_def)
  qed
qed

lemma worker_step_inv:
  assumes "sq_inv N a0 s" "seqcow_worker_step H fuel s s'" "sq_submitted s' \<le> N"
    "sq_next s' = Suc (sq_next s) \<longrightarrow> (\<forall>i. \<not> sq_holds (sq_clients s i) (Suc (sq_next s)))"
  shows "sq_inv N a0 s'"
proof -
  from assms(1) have c: "sq_counters s" and cl: "sq_clients_ok s" and t: "sq_tree N a0 s" by (simp_all add: sq_inv_def)
  from assms(2) show ?thesis
  proof cases
  case poll
    have "sq_next s = sq_local_committed s" using c poll(2) by (simp add: sq_counters_def)
    then have "sq_clients_ok s' = sq_clients_ok s" by (intro clients_ok_cong) (simp_all add: poll)
    with t cl c poll(2) show ?thesis by (simp add: poll(1) sq_inv_def sq_counters_def sq_tree_def)
  next
  case finish
    have "sq_clients_ok s' = sq_clients_ok s" by (rule clients_ok_cong) (simp_all add: finish)
    with t cl c show ?thesis using finish(2) by (simp add: finish(1) sq_inv_def sq_counters_def sq_tree_def)
  next
  case (exec s1)
    have "\<forall>i. \<not> sq_holds (sq_clients s i) (Suc (sq_next s))"
      using assms(4) exec(1) by simp
    moreover have "sq_submitted s \<le> N"
      using assms(3) exec(1,4) by (auto simp: seqcow_exec_task_def split: bind_splits prod.splits)
    ultimately show ?thesis
      unfolding exec(1) by (intro exec_inv [OF assms(1) exec(2,3) _ _ _ exec(4)]) simp_all
  next
  case caught_up
    have "sq_clients_ok s' = sq_clients_ok s" by (rule clients_ok_cong) (simp_all add: caught_up)
    with t cl c caught_up(2) show ?thesis by (simp add: caught_up(1) sq_inv_def sq_counters_def sq_tree_def)
  next
  case publish
    have "sq_clients_ok s' = sq_clients_ok s" by (rule clients_ok_cong) (simp_all add: publish)
    with t cl c publish(2,3) show ?thesis by (auto simp: publish(1) sq_inv_def sq_counters_def sq_tree_def)
  next
  case nothing_new
    have "sq_clients_ok s' = sq_clients_ok s" by (rule clients_ok_cong) (simp_all add: nothing_new)
    with t cl c nothing_new(2,3) show ?thesis by (auto simp: nothing_new(1) sq_inv_def sq_counters_def sq_tree_def)
  next
  case commit
    have "sq_committed s \<le> sq_local_committed s" using c by (simp add: sq_counters_def)
    from clients_ok_commit [OF cl this] t c commit(2) show ?thesis
      by (simp add: commit(1) sq_inv_def sq_counters_def sq_tree_def)
  qed
qed

lemma step_inv:
  assumes "sq_inv N a0 s" "seqcow_orderly_step H fuel s s'" "sq_submitted s' \<le> N"
  shows "sq_inv N a0 s'"
proof -
  from assms(2) have "seqcow_step H fuel s s'" by (simp add: seqcow_orderly_step_def)
  then show ?thesis
  proof cases
    case client
    then show ?thesis by (rule client_step_inv [OF assms(1)])
  next
    case worker
    then show ?thesis
      by (rule worker_step_inv [OF assms(1) _ assms(3)]) (use assms(2) in \<open>simp add: seqcow_orderly_step_def\<close>)
  next
    case stop
    have "sq_clients_ok s' = sq_clients_ok s" by (rule clients_ok_cong) (simp_all add: stop)
    with assms(1) show ?thesis by (simp add: stop sq_inv_def sq_counters_def sq_tree_def)
  qed
qed

lemma orderly_submitted: "seqcow_orderly_step H fuel s s' \<Longrightarrow> sq_submitted s \<le> sq_submitted s'"
  unfolding seqcow_orderly_step_def
  by (auto elim!: seqcow_step.cases seqcow_client_step.cases seqcow_worker_step.cases simp: seqcow_exec_task_def split: bind_splits prod.splits)

lemma orderly_inv:
  assumes "seqcow_orderly H fuel s0 s" "sq_inv N a0 s0" "sq_submitted s \<le> N"
  shows "sq_inv N a0 s"
  using assms
proof (induction rule: seqcow_orderly.induct)
  case (step s s')
  with orderly_submitted [OF step.hyps(2)] step_inv show ?case by (meson order.trans)
qed

section \<open>What clients and readers see\<close>

lemma orderly_published:
  assumes "seqcow_orderly H fuel (seqcow_init zero t m) s" "ver m t a0" "room N m" "sq_submitted s \<le> N"
  shows "\<exists>n a. sq_committed s \<le> n \<and> n \<le> sq_submitted s \<and>
    upds upd (take n (sq_hist s)) a0 a \<and> ver (sq_mem s) (sq_root s) a"
proof -
  from orderly_inv [OF assms(1) init_inv [OF assms(2,3)] assms(4)]
  show ?thesis
    by (intro exI [of _ "sq_local_committed s"]) (auto simp: sq_inv_def sq_tree_def sq_counters_def)
qed

lemma step_keeps_versions:
  assumes "sq_inv N a0 s" "seqcow_orderly_step H fuel s s'" "sq_submitted s' \<le> N" "ver (sq_mem s) r b"
  shows "ver (sq_mem s') r b"
proof -
  have worker: ?thesis if w: "seqcow_worker_step H fuel s s'"
    using w
  proof cases
    case (exec s1)
    have n: "\<forall>i. \<not> sq_holds (sq_clients s i) (Suc (sq_next s))"
      using assms(2) exec(1) by (simp add: seqcow_orderly_step_def)
    have le: "sq_next s < sq_submitted s" "sq_submitted s \<le> N"
      using assms(1,3) exec(3) orderly_submitted [OF assms(2)] by (simp_all add: sq_inv_def sq_counters_def)
    obtain x m where e: "seqcow_exec_task H fuel (Suc (sq_next s)) s =
        Some (s\<lparr>sq_ctxs := (sq_ctxs s)(Suc (sq_next s) mod conctrl_BUFFER_SIZE := x), sq_mem := m\<rparr>)"
      and v: "\<forall>r b. ver (sq_mem s) r b \<longrightarrow> ver m r b"
      by (rule exec_task_ok [OF assms(1) le n])
    from exec(4) e have "sq_mem s1 = m" by auto
    with v assms(4) exec(1) show ?thesis by simp
  qed (use assms(4) in simp_all)
  from assms(2) have "seqcow_step H fuel s s'" by (simp add: seqcow_orderly_step_def)
  then show ?thesis
    by cases (use assms(4) worker in \<open>auto elim: seqcow_client_step.cases\<close>)
qed

lemma orderly_keeps_versions:
  assumes "seqcow_orderly H fuel s0 s" "sq_inv N a0 s0" "sq_submitted s \<le> N" "ver (sq_mem s0) r b"
  shows "ver (sq_mem s) r b"
  using assms
proof (induction rule: seqcow_orderly.induct)
  case (step s s')
  then have n: "sq_submitted s \<le> N" using orderly_submitted [OF step.hyps(2)] by linarith
  with step show ?case using step_keeps_versions [OF orderly_inv [OF step.hyps(1) step.prems(1) n] step.hyps(2)] by blast
qed

section \<open>The worker is never stuck\<close>

text \<open>A bound on the steps to the end of the round in which the last task is committed.\<close>

fun sq_rank :: "nat \<Rightarrow> nat \<Rightarrow> nat \<Rightarrow> sq_pc \<Rightarrow> nat" where
  "sq_rank sub n ls SQ_Exec = (if ls = sub \<and> n < sub then 5 else 9)"
| "sq_rank sub n ls SQ_Publish = 8"
| "sq_rank sub n ls SQ_Commit = 7"
| "sq_rank sub n ls SQ_Poll = 6"
| "sq_rank sub n ls SQ_Done = 0"

definition sq_dist :: "('x ctx_scheme, 'm) seqcow \<Rightarrow> nat" where
  "sq_dist s = 10 * (sq_submitted s - sq_next s) + sq_rank (sq_submitted s) (sq_next s) (sq_local_submitted s) (sq_pc s)"

lemma orderly_idle_step:
  "seqcow_step H fuel s s' \<Longrightarrow> \<forall>i. sq_clients s i = SQ_Idle \<Longrightarrow> seqcow_orderly_step H fuel s s'"
  by (simp add: seqcow_orderly_step_def)

lemma worker_step:
  assumes "sq_inv N a0 s" "sq_submitted s \<le> N" "\<forall>i. sq_clients s i = SQ_Idle" "\<not> sq_stop s" "sq_pc s \<noteq> SQ_Done"
    "sq_pc s = SQ_Poll \<longrightarrow> sq_committed s < sq_submitted s"
  obtains s' where "seqcow_step H fuel s s'" "sq_dist s' < sq_dist s" "sq_submitted s' = sq_submitted s"
    "sq_clients s' = sq_clients s" "\<not> sq_stop s'" "sq_pc s' \<noteq> SQ_Done" "sq_hist s' = sq_hist s"
proof -
  from assms(1) have c: "sq_counters s" by (simp add: sq_inv_def)
  show thesis
  proof (cases "sq_pc s")
    case SQ_Poll
    show thesis
      by (rule that [OF seqcow_step_poll [OF SQ_Poll]]) (use c assms SQ_Poll in \<open>auto simp: sq_counters_def sq_dist_def\<close>)
  next
    case SQ_Exec
    show thesis
    proof (cases "sq_next s < sq_local_submitted s")
      case True
      then have n: "sq_next s < sq_submitted s" using c by (simp add: sq_counters_def)
      have "\<forall>i. \<not> sq_holds (sq_clients s i) (Suc (sq_next s))" using assms(3) by simp
      from exec_task_ok [OF assms(1) n assms(2) this] obtain x m where e:
        "seqcow_exec_task H fuel (Suc (sq_next s)) s =
          Some (s\<lparr>sq_ctxs := (sq_ctxs s)(Suc (sq_next s) mod conctrl_BUFFER_SIZE := x), sq_mem := m\<rparr>)" .
      show thesis
        by (rule that [OF seqcow_step_exec [OF SQ_Exec True e]]) (use n assms SQ_Exec in \<open>auto simp: sq_dist_def\<close>)
    next
      case False
      show thesis
        by (rule that [OF seqcow_step_caught_up [OF SQ_Exec False]])
          (use False assms SQ_Exec c in \<open>auto simp: sq_dist_def sq_counters_def\<close>)
    qed
  next
    case SQ_Publish
    show thesis
    proof (cases "sq_local_committed s < sq_next s")
      case True
      show thesis
        by (rule that [OF seqcow_step_publish [OF SQ_Publish]]) (use True assms SQ_Publish in \<open>auto simp: sq_dist_def\<close>)
    next
      case False
      show thesis
        by (rule that [OF seqcow_step_nothing_new [OF SQ_Publish]]) (use False assms SQ_Publish in \<open>auto simp: sq_dist_def\<close>)
    qed
  next
    case SQ_Commit
    show thesis
      by (rule that [OF seqcow_step_commit [OF SQ_Commit]]) (use assms SQ_Commit in \<open>auto simp: sq_dist_def\<close>)
  qed (use assms(5) in simp)
qed

lemma drains:
  assumes "sq_inv N a0 s" "sq_submitted s \<le> N" "\<forall>i. sq_clients s i = SQ_Idle" "\<not> sq_stop s" "sq_pc s \<noteq> SQ_Done"
  shows "\<exists>s'. seqcow_orderly H fuel s s' \<and> sq_committed s' = sq_submitted s \<and> sq_hist s' = sq_hist s \<and>
    (\<exists>a. upds upd (sq_hist s) a0 a \<and> ver (sq_mem s') (sq_root s') a)"
  using assms
proof (induction s rule: measure_induct_rule [where f = sq_dist])
  case (less s)
  note inv = less.prems(1)
  show ?case
  proof (cases "sq_pc s = SQ_Poll \<and> \<not> sq_committed s < sq_submitted s")
    case True
    with inv have "sq_committed s = sq_submitted s" "sq_local_committed s = length (sq_hist s)"
      by (auto simp: sq_inv_def sq_counters_def)
    with inv show ?thesis by (intro exI [of _ s]) (auto simp: sq_inv_def sq_tree_def intro: seqcow_orderly.start)
  next
    case False
    then have "sq_pc s = SQ_Poll \<longrightarrow> sq_committed s < sq_submitted s" by simp
    from worker_step [OF less.prems this] obtain s1 where s1: "seqcow_step H fuel s s1" "sq_dist s1 < sq_dist s"
      "sq_submitted s1 = sq_submitted s" "sq_clients s1 = sq_clients s" "\<not> sq_stop s1" "sq_pc s1 \<noteq> SQ_Done"
      "sq_hist s1 = sq_hist s" .
    note o = orderly_idle_step [OF s1(1) less.prems(3)]
    have "sq_inv N a0 s1" by (rule step_inv [OF inv o]) (simp add: s1(3) less.prems(2))
    from less.IH [OF s1(2) this] s1 less.prems obtain s' where "seqcow_orderly H fuel s1 s'"
      "sq_committed s' = sq_submitted s" "sq_hist s' = sq_hist s"
      "\<exists>a. upds upd (sq_hist s) a0 a \<and> ver (sq_mem s') (sq_root s') a" by auto
    moreover have "seqcow_orderly H fuel s s1" using o by (auto intro: seqcow_orderly.intros)
    ultimately show ?thesis using orderly_trans by blast
  qed
qed

lemma orderly_drains:
  assumes "seqcow_orderly H fuel (seqcow_init zero t m) s" "ver m t a0" "room N m" "sq_submitted s \<le> N"
    "\<forall>i. sq_clients s i = SQ_Idle" "\<not> sq_stop s" "sq_pc s \<noteq> SQ_Done"
  shows "\<exists>s'. seqcow_orderly H fuel s s' \<and> sq_committed s' = sq_submitted s \<and> sq_hist s' = sq_hist s \<and>
    (\<exists>a. upds upd (sq_hist s) a0 a \<and> ver (sq_mem s') (sq_root s') a)"
  by (rule drains [OF orderly_inv [OF assms(1) init_inv [OF assms(2,3)] assms(4)] assms(4-7)])

section \<open>The runs that are not orderly\<close>

text \<open>
  \<^verbatim>\<open>fetch_add\<close> makes a task number visible to the worker before the request is in its context:
  the worker may execute what the context held before, and the client's stores come too late.
\<close>

lemma lost_update:
  assumes "ver m t a0" "room (Suc N) m"
  shows "\<exists>s a. seqcow_reach H fuel (seqcow_init zero t m) s \<and> sq_hist s = [(k, v)] \<and>
    (\<forall>i. sq_clients s i = SQ_Idle) \<and> sq_committed s = 1 \<and>
    upd (cx_key zero) (cx_val zero) a0 a \<and> ver (sq_mem s) (sq_root s) a"
proof -
  let ?R = "seqcow_reach H fuel (seqcow_init zero t m)" and ?S = "sq_one k v (SQ_Waiting 1 k v)"
  let ?c0 = "sq_ctxs (seqcow_init zero t m)"
  have B: "Suc 0 mod conctrl_BUFFER_SIZE = Suc 0" "conctrl_BUFFER_SIZE \<noteq> Suc 0" by (simp_all add: conctrl_BUFFER_SIZE_def)
  obtain c m' a where e: "conctrl_exec H fuel (zero\<lparr>cx_op := conctrl_DONE, cx_t_past := t\<rparr>) m = Some (c, m')"
    "ver m' (cx_root c) a" "upd (cx_key zero) (cx_val zero) a0 a"
    using exec_ok [of m "zero\<lparr>cx_op := conctrl_DONE, cx_t_past := t\<rparr>" a0 N] assms by auto
  have 1: "?R (?S ?c0 m t 0 SQ_Poll 0 0 0)" by (rule seqcow_orderly_reach [OF one_submit])
  have "seqcow_step H fuel (?S ?c0 m t 0 SQ_Poll 0 0 0) (?S ?c0 m t 0 SQ_Exec 1 0 0)"
    using seqcow_step_poll [of "?S ?c0 m t 0 SQ_Poll 0 0 0"] by (simp add: sq_one_def)
  then have 2: "?R (?S ?c0 m t 0 SQ_Exec 1 0 0)" by (rule seqcow_reach.step [OF 1])
  let ?c1 = "?c0(1 := c)"
  have "seqcow_exec_task H fuel (Suc 0) (?S ?c0 m t 0 SQ_Exec 1 0 0) = Some (?S ?c1 m' t 0 SQ_Exec 1 0 0)"
    using e(1) by (simp add: seqcow_exec_task_def sq_one_def B seqcow_init_def)
  then have "seqcow_step H fuel (?S ?c0 m t 0 SQ_Exec 1 0 0) (?S ?c1 m' t 0 SQ_Exec 1 0 1)"
    using seqcow_step_exec [of "?S ?c0 m t 0 SQ_Exec 1 0 0" H fuel] by (simp add: sq_one_def conctrl_BUFFER_SIZE_def)
  then have 3: "?R (?S ?c1 m' t 0 SQ_Exec 1 0 1)" by (rule seqcow_reach.step [OF 2])
  have "seqcow_step H fuel (?S ?c1 m' t 0 SQ_Exec 1 0 1) (?S ?c1 m' t 0 SQ_Publish 1 0 1)"
    using seqcow_step_caught_up [of "?S ?c1 m' t 0 SQ_Exec 1 0 1"] by (simp add: sq_one_def)
  then have 4: "?R (?S ?c1 m' t 0 SQ_Publish 1 0 1)" by (rule seqcow_reach.step [OF 3])
  have "seqcow_step H fuel (?S ?c1 m' t 0 SQ_Publish 1 0 1) (?S ?c1 m' (cx_root c) 0 SQ_Commit 1 1 1)"
    using seqcow_step_publish [of "?S ?c1 m' t 0 SQ_Publish 1 0 1"] by (simp add: sq_one_def B)
  then have 5: "?R (?S ?c1 m' (cx_root c) 0 SQ_Commit 1 1 1)" by (rule seqcow_reach.step [OF 4])
  have "seqcow_step H fuel (?S ?c1 m' (cx_root c) 0 SQ_Commit 1 1 1) (?S ?c1 m' (cx_root c) 1 SQ_Poll 1 1 1)"
    using seqcow_step_commit [of "?S ?c1 m' (cx_root c) 0 SQ_Commit 1 1 1"] by (simp add: sq_one_def)
  then have 6: "?R (?S ?c1 m' (cx_root c) 1 SQ_Poll 1 1 1)" by (rule seqcow_reach.step [OF 5])
  obtain xs where "seqcow_orderly H fuel (?S ?c1 m' (cx_root c) 1 SQ_Poll 1 1 1) (sq_one k v SQ_Idle xs m' (cx_root c) 1 SQ_Poll 1 1 1)"
    using one_client [of H fuel k v ?c1 m' "cx_root c" 1 SQ_Poll 1 1 1] by blast
  from reach_trans [OF seqcow_orderly_reach [OF this] 6]
  have "?R (sq_one k v SQ_Idle xs m' (cx_root c) 1 SQ_Poll 1 1 1)" .
  with e show ?thesis
    by (intro exI [of _ "sq_one k v SQ_Idle xs m' (cx_root c) 1 SQ_Poll 1 1 1"] exI [of _ a]) (simp add: sq_one_def)
qed

end

end
