(* ===== verification/Btree_Seqcow.thy ===== *)
theory Btree_Seqcow
  imports Btree_Correct Seqcow_Correct
begin

text \<open>
  The B+-tree under the scheduler of \<^verbatim>\<open>seqcow.hpp\<close>: copy on write keeps the scheduler's contract,
  and so concurrent clients and readers see the requests applied in the order of their numbers.
\<close>

section \<open>The contract, discharged\<close>

definition btree_ver :: "bmem \<Rightarrow> addr \<Rightarrow> kv list \<Rightarrow> bool" where
  "btree_ver m r xs \<longleftrightarrow> (\<exists>t. btree_version m t \<and> addr_of t = r \<and> bt_inner (erase t) \<and> xs = btree_map t)"

definition btree_updates_room :: "nat \<Rightarrow> bmem \<Rightarrow> bool" where
  "btree_updates_room n m = mem_ok bnode_ok (47 * n) m"

lemma bt_inner_ready: "bt_inner t \<Longrightarrow> cow_root_ready t k"
  by (cases t) (simp_all add: cow_root_ready_def)

lemma btree_exec_ok:
  assumes "btree_ver m (cx_t_past c) xs" "btree_updates_room (Suc n) m"
  shows "\<exists>c' m' ys. conctrl_exec btree_handlers 22 c m = Some (c', m') \<and> btree_ver m' (cx_root c') ys \<and>
    cow_update (cx_key c) (cx_val c) xs ys \<and> btree_updates_room n m' \<and> (\<forall>r zs. btree_ver m r zs \<longrightarrow> btree_ver m' r zs)"
proof -
  from assms(1) obtain t where t: "btree_version m t" "addr_of t = cx_t_past c" "bt_inner (erase t)" "xs = btree_map t"
    by (auto simp: btree_ver_def)
  have "mem_ok bnode_ok (2 * 22 + 3 + 47 * n) m" using assms(2) by (simp add: btree_updates_room_def algebra_simps)
  from version_cow [OF t(1) bt_inner_ready [OF t(3)] order.refl this t(2) [symmetric]]
  obtain c' m' t' where r: "conctrl_exec btree_handlers 22 c m = Some (c', m')" "cx_root c' = addr_of t'" "btree_version m' t'"
    "cow_update (cx_key c) (cx_val c) (btree_map t) (btree_map t')" "cells m \<subseteq>\<^sub>m cells m'" "mem_ok bnode_ok (47 * n) m'"
    "bt_inner (erase t) \<longrightarrow> bt_inner (erase t')" .
  have "btree_ver m' r zs" if "btree_ver m r zs" for r zs
    using that btree_version_mono [OF _ r(5)] unfolding btree_ver_def by blast
  moreover have "btree_ver m' (cx_root c') (btree_map t')" using r(2,3,7) t(3) by (auto simp: btree_ver_def)
  ultimately show ?thesis using r(1,4,6) t(4) by (auto simp: btree_updates_room_def)
qed

interpretation btree_sq: cow_index btree_handlers 22 btree_ver cow_update btree_updates_room
  by unfold_locales (rule btree_exec_ok)

lemma ver_find: "btree_ver m r xs \<Longrightarrow> btree_find 22 r k m = Some (map_of xs k)"
  using version_find [of m _ 22 k] by (force simp: btree_ver_def)

lemma ver_scan: "btree_ver m r xs \<Longrightarrow> btree_scan 22 r k n m = Some (kv_scan k n xs)"
  using version_scan [of m _ 22 k n] by (force simp: btree_ver_def)

section \<open>The contents after a list of requests\<close>

definition kv_upds :: "kv list \<Rightarrow> kv list \<Rightarrow> kv list" where
  "kv_upds rs xs = fold (\<lambda>(k, v). kv_upd k v) rs xs"

lemma map_fst_kv_upd: "map fst (xs :: kv list) = map fst (ys :: kv list) \<Longrightarrow> map fst (kv_upd k v xs) = map fst (kv_upd k w ys)"
proof -
  assume eq: "map fst xs = map fst ys"
  have 1: "takeWhile (\<lambda>x. x < k) (map fst xs) = map fst (takeWhile (\<lambda>x. fst x < k) xs)" for xs :: "kv list"
    by (simp add: takeWhile_map comp_def)
  have 2: "dropWhile (\<lambda>x. x \<le> k) (map fst xs) = map fst (dropWhile (\<lambda>x. fst x \<le> k) xs)" for xs :: "kv list"
    by (simp add: dropWhile_map comp_def)
  show ?thesis
    unfolding kv_upd_def map_append list.map(2) fst_conv 1 [symmetric] 2 [symmetric] eq ..
qed

lemma upds_keys: "upds cow_update rs xs ys \<Longrightarrow> map fst xs = map fst zs \<Longrightarrow> map fst ys = map fst (kv_upds rs zs)"
proof (induction rs arbitrary: xs zs)
  case (Cons r rs)
  then obtain cs where c: "cow_update (fst r) (snd r) xs cs" "upds cow_update rs cs ys" by auto
  have "map fst cs = map fst (kv_upd (fst r) (snd r) zs)"
    using c(1) map_fst_kv_upd [OF Cons.prems(2)] by (simp add: cow_update_def)
  from Cons.IH [OF c(2) this] show ?case by (simp add: kv_upds_def case_prod_beta)
qed (simp add: kv_upds_def)

lemma upds_new_keys:
  "upds cow_update rs xs ys \<Longrightarrow> ordered xs \<Longrightarrow> distinct (map fst rs) \<Longrightarrow> fst ` set rs \<inter> fst ` set xs = {} \<Longrightarrow>
   ys = kv_upds rs xs"
proof (induction rs arbitrary: xs)
  case (Cons r rs)
  then obtain cs where c: "cow_update (fst r) (snd r) xs cs" "upds cow_update rs cs ys" by auto
  have cs: "cs = kv_upd (fst r) (snd r) xs" using c(1) Cons.prems(4) by (auto simp: cow_update_def)
  have "fst ` set rs \<inter> fst ` set cs = {}"
    unfolding cs set_fst_kv_upd [OF Cons.prems(2)] using Cons.prems(3,4) by auto
  with Cons.IH [OF c(2)] Cons.prems(2,3) ordered_kv_upd [OF Cons.prems(2)] show ?case by (simp add: cs kv_upds_def case_prod_beta)
qed (simp add: kv_upds_def)

section \<open>A concrete start for the witnesses\<close>

definition btree_zero_ctx :: btree_ctx where
  "btree_zero_ctx = \<lparr>cx_op = 0, cx_retry = False, cx_wait_child = False, cx_wait_subtree = False,
     cx_new_checkpoint = False, cx_sno = 0, cx_cno = 0, cx_root = 0, cx_t_cur = 0, cx_t_past = 0,
     cx_key = 0, cx_val = 0, cx_split_idx = 0\<rparr>"

definition btree_demo_elems :: "kv list" where
  "btree_demo_elems = map (\<lambda>i. (of_nat (Suc i), 5)) [0..<20]"

lemma btree_demo_inner:
  obtains t m where "btree_ver m (addr_of t) (sort btree_demo_elems)" "btree_updates_room 1 m"
proof -
  have "distinct (map fst btree_demo_elems)" "length btree_demo_elems \<le> 20"
    by (simp_all add: btree_demo_elems_def upt_rec)
  moreover have "mem_ok bnode_ok (Suc (length btree_demo_elems) + 47) (btree_empty_mem 68)"
    by (rule btree_empty_mem_ok) (simp_all add: btree_demo_elems_def)
  ultimately obtain t m where t: "btree_inv m t" "btree_map t = sort btree_demo_elems" "mem_ok bnode_ok 47 m"
    by (rule build_version)
  have "bt_inner (erase t)"
  proof (cases t)
    case (ALeaf a kvs)
    with t(1) have "length (btree_map t) \<le> 15" by (auto simp: btree_inv_def btree_version_def leaf_node_def)
    moreover have "length (btree_map t) = 20" unfolding t(2) by (simp add: btree_demo_elems_def)
    ultimately show ?thesis by simp
  qed simp
  with t show thesis
    by (intro that [of m t]) (auto simp: btree_ver_def btree_updates_room_def btree_inv_def)
qed

lemma btree_demo_keys: "k \<notin> fst ` set btree_demo_elems" if "k = 0 \<or> 20 < k"
proof -
  have "x \<noteq> 0 \<and> x \<le> 20" if "x \<in> fst ` set btree_demo_elems" for x
    using that by (auto simp: btree_demo_elems_def upt_rec)
  with that show ?thesis by (metis leD)
qed

text \<open>The run of the witnesses: one client inserts 100.\<close>

lemma btree_demo_run:
  obtains t m s where "btree_ver m t (sort btree_demo_elems)" "btree_updates_room 1 m"
    "seqcow_orderly btree_handlers 22 (seqcow_init btree_zero_ctx t m) s" "sq_submitted s = 1" "sq_hist s = [(100, 1)]"
    "\<forall>i. sq_clients s i = SQ_Idle" "\<not> sq_stop s" "sq_pc s \<noteq> SQ_Done"
proof -
  obtain t m where t: "btree_ver m (addr_of t) (sort btree_demo_elems)" "btree_updates_room 1 m"
    by (rule btree_demo_inner)
  obtain xs where "seqcow_orderly btree_handlers 22 (seqcow_init btree_zero_ctx (addr_of t) m)
      (sq_one 100 1 SQ_Idle xs m (addr_of t) 0 SQ_Poll 0 0 0)"
    using one_request [of btree_handlers 22 btree_zero_ctx "addr_of t" m 100 1] by blast
  with t show thesis by (intro that [of m "addr_of t"]) (auto simp: sq_one_def)
qed

section \<open>Properties\<close>

text \<open>
  C10. In every run in which no task starts before its request is written: the published root is
  the result of the first \<^term>\<open>n\<close> requests, in the order of their task numbers, where \<^term>\<open>n\<close>
  counts every request \<^verbatim>\<open>wait_for_processing\<close> has reported. Its keys are those of the updated
  map; when the requests are for new, distinct keys, so are the bindings. Queries answer from it.
\<close>

theorem seqcow_publishes_prefix:
  assumes "seqcow_orderly btree_handlers 22 (seqcow_init zero t m) s" "btree_ver m t xs"
    "btree_updates_room N m" "sq_submitted s \<le> N"
  shows "\<exists>n ys. (\<forall>j. seqcow_processed j s \<longrightarrow> j \<le> n) \<and> n \<le> sq_submitted s \<and>
    map fst ys = map fst (kv_upds (take n (sq_hist s)) xs) \<and>
    (distinct (map fst (sq_hist s)) \<and> fst ` set (sq_hist s) \<inter> fst ` set xs = {} \<longrightarrow>
      ys = kv_upds (take n (sq_hist s)) xs) \<and>
    (\<forall>k. seqcow_query (\<lambda>r. btree_find 22 r k) s = Some (map_of ys k)) \<and>
    (\<forall>k c. seqcow_query (\<lambda>r. btree_scan 22 r k c) s = Some (kv_scan k c ys))"
proof -
  from btree_sq.orderly_published [OF assms] obtain n ys where n: "sq_committed s \<le> n" "n \<le> sq_submitted s"
    "upds cow_update (take n (sq_hist s)) xs ys" "btree_ver (sq_mem s) (sq_root s) ys" by blast
  have o: "ordered xs" using assms(2) btree_version_ordered by (auto simp: btree_ver_def)
  have new: "ys = kv_upds (take n (sq_hist s)) xs"
    if "distinct (map fst (sq_hist s))" "fst ` set (sq_hist s) \<inter> fst ` set xs = {}"
    using that upds_new_keys [OF n(3) o] set_take_subset [of n "sq_hist s"]
    by (fastforce simp: take_map [symmetric])
  have "seqcow_query (\<lambda>r. btree_find 22 r k) s = Some (map_of ys k)"
    "seqcow_query (\<lambda>r. btree_scan 22 r k c) s = Some (kv_scan k c ys)" for k c
    using ver_find [OF n(4)] ver_scan [OF n(4)] by (simp_all add: seqcow_query_def)
  with n(1,2) new upds_keys [OF n(3) refl] show ?thesis
    by (intro exI [of _ n] exI [of _ ys]) (auto simp: seqcow_processed_def)
qed

theorem seqcow_publishes_prefix_witness:
  "\<exists>t m s (ys :: kv list) n. seqcow_orderly btree_handlers 22 (seqcow_init btree_zero_ctx t m) s \<and> sq_hist s = [(100, 1)] \<and>
    ys = kv_upds (take n (sq_hist s)) (sort btree_demo_elems) \<and>
    seqcow_query (\<lambda>r. btree_find 22 r 7) s = Some (map_of ys 7)"
proof (rule btree_demo_run)
  fix t m s
  assume r: "btree_ver m t (sort btree_demo_elems)" "btree_updates_room 1 m"
    "seqcow_orderly btree_handlers 22 (seqcow_init btree_zero_ctx t m) s" "sq_submitted s = 1" "sq_hist s = [(100, 1)]"
  have "sq_submitted s \<le> 1" using r(4) by simp
  from seqcow_publishes_prefix [OF r(3,1,2) this] r(5) btree_demo_keys [of 100] obtain ys n where
    "ys = kv_upds (take n (sq_hist s)) (sort btree_demo_elems)" "seqcow_query (\<lambda>r. btree_find 22 r 7) s = Some (map_of ys 7)"
    by auto
  with r(3,5) show ?thesis by blast
qed

text \<open>
  C11. No request is left behind: in such a run, once the clients have returned from \<^verbatim>\<open>update\<close> and
  as long as nobody stops the worker, the worker can go on to a state in which every request is
  committed and the published root holds the result of all of them. Executing a task never
  faults on the way.
\<close>

theorem seqcow_drains:
  assumes "seqcow_orderly btree_handlers 22 (seqcow_init zero t m) s" "btree_ver m t xs"
    "btree_updates_room N m" "sq_submitted s \<le> N" "\<forall>i. sq_clients s i = SQ_Idle" "\<not> sq_stop s" "sq_pc s \<noteq> SQ_Done"
  shows "\<exists>s' ys. seqcow_orderly btree_handlers 22 s s' \<and> seqcow_processed (sq_submitted s) s' \<and>
    map fst ys = map fst (kv_upds (sq_hist s) xs) \<and> btree_ver (sq_mem s') (sq_root s') ys"
proof -
  from btree_sq.orderly_drains [OF assms] obtain s' ys where s': "seqcow_orderly btree_handlers 22 s s'"
    "sq_committed s' = sq_submitted s" "upds cow_update (sq_hist s) xs ys" "btree_ver (sq_mem s') (sq_root s') ys" by blast
  with upds_keys [OF s'(3) refl] show ?thesis
    by (intro exI [of _ s'] exI [of _ ys]) (simp add: seqcow_processed_def)
qed

theorem seqcow_drains_witness:
  "\<exists>t m s ys. seqcow_orderly btree_handlers 22 (seqcow_init btree_zero_ctx t m) s \<and> seqcow_processed 1 s \<and>
    map fst ys = map fst (kv_upds [(100, 1)] (sort btree_demo_elems)) \<and> btree_ver (sq_mem s) (sq_root s) ys"
proof (rule btree_demo_run)
  fix t m s
  assume r: "btree_ver m t (sort btree_demo_elems)" "btree_updates_room 1 m"
    "seqcow_orderly btree_handlers 22 (seqcow_init btree_zero_ctx t m) s" "sq_submitted s = 1" "sq_hist s = [(100, 1)]"
    "\<forall>i. sq_clients s i = SQ_Idle" "\<not> sq_stop s" "sq_pc s \<noteq> SQ_Done"
  have "sq_submitted s \<le> 1" using r(4) by simp
  from seqcow_drains [OF r(3,1,2) this r(6-8)] r(4,5) orderly_trans [OF _ r(3)] show ?thesis by fastforce
qed



text \<open>
  C13. The race in \<^verbatim>\<open>update\<close>: \<^verbatim>\<open>fetch_add\<close> hands the task to the worker before the request is in
  its context. There is a run, with one client and one request, after which the client has
  returned, its task number is reported as processed, and the tree does not hold its key; the
  worker has inserted the key and the value the zeroed context held.
\<close>

theorem seqcow_lost_update:
  assumes "btree_ver m t xs" "btree_updates_room 1 m" "k \<notin> fst ` set xs" "k \<noteq> 0" "0 \<notin> fst ` set xs"
  shows "\<exists>s. seqcow_reach btree_handlers 22 (seqcow_init btree_zero_ctx t m) s \<and> sq_hist s = [(k, v)] \<and>
    (\<forall>i. sq_clients s i = SQ_Idle) \<and> seqcow_processed 1 s \<and>
    seqcow_query (\<lambda>r. btree_find 22 r k) s = Some None \<and> seqcow_query (\<lambda>r. btree_find 22 r 0) s = Some (Some 0)"
proof -
  have "btree_updates_room (Suc 0) m" using assms(2) by simp
  from btree_sq.lost_update [OF assms(1) this, of btree_zero_ctx k v] obtain s ys where
    s: "seqcow_reach btree_handlers 22 (seqcow_init btree_zero_ctx t m) s" "sq_hist s = [(k, v)]"
    "\<forall>i. sq_clients s i = SQ_Idle" "sq_committed s = 1" "cow_update 0 0 xs ys" "btree_ver (sq_mem s) (sq_root s) ys"
    unfolding btree_zero_ctx_def by auto
  have o: "ordered xs" using assms(1) btree_version_ordered by (auto simp: btree_ver_def)
  have "ys = kv_upd 0 0 xs" using s(5) assms(5) by (simp add: cow_update_def)
  then have "map_of ys k = None" "map_of ys 0 = Some 0"
    using assms(3,4) by (simp_all add: map_of_kv_upd [OF o] map_of_eq_None_iff)
  moreover have "seqcow_query (\<lambda>r. btree_find 22 r k') s = Some (map_of ys k')" for k'
    using ver_find [OF s(6)] by (simp add: seqcow_query_def)
  ultimately show ?thesis using s(1-4) by (auto simp: seqcow_processed_def)
qed

theorem seqcow_lost_update_witness:
  "\<exists>t m s. seqcow_reach btree_handlers 22 (seqcow_init btree_zero_ctx t m) s \<and> sq_hist s = [(100, 1)] \<and>
    (\<forall>i. sq_clients s i = SQ_Idle) \<and> seqcow_processed 1 s \<and> seqcow_query (\<lambda>r. btree_find 22 r 100) s = Some None"
proof (rule btree_demo_inner)
  fix t m
  assume t: "btree_ver m (addr_of t) (sort btree_demo_elems)" "btree_updates_room 1 m"
  have "100 \<notin> fst ` set (sort btree_demo_elems)" "0 \<notin> fst ` set (sort btree_demo_elems)"
    using btree_demo_keys [of 100] btree_demo_keys [of 0] by simp_all
  from seqcow_lost_update [OF t this(1) _ this(2), of 1] show ?thesis by auto
qed

end
