(* ===== verification/Betree_Node.thy ===== *)
theory Betree_Node
  imports Btree_Correct
begin

text \<open>
  \<^verbatim>\<open>lib/trees/betree/node.hpp\<close>: the node of the elastic B+-tree, which adds to the node of the
  B+-tree the role of an internal node (above, at or below the boundary of the pipeline), the
  \<^verbatim>\<open>verge\<close> recorded in the root and the height of a node grown below the boundary. Forgetting
  these three turns every node operation into that of the B+-tree; the section of projections
  proves it, operation by operation.
\<close>

section \<open>Nodes\<close>

datatype betree_type = BE_UPPER | BE_LOWER | BE_BOUNDARY | BE_LEAF

definition betree_B :: nat where
  "betree_B = 8"

definition betree_E :: nat where
  "betree_E = 3"

record benode =
  be_ver :: "32 word"
  be_type :: betree_type
  be_verge :: "8 word"
  be_size :: nat
  be_height :: "8 word"
  be_keys :: "key list"
  be_slots :: "64 word list"

type_synonym bemem = "benode mem"

section \<open>The operations\<close>

definition betree_new_node :: "32 word \<Rightarrow> betree_type \<Rightarrow> nat \<Rightarrow> bemem \<Rightarrow> (addr \<times> bemem) option" where
  "betree_new_node ver ty sz m =
     do { (t, m) \<leftarrow> mem_alloc m;
          m \<leftarrow> mem_upd m t (\<lambda>n. Some (n\<lparr>be_ver := ver, be_type := ty, be_verge := 0, be_size := sz, be_height := 0\<rparr>));
          Some (t, m) }"

definition betree_new_leaf :: "32 word \<Rightarrow> nat \<Rightarrow> bemem \<Rightarrow> (addr \<times> bemem) option" where
  "betree_new_leaf ver sz m =
     do { (t, m) \<leftarrow> betree_new_node ver BE_LEAF sz m;
          m \<leftarrow> mem_upd m t (\<lambda>n. do {
                 ks \<leftarrow> arr_zero (be_keys n) sz (2 * betree_B - sz - 1);
                 vs \<leftarrow> arr_zero (be_slots n) sz (2 * betree_B - sz);
                 Some (n\<lparr>be_keys := ks, be_slots := vs\<rparr>) });
          Some (t, m) }"

definition betree_new_internal :: "32 word \<Rightarrow> nat \<Rightarrow> bemem \<Rightarrow> (addr \<times> bemem) option" where
  "betree_new_internal ver sz m =
     do { (t, m) \<leftarrow> betree_new_node ver BE_LOWER sz m;
          m \<leftarrow> mem_upd m t (\<lambda>n. do {
                 ks \<leftarrow> arr_zero (be_keys n) sz (2 * betree_B - sz - 1);
                 cs \<leftarrow> arr_zero (be_slots n) (sz + 1) (2 * betree_B - sz - 1);
                 Some (n\<lparr>be_keys := ks, be_slots := cs\<rparr>) });
          Some (t, m) }"

definition betree_new_root :: "32 word \<Rightarrow> key \<Rightarrow> addr \<Rightarrow> addr \<Rightarrow> bemem \<Rightarrow> (addr \<times> bemem) option" where
  "betree_new_root ver key ch0 ch1 m =
     do { (t, m) \<leftarrow> betree_new_internal ver 1 m;
          m \<leftarrow> mem_upd m t (\<lambda>n. do {
                 ks \<leftarrow> arr_set (be_keys n) 0 key;
                 cs \<leftarrow> arr_set (be_slots n) 0 ch0;
                 cs \<leftarrow> arr_set cs 1 ch1;
                 Some (n\<lparr>be_keys := ks, be_slots := cs\<rparr>) });
          Some (t, m) }"

text \<open>
  \<^verbatim>\<open>memcpy(t_new, t, 128)\<close> copies the header and the keys, not the union, which starts at byte 128.
\<close>

definition betree_copy_leaf :: "32 word \<Rightarrow> addr \<Rightarrow> bemem \<Rightarrow> (addr \<times> bemem) option" where
  "betree_copy_leaf ver t m =
     do { src \<leftarrow> mem_get m t;
          (t_new, m) \<leftarrow> mem_alloc m;
          m \<leftarrow> mem_upd m t_new (\<lambda>n. Some (n\<lparr>be_ver := ver, be_type := be_type src, be_verge := be_verge src,
                 be_size := be_size src, be_height := be_height src, be_keys := be_keys src\<rparr>));
          Some (t_new, m) }"

definition betree_copy_internal :: "32 word \<Rightarrow> addr \<Rightarrow> bemem \<Rightarrow> (addr \<times> bemem) option" where
  "betree_copy_internal ver t m =
     do { src \<leftarrow> mem_get m t;
          (t_new, m) \<leftarrow> mem_alloc m;
          m \<leftarrow> mem_upd m t_new (\<lambda>n. do {
                 ks \<leftarrow> arr_copy (be_keys n) (be_keys src) (2 * betree_B - 1);
                 Some (n\<lparr>be_ver := ver, be_type := be_type src, be_verge := be_verge src,
                 be_size := be_size src, be_height := be_height src, be_keys := ks\<rparr>) });
          Some (t_new, m) }"

definition betree_split :: "32 word \<Rightarrow> addr \<Rightarrow> bemem \<Rightarrow> ((key \<times> addr \<times> addr) \<times> bemem) option" where
  "betree_split ver t m =
     do { (t_l, m) \<leftarrow> betree_new_internal ver (betree_B - 1) m;
          (t_r, m) \<leftarrow> betree_new_internal ver (betree_B - 1) m;
          src \<leftarrow> mem_get m t;
          m \<leftarrow> mem_upd m t_l (\<lambda>n. do {
                 ks \<leftarrow> arr_copy (be_keys n) (be_keys src) (betree_B - 1);
                 Some (n\<lparr>be_height := be_height src, be_keys := ks\<rparr>) });
          m \<leftarrow> mem_upd m t_r (\<lambda>n. do {
                 ks \<leftarrow> arr_copy (be_keys n) (drop betree_B (be_keys src)) (betree_B - 1);
                 Some (n\<lparr>be_height := be_height src, be_keys := ks\<rparr>) });
          key \<leftarrow> arr_get (be_keys src) (betree_B - 1);
          Some ((key, t_l, t_r), m) }"

definition betree_copych :: "addr \<Rightarrow> addr \<Rightarrow> bemem \<Rightarrow> bemem option" where
  "betree_copych t_new t_old m =
     do { src \<leftarrow> mem_get m t_old;
          mem_upd m t_new (\<lambda>n. do {
            cs \<leftarrow> arr_copy (be_slots n) (be_slots src) (2 * betree_B);
            Some (n\<lparr>be_slots := cs\<rparr>) }) }"

text \<open>The argument \<^verbatim>\<open>nodeptr* ts\<close> is always a place in a child array: child \<^term>\<open>i\<close> of \<^term>\<open>t\<close>.\<close>

definition betree_copych_split :: "addr \<Rightarrow> nat \<Rightarrow> addr \<Rightarrow> bemem \<Rightarrow> bemem option" where
  "betree_copych_split t i t_old m =
     do { n \<leftarrow> mem_get m t;
          ts0 \<leftarrow> arr_get (be_slots n) i;
          ts1 \<leftarrow> arr_get (be_slots n) (i + 1);
          src \<leftarrow> mem_get m t_old;
          m \<leftarrow> mem_upd m ts0 (\<lambda>n. do {
                 cs \<leftarrow> arr_copy (be_slots n) (be_slots src) betree_B;
                 Some (n\<lparr>be_slots := cs\<rparr>) });
          mem_upd m ts1 (\<lambda>n. do {
            cs \<leftarrow> arr_copy (be_slots n) (drop betree_B (be_slots src)) betree_B;
            Some (n\<lparr>be_slots := cs\<rparr>) }) }"

section \<open>Search in a node, and the insertion of a child\<close>

function betree_findch_from :: "benode \<Rightarrow> key \<Rightarrow> nat \<Rightarrow> nat option" where
  "betree_findch_from t key pos =
     (if pos < be_size t
      then do { k \<leftarrow> arr_get (be_keys t) pos;
                if k > key then Some pos else betree_findch_from t key (pos + 1) }
      else Some (be_size t))"
  by pat_completeness auto
termination
  by (relation "measure (\<lambda>(t, key, pos). be_size t - pos)") auto

definition betree_findch :: "benode \<Rightarrow> key \<Rightarrow> nat option" where
  "betree_findch t key = betree_findch_from t key 0"

function betree_findval_from :: "benode \<Rightarrow> key \<Rightarrow> nat \<Rightarrow> nat option" where
  "betree_findval_from t key pos =
     (if pos < be_size t
      then do { k \<leftarrow> arr_get (be_keys t) pos;
                if k < key then betree_findval_from t key (pos + 1) else Some pos }
      else Some pos)"
  by pat_completeness auto
termination
  by (relation "measure (\<lambda>(t, key, pos). be_size t - pos)") auto

definition betree_findval :: "benode \<Rightarrow> key \<Rightarrow> nat option" where
  "betree_findval t key = betree_findval_from t key 0"

text \<open>\<^verbatim>\<open>i < t->size && t->keys[i] == key\<close>\<close>

definition betree_key_at :: "benode \<Rightarrow> nat \<Rightarrow> key \<Rightarrow> bool option" where
  "betree_key_at t i key =
     (if i < be_size t then do { k \<leftarrow> arr_get (be_keys t) i; Some (k = key) } else Some False)"

definition betree_insert_child :: "addr \<Rightarrow> key \<Rightarrow> addr \<Rightarrow> addr \<Rightarrow> nat \<Rightarrow> bemem \<Rightarrow> bemem option" where
  "betree_insert_child t key t_l t_r pos m =
     mem_upd m t (\<lambda>n. do {
       ks \<leftarrow> arr_insert (be_keys n) (be_size n) pos key;
       cs \<leftarrow> arr_set (be_slots n) pos t_l;
       cs \<leftarrow> arr_insert cs (be_size n + 1) (pos + 1) t_r;
       Some (n\<lparr>be_keys := ks, be_slots := cs, be_size := be_size n + 1\<rparr>) })"

declare betree_findch_from.simps [simp del] betree_findval_from.simps [simp del]

definition betree_set_child :: "addr \<Rightarrow> nat \<Rightarrow> addr \<Rightarrow> bemem \<Rightarrow> bemem option" where
  "betree_set_child t i p m =
     mem_upd m t (\<lambda>n. do { cs \<leftarrow> arr_set (be_slots n) i p; Some (n\<lparr>be_slots := cs\<rparr>) })"

section \<open>Forgetting type, verge and height\<close>

definition be_kind :: "betree_type \<Rightarrow> btree_type" where
  "be_kind ty = (if ty = BE_LEAF then BT_LEAF else BT_INTERNAL)"

definition be_node :: "benode \<Rightarrow> bnode" where
  "be_node n = \<lparr>bt_ver = be_ver n, bt_type = be_kind (be_type n), bt_size = be_size n, bt_keys = be_keys n, bt_slots = be_slots n\<rparr>"

definition be_mem :: "bemem \<Rightarrow> bmem" where
  "be_mem m = \<lparr>cells = (\<lambda>a. map_option be_node (cells m a)), blocks = map (apsnd be_node) (blocks m)\<rparr>"

lemma be_node_simps [simp]:
  "bt_ver (be_node n) = be_ver n" "bt_size (be_node n) = be_size n" "bt_keys (be_node n) = be_keys n"
  "bt_slots (be_node n) = be_slots n" "bt_type (be_node n) = be_kind (be_type n)"
  by (simp_all add: be_node_def)

lemma be_kind_leaf [simp]:
  "be_kind ty = BT_LEAF \<longleftrightarrow> ty = BE_LEAF" "BT_LEAF = be_kind ty \<longleftrightarrow> ty = BE_LEAF" "be_kind BE_LEAF = BT_LEAF"
  "be_kind ty = BT_INTERNAL \<longleftrightarrow> ty \<noteq> BE_LEAF"
  by (auto simp: be_kind_def)

lemma be_B [simp]: "betree_B = btree_B"
  by (simp add: betree_B_def btree_B_def)

lemma cells_be_mem [simp]: "cells (be_mem m) a = map_option be_node (cells m a)"
  by (simp add: be_mem_def)

lemma be_get: "mem_get (be_mem m) a = map_option be_node (mem_get m a)"
  by (simp add: mem_get_def)

lemma be_alloc: "mem_alloc (be_mem m) = map_option (apsnd be_mem) (mem_alloc m)"
  by (auto simp: mem_alloc_def be_mem_def split: list.splits)

lemma be_free: "mem_free (be_mem m) a = map_option be_mem (mem_free m a)"
  by (auto simp: mem_free_def be_mem_def split: option.splits)

lemma be_upd:
  assumes "\<And>n. f (be_node n) = map_option be_node (g n)"
  shows "mem_upd (be_mem m) a f = map_option be_mem (mem_upd m a g)"
  using assms by (cases "cells m a") (auto simp: mem_upd_def be_mem_def fun_eq_iff split: bind_splits)

text \<open>Two programs that correspond step by step.\<close>

named_theorems be_step \<open>steps of corresponding programs\<close>

lemma be_bind_get [be_step]:
  "(\<And>n. f (be_node n) = map_option Q (g n)) \<Longrightarrow> Option.bind (mem_get (be_mem m) a) f = map_option Q (Option.bind (mem_get m a) g)"
  by (cases "mem_get m a") (simp_all add: be_get)

lemma be_bind_alloc [be_step]:
  "(\<And>t m. f (t, be_mem m) = map_option Q (g (t, m))) \<Longrightarrow>
   Option.bind (mem_alloc (be_mem m)) f = map_option Q (Option.bind (mem_alloc m) g)"
  by (cases "mem_alloc m") (auto simp: be_alloc)

lemma be_bind_free [be_step]:
  "(\<And>m. f (be_mem m) = map_option Q (g m)) \<Longrightarrow> Option.bind (mem_free (be_mem m) a) f = map_option Q (Option.bind (mem_free m a) g)"
  by (cases "mem_free m a") (auto simp: be_free)

lemma be_bind_upd [be_step]:
  "(\<And>n. u (be_node n) = map_option be_node (w n)) \<Longrightarrow> (\<And>m. f (be_mem m) = map_option Q (g m)) \<Longrightarrow>
   Option.bind (mem_upd (be_mem m) a u) f = map_option Q (Option.bind (mem_upd m a w) g)"
  using be_upd [of u w m a] by (cases "mem_upd m a w") auto

lemma be_bind_same [be_step]:
  "(\<And>x. f x = map_option Q (g x)) \<Longrightarrow> Option.bind x f = map_option Q (Option.bind x g)"
  by (cases x) auto

lemma be_if [be_step]:
  "(b \<Longrightarrow> x = map_option Q y) \<Longrightarrow> (\<not> b \<Longrightarrow> x' = map_option Q y') \<Longrightarrow> (if b then x else x') = map_option Q (if b then y else y')"
  by simp

text \<open>A call: from what is known of the callee, for results with and without a value.\<close>

lemma be_call:
  "x = map_option (apsnd be_mem) y \<Longrightarrow> (\<And>t m. f (t, be_mem m) = map_option Q (g (t, m))) \<Longrightarrow>
   Option.bind x f = map_option Q (Option.bind y g)"
  by (cases y) auto

lemma be_call_upd:
  "x = map_option be_mem y \<Longrightarrow> (\<And>m. f (be_mem m) = map_option Q (g m)) \<Longrightarrow>
   Option.bind x f = map_option Q (Option.bind y g)"
  by (cases y) auto

lemma be_call_up:
  "x = map_option (apsnd be_mem) y \<Longrightarrow> (\<And>p l r m. f ((p, l, r), be_mem m) = map_option Q (g ((p, l, r), m))) \<Longrightarrow>
   Option.bind x f = map_option Q (Option.bind y g)"
  by (cases y) auto

lemma be_new_node: "btree_new_node ver (be_kind ty) sz (be_mem m) = map_option (apsnd be_mem) (betree_new_node ver ty sz m)"
  unfolding btree_new_node_def betree_new_node_def
  by (rule be_step | simp add: be_node_def)+

lemmas be_new_node_leaf = be_new_node [of _ BE_LEAF, simplified]

lemma be_kind_lower: "be_kind BE_LOWER = BT_INTERNAL"
  by (simp add: be_kind_def)

lemmas be_new_node_lower = be_new_node [of _ BE_LOWER, unfolded be_kind_lower]

lemma be_new_leaf: "btree_new_leaf ver sz (be_mem m) = map_option (apsnd be_mem) (betree_new_leaf ver sz m)"
  unfolding btree_new_leaf_def betree_new_leaf_def be_B
  by (rule be_call [OF be_new_node_leaf] be_step | simp add: be_node_def)+

lemma be_new_internal: "btree_new_internal ver sz (be_mem m) = map_option (apsnd be_mem) (betree_new_internal ver sz m)"
  unfolding btree_new_internal_def betree_new_internal_def be_B
  by (rule be_call [OF be_new_node_lower] be_step | simp add: be_node_def)+

lemma be_new_root: "btree_new_root ver key ch0 ch1 (be_mem m) = map_option (apsnd be_mem) (betree_new_root ver key ch0 ch1 m)"
  unfolding btree_new_root_def betree_new_root_def
  by (rule be_call [OF be_new_internal] be_step | simp add: be_node_def)+

lemma be_copy_leaf: "btree_copy_leaf ver t (be_mem m) = map_option (apsnd be_mem) (betree_copy_leaf ver t m)"
  unfolding btree_copy_leaf_def betree_copy_leaf_def
  by (rule be_step | simp add: be_node_def)+

text \<open>\<^verbatim>\<open>copy_internal\<close> keeps the type of the node it copies, which is not a leaf.\<close>

lemma be_copy_internal:
  assumes "mem_get m t = Some n" "be_type n \<noteq> BE_LEAF"
  shows "btree_copy_internal ver t (be_mem m) = map_option (apsnd be_mem) (betree_copy_internal ver t m)"
proof -
  from assms(2) have k: "be_kind (be_type n) = BT_INTERNAL" by (simp add: be_kind_def)
  show ?thesis
    unfolding btree_copy_internal_def betree_copy_internal_def be_B be_get assms(1) option.map bind.bind_lunit
    by (rule be_step | simp add: be_node_def k)+
qed

lemma be_split: "btree_split ver t (be_mem m) = map_option (apsnd be_mem) (betree_split ver t m)"
  unfolding btree_split_def betree_split_def be_B
  by (rule be_call [OF be_new_internal] be_step | simp add: be_node_def)+

lemma be_copych: "btree_copych a b (be_mem m) = map_option be_mem (betree_copych a b m)"
  unfolding btree_copych_def betree_copych_def be_B
  by (rule be_step be_upd | simp add: be_node_def)+

lemma be_copych_split: "btree_copych_split t i a (be_mem m) = map_option be_mem (betree_copych_split t i a m)"
  unfolding btree_copych_split_def betree_copych_split_def be_B
  by (rule be_step be_upd | simp add: be_node_def)+

lemma be_findch: "btree_findch (be_node n) key = betree_findch n key"
proof -
  have "btree_findch_from (be_node n) key pos = betree_findch_from n key pos" for pos
    by (induction n key pos rule: betree_findch_from.induct)
      (subst btree_findch_from.simps, subst betree_findch_from.simps, auto intro!: Option.bind_cong)
  then show ?thesis by (simp add: btree_findch_def betree_findch_def)
qed

lemma be_findval: "btree_findval (be_node n) key = betree_findval n key"
proof -
  have "btree_findval_from (be_node n) key pos = betree_findval_from n key pos" for pos
    by (induction n key pos rule: betree_findval_from.induct)
      (subst btree_findval_from.simps, subst betree_findval_from.simps, auto intro!: Option.bind_cong)
  then show ?thesis by (simp add: btree_findval_def betree_findval_def)
qed

lemma be_key_at: "btree_key_at (be_node n) i key = betree_key_at n i key"
  by (simp add: btree_key_at_def betree_key_at_def)

lemma be_insert_child: "btree_insert_child t key t_l t_r pos (be_mem m) = map_option be_mem (betree_insert_child t key t_l t_r pos m)"
  unfolding btree_insert_child_def betree_insert_child_def
  by (rule be_step be_upd | simp add: be_node_def)+

lemma be_set_child: "btree_set_child t i p (be_mem m) = map_option be_mem (betree_set_child t i p m)"
  unfolding btree_set_child_def betree_set_child_def
  by (rule be_step be_upd | simp add: be_node_def)+

text \<open>A store that the projection does not see.\<close>

lemma be_upd_hidden:
  assumes "cells m a = Some n" "be_node (f n) = be_node n"
  obtains m' where "mem_upd m a (\<lambda>n. Some (f n)) = Some m'" "be_mem m' = be_mem m"
  using assms by (auto simp: mem_upd_def be_mem_def fun_eq_iff)

text \<open>A memory with enough blocks of the right shape.\<close>

definition benode_ok :: "benode \<Rightarrow> bool" where
  "benode_ok n \<longleftrightarrow> bnode_ok (be_node n)"

lemma be_mem_ok: "mem_ok bnode_ok k (be_mem m) \<longleftrightarrow> mem_ok benode_ok k m"
proof -
  have 1: "map fst (blocks (be_mem m)) = map fst (blocks m)" "length (blocks (be_mem m)) = length (blocks m)"
    by (auto simp: be_mem_def)
  have 2: "(\<forall>b \<in> set (blocks (be_mem m)). fst b \<noteq> nullptr \<and> cells (be_mem m) (fst b) = None \<and> bnode_ok (snd b)) \<longleftrightarrow>
    (\<forall>b \<in> set (blocks m). fst b \<noteq> nullptr \<and> cells m (fst b) = None \<and> benode_ok (snd b))"
    by (auto simp: be_mem_def benode_ok_def)
  show ?thesis unfolding mem_ok_def 1 2 ..
qed

end
