(* ===== verification/Betree_Query.thy ===== *)
theory Betree_Query
  imports Betree_Node
begin

text \<open>
  \<^verbatim>\<open>lib/trees/betree/query.hpp\<close>: \<^verbatim>\<open>find\<close> and \<^verbatim>\<open>scan\<close> of the elastic tree, which only ask whether a
  node is a leaf, and so behave as those of the B+-tree on the projected memory.
\<close>

section \<open>The code\<close>

text \<open>\<^verbatim>\<open>while (t->type != LEAF) { t = t->chs[findch(t, key)]; }\<close>\<close>

fun betree_descend :: "nat \<Rightarrow> addr \<Rightarrow> key \<Rightarrow> bemem \<Rightarrow> addr option" where
  "betree_descend 0 t key m = None"
| "betree_descend (Suc fuel) t key m =
     do { n \<leftarrow> mem_get m t;
          if be_type n \<noteq> BE_LEAF
          then do { i \<leftarrow> betree_findch n key; c \<leftarrow> arr_get (be_slots n) i; betree_descend fuel c key m }
          else Some t }"

definition betree_find :: "nat \<Rightarrow> addr \<Rightarrow> key \<Rightarrow> bemem \<Rightarrow> val option option" where
  "betree_find fuel t key m =
     (if t = nullptr then Some None
      else do {
        t \<leftarrow> betree_descend fuel t key m;
        n \<leftarrow> mem_get m t;
        i \<leftarrow> betree_findval n key;
        hit \<leftarrow> betree_key_at n i key;
        if hit then do { v \<leftarrow> arr_get (be_slots n) i; Some (Some v) } else Some None })"

text \<open>The second loop of \<^verbatim>\<open>scan_append\<close>, over the bindings of a leaf.\<close>

function betree_scan_leaf :: "benode \<Rightarrow> nat \<Rightarrow> nat \<Rightarrow> kv list \<Rightarrow> kv list option" where
  "betree_scan_leaf t i n ret =
     (if length ret < n \<and> i < be_size t
      then do { k \<leftarrow> arr_get (be_keys t) i; v \<leftarrow> arr_get (be_slots t) i;
                betree_scan_leaf t (i + 1) n (ret @ [(k, v)]) }
      else Some ret)"
  by pat_completeness auto
termination
  by (relation "measure (\<lambda>(t, i, n, ret). be_size t - i)") auto

text \<open>\<open>betree_scan_children\<close> is the first loop of \<^verbatim>\<open>scan_append\<close>, over the children.\<close>

function betree_scan_append :: "nat \<Rightarrow> addr \<Rightarrow> nat \<Rightarrow> nat \<Rightarrow> kv list \<Rightarrow> bemem \<Rightarrow> kv list option"
  and betree_scan_children :: "nat \<Rightarrow> benode \<Rightarrow> nat \<Rightarrow> nat \<Rightarrow> kv list \<Rightarrow> bemem \<Rightarrow> kv list option" where
  "betree_scan_append 0 t i n ret m = None"
| "betree_scan_append (Suc fuel) t i n ret m =
     do { x \<leftarrow> mem_get m t;
          if be_type x \<noteq> BE_LEAF then betree_scan_children fuel x i n ret m
          else betree_scan_leaf x i n ret }"
| "betree_scan_children fuel x i n ret m =
     (if length ret < n \<and> i \<le> be_size x
      then do { c \<leftarrow> arr_get (be_slots x) i;
                ret \<leftarrow> betree_scan_append fuel c 0 n ret m;
                betree_scan_children fuel x (i + 1) n ret m }
      else Some ret)"
  by pat_completeness auto
termination
  by (relation "measures [\<lambda>s. case s of Inl (f, _) \<Rightarrow> f | Inr (f, _) \<Rightarrow> f,
        \<lambda>s. case s of Inl _ \<Rightarrow> 0 | Inr (f, x, i, _) \<Rightarrow> Suc (be_size x) - i + 1]") auto

fun betree_scan_search :: "nat \<Rightarrow> addr \<Rightarrow> key \<Rightarrow> nat \<Rightarrow> kv list \<Rightarrow> bemem \<Rightarrow> kv list option" where
  "betree_scan_search 0 t key n ret m = None"
| "betree_scan_search (Suc fuel) t key n ret m =
     do { x \<leftarrow> mem_get m t;
          if be_type x = BE_LEAF
          then do { i \<leftarrow> betree_findval x key; betree_scan_append (Suc fuel) t i n ret m }
          else do {
            i \<leftarrow> betree_findch x key;
            c \<leftarrow> arr_get (be_slots x) i;
            ret \<leftarrow> betree_scan_search fuel c key n ret m;
            betree_scan_append (Suc fuel) t (i + 1) n ret m } }"

definition betree_scan :: "nat \<Rightarrow> addr \<Rightarrow> key \<Rightarrow> nat \<Rightarrow> bemem \<Rightarrow> kv list option" where
  "betree_scan fuel t key n m = betree_scan_search fuel t key n [] m"

declare betree_scan_leaf.simps [simp del] betree_scan_children.simps [simp del]

section \<open>The same answers as the B+-tree\<close>

lemma be_bind_get_same:
  "(\<And>n. mem_get m a = Some n \<Longrightarrow> f (be_node n) = g n) \<Longrightarrow> Option.bind (mem_get (be_mem m) a) f = Option.bind (mem_get m a) g"
  by (cases "mem_get m a") (simp_all add: be_get)

lemma be_descend: "btree_descend fuel t key (be_mem m) = betree_descend fuel t key m"
  by (induction fuel arbitrary: t) (auto intro!: be_bind_get_same Option.bind_cong simp: be_findch)

lemma be_find: "btree_find fuel t key (be_mem m) = betree_find fuel t key m"
  unfolding btree_find_def betree_find_def be_descend
  by (auto intro!: be_bind_get_same Option.bind_cong simp: be_findval be_key_at)

lemma be_scan_leaf: "btree_scan_leaf (be_node t) i n ret = betree_scan_leaf t i n ret"
  by (induction t i n ret rule: betree_scan_leaf.induct)
    (subst btree_scan_leaf.simps, subst betree_scan_leaf.simps, auto intro!: Option.bind_cong)

lemma be_scan_append:
  "btree_scan_append fuel t i n ret (be_mem m) = betree_scan_append fuel t i n ret m"
  "btree_scan_children fuel (be_node x) i n ret (be_mem m) = betree_scan_children fuel x i n ret m"
proof (induction fuel t i n ret m and fuel x i n ret m rule: betree_scan_append_betree_scan_children.induct)
  case (2 fuel t i n ret m)
  then show ?case by (auto intro!: be_bind_get_same simp: be_scan_leaf)
next
  case (3 fuel x i n ret m)
  then show ?case
    by (subst btree_scan_children.simps, subst betree_scan_children.simps) (auto intro!: Option.bind_cong)
qed simp

lemma be_scan_search: "btree_scan_search fuel t key n ret (be_mem m) = betree_scan_search fuel t key n ret m"
  by (induction fuel arbitrary: t ret)
    (auto intro!: be_bind_get_same Option.bind_cong simp: be_scan_append be_findch be_findval
      simp del: btree_scan_append.simps betree_scan_append.simps)

lemma be_scan: "btree_scan fuel t key n (be_mem m) = betree_scan fuel t key n m"
  by (simp add: btree_scan_def betree_scan_def be_scan_search)

end
