(* ===== verification/Betree_Inplace.thy ===== *)
theory Betree_Inplace
  imports Betree_Query
begin

text \<open>
  \<^verbatim>\<open>lib/trees/betree/update_inplace.hpp\<close>: the in-place update of the elastic tree, used while
  loading. On the projected memory it does what the update of the B+-tree does; beyond that it
  hands the \<^verbatim>\<open>verge\<close> of the old root to the new one.
\<close>

section \<open>The code\<close>

definition betree_leaf_split ::
  "32 word \<Rightarrow> addr \<Rightarrow> nat \<Rightarrow> key \<Rightarrow> val \<Rightarrow> bemem \<Rightarrow> ((key \<times> addr \<times> addr) \<times> bemem) option" where
  "betree_leaf_split ver t i k v m =
     do { (t_l, m) \<leftarrow> betree_new_leaf ver betree_B m;
          (t_r, m) \<leftarrow> betree_new_leaf ver betree_B m;
          src \<leftarrow> mem_get m t;
          m \<leftarrow> (if i < betree_B
            then do {
              m \<leftarrow> mem_upd m t_l (\<lambda>n. do {
                     ks \<leftarrow> arr_copy_insert (be_keys n) (be_keys src) (betree_B - 1) i k;
                     vs \<leftarrow> arr_copy_insert (be_slots n) (be_slots src) (betree_B - 1) i v;
                     Some (n\<lparr>be_keys := ks, be_slots := vs\<rparr>) });
              mem_upd m t_r (\<lambda>n. do {
                ks \<leftarrow> arr_copy (be_keys n) (drop (betree_B - 1) (be_keys src)) betree_B;
                vs \<leftarrow> arr_copy (be_slots n) (drop (betree_B - 1) (be_slots src)) betree_B;
                Some (n\<lparr>be_keys := ks, be_slots := vs\<rparr>) }) }
            else do {
              m \<leftarrow> mem_upd m t_l (\<lambda>n. do {
                     ks \<leftarrow> arr_copy (be_keys n) (be_keys src) betree_B;
                     vs \<leftarrow> arr_copy (be_slots n) (be_slots src) betree_B;
                     Some (n\<lparr>be_keys := ks, be_slots := vs\<rparr>) });
              mem_upd m t_r (\<lambda>n. do {
                ks \<leftarrow> arr_copy_insert (be_keys n) (drop betree_B (be_keys src)) (betree_B - 1) (i - betree_B) k;
                vs \<leftarrow> arr_copy_insert (be_slots n) (drop betree_B (be_slots src)) (betree_B - 1) (i - betree_B) v;
                Some (n\<lparr>be_keys := ks, be_slots := vs\<rparr>) }) });
          n_r \<leftarrow> mem_get m t_r;
          p \<leftarrow> arr_get (be_keys n_r) 0;
          Some ((p, t_l, t_r), m) }"

definition betree_update_leaf_inplace ::
  "addr \<Rightarrow> key \<Rightarrow> val \<Rightarrow> bemem \<Rightarrow> ((key \<times> addr \<times> addr) \<times> bemem) option" where
  "betree_update_leaf_inplace t k v m =
     do { n \<leftarrow> mem_get m t;
          i \<leftarrow> betree_findval n k;
          hit \<leftarrow> betree_key_at n i k;
          if hit
          then do {
            m \<leftarrow> mem_upd m t (\<lambda>n. do { vs \<leftarrow> arr_set (be_slots n) i v; Some (n\<lparr>be_slots := vs\<rparr>) });
            Some ((k, t, nullptr), m) }
          else if be_size n < 2 * betree_B - 1
          then do {
            m \<leftarrow> mem_upd m t (\<lambda>n. do {
                   ks \<leftarrow> arr_insert (be_keys n) (be_size n) i k;
                   vs \<leftarrow> arr_insert (be_slots n) (be_size n) i v;
                   Some (n\<lparr>be_keys := ks, be_slots := vs, be_size := be_size n + 1\<rparr>) });
            Some ((k, t, nullptr), m) }
          else betree_leaf_split 0 t i k v m }"

fun betree_update_internal_inplace :: "nat \<Rightarrow> addr \<Rightarrow> key \<Rightarrow> val \<Rightarrow> bemem \<Rightarrow> bemem option" where
  "betree_update_internal_inplace 0 t k v m = None"
| "betree_update_internal_inplace (Suc fuel) t k v m =
     do { n \<leftarrow> mem_get m t;
          i \<leftarrow> betree_findch n k;
          ch \<leftarrow> arr_get (be_slots n) i;
          c \<leftarrow> mem_get m ch;
          if be_type c = BE_LEAF
          then do {
            ((p, t_l, t_r), m) \<leftarrow> betree_update_leaf_inplace ch k v m;
            if t_r \<noteq> nullptr
            then do { m \<leftarrow> mem_free m ch; betree_insert_child t p t_l t_r i m }
            else Some m }
          else if be_size c < 2 * betree_B - 1
          then betree_update_internal_inplace fuel ch k v m
          else do {
            ((p, t_l, t_r), m) \<leftarrow> betree_split 0 ch m;
            m \<leftarrow> betree_insert_child t p t_l t_r i m;
            m \<leftarrow> betree_copych_split t i ch m;
            m \<leftarrow> mem_free m ch;
            n \<leftarrow> mem_get m t;
            c \<leftarrow> arr_get (be_slots n) (if p \<le> k then i + 1 else i);
            betree_update_internal_inplace fuel c k v m } }"

text \<open>\<^verbatim>\<open>t_new->verge = t->verge\<close>\<close>

definition betree_set_verge :: "addr \<Rightarrow> addr \<Rightarrow> bemem \<Rightarrow> bemem option" where
  "betree_set_verge t_new t m =
     do { n \<leftarrow> mem_get m t; mem_upd m t_new (\<lambda>x. Some (x\<lparr>be_verge := be_verge n\<rparr>)) }"

definition betree_update_root_inplace :: "nat \<Rightarrow> addr \<Rightarrow> key \<Rightarrow> val \<Rightarrow> bemem \<Rightarrow> (addr \<times> bemem) option" where
  "betree_update_root_inplace fuel t k v m =
     do { n \<leftarrow> mem_get m t;
          if be_type n = BE_LEAF
          then do {
            ((p, t_l, t_r), m) \<leftarrow> betree_update_leaf_inplace t k v m;
            if t_r \<noteq> nullptr
            then do {
              (t_new, m) \<leftarrow> betree_new_root 0 p t_l t_r m;
              m \<leftarrow> betree_set_verge t_new t m;
              m \<leftarrow> mem_free m t;
              Some (t_new, m) }
            else Some (t, m) }
          else if be_size n < 2 * betree_B - 1
          then do { m \<leftarrow> betree_update_internal_inplace fuel t k v m; Some (t, m) }
          else do {
            ((p, t_l, t_r), m) \<leftarrow> betree_split 0 t m;
            (t_new, m) \<leftarrow> betree_new_root 0 p t_l t_r m;
            m \<leftarrow> betree_copych_split t_new 0 t m;
            m \<leftarrow> betree_set_verge t_new t m;
            m \<leftarrow> mem_free m t;
            n \<leftarrow> mem_get m t_new;
            c \<leftarrow> arr_get (be_slots n) (if p \<le> k then 1 else 0);
            m \<leftarrow> betree_update_internal_inplace fuel c k v m;
            Some (t_new, m) } }"

section \<open>The same effect as the B+-tree\<close>

lemma be_leaf_split: "btree_leaf_split ver t i k v (be_mem m) = map_option (apsnd be_mem) (betree_leaf_split ver t i k v m)"
  unfolding btree_leaf_split_def betree_leaf_split_def be_B if_distribR
  by (rule be_call [OF be_new_leaf] be_call_upd be_step be_upd | simp add: be_node_def)+

lemma be_update_leaf_inplace:
  "btree_update_leaf_inplace t k v (be_mem m) = map_option (apsnd be_mem) (betree_update_leaf_inplace t k v m)"
  unfolding btree_update_leaf_inplace_def betree_update_leaf_inplace_def be_B
  by (rule be_step be_upd be_leaf_split | simp add: be_findval be_key_at split del: if_split | simp add: be_node_def)+

lemma be_update_internal_inplace:
  "btree_update_internal_inplace fuel t k v (be_mem m) = map_option be_mem (betree_update_internal_inplace fuel t k v m)"
proof (induction fuel arbitrary: t m)
  case (Suc fuel)
  show ?case
    unfolding btree_update_internal_inplace.simps betree_update_internal_inplace.simps be_B
    by (rule be_call_up [OF be_update_leaf_inplace] be_call_up [OF be_split] be_call_upd [OF be_insert_child]
        be_call_upd [OF be_copych_split] be_step Suc.IH be_insert_child | simp add: be_findch split del: if_split)+
qed simp

lemma be_set_verge:
  assumes "cells m t \<noteq> None" "cells m a \<noteq> None"
  obtains m' where "betree_set_verge a t m = Some m'" "be_mem m' = be_mem m"
proof -
  from assms obtain n x where n: "mem_get m t = Some n" "cells m a = Some x" by (auto simp: mem_get_def)
  have "be_node (x\<lparr>be_verge := be_verge n\<rparr>) = be_node x" by (simp add: be_node_def)
  from be_upd_hidden [where f = "\<lambda>x. x\<lparr>be_verge := be_verge n\<rparr>", OF n(2) this] obtain m' where
    "mem_upd m a (\<lambda>x. Some (x\<lparr>be_verge := be_verge n\<rparr>)) = Some m'" "be_mem m' = be_mem m" .
  with n that show thesis by (simp add: betree_set_verge_def)
qed

lemma betree_copych_split_cells:
  assumes "betree_copych_split t i old m = Some m'"
  shows "cells m' t \<noteq> None" "cells m' old \<noteq> None"
  using assms
  by (auto simp: betree_copych_split_def mem_get_def mem_upd_def split: bind_splits)

lemma be_call_split_verge:
  assumes "\<And>m'. f (be_mem m') = map_option Q (g m')"
  shows "Option.bind (btree_copych_split z i a (be_mem m)) f =
    map_option Q (Option.bind (betree_copych_split z i a m) (\<lambda>m. Option.bind (betree_set_verge z a m) g))"
proof (cases "betree_copych_split z i a m")
  case None
  then show ?thesis by (simp add: be_copych_split)
next
  case (Some m1)
  from be_set_verge [OF betree_copych_split_cells(2,1) [OF Some]] obtain m2 where
    "betree_set_verge z a m1 = Some m2" "be_mem m2 = be_mem m1" .
  with Some assms [of m2] show ?thesis by (simp add: be_copych_split)
qed

text \<open>
  When a leaf that is the root splits, the B+-tree frees it before it allocates the new root, the
  elastic tree after: the result is the same, for the new root is a block that is not in use.
\<close>

lemma be_new_root_free:
  assumes "mem_ok benode_ok 1 m" "cells m t \<noteq> None"
  shows "Option.bind (mem_free (be_mem m) t) (btree_new_root 0 p l r) =
    map_option (apsnd be_mem) (do { (t_new, m) \<leftarrow> betree_new_root 0 p l r m;
      m \<leftarrow> betree_set_verge t_new t m; m \<leftarrow> mem_free m t; Some (t_new, m) })"
proof -
  from assms(1) obtain a junk bs where b: "blocks m = (a, junk) # bs" "cells m a = None" "benode_ok junk"
    by (cases "blocks m") (auto simp: mem_ok_def)
  have "a \<noteq> t" using b(2) assms(2) by auto
  have len: "length (be_keys junk) = 15" "length (be_slots junk) = 16"
    using b(3) by (simp_all add: benode_ok_def bnode_ok_def)
  define n where "n = junk\<lparr>be_ver := 0, be_type := BE_LOWER, be_verge := 0, be_size := 1, be_height := 0,
    be_keys := (take 1 (be_keys junk) @ replicate 14 0)[0 := p],
    be_slots := (take 2 (be_slots junk) @ replicate 14 0)[0 := l, 1 := r]\<rparr>"
  have new: "betree_new_root 0 p l r x = Some (a, x\<lparr>cells := (cells x)(a \<mapsto> n), blocks := bs\<rparr>)"
    if "blocks x = (a, junk) # bs" for x
    using that len
    by (simp add: betree_new_root_def betree_new_internal_def betree_new_node_def mem_alloc_def mem_simps
        betree_B_def [simplified] n_def eval_nat_numeral)
  obtain y where y: "cells m t = Some y" using assms(2) by blast
  let ?m = "m\<lparr>cells := (cells m)(t := None)\<rparr>"
  have "mem_free (be_mem m) t = Some (be_mem ?m)" using y by (simp add: be_free mem_simps)
  then have "Option.bind (mem_free (be_mem m) t) (btree_new_root 0 p l r) = map_option (apsnd be_mem) (betree_new_root 0 p l r ?m)"
    by (simp add: be_new_root)
  also have "\<dots> = Some (a, be_mem (m\<lparr>cells := (cells m)(t := None, a \<mapsto> n), blocks := bs\<rparr>))"
    using new [of ?m] b(1) by simp
  also have "\<dots> = map_option (apsnd be_mem) (do { (t_new, m) \<leftarrow> betree_new_root 0 p l r m;
      m \<leftarrow> betree_set_verge t_new t m; m \<leftarrow> mem_free m t; Some (t_new, m) })"
    using new [OF b(1)] y \<open>a \<noteq> t\<close>
    by (simp add: betree_set_verge_def mem_simps) (simp add: be_mem_def be_node_def fun_eq_iff)
  finally show ?thesis .
qed

lemma be_update_root_inplace:
  assumes "repr (cells (be_mem m)) t" "mem_ok benode_ok 3 m"
  shows "btree_update_root_inplace fuel (addr_of t) k v (be_mem m) =
    map_option (apsnd be_mem) (betree_update_root_inplace fuel (addr_of t) k v m)"
proof (cases t)
  case (ALeaf a kvs)
  with assms(1) obtain n x where n: "cells m a = Some x" "n = be_node x" "leaf_node n kvs" "a \<noteq> nullptr" by auto
  have c: "cells (be_mem m) a = Some n" using n(1,2) by simp
  have ok3: "mem_ok bnode_ok (1 + 2) (be_mem m)" using assms(2) by (simp add: be_mem_ok eval_nat_numeral)
  obtain r M u where
    M: "btree_update_leaf_inplace a k v (be_mem m) = Some (r, M)" "mem_ok bnode_ok 1 M"
    "heap_step (cells (be_mem m)) {a} (cells M) (insert a (set (footprint_up u)))"
    by (rule update_leaf_inplace_ok [where k = k and v = v, OF c n(3,4) ok3])
  then obtain m1 where m1: "betree_update_leaf_inplace a k v m = Some (r, m1)" "M = be_mem m1"
    unfolding be_update_leaf_inplace by (cases "betree_update_leaf_inplace a k v m") auto
  obtain p l r' where r: "r = (p, l, r')" by (cases r) auto
  have ok: "mem_ok benode_ok 1 m1" using M(2) m1(2) by (simp add: be_mem_ok)
  have "cells M a \<noteq> None" using M(3) by (simp add: heap_step_def)
  then have "cells m1 a \<noteq> None" by (simp add: m1(2))
  from be_new_root_free [OF ok this] show ?thesis
    using n M(1) m1 r leaf_is_leaf [OF n(3)]
    by (simp add: btree_update_root_inplace_def betree_update_root_inplace_def ALeaf mem_get_def)
next
  case (ANode a us js)
  with assms(1) obtain x where x: "cells m a = Some x" "be_type x \<noteq> BE_LEAF" by (auto simp: inner_node_def)
  have g: "mem_get m a = Some x" using x(1) by (simp add: mem_get_def)
  show ?thesis
    unfolding btree_update_root_inplace_def betree_update_root_inplace_def ANode addr_of.simps be_get be_B g
      option.map bind.bind_lunit
    using x(2)
    by (auto intro!: be_call_up [OF be_split] be_call [OF be_new_root] be_call_split_verge be_step
        be_call_upd [OF be_update_internal_inplace])
qed

end
