(* ===== verification/Betree_Child.thy ===== *)
theory Betree_Child
  imports Btree_Cow
begin

text \<open>
  Replacing a child of a fresh node by an updated copy of the whole subtree below it, as the
  elastic tree does below a boundary: the child is a leaf, an internal node with room, or a full
  one, which splits under a new root of its own. Everything here is in terms of the node
  operations of the B+-tree; the elastic tree reaches it through its projection.
\<close>

section \<open>Putting the new child into the fresh node\<close>

lemma cow_put_child:
  assumes "reprs (h(c := None)) (ts1 @ t # ts2)" "c \<noteq> nullptr" "h(c := None) \<subseteq>\<^sub>m h'" "repr h' t'"
    "set (footprint t') \<subseteq> set (footprint t) \<union> - dom h" "h' c = Some n'" "inner_node n' ks (map addr_of (ts1 @ t' # ts2))"
  shows "cow_step h h' c (ts1 @ t # ts2) (ANode c (ts1 @ t' # ts2) ks)"
  using cow_put_back [where us = "[t']", OF assms(1-3) _ assms(6)] assms(4,5,7) by simp

lemma slot_upd: "length xs = i \<Longrightarrow> (xs @ y # ys)[i := z] = xs @ z # ys"
  by auto

section \<open>A leaf\<close>

definition leaf_child :: "32 word \<Rightarrow> key \<Rightarrow> val \<Rightarrow> addr \<Rightarrow> nat \<Rightarrow> addr \<Rightarrow> bmem \<Rightarrow> bmem option" where
  "leaf_child ver k v c i b m =
     do { ((p, l, r), m) \<leftarrow> btree_update_leaf_cow ver k v b m;
          (t, m) \<leftarrow> (if r = nullptr then Some (l, m) else btree_new_root ver p l r m);
          btree_set_child c i t m }"

text \<open>A leaf updated copy on write, under a new root when it splits.\<close>

lemma leaf_root_ok:
  assumes "cells m b = Some y" "leaf_node y kvs" "mem_ok bnode_ok (j + 3) m"
  obtains p l r m1 t m2 u g where "btree_update_leaf_cow ver k v b m = Some ((p, l, r), m1)"
    "(if r = nullptr then Some (l, m1) else btree_new_root ver p l r m1) = Some (t, m2)" "addr_of u = t"
    "repr (cells m2) u" "cells m \<subseteq>\<^sub>m cells m2" "set (footprint u) \<subseteq> - dom (cells m)" "mem_ok bnode_ok j m2"
    "erase u = bt_insert (ow_cow g) k v (BLeaf kvs)" "r \<noteq> nullptr \<longrightarrow> bt_inner (erase u)"
proof -
  have ok2: "mem_ok bnode_ok (Suc j + 2) m" using assms(3) by (simp add: eval_nat_numeral)
  obtain r u m1 g where m1: "btree_update_leaf_cow ver k v b m = Some (r, m1)" "mem_ok bnode_ok (Suc j) m1"
    "repr_up (cells m1) r u" "erase_up u = leaf_upd (ow_cow g) kvs k v"
    "heap_step (cells m) {} (cells m1) (set (footprint_up u))" "distinct (footprint_up u)"
    by (rule update_leaf_cow_ok [where ver = ver and k = k and v = v, OF assms(1,2) ok2])
  obtain p l r' where r: "r = (p, l, r')" by (cases r) auto
  have le: "cells m \<subseteq>\<^sub>m cells m1" by (rule heap_step_map_le [OF m1(5)])
  show thesis
  proof (cases u)
    case (AOne t')
    with m1(3) r have t': "repr (cells m1) t'" "addr_of t' = l" "r' = nullptr" by simp_all
    have e: "erase t' = bt_insert (ow_cow g) k v (BLeaf kvs)" using m1(4) [symmetric] AOne by simp
    have fp: "set (footprint t') \<subseteq> - dom (cells m)" using heap_step_fresh [OF m1(5)] AOne by simp
    have "mem_ok bnode_ok j m1" by (rule mem_ok_mono [OF m1(2)]) simp
    from that [OF m1(1) [unfolded r] _ t'(2,1) le fp this e] t'(3) show thesis by simp
  next
    case (ATwo tl q tr)
    with m1(3) r have t': "repr (cells m1) tl" "repr (cells m1) tr" "addr_of tl = l" "addr_of tr = r'" "p = q" by simp_all
    have nn: "r' \<noteq> nullptr" using repr_not_null [OF t'(2)] t'(4) by simp
    obtain z nz m2 where m2: "btree_new_root ver p l r' m1 = Some (z, m2)" "mem_new bnode_ok j m1 z nz m2"
      "inner_node nz [p] [l, r']" "bt_ver nz = ver" by (rule new_root_ok [OF m1(2)])
    then have c2: "cells m2 = (cells m1)(z \<mapsto> nz)" "mem_ok bnode_ok j m2" "z \<noteq> nullptr" "cells m1 z = None"
      by (simp_all add: mem_new_def)
    have "heap_step (cells m) {} (cells m1) (set (footprints [tl, tr]))" using m1(5) ATwo by simp
    moreover have "reprs (cells m1) [tl, tr]" "distinct (footprints [tl, tr])"
      "inner_node nz [p] [addr_of tl, addr_of tr]" using t' m2(3) m1(6) ATwo by simp_all
    ultimately have ro: "repr (cells m2) (ANode z [tl, tr] [p])"
      "heap_step (cells m) {} (cells m2) (set (footprint (ANode z [tl, tr] [p])))"
      using root_over [OF _ _ _ c2(4,3) _ c2(1)] by blast+
    have e: "erase (ANode z [tl, tr] [p]) = bt_insert (ow_cow g) k v (BLeaf kvs)"
      using m1(4) [symmetric] ATwo t' by simp
    from that [OF m1(1) [unfolded r] _ _ ro(1) heap_step_map_le [OF ro(2)] heap_step_fresh [OF ro(2)] c2(2) e] m2(1) nn
    show thesis by simp
  qed
qed

lemma leaf_child_ok:
  assumes "cells m c = Some n" "inner_node n ks (map addr_of (ts1 @ ALeaf b kvs # ts2))" "c \<noteq> nullptr"
    "reprs ((cells m)(c := None)) (ts1 @ ALeaf b kvs # ts2)" "mem_ok bnode_ok (j + 3) m"
  obtains m' t' g where "leaf_child ver k v c (length ts1) b m = Some m'" "mem_ok bnode_ok j m'"
    "cow_step (cells m) (cells m') c (ts1 @ ALeaf b kvs # ts2) (ANode c (ts1 @ t' # ts2) ks)"
    "erase t' = bt_insert (ow_cow g) k v (BLeaf kvs)"
proof -
  from assms(4) obtain y where y: "cells m b = Some y" "leaf_node y kvs" by (auto split: if_splits)
  obtain p l r m1 t m2 u g where u: "btree_update_leaf_cow ver k v b m = Some ((p, l, r), m1)"
    "(if r = nullptr then Some (l, m1) else btree_new_root ver p l r m1) = Some (t, m2)" "addr_of u = t"
    "repr (cells m2) u" "cells m \<subseteq>\<^sub>m cells m2" "set (footprint u) \<subseteq> - dom (cells m)" "mem_ok bnode_ok j m2"
    "erase u = bt_insert (ow_cow g) k v (BLeaf kvs)"
    by (rule leaf_root_ok [where ver = ver and k = k and v = v, OF y assms(5)])
  have c2: "cells m2 c = Some n" by (rule map_le_Some [OF u(5) assms(1)])
  have il: "length ts1 < length (map addr_of (ts1 @ ALeaf b kvs # ts2))" by simp
  from set_child_ok [where p = t, OF c2 assms(2) il u(7)] obtain n2 m3 where
    m3: "btree_set_child c (length ts1) t m2 = Some m3" "mem_set bnode_ok j m2 c n2 m3"
    "inner_node n2 ks ((map addr_of (ts1 @ ALeaf b kvs # ts2))[length ts1 := t])" .
  then have c3: "cells m3 = (cells m2)(c \<mapsto> n2)" "mem_ok bnode_ok j m3" by (simp_all add: mem_set_def)
  have "(map addr_of (ts1 @ ALeaf b kvs # ts2))[length ts1 := t] = map addr_of (ts1 @ u # ts2)"
    using slot_upd [of "map addr_of ts1" "length ts1"] u(3) by simp
  note n2 = m3(3) [unfolded this]
  have "c \<notin> set (footprint u)" using u(6) assms(1) by blast
  then have "repr (cells m3) u" using u(4) by (simp add: c3 repr_upd)
  moreover have "(cells m)(c := None) \<subseteq>\<^sub>m cells m3" using u(5) by (auto simp: c3 map_le_def)
  moreover have "set (footprint u) \<subseteq> set (footprint (ALeaf b kvs)) \<union> - dom (cells m)" using u(6) by blast
  moreover have "cells m3 c = Some n2" by (simp add: c3)
  ultimately have "cow_step (cells m) (cells m3) c (ts1 @ ALeaf b kvs # ts2) (ANode c (ts1 @ u # ts2) ks)"
    using cow_put_child [OF assms(4,3)] n2 by blast
  moreover have "leaf_child ver k v c (length ts1) b m = Some m3"
    using u(1,2) m3(1) by (simp add: leaf_child_def)
  ultimately show thesis using that c3(2) u(8) by blast
qed

section \<open>An internal node with room\<close>

lemma room_child_ok:
  assumes "cells m c = Some n" "inner_node n ks (map addr_of (ts1 @ ANode b us js # ts2))" "c \<noteq> nullptr"
    "reprs ((cells m)(c := None)) (ts1 @ ANode b us js # ts2)" "length js < 15" "\<forall>t \<in> set us. aheight t < fuel"
    "mem_ok bnode_ok (Suc (2 * fuel + j)) m"
  obtains l m1 m2 m3 where "btree_copy_internal ver b m = Some (l, m1)" "btree_set_child c (length ts1) l m1 = Some m2"
    "btree_copych l b m2 = Some m3"
    "\<And>x. cx_t_cur x = l \<Longrightarrow> \<exists>x' m' g t'. btree_cow_from fuel x m3 = Some (x', m') \<and> cx_root x' = cx_root x \<and> mem_ok bnode_ok j m' \<and>
      cow_step (cells m) (cells m') c (ts1 @ ANode b us js # ts2) (ANode c (ts1 @ t' # ts2) ks) \<and>
      erase t' = bt_insert (ow_cow g) (cx_key x) (cx_val x) (BNode (map erase us) js)"
proof -
  from assms(4) obtain y where y: "cells m b = Some y" "inner_node y js (map addr_of us)" "b \<noteq> c"
    "reprs ((cells m)(c := None)) us" by (auto split: if_splits)
  obtain l n1 m1 where m1: "btree_copy_internal ver b m = Some (l, m1)" "mem_new bnode_ok (2 * fuel + j) m l n1 m1"
    "inner_shell n1 js" by (rule copy_internal_ok [where ver = ver, OF y(1,2) assms(7)])
  then have c1: "cells m1 = (cells m)(l \<mapsto> n1)" "mem_ok bnode_ok (2 * fuel + j) m1" "cells m l = None" "l \<noteq> nullptr"
    by (simp_all add: mem_new_def)
  then have ne: "l \<noteq> c" "l \<noteq> b" using assms(1) y(1) by auto
  then have "cells m1 c = Some n" using c1 assms(1) by simp
  moreover have il: "length ts1 < length (map addr_of (ts1 @ ANode b us js # ts2))" by simp
  ultimately obtain n2 m2 where
    m2: "btree_set_child c (length ts1) l m1 = Some m2" "mem_set bnode_ok (2 * fuel + j) m1 c n2 m2"
    "inner_node n2 ks ((map addr_of (ts1 @ ANode b us js # ts2))[length ts1 := l])"
    using set_child_ok [where p = l, OF _ assms(2) il c1(2)] by metis
  then have c2: "cells m2 = (cells m)(l \<mapsto> n1, c \<mapsto> n2)" "mem_ok bnode_ok (2 * fuel + j) m2"
    using c1 by (simp_all add: mem_set_def)
  then have "cells m2 l = Some n1" "cells m2 b = Some y" using ne y by simp_all
  from copych_ok [OF this(1) m1(3) this(2) y(2) c2(2)] obtain n3 m3 where
    m3: "btree_copych l b m2 = Some m3" "mem_set bnode_ok (2 * fuel + j) m2 l n3 m3"
    "inner_node n3 js (map addr_of us)" .
  then have c3: "cells m3 = (cells m)(c \<mapsto> n2, l \<mapsto> n3)" "mem_ok bnode_ok (2 * fuel + j) m3"
    using c2 ne(1) by (auto simp: mem_set_def fun_eq_iff)
  have le3: "(cells m)(c := None) \<subseteq>\<^sub>m (cells m3)(l := None)" using c3(1) c1(3) by (auto simp: map_le_def)
  have us3: "reprs ((cells m3)(l := None)) us" using y(4) repr_mono [OF _ le3] by blast
  have l3: "cells m3 l = Some n3" using c3 by simp
  show thesis
  proof (rule that [OF m1(1) m2(1) m3(1)])
    fix x :: btree_ctx
    assume "cx_t_cur x = l"
    from cow_from_ok [where x = x, OF l3 m3(3) c1(4) assms(5) us3 assms(6) c3(2) this] obtain x' m' g t' where
      r: "btree_cow_from fuel x m3 = Some (x', m')" "cx_root x' = cx_root x" "mem_ok bnode_ok j m'"
      "cow_step (cells m3) (cells m') l us t'"
      "erase t' = bt_ins (ow_cow g) (cx_key x) (cx_val x) (BNode (map erase us) js)" .
    have t': "repr (cells m') t'" "addr_of t' = l" "(cells m3)(l := None) \<subseteq>\<^sub>m cells m'"
      "set (footprint t') \<subseteq> insert l (set (footprints us) \<union> - dom (cells m3))"
      using r(4) by (simp_all add: cow_step_def)
    have "cow_step (cells m) (cells m') c (ts1 @ ANode b us js # ts2) (ANode c (ts1 @ t' # ts2) ks)"
    proof (rule cow_put_child [OF assms(4,3) map_le_trans [OF le3 t'(3)] t'(1)])
      show "set (footprint t') \<subseteq> set (footprint (ANode b us js)) \<union> - dom (cells m)"
        using t'(4) c3(1) c1(3) by (auto split: if_splits)
      show "cells m' c = Some n2" by (rule map_le_Some [OF t'(3)]) (use c3(1) ne in simp)
      have "(map addr_of (ts1 @ ANode b us js # ts2))[length ts1 := l] = map addr_of (ts1 @ t' # ts2)"
        using slot_upd [of "map addr_of ts1" "length ts1"] t'(2) by simp
      with m2(3) show "inner_node n2 ks (map addr_of (ts1 @ t' # ts2))" by simp
    qed
    with r assms(5) show "\<exists>x' m' g t'. btree_cow_from fuel x m3 = Some (x', m') \<and> cx_root x' = cx_root x \<and> mem_ok bnode_ok j m' \<and>
      cow_step (cells m) (cells m') c (ts1 @ ANode b us js # ts2) (ANode c (ts1 @ t' # ts2) ks) \<and>
      erase t' = bt_insert (ow_cow g) (cx_key x) (cx_val x) (BNode (map erase us) js)"
      by (intro exI [of _ x'] exI [of _ m'] exI [of _ g] exI [of _ t']) simp
  qed
qed

section \<open>A full internal node\<close>

lemma full_child_ok:
  assumes "cells m c = Some n" "inner_node n ks (map addr_of (ts1 @ ANode b us js # ts2))" "c \<noteq> nullptr"
    "reprs ((cells m)(c := None)) (ts1 @ ANode b us js # ts2)" "length js = 15" "\<forall>t \<in> set us. aheight t < fuel"
    "mem_ok bnode_ok (Suc (Suc (Suc (2 * fuel + j)))) m"
  obtains p l r m1 z m2 m3 m4 nz where "btree_split ver b m = Some ((p, l, r), m1)" "btree_new_root ver p l r m1 = Some (z, m2)"
    "btree_set_child c (length ts1) z m2 = Some m3" "btree_copych_split z 0 b m3 = Some m4" "cells m4 z = Some nz"
    "\<And>k. arr_get (bt_slots nz) (if k < p then 0 else 1) = Some (if k < p then l else r)"
    "\<And>x. cx_t_cur x = (if cx_key x < p then l else r) \<Longrightarrow>
      \<exists>x' m' g t'. btree_cow_from fuel x m4 = Some (x', m') \<and> cx_root x' = cx_root x \<and> mem_ok bnode_ok j m' \<and>
      cow_step (cells m) (cells m') c (ts1 @ ANode b us js # ts2) (ANode c (ts1 @ t' # ts2) ks) \<and>
      erase t' = bt_insert (ow_cow g) (cx_key x) (cx_val x) (BNode (map erase us) js)"
proof -
  from assms(4) obtain y where y: "cells m b = Some y" "inner_node y js (map addr_of us)" "b \<noteq> c"
    "reprs ((cells m)(c := None)) us" by (auto split: if_splits)
  let ?p = "js ! 7"
  obtain l r nl nr m1 where m1: "btree_split ver b m = Some ((?p, l, r), m1)" "l \<noteq> r"
    "l \<noteq> nullptr" "r \<noteq> nullptr" "cells m l = None" "cells m r = None"
    "cells m1 = (cells m)(l \<mapsto> nl, r \<mapsto> nr)" "mem_ok bnode_ok (Suc (2 * fuel + j)) m1"
    "inner_shell nl (take 7 js)" "inner_shell nr (drop 8 js)"
    by (rule split_ok [where ver = ver, OF y(1,2) assms(5,7)])
  obtain z nz m2 where m2: "btree_new_root ver ?p l r m1 = Some (z, m2)"
    "mem_new bnode_ok (2 * fuel + j) m1 z nz m2" "inner_node nz [?p] [l, r]" "bt_ver nz = ver"
    by (rule new_root_ok [OF m1(8)])
  then have c2: "cells m2 = (cells m)(l \<mapsto> nl, r \<mapsto> nr, z \<mapsto> nz)" "mem_ok bnode_ok (2 * fuel + j) m2" "z \<noteq> nullptr"
    and z: "cells m1 z = None" using m1(7) by (simp_all add: mem_new_def)
  have ne: "z \<noteq> l" "z \<noteq> r" "b \<noteq> l" "b \<noteq> r" "b \<noteq> z" "cells m z = None" "c \<noteq> l" "c \<noteq> r" "c \<noteq> z"
    using z m1 y(1) assms(1) by (auto split: if_splits)
  have "cells m2 c = Some n" using c2 ne assms(1) by simp
  moreover have il: "length ts1 < length (map addr_of (ts1 @ ANode b us js # ts2))" by simp
  ultimately obtain n2 m3 where
    m3: "btree_set_child c (length ts1) z m2 = Some m3" "mem_set bnode_ok (2 * fuel + j) m2 c n2 m3"
    "inner_node n2 ks ((map addr_of (ts1 @ ANode b us js # ts2))[length ts1 := z])"
    using set_child_ok [where p = z, OF _ assms(2) il c2(2)] by metis
  then have c3: "cells m3 = (cells m)(l \<mapsto> nl, r \<mapsto> nr, z \<mapsto> nz, c \<mapsto> n2)" "mem_ok bnode_ok (2 * fuel + j) m3"
    using c2 by (simp_all add: mem_set_def)
  have slots: "arr_get (bt_slots nz) 0 = Some l" "arr_get (bt_slots nz) (0 + 1) = Some r"
    using inner_node_child [OF m2(3), of 0] inner_node_child [OF m2(3), of 1] by simp_all
  have a3: "cells m3 z = Some nz" "cells m3 l = Some nl" "cells m3 r = Some nr" "cells m3 b = Some y"
    using c3 ne m1(2) y(1,3) by simp_all
  from copych_split_ok [OF a3(1) slots m1(2) a3(2,3) m1(9,10) a3(4) y(2) assms(5) c3(2)]
  obtain nl' nr' m4 where m4: "btree_copych_split z 0 b m3 = Some m4"
    "cells m4 = (cells m3)(l \<mapsto> nl', r \<mapsto> nr')" "mem_ok bnode_ok (2 * fuel + j) m4"
    "inner_node nl' (take 7 js) (take 8 (map addr_of us))" "inner_node nr' (drop 8 js) (drop 8 (map addr_of us))" .
  let ?h = "(cells m)(c \<mapsto> n2)"
  have h4: "cells m4 = ?h(l \<mapsto> nl', r \<mapsto> nr', z \<mapsto> nz)"
    using m4(2) c3 ne m1(2) by (auto simp: fun_eq_iff)
  have hc: "(cells m)(c := None) \<subseteq>\<^sub>m ?h" by (auto simp: map_le_def)
  have us: "reprs ?h us" using y(4) repr_mono [OF _ hc] by blast
  have fresh: "?h l = None" "?h r = None" "?h z = None" "?h b \<noteq> None" using m1(5,6) ne y(1,3) by simp_all
  have sub: "set (take 8 us) \<subseteq> set us" "set (drop 8 us) \<subseteq> set us" by (rule set_take_subset, rule set_drop_subset)
  let ?L = "half_l l us js" and ?R = "half_r r us js"
  have z4: "cells m4 z = Some nz" by (simp add: h4)
  show thesis
  proof (rule that [OF m1(1) m2(1) m3(1) m4(1) z4])
    show "arr_get (bt_slots nz) (if k < ?p then 0 else 1) = Some (if k < ?p then l else r)" for k
      using slots by simp
    fix x :: btree_ctx
    let ?q = "if cx_key x < ?p then l else r"
    assume cur: "cx_t_cur x = ?q"
    have leq: "?h \<subseteq>\<^sub>m (cells m4)(?q := None)" unfolding h4 using fresh by (auto simp: map_le_def)
    have us4: "reprs ((cells m4)(?q := None)) us" using us repr_mono [OF _ leq] by blast
    let ?concl = "\<exists>x' m' g t'. btree_cow_from fuel x m4 = Some (x', m') \<and> cx_root x' = cx_root x \<and> mem_ok bnode_ok j m' \<and>
      cow_step (cells m) (cells m') c (ts1 @ ANode b us js # ts2) (ANode c (ts1 @ t' # ts2) ks) \<and>
      erase t' = bt_insert (ow_cow g) (cx_key x) (cx_val x) (BNode (map erase us) js)"
    have fin: ?concl
      if q: "cells m4 ?q = Some nq" "inner_node nq jq (map addr_of uq)" "length jq < 15" "set uq \<subseteq> set us"
        and other: "repr ((cells m4)(?q := None)) v" "set (footprint v) \<subseteq> {l, r} \<union> set (footprints us)"
        and F: "\<And>t'. set (F t') = {t', v}" "\<And>t'. addr_of t' = ?q \<Longrightarrow> map addr_of (F t') = [l, r]"
        and ins: "\<And>t' g. erase t' = bt_ins (ow_cow g) (cx_key x) (cx_val x) (BNode (map erase uq) jq) \<Longrightarrow>
          BNode (map erase (F t')) [?p] = bt_insert (ow_cow g) (cx_key x) (cx_val x) (BNode (map erase us) js)"
      for nq jq uq F v
    proof -
      have uq: "reprs ((cells m4)(?q := None)) uq" "\<forall>t \<in> set uq. aheight t < fuel" using us4 assms(6) q(4) by blast+
      have "?q \<noteq> nullptr" using m1(3,4) by simp
      from cow_from_ok [where x = x, OF q(1,2) this q(3) uq m4(3) cur]
      obtain x' m' g t' where r: "btree_cow_from fuel x m4 = Some (x', m')"
        "cx_root x' = cx_root x" "mem_ok bnode_ok j m'" "cow_step (cells m4) (cells m') ?q uq t'"
        "erase t' = bt_ins (ow_cow g) (cx_key x) (cx_val x) (BNode (map erase uq) jq)" .
      have at: "addr_of t' = ?q" "(cells m4)(?q := None) \<subseteq>\<^sub>m cells m'" using r(4) by (simp_all only: cow_step_def)
      have "?q \<in> {l, r}" by simp
      from cow_under_new_root [OF us assms(5) fresh(1-3) ne(1,2) m1(2) c2(3) fresh(4) h4 m2(3) this r(4) q(4) other F(1) F(2) [OF at(1)]]
      have v: "cow_version ?h (cells m') (ANode b us js) (ANode z (F t') [?p])" .
      have "cow_step (cells m) (cells m') c (ts1 @ ANode b us js # ts2) (ANode c (ts1 @ ANode z (F t') [?p] # ts2) ks)"
      proof (rule cow_put_child [OF assms(4,3)])
        show "(cells m)(c := None) \<subseteq>\<^sub>m cells m'" using v map_le_trans [OF hc] by (simp add: cow_version_def)
        show "repr (cells m') (ANode z (F t') [?p])" using v by (simp add: cow_version_def)
        show "set (footprint (ANode z (F t') [?p])) \<subseteq> set (footprint (ANode b us js)) \<union> - dom (cells m)"
          using v assms(1) by (auto simp: cow_version_def split: if_splits)
        have "?h \<subseteq>\<^sub>m cells m'" using v by (simp add: cow_version_def)
        then show "cells m' c = Some n2" by (rule map_le_Some) simp
        have "(map addr_of (ts1 @ ANode b us js # ts2))[length ts1 := z] = map addr_of (ts1 @ ANode z (F t') [?p] # ts2)"
          using slot_upd [of "map addr_of ts1" "length ts1"] by simp
        with m3(3) show "inner_node n2 ks (map addr_of (ts1 @ ANode z (F t') [?p] # ts2))" by simp
      qed
      with r(1-3) ins [OF r(5)] show ?concl
        by (intro exI [of _ x'] exI [of _ m'] exI [of _ g] exI [of _ "ANode z (F t') [?p]"]) simp
    qed
    show ?concl
    proof (cases "cx_key x < ?p")
      case True
      show ?concl
      proof (rule fin [of nl' "take 7 js" "take 8 us" ?R "\<lambda>t'. [t', ?R]"])
        show "repr ((cells m4)(?q := None)) ?R"
          using True m1(2,4) m4(5) us4 sub(2) ne by (auto simp: h4 half_r_def drop_map)
        show "set (footprint ?R) \<subseteq> {l, r} \<union> set (footprints us)" using sub(2) by (auto simp: half_r_def)
      qed (use True not_le [THEN iffD2, OF True] h4 m4(4) assms(5) sub ne m1(2) in \<open>simp_all add: take_map erase_halves split_l_def\<close>)
    next
      case big: False
      show ?concl
      proof (rule fin [of nr' "drop 8 js" "drop 8 us" ?L "\<lambda>t'. [?L, t']"])
        show "repr ((cells m4)(?q := None)) ?L"
          using big m1(2,3) m4(4) us4 sub(1) ne by (auto simp: h4 half_l_def take_map)
        show "set (footprint ?L) \<subseteq> {l, r} \<union> set (footprints us)" using sub(1) by (auto simp: half_l_def)
      qed (use big leI [OF big] h4 m4(5) assms(5) sub ne in \<open>simp_all add: drop_map erase_halves split_r_def insert_commute\<close>)
    qed
  qed
qed

end
