(* ===== verification/Betree_Cow.thy ===== *)
theory Betree_Cow
  imports Betree_Inplace Betree_Child
begin

text \<open>
  Copy on write in the elastic B+-tree: \<^verbatim>\<open>context.hpp\<close>, \<^verbatim>\<open>update_cow.hpp\<close> and
  \<^verbatim>\<open>handlers.hpp\<close> of \<^verbatim>\<open>lib/trees/betree\<close>. Above the boundary nodes are only copied, so that
  the pipeline of the scheduler stays as long as it is; below a boundary node every child is a
  B+-tree of its own, whose root may split and grow by a level.
\<close>

section \<open>The code\<close>

text \<open>The context has the members of that of the B+-tree.\<close>

type_synonym betree_ctx = btree_ctx

definition betree_SEARCH_UPPER :: nat where
  "betree_SEARCH_UPPER = 1"

definition betree_SEARCH_ELASTIC :: nat where
  "betree_SEARCH_ELASTIC = 2"

definition betree_SEARCH_LOWER :: nat where
  "betree_SEARCH_LOWER = 3"

definition betree_SEARCH_SPLIT :: nat where
  "betree_SEARCH_SPLIT = 4"

definition betree_update_leaf_cow ::
  "32 word \<Rightarrow> key \<Rightarrow> val \<Rightarrow> addr \<Rightarrow> bemem \<Rightarrow> ((key \<times> addr \<times> addr) \<times> bemem) option" where
  "betree_update_leaf_cow ver k v t m =
     do { n \<leftarrow> mem_get m t;
          i \<leftarrow> betree_findval n k;
          hit \<leftarrow> betree_key_at n i k;
          if hit
          then do {
            (t_new, m) \<leftarrow> betree_copy_leaf ver t m;
            m \<leftarrow> mem_upd m t_new (\<lambda>n. do { vs \<leftarrow> arr_set (be_slots n) i v; Some (n\<lparr>be_slots := vs\<rparr>) });
            Some ((k, t_new, nullptr), m) }
          else if be_size n < 2 * betree_B - 1
          then do {
            (t_new, m) \<leftarrow> betree_new_leaf ver (be_size n + 1) m;
            m \<leftarrow> mem_upd m t_new (\<lambda>n'. do {
                   ks \<leftarrow> arr_copy_insert (be_keys n') (be_keys n) (be_size n) i k;
                   vs \<leftarrow> arr_copy_insert (be_slots n') (be_slots n) (be_size n) i v;
                   Some (n'\<lparr>be_verge := be_verge n, be_keys := ks, be_slots := vs\<rparr>) });
            Some ((k, t_new, nullptr), m) }
          else betree_leaf_split ver t i k v m }"

text \<open>\<^verbatim>\<open>update_upper_cow(ctx, tp)\<close>: what is stored through \<^verbatim>\<open>tp\<close> is the second result, and the caller stores it.\<close>

definition betree_update_upper_cow :: "betree_ctx \<Rightarrow> bemem \<Rightarrow> (nat \<times> addr \<times> betree_ctx \<times> bemem) option" where
  "betree_update_upper_cow c m =
     do { let t_past = cx_t_past c;
          n_past \<leftarrow> mem_get m t_past;
          if be_type n_past = BE_LEAF
          then do {
            ((key, t_l, t_r), m) \<leftarrow> betree_update_leaf_cow (cx_sno c) (cx_key c) (cx_val c) t_past m;
            if t_r = nullptr then Some (conctrl_DONE, t_l, c, m)
            else do {
              (t, m) \<leftarrow> betree_new_root (cx_sno c) key t_l t_r m;
              n_past \<leftarrow> mem_get m t_past;
              m \<leftarrow> mem_upd m t (\<lambda>n. Some (n\<lparr>be_verge := be_verge n_past, be_type := BE_BOUNDARY\<rparr>));
              Some (conctrl_DONE, t, c, m) } }
          else do {
            (t, m) \<leftarrow> betree_copy_internal (cx_sno c) t_past m;
            n \<leftarrow> mem_get m t;
            if be_type n = BE_BOUNDARY
            then Some (betree_SEARCH_ELASTIC, t, c\<lparr>cx_wait_child := True\<rparr>, m)
            else Some (betree_SEARCH_UPPER, t, c, m) } }"

definition betree_update_lower_cow :: "betree_ctx \<Rightarrow> bemem \<Rightarrow> (nat \<times> betree_ctx \<times> bemem) option" where
  "betree_update_lower_cow c m =
     do { let t_cur = cx_t_cur c;
          n \<leftarrow> mem_get m t_cur;
          i \<leftarrow> betree_findch n (cx_key c);
          t_past \<leftarrow> arr_get (be_slots n) i;
          let c = c\<lparr>cx_t_past := t_past\<rparr>;
          n_past \<leftarrow> mem_get m t_past;
          if be_type n_past = BE_LEAF
          then do {
            ((key, t_l, t_r), m) \<leftarrow> betree_update_leaf_cow (cx_sno c) (cx_key c) (cx_val c) t_past m;
            m \<leftarrow> (if t_r = nullptr then betree_set_child t_cur i t_l m
                  else betree_insert_child t_cur key t_l t_r i m);
            Some (conctrl_DONE, c, m) }
          else if be_size n_past = 2 * betree_B - 1
          then do {
            ((key, t_l, t_r), m) \<leftarrow> betree_split (cx_sno c) t_past m;
            m \<leftarrow> betree_insert_child t_cur key t_l t_r i m;
            Some (betree_SEARCH_SPLIT, c\<lparr>cx_split_idx := i\<rparr>, m) }
          else do {
            (t_new, m) \<leftarrow> betree_copy_internal (cx_sno c) t_past m;
            m \<leftarrow> betree_set_child t_cur i t_new m;
            n \<leftarrow> mem_get m t_cur;
            t \<leftarrow> arr_get (be_slots n) i;
            Some (betree_SEARCH_LOWER, c\<lparr>cx_t_cur := t\<rparr>, m) } }"

definition betree_handle_init :: "betree_ctx \<Rightarrow> bemem \<Rightarrow> (nat \<times> betree_ctx \<times> bemem) option" where
  "betree_handle_init c m =
     do { (op', t, c, m) \<leftarrow> betree_update_upper_cow c m;
          Some (op', c\<lparr>cx_root := t, cx_t_cur := t\<rparr>, m) }"

definition betree_handle_upper :: "betree_ctx \<Rightarrow> bemem \<Rightarrow> (nat \<times> betree_ctx \<times> bemem) option" where
  "betree_handle_upper c m =
     do { m \<leftarrow> betree_copych (cx_t_cur c) (cx_t_past c) m;
          n \<leftarrow> mem_get m (cx_t_past c);
          i \<leftarrow> betree_findch n (cx_key c);
          t_past \<leftarrow> arr_get (be_slots n) i;
          (op', t, c, m) \<leftarrow> betree_update_upper_cow (c\<lparr>cx_t_past := t_past\<rparr>) m;
          m \<leftarrow> betree_set_child (cx_t_cur c) i t m;
          Some (op', c\<lparr>cx_t_cur := t\<rparr>, m) }"

text \<open>\<^verbatim>\<open>(*tp)->height = h; if ((*tp)->height > E) { ctx->new_checkpoint = 1; }\<close>\<close>

definition betree_set_height :: "addr \<Rightarrow> 8 word \<Rightarrow> betree_ctx \<Rightarrow> bemem \<Rightarrow> (betree_ctx \<times> bemem) option" where
  "betree_set_height t h c m =
     do { m \<leftarrow> mem_upd m t (\<lambda>n. Some (n\<lparr>be_height := h\<rparr>));
          Some (if h > of_nat betree_E then c\<lparr>cx_new_checkpoint := True\<rparr> else c, m) }"

definition betree_handle_elastic :: "betree_ctx \<Rightarrow> bemem \<Rightarrow> (nat \<times> betree_ctx \<times> bemem) option" where
  "betree_handle_elastic c m =
     do { let t_cur = cx_t_cur c;
          m \<leftarrow> betree_copych t_cur (cx_t_past c) m;
          n \<leftarrow> mem_get m (cx_t_past c);
          i \<leftarrow> betree_findch n (cx_key c);
          t_past \<leftarrow> arr_get (be_slots n) i;
          let c = c\<lparr>cx_t_past := t_past\<rparr>;
          n_past \<leftarrow> mem_get m t_past;
          if be_type n_past = BE_LEAF
          then do {
            ((key, t_l, t_r), m) \<leftarrow> betree_update_leaf_cow (cx_sno c) (cx_key c) (cx_val c) t_past m;
            if t_r = nullptr
            then do { m \<leftarrow> betree_set_child t_cur i t_l m; Some (conctrl_DONE, c, m) }
            else do {
              (t, m) \<leftarrow> betree_new_root (cx_sno c) key t_l t_r m;
              m \<leftarrow> betree_set_child t_cur i t m;
              (c, m) \<leftarrow> betree_set_height t 1 c m;
              Some (conctrl_DONE, c, m) } }
          else if be_size n_past < 2 * betree_B - 1
          then do {
            (t, m) \<leftarrow> betree_copy_internal (cx_sno c) t_past m;
            m \<leftarrow> betree_set_child t_cur i t m;
            m \<leftarrow> betree_copych t t_past m;
            betree_update_lower_cow (c\<lparr>cx_t_cur := t\<rparr>) m }
          else do {
            ((key, t_l, t_r), m) \<leftarrow> betree_split (cx_sno c) t_past m;
            (t, m) \<leftarrow> betree_new_root (cx_sno c) key t_l t_r m;
            m \<leftarrow> betree_set_child t_cur i t m;
            n_past \<leftarrow> mem_get m t_past;
            (c, m) \<leftarrow> betree_set_height t (be_height n_past + 1) c m;
            m \<leftarrow> betree_copych_split t 0 t_past m;
            n \<leftarrow> mem_get m t;
            q \<leftarrow> arr_get (be_slots n) (if cx_key c < key then 0 else 1);
            betree_update_lower_cow (c\<lparr>cx_t_cur := q\<rparr>) m } }"

definition betree_handle_lower :: "betree_ctx \<Rightarrow> bemem \<Rightarrow> (nat \<times> betree_ctx \<times> bemem) option" where
  "betree_handle_lower c m =
     do { m \<leftarrow> betree_copych (cx_t_cur c) (cx_t_past c) m; betree_update_lower_cow c m }"

definition betree_handle_split :: "betree_ctx \<Rightarrow> bemem \<Rightarrow> (nat \<times> betree_ctx \<times> bemem) option" where
  "betree_handle_split c m =
     do { let t_cur = cx_t_cur c;
          m \<leftarrow> betree_copych_split t_cur (cx_split_idx c) (cx_t_past c) m;
          n \<leftarrow> mem_get m t_cur;
          k \<leftarrow> arr_get (be_keys n) (cx_split_idx c);
          t \<leftarrow> arr_get (be_slots n) (cx_split_idx c + (if k \<le> cx_key c then 1 else 0));
          betree_update_lower_cow (c\<lparr>cx_t_cur := t\<rparr>) m }"

text \<open>\<^verbatim>\<open>interface::handlers\<close> of \<^verbatim>\<open>src/adapters/betree.hpp\<close>.\<close>

definition betree_handlers :: "(betree_ctx, bemem) handlers" where
  "betree_handlers op' =
     (if op' = conctrl_INIT then betree_handle_init
      else if op' = betree_SEARCH_UPPER then betree_handle_upper
      else if op' = betree_SEARCH_ELASTIC then betree_handle_elastic
      else if op' = betree_SEARCH_LOWER then betree_handle_lower
      else if op' = betree_SEARCH_SPLIT then betree_handle_split
      else (\<lambda>c m. None))"

section \<open>Below the boundary: the stages of the B+-tree\<close>

definition be_op :: "nat \<Rightarrow> nat" where
  "be_op op' = (if op' = betree_SEARCH_LOWER then btree_SEARCH_DOWN
     else if op' = betree_SEARCH_SPLIT then btree_SEARCH_SPLIT else op')"

definition be_res :: "nat \<times> betree_ctx \<times> bemem \<Rightarrow> nat \<times> btree_ctx \<times> bmem" where
  "be_res r = (case r of (op', c, m) \<Rightarrow> (be_op op', c, be_mem m))"

lemmas be_ops = betree_SEARCH_UPPER_def betree_SEARCH_ELASTIC_def betree_SEARCH_LOWER_def betree_SEARCH_SPLIT_def
  btree_SEARCH_DOWN_def btree_SEARCH_SPLIT_def conctrl_DONE_def conctrl_INIT_def

lemma be_update_leaf_cow:
  "btree_update_leaf_cow ver k v t (be_mem m) = map_option (apsnd be_mem) (betree_update_leaf_cow ver k v t m)"
  unfolding btree_update_leaf_cow_def betree_update_leaf_cow_def be_B
  by (rule be_call [OF be_copy_leaf] be_call [OF be_new_leaf] be_step be_upd be_leaf_split
      | simp add: be_findval be_key_at split del: if_split | simp add: be_node_def)+

lemma be_bind_get_at:
  "(\<And>n. mem_get m a = Some n \<Longrightarrow> f (be_node n) = map_option Q (g n)) \<Longrightarrow>
   Option.bind (mem_get (be_mem m) a) f = map_option Q (Option.bind (mem_get m a) g)"
  by (cases "mem_get m a") (simp_all add: be_get)

lemma be_update_cow: "btree_update_cow c (be_mem m) = map_option be_res (betree_update_lower_cow c m)"
  unfolding btree_update_cow_def betree_update_lower_cow_def be_B Let_def if_distribR
  by (rule be_call_up [OF be_update_leaf_cow] be_call_up [OF be_split]
      be_call_upd [OF be_insert_child] be_call_upd [OF be_set_child] be_bind_get_at
    | (rule be_call [OF be_copy_internal], assumption, assumption)
    | rule be_step be_set_child be_insert_child be_call_upd
    | simp add: be_findch split del: if_split
    | simp add: be_res_def be_op_def be_ops)+

text \<open>No handler reads the stage, so the two numberings of the stages do not matter.\<close>

lemma update_cow_op:
  "btree_update_cow (c\<lparr>cx_op := op'\<rparr>) m = map_option (\<lambda>(o1, c, m). (o1, c\<lparr>cx_op := op'\<rparr>, m)) (btree_update_cow c m)"
  by (auto simp: btree_update_cow_def Let_def map_option_case split: bind_splits option.splits prod.splits)

definition betree_cow_from :: "nat \<Rightarrow> betree_ctx \<Rightarrow> bemem \<Rightarrow> (betree_ctx \<times> bemem) option" where
  "betree_cow_from fuel c m =
     do { (op', c, m) \<leftarrow> betree_update_lower_cow c m; conctrl_run betree_handlers fuel (c\<lparr>cx_op := op'\<rparr>) m }"

lemma lower_ops:
  "betree_update_lower_cow c m = Some (op', c', m') \<Longrightarrow> op' \<in> {conctrl_DONE, betree_SEARCH_LOWER, betree_SEARCH_SPLIT}"
  by (auto simp: betree_update_lower_cow_def Let_def split: bind_splits if_splits prod.splits)

lemma betree_handlers_at:
  "betree_handlers betree_SEARCH_UPPER = betree_handle_upper" "betree_handlers betree_SEARCH_ELASTIC = betree_handle_elastic"
  "betree_handlers betree_SEARCH_LOWER = betree_handle_lower" "betree_handlers betree_SEARCH_SPLIT = betree_handle_split"
  by (simp_all add: betree_handlers_def be_ops)

lemma btree_handlers_at:
  "btree_handlers btree_SEARCH_DOWN = btree_handle_search_down" "btree_handlers btree_SEARCH_SPLIT = btree_handle_search_split"
  by (simp_all add: btree_handlers_def be_ops)

lemma run_stage:
  "op' \<noteq> conctrl_DONE \<Longrightarrow> conctrl_run H (Suc fuel) (c\<lparr>cx_op := op'\<rparr>) m =
     do { (op', c, m) \<leftarrow> H op' (c\<lparr>cx_op := op'\<rparr>) m; conctrl_run H fuel (c\<lparr>cx_op := op'\<rparr>) m }"
  by simp

lemma be_stages:
  "betree_SEARCH_UPPER \<noteq> conctrl_DONE" "betree_SEARCH_ELASTIC \<noteq> conctrl_DONE" "betree_SEARCH_LOWER \<noteq> conctrl_DONE"
  "betree_SEARCH_SPLIT \<noteq> conctrl_DONE" "btree_SEARCH_DOWN \<noteq> conctrl_DONE" "btree_SEARCH_SPLIT \<noteq> conctrl_DONE"
  "be_op betree_SEARCH_LOWER = btree_SEARCH_DOWN" "be_op betree_SEARCH_SPLIT = btree_SEARCH_SPLIT"
  "be_op conctrl_DONE = conctrl_DONE"
  by (simp_all add: be_ops be_op_def)

lemma cx_swap: "c\<lparr>cx_op := op', cx_t_cur := t\<rparr> = c\<lparr>cx_t_cur := t, cx_op := op'\<rparr>" for c :: btree_ctx
  by (cases c) simp

lemma be_run:
  assumes "op' \<in> {conctrl_DONE, betree_SEARCH_LOWER, betree_SEARCH_SPLIT}"
  shows "conctrl_run btree_handlers fuel (c\<lparr>cx_op := be_op op'\<rparr>) (be_mem m) =
    map_option (apsnd be_mem) (conctrl_run betree_handlers fuel (c\<lparr>cx_op := op'\<rparr>) m)"
  using assms
proof (induction fuel arbitrary: op' c m)
  case (Suc fuel)
  have next_stage: "Option.bind (btree_update_cow (c\<lparr>cx_op := oa\<rparr>) (be_mem m)) (\<lambda>(op', c, m). conctrl_run btree_handlers fuel (c\<lparr>cx_op := op'\<rparr>) m) =
      map_option (apsnd be_mem) (Option.bind (betree_update_lower_cow (c\<lparr>cx_op := ob\<rparr>) m)
        (\<lambda>(op', c, m). conctrl_run betree_handlers fuel (c\<lparr>cx_op := op'\<rparr>) m))" for oa ob and c :: btree_ctx and m
  proof (cases "betree_update_lower_cow (c\<lparr>cx_op := ob\<rparr>) m")
    case None
    then have "btree_update_cow (c\<lparr>cx_op := ob\<rparr>) (be_mem m) = None" unfolding be_update_cow by simp
    then have "btree_update_cow (c\<lparr>cx_op := oa\<rparr>) (be_mem m) = None"
      using update_cow_op [where c = "c\<lparr>cx_op := ob\<rparr>" and op' = oa and m = "be_mem m"] by simp
    with None show ?thesis by simp
  next
    case (Some r)
    obtain oc c3 m3 where r: "r = (oc, c3, m3)" by (cases r) auto
    have "btree_update_cow (c\<lparr>cx_op := ob\<rparr>) (be_mem m) = Some (be_op oc, c3, be_mem m3)"
      unfolding be_update_cow using Some r by (simp add: be_res_def)
    then have "btree_update_cow (c\<lparr>cx_op := oa\<rparr>) (be_mem m) = Some (be_op oc, c3\<lparr>cx_op := oa\<rparr>, be_mem m3)"
      using update_cow_op [where c = "c\<lparr>cx_op := ob\<rparr>" and op' = oa and m = "be_mem m"] by simp
    with Some r Suc.IH [OF lower_ops, of _ _ oc c3 m3 c3 m3] show ?thesis by simp
  qed
  have next_stage_at: "Option.bind (btree_update_cow (c\<lparr>cx_op := oa, cx_t_cur := t\<rparr>) (be_mem m)) (\<lambda>(op', c, m). conctrl_run btree_handlers fuel (c\<lparr>cx_op := op'\<rparr>) m) =
      map_option (apsnd be_mem) (Option.bind (betree_update_lower_cow (c\<lparr>cx_op := ob, cx_t_cur := t\<rparr>) m)
        (\<lambda>(op', c, m). conctrl_run betree_handlers fuel (c\<lparr>cx_op := op'\<rparr>) m))" for oa ob t and c :: btree_ctx and m
    unfolding cx_swap by (rule next_stage)
  from Suc.prems consider "op' = conctrl_DONE" | "op' = betree_SEARCH_LOWER" | "op' = betree_SEARCH_SPLIT" by blast
  then show ?case
  proof cases
    case 1
    then show ?thesis by (simp add: be_stages)
  next
    case 2
    show ?thesis
      unfolding 2 be_stages(7) run_stage [OF be_stages(3)] run_stage [OF be_stages(5)] betree_handlers_at btree_handlers_at
        btree_handle_search_down_def betree_handle_lower_def Option.bind_assoc
      by (rule be_call_upd [OF be_copych] next_stage | simp del: conctrl_run.simps)+
  next
    case 3
    show ?thesis
      unfolding 3 be_stages(8) run_stage [OF be_stages(4)] run_stage [OF be_stages(6)] betree_handlers_at btree_handlers_at
        btree_handle_search_split_def betree_handle_split_def Let_def Option.bind_assoc
      by (rule be_call_upd [OF be_copych_split] next_stage_at be_step | simp split del: if_split del: conctrl_run.simps)+
  qed
qed simp

lemma be_cow_from: "btree_cow_from fuel c (be_mem m) = map_option (apsnd be_mem) (betree_cow_from fuel c m)"
proof (cases "betree_update_lower_cow c m")
  case (Some r)
  obtain op' c' m' where r: "r = (op', c', m')" by (cases r) auto
  with Some be_run [OF lower_ops, of c m op' c' m' fuel c' m'] show ?thesis
    by (simp add: btree_cow_from_def betree_cow_from_def be_update_cow be_res_def)
qed (simp add: btree_cow_from_def betree_cow_from_def be_update_cow)

section \<open>What an update does to the contents\<close>

text \<open>
  Somewhere on the path of the key a subtree is updated as a B+-tree of its own; the nodes above
  keep their keys and all their other children.
\<close>

inductive el_upd :: "overwrite \<Rightarrow> key \<Rightarrow> val \<Rightarrow> bt \<Rightarrow> bt \<Rightarrow> bool" for ow k v where
  here: "el_upd ow k v t (bt_insert ow k v t)"
| below: "el_upd ow k v t u \<Longrightarrow> length ts1 = length ks1 \<Longrightarrow> findch_idx (ks1 @ ks2) k = length ks1 \<Longrightarrow>
    el_upd ow k v (BNode (ts1 @ t # ts2) (ks1 @ ks2)) (BNode (ts1 @ u # ts2) (ks1 @ ks2))"

lemma el_upd_correct:
  assumes "el_upd ow k v t t'" "leaf_overwrite ow" "bt_wf lo hi t" "lo \<le> k" "below k hi"
  shows "bt_wf lo hi t' \<and> upd_at ow k v (bt_inorder t) (bt_inorder t')"
  using assms(1,3-5)
proof (induction arbitrary: lo hi rule: el_upd.induct)
  case (here t)
  then show ?case by (intro leaf_overwrite.bt_insert_correct [OF assms(2)])
next
  case (below t u ts1 ks1 ks2 ts2)
  from below.prems(1) have wf: "bts_wf lo hi (ts1 @ t # ts2) (ks1 @ ks2)" by simp
  then obtain us1 x us2 js1 js2 where d: "ts1 @ t # ts2 = us1 @ x # us2" "ks1 @ ks2 = js1 @ js2"
    "length us1 = length js1" "findch_idx (ks1 @ ks2) k = length js1" "\<forall>x \<in> set js1. x \<le> k" "\<forall>x \<in> set js2. k < x"
    by (rule findch_cases)
  then have ks: "\<forall>x \<in> set ks1. x \<le> k" "\<forall>x \<in> set ks2. k < x" using below.hyps(3) by auto
  from findch_bounds [OF wf below.hyps(2) ks below.prems(2,3)] bts_wf_child [OF below.hyps(2) wf] below.IH
  have "up_wf (child_lo lo ks1) (child_hi hi ks2) (One u)" "upd_at ow k v (bt_inorder t) (up_inorder (One u))" by simp_all
  from leaf_overwrite.put_child_correct [OF assms(2) below.hyps(2) wf ks this] show ?case
    using below.hyps(2) slot_upd [of ts1 "length ks1" t ts2 u] by (simp add: put_child_def)
qed

lemma el_upd_at:
  assumes "inner_node n js (map addr_of us)" "us = ts1 @ t # ts2" "length ts1 = findch_idx js k" "el_upd ow k v (erase t) (erase u)"
  shows "el_upd ow k v (BNode (map erase us) js) (BNode (map erase (ts1 @ u # ts2)) js)"
proof -
  let ?i = "findch_idx js k"
  have l: "length (map erase ts1) = length (take ?i js)" using findch_idx_le [of js k] assms(3) by simp
  have f: "findch_idx (take ?i js @ drop ?i js) k = length (take ?i js)" using findch_idx_le [of js k] by simp
  from el_upd.below [OF assms(4) l f] show ?thesis by (simp add: assms(2))
qed

section \<open>The stages above the boundary\<close>

lemma be_lift: "x = map_option (apsnd be_mem) y \<Longrightarrow> x = Some (r, M) \<Longrightarrow> \<exists>m'. y = Some (r, m') \<and> M = be_mem m'"
  by (cases y) auto

lemma be_lift_upd: "x = map_option be_mem y \<Longrightarrow> x = Some M \<Longrightarrow> \<exists>m'. y = Some m' \<and> M = be_mem m'"
  by (cases y) auto

lemma be_get_lift: "cells (be_mem m) a = Some n \<Longrightarrow> \<exists>x. mem_get m a = Some x \<and> n = be_node x"
  by (auto simp: mem_get_def)

text \<open>The fresh node has its children now; what follows is seen from before.\<close>

lemma cow_step_shell:
  assumes "cow_step h1 h' c us t'" "h1 = h(c \<mapsto> n)" "h c \<noteq> None"
  shows "cow_step h h' c us t'"
proof -
  have "dom h1 = dom h" "h1(c := None) = h(c := None)" using assms(2,3) by auto
  with assms(1) show ?thesis by (simp add: cow_step_def)
qed

lemma be_copych_ok:
  assumes "cells (be_mem m) c = Some n" "inner_shell n js" "cells (be_mem m) a = Some y" "inner_node y js cs"
    "mem_ok bnode_ok k (be_mem m)"
  obtains n1 m1 where "betree_copych c a m = Some m1" "cells (be_mem m1) = (cells (be_mem m))(c \<mapsto> n1)"
    "mem_ok bnode_ok k (be_mem m1)" "inner_node n1 js cs"
proof -
  from copych_ok [OF assms] obtain n1 M1 where
    M1: "btree_copych c a (be_mem m) = Some M1" "mem_set bnode_ok k (be_mem m) c n1 M1" "inner_node n1 js cs" .
  from be_lift_upd [OF be_copych M1(1)] obtain m1 where "betree_copych c a m = Some m1" "M1 = be_mem m1" by blast
  with M1 that show thesis by (simp add: mem_set_def)
qed

text \<open>\<^verbatim>\<open>update_upper_cow\<close> on a leaf: the update ends.\<close>

lemma upper_leaf_ok:
  assumes "cells (be_mem m) (cx_t_past x) = Some y" "leaf_node y kvs" "mem_ok bnode_ok (j + 3) (be_mem m)"
  obtains t m2 u g where "betree_update_upper_cow x m = Some (conctrl_DONE, t, x, m2)" "addr_of u = t"
    "repr (cells (be_mem m2)) u" "cells (be_mem m) \<subseteq>\<^sub>m cells (be_mem m2)" "set (footprint u) \<subseteq> - dom (cells (be_mem m))"
    "mem_ok bnode_ok j (be_mem m2)" "erase u = bt_insert (ow_cow g) (cx_key x) (cx_val x) (BLeaf kvs)"
proof -
  let ?b = "cx_t_past x"
  obtain p l r M1 t M2 u g where u: "btree_update_leaf_cow (cx_sno x) (cx_key x) (cx_val x) ?b (be_mem m) = Some ((p, l, r), M1)"
    "(if r = nullptr then Some (l, M1) else btree_new_root (cx_sno x) p l r M1) = Some (t, M2)" "addr_of u = t"
    "repr (cells M2) u" "cells (be_mem m) \<subseteq>\<^sub>m cells M2" "set (footprint u) \<subseteq> - dom (cells (be_mem m))" "mem_ok bnode_ok j M2"
    "erase u = bt_insert (ow_cow g) (cx_key x) (cx_val x) (BLeaf kvs)" "r \<noteq> nullptr \<longrightarrow> bt_inner (erase u)"
    by (rule leaf_root_ok [where ver = "cx_sno x" and k = "cx_key x" and v = "cx_val x", OF assms])
  from be_get_lift [OF assms(1)] obtain yb where yb: "mem_get m ?b = Some yb" "y = be_node yb" by blast
  have lf: "be_type yb = BE_LEAF" using leaf_is_leaf [OF assms(2)] yb(2) by simp
  from be_lift [OF be_update_leaf_cow u(1)] obtain m1 where
    m1: "betree_update_leaf_cow (cx_sno x) (cx_key x) (cx_val x) ?b m = Some ((p, l, r), m1)" "M1 = be_mem m1" by blast
  have "\<exists>m2. betree_update_upper_cow x m = Some (conctrl_DONE, t, x, m2) \<and> be_mem m2 = M2"
  proof (cases "r = nullptr")
    case True
    then show ?thesis using u(2) m1 yb(1) lf by (simp add: betree_update_upper_cow_def Let_def)
  next
    case False
    then have "btree_new_root (cx_sno x) p l r (be_mem m1) = Some (t, M2)" using u(2) m1(2) by simp
    from be_lift [OF be_new_root this] obtain m2 where m2: "betree_new_root (cx_sno x) p l r m1 = Some (t, m2)" "M2 = be_mem m2"
      by blast
    have "cells (be_mem m2) ?b = Some y" using map_le_Some [OF u(5) assms(1)] m2(2) by simp
    from be_get_lift [OF this] obtain y2 where y2: "mem_get m2 ?b = Some y2" by blast
    from u(9) False obtain us js where "u = ANode t us js" using u(3) by (cases u) auto
    then obtain nt where nt: "cells m2 t = Some nt" "be_type nt \<noteq> BE_LEAF"
      using u(4) m2(2) by (auto simp: inner_node_def)
    then have "be_node (nt\<lparr>be_verge := be_verge y2, be_type := BE_BOUNDARY\<rparr>) = be_node nt"
      by (auto simp: be_node_def be_kind_def)
    from be_upd_hidden [where f = "\<lambda>n. n\<lparr>be_verge := be_verge y2, be_type := BE_BOUNDARY\<rparr>", OF nt(1) this]
    obtain m3 where "mem_upd m2 t (\<lambda>n. Some (n\<lparr>be_verge := be_verge y2, be_type := BE_BOUNDARY\<rparr>)) = Some m3"
      "be_mem m3 = be_mem m2" .
    then show ?thesis
      using m1 m2 yb(1) lf y2 False by (simp add: betree_update_upper_cow_def Let_def)
  qed
  with u that show thesis by blast
qed

lemma be_set_height:
  assumes "cells m t = Some n"
  obtains m' where "betree_set_height t h c m = Some (if h > of_nat betree_E then c\<lparr>cx_new_checkpoint := True\<rparr> else c, m')"
    "be_mem m' = be_mem m"
proof -
  have "be_node (n\<lparr>be_height := h\<rparr>) = be_node n" by (simp add: be_node_def)
  from be_upd_hidden [where f = "\<lambda>n. n\<lparr>be_height := h\<rparr>", OF assms this] obtain m' where
    "mem_upd m t (\<lambda>n. Some (n\<lparr>be_height := h\<rparr>)) = Some m'" "be_mem m' = be_mem m" .
  then show thesis by (intro that [of m']) (simp_all add: betree_set_height_def)
qed

lemma betree_new_root_cells: "betree_new_root ver p l r m = Some (z, m') \<Longrightarrow> cells m' z \<noteq> None"
  by (auto simp: betree_new_root_def mem_upd_def split: bind_splits)

lemma betree_set_child_cells: "betree_set_child c i t m = Some m' \<Longrightarrow> cells m z \<noteq> None \<Longrightarrow> cells m' z \<noteq> None"
  by (auto simp: betree_set_child_def mem_upd_def split: bind_splits)

text \<open>A leaf below the boundary: the new root over its halves starts a tree of height 1.\<close>

lemma elastic_leaf:
  assumes "leaf_child ver k v c i b (be_mem m) = Some M"
  obtains p l r m1 where "betree_update_leaf_cow ver k v b m = Some ((p, l, r), m1)"
    "r = nullptr \<Longrightarrow> \<exists>m2. betree_set_child c i l m1 = Some m2 \<and> be_mem m2 = M"
    "r \<noteq> nullptr \<Longrightarrow> \<exists>t m2 m3. betree_new_root ver p l r m1 = Some (t, m2) \<and> betree_set_child c i t m2 = Some m3 \<and>
      be_mem m3 = M \<and> cells m3 t \<noteq> None"
proof -
  from assms obtain p l r M1 t M2 where u: "btree_update_leaf_cow ver k v b (be_mem m) = Some ((p, l, r), M1)"
    "(if r = nullptr then Some (l, M1) else btree_new_root ver p l r M1) = Some (t, M2)" "btree_set_child c i t M2 = Some M"
    by (auto simp: leaf_child_def split: bind_splits)
  from be_lift [OF be_update_leaf_cow u(1)] obtain m1 where
    m1: "betree_update_leaf_cow ver k v b m = Some ((p, l, r), m1)" "M1 = be_mem m1" by blast
  show thesis
  proof (rule that [OF m1(1)])
    assume "r = nullptr"
    with u(2,3) m1(2) have "btree_set_child c i l (be_mem m1) = Some M" by simp
    from be_lift_upd [OF be_set_child this] show "\<exists>m2. betree_set_child c i l m1 = Some m2 \<and> be_mem m2 = M" by blast
  next
    assume "r \<noteq> nullptr"
    with u(2) m1(2) have "btree_new_root ver p l r (be_mem m1) = Some (t, M2)" by simp
    from be_lift [OF be_new_root this] obtain m2 where m2: "betree_new_root ver p l r m1 = Some (t, m2)" "M2 = be_mem m2" by blast
    from be_lift_upd [OF be_set_child u(3) [unfolded m2(2)]] obtain m3 where
      "betree_set_child c i t m2 = Some m3" "M = be_mem m3" by blast
    with m2(1) betree_new_root_cells [OF m2(1)] betree_set_child_cells
    show "\<exists>t m2 m3. betree_new_root ver p l r m1 = Some (t, m2) \<and> betree_set_child c i t m2 = Some m3 \<and> be_mem m3 = M \<and> cells m3 t \<noteq> None"
      by blast
  qed
qed

text \<open>The stage at the boundary, and all after it.\<close>

lemma elastic_ok:
  assumes "cells (be_mem m) c = Some n" "inner_shell n js" "c \<noteq> nullptr" "cells (be_mem m) a = Some y"
    "inner_node y js (map addr_of us)" "a \<noteq> c" "reprs ((cells (be_mem m))(c := None)) us" "\<forall>t \<in> set us. aheight t < fuel"
    "mem_ok bnode_ok (2 * fuel + 3 + j) (be_mem m)" "cx_t_cur x = c" "cx_t_past x = a"
  obtains x' m' g t' where "conctrl_run betree_handlers (Suc fuel) (x\<lparr>cx_op := betree_SEARCH_ELASTIC\<rparr>) m = Some (x', m')"
    "cx_root x' = cx_root x" "mem_ok bnode_ok j (be_mem m')" "cow_step (cells (be_mem m)) (cells (be_mem m')) c us t'"
    "el_upd (ow_cow g) (cx_key x) (cx_val x) (BNode (map erase us) js) (erase t')"
proof -
  let ?k = "cx_key x" and ?v = "cx_val x" and ?ver = "cx_sno x"
  obtain n1 m1 where m1: "betree_copych c a m = Some m1" "cells (be_mem m1) = (cells (be_mem m))(c \<mapsto> n1)"
    "mem_ok bnode_ok (2 * fuel + 3 + j) (be_mem m1)" "inner_node n1 js (map addr_of us)"
    by (rule be_copych_ok [OF assms(1,2,4,5,9)])
  have c1: "cells (be_mem m1) c = Some n1" using m1(2) by simp
  have un: "(cells (be_mem m1))(c := None) = (cells (be_mem m))(c := None)" by (simp add: m1(2))
  obtain ts1 t ts2 ks1 ks2 where d: "us = ts1 @ t # ts2" "js = ks1 @ ks2" "length ts1 = length ks1"
    "findch_idx js ?k = length ks1" "arr_get (bt_slots y) (length ks1) = Some (addr_of t)" "t \<in> set us"
    "map erase us ! length ks1 = erase t" "length ks1 < length us"
    by (rule split_at_child [OF assms(5)])
  have "cells (be_mem m1) a = Some y" using m1(2) assms(4,6) by simp
  from be_get_lift [OF this] obtain ya where ya: "mem_get m1 a = Some ya" "y = be_node ya" by blast
  have fa: "betree_findch ya ?k = Some (length ts1)" "arr_get (be_slots ya) (length ts1) = Some (addr_of t)"
    using findch_ok [OF assms(5), of ?k] d(3-5) ya(2) by (simp_all add: be_findch)
  have rt: "repr ((cells (be_mem m1))(c := None)) t" using assms(7) d(6) un by simp
  note at = m1(4) [unfolded d(1)]
  have rts: "reprs ((cells (be_mem m1))(c := None)) (ts1 @ t # ts2)" using assms(7) d(1) un by simp
  have dom: "cells (be_mem m) c \<noteq> None" unfolding assms(1) by simp
  have el: "el_upd (ow_cow g) ?k ?v (BNode (map erase us) js) (erase (ANode c (ts1 @ t' # ts2) js))"
    if "erase t' = bt_insert (ow_cow g) ?k ?v (erase t)" for g t'
    using el_upd_at [OF assms(5) d(1), of ?k "ow_cow g" ?v t'] el_upd.here [of "ow_cow g" ?k ?v "erase t"] that d(3,4) by simp
  note result = that
  have fin0: thesis
    if "conctrl_run betree_handlers (Suc fuel) (x\<lparr>cx_op := betree_SEARCH_ELASTIC\<rparr>) m = Some (x', m')" "cx_root x' = cx_root x"
      "mem_ok bnode_ok j (be_mem m')" "cow_step (cells (be_mem m1)) (cells (be_mem m')) c (ts1 @ t # ts2) (ANode c (ts1 @ t' # ts2) js)"
      "erase t' = bt_insert (ow_cow g) ?k ?v (erase t)" for x' m' t' g
    by (rule result [OF that(1-3) cow_step_shell [OF that(4) [folded d(1)] m1(2) dom] el [OF that(5)]])
  let ?x = "x\<lparr>cx_op := betree_SEARCH_ELASTIC, cx_t_past := addr_of t\<rparr>"
  note run = run_stage [OF be_stages(2)] betree_handlers_at betree_handle_elastic_def Let_def be_B
  have fuel: "0 < fuel" using assms(8) d(6) by auto
  show thesis
  proof (cases t)
    case (ALeaf b kvs)
    with rt obtain y2 where y2: "cells (be_mem m1) b = Some y2" "leaf_node y2 kvs" by (auto split: if_splits)
    from be_get_lift [OF y2(1)] obtain yb where yb: "mem_get m1 b = Some yb" "be_type yb = BE_LEAF"
      using leaf_is_leaf [OF y2(2)] by auto
    have "mem_ok bnode_ok (j + 3) (be_mem m1)" by (rule mem_ok_mono [OF m1(3)]) simp
    from leaf_child_ok [where ver = ?ver and k = ?k and v = ?v, OF c1 at [unfolded ALeaf] assms(3) rts [unfolded ALeaf] this]
    obtain M' t' g where r: "leaf_child ?ver ?k ?v c (length ts1) b (be_mem m1) = Some M'" "mem_ok bnode_ok j M'"
      "cow_step (cells (be_mem m1)) (cells M') c (ts1 @ ALeaf b kvs # ts2) (ANode c (ts1 @ t' # ts2) js)"
      "erase t' = bt_insert (ow_cow g) ?k ?v (BLeaf kvs)" .
    have "\<exists>x' m'. conctrl_run betree_handlers (Suc fuel) (x\<lparr>cx_op := betree_SEARCH_ELASTIC\<rparr>) m = Some (x', m') \<and>
      cx_root x' = cx_root x \<and> be_mem m' = M'"
    proof (rule elastic_leaf [OF r(1)])
      fix p l r m2
      assume l: "betree_update_leaf_cow ?ver ?k ?v b m1 = Some ((p, l, r), m2)"
        "r = nullptr \<Longrightarrow> \<exists>m3. betree_set_child c (length ts1) l m2 = Some m3 \<and> be_mem m3 = M'"
        "r \<noteq> nullptr \<Longrightarrow> \<exists>t m3 m4. betree_new_root ?ver p l r m2 = Some (t, m3) \<and> betree_set_child c (length ts1) t m3 = Some m4 \<and>
          be_mem m4 = M' \<and> cells m4 t \<noteq> None"
      show ?thesis
      proof (cases "r = nullptr")
        case True
        from l(2) [OF this] obtain m3 where "betree_set_child c (length ts1) l m2 = Some m3" "be_mem m3 = M'" by blast
        then show ?thesis
          unfolding run using assms(10,11) m1(1) ya(1) fa ALeaf yb l(1) True fuel by (cases fuel) simp_all
      next
        case False
        from l(3) [OF this] obtain z m3 m4 nz where z: "betree_new_root ?ver p l r m2 = Some (z, m3)"
          "betree_set_child c (length ts1) z m3 = Some m4" "be_mem m4 = M'" "cells m4 z = Some nz" by blast
        obtain m5 where "betree_set_height z 1 ?x m4 =
            Some (if 1 > (of_nat betree_E :: 8 word) then ?x\<lparr>cx_new_checkpoint := True\<rparr> else ?x, m5)" "be_mem m5 = be_mem m4"
          by (rule be_set_height [where h = 1 and c = ?x, OF z(4)])
        then show ?thesis
          unfolding run using assms(10,11) m1(1) ya(1) fa ALeaf yb l(1) z(1-3) False fuel by (cases fuel) simp_all
      qed
    qed
    then obtain x' m' where "conctrl_run betree_handlers (Suc fuel) (x\<lparr>cx_op := betree_SEARCH_ELASTIC\<rparr>) m = Some (x', m')"
      "cx_root x' = cx_root x" "be_mem m' = M'" by blast
    from fin0 [OF this(1,2)] r(2-4) this(3) ALeaf show thesis by (simp del: conctrl_run.simps bt_insert.simps)
  next
    case (ANode b vs ls)
    with rt obtain y2 where y2: "cells (be_mem m1) b = Some y2" "inner_node y2 ls (map addr_of vs)" by (auto split: if_splits)
    from be_get_lift [OF y2(1)] obtain yb where yb: "mem_get m1 b = Some yb" "y2 = be_node yb" by blast
    have sz: "be_type yb \<noteq> BE_LEAF" "be_size yb = length ls" "length ls \<le> 15"
      using y2(2) yb(2) by (auto simp: inner_node_def)
    have h: "\<forall>t \<in> set vs. aheight t < fuel"
      using assms(8) d(6) aheight_child [of _ vs b ls] ANode by fastforce
    show thesis
    proof (cases "length ls < 15")
      case True
      have ok: "mem_ok bnode_ok (Suc (2 * fuel + j)) (be_mem m1)" by (rule mem_ok_mono [OF m1(3)]) simp
      obtain l M2 M3 M4 where o: "btree_copy_internal ?ver b (be_mem m1) = Some (l, M2)"
        "btree_set_child c (length ts1) l M2 = Some M3" "btree_copych l b M3 = Some M4"
        and fin: "\<And>x. cx_t_cur x = l \<Longrightarrow> \<exists>x' m' g t'. btree_cow_from fuel x M4 = Some (x', m') \<and> cx_root x' = cx_root x \<and>
          mem_ok bnode_ok j m' \<and>
          cow_step (cells (be_mem m1)) (cells m') c (ts1 @ ANode b vs ls # ts2) (ANode c (ts1 @ t' # ts2) js) \<and>
          erase t' = bt_insert (ow_cow g) (cx_key x) (cx_val x) (BNode (map erase vs) ls)"
        by (rule room_child_ok [where ver = ?ver, OF c1 at [unfolded ANode] assms(3) rts [unfolded ANode] True h ok]) blast
      from be_lift [OF be_copy_internal [OF yb(1) sz(1)] o(1)] obtain m2 where
        m2: "betree_copy_internal ?ver b m1 = Some (l, m2)" "M2 = be_mem m2" by blast
      from be_lift_upd [OF be_set_child o(2) [unfolded m2(2)]] obtain m3 where
        m3: "betree_set_child c (length ts1) l m2 = Some m3" "M3 = be_mem m3" by blast
      from be_lift_upd [OF be_copych o(3) [unfolded m3(2)]] obtain m4 where
        m4: "betree_copych l b m3 = Some m4" "M4 = be_mem m4" by blast
      let ?y = "?x\<lparr>cx_t_cur := l\<rparr>"
      have "cx_t_cur ?y = l" by simp
      from fin [OF this] obtain x' M' g t' where r: "btree_cow_from fuel ?y M4 = Some (x', M')" "cx_root x' = cx_root x"
        "mem_ok bnode_ok j M'"
        "cow_step (cells (be_mem m1)) (cells M') c (ts1 @ ANode b vs ls # ts2) (ANode c (ts1 @ t' # ts2) js)"
        "erase t' = bt_insert (ow_cow g) ?k ?v (BNode (map erase vs) ls)" by auto
      from be_lift [OF be_cow_from r(1) [unfolded m4(2)]] obtain m' where
        m': "betree_cow_from fuel ?y m4 = Some (x', m')" "M' = be_mem m'" by blast
      have "conctrl_run betree_handlers (Suc fuel) (x\<lparr>cx_op := betree_SEARCH_ELASTIC\<rparr>) m = betree_cow_from fuel ?y m4"
        unfolding run using assms(10,11) m1(1) ya(1) fa ANode yb(1) sz True m2(1) m3(1) m4(1)
        by (simp add: betree_cow_from_def btree_B_def)
      from fin0 [OF this [unfolded m'(1)] r(2)] r(3-5) m'(2) ANode show thesis by (simp del: conctrl_run.simps bt_insert.simps)
    next
      case False
      then have full: "length ls = 15" using sz(3) by simp
      have ok: "mem_ok bnode_ok (Suc (Suc (Suc (2 * fuel + j)))) (be_mem m1)" using m1(3) by (simp add: eval_nat_numeral)
      obtain p l r M2 z M3 M4 M5 nz where o: "btree_split ?ver b (be_mem m1) = Some ((p, l, r), M2)"
        "btree_new_root ?ver p l r M2 = Some (z, M3)" "btree_set_child c (length ts1) z M3 = Some M4"
        "btree_copych_split z 0 b M4 = Some M5" "cells M5 z = Some nz"
        and q: "\<And>k. arr_get (bt_slots nz) (if k < p then 0 else 1) = Some (if k < p then l else r)"
        and fin: "\<And>x. cx_t_cur x = (if cx_key x < p then l else r) \<Longrightarrow>
          \<exists>x' m' g t'. btree_cow_from fuel x M5 = Some (x', m') \<and> cx_root x' = cx_root x \<and> mem_ok bnode_ok j m' \<and>
          cow_step (cells (be_mem m1)) (cells m') c (ts1 @ ANode b vs ls # ts2) (ANode c (ts1 @ t' # ts2) js) \<and>
          erase t' = bt_insert (ow_cow g) (cx_key x) (cx_val x) (BNode (map erase vs) ls)"
        by (rule full_child_ok [where ver = ?ver, OF c1 at [unfolded ANode] assms(3) rts [unfolded ANode] full h ok]) blast
      from be_lift [OF be_split o(1)] obtain m2 where
        m2: "betree_split ?ver b m1 = Some ((p, l, r), m2)" "M2 = be_mem m2" by blast
      from be_lift [OF be_new_root o(2) [unfolded m2(2)]] obtain m3 where
        m3: "betree_new_root ?ver p l r m2 = Some (z, m3)" "M3 = be_mem m3" by blast
      from be_lift_upd [OF be_set_child o(3) [unfolded m3(2)]] obtain m4 where
        m4: "betree_set_child c (length ts1) z m3 = Some m4" "M4 = be_mem m4" by blast
      have "cells m4 z \<noteq> None" by (rule betree_set_child_cells [OF m4(1) betree_new_root_cells [OF m3(1)]])
      then obtain n4 where n4: "cells m4 z = Some n4" by blast
      have "cells (be_mem m4) b \<noteq> None"
        using o(4) m4(2) by (auto simp: btree_copych_split_def mem_get_def split: bind_splits)
      then obtain y4 where y4: "mem_get m4 b = Some y4" by (auto simp: mem_get_def)
      let ?c = "if be_height y4 + 1 > of_nat betree_E then ?x\<lparr>cx_new_checkpoint := True\<rparr> else ?x"
      obtain m5 where m5: "betree_set_height z (be_height y4 + 1) ?x m4 = Some (?c, m5)" "be_mem m5 = be_mem m4"
        by (rule be_set_height [where h = "be_height y4 + 1" and c = ?x, OF n4])
      from be_lift_upd [OF be_copych_split o(4) [unfolded m4(2) m5(2) [symmetric]]] obtain m6 where
        m6: "betree_copych_split z 0 b m5 = Some m6" "M5 = be_mem m6" by blast
      from be_get_lift [OF o(5) [unfolded m6(2)]] obtain n6 where n6: "mem_get m6 z = Some n6" "nz = be_node n6" by blast
      let ?q = "if ?k < p then l else r"
      let ?y = "?c\<lparr>cx_t_cur := ?q\<rparr>"
      have y: "cx_key ?y = ?k" "cx_val ?y = ?v" "cx_root ?y = cx_root x" "cx_sno ?y = ?ver" by simp_all
      have "cx_t_cur ?y = (if cx_key ?y < p then l else r)" unfolding y by simp
      from fin [OF this] obtain x' M' g t' where r: "btree_cow_from fuel ?y M5 = Some (x', M')" "cx_root x' = cx_root x"
        "mem_ok bnode_ok j M'"
        "cow_step (cells (be_mem m1)) (cells M') c (ts1 @ ANode b vs ls # ts2) (ANode c (ts1 @ t' # ts2) js)"
        "erase t' = bt_insert (ow_cow g) ?k ?v (BNode (map erase vs) ls)" unfolding y by blast
      from be_lift [OF be_cow_from r(1) [unfolded m6(2)]] obtain m' where
        m': "betree_cow_from fuel ?y m6 = Some (x', m')" "M' = be_mem m'" by blast
      have q6: "arr_get (be_slots n6) (if ?k < p then 0 else 1) = Some ?q" using q [of ?k] n6(2) by simp
      have cur: "cx_t_cur ?x = c" "cx_key ?c = ?k" using assms(10) by simp_all
      have "conctrl_run betree_handlers (Suc fuel) (x\<lparr>cx_op := betree_SEARCH_ELASTIC\<rparr>) m = betree_cow_from fuel ?y m6"
        unfolding run using assms(10,11) m1(1) ya(1) fa ANode yb(1) sz full m2(1) m3(1) m4(1) y4 m5(1) m6(1) n6(1) q6 cur
        by (simp add: betree_cow_from_def btree_B_def del: conctrl_run.simps split del: if_split)
      from fin0 [OF this [unfolded m'(1)] r(2)] r(3-5) m'(2) ANode show thesis by (simp del: conctrl_run.simps bt_insert.simps)
    qed
  qed
qed

text \<open>\<^verbatim>\<open>update_upper_cow\<close> on an internal node: a fresh copy without children.\<close>

lemma upper_node_ok:
  assumes "cells (be_mem m) (cx_t_past x) = Some y" "inner_node y js cs" "mem_ok bnode_ok (Suc k) (be_mem m)"
  obtains op' l x' m2 n where "betree_update_upper_cow x m = Some (op', l, x', m2)"
    "op' \<in> {betree_SEARCH_UPPER, betree_SEARCH_ELASTIC}" "x' = x \<or> x' = x\<lparr>cx_wait_child := True\<rparr>"
    "cells (be_mem m2) = (cells (be_mem m))(l \<mapsto> n)" "inner_shell n js" "cells (be_mem m) l = None" "l \<noteq> nullptr"
    "mem_ok bnode_ok k (be_mem m2)"
proof -
  from be_get_lift [OF assms(1)] obtain yb where yb: "mem_get m (cx_t_past x) = Some yb" "y = be_node yb" by blast
  have nl: "be_type yb \<noteq> BE_LEAF" using assms(2) yb(2) by (auto simp: inner_node_def)
  obtain l n M2 where M2: "btree_copy_internal (cx_sno x) (cx_t_past x) (be_mem m) = Some (l, M2)"
    "mem_new bnode_ok k (be_mem m) l n M2" "inner_shell n js"
    by (rule copy_internal_ok [where ver = "cx_sno x", OF assms])
  from be_lift [OF be_copy_internal [OF yb(1) nl] M2(1)] obtain m2 where
    m2: "betree_copy_internal (cx_sno x) (cx_t_past x) m = Some (l, m2)" "M2 = be_mem m2" by blast
  have c2: "cells (be_mem m2) = (cells (be_mem m))(l \<mapsto> n)" "cells (be_mem m) l = None" "l \<noteq> nullptr" "mem_ok bnode_ok k (be_mem m2)"
    using M2(2) m2(2) by (simp_all add: mem_new_def)
  have "cells (be_mem m2) l = Some n" unfolding c2(1) by simp
  from be_get_lift [OF this] obtain n2 where n2: "mem_get m2 l = Some n2" by blast
  show thesis
  proof (cases "be_type n2 = BE_BOUNDARY")
    case True
    then have "betree_update_upper_cow x m = Some (betree_SEARCH_ELASTIC, l, x\<lparr>cx_wait_child := True\<rparr>, m2)"
      using yb(1) nl m2(1) n2 by (simp add: betree_update_upper_cow_def Let_def)
    from that [OF this _ _ c2(1) M2(3) c2(2-4)] show thesis by simp
  next
    case False
    then have "betree_update_upper_cow x m = Some (betree_SEARCH_UPPER, l, x, m2)"
      using yb(1) nl m2(1) n2 by (simp add: betree_update_upper_cow_def Let_def)
    from that [OF this _ _ c2(1) M2(3) c2(2-4)] show thesis by simp
  qed
qed

lemma be_set_child_ok:
  assumes "cells (be_mem m) c = Some n" "inner_node n ks (map addr_of (ts1 @ t # ts2))" "mem_ok bnode_ok k (be_mem m)"
  obtains n2 m2 where "betree_set_child c (length ts1) p m = Some m2" "cells (be_mem m2) = (cells (be_mem m))(c \<mapsto> n2)"
    "mem_ok bnode_ok k (be_mem m2)" "inner_node n2 ks (map addr_of ts1 @ p # map addr_of ts2)"
proof -
  have il: "length ts1 < length (map addr_of (ts1 @ t # ts2))" by simp
  from set_child_ok [where p = p, OF assms(1,2) il assms(3)] obtain n2 M2 where
    M2: "btree_set_child c (length ts1) p (be_mem m) = Some M2" "mem_set bnode_ok k (be_mem m) c n2 M2"
    "inner_node n2 ks ((map addr_of (ts1 @ t # ts2))[length ts1 := p])" .
  from be_lift_upd [OF be_set_child M2(1)] obtain m2 where "betree_set_child c (length ts1) p m = Some m2" "M2 = be_mem m2"
    by blast
  with M2 slot_upd [of "map addr_of ts1" "length ts1" "addr_of t" "map addr_of ts2" p] that show thesis
    by (simp add: mem_set_def)
qed

text \<open>All stages from a fresh copy of an internal node on.\<close>

lemma upper_ok:
  assumes "cells (be_mem m) c = Some n" "inner_shell n js" "c \<noteq> nullptr" "cells (be_mem m) a = Some y"
    "inner_node y js (map addr_of us)" "a \<noteq> c" "reprs ((cells (be_mem m))(c := None)) us" "\<forall>t \<in> set us. aheight t < fuel"
    "mem_ok bnode_ok (2 * fuel + 3 + j) (be_mem m)" "cx_t_cur x = c" "cx_t_past x = a"
    "op' \<in> {betree_SEARCH_UPPER, betree_SEARCH_ELASTIC}"
  shows "\<exists>x' m' g t'. conctrl_run betree_handlers (Suc fuel) (x\<lparr>cx_op := op'\<rparr>) m = Some (x', m') \<and>
    cx_root x' = cx_root x \<and> mem_ok bnode_ok j (be_mem m') \<and> cow_step (cells (be_mem m)) (cells (be_mem m')) c us t' \<and>
    el_upd (ow_cow g) (cx_key x) (cx_val x) (BNode (map erase us) js) (erase t')"
  using assms
proof (induction fuel arbitrary: m c n js a y us x op')
  case 0
  from "0.prems"(5) inner_node_length have "us \<noteq> []" by fastforce
  with "0.prems"(8) show ?case by (cases us) auto
next
  case (Suc fuel)
  show ?case
  proof (cases "op' = betree_SEARCH_ELASTIC")
    case True
    from elastic_ok [OF Suc.prems(1-11)] True show ?thesis by metis
  next
    case False
    with Suc.prems(12) have op': "op' = betree_SEARCH_UPPER" by simp
    let ?k = "cx_key x" and ?v = "cx_val x"
    obtain n1 m1 where m1: "betree_copych c a m = Some m1" "cells (be_mem m1) = (cells (be_mem m))(c \<mapsto> n1)"
      "mem_ok bnode_ok (2 * Suc fuel + 3 + j) (be_mem m1)" "inner_node n1 js (map addr_of us)"
      by (rule be_copych_ok [OF Suc.prems(1,2,4,5,9)])
    have c1: "cells (be_mem m1) c = Some n1" using m1(2) by simp
    have un: "(cells (be_mem m1))(c := None) = (cells (be_mem m))(c := None)" by (simp add: m1(2))
    have dom: "cells (be_mem m) c \<noteq> None" unfolding Suc.prems(1) by simp
    obtain ts1 t ts2 ks1 ks2 where d: "us = ts1 @ t # ts2" "js = ks1 @ ks2" "length ts1 = length ks1"
      "findch_idx js ?k = length ks1" "arr_get (bt_slots y) (length ks1) = Some (addr_of t)" "t \<in> set us"
      "map erase us ! length ks1 = erase t" "length ks1 < length us"
      by (rule split_at_child [OF Suc.prems(5)])
    have "cells (be_mem m1) a = Some y" using m1(2) Suc.prems(4,6) by simp
    from be_get_lift [OF this] obtain ya where ya: "mem_get m1 a = Some ya" "y = be_node ya" by blast
    have fa: "betree_findch ya ?k = Some (length ts1)" "arr_get (be_slots ya) (length ts1) = Some (addr_of t)"
      using findch_ok [OF Suc.prems(5), of ?k] d(3-5) ya(2) by (simp_all add: be_findch)
    have rt: "repr ((cells (be_mem m1))(c := None)) t" unfolding un using Suc.prems(7) d(6) by blast
    have rts: "reprs ((cells (be_mem m1))(c := None)) (ts1 @ t # ts2)" unfolding un using Suc.prems(7) d(1) by blast
    let ?x = "x\<lparr>cx_op := betree_SEARCH_UPPER, cx_t_past := addr_of t\<rparr>"
    note run = run_stage [OF be_stages(1)] betree_handlers_at betree_handle_upper_def
    have cur: "cx_t_cur x = c" "cx_t_past x = a" by (fact Suc.prems)+
    have fin: ?thesis
      if "conctrl_run betree_handlers (Suc (Suc fuel)) (x\<lparr>cx_op := betree_SEARCH_UPPER\<rparr>) m = Some (x', m')" "cx_root x' = cx_root x"
        "mem_ok bnode_ok j (be_mem m')" "cow_step (cells (be_mem m1)) (cells (be_mem m')) c (ts1 @ t # ts2) (ANode c (ts1 @ t' # ts2) js)"
        "el_upd (ow_cow g) ?k ?v (erase t) (erase t')" for x' m' t' g
    proof -
      have "el_upd (ow_cow g) ?k ?v (BNode (map erase us) js) (erase (ANode c (ts1 @ t' # ts2) js))"
        using el_upd_at [OF Suc.prems(5) d(1) _ that(5)] d(3,4) by simp
      with that(1-3) cow_step_shell [OF that(4) [folded d(1)] m1(2) dom] op' show ?thesis by blast
    qed
    show ?thesis
    proof (cases t)
      case (ALeaf b kvs)
      with rt obtain y2 where y2: "cells (be_mem m1) (cx_t_past ?x) = Some y2" "leaf_node y2 kvs" by (auto split: if_splits)
      have ok: "mem_ok bnode_ok (j + 3) (be_mem m1)" by (rule mem_ok_mono [OF m1(3)]) simp
      obtain z m2 u g where u: "betree_update_upper_cow ?x m1 = Some (conctrl_DONE, z, ?x, m2)" "addr_of u = z"
        "repr (cells (be_mem m2)) u" "cells (be_mem m1) \<subseteq>\<^sub>m cells (be_mem m2)" "set (footprint u) \<subseteq> - dom (cells (be_mem m1))"
        "mem_ok bnode_ok j (be_mem m2)" "erase u = bt_insert (ow_cow g) (cx_key ?x) (cx_val ?x) (BLeaf kvs)"
        by (rule upper_leaf_ok [OF y2 ok])
      have c2: "cells (be_mem m2) c = Some n1" by (rule map_le_Some [OF u(4) c1])
      obtain n2 m3 where m3: "betree_set_child c (length ts1) z m2 = Some m3" "cells (be_mem m3) = (cells (be_mem m2))(c \<mapsto> n2)"
        "mem_ok bnode_ok j (be_mem m3)" "inner_node n2 js (map addr_of ts1 @ z # map addr_of ts2)"
        by (rule be_set_child_ok [OF c2 m1(4) [unfolded d(1)] u(6)])
      have "c \<notin> set (footprint u)" using u(5) c1 by blast
      then have ru: "repr (cells (be_mem m3)) u" using u(3) by (simp add: m3(2) repr_upd del: cells_be_mem)
      have "(cells (be_mem m1))(c := None) \<subseteq>\<^sub>m cells (be_mem m3)" unfolding m3(2) using u(4) by (auto simp: map_le_def simp del: cells_be_mem)
      moreover note ru
      moreover have "set (footprint u) \<subseteq> set (footprint t) \<union> - dom (cells (be_mem m1))" using u(5) by blast
      moreover have "cells (be_mem m3) c = Some n2" unfolding m3(2) by simp
      moreover have "inner_node n2 js (map addr_of (ts1 @ u # ts2))" using m3(4) u(2) by simp
      ultimately have cs: "cow_step (cells (be_mem m1)) (cells (be_mem m3)) c (ts1 @ t # ts2) (ANode c (ts1 @ u # ts2) js)"
        by (rule cow_put_child [OF rts Suc.prems(3)])
      have "conctrl_run betree_handlers (Suc (Suc fuel)) (x\<lparr>cx_op := betree_SEARCH_UPPER\<rparr>) m =
          Some (?x\<lparr>cx_t_cur := z, cx_op := conctrl_DONE\<rparr>, m3)"
        unfolding run using cur m1(1) ya(1) fa u(1) m3(1) by simp
      from fin [OF this _ m3(3) cs, of g] u(7) ALeaf el_upd.here [of "ow_cow g" ?k ?v "BLeaf kvs"] show ?thesis by simp
    next
      case (ANode b vs ls)
      with rt obtain y2 where y2: "cells (be_mem m1) (cx_t_past ?x) = Some y2" "inner_node y2 ls (map addr_of vs)" "b \<noteq> c"
        "reprs ((cells (be_mem m1))(c := None)) vs" by (auto split: if_splits)
      have h: "\<forall>t \<in> set vs. aheight t < fuel"
        using Suc.prems(8) d(6) aheight_child_less [of _ vs b ls fuel] ANode by blast
      have ok: "mem_ok bnode_ok (Suc (2 * fuel + 3 + j)) (be_mem m1)" by (rule mem_ok_mono [OF m1(3)]) simp
      obtain op2 l x2 m2 nl where l: "betree_update_upper_cow ?x m1 = Some (op2, l, x2, m2)"
        "op2 \<in> {betree_SEARCH_UPPER, betree_SEARCH_ELASTIC}" "x2 = ?x \<or> x2 = ?x\<lparr>cx_wait_child := True\<rparr>"
        "cells (be_mem m2) = (cells (be_mem m1))(l \<mapsto> nl)" "inner_shell nl ls" "cells (be_mem m1) l = None" "l \<noteq> nullptr"
        "mem_ok bnode_ok (2 * fuel + 3 + j) (be_mem m2)"
        by (rule upper_node_ok [OF y2(1,2) ok])
      have ne: "l \<noteq> c" "l \<noteq> b" using l(6) c1 y2(1) ANode by auto
      have c2: "cells (be_mem m2) c = Some n1" unfolding l(4) using c1 ne by simp
      obtain n2 m3 where m3: "betree_set_child c (length ts1) l m2 = Some m3" "cells (be_mem m3) = (cells (be_mem m2))(c \<mapsto> n2)"
        "mem_ok bnode_ok (2 * fuel + 3 + j) (be_mem m3)" "inner_node n2 js (map addr_of ts1 @ l # map addr_of ts2)"
        by (rule be_set_child_ok [OF c2 m1(4) [unfolded d(1)] l(8)])
      have c3: "cells (be_mem m3) = (cells (be_mem m1))(l \<mapsto> nl, c \<mapsto> n2)" using m3(2) l(4) by simp
      have c4: "cells (be_mem m3) l = Some nl" "cells (be_mem m3) b = Some y2" unfolding c3 using ne y2(1,3) ANode by simp_all
      have le3: "(cells (be_mem m1))(c := None) \<subseteq>\<^sub>m (cells (be_mem m3))(l := None)"
        unfolding c3 using l(6) by (auto simp: map_le_def simp del: cells_be_mem)
      have vs: "reprs ((cells (be_mem m3))(l := None)) vs" using y2(4) repr_mono [OF _ le3] by blast
      have x2: "cx_t_past (x2\<lparr>cx_t_cur := l\<rparr>) = b" "cx_key x2 = ?k" "cx_val x2 = ?v" "cx_root x2 = cx_root x" "cx_t_cur x2 = c"
        using l(3) ANode cur by auto
      have "cx_t_cur (x2\<lparr>cx_t_cur := l\<rparr>) = l" "b \<noteq> l" using ne by simp_all
      from Suc.IH [OF c4(1) l(5,7) c4(2) y2(2) this(2) vs h m3(3) this(1) x2(1) l(2)]
      obtain x' m' g t' where r: "conctrl_run betree_handlers (Suc fuel) (x2\<lparr>cx_t_cur := l, cx_op := op2\<rparr>) m3 = Some (x', m')"
        "cx_root x' = cx_root x" "mem_ok bnode_ok j (be_mem m')" "cow_step (cells (be_mem m3)) (cells (be_mem m')) l vs t'"
        "el_upd (ow_cow g) ?k ?v (BNode (map erase vs) ls) (erase t')" using x2 by (auto simp del: conctrl_run.simps cells_be_mem)
      have t': "repr (cells (be_mem m')) t'" "addr_of t' = l" "(cells (be_mem m3))(l := None) \<subseteq>\<^sub>m cells (be_mem m')"
        "set (footprint t') \<subseteq> insert l (set (footprints vs) \<union> - dom (cells (be_mem m3)))"
        using r(4) by (simp_all add: cow_step_def del: cells_be_mem)
      have cs: "cow_step (cells (be_mem m1)) (cells (be_mem m')) c (ts1 @ t # ts2) (ANode c (ts1 @ t' # ts2) js)"
      proof (rule cow_put_child [OF rts Suc.prems(3) map_le_trans [OF le3 t'(3)] t'(1)])
        have "dom (cells (be_mem m1)) \<subseteq> dom (cells (be_mem m3))" "l \<notin> dom (cells (be_mem m1))"
          unfolding c3 using l(6) by (auto simp del: cells_be_mem)
        then show "set (footprint t') \<subseteq> set (footprint t) \<union> - dom (cells (be_mem m1))"
          using t'(4) ANode by auto
        show "cells (be_mem m') c = Some n2"
          by (rule map_le_Some [OF t'(3)]) (use c3 ne in \<open>simp del: cells_be_mem\<close>)
        show "inner_node n2 js (map addr_of (ts1 @ t' # ts2))" using m3(4) t'(2) by simp
      qed
      have "conctrl_run betree_handlers (Suc (Suc fuel)) (x\<lparr>cx_op := betree_SEARCH_UPPER\<rparr>) m = Some (x', m')"
        unfolding run using cur m1(1) ya(1) fa l(1) m3(1) r(1) x2(5) by (simp del: conctrl_run.simps)
      from fin [OF this r(2,3) cs] r(5) ANode show ?thesis by simp
    qed
  qed
qed

section \<open>A whole update\<close>

lemma betree_exec_ok:
  assumes "repr (cells (be_mem m)) t" "aheight t < fuel" "mem_ok bnode_ok (2 * fuel + 3 + j) (be_mem m)" "cx_t_past x = addr_of t"
  shows "\<exists>x' m' g t'. conctrl_exec betree_handlers fuel x m = Some (x', m') \<and> cx_root x' = addr_of t' \<and>
    mem_ok bnode_ok j (be_mem m') \<and> cow_version (cells (be_mem m)) (cells (be_mem m')) t t' \<and>
    el_upd (ow_cow g) (cx_key x) (cx_val x) (erase t) (erase t')"
proof -
  obtain f where f: "fuel = Suc f" using assms(2) by (cases fuel) auto
  have init: "betree_handlers 0 = betree_handle_init" by (simp add: betree_handlers_def be_ops)
  show ?thesis
  proof (cases t)
    case (ALeaf b kvs)
    with assms(1,4) obtain y where y: "cells (be_mem m) (cx_t_past x) = Some y" "leaf_node y kvs" by auto
    have ok: "mem_ok bnode_ok (j + 3) (be_mem m)" by (rule mem_ok_mono [OF assms(3)]) simp
    obtain z m2 u g where u: "betree_update_upper_cow x m = Some (conctrl_DONE, z, x, m2)" "addr_of u = z"
      "repr (cells (be_mem m2)) u" "cells (be_mem m) \<subseteq>\<^sub>m cells (be_mem m2)" "set (footprint u) \<subseteq> - dom (cells (be_mem m))"
      "mem_ok bnode_ok j (be_mem m2)" "erase u = bt_insert (ow_cow g) (cx_key x) (cx_val x) (BLeaf kvs)"
      by (rule upper_leaf_ok [OF y ok])
    have "conctrl_exec betree_handlers fuel x m = Some (x\<lparr>cx_root := z, cx_t_cur := z, cx_op := conctrl_DONE\<rparr>, m2)"
      using u(1) f by (simp add: conctrl_exec_def init betree_handle_init_def)
    moreover have "el_upd (ow_cow g) (cx_key x) (cx_val x) (erase t) (erase u)"
      unfolding u(7) ALeaf erase.simps by (rule el_upd.here)
    moreover have "cow_version (cells (be_mem m)) (cells (be_mem m2)) t u"
      using u(3-5) by (simp add: cow_version_def le_supI2 del: cells_be_mem)
    ultimately show ?thesis using u(2,6) by auto
  next
    case (ANode a us js)
    with assms(1,4) obtain y where y: "cells (be_mem m) (cx_t_past x) = Some y" "inner_node y js (map addr_of us)"
      "reprs (cells (be_mem m)) us" by (auto simp del: cells_be_mem)
    have a: "cx_t_past x = a" using assms(4) ANode by simp
    have h: "\<forall>t \<in> set us. aheight t < f" using assms(2) f ANode aheight_child_less [of _ us a js f] by blast
    have ok: "mem_ok bnode_ok (Suc (2 * f + 3 + j)) (be_mem m)" by (rule mem_ok_mono [OF assms(3)]) (simp add: f)
    obtain op2 l x2 m2 nl where l: "betree_update_upper_cow x m = Some (op2, l, x2, m2)"
      "op2 \<in> {betree_SEARCH_UPPER, betree_SEARCH_ELASTIC}" "x2 = x \<or> x2 = x\<lparr>cx_wait_child := True\<rparr>"
      "cells (be_mem m2) = (cells (be_mem m))(l \<mapsto> nl)" "inner_shell nl js" "cells (be_mem m) l = None" "l \<noteq> nullptr"
      "mem_ok bnode_ok (2 * f + 3 + j) (be_mem m2)"
      by (rule upper_node_ok [OF y(1,2) ok])
    have ne: "a \<noteq> l" using l(6) y(1) a by auto
    have un: "(cells (be_mem m2))(l := None) = cells (be_mem m)" unfolding l(4) using l(6) by auto
    have c2: "cells (be_mem m2) l = Some nl" "cells (be_mem m2) a = Some y" unfolding l(4) using ne y(1) a by simp_all
    let ?x = "x2\<lparr>cx_root := l, cx_t_cur := l\<rparr>"
    have x: "cx_t_cur ?x = l" "cx_t_past ?x = a" "cx_key ?x = cx_key x" "cx_val ?x = cx_val x" "cx_root ?x = l"
      using l(3) a by auto
    from upper_ok [OF c2(1) l(5,7) c2(2) y(2) ne _ h l(8) x(1,2) l(2)] y(3)
    obtain x' m' g t' where r: "conctrl_run betree_handlers (Suc f) (?x\<lparr>cx_op := op2\<rparr>) m2 = Some (x', m')"
      "cx_root x' = l" "mem_ok bnode_ok j (be_mem m')" "cow_step (cells (be_mem m2)) (cells (be_mem m')) l us t'"
      "el_upd (ow_cow g) (cx_key x) (cx_val x) (BNode (map erase us) js) (erase t')" unfolding x un by blast
    have "conctrl_exec betree_handlers fuel x m = Some (x', m')"
      using l(1) r(1) f by (simp add: conctrl_exec_def init betree_handle_init_def del: conctrl_run.simps)
    moreover have "addr_of t' = l" using r(4) by (simp add: cow_step_def)
    moreover have "cow_version (cells (be_mem m)) (cells (be_mem m')) t t'"
    proof -
      have "dom (cells (be_mem m2)) = insert l (dom (cells (be_mem m)))" unfolding l(4) by simp
      then show ?thesis
        using r(4) un l(6) ANode by (auto simp: cow_step_def cow_version_def simp del: cells_be_mem)
    qed
    ultimately show ?thesis using r(2,3,5) ANode by auto
  qed
qed

end
