(* ===== verification/Betree_Build.thy ===== *)
theory Betree_Build
  imports Betree_Node
begin

text \<open>
  \<^verbatim>\<open>lib/trees/betree/build.hpp\<close> and \<^verbatim>\<open>rebuild.hpp\<close>: bulk loading, which labels the nodes above
  the boundary and at it, and the rebuilding of a tree that has grown too high below the
  boundary, either from its entries or from the nodes at the level of the boundary.
\<close>

section \<open>Building\<close>

function betree_pack_internal ::
  "key list \<Rightarrow> addr list \<Rightarrow> nat \<Rightarrow> nat \<Rightarrow> nat \<Rightarrow> nat \<Rightarrow> nat \<Rightarrow> key list \<Rightarrow> addr list \<Rightarrow> bemem
     \<Rightarrow> ((key list \<times> addr list) \<times> bemem) option" where
  "betree_pack_internal chkeys chs n m r i k keys ts mm =
     (if i < n
      then do {
        let size = betree_B + (k + r) div m;
        key \<leftarrow> arr_get chkeys i;
        (t, mm) \<leftarrow> betree_new_internal 0 (size - 1) mm;
        c \<leftarrow> arr_get chs i;
        mm \<leftarrow> mem_upd mm t (\<lambda>x. do {
               cs \<leftarrow> arr_set (be_slots x) 0 c;
               ks \<leftarrow> arr_fill (be_keys x) 0 chkeys (i + 1) (size - 1);
               cs \<leftarrow> arr_fill cs 1 chs (i + 1) (size - 1);
               Some (x\<lparr>be_keys := ks, be_slots := cs\<rparr>) });
        betree_pack_internal chkeys chs n m r (i + size) ((k + r) mod m) (keys @ [key]) (ts @ [t]) mm }
      else Some ((keys, ts), mm))"
  by pat_completeness auto
termination
  by (relation "measure (\<lambda>(chkeys, chs, n, m, r, i, k, keys, ts, mm). n - i)") (auto simp: btree_B_def)

text \<open>\<^verbatim>\<open>for (nodeptr t : ts) { t->type = ty; }\<close>\<close>

fun betree_set_types :: "betree_type \<Rightarrow> addr list \<Rightarrow> bemem \<Rightarrow> bemem option" where
  "betree_set_types ty [] mm = Some mm"
| "betree_set_types ty (t # ts) mm = do { mm \<leftarrow> mem_upd mm t (\<lambda>n. Some (n\<lparr>be_type := ty\<rparr>)); betree_set_types ty ts mm }"

fun betree_build_internal :: "nat \<Rightarrow> 8 word \<Rightarrow> key list \<Rightarrow> addr list \<Rightarrow> bemem \<Rightarrow> ((addr \<times> 8 word) \<times> bemem) option" where
  "betree_build_internal 0 h chkeys chs mm = None"
| "betree_build_internal (Suc fuel) h chkeys chs mm =
     (let n = length chkeys in
      if n < 2 * betree_B
      then do {
        (t, mm) \<leftarrow> betree_new_internal 0 (n - 1) mm;
        mm \<leftarrow> mem_upd mm t (\<lambda>x. do {
               ks \<leftarrow> arr_fill (be_keys x) 0 chkeys 1 (n - 1);
               cs \<leftarrow> arr_fill (be_slots x) 0 chs 0 n;
               Some (x\<lparr>be_type := (if h = 0 then BE_BOUNDARY else BE_UPPER), be_verge := h, be_keys := ks, be_slots := cs\<rparr>) });
        Some ((t, 1), mm) }
      else do {
        let m = n div betree_B;
        let r = n - m * betree_B;
        ((keys, ts), mm) \<leftarrow> betree_pack_internal chkeys chs n m r 0 0 [] [] mm;
        ((t, d), mm) \<leftarrow> betree_build_internal fuel h keys ts mm;
        mm \<leftarrow> (if d < h then betree_set_types BE_UPPER ts mm
               else if d = h then betree_set_types BE_BOUNDARY ts mm
               else Some mm);
        Some ((t, d + 1), mm) })"

function betree_pack_leaves ::
  "kv list \<Rightarrow> nat \<Rightarrow> nat \<Rightarrow> nat \<Rightarrow> nat \<Rightarrow> nat \<Rightarrow> key list \<Rightarrow> addr list \<Rightarrow> bemem
     \<Rightarrow> ((key list \<times> addr list) \<times> bemem) option" where
  "betree_pack_leaves elems n m r i k keys ts mm =
     (if i < n
      then do {
        let size = betree_B + (k + r) div m;
        e \<leftarrow> arr_get elems i;
        (t, mm) \<leftarrow> betree_new_leaf 0 size mm;
        mm \<leftarrow> mem_upd mm t (\<lambda>x. do {
               ks \<leftarrow> arr_fill (be_keys x) 0 (map fst elems) i size;
               vs \<leftarrow> arr_fill (be_slots x) 0 (map snd elems) i size;
               Some (x\<lparr>be_keys := ks, be_slots := vs\<rparr>) });
        betree_pack_leaves elems n m r (i + size) ((k + r) mod m) (keys @ [fst e]) (ts @ [t]) mm }
      else Some ((keys, ts), mm))"
  by pat_completeness auto
termination
  by (relation "measure (\<lambda>(elems, n, m, r, i, k, keys, ts, mm). n - i)") (auto simp: btree_B_def)

definition betree_build_sorted :: "nat \<Rightarrow> 8 word \<Rightarrow> kv list \<Rightarrow> bemem \<Rightarrow> (addr \<times> bemem) option" where
  "betree_build_sorted fuel h elems mm =
     (let n = length elems in
      if n < 2 * betree_B
      then do {
        (t, mm) \<leftarrow> betree_new_leaf 0 n mm;
        mm \<leftarrow> mem_upd mm t (\<lambda>x. do {
               ks \<leftarrow> arr_fill (be_keys x) 0 (map fst elems) 0 n;
               vs \<leftarrow> arr_fill (be_slots x) 0 (map snd elems) 0 n;
               Some (x\<lparr>be_type := BE_LEAF, be_verge := h, be_keys := ks, be_slots := vs\<rparr>) });
        Some (t, mm) }
      else do {
        let m = n div betree_B;
        let r = n - m * betree_B;
        ((keys, ts), mm) \<leftarrow> betree_pack_leaves elems n m r 0 0 [] [] mm;
        ((t, d), mm) \<leftarrow> betree_build_internal fuel h keys ts mm;
        Some (t, mm) })"

definition betree_build :: "nat \<Rightarrow> 8 word \<Rightarrow> kv list \<Rightarrow> bemem \<Rightarrow> (addr \<times> bemem) option" where
  "betree_build fuel h elems mm = betree_build_sorted fuel h (sort elems) mm"

section \<open>Rebuilding\<close>

text \<open>The second loop of \<^verbatim>\<open>unfold_elems\<close>, over the entries of a leaf.\<close>

function betree_unfold_leaf :: "benode \<Rightarrow> nat \<Rightarrow> kv list \<Rightarrow> kv list option" where
  "betree_unfold_leaf t i elems =
     (if i < be_size t
      then do { k \<leftarrow> arr_get (be_keys t) i; v \<leftarrow> arr_get (be_slots t) i; betree_unfold_leaf t (i + 1) (elems @ [(k, v)]) }
      else Some elems)"
  by pat_completeness auto
termination
  by (relation "measure (\<lambda>(t, i, elems). be_size t - i)") auto

text \<open>\<open>betree_unfold_elems_from\<close> is its first loop, over the children.\<close>

function betree_unfold_elems :: "nat \<Rightarrow> addr \<Rightarrow> kv list \<Rightarrow> bemem \<Rightarrow> kv list option"
  and betree_unfold_elems_from :: "nat \<Rightarrow> benode \<Rightarrow> nat \<Rightarrow> kv list \<Rightarrow> bemem \<Rightarrow> kv list option" where
  "betree_unfold_elems 0 t elems m = None"
| "betree_unfold_elems (Suc fuel) t elems m =
     do { n \<leftarrow> mem_get m t;
          if be_type n \<noteq> BE_LEAF then betree_unfold_elems_from fuel n 0 elems m
          else betree_unfold_leaf n 0 elems }"
| "betree_unfold_elems_from fuel n i elems m =
     (if i \<le> be_size n
      then do { c \<leftarrow> arr_get (be_slots n) i;
                elems \<leftarrow> betree_unfold_elems fuel c elems m;
                betree_unfold_elems_from fuel n (i + 1) elems m }
      else Some elems)"
  by pat_completeness auto
termination
  by (relation "measures [\<lambda>s. case s of Inl (f, _) \<Rightarrow> f | Inr (f, _) \<Rightarrow> f,
        \<lambda>s. case s of Inl _ \<Rightarrow> 0 | Inr (f, n, i, _) \<Rightarrow> Suc (be_size n) - i + 1]") auto

definition betree_rebuild_entire :: "nat \<Rightarrow> addr \<Rightarrow> 8 word \<Rightarrow> bemem \<Rightarrow> (addr \<times> bemem) option" where
  "betree_rebuild_entire fuel t h m =
     do { elems \<leftarrow> betree_unfold_elems fuel t [] m; betree_build_sorted (length elems) h elems m }"

text \<open>
  \<^verbatim>\<open>unfold_extra\<close>, and its loop with the call for the last child after it, which
  \<^verbatim>\<open>unfold_upper_part\<close> has as well.
\<close>

function betree_unfold_extra :: "nat \<Rightarrow> addr \<Rightarrow> key list \<times> addr list \<Rightarrow> bemem \<Rightarrow> (key list \<times> addr list) option"
  and betree_unfold_extra_from :: "nat \<Rightarrow> benode \<Rightarrow> nat \<Rightarrow> key list \<times> addr list \<Rightarrow> bemem \<Rightarrow> (key list \<times> addr list) option" where
  "betree_unfold_extra 0 t acc m = None"
| "betree_unfold_extra (Suc fuel) t acc m =
     do { n \<leftarrow> mem_get m t;
          if be_height n = 0 then Some (fst acc, snd acc @ [t])
          else betree_unfold_extra_from fuel n 0 acc m }"
| "betree_unfold_extra_from fuel n i acc m =
     (if i < be_size n
      then do { c \<leftarrow> arr_get (be_slots n) i;
                acc \<leftarrow> betree_unfold_extra fuel c acc m;
                k \<leftarrow> arr_get (be_keys n) i;
                betree_unfold_extra_from fuel n (i + 1) (fst acc @ [k], snd acc) m }
      else do { c \<leftarrow> arr_get (be_slots n) (be_size n); betree_unfold_extra fuel c acc m })"
  by pat_completeness auto
termination
  by (relation "measures [\<lambda>s. case s of Inl (f, _) \<Rightarrow> f | Inr (f, _) \<Rightarrow> f,
        \<lambda>s. case s of Inl _ \<Rightarrow> 0 | Inr (f, n, i, _) \<Rightarrow> Suc (be_size n) - i + 1]") auto

function betree_unfold_upper_part :: "nat \<Rightarrow> addr \<Rightarrow> key list \<times> addr list \<Rightarrow> bemem \<Rightarrow> (key list \<times> addr list) option"
  and betree_unfold_upper_from :: "nat \<Rightarrow> benode \<Rightarrow> nat \<Rightarrow> key list \<times> addr list \<Rightarrow> bemem \<Rightarrow> (key list \<times> addr list) option" where
  "betree_unfold_upper_part 0 t acc m = None"
| "betree_unfold_upper_part (Suc fuel) t acc m =
     do { n \<leftarrow> mem_get m t;
          if be_type n \<noteq> BE_BOUNDARY then betree_unfold_upper_from fuel n 0 acc m
          else betree_unfold_extra_from fuel n 0 acc m }"
| "betree_unfold_upper_from fuel n i acc m =
     (if i < be_size n
      then do { c \<leftarrow> arr_get (be_slots n) i;
                acc \<leftarrow> betree_unfold_upper_part fuel c acc m;
                k \<leftarrow> arr_get (be_keys n) i;
                betree_unfold_upper_from fuel n (i + 1) (fst acc @ [k], snd acc) m }
      else do { c \<leftarrow> arr_get (be_slots n) (be_size n); betree_unfold_upper_part fuel c acc m })"
  by pat_completeness auto
termination
  by (relation "measures [\<lambda>s. case s of Inl (f, _) \<Rightarrow> f | Inr (f, _) \<Rightarrow> f,
        \<lambda>s. case s of Inl _ \<Rightarrow> 0 | Inr (f, n, i, _) \<Rightarrow> Suc (be_size n) - i + 1]") auto

definition betree_rebuild_internal :: "nat \<Rightarrow> addr \<Rightarrow> 8 word \<Rightarrow> bemem \<Rightarrow> (addr \<times> bemem) option" where
  "betree_rebuild_internal fuel t h m =
     do { (keys, chs) \<leftarrow> betree_unfold_upper_part fuel t ([0], []) m;
          ((t, d), m) \<leftarrow> betree_build_internal (length keys) h keys chs m;
          Some (t, m) }"

text \<open>The loop of \<^verbatim>\<open>leaf_over_boundary\<close>, \<^term>\<open>h\<close> rounds and the test after it.\<close>

fun betree_leaf_over_boundary :: "addr \<Rightarrow> nat \<Rightarrow> bemem \<Rightarrow> bool option" where
  "betree_leaf_over_boundary t 0 m = do { n \<leftarrow> mem_get m t; Some (be_type n = BE_LEAF) }"
| "betree_leaf_over_boundary t (Suc h) m =
     do { n \<leftarrow> mem_get m t;
          if be_type n = BE_LEAF then Some True
          else do { c \<leftarrow> arr_get (be_slots n) 0; betree_leaf_over_boundary c h m } }"

definition betree_rebuild :: "nat \<Rightarrow> addr \<Rightarrow> 8 word \<Rightarrow> bemem \<Rightarrow> (addr \<times> bemem) option" where
  "betree_rebuild fuel t h m =
     do { b \<leftarrow> betree_leaf_over_boundary t (unat h) m;
          if b then betree_rebuild_entire fuel t h m else betree_rebuild_internal fuel t h m }"

text \<open>\<^verbatim>\<open>checkpoint_handler\<close> of \<^verbatim>\<open>src/adapters/betree.hpp\<close>.\<close>

definition betree_checkpoint_handler :: "nat \<Rightarrow> 'x ctx_scheme \<Rightarrow> bemem \<Rightarrow> ('x ctx_scheme \<times> bemem) option" where
  "betree_checkpoint_handler fuel c m =
     do { n \<leftarrow> mem_get m (cx_t_past c);
          (t, m) \<leftarrow> betree_rebuild fuel (cx_t_past c) (be_verge n) m;
          Some (c\<lparr>cx_root := t\<rparr>, m) }"

declare betree_pack_internal.simps [simp del] betree_pack_leaves.simps [simp del] betree_unfold_leaf.simps [simp del]
  betree_unfold_elems_from.simps [simp del] betree_unfold_extra_from.simps [simp del] betree_unfold_upper_from.simps [simp del]

section \<open>Building has the effect it has on the B+-tree\<close>

lemma be_pack_internal:
  "btree_pack_internal chkeys chs n m r i k keys ts (be_mem mm) =
     map_option (apsnd be_mem) (betree_pack_internal chkeys chs n m r i k keys ts mm)"
proof (induction "n - i" arbitrary: i k keys ts mm rule: less_induct)
  case less
  have IH: "btree_pack_internal chkeys chs n m r (i + (btree_B + j)) k keys ts (be_mem mm) =
      map_option (apsnd be_mem) (betree_pack_internal chkeys chs n m r (i + (btree_B + j)) k keys ts mm)"
    if "i < n" for j k keys ts mm
    by (rule less) (use that in \<open>simp add: btree_B_def\<close>)
  show ?case
    by (subst btree_pack_internal.simps, subst betree_pack_internal.simps)
      (auto simp: Let_def be_node_def intro!: be_call [OF be_new_internal] be_step IH)
qed

lemma be_pack_leaves:
  "btree_pack_leaves elems n m r i k keys ts (be_mem mm) =
     map_option (apsnd be_mem) (betree_pack_leaves elems n m r i k keys ts mm)"
proof (induction "n - i" arbitrary: i k keys ts mm rule: less_induct)
  case less
  have IH: "btree_pack_leaves elems n m r (i + (btree_B + j)) k keys ts (be_mem mm) =
      map_option (apsnd be_mem) (betree_pack_leaves elems n m r (i + (btree_B + j)) k keys ts mm)"
    if "i < n" for j k keys ts mm
    by (rule less) (use that in \<open>simp add: btree_B_def\<close>)
  show ?case
    by (subst btree_pack_leaves.simps, subst betree_pack_leaves.simps)
      (auto simp: Let_def be_node_def intro!: be_call [OF be_new_leaf] be_step IH)
qed

text \<open>Internal nodes stay allocated and stay internal while a tree is built over them.\<close>

definition inner_kept :: "bemem \<Rightarrow> bemem \<Rightarrow> bool" where
  "inner_kept m m' \<longleftrightarrow> (\<forall>a n. cells m a = Some n \<and> be_type n \<noteq> BE_LEAF \<longrightarrow> (\<exists>n'. cells m' a = Some n' \<and> be_type n' \<noteq> BE_LEAF))"

lemma inner_kept_refl: "inner_kept m m"
  by (simp add: inner_kept_def)

lemma inner_kept_trans: "inner_kept m m' \<Longrightarrow> inner_kept m' m'' \<Longrightarrow> inner_kept m m''"
  unfolding inner_kept_def by blast

lemma inner_kept_upd:
  "mem_upd m a f = Some m' \<Longrightarrow> (\<And>n n'. f n = Some n' \<Longrightarrow> be_type n \<noteq> BE_LEAF \<Longrightarrow> be_type n' \<noteq> BE_LEAF) \<Longrightarrow> inner_kept m m'"
  by (auto simp: inner_kept_def mem_upd_def split: bind_splits)

lemma new_internal_kept:
  assumes "betree_new_internal ver sz m = Some (t, m')"
  shows "inner_kept m m'" "\<exists>n. cells m' t = Some n \<and> be_type n \<noteq> BE_LEAF"
  using assms
  by (auto simp: betree_new_internal_def betree_new_node_def mem_alloc_def mem_upd_def inner_kept_def
      split: bind_splits list.splits)

definition all_inner :: "bemem \<Rightarrow> addr list \<Rightarrow> bool" where
  "all_inner m ts \<longleftrightarrow> (\<forall>t \<in> set ts. \<exists>n. cells m t = Some n \<and> be_type n \<noteq> BE_LEAF)"

lemma all_inner_kept: "all_inner m ts \<Longrightarrow> inner_kept m m' \<Longrightarrow> all_inner m' ts"
  unfolding all_inner_def inner_kept_def by blast

lemma pack_internal_kept:
  assumes "betree_pack_internal chkeys chs n m r i k keys ts mm = Some ((keys', ts'), mm')" "all_inner mm ts"
  shows "inner_kept mm mm' \<and> all_inner mm' ts'"
  using assms
proof (induction chkeys chs n m r i k keys ts mm rule: betree_pack_internal.induct)
  case (1 chkeys chs n m r i k keys ts mm)
  show ?case
  proof (cases "i < n")
    case False
    with "1.prems" show ?thesis by (subst (asm) betree_pack_internal.simps) (simp add: inner_kept_refl)
  next
    case True
    let ?size = "betree_B + (k + r) div m"
    from "1.prems"(1) True obtain key t m1 c m2 where b: "arr_get chkeys i = Some key"
      "betree_new_internal 0 (?size - 1) mm = Some (t, m1)" "arr_get chs i = Some c"
      "mem_upd m1 t (\<lambda>x. do { cs \<leftarrow> arr_set (be_slots x) 0 c; ks \<leftarrow> arr_fill (be_keys x) 0 chkeys (i + 1) (?size - 1);
         cs \<leftarrow> arr_fill cs 1 chs (i + 1) (?size - 1); Some (x\<lparr>be_keys := ks, be_slots := cs\<rparr>) }) = Some m2"
      "betree_pack_internal chkeys chs n m r (i + ?size) ((k + r) mod m) (keys @ [key]) (ts @ [t]) m2 = Some ((keys', ts'), mm')"
      by (subst (asm) betree_pack_internal.simps) (auto simp: Let_def split: bind_splits)
    have k2: "inner_kept m1 m2" by (rule inner_kept_upd [OF b(4)]) (auto split: bind_splits)
    note k1 = new_internal_kept [OF b(2)]
    have "all_inner m2 (ts @ [t])"
      using all_inner_kept [OF "1.prems"(2) inner_kept_trans [OF k1(1) k2]] all_inner_kept [OF _ k2, of "[t]"] k1(2)
      by (simp add: all_inner_def)
    with "1.IH" [OF True refl b(1) b(2) refl b(3,4) b(5)] inner_kept_trans [OF k1(1) k2] show ?thesis
      using inner_kept_trans by blast
  qed
qed

lemma set_types_kept:
  assumes "all_inner m ts" "ty \<noteq> BE_LEAF"
  shows "\<exists>m'. betree_set_types ty ts m = Some m' \<and> be_mem m' = be_mem m \<and> inner_kept m m'"
  using assms
proof (induction ts arbitrary: m)
  case (Cons t ts)
  then obtain n where n: "cells m t = Some n" "be_type n \<noteq> BE_LEAF" by (auto simp: all_inner_def)
  then have "be_node (n\<lparr>be_type := ty\<rparr>) = be_node n" using Cons.prems(2) by (simp add: be_node_def be_kind_def)
  from be_upd_hidden [where f = "\<lambda>n. n\<lparr>be_type := ty\<rparr>", OF n(1) this] obtain m1 where
    m1: "mem_upd m t (\<lambda>n. Some (n\<lparr>be_type := ty\<rparr>)) = Some m1" "be_mem m1 = be_mem m" .
  have k: "inner_kept m m1" by (rule inner_kept_upd [OF m1(1)]) (use Cons.prems(2) in auto)
  have "all_inner m1 ts" using all_inner_kept [OF _ k, of ts] Cons.prems(1) by (simp add: all_inner_def)
  from Cons.IH [OF this Cons.prems(2)] m1 k inner_kept_trans show ?case by fastforce
qed (simp add: inner_kept_refl)

lemma be_upd_at:
  assumes "cells m a = Some n" "f (be_node n) = map_option be_node (g n)"
  shows "mem_upd (be_mem m) a f = map_option be_mem (mem_upd m a g)"
  using assms by (auto simp: mem_upd_def be_mem_def fun_eq_iff split: bind_splits)

lemma be_build_internal:
  "btree_build_internal fuel chkeys chs (be_mem mm) =
     map_option (\<lambda>((t, d), mm). (t, be_mem mm)) (betree_build_internal fuel h chkeys chs mm) \<and>
   (\<forall>t d mm'. betree_build_internal fuel h chkeys chs mm = Some ((t, d), mm') \<longrightarrow> inner_kept mm mm')"
proof (induction fuel arbitrary: chkeys chs mm)
  case (Suc fuel)
  let ?n = "length chkeys"
  show ?case
  proof (cases "?n < 2 * btree_B")
    case True
    let ?ty = "if h = 0 then BE_BOUNDARY else BE_UPPER"
    have kind: "be_kind ?ty = BT_INTERNAL" "?ty \<noteq> BE_LEAF" by simp_all
    have "inner_kept mm mm'" if r: "betree_build_internal (Suc fuel) h chkeys chs mm = Some ((t, d), mm')" for t d mm'
    proof -
      from r True obtain t m1 where m1: "betree_new_internal 0 (?n - 1) mm = Some (t, m1)"
        "mem_upd m1 t (\<lambda>x. do { ks \<leftarrow> arr_fill (be_keys x) 0 chkeys 1 (?n - 1); cs \<leftarrow> arr_fill (be_slots x) 0 chs 0 ?n;
           Some (x\<lparr>be_type := ?ty, be_verge := h, be_keys := ks, be_slots := cs\<rparr>) }) = Some mm'"
        by (auto simp: Let_def split: bind_splits)
      have "inner_kept m1 mm'" by (rule inner_kept_upd [OF m1(2)]) (auto split: bind_splits if_splits)
      with new_internal_kept(1) [OF m1(1)] show ?thesis by (rule inner_kept_trans)
    qed
    moreover have "btree_build_internal (Suc fuel) chkeys chs (be_mem mm) =
      map_option (\<lambda>((t, d), mm). (t, be_mem mm)) (betree_build_internal (Suc fuel) h chkeys chs mm)"
    proof (cases "betree_new_internal 0 (?n - 1) mm")
      case None
      then show ?thesis using True by (simp add: Let_def be_new_internal)
    next
      case (Some p)
      obtain t m1 where p: "p = (t, m1)" by (cases p) auto
      from new_internal_kept(2) [OF Some [unfolded p]] obtain x where x: "cells m1 t = Some x" "be_type x \<noteq> BE_LEAF" by blast
      let ?f = "\<lambda>x. do { ks \<leftarrow> arr_fill (bt_keys x) 0 chkeys 1 (?n - 1); cs \<leftarrow> arr_fill (bt_slots x) 0 chs 0 ?n;
        Some (x\<lparr>bt_keys := ks, bt_slots := cs\<rparr>) }"
      let ?g = "\<lambda>x. do { ks \<leftarrow> arr_fill (be_keys x) 0 chkeys 1 (?n - 1); cs \<leftarrow> arr_fill (be_slots x) 0 chs 0 ?n;
        Some (x\<lparr>be_type := ?ty, be_verge := h, be_keys := ks, be_slots := cs\<rparr>) }"
      have "be_kind (be_type x) = be_kind ?ty" using x(2) by (simp add: be_kind_def)
      then have "?f (be_node x) = map_option be_node (?g x)"
        by (auto intro!: be_bind_same simp: be_node_def)
      from be_upd_at [where f = ?f and g = ?g, OF x(1) this] Some p True show ?thesis
        by (cases "mem_upd m1 t ?g") (simp_all add: Let_def be_new_internal)
    qed
    ultimately show ?thesis by blast
  next
    case False
    let ?m = "?n div btree_B"
    let ?r = "?n - ?m * btree_B"
    show ?thesis
    proof (cases "betree_pack_internal chkeys chs ?n ?m ?r 0 0 [] [] mm")
      case None
      then show ?thesis using False by (simp add: Let_def be_pack_internal)
    next
      case (Some p)
      obtain keys ts m1 where p: "p = ((keys, ts), m1)" by (cases p) auto
      from pack_internal_kept [OF Some [unfolded p]] have k1: "inner_kept mm m1" "all_inner m1 ts"
        by (simp_all add: all_inner_def)
      note IH = Suc.IH [of keys ts m1]
      show ?thesis
      proof (cases "betree_build_internal fuel h keys ts m1")
        case None
        then show ?thesis using False Some p IH by (simp add: Let_def be_pack_internal)
      next
        case Some2: (Some q)
        obtain t d m2 where q: "q = ((t, d), m2)" by (cases q) auto
        from IH Some2 q have k2: "inner_kept m1 m2" by simp
        have ts: "all_inner m2 ts" by (rule all_inner_kept [OF k1(2) k2])
        have "\<exists>m3. (if d < h then betree_set_types BE_UPPER ts m2 else if d = h then betree_set_types BE_BOUNDARY ts m2 else Some m2) = Some m3 \<and>
          be_mem m3 = be_mem m2 \<and> inner_kept m2 m3"
          using set_types_kept [OF ts, of BE_UPPER] set_types_kept [OF ts, of BE_BOUNDARY] inner_kept_refl by auto
        then obtain m3 where m3: "(if d < h then betree_set_types BE_UPPER ts m2 else if d = h then betree_set_types BE_BOUNDARY ts m2 else Some m2) = Some m3"
          "be_mem m3 = be_mem m2" "inner_kept m2 m3" by blast
        from inner_kept_trans [OF k1(1) inner_kept_trans [OF k2 m3(3)]] show ?thesis
          using False Some p Some2 q m3(1,2) IH by (simp add: Let_def be_pack_internal)
      qed
    qed
  qed
qed simp

lemma be_build_sorted:
  "btree_build_sorted fuel elems (be_mem mm) = map_option (apsnd be_mem) (betree_build_sorted fuel h elems mm)"
proof (cases "length elems < 2 * btree_B")
  case True
  let ?n = "length elems"
  have node: "be_node (x\<lparr>be_type := BE_LEAF, be_verge := h, be_keys := ks, be_slots := vs\<rparr>) = be_node x\<lparr>bt_keys := ks, bt_slots := vs\<rparr>"
    if "be_type x = BE_LEAF" for x ks vs using that by (simp add: be_node_def)
  show ?thesis
  proof (cases "betree_new_leaf 0 ?n mm")
    case None
    then show ?thesis using True by (simp add: btree_build_sorted_def betree_build_sorted_def Let_def be_new_leaf)
  next
    case (Some p)
    obtain t m1 where p: "p = (t, m1)" by (cases p) auto
    from Some p obtain x where x: "cells m1 t = Some x" "be_type x = BE_LEAF"
      by (auto simp: betree_new_leaf_def betree_new_node_def mem_alloc_def mem_upd_def split: bind_splits list.splits)
    let ?f = "\<lambda>x. do { ks \<leftarrow> arr_fill (bt_keys x) 0 (map fst elems) 0 ?n; vs \<leftarrow> arr_fill (bt_slots x) 0 (map snd elems) 0 ?n;
      Some (x\<lparr>bt_keys := ks, bt_slots := vs\<rparr>) }"
    let ?g = "\<lambda>x. do { ks \<leftarrow> arr_fill (be_keys x) 0 (map fst elems) 0 ?n; vs \<leftarrow> arr_fill (be_slots x) 0 (map snd elems) 0 ?n;
      Some (x\<lparr>be_type := BE_LEAF, be_verge := h, be_keys := ks, be_slots := vs\<rparr>) }"
    have "?f (be_node x) = map_option be_node (?g x)" by (auto intro!: be_bind_same simp: node x(2))
    from be_upd_at [where f = ?f and g = ?g, OF x(1) this] Some p True show ?thesis
      by (cases "mem_upd m1 t ?g") (simp_all add: btree_build_sorted_def betree_build_sorted_def Let_def be_new_leaf)
  qed
next
  case False
  have Q: "Option.bind (btree_build_internal fuel keys ts (be_mem m1)) Some =
      map_option (apsnd be_mem) (do { ((t, d), mm) \<leftarrow> betree_build_internal fuel h keys ts m1; Some (t, mm) })" for keys ts m1
    using be_build_internal [of fuel keys ts m1 h] by (cases "betree_build_internal fuel h keys ts m1") auto
  from False show ?thesis
    unfolding btree_build_sorted_def betree_build_sorted_def Let_def be_B
    by (cases "betree_pack_leaves elems (length elems) (length elems div btree_B) (length elems - length elems div btree_B * btree_B) 0 0 [] [] mm")
      (auto simp: be_pack_leaves Q [simplified])
qed

section \<open>What unfolding collects\<close>

lemma unfold_leaf_ok:
  assumes "leaf_node (be_node n) kvs" "i \<le> length kvs"
  shows "betree_unfold_leaf n i elems = Some (elems @ drop i kvs)"
  using assms(2)
proof (induction "length kvs - i" arbitrary: i elems)
  case 0
  have "be_size n = length kvs" using assms(1) by (simp add: leaf_node_def)
  with 0 show ?case by (subst betree_unfold_leaf.simps) simp
next
  case (Suc x)
  then have i: "i < length kvs" by simp
  have n: "be_size n = length kvs" "length kvs \<le> length (be_keys n)" "length kvs \<le> length (be_slots n)"
    using assms(1) by (auto simp: leaf_node_def bnode_ok_def)
  have "betree_unfold_leaf n (Suc i) (elems @ [kvs ! i]) = Some ((elems @ [kvs ! i]) @ drop (Suc i) kvs)"
    using Suc.hyps(1) [of "Suc i"] Suc.hyps(2) i by simp
  moreover have "arr_get (be_keys n) i = Some (fst (kvs ! i))" "arr_get (be_slots n) i = Some (snd (kvs ! i))"
    using leaf_node_nth [OF assms(1) i] n i by (simp_all add: arr_get_def)
  ultimately show ?case
    using i n(1) by (subst betree_unfold_leaf.simps) (simp add: Cons_nth_drop_Suc)
qed

lemma unfold_elems_ok:
  "repr (cells (be_mem m)) t \<Longrightarrow> aheight t < fuel \<Longrightarrow>
   betree_unfold_elems fuel (addr_of t) elems m = Some (elems @ btree_map t)"
  "inner_node (be_node n) ks (map addr_of ts) \<Longrightarrow> reprs (cells (be_mem m)) ts \<Longrightarrow> \<forall>t \<in> set ts. aheight t < fuel \<Longrightarrow>
   betree_unfold_elems_from fuel n i elems m = Some (elems @ bts_inorder (map erase (drop i ts)))"
proof (induction fuel "addr_of t" elems m and fuel n i elems m arbitrary: t and ks ts
    rule: betree_unfold_elems_betree_unfold_elems_from.induct)
  case (2 fuel elems m)
  show ?case
  proof (cases t)
    case (ALeaf a kvs)
    with 2 obtain n where n: "mem_get m a = Some n" "leaf_node (be_node n) kvs" by (auto simp: mem_get_def)
    then have "be_type n = BE_LEAF" using leaf_is_leaf [OF n(2)] by simp
    with n ALeaf unfold_leaf_ok [OF n(2), of 0] show ?thesis by simp
  next
    case (ANode a ts ks)
    with 2 obtain n where n: "mem_get m a = Some n" "inner_node (be_node n) ks (map addr_of ts)" "reprs (cells (be_mem m)) ts"
      by (auto simp: mem_get_def simp del: cells_be_mem) (auto)
    have "be_type n \<noteq> BE_LEAF" using n(2) by (auto simp: inner_node_def)
    moreover have "\<forall>t \<in> set ts. aheight t < fuel" using "2.prems"(2) ANode aheight_child_less by blast
    ultimately show ?thesis using n ANode "2.hyps" [of n ks ts] by simp
  qed
next
  case (3 fuel n i elems m)
  have len: "be_size n = length ks" "length ts = Suc (length ks)"
    using "3.prems"(1) inner_node_length [OF "3.prems"(1)] by (simp_all add: inner_node_def)
  show ?case
  proof (cases "i < length ts")
    case True
    have c: "arr_get (be_slots n) i = Some (addr_of (ts ! i))" "ts ! i \<in> set ts"
      using inner_node_child [OF "3.prems"(1), of i] True by simp_all
    have "betree_unfold_elems fuel (addr_of (ts ! i)) elems m = Some (elems @ btree_map (ts ! i))"
    proof (rule "3.hyps"(1))
      show "repr (cells (be_mem m)) (ts ! i)" using "3.prems"(2) c(2) by blast
      show "aheight (ts ! i) < fuel" using "3.prems"(3) c(2) by blast
    qed (use c True len in auto)
    moreover have "drop i ts = ts ! i # drop (Suc i) ts" using True by (simp add: Cons_nth_drop_Suc)
    ultimately show ?thesis
      using "3.hyps"(2) [OF _ c(1), of _ ks ts] True len c "3.prems"
      by (subst betree_unfold_elems_from.simps) simp
  qed (use len in \<open>subst betree_unfold_elems_from.simps, simp\<close>)
qed simp

end
