(* ===== verification/Betree_Rebuild.thy ===== *)
theory Betree_Rebuild
  imports Betree_Build
begin

text \<open>
  What \<^verbatim>\<open>rebuild_internal\<close> keeps of a tree: the nodes of height 0 below the boundary, the cut,
  with the separators between them. A tree built over the cut has the contents of the old one.
\<close>

section \<open>The cut\<close>

text \<open>The flag tells whether the boundary has been passed.\<close>

inductive be_cut :: "bemem \<Rightarrow> bool \<Rightarrow> atree \<Rightarrow> key list \<Rightarrow> atree list \<Rightarrow> bool"
  and be_cuts :: "bemem \<Rightarrow> bool \<Rightarrow> atree list \<Rightarrow> key list \<Rightarrow> key list \<Rightarrow> atree list \<Rightarrow> bool" for m where
  stop: "cells m (addr_of t) = Some n \<Longrightarrow> be_height n = 0 \<Longrightarrow> be_cut m True t [] [t]"
| grown: "cells m a = Some n \<Longrightarrow> be_height n \<noteq> 0 \<Longrightarrow> be_cuts m True ts ks K C \<Longrightarrow> be_cut m True (ANode a ts ks) K C"
| at: "cells m a = Some n \<Longrightarrow> be_type n = BE_BOUNDARY \<Longrightarrow> be_cuts m True ts ks K C \<Longrightarrow> be_cut m False (ANode a ts ks) K C"
| above: "cells m a = Some n \<Longrightarrow> be_type n \<noteq> BE_BOUNDARY \<Longrightarrow> be_cuts m False ts ks K C \<Longrightarrow> be_cut m False (ANode a ts ks) K C"
| one: "be_cut m b t K C \<Longrightarrow> be_cuts m b [t] [] K C"
| more: "be_cut m b t K C \<Longrightarrow> be_cuts m b ts ks K' C' \<Longrightarrow> be_cuts m b (t # ts) (k # ks) (K @ k # K') (C @ C')"

lemma cut_reprs:
  "be_cut m b t K C \<Longrightarrow> repr (cells (be_mem m)) t \<Longrightarrow> reprs (cells (be_mem m)) C"
  "be_cuts m b ts ks K C \<Longrightarrow> reprs (cells (be_mem m)) ts \<Longrightarrow> reprs (cells (be_mem m)) C"
  by (induction rule: be_cut_be_cuts.inducts) (auto simp del: cells_be_mem)

lemma cut_map:
  "be_cut m b t K C \<Longrightarrow> bts_inorder (map erase C) = bt_inorder (erase t)"
  "be_cuts m b ts ks K C \<Longrightarrow> bts_inorder (map erase C) = bts_inorder (map erase ts)"
  by (induction rule: be_cut_be_cuts.inducts) (auto simp: comp_def)

lemma cut_footprints:
  "be_cut m b t K C \<Longrightarrow> distinct (footprint t) \<Longrightarrow> distinct (footprints C) \<and> set (footprints C) \<subseteq> set (footprint t)"
  "be_cuts m b ts ks K C \<Longrightarrow> distinct (footprints ts) \<Longrightarrow> distinct (footprints C) \<and> set (footprints C) \<subseteq> set (footprints ts)"
  by (induction rule: be_cut_be_cuts.inducts) (simp_all, blast+)

lemma bts_wf_join:
  "bts_wf lo (Some k) ts ks \<Longrightarrow> lo < k \<Longrightarrow> below k hi \<Longrightarrow> bts_wf k hi us js \<Longrightarrow> bts_wf lo hi (ts @ us) (ks @ k # js)"
  by (induction ts arbitrary: lo ks) (case_tac ks; auto intro: below_trans)+

lemma cut_wf:
  "be_cut m b t K C \<Longrightarrow> bt_wf lo hi (erase t) \<Longrightarrow> bts_wf lo hi (map erase C) K"
  "be_cuts m b ts ks K C \<Longrightarrow> bts_wf lo hi (map erase ts) ks \<Longrightarrow> bts_wf lo hi (map erase C) K"
  by (induction arbitrary: lo hi and lo hi rule: be_cut_be_cuts.inducts) (simp_all add: bts_wf_join)

section \<open>The unfolding collects the cut\<close>

lemma be_repr_node:
  assumes "repr (cells (be_mem m)) (ANode a ts ks)" "cells m a = Some n"
  shows "inner_node (be_node n) ([] @ ks) (map addr_of ([] @ ts))" "reprs (cells (be_mem m)) ts"
proof -
  have "cells (be_mem m) a = Some (be_node n)" using assms(2) by simp
  with assms(1) show "inner_node (be_node n) ([] @ ks) (map addr_of ([] @ ts))" "reprs (cells (be_mem m)) ts"
    by (simp_all del: cells_be_mem)
qed

lemma unfold_cut:
  "be_cut m b t K C \<Longrightarrow> repr (cells (be_mem m)) t \<Longrightarrow> aheight t < fuel \<Longrightarrow>
   (if b then betree_unfold_extra fuel (addr_of t) acc m else betree_unfold_upper_part fuel (addr_of t) acc m)
     = Some (fst acc @ K, snd acc @ map addr_of C)"
  "be_cuts m b ts ks K C \<Longrightarrow> reprs (cells (be_mem m)) ts \<Longrightarrow> \<forall>t \<in> set ts. aheight t < fuel \<Longrightarrow>
   inner_node (be_node x) (js @ ks) (map addr_of (us @ ts)) \<Longrightarrow> length us = length js \<Longrightarrow>
   (if b then betree_unfold_extra_from fuel x (length js) acc m else betree_unfold_upper_from fuel x (length js) acc m)
     = Some (fst acc @ K, snd acc @ map addr_of C)"
proof (induction arbitrary: fuel acc and fuel acc x js us rule: be_cut_be_cuts.inducts)
  case (stop t n)
  then show ?case by (cases fuel) (simp_all add: mem_get_def)
next
  case (grown a n ts ks K C)
  then obtain f where f: "fuel = Suc f" "\<forall>t \<in> set ts. aheight t < f" using aheight_child_less by (cases fuel) auto
  from be_repr_node [OF grown.prems(1) grown.IH(1)] grown.IH(3) [of f n "[]" "[]" acc] f grown.hyps grown.IH(1) show ?case
    by (simp add: mem_get_def del: cells_be_mem)
next
  case (at a n ts ks K C)
  then obtain f where f: "fuel = Suc f" "\<forall>t \<in> set ts. aheight t < f" using aheight_child_less by (cases fuel) auto
  from be_repr_node [OF at.prems(1) at.IH(1)] at.IH(3) [of f n "[]" "[]" acc] f at.hyps at.IH(1) show ?case
    by (simp add: mem_get_def del: cells_be_mem)
next
  case (above a n ts ks K C)
  then obtain f where f: "fuel = Suc f" "\<forall>t \<in> set ts. aheight t < f" using aheight_child_less by (cases fuel) auto
  from be_repr_node [OF above.prems(1) above.IH(1)] above.IH(3) [of f n "[]" "[]" acc] f above.hyps above.IH(1) show ?case
    by (simp add: mem_get_def del: cells_be_mem)
next
  case (one b t K C)
  have n: "be_size x = length js" "arr_get (be_slots x) (length js) = Some (addr_of t)"
    using one.prems(3,4) inner_node_child [OF one.prems(3), of "length js"] by (auto simp: inner_node_def nth_append)
  with one.IH(2) [of fuel acc] one.prems(1,2) show ?case
    by (cases b) (subst betree_unfold_extra_from.simps betree_unfold_upper_from.simps, simp)+
next
  case (more b t K C ts ks K' C' k)
  have n: "length js < be_size x" "arr_get (be_slots x) (length js) = Some (addr_of t)" "arr_get (be_keys x) (length js) = Some k"
    using more.prems(3,4) inner_node_child [OF more.prems(3), of "length js"] inner_node_key [OF more.prems(3), of "length js"]
    by (auto simp: inner_node_def nth_append)
  from more.prems(3) have "inner_node (be_node x) ((js @ [k]) @ ks) (map addr_of ((us @ [t]) @ ts))" by simp
  with more.IH(2) [of fuel acc] more.IH(4) [of fuel x "js @ [k]" "us @ [t]" "(fst acc @ K @ [k], snd acc @ map addr_of C)"]
    more.prems(1,2,4) n show ?case
    by (cases b) (subst betree_unfold_extra_from.simps betree_unfold_upper_from.simps, simp)+
qed

section \<open>The tree built over the cut\<close>

text \<open>Under the leftmost separator 0, the cut is a level a tree can be built over.\<close>

lemma cut_level:
  assumes "be_cut m b t K C" "bt_wf 0 None (erase t)" "\<forall>c \<in> set C. bt_bal d (erase c) \<and> bt_ord (erase c)"
  shows "pack_level d (0 # K) C"
  using cut_wf(1) [OF assms(1,2)] bts_wf_length [OF cut_wf(1) [OF assms(1,2)]] assms(3)
  by (simp add: pack_level_def kids_shape_def)

lemma be_build_internal_at:
  assumes "btree_build_internal fuel ks cs (be_mem m) = Some (t, M)"
  obtains d m' where "betree_build_internal fuel h ks cs m = Some ((t, d), m')" "M = be_mem m'"
  using assms conjunct1 [OF be_build_internal [of fuel ks cs m h]]
  by (cases "betree_build_internal fuel h ks cs m") (auto simp del: betree_build_internal.simps)

lemma rebuild_internal_ok:
  assumes "be_cut m False t K C" "repr (cells (be_mem m)) t" "bt_wf 0 None (erase t)" "distinct (footprint t)"
    "aheight t < fuel" "\<forall>c \<in> set C. bt_bal d (erase c) \<and> bt_ord (erase c)" "2 \<le> length C"
    "mem_ok benode_ok (length C + j) m"
  obtains t' m' where "betree_rebuild_internal fuel (addr_of t) h m = Some (addr_of t', m')"
    "built 0 (bt_inorder (erase t)) (cells (be_mem m)) (set (footprints C)) (cells (be_mem m')) t'" "mem_ok bnode_ok j (be_mem m')"
proof -
  note level = cut_level [OF assms(1,3,6)]
  then have len: "length C = Suc (length K)" by (simp add: pack_level_def)
  have "mem_ok bnode_ok (length (0 # K) + j) (be_mem m)" using assms(8) len by (simp add: be_mem_ok)
  from build_internal_ok [OF level assms(7) order_refl this cut_reprs(1) [OF assms(1,2)]] cut_footprints(1) [OF assms(1,4)]
  obtain t' M where t': "btree_build_internal (length (0 # K)) (0 # K) (map addr_of C) (be_mem m) = Some (addr_of t', M)"
    "built 0 (bts_inorder (map erase C)) (cells (be_mem m)) (set (footprints C)) (cells M) t'" "mem_ok bnode_ok j M"
    by auto
  obtain e m' where "betree_build_internal (length (0 # K)) h (0 # K) (map addr_of C) m = Some ((addr_of t', e), m')"
    "M = be_mem m'" by (rule be_build_internal_at [OF t'(1)])
  moreover have "betree_unfold_upper_part fuel (addr_of t) ([0], []) m = Some (0 # K, map addr_of C)"
    using unfold_cut(1) [OF assms(1,2,5), of "([0], [])"] by simp
  ultimately show thesis
    using t'(2,3) cut_map(1) [OF assms(1)] by (intro that [of t' m']) (simp_all add: betree_rebuild_internal_def del: cells_be_mem betree_build_internal.simps)
qed

lemma rebuild_entire_ok:
  assumes "repr (cells (be_mem m)) t" "bt_wf 0 None (erase t)" "aheight t < fuel"
    "mem_ok benode_ok (Suc (length (bt_inorder (erase t))) + j) m"
  obtains t' m' where "betree_rebuild_entire fuel (addr_of t) h m = Some (addr_of t', m')"
    "built 0 (bt_inorder (erase t)) (cells (be_mem m)) {} (cells (be_mem m')) t'" "mem_ok bnode_ok j (be_mem m')"
proof -
  let ?es = "bt_inorder (erase t)"
  have "ordered ?es" using bt_wf_ordered(1) [OF assms(2)] by blast
  from build_sorted_ok [OF this order_refl assms(4) [folded be_mem_ok]] obtain t' M where
    t': "btree_build_sorted (length ?es) ?es (be_mem m) = Some (addr_of t', M)"
    "built 0 ?es (cells (be_mem m)) {} (cells M) t'" "mem_ok bnode_ok j M" .
  from t'(1) obtain m' where "betree_build_sorted (length ?es) h ?es m = Some (addr_of t', m')" "M = be_mem m'"
    unfolding be_build_sorted [where h = h] by auto
  moreover have "betree_unfold_elems fuel (addr_of t) [] m = Some ?es"
    using unfold_elems_ok(1) [OF assms(1,3), of "[]"] by simp
  ultimately show thesis using t'(2,3) by (intro that [of t' m']) (simp_all add: betree_rebuild_entire_def del: cells_be_mem)
qed

end
