(* ===== verification/Betree_Correct.thy ===== *)
theory Betree_Correct
  imports Betree_Query Betree_Inplace Betree_Cow Betree_Rebuild
begin

text \<open>
  The elastic B+-tree of \<^verbatim>\<open>lib/trees/betree\<close> as a whole. Its copy-on-write updates grow the
  subtrees below the boundary one by one, so leaves may lie at different depths; what an update
  keeps is the order of the search tree, and what \<^verbatim>\<open>rebuild\<close> restores is the balance.
\<close>

section \<open>The invariant\<close>

definition betree_version :: "bemem \<Rightarrow> atree \<Rightarrow> bool" where
  "betree_version m t \<longleftrightarrow> repr (cells (be_mem m)) t \<and> bt_wf 0 None (erase t)"

text \<open>A tree nobody shares, with all leaves at one depth and all nodes within their fill bounds.\<close>

definition betree_inv :: "bemem \<Rightarrow> atree \<Rightarrow> bool" where
  "betree_inv m t \<longleftrightarrow> btree_inv (be_mem m) t"

lemma betree_inv_version: "betree_inv m t \<Longrightarrow> betree_version m t"
  by (simp add: betree_inv_def btree_inv_def btree_version_def betree_version_def)

lemma betree_version_ordered: "betree_version m t \<Longrightarrow> ordered (btree_map t)"
  using bt_wf_ordered(1) by (auto simp: betree_version_def)

lemma betree_version_mono: "betree_version m t \<Longrightarrow> cells (be_mem m) \<subseteq>\<^sub>m cells (be_mem m') \<Longrightarrow> betree_version m' t"
  using repr_mono by (auto simp: betree_version_def simp del: cells_be_mem)

section \<open>The height after an update\<close>

lemma put_child_height:
  assumes "\<And>t. t \<in> set ts \<Longrightarrow> bt_height t < n" "0 < n"
    "case u of One t \<Rightarrow> bt_height t < n | Two l p r \<Rightarrow> bt_height l < n \<and> bt_height r < n"
  shows "bt_height (put_child ts ks i u) \<le> n"
proof (cases u)
  case (One t)
  show ?thesis
    unfolding put_child_def One up.case
    by (rule bt_height_BNode_le) (use assms One set_update_subset_insert [of ts i t] in auto)
next
  case (Two l p r)
  show ?thesis
    unfolding put_child_def Two up.case
    by (rule bt_height_BNode_le) (use assms Two set_take_subset [of i ts] set_drop_subset [of "i + 1" ts] in auto)
qed

lemma leaf_upd_height:
  "case leaf_upd ow kvs k v of One t \<Rightarrow> bt_height t = 0 | Two l p r \<Rightarrow> bt_height l = 0 \<and> bt_height r = 0"
  by (simp add: leaf_upd_def Let_def)

lemma bt_ins_height: "bt_height (bt_ins ow k v t) \<le> bt_height t"
proof (induction ow k v t rule: bt_ins.induct)
  case (2 ow k v ts ks)
  let ?i = "findch_idx ks k" and ?n = "bt_height (BNode ts ks)"
  have c: "\<And>t. t \<in> set ts \<Longrightarrow> bt_height t < ?n" "0 < ?n" using bt_height_child by auto
  show ?case
  proof (cases "?i < length ts")
    case True
    have i: "ts ! ?i \<in> set ts" using True by simp
    show ?thesis
    proof (cases "ts ! ?i")
      case (BLeaf kvs)
      have "bt_height (put_child ts ks ?i (leaf_upd ow kvs k v)) \<le> ?n"
        by (rule put_child_height [OF c]) (use leaf_upd_height [of ow kvs k v] in \<open>auto split: up.splits\<close>)
      then show ?thesis using True BLeaf by (simp add: bt_ins_leaf del: bt_height.simps)
    next
      case (BNode ts' ks')
      have h: "bt_height (BNode ts' ks') < ?n" using c(1) [OF i] BNode by simp
      note s = order.strict_trans1 [OF bt_height_split(1) h] order.strict_trans1 [OF bt_height_split(2) h]
      note IH = "2.IH" [OF refl True BNode]
      consider "length ks' < 15" | "\<not> length ks' < 15" "ks' ! 7 \<le> k" | "\<not> length ks' < 15" "\<not> ks' ! 7 \<le> k" by blast
      then show ?thesis
      proof cases
        case 1
        have "bt_height (BNode (ts[?i := bt_ins ow k v (BNode ts' ks')]) ks) \<le> ?n"
          by (rule bt_height_BNode_le)
            (use c IH(1) [OF 1] h set_update_subset_insert [of ts ?i "bt_ins ow k v (BNode ts' ks')"] in
              \<open>auto simp del: bt_height.simps\<close>)
        then show ?thesis using 1 True BNode by (simp add: bt_ins.simps(2) Let_def del: bt_height.simps)
      next
        case 2
        have "bt_height (put_child ts ks ?i (Two (split_l ts' ks') (ks' ! 7) (bt_ins ow k v (split_r ts' ks')))) \<le> ?n"
          by (rule put_child_height [OF c]) (use s(1) [of ks'] order.strict_trans1 [OF IH(2) [OF 2] s(2)] in \<open>auto simp del: bt_height.simps\<close>)
        then show ?thesis using 2 True BNode by (simp add: bt_ins.simps(2) Let_def del: bt_height.simps)
      next
        case 3
        have "bt_height (put_child ts ks ?i (Two (bt_ins ow k v (split_l ts' ks')) (ks' ! 7) (split_r ts' ks'))) \<le> ?n"
          by (rule put_child_height [OF c]) (use s(2) [of ks'] order.strict_trans1 [OF IH(3) [OF 3] s(1)] in \<open>auto simp del: bt_height.simps\<close>)
        then show ?thesis using 3 True BNode by (simp add: bt_ins.simps(2) Let_def del: bt_height.simps)
      qed
    qed
  qed (simp add: bt_ins.simps(2) Let_def)
qed simp

lemma bt_insert_height: "bt_height (bt_insert ow k v t) \<le> Suc (bt_height t)"
proof (cases t)
  case (BLeaf kvs)
  then show ?thesis using leaf_upd_height [of ow kvs k v] by (cases "leaf_upd ow kvs k v") simp_all
next
  case (BNode ts ks)
  have two: "bt_height (BNode [l, r] p) \<le> Suc n" if "bt_height l \<le> n" "bt_height r \<le> n" for l r p n
    using that by simp
  show ?thesis
    unfolding BNode bt_insert.simps
    using two [OF bt_height_split(1) order.trans [OF bt_ins_height bt_height_split(2)]]
      two [OF order.trans [OF bt_ins_height bt_height_split(1)] bt_height_split(2)]
      bt_ins_height [of ow k v "BNode ts ks"]
    by (simp del: bt_height.simps add: le_SucI)
qed

lemma el_upd_height: "el_upd ow k v t t' \<Longrightarrow> bt_height t' \<le> Suc (bt_height t)"
proof (induction rule: el_upd.induct)
  case (here t)
  show ?case by (rule bt_insert_height)
next
  case (below t u ts1 ks1 ks2 ts2)
  let ?n = "bt_height (BNode (ts1 @ t # ts2) (ks1 @ ks2))"
  have "bt_height x < ?n" if "x \<in> set (ts1 @ t # ts2)" for x using that by (rule bt_height_child)
  then have "bt_height x < ?n" if "x = t \<or> x \<in> set ts1 \<or> x \<in> set ts2" for x using that by simp
  then have "\<forall>x \<in> set (ts1 @ u # ts2). bt_height x < Suc ?n"
    using below.IH by (auto simp: less_Suc_eq_le simp del: bt_height.simps intro: less_imp_le order.trans Suc_leI)
  then show ?case by (intro bt_height_BNode_le) (auto simp del: bt_height.simps)
qed

section \<open>Rebuilding at a leaf that is no longer leftmost\<close>

lemma unfold_upper_leaf:
  assumes "cells m t = Some n" "be_type n = BE_LEAF" "be_size n \<noteq> 0" "arr_get (be_slots n) 0 = Some v" "cells m v = None"
  shows "betree_unfold_upper_part fuel t acc m = None"
proof (cases fuel)
  case (Suc f)
  have "betree_unfold_upper_part f v acc m = None"
    by (cases f) (simp_all add: mem_get_def assms(5))
  with Suc assms show ?thesis
    by (simp add: mem_get_def) (subst betree_unfold_upper_from.simps, simp add: assms)
qed simp

lemma unfold_upper_from_leaf:
  assumes "arr_get (be_slots n) i = Some t" "i \<le> be_size n" "\<And>acc. betree_unfold_upper_part fuel t acc m = None"
  shows "j \<le> i \<Longrightarrow> betree_unfold_upper_from fuel n j acc m = None"
proof (induction "i - j" arbitrary: j acc)
  case 0
  then have "j = i" by simp
  with assms show ?case by (subst betree_unfold_upper_from.simps) (cases acc, auto)
next
  case (Suc x)
  then have "betree_unfold_upper_from fuel n (j + 1) acc m = None" for acc by simp
  moreover have "j < be_size n" using Suc.hyps(2) assms(2) by linarith
  ultimately show ?case
    by (subst betree_unfold_upper_from.simps) (simp split: bind_splits)
qed

section \<open>The interface in terms of the invariant\<close>

lemma betree_cow_version:
  assumes "betree_version m t" "aheight t < fuel" "mem_ok benode_ok (2 * fuel + 3 + j) m" "cx_t_past x = addr_of t"
  obtains x' m' t' where "conctrl_exec betree_handlers fuel x m = Some (x', m')" "cx_root x' = addr_of t'"
    "betree_version m' t'" "aheight t' \<le> Suc (aheight t)"
    "cow_update (cx_key x) (cx_val x) (btree_map t) (btree_map t')" "cells (be_mem m) \<subseteq>\<^sub>m cells (be_mem m')"
    "set (footprint t') \<subseteq> set (footprint t) \<union> - dom (cells m)" "mem_ok benode_ok j m'"
proof -
  have dom: "dom (cells (be_mem m)) = dom (cells m)" by auto
  from assms(1) have "repr (cells (be_mem m)) t" by (simp add: betree_version_def)
  from betree_exec_ok [OF this assms(2) assms(3) [folded be_mem_ok] assms(4)] obtain x' m' g t' where
    t': "conctrl_exec betree_handlers fuel x m = Some (x', m')" "cx_root x' = addr_of t'" "mem_ok bnode_ok j (be_mem m')"
    "cow_version (cells (be_mem m)) (cells (be_mem m')) t t'" "el_upd (ow_cow g) (cx_key x) (cx_val x) (erase t) (erase t')"
    by blast
  have u: "bt_wf 0 None (erase t') \<and> upd_at (ow_cow g) (cx_key x) (cx_val x) (btree_map t) (btree_map t')"
    by (rule el_upd_correct [OF t'(5) cow.leaf_overwrite_axioms]) (use assms(1) in \<open>simp_all add: betree_version_def\<close>)
  have "cow_update (cx_key x) (cx_val x) (btree_map t) (btree_map t')"
    using cow.upd_at_keys [OF conjunct2 [OF u] betree_version_ordered [OF assms(1)]] by (simp add: cow_update_def)
  then show thesis
    using t' u el_upd_height [OF t'(5)] dom
    by (intro that) (auto simp: cow_version_def betree_version_def be_mem_ok simp del: cells_be_mem)
qed

lemma betree_invI:
  assumes "built 0 xs h F (cells (be_mem m)) t"
  shows "betree_inv m t" "btree_map t = xs" "heap_step h F (cells (be_mem m)) (set (footprint t))"
proof -
  from assms obtain d where "repr (cells (be_mem m)) t" "bt_wf 0 None (erase t)" "bt_root_ord (erase t)" "bt_bal d (erase t)"
    by (auto simp: built_def)
  then have "btree_version (be_mem m) t" by (rule btree_versionI)
  then show "betree_inv m t" "btree_map t = xs" "heap_step h F (cells (be_mem m)) (set (footprint t))"
    using assms by (simp_all add: betree_inv_def btree_inv_def built_def)
qed

lemma heap_step_le: "heap_step h {} h' F \<Longrightarrow> h \<subseteq>\<^sub>m h'"
  by (simp add: heap_step_def map_le_def) (metis domIff)

lemma betree_inv_update:
  assumes "betree_inv m t" "22 \<le> fuel" "mem_ok benode_ok (2 * fuel + 3 + j) m"
  shows "\<exists>t' m'. betree_update_root_inplace fuel (addr_of t) k v m = Some (addr_of t', m') \<and> betree_inv m' t' \<and>
    btree_map t' = kv_upd k v (btree_map t) \<and>
    heap_step (cells (be_mem m)) (set (footprint t)) (cells (be_mem m')) (set (footprint t')) \<and> mem_ok benode_ok j m'"
proof (rule inv_update [of "be_mem m" t fuel j k v])
  fix t' M
  assume r: "btree_update_root_inplace fuel (addr_of t) k v (be_mem m) = Some (addr_of t', M)" "btree_inv M t'"
    "btree_map t' = kv_upd k v (btree_map t)" "heap_step (cells (be_mem m)) (set (footprint t)) (cells M) (set (footprint t'))"
    "mem_ok bnode_ok j M"
  have "repr (cells (be_mem m)) t" using assms(1) by (simp add: betree_inv_def btree_inv_def btree_version_def)
  from be_lift [OF be_update_root_inplace [OF this mem_ok_mono [OF assms(3)]] r(1)]
  obtain m' where "betree_update_root_inplace fuel (addr_of t) k v m = Some (addr_of t', m')" "M = be_mem m'" by auto
  with r show ?thesis by (auto simp: betree_inv_def be_mem_ok simp del: cells_be_mem)
qed (use assms in \<open>simp_all add: betree_inv_def be_mem_ok\<close>)

lemma betree_version_query:
  assumes "betree_version m t" "aheight t < fuel"
  shows "betree_find fuel (addr_of t) k m = Some (map_of (btree_map t) k) \<and>
    betree_scan fuel (addr_of t) k n m = Some (kv_scan k n (btree_map t))"
  using assms find_map_of [of "be_mem m" t fuel 0 None k] scan_kv_scan [of "be_mem m" t fuel 0 None k n]
  unfolding betree_version_def be_find be_scan by simp

lemma betree_inv_build:
  assumes "distinct (map fst elems)" "length elems \<le> fuel" "mem_ok benode_ok (Suc (length elems) + j) m"
  shows "\<exists>t m'. betree_build fuel h elems m = Some (addr_of t, m') \<and> betree_inv m' t \<and> btree_map t = sort elems \<and>
    heap_step (cells (be_mem m)) {} (cells (be_mem m')) (set (footprint t)) \<and> mem_ok benode_ok j m'"
proof (rule build_version [of elems fuel j "be_mem m"])
  fix t M
  assume r: "btree_build fuel elems (be_mem m) = Some (addr_of t, M)" "btree_inv M t" "btree_map t = sort elems"
    "heap_step (cells (be_mem m)) {} (cells M) (set (footprint t))" "mem_ok bnode_ok j M"
  from be_lift [OF be_build_sorted [where h = h] r(1) [unfolded btree_build_def]]
  obtain m' where "betree_build fuel h elems m = Some (addr_of t, m')" "M = be_mem m'" by (auto simp: betree_build_def)
  with r show ?thesis by (auto simp: betree_inv_def be_mem_ok simp del: cells_be_mem)
qed (use assms in \<open>simp_all add: be_mem_ok\<close>)

section \<open>Concrete memories for the witnesses\<close>

definition betree_demo_leaf :: "kv list \<Rightarrow> benode" where
  "betree_demo_leaf kvs = \<lparr>be_ver = 0, be_type = BE_LEAF, be_verge = 0, be_size = length kvs, be_height = 0,
     be_keys = map fst kvs @ replicate (15 - length kvs) 0, be_slots = map snd kvs @ replicate (16 - length kvs) 0\<rparr>"

definition betree_demo :: "nat \<Rightarrow> kv list \<Rightarrow> bemem" where
  "betree_demo k kvs = \<lparr>cells = [1 \<mapsto> betree_demo_leaf kvs], blocks = demo_blocks 2 k (betree_demo_leaf [])\<rparr>"

definition betree_empty_mem :: "nat \<Rightarrow> bemem" where
  "betree_empty_mem k = \<lparr>cells = Map.empty, blocks = demo_blocks 2 k (betree_demo_leaf [])\<rparr>"

lemma be_demo_leaf: "be_node (betree_demo_leaf kvs) = btree_demo_leaf kvs"
  by (simp add: be_node_def betree_demo_leaf_def btree_demo_leaf_def)

lemma be_demo: "be_mem (betree_demo k kvs) = btree_demo k kvs" "be_mem (betree_empty_mem k) = btree_empty_mem k"
  by (auto simp: be_mem_def betree_demo_def btree_demo_def betree_empty_mem_def btree_empty_mem_def be_demo_leaf
      demo_blocks_def fun_eq_iff)

lemma betree_demo_ok: "j \<le> k \<Longrightarrow> k < 900 \<Longrightarrow> mem_ok benode_ok j (betree_demo k kvs)"
  using btree_demo_ok [of j k kvs] by (simp flip: be_mem_ok add: be_demo)

lemma betree_empty_mem_ok: "j \<le> k \<Longrightarrow> k < 900 \<Longrightarrow> mem_ok benode_ok j (betree_empty_mem k)"
  using btree_empty_mem_ok [of j k] by (simp flip: be_mem_ok add: be_demo)

lemma betree_demo_inv: "ordered kvs \<Longrightarrow> length kvs \<le> 15 \<Longrightarrow> betree_inv (betree_demo k kvs) (ALeaf 1 kvs)"
  unfolding betree_inv_def be_demo by (rule btree_demo_inv)

section \<open>Properties\<close>

text \<open>
  C14. The in-place update of the elastic tree, on a tree that satisfies the invariant: it does
  not fault, the tree at the returned root satisfies the invariant again, its contents are the
  old ones with the one binding put in or overwritten, cells outside the tree are untouched, what
  is new in the tree was free and what left the tree has been freed.
\<close>

theorem betree_inplace_update_correct:
  assumes "betree_inv m t" "22 \<le> fuel" "mem_ok benode_ok (2 * fuel + 3 + j) m"
  shows "\<exists>t' m'. betree_update_root_inplace fuel (addr_of t) k v m = Some (addr_of t', m') \<and> betree_inv m' t' \<and>
    btree_map t' = kv_upd k v (btree_map t) \<and>
    heap_step (cells (be_mem m)) (set (footprint t)) (cells (be_mem m')) (set (footprint t')) \<and> mem_ok benode_ok j m'"
  by (rule betree_inv_update [OF assms])

theorem betree_inplace_update_correct_witness:
  "\<exists>t' m'. betree_update_root_inplace 22 1 7 70 (betree_demo 60 [(5, 50)]) = Some (addr_of t', m') \<and>
    btree_map t' = [(5, 50), (7, 70)]"
proof -
  have "betree_inv (betree_demo 60 [(5, 50)]) (ALeaf 1 [(5, 50)])" by (rule betree_demo_inv) simp_all
  from betree_inplace_update_correct [OF this, of 22 0 7 70] show ?thesis
    using betree_demo_ok [of 47 60] by (auto simp: kv_upd_def)
qed

text \<open>
  C15. A copy-on-write update of the elastic tree (\<^verbatim>\<open>handle_init\<close>, \<^verbatim>\<open>handle_upper\<close>,
  \<^verbatim>\<open>handle_elastic\<close>, \<^verbatim>\<open>handle_lower\<close> and \<^verbatim>\<open>handle_split\<close> run to \<^verbatim>\<open>DONE\<close>), from any root, a small leaf
  included: it does not fault; every cell allocated before keeps its contents, so the old root is
  still a tree with the same contents; the new root is a search tree at most one level higher,
  whose keys are those of the update, with the new value at the key, and exactly the updated map
  when the key is new.
\<close>

theorem betree_cow_update_correct:
  assumes "betree_version m t" "aheight t < fuel" "mem_ok benode_ok (2 * fuel + 3 + j) m" "cx_t_past x = addr_of t"
  shows "\<exists>x' m' t'. conctrl_exec betree_handlers fuel x m = Some (x', m') \<and> cx_root x' = addr_of t' \<and>
    betree_version m' t' \<and> aheight t' \<le> Suc (aheight t) \<and>
    cow_update (cx_key x) (cx_val x) (btree_map t) (btree_map t') \<and>
    cells (be_mem m) \<subseteq>\<^sub>m cells (be_mem m') \<and> betree_version m' t \<and>
    set (footprint t') \<subseteq> set (footprint t) \<union> - dom (cells m) \<and> mem_ok benode_ok j m'"
proof (rule betree_cow_version [OF assms])
  fix x' m' t'
  assume r: "conctrl_exec betree_handlers fuel x m = Some (x', m')" "cx_root x' = addr_of t'" "betree_version m' t'"
    "aheight t' \<le> Suc (aheight t)" "cow_update (cx_key x) (cx_val x) (btree_map t) (btree_map t')"
    "cells (be_mem m) \<subseteq>\<^sub>m cells (be_mem m')" "set (footprint t') \<subseteq> set (footprint t) \<union> - dom (cells m)" "mem_ok benode_ok j m'"
  with betree_version_mono [OF assms(1) r(6)] show ?thesis by (simp del: cells_be_mem) blast
qed

theorem betree_cow_update_correct_witness:
  "\<exists>x' m' t'. conctrl_exec betree_handlers 1 (btree_demo_ctx 0 7) (betree_demo 60 [(3, 30)]) = Some (x', m') \<and>
    betree_version m' t' \<and> btree_map t' = [(0, 7), (3, 30)]"
proof -
  have "betree_version (betree_demo 60 [(3, 30)]) (ALeaf 1 [(3, 30)])"
    by (rule betree_inv_version, rule betree_demo_inv) simp_all
  moreover have "mem_ok benode_ok (2 * 1 + 3 + 0) (betree_demo 60 [(3, 30)])" by (rule betree_demo_ok) simp_all
  moreover have "cx_t_past (btree_demo_ctx 0 7) = addr_of (ALeaf 1 [(3, 30)])" by (simp add: btree_demo_ctx_def)
  ultimately show ?thesis
    using betree_cow_update_correct [of "betree_demo 60 [(3, 30)]" "ALeaf 1 [(3, 30)]" 1 0 "btree_demo_ctx 0 7"]
    by (auto simp: cow_update_def btree_demo_ctx_def kv_upd_def)
qed

text \<open>
  C16. \<^verbatim>\<open>find\<close> and \<^verbatim>\<open>scan\<close> of the elastic tree answer from the represented map, whatever the depths
  of the leaves: the binding of the key or nothing, and the first \<^term>\<open>n\<close> bindings from the key on.
\<close>

theorem betree_query_correct:
  assumes "betree_version m t" "aheight t < fuel"
  shows "betree_find fuel (addr_of t) k m = Some (map_of (btree_map t) k) \<and>
    betree_scan fuel (addr_of t) k n m = Some (kv_scan k n (btree_map t))"
  by (rule betree_version_query [OF assms])

theorem betree_query_correct_witness:
  "betree_find 1 1 6 (betree_demo 0 [(5, 50), (7, 70), (9, 90)]) = Some None \<and>
   betree_scan 1 1 6 1 (betree_demo 0 [(5, 50), (7, 70), (9, 90)]) = Some [(7, 70)]"
proof -
  let ?m = "betree_demo 0 [(5, 50), (7, 70), (9, 90)]"
  have "betree_version ?m (ALeaf 1 [(5, 50), (7, 70), (9, 90)])"
    by (rule betree_inv_version, rule betree_demo_inv) simp_all
  from betree_query_correct [OF this, of 1 6 1] show ?thesis by (simp add: kv_scan_def)
qed

text \<open>
  C17. Bulk loading, for any height of the boundary: from entries with distinct keys in any order,
  \<^verbatim>\<open>build\<close> returns a tree that satisfies the whole invariant and holds exactly the entries; it
  writes fresh cells only.
\<close>

theorem betree_build_correct:
  assumes "distinct (map fst elems)" "length elems \<le> fuel" "mem_ok benode_ok (Suc (length elems) + j) m"
  shows "\<exists>t m'. betree_build fuel h elems m = Some (addr_of t, m') \<and> betree_inv m' t \<and> btree_map t = sort elems \<and>
    heap_step (cells (be_mem m)) {} (cells (be_mem m')) (set (footprint t)) \<and> mem_ok benode_ok j m'"
  by (rule betree_inv_build [OF assms])

theorem betree_build_correct_witness:
  "\<exists>t m'. betree_build 20 1 (map (\<lambda>i. (of_nat i, 0)) [0..<20]) (betree_empty_mem 30) = Some (addr_of t, m') \<and> betree_inv m' t"
proof -
  let ?es = "map (\<lambda>i. (of_nat i :: key, 0 :: val)) [0..<20]"
  have "distinct (map fst ?es)" "length ?es \<le> 20" by (simp_all add: upt_rec)
  moreover have "mem_ok benode_ok (Suc (length ?es) + 0) (betree_empty_mem 30)" by (rule betree_empty_mem_ok) simp_all
  ultimately show ?thesis using betree_build_correct [of ?es 20 0 "betree_empty_mem 30" 1] by blast
qed

text \<open>
  C18. \<^verbatim>\<open>rebuild\<close> of a tree whose leftmost path ends above the boundary: whatever the depths of the
  leaves were, the result satisfies the whole invariant (balance and fill bounds included) and
  has the same contents, and the old version is untouched.
\<close>

theorem betree_rebuild_entire_correct:
  assumes "betree_version m t" "aheight t < fuel" "betree_leaf_over_boundary (addr_of t) (unat h) m = Some True"
    "mem_ok benode_ok (Suc (length (btree_map t)) + j) m"
  shows "\<exists>t' m'. betree_rebuild fuel (addr_of t) h m = Some (addr_of t', m') \<and> betree_inv m' t' \<and>
    btree_map t' = btree_map t \<and> betree_version m' t \<and> mem_ok benode_ok j m'"
proof (rule rebuild_entire_ok [of m t fuel j h])
  fix t' m'
  assume r: "betree_rebuild_entire fuel (addr_of t) h m = Some (addr_of t', m')"
    "built 0 (btree_map t) (cells (be_mem m)) {} (cells (be_mem m')) t'" "mem_ok bnode_ok j (be_mem m')"
  note b = betree_invI [OF r(2)]
  then show ?thesis
    using r assms(3) betree_version_mono [OF assms(1) heap_step_le [OF b(3)]]
    by (auto simp: betree_rebuild_def be_mem_ok simp del: cells_be_mem)
qed (use assms in \<open>simp_all add: betree_version_def\<close>)

theorem betree_rebuild_entire_correct_witness:
  "\<exists>t' m'. betree_rebuild 1 1 1 (betree_demo 30 [(5, 50), (7, 70)]) = Some (addr_of t', m') \<and> betree_inv m' t' \<and>
    btree_map t' = [(5, 50), (7, 70)]"
proof -
  let ?m = "betree_demo 30 [(5, 50), (7, 70)]"
  have "betree_version ?m (ALeaf 1 [(5, 50), (7, 70)])" by (rule betree_inv_version, rule betree_demo_inv) simp_all
  moreover have "betree_leaf_over_boundary 1 (unat (1 :: 8 word)) ?m = Some True"
    by (simp add: mem_get_def betree_demo_def betree_demo_leaf_def)
  moreover have "mem_ok benode_ok (Suc (length [(5, 50), (7, 70)]) + 0) ?m" by (rule betree_demo_ok) simp_all
  ultimately show ?thesis
    using betree_rebuild_entire_correct [of ?m "ALeaf 1 [(5, 50), (7, 70)]" 1 1 0] by fastforce
qed

text \<open>
  C19. \<^verbatim>\<open>rebuild\<close> of a tree that has grown at the boundary. When the nodes of height 0 it stops at
  are those of one level, within their fill bounds, the result is a tree over these nodes that
  satisfies the whole invariant again, with the same contents; only the nodes above them are new,
  so at most as many cells are written as there are such nodes.
\<close>

theorem betree_rebuild_internal_correct:
  assumes "betree_version m t" "distinct (footprint t)" "aheight t < fuel"
    "betree_leaf_over_boundary (addr_of t) (unat h) m = Some False"
    "be_cut m False t K C" "\<forall>c \<in> set C. bt_bal d (erase c) \<and> bt_ord (erase c)" "2 \<le> length C"
    "mem_ok benode_ok (length C + j) m"
  shows "\<exists>t' m'. betree_rebuild fuel (addr_of t) h m = Some (addr_of t', m') \<and> betree_inv m' t' \<and>
    btree_map t' = btree_map t \<and>
    heap_step (cells (be_mem m)) (set (footprints C)) (cells (be_mem m')) (set (footprint t')) \<and> mem_ok benode_ok j m'"
proof (rule rebuild_internal_ok [of m t K C fuel d j h])
  fix t' m'
  assume r: "betree_rebuild_internal fuel (addr_of t) h m = Some (addr_of t', m')"
    "built 0 (btree_map t) (cells (be_mem m)) (set (footprints C)) (cells (be_mem m')) t'" "mem_ok bnode_ok j (be_mem m')"
  note b = betree_invI [OF r(2)]
  then show ?thesis
    using r assms(4) by (auto simp: betree_rebuild_def be_mem_ok simp del: cells_be_mem)
qed (use assms in \<open>simp_all add: betree_version_def\<close>)

definition betree_demo_eight :: "kv list" where
  "betree_demo_eight = [(1, 10), (2, 20), (3, 30), (4, 40), (5, 50), (6, 60), (7, 70), (8, 80)]"

definition betree_demo_node :: "betree_type \<Rightarrow> key list \<Rightarrow> addr list \<Rightarrow> benode" where
  "betree_demo_node ty ks cs = \<lparr>be_ver = 0, be_type = ty, be_verge = 0, be_size = length ks, be_height = 0,
     be_keys = ks @ replicate (15 - length ks) 0, be_slots = cs @ replicate (16 - length cs) 0\<rparr>"

text \<open>A boundary node at address 3 over two leaves.\<close>

definition betree_demo_tree :: atree where
  "betree_demo_tree = ANode 3 [ALeaf 1 betree_demo_eight, ALeaf 2 (map (apfst ((+) 8)) betree_demo_eight)] [9]"

definition betree_demo_cells :: "addr \<rightharpoonup> benode" where
  "betree_demo_cells = [1 \<mapsto> betree_demo_leaf betree_demo_eight, 2 \<mapsto> betree_demo_leaf (map (apfst ((+) 8)) betree_demo_eight),
     3 \<mapsto> betree_demo_node BE_BOUNDARY [9] [1, 2]]"

definition betree_demo_mem :: bemem where
  "betree_demo_mem = \<lparr>cells = betree_demo_cells, blocks = demo_blocks 4 9 (betree_demo_leaf [])\<rparr>"

lemma betree_demo_version: "betree_version betree_demo_mem betree_demo_tree"
proof -
  have "inner_node (be_node (betree_demo_node BE_BOUNDARY [9] [1, 2])) [9] [1, 2]"
    by (simp add: inner_node_def bnode_ok_def betree_demo_node_def be_kind_def)
  then show ?thesis
    by (simp add: betree_version_def betree_demo_mem_def betree_demo_cells_def betree_demo_tree_def be_demo_leaf demo_leaf_node
        betree_demo_eight_def)
qed

theorem betree_rebuild_internal_correct_witness:
  "\<exists>t' m'. betree_rebuild 2 3 0 betree_demo_mem = Some (addr_of t', m') \<and> betree_inv m' t' \<and>
    btree_map t' = btree_map betree_demo_tree"
proof -
  let ?l = "ALeaf 1 betree_demo_eight" and ?r = "ALeaf 2 (map (apfst ((+) 8)) betree_demo_eight)"
  have stop: "cells betree_demo_mem (addr_of t) = Some (betree_demo_leaf kvs) \<Longrightarrow> be_cut betree_demo_mem True t [] [t]" for t kvs
    by (erule be_cut_be_cuts.stop) (simp add: betree_demo_leaf_def)
  have l: "be_cut betree_demo_mem True ?l [] [?l]"
    by (rule stop [of _ betree_demo_eight]) (simp add: betree_demo_mem_def betree_demo_cells_def)
  have r: "be_cut betree_demo_mem True ?r [] [?r]"
    by (rule stop [of _ "map (apfst ((+) 8)) betree_demo_eight"]) (simp add: betree_demo_mem_def betree_demo_cells_def)
  have "be_cuts betree_demo_mem True [?l, ?r] [9] ([] @ 9 # []) ([?l] @ [?r])"
    by (rule be_cut_be_cuts.more [OF l be_cut_be_cuts.one [OF r]])
  then have cut: "be_cut betree_demo_mem False betree_demo_tree [9] [?l, ?r]"
    unfolding betree_demo_tree_def
    by (intro be_cut_be_cuts.at [where n = "betree_demo_node BE_BOUNDARY [9] [1, 2]"])
      (simp_all add: betree_demo_mem_def betree_demo_cells_def betree_demo_node_def)
  have "mem_ok benode_ok (length [?l, ?r] + 0) betree_demo_mem"
    unfolding betree_demo_mem_def
    by (rule demo_blocks_ok)
      (auto simp: betree_demo_cells_def benode_ok_def be_demo_leaf demo_leaf_ok split: if_splits
        intro: image_eqI [of _ _ 1] image_eqI [of _ _ 2] image_eqI [of _ _ 3])
  moreover have "distinct (footprint betree_demo_tree)" "aheight betree_demo_tree < 2" "addr_of betree_demo_tree = 3"
    by (simp_all add: betree_demo_tree_def del: aheight_erase add: aheight.simps)
  moreover have "betree_leaf_over_boundary 3 (unat (0 :: 8 word)) betree_demo_mem = Some False"
    by (simp add: mem_get_def betree_demo_mem_def betree_demo_cells_def betree_demo_node_def)
  moreover have "\<forall>c \<in> set [?l, ?r]. bt_bal 0 (erase c) \<and> bt_ord (erase c)" by (simp add: betree_demo_eight_def)
  ultimately show ?thesis
    using betree_rebuild_internal_correct [OF betree_demo_version _ _ _ cut, of 2 0 0 0] by (metis length_Cons list.size(3) numeral_2_eq_2 order_refl)
qed

text \<open>
  C20. Where \<^verbatim>\<open>leaf_over_boundary\<close> looks at the wrong leaf. Below an upper root, an update may have
  split the leftmost leaf into a boundary node while other leaves still hang from the root. Then
  \<^verbatim>\<open>rebuild\<close> takes the entries of the first of these for children and follows a value as a pointer.
\<close>

theorem betree_rebuild_mixed_faults:
  assumes "cells m t = Some x" "be_type x = BE_UPPER" "arr_get (be_slots x) 0 = Some c" "cells m c = Some y" "be_type y = BE_BOUNDARY"
    "arr_get (be_slots x) i = Some l" "i \<le> be_size x" "cells m l = Some n" "be_type n = BE_LEAF" "be_size n \<noteq> 0"
    "arr_get (be_slots n) 0 = Some v" "cells m v = None"
  shows "betree_rebuild fuel t 1 m = None"
proof -
  have "betree_unfold_upper_from f x 0 acc m = None" for f acc
    by (rule unfold_upper_from_leaf [OF assms(6,7) unfold_upper_leaf [OF assms(8-12)]]) simp
  then have "betree_unfold_upper_part fuel t acc m = None" for acc
    by (cases fuel) (simp_all add: mem_get_def assms)
  then show ?thesis
    using assms by (simp add: betree_rebuild_def betree_rebuild_internal_def mem_get_def numeral_eq_Suc)
qed

definition betree_demo_mixed :: bemem where
  "betree_demo_mixed = \<lparr>cells = betree_demo_cells(4 \<mapsto> betree_demo_leaf [(20, 200)], 5 \<mapsto> betree_demo_node BE_UPPER [20] [3, 4]),
     blocks = demo_blocks 6 90 (betree_demo_leaf [])\<rparr>"

theorem betree_rebuild_mixed_faults_witness: "betree_rebuild 30 5 1 betree_demo_mixed = None"
  by (rule betree_rebuild_mixed_faults [where c = 3 and i = 1 and l = 4 and v = 200
      and x = "betree_demo_node BE_UPPER [20] [3, 4]" and y = "betree_demo_node BE_BOUNDARY [9] [1, 2]"
      and n = "betree_demo_leaf [(20, 200)]"])
    (simp_all add: betree_demo_mixed_def betree_demo_cells_def betree_demo_node_def betree_demo_leaf_def arr_get_def)

end
