(* ===== verification/Art_Node.thy ===== *)
theory Art_Node
  imports Ordered_Map
begin

unbundle bit_operations_syntax

text \<open>
  \<^verbatim>\<open>lib/trees/art/node.hpp\<close> and the node types \<^verbatim>\<open>leaf.hpp\<close>, \<^verbatim>\<open>node4.hpp\<close>, \<^verbatim>\<open>node16.hpp\<close>,
  \<^verbatim>\<open>node48.hpp\<close>, \<^verbatim>\<open>node256.hpp\<close> of the adaptive radix tree, with the operations of
  \<^verbatim>\<open>node_wrapper.hpp\<close> that choose between them by the type tag.

  One record stands for the five structs, with the arrays its type has: \<open>an_keys\<close> is
  \<^verbatim>\<open>keys\<close> of \<^verbatim>\<open>node4\<close> and \<^verbatim>\<open>node16\<close> and \<^verbatim>\<open>slts\<close> of \<^verbatim>\<open>node48\<close>. An index into a node, of the C++
  type \<^verbatim>\<open>uint8_t\<close>, is a natural number, a key byte an 8-bit word, and a pointer into the array of
  children the position it points at.
\<close>

type_synonym byte = "8 word"

section \<open>Bytes of a key\<close>

text \<open>
  A shift by 64 or more, or by a negative count, has no defined result in C++, and the code
  does shift by 64 (\<^verbatim>\<open>prefix_mask\<close> of length 0, \<^verbatim>\<open>prefix_match\<close> at offset 8). So what such a shift
  yields is a parameter of the model: of a shift to the left or not, a word and the count.
\<close>

type_synonym shifts = "bool \<Rightarrow> 64 word \<Rightarrow> int \<Rightarrow> 64 word"

definition art_shl :: "shifts \<Rightarrow> 64 word \<Rightarrow> int \<Rightarrow> 64 word" where
  "art_shl ub x n = (if 0 \<le> n \<and> n < 64 then push_bit (nat n) x else ub True x n)"

definition art_shr :: "shifts \<Rightarrow> 64 word \<Rightarrow> int \<Rightarrow> 64 word" where
  "art_shr ub x n = (if 0 \<le> n \<and> n < 64 then drop_bit (nat n) x else ub False x n)"

text \<open>\<^verbatim>\<open>__builtin_clzll\<close>: the number of leading zero bits.\<close>

definition art_clz :: "64 word \<Rightarrow> nat" where
  "art_clz x = length (takeWhile (\<lambda>i. \<not> bit x i) (rev [0..<64]))"

definition art_partial_key :: "shifts \<Rightarrow> key \<Rightarrow> nat \<Rightarrow> byte" where
  "art_partial_key ub key pos = ucast (art_shr ub key (56 - 8 * int pos) AND 0xFF)"

definition art_prefix_mask :: "shifts \<Rightarrow> nat \<Rightarrow> nat \<Rightarrow> 64 word" where
  "art_prefix_mask ub ofs len = art_shl ub (art_shr ub (NOT 0) (8 * (8 - int len))) (8 * (8 - int len - int ofs))"

section \<open>Nodes\<close>

datatype art_type = AT_NODE4 | AT_NODE16 | AT_NODE48 | AT_NODE256 | AT_LEAF

record anode =
  an_ver :: "64 word"
  an_type :: art_type
  an_size :: nat
  an_ofs :: nat
  an_len :: nat
  an_cdf :: "32 word"
  an_pfx :: key
  an_val :: val
  an_keys :: "byte list"
  an_chs :: "addr list"

type_synonym amem = "anode mem"

text \<open>The lengths of the arrays of a type, and the size \<^verbatim>\<open>new_node\<close> gives it.\<close>

fun art_nkeys :: "art_type \<Rightarrow> nat" where
  "art_nkeys AT_NODE4 = 4" | "art_nkeys AT_NODE16 = 16" | "art_nkeys AT_NODE48 = 256"
| "art_nkeys AT_NODE256 = 0" | "art_nkeys AT_LEAF = 0"

fun art_nchs :: "art_type \<Rightarrow> nat" where
  "art_nchs AT_NODE4 = 4" | "art_nchs AT_NODE16 = 16" | "art_nchs AT_NODE48 = 48"
| "art_nchs AT_NODE256 = 256" | "art_nchs AT_LEAF = 0"

fun art_size0 :: "art_type \<Rightarrow> nat" where
  "art_size0 AT_NODE4 = 2" | "art_size0 AT_NODE16 = 4" | "art_size0 AT_NODE48 = 16"
| "art_size0 AT_NODE256 = 48" | "art_size0 AT_LEAF = 1"

definition art_prefix_match :: "shifts \<Rightarrow> anode \<Rightarrow> key \<Rightarrow> nat" where
  "art_prefix_match ub t key =
     (let d = art_shl ub (key XOR an_pfx t) (8 * int (an_ofs t))
      in if d = 0 then an_len t else art_clz d div 8)"

definition art_new_node :: "shifts \<Rightarrow> 64 word \<Rightarrow> art_type \<Rightarrow> nat \<Rightarrow> nat \<Rightarrow> key \<Rightarrow> amem \<Rightarrow> (addr \<times> amem) option" where
  "art_new_node ub ver ty pfx_ofs pfx_len key m =
     do { (t, m) \<leftarrow> mem_alloc m;
          m \<leftarrow> mem_upd m t (\<lambda>_. Some \<lparr>an_ver = ver, an_type = ty, an_size = art_size0 ty, an_ofs = pfx_ofs, an_len = pfx_len,
                 an_cdf = 0, an_pfx = (if ty \<noteq> AT_LEAF then key AND art_prefix_mask ub pfx_ofs pfx_len else key),
                 an_val = 0, an_keys = replicate (art_nkeys ty) 0, an_chs = replicate (art_nchs ty) 0\<rparr>);
          Some (t, m) }"

text \<open>
  The children of an internal node are not copied, only what precedes them: they are what the
  block holds. A leaf is copied as a whole.
\<close>

definition art_node_copy :: "addr \<Rightarrow> 64 word \<Rightarrow> amem \<Rightarrow> (addr \<times> amem) option" where
  "art_node_copy t_old ver m =
     do { src \<leftarrow> mem_get m t_old;
          (t_new, m) \<leftarrow> mem_alloc m;
          m \<leftarrow> mem_upd m t_new (\<lambda>junk.
                 if art_nchs (an_type src) \<le> length (an_chs junk)
                 then Some (src\<lparr>an_ver := ver, an_chs := take (art_nchs (an_type src)) (an_chs junk)\<rparr>) else None);
          Some (t_new, m) }"

definition art_new_leaf :: "shifts \<Rightarrow> 64 word \<Rightarrow> nat \<Rightarrow> key \<Rightarrow> val \<Rightarrow> amem \<Rightarrow> (addr \<times> amem) option" where
  "art_new_leaf ub ver pfx_ofs key val m =
     do { (t, m) \<leftarrow> art_new_node ub ver AT_LEAF pfx_ofs (8 - pfx_ofs) key m;
          m \<leftarrow> mem_upd m t (\<lambda>n. Some (n\<lparr>an_val := val\<rparr>));
          Some (t, m) }"

definition art_leaf_update :: "64 word \<Rightarrow> addr \<Rightarrow> val \<Rightarrow> amem \<Rightarrow> (addr \<times> amem) option" where
  "art_leaf_update ver t_old val m =
     do { (t_new, m) \<leftarrow> art_node_copy t_old ver m;
          m \<leftarrow> mem_upd m t_new (\<lambda>n. Some (n\<lparr>an_val := val\<rparr>));
          Some (t_new, m) }"

section \<open>\<^verbatim>\<open>node4.hpp\<close>\<close>

definition node4_find :: "anode \<Rightarrow> byte \<Rightarrow> nat option option" where
  "node4_find t pkey =
     do { k0 \<leftarrow> arr_get (an_keys t) 0;
          if k0 = pkey then Some (Some 0)
          else do {
            k1 \<leftarrow> arr_get (an_keys t) 1;
            if k1 = pkey then Some (Some 1)
            else if an_size t = 2 then Some None
            else do {
              k2 \<leftarrow> arr_get (an_keys t) 2;
              if k2 = pkey then Some (Some 2)
              else if an_size t = 3 then Some None
              else do {
                k3 \<leftarrow> arr_get (an_keys t) 3;
                if k3 = pkey then Some (Some 3) else Some None } } } }"

function node4_findgt_from :: "anode \<Rightarrow> byte \<Rightarrow> nat \<Rightarrow> nat option" where
  "node4_findgt_from t pkey idx =
     (if idx < an_size t
      then do { k \<leftarrow> arr_get (an_keys t) idx; if k \<le> pkey then node4_findgt_from t pkey (idx + 1) else Some idx }
      else Some idx)"
  by pat_completeness auto
termination
  by (relation "measure (\<lambda>(t, pkey, idx). an_size t - idx)") auto

declare node4_findgt_from.simps [simp del]

definition node4_findgt :: "anode \<Rightarrow> byte \<Rightarrow> nat option" where
  "node4_findgt t pkey = node4_findgt_from t pkey 0"

definition node4_getch :: "anode \<Rightarrow> nat \<Rightarrow> nat option" where
  "node4_getch t idx = Some idx"

definition node4_findch :: "anode \<Rightarrow> byte \<Rightarrow> addr option" where
  "node4_findch t pkey =
     do { idx \<leftarrow> node4_find t pkey;
          case idx of None \<Rightarrow> Some nullptr | Some i \<Rightarrow> arr_get (an_chs t) i }"

definition node4_append :: "anode \<Rightarrow> byte \<Rightarrow> (anode \<times> nat) option" where
  "node4_append t pkey =
     do { idx \<leftarrow> node4_findgt t pkey;
          ks \<leftarrow> arr_insert (an_keys t) (an_size t) idx pkey;
          Some (t\<lparr>an_keys := ks, an_size := an_size t + 1\<rparr>, idx) }"

definition node4_insertch :: "anode \<Rightarrow> nat \<Rightarrow> addr \<Rightarrow> anode option" where
  "node4_insertch t idx ch =
     do { cs \<leftarrow> arr_insert (an_chs t) (an_size t - 1) idx ch; Some (t\<lparr>an_chs := cs\<rparr>) }"

text \<open>The four keys are copied as one 32-bit word.\<close>

definition node4_extend :: "shifts \<Rightarrow> addr \<Rightarrow> 64 word \<Rightarrow> amem \<Rightarrow> (addr \<times> amem) option" where
  "node4_extend ub t_old ver m =
     do { src \<leftarrow> mem_get m t_old;
          (t_new, m) \<leftarrow> art_new_node ub ver AT_NODE16 (an_ofs src) (an_len src) (an_pfx src) m;
          m \<leftarrow> mem_upd m t_new (\<lambda>n. do { ks \<leftarrow> arr_copy (an_keys n) (an_keys src) 4; Some (n\<lparr>an_keys := ks\<rparr>) });
          Some (t_new, m) }"

definition node4_copych :: "anode \<Rightarrow> anode \<Rightarrow> anode option" where
  "node4_copych t_new t_old =
     do { cs \<leftarrow> arr_copy (an_chs t_new) (an_chs t_old) (an_size t_old); Some (t_new\<lparr>an_chs := cs\<rparr>) }"

definition node4_copych_at :: "anode \<Rightarrow> anode \<Rightarrow> nat \<Rightarrow> anode option" where
  "node4_copych_at t_new t_old pos =
     do { cs \<leftarrow> arr_copy_insert (an_chs t_new) (an_chs t_old) (an_size t_old) pos nullptr; Some (t_new\<lparr>an_chs := cs\<rparr>) }"

definition node4_copych_extend_at :: "anode \<Rightarrow> anode \<Rightarrow> nat \<Rightarrow> anode option" where
  "node4_copych_extend_at t_new t_old pos =
     do { cs \<leftarrow> arr_copy_insert (an_chs t_new) (an_chs t_old) (an_size t_old) pos nullptr; Some (t_new\<lparr>an_chs := cs\<rparr>) }"

section \<open>\<^verbatim>\<open>node16.hpp\<close>\<close>

text \<open>
  The comparison of the 16 keys in one instruction, as the ascending list of the positions of the
  bits that are set below \<^verbatim>\<open>size\<close>; \<^verbatim>\<open>__builtin_ctz\<close> is its first.
\<close>

definition node16_bits :: "anode \<Rightarrow> (byte \<Rightarrow> bool) \<Rightarrow> nat list option" where
  "node16_bits t p =
     (if length (an_keys t) = 16 then Some (filter (\<lambda>i. p (an_keys t ! i) \<and> i < an_size t) [0..<16]) else None)"

definition node16_find :: "anode \<Rightarrow> byte \<Rightarrow> nat option option" where
  "node16_find t pkey =
     do { bitfield \<leftarrow> node16_bits t (\<lambda>k. k = pkey);
          if bitfield = [] then Some None else Some (Some (hd bitfield)) }"

definition node16_findgt :: "anode \<Rightarrow> byte \<Rightarrow> nat option" where
  "node16_findgt t pkey =
     do { mask \<leftarrow> node16_bits t (\<lambda>k. pkey < k);
          if mask = [] then Some (an_size t) else Some (hd mask) }"

definition node16_getch :: "anode \<Rightarrow> nat \<Rightarrow> nat option" where
  "node16_getch t idx = Some idx"

definition node16_findch :: "anode \<Rightarrow> byte \<Rightarrow> addr option" where
  "node16_findch t pkey =
     do { idx \<leftarrow> node16_find t pkey;
          case idx of None \<Rightarrow> Some nullptr | Some i \<Rightarrow> arr_get (an_chs t) i }"

definition node16_append :: "anode \<Rightarrow> byte \<Rightarrow> (anode \<times> nat) option" where
  "node16_append t pkey =
     do { idx \<leftarrow> node16_findgt t pkey;
          ks \<leftarrow> arr_insert (an_keys t) (an_size t) idx pkey;
          Some (t\<lparr>an_keys := ks, an_size := an_size t + 1\<rparr>, idx) }"

definition node16_insertch :: "anode \<Rightarrow> nat \<Rightarrow> addr \<Rightarrow> anode option" where
  "node16_insertch t idx ch =
     do { cs \<leftarrow> arr_insert (an_chs t) (an_size t - 1) idx ch; Some (t\<lparr>an_chs := cs\<rparr>) }"

text \<open>\<^verbatim>\<open>for (idx = 0; idx < 16; idx++) { t_new->slts[t_old->keys[idx]] = idx; }\<close>\<close>

function node16_fill_slots :: "byte list \<Rightarrow> nat \<Rightarrow> byte list \<Rightarrow> byte list option" where
  "node16_fill_slots keys idx slts =
     (if idx < 16
      then do { k \<leftarrow> arr_get keys idx; slts \<leftarrow> arr_set slts (unat k) (of_nat idx); node16_fill_slots keys (idx + 1) slts }
      else Some slts)"
  by pat_completeness auto
termination
  by (relation "measure (\<lambda>(keys, idx, slts). 16 - idx)") auto

declare node16_fill_slots.simps [simp del]

definition node16_extend :: "shifts \<Rightarrow> addr \<Rightarrow> 64 word \<Rightarrow> amem \<Rightarrow> (addr \<times> amem) option" where
  "node16_extend ub t_old ver m =
     do { src \<leftarrow> mem_get m t_old;
          (t_new, m) \<leftarrow> art_new_node ub ver AT_NODE48 (an_ofs src) (an_len src) (an_pfx src) m;
          m \<leftarrow> mem_upd m t_new (\<lambda>n. do { ks \<leftarrow> node16_fill_slots (an_keys src) 0 (replicate 256 255); Some (n\<lparr>an_keys := ks\<rparr>) });
          Some (t_new, m) }"

definition node16_copych :: "anode \<Rightarrow> anode \<Rightarrow> anode option" where
  "node16_copych t_new t_old =
     do { cs \<leftarrow> arr_copy (an_chs t_new) (an_chs t_old) (an_size t_old); Some (t_new\<lparr>an_chs := cs\<rparr>) }"

definition node16_copych_at :: "anode \<Rightarrow> anode \<Rightarrow> nat \<Rightarrow> anode option" where
  "node16_copych_at t_new t_old pos =
     do { cs \<leftarrow> arr_copy_insert (an_chs t_new) (an_chs t_old) (an_size t_old) pos nullptr; Some (t_new\<lparr>an_chs := cs\<rparr>) }"

definition node16_copych_extend :: "anode \<Rightarrow> anode \<Rightarrow> anode option" where
  "node16_copych_extend t_new t_old =
     do { cs \<leftarrow> arr_copy (an_chs t_new) (an_chs t_old) (an_size t_old); Some (t_new\<lparr>an_chs := cs\<rparr>) }"

section \<open>\<^verbatim>\<open>node48.hpp\<close>\<close>

definition node48_find :: "anode \<Rightarrow> byte \<Rightarrow> nat option option" where
  "node48_find t pkey =
     do { s \<leftarrow> arr_get (an_keys t) (unat pkey); if s = 255 then Some None else Some (Some (unat pkey)) }"

definition node48_getch :: "anode \<Rightarrow> nat \<Rightarrow> nat option" where
  "node48_getch t pkey = do { s \<leftarrow> arr_get (an_keys t) pkey; Some (unat s) }"

definition node48_findch :: "anode \<Rightarrow> byte \<Rightarrow> addr option" where
  "node48_findch t pkey =
     do { s \<leftarrow> arr_get (an_keys t) (unat pkey); if s = 255 then Some nullptr else arr_get (an_chs t) (unat s) }"

definition node48_append :: "anode \<Rightarrow> byte \<Rightarrow> (anode \<times> nat) option" where
  "node48_append t pkey =
     do { ks \<leftarrow> arr_set (an_keys t) (unat pkey) (of_nat (an_size t));
          Some (t\<lparr>an_keys := ks, an_size := an_size t + 1\<rparr>, unat pkey) }"

definition node48_insertch :: "anode \<Rightarrow> nat \<Rightarrow> addr \<Rightarrow> anode option" where
  "node48_insertch t pkey ch =
     do { s \<leftarrow> arr_get (an_keys t) pkey; cs \<leftarrow> arr_set (an_chs t) (unat s) ch; Some (t\<lparr>an_chs := cs\<rparr>) }"

definition node48_extend :: "shifts \<Rightarrow> addr \<Rightarrow> 64 word \<Rightarrow> amem \<Rightarrow> (addr \<times> amem) option" where
  "node48_extend ub t_old ver m =
     do { src \<leftarrow> mem_get m t_old; art_new_node ub ver AT_NODE256 (an_ofs src) (an_len src) (an_pfx src) m }"

definition node48_copych :: "anode \<Rightarrow> anode \<Rightarrow> anode option" where
  "node48_copych t_new t_old =
     do { cs \<leftarrow> arr_copy (an_chs t_new) (an_chs t_old) (an_size t_old); Some (t_new\<lparr>an_chs := cs\<rparr>) }"

text \<open>\<^verbatim>\<open>do { ... } while (++pkey != 0);\<close> goes through the 256 bytes.\<close>

function node48_spread :: "anode \<Rightarrow> nat \<Rightarrow> addr list \<Rightarrow> addr list option" where
  "node48_spread t_old pkey chs =
     (if pkey < 256
      then do {
        s \<leftarrow> arr_get (an_keys t_old) pkey;
        chs \<leftarrow> (if s \<noteq> 255 then do { c \<leftarrow> arr_get (an_chs t_old) (unat s); arr_set chs pkey c } else Some chs);
        node48_spread t_old (pkey + 1) chs }
      else Some chs)"
  by pat_completeness auto
termination
  by (relation "measure (\<lambda>(t_old, pkey, chs). 256 - pkey)") auto

declare node48_spread.simps [simp del]

definition node48_copych_extend :: "anode \<Rightarrow> anode \<Rightarrow> anode option" where
  "node48_copych_extend t_new t_old = do { cs \<leftarrow> node48_spread t_old 0 (an_chs t_new); Some (t_new\<lparr>an_chs := cs\<rparr>) }"

section \<open>\<^verbatim>\<open>node256.hpp\<close>\<close>

definition node256_find :: "anode \<Rightarrow> byte \<Rightarrow> nat option option" where
  "node256_find t pkey = Some (Some (unat pkey))"

definition node256_getch :: "anode \<Rightarrow> nat \<Rightarrow> nat option" where
  "node256_getch t pkey = Some pkey"

definition node256_findch :: "anode \<Rightarrow> byte \<Rightarrow> addr option" where
  "node256_findch t pkey = arr_get (an_chs t) (unat pkey)"

definition node256_append :: "anode \<Rightarrow> byte \<Rightarrow> (anode \<times> nat) option" where
  "node256_append t pkey = Some (t, unat pkey)"

definition node256_insertch :: "anode \<Rightarrow> nat \<Rightarrow> addr \<Rightarrow> anode option" where
  "node256_insertch t pkey ch = do { cs \<leftarrow> arr_set (an_chs t) pkey ch; Some (t\<lparr>an_chs := cs\<rparr>) }"

definition node256_copych :: "anode \<Rightarrow> anode \<Rightarrow> anode option" where
  "node256_copych t_new t_old =
     do { cs \<leftarrow> arr_copy (an_chs t_new) (an_chs t_old) 256; Some (t_new\<lparr>an_chs := cs\<rparr>) }"

section \<open>\<^verbatim>\<open>node_wrapper.hpp\<close>\<close>

definition art_find_idx :: "anode \<Rightarrow> byte \<Rightarrow> nat option option" where
  "art_find_idx t pkey =
     (case an_type t of
        AT_NODE4 \<Rightarrow> node4_find t pkey | AT_NODE16 \<Rightarrow> node16_find t pkey
      | AT_NODE48 \<Rightarrow> node48_find t pkey | AT_NODE256 \<Rightarrow> node256_find t pkey
      | AT_LEAF \<Rightarrow> Some None)"

text \<open>The null pointer that \<^verbatim>\<open>getch\<close> returns for a leaf cannot be used; it is the fault here.\<close>

definition art_getch :: "anode \<Rightarrow> nat \<Rightarrow> nat option" where
  "art_getch t idx =
     (case an_type t of
        AT_NODE4 \<Rightarrow> node4_getch t idx | AT_NODE16 \<Rightarrow> node16_getch t idx
      | AT_NODE48 \<Rightarrow> node48_getch t idx | AT_NODE256 \<Rightarrow> node256_getch t idx
      | AT_LEAF \<Rightarrow> None)"

definition art_findch :: "anode \<Rightarrow> byte \<Rightarrow> addr option" where
  "art_findch t pkey =
     (case an_type t of
        AT_NODE4 \<Rightarrow> node4_findch t pkey | AT_NODE16 \<Rightarrow> node16_findch t pkey
      | AT_NODE48 \<Rightarrow> node48_findch t pkey | AT_NODE256 \<Rightarrow> node256_findch t pkey
      | AT_LEAF \<Rightarrow> Some nullptr)"

definition art_append :: "anode \<Rightarrow> byte \<Rightarrow> (anode \<times> nat) option" where
  "art_append t pkey =
     (case an_type t of
        AT_NODE4 \<Rightarrow> node4_append t pkey | AT_NODE16 \<Rightarrow> node16_append t pkey
      | AT_NODE48 \<Rightarrow> node48_append t pkey | AT_NODE256 \<Rightarrow> node256_append t pkey
      | AT_LEAF \<Rightarrow> Some (t, 0))"

definition art_insertch :: "anode \<Rightarrow> nat \<Rightarrow> addr \<Rightarrow> anode option" where
  "art_insertch t idx ch =
     (case an_type t of
        AT_NODE4 \<Rightarrow> node4_insertch t idx ch | AT_NODE16 \<Rightarrow> node16_insertch t idx ch
      | AT_NODE48 \<Rightarrow> node48_insertch t idx ch | AT_NODE256 \<Rightarrow> node256_insertch t idx ch
      | AT_LEAF \<Rightarrow> Some t)"

definition art_is_full :: "anode \<Rightarrow> bool" where
  "art_is_full t =
     (case an_type t of
        AT_NODE4 \<Rightarrow> an_size t = 4 | AT_NODE16 \<Rightarrow> an_size t = 16
      | AT_NODE48 \<Rightarrow> an_size t = 48 | AT_NODE256 \<Rightarrow> False
      | AT_LEAF \<Rightarrow> True)"

definition art_node_extend :: "shifts \<Rightarrow> addr \<Rightarrow> 64 word \<Rightarrow> amem \<Rightarrow> (addr \<times> amem) option" where
  "art_node_extend ub t ver m =
     do { n \<leftarrow> mem_get m t;
          case an_type n of
            AT_NODE4 \<Rightarrow> node4_extend ub t ver m | AT_NODE16 \<Rightarrow> node16_extend ub t ver m
          | AT_NODE48 \<Rightarrow> node48_extend ub t ver m
          | _ \<Rightarrow> Some (nullptr, m) }"

text \<open>\<^verbatim>\<open>copych\<close>, and its overload with a position.\<close>

definition art_copych :: "anode \<Rightarrow> anode \<Rightarrow> anode option" where
  "art_copych t_new t_old =
     (case an_type t_new of
        AT_NODE4 \<Rightarrow> node4_copych t_new t_old | AT_NODE16 \<Rightarrow> node16_copych t_new t_old
      | AT_NODE48 \<Rightarrow> node48_copych t_new t_old | AT_NODE256 \<Rightarrow> node256_copych t_new t_old
      | AT_LEAF \<Rightarrow> Some t_new)"

definition art_copych_at :: "anode \<Rightarrow> anode \<Rightarrow> nat \<Rightarrow> anode option" where
  "art_copych_at t_new t_old idx =
     (if an_type t_old \<noteq> an_type t_new
      then (case an_type t_old of
              AT_NODE4 \<Rightarrow> node4_copych_extend_at t_new t_old idx
            | AT_NODE16 \<Rightarrow> node16_copych_extend t_new t_old
            | AT_NODE48 \<Rightarrow> node48_copych_extend t_new t_old
            | _ \<Rightarrow> Some t_new)
      else (case an_type t_new of
              AT_NODE4 \<Rightarrow> node4_copych_at t_new t_old idx
            | AT_NODE16 \<Rightarrow> node16_copych_at t_new t_old idx
            | AT_NODE48 \<Rightarrow> node48_copych t_new t_old
            | AT_NODE256 \<Rightarrow> node256_copych t_new t_old
            | AT_LEAF \<Rightarrow> Some t_new))"

end
