(* ===== verification/Art_Bytes.thy ===== *)
theory Art_Bytes
  imports Art_Node "HOL-Library.List_Lexorder"
begin

unbundle bit_operations_syntax

text \<open>
  A key as the list of its eight bytes, most significant first: the order of keys is the
  lexicographic order of their bytes, and the arithmetic of \<^verbatim>\<open>partial_key\<close>, \<^verbatim>\<open>prefix_mask\<close> and
  \<^verbatim>\<open>prefix_match\<close> in terms of bytes, whatever a shift out of range yields.
\<close>

section \<open>Bytes\<close>

definition key_byte :: "key \<Rightarrow> nat \<Rightarrow> byte" where
  "key_byte k i = ucast (drop_bit (56 - 8 * i) k)"

definition key_bytes :: "key \<Rightarrow> byte list" where
  "key_bytes k = map (key_byte k) [0..<8]"

lemma length_key_bytes [simp]: "length (key_bytes k) = 8"
  by (simp add: key_bytes_def)

lemma key_bytes_nth [simp]: "i < 8 \<Longrightarrow> key_bytes k ! i = key_byte k i"
  by (simp add: key_bytes_def)

lemma bit_key_byte: "bit (key_byte k i) j \<longleftrightarrow> j < 8 \<and> bit k (56 - 8 * i + j)"
  by (auto simp: key_byte_def bit_simps)

lemma partial_key_byte: "pos < 8 \<Longrightarrow> art_partial_key ub k pos = key_byte k pos"
proof (rule bit_word_eqI)
  fix n
  assume pos: "pos < 8" and "n < LENGTH(8)"
  then have n: "n < 8" by simp
  have m: "(0xFF :: 64 word) = mask 8" by (simp add: mask_eq_exp_minus_1)
  have "bit (0xFF :: 64 word) n" unfolding m using n by (simp only: bit_mask_iff) simp
  moreover have "nat (56 - 8 * int pos) = 56 - 8 * pos" using pos by (simp add: nat_diff_distrib nat_mult_distrib)
  ultimately show "bit (art_partial_key ub k pos) n = bit (key_byte k pos) n"
    using pos n by (simp add: art_partial_key_def art_shr_def bit_key_byte bit_and_iff bit_ucast_iff bit_drop_bit_eq)
qed

section \<open>Order\<close>

fun bytes_val :: "byte list \<Rightarrow> nat" where
  "bytes_val [] = 0"
| "bytes_val (b # bs) = unat b * 256 ^ length bs + bytes_val bs"

definition bytes_key :: "byte list \<Rightarrow> key" where
  "bytes_key bs = of_nat (bytes_val bs)"

lemma unat_byte: "unat (b :: byte) \<le> 255"
proof -
  have "unat b < 2 ^ LENGTH(8)" by (rule unsigned_less)
  then show ?thesis by simp
qed

lemma bytes_val_less: "bytes_val bs < 256 ^ length bs"
proof (induction bs)
  case (Cons b bs)
  have "unat b * 256 ^ length bs + bytes_val bs < (unat b + 1) * 256 ^ length bs" using Cons by simp
  also have "\<dots> \<le> 256 * 256 ^ length bs" using unat_byte [of b] by (intro mult_le_mono1) simp
  finally show ?case by simp
qed simp

lemma bytes_val_mono: "length xs = length ys \<Longrightarrow> xs < ys \<Longrightarrow> bytes_val xs < bytes_val ys"
proof (induction xs ys rule: list_induct2)
  case (Cons x xs y ys)
  show ?case
  proof (cases "x = y")
    case False
    with Cons.prems have "unat x + 1 \<le> unat y" by (simp add: word_less_nat_alt Suc_leI)
    then have "(unat x + 1) * 256 ^ length xs \<le> unat y * 256 ^ length xs" by (rule mult_le_mono1)
    then show ?thesis using bytes_val_less [of xs] Cons.hyps by simp
  qed (use Cons in simp)
qed simp

lemma bytes_val_inj: "length xs = length ys \<Longrightarrow> bytes_val xs = bytes_val ys \<Longrightarrow> xs = ys"
  using bytes_val_mono [of xs ys] bytes_val_mono [of ys xs] by (metis less_irrefl linorder_neqE)

lemma unat_key_byte: "unat (key_byte k i) = unat k div 2 ^ (56 - 8 * i) mod 256"
  unfolding key_byte_def unsigned_ucast_eq unat_drop_bit_eq unfolding take_bit_eq_mod drop_bit_eq_div by simp

lemma key_bytes_expand: "key_bytes k = [key_byte k 0, key_byte k 1, key_byte k 2, key_byte k 3,
   key_byte k 4, key_byte k 5, key_byte k 6, key_byte k 7]"
  by (simp add: key_bytes_def upt_rec eval_nat_numeral)

lemma bytes_val_key_bytes: "bytes_val (key_bytes k) = unat k"
proof -
  define Q where "Q n = unat k div 2 ^ n" for n
  define R where "R n = Q n mod 256" for n
  have "unat k < 2 ^ LENGTH(64)" by (rule unsigned_less)
  then have "Q 56 < 256" by (simp add: Q_def less_mult_imp_div_less)
  then have top: "R 56 = Q 56" by (simp add: R_def)
  have s: "Q n = Q (n + 8) * 256 + R n" for n
    by (simp add: Q_def R_def power_add div_mult2_eq)
  have R: "unat (key_byte k i) = R (56 - 8 * i)" for i by (simp add: unat_key_byte Q_def R_def)
  have "Q 0 = unat k" by (simp add: Q_def)
  then show ?thesis
    unfolding key_bytes_expand bytes_val.simps R
    using s [of 0] s [of 8] s [of 16] s [of 24] s [of 32] s [of 40] s [of 48] top by simp
qed

lemma bytes_key_bytes [simp]: "bytes_key (key_bytes k) = k"
  by (simp add: bytes_key_def bytes_val_key_bytes)

lemma unat_bytes_key: "length bs = 8 \<Longrightarrow> unat (bytes_key bs) = bytes_val bs"
  using bytes_val_less [of bs] by (simp add: bytes_key_def unat_of_nat)

lemma key_bytes_key [simp]: "length bs = 8 \<Longrightarrow> key_bytes (bytes_key bs) = bs"
  by (rule bytes_val_inj) (simp_all add: bytes_val_key_bytes unat_bytes_key)

lemma bytes_key_less: "length xs = 8 \<Longrightarrow> length ys = 8 \<Longrightarrow> bytes_key xs < bytes_key ys \<longleftrightarrow> xs < ys"
  using bytes_val_mono [of xs ys] bytes_val_mono [of ys xs]
  by (auto simp: word_less_nat_alt unat_bytes_key) (metis less_asym linorder_neqE)

lemma key_bytes_inj: "key_bytes k = key_bytes k' \<longleftrightarrow> k = k'"
  by (metis bytes_key_bytes)

section \<open>Masks\<close>

lemma prefix_mask_bit:
  assumes "0 < len" "ofs + len \<le> 8"
  shows "bit (art_prefix_mask ub ofs len) j \<longleftrightarrow> 8 * (8 - len - ofs) \<le> j \<and> j < 64 - 8 * ofs"
proof -
  have n: "nat (8 * (8 - int len)) = 8 * (8 - len)" "nat (8 * (8 - int len - int ofs)) = 8 * (8 - len - ofs)"
    using assms by (simp_all add: nat_mult_distrib nat_diff_distrib)
  have r: "0 \<le> 8 * (8 - int len)" "8 * (8 - int len) < 64" "0 \<le> 8 * (8 - int len - int ofs)" "8 * (8 - int len - int ofs) < 64"
    using assms by simp_all
  show ?thesis
    using assms by (auto simp: art_prefix_mask_def art_shl_def art_shr_def r n bit_simps)
qed

lemma key_byte_mask:
  assumes "0 < len" "ofs + len \<le> 8" "i < 8"
  shows "key_byte (x AND art_prefix_mask ub ofs len) i = (if ofs \<le> i \<and> i < ofs + len then key_byte x i else 0)"
proof (rule bit_word_eqI)
  fix n assume "n < LENGTH(8)"
  then have n: "n < 8" by simp
  have "8 * (8 - len - ofs) \<le> 56 - 8 * i + n \<and> 56 - 8 * i + n < 64 - 8 * ofs \<longleftrightarrow> ofs \<le> i \<and> i < ofs + len"
    using assms n by linarith
  then show "bit (key_byte (x AND art_prefix_mask ub ofs len) i) n = bit (if ofs \<le> i \<and> i < ofs + len then key_byte x i else 0) n"
    using n by (simp add: bit_key_byte bit_and_iff prefix_mask_bit [OF assms(1,2)])
qed

text \<open>The bytes of a node's prefix.\<close>

definition pfx_bytes :: "key \<Rightarrow> nat \<Rightarrow> nat \<Rightarrow> byte list" where
  "pfx_bytes x ofs len = take len (drop ofs (key_bytes x))"

lemma length_pfx_bytes [simp]: "ofs + len \<le> 8 \<Longrightarrow> length (pfx_bytes x ofs len) = len"
  by (simp add: pfx_bytes_def)

lemma pfx_bytes_nth: "ofs + len \<le> 8 \<Longrightarrow> i < len \<Longrightarrow> pfx_bytes x ofs len ! i = key_byte x (ofs + i)"
  by (simp add: pfx_bytes_def)

lemma pfx_bytes_mask:
  assumes "ofs + len \<le> 8"
  shows "pfx_bytes (x AND art_prefix_mask ub ofs len) ofs len = pfx_bytes x ofs len"
  using assms by (intro nth_equalityI) (auto simp: pfx_bytes_nth key_byte_mask)

section \<open>Matching a prefix\<close>

fun lcp :: "'a list \<Rightarrow> 'a list \<Rightarrow> nat" where
  "lcp (x # xs) (y # ys) = (if x = y then Suc (lcp xs ys) else 0)"
| "lcp _ _ = 0"

lemma lcp_le: "lcp xs ys \<le> length xs" "lcp xs ys \<le> length ys"
  by (induction xs ys rule: lcp.induct) auto

lemma lcp_take: "take (lcp xs ys) xs = take (lcp xs ys) ys"
  by (induction xs ys rule: lcp.induct) auto

lemma lcp_neq: "lcp xs ys < length xs \<Longrightarrow> lcp xs ys < length ys \<Longrightarrow> xs ! lcp xs ys \<noteq> ys ! lcp xs ys"
  by (induction xs ys rule: lcp.induct) auto

lemma lcp_eqI:
  "n \<le> length xs \<Longrightarrow> n \<le> length ys \<Longrightarrow> (\<And>i. i < n \<Longrightarrow> xs ! i = ys ! i) \<Longrightarrow> n = length xs \<or> xs ! n \<noteq> ys ! n \<and> n < length ys \<Longrightarrow> lcp xs ys = n"
proof (induction xs ys arbitrary: n rule: lcp.induct)
  case (1 x xs y ys)
  show ?case
  proof (cases n)
    case 0
    then show ?thesis using 1 by simp
  next
    case (Suc k)
    have "x = y" using "1.prems"(3) [of 0] Suc by simp
    moreover have "lcp xs ys = k"
      by (rule "1.IH") (use 1 Suc \<open>x = y\<close> "1.prems"(3) [of "Suc _"] in auto)
    ultimately show ?thesis using Suc by simp
  qed
qed auto

lemma lcp_full: "lcp xs ys = length xs \<Longrightarrow> take (length xs) ys = xs"
  using lcp_take [of xs ys] by simp

lemma clz_byte:
  assumes "d \<noteq> 0"
  shows "art_clz d div 8 < 8 \<and> key_byte d (art_clz d div 8) \<noteq> 0 \<and> (\<forall>i < art_clz d div 8. key_byte d i = 0)"
proof -
  let ?P = "\<lambda>i. \<not> bit d i" and ?L = "rev [0..<64]"
  let ?c = "art_clz d"
  have nth: "?L ! i = 63 - i" if "i < 64" for i using that by (simp add: rev_nth)
  obtain n where n: "n < 64" "bit d n"
    using assms using bit_word_eqI [of d 0] by auto
  then have "\<exists>x \<in> set ?L. \<not> ?P x" by auto
  then have c: "?c < 64"
    using length_takeWhile_less_iff [of ?P ?L] by (simp add: art_clz_def)
  have top: "bit d (63 - ?c)"
    using nth_length_takeWhile [of ?P ?L] c nth by (simp add: art_clz_def)
  have zero: "\<not> bit d (63 - i)" if "i < ?c" for i
  proof -
    have "?P (?L ! i)" using takeWhile_nth [of i ?P ?L] that set_takeWhileD [of _ ?P ?L]
      by (metis art_clz_def nth_mem)
    then show ?thesis using nth that c by simp
  qed
  let ?i = "?c div 8"
  have i: "?i < 8" using c by simp
  define q r where "q = ?c div 8" "r = ?c mod 8"
  then have "?c = 8 * q + r" "q \<le> 7" "r \<le> 7" using c by simp_all
  then have "56 - 8 * ?i + (7 - ?c mod 8) = 63 - ?c" unfolding q_r_def [symmetric] by linarith
  then have "bit (key_byte d ?i) (7 - ?c mod 8)" using top by (simp add: bit_key_byte)
  then have "key_byte d ?i \<noteq> 0" by auto
  moreover have "key_byte d i = 0" if "i < ?i" for i
  proof (rule bit_word_eqI)
    fix n assume "n < LENGTH(8)"
    then have n: "n < 8" by simp
    have "56 - 8 * i + n = 63 - (8 * i + 7 - n)" "8 * i + 7 - n < ?c" using that n i by linarith+
    then have "\<not> bit d (56 - 8 * i + n)" using zero [of "8 * i + 7 - n"] by simp
    then show "bit (key_byte d i) n = bit 0 n" by (simp add: bit_key_byte)
  qed
  ultimately show ?thesis using i by blast
qed

lemma xor_zero_iff: "(x :: 'a::len word) XOR y = 0 \<longleftrightarrow> x = y"
proof
  assume z: "x XOR y = 0"
  have "x = (x XOR y) XOR y" by (simp add: xor.assoc)
  with z show "x = y" by simp
qed simp

lemma prefix_match_lcp:
  assumes "an_ofs t + an_len t \<le> 8"
  shows "lcp (pfx_bytes (an_pfx t) (an_ofs t) (an_len t)) (drop (an_ofs t) (key_bytes key))
    = min (an_len t) (art_prefix_match ub t key)"
proof (cases "an_ofs t = 8")
  case True
  then show ?thesis using assms by (simp add: pfx_bytes_def)
next
  case False
  let ?ofs = "an_ofs t" and ?len = "an_len t" and ?p = "an_pfx t"
  let ?d = "art_shl ub (key XOR ?p) (8 * int ?ofs)"
  have ofs: "?ofs < 8" using False assms by simp
  then have d: "?d = push_bit (8 * ?ofs) (key XOR ?p)"
    by (simp add: art_shl_def nat_mult_distrib)
  have byte: "key_byte ?d i = key_byte key (?ofs + i) XOR key_byte ?p (?ofs + i)" if "?ofs + i < 8" for i
  proof (rule bit_word_eqI)
    fix n assume "n < LENGTH(8)"
    then have n: "n < 8" by simp
    have le: "8 * ?ofs + 8 * i \<le> 56" using that by simp
    then have "8 * ?ofs \<le> 56 - 8 * i + n" "56 - 8 * i + n - 8 * ?ofs = 56 - 8 * (?ofs + i) + n" "56 - 8 * i + n < 64"
      using le n by (simp_all add: add_mult_distrib2)
    then show "bit (key_byte ?d i) n = bit (key_byte key (?ofs + i) XOR key_byte ?p (?ofs + i)) n"
      using n by (simp add: d bit_key_byte bit_push_bit_iff bit_xor_iff)
  qed
  have eq: "key_byte ?d i = 0 \<longleftrightarrow> key_byte ?p (?ofs + i) = key_byte key (?ofs + i)" if "?ofs + i < 8" for i
    unfolding byte [OF that] xor_zero_iff by auto
  let ?n = "min ?len (art_prefix_match ub t key)"
  show ?thesis
  proof (rule lcp_eqI)
    show "?n \<le> length (pfx_bytes ?p ?ofs ?len)" "?n \<le> length (drop ?ofs (key_bytes key))" using assms by auto
    have zero: "key_byte ?d i = 0" if "i < ?n" for i
    proof (cases "?d = 0")
      case False
      then show ?thesis using clz_byte [of ?d] that by (simp add: art_prefix_match_def Let_def)
    qed (simp add: key_byte_def)
    show "pfx_bytes ?p ?ofs ?len ! i = drop ?ofs (key_bytes key) ! i" if "i < ?n" for i
      using eq [of i] zero [OF that] that assms by (simp add: pfx_bytes_nth)
    show "?n = length (pfx_bytes ?p ?ofs ?len) \<or>
        pfx_bytes ?p ?ofs ?len ! ?n \<noteq> drop ?ofs (key_bytes key) ! ?n \<and> ?n < length (drop ?ofs (key_bytes key))"
    proof (cases "?len \<le> art_prefix_match ub t key")
      case True
      then show ?thesis using assms by simp
    next
      case False
      then have m: "art_prefix_match ub t key < ?len" "?d \<noteq> 0" by (auto simp: art_prefix_match_def Let_def split: if_splits)
      then have "art_prefix_match ub t key = art_clz ?d div 8" by (simp add: art_prefix_match_def Let_def)
      with m clz_byte [of ?d] eq [of "art_prefix_match ub t key"] assms show ?thesis
        by (simp add: pfx_bytes_nth)
    qed
  qed
qed

end
