(* ===== verification/Art_Spec.thy ===== *)
theory Art_Spec
  imports Art_Bytes
begin

text \<open>
  The radix tree as a value: leaves with keys, inner nodes with the bytes they compress and their
  children by byte. Its contents are a map from byte strings; an update of the tree is proved to
  be the update of that map.
\<close>

section \<open>Tries\<close>

datatype tr = TLeaf key val | TNode "byte list" "(byte \<times> tr) list"

lemma tr_size_kid [termination_simp]: "(b, c) \<in> set cs \<Longrightarrow> size c < Suc (size_list (size_prod (\<lambda>_. 0) size) cs)"
  by (induction cs) auto

lemma tr_size_map_of [termination_simp]: "map_of cs b = Some c \<Longrightarrow> size c < Suc (size_list (\<lambda>x. Suc (size (snd x))) cs)"
  by (induction cs) (auto split: if_splits)

text \<open>The contents below the path \<^term>\<open>p\<close>. The path fixes the first bytes of a key, the leaf the rest.\<close>

fun tr_list :: "byte list \<Rightarrow> tr \<Rightarrow> (byte list \<times> val) list" where
  "tr_list p (TLeaf k v) = [(p @ drop (length p) (key_bytes k), v)]"
| "tr_list p (TNode q cs) = concat (map (\<lambda>(b, c). tr_list (p @ q @ [b]) c) cs)"

text \<open>At depth \<^term>\<open>n\<close> (in bytes) a trie is well formed when its children ascend and no path is longer than a key.\<close>

fun tr_wf :: "nat \<Rightarrow> tr \<Rightarrow> bool" where
  "tr_wf n (TLeaf k v) = (n \<le> 8)"
| "tr_wf n (TNode q cs) = (n + length q < 8 \<and> ordered cs \<and> (\<forall>(b, c) \<in> set cs. tr_wf (Suc (n + length q)) c))"

fun tr_height :: "tr \<Rightarrow> nat" where
  "tr_height (TLeaf k v) = 0"
| "tr_height (TNode q cs) = Suc (Max (insert 0 ((\<lambda>(b, c). tr_height c) ` set cs)))"

lemma tr_height_kid: "(b, c) \<in> set cs \<Longrightarrow> tr_height c < tr_height (TNode q cs)"
  by (auto simp: less_Suc_eq_le intro!: Max_ge)

text \<open>Every level consumes a byte.\<close>

lemma tr_height_wf: "tr_wf n t \<Longrightarrow> tr_height t + n \<le> 8"
proof (induction n t rule: tr_wf.induct)
  case (2 n q cs)
  have "tr_height c \<le> 7 - n" if "(b, c) \<in> set cs" for b c
    using 2 that by fastforce
  then have "Max (insert 0 ((\<lambda>(b, c). tr_height c) ` set cs)) \<le> 7 - n" by (subst Max_le_iff) auto
  moreover have "n \<le> 7" using "2.prems" by simp
  ultimately show ?case unfolding tr_height.simps by linarith
qed simp

lemma tr_list_path:
  "tr_wf (length p) t \<Longrightarrow> (x, v) \<in> set (tr_list p t) \<Longrightarrow> length x = 8 \<and> take (length p) x = p"
proof (induction p t rule: tr_list.induct)
  case (2 p q cs)
  from "2.prems"(2) obtain b c where c: "(b, c) \<in> set cs" "(x, v) \<in> set (tr_list (p @ q @ [b]) c)" by auto
  with "2.prems"(1) have "tr_wf (length (p @ q @ [b])) c" by auto
  from "2.IH" [OF c(1) refl this c(2)] have "length x = 8" "take (length (p @ q @ [b])) x = p @ q @ [b]" by auto
  then show ?case by (metis append_eq_conv_conj append_take_drop_id append.assoc)
qed auto

text \<open>Strings below different bytes.\<close>

lemma path_less:
  assumes "take (length p + 1) x = p @ [b]" "take (length p + 1) y = p @ [c]" "b < (c :: byte)"
  shows "x < y"
proof -
  have "x = p @ b # drop (length p + 1) x" "y = p @ c # drop (length p + 1) y"
    using assms(1,2) by (metis append_take_drop_id append.assoc append_Cons append_Nil)+
  moreover have "p @ b # u < p @ c # w" for u w using assms(3) by (induction p) simp_all
  ultimately show ?thesis by metis
qed

lemma kids_concat_ordered:
  assumes "ordered cs" "\<And>b c. (b, c) \<in> set cs \<Longrightarrow> ordered (f b c)"
    "\<And>b c x v. (b, c) \<in> set cs \<Longrightarrow> (x, v) \<in> set (f b c) \<Longrightarrow> take (length p + 1) x = p @ [b]"
  shows "ordered (concat (map (\<lambda>(b, c). f b c) cs) :: (byte list \<times> val) list)"
  using assms
proof (induction cs)
  case (Cons d cs)
  obtain b c where d: "d = (b, c)" by (cases d)
  have "x < y" if "(x, v) \<in> set (f b c)" "(e, c') \<in> set cs" "(y, w) \<in> set (f e c')" for x v e c' y w
    by (rule path_less [of p x b y e]) (use Cons.prems d that in force)+
  then have "\<forall>x \<in> set (f b c). \<forall>y \<in> set (concat (map (\<lambda>(b, c). f b c) cs)). fst x < fst y" by force
  moreover have "ordered (concat (map (\<lambda>(b, c). f b c) cs))"
    by (rule Cons.IH) (use Cons.prems in \<open>force simp: d\<close>)+
  moreover have "ordered (f b c)" using Cons.prems(2) d by simp
  ultimately have "ordered (f b c @ concat (map (\<lambda>(b, c). f b c) cs))" unfolding ordered_append by blast
  then show ?case by (simp add: d)
qed simp

lemma tr_list_ordered: "tr_wf (length p) t \<Longrightarrow> ordered (tr_list p t)"
proof (induction p t rule: tr_list.induct)
  case (2 p q cs)
  have "ordered (concat (map (\<lambda>(b, c). tr_list (p @ q @ [b]) c) cs))"
  proof (rule kids_concat_ordered [where p = "p @ q"])
    show "ordered (tr_list (p @ q @ [b]) c)" if "(b, c) \<in> set cs" for b c
      using "2.IH" [OF that refl] "2.prems" that by auto
    show "take (length (p @ q) + 1) x = (p @ q) @ [b]" if "(b, c) \<in> set cs" "(x, v) \<in> set (tr_list (p @ q @ [b]) c)" for b c x v
      using tr_list_path [of "p @ q @ [b]" c x v] "2.prems" that by auto
  qed (use "2.prems" in simp)
  then show ?case by simp
qed simp

section \<open>Lookup\<close>

lemma map_of_concat_kids:
  assumes "ordered cs" "\<And>b c x v. (b, c) \<in> set cs \<Longrightarrow> (x, v) \<in> set (f b c) \<Longrightarrow> take (length p + 1) x = p @ [b]"
    "take (length p + 1) y = p @ [d]"
  shows "map_of (concat (map (\<lambda>(b, c). f b c) cs)) y = (case map_of cs d of None \<Rightarrow> None | Some c \<Rightarrow> map_of (f d c) y)"
  using assms
proof (induction cs)
  case (Cons e cs)
  obtain b c where e: "e = (b, c)" by (cases e)
  have IH: "map_of (concat (map (\<lambda>(b, c). f b c) cs)) y = (case map_of cs d of None \<Rightarrow> None | Some c \<Rightarrow> map_of (f d c) y)"
    using Cons by auto
  show ?case
  proof (cases "b = d")
    case True
    have "d \<notin> fst ` set cs" using Cons.prems(1) e True by auto
    then have "map_of cs d = None" by (simp add: map_of_eq_None_iff)
    with IH show ?thesis by (simp add: e True map_add_def split: option.split)
  next
    case False
    have "y \<notin> fst ` set (f b c)"
    proof
      assume "y \<in> fst ` set (f b c)"
      then obtain v where "(y, v) \<in> set (f b c)" by force
      from Cons.prems(2) [OF _ this] e have "take (length p + 1) y = p @ [b]" by auto
      with Cons.prems(3) False show False by simp
    qed
    then have "map_of (f b c) y = None" by (simp add: map_of_eq_None_iff)
    with IH False show ?thesis by (simp add: e map_add_def split: option.split)
  qed
qed simp

text \<open>Where a key goes in a node: it leaves the compressed path, or goes on below a byte.\<close>

fun tr_find :: "nat \<Rightarrow> tr \<Rightarrow> key \<Rightarrow> val option" where
  "tr_find n (TLeaf k' v) k = (if drop n (key_bytes k') = drop n (key_bytes k) then Some v else None)"
| "tr_find n (TNode q cs) k =
     (if take (length q) (drop n (key_bytes k)) = q
      then (case map_of cs (key_byte k (n + length q)) of None \<Rightarrow> None
            | Some c \<Rightarrow> tr_find (Suc (n + length q)) c k)
      else None)"

lemma take_bytes_at: "n + m < 8 \<Longrightarrow> take (n + m + 1) (key_bytes k) = take n (key_bytes k) @ take m (drop n (key_bytes k)) @ [key_byte k (n + m)]"
  by (simp add: take_Suc_conv_app_nth take_add)

lemma tr_find_map_of:
  "tr_wf (length p) t \<Longrightarrow> take (length p) (key_bytes k) = p \<Longrightarrow> tr_find (length p) t k = map_of (tr_list p t) (key_bytes k)"
proof (induction p t rule: tr_list.induct)
  case (1 p k' v)
  have "key_bytes k = p @ drop (length p) (key_bytes k)"
    using append_take_drop_id [of "length p" "key_bytes k"] "1.prems"(2) by simp
  then have "p @ drop (length p) (key_bytes k') = key_bytes k \<longleftrightarrow> drop (length p) (key_bytes k') = drop (length p) (key_bytes k)"
    by (metis same_append_eq)
  then show ?case by auto
next
  case (2 p q cs)
  have wf: "length p + length q < 8" "ordered cs" using "2.prems"(1) by simp_all
  have path: "take (length (p @ q) + 1) x = (p @ q) @ [b]" if "(b, c) \<in> set cs" "(x, v) \<in> set (tr_list (p @ q @ [b]) c)" for b c x v
    using tr_list_path [of "p @ q @ [b]" c x v] "2.prems"(1) that by auto
  show ?case
  proof (cases "take (length q) (drop (length p) (key_bytes k)) = q")
    case True
    let ?d = "key_byte k (length p + length q)"
    have d: "take (length (p @ q) + 1) (key_bytes k) = (p @ q) @ [?d]"
      using take_bytes_at [OF wf(1), of k] True "2.prems"(2) by simp
    have "map_of (tr_list p (TNode q cs)) (key_bytes k) =
        (case map_of cs ?d of None \<Rightarrow> None | Some c \<Rightarrow> map_of (tr_list (p @ q @ [?d]) c) (key_bytes k))"
      using map_of_concat_kids [where p = "p @ q" and f = "\<lambda>b c. tr_list (p @ q @ [b]) c", OF wf(2) path d] by simp
    also have "\<dots> = (case map_of cs ?d of None \<Rightarrow> None | Some c \<Rightarrow> tr_find (Suc (length p + length q)) c k)"
    proof (cases "map_of cs ?d")
      case (Some c)
      then have c: "(?d, c) \<in> set cs" by (rule map_of_SomeD)
      have "tr_wf (length (p @ q @ [?d])) c" using "2.prems"(1) c by auto
      moreover have "take (length (p @ q @ [?d])) (key_bytes k) = p @ q @ [?d]" using d by simp
      ultimately show ?thesis using "2.IH" [OF c refl] Some by simp
    qed simp
    finally show ?thesis using True by simp
  next
    case False
    have "key_bytes k \<notin> fst ` set (tr_list p (TNode q cs))"
    proof
      assume "key_bytes k \<in> fst ` set (tr_list p (TNode q cs))"
      then obtain b c v where "(b, c) \<in> set cs" "(key_bytes k, v) \<in> set (tr_list (p @ q @ [b]) c)" by auto
      from path [OF this] have "take (length p + length q) (key_bytes k) = p @ q"
        by (metis append_take_drop_id butlast_snoc butlast_take length_append le_add2 diff_add_inverse2 length_key_bytes wf(1) add_Suc_right Suc_eq_plus1 Suc_leI add.commute)
      with False show False by (metis append_eq_conv_conj drop_take add_diff_cancel_left')
    qed
    then have "map_of (tr_list p (TNode q cs)) (key_bytes k) = None" by (simp add: map_of_eq_None_iff)
    with False show ?thesis by simp
  qed
qed

section \<open>Update\<close>

lemma kv_upd_concat_kids:
  assumes "ordered cs" "\<And>b c x v. (b, c) \<in> set cs \<Longrightarrow> (x, v) \<in> set (f b c) \<Longrightarrow> take (length p + 1) x = p @ [b]"
    "take (length p + 1) y = p @ [d]"
    "f d c' = (case map_of cs d of None \<Rightarrow> [(y, w)] | Some c \<Rightarrow> kv_upd y w (f d c))"
  shows "kv_upd y w (concat (map (\<lambda>(b, c). f b c) cs) :: (byte list \<times> val) list) = concat (map (\<lambda>(b, c). f b c) (kv_upd d c' cs))"
  using assms
proof (induction cs)
  case (Cons e cs)
  obtain b c where e: "e = (b, c)" by (cases e)
  let ?R = "concat (map (\<lambda>(b, c). f b c) cs)"
  have less: "\<forall>x \<in> set (f b c). fst x < y" if "b < d"
    using path_less [of p _ b y d] Cons.prems(2,3) that e by force
  have greater: "\<forall>x \<in> set (f b' c2). y < fst x" if "d < b'" "(b', c2) \<in> set (e # cs)" for b' c2
    using path_less [of p y d _ b'] Cons.prems(2,3) that by force
  have above: "d < b'" if "d \<le> b" "(b', c2) \<in> set cs" for b' c2
    using Cons.prems(1) that e by force
  consider "b < d" | "b = d" | "d < b" by (rule linorder_cases)
  then show ?case
  proof cases
    case 1
    then have "map_of (e # cs) d = map_of cs d" using e by (simp add: less_imp_neq [symmetric])
    then have "kv_upd y w ?R = concat (map (\<lambda>(b, c). f b c) (kv_upd d c' cs))"
      using Cons by (intro Cons.IH) auto
    with 1 less show ?thesis
      unfolding kv_upd_Cons [OF Cons.prems(1)] by (simp add: e kv_upd_below)
  next
    case 2
    have "\<forall>x \<in> set ?R. y < fst x" using greater above 2 by fastforce
    then have "kv_upd y w (f b c @ ?R) = kv_upd y w (f b c) @ ?R" by (rule kv_upd_above)
    with 2 Cons.prems(4) show ?thesis unfolding kv_upd_Cons [OF Cons.prems(1)] by (simp add: e)
  next
    case 3
    have "y < fst x" if "x \<in> set (f b c @ ?R)" for x
    proof -
      from that e obtain b' c2 where m: "(b', c2) \<in> set (e # cs)" "x \<in> set (f b' c2)" by auto
      then have "d < b'" using above [of b' c2] 3 e by auto
      with m greater show ?thesis by blast
    qed
    then have "\<forall>x \<in> set (f b c @ ?R). y < fst x" by blast
    from kv_upd_above [OF this, of w "[]"] have u: "kv_upd y w (f b c @ ?R) = (y, w) # f b c @ ?R" by (simp add: kv_upd_Nil)
    have "d \<notin> fst ` set (e # cs)" using above 3 e by fastforce
    then have "map_of (e # cs) d = None" by (simp only: map_of_eq_None_iff) simp
    moreover have "b \<noteq> d" "\<not> b < d" using 3 by auto
    ultimately show ?thesis using u Cons.prems(4) unfolding kv_upd_Cons [OF Cons.prems(1)] by (simp add: e)
  qed
next
  case Nil
  then show ?case by (simp add: kv_upd_Nil)
qed

text \<open>
  An update: where the key leaves the path of a node or leaf after \<^term>\<open>l\<close> bytes, a new node forks.
  The parameter is what the fork does to the key stored in a leaf it moves down to a depth.
\<close>

definition tr_fork :: "nat \<Rightarrow> nat \<Rightarrow> byte \<Rightarrow> tr \<Rightarrow> key \<Rightarrow> val \<Rightarrow> tr" where
  "tr_fork n l b t k v = TNode (take l (drop n (key_bytes k))) (kv_upd (key_byte k (n + l)) (TLeaf k v) [(b, t)])"

fun tr_ins :: "(nat \<Rightarrow> key \<Rightarrow> key) \<Rightarrow> nat \<Rightarrow> key \<Rightarrow> val \<Rightarrow> tr \<Rightarrow> tr" where
  "tr_ins g n k v (TLeaf k' v') =
     (let q = drop n (key_bytes k'); l = lcp q (drop n (key_bytes k))
      in if l < length q then tr_fork n l (q ! l) (TLeaf (g (Suc (n + l)) k') v') k v else TLeaf k' v)"
| "tr_ins g n k v (TNode q cs) =
     (let l = lcp q (drop n (key_bytes k)); b = key_byte k (n + length q)
      in if l < length q then tr_fork n l (q ! l) (TNode (drop (Suc l) q) cs) k v
         else TNode q (kv_upd b (case map_of cs b of None \<Rightarrow> TLeaf k v
                                 | Some c \<Rightarrow> tr_ins g (Suc (n + length q)) k v c) cs))"

definition keeps_suffix :: "(nat \<Rightarrow> key \<Rightarrow> key) \<Rightarrow> bool" where
  "keeps_suffix g \<longleftrightarrow> (\<forall>i k. drop i (key_bytes (g i k)) = drop i (key_bytes k))"

lemma tr_fork_ok:
  assumes "length p + l < 8" "take (length p) (key_bytes k) = p" "b \<noteq> key_byte k (length p + l)"
    "tr_wf (Suc (length p + l)) t"
  shows "tr_wf (length p) (tr_fork (length p) l b t k v)"
    "tr_list p (tr_fork (length p) l b t k v) = kv_upd (key_bytes k) v (tr_list (p @ take l (drop (length p) (key_bytes k)) @ [b]) t)"
proof -
  let ?q = "take l (drop (length p) (key_bytes k))" and ?d = "key_byte k (length p + l)"
  have l: "length ?q = l" using assms(1) by simp
  have o: "ordered [(b, t)]" by simp
  have s: "set (kv_upd ?d (TLeaf k v) [(b, t)]) = {(?d, TLeaf k v), (b, t)}"
    using assms(3) kv_upd_Cons [OF o, of ?d "TLeaf k v"] by (auto simp: kv_upd_Nil)
  have "ordered (kv_upd ?d (TLeaf k v) [(b, t)])" by (rule ordered_kv_upd [OF o])
  then show "tr_wf (length p) (tr_fork (length p) l b t k v)"
    unfolding tr_fork_def tr_wf.simps s l using assms(1,4) by auto
  have d: "take (length (p @ ?q) + 1) (key_bytes k) = (p @ ?q) @ [?d]"
    using take_bytes_at [OF assms(1), of k] assms(1,2) by simp
  have leaf: "p @ ?q @ ?d # drop (length p + l + 1) (key_bytes k) = key_bytes k"
    using d append_take_drop_id [of "length (p @ ?q) + 1" "key_bytes k"] l by simp
  have path: "take (length (p @ ?q) + 1) x = (p @ ?q) @ [b']"
    if "(b', c) \<in> set [(b, t)]" "(x, u) \<in> set (tr_list (p @ ?q @ [b']) c)" for b' c x u
    using tr_list_path [of "p @ ?q @ [b']" c x u] that assms(4) l by auto
  have "kv_upd (key_bytes k) v (concat (map (\<lambda>(b, c). tr_list (p @ ?q @ [b]) c) [(b, t)])) =
      concat (map (\<lambda>(b, c). tr_list (p @ ?q @ [b]) c) (kv_upd ?d (TLeaf k v) [(b, t)]))"
    by (rule kv_upd_concat_kids [where p = "p @ ?q", OF o path d])
      (use assms(3) leaf l in \<open>auto simp: add.commute\<close>)
  then show "tr_list p (tr_fork (length p) l b t k v) = kv_upd (key_bytes k) v (tr_list (p @ ?q @ [b]) t)"
    by (simp add: tr_fork_def)
qed

lemma fork_here:
  assumes "length p + length q \<le> 8" "lcp q (drop (length p) (key_bytes k)) < length q"
  defines "l \<equiv> lcp q (drop (length p) (key_bytes k))"
  shows "length p + l < 8" "q ! l \<noteq> key_byte k (length p + l)" "p @ take l (drop (length p) (key_bytes k)) @ q ! l # drop (Suc l) q = p @ q"
proof -
  show l: "length p + l < 8" using assms by simp
  show "q ! l \<noteq> key_byte k (length p + l)"
    using lcp_neq [of q "drop (length p) (key_bytes k)"] assms l by (simp add: l_def)
  have "take l (drop (length p) (key_bytes k)) = take l q" unfolding l_def by (rule lcp_take [symmetric])
  then show "p @ take l (drop (length p) (key_bytes k)) @ q ! l # drop (Suc l) q = p @ q"
    using assms(2) by (simp add: l_def id_take_nth_drop [symmetric])
qed

lemma tr_ins_ok:
  assumes "keeps_suffix g"
  shows "tr_wf (length p) t \<Longrightarrow> take (length p) (key_bytes k) = p \<Longrightarrow>
    tr_wf (length p) (tr_ins g (length p) k v t) \<and> tr_list p (tr_ins g (length p) k v t) = kv_upd (key_bytes k) v (tr_list p t)"
proof (induction p t rule: tr_list.induct)
  case (1 p k' v')
  let ?q = "drop (length p) (key_bytes k')"
  let ?l = "lcp ?q (drop (length p) (key_bytes k))"
  have key: "p @ drop (length p) (key_bytes k) = key_bytes k"
    using append_take_drop_id [of "length p" "key_bytes k"] "1.prems"(2) by simp
  show ?case
  proof (cases "?l < length ?q")
    case True
    have "length p + length ?q \<le> 8" using "1.prems"(1) by simp
    note f = fork_here [OF this True]
    let ?t = "TLeaf (g (Suc (length p + ?l)) k') v'"
    have "tr_list (p @ take ?l (drop (length p) (key_bytes k)) @ [?q ! ?l]) ?t = [(p @ ?q, v')]"
    proof -
      have n: "length (p @ take ?l (drop (length p) (key_bytes k)) @ [?q ! ?l]) = Suc (length p + ?l)" using f(1) by simp
      have "drop (Suc (length p + ?l)) (key_bytes (g (Suc (length p + ?l)) k')) = drop (Suc ?l) ?q"
        using assms by (simp add: keeps_suffix_def add.commute)
      then show ?thesis unfolding tr_list.simps n using f(3) by simp
    qed
    with tr_fork_ok [OF f(1) "1.prems"(2) f(2), of ?t v] f(1) True show ?thesis by (simp add: Let_def)
  next
    case False
    then have "?l = length ?q" using lcp_le(1) [of ?q "drop (length p) (key_bytes k)"] by linarith
    then have "?q = drop (length p) (key_bytes k)" using lcp_full [of ?q "drop (length p) (key_bytes k)"] by simp
    with False "1.prems"(1) key show ?thesis by (simp add: Let_def kv_upd_def)
  qed
next
  case (2 p q cs)
  have wf: "length p + length q < 8" "ordered cs" using "2.prems"(1) by simp_all
  let ?l = "lcp q (drop (length p) (key_bytes k))" and ?d = "key_byte k (length p + length q)"
  show ?case
  proof (cases "?l < length q")
    case True
    have "length p + length q \<le> 8" using wf(1) by simp
    note f = fork_here [OF this True]
    have "tr_list (p @ take ?l (drop (length p) (key_bytes k)) @ [q ! ?l]) (TNode (drop (Suc ?l) q) cs) = tr_list p (TNode q cs)"
    proof -
      have "(p @ take ?l (drop (length p) (key_bytes k)) @ [q ! ?l]) @ drop (Suc ?l) q @ [b] = p @ q @ [b]" for b
        using f(3) by (metis append.assoc append_Cons append_Nil)
      then show ?thesis unfolding tr_list.simps by (simp only:)
    qed
    moreover have "tr_wf (Suc (length p + ?l)) (TNode (drop (Suc ?l) q) cs)"
    proof -
      have e: "Suc (length p + ?l) + length (drop (Suc ?l) q) = length p + length q" using True by simp
      show ?thesis using "2.prems"(1) unfolding tr_wf.simps e .
    qed
    ultimately show ?thesis
      using tr_fork_ok [OF f(1) "2.prems"(2) f(2), of "TNode (drop (Suc ?l) q) cs" v] True by (simp add: Let_def)
  next
    case False
    then have "?l = length q" using lcp_le(1) [of q "drop (length p) (key_bytes k)"] by linarith
    then have q: "take (length q) (drop (length p) (key_bytes k)) = q" by (rule lcp_full)
    have d: "take (length (p @ q) + 1) (key_bytes k) = (p @ q) @ [?d]"
      using take_bytes_at [OF wf(1), of k] q "2.prems"(2) by simp
    have path: "take (length (p @ q) + 1) x = (p @ q) @ [b]" if "(b, c) \<in> set cs" "(x, v) \<in> set (tr_list (p @ q @ [b]) c)" for b c x v
      using tr_list_path [of "p @ q @ [b]" c x v] "2.prems"(1) that by auto
    let ?c = "case map_of cs ?d of None \<Rightarrow> TLeaf k v | Some c \<Rightarrow> tr_ins g (Suc (length p + length q)) k v c"
    have leaf: "p @ q @ ?d # drop (Suc (length p + length q)) (key_bytes k) = key_bytes k"
      using d append_take_drop_id [of "length (p @ q) + 1" "key_bytes k"] by simp
    have sub: "tr_wf (Suc (length p + length q)) ?c \<and> tr_list (p @ q @ [?d]) ?c =
        (case map_of cs ?d of None \<Rightarrow> [(key_bytes k, v)] | Some c \<Rightarrow> kv_upd (key_bytes k) v (tr_list (p @ q @ [?d]) c))"
    proof (cases "map_of cs ?d")
      case None
      then show ?thesis using wf(1) leaf by (simp add: add.commute)
    next
      case (Some c)
      then have c: "(?d, c) \<in> set cs" by (rule map_of_SomeD)
      have "tr_wf (length (p @ q @ [?d])) c" using "2.prems"(1) c by auto
      moreover have "take (length (p @ q @ [?d])) (key_bytes k) = p @ q @ [?d]" using d by simp
      ultimately show ?thesis using "2.IH" [OF c refl] Some by simp
    qed
    have "kv_upd (key_bytes k) v (concat (map (\<lambda>(b, c). tr_list (p @ q @ [b]) c) cs)) =
        concat (map (\<lambda>(b, c). tr_list (p @ q @ [b]) c) (kv_upd ?d ?c cs))"
      by (rule kv_upd_concat_kids [where p = "p @ q" and f = "\<lambda>b c. tr_list (p @ q @ [b]) c", OF wf(2) path d conjunct2 [OF sub]])
    moreover have "tr_wf (length p) (TNode q (kv_upd ?d ?c cs))"
      using "2.prems"(1) sub ordered_kv_upd [OF wf(2)] by (auto simp: set_kv_upd [OF wf(2)])
    ultimately show ?thesis using False by (simp add: Let_def)
  qed
qed

section \<open>The map of keys\<close>

definition tr_map :: "tr \<Rightarrow> kv list" where
  "tr_map t = map (apfst bytes_key) (tr_list [] t)"

lemma tr_list_length: "tr_wf 0 t \<Longrightarrow> (x, v) \<in> set (tr_list [] t) \<Longrightarrow> length x = 8"
  using tr_list_path [of "[]"] by simp

lemma tr_map_ordered: "tr_wf 0 t \<Longrightarrow> ordered (tr_map t)"
proof -
  assume wf: "tr_wf 0 t"
  then have "sorted_wrt (\<lambda>x y. fst x < fst y) (tr_list [] t)" using tr_list_ordered [of "[]"] by (simp add: sorted_wrt_map)
  then have "sorted_wrt (\<lambda>x y. bytes_key (fst x) < bytes_key (fst y)) (tr_list [] t)"
    by (rule sorted_wrt_mono_rel [rotated]) (use tr_list_length [OF wf] bytes_key_less in force)
  then show "ordered (tr_map t)" by (simp add: tr_map_def sorted_wrt_map)
qed

lemma map_of_bytes_key:
  assumes "\<forall>x \<in> fst ` set xs. length x = 8"
  shows "map_of (map (apfst bytes_key) xs) k = map_of xs (key_bytes k)"
  using assms
proof (induction xs)
  case (Cons x xs)
  have "bytes_key (fst x) = k \<longleftrightarrow> fst x = key_bytes k" using Cons.prems key_bytes_key [of "fst x"] by auto
  with Cons show ?case by (cases x) auto
qed simp

lemma kv_upd_bytes_key:
  assumes "\<forall>x \<in> fst ` set xs. length x = 8"
  shows "map (apfst bytes_key) (kv_upd (key_bytes k) v xs) = kv_upd k v (map (apfst bytes_key) xs)"
proof -
  have less: "bytes_key (fst x) < k \<longleftrightarrow> fst x < key_bytes k" "bytes_key (fst x) \<le> k \<longleftrightarrow> fst x \<le> key_bytes k" if "x \<in> set xs" for x
    using bytes_key_less [of "fst x" "key_bytes k"] bytes_key_less [of "key_bytes k" "fst x"] assms that
    by (auto simp: not_less [symmetric])
  have "takeWhile (\<lambda>x. bytes_key (fst x) < k) xs = takeWhile (\<lambda>x. fst x < key_bytes k) xs"
    "dropWhile (\<lambda>x. bytes_key (fst x) \<le> k) xs = dropWhile (\<lambda>x. fst x \<le> key_bytes k) xs"
    using less by (auto intro: takeWhile_cong dropWhile_cong)
  then show ?thesis by (simp add: kv_upd_def takeWhile_map dropWhile_map comp_def)
qed

lemma tr_map_length: "tr_wf 0 t \<Longrightarrow> \<forall>x \<in> fst ` set (tr_list [] t). length x = 8"
  using tr_list_length by fastforce

lemma tr_map_find: "tr_wf 0 t \<Longrightarrow> tr_find 0 t k = map_of (tr_map t) k"
  using tr_find_map_of [of "[]" t k] map_of_bytes_key [OF tr_map_length] by (simp add: tr_map_def)

lemma tr_map_ins:
  "keeps_suffix g \<Longrightarrow> tr_wf 0 t \<Longrightarrow> tr_wf 0 (tr_ins g 0 k v t) \<and> tr_map (tr_ins g 0 k v t) = kv_upd k v (tr_map t)"
  using tr_ins_ok [of g "[]" t k v] kv_upd_bytes_key [OF tr_map_length] by (simp add: tr_map_def)

lemma tr_map_leaf [simp]: "tr_map (TLeaf k v) = [(k, v)]"
  by (simp add: tr_map_def)

end
