(* ===== verification/Art_Kids.thy ===== *)
theory Art_Kids
  imports Art_Bytes
begin

text \<open>
  What an internal node of the radix tree represents, whatever its type: a map from key bytes to
  children, as the ascending list of its bindings. A node has a shell (the bytes it has children
  for, and at which place of the array of children each is) before the children are copied into
  it; this is how the copy-on-write code leaves nodes between two stages.
\<close>

section \<open>Sorted lists\<close>

definition byte_idx :: "byte \<Rightarrow> byte list \<Rightarrow> nat" where
  "byte_idx b bs = length (takeWhile (\<lambda>x. x < b) bs)"

lemma byte_idx_le: "byte_idx b bs \<le> length bs"
  by (simp add: byte_idx_def length_takeWhile_le)

lemma byte_idx_nth:
  assumes "sorted_wrt (<) bs" "i < length bs"
  shows "byte_idx (bs ! i) bs = i"
  using assms
proof (induction bs arbitrary: i)
  case (Cons x bs)
  then show ?case by (cases i) (auto simp: byte_idx_def)
qed simp

lemma byte_idx_mem:
  assumes "sorted_wrt (<) bs" "b \<in> set bs"
  shows "byte_idx b bs < length bs" "bs ! byte_idx b bs = b"
  using assms byte_idx_nth by (metis in_set_conv_nth)+

lemma byte_idx_inj: "sorted_wrt (<) bs \<Longrightarrow> b \<in> set bs \<Longrightarrow> c \<in> set bs \<Longrightarrow> byte_idx b bs = byte_idx c bs \<Longrightarrow> b = c"
  by (metis byte_idx_mem(2))

lemma byte_idx_split:
  assumes "sorted_wrt (<) bs"
  shows "\<forall>x \<in> set (take (byte_idx b bs) bs). x < b" "\<forall>x \<in> set (drop (byte_idx b bs) bs). b \<le> x"
proof -
  show "\<forall>x \<in> set (take (byte_idx b bs) bs). x < b" by (auto simp: byte_idx_def dest: set_takeWhileD)
  show "\<forall>x \<in> set (drop (byte_idx b bs) bs). b \<le> x"
    using assms unfolding byte_idx_def by (induction bs) (auto split: if_splits)
qed

text \<open>An update of a byte that has no child yet, and of one that has.\<close>

lemma kv_upd_new:
  assumes "ordered cs" "b \<notin> fst ` set cs"
  shows "kv_upd b a cs = take (byte_idx b (map fst cs)) cs @ (b, a) # drop (byte_idx b (map fst cs)) cs"
  using assms
proof (induction cs)
  case (Cons c cs)
  then have IH: "kv_upd b a cs = take (byte_idx b (map fst cs)) cs @ (b, a) # drop (byte_idx b (map fst cs)) cs" by auto
  have "fst c \<noteq> b" using Cons.prems(2) by auto
  then show ?case
    unfolding kv_upd_Cons [OF Cons.prems(1)] IH by (auto simp: byte_idx_def)
qed (simp add: kv_upd_def byte_idx_def)

lemma kv_upd_old:
  assumes "ordered cs" "i < length cs" "fst (cs ! i) = b"
  shows "kv_upd b a cs = cs[i := (b, a)]"
  using assms
proof (induction cs arbitrary: i)
  case (Cons c cs)
  show ?case
  proof (cases i)
    case 0
    then show ?thesis unfolding kv_upd_Cons [OF Cons.prems(1)] using Cons.prems(3) by simp
  next
    case (Suc j)
    have "ordered cs" "\<forall>y \<in> set cs. fst c < fst y" using Cons.prems(1) by simp_all
    with Cons.prems Suc Cons.IH [of j] have "kv_upd b a cs = cs[j := (b, a)]" "fst c < b" by auto
    then show ?thesis unfolding kv_upd_Cons [OF Cons.prems(1)] using Suc by simp
  qed
qed simp

lemma map_fst_kv_upd_old:
  assumes "ordered cs" "b \<in> fst ` set cs"
  shows "map fst (kv_upd b a cs) = map fst cs"
proof -
  from assms(2) obtain i where i: "i < length cs" "fst (cs ! i) = b" by (auto simp: in_set_conv_nth)
  then have "map fst (cs[i := (b, a)]) = (map fst cs)[i := map fst cs ! i]" by (simp add: map_update)
  then show ?thesis unfolding kv_upd_old [OF assms(1) i] by simp
qed

section \<open>Shells\<close>

definition anode_ok :: "anode \<Rightarrow> bool" where
  "anode_ok n \<longleftrightarrow> length (an_keys n) = art_nkeys (an_type n) \<and> length (an_chs n) = art_nchs (an_type n)"

definition slots_ok :: "byte list \<Rightarrow> nat \<Rightarrow> byte list \<Rightarrow> bool" where
  "slots_ok slts sz bs \<longleftrightarrow> sz \<le> 48 \<and> (\<forall>b. slts ! unat b = 255 \<longleftrightarrow> b \<notin> set bs) \<and>
     (\<forall>b \<in> set bs. unat (slts ! unat b) < sz) \<and> inj_on (\<lambda>b. slts ! unat b) (set bs)"

definition art_shell :: "anode \<Rightarrow> byte list \<Rightarrow> bool" where
  "art_shell n bs \<longleftrightarrow> anode_ok n \<and> sorted_wrt (<) bs \<and>
     (case an_type n of
        AT_NODE4 \<Rightarrow> 2 \<le> length bs \<and> length bs \<le> 4 \<and> an_size n = length bs \<and> take (length bs) (an_keys n) = bs
      | AT_NODE16 \<Rightarrow> length bs \<le> 16 \<and> an_size n = length bs \<and> take (length bs) (an_keys n) = bs
      | AT_NODE48 \<Rightarrow> an_size n = length bs \<and> slots_ok (an_keys n) (an_size n) bs
      | AT_NODE256 \<Rightarrow> True
      | AT_LEAF \<Rightarrow> False)"

text \<open>Where the child of a byte is.\<close>

definition art_pos :: "anode \<Rightarrow> byte list \<Rightarrow> byte \<Rightarrow> nat" where
  "art_pos n bs b =
     (case an_type n of AT_NODE48 \<Rightarrow> unat (an_keys n ! unat b) | AT_NODE256 \<Rightarrow> unat b | _ \<Rightarrow> byte_idx b bs)"

definition art_kids :: "anode \<Rightarrow> (byte \<times> addr) list \<Rightarrow> bool" where
  "art_kids n cs \<longleftrightarrow> art_shell n (map fst cs) \<and> nullptr \<notin> snd ` set cs \<and>
     (\<forall>(b, a) \<in> set cs. an_chs n ! art_pos n (map fst cs) b = a) \<and>
     (an_type n = AT_NODE256 \<longrightarrow> (\<forall>b. b \<notin> fst ` set cs \<longrightarrow> an_chs n ! unat b = nullptr))"

lemma unat_byte_less [simp]: "unat (b :: byte) < 256"
  using unat_byte [of b] by simp

lemma art_pos_less:
  assumes "art_shell n bs" "b \<in> set bs \<or> an_type n = AT_NODE256"
  shows "art_pos n bs b < length (an_chs n)"
  using assms byte_idx_mem(1) [of bs b]
  by (auto simp: art_shell_def anode_ok_def art_pos_def slots_ok_def split: art_type.splits)

lemma art_pos_inj:
  assumes "art_shell n bs" "b \<in> set bs \<or> an_type n = AT_NODE256" "c \<in> set bs \<or> an_type n = AT_NODE256"
    "art_pos n bs b = art_pos n bs c"
  shows "b = c"
  using assms byte_idx_inj [of bs b c]
  by (auto simp: art_shell_def art_pos_def slots_ok_def dest: inj_onD dest!: word_unat_eq_iff [THEN iffD2] split: art_type.splits)

lemma art_kids_ordered: "art_kids n cs \<Longrightarrow> ordered cs"
  by (simp add: art_kids_def art_shell_def)

lemma art_pos_cong: "an_type y = an_type n \<Longrightarrow> an_keys y = an_keys n \<Longrightarrow> art_pos y bs = art_pos n bs"
  by (auto simp: art_pos_def fun_eq_iff split: art_type.splits)

lemma art_shell_cong:
  "art_shell n bs \<Longrightarrow> an_type y = an_type n \<Longrightarrow> an_keys y = an_keys n \<Longrightarrow> an_size y = an_size n \<Longrightarrow>
   length (an_chs y) = length (an_chs n) \<Longrightarrow> art_shell y bs"
  by (auto simp: art_shell_def anode_ok_def split: art_type.splits)

section \<open>Finding a child\<close>

lemma list_shell_nth:
  "art_shell n bs \<Longrightarrow> an_type n = AT_NODE4 \<or> an_type n = AT_NODE16 \<Longrightarrow> i < length bs \<Longrightarrow>
   an_keys n ! i = bs ! i \<and> i < length (an_keys n)"
  unfolding art_shell_def anode_ok_def by (auto split: art_type.splits) (metis nth_take)+

lemma node4_find_ok:
  assumes "art_shell n bs" "an_type n = AT_NODE4"
  shows "node4_find n b = Some (if b \<in> set bs then Some (byte_idx b bs) else None)"
proof -
  have s: "sorted_wrt (<) bs" "length (an_keys n) = 4" "an_size n = length bs" "2 \<le> length bs" "length bs \<le> 4"
    using assms by (simp_all add: art_shell_def anode_ok_def)
  note nth = list_shell_nth [OF assms(1) disjI1 [OF assms(2)]]
  have "length bs = 2 \<or> length bs = 3 \<or> length bs = 4" using s(4,5) by linarith
  then consider b0 b1 where "bs = [b0, b1]" | b0 b1 b2 where "bs = [b0, b1, b2]" | b0 b1 b2 b3 where "bs = [b0, b1, b2, b3]"
    by (auto simp: eval_nat_numeral length_Suc_conv)
  then show ?thesis
    using s nth [of 0] nth [of 1] nth [of 2] nth [of 3]
    by cases (auto simp: node4_find_def arr_get_def byte_idx_def)
qed

lemma filter_eq_upt: "filter (\<lambda>i. i = j) [0..<n] = (if j < n then [j] else [])"
  by (induction n) auto

lemma filter_eq_byte:
  assumes "sorted_wrt (<) bs" "\<And>i. i < length bs \<Longrightarrow> ks ! i = bs ! i" "length bs \<le> n"
  shows "filter (\<lambda>i. ks ! i = b \<and> i < length bs) [0..<n] = (if b \<in> set bs then [byte_idx b bs] else [])"
proof (cases "b \<in> set bs")
  case True
  note i = byte_idx_mem [OF assms(1) True]
  have "(\<lambda>i. ks ! i = b \<and> i < length bs) = (\<lambda>i. i = byte_idx b bs)"
    using i assms(2) byte_idx_nth [OF assms(1)] by (auto simp: fun_eq_iff)
  then have "filter (\<lambda>i. ks ! i = b \<and> i < length bs) [0..<n] = filter (\<lambda>i. i = byte_idx b bs) [0..<n]" by simp
  also have "\<dots> = [byte_idx b bs]" using filter_eq_upt [of "byte_idx b bs" n] i(1) assms(3) by simp
  finally show ?thesis using True by simp
next
  case False
  then show ?thesis using assms(2) by (auto simp: filter_empty_conv in_set_conv_nth)
qed

lemma node16_find_ok:
  assumes "art_shell n bs" "an_type n = AT_NODE16"
  shows "node16_find n b = Some (if b \<in> set bs then Some (byte_idx b bs) else None)"
proof -
  have s: "sorted_wrt (<) bs" "length (an_keys n) = 16" "an_size n = length bs" "length bs \<le> 16"
    using assms by (simp_all add: art_shell_def anode_ok_def)
  have "filter (\<lambda>i. an_keys n ! i = b \<and> i < length bs) [0..<16] = (if b \<in> set bs then [byte_idx b bs] else [])"
    by (rule filter_eq_byte [OF s(1) _ s(4)]) (use list_shell_nth [OF assms(1)] assms(2) in simp)
  then show ?thesis using s by (simp add: node16_find_def node16_bits_def)
qed

lemma find_idx_hit:
  assumes "art_shell n bs" "b \<in> set bs \<or> an_type n = AT_NODE256"
  obtains i where "art_find_idx n b = Some (Some i)" "art_getch n i = Some (art_pos n bs b)"
proof (cases "an_type n")
  case AT_NODE48
  then show thesis using assms
    by (intro that [of "unat b"])
      (auto simp: art_find_idx_def art_getch_def node48_find_def node48_getch_def arr_get_def art_pos_def art_shell_def
        anode_ok_def slots_ok_def)
next
  case AT_LEAF
  then show thesis using assms(1) by (simp add: art_shell_def)
qed (use assms node4_find_ok node16_find_ok in
  \<open>auto intro!: that simp: art_find_idx_def art_getch_def node4_getch_def node16_getch_def node256_find_def node256_getch_def art_pos_def\<close>)

lemma find_idx_miss:
  assumes "art_shell n bs" "b \<notin> set bs" "an_type n \<noteq> AT_NODE256"
  shows "art_find_idx n b = Some None"
  using assms node4_find_ok [of n bs b] node16_find_ok [of n bs b]
  by (cases "an_type n") (auto simp: art_find_idx_def node48_find_def arr_get_def art_shell_def anode_ok_def slots_ok_def)

lemma art_findch_ok:
  assumes "art_kids n cs"
  shows "art_findch n b = Some (case map_of cs b of None \<Rightarrow> nullptr | Some a \<Rightarrow> a)"
proof -
  let ?bs = "map fst cs"
  have s: "art_shell n ?bs" using assms by (simp add: art_kids_def)
  have hit: "b \<in> set ?bs \<longleftrightarrow> map_of cs b \<noteq> None" by (simp add: map_of_eq_None_iff)
  have val: "arr_get (an_chs n) (art_pos n ?bs b) = Some (case map_of cs b of None \<Rightarrow> nullptr | Some a \<Rightarrow> a)"
    if "b \<in> set ?bs \<or> an_type n = AT_NODE256"
  proof (cases "map_of cs b")
    case None
    then have "b \<notin> fst ` set cs" by (simp add: map_of_eq_None_iff)
    with that assms show ?thesis
      using art_pos_less [OF s that] None by (auto simp: arr_get_def art_kids_def art_pos_def)
  next
    case (Some a)
    then have "(b, a) \<in> set cs" by (rule map_of_SomeD)
    with assms Some show ?thesis using art_pos_less [OF s that] by (auto simp: arr_get_def art_kids_def)
  qed
  show ?thesis
  proof (cases "an_type n")
    case AT_NODE4
    with s hit val node4_find_ok [OF s] show ?thesis
      by (auto simp: art_findch_def node4_findch_def art_pos_def split: option.splits)
  next
    case AT_NODE16
    with s hit val node16_find_ok [OF s] show ?thesis
      by (auto simp: art_findch_def node16_findch_def art_pos_def split: option.splits)
  next
    case AT_NODE48
    with s have k: "length (an_keys n) = 256" "an_keys n ! unat b = 255 \<longleftrightarrow> b \<notin> set ?bs"
      by (auto simp: art_shell_def anode_ok_def slots_ok_def)
    with AT_NODE48 hit val show ?thesis
      by (auto simp: art_findch_def node48_findch_def art_pos_def arr_get_Some split: option.splits)
  next
    case AT_NODE256
    with val show ?thesis by (simp add: art_findch_def node256_findch_def art_pos_def)
  qed (use s in \<open>simp add: art_shell_def\<close>)
qed

section \<open>Replacing a child\<close>

lemma art_kids_set:
  assumes "art_kids n cs" "b \<in> fst ` set cs \<or> an_type n = AT_NODE256" "a \<noteq> nullptr"
  shows "art_kids (n\<lparr>an_chs := (an_chs n)[art_pos n (map fst cs) b := a]\<rparr>) (kv_upd b a cs)"
proof -
  let ?bs = "map fst cs" and ?n = "n\<lparr>an_chs := (an_chs n)[art_pos n (map fst cs) b := a]\<rparr>"
  let ?bs' = "map fst (kv_upd b a cs)"
  have s: "art_shell n ?bs" and o: "ordered cs" using assms(1) by (simp_all add: art_kids_def art_shell_def)
  have "art_shell ?n ?bs'"
  proof (cases "b \<in> fst ` set cs")
    case True
    then show ?thesis using art_shell_cong [OF s, of ?n] map_fst_kv_upd_old [OF o] by simp
  next
    case False
    with assms(2) show ?thesis using s ordered_kv_upd [OF o] by (simp add: art_shell_def anode_ok_def)
  qed
  moreover have pos: "art_pos ?n ?bs' = art_pos n ?bs"
    using map_fst_kv_upd_old [OF o, of b a] assms(2)
    by (cases "b \<in> fst ` set cs") (simp_all add: art_pos_def fun_eq_iff split: art_type.splits)
  moreover have less: "art_pos n ?bs b < length (an_chs n)" using art_pos_less [OF s] assms(2) by simp
  moreover have neq: "art_pos n ?bs c \<noteq> art_pos n ?bs b" if "c \<noteq> b" "c \<in> fst ` set cs \<or> an_type n = AT_NODE256" for c
    using art_pos_inj [OF s, of c b] that assms(2) by auto
  ultimately show ?thesis
    unfolding art_kids_def
  proof (intro conjI)
    show "nullptr \<notin> snd ` set (kv_upd b a cs)"
      using assms(1,3) by (auto simp: art_kids_def set_kv_upd [OF o])
    have "an_chs ?n ! art_pos n ?bs c = v" if "(c, v) \<in> set (kv_upd b a cs)" for c v
    proof (cases "c = b")
      case True
      then show ?thesis using that less by (auto simp: set_kv_upd [OF o])
    next
      case False
      then have "(c, v) \<in> set cs" using that by (auto simp: set_kv_upd [OF o])
      moreover from this have "c \<in> fst ` set cs" by force
      ultimately show ?thesis using assms(1) neq [OF False] by (auto simp: art_kids_def)
    qed
    then show "\<forall>(c, v) \<in> set (kv_upd b a cs). an_chs ?n ! art_pos ?n ?bs' c = v" unfolding pos by blast
    have "(an_chs n)[art_pos n ?bs b := a] ! unat c = nullptr" if "an_type n = AT_NODE256" "c \<notin> fst ` set (kv_upd b a cs)" for c
    proof -
      have c: "c \<noteq> b" "c \<notin> fst ` set cs" using that(2) by (auto simp: set_kv_upd [OF o])
      with neq [OF c(1)] that(1) have "art_pos n ?bs b \<noteq> unat c" by (simp add: art_pos_def)
      with c(2) that(1) assms(1) show ?thesis by (simp add: art_kids_def)
    qed
    then show "an_type ?n = AT_NODE256 \<longrightarrow> (\<forall>c. c \<notin> fst ` set (kv_upd b a cs) \<longrightarrow> an_chs ?n ! unat c = nullptr)" by simp
  qed
qed

end
