(* ===== verification/Art_Grow.thy ===== *)
theory Art_Grow
  imports Art_Kids
begin

text \<open>
  Adding a child to a node of the radix tree: the byte is appended to the shell, of the node
  itself, of a copy of it or of a node of the next larger type, and the child put in its place.
\<close>

section \<open>Where a byte goes\<close>

definition byte_ins :: "byte \<Rightarrow> byte list \<Rightarrow> byte list" where
  "byte_ins b bs = take (byte_idx b bs) bs @ b # drop (byte_idx b bs) bs"

lemma length_byte_ins [simp]: "length (byte_ins b bs) = Suc (length bs)"
  using byte_idx_le [of b bs] by (simp add: byte_ins_def)

lemma set_byte_ins [simp]: "set (byte_ins b bs) = insert b (set bs)"
  by (metis append_take_drop_id byte_ins_def insert_commute list.set(2) set_append Un_insert_right)

lemma sorted_byte_ins:
  assumes "sorted_wrt (<) bs" "b \<notin> set bs"
  shows "sorted_wrt (<) (byte_ins b bs)"
proof -
  note s = byte_idx_split [OF assms(1), of b]
  have "\<forall>x \<in> set (drop (byte_idx b bs) bs). b < x"
    using s(2) assms(2) by (metis in_set_dropD order_le_less)
  with s(1) assms(1) show ?thesis
    by (auto simp: byte_ins_def sorted_wrt_append sorted_wrt_take sorted_wrt_drop dest: less_trans)
qed

lemma byte_idx_ins:
  assumes "sorted_wrt (<) bs" "b \<notin> set bs"
  shows "byte_idx b (byte_ins b bs) = byte_idx b bs"
  using byte_idx_nth [OF sorted_byte_ins [OF assms], of "byte_idx b bs"] byte_idx_le [of b bs]
  by (simp add: byte_ins_def nth_append)

lemma map_fst_kv_upd_new: "ordered cs \<Longrightarrow> b \<notin> fst ` set cs \<Longrightarrow> map fst (kv_upd b a cs) = byte_ins b (map fst cs)"
  by (simp add: kv_upd_new byte_ins_def take_map drop_map)

lemma map_snd_kv_upd_new:
  "ordered cs \<Longrightarrow> b \<notin> fst ` set cs \<Longrightarrow>
   map snd (kv_upd b a cs) = take (byte_idx b (map fst cs)) (map snd cs) @ a # drop (byte_idx b (map fst cs)) (map snd cs)"
  by (simp add: kv_upd_new take_map drop_map)

text \<open>The number of bytes that are not above \<^term>\<open>b\<close>.\<close>

definition byte_gt :: "byte \<Rightarrow> byte list \<Rightarrow> nat" where
  "byte_gt b bs = length (takeWhile (\<lambda>x. x \<le> b) bs)"

lemma byte_gt_le: "byte_gt b bs \<le> length bs"
  by (simp add: byte_gt_def length_takeWhile_le)

lemma byte_gt_new: "b \<notin> set bs \<Longrightarrow> byte_gt b bs = byte_idx b bs"
  unfolding byte_gt_def byte_idx_def by (rule arg_cong [of _ _ length], rule takeWhile_cong) (auto simp: order_le_less)

lemma findgt_from_ok:
  assumes "an_size n = length bs" "\<And>i. i < length bs \<Longrightarrow> an_keys n ! i = bs ! i \<and> i < length (an_keys n)" "idx \<le> length bs"
  shows "node4_findgt_from n b idx = Some (idx + length (takeWhile (\<lambda>x. x \<le> b) (drop idx bs)))"
  using assms(3)
proof (induction "length bs - idx" arbitrary: idx)
  case 0
  then show ?case using assms(1) by (subst node4_findgt_from.simps) simp
next
  case (Suc k)
  then have i: "idx < length bs" by simp
  then have "drop idx bs = bs ! idx # drop (Suc idx) bs" by (simp add: Cons_nth_drop_Suc)
  with Suc.hyps(1) [of "Suc idx"] Suc.hyps(2) i assms(1,2) show ?case
    by (subst node4_findgt_from.simps) (simp add: arr_get_def)
qed

lemma node4_findgt_ok: "art_shell n bs \<Longrightarrow> an_type n = AT_NODE4 \<Longrightarrow> node4_findgt n b = Some (byte_gt b bs)"
  using findgt_from_ok [of n bs 0 b] list_shell_nth [of n bs]
  by (simp add: node4_findgt_def byte_gt_def art_shell_def)

lemma filter_upt_hd:
  assumes "\<And>i. i < j \<Longrightarrow> \<not> P i" "j < n" "P j"
  shows "filter P [0..<n] \<noteq> [] \<and> hd (filter P [0..<n]) = j"
proof -
  have "[0..<n] = [0..<j] @ [j..<n]" using upt_add_eq_append [of 0 j "n - j"] assms(2) by simp
  then have "[0..<n] = [0..<j] @ j # [Suc j..<n]" unfolding upt_conv_Cons [OF assms(2)] .
  moreover have "filter P [0..<j] = []" using assms(1) by (simp add: filter_empty_conv)
  ultimately show ?thesis using assms(3) by simp
qed

lemma node16_findgt_ok:
  assumes "art_shell n bs" "an_type n = AT_NODE16"
  shows "node16_findgt n b = Some (byte_gt b bs)"
proof -
  have s: "sorted_wrt (<) bs" "length (an_keys n) = 16" "an_size n = length bs" "length bs \<le> 16"
    using assms by (simp_all add: art_shell_def anode_ok_def)
  have nth: "an_keys n ! i = bs ! i" if "i < length bs" for i using list_shell_nth [OF assms(1) _ that] assms(2) by simp
  let ?P = "\<lambda>i. b < an_keys n ! i \<and> i < length bs" and ?g = "byte_gt b bs"
  have below: "\<not> ?P i" if "i < ?g" for i
  proof -
    have "bs ! i \<le> b" using that set_takeWhileD [of "bs ! i" "\<lambda>x. x \<le> b" bs] takeWhile_nth [of i "\<lambda>x. x \<le> b" bs]
      by (metis byte_gt_def nth_mem)
    then show ?thesis using nth [of i] that byte_gt_le [of b bs] by auto
  qed
  show ?thesis
  proof (cases "?g < length bs")
    case True
    then have "\<not> bs ! ?g \<le> b" unfolding byte_gt_def by (rule nth_length_takeWhile)
    then have "?P ?g" using True nth by (simp add: not_le)
    from filter_upt_hd [of ?g ?P 16, OF below _ this] True s show ?thesis
      by (simp add: node16_findgt_def node16_bits_def)
  next
    case False
    then have "?g = length bs" using byte_gt_le [of b bs] by simp
    then have "filter ?P [0..<16] = []" using below by (auto simp: filter_empty_conv)
    with s \<open>?g = length bs\<close> show ?thesis by (simp add: node16_findgt_def node16_bits_def)
  qed
qed

section \<open>Appending a byte\<close>

lemma slots_append:
  assumes "slots_ok slts (length bs) bs" "b \<notin> set bs" "length bs < 48" "length slts = 256" "sorted_wrt (<) bs"
  shows "slots_ok (slts[unat b := of_nat (length bs)]) (Suc (length bs)) (byte_ins b bs)"
proof -
  let ?s = "slts[unat b := of_nat (length bs)]"
  have l: "unat (of_nat (length bs) :: byte) = length bs" "(of_nat (length bs) :: byte) \<noteq> 255"
  proof -
    show "unat (of_nat (length bs) :: byte) = length bs" using assms(3) by (simp add: unat_of_nat)
    then show "(of_nat (length bs) :: byte) \<noteq> 255" using assms(3) by auto
  qed
  have old: "?s ! unat c = slts ! unat c" if "c \<noteq> b" for c
    using that by (simp add: nth_list_update_neq word_unat_eq_iff)
  have new: "?s ! unat b = of_nat (length bs)" using assms(4) by simp
  have "inj_on (\<lambda>c. ?s ! unat c) (set (byte_ins b bs))"
  proof (rule inj_onI)
    fix c d
    assume "c \<in> set (byte_ins b bs)" "d \<in> set (byte_ins b bs)" "?s ! unat c = ?s ! unat d"
    moreover have "slts ! unat c \<noteq> of_nat (length bs)" if "c \<in> set bs" for c
      using assms(1) that l(1) by (metis less_irrefl slots_ok_def)
    ultimately show "c = d"
      using assms(1) old new inj_onD [of "\<lambda>b. slts ! unat b" "set bs" c d]
      by (cases "c = b"; cases "d = b") (auto simp: slots_ok_def)
  qed
  moreover have "?s ! unat c = 255 \<longleftrightarrow> c \<notin> set (byte_ins b bs)" for c
    using assms(1) old [of c] new l(2) by (cases "c = b") (auto simp: slots_ok_def)
  moreover have "unat (?s ! unat c) < Suc (length bs)" if "c \<in> set (byte_ins b bs)" for c
    using that assms(1) old [of c] new l(1) by (cases "c = b") (auto simp: slots_ok_def less_Suc_eq)
  ultimately show ?thesis using assms(3) by (simp add: slots_ok_def)
qed

lemma append_ok:
  assumes "art_shell n bs" "b \<notin> set bs" "\<not> art_is_full n"
  obtains n' i where "art_append n b = Some (n', i)" "art_shell n' (byte_ins b bs)"
    "art_getch n' i = Some (art_pos n' (byte_ins b bs) b)" "an_type n' = an_type n" "an_chs n' = an_chs n"
    "an_ofs n' = an_ofs n" "an_len n' = an_len n" "an_pfx n' = an_pfx n" "an_ver n' = an_ver n"
    "an_type n = AT_NODE4 \<or> an_type n = AT_NODE16 \<longrightarrow> i = byte_idx b bs"
    "an_type n = AT_NODE48 \<longrightarrow> i = unat b \<and> an_keys n' ! unat b = of_nat (length bs) \<and>
       (\<forall>c \<in> set bs. an_keys n' ! unat c = an_keys n ! unat c)"
proof -
  have s: "sorted_wrt (<) bs" "anode_ok n" using assms(1) by (simp_all add: art_shell_def)
  note srt = sorted_byte_ins [OF s(1) assms(2)] byte_idx_ins [OF s(1) assms(2)]
  have idx: "byte_idx b bs \<le> length bs" by (rule byte_idx_le)
  have ins: "take (Suc (length bs)) ks' = byte_ins b bs" "length ks' = length ks"
    if "arr_insert ks (length bs) (byte_idx b bs) b = Some ks'" "take (length bs) ks = bs" for ks ks'
    using arr_insert_used [OF that(1)] arr_insert_length [OF that(1)] that(2) by (simp_all add: byte_ins_def)
  show thesis
  proof (cases "an_type n")
    case AT_NODE4
    with assms s have l: "an_size n = length bs" "length bs < 4" "length (an_keys n) = 4" "take (length bs) (an_keys n) = bs" "2 \<le> length bs"
      by (auto simp: art_shell_def anode_ok_def art_is_full_def)
    then obtain ks where ks: "arr_insert (an_keys n) (length bs) (byte_idx b bs) b = Some ks" using idx by (simp add: arr_insert_def)
    note k = ins [OF ks l(4)]
    show thesis
      by (rule that [of "n\<lparr>an_keys := ks, an_size := an_size n + 1\<rparr>" "byte_idx b bs"])
        (use AT_NODE4 l k ks s srt node4_findgt_ok [OF assms(1)] byte_gt_new [OF assms(2)] in
          \<open>simp_all add: art_append_def node4_append_def art_shell_def anode_ok_def art_getch_def node4_getch_def art_pos_def\<close>)
  next
    case AT_NODE16
    with assms s have l: "an_size n = length bs" "length bs < 16" "length (an_keys n) = 16" "take (length bs) (an_keys n) = bs"
      by (auto simp: art_shell_def anode_ok_def art_is_full_def)
    then obtain ks where ks: "arr_insert (an_keys n) (length bs) (byte_idx b bs) b = Some ks" using idx by (simp add: arr_insert_def)
    note k = ins [OF ks l(4)]
    show thesis
      by (rule that [of "n\<lparr>an_keys := ks, an_size := an_size n + 1\<rparr>" "byte_idx b bs"])
        (use AT_NODE16 l k ks s srt node16_findgt_ok [OF assms(1)] byte_gt_new [OF assms(2)] in
          \<open>simp_all add: art_append_def node16_append_def art_shell_def anode_ok_def art_getch_def node16_getch_def art_pos_def\<close>)
  next
    case AT_NODE48
    with assms s have l: "an_size n = length bs" "length bs < 48" "length (an_keys n) = 256" "slots_ok (an_keys n) (length bs) bs"
      by (auto simp: art_shell_def anode_ok_def art_is_full_def slots_ok_def)
    have old: "(an_keys n)[unat b := x] ! unat c = an_keys n ! unat c" if "c \<in> set bs" for c x
    proof -
      have "unat b \<noteq> unat c" using that assms(2) by (auto dest: word_unat_eq_iff [THEN iffD2])
      then show ?thesis by simp
    qed
    show thesis
      by (intro that [of "n\<lparr>an_keys := (an_keys n)[unat b := of_nat (length bs)], an_size := an_size n + 1\<rparr>" "unat b"])
        (use AT_NODE48 l s srt slots_append [OF l(4) assms(2) l(2,3) s(1)] in
          \<open>simp_all add: art_append_def node48_append_def arr_set_def art_shell_def anode_ok_def art_getch_def node48_getch_def
            arr_get_def art_pos_def old\<close>)
  next
    case AT_NODE256
    then show thesis
      by (intro that [of n "unat b"])
        (use AT_NODE256 s srt in \<open>simp_all add: art_append_def node256_append_def art_shell_def art_getch_def node256_getch_def art_pos_def\<close>)
  qed (use assms in \<open>simp add: art_shell_def\<close>)
qed

end
