(* ===== verification/Art_Copy.thy ===== *)
theory Art_Copy
  imports Art_Grow
begin

text \<open>
  Copying the children of a node into a shell: of the same type, of the same type with one more
  byte, or of the next larger type with one more byte.
\<close>

section \<open>Children from positions\<close>

lemma art_pos_size:
  assumes "art_shell n bs" "b \<in> set bs" "an_type n \<noteq> AT_NODE256"
  shows "art_pos n bs b < an_size n" "an_size n \<le> length (an_chs n)"
  using assms byte_idx_mem(1) [of bs b]
  by (auto simp: art_shell_def art_pos_def slots_ok_def anode_ok_def split: art_type.splits)

lemma art_kidsI:
  assumes "art_shell n (map fst cs)" "nullptr \<notin> snd ` set cs"
    "\<And>c v. (c, v) \<in> set cs \<Longrightarrow> an_chs n ! art_pos n (map fst cs) c = v"
    "\<And>c. an_type n = AT_NODE256 \<Longrightarrow> c \<notin> fst ` set cs \<Longrightarrow> an_chs n ! unat c = nullptr"
  shows "art_kids n cs"
  using assms by (auto simp: art_kids_def)

lemma art_kidsD: "art_kids n cs \<Longrightarrow> (c, v) \<in> set cs \<Longrightarrow> an_chs n ! art_pos n (map fst cs) c = v"
  by (auto simp: art_kids_def)

text \<open>In the two small types the children stand in the order of their bytes.\<close>

abbreviation art_small :: "anode \<Rightarrow> bool" where
  "art_small n \<equiv> an_type n = AT_NODE4 \<or> an_type n = AT_NODE16"

lemma kids_smallI:
  assumes "art_shell n (map fst cs)" "art_small n" "nullptr \<notin> snd ` set cs" "take (length cs) (an_chs n) = map snd cs"
  shows "art_kids n cs"
proof (rule art_kidsI [OF assms(1,3)])
  fix c v
  assume "(c, v) \<in> set cs"
  then obtain i where i: "i < length cs" "cs ! i = (c, v)" by (auto simp: in_set_conv_nth)
  have "art_pos n (map fst cs) c = i"
    using byte_idx_nth [of "map fst cs" i] i assms(1,2) by (auto simp: art_pos_def art_shell_def)
  moreover have "an_chs n ! i = snd (cs ! i)" using assms(4) i(1) by (metis nth_map nth_take)
  ultimately show "an_chs n ! art_pos n (map fst cs) c = v" using i(2) by simp
qed (use assms(2) in auto)

lemma kids_smallD:
  assumes "art_kids n cs" "art_small n"
  shows "take (length cs) (an_chs n) = map snd cs" "an_size n = length cs"
proof -
  have s: "art_shell n (map fst cs)" using assms(1) by (simp add: art_kids_def)
  with assms(2) have l: "length cs \<le> length (an_chs n)" "an_size n = length cs"
    by (auto simp: art_shell_def anode_ok_def)
  show "take (length cs) (an_chs n) = map snd cs"
  proof (rule nth_equalityI)
    fix i assume "i < length (take (length cs) (an_chs n))"
    then have i: "i < length cs" by simp
    then have "(fst (cs ! i), snd (cs ! i)) \<in> set cs" by simp
    from art_kidsD [OF assms(1) this] byte_idx_nth [of "map fst cs" i] i s assms(2)
    show "take (length cs) (an_chs n) ! i = map snd cs ! i" by (auto simp: art_pos_def art_shell_def)
  qed (use l in simp)
  show "an_size n = length cs" by (rule l(2))
qed

lemma kids_size: "art_kids n cs \<Longrightarrow> an_type n \<noteq> AT_NODE256 \<Longrightarrow> an_size n = length cs"
  by (auto simp: art_kids_def art_shell_def split: art_type.splits)

section \<open>Copying into a shell of the same type\<close>

lemma art_copych_ok:
  assumes "art_kids x cs" "art_shell y (map fst cs)" "an_type y = an_type x" "an_keys y = an_keys x"
  obtains chs where "art_copych y x = Some (y\<lparr>an_chs := chs\<rparr>)" "art_kids (y\<lparr>an_chs := chs\<rparr>) cs"
proof -
  define k where "k = (if an_type x = AT_NODE256 then 256 else an_size x)"
  let ?chs = "take k (an_chs x) @ drop k (an_chs y)"
  have s: "art_shell x (map fst cs)" using assms(1) by (simp add: art_kids_def)
  have ok: "anode_ok x" "anode_ok y" using s assms(2) by (simp_all add: art_shell_def)
  have k: "k \<le> length (an_chs x)" "length (an_chs y) = length (an_chs x)"
    using s ok assms(3) by (auto simp: k_def art_shell_def anode_ok_def slots_ok_def split: art_type.splits)
  have c: "art_copych y x = Some (y\<lparr>an_chs := ?chs\<rparr>)"
    using s assms(3) k
    by (cases "an_type x") (simp_all add: art_copych_def node4_copych_def node16_copych_def node48_copych_def node256_copych_def
        arr_copy_def k_def art_shell_def)
  have sh: "art_shell (y\<lparr>an_chs := ?chs\<rparr>) (map fst cs)" by (rule art_shell_cong [OF assms(2)]) (use k in simp_all)
  have pos: "art_pos (y\<lparr>an_chs := ?chs\<rparr>) = art_pos x" using assms(3,4) by (auto simp: fun_eq_iff art_pos_def split: art_type.splits)
  have nth: "?chs ! p = an_chs x ! p" if "p < k" for p using that k(1) by (simp add: nth_append)
  show thesis
  proof (rule that [OF c art_kidsI [OF sh]])
    show "nullptr \<notin> snd ` set cs" using assms(1) by (simp add: art_kids_def)
  next
    fix b v
    assume v: "(b, v) \<in> set cs"
    then have "b \<in> set (map fst cs)" by force
    then have "art_pos x (map fst cs) b < k"
      using art_pos_size [OF s] by (cases "an_type x = AT_NODE256") (simp_all add: k_def art_pos_def)
    then show "an_chs (y\<lparr>an_chs := ?chs\<rparr>) ! art_pos (y\<lparr>an_chs := ?chs\<rparr>) (map fst cs) b = v"
      unfolding pos using nth art_kidsD [OF assms(1) v] by simp
  next
    fix b
    assume b: "an_type (y\<lparr>an_chs := ?chs\<rparr>) = AT_NODE256" "b \<notin> fst ` set cs"
    then have "k = 256" using assms(3) by (simp add: k_def)
    then have "?chs ! unat b = an_chs x ! unat b" by (intro nth) simp
    also have "\<dots> = nullptr" using b assms(1,3) by (simp add: art_kids_def)
    finally show "an_chs (y\<lparr>an_chs := ?chs\<rparr>) ! unat b = nullptr" by simp
  qed
qed

section \<open>The loops over slots\<close>

lemma fill_slots_ok:
  assumes "length keys = 16" "distinct keys" "length slts = 256"
  obtains slts' where "node16_fill_slots keys idx slts = Some slts'" "length slts' = 256"
    "\<And>i. idx \<le> i \<Longrightarrow> i < 16 \<Longrightarrow> slts' ! unat (keys ! i) = of_nat i"
    "\<And>b. b \<notin> set (drop idx keys) \<Longrightarrow> slts' ! unat b = slts ! unat b"
  using assms(3)
proof (induction "16 - idx" arbitrary: idx slts thesis)
  case 0
  then show ?case by (intro "0.prems"(1) [of slts]) (subst node16_fill_slots.simps, simp_all)
next
  case (Suc k)
  then have i: "idx < 16" by simp
  let ?s = "slts[unat (keys ! idx) := of_nat idx]"
  have d: "drop idx keys = keys ! idx # drop (Suc idx) keys" using i assms(1) by (simp add: Cons_nth_drop_Suc)
  obtain s' where s': "node16_fill_slots keys (Suc idx) ?s = Some s'" "length s' = 256"
    "\<And>i. Suc idx \<le> i \<Longrightarrow> i < 16 \<Longrightarrow> s' ! unat (keys ! i) = of_nat i"
    "\<And>b. b \<notin> set (drop (Suc idx) keys) \<Longrightarrow> s' ! unat b = ?s ! unat b"
    by (rule Suc.hyps(1) [of "Suc idx" ?s]) (use Suc in simp_all)
  have "keys ! idx \<notin> set (drop (Suc idx) keys)" using assms(2) d by (metis distinct.simps(2) distinct_drop)
  from s'(4) [OF this] Suc.prems(2) have at: "s' ! unat (keys ! idx) = of_nat idx" by simp
  show ?case
  proof (rule Suc.prems(1) [of s'])
    show "node16_fill_slots keys idx slts = Some s'"
      using i s'(1) assms(1) Suc.prems(2) by (subst node16_fill_slots.simps) (simp add: arr_get_def arr_set_def)
    show "s' ! unat (keys ! j) = of_nat j" if "idx \<le> j" "j < 16" for j
      using that at s'(3) [of j] by (cases "j = idx") simp_all
    show "s' ! unat b = slts ! unat b" if "b \<notin> set (drop idx keys)" for b
    proof -
      have "unat (keys ! idx) \<noteq> unat b" using that d by (auto dest: word_unat_eq_iff [THEN iffD2])
      then show ?thesis using that d s'(4) [of b] by simp
    qed
  qed (rule s'(2))
qed

lemma fill_slots_shell:
  assumes "length bs = 16" "sorted_wrt (<) bs"
  obtains slts where "node16_fill_slots bs 0 (replicate 256 255) = Some slts" "length slts = 256" "slots_ok slts 16 bs"
    "\<And>i. i < 16 \<Longrightarrow> slts ! unat (bs ! i) = of_nat i"
proof -
  have d: "distinct bs" using assms(2) by (simp add: strict_sorted_iff)
  obtain s where s: "node16_fill_slots bs 0 (replicate 256 255) = Some s" "length s = 256"
    "\<And>i. 0 \<le> i \<Longrightarrow> i < 16 \<Longrightarrow> s ! unat (bs ! i) = of_nat i"
    "\<And>b. b \<notin> set (drop 0 bs) \<Longrightarrow> s ! unat b = replicate 256 255 ! unat b"
    by (rule fill_slots_ok [OF assms(1) d, of "replicate 256 255" 0]) simp_all
  have u: "unat (of_nat i :: byte) = i" "(of_nat i :: byte) \<noteq> 255" if "i < 16" for i
  proof -
    show "unat (of_nat i :: byte) = i" using that by (simp add: unat_of_nat)
    then show "(of_nat i :: byte) \<noteq> 255" using that by auto
  qed
  have mem: "\<exists>i < 16. c = bs ! i \<and> s ! unat c = of_nat i" if "c \<in> set bs" for c
    using that s(3) assms(1) by (auto simp: in_set_conv_nth)
  have "slots_ok s 16 bs"
    unfolding slots_ok_def
  proof (intro conjI allI ballI inj_onI)
    show "s ! unat b = 255 \<longleftrightarrow> b \<notin> set bs" for b
      using mem [of b] u(2) s(4) [of b] by (cases "b \<in> set bs") auto
    show "unat (s ! unat b) < 16" if "b \<in> set bs" for b using mem [OF that] u(1) by auto
    show "b = c" if bc: "b \<in> set bs" "c \<in> set bs" "s ! unat b = s ! unat c" for b c
      using mem [OF bc(1)] mem [OF bc(2)] bc(3) u(1) by (metis)
  qed simp
  with s(1-3) show thesis by (intro that) simp_all
qed

lemma spread_ok:
  assumes "length (an_keys x) = 256" "length chs = 256" "\<And>p. p < 256 \<Longrightarrow> an_keys x ! p \<noteq> 255 \<Longrightarrow> unat (an_keys x ! p) < length (an_chs x)"
  obtains chs' where "node48_spread x k chs = Some chs'" "length chs' = 256"
    "\<And>p. p < 256 \<Longrightarrow> chs' ! p = (if k \<le> p \<and> an_keys x ! p \<noteq> 255 then an_chs x ! unat (an_keys x ! p) else chs ! p)"
  using assms(2)
proof (induction "256 - k" arbitrary: k chs thesis)
  case 0
  then show ?case by (intro "0.prems"(1) [of chs]) (subst node48_spread.simps, simp_all)
next
  case (Suc m)
  then have k: "k < 256" by simp
  let ?c = "if an_keys x ! k \<noteq> 255 then chs[k := an_chs x ! unat (an_keys x ! k)] else chs"
  obtain c' where c': "node48_spread x (Suc k) ?c = Some c'" "length c' = 256"
    "\<And>p. p < 256 \<Longrightarrow> c' ! p = (if Suc k \<le> p \<and> an_keys x ! p \<noteq> 255 then an_chs x ! unat (an_keys x ! p) else ?c ! p)"
    by (rule Suc.hyps(1) [of "Suc k" ?c]) (use Suc in simp_all)
  show ?case
  proof (rule Suc.prems(1) [of c'])
    show "node48_spread x k chs = Some c'"
      using k c'(1) assms(1,3) Suc.prems(2) by (subst node48_spread.simps) (auto simp: arr_get_def arr_set_def split: if_splits)
    show "c' ! p = (if k \<le> p \<and> an_keys x ! p \<noteq> 255 then an_chs x ! unat (an_keys x ! p) else chs ! p)" if "p < 256" for p
      using c'(3) [OF that] that Suc.prems(2) by (cases "p = k") auto
  qed (rule c'(2))
qed

section \<open>Copying into a shell with one more byte\<close>

text \<open>A shell for the children of \<^term>\<open>x\<close> that has room for one more.\<close>

definition art_room :: "anode \<Rightarrow> anode \<Rightarrow> byte list \<Rightarrow> bool" where
  "art_room x y bs \<longleftrightarrow> art_shell y bs \<and>
     (if art_is_full x
      then (case an_type x of
              AT_NODE4 \<Rightarrow> an_type y = AT_NODE16
            | AT_NODE16 \<Rightarrow> an_type y = AT_NODE48 \<and> (\<forall>i < 16. an_keys y ! unat (bs ! i) = of_nat i)
            | AT_NODE48 \<Rightarrow> an_type y = AT_NODE256 \<and> an_chs y = replicate 256 nullptr
            | _ \<Rightarrow> False)
      else an_type y = an_type x \<and> an_keys y = an_keys x)"

lemma art_room_not_full:
  assumes "art_shell x bs" "art_room x y bs"
  shows "\<not> art_is_full y"
  using assms by (auto simp: art_room_def art_shell_def art_is_full_def split: art_type.splits if_splits)

lemma grow_small:
  assumes "art_kids x cs" "b \<notin> fst ` set cs" "a \<noteq> nullptr" "art_small x" "art_small y" "art_shell y (byte_ins b (map fst cs))"
  obtains chs where "arr_copy_insert (an_chs y) (an_chs x) (an_size x) (byte_idx b (map fst cs)) nullptr = Some chs"
    "length chs = length (an_chs y)" "byte_idx b (map fst cs) < length chs"
    "art_kids (y\<lparr>an_chs := chs[byte_idx b (map fst cs) := a]\<rparr>) (kv_upd b a cs)"
proof -
  let ?i = "byte_idx b (map fst cs)" and ?n = "length cs"
  note o = art_kids_ordered [OF assms(1)]
  note sm = kids_smallD [OF assms(1,4)]
  have i: "?i \<le> ?n" using byte_idx_le [of b "map fst cs"] by simp
  have l: "?n < length (an_chs y)" "?n \<le> length (an_chs x)"
    using assms(4-6) sm assms(1) by (auto simp: art_shell_def anode_ok_def art_kids_def)
  let ?c = "\<lambda>v. take ?i (an_chs x) @ v # take (?n - ?i) (drop ?i (an_chs x)) @ drop (?n + 1) (an_chs y)"
  have len: "length (?c v) = length (an_chs y)" for v using i l by simp
  have upd: "(?c nullptr)[?i := a] = ?c a" using i l by (simp add: list_update_append)
  have "art_kids (y\<lparr>an_chs := ?c a\<rparr>) (kv_upd b a cs)"
  proof (rule kids_smallI)
    show "art_shell (y\<lparr>an_chs := ?c a\<rparr>) (map fst (kv_upd b a cs))"
      unfolding map_fst_kv_upd_new [OF o assms(2)] by (rule art_shell_cong [OF assms(6)]) (use len in simp_all)
    show "nullptr \<notin> snd ` set (kv_upd b a cs)"
      using assms(1,3) by (auto simp: art_kids_def set_kv_upd [OF o])
    have "length (kv_upd b a cs) = Suc ?n" using kv_upd_new [OF o assms(2), of a] i by simp
    then show "take (length (kv_upd b a cs)) (an_chs (y\<lparr>an_chs := ?c a\<rparr>)) = map snd (kv_upd b a cs)"
      unfolding map_snd_kv_upd_new [OF o assms(2)]
      using take_insert_used [OF i l(2), of a "drop (?n + 1) (an_chs y)"] sm(1) by simp
  qed (use assms(5) in simp)
  then show thesis
    by (intro that [of "?c nullptr"]) (use i l len sm(2) upd in \<open>simp_all add: arr_copy_insert_def\<close>)
qed

text \<open>Into a node with slots, the new child has the next free one.\<close>

lemma grow_slots:
  assumes "art_kids x cs" "b \<notin> fst ` set cs" "a \<noteq> nullptr" "an_type y = AT_NODE48" "art_shell y (byte_ins b (map fst cs))"
    "an_keys y ! unat b = of_nat (length cs)" "an_type x = AT_NODE16 \<or> an_type x = AT_NODE48"
    "\<And>c. c \<in> fst ` set cs \<Longrightarrow> unat (an_keys y ! unat c) = art_pos x (map fst cs) c"
  obtains chs where "arr_copy (an_chs y) (an_chs x) (an_size x) = Some chs" "length chs = 48" "length cs < 48"
    "unat (an_keys y ! unat b) = length cs" "art_kids (y\<lparr>an_chs := chs[length cs := a]\<rparr>) (kv_upd b a cs)"
proof -
  note o = art_kids_ordered [OF assms(1)]
  have s: "art_shell x (map fst cs)" using assms(1) by (simp add: art_kids_def)
  let ?n = "length cs"
  have n: "an_size x = ?n" "?n \<le> length (an_chs x)"
    using kids_size [OF assms(1)] s assms(7) by (auto simp: art_shell_def anode_ok_def slots_ok_def)
  have y: "length (an_chs y) = 48" "?n < 48" using assms(4,5) by (auto simp: art_shell_def anode_ok_def slots_ok_def)
  have slot: "unat (an_keys y ! unat b) = ?n" using assms(6) y(2) by (simp add: unat_of_nat)
  let ?c = "take ?n (an_chs x) @ drop ?n (an_chs y)"
  have len: "length (?c[?n := a]) = 48" using n y by simp
  have at: "?c[?n := a] ! ?n = a" using n(2) y by simp
  have below: "?c[?n := a] ! p = an_chs x ! p" if "p < ?n" for p using that n(2) by (simp add: nth_append)
  have "art_kids (y\<lparr>an_chs := ?c[?n := a]\<rparr>) (kv_upd b a cs)"
  proof (rule art_kidsI)
    show "art_shell (y\<lparr>an_chs := ?c[?n := a]\<rparr>) (map fst (kv_upd b a cs))"
      unfolding map_fst_kv_upd_new [OF o assms(2)] by (rule art_shell_cong [OF assms(5)]) (use len y in simp_all)
    show "nullptr \<notin> snd ` set (kv_upd b a cs)" using assms(1,3) by (auto simp: art_kids_def set_kv_upd [OF o])
    fix c v
    assume "(c, v) \<in> set (kv_upd b a cs)"
    then consider "c = b" "v = a" | "(c, v) \<in> set cs" by (auto simp: set_kv_upd [OF o])
    then have "?c[?n := a] ! unat (an_keys y ! unat c) = v"
    proof cases
      case 1
      then show ?thesis unfolding 1 slot using at by simp
    next
      case 2
      then have c: "c \<in> fst ` set cs" by force
      have "art_pos x (map fst cs) c < ?n" using art_pos_size(1) [OF s, of c] c n(1) assms(7) by auto
      then show ?thesis unfolding assms(8) [OF c] using below art_kidsD [OF assms(1) 2] by simp
    qed
    then show "an_chs (y\<lparr>an_chs := ?c[?n := a]\<rparr>) ! art_pos (y\<lparr>an_chs := ?c[?n := a]\<rparr>) (map fst (kv_upd b a cs)) c = v"
      using assms(4) by (simp add: art_pos_def)
  qed (use assms(4) in simp)
  with n y slot show thesis by (intro that [of ?c]) (simp_all add: arr_copy_def)
qed

lemma grow_spread:
  assumes "art_kids x cs" "b \<notin> fst ` set cs" "a \<noteq> nullptr" "an_type x = AT_NODE48" "an_type y = AT_NODE256"
    "art_shell y (map fst cs)" "an_chs y = replicate 256 nullptr"
  obtains chs where "node48_spread x 0 (an_chs y) = Some chs" "length chs = 256"
    "art_kids (y\<lparr>an_chs := chs[unat b := a]\<rparr>) (kv_upd b a cs)"
proof -
  note o = art_kids_ordered [OF assms(1)]
  have s: "length (an_keys x) = 256" "length (an_chs x) = 48" "slots_ok (an_keys x) (an_size x) (map fst cs)" "art_shell x (map fst cs)"
    using assms(1,4) by (auto simp: art_kids_def art_shell_def anode_ok_def)
  have slot: "unat (an_keys x ! p) < length (an_chs x)" if "p < 256" "an_keys x ! p \<noteq> 255" for p
  proof -
    have p: "unat (of_nat p :: byte) = p" using that(1) by (simp add: unat_of_nat)
    then have "of_nat p \<in> set (map fst cs)" using s(3) that(2) by (metis slots_ok_def)
    then show ?thesis using s(2,3) p by (fastforce simp: slots_ok_def)
  qed
  obtain chs where chs: "node48_spread x 0 (an_chs y) = Some chs" "length chs = 256"
    "\<And>p. p < 256 \<Longrightarrow> chs ! p = (if 0 \<le> p \<and> an_keys x ! p \<noteq> 255 then an_chs x ! unat (an_keys x ! p) else an_chs y ! p)"
    by (rule spread_ok [OF s(1) _ slot, of "an_chs y" 0]) (use assms(7) in simp_all)
  have old: "chs ! unat c = (if c \<in> fst ` set cs then an_chs x ! art_pos x (map fst cs) c else nullptr)" for c
    using chs(3) [of "unat c"] s(3) assms(4,7) by (simp add: slots_ok_def art_pos_def)
  have "art_kids (y\<lparr>an_chs := chs\<rparr>) cs"
  proof (rule art_kidsI)
    show "art_shell (y\<lparr>an_chs := chs\<rparr>) (map fst cs)" by (rule art_shell_cong [OF assms(6)]) (use chs assms(7) in simp_all)
    show "nullptr \<notin> snd ` set cs" using assms(1) by (simp add: art_kids_def)
    show "an_chs (y\<lparr>an_chs := chs\<rparr>) ! art_pos (y\<lparr>an_chs := chs\<rparr>) (map fst cs) c = v" if "(c, v) \<in> set cs" for c v
    proof -
      have "c \<in> fst ` set cs" using that by force
      then show ?thesis using old [of c] art_kidsD [OF assms(1) that] assms(5) by (simp add: art_pos_def)
    qed
  qed (use old in simp)
  from art_kids_set [OF this, of b a] assms(3,5) have "art_kids (y\<lparr>an_chs := chs[unat b := a]\<rparr>) (kv_upd b a cs)"
    by (simp add: art_pos_def)
  with chs(1,2) show thesis by (rule that)
qed

text \<open>
  The node with one more child: the byte is appended to the shell, giving \<^term>\<open>y'\<close>, the old
  children are copied around its place, giving \<^term>\<open>z\<close>, and the child is put there.
\<close>

definition art_same_head :: "anode \<Rightarrow> anode \<Rightarrow> bool" where
  "art_same_head x y \<longleftrightarrow> an_type y = an_type x \<and> an_ofs y = an_ofs x \<and> an_len y = an_len x \<and> an_pfx y = an_pfx x \<and> an_ver y = an_ver x"

lemma grow_ok:
  assumes "art_kids x cs" "b \<notin> fst ` set cs" "an_type x \<noteq> AT_NODE256" "art_room x y (map fst cs)"
  obtains y' i z j where "art_append y b = Some (y', i)" "art_same_head y y'" "anode_ok y'"
    "\<And>y2. art_copych_at y' x i = Some y2 \<longleftrightarrow> y2 = z" "art_same_head y z" "art_getch z i = Some j" "j < length (an_chs z)"
    "\<And>a. a \<noteq> nullptr \<Longrightarrow> art_kids (z\<lparr>an_chs := (an_chs z)[j := a]\<rparr>) (kv_upd b a cs)"
proof -
  note result = that
  let ?bs = "map fst cs"
  note o = art_kids_ordered [OF assms(1)]
  have s: "art_shell x ?bs" "art_shell y ?bs" using assms(1,4) by (simp_all add: art_kids_def art_room_def)
  have b: "b \<notin> set ?bs" using assms(2) by simp
  obtain y' i where y': "art_append y b = Some (y', i)" "art_shell y' (byte_ins b ?bs)"
    "art_getch y' i = Some (art_pos y' (byte_ins b ?bs) b)" "an_type y' = an_type y" "an_chs y' = an_chs y"
    "an_ofs y' = an_ofs y" "an_len y' = an_len y" "an_pfx y' = an_pfx y" "an_ver y' = an_ver y"
    "art_small y \<longrightarrow> i = byte_idx b ?bs"
    "an_type y = AT_NODE48 \<longrightarrow> i = unat b \<and> an_keys y' ! unat b = of_nat (length ?bs) \<and>
       (\<forall>c \<in> set ?bs. an_keys y' ! unat c = an_keys y ! unat c)"
    by (rule append_ok [OF s(2) b art_room_not_full [OF s(1) assms(4)]])
  have head: "art_same_head y y'" "anode_ok y'" using y'(2,4-9) by (simp_all add: art_same_head_def art_shell_def)
  have fin: thesis if "art_copych_at y' x i = Some (y'\<lparr>an_chs := chs\<rparr>)" "j < length chs" "art_getch (y'\<lparr>an_chs := chs\<rparr>) i = Some j"
    "\<And>a. a \<noteq> nullptr \<Longrightarrow> art_kids (y'\<lparr>an_chs := chs[j := a]\<rparr>) (kv_upd b a cs)" for chs j
    by (rule result [OF y'(1) head, of "y'\<lparr>an_chs := chs\<rparr>" j])
      (use that head in \<open>auto simp: art_same_head_def\<close>)
  have full: "art_is_full x" if "an_type y \<noteq> an_type x" using that assms(4) by (auto simp: art_room_def split: if_splits)
  consider "art_small x" "art_small y" | "an_type x = AT_NODE16" "an_type y = AT_NODE48"
    | "an_type x = AT_NODE48" "an_type y = AT_NODE48" | "an_type x = AT_NODE48" "an_type y = AT_NODE256"
    using assms(3,4) s(1) by (cases "an_type x") (auto simp: art_room_def art_shell_def split: if_splits)
  then show thesis
  proof cases
    case 1
    have y: "art_small y'" using 1 y'(4) by simp
    have i: "i = byte_idx b ?bs" using y'(10) 1(2) by simp
    obtain chs where chs: "arr_copy_insert (an_chs y') (an_chs x) (an_size x) i nullptr = Some chs"
      "length chs = length (an_chs y')" "i < length chs"
      unfolding i using grow_small [OF assms(1,2) _ 1(1) y y'(2), of 1] by (metis one_neq_zero)
    have kids: "art_kids (y'\<lparr>an_chs := chs[i := a]\<rparr>) (kv_upd b a cs)" if "a \<noteq> nullptr" for a
      using grow_small [OF assms(1,2) that 1(1) y y'(2)] chs(1) unfolding i by (metis option.inject)
    have "an_type x = AT_NODE16 \<longrightarrow> an_type y = AT_NODE16"
      using 1(2) assms(4) by (auto simp: art_room_def split: if_splits)
    with 1 have copy: "art_copych_at y' x i = Some (y'\<lparr>an_chs := chs\<rparr>)"
      by (elim disjE) (simp_all add: art_copych_at_def node4_copych_extend_at_def node4_copych_at_def node16_copych_at_def y'(4) chs(1))
    have "art_getch (y'\<lparr>an_chs := chs\<rparr>) i = Some i"
      using y by (elim disjE) (simp_all add: art_getch_def node4_getch_def node16_getch_def)
    then show thesis by (rule fin [OF copy chs(3) _ kids])
  next
    case 2
    have y: "an_type y' = AT_NODE48" using 2 y'(4) by simp
    have room: "art_is_full x" "\<forall>i < 16. an_keys y ! unat (?bs ! i) = of_nat i"
      using 2 full assms(4) by (auto simp: art_room_def)
    then have n: "length cs = 16" "sorted_wrt (<) ?bs" using s(1) 2(1) by (auto simp: art_is_full_def art_shell_def)
    have slot: "unat (an_keys y' ! unat c) = art_pos x ?bs c" if "c \<in> fst ` set cs" for c
    proof -
      have c: "c \<in> set ?bs" using that by simp
      note at = byte_idx_mem [OF n(2) c]
      have "an_keys y ! unat c = of_nat (byte_idx c ?bs)" using room(2) at n(1) by (metis length_map)
      moreover have "byte_idx c ?bs < 256" using at(1) n(1) by simp
      moreover have "an_keys y' ! unat c = an_keys y ! unat c" using y'(11) 2(2) c by blast
      ultimately show ?thesis using 2 by (simp add: art_pos_def unat_of_nat)
    qed
    have new: "an_keys y' ! unat b = of_nat (length cs)" "i = unat b" using y'(11) 2(2) by simp_all
    note g = grow_slots [OF assms(1,2) _ y y'(2) new(1) disjI1 [OF 2(1)] slot]
    obtain chs where chs: "arr_copy (an_chs y') (an_chs x) (an_size x) = Some chs" "length chs = 48" "length cs < 48"
      "unat (an_keys y' ! unat b) = length cs"
      using g [of 1] by (metis one_neq_zero)
    have kids: "art_kids (y'\<lparr>an_chs := chs[length cs := a]\<rparr>) (kv_upd b a cs)" if "a \<noteq> nullptr" for a
      using g [OF that] chs(1) by (metis option.inject)
    show thesis
      by (rule fin [OF _ _ _ kids])
        (use 2 y chs new s y'(2) in \<open>auto simp: art_copych_at_def node16_copych_extend_def art_getch_def node48_getch_def arr_get_def
          art_shell_def anode_ok_def\<close>)
  next
    case 3
    have y: "an_type y' = AT_NODE48" using 3 y'(4) by simp
    have keys: "an_keys y = an_keys x" using 3 assms(4) by (auto simp: art_room_def split: if_splits)
    have slot: "unat (an_keys y' ! unat c) = art_pos x ?bs c" if "c \<in> fst ` set cs" for c
    proof -
      have "an_keys y' ! unat c = an_keys y ! unat c" using y'(11) 3(2) that by (metis set_map)
      then show ?thesis using 3 keys by (simp add: art_pos_def)
    qed
    have new: "an_keys y' ! unat b = of_nat (length cs)" "i = unat b" using y'(11) 3(2) by simp_all
    note g = grow_slots [OF assms(1,2) _ y y'(2) new(1) disjI2 [OF 3(1)] slot]
    obtain chs where chs: "arr_copy (an_chs y') (an_chs x) (an_size x) = Some chs" "length chs = 48" "length cs < 48"
      "unat (an_keys y' ! unat b) = length cs"
      using g [of 1] by (metis one_neq_zero)
    have kids: "art_kids (y'\<lparr>an_chs := chs[length cs := a]\<rparr>) (kv_upd b a cs)" if "a \<noteq> nullptr" for a
      using g [OF that] chs(1) by (metis option.inject)
    show thesis
      by (rule fin [OF _ _ _ kids])
        (use 3 y chs new s y'(2) in \<open>auto simp: art_copych_at_def node48_copych_def art_getch_def node48_getch_def arr_get_def
          art_shell_def anode_ok_def\<close>)
  next
    case 4
    have i: "y' = y" "i = unat b" using y'(1) 4(2) by (simp_all add: art_append_def node256_append_def)
    have zero: "an_chs y = replicate 256 nullptr" using 4 full assms(4) by (auto simp: art_room_def)
    obtain chs where chs: "node48_spread x 0 (an_chs y) = Some chs" "length chs = 256"
      using grow_spread [OF assms(1,2) _ 4 s(2) zero, of 1] by (metis one_neq_zero)
    have kids: "art_kids (y'\<lparr>an_chs := chs[unat b := a]\<rparr>) (kv_upd b a cs)" if "a \<noteq> nullptr" for a
      using grow_spread [OF assms(1,2) that 4 s(2) zero] chs(1) unfolding i by (metis option.inject)
    show thesis
      by (rule fin [OF _ _ _ kids])
        (use 4 chs i in \<open>auto simp: art_copych_at_def node48_copych_extend_def art_getch_def node256_getch_def\<close>)
  qed
qed

end
