(* ===== verification/Art_Repr.thy ===== *)
theory Art_Repr
  imports Art_Spec Art_Copy
begin

text \<open>
  Which trie a memory holds at an address, and what the constructors and copies of nodes do to
  the memory.
\<close>

section \<open>Tries in memory\<close>

datatype rtree = RLeaf addr key val | RNode addr "byte list" "(byte \<times> rtree) list"

fun rroot :: "rtree \<Rightarrow> addr" where
  "rroot (RLeaf a k v) = a"
| "rroot (RNode a q cs) = a"

lemma rtree_size_kid [termination_simp]: "(b, c) \<in> set cs \<Longrightarrow> size c < Suc (size_list (size_prod (\<lambda>_. 0) size) cs)"
  by (induction cs) auto

fun rerase :: "rtree \<Rightarrow> tr" where
  "rerase (RLeaf a k v) = TLeaf k v"
| "rerase (RNode a q cs) = TNode q (map (\<lambda>(b, c). (b, rerase c)) cs)"

fun rfoot :: "rtree \<Rightarrow> addr list" where
  "rfoot (RLeaf a k v) = [a]"
| "rfoot (RNode a q cs) = a # concat (map (\<lambda>(b, c). rfoot c) cs)"

abbreviation rfoots :: "(byte \<times> rtree) list \<Rightarrow> addr list" where
  "rfoots cs \<equiv> concat (map (\<lambda>(b, c). rfoot c) cs)"

definition art_leaf :: "anode \<Rightarrow> nat \<Rightarrow> key \<Rightarrow> val \<Rightarrow> bool" where
  "art_leaf n ofs k v \<longleftrightarrow> anode_ok n \<and> an_type n = AT_LEAF \<and> an_ofs n = ofs \<and> ofs \<le> 8 \<and> an_len n = 8 - ofs \<and>
     an_pfx n = k \<and> an_val n = v"

text \<open>What the header of an inner node says.\<close>

definition art_head :: "anode \<Rightarrow> nat \<Rightarrow> byte list \<Rightarrow> bool" where
  "art_head n ofs q \<longleftrightarrow> an_type n \<noteq> AT_LEAF \<and> an_ofs n = ofs \<and> an_len n = length q \<and> ofs + length q < 8 \<and>
     pfx_bytes (an_pfx n) ofs (length q) = q"

fun rrepr :: "(addr \<rightharpoonup> anode) \<Rightarrow> nat \<Rightarrow> rtree \<Rightarrow> bool" where
  "rrepr h ofs (RLeaf a k v) = (a \<noteq> nullptr \<and> (\<exists>n. h a = Some n \<and> art_leaf n ofs k v))"
| "rrepr h ofs (RNode a q cs) =
     (a \<noteq> nullptr \<and> (\<exists>n. h a = Some n \<and> art_head n ofs q \<and> art_kids n (map (apsnd rroot) cs)) \<and>
      (\<forall>(b, c) \<in> set cs. rrepr h (Suc (ofs + length q)) c))"

lemma rrepr_wf: "rrepr h ofs t \<Longrightarrow> tr_wf ofs (rerase t)"
proof (induction t arbitrary: ofs)
  case (RNode a q cs)
  then obtain n where n: "art_head n ofs q" "art_kids n (map (apsnd rroot) cs)" by auto
  have "ordered (map (\<lambda>(b, c). (b, rerase c)) cs)"
    using art_kids_ordered [OF n(2)] by (simp add: comp_def case_prod_beta)
  moreover have "tr_wf (Suc (ofs + length q)) (rerase c)" if "(b, c) \<in> set cs" for b c
    using RNode.IH [of "(b, c)" c] RNode.prems that by auto
  ultimately show ?case using n(1) by (auto simp: art_head_def)
qed (auto simp: art_leaf_def)

lemma rroot_in: "rrepr h ofs t \<Longrightarrow> rroot t \<noteq> nullptr \<and> rroot t \<in> set (rfoot t) \<and> h (rroot t) \<noteq> None"
  by (cases t) auto

lemma rrepr_dom: "rrepr h ofs t \<Longrightarrow> set (rfoot t) \<subseteq> dom h"
proof (induction t arbitrary: ofs)
  case (RNode a q cs)
  have "set (rfoot c) \<subseteq> dom h" if c: "(b, c) \<in> set cs" for b c
  proof (rule RNode.IH [OF c])
    show "rrepr h (Suc (ofs + length q)) c" using RNode.prems c by auto
  qed simp
  with RNode.prems show ?case by fastforce
qed auto

lemma rrepr_not_null: "rrepr h ofs t \<Longrightarrow> nullptr \<notin> set (rfoot t)"
proof (induction t arbitrary: ofs)
  case (RNode a q cs)
  have "nullptr \<notin> set (rfoot c)" if c: "(b, c) \<in> set cs" for b c
  proof (rule RNode.IH [OF c])
    show "rrepr h (Suc (ofs + length q)) c" using RNode.prems c by auto
  qed simp
  with RNode.prems show ?case by auto
qed auto

lemma rrepr_frame: "rrepr h ofs t \<Longrightarrow> (\<And>x. x \<in> set (rfoot t) \<Longrightarrow> h' x = h x) \<Longrightarrow> rrepr h' ofs t"
proof (induction t arbitrary: ofs)
  case (RNode a q cs)
  have "rrepr h' (Suc (ofs + length q)) c" if "(b, c) \<in> set cs" for b c
    by (rule RNode.IH [of "(b, c)" c]) (use RNode.prems that in \<open>auto intro: RNode.prems(2)\<close>)
  with RNode.prems show ?case by auto
qed auto

lemma rrepr_mono:
  assumes "rrepr h ofs t" "h \<subseteq>\<^sub>m h'"
  shows "rrepr h' ofs t"
proof (rule rrepr_frame [OF assms(1)])
  fix x assume "x \<in> set (rfoot t)"
  then have "x \<in> dom h" using rrepr_dom [OF assms(1)] by blast
  with assms(2) show "h' x = h x" by (simp add: map_le_def)
qed

lemma rrepr_upd: "rrepr h ofs t \<Longrightarrow> a \<notin> set (rfoot t) \<Longrightarrow> rrepr (h(a := x)) ofs t"
  by (erule rrepr_frame) auto

lemma map_of_rkids:
  "map_of (map (apsnd rroot) cs) b = map_option rroot (map_of cs b)"
  "map_of (map (\<lambda>(b, c). (b, rerase c)) cs) b = map_option rerase (map_of cs b)"
  by (induction cs) (auto split: prod.splits)

lemma map_kv_upd: "map (\<lambda>(b, c). (b, f c)) (kv_upd b x cs) = kv_upd b (f x) (map (\<lambda>(b, c). (b, f c)) cs)"
  by (simp add: kv_upd_def takeWhile_map dropWhile_map comp_def case_prod_beta)

lemma map_apsnd_upd: "map (apsnd f) (kv_upd b x cs) = kv_upd b (f x) (map (apsnd f) cs)"
  by (simp add: kv_upd_def takeWhile_map dropWhile_map comp_def)

section \<open>Prefixes\<close>

lemma match_head:
  assumes "art_head n ofs q"
  shows "lcp q (drop ofs (key_bytes k)) = min (length q) (art_prefix_match ub n k)"
  using prefix_match_lcp [of n k ub] assms by (simp add: art_head_def)

lemma match_leaf:
  assumes "art_leaf n ofs k' v"
  shows "lcp (drop ofs (key_bytes k')) (drop ofs (key_bytes k)) = min (8 - ofs) (art_prefix_match ub n k)"
  using prefix_match_lcp [of n k ub] assms by (simp add: art_leaf_def pfx_bytes_def)

section \<open>New nodes\<close>

definition anode_blk :: "anode \<Rightarrow> bool" where
  "anode_blk n \<longleftrightarrow> 256 \<le> length (an_chs n)"

definition art_node0 :: "shifts \<Rightarrow> 64 word \<Rightarrow> art_type \<Rightarrow> nat \<Rightarrow> nat \<Rightarrow> key \<Rightarrow> anode" where
  "art_node0 ub ver ty ofs len key = \<lparr>an_ver = ver, an_type = ty, an_size = art_size0 ty, an_ofs = ofs, an_len = len,
     an_cdf = 0, an_pfx = (if ty \<noteq> AT_LEAF then key AND art_prefix_mask ub ofs len else key),
     an_val = 0, an_keys = replicate (art_nkeys ty) 0, an_chs = replicate (art_nchs ty) 0\<rparr>"

lemma anode0_simps [simp]:
  "an_ver (art_node0 ub ver ty ofs len key) = ver" "an_type (art_node0 ub ver ty ofs len key) = ty"
  "an_size (art_node0 ub ver ty ofs len key) = art_size0 ty" "an_ofs (art_node0 ub ver ty ofs len key) = ofs"
  "an_len (art_node0 ub ver ty ofs len key) = len"
  "an_pfx (art_node0 ub ver ty ofs len key) = (if ty \<noteq> AT_LEAF then key AND art_prefix_mask ub ofs len else key)"
  "an_val (art_node0 ub ver ty ofs len key) = 0"
  "an_keys (art_node0 ub ver ty ofs len key) = replicate (art_nkeys ty) 0"
  "an_chs (art_node0 ub ver ty ofs len key) = replicate (art_nchs ty) 0"
  by (simp_all add: art_node0_def)

lemma art_new_node_ok:
  assumes "mem_ok anode_blk (Suc k) m"
  obtains a m' where "art_new_node ub ver ty ofs len key m = Some (a, m')" "mem_new anode_blk k m a (art_node0 ub ver ty ofs len key) m'"
proof -
  obtain a junk m1 where m1: "mem_alloc m = Some (a, m1)" "mem_new anode_blk k m a junk m1"
    by (rule mem_alloc_new [OF assms])
  let ?f = "\<lambda>_. Some (art_node0 ub ver ty ofs len key)"
  obtain m' where "mem_upd m1 a ?f = Some m'" "mem_new anode_blk k m a (art_node0 ub ver ty ofs len key) m'"
    by (rule mem_upd_new [where f = ?f, OF m1(2) refl])
  with m1(1) show thesis by (intro that) (simp_all add: art_new_node_def art_node0_def)
qed

lemma art_new_leaf_ok:
  assumes "mem_ok anode_blk (Suc k) m" "ofs \<le> 8"
  obtains a n m' where "art_new_leaf ub ver ofs key val m = Some (a, m')" "mem_new anode_blk k m a n m'" "art_leaf n ofs key val"
proof -
  obtain a m1 where m1: "art_new_node ub ver AT_LEAF ofs (8 - ofs) key m = Some (a, m1)"
    "mem_new anode_blk k m a (art_node0 ub ver AT_LEAF ofs (8 - ofs) key) m1"
    by (rule art_new_node_ok [OF assms(1)])
  let ?f = "\<lambda>n. Some (n\<lparr>an_val := val\<rparr>)"
  obtain m' where "mem_upd m1 a ?f = Some m'" "mem_new anode_blk k m a (art_node0 ub ver AT_LEAF ofs (8 - ofs) key\<lparr>an_val := val\<rparr>) m'"
    by (rule mem_upd_new [where f = ?f, OF m1(2) refl])
  moreover have "art_leaf (art_node0 ub ver AT_LEAF ofs (8 - ofs) key\<lparr>an_val := val\<rparr>) ofs key val"
    using assms(2) by (simp add: art_leaf_def anode_ok_def)
  ultimately show thesis using m1(1) by (intro that) (simp_all add: art_new_leaf_def)
qed

lemma node_copy_ok:
  assumes "cells m t = Some x" "anode_ok x" "mem_ok anode_blk (Suc k) m"
  obtains a chs m' where "art_node_copy t ver m = Some (a, m')" "mem_new anode_blk k m a (x\<lparr>an_ver := ver, an_chs := chs\<rparr>) m'"
    "length chs = art_nchs (an_type x)"
proof -
  obtain a junk m1 where m1: "mem_alloc m = Some (a, m1)" "mem_new anode_blk k m a junk m1" "anode_blk junk"
    by (rule mem_alloc_new [OF assms(3)])
  have l: "art_nchs (an_type x) \<le> length (an_chs junk)" using m1(3) by (cases "an_type x") (simp_all add: anode_blk_def)
  let ?f = "\<lambda>junk. if art_nchs (an_type x) \<le> length (an_chs junk)
     then Some (x\<lparr>an_ver := ver, an_chs := take (art_nchs (an_type x)) (an_chs junk)\<rparr>) else None"
  obtain m' where "mem_upd m1 a ?f = Some m'"
    "mem_new anode_blk k m a (x\<lparr>an_ver := ver, an_chs := take (art_nchs (an_type x)) (an_chs junk)\<rparr>) m'"
    by (rule mem_upd_new [where f = ?f, OF m1(2)]) (use l in simp)
  with m1(1) assms(1) l show thesis
    by (intro that [of a m' "take (art_nchs (an_type x)) (an_chs junk)"]) (simp_all add: art_node_copy_def mem_get_def)
qed

lemma art_leaf_ok: "art_leaf n ofs k v \<Longrightarrow> anode_ok n"
  by (simp add: art_leaf_def)

lemma leaf_update_ok:
  assumes "cells m t = Some x" "art_leaf x ofs key v" "mem_ok anode_blk (Suc k) m"
  obtains a n m' where "art_leaf_update ver t val m = Some (a, m')" "mem_new anode_blk k m a n m'" "art_leaf n ofs key val"
proof -
  obtain a chs m1 where m1: "art_node_copy t ver m = Some (a, m1)" "mem_new anode_blk k m a (x\<lparr>an_ver := ver, an_chs := chs\<rparr>) m1"
    "length chs = art_nchs (an_type x)"
    by (rule node_copy_ok [OF assms(1) art_leaf_ok [OF assms(2)] assms(3)])
  let ?f = "\<lambda>n. Some (n\<lparr>an_val := val\<rparr>)"
  obtain m' where "mem_upd m1 a ?f = Some m'" "mem_new anode_blk k m a (x\<lparr>an_ver := ver, an_chs := chs, an_val := val\<rparr>) m'"
    by (rule mem_upd_new [where f = ?f, OF m1(2)]) simp
  moreover have "art_leaf (x\<lparr>an_ver := ver, an_chs := chs, an_val := val\<rparr>) ofs key val"
    using assms(2) m1(3) by (simp add: art_leaf_def anode_ok_def)
  ultimately show thesis using m1(1) by (intro that) (simp_all add: art_leaf_update_def)
qed

lemma art_head_node0:
  assumes "art_head x ofs q" "ty \<noteq> AT_LEAF" "an_type y = ty" "an_ofs y = an_ofs x" "an_len y = an_len x"
    "an_pfx y = an_pfx x AND art_prefix_mask ub (an_ofs x) (an_len x)"
  shows "art_head y ofs q"
  using assms pfx_bytes_mask [of ofs "length q" "an_pfx x" ub] by (simp add: art_head_def)

lemma node_extend_ok:
  assumes "cells m t = Some x" "art_shell x bs" "art_is_full x" "art_head x ofs q" "mem_ok anode_blk (Suc k) m"
  obtains a y m' where "art_node_extend ub t ver m = Some (a, m')" "mem_new anode_blk k m a y m'" "art_room x y bs" "art_head y ofs q"
proof -
  have ok: "anode_ok x" "sorted_wrt (<) bs" using assms(2) by (simp_all add: art_shell_def)
  show thesis
  proof (cases "an_type x")
    case AT_NODE4
    then have x: "length bs = 4" "length (an_keys x) = 4" "an_keys x = bs"
      using assms(2,3) ok(1) by (auto simp: art_shell_def art_is_full_def anode_ok_def)
    let ?n0 = "art_node0 ub ver AT_NODE16 (an_ofs x) (an_len x) (an_pfx x)"
    obtain a m1 where m1: "art_new_node ub ver AT_NODE16 (an_ofs x) (an_len x) (an_pfx x) m = Some (a, m1)"
      "mem_new anode_blk k m a ?n0 m1" by (rule art_new_node_ok [OF assms(5)])
    let ?f = "\<lambda>n. do { ks \<leftarrow> arr_copy (an_keys n) (an_keys x) 4; Some (n\<lparr>an_keys := ks\<rparr>) }"
    let ?y = "?n0\<lparr>an_keys := bs @ replicate 12 0\<rparr>"
    have "?f ?n0 = Some ?y" using x by (simp add: arr_copy_def)
    from mem_upd_new [where f = ?f, OF m1(2) this] obtain m' where m': "mem_upd m1 a ?f = Some m'" "mem_new anode_blk k m a ?y m'" .
    have "art_room x ?y bs"
      using AT_NODE4 assms(3) ok(2) x by (simp add: art_room_def art_shell_def anode_ok_def)
    moreover have "art_head ?y ofs q" by (rule art_head_node0 [OF assms(4), of AT_NODE16]) simp_all
    ultimately show thesis
      using m1(1) m' AT_NODE4 assms(1) by (intro that) (simp_all add: art_node_extend_def node4_extend_def mem_get_def)
  next
    case AT_NODE16
    then have x: "length bs = 16" "an_keys x = bs"
      using assms(2,3) ok(1) by (auto simp: art_shell_def art_is_full_def anode_ok_def)
    let ?n0 = "art_node0 ub ver AT_NODE48 (an_ofs x) (an_len x) (an_pfx x)"
    obtain a m1 where m1: "art_new_node ub ver AT_NODE48 (an_ofs x) (an_len x) (an_pfx x) m = Some (a, m1)"
      "mem_new anode_blk k m a ?n0 m1" by (rule art_new_node_ok [OF assms(5)])
    obtain slts where s: "node16_fill_slots bs 0 (replicate 256 255) = Some slts" "length slts = 256" "slots_ok slts 16 bs"
      "\<And>i. i < 16 \<Longrightarrow> slts ! unat (bs ! i) = of_nat i"
      using fill_slots_shell [OF x(1) ok(2)] by blast
    let ?f = "\<lambda>n. do { ks \<leftarrow> node16_fill_slots (an_keys x) 0 (replicate 256 255); Some (n\<lparr>an_keys := ks\<rparr>) }"
    let ?y = "?n0\<lparr>an_keys := slts\<rparr>"
    have "?f ?n0 = Some ?y" using x s(1) by simp
    from mem_upd_new [where f = ?f, OF m1(2) this] obtain m' where m': "mem_upd m1 a ?f = Some m'" "mem_new anode_blk k m a ?y m'" .
    have "art_room x ?y bs"
      using AT_NODE16 assms(3) ok(2) x s by (simp add: art_room_def art_shell_def anode_ok_def)
    moreover have "art_head ?y ofs q" by (rule art_head_node0 [OF assms(4), of AT_NODE48]) simp_all
    ultimately show thesis
      using m1(1) m' AT_NODE16 assms(1) by (intro that) (simp_all add: art_node_extend_def node16_extend_def mem_get_def)
  next
    case AT_NODE48
    let ?y = "art_node0 ub ver AT_NODE256 (an_ofs x) (an_len x) (an_pfx x)"
    obtain a m' where m': "art_new_node ub ver AT_NODE256 (an_ofs x) (an_len x) (an_pfx x) m = Some (a, m')"
      "mem_new anode_blk k m a ?y m'" by (rule art_new_node_ok [OF assms(5)])
    have "art_room x ?y bs" using AT_NODE48 assms(3) ok(2) by (simp add: art_room_def art_shell_def anode_ok_def)
    moreover have "art_head ?y ofs q" by (rule art_head_node0 [OF assms(4), of AT_NODE256]) simp_all
    ultimately show thesis
      using m' AT_NODE48 assms(1) by (intro that) (simp_all add: art_node_extend_def node48_extend_def mem_get_def)
  qed (use assms(2,3) in \<open>simp_all add: art_shell_def art_is_full_def\<close>)
qed

end
