(* ===== verification/Art_Query.thy ===== *)
theory Art_Query
  imports Art_Repr
begin

text \<open>
  \<^verbatim>\<open>lib/trees/art/query.hpp\<close>: point lookup and range scan of the radix tree.
\<close>

section \<open>The code\<close>

text \<open>The loop of \<^verbatim>\<open>find\<close> goes down one node at a time.\<close>

fun art_find :: "shifts \<Rightarrow> nat \<Rightarrow> addr \<Rightarrow> key \<Rightarrow> amem \<Rightarrow> val option option" where
  "art_find ub 0 t key m = None"
| "art_find ub (Suc fuel) t key m =
     (if t \<noteq> nullptr
      then do {
        n \<leftarrow> mem_get m t;
        let pmlen = art_prefix_match ub n key;
        if an_len n > pmlen then Some None
        else if an_type n = AT_LEAF then Some (Some (an_val n))
        else do {
          c \<leftarrow> art_findch n (art_partial_key ub key (an_ofs n + an_len n));
          art_find ub fuel c key m } }
      else Some None)"

text \<open>
  The functions of the node types take what they call for a child, \<^verbatim>\<open>scan_append(ch, nullopt, n, ret)\<close>,
  as a parameter. \<open>art_scan_children\<close> is the loop of \<^verbatim>\<open>node4_scan_append\<close> and of
  \<^verbatim>\<open>node16_scan_append\<close>, which are the same; the other two go through the 256 bytes, until the
  byte wraps around to 0.
\<close>

type_synonym scan_fun = "addr \<Rightarrow> kv list \<Rightarrow> kv list option"

function art_scan_children :: "scan_fun \<Rightarrow> anode \<Rightarrow> nat \<Rightarrow> nat \<Rightarrow> kv list \<Rightarrow> kv list option" where
  "art_scan_children scan t idx n ret =
     (if length ret < n \<and> idx < an_size t
      then do { c \<leftarrow> arr_get (an_chs t) idx; ret \<leftarrow> scan c ret; art_scan_children scan t (idx + 1) n ret }
      else Some ret)"
  by pat_completeness auto
termination
  by (relation "measure (\<lambda>(scan, t, idx, n, ret). an_size t - idx)") auto

definition node4_scan_append :: "scan_fun \<Rightarrow> anode \<Rightarrow> byte option \<Rightarrow> nat \<Rightarrow> kv list \<Rightarrow> kv list option" where
  "node4_scan_append scan t pkey n ret =
     do { idx \<leftarrow> (case pkey of None \<Rightarrow> Some 0 | Some p \<Rightarrow> node4_findgt t p); art_scan_children scan t idx n ret }"

definition node16_scan_append :: "scan_fun \<Rightarrow> anode \<Rightarrow> byte option \<Rightarrow> nat \<Rightarrow> kv list \<Rightarrow> kv list option" where
  "node16_scan_append scan t pkey n ret =
     do { idx \<leftarrow> (case pkey of None \<Rightarrow> Some 0 | Some p \<Rightarrow> node16_findgt t p); art_scan_children scan t idx n ret }"

lemma byte_succ: "idx + 1 \<noteq> (0 :: byte) \<Longrightarrow> unat (idx + 1) = Suc (unat idx)"
  using unatSuc [of idx] by (simp add: add.commute)

lemma byte_measure: "idx + 1 \<noteq> (0 :: byte) \<Longrightarrow> 256 - unat (idx + 1) < 256 - unat idx"
  using unat_byte [of idx] by (simp add: byte_succ)

function node48_scan_from :: "scan_fun \<Rightarrow> anode \<Rightarrow> byte \<Rightarrow> nat \<Rightarrow> kv list \<Rightarrow> kv list option" where
  "node48_scan_from scan t idx n ret =
     (if length ret < n
      then do {
        s \<leftarrow> arr_get (an_keys t) (unat idx);
        ret \<leftarrow> (if s \<noteq> 255 then do { c \<leftarrow> arr_get (an_chs t) (unat s); scan c ret } else Some ret);
        if idx + 1 = 0 then Some ret else node48_scan_from scan t (idx + 1) n ret }
      else Some ret)"
  by pat_completeness auto
termination
  by (relation "measure (\<lambda>(scan, t, idx, n, ret). 256 - unat idx)") (auto simp: byte_measure)

definition node48_scan_append :: "scan_fun \<Rightarrow> anode \<Rightarrow> byte option \<Rightarrow> nat \<Rightarrow> kv list \<Rightarrow> kv list option" where
  "node48_scan_append scan t pkey n ret =
     (case pkey of None \<Rightarrow> node48_scan_from scan t 0 n ret
      | Some p \<Rightarrow> if p + 1 = 0 then Some ret else node48_scan_from scan t (p + 1) n ret)"

function node256_scan_from :: "scan_fun \<Rightarrow> anode \<Rightarrow> byte \<Rightarrow> nat \<Rightarrow> kv list \<Rightarrow> kv list option" where
  "node256_scan_from scan t idx n ret =
     (if length ret < n
      then do {
        c \<leftarrow> arr_get (an_chs t) (unat idx);
        ret \<leftarrow> (if c \<noteq> nullptr then scan c ret else Some ret);
        if idx + 1 = 0 then Some ret else node256_scan_from scan t (idx + 1) n ret }
      else Some ret)"
  by pat_completeness auto
termination
  by (relation "measure (\<lambda>(scan, t, idx, n, ret). 256 - unat idx)") (auto simp: byte_measure)

definition node256_scan_append :: "scan_fun \<Rightarrow> anode \<Rightarrow> byte option \<Rightarrow> nat \<Rightarrow> kv list \<Rightarrow> kv list option" where
  "node256_scan_append scan t pkey n ret =
     (case pkey of None \<Rightarrow> node256_scan_from scan t 0 n ret
      | Some p \<Rightarrow> if p + 1 = 0 then Some ret else node256_scan_from scan t (p + 1) n ret)"

fun art_scan_append :: "nat \<Rightarrow> addr \<Rightarrow> byte option \<Rightarrow> nat \<Rightarrow> kv list \<Rightarrow> amem \<Rightarrow> kv list option" where
  "art_scan_append 0 t pkey n ret m = None"
| "art_scan_append (Suc fuel) t pkey n ret m =
     do { x \<leftarrow> mem_get m t;
          let scan = (\<lambda>c ret. art_scan_append fuel c None n ret m);
          case an_type x of
            AT_NODE4 \<Rightarrow> node4_scan_append scan x pkey n ret
          | AT_NODE16 \<Rightarrow> node16_scan_append scan x pkey n ret
          | AT_NODE48 \<Rightarrow> node48_scan_append scan x pkey n ret
          | AT_NODE256 \<Rightarrow> node256_scan_append scan x pkey n ret
          | AT_LEAF \<Rightarrow> Some (ret @ [(an_pfx x, an_val x)]) }"

fun art_scan_search :: "shifts \<Rightarrow> nat \<Rightarrow> addr \<Rightarrow> key \<Rightarrow> nat \<Rightarrow> kv list \<Rightarrow> amem \<Rightarrow> kv list option" where
  "art_scan_search ub 0 t key n ret m = None"
| "art_scan_search ub (Suc fuel) t key n ret m =
     (if t = nullptr then Some ret
      else do {
        x \<leftarrow> mem_get m t;
        let pmlen = art_prefix_match ub x key;
        if an_len x > pmlen
        then do {
          let t_pkey = art_partial_key ub (an_pfx x) (an_ofs x + pmlen);
          let pkey = art_partial_key ub key (an_ofs x + pmlen);
          if t_pkey < pkey then Some ret else art_scan_append (Suc fuel) t None n ret m }
        else if an_type x = AT_LEAF then Some (ret @ [(an_pfx x, an_val x)])
        else do {
          let pkey = art_partial_key ub key (an_ofs x + an_len x);
          c \<leftarrow> art_findch x pkey;
          ret \<leftarrow> art_scan_search ub fuel c key n ret m;
          art_scan_append (Suc fuel) t (Some pkey) n ret m } })"

definition art_scan :: "shifts \<Rightarrow> nat \<Rightarrow> addr \<Rightarrow> key \<Rightarrow> nat \<Rightarrow> amem \<Rightarrow> kv list option" where
  "art_scan ub fuel t key n m = art_scan_search ub fuel t key n [] m"

declare art_scan_children.simps [simp del] node48_scan_from.simps [simp del] node256_scan_from.simps [simp del]

section \<open>Point lookup\<close>

lemma lcp_full_iff: "lcp xs ys = length xs \<longleftrightarrow> take (length xs) ys = xs"
proof
  show "take (length xs) ys = xs \<Longrightarrow> lcp xs ys = length xs"
    by (induction xs ys rule: lcp.induct) auto
qed (rule lcp_full)

lemma art_find_ok:
  "rrepr (cells m) ofs t \<Longrightarrow> tr_height (rerase t) < fuel \<Longrightarrow> art_find ub fuel (rroot t) k m = Some (tr_find ofs (rerase t) k)"
proof (induction t arbitrary: ofs fuel)
  case (RLeaf a k' v)
  then obtain n where n: "a \<noteq> nullptr" "cells m a = Some n" "art_leaf n ofs k' v" by auto
  obtain f where f: "fuel = Suc f" using RLeaf.prems(2) by (cases fuel) auto
  have l: "an_len n = 8 - ofs" "an_type n = AT_LEAF" "an_val n = v" "ofs \<le> 8" using n(3) by (simp_all add: art_leaf_def)
  have "art_prefix_match ub n k < 8 - ofs \<longleftrightarrow> lcp (drop ofs (key_bytes k')) (drop ofs (key_bytes k)) \<noteq> 8 - ofs"
    unfolding match_leaf [OF n(3), of k ub] by (simp add: min_def)
  also have "\<dots> \<longleftrightarrow> drop ofs (key_bytes k') \<noteq> drop ofs (key_bytes k)"
    using lcp_full_iff [of "drop ofs (key_bytes k')" "drop ofs (key_bytes k)"] by simp metis
  finally show ?case using n l by (simp add: f mem_get_def Let_def)
next
  case (RNode a q cs)
  then obtain n where n: "a \<noteq> nullptr" "cells m a = Some n" "art_head n ofs q" "art_kids n (map (apsnd rroot) cs)" by auto
  obtain f where f: "fuel = Suc f" "0 < f" using RNode.prems(2) by (cases fuel) auto
  have h: "an_len n = length q" "an_type n \<noteq> AT_LEAF" "an_ofs n = ofs" "ofs + length q < 8" using n(3) by (simp_all add: art_head_def)
  have "art_prefix_match ub n k < length q \<longleftrightarrow> lcp q (drop ofs (key_bytes k)) \<noteq> length q"
    unfolding match_head [OF n(3), of k ub] by (simp add: min_def)
  then have m: "art_prefix_match ub n k < length q \<longleftrightarrow> take (length q) (drop ofs (key_bytes k)) \<noteq> q"
    unfolding lcp_full_iff .
  let ?b = "key_byte k (ofs + length q)"
  have p: "art_partial_key ub k (an_ofs n + an_len n) = ?b" using h by (simp add: partial_key_byte)
  show ?case
  proof (cases "map_of cs ?b")
    case None
    then have "art_findch n ?b = Some nullptr" using art_findch_ok [OF n(4), of ?b] by (simp add: map_of_rkids)
    moreover have "art_find ub f nullptr k m = Some None" using f(2) by (cases f) simp_all
    ultimately show ?thesis using n h m p None by (auto simp: f mem_get_def Let_def map_of_rkids)
  next
    case (Some c)
    then have c: "(?b, c) \<in> set cs" by (rule map_of_SomeD)
    have "art_findch n ?b = Some (rroot c)" using art_findch_ok [OF n(4), of ?b] Some by (simp add: map_of_rkids)
    moreover have "(?b, rerase c) \<in> set (map (\<lambda>(b, c). (b, rerase c)) cs)" using c by force
    from tr_height_kid [OF this, of q] have "tr_height (rerase c) < f" using RNode.prems(2) f(1) by (simp del: tr_height.simps)
    with RNode.IH [OF c, of c "Suc (ofs + length q)" f] RNode.prems(1) c
    have "art_find ub f (rroot c) k m = Some (tr_find (Suc (ofs + length q)) (rerase c) k)" by auto
    ultimately show ?thesis using n h m p Some by (auto simp: f mem_get_def Let_def map_of_rkids)
  qed
qed

section \<open>Scans\<close>

text \<open>The bindings of the leaves, with the keys stored in them.\<close>

fun tr_kvs :: "tr \<Rightarrow> kv list" where
  "tr_kvs (TLeaf k v) = [(k, v)]"
| "tr_kvs (TNode q cs) = concat (map (\<lambda>(b, c). tr_kvs c) cs)"

text \<open>When every leaf stores the whole key, these are the contents.\<close>

fun tr_full :: "byte list \<Rightarrow> tr \<Rightarrow> bool" where
  "tr_full p (TLeaf k v) = (take (length p) (key_bytes k) = p)"
| "tr_full p (TNode q cs) = (\<forall>(b, c) \<in> set cs. tr_full (p @ q @ [b]) c)"

lemma tr_full_kvs: "tr_full p t \<Longrightarrow> map (apfst bytes_key) (tr_list p t) = tr_kvs t"
proof (induction p t rule: tr_list.induct)
  case (1 p k v)
  then have "p @ drop (length p) (key_bytes k) = key_bytes k" by (metis append_take_drop_id tr_full.simps(1))
  then show ?case by simp
next
  case (2 p q cs)
  have "map (apfst bytes_key) (tr_list (p @ q @ [b]) c) = tr_kvs c" if "(b, c) \<in> set cs" for b c
    using "2.IH" [OF that refl] "2.prems" that by auto
  then have "map (\<lambda>x. map (apfst bytes_key) (case x of (b, c) \<Rightarrow> tr_list (p @ q @ [b]) c)) cs = map (\<lambda>(b, c). tr_kvs c) cs"
    by (intro map_cong) auto
  then show ?case unfolding tr_list.simps tr_kvs.simps map_concat map_map comp_def by (rule arg_cong)
qed

lemma scan_children_ok:
  assumes "take (length cs) (an_chs x) = map (rroot \<circ> snd) cs" "an_size x = length cs" "length cs \<le> length (an_chs x)"
    "\<And>b c ret. (b, c) \<in> set cs \<Longrightarrow> length ret < n \<Longrightarrow> scan (rroot c) ret = Some (fill n ret (f c))" "idx \<le> length cs"
  shows "art_scan_children scan x idx n ret = Some (fill n ret (concat (map (\<lambda>(b, c). f c) (drop idx cs))))"
  using assms(5)
proof (induction "length cs - idx" arbitrary: idx ret)
  case 0
  then show ?case using assms(2) by (subst art_scan_children.simps) simp
next
  case (Suc k)
  then have i: "idx < length cs" by simp
  obtain b c where c: "cs ! idx = (b, c)" by (cases "cs ! idx")
  have d: "drop idx cs = (b, c) # drop (Suc idx) cs" using i c by (simp add: Cons_nth_drop_Suc [symmetric])
  have "an_chs x ! idx = rroot c" using assms(1) i c by (metis comp_apply nth_map nth_take snd_conv)
  moreover have "(b, c) \<in> set cs" using i c by (metis nth_mem)
  ultimately show ?case
    using Suc.hyps(1) [of "Suc idx"] Suc.hyps(2) i assms(2,3,4) d
    by (subst art_scan_children.simps) (auto simp: arr_get_def fill_full)
qed

lemma filter_split_at:
  assumes "ordered cs"
  shows "filter (\<lambda>(b, c). idx \<le> b) cs = (case map_of cs idx of None \<Rightarrow> [] | Some c \<Rightarrow> [(idx, c)]) @ filter (\<lambda>(b, c). (idx :: byte) < b) cs"
  using assms
proof (induction cs)
  case (Cons d cs)
  obtain b c where d: "d = (b, c)" by (cases d)
  have above: "b < b'" if "(b', c') \<in> set cs" for b' c' using Cons.prems d that by force
  consider "b < idx" | "b = idx" | "idx < b" by (rule linorder_cases)
  then show ?case
  proof cases
    case 2
    have "filter (\<lambda>(b, c). idx \<le> b) cs = cs" "filter (\<lambda>(b, c). idx < b) cs = cs"
      using above 2 by (auto simp: filter_id_conv less_imp_le)
    with 2 show ?thesis by (simp add: d)
  next
    case 3
    have "filter (\<lambda>(b, c). idx \<le> b) cs = cs" "filter (\<lambda>(b, c). idx < b) cs = cs"
      using above 3 by (force simp: filter_id_conv)+
    moreover have "idx \<notin> fst ` set cs" using above 3 by force
    then have "map_of cs idx = None" by (simp add: map_of_eq_None_iff)
    ultimately show ?thesis using 3 by (auto simp: d)
  qed (use Cons d in auto)
qed simp

lemma filter_ge_step:
  assumes "ordered cs"
  shows "filter (\<lambda>(b, c). idx \<le> b) cs = (case map_of cs idx of None \<Rightarrow> [] | Some c \<Rightarrow> [(idx, c)]) @
    (if idx + 1 = (0 :: byte) then [] else filter (\<lambda>(b, c). idx + 1 \<le> b) cs)"
proof -
  have "idx + 1 \<le> b \<longleftrightarrow> idx < b" if "idx + 1 \<noteq> 0" for b
    using byte_succ [OF that] by (simp add: word_le_nat_alt word_less_nat_alt Suc_le_eq)
  moreover have "\<not> idx < b" if "idx + 1 = 0" for b
    using that by (simp add: eq_neg_iff_add_eq_0 [symmetric] not_less)
  ultimately show ?thesis unfolding filter_split_at [OF assms, of idx] by (simp split: option.split)
qed

text \<open>The two loops over all bytes are one loop over the children.\<close>

lemma byte_loop_ok:
  assumes step: "\<And>idx ret. loop idx ret = (if length ret < n
      then do {
        ret \<leftarrow> (case map_of cs idx of None \<Rightarrow> Some ret | Some c \<Rightarrow> scan (rroot c) ret);
        if idx + 1 = (0 :: byte) then Some ret else loop (idx + 1) ret }
      else Some ret)"
    and "ordered cs" "\<And>b c ret. (b, c) \<in> set cs \<Longrightarrow> length ret < n \<Longrightarrow> scan (rroot c) ret = Some (fill n ret (f c))"
  shows "loop idx ret = Some (fill n ret (concat (map (\<lambda>(b, c). f c) (filter (\<lambda>(b, c). idx \<le> b) cs))))"
proof (induction "256 - unat idx" arbitrary: idx ret rule: less_induct)
  case less
  show ?case
  proof (cases "length ret < n")
    case True
    let ?here = "case map_of cs idx of None \<Rightarrow> [] | Some c \<Rightarrow> [(idx, c)]"
    have "(case map_of cs idx of None \<Rightarrow> Some ret | Some c \<Rightarrow> scan (rroot c) ret) = Some (fill n ret (concat (map (\<lambda>(b, c). f c) ?here)))"
      using assms(3) [OF map_of_SomeD True] by (simp split: option.split)
    with True less [of "idx + 1"] byte_measure [of idx] show ?thesis
      unfolding step [of idx] filter_ge_step [OF assms(2), of idx] by simp
  next
    case False
    then show ?thesis unfolding step [of idx] by (simp add: fill_full)
  qed
qed

lemma slot_child:
  assumes "art_kids x (map (apsnd rroot) cs)" "an_type x = AT_NODE48"
  obtains s where "arr_get (an_keys x) (unat b) = Some s" "s = 255 \<longleftrightarrow> map_of cs b = None"
    "\<And>c. map_of cs b = Some c \<Longrightarrow> arr_get (an_chs x) (unat s) = Some (rroot c)"
proof -
  have f: "node48_findch x b = Some (case map_of cs b of None \<Rightarrow> nullptr | Some c \<Rightarrow> rroot c)"
    using art_findch_ok [OF assms(1), of b] assms(2) by (simp add: art_findch_def map_of_rkids split: option.splits)
  obtain s where s: "arr_get (an_keys x) (unat b) = Some s" using f by (auto simp: node48_findch_def split: bind_splits)
  have "s = an_keys x ! unat b" using s by (simp add: arr_get_def split: if_splits)
  then have e: "s = 255 \<longleftrightarrow> map_of cs b = None"
    using assms by (auto simp: art_kids_def art_shell_def slots_ok_def map_of_eq_None_iff image_image)
  with f s show thesis by (intro that [of s]) (auto simp: node48_findch_def)
qed

lemma cell_child:
  assumes "art_kids x (map (apsnd rroot) cs)" "an_type x = AT_NODE256"
  shows "arr_get (an_chs x) (unat b) = Some (case map_of cs b of None \<Rightarrow> nullptr | Some c \<Rightarrow> rroot c)"
    and "map_of cs b = Some c \<Longrightarrow> rroot c \<noteq> nullptr"
proof -
  show "arr_get (an_chs x) (unat b) = Some (case map_of cs b of None \<Rightarrow> nullptr | Some c \<Rightarrow> rroot c)"
    using art_findch_ok [OF assms(1), of b] assms(2)
    by (simp add: art_findch_def node256_findch_def map_of_rkids split: option.splits)
  show "rroot c \<noteq> nullptr" if "map_of cs b = Some c"
    using assms(1) map_of_SomeD [OF that] by (force simp: art_kids_def)
qed

text \<open>What the functions of the node types do with a byte to start after, or none.\<close>

definition kids_after :: "byte option \<Rightarrow> (byte \<times> 'c) list \<Rightarrow> (byte \<times> 'c) list" where
  "kids_after pkey cs = (case pkey of None \<Rightarrow> cs | Some p \<Rightarrow> filter (\<lambda>(b, c). p < b) cs)"

lemma filter_after: "filter (\<lambda>(b, c). p < b) cs = (if p + 1 = (0 :: byte) then [] else filter (\<lambda>(b, c). p + 1 \<le> b) cs)"
proof -
  have "p + 1 \<le> b \<longleftrightarrow> p < b" if "p + 1 \<noteq> 0" for b
    using byte_succ [OF that] by (simp add: word_le_nat_alt word_less_nat_alt Suc_le_eq)
  moreover have "\<not> p < b" if "p + 1 = 0" for b
    using that by (simp add: eq_neg_iff_add_eq_0 [symmetric] not_less)
  ultimately show ?thesis by (auto simp: filter_False)
qed

lemma drop_byte_gt:
  assumes "ordered cs"
  shows "drop (byte_gt p (map fst cs)) cs = filter (\<lambda>(b, c). p < b) cs"
proof -
  have "drop (byte_gt p (map fst cs)) cs = dropWhile (\<lambda>x. fst x \<le> p) cs"
    by (simp add: byte_gt_def takeWhile_map comp_def)
  also have "\<dots> = filter (\<lambda>(b, c). p < b) cs"
    using assms
  proof (induction cs)
    case (Cons x cs)
    have "filter (\<lambda>(b, c). p < b) cs = cs" if "p < fst x" using Cons.prems that by (force simp: filter_id_conv)
    with Cons show ?case by (cases x) (auto simp: not_le)
  qed simp
  finally show ?thesis .
qed

lemma small_scan_ok:
  assumes k: "art_kids x (map (apsnd rroot) cs)" "art_small x"
    and s: "\<And>b c ret. (b, c) \<in> set cs \<Longrightarrow> length ret < n \<Longrightarrow> scan (rroot c) ret = Some (fill n ret (f c))"
  shows "art_scan_children scan x (case pkey of None \<Rightarrow> 0 | Some p \<Rightarrow> byte_gt p (map fst cs)) n ret =
    Some (fill n ret (concat (map (\<lambda>(b, c). f c) (kids_after pkey cs))))"
proof -
  have o: "ordered cs" using art_kids_ordered [OF k(1)] by (simp add: comp_def)
  have x: "take (length cs) (an_chs x) = map (rroot \<circ> snd) cs" "an_size x = length cs"
    using kids_smallD [OF k] by (simp_all add: comp_def)
  then have "length cs \<le> length (an_chs x)" by (metis length_map length_take min.absorb_iff2)
  then have l: "art_scan_children scan x idx n ret = Some (fill n ret (concat (map (\<lambda>(b, c). f c) (drop idx cs))))"
    if "idx \<le> length cs" for idx
    using that by (intro scan_children_ok [OF x]) (auto intro: s)
  have "byte_gt p (map fst cs) \<le> length cs" for p using byte_gt_le [of p "map fst cs"] by simp
  with l [of 0] l [of "byte_gt (the pkey) (map fst cs)"] show ?thesis
    by (cases pkey) (simp_all add: kids_after_def drop_byte_gt [OF o])
qed

lemma node_scan_ok:
  assumes k: "art_kids x (map (apsnd rroot) cs)"
    and s: "\<And>b c ret. (b, c) \<in> set cs \<Longrightarrow> length ret < n \<Longrightarrow> scan (rroot c) ret = Some (fill n ret (f c))"
    and R: "R = Some (fill n ret (concat (map (\<lambda>(b, c). f c) (kids_after pkey cs))))"
  shows "an_type x = AT_NODE4 \<Longrightarrow> node4_scan_append scan x pkey n ret = R"
    and "an_type x = AT_NODE16 \<Longrightarrow> node16_scan_append scan x pkey n ret = R"
    and "an_type x = AT_NODE48 \<Longrightarrow> node48_scan_append scan x pkey n ret = R"
    and "an_type x = AT_NODE256 \<Longrightarrow> node256_scan_append scan x pkey n ret = R"
proof -
  have o: "ordered cs" using art_kids_ordered [OF k] by (simp add: comp_def)
  have sh: "art_shell x (map fst cs)" using k by (simp add: art_kids_def comp_def)
  have small: "art_scan_children scan x (case pkey of None \<Rightarrow> 0 | Some p \<Rightarrow> byte_gt p (map fst cs)) n ret = R" if "art_small x"
    unfolding R by (rule small_scan_ok [OF k that]) (rule s)
  show "node4_scan_append scan x pkey n ret = R" if "an_type x = AT_NODE4"
    using small that node4_findgt_ok [OF sh that]
    by (cases pkey) (simp_all add: node4_scan_append_def)
  show "node16_scan_append scan x pkey n ret = R" if "an_type x = AT_NODE16"
    using small that node16_findgt_ok [OF sh that]
    by (cases pkey) (simp_all add: node16_scan_append_def)
  have all: "filter (\<lambda>(b, c). 0 \<le> b) cs = cs" by (simp add: filter_id_conv case_prod_beta)
  show "node48_scan_append scan x pkey n ret = R" if t: "an_type x = AT_NODE48"
  proof -
    have "node48_scan_from scan x idx n ret = (if length ret < n
        then do {
          ret \<leftarrow> (case map_of cs idx of None \<Rightarrow> Some ret | Some c \<Rightarrow> scan (rroot c) ret);
          if idx + 1 = (0 :: byte) then Some ret else node48_scan_from scan x (idx + 1) n ret }
        else Some ret)" for idx ret
    proof -
      obtain s where "arr_get (an_keys x) (unat idx) = Some s" "s = 255 \<longleftrightarrow> map_of cs idx = None"
        "\<And>c. map_of cs idx = Some c \<Longrightarrow> arr_get (an_chs x) (unat s) = Some (rroot c)"
        using slot_child [OF k t, of idx] by blast
      then show ?thesis by (subst node48_scan_from.simps) (simp split: option.split)
    qed
    from byte_loop_ok [where f = f, OF this o s] show ?thesis
      unfolding R node48_scan_append_def kids_after_def filter_after by (simp add: all split: option.split)
  qed
  show "node256_scan_append scan x pkey n ret = R" if t: "an_type x = AT_NODE256"
  proof -
    have "node256_scan_from scan x idx n ret = (if length ret < n
        then do {
          ret \<leftarrow> (case map_of cs idx of None \<Rightarrow> Some ret | Some c \<Rightarrow> scan (rroot c) ret);
          if idx + 1 = (0 :: byte) then Some ret else node256_scan_from scan x (idx + 1) n ret }
        else Some ret)" for idx ret
      using cell_child [OF k t, of idx] by (subst node256_scan_from.simps) (simp split: option.split)
    from byte_loop_ok [where f = f, OF this o s] show ?thesis
      unfolding R node256_scan_append_def kids_after_def filter_after by (simp add: all split: option.split)
  qed
qed

text \<open>
  A scan of a subtree, from its start or after a byte of its root. The leaf is appended without
  a look at the number of results, so there must be room.
\<close>

lemma scan_append_node_ok:
  assumes "rrepr (cells m) ofs (RNode a q cs)"
    "\<And>b c ret. (b, c) \<in> set cs \<Longrightarrow> length ret < n \<Longrightarrow>
       art_scan_append fuel (rroot c) None n ret m = Some (fill n ret (tr_kvs (rerase c)))"
  shows "art_scan_append (Suc fuel) a pkey n ret m = Some (fill n ret (concat (map (\<lambda>(b, c). tr_kvs (rerase c)) (kids_after pkey cs))))"
proof -
  obtain x where x: "cells m a = Some x" "art_head x ofs q" "art_kids x (map (apsnd rroot) cs)" using assms(1) by auto
  have "an_type x \<noteq> AT_LEAF" using x(2) by (simp add: art_head_def)
  with x(1) node_scan_ok [OF x(3), where f = "\<lambda>c. tr_kvs (rerase c)" and scan = "\<lambda>c ret. art_scan_append fuel c None n ret m", OF assms(2) refl, where ret = ret and pkey = pkey]
  show ?thesis by (cases "an_type x") (simp_all add: mem_get_def Let_def)
qed

lemma art_scan_append_ok:
  "rrepr (cells m) ofs t \<Longrightarrow> tr_height (rerase t) < fuel \<Longrightarrow> length ret < n \<Longrightarrow>
   art_scan_append fuel (rroot t) None n ret m = Some (fill n ret (tr_kvs (rerase t)))"
proof (induction t arbitrary: ofs fuel ret)
  case (RLeaf a k v)
  then show ?case by (cases fuel) (auto simp: mem_get_def art_leaf_def fill_def)
next
  case (RNode a q cs)
  obtain f where f: "fuel = Suc f" using RNode.prems(2) by (cases fuel) auto
  have sub: "art_scan_append f (rroot c) None n ret m = Some (fill n ret (tr_kvs (rerase c)))"
    if c: "(b, c) \<in> set cs" and "length ret < n" for b c ret
  proof -
    have "(b, rerase c) \<in> set (map (\<lambda>(b, c). (b, rerase c)) cs)" using c by force
    from tr_height_kid [OF this, of q] have "tr_height (rerase c) < f" using RNode.prems(2) f by (simp del: tr_height.simps)
    with RNode.IH [OF c, of c "Suc (ofs + length q)" f ret] RNode.prems(1) that show ?thesis by auto
  qed
  have "art_scan_append (Suc f) a None n ret m = Some (fill n ret (concat (map (\<lambda>(b, c). tr_kvs (rerase c)) (kids_after None cs))))"
    by (rule scan_append_node_ok [OF RNode.prems(1)]) (rule sub)
  moreover have "concat (map (\<lambda>(b, c). tr_kvs (rerase c)) (kids_after None cs)) = tr_kvs (rerase (RNode a q cs))"
    by (simp add: kids_after_def comp_def case_prod_beta')
  ultimately show ?case by (simp only: f rroot.simps)
qed

section \<open>Range scans\<close>

lemma full_path: "tr_full p t \<Longrightarrow> (k, v) \<in> set (tr_kvs t) \<Longrightarrow> take (length p) (key_bytes k) = p"
proof (induction p t rule: tr_full.induct)
  case (2 p q cs)
  then obtain b c where c: "(b, c) \<in> set cs" "(k, v) \<in> set (tr_kvs c)" "tr_full (p @ q @ [b]) c" by auto
  from "2.IH" [OF c(1) refl c(3,2)] have "take (length (p @ q @ [b])) (key_bytes k) = p @ q @ [b]" .
  then have "take (length p) (take (length (p @ q @ [b])) (key_bytes k)) = p" by simp
  then show ?case by simp
qed simp

lemma key_less_at:
  assumes "n < 8" "take n (key_bytes k) = take n (key_bytes k')" "key_byte k n < key_byte k' n"
  shows "k < k'"
proof -
  define p where "p = take n (key_bytes k)"
  have l: "length p = n" using assms(1) by (simp add: p_def)
  have t: "take (n + 1) (key_bytes j) = take n (key_bytes j) @ [key_byte j n]" for j
    using assms(1) by (simp add: take_Suc_conv_app_nth)
  have "key_bytes k < key_bytes k'"
    by (rule path_less [of p _ _ _ "key_byte k' n", OF _ _ assms(3)]) (simp_all only: l t assms(2) [symmetric] p_def [symmetric])
  then show ?thesis using bytes_key_less [of "key_bytes k" "key_bytes k'"] by simp
qed

abbreviation keys_from :: "key \<Rightarrow> kv list \<Rightarrow> kv list" where
  "keys_from k \<equiv> filter (\<lambda>(k', v). k \<le> k')"

lemma keys_from_side:
  assumes "n < 8" "\<And>k' v. (k', v) \<in> set xs \<Longrightarrow> take n (key_bytes k') = take n (key_bytes k) \<and> key_byte k' n = b"
  shows "b < key_byte k n \<Longrightarrow> keys_from k xs = []" and "key_byte k n < b \<Longrightarrow> keys_from k xs = xs"
proof -
  show "keys_from k xs = []" if "b < key_byte k n"
    using assms(2) key_less_at [OF assms(1), of _ k] that by (fastforce simp: filter_empty_conv not_le)
  show "keys_from k xs = xs" if "key_byte k n < b"
    using assms(2) key_less_at [OF assms(1), of k] that by (force simp: filter_id_conv intro: less_imp_le)
qed

lemma filter_concat_at:
  assumes "ordered cs" "\<And>b' c. (b', c) \<in> set cs \<Longrightarrow> b' < b \<Longrightarrow> filter P (f c) = []"
    "\<And>b' c. (b', c) \<in> set cs \<Longrightarrow> b < b' \<Longrightarrow> filter P (f c) = f c"
  shows "filter P (concat (map (\<lambda>(b, c). f c) cs)) =
    (case map_of cs b of None \<Rightarrow> [] | Some c \<Rightarrow> filter P (f c)) @ concat (map (\<lambda>(b, c). f c) (kids_after (Some b) cs))"
  using assms
proof (induction cs)
  case (Cons d cs)
  obtain b' c where d: "d = (b', c)" by (cases d)
  have above: "b' < b2" if "(b2, c2) \<in> set cs" for b2 c2 using Cons.prems(1) d that by force
  have IH: "filter P (concat (map (\<lambda>(b, c). f c) cs)) =
    (case map_of cs b of None \<Rightarrow> [] | Some c \<Rightarrow> filter P (f c)) @ concat (map (\<lambda>(b, c). f c) (kids_after (Some b) cs))"
    by (rule Cons.IH) (use Cons.prems in auto)
  show ?case
  proof (cases "b' < b")
    case True
    then have "map_of (d # cs) b = map_of cs b" "kids_after (Some b) (d # cs) = kids_after (Some b) cs"
      by (auto simp: d kids_after_def)
    with IH True Cons.prems(2) [of b' c] show ?thesis by (simp add: d)
  next
    case False
    then have "b \<notin> fst ` set cs" using above by force
    then have "map_of cs b = None" by (simp add: map_of_eq_None_iff)
    moreover have "kids_after (Some b) cs = cs" using above False by (force simp: kids_after_def filter_id_conv)
    ultimately show ?thesis using IH False Cons.prems(3) [of b' c]
      by (auto simp: d kids_after_def not_less order_le_less)
  qed
qed (simp add: kids_after_def)

lemma art_scan_search_ok:
  "rrepr (cells m) (length p) t \<Longrightarrow> tr_full p (rerase t) \<Longrightarrow> take (length p) (key_bytes k) = p \<Longrightarrow>
   tr_height (rerase t) < fuel \<Longrightarrow> length ret < n \<Longrightarrow>
   art_scan_search ub fuel (rroot t) k n ret m = Some (fill n ret (keys_from k (tr_kvs (rerase t))))"
proof (induction t arbitrary: p fuel ret)
  case (RLeaf a k' v)
  then obtain x where x: "a \<noteq> nullptr" "cells m a = Some x" "art_leaf x (length p) k' v" by auto
  obtain f where f: "fuel = Suc f" using RLeaf.prems(4) by (cases fuel) auto
  let ?n = "length p" and ?l = "lcp (drop (length p) (key_bytes k')) (drop (length p) (key_bytes k))"
  have l: "an_len x = 8 - ?n" "an_type x = AT_LEAF" "an_val x = v" "an_pfx x = k'" "an_ofs x = ?n" "?n \<le> 8"
    using x(3) by (simp_all add: art_leaf_def)
  have lm: "?l = min (8 - ?n) (art_prefix_match ub x k)" by (rule match_leaf [OF x(3)])
  have p: "take ?n (key_bytes k') = take ?n (key_bytes k)" using RLeaf.prems(2,3) by simp
  have leaf: "fill n ret [(k', v)] = ret @ [(k', v)]" using RLeaf.prems(5) by (simp add: fill_def)
  show ?case
  proof (cases "art_prefix_match ub x k < 8 - ?n")
    case True
    then have m: "art_prefix_match ub x k = ?l" "?n + ?l < 8" using lm by simp_all
    have neq: "key_byte k' (?n + ?l) \<noteq> key_byte k (?n + ?l)"
      using lcp_neq [of "drop ?n (key_bytes k')" "drop ?n (key_bytes k)"] m(2) by simp
    have same: "take (?n + ?l) (key_bytes k') = take (?n + ?l) (key_bytes k)"
      using p lcp_take [of "drop ?n (key_bytes k')" "drop ?n (key_bytes k)"] by (simp add: take_add)
    note side = keys_from_side [OF m(2), of "[(k', v)]" k "key_byte k' (?n + ?l)"]
    show ?thesis
    proof (cases "key_byte k' (?n + ?l) < key_byte k (?n + ?l)")
      case less: True
      then have "keys_from k [(k', v)] = []" by (intro side(1)) (use same in auto)
      with less True m x(1,2) l show ?thesis by (simp add: f mem_get_def Let_def partial_key_byte)
    next
      case False
      with neq have "key_byte k (?n + ?l) < key_byte k' (?n + ?l)" by auto
      then have "keys_from k [(k', v)] = [(k', v)]" by (intro side(2)) (use same in auto)
      with False True m x(1,2) l leaf show ?thesis by (simp add: f mem_get_def Let_def partial_key_byte)
    qed
  next
    case False
    then have "?l = 8 - ?n" using lm by simp
    then have "drop ?n (key_bytes k') = drop ?n (key_bytes k)"
      using lcp_full [of "drop ?n (key_bytes k')" "drop ?n (key_bytes k)"] by simp
    with p have "key_bytes k' = key_bytes k" by (metis append_take_drop_id)
    then have "k' = k" by (simp add: key_bytes_inj)
    with False x(1,2) l leaf show ?thesis by (simp add: f mem_get_def Let_def)
  qed
next
  case (RNode a q cs)
  then obtain x where x: "a \<noteq> nullptr" "cells m a = Some x" "art_head x (length p) q" "art_kids x (map (apsnd rroot) cs)" by auto
  obtain f where f: "fuel = Suc f" "0 < f" using RNode.prems(4) by (cases fuel) auto
  let ?n = "length p" and ?l = "lcp q (drop (length p) (key_bytes k))"
  have h: "an_len x = length q" "an_type x \<noteq> AT_LEAF" "an_ofs x = ?n" "?n + length q < 8" "pfx_bytes (an_pfx x) ?n (length q) = q"
    using x(3) by (simp_all add: art_head_def)
  have o: "ordered cs" using art_kids_ordered [OF x(4)] by (simp add: comp_def)
  have lm: "?l = min (length q) (art_prefix_match ub x k)" by (rule match_head [OF x(3)])
  have full: "tr_full (p @ q @ [b]) (rerase c)" if "(b, c) \<in> set cs" for b c using RNode.prems(2) that by auto
  have path: "take (?n + length q) (key_bytes k') = p @ q \<and> key_byte k' (?n + length q) = b"
    if "(b, c) \<in> set cs" "(k', v) \<in> set (tr_kvs (rerase c))" for b c k' v
    using full_path [OF full [OF that(1)] that(2)] h(4) by (simp add: take_Suc_conv_app_nth add.commute)
  have small: "tr_height (rerase c) < f" if "(b, c) \<in> set cs" for b c
  proof -
    have "(b, rerase c) \<in> set (map (\<lambda>(b, c). (b, rerase c)) cs)" using that by force
    from tr_height_kid [OF this, of q] show ?thesis using RNode.prems(4) f(1) by (simp del: tr_height.simps)
  qed
  have rep: "rrepr (cells m) (Suc (?n + length q)) c" if "(b, c) \<in> set cs" for b c using RNode.prems(1) that by auto
  have append: "art_scan_append (Suc f) a pkey n ret m = Some (fill n ret (concat (map (\<lambda>(b, c). tr_kvs (rerase c)) (kids_after pkey cs))))" for pkey ret
    by (rule scan_append_node_ok [OF RNode.prems(1)]) (rule art_scan_append_ok [OF rep small])
  have kvs: "tr_kvs (rerase (RNode a q cs)) = concat (map (\<lambda>(b, c). tr_kvs (rerase c)) cs)" by (simp add: comp_def case_prod_beta')
  show ?case
  proof (cases "art_prefix_match ub x k < length q")
    case True
    then have m: "art_prefix_match ub x k = ?l" "?l < length q" "?n + ?l < 8" using lm h(4) by simp_all
    have b: "art_partial_key ub (an_pfx x) (?n + ?l) = q ! ?l"
      using pfx_bytes_nth [of ?n "length q" ?l "an_pfx x"] m(2) h(4,5) by (simp add: partial_key_byte)
    have neq: "q ! ?l \<noteq> key_byte k (?n + ?l)" using lcp_neq [OF m(2)] m(3) by simp
    have same: "take (?n + ?l) (key_bytes k') = take (?n + ?l) (key_bytes k) \<and> key_byte k' (?n + ?l) = q ! ?l"
      if "(k', v) \<in> set (tr_kvs (rerase (RNode a q cs)))" for k' v
    proof -
      from that obtain b c where "(b, c) \<in> set cs" "(k', v) \<in> set (tr_kvs (rerase c))" by auto
      from path [OF this] have t: "take (?n + length q) (key_bytes k') = p @ q" by simp
      have "take (?n + ?l) (key_bytes k') = take (?n + ?l) (take (?n + length q) (key_bytes k'))" using m(2) by (simp add: min_def)
      then have "take (?n + ?l) (key_bytes k') = p @ take ?l q" unfolding t by simp
      moreover have "take (?n + ?l) (key_bytes k) = p @ take ?l q"
        using RNode.prems(3) lcp_take [of q "drop ?n (key_bytes k)"] by (simp add: take_add)
      moreover have "key_byte k' (?n + ?l) = take (?n + length q) (key_bytes k') ! (?n + ?l)" using m(2,3) by simp
      ultimately show ?thesis using t m(2) by (simp add: min_def nth_append)
    qed
    let ?xs = "tr_kvs (rerase (RNode a q cs))"
    have side: "q ! ?l < key_byte k (?n + ?l) \<Longrightarrow> keys_from k ?xs = []" "key_byte k (?n + ?l) < q ! ?l \<Longrightarrow> keys_from k ?xs = ?xs"
      using same by (intro keys_from_side [OF m(3), of ?xs k "q ! ?l"]; simp)+
    show ?thesis
    proof (cases "q ! ?l < key_byte k (?n + ?l)")
      case less: True
      with True m x(1,2) h b side(1) show ?thesis by (simp add: f mem_get_def Let_def partial_key_byte del: rerase.simps)
    next
      case False
      with neq have "key_byte k (?n + ?l) < q ! ?l" by auto
      with False True m x(1,2) h b side(2) append [of None ret] kvs show ?thesis
        by (simp add: f mem_get_def Let_def partial_key_byte kids_after_def del: rerase.simps art_scan_append.simps)
    qed
  next
    case False
    then have "?l = length q" using lm by simp
    then have q: "take (length q) (drop ?n (key_bytes k)) = q" by (rule lcp_full)
    let ?b = "key_byte k (?n + length q)"
    have k: "take (?n + length q) (key_bytes k) = p @ q" using q RNode.prems(3) by (simp add: take_add)
    have kb: "take (length (p @ q @ [?b])) (key_bytes k) = p @ q @ [?b]"
      using k h(4) by (simp add: take_Suc_conv_app_nth add.commute)
    have side: "b < ?b \<Longrightarrow> keys_from k (tr_kvs (rerase c)) = []" "?b < b \<Longrightarrow> keys_from k (tr_kvs (rerase c)) = tr_kvs (rerase c)"
      if "(b, c) \<in> set cs" for b c
      using path [OF that] k by (auto intro!: keys_from_side [OF h(4), of _ k b])
    have "art_scan_search ub f (case map_of cs ?b of None \<Rightarrow> nullptr | Some c \<Rightarrow> rroot c) k n ret m =
        Some (fill n ret (case map_of cs ?b of None \<Rightarrow> [] | Some c \<Rightarrow> keys_from k (tr_kvs (rerase c))))"
    proof (cases "map_of cs ?b")
      case None
      with f(2) show ?thesis by (cases f) simp_all
    next
      case (Some c)
      then have c: "(?b, c) \<in> set cs" by (rule map_of_SomeD)
      have "art_scan_search ub f (rroot c) k n ret m = Some (fill n ret (keys_from k (tr_kvs (rerase c))))"
        by (rule RNode.IH [OF c, of c "p @ q @ [?b]"]) (use rep [OF c] full [OF c] kb small [OF c] RNode.prems(5) in auto)
      with Some show ?thesis by simp
    qed
    moreover have "art_findch x ?b = Some (case map_of cs ?b of None \<Rightarrow> nullptr | Some c \<Rightarrow> rroot c)"
      using art_findch_ok [OF x(4), of ?b] by (simp add: map_of_rkids split: option.split)
    moreover have "keys_from k (tr_kvs (rerase (RNode a q cs))) =
        (case map_of cs ?b of None \<Rightarrow> [] | Some c \<Rightarrow> keys_from k (tr_kvs (rerase c))) @
        concat (map (\<lambda>(b, c). tr_kvs (rerase c)) (kids_after (Some ?b) cs))"
      unfolding kvs by (rule filter_concat_at [OF o]) (rule side, assumption+)+
    ultimately show ?thesis using False x(1,2) h append
      by (simp add: f mem_get_def Let_def partial_key_byte del: rerase.simps art_scan_append.simps)
  qed
qed

lemma keys_from_scan: "ordered xs \<Longrightarrow> take n (keys_from k xs) = kv_scan k n xs"
proof -
  assume "ordered xs"
  then have "keys_from k xs = dropWhile (\<lambda>x. fst x < k) xs"
  proof (induction xs)
    case (Cons x xs)
    have "keys_from k xs = xs" if "k \<le> fst x" using Cons.prems that by (force simp: filter_id_conv)
    with Cons show ?case by (cases x) (auto simp: not_less)
  qed simp
  then show ?thesis by (simp add: kv_scan_def)
qed

end
