(* ===== verification/Art_Inplace.thy ===== *)
theory Art_Inplace
  imports Art_Query
begin

text \<open>
  \<^verbatim>\<open>lib/trees/art/update_inplace.hpp\<close> and \<^verbatim>\<open>build.hpp\<close>: the in-place update and the loader.
\<close>

section \<open>The code\<close>

text \<open>The node that moves below the fork loses its first \<^term>\<open>d\<close> bytes.\<close>

definition art_shift :: "shifts \<Rightarrow> nat \<Rightarrow> anode \<Rightarrow> anode" where
  "art_shift ub d n =
     (let n = n\<lparr>an_ofs := an_ofs n + d, an_len := an_len n - d\<rparr>
      in if an_type n \<noteq> AT_LEAF then n\<lparr>an_pfx := an_pfx n AND art_prefix_mask ub (an_ofs n) (an_len n)\<rparr> else n)"

definition art_fork_inplace :: "shifts \<Rightarrow> addr \<Rightarrow> nat \<Rightarrow> nat \<Rightarrow> key \<Rightarrow> val \<Rightarrow> amem \<Rightarrow> (addr \<times> amem) option" where
  "art_fork_inplace ub t ofs pmlen key val m =
     do { (t_par, m) \<leftarrow> art_new_node ub 0 AT_NODE4 ofs pmlen key m;
          n \<leftarrow> mem_get m t;
          let pk0 = art_partial_key ub (an_pfx n) (an_ofs n + pmlen);
          m \<leftarrow> mem_upd m t (\<lambda>n. Some (art_shift ub (pmlen + 1) n));
          let ofs = ofs + pmlen;
          let pk1 = art_partial_key ub key ofs;
          let idx = (if pk0 > pk1 then 1 else 0);
          m \<leftarrow> mem_upd m t_par (\<lambda>n. do {
                 ks \<leftarrow> arr_set (an_keys n) idx pk0;
                 cs \<leftarrow> arr_set (an_chs n) idx t;
                 ks \<leftarrow> arr_set ks (1 - idx) pk1;
                 Some (n\<lparr>an_keys := ks, an_chs := cs\<rparr>) });
          (l, m) \<leftarrow> art_new_leaf ub 0 (ofs + 1) key val m;
          m \<leftarrow> mem_upd m t_par (\<lambda>n. do { cs \<leftarrow> arr_set (an_chs n) (1 - idx) l; Some (n\<lparr>an_chs := cs\<rparr>) });
          Some (t_par, m) }"

text \<open>An assignment through the pointer that \<^verbatim>\<open>getch\<close> returned.\<close>

definition art_set_slot :: "addr \<Rightarrow> nat \<Rightarrow> addr \<Rightarrow> amem \<Rightarrow> amem option" where
  "art_set_slot t pos ch m = mem_upd m t (\<lambda>n. do { cs \<leftarrow> arr_set (an_chs n) pos ch; Some (n\<lparr>an_chs := cs\<rparr>) })"

fun art_update_inplace :: "shifts \<Rightarrow> nat \<Rightarrow> addr \<Rightarrow> nat \<Rightarrow> key \<Rightarrow> val \<Rightarrow> amem \<Rightarrow> (addr \<times> amem) option" where
  "art_update_inplace ub 0 t ofs key val m = None"
| "art_update_inplace ub (Suc fuel) t ofs key val m =
     (if t = nullptr then art_new_leaf ub 0 ofs key val m
      else do {
        n \<leftarrow> mem_get m t;
        let pmlen = art_prefix_match ub n key;
        if pmlen < an_len n then art_fork_inplace ub t ofs pmlen key val m
        else if an_type n = AT_LEAF
        then do { m \<leftarrow> mem_upd m t (\<lambda>n. Some (n\<lparr>an_val := val\<rparr>)); Some (t, m) }
        else do {
          let ofs = ofs + an_len n;
          let pkey = art_partial_key ub key ofs;
          let ofs = ofs + 1;
          idx \<leftarrow> art_find_idx n pkey;
          case idx of
            Some idx \<Rightarrow> do {
              pos \<leftarrow> art_getch n idx;
              ch \<leftarrow> arr_get (an_chs n) pos;
              (ch, m) \<leftarrow> art_update_inplace ub fuel ch ofs key val m;
              m \<leftarrow> art_set_slot t pos ch m;
              Some (t, m) }
          | None \<Rightarrow>
              if art_is_full n
              then do {
                (t_new, m) \<leftarrow> art_node_extend ub t 0 m;
                n_new \<leftarrow> mem_get m t_new;
                (n_new, i) \<leftarrow> art_append n_new pkey;
                n_new \<leftarrow> art_copych_at n_new n i;
                m \<leftarrow> mem_upd m t_new (\<lambda>_. Some n_new);
                (ch, m) \<leftarrow> art_update_inplace ub fuel nullptr ofs key val m;
                pos \<leftarrow> art_getch n_new i;
                m \<leftarrow> art_set_slot t_new pos ch m;
                m \<leftarrow> mem_free m t;
                Some (t_new, m) }
              else do {
                (n, i) \<leftarrow> art_append n pkey;
                m \<leftarrow> mem_upd m t (\<lambda>_. Some n);
                (ch, m) \<leftarrow> art_update_inplace ub fuel nullptr ofs key val m;
                m \<leftarrow> mem_upd m t (\<lambda>n. art_insertch n i ch);
                Some (t, m) } } })"

fun art_build_from :: "shifts \<Rightarrow> nat \<Rightarrow> addr \<Rightarrow> kv list \<Rightarrow> amem \<Rightarrow> (addr \<times> amem) option" where
  "art_build_from ub fuel t [] m = Some (t, m)"
| "art_build_from ub fuel t (e # elems) m =
     do { (t, m) \<leftarrow> art_update_inplace ub fuel t 0 (fst e) (snd e) m; art_build_from ub fuel t elems m }"

definition art_build :: "shifts \<Rightarrow> nat \<Rightarrow> kv list \<Rightarrow> amem \<Rightarrow> (addr \<times> amem) option" where
  "art_build ub fuel elems m = art_build_from ub fuel nullptr elems m"

section \<open>A fork\<close>

lemma art_kids_cong:
  "art_kids x cs \<Longrightarrow> an_type y = an_type x \<Longrightarrow> an_keys y = an_keys x \<Longrightarrow> an_size y = an_size x \<Longrightarrow> an_chs y = an_chs x \<Longrightarrow>
   art_kids y cs"
  unfolding art_kids_def using art_shell_cong [of x "map fst cs" y] art_pos_cong [of y x] by simp

text \<open>The fork node, from what is assigned to its two places.\<close>

lemma fork_node_ok:
  assumes "pk0 \<noteq> pk1" "a \<noteq> nullptr" "b \<noteq> nullptr" "ofs + l < 8"
    "n = art_node0 ub ver AT_NODE4 ofs l key\<lparr>an_keys := ks, an_chs := cs\<rparr>"
    "idx = (if pk0 > pk1 then 1 else 0 :: nat)" "ks = [0, 0, 0, 0][idx := pk0, 1 - idx := pk1]" "cs = [0, 0, 0, 0][idx := a, 1 - idx := b]"
  shows "art_head n ofs (take l (drop ofs (key_bytes key)))" "art_kids n (kv_upd pk1 b [(pk0, a)])"
proof -
  show "art_head n ofs (take l (drop ofs (key_bytes key)))"
    using assms(4) pfx_bytes_mask [of ofs l key ub] by (simp add: assms(5) art_head_def pfx_bytes_def)
  have o: "ordered [(pk0, a)]" by simp
  show "art_kids n (kv_upd pk1 b [(pk0, a)])"
  proof (rule kids_smallI)
    show "art_shell n (map fst (kv_upd pk1 b [(pk0, a)]))"
      unfolding kv_upd_Cons [OF o] using assms(1) by (auto simp: assms(5-8) art_shell_def anode_ok_def kv_upd_Nil)
    show "take (length (kv_upd pk1 b [(pk0, a)])) (an_chs n) = map snd (kv_upd pk1 b [(pk0, a)])"
      unfolding kv_upd_Cons [OF o] using assms(1) by (auto simp: assms(5-8) kv_upd_Nil)
    show "nullptr \<notin> snd ` set (kv_upd pk1 b [(pk0, a)])"
      unfolding kv_upd_Cons [OF o] using assms(1-3) by (auto simp: kv_upd_Nil)
  qed (simp add: assms(5))
qed

lemma shift_leaf: "art_leaf x ofs k v \<Longrightarrow> l < 8 - ofs \<Longrightarrow> art_leaf (art_shift ub (Suc l) x) (Suc (ofs + l)) k v"
  by (auto simp: art_leaf_def art_shift_def anode_ok_def Let_def)

lemma shift_head:
  assumes "art_head x ofs q" "l < length q"
  shows "art_head (art_shift ub (Suc l) x) (Suc (ofs + l)) (drop (Suc l) q)"
proof -
  have x: "ofs + length q < 8" "an_ofs x = ofs" "an_len x = length q" "an_type x \<noteq> AT_LEAF" "pfx_bytes (an_pfx x) ofs (length q) = q"
    using assms(1) by (simp_all add: art_head_def)
  have "pfx_bytes (an_pfx x) (Suc (ofs + l)) (length q - Suc l) = drop (Suc l) (pfx_bytes (an_pfx x) ofs (length q))"
    using x(1) assms(2) by (simp add: pfx_bytes_def drop_take add.commute)
  then have "pfx_bytes (an_pfx x) (Suc (ofs + l)) (length q - Suc l) = drop (Suc l) q" unfolding x(5) .
  then show ?thesis
    using x(1-4) assms(2) pfx_bytes_mask [of "Suc (ofs + l)" "length q - Suc l" "an_pfx x" ub]
    by (simp add: art_head_def art_shift_def Let_def)
qed

lemma shift_kids: "art_kids x cs \<Longrightarrow> art_kids (art_shift ub d x) cs"
  by (erule art_kids_cong) (simp_all add: art_shift_def Let_def)

lemma fork_inplace_ok:
  assumes x: "cells m t = Some x" "t \<noteq> nullptr" "an_ofs x = ofs" "ofs + l < 8"
    "key_byte (an_pfx x) (ofs + l) \<noteq> key_byte key (ofs + l)" and m: "mem_ok anode_blk (2 + j) m"
  obtains a b n n' m' where "art_fork_inplace ub t ofs l key val m = Some (a, m')"
    "cells m' = (cells m)(t \<mapsto> art_shift ub (Suc l) x, a \<mapsto> n, b \<mapsto> n')" "mem_ok anode_blk j m'"
    "cells m a = None" "cells m b = None" "a \<noteq> b" "a \<noteq> nullptr" "b \<noteq> nullptr"
    "art_leaf n' (Suc (ofs + l)) key val" "art_head n ofs (take l (drop ofs (key_bytes key)))"
    "art_kids n (kv_upd (key_byte key (ofs + l)) b [(key_byte (an_pfx x) (ofs + l), t)])"
proof -
  let ?n0 = "art_node0 ub 0 AT_NODE4 ofs l key" and ?pk0 = "key_byte (an_pfx x) (ofs + l)" and ?pk1 = "key_byte key (ofs + l)"
  define idx where "idx = (if ?pk0 > ?pk1 then 1 else 0 :: nat)"
  have m2: "mem_ok anode_blk (Suc (Suc j)) m" using m by simp
  obtain a m1 where m1: "art_new_node ub 0 AT_NODE4 ofs l key m = Some (a, m1)" "mem_new anode_blk (Suc j) m a ?n0 m1"
    by (rule art_new_node_ok [OF m2])
  then have c1: "cells m1 = (cells m)(a \<mapsto> ?n0)" "cells m a = None" "a \<noteq> nullptr" "mem_ok anode_blk (Suc j) m1" by (simp_all add: mem_new_def)
  have at: "a \<noteq> t" using c1(2) x(1) by auto
  let ?f = "\<lambda>n. Some (art_shift ub (l + 1) n)"
  have t1: "cells m1 t = Some x" using at x(1) c1(1) by simp
  have f: "?f x = Some (art_shift ub (Suc l) x)" by simp
  obtain m2 where m2: "mem_upd m1 t ?f = Some m2" "mem_set anode_blk (Suc j) m1 t (art_shift ub (Suc l) x) m2"
    by (rule mem_upd_set [where f = ?f, OF t1 f c1(4)])
  then have c2: "cells m2 = (cells m)(a \<mapsto> ?n0, t \<mapsto> art_shift ub (Suc l) x)" "mem_ok anode_blk (Suc j) m2"
    using c1(1) by (simp_all add: mem_set_def)
  let ?g = "\<lambda>n. do { ks \<leftarrow> arr_set (an_keys n) idx ?pk0; cs \<leftarrow> arr_set (an_chs n) idx t; ks \<leftarrow> arr_set ks (1 - idx) ?pk1;
     Some (n\<lparr>an_keys := ks, an_chs := cs\<rparr>) }"
  define ks where "ks = [0, 0, 0, 0][idx := ?pk0, 1 - idx := ?pk1]"
  define n1 where "n1 = ?n0\<lparr>an_keys := ks, an_chs := [0, 0, 0, 0][idx := t]\<rparr>"
  have r: "replicate 4 0 = [0, 0, 0, 0 :: 'z::zero]" by (simp add: numeral_eq_Suc)
  have g: "?g ?n0 = Some n1" by (cases "?pk0 > ?pk1") (simp_all add: n1_def ks_def arr_set_def r idx_def)
  have a2: "cells m2 a = Some ?n0" using at c2(1) by simp
  obtain m3 where m3: "mem_upd m2 a ?g = Some m3" "mem_set anode_blk (Suc j) m2 a n1 m3"
    by (rule mem_upd_set [where f = ?g, OF a2 g c2(2)])
  then have c3: "cells m3 = (cells m)(t \<mapsto> art_shift ub (Suc l) x, a \<mapsto> n1)" "mem_ok anode_blk (Suc j) m3"
    using c2(1) at by (auto simp: mem_set_def fun_upd_twist)
  have o8: "ofs + l + 1 \<le> 8" using x(4) by simp
  obtain b n' m4 where m4: "art_new_leaf ub 0 (ofs + l + 1) key val m3 = Some (b, m4)" "mem_new anode_blk j m3 b n' m4"
    "art_leaf n' (ofs + l + 1) key val" by (rule art_new_leaf_ok [OF c3(2) o8])
  then have c4: "cells m4 = (cells m3)(b \<mapsto> n')" "cells m3 b = None" "b \<noteq> nullptr" "mem_ok anode_blk j m4" by (simp_all add: mem_new_def)
  have b: "b \<noteq> a" "b \<noteq> t" "cells m b = None" using c4(2) c3(1) by (auto split: if_splits)
  let ?h = "\<lambda>n. do { cs \<leftarrow> arr_set (an_chs n) (1 - idx) b; Some (n\<lparr>an_chs := cs\<rparr>) }"
  define n where "n = ?n0\<lparr>an_keys := ks, an_chs := [0, 0, 0, 0][idx := t, 1 - idx := b]\<rparr>"
  have h: "?h n1 = Some n" by (cases "?pk0 > ?pk1") (simp_all add: n1_def n_def arr_set_def idx_def)
  have a4: "cells m4 a = Some n1" using b c3(1) c4(1) by simp
  obtain m5 where m5: "mem_upd m4 a ?h = Some m5" "mem_set anode_blk j m4 a n m5"
    by (rule mem_upd_set [where f = ?h, OF a4 h c4(4)])
  then have c5: "cells m5 = (cells m)(t \<mapsto> art_shift ub (Suc l) x, a \<mapsto> n, b \<mapsto> n')" "mem_ok anode_blk j m5"
    using c4(1) c3(1) at b by (auto simp: mem_set_def fun_upd_twist)
  have run: "art_fork_inplace ub t ofs l key val m = Some (a, m5)"
    using m1(1) m2(1) m3(1) m4(1) m5(1) t1 x(3,4)
    by (simp add: art_fork_inplace_def mem_get_def partial_key_byte idx_def [symmetric] Let_def)
  note n = fork_node_ok [OF x(5,2) c4(3) x(4) n_def idx_def ks_def refl]
  show thesis
    by (rule that [OF run c5 c1(2) b(3) b(1) [symmetric] c1(3) c4(3) _ n]) (use m4(3) in simp)
qed

lemma append_insertch_ok:
  assumes "art_kids x cs" "b \<notin> fst ` set cs" "\<not> art_is_full x" "an_type x \<noteq> AT_NODE256"
  obtains x' i where "art_append x b = Some (x', i)"
    "\<forall>a. a \<noteq> nullptr \<longrightarrow> (\<exists>z. art_insertch x' i a = Some z \<and> art_kids z (kv_upd b a cs) \<and> art_same_head x z)"
proof -
  note result = that
  let ?bs = "map fst cs"
  have o: "ordered cs" by (rule art_kids_ordered [OF assms(1)])
  have sh: "art_shell x ?bs" using assms(1) by (simp add: art_kids_def)
  have b: "b \<notin> set ?bs" using assms(2) by simp
  obtain x' i where x': "art_append x b = Some (x', i)" "art_shell x' (byte_ins b ?bs)"
    "art_getch x' i = Some (art_pos x' (byte_ins b ?bs) b)" "an_type x' = an_type x" "an_chs x' = an_chs x"
    "an_ofs x' = an_ofs x" "an_len x' = an_len x" "an_pfx x' = an_pfx x" "an_ver x' = an_ver x"
    "art_small x \<longrightarrow> i = byte_idx b ?bs"
    "an_type x = AT_NODE48 \<longrightarrow> i = unat b \<and> an_keys x' ! unat b = of_nat (length ?bs) \<and>
       (\<forall>c \<in> set ?bs. an_keys x' ! unat c = an_keys x ! unat c)"
    by (rule append_ok [OF sh b assms(3)])
  have len: "art_small x \<Longrightarrow> length cs < length (an_chs x) \<and> an_size x' = Suc (length cs)"
    using sh x'(2,4) assms(3) by (auto simp: art_shell_def anode_ok_def art_is_full_def)
  have "\<exists>z. art_insertch x' i a = Some z \<and> art_kids z (kv_upd b a cs) \<and> art_same_head x z" if a: "a \<noteq> nullptr" for a
  proof (cases "art_small x")
    case True
    obtain chs where chs: "arr_copy_insert (an_chs x') (an_chs x) (an_size x) (byte_idx b ?bs) nullptr = Some chs"
      "length chs = length (an_chs x')" "byte_idx b ?bs < length chs"
      "art_kids (x'\<lparr>an_chs := chs[byte_idx b ?bs := a]\<rparr>) (kv_upd b a cs)"
      by (rule grow_small [OF assms(1,2) a True _ x'(2)]) (use True x'(4) in simp)
    have sz: "an_size x = length cs" using kids_smallD(2) [OF assms(1) True] .
    have le: "byte_idx b ?bs \<le> length cs" using byte_idx_le [of b ?bs] by simp
    have "arr_insert (an_chs x') (length cs) (byte_idx b ?bs) a = Some (chs[byte_idx b ?bs := a])"
      using chs(1) len [OF True] le sz x'(5)
      by (auto simp: arr_copy_insert_def arr_insert_def list_update_append split: if_splits)
    then have "art_insertch x' i a = Some (x'\<lparr>an_chs := chs[byte_idx b ?bs := a]\<rparr>)"
      using True x'(4,10) len [OF True] by (auto simp: art_insertch_def node4_insertch_def node16_insertch_def)
    then show ?thesis using chs(4) x'(4,6-9) by (simp add: art_same_head_def)
  next
    case False
    then have t: "an_type x = AT_NODE48" using assms(4) sh by (cases "an_type x") (simp_all add: art_shell_def)
    obtain chs where chs: "arr_copy (an_chs x') (an_chs x) (an_size x) = Some chs" "length chs = 48" "length cs < 48"
      "unat (an_keys x' ! unat b) = length cs" "art_kids (x'\<lparr>an_chs := chs[length cs := a]\<rparr>) (kv_upd b a cs)"
      by (rule grow_slots [OF assms(1,2) a _ x'(2)]) (use t x'(4,11) in \<open>auto simp: art_pos_def\<close>)
    have "chs = an_chs x" using chs(1) x'(5) by (simp add: arr_copy_def split: if_splits)
    moreover have "unat b < length (an_keys x')" using x'(2,4) t by (simp add: art_shell_def anode_ok_def)
    ultimately have "art_insertch x' i a = Some (x'\<lparr>an_chs := chs[length cs := a]\<rparr>)"
      using t x'(4,5,11) chs(2-4) by (simp add: art_insertch_def node48_insertch_def arr_get_def arr_set_def)
    then show ?thesis using chs(5) x'(4,6-9) by (simp add: art_same_head_def)
  qed
  then show thesis by (intro result [OF x'(1)]) blast
qed

section \<open>Replacing a child in memory\<close>

lemma kv_upd_split:
  "ordered cs \<Longrightarrow> \<exists>ys zs. cs = ys @ (case map_of cs b of None \<Rightarrow> [] | Some c \<Rightarrow> [(b, c)]) @ zs \<and> (\<forall>x. kv_upd b x cs = ys @ (b, x) # zs)"
proof (induction cs)
  case (Cons d cs)
  obtain b' c where d: "d = (b', c)" by (cases d)
  from Cons obtain ys zs where IH: "cs = ys @ (case map_of cs b of None \<Rightarrow> [] | Some c \<Rightarrow> [(b, c)]) @ zs" "\<And>x. kv_upd b x cs = ys @ (b, x) # zs"
    by auto
  show ?case
  proof (cases "b' < b")
    case True
    with IH show ?thesis unfolding kv_upd_Cons [OF Cons.prems] by (intro exI [of _ "d # ys"] exI [of _ zs]) (auto simp: d)
  next
    case False
    then have "b \<notin> fst ` set cs" using Cons.prems d by force
    then have "map_of cs b = None" by (simp add: map_of_eq_None_iff)
    with False show ?thesis unfolding kv_upd_Cons [OF Cons.prems]
      by (intro exI [of _ "[]"] exI [of _ "if b' = b then cs else d # cs"]) (auto simp: d)
  qed
qed (simp add: kv_upd_Nil)

definition ofoot :: "rtree option \<Rightarrow> addr set" where
  "ofoot c = (case c of None \<Rightarrow> {} | Some t \<Rightarrow> set (rfoot t))"

lemma ofoot_simps [simp]: "ofoot None = {}" "ofoot (Some t) = set (rfoot t)"
  by (simp_all add: ofoot_def)

lemma replace_kid_ok:
  assumes r: "rrepr h ofs (RNode a q cs)" "distinct (rfoot (RNode a q cs))"
    and step: "heap_step h (insert a (ofoot (map_of cs b))) h' (insert a' (set (rfoot c')))"
    and z: "h' a' = Some z" "a' \<noteq> nullptr" "art_head z ofs q" "art_kids z (kv_upd b (rroot c') (map (apsnd rroot) cs))"
    and c': "rrepr h' (Suc (ofs + length q)) c'" "distinct (a' # rfoot c')"
  shows "rrepr h' ofs (RNode a' q (kv_upd b c' cs))" "distinct (rfoot (RNode a' q (kv_upd b c' cs)))"
    "heap_step h (set (rfoot (RNode a q cs))) h' (set (rfoot (RNode a' q (kv_upd b c' cs))))"
proof -
  obtain x where "art_kids x (map (apsnd rroot) cs)" using r(1) by auto
  from art_kids_ordered [OF this] have o: "ordered cs" by (simp add: comp_def)
  obtain ys zs where cs: "cs = ys @ (case map_of cs b of None \<Rightarrow> [] | Some c \<Rightarrow> [(b, c)]) @ zs" "\<And>x. kv_upd b x cs = ys @ (b, x) # zs"
    using kv_upd_split [OF o, of b] by blast
  let ?G = "set (rfoots (ys @ zs))"
  have foots: "rfoots cs = rfoots ys @ (case map_of cs b of None \<Rightarrow> [] | Some c \<Rightarrow> rfoot c) @ rfoots zs"
    by (subst cs(1)) (simp split: option.split)
  have old: "set (rfoot (RNode a q cs)) = insert a (ofoot (map_of cs b)) \<union> ?G"
    unfolding rfoot.simps foots by (cases "map_of cs b") auto
  define Y C Z where "Y = rfoots ys" and "C = (case map_of cs b of None \<Rightarrow> [] | Some c \<Rightarrow> rfoot c)" and "Z = rfoots zs"
  have d: "distinct (a # Y @ C @ Z)" using r(2) unfolding rfoot.simps foots Y_def C_def Z_def .
  have G: "?G = set Y \<union> set Z" by (simp only: Y_def Z_def map_append concat_append set_append)
  have oC: "ofoot (map_of cs b) = set C" by (cases "map_of cs b") (simp_all add: C_def)
  have dis: "insert a (ofoot (map_of cs b)) \<inter> ?G = {}" "distinct (Y @ Z)" using d unfolding G oC by auto
  have "?G \<subseteq> dom h" using rrepr_dom [OF r(1)] unfolding old by blast
  note fr = heap_step_frame [OF step this dis(1)]
  have sub: "(b', c) \<in> set cs" if "(b', c) \<in> set (ys @ zs)" for b' c using that by (subst cs(1)) auto
  have kids: "rrepr h' (Suc (ofs + length q)) c" if c: "(b', c) \<in> set (ys @ zs)" for b' c
  proof (rule rrepr_frame)
    show "rrepr h (Suc (ofs + length q)) c" using r(1) sub [OF c] by auto
    show "h' x = h x" if "x \<in> set (rfoot c)" for x using fr(3) c that by force
  qed
  have "art_kids z (map (apsnd rroot) (kv_upd b c' cs))" using z(4) by (simp add: map_apsnd_upd)
  then show "rrepr h' ofs (RNode a' q (kv_upd b c' cs))"
    using z(1-3) kids c'(1) unfolding cs(2) by auto
  show "distinct (rfoot (RNode a' q (kv_upd b c' cs)))"
    using c'(2) dis(2) fr(2) unfolding cs(2) G by (auto simp: Y_def [symmetric] Z_def [symmetric] simp del: set_concat)
  have "set (rfoot (RNode a' q (kv_upd b c' cs))) = insert a' (set (rfoot c')) \<union> ?G" unfolding cs(2) by auto
  with fr(1) show "heap_step h (set (rfoot (RNode a q cs))) h' (set (rfoot (RNode a' q (kv_upd b c' cs))))"
    unfolding old by simp
qed

lemma fork_rtree_repr:
  assumes "rrepr h (Suc (ofs + length q)) s" "rrepr h (Suc (ofs + length q)) (RLeaf b k v)"
    "h a = Some n" "a \<noteq> nullptr" "art_head n ofs q" "art_kids n (kv_upd pk1 b [(pk0, rroot s)])"
  shows "rrepr h ofs (RNode a q (kv_upd pk1 (RLeaf b k v) [(pk0, s)]))"
proof -
  have o: "ordered [(pk0, s)]" by simp
  have "art_kids n (map (apsnd rroot) (kv_upd pk1 (RLeaf b k v) [(pk0, s)]))" using assms(6) by (simp add: map_apsnd_upd)
  moreover have "\<forall>(b', c) \<in> set (kv_upd pk1 (RLeaf b k v) [(pk0, s)]). rrepr h (Suc (ofs + length q)) c"
    using assms(1,2) unfolding set_kv_upd [OF o] by auto
  ultimately show ?thesis unfolding rrepr.simps using assms(3-5) by blast
qed

lemma fork_rtree_foot:
  assumes "distinct (a # b # rfoot s)" "pk0 \<noteq> pk1"
  shows "distinct (rfoot (RNode a q (kv_upd pk1 (RLeaf b k v) [(pk0, s)])))"
    "set (rfoot (RNode a q (kv_upd pk1 (RLeaf b k v) [(pk0, s)]))) = insert a (insert b (set (rfoot s)))"
proof -
  have o: "ordered [(pk0, s)]" by simp
  show "distinct (rfoot (RNode a q (kv_upd pk1 (RLeaf b k v) [(pk0, s)])))"
    "set (rfoot (RNode a q (kv_upd pk1 (RLeaf b k v) [(pk0, s)]))) = insert a (insert b (set (rfoot s)))"
    unfolding kv_upd_Cons [OF o] using assms by (auto simp: kv_upd_Nil)
qed

section \<open>The update\<close>

text \<open>A result of an update below some cells it owned: the tree, and what it now owns.\<close>

definition art_result :: "nat \<Rightarrow> amem \<Rightarrow> addr set \<Rightarrow> nat \<Rightarrow> tr \<Rightarrow> (addr \<times> amem) option \<Rightarrow> bool" where
  "art_result j m F ofs T r \<longleftrightarrow> (\<exists>t' m'. r = Some (rroot t', m') \<and> rerase t' = T \<and> rrepr (cells m') ofs t' \<and>
     distinct (rfoot t') \<and> heap_step (cells m) F (cells m') (set (rfoot t')) \<and> mem_ok anode_blk j m')"

lemma inplace_null_ok:
  assumes "mem_ok anode_blk (Suc j) m" "ofs \<le> 8"
  shows "art_result j m {} ofs (TLeaf k v) (art_update_inplace ub (Suc f) nullptr ofs k v m)"
proof -
  obtain a n m' where m': "art_new_leaf ub 0 ofs k v m = Some (a, m')" "mem_new anode_blk j m a n m'" "art_leaf n ofs k v"
    by (rule art_new_leaf_ok [OF assms])
  then show ?thesis
    unfolding art_result_def mem_new_def
    by (intro exI [of _ "RLeaf a k v"] exI [of _ m']) (auto intro: heap_step_new)
qed

lemma heap_step_fork:
  assumes "h t \<noteq> None" "h a = None" "h b = None" "a \<noteq> b" "t \<in> F" "F \<subseteq> dom h"
  shows "heap_step h F (h(t \<mapsto> x, a \<mapsto> y, b \<mapsto> z)) (insert a (insert b F))"
proof -
  have "heap_step h F (h(t \<mapsto> x)) F" by (rule heap_step_upd [OF heap_step_refl [OF assms(6)] assms(5)])
  then have "heap_step h F (h(t \<mapsto> x, a \<mapsto> y)) (insert a F)" by (rule heap_step_add) (use assms in auto)
  then have "heap_step h F (h(t \<mapsto> x, a \<mapsto> y, b \<mapsto> z)) (insert b (insert a F))" by (rule heap_step_add) (use assms in auto)
  then show ?thesis by (simp add: insert_commute)
qed

text \<open>Both kinds of tree fork in the same way; \<open>s\<close> is what is left of it below the fork.\<close>

lemma inplace_fork_ok:
  assumes r: "rrepr (cells m) ofs t" "distinct (rfoot t)" and x: "cells m (rroot t) = Some x" "an_ofs x = ofs"
    and l: "ofs + l < 8" "key_byte (an_pfx x) (ofs + l) \<noteq> key_byte k (ofs + l)"
    and m: "mem_ok anode_blk (2 + j) m"
    and s: "rroot s = rroot t" "rfoot s = rfoot t"
      "\<And>h. h (rroot t) = Some (art_shift ub (Suc l) x) \<Longrightarrow> (\<And>y. y \<in> set (rfoot t) \<Longrightarrow> y \<noteq> rroot t \<Longrightarrow> h y = cells m y) \<Longrightarrow>
         rrepr h (Suc (ofs + l)) s"
  shows "art_result j m (set (rfoot t)) ofs (tr_fork ofs l (key_byte (an_pfx x) (ofs + l)) (rerase s) k v)
    (art_fork_inplace ub (rroot t) ofs l k v m)"
proof -
  let ?pk0 = "key_byte (an_pfx x) (ofs + l)" and ?pk1 = "key_byte k (ofs + l)" and ?q = "take l (drop ofs (key_bytes k))"
  have dom: "set (rfoot t) \<subseteq> dom (cells m)" by (rule rrepr_dom [OF r(1)])
  have t: "rroot t \<noteq> nullptr" "rroot t \<in> set (rfoot t)" using rroot_in [OF r(1)] by simp_all
  obtain a b n n' m' where f: "art_fork_inplace ub (rroot t) ofs l k v m = Some (a, m')"
    "cells m' = (cells m)(rroot t \<mapsto> art_shift ub (Suc l) x, a \<mapsto> n, b \<mapsto> n')" "mem_ok anode_blk j m'"
    "cells m a = None" "cells m b = None" "a \<noteq> b" "a \<noteq> nullptr" "b \<noteq> nullptr"
    "art_leaf n' (Suc (ofs + l)) k v" "art_head n ofs ?q" "art_kids n (kv_upd ?pk1 b [(?pk0, rroot t)])"
    by (rule fork_inplace_ok [OF x(1) t(1) x(2) l m])
  have fresh: "a \<notin> set (rfoot t)" "b \<notin> set (rfoot t)" using dom f(4,5) by auto
  have ql: "length ?q = l" using l(1) by simp
  have sr: "rrepr (cells m') (Suc (ofs + length ?q)) s"
    unfolding f(2) ql by (rule s(3)) (use fresh t(2) in auto)
  have br: "rrepr (cells m') (Suc (ofs + length ?q)) (RLeaf b k v)" using f(8,9) unfolding ql by (simp add: f(2))
  have an: "cells m' a = Some n" using f(6) by (simp add: f(2))
  note g = fork_rtree_repr [OF sr br an f(7,10) f(11) [folded s(1)]]
  have dis: "distinct (a # b # rfoot s)" using r(2) fresh f(6) by (simp add: s(2))
  have "heap_step (cells m) (set (rfoot t)) (cells m') (insert a (insert b (set (rfoot t))))"
    unfolding f(2) by (rule heap_step_fork) (use f(4-6) x(1) t(2) dom in auto)
  then show ?thesis
    unfolding art_result_def using f(1,3) g fork_rtree_foot [OF dis l(2), of ?q k v]
    by (intro exI [of _ "RNode a ?q (kv_upd ?pk1 (RLeaf b k v) [(?pk0, s)])"] exI [of _ m'])
      (simp add: tr_fork_def map_kv_upd s(2))
qed

lemma inplace_leaf_ok:
  assumes r: "rrepr (cells m) ofs (RLeaf a k' v')" and m: "mem_ok anode_blk (2 + j) m"
  shows "art_result j m {a} ofs (tr_ins (\<lambda>_ k. k) ofs k v (TLeaf k' v')) (art_update_inplace ub (Suc f) a ofs k v m)"
proof -
  obtain x where x: "a \<noteq> nullptr" "cells m a = Some x" "art_leaf x ofs k' v'" using r by auto
  let ?q = "drop ofs (key_bytes k')"
  let ?l = "lcp ?q (drop ofs (key_bytes k))"
  have xl: "an_len x = 8 - ofs" "an_type x = AT_LEAF" "an_pfx x = k'" "an_ofs x = ofs" "ofs \<le> 8"
    using x(3) by (simp_all add: art_leaf_def)
  have lm: "?l = min (8 - ofs) (art_prefix_match ub x k)" by (rule match_leaf [OF x(3)])
  show ?thesis
  proof (cases "art_prefix_match ub x k < 8 - ofs")
    case True
    then have l: "art_prefix_match ub x k = ?l" "?l < length ?q" "ofs + ?l < 8" using lm by simp_all
    have b: "?q ! ?l = key_byte k' (ofs + ?l)" using l(3) by simp
    have neq: "key_byte (an_pfx x) (ofs + ?l) \<noteq> key_byte k (ofs + ?l)"
      using lcp_neq [OF l(2)] l(3) xl(3) by simp
    have l8: "?l < 8 - ofs" using l(3) by linarith
    have "art_result j m (set (rfoot (RLeaf a k' v'))) ofs (tr_fork ofs ?l (key_byte (an_pfx x) (ofs + ?l)) (rerase (RLeaf a k' v')) k v)
        (art_fork_inplace ub (rroot (RLeaf a k' v')) ofs ?l k v m)"
      by (rule inplace_fork_ok [OF r]) (use x xl l neq m shift_leaf [OF x(3) l8, of ub] in auto)
    then show ?thesis using True l(1,2) b x(1,2) xl by (simp add: mem_get_def Let_def)
  next
    case False
    then have e: "\<not> ?l < length ?q" using lm by simp
    have m1: "mem_ok anode_blk j m" by (rule mem_ok_mono [OF m]) simp
    let ?f = "\<lambda>n. Some (n\<lparr>an_val := v\<rparr>)"
    obtain m' where m': "mem_upd m a ?f = Some m'" "mem_set anode_blk j m a (x\<lparr>an_val := v\<rparr>) m'"
      by (rule mem_upd_set [where f = ?f, OF x(2) refl m1])
    have "heap_step (cells m) {a} ((cells m)(a \<mapsto> x\<lparr>an_val := v\<rparr>)) {a}" by (rule heap_step_set) (use x(2) in auto)
    moreover have "art_leaf (x\<lparr>an_val := v\<rparr>) ofs k' v" using x(3) by (simp add: art_leaf_def anode_ok_def)
    ultimately have "art_result j m {a} ofs (TLeaf k' v) (Some (a, m'))"
      unfolding art_result_def using m'(2) x(1)
      by (intro exI [of _ "RLeaf a k' v"] exI [of _ m']) (auto simp: mem_set_def)
    then show ?thesis using False e x(1,2) xl m'(1) by (simp add: mem_get_def Let_def)
  qed
qed

lemma replace_kid_result:
  assumes r: "rrepr (cells m) ofs (RNode a q cs)" "distinct (rfoot (RNode a q cs))"
    and step: "heap_step (cells m) (insert a (ofoot (map_of cs b))) (cells m') (insert a' (set (rfoot c')))"
    and z: "cells m' a' = Some z" "a' \<noteq> nullptr" "art_head z ofs q" "art_kids z (kv_upd b (rroot c') (map (apsnd rroot) cs))"
    and c': "rrepr (cells m') (Suc (ofs + length q)) c'" "distinct (a' # rfoot c')"
    and m': "mem_ok anode_blk j m'"
  shows "art_result j m (set (rfoot (RNode a q cs))) ofs (TNode q (kv_upd b (rerase c') (map (\<lambda>(b, c). (b, rerase c)) cs))) (Some (a', m'))"
  using replace_kid_ok [OF r step z c'] m' unfolding art_result_def
  by (intro exI [of _ "RNode a' q (kv_upd b c' cs)"] exI [of _ m']) (simp add: map_kv_upd)

lemma set_slot_ok:
  assumes "cells m a = Some x" "pos < length (an_chs x)" "mem_ok anode_blk j m"
  obtains m' where "art_set_slot a pos c m = Some m'" "cells m' = (cells m)(a \<mapsto> x\<lparr>an_chs := (an_chs x)[pos := c]\<rparr>)" "mem_ok anode_blk j m'"
proof -
  let ?f = "\<lambda>n. do { cs \<leftarrow> arr_set (an_chs n) pos c; Some (n\<lparr>an_chs := cs\<rparr>) }"
  have "?f x = Some (x\<lparr>an_chs := (an_chs x)[pos := c]\<rparr>)" using assms(2) by (simp add: arr_set_def)
  from mem_upd_set [where f = ?f, OF assms(1) this assms(3)] obtain m' where
    "mem_upd m a ?f = Some m'" "mem_set anode_blk j m a (x\<lparr>an_chs := (an_chs x)[pos := c]\<rparr>) m'" .
  then show thesis by (intro that [of m']) (simp_all add: art_set_slot_def mem_set_def)
qed

lemma head_same: "art_head x ofs q \<Longrightarrow> art_same_head x z \<Longrightarrow> art_head z ofs q"
  by (simp add: art_head_def art_same_head_def)

lemma rnode_foot:
  assumes "rrepr h ofs (RNode a q cs)" "distinct (rfoot (RNode a q cs))"
  shows "a \<notin> ofoot (map_of cs b)" "ofoot (map_of cs b) \<subseteq> dom h"
    "\<And>c. map_of cs b = Some c \<Longrightarrow> distinct (rfoot c) \<and> rrepr h (Suc (ofs + length q)) c"
proof -
  have sub: "set (rfoot c) \<subseteq> set (rfoots cs) \<and> distinct (rfoot c) \<and> rrepr h (Suc (ofs + length q)) c" if "map_of cs b = Some c" for c
  proof -
    have c: "(b, c) \<in> set cs" using that by (rule map_of_SomeD)
    then obtain ys zs where "cs = ys @ (b, c) # zs" by (auto simp: in_set_conv_decomp)
    with assms c show ?thesis by auto
  qed
  show "a \<notin> ofoot (map_of cs b)" using sub assms(2) by (cases "map_of cs b") auto
  show "ofoot (map_of cs b) \<subseteq> dom h" using sub rrepr_dom by (cases "map_of cs b") fastforce+
  show "distinct (rfoot c) \<and> rrepr h (Suc (ofs + length q)) c" if "map_of cs b = Some c" for c using sub [OF that] by simp
qed

lemma art_child_at:
  assumes "art_kids x (map (apsnd rroot) cs)" "b \<in> fst ` set cs \<or> an_type x = AT_NODE256"
  shows "an_chs x ! art_pos x (map fst cs) b = (case map_of cs b of None \<Rightarrow> nullptr | Some c \<Rightarrow> rroot c)"
proof (cases "map_of cs b")
  case None
  then have n: "b \<notin> fst ` set cs" by (simp add: map_of_eq_None_iff)
  with assms(2) have "an_type x = AT_NODE256" by simp
  with n assms(1) None show ?thesis by (auto simp: art_kids_def art_pos_def image_image)
next
  case (Some c)
  then have "(b, rroot c) \<in> set (map (apsnd rroot) cs)" using map_of_SomeD [OF Some] by force
  from art_kidsD [OF assms(1) this] Some show ?thesis by (simp add: comp_def)
qed

text \<open>The byte has a place in the node: the child there, or null in a \<^verbatim>\<open>node256\<close>, is updated.\<close>

lemma inplace_hit_ok:
  assumes r: "rrepr (cells m) ofs (RNode a q cs)" "distinct (rfoot (RNode a q cs))"
    and x: "cells m a = Some x" "art_head x ofs q" "art_kids x (map (apsnd rroot) cs)"
    and hit: "b \<in> fst ` set cs \<or> an_type x = AT_NODE256"
    and sub: "art_result j m (ofoot (map_of cs b)) (Suc (ofs + length q)) Tc (R (case map_of cs b of None \<Rightarrow> nullptr | Some c \<Rightarrow> rroot c))"
  shows "art_result j m (set (rfoot (RNode a q cs))) ofs (TNode q (kv_upd b Tc (map (\<lambda>(b, c). (b, rerase c)) cs)))
    (do { idx \<leftarrow> art_find_idx x b; case idx of Some idx \<Rightarrow> do {
       pos \<leftarrow> art_getch x idx; ch \<leftarrow> arr_get (an_chs x) pos; (ch, m) \<leftarrow> R ch; m \<leftarrow> art_set_slot a pos ch m; Some (a, m) } | None \<Rightarrow> E })"
proof -
  let ?bs = "map fst cs"
  have sh: "art_shell x ?bs" using x(3) by (simp add: art_kids_def comp_def)
  have hit': "b \<in> set ?bs \<or> an_type x = AT_NODE256" using hit by simp
  obtain i where i: "art_find_idx x b = Some (Some i)" "art_getch x i = Some (art_pos x ?bs b)"
    by (rule find_idx_hit [OF sh hit'])
  have pos: "art_pos x ?bs b < length (an_chs x)" by (rule art_pos_less [OF sh hit'])
  note ch = art_child_at [OF x(3) hit]
  obtain c' m1 where c': "R (case map_of cs b of None \<Rightarrow> nullptr | Some c \<Rightarrow> rroot c) = Some (rroot c', m1)" "rerase c' = Tc"
    "rrepr (cells m1) (Suc (ofs + length q)) c'" "distinct (rfoot c')"
    "heap_step (cells m) (ofoot (map_of cs b)) (cells m1) (set (rfoot c'))" "mem_ok anode_blk j m1"
    using sub unfolding art_result_def by blast
  have "{a} \<subseteq> dom (cells m)" "ofoot (map_of cs b) \<inter> {a} = {}" using x(1) rnode_foot(1) [OF r, of b] by auto
  note fr = heap_step_frame [OF c'(5) this]
  have a1: "cells m1 a = Some x" "a \<notin> set (rfoot c')" using fr(2,3) x(1) by auto
  obtain m2 where m2: "art_set_slot a (art_pos x ?bs b) (rroot c') m1 = Some m2"
    "cells m2 = (cells m1)(a \<mapsto> x\<lparr>an_chs := (an_chs x)[art_pos x ?bs b := rroot c']\<rparr>)" "mem_ok anode_blk j m2"
    by (rule set_slot_ok [OF a1(1) pos c'(6)])
  have run: "do { idx \<leftarrow> art_find_idx x b; case idx of Some idx \<Rightarrow> do {
       pos \<leftarrow> art_getch x idx; ch \<leftarrow> arr_get (an_chs x) pos; (ch, m) \<leftarrow> R ch; m \<leftarrow> art_set_slot a pos ch m; Some (a, m) } | None \<Rightarrow> E } = Some (a, m2)"
    using i pos c'(1) m2(1) by (simp add: arr_get_def ch)
  have root: "rroot c' \<noteq> nullptr" using rroot_in [OF c'(3)] by simp
  have "heap_step (cells m) (ofoot (map_of cs b) \<union> {a}) (cells m2) (set (rfoot c') \<union> {a})"
    unfolding m2(2) by (rule heap_step_upd [OF fr(1)]) simp
  then have step: "heap_step (cells m) (insert a (ofoot (map_of cs b))) (cells m2) (insert a (set (rfoot c')))" by simp
  have kids: "art_kids (x\<lparr>an_chs := (an_chs x)[art_pos x ?bs b := rroot c']\<rparr>) (kv_upd b (rroot c') (map (apsnd rroot) cs))"
    using art_kids_set [OF x(3) _ root, of b] hit by (force simp: comp_def image_image)
  have hd: "art_head (x\<lparr>an_chs := (an_chs x)[art_pos x ?bs b := rroot c']\<rparr>) ofs q" using x(2) by (simp add: art_head_def)
  have c2: "cells m2 a = Some (x\<lparr>an_chs := (an_chs x)[art_pos x ?bs b := rroot c']\<rparr>)" by (simp add: m2(2))
  have cr: "rrepr (cells m2) (Suc (ofs + length q)) c'" unfolding m2(2) by (rule rrepr_upd [OF c'(3) a1(2)])
  have "a \<noteq> nullptr" using r(1) by simp
  from replace_kid_result [OF r step c2 this hd kids cr _ m2(3)] c'(2,4) a1(2) show ?thesis unfolding run by simp
qed

text \<open>The byte has no place and the node is full: the children move to a larger node.\<close>

lemma inplace_grow_ok:
  assumes r: "rrepr (cells m) ofs (RNode a q cs)" "distinct (rfoot (RNode a q cs))"
    and x: "cells m a = Some x" "art_head x ofs q" "art_kids x (map (apsnd rroot) cs)"
    and miss: "b \<notin> fst ` set cs" "art_is_full x" and m: "mem_ok anode_blk (2 + j) m"
  shows "art_result j m (set (rfoot (RNode a q cs))) ofs (TNode q (kv_upd b (TLeaf k v) (map (\<lambda>(b, c). (b, rerase c)) cs)))
    (do { (t_new, m) \<leftarrow> art_node_extend ub a 0 m;
          n_new \<leftarrow> mem_get m t_new;
          (n_new, i) \<leftarrow> art_append n_new b;
          n_new \<leftarrow> art_copych_at n_new x i;
          m \<leftarrow> mem_upd m t_new (\<lambda>_. Some n_new);
          (ch, m) \<leftarrow> art_update_inplace ub (Suc f) nullptr (Suc (ofs + length q)) k v m;
          pos \<leftarrow> art_getch n_new i;
          m \<leftarrow> art_set_slot t_new pos ch m;
          m \<leftarrow> mem_free m a;
          Some (t_new, m) })" (is "art_result j m ?F ofs ?T ?R")
proof -
  have bs: "map fst (map (apsnd rroot) cs) = map fst cs" by simp
  have sh: "art_shell x (map fst cs)" using x(3) by (simp add: art_kids_def comp_def)
  have none: "map_of cs b = None" using miss(1) by (simp add: map_of_eq_None_iff)
  have m2: "mem_ok anode_blk (Suc (Suc j)) m" using m by simp
  obtain a' y m1 where m1: "art_node_extend ub a 0 m = Some (a', m1)" "mem_new anode_blk (Suc j) m a' y m1"
    "art_room x y (map fst cs)" "art_head y ofs q"
    by (rule node_extend_ok [OF x(1) sh miss(2) x(2) m2])
  have c1: "cells m a' = None" "a' \<noteq> nullptr" "cells m1 = (cells m)(a' \<mapsto> y)" "mem_ok anode_blk (Suc j) m1"
    using m1(2) by (simp_all add: mem_new_def)
  have t256: "an_type x \<noteq> AT_NODE256" using miss(2) by (auto simp: art_is_full_def)
  have miss': "b \<notin> fst ` set (map (apsnd rroot) cs)" using miss(1) by (simp add: image_image)
  obtain y' i z p where g: "art_append y b = Some (y', i)" "art_same_head y y'" "anode_ok y'"
    "\<And>y2. art_copych_at y' x i = Some y2 \<longleftrightarrow> y2 = z" "art_same_head y z" "art_getch z i = Some p" "p < length (an_chs z)"
    "\<And>a. a \<noteq> nullptr \<Longrightarrow> art_kids (z\<lparr>an_chs := (an_chs z)[p := a]\<rparr>) (kv_upd b a (map (apsnd rroot) cs))"
    using grow_ok [OF x(3) miss' t256] m1(3) unfolding bs by blast
  have y1: "cells m1 a' = Some y" by (simp add: c1(3))
  obtain m2 where m2: "mem_upd m1 a' (\<lambda>_. Some z) = Some m2" "mem_set anode_blk (Suc j) m1 a' z m2"
    by (rule mem_upd_set [where f = "\<lambda>_. Some z", OF y1 refl c1(4)])
  then have c2: "cells m2 = (cells m)(a' \<mapsto> z)" "mem_ok anode_blk (Suc j) m2" using c1(3) by (simp_all add: mem_set_def)
  have o8: "Suc (ofs + length q) \<le> 8" using x(2) by (simp add: art_head_def)
  obtain b' n m3 where m3: "art_new_leaf ub 0 (Suc (ofs + length q)) k v m2 = Some (b', m3)" "mem_new anode_blk j m2 b' n m3"
    "art_leaf n (Suc (ofs + length q)) k v" by (rule art_new_leaf_ok [OF c2(2) o8])
  then have c3: "b' \<noteq> nullptr" "cells m2 b' = None" "cells m3 = (cells m2)(b' \<mapsto> n)" "mem_ok anode_blk j m3" by (simp_all add: mem_new_def)
  have ne: "b' \<noteq> a'" "b' \<noteq> a" "cells m b' = None" "a' \<noteq> a" using c3(2) c2(1) x(1) c1(1) by (auto split: if_splits)
  have z3: "cells m3 a' = Some z" using ne by (simp add: c3(3) c2(1))
  let ?z = "z\<lparr>an_chs := (an_chs z)[p := b']\<rparr>"
  obtain m4 where m4: "art_set_slot a' p b' m3 = Some m4" "cells m4 = (cells m3)(a' \<mapsto> ?z)" "mem_ok anode_blk j m4"
    by (rule set_slot_ok [OF z3 g(7) c3(4)])
  have c4: "cells m4 = (cells m)(a' \<mapsto> ?z, b' \<mapsto> n)" using ne by (auto simp: m4(2) c3(3) c2(1) fun_upd_twist)
  have a4: "cells m4 a = Some x" using ne x(1) by (simp add: c4)
  let ?m5 = "m4\<lparr>cells := (cells m4)(a := None)\<rparr>"
  have ok5: "mem_ok anode_blk j ?m5" by (rule mem_ok_cells [OF m4(3)]) auto
  have run: "?R = Some (a', ?m5)"
    using m1(1) y1 g(1,6) m2(1) m3(1) m4(1) a4 g(4) [of z] by (simp add: mem_get_def mem_free_def)
  have "heap_step (cells m) {a} (cells m) {a}" by (rule heap_step_refl) (use x(1) in auto)
  then have "heap_step (cells m) {a} ((cells m)(a' \<mapsto> ?z)) (insert a' {a})" by (rule heap_step_add) (rule c1(1))
  then have "heap_step (cells m) {a} ((cells m)(a' \<mapsto> ?z, b' \<mapsto> n)) (insert b' (insert a' {a}))" by (rule heap_step_add) (use ne in simp)
  then have "heap_step (cells m) {a} ((cells m4)(a := None)) (insert b' (insert a' {a}) - {a})"
    unfolding c4 by (rule heap_step_free) simp
  moreover have "insert b' (insert a' {a}) - {a} = insert a' (set (rfoot (RLeaf b' k v)))" using ne by auto
  ultimately have step: "heap_step (cells m) (insert a (ofoot (map_of cs b))) (cells ?m5) (insert a' (set (rfoot (RLeaf b' k v))))"
    by (simp add: none)
  have zc: "cells ?m5 a' = Some ?z" using ne by (simp add: c4)
  have hd: "art_head ?z ofs q" using head_same [OF m1(4) g(5)] by (simp add: art_head_def)
  have "art_kids ?z (kv_upd b (rroot (RLeaf b' k v)) (map (apsnd rroot) cs))" using g(8) [OF c3(1)] by simp
  from replace_kid_result [OF r step zc c1(2) hd this _ _ ok5] have "art_result j m ?F ofs ?T (Some (a', ?m5))"
    using c3(1) m3(3) ne by (simp add: c4)
  then show ?thesis unfolding run .
qed

text \<open>The byte has no place and the node has room.\<close>

lemma inplace_insert_ok:
  assumes r: "rrepr (cells m) ofs (RNode a q cs)" "distinct (rfoot (RNode a q cs))"
    and x: "cells m a = Some x" "art_head x ofs q" "art_kids x (map (apsnd rroot) cs)"
    and miss: "b \<notin> fst ` set cs" "\<not> art_is_full x" "an_type x \<noteq> AT_NODE256" and m: "mem_ok anode_blk (2 + j) m"
  shows "art_result j m (set (rfoot (RNode a q cs))) ofs (TNode q (kv_upd b (TLeaf k v) (map (\<lambda>(b, c). (b, rerase c)) cs)))
    (do { (n, i) \<leftarrow> art_append x b;
          m \<leftarrow> mem_upd m a (\<lambda>_. Some n);
          (ch, m) \<leftarrow> art_update_inplace ub (Suc f) nullptr (Suc (ofs + length q)) k v m;
          m \<leftarrow> mem_upd m a (\<lambda>n. art_insertch n i ch);
          Some (a, m) })" (is "art_result j m ?F ofs ?T ?R")
proof -
  have none: "map_of cs b = None" using miss(1) by (simp add: map_of_eq_None_iff)
  have miss': "b \<notin> fst ` set (map (apsnd rroot) cs)" using miss(1) by (simp add: image_image)
  obtain x' i where g: "art_append x b = Some (x', i)"
    "\<forall>a. a \<noteq> nullptr \<longrightarrow> (\<exists>z. art_insertch x' i a = Some z \<and> art_kids z (kv_upd b a (map (apsnd rroot) cs)) \<and> art_same_head x z)"
    by (rule append_insertch_ok [OF x(3) miss' miss(2,3)])
  have m0: "mem_ok anode_blk (Suc j) m" by (rule mem_ok_mono [OF m]) simp
  obtain m1 where m1: "mem_upd m a (\<lambda>_. Some x') = Some m1" "mem_set anode_blk (Suc j) m a x' m1"
    by (rule mem_upd_set [where f = "\<lambda>_. Some x'", OF x(1) refl m0])
  then have c1: "cells m1 = (cells m)(a \<mapsto> x')" "mem_ok anode_blk (Suc j) m1" by (simp_all add: mem_set_def)
  have o8: "Suc (ofs + length q) \<le> 8" using x(2) by (simp add: art_head_def)
  obtain b' n m2 where m2: "art_new_leaf ub 0 (Suc (ofs + length q)) k v m1 = Some (b', m2)" "mem_new anode_blk j m1 b' n m2"
    "art_leaf n (Suc (ofs + length q)) k v" by (rule art_new_leaf_ok [OF c1(2) o8])
  then have c2: "b' \<noteq> nullptr" "cells m1 b' = None" "cells m2 = (cells m1)(b' \<mapsto> n)" "mem_ok anode_blk j m2" by (simp_all add: mem_new_def)
  have ne: "b' \<noteq> a" "cells m b' = None" using c2(2) c1(1) by (auto split: if_splits)
  obtain z where z: "art_insertch x' i b' = Some z" "art_kids z (kv_upd b b' (map (apsnd rroot) cs))" "art_same_head x z"
    using g(2) c2(1) by blast
  have a2: "cells m2 a = Some x'" using ne by (simp add: c2(3) c1(1))
  obtain m3 where m3: "mem_upd m2 a (\<lambda>n. art_insertch n i b') = Some m3" "mem_set anode_blk j m2 a z m3"
    by (rule mem_upd_set [where f = "\<lambda>n. art_insertch n i b'", OF a2 z(1) c2(4)])
  then have c3: "cells m3 = (cells m)(a \<mapsto> z, b' \<mapsto> n)" "mem_ok anode_blk j m3"
    using ne by (auto simp: mem_set_def c2(3) c1(1) fun_upd_twist)
  have run: "?R = Some (a, m3)" using g(1) m1(1) m2(1) m3(1) by simp
  have "heap_step (cells m) {a} ((cells m)(a \<mapsto> z)) {a}" by (rule heap_step_set) (use x(1) in auto)
  then have "heap_step (cells m) {a} (cells m3) (insert b' {a})" unfolding c3(1) by (rule heap_step_add) (use ne in simp)
  moreover have "insert b' {a} = insert a (set (rfoot (RLeaf b' k v)))" by auto
  ultimately have step: "heap_step (cells m) (insert a (ofoot (map_of cs b))) (cells m3) (insert a (set (rfoot (RLeaf b' k v))))"
    by (simp add: none)
  have zc: "cells m3 a = Some z" using ne by (simp add: c3)
  have "a \<noteq> nullptr" using r(1) by simp
  from replace_kid_result [OF r step zc this head_same [OF x(2) z(3)] _ _ _ c3(2)] show ?thesis
    using z(2) c2(1) m2(3) ne unfolding run by (simp add: c3(1))
qed

lemma kid_height: "map_of cs b = Some c \<Longrightarrow> tr_height (rerase c) < tr_height (rerase (RNode a q cs))"
proof -
  assume "map_of cs b = Some c"
  then have "(b, rerase c) \<in> set (map (\<lambda>(b, c). (b, rerase c)) cs)" using map_of_SomeD by force
  then show "tr_height (rerase c) < tr_height (rerase (RNode a q cs))" unfolding rerase.simps by (rule tr_height_kid)
qed

lemma update_inplace_ok:
  "rrepr (cells m) ofs t \<Longrightarrow> distinct (rfoot t) \<Longrightarrow> tr_height (rerase t) < fuel \<Longrightarrow> mem_ok anode_blk (2 + j) m \<Longrightarrow>
   art_result j m (set (rfoot t)) ofs (tr_ins (\<lambda>_ k. k) ofs k v (rerase t)) (art_update_inplace ub fuel (rroot t) ofs k v m)"
proof (induction t arbitrary: ofs fuel)
  case (RLeaf a k' v')
  obtain f where "fuel = Suc f" using RLeaf.prems(3) by (cases fuel) auto
  with inplace_leaf_ok [OF RLeaf.prems(1,4), of k v ub f] show ?case by simp
next
  case (RNode a q cs)
  note r = RNode.prems(1,2)
  obtain x where x: "a \<noteq> nullptr" "cells m a = Some x" "art_head x ofs q" "art_kids x (map (apsnd rroot) cs)" using r(1) by auto
  obtain f where f: "fuel = Suc (Suc f)"
    using RNode.prems(3) by (cases fuel; cases "fuel - 1") auto
  have h: "an_len x = length q" "an_type x \<noteq> AT_LEAF" "an_ofs x = ofs" "ofs + length q < 8" "pfx_bytes (an_pfx x) ofs (length q) = q"
    using x(3) by (simp_all add: art_head_def)
  let ?l = "lcp q (drop ofs (key_bytes k))" and ?kids = "map (\<lambda>(b, c). (b, rerase c)) cs"
  have lm: "?l = min (length q) (art_prefix_match ub x k)" by (rule match_head [OF x(3)])
  show ?case
  proof (cases "art_prefix_match ub x k < length q")
    case True
    then have l: "art_prefix_match ub x k = ?l" "?l < length q" "ofs + ?l < 8" using lm h(4) by simp_all
    have b: "key_byte (an_pfx x) (ofs + ?l) = q ! ?l"
      using pfx_bytes_nth [of ofs "length q" ?l "an_pfx x"] l(2) h(4,5) by simp
    have neq: "key_byte (an_pfx x) (ofs + ?l) \<noteq> key_byte k (ofs + ?l)" using lcp_neq [OF l(2)] l(3) b by simp
    have "art_result j m (set (rfoot (RNode a q cs))) ofs
        (tr_fork ofs ?l (key_byte (an_pfx x) (ofs + ?l)) (rerase (RNode a (drop (Suc ?l) q) cs)) k v)
        (art_fork_inplace ub (rroot (RNode a q cs)) ofs ?l k v m)"
    proof (rule inplace_fork_ok [OF r _ h(3) l(3) neq RNode.prems(4)])
      fix H assume H: "H (rroot (RNode a q cs)) = Some (art_shift ub (Suc ?l) x)"
        "\<And>y. y \<in> set (rfoot (RNode a q cs)) \<Longrightarrow> y \<noteq> rroot (RNode a q cs) \<Longrightarrow> H y = cells m y"
      have sub: "rrepr H (Suc (ofs + length q)) c" if c: "(b, c) \<in> set cs" for b c
      proof (rule rrepr_frame)
        show "rrepr (cells m) (Suc (ofs + length q)) c" using r(1) c by auto
        show "H y = cells m y" if "y \<in> set (rfoot c)" for y by (rule H(2)) (use r(2) c that in \<open>fastforce+\<close>)
      qed
      have e: "Suc (Suc (ofs + ?l) + length (drop (Suc ?l) q)) = Suc (ofs + length q)" using l(2) by simp
      show "rrepr H (Suc (ofs + ?l)) (RNode a (drop (Suc ?l) q) cs)"
        unfolding rrepr.simps e using H(1) x(1) shift_head [OF x(3) l(2), of ub] shift_kids [OF x(4), of ub "Suc ?l"] sub by auto
    qed (use x(2) in simp_all)
    then show ?thesis using True l(1,2) b x(1,2) h(1) by (simp add: f mem_get_def Let_def)
  next
    case False
    then have nl: "\<not> ?l < length q" using lm by simp
    let ?b = "key_byte k (ofs + length q)"
    have pk: "art_partial_key ub k (ofs + length q) = ?b" using h(4) by (simp add: partial_key_byte)
    have T: "tr_ins (\<lambda>_ k. k) ofs k v (rerase (RNode a q cs)) = TNode q (kv_upd ?b
        (case map_of cs ?b of None \<Rightarrow> TLeaf k v | Some c \<Rightarrow> tr_ins (\<lambda>_ k. k) (Suc (ofs + length q)) k v (rerase c)) ?kids)"
      using nl by (simp add: Let_def map_of_rkids split: option.split)
    have step: "art_update_inplace ub fuel a ofs k v m = do {
        idx \<leftarrow> art_find_idx x ?b;
        case idx of
          Some idx \<Rightarrow> do {
            pos \<leftarrow> art_getch x idx;
            ch \<leftarrow> arr_get (an_chs x) pos;
            (ch, m) \<leftarrow> art_update_inplace ub (Suc f) ch (Suc (ofs + length q)) k v m;
            m \<leftarrow> art_set_slot a pos ch m;
            Some (a, m) }
        | None \<Rightarrow>
            if art_is_full x
            then do {
              (t_new, m) \<leftarrow> art_node_extend ub a 0 m;
              n_new \<leftarrow> mem_get m t_new;
              (n_new, i) \<leftarrow> art_append n_new ?b;
              n_new \<leftarrow> art_copych_at n_new x i;
              m \<leftarrow> mem_upd m t_new (\<lambda>_. Some n_new);
              (ch, m) \<leftarrow> art_update_inplace ub (Suc f) nullptr (Suc (ofs + length q)) k v m;
              pos \<leftarrow> art_getch n_new i;
              m \<leftarrow> art_set_slot t_new pos ch m;
              m \<leftarrow> mem_free m a;
              Some (t_new, m) }
            else do {
              (n, i) \<leftarrow> art_append x ?b;
              m \<leftarrow> mem_upd m a (\<lambda>_. Some n);
              (ch, m) \<leftarrow> art_update_inplace ub (Suc f) nullptr (Suc (ofs + length q)) k v m;
              m \<leftarrow> mem_upd m a (\<lambda>n. art_insertch n i ch);
              Some (a, m) } }"
      unfolding f using False x(1,2) h(1,2) pk
      by (subst art_update_inplace.simps(2)) (simp add: mem_get_def Let_def del: art_update_inplace.simps)
    show ?thesis
    proof (cases "?b \<in> fst ` set cs \<or> an_type x = AT_NODE256")
      case hit: True
      let ?R = "\<lambda>ch. art_update_inplace ub (Suc f) ch (Suc (ofs + length q)) k v m"
      have "art_result j m (ofoot (map_of cs ?b)) (Suc (ofs + length q))
          (case map_of cs ?b of None \<Rightarrow> TLeaf k v | Some c \<Rightarrow> tr_ins (\<lambda>_ k. k) (Suc (ofs + length q)) k v (rerase c))
          (?R (case map_of cs ?b of None \<Rightarrow> nullptr | Some c \<Rightarrow> rroot c))"
      proof (cases "map_of cs ?b")
        case None
        have "mem_ok anode_blk (Suc j) m" by (rule mem_ok_mono [OF RNode.prems(4)]) simp
        with inplace_null_ok [of j m "Suc (ofs + length q)" k v ub f] h(4) None show ?thesis by simp
      next
        case (Some c)
        have "tr_height (rerase c) < Suc f" using kid_height [OF Some, of a q] RNode.prems(3) f by (simp del: tr_height.simps rerase.simps)
        from RNode.IH [OF map_of_SomeD [OF Some] _ _ _ this RNode.prems(4)] rnode_foot(3) [OF r Some] Some show ?thesis by simp
      qed
      then show ?thesis unfolding T step rroot.simps by (rule inplace_hit_ok [OF r x(2-4) hit])
    next
      case miss: False
      have none: "map_of cs ?b = None" using miss by (simp add: map_of_eq_None_iff)
      have "art_shell x (map fst cs)" using x(4) by (simp add: art_kids_def comp_def)
      with miss have nf: "art_find_idx x ?b = Some None" by (intro find_idx_miss) auto
      from miss have m: "?b \<notin> fst ` set cs" "an_type x \<noteq> AT_NODE256" by auto
      show ?thesis
      proof (cases "art_is_full x")
        case True
        from inplace_grow_ok [OF r x(2-4) m(1) True RNode.prems(4), of k v ub f] show ?thesis
          unfolding T step rroot.simps by (simp only: nf none True Option.bind.bind_lunit option.case if_True)
      next
        case nfull: False
        from inplace_insert_ok [OF r x(2-4) m(1) nfull m(2) RNode.prems(4), of k v ub f] show ?thesis
          unfolding T step rroot.simps by (simp only: nf none nfull Option.bind.bind_lunit option.case if_False)
      qed
    qed
  qed
qed

section \<open>Full leaves\<close>

text \<open>The in-place update leaves the whole key in every leaf.\<close>

lemma tr_full_fork:
  assumes "length p + l < 8" "take (length p) (key_bytes k) = p"
    "tr_full (p @ take l (drop (length p) (key_bytes k)) @ [b]) t"
  shows "tr_full p (tr_fork (length p) l b t k v)"
proof -
  have o: "ordered [(b, t)]" by simp
  let ?q = "take l (drop (length p) (key_bytes k))" and ?d = "key_byte k (length p + l)"
  have "take (length p + l) (key_bytes k) = p @ ?q" using assms(2) by (simp add: take_add)
  then have "take (length (p @ ?q @ [?d])) (key_bytes k) = p @ ?q @ [?d]"
    using assms(1) by (simp add: take_Suc_conv_app_nth)
  then show ?thesis using assms(3) unfolding tr_fork_def tr_full.simps set_kv_upd [OF o] by auto
qed

lemma tr_full_ins:
  "tr_full p t \<Longrightarrow> tr_wf (length p) t \<Longrightarrow> take (length p) (key_bytes k) = p \<Longrightarrow> tr_full p (tr_ins (\<lambda>_ k. k) (length p) k v t)"
proof (induction p t rule: tr_full.induct)
  case (1 p k' v')
  let ?q = "drop (length p) (key_bytes k')"
  let ?l = "lcp ?q (drop (length p) (key_bytes k))"
  show ?case
  proof (cases "?l < length ?q")
    case True
    have "length p + length ?q \<le> 8" using "1.prems"(2) by simp
    note f = fork_here [OF this True]
    have "take (length p + ?l) (key_bytes k') = p @ take ?l (drop (length p) (key_bytes k))"
      using "1.prems"(1) lcp_take [of ?q "drop (length p) (key_bytes k)"] by (simp add: take_add)
    then have "take (Suc (length p + ?l)) (key_bytes k') = (p @ take ?l (drop (length p) (key_bytes k))) @ [?q ! ?l]"
      using f(1) by (simp add: take_Suc_conv_app_nth)
    then have "tr_full (p @ take ?l (drop (length p) (key_bytes k)) @ [?q ! ?l]) (TLeaf k' v')" using f(1) by simp
    from tr_full_fork [OF f(1) "1.prems"(3) this, of v] True show ?thesis by (simp add: Let_def)
  next
    case False
    with "1.prems" show ?thesis by (simp add: Let_def)
  qed
next
  case (2 p q cs)
  have wf: "length p + length q < 8" "ordered cs" using "2.prems"(2) by simp_all
  let ?l = "lcp q (drop (length p) (key_bytes k))" and ?b = "key_byte k (length p + length q)"
  show ?case
  proof (cases "?l < length q")
    case True
    have "length p + length q \<le> 8" using wf(1) by simp
    note f = fork_here [OF this True]
    have "(p @ take ?l (drop (length p) (key_bytes k)) @ [q ! ?l]) @ drop (Suc ?l) q @ [b] = p @ q @ [b]" for b
      using f(3) by (metis append.assoc append_Cons append_Nil)
    then have "tr_full (p @ take ?l (drop (length p) (key_bytes k)) @ [q ! ?l]) (TNode (drop (Suc ?l) q) cs)"
      using "2.prems"(1) unfolding tr_full.simps by (simp only:)
    from tr_full_fork [OF f(1) "2.prems"(3) this, of v] True show ?thesis by (simp add: Let_def)
  next
    case False
    then have "?l = length q" using lcp_le(1) [of q "drop (length p) (key_bytes k)"] by linarith
    then have q: "take (length q) (drop (length p) (key_bytes k)) = q" by (rule lcp_full)
    have d: "take (length (p @ q @ [?b])) (key_bytes k) = p @ q @ [?b]"
      using take_bytes_at [OF wf(1), of k] q "2.prems"(3) by simp
    have "tr_full (p @ q @ [?b]) (case map_of cs ?b of None \<Rightarrow> TLeaf k v | Some c \<Rightarrow> tr_ins (\<lambda>_ k. k) (Suc (length p + length q)) k v c)"
    proof (cases "map_of cs ?b")
      case None
      with d show ?thesis by simp
    next
      case (Some c)
      then have c: "(?b, c) \<in> set cs" by (rule map_of_SomeD)
      have "tr_full (p @ q @ [?b]) (tr_ins (\<lambda>_ k. k) (length (p @ q @ [?b])) k v c)"
        by (rule "2.IH" [OF c refl]) (use "2.prems" c d in auto)
      with Some show ?thesis by simp
    qed
    with False "2.prems"(1) show ?thesis by (auto simp: Let_def set_kv_upd [OF wf(2)])
  qed
qed

section \<open>Trees\<close>

text \<open>A pointer to a tree, and the tree it stands for; a null pointer is the empty one.\<close>

definition oroot :: "rtree option \<Rightarrow> addr" where
  "oroot t = (case t of None \<Rightarrow> nullptr | Some t \<Rightarrow> rroot t)"

definition art_map :: "rtree option \<Rightarrow> kv list" where
  "art_map t = (case t of None \<Rightarrow> [] | Some t \<Rightarrow> tr_map (rerase t))"

definition art_inv :: "amem \<Rightarrow> rtree option \<Rightarrow> bool" where
  "art_inv m t \<longleftrightarrow> (case t of None \<Rightarrow> True | Some t \<Rightarrow> rrepr (cells m) 0 t \<and> distinct (rfoot t) \<and> tr_full [] (rerase t))"

lemma keeps_suffix_id: "keeps_suffix (\<lambda>_ k. k)"
  by (simp add: keeps_suffix_def)

lemma rrepr_height: "rrepr h 0 t \<Longrightarrow> tr_height (rerase t) < 9"
  using tr_height_wf [OF rrepr_wf] by fastforce

lemma inv_art_update:
  assumes "art_inv m t" "mem_ok anode_blk (2 + j) m"
  obtains t' m' where "art_update_inplace ub 9 (oroot t) 0 k v m = Some (rroot t', m')" "art_inv m' (Some t')"
    "art_map (Some t') = kv_upd k v (art_map t)" "heap_step (cells m) (ofoot t) (cells m') (set (rfoot t'))" "mem_ok anode_blk j m'"
proof (cases t)
  case None
  have "mem_ok anode_blk (Suc j) m" by (rule mem_ok_mono [OF assms(2)]) simp
  from inplace_null_ok [OF this, of 0 k v ub 8] obtain t' m' where
    "art_update_inplace ub 9 nullptr 0 k v m = Some (rroot t', m')" "rerase t' = TLeaf k v" "rrepr (cells m') 0 t'" "distinct (rfoot t')"
    "heap_step (cells m) {} (cells m') (set (rfoot t'))" "mem_ok anode_blk j m'" by (auto simp: art_result_def)
  then show thesis by (intro that [of t' m']) (auto simp: None oroot_def art_inv_def art_map_def kv_upd_Nil)
next
  case (Some s)
  then have s: "rrepr (cells m) 0 s" "distinct (rfoot s)" "tr_full [] (rerase s)" using assms(1) by (simp_all add: art_inv_def)
  from update_inplace_ok [OF s(1,2) rrepr_height [OF s(1)] assms(2), of k v ub] obtain t' m' where
    t': "art_update_inplace ub 9 (rroot s) 0 k v m = Some (rroot t', m')" "rerase t' = tr_ins (\<lambda>_ k. k) 0 k v (rerase s)"
    "rrepr (cells m') 0 t'" "distinct (rfoot t')" "heap_step (cells m) (set (rfoot s)) (cells m') (set (rfoot t'))" "mem_ok anode_blk j m'"
    by (auto simp: art_result_def)
  have "tr_wf 0 (rerase s)" by (rule rrepr_wf [OF s(1)])
  with t' tr_map_ins [OF keeps_suffix_id this, of k v] tr_full_ins [OF s(3), of k v] show thesis
    by (intro that [of t' m']) (auto simp: Some oroot_def art_inv_def art_map_def)
qed

definition upd_all :: "kv list \<Rightarrow> kv list \<Rightarrow> kv list" where
  "upd_all es xs = fold (\<lambda>e. kv_upd (fst e) (snd e)) es xs"

lemma build_from_ok:
  "art_inv m t \<Longrightarrow> mem_ok anode_blk (2 * length es + j) m \<Longrightarrow>
   \<exists>t' m'. art_build_from ub 9 (oroot t) es m = Some (oroot t', m') \<and> art_inv m' t' \<and> art_map t' = upd_all es (art_map t) \<and>
     heap_step (cells m) (ofoot t) (cells m') (ofoot t') \<and> mem_ok anode_blk j m'"
proof (induction es arbitrary: t m)
  case Nil
  have "ofoot t \<subseteq> dom (cells m)" using Nil.prems(1) rrepr_dom by (cases t) (fastforce simp: art_inv_def)+
  with Nil show ?case by (auto simp: upd_all_def intro!: heap_step_refl)
next
  case (Cons e es)
  have "mem_ok anode_blk (2 + (2 * length es + j)) m" using Cons.prems(2) by (simp add: algebra_simps)
  from inv_art_update [OF Cons.prems(1) this, of ub "fst e" "snd e"] obtain t1 m1 where
    t1: "art_update_inplace ub 9 (oroot t) 0 (fst e) (snd e) m = Some (rroot t1, m1)" "art_inv m1 (Some t1)"
    "art_map (Some t1) = kv_upd (fst e) (snd e) (art_map t)" "heap_step (cells m) (ofoot t) (cells m1) (set (rfoot t1))"
    "mem_ok anode_blk (2 * length es + j) m1" .
  from Cons.IH [OF t1(2,5)] obtain t' m' where
    "art_build_from ub 9 (oroot (Some t1)) es m1 = Some (oroot t', m')" "art_inv m' t'" "art_map t' = upd_all es (art_map (Some t1))"
    "heap_step (cells m1) (ofoot (Some t1)) (cells m') (ofoot t')" "mem_ok anode_blk j m'" by blast
  with t1 heap_step_trans [OF t1(4), of "cells m'" "ofoot t'"] show ?case
    by (intro exI [of _ t'] exI [of _ m']) (simp add: upd_all_def oroot_def)
qed

end
