(* ===== verification/Art_Correct.thy ===== *)
theory Art_Correct
  imports Art_Inplace
begin

text \<open>
  The radix tree of \<^verbatim>\<open>lib/trees/art\<close> under the loader: the invariant is that the memory holds a
  trie at the root (or the root is null), that no node is shared, and that every leaf stores its
  whole key. The contents are an ordered map of the keys as numbers.
\<close>

section \<open>A concrete memory\<close>

definition art_junk :: anode where
  "art_junk = \<lparr>an_ver = 3, an_type = AT_LEAF, an_size = 200, an_ofs = 7, an_len = 9, an_cdf = 1, an_pfx = 5, an_val = 6,
     an_keys = [], an_chs = replicate 256 77\<rparr>"

definition art_empty_mem :: amem where
  "art_empty_mem = \<lparr>cells = Map.empty, blocks = demo_blocks 1 60 art_junk\<rparr>"

lemma art_empty_mem_ok: "j \<le> 60 \<Longrightarrow> mem_ok anode_blk j art_empty_mem"
  unfolding art_empty_mem_def by (rule demo_blocks_ok) (simp_all add: anode_blk_def art_junk_def)

lemma art_demo:
  obtains t m where "art_inv m t" "art_map t = [(5, 7), (261, 8), (0x7B00000000000105, 9)]" "mem_ok anode_blk 10 m"
proof -
  have "art_inv art_empty_mem None" by (simp add: art_inv_def)
  moreover have "mem_ok anode_blk (2 * length [(261, 8 :: val), (5, 7), (0x7B00000000000105 :: key, 9)] + 10) art_empty_mem"
    by (rule art_empty_mem_ok) simp
  ultimately show thesis using build_from_ok [of art_empty_mem None _ 10 "\<lambda>_ _ _. 0"] that
    by (fastforce simp: upd_all_def art_map_def kv_upd_def)
qed

section \<open>Properties\<close>

lemma inv_find: "art_inv m t \<Longrightarrow> art_find ub 9 (oroot t) k m = Some (map_of (art_map t) k)"
proof (cases t)
  case (Some s)
  moreover assume "art_inv m t"
  ultimately have s: "rrepr (cells m) 0 s" by (simp add: art_inv_def)
  from art_find_ok [OF s rrepr_height [OF s]] tr_map_find [OF rrepr_wf [OF s]] show ?thesis
    by (simp add: Some oroot_def art_map_def)
qed (simp add: oroot_def art_map_def numeral_eq_Suc)

lemma inv_scan: "art_inv m t \<Longrightarrow> 0 < n \<Longrightarrow> art_scan ub 9 (oroot t) k n m = Some (kv_scan k n (art_map t))"
proof (cases t)
  case (Some s)
  moreover assume i: "art_inv m t" "0 < n"
  ultimately have s: "rrepr (cells m) 0 s" "tr_full [] (rerase s)" by (simp_all add: art_inv_def)
  have map: "tr_map (rerase s) = tr_kvs (rerase s)" using tr_full_kvs [OF s(2)] by (simp add: tr_map_def)
  have "ordered (tr_kvs (rerase s))" using tr_map_ordered [OF rrepr_wf [OF s(1)]] by (simp add: map)
  moreover have "art_scan_search ub 9 (rroot s) k n [] m = Some (fill n [] (keys_from k (tr_kvs (rerase s))))"
    by (rule art_scan_search_ok [where p = "[]"]) (use s rrepr_height i(2) in simp_all)
  ultimately show ?thesis by (simp add: Some oroot_def art_map_def art_scan_def map fill_def keys_from_scan)
qed (simp add: oroot_def art_map_def art_scan_def kv_scan_def numeral_eq_Suc)

text \<open>
  C21. In-place update (\<^verbatim>\<open>update_inplace\<close> from the root): on any tree that satisfies the invariant,
  the empty one included, and with two blocks to allocate, the update makes no invalid access,
  keeps the invariant, and what the tree holds afterwards is the ordered-map update of what it held. Only
  cells of the tree change; a node that was replaced by a larger one has been freed. Nine levels of
  recursion are enough for every tree, and the result of the undefined shifts does not matter.
\<close>

theorem art_inplace_update_correct:
  assumes "art_inv m t" "mem_ok anode_blk (2 + j) m"
  shows "\<exists>t' m'. art_update_inplace ub 9 (oroot t) 0 k v m = Some (rroot t', m') \<and> art_inv m' (Some t') \<and>
    art_map (Some t') = kv_upd k v (art_map t) \<and> heap_step (cells m) (ofoot t) (cells m') (set (rfoot t')) \<and> mem_ok anode_blk j m'"
  using inv_art_update [OF assms, of ub k v] by metis

theorem art_inplace_update_correct_witness:
  "\<exists>t m t' m'. art_map t = [(5, 7), (261, 8), (0x7B00000000000105, 9)] \<and>
     art_update_inplace (\<lambda>_ _ _. 0) 9 (oroot t) 0 261 1 m = Some (rroot t', m') \<and>
     art_map (Some t') = [(5, 7), (261, 1), (0x7B00000000000105, 9)]"
proof -
  obtain t m where d: "art_inv m t" "art_map t = [(5, 7), (261, 8), (0x7B00000000000105, 9)]" "mem_ok anode_blk 10 m" by (rule art_demo)
  then have "mem_ok anode_blk (2 + 8) m" by simp
  from art_inplace_update_correct [OF d(1) this, of "\<lambda>_ _ _. 0" 261 1] d(2) show ?thesis by (auto simp: kv_upd_def)
qed

text \<open>
  C22. Point lookup (\<^verbatim>\<open>find\<close>) returns the value bound to the key in the represented map, and null
  for a key that is not in it.
\<close>

theorem art_find_correct:
  assumes "art_inv m t"
  shows "art_find ub 9 (oroot t) k m = Some (map_of (art_map t) k)"
  by (rule inv_find [OF assms])

theorem art_find_correct_witness:
  "\<exists>t m. art_find (\<lambda>_ _ _. 0) 9 (oroot t) 261 m = Some (Some 8) \<and> art_find (\<lambda>_ _ _. 0) 9 (oroot t) 262 m = Some None"
proof -
  obtain t m where d: "art_inv m t" "art_map t = [(5, 7), (261, 8), (0x7B00000000000105, 9)]" "mem_ok anode_blk 10 m" by (rule art_demo)
  from art_find_correct [OF d(1), of "\<lambda>_ _ _. 0"] d(2) show ?thesis by (intro exI [of _ t] exI [of _ m]) simp
qed

text \<open>
  C23. A range scan (\<^verbatim>\<open>scan\<close>) for at least one result returns the first \<open>n\<close> bindings from the key
  on, in ascending order of the keys: the descent by bytes, the per-type loops and the early stops
  together are the scan of the ordered map.
\<close>

theorem art_scan_correct:
  assumes "art_inv m t" "0 < n"
  shows "art_scan ub 9 (oroot t) k n m = Some (kv_scan k n (art_map t))"
  by (rule inv_scan [OF assms])

theorem art_scan_correct_witness:
  "\<exists>t m. art_scan (\<lambda>_ _ _. 0) 9 (oroot t) 6 2 m = Some [(261, 8), (0x7B00000000000105, 9)]"
proof -
  obtain t m where d: "art_inv m t" "art_map t = [(5, 7), (261, 8), (0x7B00000000000105, 9)]" "mem_ok anode_blk 10 m" by (rule art_demo)
  from art_scan_correct [OF d(1), of 2 "\<lambda>_ _ _. 0" 6] d(2) show ?thesis
    by (intro exI [of _ t] exI [of _ m]) (simp add: kv_scan_def)
qed

text \<open>
  C24. Bulk loading (\<^verbatim>\<open>build\<close>) of any array of entries, in any order and with repeated keys, gives
  a tree that satisfies the invariant and holds the entries, the last one of each key; two blocks
  per entry are enough.
\<close>

theorem art_build_correct:
  assumes "mem_ok anode_blk (2 * length elems + j) m"
  shows "\<exists>t m'. art_build ub 9 elems m = Some (oroot t, m') \<and> art_inv m' t \<and> map_of (art_map t) = map_of (rev elems) \<and>
    heap_step (cells m) {} (cells m') (ofoot t) \<and> mem_ok anode_blk j m'"
proof -
  have "art_inv m None" by (simp add: art_inv_def)
  from build_from_ok [OF this assms, of ub] obtain t m' where t: "art_build ub 9 elems m = Some (oroot t, m')" "art_inv m' t"
    "art_map t = upd_all elems []" "heap_step (cells m) {} (cells m') (ofoot t)" "mem_ok anode_blk j m'"
    by (auto simp: art_build_def oroot_def art_map_def)
  have "ordered xs \<Longrightarrow> map_of (upd_all elems xs) = map_of xs ++ map_of (rev elems)" for xs
    by (induction elems arbitrary: xs) (auto simp: upd_all_def map_of_kv_upd ordered_kv_upd)
  from this [of "[]"] t show ?thesis by auto
qed

theorem art_build_correct_witness:
  "\<exists>t m'. art_build (\<lambda>_ _ _. 0) 9 [(7, 1), (3, 2), (7, 5)] art_empty_mem = Some (oroot t, m') \<and>
     map_of (art_map t) 7 = Some 5 \<and> map_of (art_map t) 3 = Some 2 \<and> map_of (art_map t) 4 = None"
proof -
  have "mem_ok anode_blk (2 * length [(7, 1), (3, 2), (7 :: key, 5 :: val)] + 0) art_empty_mem" by (rule art_empty_mem_ok) simp
  from art_build_correct [OF this, of "\<lambda>_ _ _. 0"] show ?thesis by auto
qed

end
