(* ===== verification/Art_Cow.thy ===== *)
theory Art_Cow
  imports Art_Correct Conctrl_Context
begin

text \<open>
  Copy on write in the radix tree: \<^verbatim>\<open>context.hpp\<close>, \<^verbatim>\<open>update_cow.hpp\<close> and \<^verbatim>\<open>handlers.hpp\<close> of
  \<^verbatim>\<open>lib/trees/art\<close>. A stage copies the header of one node of the path and leaves its children to
  the next stage. The theorem runs all stages: the old version stays, and the new root represents
  the trie \<open>tr_ins\<close> gives, with the keys in forked leaves cut to the bytes below the fork.
\<close>

section \<open>The code\<close>

record art_ctx = ctx +
  cx_key_ofs :: nat
  cx_ch_idx :: nat

definition art_SEARCH :: nat where
  "art_SEARCH = 1"

definition art_INSERT :: nat where
  "art_INSERT = 2"

definition art_FORK :: nat where
  "art_FORK = 3"

abbreviation cx_ver :: "art_ctx \<Rightarrow> 64 word" where
  "cx_ver c \<equiv> ucast (cx_sno c)"

text \<open>Here the prefix is masked whatever the type is.\<close>

definition art_mask_shift :: "shifts \<Rightarrow> nat \<Rightarrow> anode \<Rightarrow> anode" where
  "art_mask_shift ub d n =
     (let n = n\<lparr>an_ofs := an_ofs n + d, an_len := an_len n - d\<rparr>
      in n\<lparr>an_pfx := an_pfx n AND art_prefix_mask ub (an_ofs n) (an_len n)\<rparr>)"

definition art_fork_cow :: "shifts \<Rightarrow> art_ctx \<Rightarrow> addr \<Rightarrow> nat \<Rightarrow> amem \<Rightarrow> (addr \<times> art_ctx \<times> amem) option" where
  "art_fork_cow ub c t_past pmlen m =
     do { (t_par, m) \<leftarrow> art_new_node ub (cx_ver c) AT_NODE4 (cx_key_ofs c) pmlen (cx_key c) m;
          (t_ch, m) \<leftarrow> art_node_copy t_past (cx_ver c) m;
          m \<leftarrow> mem_upd m t_ch (\<lambda>n. Some (art_mask_shift ub (pmlen + 1) n));
          n \<leftarrow> mem_get m t_past;
          let pk0 = art_partial_key ub (an_pfx n) (an_ofs n + pmlen);
          let c = c\<lparr>cx_key_ofs := cx_key_ofs c + pmlen\<rparr>;
          let pk1 = art_partial_key ub (cx_key c) (cx_key_ofs c);
          let c = c\<lparr>cx_ch_idx := (if pk0 > pk1 then 1 else 0)\<rparr>;
          m \<leftarrow> mem_upd m t_par (\<lambda>n. do {
                 ks \<leftarrow> arr_set (an_keys n) (cx_ch_idx c) pk0;
                 cs \<leftarrow> arr_set (an_chs n) (cx_ch_idx c) t_ch;
                 ks \<leftarrow> arr_set ks (1 - cx_ch_idx c) pk1;
                 Some (n\<lparr>an_keys := ks, an_chs := cs\<rparr>) });
          (l, m) \<leftarrow> art_new_leaf ub (cx_ver c) (cx_key_ofs c + 1) (cx_key c) (cx_val c) m;
          m \<leftarrow> mem_upd m t_par (\<lambda>n. do { cs \<leftarrow> arr_set (an_chs n) (1 - cx_ch_idx c) l; Some (n\<lparr>an_chs := cs\<rparr>) });
          Some (t_par, c, m) }"

text \<open>
  \<^verbatim>\<open>update_cow\<close> writes the new node through its second argument. Here the node is a result, next
  to the operand, and the callers store it.
\<close>

definition art_update_cow :: "shifts \<Rightarrow> art_ctx \<Rightarrow> amem \<Rightarrow> (nat \<times> addr \<times> art_ctx \<times> amem) option" where
  "art_update_cow ub c m =
     (let t_past = cx_t_past c
      in if t_past = nullptr
         then do {
           (t, m) \<leftarrow> art_new_leaf ub (cx_ver c) (cx_key_ofs c) (cx_key c) (cx_val c) m;
           Some (conctrl_DONE, t, c, m) }
         else do {
           n \<leftarrow> mem_get m t_past;
           let pmlen = art_prefix_match ub n (cx_key c);
           if pmlen < an_len n
           then do { (t, c, m) \<leftarrow> art_fork_cow ub c t_past pmlen m; Some (art_FORK, t, c, m) }
           else if an_type n = AT_LEAF
           then do { (t, m) \<leftarrow> art_leaf_update (cx_ver c) t_past (cx_val c) m; Some (conctrl_DONE, t, c, m) }
           else do {
             let c = c\<lparr>cx_key_ofs := cx_key_ofs c + an_len n\<rparr>;
             let pkey = art_partial_key ub (cx_key c) (cx_key_ofs c);
             let c = c\<lparr>cx_key_ofs := cx_key_ofs c + 1\<rparr>;
             idx \<leftarrow> art_find_idx n pkey;
             case idx of
               Some idx \<Rightarrow> do {
                 (t, m) \<leftarrow> art_node_copy t_past (cx_ver c) m;
                 Some (art_SEARCH, t, c\<lparr>cx_ch_idx := idx\<rparr>, m) }
             | None \<Rightarrow> do {
                 (t, m) \<leftarrow> (if art_is_full n then art_node_extend ub t_past (cx_ver c) m else art_node_copy t_past (cx_ver c) m);
                 x \<leftarrow> mem_get m t;
                 (x, i) \<leftarrow> art_append x pkey;
                 m \<leftarrow> mem_upd m t (\<lambda>_. Some x);
                 Some (art_INSERT, t, c\<lparr>cx_ch_idx := i\<rparr>, m) } } })"

definition art_handle_init :: "shifts \<Rightarrow> art_ctx \<Rightarrow> amem \<Rightarrow> (nat \<times> art_ctx \<times> amem) option" where
  "art_handle_init ub c m =
     do { (op', t, c, m) \<leftarrow> art_update_cow ub (c\<lparr>cx_key_ofs := 0\<rparr>) m;
          Some (op', c\<lparr>cx_root := t, cx_t_cur := t\<rparr>, m) }"

definition art_handle_search :: "shifts \<Rightarrow> art_ctx \<Rightarrow> amem \<Rightarrow> (nat \<times> art_ctx \<times> amem) option" where
  "art_handle_search ub c m =
     do { let t_cur = cx_t_cur c;
          cur \<leftarrow> mem_get m t_cur;
          past \<leftarrow> mem_get m (cx_t_past c);
          cur \<leftarrow> art_copych cur past;
          m \<leftarrow> mem_upd m t_cur (\<lambda>_. Some cur);
          pos \<leftarrow> art_getch past (cx_ch_idx c);
          t_past \<leftarrow> arr_get (an_chs past) pos;
          t_cur_next \<leftarrow> art_getch cur (cx_ch_idx c);
          (op', t, c, m) \<leftarrow> art_update_cow ub (c\<lparr>cx_t_past := t_past\<rparr>) m;
          m \<leftarrow> art_set_slot t_cur t_cur_next t m;
          Some (op', c\<lparr>cx_t_cur := t\<rparr>, m) }"

definition art_handle_insert :: "shifts \<Rightarrow> art_ctx \<Rightarrow> amem \<Rightarrow> (nat \<times> art_ctx \<times> amem) option" where
  "art_handle_insert ub c m =
     do { cur \<leftarrow> mem_get m (cx_t_cur c);
          past \<leftarrow> mem_get m (cx_t_past c);
          cur \<leftarrow> art_copych_at cur past (cx_ch_idx c);
          m \<leftarrow> mem_upd m (cx_t_cur c) (\<lambda>_. Some cur);
          ch \<leftarrow> art_getch cur (cx_ch_idx c);
          (l, m) \<leftarrow> art_new_leaf ub (cx_ver c) (cx_key_ofs c) (cx_key c) (cx_val c) m;
          m \<leftarrow> art_set_slot (cx_t_cur c) ch l m;
          Some (conctrl_DONE, c, m) }"

definition art_handle_fork :: "art_ctx \<Rightarrow> amem \<Rightarrow> (nat \<times> art_ctx \<times> amem) option" where
  "art_handle_fork c m =
     do { par \<leftarrow> mem_get m (cx_t_cur c);
          t \<leftarrow> arr_get (an_chs par) (cx_ch_idx c);
          let c = c\<lparr>cx_t_cur := t\<rparr>;
          cur \<leftarrow> mem_get m (cx_t_cur c);
          past \<leftarrow> mem_get m (cx_t_past c);
          cur \<leftarrow> art_copych cur past;
          m \<leftarrow> mem_upd m (cx_t_cur c) (\<lambda>_. Some cur);
          Some (conctrl_DONE, c, m) }"

text \<open>\<^verbatim>\<open>interface::handlers\<close> of \<^verbatim>\<open>src/adapters/art.hpp\<close>.\<close>

definition art_handlers :: "shifts \<Rightarrow> (art_ctx, amem) handlers" where
  "art_handlers ub op' =
     (if op' = conctrl_INIT then art_handle_init ub
      else if op' = art_SEARCH then art_handle_search ub
      else if op' = art_INSERT then art_handle_insert ub
      else if op' = art_FORK then art_handle_fork
      else (\<lambda>c m. None))"

lemmas art_ops = conctrl_INIT_def conctrl_DONE_def art_SEARCH_def art_INSERT_def art_FORK_def

section \<open>Forks\<close>

text \<open>What a fork leaves of the key in a leaf that moves to depth \<^term>\<open>i\<close>.\<close>

definition art_cut :: "shifts \<Rightarrow> nat \<Rightarrow> key \<Rightarrow> key" where
  "art_cut ub i k = k AND art_prefix_mask ub i (8 - i)"

lemma art_cut_suffix: "keeps_suffix (art_cut ub)"
  unfolding keeps_suffix_def
proof (intro allI)
  fix i k
  show "drop i (key_bytes (art_cut ub i k)) = drop i (key_bytes k)"
  proof (cases "i \<le> 8")
    case True
    with pfx_bytes_mask [of i "8 - i" k ub] show ?thesis by (simp add: pfx_bytes_def art_cut_def)
  qed simp
qed

lemma mask_shift_leaf:
  "art_leaf x ofs k v \<Longrightarrow> l < 8 - ofs \<Longrightarrow> art_leaf (art_mask_shift ub (Suc l) x) (Suc (ofs + l)) (art_cut ub (Suc (ofs + l)) k) v"
  by (auto simp: art_leaf_def art_mask_shift_def art_cut_def anode_ok_def Let_def)

lemma mask_shift_inner: "an_type x \<noteq> AT_LEAF \<Longrightarrow> art_mask_shift ub d x = art_shift ub d x"
  by (simp add: art_shift_def art_mask_shift_def Let_def)

lemma fork_cow_ok:
  assumes x: "cells m t = Some x" "anode_ok x" "an_ofs x = ofs" "ofs + l < 8"
    "key_byte (an_pfx x) (ofs + l) \<noteq> key_byte (cx_key c) (ofs + l)" and m: "mem_ok anode_blk (3 + j) m"
    and c: "cx_key_ofs c = ofs"
  obtains a s b n y n' m' idx where "art_fork_cow ub c t l m = Some (a, c\<lparr>cx_key_ofs := ofs + l, cx_ch_idx := idx\<rparr>, m')"
    "cells m' = (cells m)(a \<mapsto> n, s \<mapsto> y, b \<mapsto> n')" "mem_ok anode_blk j m'"
    "cells m a = None" "cells m s = None" "cells m b = None" "a \<noteq> s" "a \<noteq> b" "s \<noteq> b" "a \<noteq> nullptr" "s \<noteq> nullptr" "b \<noteq> nullptr"
    "\<exists>chs. y = art_mask_shift ub (Suc l) (x\<lparr>an_ver := cx_ver c, an_chs := chs\<rparr>) \<and> length chs = art_nchs (an_type x)"
    "art_leaf n' (Suc (ofs + l)) (cx_key c) (cx_val c)" "art_head n ofs (take l (drop ofs (key_bytes (cx_key c))))"
    "art_kids n (kv_upd (key_byte (cx_key c) (ofs + l)) b [(key_byte (an_pfx x) (ofs + l), s)])"
    "arr_get (an_chs n) idx = Some s"
proof -
  let ?n0 = "art_node0 ub (cx_ver c) AT_NODE4 ofs l (cx_key c)" and ?pk0 = "key_byte (an_pfx x) (ofs + l)" and ?pk1 = "key_byte (cx_key c) (ofs + l)"
  define idx where "idx = (if ?pk0 > ?pk1 then 1 else 0 :: nat)"
  have mm: "mem_ok anode_blk (Suc (Suc (Suc j))) m" using m by (simp add: eval_nat_numeral)
  obtain a m1 where m1: "art_new_node ub (cx_ver c) AT_NODE4 ofs l (cx_key c) m = Some (a, m1)" "mem_new anode_blk (Suc (Suc j)) m a ?n0 m1"
    by (rule art_new_node_ok [OF mm])
  then have c1: "cells m1 = (cells m)(a \<mapsto> ?n0)" "cells m a = None" "a \<noteq> nullptr" "mem_ok anode_blk (Suc (Suc j)) m1" by (simp_all add: mem_new_def)
  have at: "a \<noteq> t" using c1(2) x(1) by auto
  have t1: "cells m1 t = Some x" using at x(1) c1(1) by simp
  obtain s chs m2 where m2: "art_node_copy t (cx_ver c) m1 = Some (s, m2)"
    "mem_new anode_blk (Suc j) m1 s (x\<lparr>an_ver := cx_ver c, an_chs := chs\<rparr>) m2" "length chs = art_nchs (an_type x)"
    by (rule node_copy_ok [OF t1 x(2) c1(4)])
  let ?y = "art_mask_shift ub (Suc l) (x\<lparr>an_ver := cx_ver c, an_chs := chs\<rparr>)"
  let ?f = "\<lambda>n. Some (art_mask_shift ub (l + 1) n)"
  have fy: "?f (x\<lparr>an_ver := cx_ver c, an_chs := chs\<rparr>) = Some ?y" by simp
  obtain m3 where m3: "mem_upd m2 s ?f = Some m3" "mem_new anode_blk (Suc j) m1 s ?y m3"
    by (rule mem_upd_new [where f = ?f, OF m2(2) fy])
  then have c3: "cells m3 = (cells m)(a \<mapsto> ?n0, s \<mapsto> ?y)" "cells m1 s = None" "s \<noteq> nullptr" "mem_ok anode_blk (Suc j) m3"
    using c1(1) by (simp_all add: mem_new_def)
  have s: "s \<noteq> a" "s \<noteq> t" "cells m s = None" using c3(2) c1(1) t1 by (auto split: if_splits)
  have t3: "cells m3 t = Some x" using x(1) at s by (simp add: c3(1))
  let ?g = "\<lambda>n. do { ks \<leftarrow> arr_set (an_keys n) idx ?pk0; cs \<leftarrow> arr_set (an_chs n) idx s; ks \<leftarrow> arr_set ks (1 - idx) ?pk1;
     Some (n\<lparr>an_keys := ks, an_chs := cs\<rparr>) }"
  define ks where "ks = [0, 0, 0, 0][idx := ?pk0, 1 - idx := ?pk1]"
  define n1 where "n1 = ?n0\<lparr>an_keys := ks, an_chs := [0, 0, 0, 0][idx := s]\<rparr>"
  have r: "replicate 4 0 = [0, 0, 0, 0 :: 'z::zero]" by (simp add: numeral_eq_Suc)
  have g: "?g ?n0 = Some n1" by (cases "?pk0 > ?pk1") (simp_all add: n1_def ks_def arr_set_def r idx_def)
  have a3: "cells m3 a = Some ?n0" using s by (simp add: c3(1))
  obtain m4 where m4: "mem_upd m3 a ?g = Some m4" "mem_set anode_blk (Suc j) m3 a n1 m4"
    by (rule mem_upd_set [where f = ?g, OF a3 g c3(4)])
  then have c4: "cells m4 = (cells m)(a \<mapsto> n1, s \<mapsto> ?y)" "mem_ok anode_blk (Suc j) m4"
    using c3(1) s by (auto simp: mem_set_def fun_upd_twist)
  have o8: "ofs + l + 1 \<le> 8" using x(4) by simp
  obtain b n' m5 where m5: "art_new_leaf ub (cx_ver c) (ofs + l + 1) (cx_key c) (cx_val c) m4 = Some (b, m5)" "mem_new anode_blk j m4 b n' m5"
    "art_leaf n' (ofs + l + 1) (cx_key c) (cx_val c)" by (rule art_new_leaf_ok [OF c4(2) o8])
  then have c5: "cells m5 = (cells m4)(b \<mapsto> n')" "cells m4 b = None" "b \<noteq> nullptr" "mem_ok anode_blk j m5" by (simp_all add: mem_new_def)
  have b: "b \<noteq> a" "b \<noteq> s" "cells m b = None" using c5(2) c4(1) by (auto split: if_splits)
  let ?h = "\<lambda>n. do { cs \<leftarrow> arr_set (an_chs n) (1 - idx) b; Some (n\<lparr>an_chs := cs\<rparr>) }"
  define n where "n = ?n0\<lparr>an_keys := ks, an_chs := [0, 0, 0, 0][idx := s, 1 - idx := b]\<rparr>"
  have h: "?h n1 = Some n" by (cases "?pk0 > ?pk1") (simp_all add: n1_def n_def arr_set_def idx_def)
  have a5: "cells m5 a = Some n1" using b s by (simp add: c5(1) c4(1))
  obtain m6 where m6: "mem_upd m5 a ?h = Some m6" "mem_set anode_blk j m5 a n m6"
    by (rule mem_upd_set [where f = ?h, OF a5 h c5(4)])
  then have c6: "cells m6 = (cells m)(a \<mapsto> n, s \<mapsto> ?y, b \<mapsto> n')" "mem_ok anode_blk j m6"
    using c5(1) c4(1) s b by (auto simp: mem_set_def fun_upd_twist)
  have run: "art_fork_cow ub c t l m = Some (a, c\<lparr>cx_key_ofs := ofs + l, cx_ch_idx := idx\<rparr>, m6)"
    using m1(1) m2(1) m3(1) m4(1) m5(1) m6(1) t3 x(3,4) c
    by (simp add: art_fork_cow_def mem_get_def partial_key_byte idx_def [symmetric] Let_def)
  note nd = fork_node_ok [OF x(5) c3(3) c5(3) x(4) n_def idx_def ks_def refl]
  have i: "arr_get (an_chs n) idx = Some s" by (cases "?pk0 > ?pk1") (simp_all add: n_def arr_get_def idx_def)
  show thesis
    by (rule that [OF run c6 c1(2) s(3) b(3) s(1) [symmetric] b(1) [symmetric] b(2) [symmetric] c1(3) c3(3) c5(3) _ _ nd i])
      (use m2(3) m5(3) in auto)
qed

section \<open>The stages\<close>

text \<open>
  What \<^verbatim>\<open>update_cow\<close> at a node promises: it has made the node that replaces it, in free memory, and
  the stages that follow complete the tree there, whatever has meanwhile been written to the
  cell \<^term>\<open>p\<close> (the parent, into which the caller stores the new node). They change no cell that was
  in use before.
\<close>

definition cow_cont :: "shifts \<Rightarrow> nat \<Rightarrow> amem \<Rightarrow> addr \<Rightarrow> nat \<Rightarrow> tr \<Rightarrow> nat \<Rightarrow> nat \<Rightarrow> addr \<Rightarrow> art_ctx \<Rightarrow> amem \<Rightarrow> nat \<Rightarrow> bool" where
  "cow_cont ub j m p ofs T fuel op' t c1 m1 i \<longleftrightarrow>
     (\<forall>m2 z. (\<forall>x. x \<noteq> p \<longrightarrow> cells m2 x = cells m1 x) \<longrightarrow> p = nullptr \<or> cells m2 p \<noteq> None \<longrightarrow> mem_ok anode_blk i m2 \<longrightarrow>
       (\<exists>c3 m3 t'. conctrl_run (art_handlers ub) fuel (c1\<lparr>cx_root := z, cx_t_cur := t, cx_op := op'\<rparr>) m2 = Some (c3, m3) \<and>
          cx_root c3 = z \<and> rroot t' = t \<and> rerase t' = T \<and> rrepr (cells m3) ofs t' \<and>
          (\<forall>x n. x = p \<or> cells m x \<noteq> None \<longrightarrow> cells m2 x = Some n \<longrightarrow> cells m3 x = Some n) \<and> mem_ok anode_blk j m3))"

definition cow_goal :: "shifts \<Rightarrow> nat \<Rightarrow> amem \<Rightarrow> addr \<Rightarrow> nat \<Rightarrow> tr \<Rightarrow> nat \<Rightarrow> (nat \<times> addr \<times> art_ctx \<times> amem) option \<Rightarrow> bool" where
  "cow_goal ub j m p ofs T fuel r \<longleftrightarrow> (\<exists>op' t c1 m1 i. r = Some (op', t, c1, m1) \<and> t \<noteq> nullptr \<and> cells m t = None \<and>
     cells m \<subseteq>\<^sub>m cells m1 \<and> mem_ok anode_blk i m1 \<and> cow_cont ub j m p ofs T fuel op' t c1 m1 i)"

lemma cow_contD:
  assumes "cow_cont ub j m p ofs T fuel op' t c1 m1 i"
    "\<forall>x. x \<noteq> p \<longrightarrow> cells m2 x = cells m1 x" "p = nullptr \<or> cells m2 p \<noteq> None" "mem_ok anode_blk i m2"
  obtains c3 m3 t' where "conctrl_run (art_handlers ub) fuel (c1\<lparr>cx_root := z, cx_t_cur := t, cx_op := op'\<rparr>) m2 = Some (c3, m3)"
    "cx_root c3 = z" "rroot t' = t" "rerase t' = T" "rrepr (cells m3) ofs t'"
    "\<forall>x n. x = p \<or> cells m x \<noteq> None \<longrightarrow> cells m2 x = Some n \<longrightarrow> cells m3 x = Some n" "mem_ok anode_blk j m3"
proof -
  from assms have "(\<exists>c3 m3 t'. conctrl_run (art_handlers ub) fuel (c1\<lparr>cx_root := z, cx_t_cur := t, cx_op := op'\<rparr>) m2 = Some (c3, m3) \<and>
          cx_root c3 = z \<and> rroot t' = t \<and> rerase t' = T \<and> rrepr (cells m3) ofs t' \<and>
          (\<forall>x n. x = p \<or> cells m x \<noteq> None \<longrightarrow> cells m2 x = Some n \<longrightarrow> cells m3 x = Some n) \<and> mem_ok anode_blk j m3)"
    using mp [OF mp [OF mp [OF assms(1) [unfolded cow_cont_def, THEN spec, of m2, THEN spec, of z] assms(2)] assms(3)] assms(4)] by blast
  then show thesis by (elim exE conjE) (rule that)
qed

lemma cow_goalI:
  assumes "r = Some (op', t, c1, m1)" "t \<noteq> nullptr" "cells m t = None" "cells m \<subseteq>\<^sub>m cells m1" "mem_ok anode_blk i m1"
    "\<And>m2 z. (\<And>x. x \<noteq> p \<Longrightarrow> cells m2 x = cells m1 x) \<Longrightarrow> p = nullptr \<or> cells m2 p \<noteq> None \<Longrightarrow> mem_ok anode_blk i m2 \<Longrightarrow>
       \<exists>c3 m3 t'. conctrl_run (art_handlers ub) fuel (c1\<lparr>cx_root := z, cx_t_cur := t, cx_op := op'\<rparr>) m2 = Some (c3, m3) \<and>
          cx_root c3 = z \<and> rroot t' = t \<and> rerase t' = T \<and> rrepr (cells m3) ofs t' \<and>
          (\<forall>x n. x = p \<or> cells m x \<noteq> None \<longrightarrow> cells m2 x = Some n \<longrightarrow> cells m3 x = Some n) \<and> mem_ok anode_blk j m3"
  shows "cow_goal ub j m p ofs T fuel r"
proof -
  have "cow_cont ub j m p ofs T fuel op' t c1 m1 i"
    unfolding cow_cont_def by (intro allI impI, rule assms(6)) blast+
  with assms(1-5) show ?thesis unfolding cow_goal_def by blast
qed

text \<open>The new node is a leaf, and nothing is left to do.\<close>

lemma run_DONE: "conctrl_run H (Suc f) (c\<lparr>cx_op := conctrl_DONE\<rparr>) m = Some (c\<lparr>cx_op := conctrl_DONE\<rparr>, m)"
  by simp

lemma cow_done_ok:
  assumes "r = Some (conctrl_DONE, a, c, m1)" "mem_new anode_blk j m a n m1" "art_leaf n ofs k v" "p = nullptr \<or> cells m p \<noteq> None"
  shows "cow_goal ub j m p ofs (TLeaf k v) (Suc f) r"
proof -
  have a: "a \<noteq> nullptr" "cells m a = None" "cells m1 = (cells m)(a \<mapsto> n)" "mem_ok anode_blk j m1" using assms(2) by (simp_all add: mem_new_def)
  have ap: "a \<noteq> p" using a(1,2) assms(4) by auto
  show ?thesis
  proof (rule cow_goalI [OF assms(1) a(1,2) _ a(4)])
    show "cells m \<subseteq>\<^sub>m cells m1" using a(2,3) by (auto simp: map_le_def)
    fix m2 z assume m2: "\<And>x. x \<noteq> p \<Longrightarrow> cells m2 x = cells m1 x" "mem_ok anode_blk j m2"
    have "cells m2 a = Some n" using m2(1) [of a] ap a(3) by simp
    with a(1) assms(3) m2(2) show "\<exists>c3 m3 t'. conctrl_run (art_handlers ub) (Suc f) (c\<lparr>cx_root := z, cx_t_cur := a, cx_op := conctrl_DONE\<rparr>) m2 = Some (c3, m3) \<and>
        cx_root c3 = z \<and> rroot t' = a \<and> rerase t' = TLeaf k v \<and> rrepr (cells m3) ofs t' \<and>
        (\<forall>x n. x = p \<or> cells m x \<noteq> None \<longrightarrow> cells m2 x = Some n \<longrightarrow> cells m3 x = Some n) \<and> mem_ok anode_blk j m3"
      by (intro exI [of _ "c\<lparr>cx_root := z, cx_t_cur := a, cx_op := conctrl_DONE\<rparr>"] exI [of _ m2] exI [of _ "RLeaf a k v"]) simp
  qed
qed

lemma cow_null_ok:
  assumes "mem_ok anode_blk (Suc j) m" "cx_t_past c = nullptr" "cx_key_ofs c = ofs" "ofs \<le> 8" "p = nullptr \<or> cells m p \<noteq> None"
  shows "cow_goal ub j m p ofs (TLeaf (cx_key c) (cx_val c)) (Suc f) (art_update_cow ub c m)"
proof -
  obtain a n m1 where "art_new_leaf ub (cx_ver c) ofs (cx_key c) (cx_val c) m = Some (a, m1)" "mem_new anode_blk j m a n m1"
    "art_leaf n ofs (cx_key c) (cx_val c)" by (rule art_new_leaf_ok [OF assms(1,4)])
  then show ?thesis using assms(2,3,5) by (intro cow_done_ok [where a = a and n = n and c = c]) (simp_all add: art_update_cow_def)
qed

text \<open>A fork: what is left of the old node is copied and gets its children in the next stage.\<close>

lemma run_FORK:
  "conctrl_run (art_handlers ub) (Suc f) (c\<lparr>cx_op := art_FORK\<rparr>) m =
    do { (op', c, m) \<leftarrow> art_handle_fork (c\<lparr>cx_op := art_FORK\<rparr>) m; conctrl_run (art_handlers ub) f (c\<lparr>cx_op := op'\<rparr>) m }"
  by (simp add: art_handlers_def art_ops)

lemma cow_fork_ok:
  assumes r: "rrepr (cells m) ofs t" and x: "cells m (rroot t) = Some x" "anode_ok x" "an_ofs x = ofs"
    and l: "ofs + l < 8" "key_byte (an_pfx x) (ofs + l) \<noteq> key_byte (cx_key c) (ofs + l)"
    and m: "mem_ok anode_blk (3 + j) m" and c: "cx_key_ofs c = ofs" "cx_t_past c = rroot t"
    and p: "p = nullptr \<or> cells m p \<noteq> None" "p \<notin> set (rfoot t)"
    and s: "\<And>s chs. s \<noteq> nullptr \<Longrightarrow> length chs = art_nchs (an_type x) \<Longrightarrow>
      \<exists>y s'. art_copych (art_mask_shift ub (Suc l) (x\<lparr>an_ver := cx_ver c, an_chs := chs\<rparr>)) x = Some y \<and> rroot s' = s \<and> rerase s' = S \<and>
        (\<forall>h. h s = Some y \<longrightarrow> (\<forall>z \<in> set (rfoot t). h z = cells m z) \<longrightarrow> rrepr h (Suc (ofs + l)) s')"
  shows "cow_goal ub j m p ofs (tr_fork ofs l (key_byte (an_pfx x) (ofs + l)) S (cx_key c) (cx_val c)) (Suc (Suc f))
    (do { (t, c, m) \<leftarrow> art_fork_cow ub c (rroot t) l m; Some (art_FORK, t, c, m) })"
proof -
  let ?k = "cx_key c" and ?v = "cx_val c"
  let ?pk0 = "key_byte (an_pfx x) (ofs + l)" and ?pk1 = "key_byte ?k (ofs + l)" and ?q = "take l (drop ofs (key_bytes ?k))"
  have dom: "set (rfoot t) \<subseteq> dom (cells m)" by (rule rrepr_dom [OF r])
  have t: "rroot t \<in> set (rfoot t)" using rroot_in [OF r] by simp
  obtain a sa b n y n' m1 idx where f: "art_fork_cow ub c (rroot t) l m = Some (a, c\<lparr>cx_key_ofs := ofs + l, cx_ch_idx := idx\<rparr>, m1)"
    "cells m1 = (cells m)(a \<mapsto> n, sa \<mapsto> y, b \<mapsto> n')" "mem_ok anode_blk j m1"
    "cells m a = None" "cells m sa = None" "cells m b = None" "a \<noteq> sa" "a \<noteq> b" "sa \<noteq> b" "a \<noteq> nullptr" "sa \<noteq> nullptr" "b \<noteq> nullptr"
    "\<exists>chs. y = art_mask_shift ub (Suc l) (x\<lparr>an_ver := cx_ver c, an_chs := chs\<rparr>) \<and> length chs = art_nchs (an_type x)"
    "art_leaf n' (Suc (ofs + l)) ?k ?v" "art_head n ofs ?q" "art_kids n (kv_upd ?pk1 b [(?pk0, sa)])" "arr_get (an_chs n) idx = Some sa"
    by (rule fork_cow_ok [OF x l m c(1)])
  from f(13) s [OF f(11)] obtain y' s' where y': "art_copych y x = Some y'" "rroot s' = sa" "rerase s' = S"
    "\<And>h. h sa = Some y' \<Longrightarrow> (\<forall>z \<in> set (rfoot t). h z = cells m z) \<Longrightarrow> rrepr h (Suc (ofs + l)) s'" by blast
  have ne: "a \<noteq> p" "sa \<noteq> p" "b \<noteq> p" using f(4-6,10-12) p(1) by auto
  have ql: "length ?q = l" using l(1) by simp
  show ?thesis
  proof (rule cow_goalI)
    show "do { (t, c, m) \<leftarrow> art_fork_cow ub c (rroot t) l m; Some (art_FORK, t, c, m) } = Some (art_FORK, a, c\<lparr>cx_key_ofs := ofs + l, cx_ch_idx := idx\<rparr>, m1)"
      by (simp add: f(1))
    show "cells m \<subseteq>\<^sub>m cells m1" using f(4-6) by (auto simp: f(2) map_le_def)
    fix m2 z assume m2: "\<And>x. x \<noteq> p \<Longrightarrow> cells m2 x = cells m1 x" "p = nullptr \<or> cells m2 p \<noteq> None" "mem_ok anode_blk j m2"
    have a2: "cells m2 a = Some n" "cells m2 sa = Some y" "cells m2 b = Some n'" using m2(1) ne f(7-9) by (simp_all add: f(2))
    have old: "cells m2 x = cells m x" if "x \<in> set (rfoot t)" for x
    proof -
      have "x \<noteq> p" "x \<noteq> a" "x \<noteq> sa" "x \<noteq> b" using that dom p(2) f(4-6) by auto
      then show ?thesis using m2(1) by (simp add: f(2))
    qed
    have x2: "cells m2 (rroot t) = Some x" using old [OF t] x(1) by simp
    obtain m3 where m3: "mem_upd m2 sa (\<lambda>_. Some y') = Some m3" "mem_set anode_blk j m2 sa y' m3"
      by (rule mem_upd_set [where f = "\<lambda>_. Some y'", OF a2(2) refl m2(3)])
    then have c3: "cells m3 = (cells m2)(sa \<mapsto> y')" "mem_ok anode_blk j m3" by (simp_all add: mem_set_def)
    let ?c = "c\<lparr>cx_key_ofs := ofs + l, cx_ch_idx := idx, cx_root := z, cx_t_cur := a, cx_op := art_FORK\<rparr>"
    have h: "art_handle_fork ?c m2 = Some (conctrl_DONE, ?c\<lparr>cx_t_cur := sa\<rparr>, m3)"
      using a2(1,2) x2 f(17) y'(1) m3(1) c(2) by (simp add: art_handle_fork_def mem_get_def Let_def)
    have run: "conctrl_run (art_handlers ub) (Suc (Suc f)) ?c m2 = Some (?c\<lparr>cx_t_cur := sa, cx_op := conctrl_DONE\<rparr>, m3)"
      unfolding run_FORK h by simp
    have sr: "rrepr (cells m3) (Suc (ofs + length ?q)) s'"
      unfolding ql by (rule y'(4)) (use old dom f(5) in \<open>auto simp: c3(1)\<close>)
    have br: "rrepr (cells m3) (Suc (ofs + length ?q)) (RLeaf b ?k ?v)" using f(9,12,14) a2(3) unfolding ql by (simp add: c3(1))
    have an: "cells m3 a = Some n" using f(7) a2(1) by (simp add: c3(1))
    have rest: "\<forall>x n. x = p \<or> cells m x \<noteq> None \<longrightarrow> cells m2 x = Some n \<longrightarrow> cells m3 x = Some n" using f(5) ne(2) by (auto simp: c3(1))
    note rep = fork_rtree_repr [OF sr br an f(10,15) f(16) [folded y'(2)]]
    show "\<exists>c3 m3 t'. conctrl_run (art_handlers ub) (Suc (Suc f)) ?c m2 = Some (c3, m3) \<and>
        cx_root c3 = z \<and> rroot t' = a \<and> rerase t' = tr_fork ofs l ?pk0 S ?k ?v \<and> rrepr (cells m3) ofs t' \<and>
        (\<forall>x n. x = p \<or> cells m x \<noteq> None \<longrightarrow> cells m2 x = Some n \<longrightarrow> cells m3 x = Some n) \<and> mem_ok anode_blk j m3"
      by (rule exI [of _ "?c\<lparr>cx_t_cur := sa, cx_op := conctrl_DONE\<rparr>"], rule exI [of _ m3],
          rule exI [of _ "RNode a ?q (kv_upd ?pk1 (RLeaf b ?k ?v) [(?pk0, s')])"], intro conjI,
          rule run, simp, simp, simp add: tr_fork_def map_kv_upd y'(3), rule rep, rule rest, rule c3(2))
  qed (use f in simp_all)
qed

lemma cow_leaf_ok:
  assumes r: "rrepr (cells m) ofs (RLeaf a k' v')" and m: "mem_ok anode_blk (3 + j) m"
    and c: "cx_key_ofs c = ofs" "cx_t_past c = a" and p: "p = nullptr \<or> cells m p \<noteq> None" "p \<noteq> a"
  shows "cow_goal ub j m p ofs (tr_ins (art_cut ub) ofs (cx_key c) (cx_val c) (TLeaf k' v')) (Suc (Suc f)) (art_update_cow ub c m)"
proof -
  let ?k = "cx_key c" and ?v = "cx_val c"
  obtain x where x: "a \<noteq> nullptr" "cells m a = Some x" "art_leaf x ofs k' v'" using r by auto
  let ?q = "drop ofs (key_bytes k')"
  let ?l = "lcp ?q (drop ofs (key_bytes ?k))"
  have xl: "an_len x = 8 - ofs" "an_type x = AT_LEAF" "an_pfx x = k'" "an_ofs x = ofs" "ofs \<le> 8" "anode_ok x"
    using x(3) by (simp_all add: art_leaf_def)
  have lm: "?l = min (8 - ofs) (art_prefix_match ub x ?k)" by (rule match_leaf [OF x(3)])
  show ?thesis
  proof (cases "art_prefix_match ub x ?k < 8 - ofs")
    case True
    then have l: "art_prefix_match ub x ?k = ?l" "?l < length ?q" "ofs + ?l < 8" using lm by simp_all
    have b: "?q ! ?l = key_byte k' (ofs + ?l)" using l(3) by simp
    have neq: "key_byte (an_pfx x) (ofs + ?l) \<noteq> key_byte ?k (ofs + ?l)"
      using lcp_neq [OF l(2)] l(3) xl(3) by simp
    have l8: "?l < 8 - ofs" using l(3) by linarith
    have step: "art_update_cow ub c m = do { (t, c, m) \<leftarrow> art_fork_cow ub c (rroot (RLeaf a k' v')) ?l m; Some (art_FORK, t, c, m) }"
      using True l(1,2) x(1,2) xl c by (simp add: art_update_cow_def mem_get_def Let_def)
    have T: "tr_ins (art_cut ub) ofs ?k ?v (TLeaf k' v') =
        tr_fork ofs ?l (key_byte (an_pfx x) (ofs + ?l)) (TLeaf (art_cut ub (Suc (ofs + ?l)) k') v') ?k ?v"
      using l(2) b xl(3) by (simp add: Let_def)
    show ?thesis
      unfolding step T
    proof (rule cow_fork_ok [OF r _ xl(6,4) l(3) neq m c(1)])
      fix s :: addr and chs :: "addr list" assume s: "s \<noteq> nullptr" "length chs = art_nchs (an_type x)"
      let ?x = "x\<lparr>an_ver := cx_ver c, an_chs := chs\<rparr>"
      have "art_leaf ?x ofs k' v'" using x(3) s(2) by (simp add: art_leaf_def anode_ok_def)
      from mask_shift_leaf [OF this l8, of ub] s(1) xl(2)
      show "\<exists>y s'. art_copych (art_mask_shift ub (Suc ?l) ?x) x = Some y \<and> rroot s' = s \<and>
          rerase s' = TLeaf (art_cut ub (Suc (ofs + ?l)) k') v' \<and>
          (\<forall>h. h s = Some y \<longrightarrow> (\<forall>z \<in> set (rfoot (RLeaf a k' v')). h z = cells m z) \<longrightarrow> rrepr h (Suc (ofs + ?l)) s')"
        by (intro exI [of _ "art_mask_shift ub (Suc ?l) ?x"] exI [of _ "RLeaf s (art_cut ub (Suc (ofs + ?l)) k') v'"])
          (auto simp: art_copych_def art_mask_shift_def Let_def)
    qed (use x c p in auto)
  next
    case False
    then have e: "\<not> ?l < length ?q" using lm by simp
    have m1: "mem_ok anode_blk (Suc j) m" by (rule mem_ok_mono [OF m]) simp
    obtain b n m' where "art_leaf_update (cx_ver c) a ?v m = Some (b, m')" "mem_new anode_blk j m b n m'" "art_leaf n ofs k' ?v"
      by (rule leaf_update_ok [OF x(2,3) m1])
    then have "cow_goal ub j m p ofs (TLeaf k' ?v) (Suc (Suc f)) (art_update_cow ub c m)"
      using False x(1,2) xl c p(1)
      by (intro cow_done_ok [where a = b and n = n and c = c]) (simp_all add: art_update_cow_def mem_get_def Let_def)
    with e show ?thesis by (simp add: Let_def)
  qed
qed

text \<open>A new child: the node is copied or grows, with the byte; the children follow in the next stage.\<close>

lemma run_INSERT:
  "conctrl_run (art_handlers ub) (Suc f) (c\<lparr>cx_op := art_INSERT\<rparr>) m =
    do { (op', c, m) \<leftarrow> art_handle_insert ub (c\<lparr>cx_op := art_INSERT\<rparr>) m; conctrl_run (art_handlers ub) f (c\<lparr>cx_op := op'\<rparr>) m }"
  by (simp add: art_handlers_def art_ops)

lemma copy_shell_ok:
  assumes "art_shell x bs" "art_head x ofs q" "length chs = art_nchs (an_type x)"
  shows "art_shell (x\<lparr>an_ver := v, an_chs := chs\<rparr>) bs" "art_head (x\<lparr>an_ver := v, an_chs := chs\<rparr>) ofs q"
    "\<not> art_is_full x \<Longrightarrow> art_room x (x\<lparr>an_ver := v, an_chs := chs\<rparr>) bs"
proof -
  have "anode_ok x" using assms(1) by (simp add: art_shell_def)
  then show s: "art_shell (x\<lparr>an_ver := v, an_chs := chs\<rparr>) bs"
    by (intro art_shell_cong [OF assms(1)]) (simp_all add: assms(3) anode_ok_def)
  show "art_head (x\<lparr>an_ver := v, an_chs := chs\<rparr>) ofs q" using assms(2) by (simp add: art_head_def)
  show "art_room x (x\<lparr>an_ver := v, an_chs := chs\<rparr>) bs" if "\<not> art_is_full x" using s that by (simp add: art_room_def)
qed

lemma room_ok:
  assumes "cells m a = Some x" "art_shell x bs" "art_head x ofs q" "mem_ok anode_blk (Suc j) m"
  obtains t y m1 where "(if art_is_full x then art_node_extend ub a ver m else art_node_copy a ver m) = Some (t, m1)"
    "mem_new anode_blk j m t y m1" "art_room x y bs" "art_head y ofs q"
proof (cases "art_is_full x")
  case True
  then show thesis using node_extend_ok [OF assms(1,2) True assms(3,4), of ub ver] that by auto
next
  case False
  have "anode_ok x" using assms(2) by (simp add: art_shell_def)
  then obtain t chs m1 where "art_node_copy a ver m = Some (t, m1)" "mem_new anode_blk j m t (x\<lparr>an_ver := ver, an_chs := chs\<rparr>) m1"
    "length chs = art_nchs (an_type x)" by (rule node_copy_ok [OF assms(1) _ assms(4)])
  then show thesis using that False copy_shell_ok [OF assms(2,3), of chs ver] by simp
qed

lemma cow_insert_ok:
  assumes r: "rrepr (cells m) ofs (RNode a q cs)"
    and x: "cells m a = Some x" "art_head x ofs q" "art_kids x (map (apsnd rroot) cs)"
    and miss: "b \<notin> fst ` set cs" "an_type x \<noteq> AT_NODE256" and m: "mem_ok anode_blk (2 + j) m"
    and c: "cx_key_ofs c = Suc (ofs + length q)" "cx_t_past c = a"
    and p: "p = nullptr \<or> cells m p \<noteq> None" "p \<notin> set (rfoot (RNode a q cs))"
  shows "cow_goal ub j m p ofs (TNode q (kv_upd b (TLeaf (cx_key c) (cx_val c)) (map (\<lambda>(b, c). (b, rerase c)) cs))) (Suc (Suc f))
    (do { (t, m) \<leftarrow> (if art_is_full x then art_node_extend ub a (cx_ver c) m else art_node_copy a (cx_ver c) m);
          x \<leftarrow> mem_get m t;
          (x, i) \<leftarrow> art_append x b;
          m \<leftarrow> mem_upd m t (\<lambda>_. Some x);
          Some (art_INSERT, t, c\<lparr>cx_ch_idx := i\<rparr>, m) })" (is "cow_goal ub j m p ofs ?T _ ?R")
proof -
  let ?k = "cx_key c" and ?v = "cx_val c"
  have bs: "map fst (map (apsnd rroot) cs) = map fst cs" by simp
  have sh: "art_shell x (map fst cs)" using x(3) by (simp add: art_kids_def comp_def)
  have miss': "b \<notin> fst ` set (map (apsnd rroot) cs)" using miss(1) by (simp add: image_image)
  have m2: "mem_ok anode_blk (Suc (Suc j)) m" using m by simp
  obtain t y m1 where m1: "(if art_is_full x then art_node_extend ub a (cx_ver c) m else art_node_copy a (cx_ver c) m) = Some (t, m1)"
    "mem_new anode_blk (Suc j) m t y m1" "art_room x y (map fst cs)" "art_head y ofs q" by (rule room_ok [OF x(1) sh x(2) m2])
  then have c1: "t \<noteq> nullptr" "cells m t = None" "cells m1 = (cells m)(t \<mapsto> y)" "mem_ok anode_blk (Suc j) m1" by (simp_all add: mem_new_def)
  obtain y' i z jj where g: "art_append y b = Some (y', i)" "art_same_head y y'" "anode_ok y'"
    "\<And>y2. art_copych_at y' x i = Some y2 \<longleftrightarrow> y2 = z" "art_same_head y z" "art_getch z i = Some jj" "jj < length (an_chs z)"
    "\<And>a. a \<noteq> nullptr \<Longrightarrow> art_kids (z\<lparr>an_chs := (an_chs z)[jj := a]\<rparr>) (kv_upd b a (map (apsnd rroot) cs))"
    using grow_ok [OF x(3) miss' miss(2)] m1(3) unfolding bs by blast
  have y1: "cells m1 t = Some y" by (simp add: c1(3))
  obtain m2 where m2: "mem_upd m1 t (\<lambda>_. Some y') = Some m2" "mem_set anode_blk (Suc j) m1 t y' m2"
    by (rule mem_upd_set [where f = "\<lambda>_. Some y'", OF y1 refl c1(4)])
  then have c2: "cells m2 = (cells m)(t \<mapsto> y')" "mem_ok anode_blk (Suc j) m2" using c1(3) by (simp_all add: mem_set_def)
  have tp: "t \<noteq> p" "t \<noteq> a" using c1(1,2) p(1) x(1) by auto
  have o8: "Suc (ofs + length q) \<le> 8" using x(2) by (simp add: art_head_def)
  have o: "ordered cs" using art_kids_ordered [OF x(3)] by (simp add: comp_def)
  show ?thesis
  proof (rule cow_goalI)
    show "?R = Some (art_INSERT, t, c\<lparr>cx_ch_idx := i\<rparr>, m2)" using m1(1) y1 g(1) m2(1) by (simp add: mem_get_def)
    show "cells m \<subseteq>\<^sub>m cells m2" using c1(2) by (auto simp: c2(1) map_le_def)
    show "t \<noteq> nullptr" "cells m t = None" "mem_ok anode_blk (Suc j) m2" by (fact c1(1) c1(2) c2(2))+
    fix m3 zr assume m3: "\<And>x. x \<noteq> p \<Longrightarrow> cells m3 x = cells m2 x" "p = nullptr \<or> cells m3 p \<noteq> None" "mem_ok anode_blk (Suc j) m3"
    let ?c = "c\<lparr>cx_ch_idx := i, cx_root := zr, cx_t_cur := t, cx_op := art_INSERT\<rparr>"
    have t3: "cells m3 t = Some y'" using m3(1) [OF tp(1)] by (simp add: c2(1))
    have ap: "a \<noteq> p" using p(2) by auto
    have a3: "cells m3 a = Some x" using m3(1) [OF ap] tp(2) x(1) by (simp add: c2(1))
    obtain m4 where m4: "mem_upd m3 t (\<lambda>_. Some z) = Some m4" "mem_set anode_blk (Suc j) m3 t z m4"
      by (rule mem_upd_set [where f = "\<lambda>_. Some z", OF t3 refl m3(3)])
    then have c4: "cells m4 = (cells m3)(t \<mapsto> z)" "mem_ok anode_blk (Suc j) m4" by (simp_all add: mem_set_def)
    obtain b' n m5 where m5: "art_new_leaf ub (cx_ver c) (Suc (ofs + length q)) ?k ?v m4 = Some (b', m5)" "mem_new anode_blk j m4 b' n m5"
      "art_leaf n (Suc (ofs + length q)) ?k ?v" by (rule art_new_leaf_ok [OF c4(2) o8])
    then have c5: "b' \<noteq> nullptr" "cells m4 b' = None" "cells m5 = (cells m4)(b' \<mapsto> n)" "mem_ok anode_blk j m5" by (simp_all add: mem_new_def)
    have ne: "b' \<noteq> t" using c5(2) c4(1) by (auto split: if_splits)
    have b3: "cells m3 b' = None" using c5(2) ne by (simp add: c4(1))
    have z5: "cells m5 t = Some z" using ne by (simp add: c5(3) c4(1))
    obtain m6 where m6: "art_set_slot t jj b' m5 = Some m6" "cells m6 = (cells m5)(t \<mapsto> z\<lparr>an_chs := (an_chs z)[jj := b']\<rparr>)" "mem_ok anode_blk j m6"
      by (rule set_slot_ok [OF z5 g(7) c5(4)])
    let ?z = "z\<lparr>an_chs := (an_chs z)[jj := b']\<rparr>"
    have c6: "cells m6 = (cells m3)(t \<mapsto> ?z, b' \<mapsto> n)" using ne by (auto simp: m6(2) c5(3) c4(1) fun_upd_twist)
    have h: "art_handle_insert ub ?c m3 = Some (conctrl_DONE, ?c, m6)"
      using t3 a3 g(4) [of z] m4(1) g(6) m5(1) m6(1) c by (simp add: art_handle_insert_def mem_get_def)
    have run: "conctrl_run (art_handlers ub) (Suc (Suc f)) ?c m3 = Some (?c\<lparr>cx_op := conctrl_DONE\<rparr>, m6)"
      unfolding run_INSERT h by simp
    have kids: "art_kids ?z (map (apsnd rroot) (kv_upd b (RLeaf b' ?k ?v) cs))" using g(8) [OF c5(1)] by (simp add: map_apsnd_upd)
    have old: "rrepr (cells m6) (Suc (ofs + length q)) d" if d: "(e, d) \<in> set cs" for e d
    proof (rule rrepr_frame)
      show rd: "rrepr (cells m) (Suc (ofs + length q)) d" using r d by auto
      fix u assume u: "u \<in> set (rfoot d)"
      then have dom: "cells m u \<noteq> None" using rrepr_dom [OF rd] by blast
      have up: "u \<noteq> p" "u \<noteq> t" using u d p(2) dom c1(2) by auto
      then have "cells m3 u = cells m u" using m3(1) by (simp add: c2(1))
      moreover from this have "u \<noteq> b'" using dom b3 by auto
      ultimately show "cells m6 u = cells m u" using up by (simp add: c6)
    qed
    have hd: "art_head ?z ofs q" using head_same [OF m1(4) g(5)] by (simp add: art_head_def)
    have "rrepr (cells m6) (Suc (ofs + length q)) (RLeaf b' ?k ?v)" using c5(1) m5(3) by (simp add: c6)
    with old have "\<forall>(e, d) \<in> set (kv_upd b (RLeaf b' ?k ?v) cs). rrepr (cells m6) (Suc (ofs + length q)) d"
      unfolding set_kv_upd [OF o] by auto
    then have rep: "rrepr (cells m6) ofs (RNode t q (kv_upd b (RLeaf b' ?k ?v) cs))"
      unfolding rrepr.simps using c1(1) hd kids ne by (auto simp: c6)
    have rest: "\<forall>u n. u = p \<or> cells m u \<noteq> None \<longrightarrow> cells m3 u = Some n \<longrightarrow> cells m6 u = Some n"
      using tp(1) c1(2) b3 by (auto simp: c6)
    show "\<exists>c3 m4 t'. conctrl_run (art_handlers ub) (Suc (Suc f)) ?c m3 = Some (c3, m4) \<and>
        cx_root c3 = zr \<and> rroot t' = t \<and> rerase t' = ?T \<and> rrepr (cells m4) ofs t' \<and>
        (\<forall>x n. x = p \<or> cells m x \<noteq> None \<longrightarrow> cells m3 x = Some n \<longrightarrow> cells m4 x = Some n) \<and> mem_ok anode_blk j m4"
      by (rule exI [of _ "?c\<lparr>cx_op := conctrl_DONE\<rparr>"], rule exI [of _ m6],
          rule exI [of _ "RNode t q (kv_upd b (RLeaf b' ?k ?v) cs)"], intro conjI,
          rule run, simp, simp, simp add: map_kv_upd, rule rep, rule rest, rule m6(3))
  qed
qed

text \<open>
  The search goes on below a byte. The node was copied; the next stage copies the children, makes
  the replacement of the child (or a leaf where a \<^verbatim>\<open>node256\<close> has none) and stores it.
\<close>

lemma run_SEARCH:
  "conctrl_run (art_handlers ub) (Suc f) (c\<lparr>cx_op := art_SEARCH\<rparr>) m =
    do { (op', c, m) \<leftarrow> art_handle_search ub (c\<lparr>cx_op := art_SEARCH\<rparr>) m; conctrl_run (art_handlers ub) f (c\<lparr>cx_op := op'\<rparr>) m }"
  by (simp add: art_handlers_def art_ops)

lemma fork_cow_root: "art_fork_cow ub c t l m = Some (a, c', m') \<Longrightarrow> cx_root c' = cx_root c"
  by (auto simp: art_fork_cow_def Let_def Option.bind_eq_Some_conv)

lemma update_cow_root: "art_update_cow ub c m = Some (op', t, c', m') \<Longrightarrow> cx_root c' = cx_root c"
  by (auto simp: art_update_cow_def Let_def Option.bind_eq_Some_conv split: if_splits option.splits dest: fork_cow_root)

lemma cow_search_ok:
  assumes r: "rrepr (cells m) ofs (RNode a q cs)"
    and x: "cells m a = Some x" "art_head x ofs q" "art_kids x (map (apsnd rroot) cs)"
    and hit: "b \<in> fst ` set cs \<or> an_type x = AT_NODE256"
    and m: "mem_ok anode_blk (Suc i) m" and c: "cx_t_past c = a"
    and p: "p = nullptr \<or> cells m p \<noteq> None" "p \<notin> set (rfoot (RNode a q cs))"
    and sub: "\<And>idx m' c' p'. (\<forall>d. map_of cs b = Some d \<longrightarrow> rrepr (cells m') (Suc (ofs + length q)) d \<and> p' \<notin> set (rfoot d)) \<Longrightarrow>
      mem_ok anode_blk i m' \<Longrightarrow> cells m' p' \<noteq> None \<Longrightarrow>
      cx_t_past c' = (case map_of cs b of None \<Rightarrow> nullptr | Some d \<Rightarrow> rroot d) \<Longrightarrow> cx_key_ofs c' = cx_key_ofs c \<Longrightarrow>
      cx_key c' = cx_key c \<Longrightarrow> cx_val c' = cx_val c \<Longrightarrow>
      cow_goal ub j m' p' (Suc (ofs + length q)) Tc f (art_update_cow ub c' m')"
  shows "cow_goal ub j m p ofs (TNode q (kv_upd b Tc (map (\<lambda>(b, c). (b, rerase c)) cs))) (Suc f)
    (do { idx \<leftarrow> art_find_idx x b; case idx of Some idx \<Rightarrow> do {
       (t, m) \<leftarrow> art_node_copy a (cx_ver c) m; Some (art_SEARCH, t, c\<lparr>cx_ch_idx := idx\<rparr>, m) } | None \<Rightarrow> E })"
    (is "cow_goal ub j m p ofs ?T _ ?R")
proof -
  have bs: "map fst (map (apsnd rroot) cs) = map fst cs" by simp
  let ?bs = "map fst cs" and ?child = "case map_of cs b of None \<Rightarrow> nullptr | Some d \<Rightarrow> rroot d"
  have sh: "art_shell x ?bs" using x(3) by (simp add: art_kids_def comp_def)
  have xok: "anode_ok x" using sh by (simp add: art_shell_def)
  have hit': "b \<in> set ?bs \<or> an_type x = AT_NODE256" using hit by simp
  obtain idx where idx: "art_find_idx x b = Some (Some idx)" "art_getch x idx = Some (art_pos x ?bs b)"
    by (rule find_idx_hit [OF sh hit'])
  let ?pos = "art_pos x ?bs b"
  have pos: "?pos < length (an_chs x)" by (rule art_pos_less [OF sh hit'])
  have ch: "arr_get (an_chs x) ?pos = Some ?child" using art_child_at [OF x(3) hit] pos by (simp add: arr_get_def)
  obtain t chs m1 where m1: "art_node_copy a (cx_ver c) m = Some (t, m1)" "mem_new anode_blk i m t (x\<lparr>an_ver := cx_ver c, an_chs := chs\<rparr>) m1"
    "length chs = art_nchs (an_type x)" by (rule node_copy_ok [OF x(1) xok m])
  let ?y = "x\<lparr>an_ver := cx_ver c, an_chs := chs\<rparr>"
  have c1: "t \<noteq> nullptr" "cells m t = None" "cells m1 = (cells m)(t \<mapsto> ?y)" "mem_ok anode_blk i m1" using m1(2) by (simp_all add: mem_new_def)
  have tp: "t \<noteq> p" "t \<noteq> a" using c1(1,2) p(1) x(1) by auto
  have ap: "a \<noteq> p" using p(2) by auto
  have o: "ordered cs" using art_kids_ordered [OF x(3)] by (simp add: comp_def)
  have "art_shell ?y (map fst (map (apsnd rroot) cs))" using copy_shell_ok(1) [OF sh x(2) m1(3), of "cx_ver c"] by (simp add: comp_def)
  then obtain chs' where cp: "art_copych ?y x = Some (?y\<lparr>an_chs := chs'\<rparr>)" "art_kids (?y\<lparr>an_chs := chs'\<rparr>) (map (apsnd rroot) cs)"
    by (rule art_copych_ok [OF x(3)]) simp_all
  let ?z = "?y\<lparr>an_chs := chs'\<rparr>"
  have zpos: "art_pos ?z ?bs b = ?pos" using art_pos_cong [of ?z x] by simp
  have zsh: "art_shell ?z ?bs" using cp(2) by (simp add: art_kids_def comp_def)
  have zlen: "?pos < length chs'" using art_pos_less [OF zsh, of b] hit' unfolding zpos by simp
  have zget: "art_getch ?z idx = Some ?pos" using idx(2) by (simp add: art_getch_def node4_getch_def node16_getch_def node48_getch_def node256_getch_def split: art_type.splits)
  show ?thesis
  proof (rule cow_goalI)
    show "?R = Some (art_SEARCH, t, c\<lparr>cx_ch_idx := idx\<rparr>, m1)" using idx(1) m1(1) by simp
    show "cells m \<subseteq>\<^sub>m cells m1" using c1(2) by (auto simp: c1(3) map_le_def)
    show "t \<noteq> nullptr" "cells m t = None" "mem_ok anode_blk i m1" by (fact c1)+
    fix m2 zr assume m2: "\<And>x. x \<noteq> p \<Longrightarrow> cells m2 x = cells m1 x" "p = nullptr \<or> cells m2 p \<noteq> None" "mem_ok anode_blk i m2"
    let ?c = "c\<lparr>cx_ch_idx := idx, cx_root := zr, cx_t_cur := t, cx_op := art_SEARCH\<rparr>"
    have t2: "cells m2 t = Some ?y" using m2(1) [OF tp(1)] by (simp add: c1(3))
    have a2: "cells m2 a = Some x" using m2(1) [OF ap] tp(2) x(1) by (simp add: c1(3))
    obtain m3 where m3: "mem_upd m2 t (\<lambda>_. Some ?z) = Some m3" "mem_set anode_blk i m2 t ?z m3"
      by (rule mem_upd_set [where f = "\<lambda>_. Some ?z", OF t2 refl m2(3)])
    then have c3: "cells m3 = (cells m2)(t \<mapsto> ?z)" "mem_ok anode_blk i m3" by (simp_all add: mem_set_def)
    have same: "cells m3 u = cells m u" if "cells m u \<noteq> None" "u \<noteq> p" for u
      using that m2(1) [OF that(2)] c1(2) by (auto simp: c3(1) c1(3))
    have old: "rrepr (cells m) (Suc (ofs + length q)) d \<and> p \<notin> set (rfoot d) \<and> t \<notin> set (rfoot d)" if d: "(e, d) \<in> set cs" for e d
    proof -
      have rd: "rrepr (cells m) (Suc (ofs + length q)) d" using r d by auto
      with rrepr_dom [OF rd] c1(2) p(2) d show ?thesis by auto
    qed
    have old3: "rrepr (cells m3) (Suc (ofs + length q)) d" if d: "(e, d) \<in> set cs" for e d
      by (rule rrepr_frame [OF conjunct1 [OF old [OF d]]], rule same)
        (use old [OF d] rrepr_dom in blast, use old [OF d] in auto)
    let ?c' = "?c\<lparr>cx_t_past := ?child\<rparr>"
    have "cow_goal ub j m3 t (Suc (ofs + length q)) Tc f (art_update_cow ub ?c' m3)"
    proof (rule sub)
      show "\<forall>d. map_of cs b = Some d \<longrightarrow> rrepr (cells m3) (Suc (ofs + length q)) d \<and> t \<notin> set (rfoot d)"
        using old3 old map_of_SomeD [of cs b] by fast
    qed (simp_all add: c3)
    then obtain op' tc c4 m4 J where g: "art_update_cow ub ?c' m3 = Some (op', tc, c4, m4)" "tc \<noteq> nullptr" "cells m3 tc = None"
      "cells m3 \<subseteq>\<^sub>m cells m4" "mem_ok anode_blk J m4" "cow_cont ub j m3 t (Suc (ofs + length q)) Tc f op' tc c4 m4 J"
      unfolding cow_goal_def by blast
    have t3: "cells m3 t = Some ?z" by (simp add: c3(1))
    have t4: "cells m4 t = Some ?z" using map_le_Some [OF g(4) t3] .
    have zl: "?pos < length (an_chs ?z)" using zlen by simp
    obtain m5 where m5: "art_set_slot t ?pos tc m4 = Some m5" "cells m5 = (cells m4)(t \<mapsto> ?z\<lparr>an_chs := (an_chs ?z)[?pos := tc]\<rparr>)" "mem_ok anode_blk J m5"
      by (rule set_slot_ok [OF t4 zl g(5)])
    let ?w = "?z\<lparr>an_chs := (an_chs ?z)[?pos := tc]\<rparr>"
    have rt: "cx_root c4 = zr" using update_cow_root [OF g(1)] by simp
    have a5: "\<forall>x. x \<noteq> t \<longrightarrow> cells m5 x = cells m4 x" "t = nullptr \<or> cells m5 t \<noteq> None" by (simp_all add: m5(2))
    obtain c6 m6 t' where
      g6: "conctrl_run (art_handlers ub) f (c4\<lparr>cx_root := zr, cx_t_cur := tc, cx_op := op'\<rparr>) m5 = Some (c6, m6)"
      "cx_root c6 = zr" "rroot t' = tc" "rerase t' = Tc" "rrepr (cells m6) (Suc (ofs + length q)) t'"
      "\<forall>x n. x = t \<or> cells m3 x \<noteq> None \<longrightarrow> cells m5 x = Some n \<longrightarrow> cells m6 x = Some n" "mem_ok anode_blk j m6"
      by (rule cow_contD [OF g(6) a5 m5(3)])
    have h: "art_handle_search ub ?c m2 = Some (op', c4\<lparr>cx_t_cur := tc\<rparr>, m5)"
      using t2 a2 cp(1) m3(1) idx(2) ch zget g(1) m5(1) c by (simp add: art_handle_search_def mem_get_def)
    have "c4\<lparr>cx_t_cur := tc, cx_op := op'\<rparr> = c4\<lparr>cx_root := zr, cx_t_cur := tc, cx_op := op'\<rparr>" using rt by simp
    then have run: "conctrl_run (art_handlers ub) (Suc f) ?c m2 = Some (c6, m6)"
      unfolding run_SEARCH h using g6(1) by (simp del: conctrl_run.simps)
    have keep: "cells m6 u = Some n" if "u \<noteq> t" "cells m3 u = Some n" for u n
      using g6(6) map_le_Some [OF g(4) that(2)] that by (simp add: m5(2))
    have "art_kids (?z\<lparr>an_chs := (an_chs ?z)[art_pos ?z (map fst (map (apsnd rroot) cs)) b := tc]\<rparr>) (kv_upd b tc (map (apsnd rroot) cs))"
      by (rule art_kids_set [OF cp(2) _ g(2)]) (use hit in \<open>auto simp: image_image\<close>)
    then have kids: "art_kids ?w (map (apsnd rroot) (kv_upd b t' cs))" unfolding bs zpos map_apsnd_upd g6(3) .
    have hd: "art_head ?w ofs q" using x(2) by (simp add: art_head_def)
    have t6: "cells m6 t = Some ?w" using g6(6) by (simp add: m5(2))
    have old6: "rrepr (cells m6) (Suc (ofs + length q)) d" if d: "(e, d) \<in> set cs" for e d
    proof (rule rrepr_frame [OF old3 [OF d]])
      fix u assume u: "u \<in> set (rfoot d)"
      with rrepr_dom [OF old3 [OF d]] obtain n where n: "cells m3 u = Some n" by blast
      from u old [OF d] have "u \<noteq> t" by blast
      with n show "cells m6 u = cells m3 u" using keep by simp
    qed
    have "\<forall>(e, d) \<in> set (kv_upd b t' cs). rrepr (cells m6) (Suc (ofs + length q)) d"
      unfolding set_kv_upd [OF o] using g6(5) old6 by auto
    then have rep: "rrepr (cells m6) ofs (RNode t q (kv_upd b t' cs))"
      unfolding rrepr.simps using c1(1) t6 hd kids by blast
    have rest: "\<forall>u n. u = p \<or> cells m u \<noteq> None \<longrightarrow> cells m2 u = Some n \<longrightarrow> cells m6 u = Some n"
    proof (intro allI impI)
      fix u n assume u: "u = p \<or> cells m u \<noteq> None" "cells m2 u = Some n"
      then have "u \<noteq> t" using tp(1) c1(2) by auto
      with u(2) show "cells m6 u = Some n" using keep by (simp add: c3(1))
    qed
    show "\<exists>c3 m3 t'. conctrl_run (art_handlers ub) (Suc f) ?c m2 = Some (c3, m3) \<and>
        cx_root c3 = zr \<and> rroot t' = t \<and> rerase t' = ?T \<and> rrepr (cells m3) ofs t' \<and>
        (\<forall>x n. x = p \<or> cells m x \<noteq> None \<longrightarrow> cells m2 x = Some n \<longrightarrow> cells m3 x = Some n) \<and> mem_ok anode_blk j m3"
      by (rule exI [of _ c6], rule exI [of _ m6], rule exI [of _ "RNode t q (kv_upd b t' cs)"], intro conjI,
          rule run, rule g6(2), simp, simp add: map_kv_upd g6(4), rule rep, rule rest, rule g6(7))
  qed
qed

section \<open>The whole update\<close>

lemma cow_ok:
  "rrepr (cells m) ofs t \<Longrightarrow> tr_height (rerase t) + 2 \<le> fuel \<Longrightarrow> mem_ok anode_blk (tr_height (rerase t) + 3 + j) m \<Longrightarrow>
   cx_key_ofs c = ofs \<Longrightarrow> cx_t_past c = rroot t \<Longrightarrow> p = nullptr \<or> cells m p \<noteq> None \<Longrightarrow> p \<notin> set (rfoot t) \<Longrightarrow>
   cow_goal ub j m p ofs (tr_ins (art_cut ub) ofs (cx_key c) (cx_val c) (rerase t)) fuel (art_update_cow ub c m)"
proof (induction t arbitrary: ofs fuel m c p)
  case (RLeaf a k' v')
  obtain f where "fuel = Suc (Suc f)" using RLeaf.prems(2) by (auto simp: le_iff_add)
  with cow_leaf_ok [OF RLeaf.prems(1), of j c p ub f] RLeaf.prems(3-7) show ?case by (simp del: tr_ins.simps)
next
  case (RNode a q cs)
  note r = RNode.prems(1)
  let ?k = "cx_key c" and ?v = "cx_val c"
  obtain x where x: "a \<noteq> nullptr" "cells m a = Some x" "art_head x ofs q" "art_kids x (map (apsnd rroot) cs)" using r by auto
  obtain f where f: "fuel = Suc (Suc f)" using RNode.prems(2) by (auto simp: le_iff_add)
  have xok: "anode_ok x" using x(4) by (simp add: art_kids_def art_shell_def)
  have h: "an_len x = length q" "an_type x \<noteq> AT_LEAF" "an_ofs x = ofs" "ofs + length q < 8" "pfx_bytes (an_pfx x) ofs (length q) = q"
    using x(3) by (simp_all add: art_head_def)
  have cp: "cx_t_past c = a" using RNode.prems(5) by simp
  let ?l = "lcp q (drop ofs (key_bytes ?k))" and ?kids = "map (\<lambda>(b, c). (b, rerase c)) cs"
  have lm: "?l = min (length q) (art_prefix_match ub x ?k)" by (rule match_head [OF x(3)])
  show ?case
  proof (cases "art_prefix_match ub x ?k < length q")
    case True
    then have l: "art_prefix_match ub x ?k = ?l" "?l < length q" "ofs + ?l < 8" using lm h(4) by simp_all
    have b: "key_byte (an_pfx x) (ofs + ?l) = q ! ?l"
      using pfx_bytes_nth [of ofs "length q" ?l "an_pfx x"] l(2) h(4,5) by simp
    have neq: "key_byte (an_pfx x) (ofs + ?l) \<noteq> key_byte ?k (ofs + ?l)" using lcp_neq [OF l(2)] l(3) b by simp
    have step: "art_update_cow ub c m = do { (t, c, m) \<leftarrow> art_fork_cow ub c (rroot (RNode a q cs)) ?l m; Some (art_FORK, t, c, m) }"
      using True l(1,2) x(1,2) h(1) cp by (simp add: art_update_cow_def mem_get_def Let_def)
    have T: "tr_ins (art_cut ub) ofs ?k ?v (rerase (RNode a q cs)) =
        tr_fork ofs ?l (key_byte (an_pfx x) (ofs + ?l)) (TNode (drop (Suc ?l) q) ?kids) ?k ?v"
      using l(2) b by (simp add: Let_def)
    have m3: "mem_ok anode_blk (3 + j) m" by (rule mem_ok_mono [OF RNode.prems(3)]) simp
    show ?thesis
      unfolding step T f
    proof (rule cow_fork_ok [OF r _ xok h(3) l(3) neq m3 RNode.prems(4)])
      fix s :: addr and chs :: "addr list" assume s: "s \<noteq> nullptr" "length chs = art_nchs (an_type x)"
      let ?x = "x\<lparr>an_ver := cx_ver c, an_chs := chs\<rparr>"
      have sh: "art_shell x (map fst (map (apsnd rroot) cs))" using x(4) by (simp add: art_kids_def)
      note cs = copy_shell_ok [OF sh x(3) s(2), of "cx_ver c"]
      have hd: "art_head (art_shift ub (Suc ?l) ?x) (Suc (ofs + ?l)) (drop (Suc ?l) q)" by (rule shift_head [OF cs(2) l(2)])
      have "art_shell (art_shift ub (Suc ?l) ?x) (map fst (map (apsnd rroot) cs))"
        by (rule art_shell_cong [OF cs(1)]) (simp_all add: art_shift_def Let_def)
      then obtain chs' where cp: "art_copych (art_shift ub (Suc ?l) ?x) x = Some (art_shift ub (Suc ?l) ?x\<lparr>an_chs := chs'\<rparr>)"
        "art_kids (art_shift ub (Suc ?l) ?x\<lparr>an_chs := chs'\<rparr>) (map (apsnd rroot) cs)"
        by (rule art_copych_ok [OF x(4)]) (simp_all add: art_shift_def Let_def)
      let ?y = "art_shift ub (Suc ?l) ?x\<lparr>an_chs := chs'\<rparr>"
      have e: "Suc (Suc (ofs + ?l) + length (drop (Suc ?l) q)) = Suc (ofs + length q)" using l(2) by simp
      have "rrepr H (Suc (ofs + ?l)) (RNode s (drop (Suc ?l) q) cs)"
        if H: "H s = Some ?y" "\<forall>z \<in> set (rfoot (RNode a q cs)). H z = cells m z" for H
      proof -
        have "rrepr H (Suc (ofs + length q)) d" if d: "(e, d) \<in> set cs" for e d
        proof (rule rrepr_frame)
          show "rrepr (cells m) (Suc (ofs + length q)) d" using r d by auto
          show "H y = cells m y" if "y \<in> set (rfoot d)" for y using H(2) d that by fastforce
        qed
        moreover have "art_head ?y (Suc (ofs + ?l)) (drop (Suc ?l) q)" using hd by (simp add: art_head_def)
        ultimately show ?thesis unfolding rrepr.simps e using H(1) s(1) cp(2) by auto
      qed
      then show "\<exists>y s'. art_copych (art_mask_shift ub (Suc ?l) ?x) x = Some y \<and> rroot s' = s \<and>
          rerase s' = TNode (drop (Suc ?l) q) ?kids \<and>
          (\<forall>h. h s = Some y \<longrightarrow> (\<forall>z \<in> set (rfoot (RNode a q cs)). h z = cells m z) \<longrightarrow> rrepr h (Suc (ofs + ?l)) s')"
        using cp(1) h(2) by (intro exI [of _ ?y] exI [of _ "RNode s (drop (Suc ?l) q) cs"]) (simp add: mask_shift_inner del: rrepr.simps rfoot.simps)
    qed (use x RNode.prems in simp_all)
  next
    case False
    then have nl: "\<not> ?l < length q" using lm by simp
    let ?b = "key_byte ?k (ofs + length q)"
    let ?c = "c\<lparr>cx_key_ofs := Suc (ofs + length q)\<rparr>"
    have pk: "art_partial_key ub ?k (ofs + length q) = ?b" using h(4) by (simp add: partial_key_byte)
    have T: "tr_ins (art_cut ub) ofs ?k ?v (rerase (RNode a q cs)) = TNode q (kv_upd ?b
        (case map_of cs ?b of None \<Rightarrow> TLeaf ?k ?v | Some c \<Rightarrow> tr_ins (art_cut ub) (Suc (ofs + length q)) ?k ?v (rerase c)) ?kids)"
      using nl by (simp add: Let_def map_of_rkids split: option.split)
    have step: "art_update_cow ub c m = do { idx \<leftarrow> art_find_idx x ?b;
        case idx of
          Some idx \<Rightarrow> do { (t, m) \<leftarrow> art_node_copy a (cx_ver ?c) m; Some (art_SEARCH, t, ?c\<lparr>cx_ch_idx := idx\<rparr>, m) }
        | None \<Rightarrow> do {
            (t, m) \<leftarrow> (if art_is_full x then art_node_extend ub a (cx_ver ?c) m else art_node_copy a (cx_ver ?c) m);
            x \<leftarrow> mem_get m t;
            (x, i) \<leftarrow> art_append x ?b;
            m \<leftarrow> mem_upd m t (\<lambda>_. Some x);
            Some (art_INSERT, t, ?c\<lparr>cx_ch_idx := i\<rparr>, m) } }"
      using False x(1,2) h(1,2) pk cp RNode.prems(4) by (simp add: art_update_cow_def mem_get_def Let_def cong: option.case_cong)
    show ?thesis
    proof (cases "?b \<in> fst ` set cs \<or> an_type x = AT_NODE256")
      case hit: True
      let ?i = "tr_height (rerase (RNode a q cs)) - 1 + 3 + j"
      have hpos: "0 < tr_height (rerase (RNode a q cs))" by simp
      then have "Suc ?i = tr_height (rerase (RNode a q cs)) + 3 + j" by linarith
      with RNode.prems(3) have m1: "mem_ok anode_blk (Suc ?i) m" by (simp only:)
      show ?thesis
        unfolding step T f
      proof (rule cow_search_ok [OF r x(2-4) hit m1, where c = ?c and f = "Suc f", simplified art_ctx.simps])
        fix m' :: amem and c' :: art_ctx and p'
        assume d: "\<forall>d. map_of cs ?b = Some d \<longrightarrow> rrepr (cells m') (Suc (ofs + length q)) d \<and> p' \<notin> set (rfoot d)"
          and m': "mem_ok anode_blk ?i m'" "cells m' p' \<noteq> None"
          and c': "cx_t_past c' = (case map_of cs ?b of None \<Rightarrow> nullptr | Some d \<Rightarrow> rroot d)" "cx_key_ofs c' = cx_key_ofs ?c"
            "cx_key c' = cx_key ?c" "cx_val c' = cx_val ?c"
        show "cow_goal ub j m' p' (Suc (ofs + length q))
          (case map_of cs ?b of None \<Rightarrow> TLeaf ?k ?v | Some c \<Rightarrow> tr_ins (art_cut ub) (Suc (ofs + length q)) ?k ?v (rerase c))
          (Suc f) (art_update_cow ub c' m')"
        proof (cases "map_of cs ?b")
          case None
          have "mem_ok anode_blk (Suc j) m'" by (rule mem_ok_mono [OF m'(1)]) simp
          from cow_null_ok [OF this, of c' "Suc (ofs + length q)" p' ub f] None c' m'(2) h(4) show ?thesis by simp
        next
          case (Some e)
          have he: "tr_height (rerase e) < tr_height (rerase (RNode a q cs))" by (rule kid_height [OF Some])
          have "mem_ok anode_blk (tr_height (rerase e) + 3 + j) m'" by (rule mem_ok_mono [OF m'(1)]) (use he in linarith)
          with RNode.IH [OF map_of_SomeD [OF Some], of e m' "Suc (ofs + length q)" "Suc f" c' p'] Some d c' m'(2) he RNode.prems(2)
          show ?thesis by (simp add: f del: tr_height.simps rerase.simps)
        qed
      qed (use cp RNode.prems in simp_all)
    next
      case miss: False
      have none: "map_of cs ?b = None" using miss by (simp add: map_of_eq_None_iff)
      have "art_shell x (map fst cs)" using x(4) by (simp add: art_kids_def comp_def)
      with miss have nf: "art_find_idx x ?b = Some None" by (intro find_idx_miss) auto
      from miss have mb: "?b \<notin> fst ` set cs" "an_type x \<noteq> AT_NODE256" by auto
      have m2: "mem_ok anode_blk (2 + j) m" by (rule mem_ok_mono [OF RNode.prems(3)]) simp
      from cow_insert_ok [OF r x(2-4) mb m2, of ?c p ub f] RNode.prems(4-7) cp
      show ?thesis unfolding step T f by (simp add: nf none)
    qed
  qed
qed

end
