(* ===== verification/Art_Cow_Correct.thy ===== *)
theory Art_Cow_Correct
  imports Art_Cow
begin

text \<open>
  The radix tree under copy on write: any number of versions in one memory, each an ordered map.
  The leaves of a version need not store whole keys, as forks cut them; lookup does not mind, a
  scan does.
\<close>

section \<open>Versions\<close>

definition art_version :: "amem \<Rightarrow> rtree option \<Rightarrow> bool" where
  "art_version m t \<longleftrightarrow> (case t of None \<Rightarrow> True | Some t \<Rightarrow> rrepr (cells m) 0 t)"

lemma art_inv_version: "art_inv m t \<Longrightarrow> art_version m t"
  by (simp add: art_inv_def art_version_def split: option.splits)

lemma art_version_mono: "art_version m t \<Longrightarrow> cells m \<subseteq>\<^sub>m cells m' \<Longrightarrow> art_version m' t"
  by (auto simp: art_version_def intro: rrepr_mono split: option.splits)

lemma art_inv_mono: "art_inv m t \<Longrightarrow> cells m \<subseteq>\<^sub>m cells m' \<Longrightarrow> art_inv m' t"
  by (auto simp: art_inv_def intro: rrepr_mono split: option.splits)

lemma art_version_ordered: "art_version m t \<Longrightarrow> ordered (art_map t)"
  using tr_map_ordered [OF rrepr_wf] by (cases t) (simp_all add: art_version_def art_map_def)

lemma art_version_find: "art_version m t \<Longrightarrow> art_find ub 9 (oroot t) k m = Some (map_of (art_map t) k)"
proof (cases t)
  case (Some s)
  moreover assume "art_version m t"
  ultimately have s: "rrepr (cells m) 0 s" by (simp add: art_version_def)
  from art_find_ok [OF s rrepr_height [OF s]] tr_map_find [OF rrepr_wf [OF s]] show ?thesis
    by (simp add: Some oroot_def art_map_def)
qed (simp add: oroot_def art_map_def numeral_eq_Suc)

definition art_ins :: "shifts \<Rightarrow> key \<Rightarrow> val \<Rightarrow> rtree option \<Rightarrow> tr" where
  "art_ins ub k v t = (case t of None \<Rightarrow> TLeaf k v | Some t \<Rightarrow> tr_ins (art_cut ub) 0 k v (rerase t))"

lemma art_cow_exec:
  assumes "art_version m t" "cx_t_past c = oroot t" "mem_ok anode_blk (11 + j) m"
  obtains c' m' t' where "conctrl_exec (art_handlers ub) 10 c m = Some (c', m')" "cx_root c' = rroot t'" "art_version m' (Some t')"
    "rerase t' = art_ins ub (cx_key c) (cx_val c) t" "art_map (Some t') = kv_upd (cx_key c) (cx_val c) (art_map t)"
    "cells m \<subseteq>\<^sub>m cells m'" "mem_ok anode_blk j m'"
proof -
  let ?c = "c\<lparr>cx_key_ofs := 0\<rparr>"
  have "cow_goal ub j m nullptr 0 (art_ins ub (cx_key c) (cx_val c) t) 10 (art_update_cow ub ?c m)"
  proof (cases t)
    case None
    have "mem_ok anode_blk (Suc j) m" by (rule mem_ok_mono [OF assms(3)]) simp
    from cow_null_ok [OF this, of ?c 0 nullptr ub 9] assms(2) None show ?thesis by (simp add: oroot_def art_ins_def)
  next
    case (Some s)
    then have s: "rrepr (cells m) 0 s" using assms(1) by (simp add: art_version_def)
    have "nullptr \<notin> set (rfoot s)" using rrepr_not_null [OF s] .
    moreover have "mem_ok anode_blk (tr_height (rerase s) + 3 + j) m"
      by (rule mem_ok_mono [OF assms(3)]) (use rrepr_height [OF s] in simp)
    ultimately show ?thesis
      using cow_ok [OF s, of 10 j ?c nullptr ub] rrepr_height [OF s] assms(2) Some by (simp add: oroot_def art_ins_def)
  qed
  then obtain op' r c1 m1 i where g: "art_update_cow ub ?c m = Some (op', r, c1, m1)" "r \<noteq> nullptr" "cells m \<subseteq>\<^sub>m cells m1" "mem_ok anode_blk i m1"
    "cow_cont ub j m nullptr 0 (art_ins ub (cx_key c) (cx_val c) t) 10 op' r c1 m1 i" unfolding cow_goal_def by blast
  have "\<forall>x. x \<noteq> nullptr \<longrightarrow> cells m1 x = cells m1 x" "nullptr = nullptr \<or> cells m1 nullptr \<noteq> None" by simp_all
  then obtain c3 m3 t' where r: "conctrl_run (art_handlers ub) 10 (c1\<lparr>cx_root := r, cx_t_cur := r, cx_op := op'\<rparr>) m1 = Some (c3, m3)"
    "cx_root c3 = r" "rroot t' = r" "rerase t' = art_ins ub (cx_key c) (cx_val c) t" "rrepr (cells m3) 0 t'"
    "\<forall>x n. x = nullptr \<or> cells m x \<noteq> None \<longrightarrow> cells m1 x = Some n \<longrightarrow> cells m3 x = Some n" "mem_ok anode_blk j m3"
    by (rule cow_contD [OF g(5) _ _ g(4)])
  have run: "conctrl_exec (art_handlers ub) 10 c m = Some (c3, m3)"
    using g(1) r(1) by (simp add: conctrl_exec_def art_handlers_def art_handle_init_def conctrl_INIT_def del: conctrl_run.simps)
  have sub: "cells m \<subseteq>\<^sub>m cells m3"
  proof (unfold map_le_def, rule ballI)
    fix x assume "x \<in> dom (cells m)"
    then obtain n where n: "cells m x = Some n" by blast
    with r(6) map_le_Some [OF g(3) n] show "cells m x = cells m3 x" by simp
  qed
  have map: "art_map (Some t') = kv_upd (cx_key c) (cx_val c) (art_map t)"
  proof (cases t)
    case None
    with r(4) show ?thesis by (simp add: art_map_def art_ins_def kv_upd_Nil)
  next
    case (Some s)
    then have s: "rrepr (cells m) 0 s" using assms(1) by (simp add: art_version_def)
    from tr_map_ins [OF art_cut_suffix rrepr_wf [OF s]] r(4) Some show ?thesis by (simp add: art_map_def art_ins_def)
  qed
  show thesis by (rule that [OF run _ _ r(4) map sub r(7)]) (simp_all add: r(2,3,5) art_version_def)
qed

text \<open>A scan from 0 of a node over leaves, none at the byte 0.\<close>

lemma scan_leaves:
  assumes "rrepr (cells m) 0 (RNode b [] cs)" "map_of cs 0 = None"
    and kid: "\<And>e d. (e, d) \<in> set cs \<Longrightarrow> 0 < e \<and> tr_height (rerase d) = 0"
  shows "art_scan ub 9 b 0 n m = Some (fill n [] (concat (map (\<lambda>(b, c). tr_kvs (rerase c)) cs)))"
proof -
  obtain x where x: "b \<noteq> nullptr" "cells m b = Some x" "art_head x 0 []" "art_kids x (map (apsnd rroot) cs)" using assms(1) by auto
  have kb0: "key_byte 0 0 = 0" by (simp add: key_byte_def)
  have after: "kids_after (Some 0) cs = cs" using kid by (auto simp: kids_after_def filter_id_conv)
  have app: "art_scan_append (Suc 8) b (Some 0) n [] m = Some (fill n [] (concat (map (\<lambda>(b, c). tr_kvs (rerase c)) (kids_after (Some 0) cs))))"
  proof (rule scan_append_node_ok [OF assms(1)])
    show "art_scan_append 8 (rroot d) None n ret m = Some (fill n ret (tr_kvs (rerase d)))"
      if "(e, d) \<in> set cs" "length ret < n" for e d ret
      by (rule art_scan_append_ok [of _ 1]) (use that kid assms(1) in auto)
  qed
  have find0: "art_findch x 0 = Some nullptr" using art_findch_ok [OF x(4), of 0] assms(2) by (simp add: map_of_rkids)
  have hx: "an_len x = 0" "an_ofs x = 0" "an_type x \<noteq> AT_LEAF" using x(3) by (simp_all add: art_head_def)
  have null: "art_scan_search ub 8 nullptr 0 n [] m = Some []" by (simp add: numeral_eq_Suc)
  have "art_scan_search ub (Suc 8) b 0 n [] m = art_scan_append (Suc 8) b (Some 0) n [] m"
    unfolding art_scan_search.simps(2) using x(1,2) hx find0 null
    by (simp add: mem_get_def Let_def partial_key_byte kb0 del: art_scan_append.simps)
  moreover have "art_scan ub 9 b 0 n m = art_scan_search ub (Suc 8) b 0 n [] m" by (simp add: art_scan_def)
  ultimately show ?thesis using app by (simp only: after)
qed

section \<open>A context for the witnesses\<close>

definition art_zero_ctx :: art_ctx where
  "art_zero_ctx = \<lparr>cx_op = 0, cx_retry = False, cx_wait_child = False, cx_wait_subtree = False,
     cx_new_checkpoint = False, cx_sno = 0, cx_cno = 0, cx_root = 0, cx_t_cur = 0, cx_t_past = 0,
     cx_key = 0, cx_val = 0, cx_key_ofs = 0, cx_ch_idx = 0\<rparr>"

lemma art_demo_deep:
  obtains t m where "art_inv m t" "art_map t = [(5, 7), (261, 8), (0x7B00000000000105, 9)]" "mem_ok anode_blk 12 m"
proof -
  have "art_inv art_empty_mem None" by (simp add: art_inv_def)
  moreover have "mem_ok anode_blk (2 * length [(261, 8 :: val), (5, 7), (0x7B00000000000105 :: key, 9)] + 12) art_empty_mem"
    by (rule art_empty_mem_ok) simp
  ultimately show thesis using build_from_ok [of art_empty_mem None _ 12 "\<lambda>_ _ _. 0"] that
    by (fastforce simp: upd_all_def art_map_def kv_upd_def)
qed

section \<open>Properties\<close>

text \<open>
  C25. Copy on write: from any version, the empty one included, the stages of an update end after
  at most ten steps without an invalid access, the root of the context then represents the
  ordered-map update of the version, and every cell that was in use keeps its contents. Eleven
  blocks are enough.
\<close>

theorem art_cow_update_correct:
  assumes "art_version m t" "cx_t_past c = oroot t" "mem_ok anode_blk (11 + j) m"
  shows "\<exists>c' m' t'. conctrl_exec (art_handlers ub) 10 c m = Some (c', m') \<and> cx_root c' = rroot t' \<and> art_version m' (Some t') \<and>
    art_map (Some t') = kv_upd (cx_key c) (cx_val c) (art_map t) \<and> cells m \<subseteq>\<^sub>m cells m' \<and> mem_ok anode_blk j m'"
  by (rule art_cow_exec [OF assms, of ub]) blast

theorem art_cow_update_correct_witness:
  "\<exists>t m c' m' t'. art_map t = [(5, 7), (261, 8), (0x7B00000000000105, 9)] \<and>
     conctrl_exec (art_handlers (\<lambda>_ _ _. 0)) 10 (art_zero_ctx\<lparr>cx_t_past := oroot t, cx_key := 6, cx_val := 1\<rparr>) m = Some (c', m') \<and>
     cx_root c' = rroot t' \<and> art_map (Some t') = [(5, 7), (6, 1), (261, 8), (0x7B00000000000105, 9)]"
proof -
  obtain t m where d: "art_inv m t" "art_map t = [(5, 7), (261, 8), (0x7B00000000000105, 9)]" "mem_ok anode_blk 12 m" by (rule art_demo_deep)
  then have "mem_ok anode_blk (11 + 1) m" by simp
  from art_cow_update_correct [OF art_inv_version [OF d(1)] _ this, of "art_zero_ctx\<lparr>cx_t_past := oroot t, cx_key := 6, cx_val := 1\<rparr>" "\<lambda>_ _ _. 0"] d(2)
  show ?thesis by (auto simp: kv_upd_def)
qed

text \<open>
  C26. Snapshots: after an update has run to its end, the root it started from still gives the
  same answers, to lookups and, for a loaded tree, to scans, and the new root gives the new one.
\<close>

theorem art_cow_snapshot:
  assumes "art_inv m t" "cx_t_past c = oroot t" "mem_ok anode_blk 11 m" "0 < n"
  shows "\<exists>c' m'. conctrl_exec (art_handlers ub) 10 c m = Some (c', m') \<and>
    (\<forall>k. art_find ub 9 (oroot t) k m' = art_find ub 9 (oroot t) k m \<and> art_scan ub 9 (oroot t) k n m' = art_scan ub 9 (oroot t) k n m \<and>
      art_find ub 9 (cx_root c') k m' = (if k = cx_key c then Some (Some (cx_val c)) else art_find ub 9 (oroot t) k m))"
proof -
  have "mem_ok anode_blk (11 + 0) m" using assms(3) by simp
  then obtain c' m' t' where r0: "conctrl_exec (art_handlers ub) 10 c m = Some (c', m')" "cx_root c' = rroot t'" "art_version m' (Some t')"
    "rerase t' = art_ins ub (cx_key c) (cx_val c) t" "art_map (Some t') = kv_upd (cx_key c) (cx_val c) (art_map t)"
    "cells m \<subseteq>\<^sub>m cells m'" "mem_ok anode_blk 0 m'" by (rule art_cow_exec [OF art_inv_version [OF assms(1)] assms(2)])
  have "cx_root c' = oroot (Some t')" using r0(2) by (simp add: oroot_def)
  note r = r0(1) this r0(3,5,6)
  have o: "ordered (art_map t)" by (rule art_version_ordered [OF art_inv_version [OF assms(1)]])
  note i = art_inv_mono [OF assms(1) r(5)]
  show ?thesis
    using r(1) inv_find [OF assms(1)] inv_find [OF i] inv_scan [OF assms(1,4)] inv_scan [OF i assms(4)] art_version_find [OF r(3)]
    by (intro exI [of _ c'] exI [of _ m']) (simp add: r(2,4) map_of_kv_upd_apply [OF o])
qed

theorem art_cow_snapshot_witness:
  "\<exists>t m c' m'. conctrl_exec (art_handlers (\<lambda>_ _ _. 0)) 10 (art_zero_ctx\<lparr>cx_t_past := oroot t, cx_key := 5, cx_val := 1\<rparr>) m = Some (c', m') \<and>
     art_find (\<lambda>_ _ _. 0) 9 (oroot t) 5 m' = Some (Some 7) \<and> art_find (\<lambda>_ _ _. 0) 9 (cx_root c') 5 m' = Some (Some 1)"
proof -
  obtain t m where d: "art_inv m t" "art_map t = [(5, 7), (261, 8), (0x7B00000000000105, 9)]" "mem_ok anode_blk 12 m" by (rule art_demo_deep)
  have "mem_ok anode_blk 11 m" by (rule mem_ok_mono [OF d(3)]) simp
  from art_cow_snapshot [OF d(1) _ this, of "art_zero_ctx\<lparr>cx_t_past := oroot t, cx_key := 5, cx_val := 1\<rparr>" 1 "\<lambda>_ _ _. 0"]
  obtain c' m' where r: "conctrl_exec (art_handlers (\<lambda>_ _ _. 0)) 10 (art_zero_ctx\<lparr>cx_t_past := oroot t, cx_key := 5, cx_val := 1\<rparr>) m = Some (c', m')"
    "art_find (\<lambda>_ _ _. 0) 9 (oroot t) 5 m' = art_find (\<lambda>_ _ _. 0) 9 (oroot t) 5 m" "art_find (\<lambda>_ _ _. 0) 9 (cx_root c') 5 m' = Some (Some 1)" by auto
  moreover have "art_find (\<lambda>_ _ _. 0) 9 (oroot t) 5 m = Some (Some 7)" using inv_find [OF d(1)] d(2) by simp
  ultimately show ?thesis by metis
qed

text \<open>
  C27. A fork cuts the key of a leaf. Here the tree is one leaf and the new key differs from its key in the
  first byte (both first bytes not zero). Lookup of the old key still works after the update, but a
  scan from 0 returns the old value under the key without its first byte, and never the key: the
  mask of \<^verbatim>\<open>node_fork_cow\<close> is applied to leaves too, while the in-place code spares them.
\<close>

theorem art_cow_fork_cuts_keys:
  assumes "rrepr (cells m) 0 (RLeaf a k' v')" "cx_t_past c = a" "mem_ok anode_blk 11 m"
    "0 < key_byte k' 0" "0 < key_byte (cx_key c) 0" "key_byte k' 0 \<noteq> key_byte (cx_key c) 0"
  shows "\<exists>c' m' kvs. conctrl_exec (art_handlers ub) 10 c m = Some (c', m') \<and>
    art_find ub 9 (cx_root c') k' m' = Some (Some v') \<and>
    art_scan ub 9 (cx_root c') 0 2 m' = Some kvs \<and> (k' AND 0x00FFFFFFFFFFFFFF, v') \<in> set kvs \<and> k' \<notin> fst ` set kvs"
proof -
  let ?k = "cx_key c" and ?v = "cx_val c"
  have v: "art_version m (Some (RLeaf a k' v'))" "cx_t_past c = oroot (Some (RLeaf a k' v'))" "mem_ok anode_blk (11 + 0) m"
    using assms(1-3) by (simp_all add: art_version_def oroot_def)
  from art_cow_exec [OF v, of ub] obtain c' m' t' where r: "conctrl_exec (art_handlers ub) 10 c m = Some (c', m')"
    "cx_root c' = rroot t'" "art_version m' (Some t')" "rerase t' = art_ins ub ?k ?v (Some (RLeaf a k' v'))"
    "art_map (Some t') = kv_upd ?k ?v (art_map (Some (RLeaf a k' v')))" by blast
  have rep: "rrepr (cells m') 0 t'" using r(3) by (simp add: art_version_def)
  have l: "lcp (key_bytes k') (key_bytes ?k) = 0" using assms(6) by (simp add: key_bytes_expand)
  let ?cut = "art_cut ub 1 k'"
  have T: "rerase t' = TNode [] (kv_upd (key_byte ?k 0) (TLeaf ?k ?v) [(key_byte k' 0, TLeaf ?cut v')])"
    using r(4) l by (simp add: art_ins_def tr_fork_def)
  obtain b cs where t': "t' = RNode b [] cs" "map (\<lambda>(b, c). (b, rerase c)) cs = kv_upd (key_byte ?k 0) (TLeaf ?k ?v) [(key_byte k' 0, TLeaf ?cut v')]"
    using T by (cases t') auto
  have one: "ordered [(key_byte k' 0, TLeaf ?cut v')]" by simp
  have none: "map_of cs 0 = None"
  proof -
    have "map_of (map (\<lambda>(b, c). (b, rerase c)) cs) 0 = None"
      unfolding t'(2) map_of_kv_upd_apply [OF one] using assms(4,5) by auto
    then show ?thesis by (simp add: map_of_rkids)
  qed
  have kid: "0 < e \<and> tr_height (rerase d) = 0" if "(e, d) \<in> set cs" for e d
  proof -
    have "(e, rerase d) \<in> set (map (\<lambda>(b, c). (b, rerase c)) cs)" using that by force
    then show ?thesis unfolding t'(2) set_kv_upd [OF one] using assms(4,5) by auto
  qed
  have scan: "art_scan ub 9 (cx_root c') 0 2 m' = Some (fill 2 [] (concat (map (\<lambda>(b, c). tr_kvs (rerase c)) cs)))"
    unfolding r(2) t'(1) rroot.simps by (rule scan_leaves [OF _ none kid]) (use rep t'(1) in simp)
  let ?kvs = "fill 2 [] (concat (map (\<lambda>(b, c). tr_kvs (rerase c)) cs))"
  have "map (\<lambda>(b, c). tr_kvs (rerase c)) cs = map (\<lambda>(b, c). tr_kvs c) (map (\<lambda>(b, c). (b, rerase c)) cs)"
    by (simp add: comp_def case_prod_beta')
  then have kvs: "set ?kvs = {(?k, ?v), (?cut, v')}"
    unfolding t'(2) kv_upd_Cons [OF one] using assms(6) by (auto simp: kv_upd_Nil fill_def)
  have cut: "?cut = k' AND 0x00FFFFFFFFFFFFFF" by (simp add: art_cut_def art_prefix_mask_def art_shr_def art_shl_def mask_eq_exp_minus_1)
  have "key_byte ?cut 0 = 0"
    using key_byte_mask [of 7 1 0 k' ub] by (simp add: art_cut_def)
  then have "?cut \<noteq> k'" using assms(4) by auto
  moreover have "?k \<noteq> k'" using assms(6) by auto
  ultimately have no: "k' \<notin> fst ` set ?kvs" unfolding kvs by auto
  have "art_find ub 9 (cx_root c') k' m' = Some (map_of (art_map (Some t')) k')"
    using art_version_find [OF r(3), of ub k'] r(2) by (simp add: oroot_def)
  also have "map_of (art_map (Some t')) k' = Some v'"
    unfolding r(5) using \<open>?k \<noteq> k'\<close> by (simp add: art_map_def map_of_kv_upd_apply)
  finally show ?thesis using r(1) scan no kvs unfolding cut by (intro exI [of _ c'] exI [of _ m'] exI [of _ ?kvs]) simp
qed

theorem art_cow_fork_cuts_keys_witness:
  "\<exists>t m c' m' kvs. art_map t = [(0x0100000000000009, 5)] \<and>
     conctrl_exec (art_handlers (\<lambda>_ _ _. 0)) 10 (art_zero_ctx\<lparr>cx_t_past := oroot t, cx_key := 0x0200000000000000, cx_val := 1\<rparr>) m = Some (c', m') \<and>
     art_scan (\<lambda>_ _ _. 0) 9 (cx_root c') 0 2 m' = Some kvs \<and> (9, 5) \<in> set kvs"
proof -
  obtain t m where t:
    "art_inv m (Some t)" "art_map (Some t) = [(0x0100000000000009, 5)]" "mem_ok anode_blk 11 m"
    "rerase t = TLeaf 0x0100000000000009 5"
  proof -
    have "mem_ok anode_blk (Suc 11) art_empty_mem" by (rule art_empty_mem_ok) simp
    from inplace_null_ok [OF this, where ofs = 0 and k = "0x0100000000000009" and v = 5 and ub = "\<lambda>_ _ _. 0"] obtain t m where
      "rerase t = TLeaf 0x0100000000000009 5" "rrepr (cells m) 0 t" "distinct (rfoot t)" "mem_ok anode_blk 11 m" by (auto simp: art_result_def)
    then show thesis by (intro that [of m t]) (simp_all add: art_inv_def art_map_def)
  qed
  obtain a where a: "t = RLeaf a 0x0100000000000009 5" using t(4) by (cases t) auto
  let ?c = "art_zero_ctx\<lparr>cx_t_past := oroot (Some t), cx_key := 0x0200000000000000, cx_val := 1\<rparr>"
  have b: "key_byte 0x0100000000000009 0 = 1" "key_byte (cx_key ?c) 0 = 2" by (simp_all add: key_byte_def drop_bit_eq_div)
  have "rrepr (cells m) 0 (RLeaf a 0x0100000000000009 5)" using t(1) a by (simp add: art_inv_def)
  from art_cow_fork_cuts_keys [OF this _ t(3), of ?c "\<lambda>_ _ _. 0"] b obtain c' m' kvs where
    "conctrl_exec (art_handlers (\<lambda>_ _ _. 0)) 10 ?c m = Some (c', m')" "art_scan (\<lambda>_ _ _. 0) 9 (cx_root c') 0 2 m' = Some kvs"
    "(0x0100000000000009 AND 0x00FFFFFFFFFFFFFF, 5) \<in> set kvs" by (auto simp: a oroot_def)
  then show ?thesis using t(2) by (intro exI [of _ "Some t"] exI [of _ m] exI [of _ c'] exI [of _ m'] exI [of _ kvs]) simp
qed

end
