(* ===== verification/Art_Seqcow.thy ===== *)
theory Art_Seqcow
  imports Art_Cow_Correct Btree_Seqcow
begin

text \<open>
  The radix tree under the scheduler of \<^verbatim>\<open>seqcow.hpp\<close>. Copy on write in the radix tree is exact, so
  the published tree holds exactly the bindings that the requests give, in the order of their
  task numbers.
\<close>

section \<open>The contract, discharged\<close>

definition art_ver :: "amem \<Rightarrow> addr \<Rightarrow> kv list \<Rightarrow> bool" where
  "art_ver m r xs \<longleftrightarrow> (\<exists>t. art_version m t \<and> oroot t = r \<and> xs = art_map t)"

definition art_updates_room :: "nat \<Rightarrow> amem \<Rightarrow> bool" where
  "art_updates_room n m = mem_ok anode_blk (11 * n) m"

abbreviation art_upd :: "key \<Rightarrow> val \<Rightarrow> kv list \<Rightarrow> kv list \<Rightarrow> bool" where
  "art_upd k v xs ys \<equiv> ys = kv_upd k v xs"

lemma art_exec_ok:
  assumes "art_ver m (cx_t_past c) xs" "art_updates_room (Suc n) m"
  shows "\<exists>c' m' ys. conctrl_exec (art_handlers ub) 10 c m = Some (c', m') \<and> art_ver m' (cx_root c') ys \<and>
    art_upd (cx_key c) (cx_val c) xs ys \<and> art_updates_room n m' \<and> (\<forall>r zs. art_ver m r zs \<longrightarrow> art_ver m' r zs)"
proof -
  from assms(1) obtain t where t: "art_version m t" "cx_t_past c = oroot t" "xs = art_map t" by (auto simp: art_ver_def)
  have "mem_ok anode_blk (11 + 11 * n) m" using assms(2) by (simp add: art_updates_room_def)
  then obtain c' m' t' where r: "conctrl_exec (art_handlers ub) 10 c m = Some (c', m')" "cx_root c' = rroot t'" "art_version m' (Some t')"
    "rerase t' = art_ins ub (cx_key c) (cx_val c) t" "art_map (Some t') = kv_upd (cx_key c) (cx_val c) (art_map t)"
    "cells m \<subseteq>\<^sub>m cells m'" "mem_ok anode_blk (11 * n) m'" by (rule art_cow_exec [OF t(1,2)])
  have "art_ver m' r zs" if "art_ver m r zs" for r zs using that art_version_mono [OF _ r(6)] unfolding art_ver_def by blast
  moreover have "art_ver m' (cx_root c') (art_map (Some t'))" using r(2,3) unfolding art_ver_def by (intro exI [of _ "Some t'"]) (simp add: oroot_def)
  ultimately show ?thesis using r(1,5,7) t(3) unfolding art_updates_room_def by blast
qed

interpretation art_sq: cow_index "art_handlers ub" 10 art_ver art_upd art_updates_room for ub :: shifts
  by unfold_locales (rule art_exec_ok)

lemma art_ver_find: "art_ver m r xs \<Longrightarrow> art_find ub 9 r k m = Some (map_of xs k)"
  using art_version_find by (auto simp: art_ver_def)

lemma upds_art: "upds art_upd rs xs ys \<Longrightarrow> ys = kv_upds rs xs"
  by (induction rs arbitrary: xs) (simp_all add: kv_upds_def case_prod_beta)

lemma art_demo_run:
  obtains t m s where "art_ver m t [(5, 7), (261, 8), (0x7B00000000000105, 9)]" "art_updates_room 1 m"
    "seqcow_orderly (art_handlers ub) 10 (seqcow_init art_zero_ctx t m) s" "sq_submitted s = 1" "sq_hist s = [(100, 1)]"
    "\<forall>i. sq_clients s i = SQ_Idle" "\<not> sq_stop s" "sq_pc s \<noteq> SQ_Done"
proof -
  obtain t m where t: "art_inv m t" "art_map t = [(5, 7), (261, 8), (0x7B00000000000105, 9)]" "mem_ok anode_blk 12 m" by (rule art_demo_deep)
  have "art_ver m (oroot t) (art_map t)" using art_inv_version [OF t(1)] by (auto simp: art_ver_def)
  moreover have "art_updates_room 1 m" unfolding art_updates_room_def by (rule mem_ok_mono [OF t(3)]) simp
  moreover obtain xs where "seqcow_orderly (art_handlers ub) 10 (seqcow_init art_zero_ctx (oroot t) m)
      (sq_one 100 1 SQ_Idle xs m (oroot t) 0 SQ_Poll 0 0 0)"
    using one_request [of "art_handlers ub" 10 art_zero_ctx "oroot t" m 100 1] by blast
  ultimately show thesis using t(2) by (intro that [of m "oroot t"]) (auto simp: sq_one_def)
qed

section \<open>Properties\<close>

text \<open>
  C28. Linearization: in every run in which no task starts before its request is written, queries
  answer from the map that the first \<^term>\<open>n\<close> requests give, in the order of their task numbers,
  where \<^term>\<open>n\<close> counts every request \<^verbatim>\<open>wait_for_processing\<close> has reported. Overwriting requests
  are included.
\<close>

theorem art_seqcow_linearizes:
  assumes "seqcow_orderly (art_handlers ub) 10 (seqcow_init zero t m) s" "art_ver m t xs"
    "art_updates_room N m" "sq_submitted s \<le> N"
  shows "\<exists>n. (\<forall>j. seqcow_processed j s \<longrightarrow> j \<le> n) \<and> n \<le> sq_submitted s \<and>
    (\<forall>k. seqcow_query (\<lambda>r. art_find ub 9 r k) s = Some (map_of (kv_upds (take n (sq_hist s)) xs) k))"
proof -
  from art_sq.orderly_published [OF assms] obtain n ys where n: "sq_committed s \<le> n" "n \<le> sq_submitted s"
    "upds art_upd (take n (sq_hist s)) xs ys" "art_ver (sq_mem s) (sq_root s) ys" by blast
  from upds_art [OF n(3)] art_ver_find [OF n(4)] n(1,2) show ?thesis
    by (intro exI [of _ n]) (auto simp: seqcow_processed_def seqcow_query_def)
qed

theorem art_seqcow_linearizes_witness:
  "\<exists>t m s n. seqcow_orderly (art_handlers (\<lambda>_ _ _. 0)) 10 (seqcow_init art_zero_ctx t m) s \<and> sq_hist s = [(100, 1)] \<and>
    seqcow_query (\<lambda>r. art_find (\<lambda>_ _ _. 0) 9 r 100) s = Some (map_of (kv_upds (take n (sq_hist s)) [(5, 7), (261, 8), (0x7B00000000000105, 9)]) 100)"
proof -
  obtain t m s where r: "art_ver m t [(5, 7), (261, 8), (0x7B00000000000105, 9)]" "art_updates_room 1 m"
    "seqcow_orderly (art_handlers (\<lambda>_ _ _. 0)) 10 (seqcow_init art_zero_ctx t m) s" "sq_submitted s = 1" "sq_hist s = [(100, 1)]"
    by (rule art_demo_run)
  have "sq_submitted s \<le> 1" using r(4) by simp
  from art_seqcow_linearizes [OF r(3,1,2) this] r(3,5) show ?thesis by blast
qed

text \<open>
  Nothing is lost either: in such a run, once the clients have returned and as long as nobody stops
  the worker, the worker can go on until every request is committed, and the published root then
  holds exactly what all requests in order give.
\<close>

theorem art_seqcow_drains:
  assumes "seqcow_orderly (art_handlers ub) 10 (seqcow_init zero t m) s" "art_ver m t xs"
    "art_updates_room N m" "sq_submitted s \<le> N" "\<forall>i. sq_clients s i = SQ_Idle" "\<not> sq_stop s" "sq_pc s \<noteq> SQ_Done"
  shows "\<exists>s'. seqcow_orderly (art_handlers ub) 10 s s' \<and> seqcow_processed (sq_submitted s) s' \<and>
    art_ver (sq_mem s') (sq_root s') (kv_upds (sq_hist s) xs)"
proof -
  from art_sq.orderly_drains [OF assms] obtain s' ys where s': "seqcow_orderly (art_handlers ub) 10 s s'"
    "sq_committed s' = sq_submitted s" "upds art_upd (sq_hist s) xs ys" "art_ver (sq_mem s') (sq_root s') ys" by blast
  with upds_art [OF s'(3)] show ?thesis by (intro exI [of _ s']) (simp add: seqcow_processed_def)
qed

theorem art_seqcow_drains_witness:
  "\<exists>t m s. seqcow_orderly (art_handlers (\<lambda>_ _ _. 0)) 10 (seqcow_init art_zero_ctx t m) s \<and> seqcow_processed 1 s \<and>
    art_ver (sq_mem s) (sq_root s) [(5, 7), (100, 1), (261, 8), (0x7B00000000000105, 9)]"
proof -
  obtain t m s where r: "art_ver m t [(5, 7), (261, 8), (0x7B00000000000105, 9)]" "art_updates_room 1 m"
    "seqcow_orderly (art_handlers (\<lambda>_ _ _. 0)) 10 (seqcow_init art_zero_ctx t m) s" "sq_submitted s = 1" "sq_hist s = [(100, 1)]"
    "\<forall>i. sq_clients s i = SQ_Idle" "\<not> sq_stop s" "sq_pc s \<noteq> SQ_Done" by (rule art_demo_run)
  have "sq_submitted s \<le> 1" using r(4) by simp
  from art_seqcow_drains [OF r(3,1,2) this r(6-8)] r(4,5) orderly_trans [OF _ r(3)] show ?thesis
    by (fastforce simp: kv_upds_def kv_upd_def)
qed

end
