(* ===== verification/Concow.thy ===== *)
theory Concow
  imports Seqcow "HOL-Library.Extended_Nat"
begin

text \<open>
  \<^verbatim>\<open>lib/conctrl/concow.hpp\<close>: an update claims a task number and a context of a ring; a pipeline of
  threads works on the upper levels of the tree, each pipe on the next level and on the tasks in
  their order; the last pipe hands a task that is not yet done to a free worker, which goes on to the
  end; a monitor lets initialised tasks into the pipeline, collects finished ones in order and
  publishes the root of the last.

  The threads are a step relation, as in \<^verbatim>\<open>seqcow\<close>: every atomic operation and every store into a
  shared context is a step. A call of a handler is one step, so the effects of two handlers that run at
  the same time are those of one after the other; and the entry loads \<^verbatim>\<open>checkpoint_\<close>, reads the previous
  root and its version, and stores into the context in one step. The list of free workers is a FIFO queue here;
  \<open>Mpsc_List\<close> shows that \<^verbatim>\<open>mpsc_list\<close> is one. The value \<^verbatim>\<open>~0UL\<close> of a stage is \<open>\<infinity>\<close>, and that of a
  worker's task \<open>None\<close>; task numbers and stages are not bounded.
\<close>

section \<open>State\<close>

definition concow_BATCH_SIZE :: nat where
  "concow_BATCH_SIZE = conctrl_BUFFER_SIZE div 16"

text \<open>What a tree library supplies: the stage table, \<^verbatim>\<open>checkpoint_handler\<close>, and \<^verbatim>\<open>ver\<close> of a node.\<close>

record ('c, 'm) index_lib =
  lib_handlers :: "('c, 'm) handlers"
  lib_checkpoint :: "'c \<Rightarrow> 'm \<Rightarrow> ('c \<times> 'm) option"
  lib_ver :: "addr \<Rightarrow> 'm \<Rightarrow> 32 word option"

text \<open>
  A client is between calls; about to claim a number; waits for a place; has done \<^term>\<open>i\<close> of the five
  stores of its request, and then stores the stage; or has got a number that is a multiple of the
  buffer size, which it gives back in two stores.
\<close>

datatype cc_client = CC_Idle | CC_Claim key val | CC_Waiting nat key val
  | CC_Writing nat nat key val | CC_Skipping nat nat key val

datatype mo_pc = MO_Poll | MO_Load | MO_Init | MO_Advance | MO_Collect | MO_Flag | MO_Publish | MO_Commit | MO_Done

datatype pp_pc = PP_Top | PP_Drain | PP_Iter | PP_Work | PP_Exec | PP_Version "32 word" | PP_Call | PP_Retry
  | PP_Checkpoint "32 word" | PP_Assign nat | PP_Advance | PP_Done

record pipe_context =
  pp_pc :: pp_pc
  pp_tid :: nat
  pp_last :: nat
  pp_epoch :: nat
  pp_final :: bool
  pp_cache :: nat
  pp_checkpoint :: nat

datatype wk_pc = WK_Poll | WK_Loop | WK_Exec | WK_Version "32 word" | WK_Stage "32 word" enat
  | WK_Committed "32 word" enat | WK_Call | WK_Retry | WK_Finish | WK_Push | WK_Done

record worker_context =
  wk_pc :: wk_pc
  wk_tid :: nat
  wk_last :: nat
  wk_stage :: nat

text \<open>
  The members of the class; the locals of the monitor; pipes and workers by number, with the shared
  \<^verbatim>\<open>pace\<close> of a pipe and \<^verbatim>\<open>tid\<close> of a worker kept apart from their locals; and in \<^term>\<open>cc_hist\<close>
  the request of every task number, none for those given back, which no step reads.
\<close>

record ('c, 'm) concow =
  cc_ctxs :: "nat \<Rightarrow> 'c"
  cc_stages :: "nat \<Rightarrow> enat"
  cc_mem :: 'm
  cc_root :: addr
  cc_submitted :: nat
  cc_committed :: nat
  cc_checkpoint :: nat
  cc_stop :: bool
  cc_available :: "nat list"
  cc_pace :: "nat \<Rightarrow> nat"
  cc_worker_tid :: "nat \<Rightarrow> nat option"
  mo_pc :: mo_pc
  mo_stop :: bool
  mo_submitted :: nat
  mo_inited :: nat
  mo_committed :: nat
  mo_next :: nat
  cc_pipes :: "nat \<Rightarrow> pipe_context"
  cc_workers :: "nat \<Rightarrow> worker_context"
  cc_clients :: "nat \<Rightarrow> cc_client"
  cc_hist :: "(key \<times> val) option list"

text \<open>The context and the stage of a task, and stores into them.\<close>

definition cc_ctx :: "('c, 'm) concow \<Rightarrow> nat \<Rightarrow> 'c" where
  "cc_ctx s tid = cc_ctxs s (tid mod conctrl_BUFFER_SIZE)"

definition cc_set_ctx :: "nat \<Rightarrow> 'c \<Rightarrow> ('c, 'm) concow \<Rightarrow> ('c, 'm) concow" where
  "cc_set_ctx tid c s = s\<lparr>cc_ctxs := (cc_ctxs s)(tid mod conctrl_BUFFER_SIZE := c)\<rparr>"

definition cc_stage :: "('c, 'm) concow \<Rightarrow> nat \<Rightarrow> enat" where
  "cc_stage s tid = cc_stages s (tid mod conctrl_BUFFER_SIZE)"

definition cc_set_stage :: "nat \<Rightarrow> enat \<Rightarrow> ('c, 'm) concow \<Rightarrow> ('c, 'm) concow" where
  "cc_set_stage tid x s = s\<lparr>cc_stages := (cc_stages s)(tid mod conctrl_BUFFER_SIZE := x)\<rparr>"

definition cc_set_client :: "nat \<Rightarrow> cc_client \<Rightarrow> ('c, 'm) concow \<Rightarrow> ('c, 'm) concow" where
  "cc_set_client i c s = s\<lparr>cc_clients := (cc_clients s)(i := c)\<rparr>"

definition cc_set_pipe :: "nat \<Rightarrow> pipe_context \<Rightarrow> ('c, 'm) concow \<Rightarrow> ('c, 'm) concow" where
  "cc_set_pipe p x s = s\<lparr>cc_pipes := (cc_pipes s)(p := x)\<rparr>"

definition cc_set_worker :: "nat \<Rightarrow> worker_context \<Rightarrow> ('c, 'm) concow \<Rightarrow> ('c, 'm) concow" where
  "cc_set_worker w x s = s\<lparr>cc_workers := (cc_workers s)(w := x)\<rparr>"

section \<open>Clients\<close>

text \<open>\<^verbatim>\<open>update\<close>. Nobody calls it any more once the destructor runs.\<close>

inductive concow_client_step ::
  "('x ctx_scheme, 'm) concow \<Rightarrow> ('x ctx_scheme, 'm) concow \<Rightarrow> bool" where
  call: "cc_clients s i = CC_Idle \<Longrightarrow> \<not> cc_stop s \<Longrightarrow>
    concow_client_step s (cc_set_client i (CC_Claim k v) s)"
| claim: "cc_clients s i = CC_Claim k v \<Longrightarrow> tid = Suc (cc_submitted s) \<Longrightarrow>
    concow_client_step s (cc_set_client i (CC_Waiting tid k v) (s\<lparr>cc_submitted := tid,
      cc_hist := cc_hist s @ [if tid mod conctrl_BUFFER_SIZE = 0 then None else Some (k, v)]\<rparr>))"
| place: "cc_clients s i = CC_Waiting tid k v \<Longrightarrow> tid < cc_committed s + conctrl_BUFFER_SIZE \<Longrightarrow>
    concow_client_step s (cc_set_client i (if tid mod conctrl_BUFFER_SIZE \<noteq> 0 then CC_Writing 0 tid k v else CC_Skipping 0 tid k v) s)"
| store: "cc_clients s i = CC_Writing j tid k v \<Longrightarrow> j < 5 \<Longrightarrow>
    concow_client_step s (cc_set_client i (CC_Writing (Suc j) tid k v) (cc_set_ctx tid (seqcow_store j tid k v (cc_ctx s tid)) s))"
| return: "cc_clients s i = CC_Writing 5 tid k v \<Longrightarrow>
    concow_client_step s (cc_set_client i CC_Idle (cc_set_stage tid 0 s))"
| skip_sno: "cc_clients s i = CC_Skipping 0 tid k v \<Longrightarrow>
    concow_client_step s (cc_set_client i (CC_Skipping 1 tid k v) (cc_set_ctx tid ((cc_ctx s tid)\<lparr>cx_sno := of_nat tid\<rparr>) s))"
| skip_stage: "cc_clients s i = CC_Skipping 1 tid k v \<Longrightarrow>
    concow_client_step s (cc_set_client i (CC_Claim k v) (cc_set_stage tid 0 s))"

section \<open>The monitor\<close>

text \<open>\<^verbatim>\<open>monitor_main_\<close>.\<close>

inductive concow_monitor_step ::
  "('x ctx_scheme, 'm) concow \<Rightarrow> ('x ctx_scheme, 'm) concow \<Rightarrow> bool" where
  poll: "mo_pc s = MO_Poll \<Longrightarrow> \<not> mo_stop s \<or> mo_committed s < mo_submitted s \<Longrightarrow>
    concow_monitor_step s (s\<lparr>mo_stop := cc_stop s, mo_pc := MO_Load\<rparr>)"
| load: "mo_pc s = MO_Load \<Longrightarrow>
    concow_monitor_step s (s\<lparr>mo_submitted := cc_submitted s, mo_next := mo_inited s, mo_pc := MO_Init\<rparr>)"
| init: "mo_pc s = MO_Init \<Longrightarrow> mo_next s < mo_submitted s \<Longrightarrow> cc_stage s (Suc (mo_next s)) = 0 \<Longrightarrow>
    concow_monitor_step s (s\<lparr>mo_next := Suc (mo_next s)\<rparr>)"
| init_end: "mo_pc s = MO_Init \<Longrightarrow> mo_next s < mo_submitted s \<longrightarrow> cc_stage s (Suc (mo_next s)) \<noteq> 0 \<Longrightarrow>
    concow_monitor_step s (s\<lparr>mo_pc := MO_Advance\<rparr>)"
| advance: "mo_pc s = MO_Advance \<Longrightarrow>
    concow_monitor_step s ((if mo_next s > mo_inited s then s\<lparr>mo_inited := mo_next s, cc_pace := (cc_pace s)(0 := mo_next s)\<rparr> else s)
      \<lparr>mo_next := mo_committed s, mo_pc := MO_Collect\<rparr>)"
| collect: "mo_pc s = MO_Collect \<Longrightarrow> mo_next s < mo_inited s \<Longrightarrow> cc_stage s (Suc (mo_next s)) = \<infinity> \<Longrightarrow>
    concow_monitor_step s (s\<lparr>mo_next := Suc (mo_next s), mo_pc := MO_Flag\<rparr>)"
| flag: "mo_pc s = MO_Flag \<Longrightarrow>
    concow_monitor_step s ((if cx_new_checkpoint (cc_ctx s (mo_next s)) then s\<lparr>cc_checkpoint := mo_next s\<rparr> else s)\<lparr>mo_pc := MO_Collect\<rparr>)"
| collect_end: "mo_pc s = MO_Collect \<Longrightarrow> mo_next s < mo_inited s \<longrightarrow> cc_stage s (Suc (mo_next s)) \<noteq> \<infinity> \<Longrightarrow>
    concow_monitor_step s (s\<lparr>mo_pc := MO_Publish\<rparr>)"
| publish: "mo_pc s = MO_Publish \<Longrightarrow> mo_next s > mo_committed s \<Longrightarrow>
    concow_monitor_step s (s\<lparr>mo_committed := mo_next s, cc_root := cx_root (cc_ctx s (mo_next s)), mo_pc := MO_Commit\<rparr>)"
| nothing_new: "mo_pc s = MO_Publish \<Longrightarrow> \<not> mo_next s > mo_committed s \<Longrightarrow>
    concow_monitor_step s (s\<lparr>mo_pc := MO_Poll\<rparr>)"
| commit: "mo_pc s = MO_Commit \<Longrightarrow>
    concow_monitor_step s (s\<lparr>cc_committed := mo_committed s, mo_pc := MO_Poll\<rparr>)"
| finish: "mo_pc s = MO_Poll \<Longrightarrow> mo_stop s \<Longrightarrow> \<not> mo_committed s < mo_submitted s \<Longrightarrow>
    margin = concow_BATCH_SIZE + (concow_BATCH_SIZE - mo_inited s mod concow_BATCH_SIZE) mod concow_BATCH_SIZE \<Longrightarrow>
    concow_monitor_step s (s\<lparr>cc_pace := (cc_pace s)(0 := mo_inited s + margin), mo_pc := MO_Done\<rparr>)"

section \<open>The pipeline\<close>

text \<open>
  \<^verbatim>\<open>pipe_main_\<close> for each of the three kinds of pipes: the batches while the stop flag is down, then
  the tasks up to the last one submitted. Pipe 0 is the entry and pipe \<^term>\<open>n\<close> the exit.
\<close>

inductive concow_pipe_loop :: "nat \<Rightarrow> nat \<Rightarrow> ('c, 'm) concow \<Rightarrow> ('c, 'm) concow \<Rightarrow> bool" for n p where
  batch: "x = cc_pipes s p \<Longrightarrow> pp_pc x = PP_Top \<Longrightarrow> \<not> cc_stop s \<Longrightarrow>
    concow_pipe_loop n p s (cc_set_pipe p (x\<lparr>pp_tid := Suc (pp_epoch x * concow_BATCH_SIZE),
      pp_last := Suc (pp_epoch x) * concow_BATCH_SIZE, pp_pc := PP_Iter\<rparr>) s)"
| stop: "x = cc_pipes s p \<Longrightarrow> pp_pc x = PP_Top \<Longrightarrow> cc_stop s \<Longrightarrow>
    concow_pipe_loop n p s (cc_set_pipe p (x\<lparr>pp_pc := PP_Drain\<rparr>) s)"
| drain: "x = cc_pipes s p \<Longrightarrow> pp_pc x = PP_Drain \<Longrightarrow>
    concow_pipe_loop n p s (cc_set_pipe p (x\<lparr>pp_tid := Suc (pp_epoch x * concow_BATCH_SIZE),
      pp_last := cc_submitted s, pp_final := True, pp_pc := PP_Iter\<rparr>) s)"
| wait: "x = cc_pipes s p \<Longrightarrow> pp_pc x = PP_Iter \<Longrightarrow> pp_tid x \<le> pp_last x \<Longrightarrow> pp_cache x < pp_tid x \<Longrightarrow>
    concow_pipe_loop n p s (cc_set_pipe p (x\<lparr>pp_cache := cc_pace s p\<rparr>) s)"
| task: "x = cc_pipes s p \<Longrightarrow> pp_pc x = PP_Iter \<Longrightarrow> pp_tid x \<le> pp_last x \<Longrightarrow> \<not> pp_cache x < pp_tid x \<Longrightarrow>
    concow_pipe_loop n p s (cc_set_pipe p (x\<lparr>pp_pc := PP_Work\<rparr>) s)"
| advance: "x = cc_pipes s p \<Longrightarrow> pp_pc x = PP_Advance \<Longrightarrow>
    concow_pipe_loop n p s (cc_set_pipe p (x\<lparr>pp_tid := Suc (pp_tid x), pp_pc := PP_Iter\<rparr>)
      (if p < n then s\<lparr>cc_pace := (cc_pace s)(Suc p := pp_tid x)\<rparr> else s))"
| epoch: "x = cc_pipes s p \<Longrightarrow> pp_pc x = PP_Iter \<Longrightarrow> \<not> pp_tid x \<le> pp_last x \<Longrightarrow> \<not> pp_final x \<Longrightarrow>
    concow_pipe_loop n p s (cc_set_pipe p (x\<lparr>pp_epoch := Suc (pp_epoch x), pp_pc := PP_Top\<rparr>) s)"
| finish: "x = cc_pipes s p \<Longrightarrow> pp_pc x = PP_Iter \<Longrightarrow> \<not> pp_tid x \<le> pp_last x \<Longrightarrow> pp_final x \<Longrightarrow>
    concow_pipe_loop n p s (cc_set_pipe p (x\<lparr>pp_pc := PP_Done\<rparr>) s)"

text \<open>\<^verbatim>\<open>iter_exec\<close> with \<^verbatim>\<open>wait_version\<close>, and the loop on \<^verbatim>\<open>retry\<close>.\<close>

inductive concow_iter_exec ::
  "('x ctx_scheme, 'm) index_lib \<Rightarrow> nat \<Rightarrow> ('x ctx_scheme, 'm) concow \<Rightarrow> ('x ctx_scheme, 'm) concow \<Rightarrow> bool" for L p where
  child: "x = cc_pipes s p \<Longrightarrow> pp_pc x = PP_Exec \<Longrightarrow> cx_wait_child (cc_ctx s (pp_tid x)) \<Longrightarrow>
    concow_iter_exec L p s (cc_set_pipe p (x\<lparr>pp_pc := PP_Retry\<rparr>) s)"
| subtree: "x = cc_pipes s p \<Longrightarrow> pp_pc x = PP_Exec \<Longrightarrow> c = cc_ctx s (pp_tid x) \<Longrightarrow> \<not> cx_wait_child c \<Longrightarrow> cx_wait_subtree c \<Longrightarrow>
    lib_ver L (cx_t_past c) (cc_mem s) = Some ver \<Longrightarrow>
    concow_iter_exec L p s (cc_set_pipe p (x\<lparr>pp_pc := PP_Version ver\<rparr>) s)"
| go: "x = cc_pipes s p \<Longrightarrow> pp_pc x = PP_Exec \<Longrightarrow> c = cc_ctx s (pp_tid x) \<Longrightarrow> \<not> cx_wait_child c \<Longrightarrow> \<not> cx_wait_subtree c \<Longrightarrow>
    concow_iter_exec L p s (cc_set_pipe p (x\<lparr>pp_pc := PP_Call\<rparr>) s)"
| version: "x = cc_pipes s p \<Longrightarrow> pp_pc x = PP_Version ver \<Longrightarrow> c = cc_ctx s (pp_tid x) \<Longrightarrow> cx_cno c < ver \<Longrightarrow>
    concow_iter_exec L p s (cc_set_ctx (pp_tid x) (c\<lparr>cx_cno := of_nat (cc_committed s)\<rparr>) s)"
| version_end: "x = cc_pipes s p \<Longrightarrow> pp_pc x = PP_Version ver \<Longrightarrow> \<not> cx_cno (cc_ctx s (pp_tid x)) < ver \<Longrightarrow>
    concow_iter_exec L p s (cc_set_pipe p (x\<lparr>pp_pc := PP_Call\<rparr>) s)"
| call: "x = cc_pipes s p \<Longrightarrow> pp_pc x = PP_Call \<Longrightarrow> c = cc_ctx s (pp_tid x) \<Longrightarrow>
    lib_handlers L (cx_op c) c (cc_mem s) = Some (op', c', m') \<Longrightarrow>
    concow_iter_exec L p s (cc_set_pipe p (x\<lparr>pp_pc := PP_Retry\<rparr>) (cc_set_ctx (pp_tid x) (c'\<lparr>cx_op := op'\<rparr>) (s\<lparr>cc_mem := m'\<rparr>)))"
| retry: "x = cc_pipes s p \<Longrightarrow> pp_pc x = PP_Retry \<Longrightarrow>
    concow_iter_exec L p s (cc_set_pipe p (x\<lparr>pp_pc := if cx_retry (cc_ctx s (pp_tid x)) then PP_Exec else PP_Advance\<rparr>) s)"

text \<open>The body of \<^verbatim>\<open>pipe_entry_iter_\<close>.\<close>

inductive concow_entry ::
  "('x ctx_scheme, 'm) index_lib \<Rightarrow> ('x ctx_scheme, 'm) concow \<Rightarrow> ('x ctx_scheme, 'm) concow \<Rightarrow> bool" for L where
  rebuild: "x = cc_pipes s 0 \<Longrightarrow> pp_pc x = PP_Work \<Longrightarrow> tid = pp_tid x \<Longrightarrow> tid mod conctrl_BUFFER_SIZE = 0 \<Longrightarrow>
    pp_checkpoint x < cc_checkpoint s \<Longrightarrow> t_past = cx_root (cc_ctx s (tid - 1)) \<Longrightarrow> lib_ver L t_past (cc_mem s) = Some ver \<Longrightarrow>
    concow_entry L s (cc_set_pipe 0 (x\<lparr>pp_checkpoint := tid, pp_pc := PP_Checkpoint ver\<rparr>)
      (cc_set_ctx tid ((cc_ctx s tid)\<lparr>cx_t_past := t_past\<rparr>) s))"
| rebuild_wait: "x = cc_pipes s 0 \<Longrightarrow> pp_pc x = PP_Checkpoint ver \<Longrightarrow> c = cc_ctx s (pp_tid x) \<Longrightarrow> cx_cno c < ver \<Longrightarrow>
    concow_entry L s (cc_set_ctx (pp_tid x) (c\<lparr>cx_cno := of_nat (cc_committed s)\<rparr>) s)"
| rebuild_call: "x = cc_pipes s 0 \<Longrightarrow> pp_pc x = PP_Checkpoint ver \<Longrightarrow> c = cc_ctx s (pp_tid x) \<Longrightarrow> \<not> cx_cno c < ver \<Longrightarrow>
    lib_checkpoint L c (cc_mem s) = Some (c', m') \<Longrightarrow>
    concow_entry L s (cc_set_pipe 0 (x\<lparr>pp_pc := PP_Advance\<rparr>) (cc_set_ctx (pp_tid x) c' (s\<lparr>cc_mem := m'\<rparr>)))"
| keep_root: "x = cc_pipes s 0 \<Longrightarrow> pp_pc x = PP_Work \<Longrightarrow> tid = pp_tid x \<Longrightarrow> tid mod conctrl_BUFFER_SIZE = 0 \<Longrightarrow>
    \<not> pp_checkpoint x < cc_checkpoint s \<Longrightarrow>
    concow_entry L s (cc_set_pipe 0 (x\<lparr>pp_pc := PP_Advance\<rparr>)
      (cc_set_ctx tid ((cc_ctx s tid)\<lparr>cx_root := cx_root (cc_ctx s (tid - 1))\<rparr>) s))"
| init: "x = cc_pipes s 0 \<Longrightarrow> pp_pc x = PP_Work \<Longrightarrow> tid = pp_tid x \<Longrightarrow> tid mod conctrl_BUFFER_SIZE \<noteq> 0 \<Longrightarrow>
    cx_op (cc_ctx s tid) = conctrl_INIT \<Longrightarrow>
    lib_handlers L 0 ((cc_ctx s tid)\<lparr>cx_t_past := cx_root (cc_ctx s (tid - 1))\<rparr>) (cc_mem s) = Some (op', c', m') \<Longrightarrow>
    concow_entry L s (cc_set_pipe 0 (x\<lparr>pp_pc := PP_Retry\<rparr>) (cc_set_ctx tid (c'\<lparr>cx_op := op'\<rparr>) (s\<lparr>cc_mem := m'\<rparr>)))"
| bubble: "x = cc_pipes s 0 \<Longrightarrow> pp_pc x = PP_Work \<Longrightarrow> pp_tid x mod conctrl_BUFFER_SIZE \<noteq> 0 \<Longrightarrow>
    cx_op (cc_ctx s (pp_tid x)) \<noteq> conctrl_INIT \<Longrightarrow>
    concow_entry L s (cc_set_pipe 0 (x\<lparr>pp_pc := PP_Advance\<rparr>) s)"

text \<open>The bodies of \<^verbatim>\<open>pipe_inner_iter_\<close> and \<^verbatim>\<open>pipe_exit_iter_\<close>.\<close>

inductive concow_inner :: "nat \<Rightarrow> ('x ctx_scheme, 'm) concow \<Rightarrow> ('x ctx_scheme, 'm) concow \<Rightarrow> bool" for p where
  "x = cc_pipes s p \<Longrightarrow> pp_pc x = PP_Work \<Longrightarrow>
    concow_inner p s (cc_set_pipe p (x\<lparr>pp_pc := if cx_op (cc_ctx s (pp_tid x)) \<noteq> conctrl_DONE then PP_Exec else PP_Advance\<rparr>) s)"

inductive concow_exit :: "nat \<Rightarrow> ('x ctx_scheme, 'm) concow \<Rightarrow> ('x ctx_scheme, 'm) concow \<Rightarrow> bool" for n where
  pop: "x = cc_pipes s n \<Longrightarrow> pp_pc x = PP_Work \<Longrightarrow> cx_op (cc_ctx s (pp_tid x)) \<noteq> conctrl_DONE \<Longrightarrow> cc_available s = w # ws \<Longrightarrow>
    concow_exit n s (cc_set_pipe n (x\<lparr>pp_pc := PP_Assign w\<rparr>) (s\<lparr>cc_available := ws\<rparr>))"
| assign: "x = cc_pipes s n \<Longrightarrow> pp_pc x = PP_Assign w \<Longrightarrow>
    concow_exit n s (cc_set_pipe n (x\<lparr>pp_pc := PP_Iter, pp_tid := Suc (pp_tid x)\<rparr>)
      (s\<lparr>cc_worker_tid := (cc_worker_tid s)(w := Some (pp_tid x))\<rparr>))"
| complete: "x = cc_pipes s n \<Longrightarrow> pp_pc x = PP_Work \<Longrightarrow> cx_op (cc_ctx s (pp_tid x)) = conctrl_DONE \<Longrightarrow>
    concow_exit n s (cc_set_pipe n (x\<lparr>pp_pc := PP_Iter, pp_tid := Suc (pp_tid x)\<rparr>) (cc_set_stage (pp_tid x) \<infinity> s))"

section \<open>The workers\<close>

text \<open>\<^verbatim>\<open>worker_main_\<close> with \<^verbatim>\<open>worker_exec\<close>, \<^verbatim>\<open>wait_version\<close> and \<^verbatim>\<open>wait_stage\<close>.\<close>

inductive concow_worker_step ::
  "('x ctx_scheme, 'm) index_lib \<Rightarrow> nat \<Rightarrow> ('x ctx_scheme, 'm) concow \<Rightarrow> ('x ctx_scheme, 'm) concow \<Rightarrow> bool" for L w where
  poll: "x = cc_workers s w \<Longrightarrow> wk_pc x = WK_Poll \<Longrightarrow> cc_worker_tid s w = Some tid \<Longrightarrow> tid \<noteq> wk_last x \<Longrightarrow>
    concow_worker_step L w s (cc_set_worker w (x\<lparr>wk_tid := tid, wk_stage := 1, wk_pc := WK_Loop\<rparr>) s)"
| quit: "x = cc_workers s w \<Longrightarrow> wk_pc x = WK_Poll \<Longrightarrow> cc_worker_tid s w = None \<Longrightarrow>
    concow_worker_step L w s (cc_set_worker w (x\<lparr>wk_pc := WK_Done\<rparr>) s)"
| loop: "x = cc_workers s w \<Longrightarrow> wk_pc x = WK_Loop \<Longrightarrow>
    concow_worker_step L w s (cc_set_worker w (x\<lparr>wk_pc := if cx_op (cc_ctx s (wk_tid x)) \<noteq> conctrl_DONE then WK_Exec else WK_Finish\<rparr>) s)"
| exec: "x = cc_workers s w \<Longrightarrow> wk_pc x = WK_Exec \<Longrightarrow> c = cc_ctx s (wk_tid x) \<Longrightarrow> lib_ver L (cx_t_past c) (cc_mem s) = Some ver \<Longrightarrow>
    concow_worker_step L w s (cc_set_worker w (x\<lparr>wk_pc := if cx_wait_subtree c then WK_Version ver
      else WK_Stage ver (enat (wk_stage x + of_bool (cx_wait_child c)))\<rparr>) s)"
| version: "x = cc_workers s w \<Longrightarrow> wk_pc x = WK_Version ver \<Longrightarrow> c = cc_ctx s (wk_tid x) \<Longrightarrow> cx_cno c < ver \<Longrightarrow>
    concow_worker_step L w s (cc_set_ctx (wk_tid x) (c\<lparr>cx_cno := of_nat (cc_committed s)\<rparr>) s)"
| version_end: "x = cc_workers s w \<Longrightarrow> wk_pc x = WK_Version ver \<Longrightarrow> \<not> cx_cno (cc_ctx s (wk_tid x)) < ver \<Longrightarrow>
    concow_worker_step L w s (cc_set_worker w (x\<lparr>wk_pc := WK_Call\<rparr>) s)"
| stage: "x = cc_workers s w \<Longrightarrow> wk_pc x = WK_Stage ver stage \<Longrightarrow> cx_cno (cc_ctx s (wk_tid x)) < ver \<Longrightarrow>
    concow_worker_step L w s (cc_set_worker w (x\<lparr>wk_pc := if cc_stage s (unat ver) \<ge> stage then WK_Call else WK_Committed ver stage\<rparr>) s)"
| committed: "x = cc_workers s w \<Longrightarrow> wk_pc x = WK_Committed ver stage \<Longrightarrow>
    concow_worker_step L w s (cc_set_worker w (x\<lparr>wk_pc := WK_Stage ver stage\<rparr>)
      (cc_set_ctx (wk_tid x) ((cc_ctx s (wk_tid x))\<lparr>cx_cno := of_nat (cc_committed s)\<rparr>) s))"
| stage_end: "x = cc_workers s w \<Longrightarrow> wk_pc x = WK_Stage ver stage \<Longrightarrow> \<not> cx_cno (cc_ctx s (wk_tid x)) < ver \<Longrightarrow>
    concow_worker_step L w s (cc_set_worker w (x\<lparr>wk_pc := WK_Call\<rparr>) s)"
| call: "x = cc_workers s w \<Longrightarrow> wk_pc x = WK_Call \<Longrightarrow> c = cc_ctx s (wk_tid x) \<Longrightarrow>
    lib_handlers L (cx_op c) c (cc_mem s) = Some (op', c', m') \<Longrightarrow>
    concow_worker_step L w s (cc_set_worker w (x\<lparr>wk_pc := WK_Retry\<rparr>) (cc_set_ctx (wk_tid x) (c'\<lparr>cx_op := op'\<rparr>) (s\<lparr>cc_mem := m'\<rparr>)))"
| retry: "x = cc_workers s w \<Longrightarrow> wk_pc x = WK_Retry \<Longrightarrow> cx_retry (cc_ctx s (wk_tid x)) \<Longrightarrow>
    concow_worker_step L w s (cc_set_worker w (x\<lparr>wk_pc := WK_Exec\<rparr>) s)"
| level: "x = cc_workers s w \<Longrightarrow> wk_pc x = WK_Retry \<Longrightarrow> \<not> cx_retry (cc_ctx s (wk_tid x)) \<Longrightarrow>
    concow_worker_step L w s (cc_set_worker w (x\<lparr>wk_stage := Suc (wk_stage x), wk_pc := WK_Loop\<rparr>)
      (cc_set_stage (unat (cx_sno (cc_ctx s (wk_tid x)))) (enat (wk_stage x)) s))"
| finish: "x = cc_workers s w \<Longrightarrow> wk_pc x = WK_Finish \<Longrightarrow>
    concow_worker_step L w s (cc_set_worker w (x\<lparr>wk_last := wk_tid x, wk_pc := WK_Push\<rparr>)
      (cc_set_stage (unat (cx_sno (cc_ctx s (wk_tid x)))) \<infinity> s))"
| push: "x = cc_workers s w \<Longrightarrow> wk_pc x = WK_Push \<Longrightarrow>
    concow_worker_step L w s (cc_set_worker w (x\<lparr>wk_pc := WK_Poll\<rparr>) (s\<lparr>cc_available := cc_available s @ [w]\<rparr>))"

section \<open>The whole\<close>

text \<open>
  With \<^term>\<open>n\<close> pipes besides the exit and \<^term>\<open>W\<close> workers. The destructor may run once no client is
  in a call; it raises the stop flag, waits for monitor and pipes, and ends the workers.
\<close>

inductive concow_step ::
  "('x ctx_scheme, 'm) index_lib \<Rightarrow> nat \<Rightarrow> nat \<Rightarrow> ('x ctx_scheme, 'm) concow \<Rightarrow> ('x ctx_scheme, 'm) concow \<Rightarrow> bool" for L n W where
  client: "concow_client_step s s' \<Longrightarrow> concow_step L n W s s'"
| monitor: "concow_monitor_step s s' \<Longrightarrow> concow_step L n W s s'"
| pipe_loop: "p \<le> n \<Longrightarrow> concow_pipe_loop n p s s' \<Longrightarrow> concow_step L n W s s'"
| iter_exec: "p < n \<Longrightarrow> concow_iter_exec L p s s' \<Longrightarrow> concow_step L n W s s'"
| entry: "concow_entry L s s' \<Longrightarrow> concow_step L n W s s'"
| inner: "0 < p \<Longrightarrow> p < n \<Longrightarrow> concow_inner p s s' \<Longrightarrow> concow_step L n W s s'"
| exit: "concow_exit n s s' \<Longrightarrow> concow_step L n W s s'"
| worker: "w < W \<Longrightarrow> concow_worker_step L w s s' \<Longrightarrow> concow_step L n W s s'"
| stop: "\<forall>i. cc_clients s i = CC_Idle \<Longrightarrow> concow_step L n W s (s\<lparr>cc_stop := True\<rparr>)"
| quit: "cc_stop s \<Longrightarrow> mo_pc s = MO_Done \<Longrightarrow> \<forall>p\<le>n. pp_pc (cc_pipes s p) = PP_Done \<Longrightarrow> w < W \<Longrightarrow>
    concow_step L n W s (s\<lparr>cc_worker_tid := (cc_worker_tid s)(w := None)\<rparr>)"

text \<open>The constructor.\<close>

definition concow_init :: "nat \<Rightarrow> 'x ctx_scheme \<Rightarrow> addr \<Rightarrow> 'm \<Rightarrow> ('x ctx_scheme, 'm) concow" where
  "concow_init W zero t_init m =
     \<lparr>cc_ctxs = (\<lambda>_. zero\<lparr>cx_op := conctrl_DONE\<rparr>)(0 := zero\<lparr>cx_op := conctrl_DONE, cx_sno := 0, cx_root := t_init\<rparr>),
      cc_stages = (\<lambda>_. \<infinity>), cc_mem = m, cc_root = t_init, cc_submitted = 0, cc_committed = 0, cc_checkpoint = 0,
      cc_stop = False, cc_available = [0..<W], cc_pace = (\<lambda>_. 0), cc_worker_tid = (\<lambda>_. Some 0),
      mo_pc = MO_Poll, mo_stop = False, mo_submitted = 0, mo_inited = 0, mo_committed = 0, mo_next = 0,
      cc_pipes = (\<lambda>_. \<lparr>pp_pc = PP_Top, pp_tid = 1, pp_last = 0, pp_epoch = 0, pp_final = False, pp_cache = 0, pp_checkpoint = 0\<rparr>),
      cc_workers = (\<lambda>_. \<lparr>wk_pc = WK_Poll, wk_tid = 0, wk_last = 0, wk_stage = 0\<rparr>),
      cc_clients = (\<lambda>_. CC_Idle), cc_hist = []\<rparr>"

definition concow_query :: "(addr \<Rightarrow> 'm \<Rightarrow> 'r) \<Rightarrow> ('c, 'm) concow \<Rightarrow> 'r" where
  "concow_query f s = f (cc_root s) (cc_mem s)"

definition concow_processed :: "nat \<Rightarrow> ('c, 'm) concow \<Rightarrow> bool" where
  "concow_processed n s \<longleftrightarrow> \<not> cc_committed s < n"

inductive concow_reach ::
  "('x ctx_scheme, 'm) index_lib \<Rightarrow> nat \<Rightarrow> nat \<Rightarrow> ('x ctx_scheme, 'm) concow \<Rightarrow> ('x ctx_scheme, 'm) concow \<Rightarrow> bool" for L n W s0 where
  start: "concow_reach L n W s0 s0"
| step: "concow_reach L n W s0 s \<Longrightarrow> concow_step L n W s s' \<Longrightarrow> concow_reach L n W s0 s'"

end
