(* ===== verification/Concow_Inv.thy ===== *)
theory Concow_Inv
  imports Concow
begin

text \<open>
  The invariant of \<^verbatim>\<open>concow\<close>. A task number is ready once its client has written the request (or
  has given the number back), and stays so. Task numbers from the last committed one up to less
  than a buffer size beyond it own their contexts; this is the window. The invariant says, for the
  window, in which hands a task is: a client's, the pipeline's, a worker's, or nobody's. It needs
  of the library that handlers leave the request in a context alone.
\<close>

section \<open>What the invariant speaks of\<close>

fun cc_holds :: "cc_client \<Rightarrow> nat \<Rightarrow> key \<Rightarrow> val \<Rightarrow> bool" where
  "cc_holds CC_Idle t k v = False"
| "cc_holds (CC_Claim k' v') t k v = False"
| "cc_holds (CC_Waiting t' k' v') t k v = (t = t' \<and> k = k' \<and> v = v')"
| "cc_holds (CC_Writing j t' k' v') t k v = (t = t' \<and> k = k' \<and> v = v')"
| "cc_holds (CC_Skipping j t' k' v') t k v = (t = t' \<and> k = k' \<and> v = v')"

fun cc_writes :: "cc_client \<Rightarrow> nat \<Rightarrow> bool" where
  "cc_writes (CC_Writing j t' k' v') t = (t = t')"
| "cc_writes (CC_Skipping j t' k' v') t = (t = t')"
| "cc_writes _ t = False"

definition cc_held :: "('c, 'm) concow \<Rightarrow> nat \<Rightarrow> bool" where
  "cc_held s t \<longleftrightarrow> (\<exists>i k v. cc_holds (cc_clients s i) t k v)"

definition cc_written :: "('c, 'm) concow \<Rightarrow> nat \<Rightarrow> bool" where
  "cc_written s t \<longleftrightarrow> (\<exists>i. cc_writes (cc_clients s i) t)"

definition cc_ready :: "('c, 'm) concow \<Rightarrow> nat \<Rightarrow> bool" where
  "cc_ready s t \<longleftrightarrow> t \<le> cc_submitted s \<and> \<not> cc_held s t"

definition cc_window :: "('c, 'm) concow \<Rightarrow> nat \<Rightarrow> bool" where
  "cc_window s t \<longleftrightarrow> cc_committed s \<le> t \<and> t < cc_committed s + conctrl_BUFFER_SIZE"

text \<open>A worker has a task that is not finished; is free.\<close>

definition wk_active :: "wk_pc \<Rightarrow> bool" where
  "wk_active pc \<longleftrightarrow> pc \<noteq> WK_Poll \<and> pc \<noteq> WK_Push \<and> pc \<noteq> WK_Done"

definition cc_works :: "('c, 'm) concow \<Rightarrow> nat \<Rightarrow> nat \<Rightarrow> bool" where
  "cc_works s w t \<longleftrightarrow> (wk_pc (cc_workers s w) = WK_Poll \<and> cc_worker_tid s w = Some t \<and> t \<noteq> wk_last (cc_workers s w)) \<or>
     (wk_active (wk_pc (cc_workers s w)) \<and> wk_tid (cc_workers s w) = t)"

definition cc_free :: "('c, 'm) concow \<Rightarrow> nat \<Rightarrow> bool" where
  "cc_free s w \<longleftrightarrow> wk_pc (cc_workers s w) = WK_Poll \<and> cc_worker_tid s w = Some (wk_last (cc_workers s w))"

text \<open>A pipe is at a task.\<close>

definition pp_busy :: "pp_pc \<Rightarrow> bool" where
  "pp_busy pc \<longleftrightarrow> pc \<noteq> PP_Top \<and> pc \<noteq> PP_Drain \<and> pc \<noteq> PP_Iter \<and> pc \<noteq> PP_Done"

fun pp_calls :: "pp_pc \<Rightarrow> bool" where
  "pp_calls PP_Exec = True"
| "pp_calls (PP_Version v) = True"
| "pp_calls PP_Call = True"
| "pp_calls PP_Retry = True"
| "pp_calls (PP_Assign w) = True"
| "pp_calls _ = False"

text \<open>The first task the exit has not dealt with.\<close>

definition cc_exit :: "nat \<Rightarrow> ('c, 'm) concow \<Rightarrow> nat" where
  "cc_exit n s = pp_tid (cc_pipes s n)"

definition cc_request :: "('c, 'm) concow \<Rightarrow> nat \<Rightarrow> 'x ctx_scheme \<Rightarrow> bool" where
  "cc_request s t c \<longleftrightarrow> cx_sno c = of_nat t \<and> cc_hist s ! (t - 1) = Some (cx_key c, cx_val c)"

section \<open>The invariant\<close>

definition cc_clients_ok :: "('x ctx_scheme, 'm) concow \<Rightarrow> bool" where
  "cc_clients_ok s \<longleftrightarrow> length (cc_hist s) = cc_submitted s \<and>
     (cc_stop s \<longrightarrow> (\<forall>i. cc_clients s i = CC_Idle)) \<and>
     (\<forall>i t k v. cc_holds (cc_clients s i) t k v \<longrightarrow> 0 < t \<and> t \<le> cc_submitted s \<and>
        cc_hist s ! (t - 1) = (if t mod conctrl_BUFFER_SIZE = 0 then None else Some (k, v))) \<and>
     (\<forall>i j t k v k' v'. cc_holds (cc_clients s i) t k v \<longrightarrow> cc_holds (cc_clients s j) t k' v' \<longrightarrow> i = j) \<and>
     (\<forall>i t. cc_writes (cc_clients s i) t \<longrightarrow> t < cc_committed s + conctrl_BUFFER_SIZE) \<and>
     (\<forall>i j t k v. cc_clients s i = CC_Writing j t k v \<longrightarrow> t mod conctrl_BUFFER_SIZE \<noteq> 0 \<and> j \<le> 5 \<and> sq_stored j t k v (cc_ctx s t)) \<and>
     (\<forall>i j t k v. cc_clients s i = CC_Skipping j t k v \<longrightarrow> t mod conctrl_BUFFER_SIZE = 0) \<and>
     (\<forall>t. cc_ready s t \<longrightarrow> t < cc_committed s + conctrl_BUFFER_SIZE)"

definition cc_monitor_ok :: "('x ctx_scheme, 'm) concow \<Rightarrow> bool" where
  "cc_monitor_ok s \<longleftrightarrow> cc_committed s \<le> mo_committed s \<and> mo_committed s \<le> mo_inited s \<and> mo_inited s \<le> mo_submitted s \<and>
     mo_submitted s \<le> cc_submitted s \<and> (mo_pc s \<noteq> MO_Commit \<longrightarrow> mo_committed s = cc_committed s) \<and>
     (\<forall>t \<le> mo_inited s. cc_ready s t) \<and>
     (mo_pc s = MO_Init \<or> mo_pc s = MO_Advance \<longrightarrow> mo_inited s \<le> mo_next s \<and> mo_next s \<le> mo_submitted s \<and>
        (\<forall>t \<le> mo_next s. cc_ready s t)) \<and>
     (mo_pc s = MO_Collect \<or> mo_pc s = MO_Flag \<or> mo_pc s = MO_Publish \<longrightarrow> mo_committed s \<le> mo_next s \<and> mo_next s \<le> mo_inited s \<and>
        (\<forall>t. cc_committed s < t \<longrightarrow> t \<le> mo_next s \<longrightarrow> cc_stage s t = \<infinity>)) \<and>
     (mo_pc s = MO_Commit \<longrightarrow> (\<forall>t. cc_committed s < t \<longrightarrow> t \<le> mo_committed s \<longrightarrow> cc_stage s t = \<infinity>)) \<and>
     (mo_pc s \<noteq> MO_Done \<longrightarrow> cc_pace s 0 = mo_inited s) \<and>
     (mo_pc s = MO_Done \<longrightarrow> cc_stop s \<and> cc_committed s = cc_submitted s \<and> mo_inited s \<le> cc_pace s 0 \<and>
        cc_pace s 0 \<le> mo_inited s + 2 * concow_BATCH_SIZE) \<and>
     (mo_stop s \<longrightarrow> cc_stop s) \<and> (mo_stop s \<longrightarrow> mo_pc s \<noteq> MO_Load \<longrightarrow> mo_submitted s = cc_submitted s)"

definition cc_slots_ok :: "nat \<Rightarrow> nat \<Rightarrow> ('x ctx_scheme, 'm) concow \<Rightarrow> bool" where
  "cc_slots_ok n W s \<longleftrightarrow> cx_op (cc_ctxs s 0) = conctrl_DONE \<and>
     cc_stage s (cc_committed s) = \<infinity> \<and> cx_op (cc_ctx s (cc_committed s)) = conctrl_DONE \<and>
     (\<forall>t. cc_window s t \<longrightarrow> cc_committed s < t \<longrightarrow> cc_ready s t \<longrightarrow> cc_exit n s \<le> t \<longrightarrow> cc_stage s t = 0) \<and>
     (\<forall>t. cc_window s t \<longrightarrow> cc_committed s < t \<longrightarrow> \<not> cc_ready s t \<longrightarrow> cc_stage s t = \<infinity> \<and> (\<not> cc_written s t \<longrightarrow> cx_op (cc_ctx s t) = conctrl_DONE)) \<and>
     (\<forall>t. cc_committed s < t \<longrightarrow> t < cc_exit n s \<longrightarrow> cc_ready s t \<longrightarrow>
        (if cc_stage s t = \<infinity> then cx_op (cc_ctx s t) = conctrl_DONE else \<exists>w<W. cc_works s w t)) \<and>
     (\<forall>t. cc_window s t \<longrightarrow> 0 < t \<longrightarrow> cc_ready s t \<longrightarrow> t mod conctrl_BUFFER_SIZE \<noteq> 0 \<longrightarrow> cc_request s t (cc_ctx s t))"

definition cc_workers_ok :: "nat \<Rightarrow> nat \<Rightarrow> ('x ctx_scheme, 'm) concow \<Rightarrow> bool" where
  "cc_workers_ok n W s \<longleftrightarrow>
     (\<forall>w t. cc_works s w t \<longrightarrow> w < W \<and> cc_committed s < t \<and> t < cc_exit n s \<and> cc_ready s t \<and> cc_stage s t \<noteq> \<infinity> \<and> t mod conctrl_BUFFER_SIZE \<noteq> 0) \<and>
     (\<forall>w w' t. cc_works s w t \<longrightarrow> cc_works s w' t \<longrightarrow> w = w') \<and>
     (\<forall>w. wk_pc (cc_workers s w) = WK_Finish \<longrightarrow> cx_op (cc_ctx s (wk_tid (cc_workers s w))) = conctrl_DONE) \<and>
     (\<forall>w. wk_active (wk_pc (cc_workers s w)) \<longrightarrow> cc_worker_tid s w = Some (wk_tid (cc_workers s w)) \<or> cc_worker_tid s w = None) \<and>
     (\<forall>w. wk_pc (cc_workers s w) = WK_Push \<longrightarrow> cc_worker_tid s w = Some (wk_last (cc_workers s w)) \<or> cc_worker_tid s w = None) \<and>
     (pp_pc (cc_pipes s n) \<noteq> PP_Done \<longrightarrow>
        distinct (cc_available s) \<and> (\<forall>w \<in> set (cc_available s). w < W \<and> cc_free s w) \<and>
        (\<forall>w. pp_pc (cc_pipes s n) = PP_Assign w \<longrightarrow> w < W \<and> cc_free s w \<and> w \<notin> set (cc_available s)) \<and>
        (\<forall>w. cc_worker_tid s w \<noteq> None) \<and>
        (\<forall>w. wk_last (cc_workers s w) < cc_exit n s))"

definition cc_pipe_ok :: "(nat \<Rightarrow> bool) \<Rightarrow> nat \<Rightarrow> bool \<Rightarrow> pipe_context \<Rightarrow> bool" where
  "cc_pipe_ok ready pace is_exit x \<longleftrightarrow> pp_tid x \<le> Suc pace \<and> pp_cache x \<le> pace \<and>
     (pp_busy (pp_pc x) \<longrightarrow> pp_tid x \<le> pp_cache x \<and> pp_tid x \<le> pp_last x) \<and>
     (if pp_pc x = PP_Top \<or> pp_pc x = PP_Drain then \<not> pp_final x \<and> pp_tid x = Suc (pp_epoch x * concow_BATCH_SIZE)
      else \<not> pp_final x \<longrightarrow> pp_last x = Suc (pp_epoch x) * concow_BATCH_SIZE \<and> pp_tid x \<le> Suc (pp_last x)) \<and>
     (pp_calls (pp_pc x) \<longrightarrow> ready (pp_tid x) \<and> pp_tid x mod conctrl_BUFFER_SIZE \<noteq> 0) \<and>
     (\<forall>v. pp_pc x = PP_Checkpoint v \<longrightarrow> pp_tid x mod conctrl_BUFFER_SIZE = 0) \<and>
     (if is_exit then pp_busy (pp_pc x) \<longrightarrow> pp_pc x = PP_Work \<or> (\<exists>w. pp_pc x = PP_Assign w)
      else \<forall>w. pp_pc x \<noteq> PP_Assign w)"

definition cc_pipes_ok :: "nat \<Rightarrow> ('x ctx_scheme, 'm) concow \<Rightarrow> bool" where
  "cc_pipes_ok n s \<longleftrightarrow> cc_committed s < cc_exit n s \<and>
     (\<forall>p<n. Suc (cc_pace s (Suc p)) = pp_tid (cc_pipes s p)) \<and>
     (\<forall>p\<le>n. cc_pipe_ok (cc_ready s) (cc_pace s p) (p = n) (cc_pipes s p))"

definition cc_inv :: "nat \<Rightarrow> nat \<Rightarrow> ('x ctx_scheme, 'm) concow \<Rightarrow> bool" where
  "cc_inv n W s \<longleftrightarrow> cc_clients_ok s \<and> cc_monitor_ok s \<and> cc_slots_ok n W s \<and> cc_workers_ok n W s \<and> cc_pipes_ok n s"

text \<open>What is asked of the library.\<close>

definition lib_keeps_requests :: "('x ctx_scheme, 'm) index_lib \<Rightarrow> bool" where
  "lib_keeps_requests L \<longleftrightarrow>
     (\<forall>op' c m op'' c' m'. lib_handlers L op' c m = Some (op'', c', m') \<longrightarrow>
        cx_sno c' = cx_sno c \<and> cx_key c' = cx_key c \<and> cx_val c' = cx_val c) \<and>
     (\<forall>c m c' m'. lib_checkpoint L c m = Some (c', m') \<longrightarrow> cx_op c' = cx_op c)"

section \<open>Rings\<close>

lemma buffer_pos: "0 < conctrl_BUFFER_SIZE"
  by (simp add: conctrl_BUFFER_SIZE_def)

lemma window_slots:
  assumes "c \<le> t" "t < c + conctrl_BUFFER_SIZE" "c \<le> t'" "t' < c + conctrl_BUFFER_SIZE"
  shows "t mod conctrl_BUFFER_SIZE = t' mod conctrl_BUFFER_SIZE \<longleftrightarrow> t = t'"
proof
  have *: "a = b" if "a mod conctrl_BUFFER_SIZE = b mod conctrl_BUFFER_SIZE" "c \<le> a" "a < c + conctrl_BUFFER_SIZE" "c \<le> b"
    "b < c + conctrl_BUFFER_SIZE" "a \<le> b" for a b
  proof -
    from that(1,6) have "conctrl_BUFFER_SIZE dvd b - a" by (metis mod_eq_dvd_iff_nat)
    moreover have "b - a < conctrl_BUFFER_SIZE" using that by simp
    ultimately show ?thesis using that(6) by (metis nat_dvd_not_less zero_less_diff le_neq_implies_less less_irrefl)
  qed
  assume "t mod conctrl_BUFFER_SIZE = t' mod conctrl_BUFFER_SIZE"
  then show "t = t'" using *[of t t'] *[of t' t] assms by (metis nat_le_linear)
qed simp

lemma window_mod: "cc_window s t \<Longrightarrow> cc_window s t' \<Longrightarrow> t mod conctrl_BUFFER_SIZE = t' mod conctrl_BUFFER_SIZE \<longleftrightarrow> t = t'"
  unfolding cc_window_def by (rule window_slots) auto

lemmas cc_updates = cc_set_ctx_def cc_set_stage_def cc_set_client_def cc_set_pipe_def cc_set_worker_def

end
