(* ===== verification/Concow_Safe.thy ===== *)
theory Concow_Safe
  imports Concow_Inv
begin

text \<open>Every step of \<^verbatim>\<open>concow\<close> keeps the invariant.\<close>

text \<open>The fields each part of the invariant speaks of; the others may change.\<close>

lemma cc_clients_ok_cong:
  assumes "cc_hist s' = cc_hist s" "cc_submitted s' = cc_submitted s" "cc_stop s' = cc_stop s" "cc_clients s' = cc_clients s" "cc_committed s' = cc_committed s" "cc_ctxs s' = cc_ctxs s"
  shows "cc_clients_ok s' = cc_clients_ok s"
  by (simp only: cc_clients_ok_def cc_ready_def cc_held_def cc_ctx_def assms)

lemma cc_clients_frame:
  "cc_clients_ok (s\<lparr>cc_stages := x0\<rparr>) = cc_clients_ok s"
  "cc_clients_ok (s\<lparr>cc_mem := x1\<rparr>) = cc_clients_ok s"
  "cc_clients_ok (s\<lparr>cc_root := x2\<rparr>) = cc_clients_ok s"
  "cc_clients_ok (s\<lparr>cc_checkpoint := x3\<rparr>) = cc_clients_ok s"
  "cc_clients_ok (s\<lparr>cc_available := x4\<rparr>) = cc_clients_ok s"
  "cc_clients_ok (s\<lparr>cc_pace := x5\<rparr>) = cc_clients_ok s"
  "cc_clients_ok (s\<lparr>cc_worker_tid := x6\<rparr>) = cc_clients_ok s"
  "cc_clients_ok (s\<lparr>mo_pc := x7\<rparr>) = cc_clients_ok s"
  "cc_clients_ok (s\<lparr>mo_stop := x8\<rparr>) = cc_clients_ok s"
  "cc_clients_ok (s\<lparr>mo_submitted := x9\<rparr>) = cc_clients_ok s"
  "cc_clients_ok (s\<lparr>mo_inited := x10\<rparr>) = cc_clients_ok s"
  "cc_clients_ok (s\<lparr>mo_committed := x11\<rparr>) = cc_clients_ok s"
  "cc_clients_ok (s\<lparr>mo_next := x12\<rparr>) = cc_clients_ok s"
  "cc_clients_ok (s\<lparr>cc_pipes := x13\<rparr>) = cc_clients_ok s"
  "cc_clients_ok (s\<lparr>cc_workers := x14\<rparr>) = cc_clients_ok s"
  by (rule cc_clients_ok_cong; simp)+

lemma cc_monitor_ok_cong:
  assumes "cc_committed s' = cc_committed s" "mo_committed s' = mo_committed s" "mo_inited s' = mo_inited s" "mo_submitted s' = mo_submitted s" "mo_next s' = mo_next s" "mo_pc s' = mo_pc s" "mo_stop s' = mo_stop s" "cc_submitted s' = cc_submitted s" "cc_clients s' = cc_clients s" "cc_stages s' = cc_stages s" "cc_pace s' 0 = cc_pace s 0" "cc_stop s' = cc_stop s"
  shows "cc_monitor_ok s' = cc_monitor_ok s"
  by (simp only: cc_monitor_ok_def cc_ready_def cc_held_def cc_stage_def assms)

lemma cc_monitor_frame:
  "cc_monitor_ok (s\<lparr>cc_ctxs := x0\<rparr>) = cc_monitor_ok s"
  "cc_monitor_ok (s\<lparr>cc_mem := x1\<rparr>) = cc_monitor_ok s"
  "cc_monitor_ok (s\<lparr>cc_root := x2\<rparr>) = cc_monitor_ok s"
  "cc_monitor_ok (s\<lparr>cc_checkpoint := x3\<rparr>) = cc_monitor_ok s"
  "cc_monitor_ok (s\<lparr>cc_available := x4\<rparr>) = cc_monitor_ok s"
  "cc_monitor_ok (s\<lparr>cc_worker_tid := x5\<rparr>) = cc_monitor_ok s"
  "cc_monitor_ok (s\<lparr>cc_pipes := x6\<rparr>) = cc_monitor_ok s"
  "cc_monitor_ok (s\<lparr>cc_workers := x7\<rparr>) = cc_monitor_ok s"
  "cc_monitor_ok (s\<lparr>cc_hist := x8\<rparr>) = cc_monitor_ok s"
  by (rule cc_monitor_ok_cong; simp)+

lemma cc_slots_ok_cong:
  assumes "cc_ctxs s' = cc_ctxs s" "cc_stages s' = cc_stages s" "cc_committed s' = cc_committed s" "cc_submitted s' = cc_submitted s" "cc_clients s' = cc_clients s" "cc_pipes s' = cc_pipes s" "cc_workers s' = cc_workers s" "cc_worker_tid s' = cc_worker_tid s" "cc_hist s' = cc_hist s"
  shows "cc_slots_ok n W s' = cc_slots_ok n W s"
  by (simp only: cc_slots_ok_def cc_ready_def cc_held_def cc_written_def cc_window_def cc_ctx_def cc_stage_def cc_works_def cc_exit_def cc_request_def assms)

lemma cc_slots_frame:
  "cc_slots_ok n W (s\<lparr>cc_mem := x0\<rparr>) = cc_slots_ok n W s"
  "cc_slots_ok n W (s\<lparr>cc_root := x1\<rparr>) = cc_slots_ok n W s"
  "cc_slots_ok n W (s\<lparr>cc_checkpoint := x2\<rparr>) = cc_slots_ok n W s"
  "cc_slots_ok n W (s\<lparr>cc_stop := x3\<rparr>) = cc_slots_ok n W s"
  "cc_slots_ok n W (s\<lparr>cc_available := x4\<rparr>) = cc_slots_ok n W s"
  "cc_slots_ok n W (s\<lparr>cc_pace := x5\<rparr>) = cc_slots_ok n W s"
  "cc_slots_ok n W (s\<lparr>mo_pc := x6\<rparr>) = cc_slots_ok n W s"
  "cc_slots_ok n W (s\<lparr>mo_stop := x7\<rparr>) = cc_slots_ok n W s"
  "cc_slots_ok n W (s\<lparr>mo_submitted := x8\<rparr>) = cc_slots_ok n W s"
  "cc_slots_ok n W (s\<lparr>mo_inited := x9\<rparr>) = cc_slots_ok n W s"
  "cc_slots_ok n W (s\<lparr>mo_committed := x10\<rparr>) = cc_slots_ok n W s"
  "cc_slots_ok n W (s\<lparr>mo_next := x11\<rparr>) = cc_slots_ok n W s"
  by (rule cc_slots_ok_cong; simp)+

lemma cc_workers_ok_cong:
  assumes "cc_workers s' = cc_workers s" "cc_worker_tid s' = cc_worker_tid s" "cc_committed s' = cc_committed s" "cc_submitted s' = cc_submitted s" "cc_clients s' = cc_clients s" "cc_pipes s' = cc_pipes s" "cc_stages s' = cc_stages s" "cc_ctxs s' = cc_ctxs s" "cc_available s' = cc_available s"
  shows "cc_workers_ok n W s' = cc_workers_ok n W s"
  by (simp only: cc_workers_ok_def cc_ready_def cc_held_def cc_ctx_def cc_stage_def cc_works_def cc_free_def cc_exit_def assms)

lemma cc_workers_frame:
  "cc_workers_ok n W (s\<lparr>cc_mem := x0\<rparr>) = cc_workers_ok n W s"
  "cc_workers_ok n W (s\<lparr>cc_root := x1\<rparr>) = cc_workers_ok n W s"
  "cc_workers_ok n W (s\<lparr>cc_checkpoint := x2\<rparr>) = cc_workers_ok n W s"
  "cc_workers_ok n W (s\<lparr>cc_stop := x3\<rparr>) = cc_workers_ok n W s"
  "cc_workers_ok n W (s\<lparr>cc_pace := x4\<rparr>) = cc_workers_ok n W s"
  "cc_workers_ok n W (s\<lparr>mo_pc := x5\<rparr>) = cc_workers_ok n W s"
  "cc_workers_ok n W (s\<lparr>mo_stop := x6\<rparr>) = cc_workers_ok n W s"
  "cc_workers_ok n W (s\<lparr>mo_submitted := x7\<rparr>) = cc_workers_ok n W s"
  "cc_workers_ok n W (s\<lparr>mo_inited := x8\<rparr>) = cc_workers_ok n W s"
  "cc_workers_ok n W (s\<lparr>mo_committed := x9\<rparr>) = cc_workers_ok n W s"
  "cc_workers_ok n W (s\<lparr>mo_next := x10\<rparr>) = cc_workers_ok n W s"
  "cc_workers_ok n W (s\<lparr>cc_hist := x11\<rparr>) = cc_workers_ok n W s"
  by (rule cc_workers_ok_cong; simp)+

lemma cc_pipes_ok_cong:
  assumes "cc_committed s' = cc_committed s" "cc_pipes s' = cc_pipes s" "cc_pace s' = cc_pace s" "cc_submitted s' = cc_submitted s" "cc_clients s' = cc_clients s"
  shows "cc_pipes_ok n s' = cc_pipes_ok n s"
  by (simp only: cc_pipes_ok_def cc_ready_def [abs_def] cc_held_def cc_exit_def assms)

lemma cc_pipes_frame:
  "cc_pipes_ok n (s\<lparr>cc_ctxs := x0\<rparr>) = cc_pipes_ok n s"
  "cc_pipes_ok n (s\<lparr>cc_stages := x1\<rparr>) = cc_pipes_ok n s"
  "cc_pipes_ok n (s\<lparr>cc_mem := x2\<rparr>) = cc_pipes_ok n s"
  "cc_pipes_ok n (s\<lparr>cc_root := x3\<rparr>) = cc_pipes_ok n s"
  "cc_pipes_ok n (s\<lparr>cc_checkpoint := x4\<rparr>) = cc_pipes_ok n s"
  "cc_pipes_ok n (s\<lparr>cc_stop := x5\<rparr>) = cc_pipes_ok n s"
  "cc_pipes_ok n (s\<lparr>cc_available := x6\<rparr>) = cc_pipes_ok n s"
  "cc_pipes_ok n (s\<lparr>cc_worker_tid := x7\<rparr>) = cc_pipes_ok n s"
  "cc_pipes_ok n (s\<lparr>mo_pc := x8\<rparr>) = cc_pipes_ok n s"
  "cc_pipes_ok n (s\<lparr>mo_stop := x9\<rparr>) = cc_pipes_ok n s"
  "cc_pipes_ok n (s\<lparr>mo_submitted := x10\<rparr>) = cc_pipes_ok n s"
  "cc_pipes_ok n (s\<lparr>mo_inited := x11\<rparr>) = cc_pipes_ok n s"
  "cc_pipes_ok n (s\<lparr>mo_committed := x12\<rparr>) = cc_pipes_ok n s"
  "cc_pipes_ok n (s\<lparr>mo_next := x13\<rparr>) = cc_pipes_ok n s"
  "cc_pipes_ok n (s\<lparr>cc_workers := x14\<rparr>) = cc_pipes_ok n s"
  "cc_pipes_ok n (s\<lparr>cc_hist := x15\<rparr>) = cc_pipes_ok n s"
  by (rule cc_pipes_ok_cong; simp)+

lemmas cc_frame [simp] = cc_clients_frame cc_monitor_frame cc_slots_frame cc_workers_frame cc_pipes_frame

section \<open>Stores into a context\<close>

lemma buffer_batch: "2 * concow_BATCH_SIZE < conctrl_BUFFER_SIZE" "0 < concow_BATCH_SIZE"
  by (simp_all add: concow_BATCH_SIZE_def conctrl_BUFFER_SIZE_def)

lemma inv_ready_window: "cc_clients_ok s \<Longrightarrow> cc_ready s t \<Longrightarrow> cc_committed s \<le> t \<Longrightarrow> cc_window s t"
  by (auto simp: cc_clients_ok_def cc_window_def)

lemma holds_not_ready: "cc_holds (cc_clients s i) t k v \<Longrightarrow> \<not> cc_ready s t"
  by (auto simp: cc_ready_def cc_held_def)

lemma inv_held_window:
  assumes "cc_clients_ok s" "cc_monitor_ok s" "cc_writes (cc_clients s i) t"
  shows "cc_window s t" "cc_committed s < t" "\<not> cc_ready s t"
proof -
  from assms(3) obtain k v where h: "cc_holds (cc_clients s i) t k v" by (cases "cc_clients s i") auto
  then show "\<not> cc_ready s t" by (rule holds_not_ready)
  moreover have "t \<le> mo_inited s \<Longrightarrow> cc_ready s t" "cc_committed s \<le> mo_inited s" using assms(2) by (simp_all add: cc_monitor_ok_def)
  ultimately show "cc_committed s < t" using linorder_not_le by fastforce
  moreover have "t < cc_committed s + conctrl_BUFFER_SIZE" using assms(1,3) by (auto simp: cc_clients_ok_def)
  ultimately show "cc_window s t" by (simp add: cc_window_def)
qed

lemma works_task:
  assumes "cc_workers_ok n W s" "cc_works s w t"
  shows "w < W" "cc_committed s < t" "t < cc_exit n s" "cc_ready s t" "cc_stage s t \<noteq> \<infinity>" "t mod conctrl_BUFFER_SIZE \<noteq> 0"
  using assms unfolding cc_workers_ok_def by blast+

lemma works_unique: "cc_workers_ok n W s \<Longrightarrow> cc_works s w t \<Longrightarrow> cc_works s w' t \<Longrightarrow> w = w'"
  unfolding cc_workers_ok_def by blast

text \<open>
  A store into the context of a task in the pipeline or at a worker: it must keep the request, and
  may change the stage number of an unfinished task only.
\<close>

definition cc_may_store :: "nat \<Rightarrow> ('x ctx_scheme, 'm) concow \<Rightarrow> nat \<Rightarrow> 'x ctx_scheme \<Rightarrow> bool" where
  "cc_may_store n s t c \<longleftrightarrow>
     (if t mod conctrl_BUFFER_SIZE = 0 then cx_op c = conctrl_DONE
      else cc_ready s t \<and> cc_committed s < t \<and> cx_sno c = cx_sno (cc_ctx s t) \<and> cx_key c = cx_key (cc_ctx s t) \<and>
        cx_val c = cx_val (cc_ctx s t) \<and>
        (cx_op c = cx_op (cc_ctx s t) \<or> cc_exit n s \<le> t \<or> (\<exists>w. cc_works s w t \<and> wk_pc (cc_workers s w) \<noteq> WK_Finish)))"

lemma cc_clients_ok_store:
  assumes "cc_clients_ok s" "cc_monitor_ok s" "cc_may_store n s t c"
  shows "cc_clients_ok (cc_set_ctx t c s)"
proof -
  have "sq_stored j t' k v c"
    if w: "cc_clients s i = CC_Writing j t' k v" and eq: "t' mod conctrl_BUFFER_SIZE = t mod conctrl_BUFFER_SIZE" for i j t' k v
  proof -
    from w assms(1) have st: "t' mod conctrl_BUFFER_SIZE \<noteq> 0" by (auto simp: cc_clients_ok_def)
    with eq assms(3) have r: "cc_ready s t" "cc_committed s < t" by (auto simp: cc_may_store_def split: if_splits)
    have "cc_window s t" using inv_ready_window [OF assms(1) r(1)] r(2) by simp
    moreover have "cc_window s t'" "\<not> cc_ready s t'" using inv_held_window [OF assms(1,2), of i t'] w by simp_all
    ultimately show ?thesis using eq r(1) window_mod by blast
  qed
  with assms(1) show ?thesis
    by (simp add: cc_clients_ok_def cc_ready_def cc_held_def cc_ctx_def cc_set_ctx_def)
qed

lemma slots_ok_store:
  assumes s: "cc_clients_ok s" "cc_slots_ok n W s" and c: "cc_may_store n s t c" and w: "cc_workers_ok n W s"
  shows "cc_slots_ok n W (cc_set_ctx t c s)"
proof (cases "t mod conctrl_BUFFER_SIZE = 0")
  case True
  then have *: "cc_ctx (cc_set_ctx t c s) t' = (if t' mod conctrl_BUFFER_SIZE = 0 then c else cc_ctx s t')" for t'
    by (simp add: cc_ctx_def cc_set_ctx_def)
  have op: "cx_op c = conctrl_DONE" using c True by (simp add: cc_may_store_def)
  have o: "cx_op (cc_ctx (cc_set_ctx t c s) t') = cx_op (cc_ctx s t')" for t'
  proof (cases "t' mod conctrl_BUFFER_SIZE = 0")
    case True
    then have "cx_op (cc_ctx s t') = conctrl_DONE" using s(2) by (simp add: cc_slots_ok_def cc_ctx_def)
    with True op * show ?thesis by simp
  qed (simp add: *)
  have z: "cx_op (cc_ctxs (cc_set_ctx t c s) 0) = conctrl_DONE" using True op by (simp add: cc_set_ctx_def)
  have hist: "cc_hist (cc_set_ctx t c s) = cc_hist s" by (simp add: cc_set_ctx_def)
  have r: "cc_request (cc_set_ctx t c s) t' (cc_ctx (cc_set_ctx t c s) t') = cc_request s t' (cc_ctx s t')" if "t' mod conctrl_BUFFER_SIZE \<noteq> 0" for t'
    using that by (simp add: * cc_request_def hist)
  have u: "cc_window (cc_set_ctx t c s) = cc_window s" "cc_committed (cc_set_ctx t c s) = cc_committed s"
    "cc_ready (cc_set_ctx t c s) = cc_ready s" "cc_exit n (cc_set_ctx t c s) = cc_exit n s" "cc_stage (cc_set_ctx t c s) = cc_stage s"
    "cc_written (cc_set_ctx t c s) = cc_written s" "cc_works (cc_set_ctx t c s) = cc_works s"
    by (auto simp: fun_eq_iff cc_set_ctx_def cc_window_def cc_ready_def cc_held_def cc_exit_def cc_stage_def cc_written_def cc_works_def)
  from s(2) show ?thesis unfolding cc_slots_ok_def u o by (simp add: z r)
next
  case False
  with c have c: "cc_ready s t" "cc_committed s < t" "cx_sno c = cx_sno (cc_ctx s t)" "cx_key c = cx_key (cc_ctx s t)" "cx_val c = cx_val (cc_ctx s t)"
    "cx_op c = cx_op (cc_ctx s t) \<or> cc_exit n s \<le> t \<or> (\<exists>w. cc_works s w t \<and> wk_pc (cc_workers s w) \<noteq> WK_Finish)"
    by (auto simp: cc_may_store_def)
  have win: "cc_window s t" using inv_ready_window [OF s(1) c(1)] c(2) by simp
  have u: "cc_window (cc_set_ctx t c s) = cc_window s" "cc_committed (cc_set_ctx t c s) = cc_committed s"
    "cc_ready (cc_set_ctx t c s) = cc_ready s" "cc_exit n (cc_set_ctx t c s) = cc_exit n s" "cc_stage (cc_set_ctx t c s) = cc_stage s"
    "cc_written (cc_set_ctx t c s) = cc_written s" "cc_works (cc_set_ctx t c s) = cc_works s"
    by (auto simp: fun_eq_iff cc_set_ctx_def cc_window_def cc_ready_def cc_held_def cc_exit_def cc_stage_def cc_written_def cc_works_def)
  have *: "cc_ctx (cc_set_ctx t c s) t' = (if t' = t then c else cc_ctx s t')" if "cc_window s t'" for t'
    using window_mod [OF that win] by (simp add: cc_ctx_def cc_set_ctx_def)
  have c0: "cc_window s (cc_committed s)" by (simp add: cc_window_def buffer_pos)
  have z: "cx_op (cc_ctxs (cc_set_ctx t c s) 0) = conctrl_DONE" using False s(2) by (simp add: cc_slots_ok_def cc_set_ctx_def)
  have r: "cc_request (cc_set_ctx t c s) t' (cc_ctx (cc_set_ctx t c s) t')" if "cc_window s t'" "cc_request s t' (cc_ctx s t')" for t'
    using that by (auto simp: * cc_request_def c(3-5)) (simp_all add: cc_set_ctx_def)
  have e: "cx_op (cc_ctx (cc_set_ctx t c s) t') = conctrl_DONE"
    if t': "cc_committed s < t'" "t' < cc_exit n s" "cc_ready s t'" "cc_stage s t' = \<infinity>" for t'
  proof -
    have d: "cx_op (cc_ctx s t') = conctrl_DONE" using s(2) t' by (auto simp: cc_slots_ok_def)
    have "cc_window s t'" using inv_ready_window [OF s(1) t'(3)] t'(1) by simp
    moreover have "cx_op c = conctrl_DONE" if "t' = t"
    proof -
      have "\<not> cc_exit n s \<le> t" "\<not> cc_works s u t" for u using t' works_task(5) [OF w, of u t] that by auto
      with c(6) d that show ?thesis by metis
    qed
    ultimately show ?thesis using d by (simp add: *)
  qed
  show ?thesis unfolding cc_slots_ok_def u
  proof (intro conjI allI impI)
    fix t' assume t': "cc_committed s < t'" "t' < cc_exit n s" "cc_ready s t'"
    show "if cc_stage s t' = \<infinity> then cx_op (cc_ctx (cc_set_ctx t c s) t') = conctrl_DONE else \<exists>w<W. cc_works s w t'"
      using s(2) t' e [OF t'] by (auto simp: cc_slots_ok_def)
  next
    fix t' assume t': "cc_window s t'" "cc_committed s < t'" "\<not> cc_ready s t'"
    then have "t' \<noteq> t" using c(1) by blast
    then show "cc_stage s t' = \<infinity>" "\<not> cc_written s t' \<Longrightarrow> cx_op (cc_ctx (cc_set_ctx t c s) t') = conctrl_DONE"
      using s(2) t' by (auto simp: cc_slots_ok_def *)
  qed (use s(2) z r c(2) in \<open>auto simp: cc_slots_ok_def * [OF c0]\<close>)
qed

lemma workers_ok_store:
  assumes s: "cc_clients_ok s" "cc_workers_ok n W s" and c: "cc_may_store n s t c"
  shows "cc_workers_ok n W (cc_set_ctx t c s)"
proof -
  have u: "cc_committed (cc_set_ctx t c s) = cc_committed s" "cc_workers (cc_set_ctx t c s) = cc_workers s"
    "cc_pipes (cc_set_ctx t c s) = cc_pipes s" "cc_available (cc_set_ctx t c s) = cc_available s" "cc_worker_tid (cc_set_ctx t c s) = cc_worker_tid s"
    "cc_ready (cc_set_ctx t c s) = cc_ready s" "cc_exit n (cc_set_ctx t c s) = cc_exit n s" "cc_stage (cc_set_ctx t c s) = cc_stage s"
    "cc_free (cc_set_ctx t c s) = cc_free s" "cc_works (cc_set_ctx t c s) = cc_works s"
    by (auto simp: fun_eq_iff cc_set_ctx_def cc_window_def cc_ready_def cc_held_def cc_exit_def cc_stage_def cc_free_def cc_works_def)
  have "cx_op (cc_ctx (cc_set_ctx t c s) t') = conctrl_DONE" if w: "wk_pc (cc_workers s w) = WK_Finish" "t' = wk_tid (cc_workers s w)" for w t'
  proof -
    have d: "cx_op (cc_ctx s t') = conctrl_DONE" using w s(2) by (auto simp: cc_workers_ok_def)
    have x: "cc_works s w t'" using w by (simp add: cc_works_def wk_active_def)
    then have t': "cc_committed s < t'" "t' < cc_exit n s" "cc_ready s t'" "t' mod conctrl_BUFFER_SIZE \<noteq> 0" using s(2) by (auto simp: cc_workers_ok_def)
    have win: "cc_window s t'" using inv_ready_window [OF s(1) t'(3)] t'(1) by simp
    show ?thesis
    proof (cases "t' mod conctrl_BUFFER_SIZE = t mod conctrl_BUFFER_SIZE")
      case True
      with t'(4) c have r: "cc_ready s t" "cc_committed s < t" "cx_op c = cx_op (cc_ctx s t) \<or> cc_exit n s \<le> t \<or> (\<exists>w. cc_works s w t \<and> wk_pc (cc_workers s w) \<noteq> WK_Finish)"
        by (auto simp: cc_may_store_def split: if_splits)
      have "t' = t" using window_mod [OF win inv_ready_window [OF s(1) r(1)]] r(2) True by simp
      with r(3) x t' w(1) s(2) d have "cx_op c = conctrl_DONE" unfolding cc_workers_ok_def by (metis not_less)
      with True show ?thesis by (simp add: cc_ctx_def cc_set_ctx_def)
    next
      case False
      with d show ?thesis by (simp add: cc_ctx_def cc_set_ctx_def)
    qed
  qed
  with s(2) show ?thesis unfolding cc_workers_ok_def u by simp
qed

lemma inv_store:
  assumes "cc_inv n W s" "cc_may_store n s t c"
  shows "cc_inv n W (cc_set_ctx t c (s\<lparr>cc_mem := m\<rparr>))"
proof -
  have "cc_set_ctx t c (s\<lparr>cc_mem := m\<rparr>) = (cc_set_ctx t c s)\<lparr>cc_mem := m\<rparr>" by (simp add: cc_set_ctx_def)
  moreover have "cc_monitor_ok (cc_set_ctx t c s) = cc_monitor_ok s" "cc_pipes_ok n (cc_set_ctx t c s) = cc_pipes_ok n s"
    by (simp_all add: cc_set_ctx_def)
  ultimately show ?thesis
    using assms cc_clients_ok_store [of s n t c] slots_ok_store [of s n W t c] workers_ok_store [of s n W t c] by (simp add: cc_inv_def)
qed

section \<open>The pipeline\<close>

lemma pipe_ok: "cc_pipes_ok n s \<Longrightarrow> p \<le> n \<Longrightarrow> cc_pipe_ok (cc_ready s) (cc_pace s p) (p = n) (cc_pipes s p)"
  by (simp add: cc_pipes_ok_def)

lemma pipes_tid_pace:
  assumes "cc_pipes_ok n s" "p \<le> n"
  shows "pp_tid (cc_pipes s p) \<le> Suc (cc_pace s p)" "pp_cache (cc_pipes s p) \<le> cc_pace s p"
    "pp_busy (pp_pc (cc_pipes s p)) \<Longrightarrow> pp_tid (cc_pipes s p) \<le> pp_cache (cc_pipes s p)"
    "p < n \<Longrightarrow> Suc (cc_pace s (Suc p)) = pp_tid (cc_pipes s p)"
  using assms by (simp_all add: cc_pipes_ok_def cc_pipe_ok_def)

lemma pipes_order:
  assumes ok: "cc_pipes_ok n s" and "p \<le> q" "q \<le> n"
  shows "pp_tid (cc_pipes s q) \<le> pp_tid (cc_pipes s p)" "cc_pace s q \<le> cc_pace s p"
proof -
  from assms(2,3) have "pp_tid (cc_pipes s q) \<le> pp_tid (cc_pipes s p) \<and> cc_pace s q \<le> cc_pace s p"
  proof (induction q rule: dec_induct)
    case (step q)
    then have "Suc q \<le> n" "q < n" by simp_all
    with step pipes_tid_pace [OF ok, of q] pipes_tid_pace [OF ok, of "Suc q"] show ?case by simp
  qed simp
  then show "pp_tid (cc_pipes s q) \<le> pp_tid (cc_pipes s p)" "cc_pace s q \<le> cc_pace s p" by simp_all
qed

lemma pipe_exit:
  assumes "cc_pipes_ok n s" "p \<le> n"
  shows "cc_exit n s \<le> pp_tid (cc_pipes s p)" "cc_committed s < pp_tid (cc_pipes s p)"
proof -
  show *: "cc_exit n s \<le> pp_tid (cc_pipes s p)" using pipes_order(1) [OF assms(1,2)] by (simp add: cc_exit_def)
  have "cc_committed s < cc_exit n s" using assms(1) by (simp add: cc_pipes_ok_def)
  with * show "cc_committed s < pp_tid (cc_pipes s p)" by simp
qed

text \<open>The task a pipe is at is in the window; it is ready, or one of the bubbles at the end.\<close>

lemma pipe_task:
  assumes inv: "cc_inv n W s" and p: "p \<le> n" "pp_busy (pp_pc (cc_pipes s p))" and t: "t = pp_tid (cc_pipes s p)"
  shows "cc_committed s < t" "cc_window s t" "cc_ready s t \<or> cc_stage s t = \<infinity> \<and> cx_op (cc_ctx s t) = conctrl_DONE"
proof -
  have ok: "cc_clients_ok s" "cc_monitor_ok s" "cc_slots_ok n W s" "cc_pipes_ok n s" using inv by (simp_all add: cc_inv_def)
  show c: "cc_committed s < t" unfolding t by (rule pipe_exit(2) [OF ok(4) p(1)])
  have "t \<le> cc_pace s p" using pipes_tid_pace(2,3) [OF ok(4) p(1)] p(2) t by simp
  then have pace: "t \<le> cc_pace s 0" using pipes_order(2) [OF ok(4) _ p(1), of 0] by simp
  have "cc_window s t \<and> (cc_ready s t \<or> cc_stage s t = \<infinity> \<and> cx_op (cc_ctx s t) = conctrl_DONE)"
  proof (cases "t \<le> mo_inited s")
    case True
    then have "cc_ready s t" using ok(2) by (simp add: cc_monitor_ok_def)
    then show ?thesis using inv_ready_window [OF ok(1)] c by simp
  next
    case False
    with pace have d: "mo_pc s = MO_Done" using ok(2) by (auto simp: cc_monitor_ok_def)
    then have e: "cc_stop s" "cc_committed s = cc_submitted s" "cc_pace s 0 \<le> mo_inited s + 2 * concow_BATCH_SIZE"
      "mo_inited s \<le> cc_submitted s" using ok(2) by (simp_all add: cc_monitor_ok_def)
    have win: "cc_window s t" using c e pace buffer_batch(1) by (simp add: cc_window_def)
    have idle: "cc_clients s i = CC_Idle" for i using e(1) ok(1) by (simp add: cc_clients_ok_def)
    have "\<not> cc_ready s t" "\<not> cc_written s t" using c e(2) by (simp_all add: cc_ready_def cc_written_def idle)
    with win c ok(3) show ?thesis by (simp add: cc_slots_ok_def)
  qed
  then show "cc_window s t" "cc_ready s t \<or> cc_stage s t = \<infinity> \<and> cx_op (cc_ctx s t) = conctrl_DONE" by simp_all
qed

lemma slot_0_done: "cc_slots_ok n W s \<Longrightarrow> t mod conctrl_BUFFER_SIZE = 0 \<Longrightarrow> cx_op (cc_ctx s t) = conctrl_DONE"
  by (simp add: cc_slots_ok_def cc_ctx_def)

lemma pipe_task_not_done:
  assumes "cc_inv n W s" "p \<le> n" "pp_busy (pp_pc (cc_pipes s p))" "cx_op (cc_ctx s (pp_tid (cc_pipes s p))) \<noteq> conctrl_DONE"
  shows "cc_ready s (pp_tid (cc_pipes s p))" "pp_tid (cc_pipes s p) mod conctrl_BUFFER_SIZE \<noteq> 0"
  using pipe_task(3) [OF assms(1-3) refl] slot_0_done [of n W s] assms(1,4) by (auto simp: cc_inv_def)

lemma pipe_may_store:
  assumes inv: "cc_inv n W s" and p: "p \<le> n" "pp_calls (pp_pc (cc_pipes s p))"
    and c: "cx_sno c = cx_sno (cc_ctx s (pp_tid (cc_pipes s p)))" "cx_key c = cx_key (cc_ctx s (pp_tid (cc_pipes s p)))"
      "cx_val c = cx_val (cc_ctx s (pp_tid (cc_pipes s p)))"
  shows "cc_may_store n s (pp_tid (cc_pipes s p)) c"
proof -
  have ok: "cc_pipes_ok n s" using inv by (simp add: cc_inv_def)
  then have "cc_ready s (pp_tid (cc_pipes s p))" "pp_tid (cc_pipes s p) mod conctrl_BUFFER_SIZE \<noteq> 0"
    using p by (simp_all add: cc_pipes_ok_def cc_pipe_ok_def)
  with c pipe_exit [OF ok p(1)] show ?thesis by (simp add: cc_may_store_def)
qed

lemma set_pipe_same:
  fixes s :: "('x ctx_scheme, 'm) concow"
  shows "cc_ready (cc_set_pipe p y s) = cc_ready s" "cc_window (cc_set_pipe p y s) = cc_window s" "cc_works (cc_set_pipe p y s) = cc_works s"
    "cc_written (cc_set_pipe p y s) = cc_written s" "cc_free (cc_set_pipe p y s) = cc_free s" "cc_ctx (cc_set_pipe p y s) = cc_ctx s"
    "cc_stage (cc_set_pipe p y s) = cc_stage s" "cc_committed (cc_set_pipe p y s) = cc_committed s" "cc_ctxs (cc_set_pipe p y s) = cc_ctxs s"
    "(cc_request (cc_set_pipe p y s) :: nat \<Rightarrow> 'x ctx_scheme \<Rightarrow> bool) = cc_request s"
    "cc_workers (cc_set_pipe p y s) = cc_workers s" "cc_available (cc_set_pipe p y s) = cc_available s" "cc_worker_tid (cc_set_pipe p y s) = cc_worker_tid s"
  by (simp_all add: fun_eq_iff cc_set_pipe_def cc_ready_def cc_held_def cc_window_def cc_works_def cc_written_def cc_free_def cc_ctx_def cc_stage_def cc_request_def)

text \<open>A pipe other than the exit goes on at its task.\<close>

lemma inv_set_pipe:
  assumes inv: "cc_inv n W s" and p: "p < n" and x: "pp_busy (pp_pc (cc_pipes s p))" "pp_busy pc"
    and c: "pp_calls pc \<Longrightarrow> cc_ready s (pp_tid (cc_pipes s p)) \<and> pp_tid (cc_pipes s p) mod conctrl_BUFFER_SIZE \<noteq> 0"
    and d: "\<And>v. pc = PP_Checkpoint v \<Longrightarrow> pp_tid (cc_pipes s p) mod conctrl_BUFFER_SIZE = 0" "\<And>w. pc \<noteq> PP_Assign w"
  shows "cc_inv n W (cc_set_pipe p ((cc_pipes s p)\<lparr>pp_checkpoint := k, pp_pc := pc\<rparr>) s)" (is "cc_inv n W ?s")
proof -
  have f: "cc_clients_ok ?s = cc_clients_ok s" "cc_monitor_ok ?s = cc_monitor_ok s" by (simp_all add: cc_set_pipe_def)
  have e: "cc_exit n ?s = cc_exit n s" "cc_pipes ?s n = cc_pipes s n" using p by (simp_all add: cc_exit_def cc_set_pipe_def)
  note g = set_pipe_same [of p "(cc_pipes s p)\<lparr>pp_checkpoint := k, pp_pc := pc\<rparr>" s]
  have s: "cc_slots_ok n W ?s = cc_slots_ok n W s" by (simp only: cc_slots_ok_def e g)
  have w: "cc_workers_ok n W ?s = cc_workers_ok n W s" by (simp only: cc_workers_ok_def e g)
  have q: "cc_pipes ?s q = (if q = p then (cc_pipes s p)\<lparr>pp_checkpoint := k, pp_pc := pc\<rparr> else cc_pipes s q)" "cc_pace ?s = cc_pace s" for q
    by (simp_all add: cc_set_pipe_def)
  have "pp_pc (cc_pipes s p) \<noteq> PP_Top" "pp_pc (cc_pipes s p) \<noteq> PP_Drain" "pc \<noteq> PP_Top" "pc \<noteq> PP_Drain" using x by (auto simp: pp_busy_def)
  moreover have "cc_pipe_ok (cc_ready s) (cc_pace s p) (p = n) (cc_pipes s p)" using inv p by (intro pipe_ok) (simp_all add: cc_inv_def)
  ultimately have "cc_pipe_ok (cc_ready s) (cc_pace s p) (p = n) ((cc_pipes s p)\<lparr>pp_checkpoint := k, pp_pc := pc\<rparr>)"
    using x c d p by (auto simp: cc_pipe_ok_def)
  with inv have "cc_pipes_ok n ?s" unfolding cc_inv_def cc_pipes_ok_def e g q by auto
  with inv show ?thesis by (simp add: cc_inv_def f s w)
qed

lemma inv_pipe_pc:
  assumes "cc_inv n W s" "p < n" "x = cc_pipes s p" "pp_busy (pp_pc x)" "pp_busy pc"
    "pp_calls pc \<Longrightarrow> cc_ready s (pp_tid x) \<and> pp_tid x mod conctrl_BUFFER_SIZE \<noteq> 0"
    "\<And>v. pc \<noteq> PP_Checkpoint v" "\<And>w. pc \<noteq> PP_Assign w"
  shows "cc_inv n W (cc_set_pipe p (x\<lparr>pp_pc := pc\<rparr>) s)"
proof -
  have "x\<lparr>pp_pc := pc\<rparr> = x\<lparr>pp_checkpoint := pp_checkpoint x, pp_pc := pc\<rparr>" by simp
  with inv_set_pipe [OF assms(1,2), of pc "pp_checkpoint x"] assms show ?thesis by simp
qed

lemma set_pipe_store: "cc_set_pipe p y (cc_set_ctx t c (s\<lparr>cc_mem := m\<rparr>)) = cc_set_ctx t c ((cc_set_pipe p y s)\<lparr>cc_mem := m\<rparr>)"
  by (simp add: cc_set_pipe_def cc_set_ctx_def)

lemma may_store_pipe:
  assumes "cc_may_store n s t c" "p < n"
  shows "cc_may_store n (cc_set_pipe p y s) t c"
proof -
  have "cc_exit n (cc_set_pipe p y s) = cc_exit n s" using assms(2) by (simp add: cc_exit_def cc_set_pipe_def)
  with assms(1) show ?thesis by (simp add: cc_may_store_def set_pipe_same)
qed

lemma inv_store_pipe:
  assumes "cc_inv n W s" "p < n" "x = cc_pipes s p" "pp_busy (pp_pc x)" "pp_busy pc"
    "pp_calls pc \<Longrightarrow> cc_ready s (pp_tid x) \<and> pp_tid x mod conctrl_BUFFER_SIZE \<noteq> 0"
    "\<And>v. pc = PP_Checkpoint v \<Longrightarrow> pp_tid x mod conctrl_BUFFER_SIZE = 0" "\<And>w. pc \<noteq> PP_Assign w" "cc_may_store n s t c"
  shows "cc_inv n W (cc_set_pipe p (x\<lparr>pp_checkpoint := k, pp_pc := pc\<rparr>) (cc_set_ctx t c (s\<lparr>cc_mem := m\<rparr>)))"
  unfolding set_pipe_store assms(3)
  by (rule inv_store [OF inv_set_pipe may_store_pipe]) (use assms in auto)

lemma lib_keeps:
  assumes "lib_keeps_requests L" "lib_handlers L op' c m = Some (op'', c', m')"
  shows "cx_sno c' = cx_sno c" "cx_key c' = cx_key c" "cx_val c' = cx_val c"
  using assms unfolding lib_keeps_requests_def by blast+

lemma inv_iter_exec:
  assumes inv: "cc_inv n W s" and L: "lib_keeps_requests L" and p: "p < n" and step: "concow_iter_exec L p s s'"
  shows "cc_inv n W s'"
proof -
  have calls: "cc_ready s (pp_tid (cc_pipes s p)) \<and> pp_tid (cc_pipes s p) mod conctrl_BUFFER_SIZE \<noteq> 0"
    if "pp_calls (pp_pc (cc_pipes s p))"
    using pipe_ok [of n s p] inv p that by (simp add: cc_inv_def cc_pipe_ok_def)
  note pc = inv_pipe_pc [OF inv p]
  from step show ?thesis
  proof cases
    case (child x)
    then show ?thesis using calls by (auto intro!: pc simp: pp_busy_def)
  next
    case (subtree x c ver)
    then show ?thesis using calls by (auto intro!: pc simp: pp_busy_def)
  next
    case (go x c)
    then show ?thesis using calls by (auto intro!: pc simp: pp_busy_def)
  next
    case (version_end x ver)
    then show ?thesis using calls by (auto intro!: pc simp: pp_busy_def)
  next
    case (retry x)
    then show ?thesis using calls by (auto intro!: pc simp: pp_busy_def)
  next
    case (version x ver c)
    have "cc_may_store n s (pp_tid (cc_pipes s p)) (c\<lparr>cx_cno := of_nat (cc_committed s)\<rparr>)"
      by (rule pipe_may_store [OF inv]) (use p version in auto)
    from inv_store [OF inv this, of "cc_mem s"] version show ?thesis by simp
  next
    case (call x c op' c' m')
    have "cc_may_store n s (pp_tid (cc_pipes s p)) (c'\<lparr>cx_op := op'\<rparr>)"
      by (rule pipe_may_store [OF inv]) (use p call lib_keeps [OF L call(5)] in auto)
    from inv_store_pipe [OF inv p call(2) _ _ _ _ _ this [folded call(2)], of PP_Retry "pp_checkpoint x" m'] calls call
    show ?thesis by (auto simp: pp_busy_def)
  qed
qed

lemma inv_inner:
  assumes inv: "cc_inv n W s" and p: "p < n" and step: "concow_inner p s s'"
  shows "cc_inv n W s'"
  using step
proof cases
  case (1 x)
  then have b: "pp_busy (pp_pc (cc_pipes s p))" by (simp add: pp_busy_def)
  show ?thesis
    unfolding 1(1) by (rule inv_pipe_pc [OF inv p 1(2)]) (use 1 b pipe_task_not_done [OF inv _ b] p in \<open>auto simp: pp_busy_def split: if_splits\<close>)
qed

lemma inv_entry:
  assumes inv: "cc_inv n W s" and L: "lib_keeps_requests L" and n: "0 < n" and step: "concow_entry L s s'"
  shows "cc_inv n W s'"
  using step
proof cases
  case (rebuild x tid t_past ver)
  have z: "cx_op (cc_ctx s tid) = conctrl_DONE" using inv rebuild(5) by (intro slot_0_done) (auto simp: cc_inv_def)
  have "cc_may_store n s tid ((cc_ctx s tid)\<lparr>cx_t_past := t_past\<rparr>)" using rebuild(5) z by (simp add: cc_may_store_def)
  from inv_store_pipe [OF inv n rebuild(2) _ _ _ _ _ this, of "PP_Checkpoint ver" tid "cc_mem s"] rebuild show ?thesis by (auto simp: pp_busy_def)
next
  case (rebuild_wait x ver c)
  have t: "pp_tid x mod conctrl_BUFFER_SIZE = 0" using pipe_ok [of n s 0] inv rebuild_wait by (simp add: cc_inv_def cc_pipe_ok_def)
  then have "cx_op c = conctrl_DONE" using inv rebuild_wait by (auto simp: cc_inv_def intro!: slot_0_done)
  then have "cc_may_store n s (pp_tid x) (c\<lparr>cx_cno := of_nat (cc_committed s)\<rparr>)" using t by (simp add: cc_may_store_def)
  from inv_store [OF inv this, of "cc_mem s"] rebuild_wait show ?thesis by simp
next
  case (rebuild_call x ver c c' m')
  have t: "pp_tid x mod conctrl_BUFFER_SIZE = 0" using pipe_ok [of n s 0] inv rebuild_call by (simp add: cc_inv_def cc_pipe_ok_def)
  have "cx_op c = conctrl_DONE" using inv rebuild_call t by (auto simp: cc_inv_def intro!: slot_0_done)
  moreover have "cx_op c' = cx_op c" using L rebuild_call(6) unfolding lib_keeps_requests_def by blast
  ultimately have "cc_may_store n s (pp_tid x) c'" using t by (simp add: cc_may_store_def)
  from inv_store_pipe [OF inv n rebuild_call(2) _ _ _ _ _ this, of PP_Advance "pp_checkpoint x" m'] rebuild_call show ?thesis by (auto simp: pp_busy_def)
next
  case (keep_root x tid)
  have z: "cx_op (cc_ctx s tid) = conctrl_DONE" using inv keep_root(5) by (intro slot_0_done) (auto simp: cc_inv_def)
  have "cc_may_store n s tid ((cc_ctx s tid)\<lparr>cx_root := cx_root (cc_ctx s (tid - 1))\<rparr>)" using keep_root(5) z by (simp add: cc_may_store_def)
  from inv_store_pipe [OF inv n keep_root(2) _ _ _ _ _ this, of PP_Advance "pp_checkpoint x" "cc_mem s"] keep_root show ?thesis by (auto simp: pp_busy_def)
next
  case (init x tid op' c' m')
  have b: "pp_busy (pp_pc (cc_pipes s 0))" using init by (simp add: pp_busy_def)
  have r: "cc_ready s tid" using pipe_task_not_done [OF inv _ b] init by (simp add: conctrl_INIT_def conctrl_DONE_def)
  have e: "cc_exit n s \<le> tid" "cc_committed s < tid" using pipe_exit [of n s 0] inv init by (simp_all add: cc_inv_def)
  have "cc_may_store n s tid (c'\<lparr>cx_op := op'\<rparr>)" using r e init(5) lib_keeps [OF L init(7)] by (simp add: cc_may_store_def)
  from inv_store_pipe [OF inv n init(2) _ _ _ _ _ this, of PP_Retry "pp_checkpoint x" m'] r init show ?thesis by (auto simp: pp_busy_def)
next
  case (bubble x)
  show ?thesis unfolding bubble(1) by (rule inv_pipe_pc [OF inv n bubble(2)]) (use bubble in \<open>auto simp: pp_busy_def\<close>)
qed

section \<open>The loops of the pipes\<close>

lemma inv_loop:
  assumes inv: "cc_inv n W s" and p: "p \<le> n" and y: "pp_tid y = pp_tid (cc_pipes s p)" "cc_pipe_ok (cc_ready s) (cc_pace s p) (p = n) y"
    and x: "pp_pc (cc_pipes s p) \<noteq> PP_Done" "\<And>w. pp_pc y \<noteq> PP_Assign w"
  shows "cc_inv n W (cc_set_pipe p y s)" (is "cc_inv n W ?s")
proof -
  have f: "cc_clients_ok ?s = cc_clients_ok s" "cc_monitor_ok ?s = cc_monitor_ok s" by (simp_all add: cc_set_pipe_def)
  have e: "cc_exit n ?s = cc_exit n s" using y(1) by (simp add: cc_exit_def cc_set_pipe_def)
  have q: "cc_pipes ?s q = (if q = p then y else cc_pipes s q)" "cc_pace ?s = cc_pace s" for q by (simp_all add: cc_set_pipe_def)
  have s: "cc_slots_ok n W ?s = cc_slots_ok n W s" by (simp only: cc_slots_ok_def e set_pipe_same)
  have w: "cc_workers_ok n W s" using inv by (simp add: cc_inv_def)
  then have w: "cc_workers_ok n W ?s"
  proof (cases "p = n")
    case True
    with w x show ?thesis unfolding cc_workers_ok_def e set_pipe_same q by simp
  qed (simp add: cc_workers_ok_def e set_pipe_same q)
  have "cc_pipes_ok n ?s" using inv y unfolding cc_inv_def cc_pipes_ok_def e set_pipe_same q by auto
  with inv w show ?thesis by (simp add: cc_inv_def f s)
qed

lemma inv_advance:
  assumes inv: "cc_inv n W s" and p: "p < n" and x: "x = cc_pipes s p" "pp_pc x = PP_Advance"
  shows "cc_inv n W (cc_set_pipe p (x\<lparr>pp_tid := Suc (pp_tid x), pp_pc := PP_Iter\<rparr>) (s\<lparr>cc_pace := (cc_pace s)(Suc p := pp_tid x)\<rparr>))"
    (is "cc_inv n W (cc_set_pipe p ?x ?s)")
proof -
  let ?s' = "cc_set_pipe p ?x ?s"
  have f: "cc_clients_ok ?s' = cc_clients_ok s" "cc_monitor_ok ?s' = cc_monitor_ok s"
    by (rule cc_clients_ok_cong cc_monitor_ok_cong; simp add: cc_set_pipe_def)+
  have same: "cc_ready ?s = cc_ready s" "cc_window ?s = cc_window s" "cc_works ?s = cc_works s" "cc_written ?s = cc_written s" "cc_free ?s = cc_free s"
    "cc_ctx ?s = cc_ctx s" "cc_stage ?s = cc_stage s" "cc_request ?s = cc_request s"
    by (simp_all add: fun_eq_iff cc_ready_def cc_held_def cc_window_def cc_works_def cc_written_def cc_free_def cc_ctx_def cc_stage_def cc_request_def)
  have e: "cc_exit n ?s' = cc_exit n s" "cc_pipes ?s' n = cc_pipes s n" using p by (simp_all add: cc_exit_def cc_set_pipe_def)
  have s: "cc_slots_ok n W ?s' = cc_slots_ok n W s" by (simp add: cc_slots_ok_def e set_pipe_same same)
  have w: "cc_workers_ok n W ?s' = cc_workers_ok n W s" by (simp add: cc_workers_ok_def e set_pipe_same same)
  have q: "cc_pipes ?s' q = (if q = p then ?x else cc_pipes s q)" "cc_pace ?s' q = (if q = Suc p then pp_tid x else cc_pace s q)" for q
    by (simp_all add: cc_set_pipe_def)
  have ok: "cc_pipes_ok n s" using inv by (simp add: cc_inv_def)
  have xp: "cc_pipe_ok (cc_ready s) (cc_pace s p) (p = n) x" using pipe_ok [OF ok, of p] p x(1) by simp
  then have x': "cc_pipe_ok (cc_ready s) (cc_pace s p) (p = n) ?x" using x(2) p by (auto simp: cc_pipe_ok_def pp_busy_def)
  have more: "cc_pipe_ok r pace l y \<Longrightarrow> pace \<le> pace' \<Longrightarrow> cc_pipe_ok r pace' l y" for r pace pace' l y by (auto simp: cc_pipe_ok_def)
  have pace: "cc_pace s (Suc p) \<le> pp_tid x" using ok p x(1) by (auto simp: cc_pipes_ok_def)
  have y: "cc_pipe_ok (cc_ready s) (cc_pace ?s' q) (q = n) (cc_pipes ?s' q)" if "q \<le> n" for q
    using that pipe_ok [OF ok, of q] more [OF pipe_ok [OF ok, of "Suc p"] pace] x' by (auto simp: q)
  have z: "Suc (cc_pace ?s' (Suc q)) = pp_tid (cc_pipes ?s' q)" if "q < n" for q using ok that by (simp add: q cc_pipes_ok_def)
  have "cc_pipes_ok n ?s'" using y z ok by (simp add: cc_pipes_ok_def e set_pipe_same same)
  with inv show ?thesis by (simp add: cc_inv_def f s w)
qed

lemma inv_pipe_loop:
  assumes inv: "cc_inv n W s" and p: "p \<le> n" and step: "concow_pipe_loop n p s s'"
  shows "cc_inv n W s'"
proof -
  have ok: "cc_pipe_ok (cc_ready s) (cc_pace s p) (p = n) (cc_pipes s p)" by (rule pipe_ok [OF _ p]) (use inv in \<open>simp add: cc_inv_def\<close>)
  note loop = inv_loop [OF inv p]
  from step show ?thesis
  proof cases
    case (batch x)
    show ?thesis unfolding batch(1) by (rule loop) (use ok batch in \<open>auto simp: cc_pipe_ok_def pp_busy_def\<close>)
  next
    case (stop x)
    show ?thesis unfolding stop(1) by (rule loop) (use ok stop in \<open>auto simp: cc_pipe_ok_def pp_busy_def\<close>)
  next
    case (drain x)
    show ?thesis unfolding drain(1) by (rule loop) (use ok drain in \<open>auto simp: cc_pipe_ok_def pp_busy_def\<close>)
  next
    case (wait x)
    show ?thesis unfolding wait(1) by (rule loop) (use ok wait in \<open>auto simp: cc_pipe_ok_def pp_busy_def\<close>)
  next
    case (task x)
    show ?thesis unfolding task(1) by (rule loop) (use ok task in \<open>auto simp: cc_pipe_ok_def pp_busy_def\<close>)
  next
    case (advance x)
    have "p < n" using ok advance p by (cases "p = n") (auto simp: cc_pipe_ok_def pp_busy_def)
    with inv_advance [OF inv this advance(2,3)] advance(1) show ?thesis by simp
  next
    case (epoch x)
    show ?thesis unfolding epoch(1) by (rule loop) (use ok epoch in \<open>auto simp: cc_pipe_ok_def pp_busy_def\<close>)
  next
    case (finish x)
    show ?thesis unfolding finish(1) by (rule loop) (use ok finish in \<open>auto simp: cc_pipe_ok_def pp_busy_def\<close>)
  qed
qed

section \<open>Stores into a stage\<close>

lemma stage_set_stage: "cc_stage (cc_set_stage t x s) t' = (if t' mod conctrl_BUFFER_SIZE = t mod conctrl_BUFFER_SIZE then x else cc_stage s t')"
  by (simp add: cc_stage_def cc_set_stage_def)

lemma set_stage_window: "cc_window s t \<Longrightarrow> cc_window s t' \<Longrightarrow> cc_stage (cc_set_stage t x s) t' = (if t' = t then x else cc_stage s t')"
  by (simp add: stage_set_stage window_mod)

lemma monitor_ok_stage:
  assumes ok: "cc_clients_ok s" "cc_monitor_ok s" and t: "cc_window s t" "x = \<infinity> \<or> cc_stage s t \<noteq> \<infinity> \<or> mo_inited s < t"
  shows "cc_monitor_ok (cc_set_stage t x s)"
proof -
  have d: "cc_stage (cc_set_stage t x s) t' = \<infinity>" if "cc_committed s < t'" "t' \<le> mo_inited s" "cc_stage s t' = \<infinity>" for t'
  proof -
    have "cc_ready s t'" using ok(2) that(2) by (simp add: cc_monitor_ok_def)
    then have "cc_window s t'" using inv_ready_window [OF ok(1)] that(1) by simp
    with t that show ?thesis by (auto simp: set_stage_window)
  qed
  have r: "cc_ready (cc_set_stage t x s) = cc_ready s" by (simp add: fun_eq_iff cc_ready_def cc_held_def cc_set_stage_def)
  have f: "cc_committed (cc_set_stage t x s) = cc_committed s" "mo_committed (cc_set_stage t x s) = mo_committed s"
    "mo_inited (cc_set_stage t x s) = mo_inited s" "mo_submitted (cc_set_stage t x s) = mo_submitted s" "mo_next (cc_set_stage t x s) = mo_next s"
    "mo_pc (cc_set_stage t x s) = mo_pc s" "mo_stop (cc_set_stage t x s) = mo_stop s" "cc_submitted (cc_set_stage t x s) = cc_submitted s"
    "cc_pace (cc_set_stage t x s) = cc_pace s" "cc_stop (cc_set_stage t x s) = cc_stop s"
    by (simp_all add: cc_set_stage_def)
  note m = ok(2) [unfolded cc_monitor_ok_def]
  have c: "cc_stage (cc_set_stage t x s) t' = \<infinity>"
    if "mo_pc s = MO_Collect \<or> mo_pc s = MO_Flag \<or> mo_pc s = MO_Publish" "cc_committed s < t'" "t' \<le> mo_next s" for t'
  proof -
    from m that(1) have "mo_next s \<le> mo_inited s" "\<forall>t. cc_committed s < t \<longrightarrow> t \<le> mo_next s \<longrightarrow> cc_stage s t = \<infinity>" by simp_all
    with d that show ?thesis by simp
  qed
  have c': "cc_stage (cc_set_stage t x s) t' = \<infinity>" if "mo_pc s = MO_Commit" "cc_committed s < t'" "t' \<le> mo_committed s" for t'
  proof -
    from m that(1) have "mo_committed s \<le> mo_inited s" "\<forall>t. cc_committed s < t \<longrightarrow> t \<le> mo_committed s \<longrightarrow> cc_stage s t = \<infinity>" by simp_all
    with d that show ?thesis by simp
  qed
  show ?thesis unfolding cc_monitor_ok_def r f by (intro conjI impI allI) (use m c c' in blast)+
qed

section \<open>The exit\<close>

lemma inv_exit_pop:
  assumes inv: "cc_inv n W s" and x: "x = cc_pipes s n" "pp_pc x = PP_Work" "cx_op (cc_ctx s (pp_tid x)) \<noteq> conctrl_DONE" and a: "cc_available s = w # ws"
  shows "cc_inv n W (cc_set_pipe n (x\<lparr>pp_pc := PP_Assign w\<rparr>) (s\<lparr>cc_available := ws\<rparr>))" (is "cc_inv n W ?s")
proof -
  have ok: "cc_pipes_ok n s" "cc_workers_ok n W s" using inv by (simp_all add: cc_inv_def)
  have f: "cc_clients_ok ?s = cc_clients_ok s" "cc_monitor_ok ?s = cc_monitor_ok s" by (simp_all add: cc_set_pipe_def)
  have e: "cc_exit n ?s = cc_exit n s" using x(1) by (simp add: cc_exit_def cc_set_pipe_def)
  have same: "cc_ready (s\<lparr>cc_available := ws\<rparr>) = cc_ready s" "cc_window (s\<lparr>cc_available := ws\<rparr>) = cc_window s" "cc_works (s\<lparr>cc_available := ws\<rparr>) = cc_works s"
    "cc_written (s\<lparr>cc_available := ws\<rparr>) = cc_written s" "cc_free (s\<lparr>cc_available := ws\<rparr>) = cc_free s"
    "cc_ctx (s\<lparr>cc_available := ws\<rparr>) = cc_ctx s" "cc_stage (s\<lparr>cc_available := ws\<rparr>) = cc_stage s" "cc_request (s\<lparr>cc_available := ws\<rparr>) = cc_request s"
    by (simp_all add: fun_eq_iff cc_ready_def cc_held_def cc_window_def cc_works_def cc_written_def cc_free_def cc_ctx_def cc_stage_def cc_request_def)
  have s: "cc_slots_ok n W ?s = cc_slots_ok n W s" by (simp add: cc_slots_ok_def e set_pipe_same same)
  have q: "cc_pipes ?s p = (if p = n then x\<lparr>pp_pc := PP_Assign w\<rparr> else cc_pipes s p)" "cc_pace ?s = cc_pace s" for p by (simp_all add: cc_set_pipe_def)
  have "cc_workers_ok n W ?s"
    unfolding cc_workers_ok_def e set_pipe_same same q using ok(2) [unfolded cc_workers_ok_def] x a by simp
  note w = this
  have b: "pp_busy (pp_pc (cc_pipes s n))" using x by (simp add: pp_busy_def)
  have "cc_pipe_ok (cc_ready s) (cc_pace s n) True (x\<lparr>pp_pc := PP_Assign w\<rparr>)"
    using pipe_ok [OF ok(1), of n] pipe_task_not_done [OF inv _ b] x by (auto simp: cc_pipe_ok_def pp_busy_def)
  then have "cc_pipes_ok n ?s" using ok(1) by (auto simp: cc_pipes_ok_def e set_pipe_same same q)
  with inv w show ?thesis by (simp add: cc_inv_def f s)
qed

lemma inv_exit_assign:
  assumes inv: "cc_inv n W s" and x: "x = cc_pipes s n" "pp_pc x = PP_Assign w"
  shows "cc_inv n W (cc_set_pipe n (x\<lparr>pp_pc := PP_Iter, pp_tid := Suc (pp_tid x)\<rparr>)
      (s\<lparr>cc_worker_tid := (cc_worker_tid s)(w := Some (pp_tid x))\<rparr>))" (is "cc_inv n W (cc_set_pipe n ?x ?u)")
proof -
  let ?s = "cc_set_pipe n ?x ?u" and ?t = "pp_tid x"
  have ok: "cc_pipes_ok n s" "cc_workers_ok n W s" "cc_slots_ok n W s" "cc_clients_ok s" using inv by (simp_all add: cc_inv_def)
  have f: "cc_clients_ok ?s = cc_clients_ok s" "cc_monitor_ok ?s = cc_monitor_ok s" by (simp_all add: cc_set_pipe_def)
  have e: "cc_exit n ?s = Suc ?t" "cc_exit n s = ?t" using x(1) by (simp_all add: cc_exit_def cc_set_pipe_def)
  have b: "pp_busy (pp_pc (cc_pipes s n))" using x by (simp add: pp_busy_def)
  have w: "w < W" "cc_free s w" "w \<notin> set (cc_available s)" using ok(2) x unfolding cc_workers_ok_def by auto
  have last: "wk_last (cc_workers s w) < ?t" using ok(2) x unfolding cc_workers_ok_def e by auto
  have t: "cc_ready s ?t" "?t mod conctrl_BUFFER_SIZE \<noteq> 0" "cc_committed s < ?t"
    using pipe_ok [OF ok(1), of n] pipe_exit(2) [OF ok(1), of n] x by (simp_all add: cc_pipe_ok_def)
  have win: "cc_window s ?t" using inv_ready_window [OF ok(4) t(1)] t(3) by simp
  have stage: "cc_stage s ?t = 0" using ok(3) win t unfolding cc_slots_ok_def e by simp
  have idle: "\<not> cc_works s w t'" for t' using w(2) by (auto simp: cc_works_def cc_free_def wk_active_def)
  have same: "cc_ready ?u = cc_ready s" "cc_window ?u = cc_window s"
    "cc_written ?u = cc_written s" "cc_ctx ?u = cc_ctx s" "cc_stage ?u = cc_stage s" "cc_request ?u = cc_request s"
    by (simp_all add: fun_eq_iff cc_ready_def cc_held_def cc_window_def cc_written_def cc_ctx_def cc_stage_def cc_request_def)
  have works: "cc_works ?u w' t' = (if w' = w then t' = ?t else cc_works s w' t')" for w' t'
    using w(2) last by (auto simp: cc_works_def cc_free_def wk_active_def)
  have free: "cc_free ?u w' = (if w' = w then False else cc_free s w')" for w'
    using last by (auto simp: cc_free_def)
  have q: "cc_pipes ?s p = (if p = n then ?x else cc_pipes s p)" "cc_pace ?s = cc_pace s" for p by (simp_all add: cc_set_pipe_def)
  have "if cc_stage s t' = \<infinity> then cx_op (cc_ctx s t') = conctrl_DONE else \<exists>w'<W. cc_works ?u w' t'"
    if "cc_committed s < t'" "t' < Suc ?t" "cc_ready s t'" for t'
  proof (cases "t' = ?t")
    case True
    with stage w(1) show ?thesis by (auto simp: works)
  next
    case False
    with that have "if cc_stage s t' = \<infinity> then cx_op (cc_ctx s t') = conctrl_DONE else \<exists>w'<W. cc_works s w' t'"
      using ok(3) unfolding cc_slots_ok_def e by simp
    with idle show ?thesis by (metis works)
  qed
  then have s: "cc_slots_ok n W ?s" using ok(3) unfolding cc_slots_ok_def e set_pipe_same same by simp
  have wk: "cc_workers_ok n W ?s"
    unfolding cc_workers_ok_def e set_pipe_same same q
  proof (intro conjI allI impI)
    fix w' t' assume "cc_works ?u w' t'"
    with works_task [OF ok(2), of w' t'] w(1) t stage e(2)
    show "w' < W" "cc_committed ?u < t'" "t' < Suc ?t" "cc_ready s t'" "cc_stage s t' \<noteq> \<infinity>" "t' mod conctrl_BUFFER_SIZE \<noteq> 0"
      by (auto simp: works zero_enat_def split: if_splits)
  next
    fix w' w'' t' assume "cc_works ?u w' t'" "cc_works ?u w'' t'"
    then show "w' = w''" using works_task(3) [OF ok(2), of _ t'] works_unique [OF ok(2), of w' t' w''] e(2)
      by (auto simp: works split: if_splits)
  qed (use ok(2) [unfolded cc_workers_ok_def e] b w last in \<open>auto simp: free cc_free_def less_Suc_eq wk_active_def pp_busy_def\<close>)
  have "cc_pipe_ok (cc_ready s) (cc_pace s n) True ?x"
    using pipe_ok [OF ok(1), of n] x by (auto simp: cc_pipe_ok_def pp_busy_def)
  then have "cc_pipes_ok n ?s" using ok(1) t(3) by (auto simp: cc_pipes_ok_def e set_pipe_same same q)
  with inv wk s show ?thesis by (simp add: cc_inv_def f)
qed

lemma inv_exit_complete:
  assumes inv: "cc_inv n W s" and x: "x = cc_pipes s n" "pp_pc x = PP_Work" "cx_op (cc_ctx s (pp_tid x)) = conctrl_DONE"
  shows "cc_inv n W (cc_set_pipe n (x\<lparr>pp_pc := PP_Iter, pp_tid := Suc (pp_tid x)\<rparr>) (cc_set_stage (pp_tid x) \<infinity> s))"
    (is "cc_inv n W (cc_set_pipe n ?x ?u)")
proof -
  let ?s = "cc_set_pipe n ?x ?u" and ?t = "pp_tid x"
  have ok: "cc_pipes_ok n s" "cc_workers_ok n W s" "cc_slots_ok n W s" "cc_clients_ok s" "cc_monitor_ok s" using inv by (simp_all add: cc_inv_def)
  have b: "pp_busy (pp_pc (cc_pipes s n))" using x by (simp add: pp_busy_def)
  have t: "cc_committed s < ?t" "cc_window s ?t" using pipe_task(1,2) [OF inv _ b refl] x(1) by simp_all
  have f: "cc_clients_ok ?s = cc_clients_ok s" "cc_monitor_ok ?s = cc_monitor_ok ?u"
    by (rule cc_clients_ok_cong cc_monitor_ok_cong; simp add: cc_set_pipe_def cc_set_stage_def)+
  have e: "cc_exit n ?s = Suc ?t" "cc_exit n s = ?t" using x(1) by (simp_all add: cc_exit_def cc_set_pipe_def)
  have same: "cc_ready ?u = cc_ready s" "cc_window ?u = cc_window s" "cc_works ?u = cc_works s"
    "cc_written ?u = cc_written s" "cc_free ?u = cc_free s" "cc_ctx ?u = cc_ctx s" "cc_request ?u = cc_request s"
    "cc_committed ?u = cc_committed s" "cc_ctxs ?u = cc_ctxs s" "cc_workers ?u = cc_workers s" "cc_available ?u = cc_available s"
    "cc_worker_tid ?u = cc_worker_tid s"
    by (simp_all add: fun_eq_iff cc_ready_def cc_held_def cc_window_def cc_works_def cc_written_def cc_free_def cc_ctx_def cc_request_def cc_set_stage_def)
  have q: "cc_pipes ?s p = (if p = n then ?x else cc_pipes s p)" "cc_pace ?s = cc_pace s" for p by (simp_all add: cc_set_pipe_def cc_set_stage_def)
  have stage: "cc_stage ?u t' = (if t' = ?t then \<infinity> else cc_stage s t')" if "cc_window s t'" for t' by (rule set_stage_window [OF t(2) that])
  have c0: "cc_window s (cc_committed s)" by (simp add: cc_window_def buffer_pos)
  have win: "cc_window s t'" if "cc_ready s t'" "cc_committed s < t'" for t' using inv_ready_window [OF ok(4) that(1)] that(2) by simp
  have s: "cc_slots_ok n W ?s"
    unfolding cc_slots_ok_def e set_pipe_same same
  proof (intro conjI allI impI)
    show "cc_stage ?u (cc_committed s) = \<infinity>" using ok(3) by (simp add: stage [OF c0] cc_slots_ok_def)
  next
    fix t' assume t': "cc_committed s < t'" "t' < Suc ?t" "cc_ready s t'"
    show "if cc_stage ?u t' = \<infinity> then cx_op (cc_ctx s t') = conctrl_DONE else \<exists>w'<W. cc_works s w' t'"
    proof (cases "t' = ?t")
      case True
      then show ?thesis using x(3) t(2) by (simp add: stage)
    next
      case False
      with t' have "t' < ?t" by simp
      with False t' ok(3) [unfolded cc_slots_ok_def e] show ?thesis by (simp add: stage [OF win [OF t'(3,1)]])
    qed
  next
    fix t' assume "cc_window s t'" "cc_committed s < t'" "cc_ready s t'" "Suc ?t \<le> t'"
    with ok(3) [unfolded cc_slots_ok_def e] show "cc_stage ?u t' = 0" by (simp add: stage)
  next
    fix t' assume "cc_window s t'" "cc_committed s < t'" "\<not> cc_ready s t'"
    with ok(3) [unfolded cc_slots_ok_def e] show "cc_stage ?u t' = \<infinity>" by (simp add: stage)
  qed (use ok(3) [unfolded cc_slots_ok_def e] in blast)+
  have works: "cc_stage ?u t' = cc_stage s t'" if "cc_works s w t'" for w t'
    using works_task(2-4) [OF ok(2) that] win [of t'] e(2) by (simp add: stage)
  have wk: "cc_workers_ok n W ?s"
    unfolding cc_workers_ok_def e set_pipe_same same q
  proof (intro conjI allI impI)
    fix w t' assume w: "cc_works s w t'"
    show "w < W" "cc_committed s < t'" "t' < Suc ?t" "cc_ready s t'" "t' mod conctrl_BUFFER_SIZE \<noteq> 0"
      using works_task [OF ok(2) w] e(2) by simp_all
    show "cc_stage ?u t' \<noteq> \<infinity>" unfolding works [OF w] by (rule works_task(5) [OF ok(2) w])
  qed (use ok(2) [unfolded cc_workers_ok_def e] b in \<open>auto simp: less_Suc_eq pp_busy_def\<close>)
  have "cc_pipe_ok (cc_ready s) (cc_pace s n) True ?x"
    using pipe_ok [OF ok(1), of n] x by (auto simp: cc_pipe_ok_def pp_busy_def)
  then have p: "cc_pipes_ok n ?s" using ok(1) t(1) by (auto simp: cc_pipes_ok_def e set_pipe_same same q)
  have "cc_monitor_ok ?u" by (rule monitor_ok_stage [OF ok(4,5) t(2)]) simp
  with inv p wk s show ?thesis by (simp add: cc_inv_def f)
qed

lemma inv_exit: "cc_inv n W s \<Longrightarrow> concow_exit n s s' \<Longrightarrow> cc_inv n W s'"
  by (erule concow_exit.cases) (simp_all add: inv_exit_pop inv_exit_assign inv_exit_complete)

section \<open>The workers\<close>

text \<open>A worker goes on at its task, or takes up or leaves one.\<close>

lemma inv_set_worker:
  assumes inv: "cc_inv n W s" and y: "\<And>t. cc_works (cc_set_worker w y s) w t = cc_works s w t"
    and fin: "wk_pc y = WK_Finish \<Longrightarrow> cx_op (cc_ctx s (wk_tid y)) = conctrl_DONE"
    and pcs: "\<not> cc_free s w" "wk_pc y \<noteq> WK_Push" "wk_last y = wk_last (cc_workers s w)"
      "wk_active (wk_pc y) \<Longrightarrow> cc_worker_tid s w = Some (wk_tid y) \<or> cc_worker_tid s w = None"
  shows "cc_inv n W (cc_set_worker w y s)" (is "cc_inv n W ?s")
proof -
  have ok: "cc_pipes_ok n s" "cc_workers_ok n W s" "cc_slots_ok n W s" using inv by (simp_all add: cc_inv_def)
  have f: "cc_clients_ok ?s = cc_clients_ok s" "cc_monitor_ok ?s = cc_monitor_ok s" "cc_pipes_ok n ?s = cc_pipes_ok n s" by (simp_all add: cc_set_worker_def)
  have works: "cc_works ?s = cc_works s"
  proof (intro ext)
    show "cc_works ?s w' t = cc_works s w' t" for w' t using y by (cases "w' = w") (simp_all add: cc_works_def cc_set_worker_def)
  qed
  have same: "cc_ready ?s = cc_ready s" "cc_window ?s = cc_window s" "cc_exit n ?s = cc_exit n s" "cc_stage ?s = cc_stage s"
    "cc_written ?s = cc_written s" "cc_ctx ?s = cc_ctx s" "cc_request ?s = cc_request s" "cc_pipes ?s = cc_pipes s"
    "cc_committed ?s = cc_committed s" "cc_ctxs ?s = cc_ctxs s" "cc_available ?s = cc_available s" "cc_worker_tid ?s = cc_worker_tid s"
    by (simp_all add: fun_eq_iff cc_ready_def cc_held_def cc_window_def cc_exit_def cc_stage_def cc_written_def cc_ctx_def cc_request_def cc_set_worker_def)
  have q: "cc_workers ?s w' = (if w' = w then y else cc_workers s w')" for w' by (simp add: cc_set_worker_def)
  have free: "cc_free ?s w' = cc_free s w'" if "w' \<noteq> w" for w' using that by (simp add: cc_free_def q cc_set_worker_def)
  have s: "cc_slots_ok n W ?s = cc_slots_ok n W s" by (simp only: cc_slots_ok_def same works)
  have nw: "w \<notin> set (cc_available s)" "pp_pc (cc_pipes s n) \<noteq> PP_Assign w" if "pp_pc (cc_pipes s n) \<noteq> PP_Done"
    using ok(2) pcs(1) that unfolding cc_workers_ok_def by auto
  have fr: "cc_free ?s w'" if "pp_pc (cc_pipes s n) \<noteq> PP_Done" "w' \<in> set (cc_available s) \<or> pp_pc (cc_pipes s n) = PP_Assign w'" for w'
  proof -
    have "w' \<noteq> w" using nw that by blast
    moreover have "cc_free s w'" using ok(2) that unfolding cc_workers_ok_def by blast
    ultimately show ?thesis by (simp add: free)
  qed
  have wk: "cc_workers_ok n W ?s"
    unfolding cc_workers_ok_def same works q
    by (intro conjI allI impI) (use ok(2) [unfolded cc_workers_ok_def] fin pcs fr in \<open>auto split: if_splits\<close>)
  from inv wk show ?thesis by (simp add: cc_inv_def f s)
qed

lemma sno_slot: "unat (word_of_nat t :: 32 word) mod conctrl_BUFFER_SIZE = t mod conctrl_BUFFER_SIZE"
proof -
  have "conctrl_BUFFER_SIZE dvd (2 :: nat) ^ 32" by (simp add: conctrl_BUFFER_SIZE_def)
  then show ?thesis by (simp add: unat_of_nat mod_mod_cancel)
qed

lemma works_slot:
  assumes inv: "cc_inv n W s" and w: "cc_works s w t"
  shows "cc_set_stage (unat (cx_sno (cc_ctx s t))) x s = cc_set_stage t x s"
proof -
  have ok: "cc_workers_ok n W s" "cc_slots_ok n W s" "cc_clients_ok s" using inv by (simp_all add: cc_inv_def)
  note t = works_task [OF ok(1) w]
  have "cc_window s t" using inv_ready_window [OF ok(3) t(4)] t(2) by simp
  with ok(2) t have "cc_request s t (cc_ctx s t)" unfolding cc_slots_ok_def by simp
  then show ?thesis by (simp add: cc_request_def cc_set_stage_def sno_slot)
qed

lemma inv_level:
  assumes inv: "cc_inv n W s" and w: "cc_works s w t"
  shows "cc_inv n W (cc_set_stage t (enat k) s)" (is "cc_inv n W ?s")
proof -
  have ok: "cc_pipes_ok n s" "cc_workers_ok n W s" "cc_slots_ok n W s" "cc_clients_ok s" "cc_monitor_ok s" using inv by (simp_all add: cc_inv_def)
  note t = works_task [OF ok(2) w]
  have win: "cc_window s t'" if "cc_ready s t'" "cc_committed s < t'" for t' using inv_ready_window [OF ok(4) that(1)] that(2) by simp
  have stage: "cc_stage ?s t' = (if t' = t then enat k else cc_stage s t')" if "cc_window s t'" for t'
    by (rule set_stage_window [OF win [OF t(4,2)] that])
  have c0: "cc_window s (cc_committed s)" by (simp add: cc_window_def buffer_pos)
  have f: "cc_clients_ok ?s = cc_clients_ok s" "cc_pipes_ok n ?s = cc_pipes_ok n s" by (simp_all add: cc_set_stage_def)
  have same: "cc_ready ?s = cc_ready s" "cc_window ?s = cc_window s" "cc_works ?s = cc_works s" "cc_exit n ?s = cc_exit n s"
    "cc_written ?s = cc_written s" "cc_free ?s = cc_free s" "cc_ctx ?s = cc_ctx s" "cc_request ?s = cc_request s"
    "cc_committed ?s = cc_committed s" "cc_ctxs ?s = cc_ctxs s" "cc_workers ?s = cc_workers s" "cc_available ?s = cc_available s"
    "cc_worker_tid ?s = cc_worker_tid s" "cc_pipes ?s = cc_pipes s"
    by (simp_all add: fun_eq_iff cc_ready_def cc_held_def cc_window_def cc_works_def cc_written_def cc_free_def cc_ctx_def cc_request_def cc_set_stage_def cc_exit_def)
  have s: "cc_slots_ok n W ?s"
    unfolding cc_slots_ok_def same
  proof (intro conjI allI impI)
    show "cc_stage ?s (cc_committed s) = \<infinity>" using ok(3) t(2) by (simp add: stage [OF c0] cc_slots_ok_def)
  next
    fix t' assume t': "cc_committed s < t'" "t' < cc_exit n s" "cc_ready s t'"
    with ok(3) [unfolded cc_slots_ok_def] w t(1) show "if cc_stage ?s t' = \<infinity> then cx_op (cc_ctx s t') = conctrl_DONE else \<exists>w'<W. cc_works s w' t'"
      by (auto simp: stage [OF win [OF t'(3,1)]])
  next
    fix t' assume "cc_window s t'" "cc_committed s < t'" "cc_ready s t'" "cc_exit n s \<le> t'"
    with ok(3) [unfolded cc_slots_ok_def] t(3) show "cc_stage ?s t' = 0" by (simp add: stage)
  next
    fix t' assume "cc_window s t'" "cc_committed s < t'" "\<not> cc_ready s t'"
    with ok(3) [unfolded cc_slots_ok_def] t(4) show "cc_stage ?s t' = \<infinity>" by (auto simp: stage)
  qed (use ok(3) [unfolded cc_slots_ok_def] in blast)+
  have wk: "cc_workers_ok n W ?s"
    unfolding cc_workers_ok_def same
  proof (intro conjI allI impI)
    fix w' t' assume w': "cc_works s w' t'"
    show "w' < W" "cc_committed s < t'" "t' < cc_exit n s" "cc_ready s t'" "t' mod conctrl_BUFFER_SIZE \<noteq> 0"
      using works_task [OF ok(2) w'] by simp_all
    show "cc_stage ?s t' \<noteq> \<infinity>" using works_task [OF ok(2) w'] by (simp add: stage win)
  qed (use ok(2) [unfolded cc_workers_ok_def] in \<open>simp_all\<close>)
  have "cc_monitor_ok ?s" by (rule monitor_ok_stage [OF ok(4,5) win [OF t(4,2)]]) (simp add: t(5))
  with inv wk s show ?thesis by (simp add: cc_inv_def f)
qed

lemma inv_finish:
  assumes inv: "cc_inv n W s" and x: "x = cc_workers s w" "wk_pc x = WK_Finish"
  shows "cc_inv n W (cc_set_worker w (x\<lparr>wk_last := wk_tid x, wk_pc := WK_Push\<rparr>) (cc_set_stage (wk_tid x) \<infinity> s))" (is "cc_inv n W ?s")
proof -
  let ?t = "wk_tid x"
  have ok: "cc_pipes_ok n s" "cc_workers_ok n W s" "cc_slots_ok n W s" "cc_clients_ok s" "cc_monitor_ok s" using inv by (simp_all add: cc_inv_def)
  have w: "cc_works s w ?t" using x by (simp add: cc_works_def wk_active_def)
  note t = works_task [OF ok(2) w]
  have op: "cx_op (cc_ctx s ?t) = conctrl_DONE" using ok(2) x unfolding cc_workers_ok_def by blast
  have win: "cc_window s t'" if "cc_ready s t'" "cc_committed s < t'" for t' using inv_ready_window [OF ok(4) that(1)] that(2) by simp
  have stage: "cc_stage (cc_set_stage ?t \<infinity> s) t' = (if t' = ?t then \<infinity> else cc_stage s t')" if "cc_window s t'" for t'
    by (rule set_stage_window [OF win [OF t(4,2)] that])
  have st: "cc_stage ?s = cc_stage (cc_set_stage ?t \<infinity> s)" by (simp add: fun_eq_iff cc_stage_def cc_set_worker_def)
  have c0: "cc_window s (cc_committed s)" by (simp add: cc_window_def buffer_pos)
  have f: "cc_clients_ok ?s = cc_clients_ok s" "cc_pipes_ok n ?s = cc_pipes_ok n s" "cc_monitor_ok ?s = cc_monitor_ok (cc_set_stage ?t \<infinity> s)"
    by (simp_all add: cc_set_stage_def cc_set_worker_def)
  have same: "cc_ready ?s = cc_ready s" "cc_window ?s = cc_window s" "cc_exit n ?s = cc_exit n s"
    "cc_written ?s = cc_written s" "cc_ctx ?s = cc_ctx s" "cc_request ?s = cc_request s"
    "cc_committed ?s = cc_committed s" "cc_ctxs ?s = cc_ctxs s" "cc_available ?s = cc_available s"
    "cc_worker_tid ?s = cc_worker_tid s" "cc_pipes ?s = cc_pipes s"
    by (simp_all add: fun_eq_iff cc_ready_def cc_held_def cc_window_def cc_written_def cc_ctx_def cc_request_def cc_set_stage_def cc_set_worker_def cc_exit_def)
  have q: "cc_workers ?s w' = (if w' = w then x\<lparr>wk_last := ?t, wk_pc := WK_Push\<rparr> else cc_workers s w')" for w'
    by (simp add: cc_set_worker_def cc_set_stage_def)
  have works: "cc_works ?s w' t' = (w' \<noteq> w \<and> cc_works s w' t')" for w' t' by (simp add: cc_works_def q same wk_active_def)
  have free: "cc_free s w' \<Longrightarrow> cc_free ?s w'" for w' unfolding cc_free_def q same using x by auto
  have other: "t' \<noteq> ?t" if "cc_works s w' t'" "w' \<noteq> w" for w' t' using works_unique [OF ok(2) that(1)] w that(2) by blast
  have s: "cc_slots_ok n W ?s"
    unfolding cc_slots_ok_def same st
  proof (intro conjI allI impI)
    show "cc_stage (cc_set_stage ?t \<infinity> s) (cc_committed s) = \<infinity>" using ok(3) by (simp add: stage [OF c0] cc_slots_ok_def)
  next
    fix t' assume t': "cc_committed s < t'" "t' < cc_exit n s" "cc_ready s t'"
    note o = ok(3) [unfolded cc_slots_ok_def]
    show "if cc_stage (cc_set_stage ?t \<infinity> s) t' = \<infinity> then cx_op (cc_ctx s t') = conctrl_DONE else \<exists>w'<W. cc_works ?s w' t'"
    proof (cases "t' = ?t")
      case True
      then show ?thesis using op by (simp add: stage [OF win [OF t(4,2)]])
    next
      case False
      have "if cc_stage s t' = \<infinity> then cx_op (cc_ctx s t') = conctrl_DONE else \<exists>w'<W. cc_works s w' t'" using o t' by simp
      moreover have "w' \<noteq> w" if "cc_works s w' t'" for w'
        using that False x by (auto simp: cc_works_def wk_active_def)
      ultimately show ?thesis using False by (auto simp: works stage [OF win [OF t'(3,1)]] split: if_splits)
    qed
  next
    fix t' assume "cc_window s t'" "cc_committed s < t'" "cc_ready s t'" "cc_exit n s \<le> t'"
    with ok(3) [unfolded cc_slots_ok_def] t(3) show "cc_stage (cc_set_stage ?t \<infinity> s) t' = 0" by (simp add: stage)
  next
    fix t' assume "cc_window s t'" "cc_committed s < t'" "\<not> cc_ready s t'"
    with ok(3) [unfolded cc_slots_ok_def] show "cc_stage (cc_set_stage ?t \<infinity> s) t' = \<infinity>" by (auto simp: stage)
  qed (use ok(3) [unfolded cc_slots_ok_def] in blast)+
  have l: "cc_worker_tid s w = Some ?t \<or> cc_worker_tid s w = None" using ok(2) x unfolding cc_workers_ok_def by (auto simp: wk_active_def)
  have wk: "cc_workers_ok n W ?s"
    unfolding cc_workers_ok_def same works st
  proof (intro conjI allI impI)
    fix w' t' assume w': "w' \<noteq> w \<and> cc_works s w' t'"
    show "w' < W" "cc_committed s < t'" "t' < cc_exit n s" "cc_ready s t'" "t' mod conctrl_BUFFER_SIZE \<noteq> 0"
      using works_task [OF ok(2), of w' t'] w' by simp_all
    show "cc_stage (cc_set_stage ?t \<infinity> s) t' \<noteq> \<infinity>" using works_task [OF ok(2), of w' t'] w' other [of w' t'] by (simp add: stage win)
  next
    fix w' w'' t' assume "w' \<noteq> w \<and> cc_works s w' t'" "w'' \<noteq> w \<and> cc_works s w'' t'"
    then show "w' = w''" using works_unique [OF ok(2)] by blast
  qed (use ok(2) [unfolded cc_workers_ok_def] free l t(3) in \<open>auto simp: q wk_active_def split: if_splits\<close>)
  have "cc_monitor_ok (cc_set_stage ?t \<infinity> s)" by (rule monitor_ok_stage [OF ok(4,5) win [OF t(4,2)]]) simp
  with inv wk s show ?thesis by (simp add: cc_inv_def f)
qed

lemma inv_push:
  assumes inv: "cc_inv n W s" and w: "w < W" and x: "x = cc_workers s w" "wk_pc x = WK_Push"
  shows "cc_inv n W (cc_set_worker w (x\<lparr>wk_pc := WK_Poll\<rparr>) (s\<lparr>cc_available := cc_available s @ [w]\<rparr>))" (is "cc_inv n W ?s")
proof -
  have ok: "cc_workers_ok n W s" using inv by (simp add: cc_inv_def)
  have f: "cc_clients_ok ?s = cc_clients_ok s" "cc_monitor_ok ?s = cc_monitor_ok s" "cc_pipes_ok n ?s = cc_pipes_ok n s" by (simp_all add: cc_set_worker_def)
  have same: "cc_ready ?s = cc_ready s" "cc_window ?s = cc_window s" "cc_exit n ?s = cc_exit n s" "cc_stage ?s = cc_stage s"
    "cc_written ?s = cc_written s" "cc_ctx ?s = cc_ctx s" "cc_request ?s = cc_request s" "cc_pipes ?s = cc_pipes s"
    "cc_committed ?s = cc_committed s" "cc_ctxs ?s = cc_ctxs s" "cc_worker_tid ?s = cc_worker_tid s"
    by (simp_all add: fun_eq_iff cc_ready_def cc_held_def cc_window_def cc_exit_def cc_stage_def cc_written_def cc_ctx_def cc_request_def cc_set_worker_def)
  have q: "cc_workers ?s w' = (if w' = w then x\<lparr>wk_pc := WK_Poll\<rparr> else cc_workers s w')" "cc_available ?s = cc_available s @ [w]" for w'
    by (simp_all add: cc_set_worker_def)
  have tid: "cc_worker_tid s w = Some (wk_last x) \<or> cc_worker_tid s w = None" "pp_pc (cc_pipes s n) \<noteq> PP_Done \<Longrightarrow> cc_worker_tid s w \<noteq> None"
    using ok x unfolding cc_workers_ok_def by simp_all
  have nf: "\<not> cc_free s w" "\<not> cc_works s w t" for t using x by (auto simp: cc_free_def cc_works_def wk_active_def)
  have works: "cc_works ?s = cc_works s"
  proof (intro ext)
    show "cc_works ?s w' t = cc_works s w' t" for w' t
      using nf(2) [of t] tid by (cases "w' = w") (auto simp: cc_works_def q same wk_active_def)
  qed
  have free: "cc_free ?s w'" if "w' = w \<or> cc_free s w'" "pp_pc (cc_pipes s n) \<noteq> PP_Done" for w'
    using that tid unfolding cc_free_def q same by auto
  have s: "cc_slots_ok n W ?s = cc_slots_ok n W s" by (simp only: cc_slots_ok_def same works)
  have nw: "w \<notin> set (cc_available s)" "pp_pc (cc_pipes s n) \<noteq> PP_Assign w" if "pp_pc (cc_pipes s n) \<noteq> PP_Done"
    using ok nf(1) that unfolding cc_workers_ok_def by auto
  have wk: "cc_workers_ok n W ?s"
    unfolding cc_workers_ok_def same works q
    by (intro conjI allI impI) (use ok [unfolded cc_workers_ok_def] w nw x free in \<open>auto simp: wk_active_def split: if_splits\<close>)
  from inv wk show ?thesis by (simp add: cc_inv_def f s)
qed

lemma worker_may_store:
  assumes inv: "cc_inv n W s" and w: "cc_works s w t" "wk_pc (cc_workers s w) \<noteq> WK_Finish"
    and c: "cx_sno c = cx_sno (cc_ctx s t)" "cx_key c = cx_key (cc_ctx s t)" "cx_val c = cx_val (cc_ctx s t)"
  shows "cc_may_store n s t c"
  using works_task [of n W s w t] inv w c by (auto simp: cc_may_store_def cc_inv_def)

lemma active_not_free: "wk_active (wk_pc (cc_workers s w)) \<Longrightarrow> \<not> cc_free s w"
  by (auto simp: cc_free_def wk_active_def)

lemma inv_worker_pc:
  assumes inv: "cc_inv n W s" and x: "x = cc_workers s w" "wk_active (wk_pc x)" "wk_active pc"
    and fin: "pc = WK_Finish \<Longrightarrow> cx_op (cc_ctx s (wk_tid x)) = conctrl_DONE"
  shows "cc_inv n W (cc_set_worker w (x\<lparr>wk_stage := k, wk_pc := pc\<rparr>) s)"
proof (rule inv_set_worker [OF inv])
  have ok: "cc_workers_ok n W s" using inv by (simp add: cc_inv_def)
  then show "cc_worker_tid s w = Some (wk_tid (x\<lparr>wk_stage := k, wk_pc := pc\<rparr>)) \<or> cc_worker_tid s w = None"
    using x unfolding cc_workers_ok_def by simp
  show "cc_works (cc_set_worker w (x\<lparr>wk_stage := k, wk_pc := pc\<rparr>) s) w t = cc_works s w t" for t
    using x by (auto simp: cc_works_def cc_set_worker_def wk_active_def)
qed (use x fin active_not_free [of s w] in \<open>auto simp: wk_active_def\<close>)

lemma inv_store_worker:
  assumes inv: "cc_inv n W s" and x: "x = cc_workers s w" "wk_active (wk_pc x)" "wk_pc x \<noteq> WK_Finish" "wk_active pc" "pc \<noteq> WK_Finish"
    and c: "cx_sno c = cx_sno (cc_ctx s (wk_tid x))" "cx_key c = cx_key (cc_ctx s (wk_tid x))" "cx_val c = cx_val (cc_ctx s (wk_tid x))"
  shows "cc_inv n W (cc_set_worker w (x\<lparr>wk_pc := pc\<rparr>) (cc_set_ctx (wk_tid x) c (s\<lparr>cc_mem := m\<rparr>)))" (is "cc_inv n W (cc_set_worker w _ ?u)")
proof -
  have "cc_works s w (wk_tid x)" using x by (simp add: cc_works_def)
  then have u: "cc_inv n W ?u" by (intro inv_store [OF inv] worker_may_store [OF inv]) (use x c in auto)
  have "x\<lparr>wk_pc := pc\<rparr> = x\<lparr>wk_stage := wk_stage x, wk_pc := pc\<rparr>" by simp
  moreover have "x = cc_workers ?u w" using x(1) by (simp add: cc_set_ctx_def)
  ultimately show ?thesis using inv_worker_pc [OF u _ x(2,4), of w "wk_stage x"] x(5) by simp
qed

lemma inv_worker:
  assumes inv: "cc_inv n W s" and L: "lib_keeps_requests L" and w: "w < W" and step: "concow_worker_step L w s s'"
  shows "cc_inv n W s'"
proof -
  have pc: "cc_inv n W (cc_set_worker w (x\<lparr>wk_pc := pc\<rparr>) s)"
    if "x = cc_workers s w" "wk_active (wk_pc x)" "wk_active pc" "pc = WK_Finish \<Longrightarrow> cx_op (cc_ctx s (wk_tid x)) = conctrl_DONE" for x pc
    using inv_worker_pc [OF inv that, of "wk_stage x"] by simp
  have cno: "cc_inv n W (cc_set_ctx (wk_tid x) ((cc_ctx s (wk_tid x))\<lparr>cx_cno := v\<rparr>) s)"
    if "x = cc_workers s w" "wk_active (wk_pc x)" "wk_pc x \<noteq> WK_Finish" for x v
  proof -
    have "cc_works s w (wk_tid x)" using that by (simp add: cc_works_def)
    from inv_store [OF inv worker_may_store [OF inv this, of "(cc_ctx s (wk_tid x))\<lparr>cx_cno := v\<rparr>"], of "cc_mem s"] that show ?thesis by simp
  qed
  from step show ?thesis
  proof cases
    case (poll x tid)
    have y: "cc_works (cc_set_worker w (x\<lparr>wk_tid := tid, wk_stage := 1, wk_pc := WK_Loop\<rparr>) s) w t = cc_works s w t" for t
      using poll by (auto simp: cc_works_def cc_set_worker_def wk_active_def)
    show ?thesis unfolding poll(1) by (rule inv_set_worker [OF inv y]) (use poll in \<open>auto simp: cc_free_def\<close>)
  next
    case (quit x)
    have y: "cc_works (cc_set_worker w (x\<lparr>wk_pc := WK_Done\<rparr>) s) w t = cc_works s w t" for t
      using quit by (auto simp: cc_works_def cc_set_worker_def wk_active_def)
    show ?thesis unfolding quit(1) by (rule inv_set_worker [OF inv y]) (use quit in \<open>auto simp: cc_free_def wk_active_def\<close>)
  next
    case (loop x)
    then show ?thesis by (auto intro!: pc simp: wk_active_def)
  next
    case (exec x c ver)
    then show ?thesis by (auto intro!: pc simp: wk_active_def)
  next
    case (version x ver c)
    then show ?thesis using cno [of x] by (simp add: wk_active_def)
  next
    case (version_end x ver)
    then show ?thesis by (auto intro!: pc simp: wk_active_def)
  next
    case (stage x ver stage)
    then show ?thesis by (auto intro!: pc simp: wk_active_def)
  next
    case (committed x ver stage)
    have "cc_inv n W (cc_set_worker w (x\<lparr>wk_pc := WK_Stage ver stage\<rparr>)
      (cc_set_ctx (wk_tid x) ((cc_ctx s (wk_tid x))\<lparr>cx_cno := of_nat (cc_committed s)\<rparr>) (s\<lparr>cc_mem := cc_mem s\<rparr>)))"
      by (rule inv_store_worker [OF inv committed(2)]) (use committed in \<open>simp_all add: wk_active_def\<close>)
    then show ?thesis using committed(1) by simp
  next
    case (stage_end x ver stage)
    then show ?thesis by (auto intro!: pc simp: wk_active_def)
  next
    case (call x c op' c' m')
    show ?thesis unfolding call(1)
      by (rule inv_store_worker [OF inv call(2)]) (use call lib_keeps [OF L call(5)] in \<open>simp_all add: wk_active_def\<close>)
  next
    case (retry x)
    then show ?thesis by (auto intro!: pc simp: wk_active_def)
  next
    case (level x)
    have works: "cc_works s w (wk_tid x)" using level by (simp add: cc_works_def wk_active_def)
    have "cc_inv n W (cc_set_stage (wk_tid x) (enat (wk_stage x)) s)" by (rule inv_level [OF inv works])
    then show ?thesis unfolding level(1) works_slot [OF inv works]
      by (rule inv_worker_pc) (use level in \<open>simp_all add: cc_set_stage_def wk_active_def\<close>)
  next
    case (finish x)
    have works: "cc_works s w (wk_tid x)" using finish by (simp add: cc_works_def wk_active_def)
    show ?thesis unfolding finish(1) works_slot [OF inv works] by (rule inv_finish [OF inv finish(2,3)])
  next
    case (push x)
    show ?thesis unfolding push(1) by (rule inv_push [OF inv w push(2,3)])
  qed
qed

section \<open>The monitor\<close>

text \<open>Publishing moves the window.\<close>

lemma inv_commit:
  assumes inv: "cc_inv n W s" and pc: "mo_pc s = MO_Commit"
  shows "cc_inv n W (s\<lparr>cc_committed := mo_committed s, mo_pc := MO_Poll\<rparr>)" (is "cc_inv n W ?s")
proof -
  let ?c = "mo_committed s"
  have ok: "cc_pipes_ok n s" "cc_workers_ok n W s" "cc_slots_ok n W s" "cc_clients_ok s" "cc_monitor_ok s" using inv by (simp_all add: cc_inv_def)
  note m = ok(5) [unfolded cc_monitor_ok_def]
  have c: "cc_committed s \<le> ?c" "?c \<le> mo_inited s" using m by simp_all
  have coll: "cc_stage s t = \<infinity>" if "cc_committed s < t" "t \<le> ?c" for t using m pc that by simp
  have rdy: "cc_ready s t" if "t \<le> ?c" for t using m c(2) that by simp
  have same: "cc_ready ?s = cc_ready s" "cc_works ?s = cc_works s" "cc_exit n ?s = cc_exit n s" "cc_stage ?s = cc_stage s" "cc_written ?s = cc_written s"
    "cc_ctx ?s = cc_ctx s" "cc_request ?s = cc_request s" "cc_free ?s = cc_free s"
    by (simp_all add: fun_eq_iff cc_ready_def cc_held_def cc_works_def cc_exit_def cc_stage_def cc_written_def cc_ctx_def cc_request_def cc_free_def)
  have win: "cc_window ?s t = (?c \<le> t \<and> t < ?c + conctrl_BUFFER_SIZE)" for t by (simp add: cc_window_def)
  have before: "t < cc_exit n s" if "cc_committed s < t" "t \<le> ?c" for t
  proof (rule ccontr)
    assume "\<not> t < cc_exit n s"
    moreover have "cc_window s t" using inv_ready_window [OF ok(4) rdy [OF that(2)]] that(1) by simp
    ultimately have "cc_stage s t = 0" using ok(3) rdy [OF that(2)] that(1) by (simp add: cc_slots_ok_def)
    with coll [OF that] show False by simp
  qed
  have op: "cx_op (cc_ctx s t) = conctrl_DONE" "cc_stage s t = \<infinity>" if "cc_committed s \<le> t" "t \<le> ?c" for t
  proof -
    have "cx_op (cc_ctx s t) = conctrl_DONE \<and> cc_stage s t = \<infinity>"
    proof (cases "t = cc_committed s")
      case False
      with that have t: "cc_committed s < t" by simp
      with ok(3) before [OF t that(2)] coll [OF t that(2)] rdy [OF that(2)] show ?thesis by (simp add: cc_slots_ok_def)
    qed (use ok(3) in \<open>simp add: cc_slots_ok_def\<close>)
    then show "cx_op (cc_ctx s t) = conctrl_DONE" "cc_stage s t = \<infinity>" by simp_all
  qed
  have old: "cc_window s t \<or> (\<not> cc_ready s t \<and> cc_stage s t = \<infinity> \<and> cx_op (cc_ctx s t) = conctrl_DONE)" if "?c \<le> t" "t < ?c + conctrl_BUFFER_SIZE" for t
  proof (cases "t < cc_committed s + conctrl_BUFFER_SIZE")
    case True
    then show ?thesis using that c by (simp add: cc_window_def)
  next
    case False
    then have "\<not> cc_ready s t" using ok(4) by (auto simp: cc_clients_ok_def)
    moreover have "t mod conctrl_BUFFER_SIZE = (t - conctrl_BUFFER_SIZE) mod conctrl_BUFFER_SIZE" using False by (simp add: le_mod_geq)
    then have "cc_stage s t = cc_stage s (t - conctrl_BUFFER_SIZE)" "cc_ctx s t = cc_ctx s (t - conctrl_BUFFER_SIZE)"
      by (simp_all add: cc_stage_def cc_ctx_def)
    moreover have "cc_committed s \<le> t - conctrl_BUFFER_SIZE" "t - conctrl_BUFFER_SIZE \<le> ?c" using False that by simp_all
    ultimately show ?thesis using op by simp
  qed
  have cl: "cc_clients_ok ?s"
  proof -
    have mono: "t < cc_committed s + conctrl_BUFFER_SIZE \<Longrightarrow> t < ?c + conctrl_BUFFER_SIZE" for t using c(1) by simp
    from ok(4) show ?thesis unfolding cc_clients_ok_def same by (auto intro!: mono)
  qed
  have mo: "cc_monitor_ok ?s" using m pc unfolding cc_monitor_ok_def same by simp
  have sl: "cc_slots_ok n W ?s"
    unfolding cc_slots_ok_def same win
  proof (intro conjI allI impI)
    show "cx_op (cc_ctxs ?s 0) = conctrl_DONE" using ok(3) by (simp add: cc_slots_ok_def)
    show "cc_stage s (cc_committed ?s) = \<infinity>" "cx_op (cc_ctx s (cc_committed ?s)) = conctrl_DONE" using op [of ?c] c(1) by simp_all
  next
    fix t assume t: "?c \<le> t \<and> t < ?c + conctrl_BUFFER_SIZE" "cc_committed ?s < t" "cc_ready s t" "cc_exit n s \<le> t"
    then show "cc_stage s t = 0" using old [of t] ok(3) c(1) by (auto simp: cc_slots_ok_def)
  next
    fix t assume t: "?c \<le> t \<and> t < ?c + conctrl_BUFFER_SIZE" "cc_committed ?s < t" "\<not> cc_ready s t"
    then show "cc_stage s t = \<infinity>" "\<not> cc_written s t \<Longrightarrow> cx_op (cc_ctx s t) = conctrl_DONE"
      using old [of t] ok(3) c(1) by (auto simp: cc_slots_ok_def)
  next
    fix t assume t: "cc_committed ?s < t" "t < cc_exit n s" "cc_ready s t"
    then show "if cc_stage s t = \<infinity> then cx_op (cc_ctx s t) = conctrl_DONE else \<exists>w<W. cc_works s w t"
      using ok(3) c(1) by (auto simp: cc_slots_ok_def)
  next
    fix t assume t: "?c \<le> t \<and> t < ?c + conctrl_BUFFER_SIZE" "0 < t" "cc_ready s t" "t mod conctrl_BUFFER_SIZE \<noteq> 0"
    then show "cc_request s t (cc_ctx s t)" using old [of t] ok(3) by (auto simp: cc_slots_ok_def)
  qed
  have wk: "cc_workers_ok n W ?s"
    unfolding cc_workers_ok_def same
  proof (intro conjI allI impI)
    fix w t assume w: "cc_works s w t"
    note x = works_task [OF ok(2) w]
    show "cc_committed ?s < t" using x(2,5) coll [of t] by (cases "t \<le> ?c") auto
    show "w < W" "t < cc_exit n s" "cc_ready s t" "cc_stage s t \<noteq> \<infinity>" "t mod conctrl_BUFFER_SIZE \<noteq> 0" using x by simp_all
  qed (use ok(2) [unfolded cc_workers_ok_def] in \<open>simp_all\<close>)
  have "?c < cc_exit n s" using before [of ?c] ok(1) c(1) by (cases "cc_committed s = ?c") (auto simp: cc_pipes_ok_def)
  then have "cc_pipes_ok n ?s" using ok(1) by (simp add: cc_pipes_ok_def same)
  with cl mo sl wk show ?thesis by (simp add: cc_inv_def)
qed

lemma pipes_ok_pace:
  assumes ok: "cc_pipes_ok n s" and k: "cc_pace s 0 \<le> k"
  shows "cc_pipes_ok n (s\<lparr>cc_pace := (cc_pace s)(0 := k)\<rparr>)" (is "cc_pipes_ok n ?s")
proof -
  have same: "cc_ready ?s = cc_ready s" "cc_exit n ?s = cc_exit n s" by (simp_all add: fun_eq_iff cc_ready_def cc_held_def cc_exit_def)
  have more: "cc_pipe_ok r (cc_pace s 0) l y \<Longrightarrow> cc_pipe_ok r k l y" for r l y using k by (auto simp: cc_pipe_ok_def)
  have "cc_pipe_ok (cc_ready s) (((cc_pace s)(0 := k)) p) (p = n) (cc_pipes s p)" if "p \<le> n" for p
    using pipe_ok [OF ok that] more by (cases "p = 0") auto
  then show ?thesis using ok by (simp add: cc_pipes_ok_def same)
qed

lemma monitor_next_ready:
  assumes inv: "cc_inv n W s" and pc: "mo_pc s = MO_Init" "mo_next s < mo_submitted s" "cc_stage s (Suc (mo_next s)) = 0"
  shows "cc_ready s (Suc (mo_next s))"
proof (rule ccontr)
  let ?t = "Suc (mo_next s)"
  assume nr: "\<not> cc_ready s ?t"
  have ok: "cc_slots_ok n W s" "cc_clients_ok s" "cc_monitor_ok s" using inv by (simp_all add: cc_inv_def)
  note m = ok(3) [unfolded cc_monitor_ok_def]
  have "cc_ready s (mo_next s)" "cc_committed s \<le> mo_next s" using m pc by simp_all
  then have w: "mo_next s < cc_committed s + conctrl_BUFFER_SIZE" using ok(2) by (simp add: cc_clients_ok_def)
  have c0: "cc_stage s (cc_committed s) = \<infinity>" using ok(1) by (simp add: cc_slots_ok_def)
  show False
  proof (cases "?t = cc_committed s + conctrl_BUFFER_SIZE")
    case True
    then have "cc_stage s ?t = cc_stage s (cc_committed s)" by (simp add: cc_stage_def)
    with c0 pc(3) show False by simp
  next
    case False
    with w have "cc_window s ?t" "cc_committed s < ?t" using \<open>cc_committed s \<le> mo_next s\<close> by (simp_all add: cc_window_def)
    with nr ok(1) pc(3) show False by (simp add: cc_slots_ok_def)
  qed
qed

lemma inv_monitor:
  assumes inv: "cc_inv n W s" and step: "concow_monitor_step s s'"
  shows "cc_inv n W s'"
proof -
  have ok: "cc_slots_ok n W s" "cc_clients_ok s" "cc_monitor_ok s" "cc_workers_ok n W s" "cc_pipes_ok n s" using inv by (simp_all add: cc_inv_def)
  note m = ok(3) [unfolded cc_monitor_ok_def]
  have goal: "cc_inv n W s'" if "cc_slots_ok n W s' = cc_slots_ok n W s" "cc_clients_ok s' = cc_clients_ok s" "cc_workers_ok n W s' = cc_workers_ok n W s"
    "cc_pipes_ok n s' = cc_pipes_ok n s" "cc_monitor_ok s'"
    using inv that by (simp add: cc_inv_def)
  from step show ?thesis
  proof cases
    case poll
    then show ?thesis by (intro goal) (use m in \<open>auto simp: cc_monitor_ok_def cc_ready_def cc_held_def cc_stage_def\<close>)
  next
    case load
    then show ?thesis by (intro goal) (use m in \<open>auto simp: cc_monitor_ok_def cc_ready_def cc_held_def cc_stage_def\<close>)
  next
    case init
    have "cc_ready s (Suc (mo_next s))" by (rule monitor_next_ready [OF inv init(2-4)])
    then show ?thesis using init by (intro goal) (use m in \<open>auto simp: cc_monitor_ok_def cc_ready_def cc_held_def cc_stage_def le_Suc_eq\<close>)
  next
    case init_end
    then show ?thesis by (intro goal) (use m in \<open>auto simp: cc_monitor_ok_def cc_ready_def cc_held_def cc_stage_def\<close>)
  next
    case collect
    then show ?thesis by (intro goal) (use m in \<open>auto simp: cc_monitor_ok_def cc_ready_def cc_held_def cc_stage_def le_Suc_eq\<close>)
  next
    case flag
    then show ?thesis by (intro goal) (use m in \<open>auto simp: cc_monitor_ok_def cc_ready_def cc_held_def cc_stage_def\<close>)
  next
    case collect_end
    then show ?thesis by (intro goal) (use m in \<open>auto simp: cc_monitor_ok_def cc_ready_def cc_held_def cc_stage_def\<close>)
  next
    case publish
    then show ?thesis by (intro goal) (use m in \<open>auto simp: cc_monitor_ok_def cc_ready_def cc_held_def cc_stage_def\<close>)
  next
    case nothing_new
    then show ?thesis by (intro goal) (use m in \<open>auto simp: cc_monitor_ok_def cc_ready_def cc_held_def cc_stage_def\<close>)
  next
    case commit
    with inv_commit [OF inv] show ?thesis by simp
  next
    case advance
    show ?thesis
    proof (cases "mo_next s > mo_inited s")
      case False
      with advance show ?thesis by (intro goal) (use m in \<open>auto simp: cc_monitor_ok_def cc_ready_def cc_held_def cc_stage_def\<close>)
    next
      case True
      have p: "cc_pipes_ok n (s\<lparr>mo_inited := mo_next s, cc_pace := (cc_pace s)(0 := mo_next s)\<rparr>)"
        using pipes_ok_pace [of n "s\<lparr>mo_inited := mo_next s\<rparr>" "mo_next s"] ok(5) m advance True by simp
      from True advance have "cc_monitor_ok s'" using m by (auto simp: cc_monitor_ok_def cc_ready_def cc_held_def cc_stage_def)
      with p advance True ok show ?thesis by (simp add: cc_inv_def)
    qed
  next
    case (finish margin)
    have "margin \<le> 2 * concow_BATCH_SIZE" using finish(5) mod_less_divisor [OF buffer_batch(2)]
      by (simp add: less_imp_le mult_2)
    moreover have p: "cc_pipes_ok n (s\<lparr>cc_pace := (cc_pace s)(0 := mo_inited s + margin)\<rparr>)"
      by (rule pipes_ok_pace [OF ok(5)]) (use m finish in auto)
    ultimately have "cc_monitor_ok s'" using m finish by (auto simp: cc_monitor_ok_def cc_ready_def cc_held_def cc_stage_def)
    with p finish ok show ?thesis by (simp add: cc_inv_def)
  qed
qed

end
