(* ===== verification/Concow_Clients.thy ===== *)
theory Concow_Clients
  imports Concow_Safe
begin

text \<open>The clients of \<^verbatim>\<open>concow\<close> keep the invariant, and so does the whole.\<close>

section \<open>Clients\<close>

lemma unstopped:
  assumes "cc_inv n W s" "cc_clients s i \<noteq> CC_Idle"
  shows "\<not> cc_stop s" "\<not> mo_stop s" "mo_pc s \<noteq> MO_Done" "cc_pace s 0 = mo_inited s"
proof -
  show st: "\<not> cc_stop s" using assms by (auto simp: cc_inv_def cc_clients_ok_def)
  then show "\<not> mo_stop s" "mo_pc s \<noteq> MO_Done" "cc_pace s 0 = mo_inited s" using assms(1) by (auto simp: cc_inv_def cc_monitor_ok_def)
qed

lemma set_client_same:
  fixes s :: "('x ctx_scheme, 'm) concow"
  shows "cc_window (cc_set_client i c s) = cc_window s" "cc_works (cc_set_client i c s) = cc_works s"
    "cc_free (cc_set_client i c s) = cc_free s" "cc_ctx (cc_set_client i c s) = cc_ctx s"
    "cc_stage (cc_set_client i c s) = cc_stage s" "cc_committed (cc_set_client i c s) = cc_committed s" "cc_ctxs (cc_set_client i c s) = cc_ctxs s"
    "(cc_request (cc_set_client i c s) :: nat \<Rightarrow> 'x ctx_scheme \<Rightarrow> bool) = cc_request s" "cc_exit n (cc_set_client i c s) = cc_exit n s"
    "cc_workers (cc_set_client i c s) = cc_workers s" "cc_available (cc_set_client i c s) = cc_available s"
    "cc_worker_tid (cc_set_client i c s) = cc_worker_tid s" "cc_pipes (cc_set_client i c s) = cc_pipes s" "cc_pace (cc_set_client i c s) = cc_pace s"
    "cc_hist (cc_set_client i c s) = cc_hist s" "cc_submitted (cc_set_client i c s) = cc_submitted s" "cc_stop (cc_set_client i c s) = cc_stop s"
    "mo_pc (cc_set_client i c s) = mo_pc s" "mo_stop (cc_set_client i c s) = mo_stop s" "mo_submitted (cc_set_client i c s) = mo_submitted s"
    "mo_inited (cc_set_client i c s) = mo_inited s" "mo_committed (cc_set_client i c s) = mo_committed s" "mo_next (cc_set_client i c s) = mo_next s"
    "cc_clients (cc_set_client i c s) j = (if j = i then c else cc_clients s j)"
  by (simp_all add: fun_eq_iff cc_set_client_def cc_window_def cc_works_def cc_free_def cc_ctx_def cc_stage_def cc_request_def cc_exit_def)

lemma client_holds:
  assumes "cc_clients_ok s" "cc_holds (cc_clients s i) t k v"
  shows "0 < t" "t \<le> cc_submitted s" "cc_hist s ! (t - 1) = (if t mod conctrl_BUFFER_SIZE = 0 then None else Some (k, v))"
    "cc_holds (cc_clients s j) t k' v' \<Longrightarrow> i = j"
proof -
  from assms(1) have "\<forall>i t k v. cc_holds (cc_clients s i) t k v \<longrightarrow> 0 < t \<and> t \<le> cc_submitted s \<and>
        cc_hist s ! (t - 1) = (if t mod conctrl_BUFFER_SIZE = 0 then None else Some (k, v))"
    "\<forall>i j t k v k' v'. cc_holds (cc_clients s i) t k v \<longrightarrow> cc_holds (cc_clients s j) t k' v' \<longrightarrow> i = j"
    unfolding cc_clients_ok_def by simp_all
  with assms(2) show "0 < t" "t \<le> cc_submitted s" "cc_hist s ! (t - 1) = (if t mod conctrl_BUFFER_SIZE = 0 then None else Some (k, v))"
    "cc_holds (cc_clients s j) t k' v' \<Longrightarrow> i = j" by (simp_all, blast)
qed

lemma client_skipping: "cc_clients_ok s \<Longrightarrow> cc_clients s i = CC_Skipping j t k v \<Longrightarrow> t mod conctrl_BUFFER_SIZE = 0"
  unfolding cc_clients_ok_def by blast

lemma client_rest:
  assumes "cc_clients_ok s"
  shows "length (cc_hist s) = cc_submitted s" "cc_stop s \<Longrightarrow> cc_clients s i = CC_Idle"
    "cc_writes (cc_clients s i) t \<Longrightarrow> t < cc_committed s + conctrl_BUFFER_SIZE" "cc_ready s t \<Longrightarrow> t < cc_committed s + conctrl_BUFFER_SIZE"
  using assms unfolding cc_clients_ok_def by simp_all

lemma client_writing:
  assumes "cc_clients_ok s" "cc_clients s i = CC_Writing j t k v"
  shows "t mod conctrl_BUFFER_SIZE \<noteq> 0" "j \<le> 5" "sq_stored j t k v (cc_ctx s t)"
  using assms unfolding cc_clients_ok_def by blast+

text \<open>A client moves on without a store: it holds the number it held before.\<close>

lemma inv_set_client:
  assumes inv: "cc_inv n W s" and h: "\<And>t k v. cc_holds c t k v = cc_holds (cc_clients s i) t k v"
    and w: "\<And>t. cc_writes (cc_clients s i) t \<Longrightarrow> cc_writes c t" "\<And>t. cc_writes c t \<Longrightarrow> t < cc_committed s + conctrl_BUFFER_SIZE"
    and c: "c \<noteq> CC_Idle \<Longrightarrow> \<not> cc_stop s"
      "\<And>j t k v. c = CC_Writing j t k v \<Longrightarrow> t mod conctrl_BUFFER_SIZE \<noteq> 0 \<and> j \<le> 5 \<and> sq_stored j t k v (cc_ctx s t)"
      "\<And>j t k v. c = CC_Skipping j t k v \<Longrightarrow> t mod conctrl_BUFFER_SIZE = 0"
  shows "cc_inv n W (cc_set_client i c s)" (is "cc_inv n W ?s")
proof -
  have ok: "cc_slots_ok n W s" "cc_clients_ok s" "cc_monitor_ok s" "cc_workers_ok n W s" "cc_pipes_ok n s" using inv by (simp_all add: cc_inv_def)
  have holds: "cc_holds (cc_clients ?s j) t k v = cc_holds (cc_clients s j) t k v" for j t k v by (simp add: set_client_same h)
  then have held: "cc_held ?s = cc_held s" by (simp add: fun_eq_iff cc_held_def)
  then have ready: "cc_ready ?s = cc_ready s" by (simp add: fun_eq_iff cc_ready_def set_client_same)
  have written: "cc_written s t \<Longrightarrow> cc_written ?s t" for t unfolding cc_written_def set_client_same using w(1) by metis
  have "cc_clients_ok ?s"
    unfolding cc_clients_ok_def holds ready
  proof (intro conjI allI impI)
    have cl: "cc_clients ?s j = (if j = i then c else cc_clients s j)" for j by (simp add: set_client_same)
    note o = ok(2) [unfolded cc_clients_ok_def]
    show "cc_clients ?s j = CC_Idle" if "cc_stop ?s" for j using that o c(1) unfolding cl set_client_same by auto
    show "t < cc_committed ?s + conctrl_BUFFER_SIZE" if "cc_writes (cc_clients ?s j) t" for j t
      using that o w(2) unfolding cl set_client_same by (cases "j = i") auto
    show "t mod conctrl_BUFFER_SIZE \<noteq> 0" "j' \<le> 5" "sq_stored j' t k v (cc_ctx ?s t)" if "cc_clients ?s j = CC_Writing j' t k v" for j j' t k v
      using that o c(2) unfolding cl set_client_same by (cases "j = i"; auto)+
    show "t mod conctrl_BUFFER_SIZE = 0" if "cc_clients ?s j = CC_Skipping j' t k v" for j j' t k v
      using that client_skipping [OF ok(2), of j j' t k v] c(3) unfolding cl by (cases "j = i") simp_all
    show "t < cc_committed ?s + conctrl_BUFFER_SIZE" if "cc_ready s t" for t using that o unfolding set_client_same by blast
    show "length (cc_hist ?s) = cc_submitted ?s" unfolding set_client_same using o by blast
    show "0 < t" "t \<le> cc_submitted ?s" "cc_hist ?s ! (t - 1) = (if t mod conctrl_BUFFER_SIZE = 0 then None else Some (k, v))"
      if "cc_holds (cc_clients s j) t k v" for j t k v unfolding set_client_same by (rule client_holds [OF ok(2) that])+
    show "j = j'" if "cc_holds (cc_clients s j) t k v" "cc_holds (cc_clients s j') t k' v'" for j j' t k v k' v'
      by (rule client_holds(4) [OF ok(2) that])
  qed
  moreover have "cc_monitor_ok ?s = cc_monitor_ok s" by (simp only: cc_monitor_ok_def set_client_same ready)
  moreover have "cc_slots_ok n W ?s"
    unfolding cc_slots_ok_def set_client_same ready
  proof (intro conjI allI impI)
    fix t assume t: "cc_window s t" "cc_committed s < t" "\<not> cc_ready s t"
    with ok(1) show "cc_stage s t = \<infinity>" by (simp add: cc_slots_ok_def)
    assume "\<not> cc_written ?s t"
    then have "\<not> cc_written s t" using written by blast
    with t ok(1) show "cx_op (cc_ctx s t) = conctrl_DONE" by (simp add: cc_slots_ok_def)
  qed (use ok(1) [unfolded cc_slots_ok_def] in blast)+
  moreover have "cc_workers_ok n W ?s = cc_workers_ok n W s" by (simp only: cc_workers_ok_def set_client_same ready)
  moreover have "cc_pipes_ok n ?s = cc_pipes_ok n s" by (simp only: cc_pipes_ok_def set_client_same ready)
  ultimately show ?thesis using ok by (simp add: cc_inv_def)
qed

lemma inv_claim:
  assumes inv: "cc_inv n W s" and c: "cc_clients s i = CC_Claim k v" and t: "tid = Suc (cc_submitted s)"
  shows "cc_inv n W (cc_set_client i (CC_Waiting tid k v) (s\<lparr>cc_submitted := tid,
      cc_hist := cc_hist s @ [if tid mod conctrl_BUFFER_SIZE = 0 then None else Some (k, v)]\<rparr>))" (is "cc_inv n W ?s")
proof -
  have ok: "cc_slots_ok n W s" "cc_clients_ok s" "cc_monitor_ok s" "cc_workers_ok n W s" "cc_pipes_ok n s" using inv by (simp_all add: cc_inv_def)
  have st: "\<not> cc_stop s" "\<not> mo_stop s" "mo_pc s \<noteq> MO_Done" using unstopped [OF inv, of i] c by simp_all
  have le: "t' \<le> cc_submitted s" if "cc_holds (cc_clients s j) t' k' v'" for j t' k' v' by (rule client_holds(2) [OF ok(2) that])
  have len: "length (cc_hist s) = cc_submitted s" using ok(2) by (simp add: cc_clients_ok_def)
  have holds: "cc_holds (cc_clients ?s j) t' k' v' = (if j = i then t' = tid \<and> k' = k \<and> v' = v else cc_holds (cc_clients s j) t' k' v')" for j t' k' v'
    by (simp add: cc_set_client_def)
  have held: "cc_held ?s t' = (t' = tid \<or> cc_held s t')" for t'
  proof -
    have "cc_holds (cc_clients ?s j) t' k' v' = (j = i \<and> t' = tid \<and> k' = k \<and> v' = v \<or> cc_holds (cc_clients s j) t' k' v')" for j k' v'
      using c by (simp add: holds)
    then show ?thesis unfolding cc_held_def by blast
  qed
  have ready: "cc_ready ?s = cc_ready s"
  proof -
    have sub: "cc_submitted ?s = tid" by (simp add: cc_set_client_def)
    show ?thesis unfolding fun_eq_iff cc_ready_def held sub using t by auto
  qed
  have written: "cc_written ?s = cc_written s" unfolding fun_eq_iff cc_written_def using c by (auto simp: cc_set_client_def split: if_splits) force
  have same: "cc_window ?s = cc_window s" "cc_works ?s = cc_works s" "cc_free ?s = cc_free s" "cc_ctx ?s = cc_ctx s"
    "cc_stage ?s = cc_stage s" "cc_committed ?s = cc_committed s" "cc_ctxs ?s = cc_ctxs s" "cc_exit n ?s = cc_exit n s"
    "cc_workers ?s = cc_workers s" "cc_available ?s = cc_available s" "cc_submitted ?s = tid" "cc_stop ?s = cc_stop s"
    "cc_worker_tid ?s = cc_worker_tid s" "cc_pipes ?s = cc_pipes s" "cc_pace ?s = cc_pace s"
    "mo_pc ?s = mo_pc s" "mo_stop ?s = mo_stop s" "mo_submitted ?s = mo_submitted s"
    "mo_inited ?s = mo_inited s" "mo_committed ?s = mo_committed s" "mo_next ?s = mo_next s"
    "cc_hist ?s = cc_hist s @ [if tid mod conctrl_BUFFER_SIZE = 0 then None else Some (k, v)]"
    by (simp_all add: fun_eq_iff cc_set_client_def cc_window_def cc_works_def cc_free_def cc_ctx_def cc_stage_def cc_exit_def)
  have hist: "cc_hist ?s ! (t' - 1) = cc_hist s ! (t' - 1)" if "t' \<le> cc_submitted s" "0 < t'" for t'
  proof -
    have "t' - 1 < length (cc_hist s)" using that len by linarith
    then show ?thesis unfolding same by (simp only: nth_append if_True)
  qed
  have new: "cc_hist ?s ! (tid - 1) = (if tid mod conctrl_BUFFER_SIZE = 0 then None else Some (k, v))"
    using t len unfolding same by (simp add: nth_append)
  have other: "cc_clients ?s j = (if j = i then CC_Waiting tid k v else cc_clients s j)" for j by (simp add: cc_set_client_def)
  note o = ok(2) [unfolded cc_clients_ok_def]
  have "cc_clients_ok ?s"
    unfolding cc_clients_ok_def ready holds
  proof (intro conjI allI impI)
    show "length (cc_hist ?s) = cc_submitted ?s" unfolding same using len t by simp
  next
    fix j t' k' v' assume a: "if j = i then t' = tid \<and> k' = k \<and> v' = v else cc_holds (cc_clients s j) t' k' v'"
    show "0 < t'" "t' \<le> cc_submitted ?s" using a t client_holds(1,2) [OF ok(2), of j t' k' v'] unfolding same by (auto split: if_splits)
    show "cc_hist ?s ! (t' - 1) = (if t' mod conctrl_BUFFER_SIZE = 0 then None else Some (k', v'))"
    proof (cases "j = i")
      case True
      then show ?thesis using a new by simp
    next
      case False
      with a have "cc_holds (cc_clients s j) t' k' v'" by simp
      from client_holds(1-3) [OF ok(2) this] show ?thesis by (simp only: hist)
    qed
  next
    fix j j' t' k1 v1 k2 v2
    assume "if j = i then t' = tid \<and> k1 = k \<and> v1 = v else cc_holds (cc_clients s j) t' k1 v1"
      "if j' = i then t' = tid \<and> k2 = k \<and> v2 = v else cc_holds (cc_clients s j') t' k2 v2"
    then show "j = j'" using client_holds(4) [OF ok(2), of j t' k1 v1 j' k2 v2] le [of j t' k1 v1] le [of j' t' k2 v2] t
      by (auto split: if_splits)
  next
    fix j assume "cc_stop ?s"
    then show "cc_clients ?s j = CC_Idle" using st same by simp
  next
    fix t' assume "cc_ready s t'"
    with o show "t' < cc_committed ?s + conctrl_BUFFER_SIZE" unfolding same by blast
  next
    fix j t' assume "cc_writes (cc_clients ?s j) t'"
    then have "cc_writes (cc_clients s j) t'" unfolding other by (simp split: if_splits)
    with ok(2) show "t' < cc_committed ?s + conctrl_BUFFER_SIZE" unfolding same by (rule client_rest(3))
  next
    fix j j' t' k' v' assume "cc_clients ?s j = CC_Writing j' t' k' v'"
    then have "cc_clients s j = CC_Writing j' t' k' v'" unfolding other by (simp split: if_splits)
    from client_writing [OF ok(2) this]
    show "t' mod conctrl_BUFFER_SIZE \<noteq> 0" "j' \<le> 5" "sq_stored j' t' k' v' (cc_ctx ?s t')" unfolding same .
  next
    fix j j' t' k' v' assume "cc_clients ?s j = CC_Skipping j' t' k' v'"
    then have "cc_clients s j = CC_Skipping j' t' k' v'" unfolding other by (simp split: if_splits)
    with ok(2) show "t' mod conctrl_BUFFER_SIZE = 0" by (rule client_skipping)
  qed
  moreover have "cc_monitor_ok ?s"
    using ok(3) st t unfolding cc_monitor_ok_def ready same by auto
  moreover have "cc_slots_ok n W ?s"
    unfolding cc_slots_ok_def ready written same
  proof (intro conjI allI impI)
    fix t' assume t': "cc_window s t'" "0 < t'" "cc_ready s t'" "t' mod conctrl_BUFFER_SIZE \<noteq> 0"
    then have "cc_request s t' (cc_ctx s t')" using ok(1) by (simp add: cc_slots_ok_def)
    moreover have "t' \<le> cc_submitted s" using t'(3) by (simp add: cc_ready_def)
    ultimately show "cc_request ?s t' (cc_ctx s t')" unfolding cc_request_def hist [OF \<open>t' \<le> cc_submitted s\<close> t'(2)] by simp
  qed (use ok(1) [unfolded cc_slots_ok_def] in blast)+
  moreover have "cc_workers_ok n W ?s = cc_workers_ok n W s" by (simp only: cc_workers_ok_def ready same)
  moreover have "cc_pipes_ok n ?s = cc_pipes_ok n s" by (simp only: cc_pipes_ok_def ready same)
  ultimately show ?thesis using ok by (simp add: cc_inv_def)
qed

text \<open>The stores of a client go to a context nobody else uses.\<close>

lemma inv_client_store:
  assumes inv: "cc_inv n W s" and w: "cc_writes (cc_clients s i) tid"
    and c: "\<And>j k v. cc_clients s i = CC_Writing j tid k v \<Longrightarrow> sq_stored j tid k v c" "tid mod conctrl_BUFFER_SIZE = 0 \<Longrightarrow> cx_op c = conctrl_DONE"
  shows "cc_inv n W (cc_set_ctx tid c s)"
proof -
  have ok: "cc_slots_ok n W s" "cc_clients_ok s" "cc_monitor_ok s" "cc_workers_ok n W s" "cc_pipes_ok n s" using inv by (simp_all add: cc_inv_def)
  define s1 where "s1 = cc_set_ctx tid c s"
  note win = inv_held_window [OF ok(2,3) w]
  have written: "cc_written s tid" using w by (auto simp: cc_written_def)
  have same: "cc_window s1 = cc_window s" "cc_committed s1 = cc_committed s"
    "cc_ready s1 = cc_ready s" "cc_exit n s1 = cc_exit n s" "cc_stage s1 = cc_stage s"
    "cc_written s1 = cc_written s" "cc_works s1 = cc_works s" "cc_hist s1 = cc_hist s" "cc_submitted s1 = cc_submitted s" "cc_clients s1 = cc_clients s"
    "cc_stop s1 = cc_stop s" "cc_workers s1 = cc_workers s" "cc_pipes s1 = cc_pipes s" "cc_available s1 = cc_available s"
    "cc_worker_tid s1 = cc_worker_tid s" "cc_free s1 = cc_free s"
    by (auto simp: fun_eq_iff s1_def cc_set_ctx_def cc_window_def cc_ready_def cc_held_def cc_exit_def cc_stage_def cc_written_def cc_works_def cc_free_def)
  have at: "cc_ctx s1 t = (if t = tid then c else cc_ctx s t)" if "cc_window s t" for t
    using window_mod [OF that win(1)] by (simp add: s1_def cc_ctx_def cc_set_ctx_def)
  have req: "cc_request s1 t d = cc_request s t d" for t and d :: "'a ctx_scheme" by (simp add: cc_request_def same)
  have c0: "cc_window s (cc_committed s)" by (simp add: cc_window_def buffer_pos)
  have f: "cc_monitor_ok s1 = cc_monitor_ok s" "cc_pipes_ok n s1 = cc_pipes_ok n s" by (simp_all add: s1_def cc_set_ctx_def)
  have zero: "cx_op (cc_ctxs s1 0) = conctrl_DONE"
    using ok(1) c(2) by (simp add: s1_def cc_set_ctx_def cc_slots_ok_def)
  have rw: "cc_window s t" "t \<noteq> tid" if "cc_ready s t" "cc_committed s < t" for t
    using inv_ready_window [OF ok(2) that(1)] that win(3) by auto
  have "cc_clients_ok s1"
    unfolding cc_clients_ok_def same
  proof (intro conjI allI impI)
    fix j j' t k v assume a: "cc_clients s j = CC_Writing j' t k v"
    note x = client_writing [OF ok(2) a]
    show "t mod conctrl_BUFFER_SIZE \<noteq> 0" "j' \<le> 5" using x by simp_all
    have wt: "cc_window s t" using inv_held_window(1) [OF ok(2,3), of j t] a by simp
    show "sq_stored j' t k v (cc_ctx s1 t)"
    proof (cases "t = tid")
      case True
      obtain k' v' where "cc_holds (cc_clients s i) tid k' v'" using w by (cases "cc_clients s i") auto
      moreover have "cc_holds (cc_clients s j) t k v" using a by simp
      ultimately have "i = j" using client_holds(4) [OF ok(2)] True by blast
      with c(1) a True wt show ?thesis by (simp add: at)
    next
      case False
      with x(3) wt show ?thesis by (simp add: at)
    qed
  qed (blast intro: client_rest [OF ok(2)] client_holds [OF ok(2)] client_skipping [OF ok(2)])+
  moreover have "cc_slots_ok n W s1"
    unfolding cc_slots_ok_def same req
  proof (intro conjI allI impI)
    show "cx_op (cc_ctxs s1 0) = conctrl_DONE" by (rule zero)
    show "cx_op (cc_ctx s1 (cc_committed s)) = conctrl_DONE" using ok(1) win(2) by (simp add: at [OF c0] cc_slots_ok_def)
  next
    fix t assume t: "cc_window s t" "cc_committed s < t" "\<not> cc_ready s t" "\<not> cc_written s t"
    then have "t \<noteq> tid" using written by blast
    with t ok(1) show "cx_op (cc_ctx s1 t) = conctrl_DONE" by (simp add: at cc_slots_ok_def)
  next
    fix t assume t: "cc_committed s < t" "t < cc_exit n s" "cc_ready s t"
    with ok(1) show "if cc_stage s t = \<infinity> then cx_op (cc_ctx s1 t) = conctrl_DONE else \<exists>w<W. cc_works s w t"
      using rw [OF t(3,1)] by (simp add: at cc_slots_ok_def)
  next
    fix t assume t: "cc_window s t" "0 < t" "cc_ready s t" "t mod conctrl_BUFFER_SIZE \<noteq> 0"
    then have "t \<noteq> tid" using win(3) by blast
    with t ok(1) show "cc_request s t (cc_ctx s1 t)" by (simp add: at cc_slots_ok_def)
  qed (use ok(1) [unfolded cc_slots_ok_def] in blast)+
  moreover have "cc_workers_ok n W s1"
    unfolding cc_workers_ok_def same
  proof (intro conjI allI impI)
    fix w assume a: "wk_pc (cc_workers s w) = WK_Finish"
    then have "cc_works s w (wk_tid (cc_workers s w))" by (simp add: cc_works_def wk_active_def)
    note t = works_task [OF ok(4) this]
    have "cx_op (cc_ctx s (wk_tid (cc_workers s w))) = conctrl_DONE" using ok(4) a by (simp add: cc_workers_ok_def)
    with rw [OF t(4,2)] show "cx_op (cc_ctx s1 (wk_tid (cc_workers s w))) = conctrl_DONE" by (simp add: at)
  qed (use ok(4) [unfolded cc_workers_ok_def] in \<open>simp_all\<close>)
  ultimately show ?thesis using ok f by (simp add: cc_inv_def s1_def)
qed

text \<open>The store of the stage releases the task number.\<close>

lemma inv_release:
  assumes inv: "cc_inv n W s" and w: "cc_writes (cc_clients s i) tid" and c: "c = CC_Idle \<or> (\<exists>k v. c = CC_Claim k v)"
    and r: "tid mod conctrl_BUFFER_SIZE \<noteq> 0 \<Longrightarrow> \<exists>k v. cc_clients s i = CC_Writing 5 tid k v"
  shows "cc_inv n W (cc_set_client i c (cc_set_stage tid 0 s))"
proof -
  have ok: "cc_slots_ok n W s" "cc_clients_ok s" "cc_monitor_ok s" "cc_workers_ok n W s" "cc_pipes_ok n s" using inv by (simp_all add: cc_inv_def)
  define s1 where "s1 = cc_set_client i c (cc_set_stage tid 0 s)"
  note win = inv_held_window [OF ok(2,3) w]
  have st: "\<not> cc_stop s" "\<not> mo_stop s" "mo_pc s \<noteq> MO_Done" "cc_pace s 0 = mo_inited s" using unstopped [OF inv, of i] w by (cases "cc_clients s i"; auto)+
  obtain k v where kv: "cc_holds (cc_clients s i) tid k v" using w by (cases "cc_clients s i") auto
  have only: "t = tid" if "cc_holds (cc_clients s i) t k' v'" for t k' v' using kv that by (cases "cc_clients s i") auto
  have nc: "\<not> cc_holds c t k' v'" "\<not> cc_writes c t" for t k' v' using c by auto
  have cl: "cc_clients s1 j = (if j = i then c else cc_clients s j)" for j by (simp add: s1_def cc_set_client_def cc_set_stage_def)
  have same: "cc_window s1 = cc_window s" "cc_committed s1 = cc_committed s" "cc_exit n s1 = cc_exit n s" "cc_ctx s1 = cc_ctx s" "cc_ctxs s1 = cc_ctxs s"
    "cc_works s1 = cc_works s" "cc_hist s1 = cc_hist s" "cc_submitted s1 = cc_submitted s"
    "cc_stop s1 = cc_stop s" "cc_workers s1 = cc_workers s" "cc_pipes s1 = cc_pipes s" "cc_available s1 = cc_available s"
    "cc_worker_tid s1 = cc_worker_tid s" "cc_free s1 = cc_free s" "cc_pace s1 = cc_pace s"
    "mo_pc s1 = mo_pc s" "mo_stop s1 = mo_stop s" "mo_submitted s1 = mo_submitted s"
    "mo_inited s1 = mo_inited s" "mo_committed s1 = mo_committed s" "mo_next s1 = mo_next s"
    by (auto simp: fun_eq_iff s1_def cc_set_client_def cc_set_stage_def cc_window_def cc_exit_def cc_ctx_def cc_works_def cc_free_def)
  have req: "cc_request s1 t d = cc_request s t d" for t and d :: "'a ctx_scheme" by (simp add: cc_request_def same)
  have held: "cc_held s1 t = (t \<noteq> tid \<and> cc_held s t)" for t
  proof
    assume "cc_held s1 t"
    then obtain j k' v' where j: "cc_holds (cc_clients s1 j) t k' v'" by (auto simp: cc_held_def)
    then have ji: "j \<noteq> i" using nc by (auto simp: cl)
    with j have h: "cc_holds (cc_clients s j) t k' v'" by (simp add: cl)
    with client_holds(4) [OF ok(2) kv, of j k' v'] ji have "t \<noteq> tid" by auto
    with h show "t \<noteq> tid \<and> cc_held s t" by (auto simp: cc_held_def)
  next
    assume t: "t \<noteq> tid \<and> cc_held s t"
    then obtain j k' v' where h: "cc_holds (cc_clients s j) t k' v'" by (auto simp: cc_held_def)
    then have "j \<noteq> i" using only [of t k' v'] t by auto
    with h have "cc_holds (cc_clients s1 j) t k' v'" by (simp add: cl)
    then show "cc_held s1 t" by (auto simp: cc_held_def)
  qed
  have le: "tid \<le> cc_submitted s" by (rule client_holds(2) [OF ok(2) kv])
  have ready: "cc_ready s1 t = (t = tid \<or> cc_ready s t)" for t using le by (auto simp: cc_ready_def held same)
  have written: "cc_written s1 t" if "cc_written s t" "t \<noteq> tid" for t
  proof -
    from that(1) obtain j where j: "cc_writes (cc_clients s j) t" by (auto simp: cc_written_def)
    then obtain k' v' where "cc_holds (cc_clients s j) t k' v'" by (cases "cc_clients s j") auto
    then have "j \<noteq> i" using only that(2) by auto
    with j have "cc_writes (cc_clients s1 j) t" by (simp add: cl)
    then show ?thesis by (auto simp: cc_written_def)
  qed
  have stage: "cc_stage s1 t = (if t = tid then 0 else cc_stage s t)" if "cc_window s t" for t
  proof -
    have "cc_stage s1 t = cc_stage (cc_set_stage tid 0 s) t" by (simp add: s1_def cc_stage_def cc_set_client_def)
    then show ?thesis using set_stage_window [OF win(1) that, of 0] by simp
  qed
  have c0: "cc_window s (cc_committed s)" by (simp add: cc_window_def buffer_pos)
  have rw: "cc_window s t" if "cc_ready s t" "cc_committed s < t" for t using inv_ready_window [OF ok(2) that(1)] that(2) by simp
  have inited: "mo_inited s < tid"
  proof (rule ccontr)
    assume "\<not> mo_inited s < tid"
    moreover have "\<forall>t \<le> mo_inited s. cc_ready s t" using ok(3) by (simp add: cc_monitor_ok_def)
    ultimately show False using win(3) by simp
  qed
  have exit: "cc_exit n s \<le> tid"
  proof -
    have "cc_exit n s \<le> pp_tid (cc_pipes s 0)" by (rule pipe_exit(1) [OF ok(5)]) simp
    also have "\<dots> \<le> Suc (cc_pace s 0)" by (rule pipes_tid_pace(1) [OF ok(5)]) simp
    finally show ?thesis using st(4) inited by simp
  qed
  have "cc_clients_ok s1"
    unfolding cc_clients_ok_def
  proof (intro conjI allI impI)
    show "length (cc_hist s1) = cc_submitted s1" unfolding same by (rule client_rest(1) [OF ok(2)])
    show "cc_clients s1 j = CC_Idle" if "cc_stop s1" for j using that st(1) by (simp add: same)
  next
    fix j t k' v' assume "cc_holds (cc_clients s1 j) t k' v'"
    then have "cc_holds (cc_clients s j) t k' v'" using nc by (auto simp: cl split: if_splits)
    from client_holds(1-3) [OF ok(2) this]
    show "0 < t" "t \<le> cc_submitted s1" "cc_hist s1 ! (t - 1) = (if t mod conctrl_BUFFER_SIZE = 0 then None else Some (k', v'))" unfolding same .
  next
    fix j j' t k1 v1 k2 v2 assume "cc_holds (cc_clients s1 j) t k1 v1" "cc_holds (cc_clients s1 j') t k2 v2"
    then have "cc_holds (cc_clients s j) t k1 v1" "cc_holds (cc_clients s j') t k2 v2" using nc by (auto simp: cl split: if_splits)
    then show "j = j'" by (rule client_holds(4) [OF ok(2)])
  next
    fix j t assume "cc_writes (cc_clients s1 j) t"
    then have "cc_writes (cc_clients s j) t" using nc by (auto simp: cl split: if_splits)
    then show "t < cc_committed s1 + conctrl_BUFFER_SIZE" unfolding same by (rule client_rest(3) [OF ok(2)])
  next
    fix j j' t k' v' assume "cc_clients s1 j = CC_Writing j' t k' v'"
    then have "cc_clients s j = CC_Writing j' t k' v'" using c by (auto simp: cl split: if_splits)
    from client_writing [OF ok(2) this]
    show "t mod conctrl_BUFFER_SIZE \<noteq> 0" "j' \<le> 5" "sq_stored j' t k' v' (cc_ctx s1 t)" unfolding same .
  next
    fix j j' t k' v' assume "cc_clients s1 j = CC_Skipping j' t k' v'"
    then have "cc_clients s j = CC_Skipping j' t k' v'" using c by (auto simp: cl split: if_splits)
    with ok(2) show "t mod conctrl_BUFFER_SIZE = 0" by (rule client_skipping)
  next
    fix t assume "cc_ready s1 t"
    then show "t < cc_committed s1 + conctrl_BUFFER_SIZE" using client_rest(4) [OF ok(2), of t] win(1) by (auto simp: ready same cc_window_def)
  qed
  moreover have "cc_monitor_ok s1"
  proof -
    have m: "cc_monitor_ok (cc_set_stage tid 0 s)" by (rule monitor_ok_stage [OF ok(2,3) win(1)]) (simp add: inited)
    have f: "cc_ready (cc_set_stage tid 0 s) = cc_ready s" "cc_stage (cc_set_stage tid 0 s) = cc_stage s1"
      "cc_committed (cc_set_stage tid 0 s) = cc_committed s" "mo_committed (cc_set_stage tid 0 s) = mo_committed s"
      "mo_inited (cc_set_stage tid 0 s) = mo_inited s" "mo_submitted (cc_set_stage tid 0 s) = mo_submitted s" "mo_next (cc_set_stage tid 0 s) = mo_next s"
      "mo_pc (cc_set_stage tid 0 s) = mo_pc s" "mo_stop (cc_set_stage tid 0 s) = mo_stop s" "cc_submitted (cc_set_stage tid 0 s) = cc_submitted s"
      "cc_pace (cc_set_stage tid 0 s) = cc_pace s" "cc_stop (cc_set_stage tid 0 s) = cc_stop s"
      by (simp_all add: fun_eq_iff cc_ready_def cc_held_def cc_set_stage_def s1_def cc_stage_def cc_set_client_def)
    show ?thesis unfolding cc_monitor_ok_def ready same
      by (intro conjI impI allI) (use m [unfolded cc_monitor_ok_def f] in blast)+
  qed
  moreover have "cc_slots_ok n W s1"
    unfolding cc_slots_ok_def same req
  proof (intro conjI allI impI)
    show "cc_stage s1 (cc_committed s) = \<infinity>" using ok(1) win(2) by (simp add: stage [OF c0] cc_slots_ok_def)
  next
    fix t assume t: "cc_window s t" "cc_committed s < t" "cc_ready s1 t" "cc_exit n s \<le> t"
    with ok(1) show "cc_stage s1 t = 0" by (auto simp: ready stage cc_slots_ok_def)
  next
    fix t assume t: "cc_window s t" "cc_committed s < t" "\<not> cc_ready s1 t"
    with ok(1) show "cc_stage s1 t = \<infinity>" by (auto simp: ready stage cc_slots_ok_def)
    assume "\<not> cc_written s1 t"
    then have "\<not> cc_written s t" using written [of t] t(3) by (auto simp: ready)
    with t ok(1) show "cx_op (cc_ctx s t) = conctrl_DONE" by (auto simp: ready cc_slots_ok_def)
  next
    fix t assume t: "cc_committed s < t" "t < cc_exit n s" "cc_ready s1 t"
    then have "t \<noteq> tid" "cc_ready s t" using exit by (auto simp: ready)
    with t ok(1) rw [of t] show "if cc_stage s1 t = \<infinity> then cx_op (cc_ctx s t) = conctrl_DONE else \<exists>w<W. cc_works s w t"
      by (simp add: stage cc_slots_ok_def)
  next
    fix t assume t: "cc_window s t" "0 < t" "cc_ready s1 t" "t mod conctrl_BUFFER_SIZE \<noteq> 0"
    show "cc_request s t (cc_ctx s t)"
    proof (cases "t = tid")
      case True
      with t(4) r obtain k' v' where x: "cc_clients s i = CC_Writing 5 tid k' v'" by blast
      have "sq_stored 5 tid k' v' (cc_ctx s tid)" by (rule client_writing(3) [OF ok(2) x])
      moreover have "cc_hist s ! (tid - 1) = Some (k', v')" using client_holds(3) [OF ok(2), of i tid k' v'] x t(4) True by simp
      ultimately show ?thesis using True by (simp add: cc_request_def sq_stored_def)
    next
      case False
      with t ok(1) show ?thesis by (simp add: ready cc_slots_ok_def)
    qed
  qed (use ok(1) [unfolded cc_slots_ok_def] in blast)+
  moreover have "cc_workers_ok n W s1"
    unfolding cc_workers_ok_def same ready
  proof (intro conjI allI impI)
    fix w t assume w: "cc_works s w t"
    note t = works_task [OF ok(4) w]
    have "t \<noteq> tid" using t(3) exit by simp
    with t rw [OF t(4,2)] show "cc_stage s1 t \<noteq> \<infinity>" by (simp add: stage)
    show "w < W" "cc_committed s < t" "t < cc_exit n s" "t = tid \<or> cc_ready s t" "t mod conctrl_BUFFER_SIZE \<noteq> 0" using t by simp_all
  qed (use ok(4) [unfolded cc_workers_ok_def] in \<open>simp_all\<close>)
  moreover have "cc_pipes_ok n s1"
  proof -
    have "cc_pipe_ok (cc_ready s1) p l x" if "cc_pipe_ok (cc_ready s) p l x" for p l x
      using that by (auto simp: cc_pipe_ok_def ready)
    with ok(5) show ?thesis by (simp add: cc_pipes_ok_def same)
  qed
  ultimately show ?thesis by (simp add: cc_inv_def s1_def)
qed

lemma inv_client:
  assumes inv: "cc_inv n W s" and step: "concow_client_step s s'"
  shows "cc_inv n W s'"
  using step
proof cases
  case (call i k v)
  show ?thesis unfolding call(1) by (rule inv_set_client [OF inv]) (use call in simp_all)
next
  case (claim i k v tid)
  show ?thesis unfolding claim(1) by (rule inv_claim [OF inv claim(2,3)])
next
  case (place i tid k v)
  have st: "\<not> cc_stop s" using unstopped [OF inv, of i] place by simp
  show ?thesis unfolding place(1) by (rule inv_set_client [OF inv]) (use place st in \<open>auto simp: sq_stored_def split: if_splits\<close>)
next
  case (store i j tid k v)
  have ok: "cc_clients_ok s" using inv by (simp add: cc_inv_def)
  note x = client_writing [OF ok store(2)]
  have n: "sq_stored (Suc j) tid k v (seqcow_store j tid k v (cc_ctx s tid))" by (rule sq_stored_store [OF store(3) x(3)])
  let ?u = "cc_set_ctx tid (seqcow_store j tid k v (cc_ctx s tid)) s"
  have u: "cc_inv n W ?u"
  proof (rule inv_client_store [OF inv])
    show "cc_writes (cc_clients s i) tid" using store(2) by simp
    fix j' k' v' assume "cc_clients s i = CC_Writing j' tid k' v'"
    with store(2) have "j' = j" "k' = k" "v' = v" by simp_all
    then show "sq_stored j' tid k' v' (seqcow_store j tid k v (cc_ctx s tid))"
      using sq_stored_store_again [OF x(2) store(3) x(3)] by simp
  qed (use x(1) in simp)
  have st: "\<not> cc_stop s" using unstopped [OF inv, of i] store by simp
  have w: "tid < cc_committed s + conctrl_BUFFER_SIZE" using client_rest(3) [OF ok, of i tid] store(2) by simp
  have at: "cc_ctx ?u tid = seqcow_store j tid k v (cc_ctx s tid)" "cc_clients ?u = cc_clients s" "cc_stop ?u = cc_stop s" "cc_committed ?u = cc_committed s"
    by (simp_all add: cc_ctx_def cc_set_ctx_def)
  show ?thesis unfolding store(1)
    by (rule inv_set_client [OF u]) (use store st x n w in \<open>auto simp: at\<close>)
next
  case (return i tid k v)
  show ?thesis unfolding return(1) by (rule inv_release [OF inv]) (use return in simp_all)
next
  case (skip_sno i tid k v)
  have ok: "cc_clients_ok s" "cc_slots_ok n W s" using inv by (simp_all add: cc_inv_def)
  have z: "tid mod conctrl_BUFFER_SIZE = 0" by (rule client_skipping [OF ok(1) skip_sno(2)])
  have op: "cx_op (cc_ctx s tid) = conctrl_DONE" by (rule slot_0_done [OF ok(2) z])
  let ?u = "cc_set_ctx tid ((cc_ctx s tid)\<lparr>cx_sno := of_nat tid\<rparr>) s"
  have u: "cc_inv n W ?u" by (rule inv_client_store [OF inv, of i]) (use skip_sno op in simp_all)
  have st: "\<not> cc_stop s" using unstopped [OF inv, of i] skip_sno by simp
  have w: "tid < cc_committed s + conctrl_BUFFER_SIZE" using client_rest(3) [OF ok(1), of i tid] skip_sno(2) by simp
  have at: "cc_clients ?u = cc_clients s" "cc_stop ?u = cc_stop s" "cc_committed ?u = cc_committed s" by (simp_all add: cc_set_ctx_def)
  show ?thesis unfolding skip_sno(1)
    by (rule inv_set_client [OF u]) (use skip_sno st z w in \<open>auto simp: at\<close>)
next
  case (skip_stage i tid k v)
  have "cc_clients_ok s" using inv by (simp add: cc_inv_def)
  then have "tid mod conctrl_BUFFER_SIZE = 0" by (rule client_skipping [OF _ skip_stage(2)])
  then show ?thesis unfolding skip_stage(1) by (intro inv_release [OF inv]) (use skip_stage in simp_all)
qed

section \<open>The whole\<close>

lemma inv_stop:
  assumes "cc_inv n W s" "\<forall>i. cc_clients s i = CC_Idle"
  shows "cc_inv n W (s\<lparr>cc_stop := True\<rparr>)"
proof -
  have same: "cc_ready (s\<lparr>cc_stop := True\<rparr>) = cc_ready s" "cc_ctx (s\<lparr>cc_stop := True\<rparr>) = cc_ctx s" "cc_stage (s\<lparr>cc_stop := True\<rparr>) = cc_stage s"
    by (simp_all add: fun_eq_iff cc_ready_def cc_held_def cc_ctx_def cc_stage_def)
  have m: "cc_clients_ok s" "cc_monitor_ok s" using assms(1) by (simp_all add: cc_inv_def)
  have "cc_clients_ok (s\<lparr>cc_stop := True\<rparr>)" using m(1) assms(2) unfolding cc_clients_ok_def same by simp
  moreover have "cc_monitor_ok (s\<lparr>cc_stop := True\<rparr>)"
    unfolding cc_monitor_ok_def same by (intro conjI impI allI) (use m(2) [unfolded cc_monitor_ok_def] in \<open>simp_all\<close>)
  ultimately have "cc_clients_ok (s\<lparr>cc_stop := True\<rparr>)" "cc_monitor_ok (s\<lparr>cc_stop := True\<rparr>)" by simp_all
  with assms(1) show ?thesis by (simp add: cc_inv_def)
qed

lemma inv_quit:
  assumes inv: "cc_inv n W s" and d: "mo_pc s = MO_Done" "pp_pc (cc_pipes s n) = PP_Done"
  shows "cc_inv n W (s\<lparr>cc_worker_tid := (cc_worker_tid s)(w := None)\<rparr>)" (is "cc_inv n W ?s")
proof -
  have ok: "cc_slots_ok n W s" "cc_monitor_ok s" "cc_workers_ok n W s" using inv by (simp_all add: cc_inv_def)
  have nr: "\<not> cc_ready s t" if "cc_committed s < t" for t using ok(2) d(1) that by (simp add: cc_monitor_ok_def cc_ready_def)
  have nw: "\<not> cc_works s w' t" for w' t using works_task(2,4) [OF ok(3), of w' t] nr by blast
  have works: "\<not> cc_works ?s w' t" for w' t using nw [of w' t] by (auto simp: cc_works_def)
  have same: "cc_ready ?s = cc_ready s" "cc_window ?s = cc_window s" "cc_exit n ?s = cc_exit n s" "cc_stage ?s = cc_stage s"
    "cc_written ?s = cc_written s" "cc_ctx ?s = cc_ctx s" "cc_request ?s = cc_request s"
    by (simp_all add: fun_eq_iff cc_ready_def cc_held_def cc_window_def cc_exit_def cc_stage_def cc_written_def cc_ctx_def cc_request_def)
  have "cc_slots_ok n W ?s"
    using ok(1) nr unfolding cc_slots_ok_def same by simp
  moreover have "cc_workers_ok n W ?s"
    using ok(3) works d(2) unfolding cc_workers_ok_def same by simp
  ultimately show ?thesis using inv by (simp add: cc_inv_def)
qed

lemma inv_init: "cc_inv n W (concow_init W zero t_init m)"
proof -
  have r: "cc_ready (concow_init W zero t_init m) t = (t = 0)" for t by (simp add: cc_ready_def cc_held_def concow_init_def)
  have "cc_clients_ok (concow_init W zero t_init m)"
    unfolding cc_clients_ok_def r by (auto simp: concow_init_def buffer_pos)
  moreover have "cc_monitor_ok (concow_init W zero t_init m)"
    by (simp add: cc_monitor_ok_def r) (simp add: concow_init_def)
  moreover have "cc_slots_ok n W (concow_init W zero t_init m)"
    by (simp add: cc_slots_ok_def r) (auto simp: concow_init_def cc_stage_def cc_ctx_def cc_exit_def)
  moreover have "cc_workers_ok n W (concow_init W zero t_init m)"
    by (auto simp: cc_workers_ok_def cc_works_def cc_free_def concow_init_def wk_active_def cc_exit_def)
  moreover have "cc_pipes_ok n (concow_init W zero t_init m)"
    by (simp add: cc_pipes_ok_def cc_pipe_ok_def concow_init_def pp_busy_def cc_exit_def)
  ultimately show ?thesis by (simp add: cc_inv_def)
qed

lemma inv_step:
  assumes "cc_inv n W s" "lib_keeps_requests L" "0 < n" "concow_step L n W s s'"
  shows "cc_inv n W s'"
  using assms(4)
proof cases
  case client then show ?thesis by (rule inv_client [OF assms(1)])
next
  case monitor then show ?thesis by (rule inv_monitor [OF assms(1)])
next
  case (pipe_loop p) then show ?thesis by (intro inv_pipe_loop [OF assms(1)])
next
  case (iter_exec p) then show ?thesis by (intro inv_iter_exec [OF assms(1,2)])
next
  case entry then show ?thesis by (rule inv_entry [OF assms(1-3)])
next
  case (inner p) then show ?thesis by (intro inv_inner [OF assms(1)])
next
  case exit then show ?thesis by (rule inv_exit [OF assms(1)])
next
  case (worker w) then show ?thesis by (intro inv_worker [OF assms(1,2)])
next
  case stop then show ?thesis using inv_stop [OF assms(1)] by simp
next
  case (quit w) then show ?thesis using inv_quit [OF assms(1)] by simp
qed

lemma inv_reach:
  assumes "concow_reach L n W (concow_init W zero t_init m) s" "lib_keeps_requests L" "0 < n"
  shows "cc_inv n W s"
  using assms(1) by (induction rule: concow_reach.induct) (use assms(2,3) in \<open>auto intro: inv_init inv_step\<close>)

end
