(* ===== verification/Concow_Index.thy ===== *)
theory Concow_Index
  imports Concow_Clients Art_Cow Betree_Build Betree_Cow Returns
begin

text \<open>
  What \<^verbatim>\<open>concow\<close> relies on in a tree library, as a locale: the handlers leave the request in a
  context alone and \<^verbatim>\<open>checkpoint_handler\<close> leaves the stage alone; and the three libraries that
  keep it.
\<close>

section \<open>The contract\<close>

locale pipeline_index =
  fixes L :: "('x ctx_scheme, 'm) index_lib"
  assumes handlers_keep: "lib_handlers L op' c m = Some (op'', c', m') \<Longrightarrow> cx_sno c' = cx_sno c \<and> cx_key c' = cx_key c \<and> cx_val c' = cx_val c"
    and checkpoint_keeps: "lib_checkpoint L c m = Some (c', m') \<Longrightarrow> cx_op c' = cx_op c"
begin

lemma keeps: "lib_keeps_requests L"
  unfolding lib_keeps_requests_def using handlers_keep checkpoint_keeps by blast

lemma step_inv: "cc_inv n W s \<Longrightarrow> 0 < n \<Longrightarrow> concow_step L n W s s' \<Longrightarrow> cc_inv n W s'"
  by (rule inv_step [OF _ keeps])

lemma reach_inv: "concow_reach L n W (concow_init W zero t m) s \<Longrightarrow> 0 < n \<Longrightarrow> cc_inv n W s"
  by (rule inv_reach [OF _ keeps])

end

section \<open>The libraries\<close>

text \<open>The \<^verbatim>\<open>interface\<close> structures of \<^verbatim>\<open>src/adapters\<close>, and \<^verbatim>\<open>ver\<close> of their nodes.\<close>

definition btree_lib :: "(btree_ctx, bmem) index_lib" where
  "btree_lib = \<lparr>lib_handlers = btree_handlers, lib_checkpoint = (\<lambda>c m. Some (c, m)),
     lib_ver = (\<lambda>t m. do { n \<leftarrow> mem_get m t; Some (bt_ver n) })\<rparr>"

definition betree_lib :: "nat \<Rightarrow> (betree_ctx, bemem) index_lib" where
  "betree_lib fuel = \<lparr>lib_handlers = betree_handlers, lib_checkpoint = betree_checkpoint_handler fuel,
     lib_ver = (\<lambda>t m. do { n \<leftarrow> mem_get m t; Some (be_ver n) })\<rparr>"

definition art_lib :: "shifts \<Rightarrow> (art_ctx, amem) index_lib" where
  "art_lib ub = \<lparr>lib_handlers = art_handlers ub, lib_checkpoint = (\<lambda>c m. Some (c, m)),
     lib_ver = (\<lambda>t m. do { n \<leftarrow> mem_get m t; Some (ucast (an_ver n)) })\<rparr>"

definition same_request :: "'x ctx_scheme \<Rightarrow> 'x ctx_scheme \<Rightarrow> bool" where
  "same_request c c' \<longleftrightarrow> cx_sno c' = cx_sno c \<and> cx_key c' = cx_key c \<and> cx_val c' = cx_val c"

lemma btree_update_cow_keeps: "same_request c0 c \<Longrightarrow> returns (\<lambda>(op', c', m'). same_request c0 c') (btree_update_cow c m)"
  unfolding btree_update_cow_def Let_def by (intro returns_steps) (simp_all add: same_request_def)

lemma btree_handlers_keep: "same_request c0 c \<Longrightarrow> returns (\<lambda>(op'', c', m'). same_request c0 c') (btree_handlers op' c m)"
proof -
  assume c: "same_request c0 c"
  have "returns (\<lambda>(op'', c', m'). same_request c0 c') (btree_handle_init c m)"
    unfolding btree_handle_init_def Let_def
  proof (rule returns_bind, rule returns_bind_with [where Q = "\<lambda>(d, c', m'). same_request c0 c'"])
    fix n show "returns (\<lambda>(d, c', m'). same_request c0 c')
       (if bt_type n = BT_LEAF
        then btree_update_leaf_cow (cx_sno c) (cx_key c) (cx_val c) (cx_t_past c) m \<bind>
          (\<lambda>((key, t_l, t_r), m). if t_r = nullptr then Some (False, c\<lparr>cx_root := t_l\<rparr>, m)
              else btree_new_root (cx_sno c) key t_l t_r m \<bind> (\<lambda>(t, m). Some (True, c\<lparr>cx_root := t\<rparr>, m)))
        else Some (False, c, m))"
      by (intro returns_steps) (use c in \<open>simp_all add: same_request_def\<close>)
  qed (intro returns_steps btree_update_cow_keeps, auto simp: same_request_def)
  moreover have "returns (\<lambda>(op'', c', m'). same_request c0 c') (btree_handle_search_down c m)"
    unfolding btree_handle_search_down_def by (intro returns_bind btree_update_cow_keeps c)
  moreover have "returns (\<lambda>(op'', c', m'). same_request c0 c') (btree_handle_search_split c m)"
    unfolding btree_handle_search_split_def Let_def
    by (intro returns_bind btree_update_cow_keeps) (use c in \<open>simp add: same_request_def\<close>)
  ultimately show ?thesis by (simp add: btree_handlers_def returns_None)
qed

lemma betree_update_upper_keeps: "same_request c0 c \<Longrightarrow> returns (\<lambda>(op', t, c', m'). same_request c0 c') (betree_update_upper_cow c m)"
  unfolding betree_update_upper_cow_def Let_def by (intro returns_steps) (simp_all add: same_request_def)

lemma betree_update_lower_keeps: "same_request c0 c \<Longrightarrow> returns (\<lambda>(op', c', m'). same_request c0 c') (betree_update_lower_cow c m)"
  unfolding betree_update_lower_cow_def Let_def by (intro returns_steps) (simp_all add: same_request_def)

lemma betree_set_height_keeps: "same_request c0 c \<Longrightarrow> returns (\<lambda>(c', m'). same_request c0 c') (betree_set_height t h c m)"
  unfolding betree_set_height_def by (intro returns_steps) (simp add: same_request_def)

lemma betree_handlers_keep: "same_request c0 c \<Longrightarrow> returns (\<lambda>(op'', c', m'). same_request c0 c') (betree_handlers op' c m)"
proof -
  assume c: "same_request c0 c"
  note with_upper = returns_bind_with [OF betree_update_upper_keeps [of c0]]
  have "returns (\<lambda>(op'', c', m'). same_request c0 c') (betree_handle_init c m)"
    unfolding betree_handle_init_def by (rule with_upper, rule c, intro returns_steps) (auto simp: same_request_def)
  moreover have "returns (\<lambda>(op'', c', m'). same_request c0 c') (betree_handle_upper c m)"
    unfolding betree_handle_upper_def Let_def
    by (intro with_upper returns_steps) (use c in \<open>auto simp: same_request_def\<close>)
  moreover have "returns (\<lambda>(op'', c', m'). same_request c0 c') (betree_handle_elastic c m)"
    unfolding betree_handle_elastic_def Let_def
    by (intro returns_bind_with [OF betree_set_height_keeps [of c0]] betree_update_lower_keeps returns_steps) (use c in \<open>auto simp: same_request_def\<close>)
  moreover have "returns (\<lambda>(op'', c', m'). same_request c0 c') (betree_handle_lower c m)"
    unfolding betree_handle_lower_def by (intro returns_bind betree_update_lower_keeps c)
  moreover have "returns (\<lambda>(op'', c', m'). same_request c0 c') (betree_handle_split c m)"
    unfolding betree_handle_split_def Let_def
    by (intro returns_bind betree_update_lower_keeps) (use c in \<open>simp add: same_request_def\<close>)
  ultimately show ?thesis by (simp add: betree_handlers_def returns_None)
qed

lemma betree_checkpoint_keeps: "returns (\<lambda>(c', m'). cx_op c' = cx_op c) (betree_checkpoint_handler fuel c m)"
  unfolding betree_checkpoint_handler_def by (intro returns_steps) simp

lemma art_fork_keeps: "same_request c0 c \<Longrightarrow> returns (\<lambda>(t', c', m'). same_request c0 c') (art_fork_cow ub c t p m)"
  unfolding art_fork_cow_def Let_def by (intro returns_steps) (simp_all add: same_request_def)

lemma art_update_cow_keeps: "same_request c0 c \<Longrightarrow> returns (\<lambda>(op', t', c', m'). same_request c0 c') (art_update_cow ub c m)"
  unfolding art_update_cow_def Let_def
  by (intro returns_bind_with [OF art_fork_keeps [of c0]] returns_steps) (auto simp: same_request_def)

lemma art_handlers_keep: "same_request c0 c \<Longrightarrow> returns (\<lambda>(op'', c', m'). same_request c0 c') (art_handlers ub op' c m)"
proof -
  assume c: "same_request c0 c"
  note with_update = returns_bind_with [OF art_update_cow_keeps [of c0]]
  have "returns (\<lambda>(op'', c', m'). same_request c0 c') (art_handle_init ub c m)"
    unfolding art_handle_init_def by (rule with_update, use c in \<open>simp add: same_request_def\<close>, intro returns_steps) (auto simp: same_request_def)
  moreover have "returns (\<lambda>(op'', c', m'). same_request c0 c') (art_handle_search ub c m)"
    unfolding art_handle_search_def Let_def
    by (intro with_update returns_steps) (use c in \<open>auto simp: same_request_def\<close>)
  moreover have "returns (\<lambda>(op'', c', m'). same_request c0 c') (art_handle_insert ub c m)"
    unfolding art_handle_insert_def Let_def by (intro returns_steps) (use c in \<open>auto simp: same_request_def\<close>)
  moreover have "returns (\<lambda>(op'', c', m'). same_request c0 c') (art_handle_fork c m)"
    unfolding art_handle_fork_def Let_def by (intro returns_steps) (use c in \<open>auto simp: same_request_def\<close>)
  ultimately show ?thesis by (simp add: art_handlers_def returns_None)
qed

lemma kept: "returns (\<lambda>(op'', c', m'). same_request c c') r \<Longrightarrow> r = Some (op'', c', m') \<Longrightarrow>
    cx_sno c' = cx_sno c \<and> cx_key c' = cx_key c \<and> cx_val c' = cx_val c"
  by (simp add: returns_def same_request_def)

lemma same_request_refl: "same_request c c"
  by (simp add: same_request_def)

interpretation btree_cc: pipeline_index btree_lib
  by unfold_locales (simp_all add: btree_lib_def kept [OF btree_handlers_keep [OF same_request_refl]])

interpretation betree_cc: pipeline_index "betree_lib fuel" for fuel
  by unfold_locales (simp add: betree_lib_def kept [OF betree_handlers_keep [OF same_request_refl]],
      use returnsD [OF betree_checkpoint_keeps] in \<open>force simp: betree_lib_def\<close>)

interpretation art_cc: pipeline_index "art_lib ub" for ub
  by unfold_locales (simp_all add: art_lib_def kept [OF art_handlers_keep [OF same_request_refl]])

end
