(* ===== verification/Concow_Use.thy ===== *)
theory Concow_Use
  imports Concow_Index
begin

text \<open>
  What follows from the invariant of \<^verbatim>\<open>concow\<close>: a context has one user at a time, the published
  root is that of a finished task, and the pipes and the monitor agree on the last batch.
\<close>

section \<open>Who uses a context\<close>

datatype cc_user = CC_Client nat | CC_Pipe nat | CC_Worker nat

fun cc_uses :: "nat \<Rightarrow> ('c, 'm) concow \<Rightarrow> cc_user \<Rightarrow> nat \<Rightarrow> bool" where
  "cc_uses n s (CC_Client i) t = cc_writes (cc_clients s i) t"
| "cc_uses n s (CC_Pipe p) t = (p \<le> n \<and> pp_busy (pp_pc (cc_pipes s p)) \<and> pp_tid (cc_pipes s p) = t)"
| "cc_uses n s (CC_Worker w) t = cc_works s w t"

lemma uses_window:
  assumes "cc_inv n W s" "cc_uses n s u t"
  shows "cc_window s t" "cc_committed s < t"
proof -
  have ok: "cc_clients_ok s" "cc_monitor_ok s" "cc_workers_ok n W s" using assms(1) by (simp_all add: cc_inv_def)
  have "cc_window s t \<and> cc_committed s < t"
  proof (cases u)
    case (CC_Client i)
    then show ?thesis using inv_held_window [OF ok(1,2), of i t] assms(2) by simp
  next
    case (CC_Pipe p)
    then show ?thesis using pipe_task(1,2) [OF assms(1), of p t] assms(2) by simp
  next
    case (CC_Worker w)
    with assms(2) have w: "cc_works s w t" by simp
    show ?thesis using inv_ready_window [OF ok(1) works_task(4) [OF ok(3) w]] works_task(2) [OF ok(3) w] by simp
  qed
  then show "cc_window s t" "cc_committed s < t" by simp_all
qed

lemma pipes_apart:
  assumes inv: "cc_inv n W s" and p: "cc_uses n s (CC_Pipe p) t" "cc_uses n s (CC_Pipe q) t" and less: "p < q"
  shows False
proof -
  have ok: "cc_pipes_ok n s" using inv by (simp add: cc_inv_def)
  from p have q: "q \<le> n" "pp_busy (pp_pc (cc_pipes s q))" "pp_tid (cc_pipes s q) = t" "pp_tid (cc_pipes s p) = t" by simp_all
  have "t \<le> cc_pace s q" using pipes_tid_pace(2,3) [OF ok q(1)] q(2,3) by simp
  also have "\<dots> \<le> cc_pace s (Suc p)" by (rule pipes_order(2) [OF ok _ q(1)]) (use less in simp)
  also have "Suc (cc_pace s (Suc p)) = t" using pipes_tid_pace(4) [OF ok, of p] less q(1,4) by simp
  finally show False by simp
qed

lemma uses_apart:
  assumes inv: "cc_inv n W s" and u: "cc_uses n s u t" "cc_uses n s u' t"
  shows "u = u'"
proof -
  have ok: "cc_clients_ok s" "cc_monitor_ok s" "cc_workers_ok n W s" "cc_pipes_ok n s" using inv by (simp_all add: cc_inv_def)
  have client: "cc_ready s t \<or> \<not> cc_writes (cc_clients s i) t" if "cc_uses n s (CC_Pipe p) t" for p i
  proof (rule ccontr)
    assume a: "\<not> (cc_ready s t \<or> \<not> cc_writes (cc_clients s i) t)"
    then have "cc_pace s 0 = mo_inited s" using unstopped(4) [OF inv, of i] by (cases "cc_clients s i") auto
    moreover have "t \<le> cc_pace s p" using pipes_tid_pace(2,3) [OF ok(4), of p] that by auto
    moreover have "cc_pace s p \<le> cc_pace s 0" using pipes_order(2) [OF ok(4), of 0 p] that by simp
    ultimately have "t \<le> mo_inited s" by simp
    then have "cc_ready s t" using ok(2) by (simp add: cc_monitor_ok_def)
    with a show False by simp
  qed
  have cp: False if "cc_uses n s (CC_Client i) t" "cc_uses n s (CC_Pipe p) t" for i p
    using client [OF that(2), of i] that(1) inv_held_window(3) [OF ok(1,2), of i t] by simp
  have cw: False if "cc_uses n s (CC_Client i) t" "cc_uses n s (CC_Worker w) t" for i w
    using works_task(4) [OF ok(3), of w t] that inv_held_window(3) [OF ok(1,2), of i t] by simp
  have pw: False if "cc_uses n s (CC_Pipe p) t" "cc_uses n s (CC_Worker w) t" for p w
    using works_task(3) [OF ok(3), of w t] pipe_exit(1) [OF ok(4), of p] that by auto
  have cc: "i = j" if "cc_uses n s (CC_Client i) t" "cc_uses n s (CC_Client j) t" for i j
  proof -
    have "\<exists>k v. cc_holds c t k v" if "cc_writes c t" for c using that by (cases c) auto
    with that obtain k v k' v' where "cc_holds (cc_clients s i) t k v" "cc_holds (cc_clients s j) t k' v'" by fastforce
    then show ?thesis by (rule client_holds(4) [OF ok(1)])
  qed
  have ww: "w = w'" if "cc_uses n s (CC_Worker w) t" "cc_uses n s (CC_Worker w') t" for w w'
    using works_unique [OF ok(3)] that by simp
  have pp: "p = q" if "cc_uses n s (CC_Pipe p) t" "cc_uses n s (CC_Pipe q) t" for p q
    using pipes_apart [OF inv that] pipes_apart [OF inv that(2,1)] by (metis linorder_neqE_nat)
  show ?thesis using u cc cp cw pw ww pp by (cases u; cases u') blast+
qed

section \<open>What is published\<close>

lemma published_task:
  assumes inv: "cc_inv n W s"
  shows "cc_window s (mo_committed s)" "cc_stage s (mo_committed s) = \<infinity>" "mo_committed s < cc_exit n s" "cc_ready s (mo_committed s)"
    "cx_op (cc_ctx s (mo_committed s)) = conctrl_DONE"
proof -
  have ok: "cc_clients_ok s" "cc_monitor_ok s" "cc_slots_ok n W s" "cc_pipes_ok n s" using inv by (simp_all add: cc_inv_def)
  let ?c = "mo_committed s"
  have le: "cc_committed s \<le> ?c" using ok(2) by (simp add: cc_monitor_ok_def)
  show r: "cc_ready s ?c" using ok(2) by (simp add: cc_monitor_ok_def)
  show w: "cc_window s ?c" by (rule inv_ready_window [OF ok(1) r le])
  show st: "cc_stage s ?c = \<infinity>"
  proof (cases "cc_committed s = ?c")
    case True
    with ok(3) show ?thesis by (simp add: cc_slots_ok_def)
  next
    case False
    with ok(2) have "mo_pc s = MO_Commit" by (auto simp: cc_monitor_ok_def)
    with False le ok(2) show ?thesis by (simp add: cc_monitor_ok_def)
  qed
  show e: "?c < cc_exit n s"
  proof (rule ccontr)
    assume a: "\<not> ?c < cc_exit n s"
    then have "cc_committed s < ?c" using ok(4) by (simp add: cc_pipes_ok_def)
    with a ok(3) w r have "cc_stage s ?c = 0" by (simp add: cc_slots_ok_def)
    with st show False by simp
  qed
  show "cx_op (cc_ctx s ?c) = conctrl_DONE"
  proof (cases "cc_committed s = ?c")
    case True
    with ok(3) show ?thesis by (simp add: cc_slots_ok_def)
  next
    case False
    with le have "cc_committed s < ?c" by simp
    with ok(3) e r st show ?thesis by (simp add: cc_slots_ok_def)
  qed
qed

text \<open>Nobody uses the context of the task published last.\<close>

lemma published_unused:
  assumes inv: "cc_inv n W s" and u: "cc_uses n s u t"
  shows "cc_ctx (cc_set_ctx t c s) (mo_committed s) = cc_ctx s (mo_committed s)"
proof -
  have ok: "cc_clients_ok s" "cc_monitor_ok s" "cc_workers_ok n W s" "cc_pipes_ok n s" using inv by (simp_all add: cc_inv_def)
  note p = published_task [OF inv]
  have "t \<noteq> mo_committed s"
  proof (cases u)
    case (CC_Client i)
    then show ?thesis using inv_held_window(3) [OF ok(1,2), of i t] u p(4) by auto
  next
    case (CC_Pipe q)
    then show ?thesis using pipe_exit(1) [OF ok(4), of q] u p(3) by auto
  next
    case (CC_Worker w)
    then show ?thesis using works_task(5) [OF ok(3), of w t] u p(2) by auto
  qed
  then show ?thesis using window_mod [OF p(1) uses_window(1) [OF inv u]] by (simp add: cc_ctx_def cc_set_ctx_def)
qed

lemma ctx_same:
  "cc_ctx (cc_set_stage t' x s) t = cc_ctx s t" "cc_ctx (cc_set_client i cl s) t = cc_ctx s t" "cc_ctx (cc_set_pipe p y s) t = cc_ctx s t"
  "cc_ctx (cc_set_worker w z s) t = cc_ctx s t" "cc_root (cc_set_stage t' x s) = cc_root s" "cc_root (cc_set_client i cl s) = cc_root s"
  "cc_root (cc_set_pipe p y s) = cc_root s" "cc_root (cc_set_worker w z s) = cc_root s" "cc_root (cc_set_ctx t' c s) = cc_root s"
  "mo_committed (cc_set_stage t' x s) = mo_committed s" "mo_committed (cc_set_client i cl s) = mo_committed s"
  "mo_committed (cc_set_pipe p y s) = mo_committed s" "mo_committed (cc_set_worker w z s) = mo_committed s" "mo_committed (cc_set_ctx t' c s) = mo_committed s"
  by (simp_all add: cc_updates cc_ctx_def)

lemma ctx_fields:
  "cc_ctx (s\<lparr>cc_mem := m\<rparr>) = cc_ctx s" "cc_ctx (s\<lparr>cc_available := a\<rparr>) = cc_ctx s" "cc_ctx (s\<lparr>cc_pace := b\<rparr>) = cc_ctx s"
  "cc_ctx (s\<lparr>cc_worker_tid := d\<rparr>) = cc_ctx s" "cc_ctx (s\<lparr>cc_submitted := e\<rparr>) = cc_ctx s" "cc_ctx (s\<lparr>cc_hist := f\<rparr>) = cc_ctx s"
  "cc_ctx (s\<lparr>cc_stop := g\<rparr>) = cc_ctx s" "cc_ctx (s\<lparr>mo_pc := h\<rparr>) = cc_ctx s" "cc_ctx (s\<lparr>mo_stop := i\<rparr>) = cc_ctx s"
  "cc_ctx (s\<lparr>mo_submitted := j\<rparr>) = cc_ctx s" "cc_ctx (s\<lparr>mo_inited := k\<rparr>) = cc_ctx s" "cc_ctx (s\<lparr>mo_committed := l\<rparr>) = cc_ctx s"
  "cc_ctx (s\<lparr>mo_next := o'\<rparr>) = cc_ctx s" "cc_ctx (s\<lparr>cc_root := q\<rparr>) = cc_ctx s" "cc_ctx (s\<lparr>cc_committed := r\<rparr>) = cc_ctx s"
  "cc_ctx (s\<lparr>cc_checkpoint := v\<rparr>) = cc_ctx s"
  by (simp_all add: fun_eq_iff cc_ctx_def)

lemma root_step:
  assumes inv: "cc_inv n W s" and root: "cc_root s = cx_root (cc_ctx s (mo_committed s))" and step: "concow_step L n W s s'" and n: "0 < n"
  shows "cc_root s' = cx_root (cc_ctx s' (mo_committed s'))"
proof -
  have mem: "cc_set_ctx t c (s\<lparr>cc_mem := m\<rparr>) = (cc_set_ctx t c s)\<lparr>cc_mem := m\<rparr>" for t c m by (simp add: cc_set_ctx_def)
  have unused: "cc_ctx (cc_set_ctx t c s) (mo_committed s) = cc_ctx s (mo_committed s)" if "cc_uses n s u t" for u t c
    by (rule published_unused [OF inv that])
  note simps = ctx_same ctx_fields root mem
  from step show ?thesis
  proof cases
    case client
    then show ?thesis
    proof cases
      case (store i j tid k v)
      with unused [of "CC_Client i" tid] show ?thesis by (simp add: simps)
    next
      case (skip_sno i tid k v)
      with unused [of "CC_Client i" tid] show ?thesis by (simp add: simps)
    qed (simp_all add: simps)
  next
    case monitor
    then show ?thesis by cases (simp_all add: simps)
  next
    case (pipe_loop p)
    from pipe_loop(2) show ?thesis by cases (simp_all add: simps)
  next
    case (iter_exec p)
    then have at: "pp_busy (pp_pc (cc_pipes s p)) \<Longrightarrow> cc_uses n s (CC_Pipe p) (pp_tid (cc_pipes s p))" by simp
    from iter_exec(2) show ?thesis
    proof cases
      case (version x ver c)
      with unused [OF at] show ?thesis by (simp add: simps pp_busy_def)
    next
      case (call x c op' c' m')
      with unused [OF at] show ?thesis by (simp add: simps pp_busy_def)
    qed (simp_all add: simps)
  next
    case entry
    have at: "pp_busy (pp_pc (cc_pipes s 0)) \<Longrightarrow> cc_uses n s (CC_Pipe 0) (pp_tid (cc_pipes s 0))" by simp
    from entry show ?thesis
    proof cases
      case (rebuild x tid t_past ver)
      with unused [OF at] show ?thesis by (simp add: simps pp_busy_def)
    next
      case (rebuild_wait x ver c)
      with unused [OF at] show ?thesis by (simp add: simps pp_busy_def)
    next
      case (rebuild_call x ver c c' m')
      with unused [OF at] show ?thesis by (simp add: simps pp_busy_def)
    next
      case (keep_root x tid)
      with unused [OF at] show ?thesis by (simp add: simps pp_busy_def)
    next
      case (init x tid op' c' m')
      with unused [OF at] show ?thesis by (simp add: simps pp_busy_def)
    qed (simp add: simps)
  next
    case (inner p)
    from inner(3) show ?thesis by cases (simp add: simps)
  next
    case exit
    then show ?thesis by cases (simp_all add: simps)
  next
    case (worker w)
    have at: "wk_active (wk_pc (cc_workers s w)) \<Longrightarrow> cc_uses n s (CC_Worker w) (wk_tid (cc_workers s w))" by (simp add: cc_works_def)
    from worker(2) show ?thesis
    proof cases
      case (version x ver c)
      with unused [OF at] show ?thesis by (simp add: simps wk_active_def)
    next
      case (committed x ver stage)
      with unused [OF at] show ?thesis by (simp add: simps wk_active_def)
    next
      case (call x c op' c' m')
      with unused [OF at] show ?thesis by (simp add: simps wk_active_def)
    qed (simp_all add: simps)
  qed (simp_all add: simps)
qed

lemma root_reach:
  assumes "lib_keeps_requests L" "0 < n" "concow_reach L n W (concow_init W zero t m) s"
  shows "cc_root s = cx_root (cc_ctx s (mo_committed s))"
  using assms(3)
proof (induction rule: concow_reach.induct)
  case start
  show ?case by (simp add: concow_init_def cc_ctx_def)
next
  case (step s s')
  show ?case by (rule root_step [OF inv_reach [OF step(1) assms(1,2)] step(3,2) assms(2)])
qed

section \<open>Batches\<close>

definition cc_margin :: "nat \<Rightarrow> nat" where
  "cc_margin k = concow_BATCH_SIZE + (concow_BATCH_SIZE - k mod concow_BATCH_SIZE) mod concow_BATCH_SIZE"

definition cc_batch_ok :: "bool \<Rightarrow> nat \<Rightarrow> nat \<Rightarrow> pipe_context \<Rightarrow> bool" where
  "cc_batch_ok stop submitted inited x \<longleftrightarrow> (pp_pc x \<noteq> PP_Top \<longrightarrow> pp_pc x \<noteq> PP_Drain \<longrightarrow>
     (if pp_final x then stop \<and> pp_last x \<le> submitted else pp_epoch x * concow_BATCH_SIZE \<le> inited)) \<and>
     (pp_pc x = PP_Drain \<longrightarrow> stop)"

definition cc_batches_ok :: "nat \<Rightarrow> ('x ctx_scheme, 'm) concow \<Rightarrow> bool" where
  "cc_batches_ok n s \<longleftrightarrow> (\<forall>p\<le>n. cc_batch_ok (cc_stop s) (cc_submitted s) (mo_inited s) (cc_pipes s p)) \<and>
     (mo_pc s = MO_Done \<longrightarrow> cc_pace s 0 = mo_inited s + cc_margin (mo_inited s))"

lemma margin_enough: "e * concow_BATCH_SIZE \<le> k \<Longrightarrow> Suc e * concow_BATCH_SIZE \<le> k + cc_margin k"
  by (simp add: cc_margin_def)

lemma batch_ok_mono: "cc_batch_ok a b c x \<Longrightarrow> a \<longrightarrow> a' \<Longrightarrow> b \<le> b' \<Longrightarrow> c \<le> c' \<Longrightarrow> cc_batch_ok a' b' c' x"
  by (auto simp: cc_batch_ok_def)

lemma batches_pipe:
  assumes "cc_batches_ok n s" "cc_batch_ok (cc_stop s) (cc_submitted s) (mo_inited s) y"
  shows "cc_batches_ok n (cc_set_pipe p y s)"
  using assms by (simp add: cc_batches_ok_def cc_set_pipe_def)

lemma batches_cong:
  assumes "cc_batches_ok n s" "cc_pipes s' = cc_pipes s" "cc_stop s \<longrightarrow> cc_stop s'" "cc_submitted s \<le> cc_submitted s'" "mo_inited s \<le> mo_inited s'"
    "mo_pc s' = MO_Done \<longrightarrow> cc_pace s' 0 = mo_inited s' + cc_margin (mo_inited s')"
  shows "cc_batches_ok n s'"
  using assms batch_ok_mono unfolding cc_batches_ok_def by metis

lemma batches_step:
  assumes inv: "cc_inv n W s" and b: "cc_batches_ok n s" and step: "concow_step L n W s s'" and n: "0 < n"
  shows "cc_batches_ok n s'"
proof -
  have dn: "mo_pc s = MO_Done \<Longrightarrow> cc_pace s 0 = mo_inited s + cc_margin (mo_inited s)" using b by (simp add: cc_batches_ok_def)
  have at: "cc_batch_ok (cc_stop s) (cc_submitted s) (mo_inited s) (cc_pipes s p)" if "p \<le> n" for p using b that by (simp add: cc_batches_ok_def)
  note cong = batches_cong [OF b]
  have busy: "cc_batches_ok n (cc_set_pipe p ((cc_pipes s p)\<lparr>pp_checkpoint := k, pp_pc := pc\<rparr>) s)"
    if "p \<le> n" "pp_busy (pp_pc (cc_pipes s p))" "pc \<noteq> PP_Top" "pc \<noteq> PP_Drain" for p k pc
    by (rule batches_pipe [OF b]) (use at [OF that(1)] that(2-4) in \<open>auto simp: cc_batch_ok_def pp_busy_def\<close>)
  have set_ctx: "cc_batches_ok n (cc_set_ctx t c s') = cc_batches_ok n s'" "cc_batches_ok n (s'\<lparr>cc_mem := m\<rparr>) = cc_batches_ok n s'"
    "cc_batches_ok n (cc_set_stage t x s') = cc_batches_ok n s'" "cc_batches_ok n (s'\<lparr>cc_available := ws\<rparr>) = cc_batches_ok n s'"
    "cc_batches_ok n (s'\<lparr>cc_worker_tid := wt\<rparr>) = cc_batches_ok n s'" for t c m x ws wt and s' :: "('a ctx_scheme, 'b) concow"
    by (simp_all add: cc_batches_ok_def cc_set_ctx_def cc_set_stage_def)
  have on: "cc_batches_ok n (cc_set_pipe p ((cc_pipes s p)\<lparr>pp_pc := pc\<rparr>) s)"
    if "p \<le> n" "pp_busy (pp_pc (cc_pipes s p))" "pc \<noteq> PP_Top" "pc \<noteq> PP_Drain" for p pc
    using busy [OF that, of "pp_checkpoint (cc_pipes s p)"] by simp
  have pipes: "cc_set_pipe p y (cc_set_ctx t c s) = cc_set_ctx t c (cc_set_pipe p y s)" "cc_set_pipe p y (s\<lparr>cc_mem := m\<rparr>) = (cc_set_pipe p y s)\<lparr>cc_mem := m\<rparr>"
    "cc_set_pipe p y (cc_set_ctx t c (s\<lparr>cc_mem := m\<rparr>)) = (cc_set_ctx t c (cc_set_pipe p y s))\<lparr>cc_mem := m\<rparr>" for p y t c m
    by (simp_all add: cc_set_pipe_def cc_set_ctx_def)
  from step show ?thesis
  proof cases
    case client
    then show ?thesis by (cases; intro cong) (simp_all add: cc_updates dn)
  next
    case monitor
    then show ?thesis
    proof cases
      case advance
      have "mo_inited s \<le> mo_next s" using inv advance by (simp add: cc_inv_def cc_monitor_ok_def)
      with advance show ?thesis by (intro cong) (simp_all add: dn)
    qed (intro cong; simp add: dn cc_margin_def)+
  next
    case (pipe_loop p)
    have ok: "cc_pipe_ok (cc_ready s) (cc_pace s p) (p = n) (cc_pipes s p)" by (rule pipe_ok [OF _ pipe_loop(1)]) (use inv in \<open>simp add: cc_inv_def\<close>)
    from pipe_loop(2) show ?thesis
    proof cases
      case (batch x)
      have "pp_epoch x * concow_BATCH_SIZE \<le> mo_inited s"
      proof -
        have "pp_tid x = Suc (pp_epoch x * concow_BATCH_SIZE)" "pp_tid x \<le> Suc (cc_pace s p)" using ok batch by (auto simp: cc_pipe_ok_def)
        moreover have "cc_pace s p \<le> cc_pace s 0" by (rule pipes_order(2) [of n]) (use inv pipe_loop(1) in \<open>simp_all add: cc_inv_def\<close>)
        moreover have "cc_pace s 0 = mo_inited s" using inv batch(4) by (auto simp: cc_inv_def cc_monitor_ok_def)
        ultimately show ?thesis by simp
      qed
      moreover have "\<not> pp_final x" using ok batch by (auto simp: cc_pipe_ok_def)
      ultimately show ?thesis unfolding batch(1) by (intro batches_pipe [OF b]) (use batch in \<open>auto simp: cc_batch_ok_def\<close>)
    next
      case (drain x)
      show ?thesis unfolding drain(1) by (intro batches_pipe [OF b]) (use at [OF pipe_loop(1)] drain in \<open>auto simp: cc_batch_ok_def\<close>)
    next
      case (advance x)
      have "cc_batches_ok n (s\<lparr>cc_pace := (cc_pace s)(Suc p := pp_tid x)\<rparr>)" by (intro cong) (simp_all add: dn)
      then have "cc_batches_ok n (if p < n then s\<lparr>cc_pace := (cc_pace s)(Suc p := pp_tid x)\<rparr> else s)" using b by simp
      then show ?thesis unfolding advance(1)
        by (rule batches_pipe) (use at [OF pipe_loop(1)] advance in \<open>auto simp: cc_batch_ok_def\<close>)
    qed (use at [OF pipe_loop(1)] in \<open>auto simp: cc_batch_ok_def intro!: batches_pipe [OF b]\<close>)
  next
    case (iter_exec p)
    have p: "p \<le> n" using iter_exec(1) by simp
    from iter_exec(2) show ?thesis
      by (cases; simp add: pipes set_ctx b on [OF p] busy [OF p] pp_busy_def)
  next
    case entry
    then show ?thesis
      by (cases; simp add: pipes set_ctx b on [of 0] busy [of 0] pp_busy_def)
  next
    case (inner p)
    then have p: "p \<le> n" by simp
    from inner(3) show ?thesis by cases (simp add: on [OF p] busy [OF p] pp_busy_def)
  next
    case exit
    then show ?thesis
    proof cases
      case (pop x w ws)
      have "cc_batches_ok n (s\<lparr>cc_available := ws\<rparr>)" using b by (simp add: set_ctx)
      then show ?thesis unfolding pop(1) by (rule batches_pipe) (use at [of n] pop in \<open>auto simp: cc_batch_ok_def\<close>)
    next
      case (assign x w)
      have "cc_batches_ok n (s\<lparr>cc_worker_tid := (cc_worker_tid s)(w := Some (pp_tid x))\<rparr>)" using b by (simp add: set_ctx)
      then show ?thesis unfolding assign(1) by (rule batches_pipe) (use at [of n] assign in \<open>auto simp: cc_batch_ok_def\<close>)
    next
      case (complete x)
      have "cc_batches_ok n (cc_set_stage (pp_tid x) \<infinity> s)" using b by (simp add: set_ctx)
      then show ?thesis unfolding complete(1)
        by (rule batches_pipe) (use at [of n] complete in \<open>auto simp: cc_batch_ok_def cc_set_stage_def\<close>)
    qed
  next
    case (worker w)
    from worker(2) show ?thesis by (cases; intro cong) (simp_all add: cc_updates dn)
  next
    case stop
    then show ?thesis by (intro cong) (simp_all add: dn)
  next
    case quit
    then show ?thesis by (intro cong) (simp_all add: dn)
  qed
qed

lemma batches_reach:
  assumes "lib_keeps_requests L" "0 < n" "concow_reach L n W (concow_init W zero t m) s"
  shows "cc_batches_ok n s"
  using assms(3)
proof (induction rule: concow_reach.induct)
  case start
  show ?case by (simp add: concow_init_def cc_batches_ok_def cc_batch_ok_def)
next
  case (step s s')
  show ?case by (rule batches_step [OF inv_reach [OF step(1) assms(1,2)] step(3,2) assms(2)])
qed

end
