(* ===== verification/Concow_Calls.thy ===== *)
theory Concow_Calls
  imports Concow_Use
begin

text \<open>
  The calls of \<^verbatim>\<open>update\<close> in a run of \<^verbatim>\<open>concow\<close>: a run is listed together with the task numbers
  of the calls that have returned. What is shown counts these calls, and needs no history in the state.
\<close>

section \<open>Runs with their calls\<close>

text \<open>A call returns, with the number its client holds, when the client is idle again.\<close>

inductive concow_run ::
  "('x ctx_scheme, 'm) index_lib \<Rightarrow> nat \<Rightarrow> nat \<Rightarrow> ('x ctx_scheme, 'm) concow \<Rightarrow> nat list \<Rightarrow> ('x ctx_scheme, 'm) concow \<Rightarrow> bool" for L n W s0 where
  start: "concow_run L n W s0 [] s0"
| returns: "concow_run L n W s0 ts s \<Longrightarrow> concow_step L n W s s' \<Longrightarrow> cc_holds (cc_clients s i) tid k v \<Longrightarrow> cc_clients s' i = CC_Idle \<Longrightarrow>
    concow_run L n W s0 (ts @ [tid]) s'"
| goes_on: "concow_run L n W s0 ts s \<Longrightarrow> concow_step L n W s s' \<Longrightarrow> (\<forall>i. cc_clients s' i = CC_Idle \<longrightarrow> cc_clients s i = CC_Idle) \<Longrightarrow>
    concow_run L n W s0 ts s'"

lemma run_reach: "concow_run L n W s0 ts s \<Longrightarrow> concow_reach L n W s0 s"
  by (induction rule: concow_run.induct) (auto intro: concow_reach.intros)

lemma step_clients:
  assumes "concow_step L n W s s'"
  shows "concow_client_step s s' \<or> cc_clients s' = cc_clients s \<and> cc_submitted s' = cc_submitted s"
  using assms
proof cases
  case client
  then show ?thesis by simp
next
  case monitor
  then show ?thesis by cases simp_all
next
  case (pipe_loop p)
  from pipe_loop(2) show ?thesis by cases (simp_all add: cc_updates)
next
  case (iter_exec p)
  from iter_exec(2) show ?thesis by cases (simp_all add: cc_updates)
next
  case entry
  then show ?thesis by cases (simp_all add: cc_updates)
next
  case (inner p)
  from inner(3) show ?thesis by cases (simp_all add: cc_updates)
next
  case exit
  then show ?thesis by cases (simp_all add: cc_updates)
next
  case (worker w)
  from worker(2) show ?thesis by cases (simp_all add: cc_updates)
qed simp_all

lemma client_returns:
  assumes "concow_client_step s s'" "cc_clients s' i = CC_Idle" "cc_clients s i \<noteq> CC_Idle"
  obtains tid k v where "cc_clients s i = CC_Writing 5 tid k v" "cc_clients s' = (cc_clients s)(i := CC_Idle)" "cc_submitted s' = cc_submitted s"
  using assms by cases (auto simp: cc_updates split: if_splits)

text \<open>No behaviour is lost: every reachable state is reached by such a run.\<close>

lemma reach_run: "concow_reach L n W s0 s \<Longrightarrow> \<exists>ts. concow_run L n W s0 ts s"
proof (induction rule: concow_reach.induct)
  case start
  show ?case using concow_run.start by blast
next
  case (step s s')
  then obtain ts where run: "concow_run L n W s0 ts s" by blast
  show ?case
  proof (cases "\<forall>i. cc_clients s' i = CC_Idle \<longrightarrow> cc_clients s i = CC_Idle")
    case True
    then show ?thesis using concow_run.goes_on [OF run step.hyps(2)] by blast
  next
    case False
    then obtain i where i: "cc_clients s' i = CC_Idle" "cc_clients s i \<noteq> CC_Idle" by blast
    then have "concow_client_step s s'" using step_clients [OF step.hyps(2)] by auto
    from client_returns [OF this i] obtain tid k v where "cc_clients s i = CC_Writing 5 tid k v" by blast
    then have "cc_holds (cc_clients s i) tid k v" by simp
    then show ?thesis using concow_run.returns [OF run step.hyps(2) _ i(1)] by blast
  qed
qed

section \<open>The numbers of the calls\<close>

text \<open>Every number that is ready has been returned by a call, but for the multiples of the buffer size.\<close>

definition cc_called :: "('c, 'm) concow \<Rightarrow> nat \<Rightarrow> bool" where
  "cc_called s t \<longleftrightarrow> 0 < t \<and> t mod conctrl_BUFFER_SIZE \<noteq> 0 \<and> cc_ready s t"

definition cc_others :: "('c, 'm) concow \<Rightarrow> nat \<Rightarrow> nat \<Rightarrow> bool" where
  "cc_others s i t \<longleftrightarrow> (\<exists>j k v. j \<noteq> i \<and> cc_holds (cc_clients s j) t k v)"

lemma held_split: "cc_held s t \<longleftrightarrow> (\<exists>k v. cc_holds (cc_clients s i) t k v) \<or> cc_others s i t"
  unfolding cc_held_def cc_others_def by metis

lemma held_moved:
  assumes "cc_clients s' = (cc_clients s)(i := c)"
  shows "cc_held s' t \<longleftrightarrow> (\<exists>k v. cc_holds c t k v) \<or> cc_others s i t"
proof -
  have "cc_others s' i t \<longleftrightarrow> cc_others s i t" unfolding cc_others_def assms fun_upd_apply by metis
  then show ?thesis by (simp add: held_split [of s' t i] assms)
qed

lemma holds_alone: "cc_clients_ok s \<Longrightarrow> cc_holds (cc_clients s i) t k v \<Longrightarrow> \<not> cc_others s i t"
  unfolding cc_others_def using client_holds(4) by metis

text \<open>A client that does not change its number, and does not return.\<close>

lemma called_same:
  assumes "cc_clients s' = (cc_clients s)(i := c)" "cc_submitted s' = cc_submitted s"
    and "\<And>t k v. t mod conctrl_BUFFER_SIZE \<noteq> 0 \<Longrightarrow> cc_holds c t k v \<longleftrightarrow> cc_holds (cc_clients s i) t k v"
  shows "cc_called s' = cc_called s"
  unfolding cc_called_def cc_ready_def held_moved [OF assms(1)] held_split [of s _ i] assms(2)
  using assms(3) by (auto simp: fun_eq_iff)

lemma client_called:
  assumes ok: "cc_clients_ok s" and step: "concow_client_step s s'"
    and none: "\<forall>i. cc_clients s' i = CC_Idle \<longrightarrow> cc_clients s i = CC_Idle"
  shows "cc_called s' = cc_called s"
  using step
proof cases
  case (call i k v)
  show ?thesis by (rule called_same [of _ _ i "CC_Claim k v"]) (simp_all add: call cc_updates)
next
  case (claim i k v tid)
  have cl: "cc_clients s' = (cc_clients s)(i := CC_Waiting tid k v)" "cc_submitted s' = Suc (cc_submitted s)"
    using claim by (simp_all add: cc_updates)
  have "cc_ready s' t \<longleftrightarrow> cc_ready s t" for t
    unfolding cc_ready_def held_moved [OF cl(1)] held_split [of s _ i] cl(2) using claim(2,3) by auto
  then show ?thesis by (simp add: cc_called_def fun_eq_iff)
next
  case (place i tid k v)
  show ?thesis by (rule called_same [of _ _ i "if tid mod conctrl_BUFFER_SIZE \<noteq> 0 then CC_Writing 0 tid k v else CC_Skipping 0 tid k v"]) (simp_all add: place cc_updates)
next
  case (store i j tid k v)
  show ?thesis by (rule called_same [of _ _ i "CC_Writing (Suc j) tid k v"]) (simp_all add: store cc_updates)
next
  case (return i tid k v)
  then show ?thesis using none by (auto simp: cc_updates)
next
  case (skip_sno i tid k v)
  show ?thesis by (rule called_same [of _ _ i "CC_Skipping 1 tid k v"]) (simp_all add: skip_sno cc_updates)
next
  case (skip_stage i tid k v)
  show ?thesis by (rule called_same [of _ _ i "CC_Claim k v"]) (use client_skipping [OF ok skip_stage(2)] in \<open>auto simp: skip_stage cc_updates\<close>)
qed

lemma return_called:
  assumes ok: "cc_clients_ok s" and i: "cc_clients s i = CC_Writing 5 tid k v"
    and s': "cc_clients s' = (cc_clients s)(i := CC_Idle)" "cc_submitted s' = cc_submitted s"
  shows "cc_called s' t \<longleftrightarrow> cc_called s t \<or> t = tid" "\<not> cc_called s tid"
proof -
  have h: "cc_holds (cc_clients s i) tid k v" by (simp add: i)
  have own: "cc_holds (cc_clients s i) t k' v' \<longleftrightarrow> t = tid \<and> k' = k \<and> v' = v" for t k' v' by (simp add: i)
  have "0 < tid" "tid \<le> cc_submitted s" "tid mod conctrl_BUFFER_SIZE \<noteq> 0" "\<not> cc_others s i tid"
    using client_holds(1,2) [OF ok h] client_writing(1) [OF ok i] holds_alone [OF ok h] by simp_all
  then show "cc_called s' t \<longleftrightarrow> cc_called s t \<or> t = tid" "\<not> cc_called s tid"
    unfolding cc_called_def cc_ready_def held_moved [OF s'(1)] held_split [of s _ i] s'(2) own by auto
qed

lemma run_calls:
  assumes L: "lib_keeps_requests L" and n: "0 < n" and run: "concow_run L n W (concow_init W zero t m) ts s"
  shows "distinct ts \<and> (\<forall>t. t \<in> set ts \<longleftrightarrow> cc_called s t)"
  using run
proof (induction rule: concow_run.induct)
  case start
  show ?case by (auto simp: cc_called_def cc_ready_def concow_init_def)
next
  case (returns ts s s' i tid k v)
  have ok: "cc_clients_ok s" using inv_reach [OF run_reach [OF returns.hyps(1)] L n] by (simp add: cc_inv_def)
  have i: "cc_clients s i \<noteq> CC_Idle" using returns.hyps(3) by auto
  then have "concow_client_step s s'" using step_clients [OF returns.hyps(2)] returns.hyps(4) by auto
  from client_returns [OF this returns.hyps(4) i] obtain tid' k' v' where
    c: "cc_clients s i = CC_Writing 5 tid' k' v'" "cc_clients s' = (cc_clients s)(i := CC_Idle)" "cc_submitted s' = cc_submitted s" .
  then have "tid' = tid" using returns.hyps(3) by simp
  with return_called [OF ok c] returns.IH show ?case by auto
next
  case (goes_on ts s s')
  have ok: "cc_clients_ok s" using inv_reach [OF run_reach [OF goes_on.hyps(1)] L n] by (simp add: cc_inv_def)
  have "cc_called s' = cc_called s"
    using step_clients [OF goes_on.hyps(2)]
  proof
    assume "concow_client_step s s'"
    then show ?thesis by (rule client_called [OF ok _ goes_on.hyps(3)])
  qed (simp add: cc_called_def cc_ready_def cc_held_def fun_eq_iff)
  with goes_on.IH show ?case by simp
qed

section \<open>Counting them\<close>

lemma card_numbers: "card {t. 0 < t \<and> t mod conctrl_BUFFER_SIZE \<noteq> 0 \<and> t \<le> k} = k - k div conctrl_BUFFER_SIZE"
proof (induction k)
  case (Suc k)
  let ?A = "\<lambda>k. {t. 0 < t \<and> t mod conctrl_BUFFER_SIZE \<noteq> 0 \<and> t \<le> k}"
  have "?A (Suc k) = (if Suc k mod conctrl_BUFFER_SIZE = 0 then ?A k else insert (Suc k) (?A k))" by (auto simp: le_Suc_eq)
  moreover have "finite (?A k)" "Suc k \<notin> ?A k" by simp_all
  ultimately have "card (?A (Suc k)) = (if Suc k mod conctrl_BUFFER_SIZE = 0 then card (?A k) else Suc (card (?A k)))" by simp
  moreover have "Suc k div conctrl_BUFFER_SIZE = (if Suc k mod conctrl_BUFFER_SIZE = 0 then Suc (k div conctrl_BUFFER_SIZE) else k div conctrl_BUFFER_SIZE)"
    by (rule div_Suc)
  moreover have "k div conctrl_BUFFER_SIZE \<le> k" by simp
  ultimately show ?case using Suc.IH by (cases "Suc k mod conctrl_BUFFER_SIZE = 0") (simp_all add: Suc_diff_le)
qed (auto simp: card_eq_0_iff)

lemma count_calls:
  assumes "distinct ts" "\<And>t. t \<in> set ts \<and> t \<le> k \<longleftrightarrow> 0 < t \<and> t mod conctrl_BUFFER_SIZE \<noteq> 0 \<and> t \<le> k"
  shows "length (filter (\<lambda>t. t \<le> k) ts) = k - k div conctrl_BUFFER_SIZE"
proof -
  have "length (filter (\<lambda>t. t \<le> k) ts) = card (set (filter (\<lambda>t. t \<le> k) ts))"
    using assms(1) by (intro distinct_card [symmetric]) simp
  also have "set (filter (\<lambda>t. t \<le> k) ts) = {t. 0 < t \<and> t mod conctrl_BUFFER_SIZE \<noteq> 0 \<and> t \<le> k}" using assms(2) by auto
  finally show ?thesis by (simp only: card_numbers)
qed

section \<open>Runs step by step\<close>

lemma cc_batch: "concow_BATCH_SIZE = 4096" "conctrl_BUFFER_SIZE = 65536"
  by (simp_all add: concow_BATCH_SIZE_def conctrl_BUFFER_SIZE_def)

lemma cc_reach_to [trans]: "concow_reach L n W s0 s \<Longrightarrow> concow_step L n W s s' \<Longrightarrow> concow_reach L n W s0 s'"
  by (rule concow_reach.step)

lemma step_to: "concow_step L n W s u \<Longrightarrow> u = s' \<Longrightarrow> concow_step L n W s s'"
  by simp

text \<open>A pipe before its first batch.\<close>

definition cc_pipe_start :: pipe_context where
  "cc_pipe_start = \<lparr>pp_pc = PP_Top, pp_tid = 1, pp_last = 0, pp_epoch = 0, pp_final = False, pp_cache = 0, pp_checkpoint = 0\<rparr>"

end
