(* ===== verification/Concow_Long.thy ===== *)
theory Concow_Long
  imports Concow_Calls Betree_Correct
begin

text \<open>
  A run of \<^verbatim>\<open>concow\<close> over an elastic B+-tree in which one client calls \<^verbatim>\<open>update\<close> as often as the ring
  has slots: every call is processed before the next, the number that is a multiple of the buffer
  size is given back, and the last call has returned when all numbers up to the number of calls, but not
  its own, are committed.
\<close>

section \<open>A leaf that is copied again and again\<close>

text \<open>A leaf with the one key 0 at \<^term>\<open>a\<close>, and memory for \<^term>\<open>k\<close> copies of it.\<close>

definition copies_left :: "bemem \<Rightarrow> addr \<Rightarrow> nat \<Rightarrow> bool" where
  "copies_left m a k \<longleftrightarrow> (\<exists>n. cells m a = Some n \<and> be_type n = BE_LEAF \<and> be_size n = 1 \<and> arr_get (be_keys n) 0 = Some 0) \<and>
     k \<le> length (blocks m) \<and> (\<forall>b\<in>set (blocks m). be_slots (snd b) \<noteq> [])"

lemma copy_call:
  assumes "copies_left m (cx_t_past c) (Suc k)" "cx_key c = 0"
  obtains a m' where "betree_handlers 0 c m = Some (conctrl_DONE, c\<lparr>cx_root := a, cx_t_cur := a\<rparr>, m')" "copies_left m' a k"
proof -
  from assms(1) obtain n where n: "cells m (cx_t_past c) = Some n" "be_type n = BE_LEAF" "be_size n = 1" "arr_get (be_keys n) 0 = Some 0"
    by (auto simp: copies_left_def)
  from assms(1) obtain a junk bs where b: "blocks m = (a, junk) # bs" by (cases "blocks m") (auto simp: copies_left_def)
  let ?n = "junk\<lparr>be_ver := cx_sno c, be_type := BE_LEAF, be_verge := be_verge n, be_size := 1, be_height := be_height n,
    be_keys := be_keys n, be_slots := (be_slots junk)[0 := cx_val c]\<rparr>"
  let ?m = "m\<lparr>cells := (cells m)(a \<mapsto> ?n), blocks := bs\<rparr>"
  have "be_slots junk \<noteq> []" using assms(1) b by (simp add: copies_left_def)
  then have "betree_handlers 0 c m = Some (conctrl_DONE, c\<lparr>cx_root := a, cx_t_cur := a\<rparr>, ?m)"
    by (simp add: betree_handlers_def conctrl_INIT_def betree_handle_init_def betree_update_upper_cow_def Let_def betree_update_leaf_cow_def
        mem_get_def n b assms(2) betree_findval_def betree_findval_from.simps betree_key_at_def betree_copy_leaf_def mem_alloc_def mem_upd_def arr_set_def)
  moreover have "copies_left ?m a k" using assms(1) b n by (auto simp: copies_left_def)
  ultimately show thesis by (rule that)
qed

lemma concow_reach_trans [trans]: "concow_reach L n W s0 s \<Longrightarrow> concow_reach L n W s s' \<Longrightarrow> concow_reach L n W s0 s'"
  by (rotate_tac, induction rule: concow_reach.induct) (auto intro: concow_reach.step)

section \<open>The states of the run\<close>

definition pipe_at :: "pp_pc \<Rightarrow> nat \<Rightarrow> nat \<Rightarrow> nat \<Rightarrow> pipe_context" where
  "pipe_at pc tid e cache = \<lparr>pp_pc = pc, pp_tid = tid, pp_last = Suc e * 4096, pp_epoch = e, pp_final = False, pp_cache = cache, pp_checkpoint = 0\<rparr>"

definition cc_long :: "(nat \<Rightarrow> betree_ctx) \<Rightarrow> (nat \<Rightarrow> enat) \<Rightarrow> bemem \<Rightarrow> addr \<Rightarrow> nat \<Rightarrow> nat \<Rightarrow> (key \<times> val) option list \<Rightarrow> cc_client \<Rightarrow>
    nat \<Rightarrow> nat \<Rightarrow> mo_pc \<Rightarrow> nat \<Rightarrow> nat \<Rightarrow> nat \<Rightarrow> nat \<Rightarrow> pipe_context \<Rightarrow> pipe_context \<Rightarrow> (betree_ctx, bemem) concow" where
  "cc_long ctxs stages m rt sub com hist cl a b pc msub ini mcom nxt p0 p1 =
     \<lparr>cc_ctxs = ctxs, cc_stages = stages, cc_mem = m, cc_root = rt, cc_submitted = sub, cc_committed = com, cc_checkpoint = 0,
      cc_stop = False, cc_available = [0], cc_pace = (\<lambda>_. 0)(0 := a, Suc 0 := b), cc_worker_tid = (\<lambda>_. Some 0),
      mo_pc = pc, mo_stop = False, mo_submitted = msub, mo_inited = ini, mo_committed = mcom, mo_next = nxt,
      cc_pipes = (\<lambda>_. cc_pipe_start)(0 := p0, Suc 0 := p1),
      cc_workers = (\<lambda>_. \<lparr>wk_pc = WK_Poll, wk_tid = 0, wk_last = 0, wk_stage = 0\<rparr>),
      cc_clients = (\<lambda>_. CC_Idle)(0 := cl), cc_hist = hist\<rparr>"

lemmas long_simps = cc_long_def cc_stage_def cc_ctx_def cc_updates pipe_at_def cc_batch(1) fun_eq_iff

text \<open>The client claims a number that is not given back, and hands the task over.\<close>

lemma long_claim:
  assumes tid: "Suc sub < com + conctrl_BUFFER_SIZE" "Suc sub mod conctrl_BUFFER_SIZE \<noteq> 0"
  shows "concow_reach L 1 1 (cc_long ctxs stages m rt sub com hist (CC_Claim k v) a b pc msub ini mcom nxt p0 p1) (cc_long ctxs stages m rt (Suc sub) com (hist @ [Some (k, v)]) (CC_Writing 0 (Suc sub) k v) a b pc msub ini mcom nxt p0 p1)" (is "concow_reach L 1 1 ?s _")
proof -
  have "concow_reach L 1 1 ?s ?s" by (rule concow_reach.start)
  also have "concow_step L 1 1 \<dots> (cc_long ctxs stages m rt (Suc sub) com (hist @ [Some (k, v)]) (CC_Waiting (Suc sub) k v) a b pc msub ini mcom nxt p0 p1)"
    by (rule step_to, rule concow_step.client, rule concow_client_step.claim [where i = 0], use tid in \<open>(simp add: long_simps)+\<close>)
  also have "concow_step L 1 1 \<dots> (cc_long ctxs stages m rt (Suc sub) com (hist @ [Some (k, v)]) (CC_Writing 0 (Suc sub) k v) a b pc msub ini mcom nxt p0 p1)"
    by (rule step_to, rule concow_step.client, rule concow_client_step.place [where i = 0], use tid in \<open>(simp add: long_simps)+\<close>)
  finally show ?thesis .
qed

definition long_filled :: "nat \<Rightarrow> key \<Rightarrow> val \<Rightarrow> betree_ctx \<Rightarrow> betree_ctx" where
  "long_filled tid k v c = c\<lparr>cx_op := conctrl_INIT, cx_retry := False, cx_wait_child := False, cx_wait_subtree := False,
     cx_new_checkpoint := False, cx_sno := of_nat tid, cx_key := k, cx_val := v\<rparr>"

lemma long_write:
  shows "concow_reach L 1 1 (cc_long ctxs stages m rt sub com hist (CC_Writing 0 tid k v) a b pc msub ini mcom nxt p0 p1)
    (cc_long (ctxs(tid mod conctrl_BUFFER_SIZE := long_filled tid k v (ctxs (tid mod conctrl_BUFFER_SIZE))))
    (stages(tid mod conctrl_BUFFER_SIZE := 0)) m rt sub com hist CC_Idle a b pc msub ini mcom nxt p0 p1)" (is "concow_reach L 1 1 ?s _")
proof -
  let ?r = "tid mod conctrl_BUFFER_SIZE"
  let ?S = "\<lambda>j c. cc_long (ctxs(?r := c)) stages m rt sub com hist (CC_Writing j tid k v) a b pc msub ini mcom nxt p0 p1"
  have store: "concow_reach L 1 1 ?s (?S (Suc j) (seqcow_store j tid k v c))" if "concow_reach L 1 1 ?s (?S j c)" "j < 5" for j c
    by (rule concow_reach.step [OF that(1)], rule step_to, rule concow_step.client, rule concow_client_step.store [where i = 0],
      use that(2) in \<open>(simp add: long_simps del: seqcow_store.simps)+\<close>)
  let ?c = "ctxs ?r"
  have f: "long_filled tid k v ?c = seqcow_store 4 tid k v (seqcow_store 3 tid k v (seqcow_store 2 tid k v (seqcow_store 1 tid k v (seqcow_store 0 tid k v ?c))))"
    by (simp add: long_filled_def seqcow_store.simps)
  have 0: "concow_reach L 1 1 ?s (?S 0 ?c)" using concow_reach.start [of L 1 1 ?s] by simp
  have 1: "concow_reach L 1 1 ?s (?S 1 (seqcow_store 0 tid k v ?c))" using store [OF 0] by (simp del: seqcow_store.simps)
  have 2: "concow_reach L 1 1 ?s (?S 2 (seqcow_store 1 tid k v (seqcow_store 0 tid k v ?c)))" using store [OF 1] by (simp add: numeral_2_eq_2 del: seqcow_store.simps)
  have 3: "concow_reach L 1 1 ?s (?S 3 (seqcow_store 2 tid k v (seqcow_store 1 tid k v (seqcow_store 0 tid k v ?c))))"
    using store [OF 2] by (simp add: numeral_3_eq_3 numeral_2_eq_2 del: seqcow_store.simps)
  have 4: "concow_reach L 1 1 ?s (?S (Suc 3) (seqcow_store 3 tid k v (seqcow_store 2 tid k v (seqcow_store 1 tid k v (seqcow_store 0 tid k v ?c)))))"
    by (rule store [OF 3]) simp
  have "concow_reach L 1 1 ?s (?S (Suc (Suc 3)) (long_filled tid k v ?c))"
    using store [OF 4] by (simp add: f del: seqcow_store.simps)
  then have "concow_reach L 1 1 ?s (?S 5 (long_filled tid k v ?c))" by (simp add: eval_nat_numeral)
  also have "concow_step L 1 1 \<dots> (cc_long (ctxs(?r := long_filled tid k v (ctxs ?r))) (stages(?r := 0)) m rt sub com hist CC_Idle a b pc msub ini mcom nxt p0 p1)"
    by (rule step_to, rule concow_step.client, rule concow_client_step.return [where i = 0], (simp add: long_simps)+)
  finally show ?thesis .
qed

text \<open>The monitor lets the task in.\<close>

lemma long_let_in:
  assumes st: "com < sub" "stages (Suc com mod conctrl_BUFFER_SIZE) = 0" "Suc com < sub \<longrightarrow> stages (Suc (Suc com) mod conctrl_BUFFER_SIZE) = \<infinity>"
  shows "concow_reach L 1 1 (cc_long ctxs stages m rt sub com hist cl com b MO_Poll msub com com nxt p0 p1) (cc_long ctxs stages m rt sub com hist cl (Suc com) b MO_Collect sub (Suc com) com com p0 p1)" (is "concow_reach L 1 1 ?s _")
proof -
  have "concow_reach L 1 1 ?s ?s" by (rule concow_reach.start)
  also have "concow_step L 1 1 \<dots> (cc_long ctxs stages m rt sub com hist cl com b MO_Load msub com com nxt p0 p1)"
    by (rule step_to, rule concow_step.monitor, rule concow_monitor_step.poll, (simp add: long_simps)+)
  also have "concow_step L 1 1 \<dots> (cc_long ctxs stages m rt sub com hist cl com b MO_Init sub com com com p0 p1)"
    by (rule step_to, rule concow_step.monitor, rule concow_monitor_step.load, (simp add: long_simps)+)
  also have "concow_step L 1 1 \<dots> (cc_long ctxs stages m rt sub com hist cl com b MO_Init sub com com (Suc com) p0 p1)"
    by (rule step_to, rule concow_step.monitor, rule concow_monitor_step.init, use st in \<open>(simp add: long_simps)+\<close>)
  also have "concow_step L 1 1 \<dots> (cc_long ctxs stages m rt sub com hist cl com b MO_Advance sub com com (Suc com) p0 p1)"
    by (rule step_to, rule concow_step.monitor, rule concow_monitor_step.init_end, use st in \<open>(simp add: long_simps)+\<close>)
  also have "concow_step L 1 1 \<dots> (cc_long ctxs stages m rt sub com hist cl (Suc com) b MO_Collect sub (Suc com) com com p0 p1)"
    by (rule step_to, rule concow_step.monitor, rule concow_monitor_step.advance, (simp add: long_simps)+)
  finally show ?thesis .
qed

text \<open>The monitor publishes it.\<close>

lemma long_publish:
  assumes st: "stages (Suc com mod conctrl_BUFFER_SIZE) = \<infinity>" "\<not> cx_new_checkpoint (ctxs (Suc com mod conctrl_BUFFER_SIZE))"
  shows "concow_reach L 1 1 (cc_long ctxs stages m rt sub com hist cl a b MO_Collect msub (Suc com) com com p0 p1) (cc_long ctxs stages m (cx_root (ctxs (Suc com mod conctrl_BUFFER_SIZE))) sub (Suc com) hist cl a b MO_Poll msub (Suc com) (Suc com) (Suc com) p0 p1)" (is "concow_reach L 1 1 ?s _")
proof -
  let ?rt = "cx_root (ctxs (Suc com mod conctrl_BUFFER_SIZE))"
  have "concow_reach L 1 1 ?s ?s" by (rule concow_reach.start)
  also have "concow_step L 1 1 \<dots> (cc_long ctxs stages m rt sub com hist cl a b MO_Flag msub (Suc com) com (Suc com) p0 p1)"
    by (rule step_to, rule concow_step.monitor, rule concow_monitor_step.collect, use st in \<open>(simp add: long_simps)+\<close>)
  also have "concow_step L 1 1 \<dots> (cc_long ctxs stages m rt sub com hist cl a b MO_Collect msub (Suc com) com (Suc com) p0 p1)"
    by (rule step_to, rule concow_step.monitor, rule concow_monitor_step.flag, use st in \<open>(simp add: long_simps)+\<close>)
  also have "concow_step L 1 1 \<dots> (cc_long ctxs stages m rt sub com hist cl a b MO_Publish msub (Suc com) com (Suc com) p0 p1)"
    by (rule step_to, rule concow_step.monitor, rule concow_monitor_step.collect_end, (simp add: long_simps)+)
  also have "concow_step L 1 1 \<dots> (cc_long ctxs stages m ?rt sub com hist cl a b MO_Commit msub (Suc com) (Suc com) (Suc com) p0 p1)"
    by (rule step_to, rule concow_step.monitor, rule concow_monitor_step.publish, (simp add: long_simps)+)
  also have "concow_step L 1 1 \<dots> (cc_long ctxs stages m ?rt sub (Suc com) hist cl a b MO_Poll msub (Suc com) (Suc com) (Suc com) p0 p1)"
    by (rule step_to, rule concow_step.monitor, rule concow_monitor_step.commit, (simp add: long_simps)+)
  finally show ?thesis .
qed

text \<open>A pipe that has done the last task of its batch begins the next one.\<close>

lemma long_epoch:
  assumes tid: "tid = Suc (Suc e * 4096)"
  shows "concow_reach L 1 1 (cc_long ctxs stages m rt sub com hist cl a b pc msub ini mcom nxt (pipe_at PP_Iter tid e c) p1)
      (cc_long ctxs stages m rt sub com hist cl a b pc msub ini mcom nxt (pipe_at PP_Iter tid (Suc e) c) p1)" (is "concow_reach L 1 1 ?s ?s'")
    and "concow_reach L 1 1 (cc_long ctxs stages m rt sub com hist cl a b pc msub ini mcom nxt p0 (pipe_at PP_Iter tid e c))
      (cc_long ctxs stages m rt sub com hist cl a b pc msub ini mcom nxt p0 (pipe_at PP_Iter tid (Suc e) c))" (is "concow_reach L 1 1 ?t ?t'")
proof -
  let ?x = "(pipe_at PP_Iter tid e c)\<lparr>pp_epoch := Suc e, pp_pc := PP_Top\<rparr>"
  have "concow_reach L 1 1 ?s ?s" by (rule concow_reach.start)
  also have "concow_step L 1 1 \<dots> (cc_long ctxs stages m rt sub com hist cl a b pc msub ini mcom nxt ?x p1)"
    by (rule step_to, rule concow_step.pipe_loop [where p = 0], simp, rule concow_pipe_loop.epoch, rule refl, use tid in \<open>(simp add: long_simps)+\<close>)
  also have "concow_step L 1 1 \<dots> ?s'"
    by (rule step_to, rule concow_step.pipe_loop [where p = 0], simp, rule concow_pipe_loop.batch, rule refl, use tid in \<open>(simp add: long_simps)+\<close>)
  finally show "concow_reach L 1 1 ?s ?s'" .
  have "concow_reach L 1 1 ?t ?t" by (rule concow_reach.start)
  also have "concow_step L 1 1 \<dots> (cc_long ctxs stages m rt sub com hist cl a b pc msub ini mcom nxt p0 ?x)"
    by (rule step_to, rule concow_step.pipe_loop [where p = 1], simp, rule concow_pipe_loop.epoch, rule refl, use tid in \<open>(simp add: long_simps)+\<close>)
  also have "concow_step L 1 1 \<dots> ?t'"
    by (rule step_to, rule concow_step.pipe_loop [where p = 1], simp, rule concow_pipe_loop.batch, rule refl, use tid in \<open>(simp add: long_simps)+\<close>)
  finally show "concow_reach L 1 1 ?t ?t'" .
qed

text \<open>The entry works on the task: a request, or a number given back.\<close>

lemma long_entry:
  fixes tid :: nat
  defines "r \<equiv> tid mod conctrl_BUFFER_SIZE"
  assumes tid: "tid \<le> Suc e * 4096" "c0 < tid" "r \<noteq> 0" and op: "cx_op (ctxs r) = conctrl_INIT" and "\<not> cx_retry c'"
    and run: "lib_handlers L 0 ((ctxs r)\<lparr>cx_t_past := cx_root (ctxs ((tid - 1) mod conctrl_BUFFER_SIZE))\<rparr>) m = Some (conctrl_DONE, c', m')"
  shows "concow_reach L 1 1 (cc_long ctxs stages m rt sub com hist cl tid b pc msub ini mcom nxt (pipe_at PP_Iter tid e c0) p1)
    (cc_long (ctxs(r := c'\<lparr>cx_op := conctrl_DONE\<rparr>)) stages m' rt sub com hist cl tid tid pc msub ini mcom nxt (pipe_at PP_Iter (Suc tid) e tid) p1)"
    (is "concow_reach L 1 1 ?s _")
proof -
  let ?S = "\<lambda>x. cc_long ctxs stages m rt sub com hist cl tid b pc msub ini mcom nxt x p1"
  let ?T = "\<lambda>b x. cc_long (ctxs(r := c'\<lparr>cx_op := conctrl_DONE\<rparr>)) stages m' rt sub com hist cl tid b pc msub ini mcom nxt x p1"
  have "concow_reach L 1 1 ?s ?s" by (rule concow_reach.start)
  also have "concow_step L 1 1 \<dots> (?S (pipe_at PP_Iter tid e tid))"
    by (rule step_to, rule concow_step.pipe_loop [where p = 0], simp, rule concow_pipe_loop.wait, rule refl, use tid in \<open>(simp add: long_simps)+\<close>)
  also have "concow_step L 1 1 \<dots> (?S (pipe_at PP_Work tid e tid))"
    by (rule step_to, rule concow_step.pipe_loop [where p = 0], simp, rule concow_pipe_loop.task, rule refl, use tid in \<open>(simp add: long_simps)+\<close>)
  also have "concow_step L 1 1 \<dots> (?T b (pipe_at PP_Retry tid e tid))"
    by (rule step_to, rule concow_step.entry, rule concow_entry.init, rule refl, simp add: long_simps, rule refl,
      use tid(3) in \<open>simp add: long_simps r_def\<close>, use op in \<open>simp add: long_simps r_def\<close>, use run in \<open>simp add: long_simps r_def\<close>,
      simp add: long_simps r_def)
  also have "concow_step L 1 1 \<dots> (?T b (pipe_at PP_Advance tid e tid))"
    by (rule step_to, rule concow_step.iter_exec [where p = 0], simp, rule concow_iter_exec.retry, rule refl, use assms(6) in \<open>(simp add: long_simps r_def)+\<close>)
  also have "concow_step L 1 1 \<dots> (?T tid (pipe_at PP_Iter (Suc tid) e tid))"
    by (rule step_to, rule concow_step.pipe_loop [where p = 0], simp, rule concow_pipe_loop.advance, rule refl, (simp add: long_simps)+)
  finally show ?thesis .
qed

lemma long_keep:
  assumes tid: "tid \<le> Suc e * 4096" "c0 < tid" "tid mod conctrl_BUFFER_SIZE = 0"
  shows "concow_reach L 1 1 (cc_long ctxs stages m rt sub com hist cl tid b pc msub ini mcom nxt (pipe_at PP_Iter tid e c0) p1)
    (cc_long (ctxs(0 := (ctxs 0)\<lparr>cx_root := cx_root (ctxs ((tid - 1) mod conctrl_BUFFER_SIZE))\<rparr>)) stages m rt sub com hist cl tid tid pc
      msub ini mcom nxt (pipe_at PP_Iter (Suc tid) e tid) p1)"
    (is "concow_reach L 1 1 ?s _")
proof -
  let ?S = "\<lambda>x. cc_long ctxs stages m rt sub com hist cl tid b pc msub ini mcom nxt x p1"
  let ?T = "\<lambda>b x. cc_long (ctxs(0 := (ctxs 0)\<lparr>cx_root := cx_root (ctxs ((tid - 1) mod conctrl_BUFFER_SIZE))\<rparr>)) stages m rt sub com hist cl tid b pc
      msub ini mcom nxt x p1"
  have "concow_reach L 1 1 ?s ?s" by (rule concow_reach.start)
  also have "concow_step L 1 1 \<dots> (?S (pipe_at PP_Iter tid e tid))"
    by (rule step_to, rule concow_step.pipe_loop [where p = 0], simp, rule concow_pipe_loop.wait, rule refl, use tid in \<open>(simp add: long_simps)+\<close>)
  also have "concow_step L 1 1 \<dots> (?S (pipe_at PP_Work tid e tid))"
    by (rule step_to, rule concow_step.pipe_loop [where p = 0], simp, rule concow_pipe_loop.task, rule refl, use tid in \<open>(simp add: long_simps)+\<close>)
  also have "concow_step L 1 1 \<dots> (?T b (pipe_at PP_Advance tid e tid))"
    by (rule step_to, rule concow_step.entry, rule concow_entry.keep_root, rule refl, simp add: long_simps, rule refl, use tid in \<open>(simp add: long_simps)+\<close>)
  also have "concow_step L 1 1 \<dots> (?T tid (pipe_at PP_Iter (Suc tid) e tid))"
    by (rule step_to, rule concow_step.pipe_loop [where p = 0], simp, rule concow_pipe_loop.advance, rule refl, (simp add: long_simps)+)
  finally show ?thesis .
qed

text \<open>The exit finds it done.\<close>

lemma long_exit:
  fixes tid :: nat
  defines "r \<equiv> tid mod conctrl_BUFFER_SIZE"
  assumes tid: "tid \<le> Suc e * 4096" "c0 < tid" and op: "cx_op (ctxs r) = conctrl_DONE"
  shows "concow_reach L 1 1 (cc_long ctxs stages m rt sub com hist cl a tid pc msub ini mcom nxt p0 (pipe_at PP_Iter tid e c0))
    (cc_long ctxs (stages(r := \<infinity>)) m rt sub com hist cl a tid pc msub ini mcom nxt p0 (pipe_at PP_Iter (Suc tid) e tid))"
    (is "concow_reach L 1 1 ?s _")
proof -
  let ?S = "\<lambda>x. cc_long ctxs stages m rt sub com hist cl a tid pc msub ini mcom nxt p0 x"
  have "concow_reach L 1 1 ?s ?s" by (rule concow_reach.start)
  also have "concow_step L 1 1 \<dots> (?S (pipe_at PP_Iter tid e tid))"
    by (rule step_to, rule concow_step.pipe_loop [where p = 1], simp, rule concow_pipe_loop.wait, rule refl, use tid in \<open>(simp add: long_simps)+\<close>)
  also have "concow_step L 1 1 \<dots> (?S (pipe_at PP_Work tid e tid))"
    by (rule step_to, rule concow_step.pipe_loop [where p = 1], simp, rule concow_pipe_loop.task, rule refl, use tid in \<open>(simp add: long_simps)+\<close>)
  also have "concow_step L 1 1 \<dots> (cc_long ctxs (stages(r := \<infinity>)) m rt sub com hist cl a tid pc msub ini mcom nxt p0 (pipe_at PP_Iter (Suc tid) e tid))"
    by (rule step_to, rule concow_step.exit, rule concow_exit.complete, rule refl, use op in \<open>(simp add: long_simps r_def)+\<close>)
  finally show ?thesis .
qed

section \<open>One call after the other\<close>

lemma long_call: "concow_reach L 1 1 (cc_long ctxs stages m rt sub com hist CC_Idle a b pc msub ini mcom nxt p0 p1)
    (cc_long ctxs stages m rt sub com hist (CC_Claim k v) a b pc msub ini mcom nxt p0 p1)" (is "concow_reach L 1 1 ?s _")
proof -
  have "concow_reach L 1 1 ?s ?s" by (rule concow_reach.start)
  also have "concow_step L 1 1 \<dots> (cc_long ctxs stages m rt sub com hist (CC_Claim k v) a b pc msub ini mcom nxt p0 p1)"
    by (rule step_to, rule concow_step.client, rule concow_client_step.call [where i = 0], (simp add: long_simps)+)
  finally show ?thesis .
qed

text \<open>A pipe is in a batch that has its next task.\<close>

definition batch_of :: "nat \<Rightarrow> nat \<Rightarrow> nat" where
  "batch_of j e = (if j = Suc e * 4096 then Suc e else e)"

lemma batch_of: "j \<le> Suc e * 4096 \<Longrightarrow> Suc j \<le> Suc (batch_of j e) * 4096"
  by (auto simp: batch_of_def)

lemma long_batches:
  "concow_reach L 1 1 (cc_long ctxs stages m rt sub com hist cl a b pc msub ini mcom nxt (pipe_at PP_Iter (Suc j) e0 c) (pipe_at PP_Iter (Suc j) e1 d))
    (cc_long ctxs stages m rt sub com hist cl a b pc msub ini mcom nxt (pipe_at PP_Iter (Suc j) (batch_of j e0) c) (pipe_at PP_Iter (Suc j) (batch_of j e1) d))"
  (is "concow_reach L 1 1 (?S e0 e1) _")
proof -
  have "concow_reach L 1 1 (?S e0 e1) (?S (batch_of j e0) e1)"
  proof (cases "j = Suc e0 * 4096")
    case True
    then show ?thesis unfolding batch_of_def if_P [OF True] by (intro long_epoch(1)) simp
  qed (simp only: batch_of_def if_False concow_reach.start)
  also have "concow_reach L 1 1 \<dots> (?S (batch_of j e0) (batch_of j e1))"
  proof (cases "j = Suc e1 * 4096")
    case True
    then show ?thesis unfolding batch_of_def [of j e1] if_P [OF True] by (intro long_epoch(2)) simp
  qed (simp only: batch_of_def [of j e1] if_False concow_reach.start)
  finally show ?thesis .
qed

lemma const_upd: "(\<lambda>_. x)(i := x) = (\<lambda>_. x)"
  by auto

definition long_round :: "nat \<Rightarrow> (betree_ctx, bemem) concow \<Rightarrow> bool" where
  "long_round j s \<longleftrightarrow> (\<exists>ctxs m rt hist e0 e1.
     s = cc_long ctxs (\<lambda>_. \<infinity>) m rt j j hist CC_Idle j j MO_Poll j j j j (pipe_at PP_Iter (Suc j) e0 j) (pipe_at PP_Iter (Suc j) e1 j) \<and>
     j \<le> Suc e0 * 4096 \<and> j \<le> Suc e1 * 4096 \<and> copies_left m (cx_root (ctxs j)) (conctrl_BUFFER_SIZE - j) \<and>
     cx_op (ctxs 0) = conctrl_DONE \<and> \<not> cx_new_checkpoint (ctxs 0))"

lemma long_next:
  assumes "long_round j s" "Suc j < conctrl_BUFFER_SIZE"
  shows "\<exists>s'. concow_reach (betree_lib fuel) 1 1 s s' \<and> long_round (Suc j) s'"
proof -
  from assms(1) obtain ctxs m rt hist e0 e1 where
    s: "s = cc_long ctxs (\<lambda>_. \<infinity>) m rt j j hist CC_Idle j j MO_Poll j j j j (pipe_at PP_Iter (Suc j) e0 j) (pipe_at PP_Iter (Suc j) e1 j)"
    and e: "j \<le> Suc e0 * 4096" "j \<le> Suc e1 * 4096" and left: "copies_left m (cx_root (ctxs j)) (conctrl_BUFFER_SIZE - j)"
    and z: "cx_op (ctxs 0) = conctrl_DONE" "\<not> cx_new_checkpoint (ctxs 0)"
    unfolding long_round_def by blast
  have r: "Suc j mod conctrl_BUFFER_SIZE = Suc j" "j mod conctrl_BUFFER_SIZE = j" using assms(2) by simp_all
  let ?f = "long_filled (Suc j) 0 7 (ctxs (Suc j))" and ?L = "betree_lib fuel" and ?h = "hist @ [Some (0, 7)]"
  let ?c = "ctxs(Suc j := ?f)"
  have "copies_left m (cx_t_past (?f\<lparr>cx_t_past := cx_root (ctxs j)\<rparr>)) (Suc (conctrl_BUFFER_SIZE - Suc j))"
    using left assms(2) by (simp add: Suc_diff_Suc)
  from copy_call [OF this] obtain a m' where
    call: "betree_handlers 0 (?f\<lparr>cx_t_past := cx_root (ctxs j)\<rparr>) m = Some (conctrl_DONE, ?f\<lparr>cx_t_past := cx_root (ctxs j), cx_root := a, cx_t_cur := a\<rparr>, m')"
    and left': "copies_left m' a (conctrl_BUFFER_SIZE - Suc j)" by (simp add: long_filled_def) blast
  let ?d = "ctxs(Suc j := ?f\<lparr>cx_t_past := cx_root (ctxs j), cx_root := a, cx_t_cur := a, cx_op := conctrl_DONE\<rparr>)"
  let ?ga = "batch_of j e0" and ?gb = "batch_of j e1"
  let ?p = "\<lambda>e. pipe_at PP_Iter (Suc j) e j" and ?q = "\<lambda>e. pipe_at PP_Iter (Suc (Suc j)) e (Suc j)"
  let ?i = "\<lambda>_. \<infinity> :: enat"
  have "concow_reach ?L 1 1 s (cc_long ctxs ?i m rt j j hist (CC_Claim 0 7) j j MO_Poll j j j j (?p e0) (?p e1))"
    unfolding s by (rule long_call)
  also have "concow_reach ?L 1 1 \<dots> (cc_long ctxs ?i m rt (Suc j) j ?h (CC_Writing 0 (Suc j) 0 7) j j MO_Poll j j j j (?p e0) (?p e1))"
    by (rule long_claim) (use assms(2) in simp_all)
  also have "concow_reach ?L 1 1 \<dots> (cc_long ?c (?i(Suc j := 0)) m rt (Suc j) j ?h CC_Idle j j MO_Poll j j j j (?p e0) (?p e1))"
    using long_write [where tid = "Suc j"] unfolding r(1) .
  also have "concow_reach ?L 1 1 \<dots> (cc_long ?c (?i(Suc j := 0)) m rt (Suc j) j ?h CC_Idle (Suc j) j MO_Collect (Suc j) (Suc j) j j (?p e0) (?p e1))"
    by (rule long_let_in) (simp_all add: r(1) del: mod_Suc_eq)
  also have "concow_reach ?L 1 1 \<dots> (cc_long ?c (?i(Suc j := 0)) m rt (Suc j) j ?h CC_Idle (Suc j) j MO_Collect (Suc j) (Suc j) j j (?p ?ga) (?p ?gb))"
    by (rule long_batches)
  also have "concow_reach ?L 1 1 \<dots> (cc_long ?d (?i(Suc j := 0)) m' rt (Suc j) j ?h CC_Idle (Suc j) (Suc j) MO_Collect (Suc j) (Suc j) j j (?q ?ga) (?p ?gb))"
    using long_entry [where tid = "Suc j" and e = ?ga and ?c0.0 = j and ctxs = ?c and L = ?L and m = m and m' = m' and
      c' = "?f\<lparr>cx_t_past := cx_root (ctxs j), cx_root := a, cx_t_cur := a\<rparr>", unfolded r(1)] batch_of [OF e(1)] call r(2)
    by (simp add: long_filled_def betree_lib_def)
  also have "concow_reach ?L 1 1 \<dots> (cc_long ?d ?i m' rt (Suc j) j ?h CC_Idle (Suc j) (Suc j) MO_Collect (Suc j) (Suc j) j j (?q ?ga) (?q ?gb))"
    using long_exit [where tid = "Suc j" and e = ?gb and ?c0.0 = j and ctxs = ?d and stages = "?i(Suc j := 0)", unfolded r(1)] batch_of [OF e(2)] by (simp add: const_upd)
  also have "concow_reach ?L 1 1 \<dots> (cc_long ?d ?i m' a (Suc j) (Suc j) ?h CC_Idle (Suc j) (Suc j) MO_Poll (Suc j) (Suc j) (Suc j) (Suc j) (?q ?ga) (?q ?gb))"
    using long_publish [where com = j and stages = ?i and ctxs = ?d, unfolded r(1)] by (simp add: long_filled_def)
  finally have "concow_reach ?L 1 1 s \<dots>" .
  moreover have "long_round (Suc j) (cc_long ?d ?i m' a (Suc j) (Suc j) ?h CC_Idle (Suc j) (Suc j) MO_Poll (Suc j) (Suc j) (Suc j) (Suc j) (?q ?ga) (?q ?gb))"
    unfolding long_round_def using batch_of [OF e(1)] batch_of [OF e(2)] left' z
    by (intro exI conjI) (rule refl | simp)+
  ultimately show ?thesis by blast
qed

text \<open>
  The last call. The number it claims first is the buffer size, which it gives back; it then claims the
  next one. The monitor lets the number given back in before the request of the other is written.
\<close>

lemma long_last:
  assumes "long_round (conctrl_BUFFER_SIZE - 1) s"
  shows "\<exists>s'. concow_reach (betree_lib fuel) 1 1 s s' \<and> cc_submitted s' = Suc conctrl_BUFFER_SIZE \<and>
    cc_committed s' = conctrl_BUFFER_SIZE \<and> (\<forall>i. cc_clients s' i = CC_Idle)"
proof -
  define B where "B = conctrl_BUFFER_SIZE"
  obtain j where j: "B = Suc j" "1 < j" by (rule that [of "65535"]) (simp_all add: B_def cc_batch)
  have mods: "Suc j mod B = 0" "Suc (Suc j) mod B = 1" "j mod B = j" using j by (simp_all add: mod_Suc)
  let ?L = "betree_lib fuel" and ?i = "\<lambda>_. \<infinity> :: enat"
  from assms j(1) obtain ctxs m rt hist e0 e1 where
    s: "s = cc_long ctxs ?i m rt j j hist CC_Idle j j MO_Poll j j j j (pipe_at PP_Iter (Suc j) e0 j) (pipe_at PP_Iter (Suc j) e1 j)"
    and e: "j \<le> Suc e0 * 4096" "j \<le> Suc e1 * 4096" and z: "cx_op (ctxs 0) = conctrl_DONE" "\<not> cx_new_checkpoint (ctxs 0)"
    unfolding long_round_def B_def [symmetric] by auto
  let ?c = "ctxs(0 := (ctxs 0)\<lparr>cx_sno := of_nat (Suc j)\<rparr>)" and ?st = "?i(0 := 0)" and ?h = "hist @ [None]"
  let ?d = "ctxs(0 := (ctxs 0)\<lparr>cx_sno := of_nat (Suc j), cx_root := cx_root (ctxs j)\<rparr>)"
  let ?p = "\<lambda>e. pipe_at PP_Iter (Suc j) e j" and ?q = "\<lambda>e. pipe_at PP_Iter (Suc (Suc j)) e (Suc j)"
  let ?ga = "batch_of j e0" and ?gb = "batch_of j e1"
  let ?S = "\<lambda>c st sub h cl. cc_long c st m rt sub j h cl j j MO_Poll j j j j (?p e0) (?p e1)"
  let ?T = "\<lambda>c st b p0 p1. cc_long c st m rt (Suc (Suc j)) j (?h @ [Some (0, 7)]) (CC_Writing 0 (Suc (Suc j)) 0 7) (Suc j) b MO_Collect (Suc (Suc j)) (Suc j) j j p0 p1"
  have "concow_reach ?L 1 1 s (?S ctxs ?i j hist (CC_Claim 0 7))" unfolding s by (rule long_call)
  also have "concow_step ?L 1 1 \<dots> (?S ctxs ?i (Suc j) ?h (CC_Waiting (Suc j) 0 7))"
    by (rule step_to, rule concow_step.client, rule concow_client_step.claim [where i = 0], (simp add: long_simps mods [unfolded B_def])+)
  also have "concow_step ?L 1 1 \<dots> (?S ctxs ?i (Suc j) ?h (CC_Skipping 0 (Suc j) 0 7))"
    by (rule step_to, rule concow_step.client, rule concow_client_step.place [where i = 0],
      use j in \<open>(simp add: long_simps mods [unfolded B_def] B_def)+\<close>)
  also have "concow_step ?L 1 1 \<dots> (?S ?c ?i (Suc j) ?h (CC_Skipping 1 (Suc j) 0 7))"
    by (rule step_to, rule concow_step.client, rule concow_client_step.skip_sno [where i = 0], (simp add: long_simps mods [unfolded B_def])+)
  also have "concow_step ?L 1 1 \<dots> (?S ?c ?st (Suc j) ?h (CC_Claim 0 7))"
    by (rule step_to, rule concow_step.client, rule concow_client_step.skip_stage [where i = 0], (simp add: long_simps mods [unfolded B_def])+)
  also have "concow_reach ?L 1 1 \<dots> (?S ?c ?st (Suc (Suc j)) (?h @ [Some (0, 7)]) (CC_Writing 0 (Suc (Suc j)) 0 7))"
    by (rule long_claim) (use j mods in \<open>simp_all add: B_def\<close>)
  also have "concow_reach ?L 1 1 \<dots> (?T ?c ?st j (?p e0) (?p e1))"
    by (rule long_let_in) (simp_all add: mods [unfolded B_def])
  also have "concow_reach ?L 1 1 \<dots> (?T ?c ?st j (?p ?ga) (?p ?gb))" by (rule long_batches)
  also have "concow_reach ?L 1 1 \<dots> (?T ?d ?st (Suc j) (?q ?ga) (?p ?gb))"
    using long_keep [where tid = "Suc j" and e = ?ga and ?c0.0 = j and ctxs = ?c and L = ?L] batch_of [OF e(1)] mods(1,3) j(2) by (simp add: B_def)
  also have "concow_reach ?L 1 1 \<dots> (?T ?d ?i (Suc j) (?q ?ga) (?q ?gb))"
    using long_exit [where tid = "Suc j" and e = ?gb and ?c0.0 = j and ctxs = ?d and stages = ?st and L = ?L] batch_of [OF e(2)] mods(1) z(1)
    by (simp add: const_upd B_def)
  also have "concow_reach ?L 1 1 \<dots> (cc_long ?d ?i m (cx_root (?d (Suc j mod conctrl_BUFFER_SIZE))) (Suc (Suc j)) (Suc j) (?h @ [Some (0, 7)])
      (CC_Writing 0 (Suc (Suc j)) 0 7) (Suc j) (Suc j) MO_Poll (Suc (Suc j)) (Suc j) (Suc j) (Suc j) (?q ?ga) (?q ?gb))"
    by (rule long_publish) (simp_all add: mods [unfolded B_def] z)
  also note long_write
  finally show ?thesis
    by (intro exI conjI) (assumption, use j in \<open>simp_all add: cc_long_def B_def\<close>)
qed

section \<open>The whole run\<close>

text \<open>A tree with the one key 0, and memory for as many nodes as the ring has slots.\<close>

definition concow_long_start :: "(betree_ctx, bemem) concow" where
  "concow_long_start = concow_init 1 (btree_demo_ctx 0 0) 1 (betree_demo conctrl_BUFFER_SIZE [(0, 5)])"

lemma demo_copies: "copies_left (betree_demo k [(0, 5)]) 1 k"
  by (auto simp: copies_left_def betree_demo_def betree_demo_leaf_def arr_get_def demo_blocks_def)

lemma long_start: "\<exists>s. concow_reach L 1 1 concow_long_start s \<and> long_round 0 s"
proof -
  let ?m = "betree_demo conctrl_BUFFER_SIZE [(0, 5)]" and ?z = "(btree_demo_ctx 0 0)\<lparr>cx_op := conctrl_DONE\<rparr>"
  let ?S = "cc_long ((\<lambda>_. ?z)(0 := ?z\<lparr>cx_sno := 0, cx_root := 1\<rparr>)) (\<lambda>_. \<infinity>) ?m 1 0 0 [] CC_Idle 0 0 MO_Poll 0 0 0 0"
  have "concow_long_start = ?S cc_pipe_start cc_pipe_start"
    by (simp add: concow_long_start_def concow_init_def cc_long_def cc_pipe_start_def fun_eq_iff)
  then have "concow_reach L 1 1 concow_long_start (?S cc_pipe_start cc_pipe_start)" by (simp add: concow_reach.start)
  also have "concow_step L 1 1 \<dots> (?S (pipe_at PP_Iter 1 0 0) cc_pipe_start)"
    by (rule step_to, rule concow_step.pipe_loop [where p = 0], simp, rule concow_pipe_loop.batch, rule refl, (simp add: long_simps cc_pipe_start_def)+)
  also have "concow_step L 1 1 \<dots> (?S (pipe_at PP_Iter 1 0 0) (pipe_at PP_Iter 1 0 0))"
    by (rule step_to, rule concow_step.pipe_loop [where p = 1], simp, rule concow_pipe_loop.batch, rule refl, (simp add: long_simps cc_pipe_start_def)+)
  finally have "concow_reach L 1 1 concow_long_start (?S (pipe_at PP_Iter 1 0 0) (pipe_at PP_Iter 1 0 0))" .
  moreover have "long_round 0 (?S (pipe_at PP_Iter 1 0 0) (pipe_at PP_Iter 1 0 0))"
    unfolding long_round_def using demo_copies [of conctrl_BUFFER_SIZE]
    by (intro exI conjI) (rule refl | simp add: btree_demo_ctx_def)+
  ultimately show ?thesis by blast
qed

lemma long_rounds: "j < conctrl_BUFFER_SIZE \<Longrightarrow> \<exists>s. concow_reach (betree_lib fuel) 1 1 concow_long_start s \<and> long_round j s"
proof (induction j)
  case 0
  show ?case by (rule long_start)
next
  case (Suc j)
  then obtain s where "concow_reach (betree_lib fuel) 1 1 concow_long_start s" "long_round j s" by auto
  with long_next [of j s fuel] Suc.prems show ?case using concow_reach_trans by blast
qed

lemma long_run:
  obtains ts s where "concow_run (betree_lib fuel) 1 1 concow_long_start ts s" "cc_submitted s = Suc conctrl_BUFFER_SIZE"
    "cc_committed s = conctrl_BUFFER_SIZE" "\<forall>i. cc_clients s i = CC_Idle"
proof -
  have "conctrl_BUFFER_SIZE - 1 < conctrl_BUFFER_SIZE" by (simp add: cc_batch)
  from long_rounds [OF this, of fuel] obtain s where "concow_reach (betree_lib fuel) 1 1 concow_long_start s" "long_round (conctrl_BUFFER_SIZE - 1) s" by blast
  with long_last [of s fuel] obtain s' where "concow_reach (betree_lib fuel) 1 1 concow_long_start s'" "cc_submitted s' = Suc conctrl_BUFFER_SIZE"
    "cc_committed s' = conctrl_BUFFER_SIZE" "\<forall>i. cc_clients s' i = CC_Idle" using concow_reach_trans by blast
  with reach_run [of "betree_lib fuel" 1 1 concow_long_start s'] that show thesis by blast
qed

end
