(* ===== verification/Concow_Correct.thy ===== *)
theory Concow_Correct
  imports Concow_Long
begin

text \<open>
  The properties of \<^verbatim>\<open>concow\<close>, stated for the elastic B+-tree, whose checkpoints it serves: who
  uses a context at a time, what a published root is, that the pipeline can end, and what
  \<^verbatim>\<open>wait_for_processing\<close> says of the calls of \<^verbatim>\<open>update\<close>.
\<close>

section \<open>A run of one update\<close>

lemmas cc_reach_client = concow_reach.step [OF _ concow_step.client]
lemmas cc_reach_monitor = concow_reach.step [OF _ concow_step.monitor]
lemmas cc_reach_loop = concow_reach.step [OF _ concow_step.pipe_loop]

text \<open>One pipe besides the exit; the task is done after the first stage.\<close>

definition cc_pipe_end :: pipe_context where
  "cc_pipe_end = \<lparr>pp_pc = PP_Iter, pp_tid = 2, pp_last = 4096, pp_epoch = 0, pp_final = False, pp_cache = 1, pp_checkpoint = 0\<rparr>"

definition cc_filled :: "'x ctx_scheme \<Rightarrow> key \<Rightarrow> val \<Rightarrow> 'x ctx_scheme" where
  "cc_filled zero k v = zero\<lparr>cx_op := conctrl_INIT, cx_retry := False, cx_wait_child := False, cx_wait_subtree := False,
     cx_new_checkpoint := False, cx_sno := 1, cx_key := k, cx_val := v\<rparr>"

lemma cc_submitted_run:
  fixes zero :: "'x ctx_scheme" and k v :: "64 word" and W and t and m :: 'm
  defines "s0 \<equiv> concow_init W zero t m"
  shows "concow_reach L n W s0 (s0\<lparr>cc_submitted := 1, cc_hist := [Some (k, v)],
    cc_ctxs := (cc_ctxs s0)(1 := cc_filled zero k v), cc_stages := (cc_stages s0)(1 := 0)\<rparr>)"
proof -
  have 0: "concow_reach L n W s0 s0" by (rule concow_reach.start)
  have 1: "concow_reach L n W s0 (cc_set_client 0 (CC_Claim k v) s0)"
    by (rule cc_reach_client [OF 0 concow_client_step.call]) (simp_all add: s0_def concow_init_def)
  define s2 where "s2 = cc_set_client 0 (CC_Waiting 1 k v) (s0\<lparr>cc_submitted := 1, cc_hist := [Some (k, v)]\<rparr>)"
  have "concow_client_step (cc_set_client 0 (CC_Claim k v) s0) s2"
    using concow_client_step.claim [of "cc_set_client 0 (CC_Claim k v) s0" 0 k v 1]
    by (simp add: s2_def cc_set_client_def s0_def concow_init_def cc_batch)
  note 2 = cc_reach_client [OF 1 this]
  define s3 where "s3 = (\<lambda>j c. cc_set_client 0 (CC_Writing j 1 k v) (s0\<lparr>cc_submitted := 1, cc_hist := [Some (k, v)], cc_ctxs := (cc_ctxs s0)(1 := c)\<rparr>))"
  have "concow_client_step s2 (s3 0 (zero\<lparr>cx_op := conctrl_DONE\<rparr>))"
    using concow_client_step.place [of s2 0 1 k v]
    by (simp add: s2_def s3_def cc_set_client_def s0_def concow_init_def cc_batch fun_upd_idem)
  note 3 = cc_reach_client [OF 2 this]
  have store: "concow_reach L n W s0 (s3 (Suc j) (seqcow_store j 1 k v c))" if "concow_reach L n W s0 (s3 j c)" "j < 5" for j c
  proof (rule cc_reach_client [OF that(1)])
    have "cc_clients (s3 j c) 0 = CC_Writing j 1 k v" by (simp add: s3_def cc_set_client_def)
    from concow_client_step.store [OF this that(2)] show "concow_client_step (s3 j c) (s3 (Suc j) (seqcow_store j 1 k v c))"
      by (simp add: s3_def cc_set_client_def cc_set_ctx_def cc_ctx_def cc_batch)
  qed
  have 8: "concow_reach L n W s0 (s3 5 (cc_filled zero k v))"
  proof -
    have 5: "5 = Suc (Suc (Suc (Suc (Suc 0))))" by simp
    have f: "cc_filled zero k v = seqcow_store 4 1 k v (seqcow_store 3 1 k v (seqcow_store 2 1 k v (seqcow_store 1 1 k v
        (seqcow_store 0 1 k v (zero\<lparr>cx_op := conctrl_DONE\<rparr>)))))"
      by (simp add: cc_filled_def seqcow_store.simps)
    from store [OF store [OF store [OF store [OF store [OF 3]]]]] show ?thesis by (simp add: f numeral_eq_Suc)
  qed
  have "concow_client_step (s3 5 (cc_filled zero k v)) (s0\<lparr>cc_submitted := 1, cc_hist := [Some (k, v)],
    cc_ctxs := (cc_ctxs s0)(1 := cc_filled zero k v), cc_stages := (cc_stages s0)(1 := 0)\<rparr>)"
    using concow_client_step.return [of "s3 5 (cc_filled zero k v)" 0 1 k v]
    by (simp add: s3_def cc_set_client_def cc_set_stage_def s0_def concow_init_def cc_batch fun_upd_idem)
  from cc_reach_client [OF 8 this] show ?thesis .
qed

text \<open>The states of the run after the client has returned.\<close>

definition cc_one :: "nat \<Rightarrow> 'x ctx_scheme \<Rightarrow> addr \<Rightarrow> key \<Rightarrow> val \<Rightarrow> 'x ctx_scheme \<Rightarrow> enat \<Rightarrow> 'm \<Rightarrow> addr \<Rightarrow> nat \<Rightarrow> (nat \<Rightarrow> nat) \<Rightarrow>
    mo_pc \<Rightarrow> nat \<Rightarrow> nat \<Rightarrow> nat \<Rightarrow> nat \<Rightarrow> pipe_context \<Rightarrow> pipe_context \<Rightarrow> ('x ctx_scheme, 'm) concow" where
  "cc_one W zero t_init k v c st m rt com pace pc sub ini mcom nxt p0 p1 =
     \<lparr>cc_ctxs = (\<lambda>_. zero\<lparr>cx_op := conctrl_DONE\<rparr>)(0 := zero\<lparr>cx_op := conctrl_DONE, cx_sno := 0, cx_root := t_init\<rparr>, Suc 0 := c),
      cc_stages = (\<lambda>_. \<infinity>)(Suc 0 := st), cc_mem = m, cc_root = rt, cc_submitted = 1, cc_committed = com, cc_checkpoint = 0,
      cc_stop = False, cc_available = [0..<W], cc_pace = pace, cc_worker_tid = (\<lambda>_. Some 0),
      mo_pc = pc, mo_stop = False, mo_submitted = sub, mo_inited = ini, mo_committed = mcom, mo_next = nxt,
      cc_pipes = (\<lambda>_. cc_pipe_start)(0 := p0, Suc 0 := p1),
      cc_workers = (\<lambda>_. \<lparr>wk_pc = WK_Poll, wk_tid = 0, wk_last = 0, wk_stage = 0\<rparr>),
      cc_clients = (\<lambda>_. CC_Idle), cc_hist = [Some (k, v)]\<rparr>"

lemma cc_one_start:
  "(concow_init W zero t_init m)\<lparr>cc_submitted := 1, cc_hist := [Some (k, v)],
     cc_ctxs := (cc_ctxs (concow_init W zero t_init m))(1 := c), cc_stages := (cc_stages (concow_init W zero t_init m))(1 := st)\<rparr> =
   cc_one W zero t_init k v c st m t_init 0 (\<lambda>_. 0) MO_Poll 0 0 0 0 cc_pipe_start cc_pipe_start"
  by (simp add: concow_init_def cc_one_def cc_pipe_start_def fun_eq_iff)

lemmas cc_one_simps = cc_one_def cc_stage_def cc_ctx_def cc_batch cc_updates cc_pipe_start_def cc_pipe_end_def fun_eq_iff

lemma cc_one_run:
  assumes run: "lib_handlers L 0 ((cc_filled zero k v)\<lparr>cx_t_past := t_init\<rparr>) m = Some (conctrl_DONE, c', m')"
    and flags: "\<not> cx_retry c'" "\<not> cx_new_checkpoint c'"
  shows "concow_reach L 1 W (concow_init W zero t_init m)
    (cc_one W zero t_init k v (c'\<lparr>cx_op := conctrl_DONE\<rparr>) \<infinity> m' (cx_root c') 1 ((\<lambda>_. 0)(0 := 1, Suc 0 := 1))
      MO_Poll 1 1 1 1 cc_pipe_end cc_pipe_end)"
proof -
  let ?S = "cc_one W zero t_init k v" and ?f = "cc_filled zero k v" and ?d = "c'\<lparr>cx_op := conctrl_DONE\<rparr>"
  let ?z = "\<lambda>_. 0" and ?a = "(\<lambda>_. 0)(0 := 1)" and ?ab = "(\<lambda>_. 0)(0 := 1, Suc 0 := 1)"
  let ?b = cc_pipe_start and ?e = cc_pipe_end
  have "concow_reach L 1 W (concow_init W zero t_init m) (?S ?f 0 m t_init 0 ?z MO_Poll 0 0 0 0 ?b ?b)"
    using cc_submitted_run [where W = W and zero = zero and t = t_init and m = m and k = k and v = v and L = L and n = 1] unfolding cc_one_start .
  also have "concow_step L 1 W \<dots> (?S ?f 0 m t_init 0 ?z MO_Load 0 0 0 0 ?b ?b)"
    by (rule step_to, rule concow_step.monitor, rule concow_monitor_step.poll, (simp add: cc_one_simps)+)
  also have "concow_step L 1 W \<dots> (?S ?f 0 m t_init 0 ?z MO_Init 1 0 0 0 ?b ?b)"
    by (rule step_to, rule concow_step.monitor, rule concow_monitor_step.load, (simp add: cc_one_simps)+)
  also have "concow_step L 1 W \<dots> (?S ?f 0 m t_init 0 ?z MO_Init 1 0 0 1 ?b ?b)"
    by (rule step_to, rule concow_step.monitor, rule concow_monitor_step.init, (simp add: cc_one_simps)+)
  also have "concow_step L 1 W \<dots> (?S ?f 0 m t_init 0 ?z MO_Advance 1 0 0 1 ?b ?b)"
    by (rule step_to, rule concow_step.monitor, rule concow_monitor_step.init_end, (simp add: cc_one_simps)+)
  also have "concow_step L 1 W \<dots> (?S ?f 0 m t_init 0 ?a MO_Collect 1 1 0 0 ?b ?b)"
    by (rule step_to, rule concow_step.monitor, rule concow_monitor_step.advance, (simp add: cc_one_simps)+)
  also have "concow_step L 1 W \<dots> (?S ?f 0 m t_init 0 ?a MO_Collect 1 1 0 0 (?b\<lparr>pp_last := 4096, pp_pc := PP_Iter\<rparr>) ?b)"
    by (rule step_to, rule concow_step.pipe_loop [where p = 0], simp, rule concow_pipe_loop.batch, rule refl, (simp add: cc_one_simps)+)
  also have "concow_step L 1 W \<dots> (?S ?f 0 m t_init 0 ?a MO_Collect 1 1 0 0 (?b\<lparr>pp_last := 4096, pp_cache := 1, pp_pc := PP_Iter\<rparr>) ?b)"
    by (rule step_to, rule concow_step.pipe_loop [where p = 0], simp, rule concow_pipe_loop.wait, rule refl, (simp add: cc_one_simps)+)
  also have "concow_step L 1 W \<dots> (?S ?f 0 m t_init 0 ?a MO_Collect 1 1 0 0 (?b\<lparr>pp_last := 4096, pp_cache := 1, pp_pc := PP_Work\<rparr>) ?b)"
    by (rule step_to, rule concow_step.pipe_loop [where p = 0], simp, rule concow_pipe_loop.task, rule refl, (simp add: cc_one_simps)+)
  also have "concow_step L 1 W \<dots> (?S ?d 0 m' t_init 0 ?a MO_Collect 1 1 0 0 (?b\<lparr>pp_last := 4096, pp_cache := 1, pp_pc := PP_Retry\<rparr>) ?b)"
    by (rule step_to, rule concow_step.entry, rule concow_entry.init, rule refl, simp add: cc_one_simps, rule refl,
      simp add: cc_one_simps, simp add: cc_one_simps cc_filled_def, use run in \<open>simp add: cc_one_simps\<close>, simp add: cc_one_simps)
  also have "concow_step L 1 W \<dots> (?S ?d 0 m' t_init 0 ?a MO_Collect 1 1 0 0 (?b\<lparr>pp_last := 4096, pp_cache := 1, pp_pc := PP_Advance\<rparr>) ?b)"
    by (rule step_to, rule concow_step.iter_exec [where p = 0], simp, rule concow_iter_exec.retry, rule refl, (simp add: cc_one_simps flags)+)
  also have "concow_step L 1 W \<dots> (?S ?d 0 m' t_init 0 ?ab MO_Collect 1 1 0 0 ?e ?b)"
    by (rule step_to, rule concow_step.pipe_loop [where p = 0], simp, rule concow_pipe_loop.advance, rule refl, (simp add: cc_one_simps)+)
  also have "concow_step L 1 W \<dots> (?S ?d 0 m' t_init 0 ?ab MO_Collect 1 1 0 0 ?e (?b\<lparr>pp_last := 4096, pp_pc := PP_Iter\<rparr>))"
    by (rule step_to, rule concow_step.pipe_loop [where p = 1], simp, rule concow_pipe_loop.batch, rule refl, (simp add: cc_one_simps)+)
  also have "concow_step L 1 W \<dots> (?S ?d 0 m' t_init 0 ?ab MO_Collect 1 1 0 0 ?e (?b\<lparr>pp_last := 4096, pp_cache := 1, pp_pc := PP_Iter\<rparr>))"
    by (rule step_to, rule concow_step.pipe_loop [where p = 1], simp, rule concow_pipe_loop.wait, rule refl, (simp add: cc_one_simps)+)
  also have "concow_step L 1 W \<dots> (?S ?d 0 m' t_init 0 ?ab MO_Collect 1 1 0 0 ?e (?b\<lparr>pp_last := 4096, pp_cache := 1, pp_pc := PP_Work\<rparr>))"
    by (rule step_to, rule concow_step.pipe_loop [where p = 1], simp, rule concow_pipe_loop.task, rule refl, (simp add: cc_one_simps)+)
  also have "concow_step L 1 W \<dots> (?S ?d \<infinity> m' t_init 0 ?ab MO_Collect 1 1 0 0 ?e ?e)"
    by (rule step_to, rule concow_step.exit, rule concow_exit.complete, rule refl, (simp add: cc_one_simps)+)
  also have "concow_step L 1 W \<dots> (?S ?d \<infinity> m' t_init 0 ?ab MO_Flag 1 1 0 1 ?e ?e)"
    by (rule step_to, rule concow_step.monitor, rule concow_monitor_step.collect, (simp add: cc_one_simps)+)
  also have "concow_step L 1 W \<dots> (?S ?d \<infinity> m' t_init 0 ?ab MO_Collect 1 1 0 1 ?e ?e)"
    by (rule step_to, rule concow_step.monitor, rule concow_monitor_step.flag, (simp add: cc_one_simps flags)+)
  also have "concow_step L 1 W \<dots> (?S ?d \<infinity> m' t_init 0 ?ab MO_Publish 1 1 0 1 ?e ?e)"
    by (rule step_to, rule concow_step.monitor, rule concow_monitor_step.collect_end, (simp add: cc_one_simps)+)
  also have "concow_step L 1 W \<dots> (?S ?d \<infinity> m' (cx_root c') 0 ?ab MO_Commit 1 1 1 1 ?e ?e)"
    by (rule step_to, rule concow_step.monitor, rule concow_monitor_step.publish, (simp add: cc_one_simps)+)
  also have "concow_step L 1 W \<dots> (?S ?d \<infinity> m' (cx_root c') 1 ?ab MO_Poll 1 1 1 1 ?e ?e)"
    by (rule step_to, rule concow_step.monitor, rule concow_monitor_step.commit, (simp add: cc_one_simps)+)
  finally show ?thesis .
qed

section \<open>Concrete runs for the witnesses\<close>

definition concow_demo_ctx :: betree_ctx where
  "concow_demo_ctx = btree_demo_ctx 0 0"

lemma concow_demo_call:
  obtains c' m' where "lib_handlers (betree_lib 1) 0 ((cc_filled concow_demo_ctx 0 7)\<lparr>cx_t_past := 1\<rparr>) (betree_demo 1 [(0, 5)]) =
      Some (conctrl_DONE, c', m')" "\<not> cx_retry c'" "\<not> cx_new_checkpoint c'" "cx_key c' = 0" "cx_val c' = 7"
  by (simp add: betree_lib_def betree_handlers_def conctrl_INIT_def betree_handle_init_def betree_update_upper_cow_def
    betree_update_leaf_cow_def cc_filled_def concow_demo_ctx_def btree_demo_ctx_def mem_get_def betree_demo_def betree_demo_leaf_def
    betree_findval_def betree_findval_from.simps betree_key_at_def arr_get_def betree_copy_leaf_def mem_alloc_def demo_blocks_def
    mem_upd_def arr_set_def)

definition concow_demo_start :: "(betree_ctx, bemem) concow" where
  "concow_demo_start = concow_init 1 concow_demo_ctx 1 (betree_demo 1 [(0, 5)])"

definition concow_demo_waiting :: "(betree_ctx, bemem) concow" where
  "concow_demo_waiting = concow_demo_start\<lparr>cc_submitted := 1, cc_hist := [Some (0, 7)],
    cc_ctxs := (cc_ctxs concow_demo_start)(1 := cc_filled concow_demo_ctx 0 7), cc_stages := (cc_stages concow_demo_start)(1 := 0)\<rparr>"

lemma concow_demo_reach: "concow_reach L n 1 concow_demo_start concow_demo_waiting"
  unfolding concow_demo_waiting_def concow_demo_start_def by (rule cc_submitted_run)

text \<open>Two clients that write at once.\<close>

lemma concow_two_reach:
  "concow_reach L n W (concow_init W zero t m) ((concow_init W zero t m)\<lparr>cc_submitted := 2,
     cc_hist := [Some (0, 7), Some (0, 8)], cc_clients := (\<lambda>_. CC_Idle)(0 := CC_Writing 0 1 0 7, 1 := CC_Writing 0 2 0 8)\<rparr>)"
proof -
  let ?s = "concow_init W zero t m"
  have "concow_reach L n W ?s ?s" by (rule concow_reach.start)
  also have "concow_step L n W \<dots> (?s\<lparr>cc_submitted := 0, cc_hist := [], cc_clients := (\<lambda>_. CC_Idle)(0 := CC_Claim 0 7)\<rparr>)"
    by (rule step_to, rule concow_step.client, rule concow_client_step.call [where i = 0], (simp add: cc_set_client_def concow_init_def cc_batch fun_eq_iff)+)
  also have "concow_step L n W \<dots> (?s\<lparr>cc_submitted := 0, cc_hist := [], cc_clients := (\<lambda>_. CC_Idle)(0 := CC_Claim 0 7, 1 := CC_Claim 0 8)\<rparr>)"
    by (rule step_to, rule concow_step.client, rule concow_client_step.call [where i = 1], (simp add: cc_set_client_def concow_init_def cc_batch fun_eq_iff)+)
  also have "concow_step L n W \<dots> (?s\<lparr>cc_submitted := 1, cc_hist := [Some (0, 7)], cc_clients := (\<lambda>_. CC_Idle)(0 := CC_Waiting 1 0 7, 1 := CC_Claim 0 8)\<rparr>)"
    by (rule step_to, rule concow_step.client, rule concow_client_step.claim [where i = 0], (simp add: cc_set_client_def concow_init_def cc_batch fun_eq_iff)+)
  also have "concow_step L n W \<dots> (?s\<lparr>cc_submitted := 2, cc_hist := [Some (0, 7), Some (0, 8)], cc_clients := (\<lambda>_. CC_Idle)(0 := CC_Waiting 1 0 7, 1 := CC_Waiting 2 0 8)\<rparr>)"
    by (rule step_to, rule concow_step.client, rule concow_client_step.claim [where i = 1], (simp add: cc_set_client_def concow_init_def cc_batch fun_eq_iff)+)
  also have "concow_step L n W \<dots> (?s\<lparr>cc_submitted := 2, cc_hist := [Some (0, 7), Some (0, 8)], cc_clients := (\<lambda>_. CC_Idle)(0 := CC_Writing 0 1 0 7, 1 := CC_Waiting 2 0 8)\<rparr>)"
    by (rule step_to, rule concow_step.client, rule concow_client_step.place [where i = 0], (simp add: cc_set_client_def concow_init_def cc_batch fun_eq_iff)+)
  also have "concow_step L n W \<dots> (?s\<lparr>cc_submitted := 2, cc_hist := [Some (0, 7), Some (0, 8)], cc_clients := (\<lambda>_. CC_Idle)(0 := CC_Writing 0 1 0 7, 1 := CC_Writing 0 2 0 8)\<rparr>)"
    by (rule step_to, rule concow_step.client, rule concow_client_step.place [where i = 1], (simp add: cc_set_client_def concow_init_def cc_batch fun_eq_iff)+)
  finally show ?thesis .
qed

text \<open>The destructor at work with nothing submitted; the exit has begun its first batch.\<close>

lemma concow_end_reach:
  "concow_reach L 1 W (concow_init W zero t m) ((concow_init W zero t m)\<lparr>cc_pipes := (cc_pipes (concow_init W zero t m))
     (1 := cc_pipe_start\<lparr>pp_last := 4096, pp_pc := PP_Iter\<rparr>), cc_stop := True, mo_stop := True, cc_pace := (\<lambda>_. 0)(0 := 4096), mo_pc := MO_Done\<rparr>)"
proof -
  let ?s = "concow_init W zero t m" and ?x = "cc_pipe_start\<lparr>pp_last := 4096, pp_pc := PP_Iter\<rparr>"
  have "concow_reach L 1 W ?s ?s" by (rule concow_reach.start)
  also have "concow_step L 1 W \<dots> (?s\<lparr>cc_pipes := (cc_pipes ?s)(1 := ?x)\<rparr>)"
    by (rule step_to, rule concow_step.pipe_loop [where p = 1], simp, rule concow_pipe_loop.batch, rule refl,
      (simp add: concow_init_def cc_pipe_start_def cc_set_pipe_def cc_batch fun_eq_iff)+)
  also have "concow_step L 1 W \<dots> (?s\<lparr>cc_pipes := (cc_pipes ?s)(1 := ?x), cc_stop := True\<rparr>)"
    by (rule step_to, rule concow_step.stop, (simp add: concow_init_def)+)
  also have "concow_step L 1 W \<dots> (?s\<lparr>cc_pipes := (cc_pipes ?s)(1 := ?x), cc_stop := True, mo_stop := True, mo_pc := MO_Load\<rparr>)"
    by (rule step_to, rule concow_step.monitor, rule concow_monitor_step.poll, (simp add: concow_init_def cc_stage_def fun_eq_iff)+)
  also have "concow_step L 1 W \<dots> (?s\<lparr>cc_pipes := (cc_pipes ?s)(1 := ?x), cc_stop := True, mo_stop := True, mo_pc := MO_Init\<rparr>)"
    by (rule step_to, rule concow_step.monitor, rule concow_monitor_step.load, (simp add: concow_init_def cc_stage_def fun_eq_iff)+)
  also have "concow_step L 1 W \<dots> (?s\<lparr>cc_pipes := (cc_pipes ?s)(1 := ?x), cc_stop := True, mo_stop := True, mo_pc := MO_Advance\<rparr>)"
    by (rule step_to, rule concow_step.monitor, rule concow_monitor_step.init_end, (simp add: concow_init_def cc_stage_def fun_eq_iff)+)
  also have "concow_step L 1 W \<dots> (?s\<lparr>cc_pipes := (cc_pipes ?s)(1 := ?x), cc_stop := True, mo_stop := True, mo_pc := MO_Collect\<rparr>)"
    by (rule step_to, rule concow_step.monitor, rule concow_monitor_step.advance, (simp add: concow_init_def cc_stage_def fun_eq_iff)+)
  also have "concow_step L 1 W \<dots> (?s\<lparr>cc_pipes := (cc_pipes ?s)(1 := ?x), cc_stop := True, mo_stop := True, mo_pc := MO_Publish\<rparr>)"
    by (rule step_to, rule concow_step.monitor, rule concow_monitor_step.collect_end, (simp add: concow_init_def cc_stage_def fun_eq_iff)+)
  also have "concow_step L 1 W \<dots> (?s\<lparr>cc_pipes := (cc_pipes ?s)(1 := ?x), cc_stop := True, mo_stop := True, mo_pc := MO_Poll\<rparr>)"
    by (rule step_to, rule concow_step.monitor, rule concow_monitor_step.nothing_new, (simp add: concow_init_def cc_stage_def fun_eq_iff)+)
  also have "concow_step L 1 W \<dots> (?s\<lparr>cc_pipes := (cc_pipes ?s)(1 := ?x), cc_stop := True, mo_stop := True, cc_pace := (\<lambda>_. 0)(0 := 4096), mo_pc := MO_Done\<rparr>)"
    by (rule step_to, rule concow_step.monitor, rule concow_monitor_step.finish, (simp add: concow_init_def cc_batch fun_eq_iff)+)
  finally show ?thesis .
qed

section \<open>Properties\<close>

text \<open>
  C33. In every state that \<^verbatim>\<open>concow\<close> reaches over the elastic B+-tree, whatever the interleaving:
  the published counter is at most the monitor's, that at most the number of tasks it has let in, and
  that at most the tasks submitted; every task let in has been written by its client; and the pipes
  pass the tasks on in order, each one at most as far as the one before it, the exit beyond
  everything published.
\<close>

theorem concow_counters:
  assumes reach: "concow_reach (betree_lib fuel) n W (concow_init W zero t m) s" and n: "0 < n"
  shows "cc_committed s \<le> mo_committed s \<and> mo_committed s \<le> mo_inited s \<and> mo_inited s \<le> cc_submitted s \<and>
    (\<forall>j\<le>mo_inited s. cc_ready s j) \<and> mo_committed s < pp_tid (cc_pipes s n) \<and>
    (\<forall>p q. p \<le> q \<and> q \<le> n \<longrightarrow> pp_tid (cc_pipes s q) \<le> pp_tid (cc_pipes s p))"
proof -
  have inv: "cc_inv n W s" by (rule betree_cc.reach_inv [OF reach n])
  then have ok: "cc_monitor_ok s" "cc_pipes_ok n s" by (simp_all add: cc_inv_def)
  have "mo_committed s < pp_tid (cc_pipes s n)" using published_task(3) [OF inv] by (simp add: cc_exit_def)
  moreover have "pp_tid (cc_pipes s q) \<le> pp_tid (cc_pipes s p)" if "p \<le> q \<and> q \<le> n" for p q
    using pipes_order(1) [OF ok(2)] that by blast
  moreover have "cc_committed s \<le> mo_committed s" "mo_committed s \<le> mo_inited s" "mo_inited s \<le> cc_submitted s" "\<forall>j\<le>mo_inited s. cc_ready s j"
    using ok(1) by (simp_all add: cc_monitor_ok_def)
  ultimately show ?thesis by blast
qed

theorem concow_counters_witness:
  "mo_inited concow_demo_waiting < cc_submitted concow_demo_waiting \<and> mo_inited concow_demo_waiting \<le> cc_submitted concow_demo_waiting"
proof -
  have "concow_reach (betree_lib 1) 1 1 (concow_init 1 concow_demo_ctx 1 (betree_demo 1 [(0, 5)])) concow_demo_waiting"
    by (rule concow_demo_reach [unfolded concow_demo_start_def])
  from concow_counters [OF this] show ?thesis by (simp add: concow_demo_waiting_def concow_demo_start_def concow_init_def)
qed

text \<open>
  C34. No context is ever in two hands: of all clients that write a request, pipes that work on a
  task and workers that run one, no two are at tasks that share a slot of the ring.
\<close>

theorem concow_exclusive:
  assumes reach: "concow_reach (betree_lib fuel) n W (concow_init W zero t m) s" and n: "0 < n"
    and uses: "cc_uses n s u i" "cc_uses n s u' j" "u \<noteq> u'"
  shows "i mod conctrl_BUFFER_SIZE \<noteq> j mod conctrl_BUFFER_SIZE"
proof
  have inv: "cc_inv n W s" by (rule betree_cc.reach_inv [OF reach n])
  assume "i mod conctrl_BUFFER_SIZE = j mod conctrl_BUFFER_SIZE"
  then have "i = j" using window_mod [OF uses_window(1) [OF inv uses(1)] uses_window(1) [OF inv uses(2)]] by simp
  with uses_apart [OF inv uses(1), of u'] uses(2,3) show False by simp
qed

theorem concow_exclusive_witness:
  "\<exists>s. concow_reach (betree_lib 1) 1 1 (concow_init 1 concow_demo_ctx 1 (betree_demo 1 [])) s \<and>
     cc_uses 1 s (CC_Client 0) 1 \<and> cc_uses 1 s (CC_Client 1) 2 \<and> (1 :: nat) mod conctrl_BUFFER_SIZE \<noteq> 2 mod conctrl_BUFFER_SIZE"
proof -
  let ?s = "(concow_init 1 concow_demo_ctx 1 (betree_demo 1 []))\<lparr>cc_submitted := 2,
     cc_hist := [Some (0, 7), Some (0, 8)], cc_clients := (\<lambda>_. CC_Idle)(0 := CC_Writing 0 1 0 7, 1 := CC_Writing 0 2 0 8)\<rparr>"
  have reach: "concow_reach (betree_lib 1) 1 1 (concow_init 1 concow_demo_ctx 1 (betree_demo 1 [])) ?s" by (rule concow_two_reach)
  have uses: "cc_uses 1 ?s (CC_Client 0) 1" "cc_uses 1 ?s (CC_Client 1) 2" by simp_all
  show ?thesis using concow_exclusive [OF reach _ uses] by (intro exI [of _ ?s] conjI reach uses) simp
qed

text \<open>
  C35. What \<^verbatim>\<open>query\<close> and \<^verbatim>\<open>wait_for_processing\<close> show together: once \<^term>\<open>k\<close> tasks count as
  processed, the published root is the root that some task \<^term>\<open>j\<close>, not before \<^term>\<open>k\<close>, left in
  its context; that task is done, every task up to it has been handed over by its client, and
  unless its number was given back its context holds the request of its client.
\<close>

theorem concow_publishes_requests:
  assumes reach: "concow_reach (betree_lib fuel) n W (concow_init W zero t m) s" and n: "0 < n" and k: "concow_processed k s"
  shows "\<exists>j. k \<le> j \<and> j \<le> cc_submitted s \<and> concow_query f s = f (cx_root (cc_ctx s j)) (cc_mem s) \<and>
    cx_op (cc_ctx s j) = conctrl_DONE \<and> (\<forall>i\<le>j. cc_ready s i) \<and>
    (0 < j \<and> j mod conctrl_BUFFER_SIZE \<noteq> 0 \<longrightarrow> cc_hist s ! (j - 1) = Some (cx_key (cc_ctx s j), cx_val (cc_ctx s j)))"
proof (intro exI conjI)
  have inv: "cc_inv n W s" by (rule betree_cc.reach_inv [OF reach n])
  then have ok: "cc_monitor_ok s" "cc_slots_ok n W s" by (simp_all add: cc_inv_def)
  show "k \<le> mo_committed s" "mo_committed s \<le> cc_submitted s" using k ok(1) by (auto simp: concow_processed_def cc_monitor_ok_def)
  show "concow_query f s = f (cx_root (cc_ctx s (mo_committed s))) (cc_mem s)"
    using root_reach [OF betree_cc.keeps n reach] by (simp add: concow_query_def)
  show "cx_op (cc_ctx s (mo_committed s)) = conctrl_DONE" by (rule published_task(5) [OF inv])
  show "\<forall>i\<le>mo_committed s. cc_ready s i" using ok(1) by (auto simp: cc_monitor_ok_def)
  have "0 < j \<Longrightarrow> cc_window s j \<Longrightarrow> cc_ready s j \<Longrightarrow> j mod conctrl_BUFFER_SIZE \<noteq> 0 \<Longrightarrow> cc_request s j (cc_ctx s j)" for j
    using ok(2) by (simp add: cc_slots_ok_def)
  from this [of "mo_committed s"] published_task(1,4) [OF inv]
  show "0 < mo_committed s \<and> mo_committed s mod conctrl_BUFFER_SIZE \<noteq> 0 \<longrightarrow>
      cc_hist s ! (mo_committed s - 1) = Some (cx_key (cc_ctx s (mo_committed s)), cx_val (cc_ctx s (mo_committed s)))"
    by (simp add: cc_request_def)
qed

theorem concow_publishes_requests_witness:
  "\<exists>s. concow_reach (betree_lib 1) 1 1 concow_demo_start s \<and> concow_processed 1 s \<and>
     concow_query (\<lambda>t m. t) s = cx_root (cc_ctx s 1) \<and> cx_key (cc_ctx s 1) = 0 \<and> cx_val (cc_ctx s 1) = 7"
proof -
  obtain c' m' where call: "lib_handlers (betree_lib 1) 0 ((cc_filled concow_demo_ctx 0 7)\<lparr>cx_t_past := 1\<rparr>) (betree_demo 1 [(0, 5)]) =
      Some (conctrl_DONE, c', m')" "\<not> cx_retry c'" "\<not> cx_new_checkpoint c'" by (rule concow_demo_call)
  let ?s = "cc_one 1 concow_demo_ctx 1 0 7 (c'\<lparr>cx_op := conctrl_DONE\<rparr>) \<infinity> m' (cx_root c') 1 ((\<lambda>_. 0)(0 := 1, Suc 0 := 1))
      MO_Poll 1 1 1 1 cc_pipe_end cc_pipe_end"
  note reach = cc_one_run [OF call, where W = 1]
  have p: "concow_processed 1 ?s" by (simp add: concow_processed_def cc_one_def)
  from concow_publishes_requests [OF reach _ p, of "\<lambda>t m. t"] obtain j where j: "1 \<le> j" "j \<le> cc_submitted ?s"
    "concow_query (\<lambda>t m. t) ?s = cx_root (cc_ctx ?s j)"
    "0 < j \<and> j mod conctrl_BUFFER_SIZE \<noteq> 0 \<longrightarrow> cc_hist ?s ! (j - 1) = Some (cx_key (cc_ctx ?s j), cx_val (cc_ctx ?s j))" by auto
  from j(1,2) have "j = 1" by (simp add: cc_one_def)
  with j(3,4) have "concow_query (\<lambda>t m. t) ?s = cx_root (cc_ctx ?s 1)" "cx_key (cc_ctx ?s 1) = 0" "cx_val (cc_ctx ?s 1) = 7"
    by (simp_all add: cc_batch cc_one_def)
  with reach p show ?thesis unfolding concow_demo_start_def by blast
qed

text \<open>
  C37. What \<^verbatim>\<open>wait_for_processing\<close> says of the calls of \<^verbatim>\<open>update\<close>. In every run the calls that have
  returned got different task numbers, none of them a multiple of the buffer size; once \<^term>\<open>k\<close> tasks count
  as processed, only \<^term>\<open>k - k div conctrl_BUFFER_SIZE\<close> calls are among them; and when no call is in
  progress all numbers but the multiples have been returned. So a wait for as many tasks as there were
  calls (which is what \<^verbatim>\<open>multi_client_execute\<close> does) may end when one call in \<^term>\<open>conctrl_BUFFER_SIZE\<close> is not yet
  processed; the witness is a run in which that happens.
\<close>

theorem concow_wait_misses_calls:
  assumes run: "concow_run (betree_lib fuel) n W (concow_init W zero t m) ts s" and n: "0 < n"
  shows "distinct ts \<and> (\<forall>t\<in>set ts. t mod conctrl_BUFFER_SIZE \<noteq> 0) \<and>
    (\<forall>k. concow_processed k s \<longrightarrow> length (filter (\<lambda>t. t \<le> k) ts) = k - k div conctrl_BUFFER_SIZE) \<and>
    ((\<forall>i. cc_clients s i = CC_Idle) \<longrightarrow> length ts = cc_submitted s - cc_submitted s div conctrl_BUFFER_SIZE) \<and>
    (cc_committed s = length ts \<longrightarrow> length (filter (\<lambda>t. \<not> concow_processed t s) ts) = length ts div conctrl_BUFFER_SIZE)"
proof -
  note calls = run_calls [OF betree_cc.keeps n run]
  have "cc_inv n W s" by (rule betree_cc.reach_inv [OF run_reach [OF run] n])
  then have "cc_monitor_ok s" by (simp add: cc_inv_def)
  then have "\<forall>t\<le>mo_inited s. cc_ready s t" "cc_committed s \<le> mo_inited s" unfolding cc_monitor_ok_def by simp_all
  then have ready: "cc_ready s t" if "t \<le> cc_committed s" for t using that by simp
  have among: "length (filter (\<lambda>t. t \<le> k) ts) = k - k div conctrl_BUFFER_SIZE" if "concow_processed k s" for k
  proof (rule count_calls)
    show "t \<in> set ts \<and> t \<le> k \<longleftrightarrow> 0 < t \<and> t mod conctrl_BUFFER_SIZE \<noteq> 0 \<and> t \<le> k" for t
      using that ready [of t] calls unfolding concow_processed_def cc_called_def by (meson not_le order.trans)
  qed (use calls in simp)
  have idle: "length ts = cc_submitted s - cc_submitted s div conctrl_BUFFER_SIZE" if "\<forall>i. cc_clients s i = CC_Idle"
  proof -
    have all: "t \<in> set ts \<longleftrightarrow> 0 < t \<and> t mod conctrl_BUFFER_SIZE \<noteq> 0 \<and> t \<le> cc_submitted s" for t
      using that calls by (auto simp: cc_called_def cc_ready_def cc_held_def)
    have "length (filter (\<lambda>t. t \<le> cc_submitted s) ts) = cc_submitted s - cc_submitted s div conctrl_BUFFER_SIZE"
      by (rule count_calls [OF conjunct1 [OF calls]]) (use all in blast)
    moreover have "filter (\<lambda>t. t \<le> cc_submitted s) ts = ts" by (rule filter_True) (use all in blast)
    ultimately show ?thesis by simp
  qed
  have "length (filter (\<lambda>t. \<not> concow_processed t s) ts) = length ts div conctrl_BUFFER_SIZE" if "cc_committed s = length ts"
  proof -
    have "length (filter (\<lambda>t. t \<le> cc_committed s) ts) = length ts - length ts div conctrl_BUFFER_SIZE"
      using among [of "cc_committed s"] that by (simp add: concow_processed_def)
    moreover have "length (filter (\<lambda>t. t \<le> cc_committed s) ts) + length (filter (\<lambda>t. \<not> t \<le> cc_committed s) ts) = length ts"
      by (rule sum_length_filter_compl)
    moreover have "length ts div conctrl_BUFFER_SIZE \<le> length ts" by (rule div_le_dividend)
    ultimately have "length (filter (\<lambda>t. \<not> t \<le> cc_committed s) ts) = length ts div conctrl_BUFFER_SIZE" by linarith
    then show ?thesis by (simp add: concow_processed_def not_le)
  qed
  then show ?thesis using calls among idle by (auto simp: cc_called_def)
qed

theorem concow_wait_misses_calls_witness:
  "\<exists>ts s. concow_run (betree_lib 1) 1 1 concow_long_start ts s \<and> length ts = 65536 \<and> concow_processed (length ts) s \<and>
     length (filter (\<lambda>t. \<not> concow_processed t s) ts) = 1"
proof -
  obtain ts s where run: "concow_run (betree_lib 1) 1 1 concow_long_start ts s" "cc_submitted s = Suc conctrl_BUFFER_SIZE"
    "cc_committed s = conctrl_BUFFER_SIZE" "\<forall>i. cc_clients s i = CC_Idle" by (rule long_run [where fuel = 1])
  note calls = concow_wait_misses_calls [OF run(1) [unfolded concow_long_start_def]]
  have "length ts = 65536" using calls run(2,4) by (simp add: cc_batch)
  moreover have "length (filter (\<lambda>t. \<not> concow_processed t s) ts) = 1" using calls run(3) calculation by (simp add: cc_batch)
  ultimately show ?thesis using run(1,3) by (intro exI conjI) (auto simp: concow_processed_def cc_batch)
qed

text \<open>
  C36. The pipeline can end: once the monitor has finished, the last task any pipe waits for is within
  the bubbles the monitor has let in, so the entry does not wait, and any other pipe waits only
  while the pipe before it is at the very task it waits for.
\<close>

theorem concow_bubbles_suffice:
  assumes reach: "concow_reach (betree_lib fuel) n W (concow_init W zero t m) s" and n: "0 < n"
    and "mo_pc s = MO_Done" "p \<le> n" "pp_pc (cc_pipes s p) = PP_Iter" "pp_tid (cc_pipes s p) \<le> pp_last (cc_pipes s p)"
    and waits: "cc_pace s p < pp_tid (cc_pipes s p)"
  shows "0 < p \<and> pp_tid (cc_pipes s (p - 1)) = pp_tid (cc_pipes s p)"
proof -
  have inv: "cc_inv n W s" by (rule betree_cc.reach_inv [OF reach n])
  then have ok: "cc_monitor_ok s" "cc_pipes_ok n s" by (simp_all add: cc_inv_def)
  have "cc_batch_ok (cc_stop s) (cc_submitted s) (mo_inited s) (cc_pipes s p)" "cc_pace s 0 = mo_inited s + cc_margin (mo_inited s)"
    using batches_reach [OF betree_cc.keeps n reach] assms(3,4) by (simp_all add: cc_batches_ok_def)
  moreover have "cc_pipe_ok (cc_ready s) (cc_pace s p) (p = n) (cc_pipes s p)" by (rule pipe_ok [OF ok(2) assms(4)])
  ultimately have last: "pp_last (cc_pipes s p) \<le> cc_pace s 0"
    using assms(3,5) ok(1) margin_enough [of "pp_epoch (cc_pipes s p)" "mo_inited s"]
    by (auto simp: cc_batch_ok_def cc_pipe_ok_def cc_monitor_ok_def split: if_splits)
  with assms(6) waits have p: "p \<noteq> 0" by (cases p) simp_all
  with pipes_tid_pace(4) [OF ok(2), of "p - 1"] assms(4) have "Suc (cc_pace s p) = pp_tid (cc_pipes s (p - 1))" by simp
  with waits pipes_tid_pace(1) [OF ok(2) assms(4)] p show ?thesis by simp
qed

theorem concow_bubbles_suffice_witness:
  "\<exists>s. concow_reach (betree_lib 1) 1 1 concow_demo_start s \<and> mo_pc s = MO_Done \<and> cc_pace s 1 < pp_tid (cc_pipes s 1) \<and>
     pp_tid (cc_pipes s 0) = pp_tid (cc_pipes s 1)"
proof -
  let ?s = "(concow_init 1 concow_demo_ctx 1 (betree_demo 1 [(0, 5)]))\<lparr>cc_pipes := (cc_pipes (concow_init 1 concow_demo_ctx 1 (betree_demo 1 [(0, 5)])))
     (1 := cc_pipe_start\<lparr>pp_last := 4096, pp_pc := PP_Iter\<rparr>), cc_stop := True, mo_stop := True, cc_pace := (\<lambda>_. 0)(0 := 4096), mo_pc := MO_Done\<rparr>"
  have reach: "concow_reach (betree_lib 1) 1 1 (concow_init 1 concow_demo_ctx 1 (betree_demo 1 [(0, 5)])) ?s" by (rule concow_end_reach)
  from concow_bubbles_suffice [OF this, of 1] have "pp_tid (cc_pipes ?s 0) = pp_tid (cc_pipes ?s 1)" by (simp add: cc_pipe_start_def)
  with reach show ?thesis unfolding concow_demo_start_def
    by (intro exI [of _ ?s] conjI) (assumption | simp add: cc_pipe_start_def)+
qed

end
