(* ===== verification/Mpsc_List.thy ===== *)
theory Mpsc_List
  imports Prelude
begin

text \<open>
  \<^verbatim>\<open>lib/conctrl/mpsc_list.hpp\<close>: an intrusive list of items into which any thread pushes and from which
  one thread pops, without locks. Every access to a field that several threads use is a step. The
  list is shown to be a first-in-first-out queue: what has been popped is a prefix of what has been
  pushed, in the order of the exchanges of the head.
\<close>

section \<open>The code\<close>

datatype 'w mq_cell = MQ_Stub | MQ_Item 'w

text \<open>\<^verbatim>\<open>push\<close>: before each of its three accesses.\<close>

datatype 'w mq_push = PU_Idle | PU_Clear 'w | PU_Exchange 'w | PU_Link 'w "'w mq_cell"

text \<open>
  \<^verbatim>\<open>pop\<close>: before it loads \<^verbatim>\<open>next\<close> of the tail; of the tail after the stub; before it loads the
  head; in the three accesses of \<^verbatim>\<open>push(&stub_)\<close>; and before it loads \<^verbatim>\<open>next\<close> again.
\<close>

datatype 'w mq_pop = PO_Idle | PO_Load | PO_Next 'w | PO_Head 'w | PO_Clear 'w | PO_Exchange 'w
  | PO_Link 'w "'w mq_cell" | PO_Last 'w

text \<open>The members; the threads; and the history of exchanges and of results, which no step reads.\<close>

record 'w mpsc_list =
  mq_next :: "'w mq_cell \<Rightarrow> 'w mq_cell option"
  mq_head :: "'w mq_cell"
  mq_tail :: "'w mq_cell"
  mq_pushers :: "nat \<Rightarrow> 'w mq_push"
  mq_popper :: "'w mq_pop"
  mq_pushed :: "'w list"
  mq_popped :: "'w list"

definition mpsc_init :: "('w mq_cell \<Rightarrow> 'w mq_cell option) \<Rightarrow> 'w mpsc_list" where
  "mpsc_init nx = \<lparr>mq_next = nx(MQ_Stub := None), mq_head = MQ_Stub, mq_tail = MQ_Stub, mq_pushers = (\<lambda>_. PU_Idle),
     mq_popper = PO_Idle, mq_pushed = [], mq_popped = []\<rparr>"

text \<open>An item is in the list, or about to be. Nobody may push it then.\<close>

fun mq_item :: "'w mq_push \<Rightarrow> 'w option" where
  "mq_item PU_Idle = None"
| "mq_item (PU_Clear w) = Some w"
| "mq_item (PU_Exchange w) = Some w"
| "mq_item (PU_Link w prev) = Some w"

definition mq_used :: "'w mpsc_list \<Rightarrow> 'w \<Rightarrow> bool" where
  "mq_used s w \<longleftrightarrow> w \<in> set (drop (length (mq_popped s)) (mq_pushed s)) \<or> (\<exists>i. mq_item (mq_pushers s i) = Some w)"

inductive mpsc_push :: "nat \<Rightarrow> 'w mpsc_list \<Rightarrow> 'w mpsc_list \<Rightarrow> bool" for i where
  call: "mq_pushers s i = PU_Idle \<Longrightarrow> \<not> mq_used s w \<Longrightarrow>
    mpsc_push i s (s\<lparr>mq_pushers := (mq_pushers s)(i := PU_Clear w)\<rparr>)"
| clear: "mq_pushers s i = PU_Clear w \<Longrightarrow>
    mpsc_push i s (s\<lparr>mq_next := (mq_next s)(MQ_Item w := None), mq_pushers := (mq_pushers s)(i := PU_Exchange w)\<rparr>)"
| exchange: "mq_pushers s i = PU_Exchange w \<Longrightarrow>
    mpsc_push i s (s\<lparr>mq_head := MQ_Item w, mq_pushers := (mq_pushers s)(i := PU_Link w (mq_head s)), mq_pushed := mq_pushed s @ [w]\<rparr>)"
| link: "mq_pushers s i = PU_Link w prev \<Longrightarrow>
    mpsc_push i s (s\<lparr>mq_next := (mq_next s)(prev := Some (MQ_Item w)), mq_pushers := (mq_pushers s)(i := PU_Idle)\<rparr>)"

inductive mpsc_pop :: "'w mpsc_list \<Rightarrow> 'w mpsc_list \<Rightarrow> bool" where
  call: "mq_popper s = PO_Idle \<Longrightarrow> mpsc_pop s (s\<lparr>mq_popper := PO_Load\<rparr>)"
| empty: "mq_popper s = PO_Load \<Longrightarrow> mq_tail s = MQ_Stub \<Longrightarrow> mq_next s MQ_Stub = None \<Longrightarrow>
    mpsc_pop s (s\<lparr>mq_popper := PO_Idle\<rparr>)"
| past_stub: "mq_popper s = PO_Load \<Longrightarrow> mq_tail s = MQ_Stub \<Longrightarrow> mq_next s MQ_Stub = Some (MQ_Item w) \<Longrightarrow>
    mpsc_pop s (s\<lparr>mq_tail := MQ_Item w, mq_popper := PO_Next w\<rparr>)"
| load: "mq_popper s = PO_Load \<Longrightarrow> mq_tail s = MQ_Item w \<Longrightarrow> mq_next s (MQ_Item w) = None \<Longrightarrow>
    mpsc_pop s (s\<lparr>mq_popper := PO_Head w\<rparr>)"
| take: "mq_popper s = PO_Load \<Longrightarrow> mq_tail s = MQ_Item w \<Longrightarrow> mq_next s (MQ_Item w) = Some c \<Longrightarrow>
    mpsc_pop s (s\<lparr>mq_tail := c, mq_popper := PO_Idle, mq_popped := mq_popped s @ [w]\<rparr>)"
| next_none: "mq_popper s = PO_Next w \<Longrightarrow> mq_next s (MQ_Item w) = None \<Longrightarrow>
    mpsc_pop s (s\<lparr>mq_popper := PO_Head w\<rparr>)"
| next_take: "mq_popper s = PO_Next w \<Longrightarrow> mq_next s (MQ_Item w) = Some c \<Longrightarrow>
    mpsc_pop s (s\<lparr>mq_tail := c, mq_popper := PO_Idle, mq_popped := mq_popped s @ [w]\<rparr>)"
| busy: "mq_popper s = PO_Head w \<Longrightarrow> mq_head s \<noteq> MQ_Item w \<Longrightarrow>
    mpsc_pop s (s\<lparr>mq_popper := PO_Idle\<rparr>)"
| single: "mq_popper s = PO_Head w \<Longrightarrow> mq_head s = MQ_Item w \<Longrightarrow>
    mpsc_pop s (s\<lparr>mq_popper := PO_Clear w\<rparr>)"
| clear: "mq_popper s = PO_Clear w \<Longrightarrow>
    mpsc_pop s (s\<lparr>mq_next := (mq_next s)(MQ_Stub := None), mq_popper := PO_Exchange w\<rparr>)"
| exchange: "mq_popper s = PO_Exchange w \<Longrightarrow>
    mpsc_pop s (s\<lparr>mq_head := MQ_Stub, mq_popper := PO_Link w (mq_head s)\<rparr>)"
| link: "mq_popper s = PO_Link w prev \<Longrightarrow>
    mpsc_pop s (s\<lparr>mq_next := (mq_next s)(prev := Some MQ_Stub), mq_popper := PO_Last w\<rparr>)"
| last_none: "mq_popper s = PO_Last w \<Longrightarrow> mq_next s (MQ_Item w) = None \<Longrightarrow>
    mpsc_pop s (s\<lparr>mq_popper := PO_Idle\<rparr>)"
| last_take: "mq_popper s = PO_Last w \<Longrightarrow> mq_next s (MQ_Item w) = Some c \<Longrightarrow>
    mpsc_pop s (s\<lparr>mq_tail := c, mq_popper := PO_Idle, mq_popped := mq_popped s @ [w]\<rparr>)"

inductive mpsc_reach :: "'w mpsc_list \<Rightarrow> 'w mpsc_list \<Rightarrow> bool" for s0 where
  start: "mpsc_reach s0 s0"
| push: "mpsc_reach s0 s \<Longrightarrow> mpsc_push i s s' \<Longrightarrow> mpsc_reach s0 s'"
| pop: "mpsc_reach s0 s \<Longrightarrow> mpsc_pop s s' \<Longrightarrow> mpsc_reach s0 s'"

section \<open>The invariant\<close>

text \<open>\<^term>\<open>b\<close> follows \<^term>\<open>a\<close> in the list; the items of a list; a link that is still to be stored.\<close>

fun mq_follows :: "'a list \<Rightarrow> 'a \<Rightarrow> 'a \<Rightarrow> bool" where
  "mq_follows (x # y # xs) a b \<longleftrightarrow> a = x \<and> b = y \<or> mq_follows (y # xs) a b"
| "mq_follows _ a b \<longleftrightarrow> False"

fun mq_items :: "'w mq_cell list \<Rightarrow> 'w list" where
  "mq_items [] = []"
| "mq_items (MQ_Stub # xs) = mq_items xs"
| "mq_items (MQ_Item w # xs) = w # mq_items xs"

definition mq_pending :: "'w mpsc_list \<Rightarrow> 'w mq_cell \<Rightarrow> 'w mq_cell \<Rightarrow> bool" where
  "mq_pending s a b \<longleftrightarrow> (\<exists>i w. mq_pushers s i = PU_Link w a \<and> b = MQ_Item w) \<or> (\<exists>w. mq_popper s = PO_Link w a \<and> b = MQ_Stub)"

text \<open>The cells from the tail to the head are \<^term>\<open>xs\<close>; every link is there or about to be stored.\<close>

definition mq_chain :: "'w mpsc_list \<Rightarrow> 'w mq_cell list \<Rightarrow> bool" where
  "mq_chain s xs \<longleftrightarrow> xs \<noteq> [] \<and> hd xs = mq_tail s \<and> last xs = mq_head s \<and> distinct xs \<and> mq_next s (mq_head s) = None \<and>
     (\<forall>a b. mq_follows xs a b \<longrightarrow> mq_next s a = Some b \<or> mq_next s a = None \<and> mq_pending s a b) \<and>
     (\<forall>a b. mq_pending s a b \<longrightarrow> mq_follows xs a b \<and> mq_next s a = None) \<and>
     mq_pushed s = mq_popped s @ mq_items xs"

definition mq_pushers_ok :: "'w mpsc_list \<Rightarrow> 'w mq_cell list \<Rightarrow> bool" where
  "mq_pushers_ok s xs \<longleftrightarrow>
     (\<forall>i w. mq_pushers s i = PU_Clear w \<longrightarrow> MQ_Item w \<notin> set xs) \<and>
     (\<forall>i w. mq_pushers s i = PU_Exchange w \<longrightarrow> MQ_Item w \<notin> set xs \<and> mq_next s (MQ_Item w) = None) \<and>
     (\<forall>i j w. mq_item (mq_pushers s i) = Some w \<longrightarrow> mq_item (mq_pushers s j) = Some w \<longrightarrow> i = j)"

fun mq_popper_ok :: "'w mpsc_list \<Rightarrow> 'w mq_cell list \<Rightarrow> 'w mq_pop \<Rightarrow> bool" where
  "mq_popper_ok s xs PO_Idle = True"
| "mq_popper_ok s xs PO_Load = True"
| "mq_popper_ok s xs (PO_Next w) = (mq_tail s = MQ_Item w)"
| "mq_popper_ok s xs (PO_Head w) = (mq_tail s = MQ_Item w)"
| "mq_popper_ok s xs (PO_Clear w) = (mq_tail s = MQ_Item w \<and> MQ_Stub \<notin> set xs)"
| "mq_popper_ok s xs (PO_Exchange w) = (mq_tail s = MQ_Item w \<and> MQ_Stub \<notin> set xs \<and> mq_next s MQ_Stub = None)"
| "mq_popper_ok s xs (PO_Link w a) = (mq_tail s = MQ_Item w)"
| "mq_popper_ok s xs (PO_Last w) = (mq_tail s = MQ_Item w)"

definition mq_inv :: "'w mpsc_list \<Rightarrow> 'w mq_cell list \<Rightarrow> bool" where
  "mq_inv s xs \<longleftrightarrow> mq_chain s xs \<and> mq_pushers_ok s xs \<and> mq_popper_ok s xs (mq_popper s)"

section \<open>Every step keeps it\<close>

lemma follows_snoc: "mq_follows (xs @ [c]) a b \<longleftrightarrow> mq_follows xs a b \<or> xs \<noteq> [] \<and> a = last xs \<and> b = c"
  by (induction xs a b rule: mq_follows.induct) auto

lemma follows_in: "mq_follows xs a b \<Longrightarrow> a \<in> set xs \<and> b \<in> set xs"
  by (induction xs a b rule: mq_follows.induct) auto

lemma follows_Cons: "mq_follows (x # xs) a b \<longleftrightarrow> xs \<noteq> [] \<and> a = x \<and> b = hd xs \<or> mq_follows xs a b"
  by (cases xs) auto

lemma follows_unique: "mq_follows xs a b \<Longrightarrow> mq_follows xs a b' \<Longrightarrow> distinct xs \<Longrightarrow> b = b'"
  by (induction xs a b rule: mq_follows.induct) (auto dest: follows_in simp: follows_Cons)

lemma follows_unique_left: "mq_follows xs a b \<Longrightarrow> mq_follows xs a' b \<Longrightarrow> distinct xs \<Longrightarrow> a = a'"
  by (induction xs a b rule: mq_follows.induct) (auto dest: follows_in simp: follows_Cons)

lemma items_append: "mq_items (xs @ ys) = mq_items xs @ mq_items ys"
  by (induction xs rule: mq_items.induct) auto

lemma items_set: "w \<in> set (mq_items xs) \<longleftrightarrow> MQ_Item w \<in> set xs"
  by (induction xs rule: mq_items.induct) auto

lemma follows_last: "mq_follows xs (last xs) b \<Longrightarrow> distinct xs \<Longrightarrow> False"
  by (induction xs "last xs" b rule: mq_follows.induct) (auto dest: follows_in split: if_splits)

lemma chain_used: "mq_chain s xs \<Longrightarrow> mq_used s w \<longleftrightarrow> MQ_Item w \<in> set xs \<or> (\<exists>i. mq_item (mq_pushers s i) = Some w)"
  by (auto simp: mq_chain_def mq_used_def items_set)

lemma chain_links:
  assumes "mq_chain s xs"
  shows "mq_follows xs a b \<Longrightarrow> mq_next s a = Some b \<or> mq_next s a = None \<and> mq_pending s a b"
    "mq_pending s a b \<Longrightarrow> mq_follows xs a b" "mq_pending s a b \<Longrightarrow> mq_next s a = None"
proof -
  from assms have "\<forall>a b. mq_follows xs a b \<longrightarrow> mq_next s a = Some b \<or> mq_next s a = None \<and> mq_pending s a b"
    and "\<forall>a b. mq_pending s a b \<longrightarrow> mq_follows xs a b \<and> mq_next s a = None"
    unfolding mq_chain_def by iprover+
  then show "mq_follows xs a b \<Longrightarrow> mq_next s a = Some b \<or> mq_next s a = None \<and> mq_pending s a b"
    "mq_pending s a b \<Longrightarrow> mq_follows xs a b" "mq_pending s a b \<Longrightarrow> mq_next s a = None" by iprover+
qed

lemma pending_push:
  assumes "\<And>w a. mq_pushers s i \<noteq> PU_Link w a" "\<And>w a. pc \<noteq> PU_Link w a"
  shows "mq_pending (s\<lparr>mq_pushers := (mq_pushers s)(i := pc)\<rparr>) = mq_pending s"
proof -
  have "((mq_pushers s)(i := pc)) j = PU_Link w a \<longleftrightarrow> mq_pushers s j = PU_Link w a" for j w a using assms by auto
  then show ?thesis by (simp add: mq_pending_def fun_eq_iff del: fun_upd_apply)
qed

text \<open>A link that was to be stored is stored.\<close>

lemma chain_link:
  assumes "mq_chain s xs" "mq_follows xs prev c"
    and "mq_next s' = (mq_next s)(prev := Some c)" "mq_head s' = mq_head s" "mq_tail s' = mq_tail s" "mq_pushed s' = mq_pushed s" "mq_popped s' = mq_popped s"
    and pend: "\<And>a b. mq_pending s' a b \<longleftrightarrow> mq_pending s a b \<and> a \<noteq> prev"
  shows "mq_chain s' xs"
proof -
  have d: "distinct xs" using assms(1) by (simp add: mq_chain_def)
  have "prev \<noteq> mq_head s" using assms(1,2) follows_last [OF _ d, of c] by (auto simp: mq_chain_def)
  moreover have "mq_next s' a = Some b \<or> mq_next s' a = None \<and> mq_pending s' a b" if "mq_follows xs a b" for a b
    using chain_links(1) [OF assms(1) that] follows_unique [OF _ assms(2) d, of b] that assms(3) pend by auto
  moreover have "mq_follows xs a b \<and> mq_next s' a = None" if "mq_pending s' a b" for a b
    using chain_links(2,3) [OF assms(1), of a b] that assms(3) pend by simp
  ultimately show ?thesis using assms(1) unfolding mq_chain_def assms(3-7) by simp
qed

lemma mpsc_push_inv:
  assumes "mpsc_push i s s'" "mq_inv s xs"
  shows "\<exists>xs'. mq_inv s' xs'"
  using assms(1)
proof cases
  case (call w)
  have "\<not> (MQ_Item w \<in> set xs \<or> (\<exists>i. mq_item (mq_pushers s i) = Some w))"
    using call(3) assms(2) chain_used [of s xs w] by (simp add: mq_inv_def)
  moreover have "mq_pending s' = mq_pending s" unfolding call(1) by (rule pending_push) (simp_all add: call)
  ultimately have "mq_inv s' xs" using assms(2) call
    by (cases "mq_popper s") (auto simp: mq_inv_def mq_chain_def mq_pushers_ok_def)
  then show ?thesis ..
next
  case (clear w)
  have "mq_pending s' = mq_pending (s\<lparr>mq_pushers := (mq_pushers s)(i := PU_Exchange w)\<rparr>)" by (simp add: clear mq_pending_def fun_eq_iff)
  also have "\<dots> = mq_pending s" by (rule pending_push) (simp_all add: clear)
  finally have "mq_pending s' = mq_pending s" .
  moreover have "MQ_Item w \<notin> set xs" using assms(2) clear by (auto simp: mq_inv_def mq_pushers_ok_def)
  ultimately have "mq_chain s' xs" using assms(2) clear by (auto simp: mq_inv_def mq_chain_def dest: follows_in)
  moreover have "mq_pushers_ok s' xs" using assms(2) clear by (auto simp: mq_inv_def mq_pushers_ok_def)
  ultimately have "mq_inv s' xs" using assms(2) clear by (cases "mq_popper s") (auto simp: mq_inv_def)
  then show ?thesis ..
next
  case (exchange w)
  have w: "MQ_Item w \<notin> set xs" "mq_next s (MQ_Item w) = None" using assms(2) exchange by (auto simp: mq_inv_def mq_pushers_ok_def)
  have "((mq_pushers s)(i := PU_Link w (mq_head s))) j = PU_Link v a \<longleftrightarrow> mq_pushers s j = PU_Link v a \<or> j = i \<and> v = w \<and> a = mq_head s" for j v a
    using exchange by auto
  then have pend: "mq_pending s' a b \<longleftrightarrow> mq_pending s a b \<or> a = mq_head s \<and> b = MQ_Item w" for a b
    unfolding exchange(1) by (simp add: mq_pending_def del: fun_upd_apply) blast
  have "mq_chain s' (xs @ [MQ_Item w])" unfolding mq_chain_def pend
    using assms(2) exchange w by (auto simp: mq_inv_def mq_chain_def follows_snoc items_append)
  moreover have "mq_pushers_ok s' (xs @ [MQ_Item w])"
    unfolding mq_pushers_ok_def using assms(2) exchange by (auto simp: mq_inv_def mq_pushers_ok_def)
  ultimately have "mq_inv s' (xs @ [MQ_Item w])" using assms(2) exchange by (cases "mq_popper s") (auto simp: mq_inv_def)
  then show ?thesis ..
next
  case (link w prev)
  have p: "mq_pending s prev (MQ_Item w)" using link by (auto simp: mq_pending_def)
  have chain: "mq_chain s xs" using assms(2) by (simp add: mq_inv_def)
  then have d: "distinct xs" by (simp add: mq_chain_def)
  have f: "mq_follows xs prev (MQ_Item w)" by (rule chain_links(2) [OF chain p])
  have "b = MQ_Item w" if "mq_pending s prev b" for b
    by (rule follows_unique [OF chain_links(2) [OF chain that] f d])
  moreover have "j = i" if "mq_item (mq_pushers s j) = Some w" for j
    using that assms(2) link by (auto simp: mq_inv_def mq_pushers_ok_def)
  moreover have "((mq_pushers s)(i := PU_Idle)) j = PU_Link v a \<longleftrightarrow> mq_pushers s j = PU_Link v a \<and> j \<noteq> i" for j v a by simp
  ultimately have "mq_pending s' a b \<longleftrightarrow> mq_pending s a b \<and> a \<noteq> prev" for a b
    unfolding link(1) mq_pending_def using link(2)
    by (simp del: fun_upd_apply) (metis mq_cell.distinct(1) mq_cell.inject mq_item.simps(4) mq_push.inject(3))
  then have "mq_chain s' xs" by (intro chain_link [OF chain f]) (simp_all add: link)
  moreover have "prev \<in> set xs" using f follows_in by fastforce
  then have "mq_pushers_ok s' xs" using assms(2) link by (auto simp: mq_inv_def mq_pushers_ok_def)
  moreover have "mq_popper_ok s' xs (mq_popper s)" using assms(2) link \<open>prev \<in> set xs\<close>
    by (cases "mq_popper s") (auto simp: mq_inv_def)
  ultimately have "mq_inv s' xs" using link by (simp add: mq_inv_def)
  then show ?thesis ..
qed

text \<open>The tail moves on when its link is there.\<close>

lemma chain_tail:
  assumes "mq_chain s xs" "mq_next s (mq_tail s) = Some c" and p: "\<And>w a. mq_popper s \<noteq> PO_Link w a" "\<And>w a. pc \<noteq> PO_Link w a"
  shows "\<exists>ys. xs = mq_tail s # c # ys \<and>
    mq_chain (s\<lparr>mq_tail := c, mq_popper := pc, mq_popped := mq_popped s @ mq_items [mq_tail s]\<rparr>) (c # ys)"
proof -
  have c: "xs \<noteq> []" "hd xs = mq_tail s" "last xs = mq_head s" "mq_next s (mq_head s) = None" using assms(1) by (simp_all add: mq_chain_def)
  obtain zs where xs: "xs = mq_tail s # zs" using c(1,2) by (metis list.collapse)
  have "zs \<noteq> []"
  proof
    assume "zs = []"
    then have "mq_head s = mq_tail s" using c(3) xs by simp
    with c(4) assms(2) show False by simp
  qed
  then obtain d ys where zs: "zs = d # ys" by (metis list.collapse)
  have "mq_follows xs (mq_tail s) d" using xs zs by simp
  then have "mq_next s (mq_tail s) = Some d \<or> mq_next s (mq_tail s) = None" using chain_links(1) [OF assms(1)] by iprover
  with assms(2) have "d = c" by simp
  with xs zs have xs: "xs = mq_tail s # c # ys" by simp
  define u where "u = s\<lparr>mq_tail := c, mq_popper := pc, mq_popped := mq_popped s @ mq_items [mq_tail s]\<rparr>"
  have u: "mq_tail u = c" "mq_head u = mq_head s" "mq_next u = mq_next s" "mq_pushed u = mq_pushed s"
    "mq_popped u = mq_popped s @ mq_items [mq_tail s]" "mq_pending u = mq_pending s"
    using p by (auto simp: u_def mq_pending_def fun_eq_iff)
  have "mq_items xs = mq_items [mq_tail s] @ mq_items (c # ys)" using items_append [of "[mq_tail s]" "c # ys"] by (simp add: xs)
  moreover have "mq_next s a = Some b \<or> mq_next s a = None \<and> mq_pending s a b" if "mq_follows (c # ys) a b" for a b
  proof -
    have "mq_follows xs a b" using that xs by simp
    then show ?thesis by (rule chain_links(1) [OF assms(1)])
  qed
  moreover have "mq_follows (c # ys) a b \<and> mq_next s a = None" if "mq_pending s a b" for a b
  proof -
    have f: "mq_follows xs a b" "mq_next s a = None" using chain_links(2,3) [OF assms(1) that] by simp_all
    then have "a \<noteq> mq_tail s" using assms(2) by auto
    with f xs show ?thesis by simp
  qed
  ultimately have "mq_chain u (c # ys)" using assms(1) unfolding mq_chain_def u xs by simp
  with xs show ?thesis unfolding u_def by blast
qed

lemma pushers_ok_tail: "mq_pushers_ok s (x # xs) \<Longrightarrow> mq_pushers s' = mq_pushers s \<Longrightarrow> mq_next s' = mq_next s \<Longrightarrow> mq_pushers_ok s' xs"
  unfolding mq_pushers_ok_def by auto

lemma pop_take:
  assumes "mq_inv s xs" "mq_tail s = MQ_Item w" "mq_next s (MQ_Item w) = Some c" "\<And>w a. mq_popper s \<noteq> PO_Link w a"
  shows "\<exists>xs'. mq_inv (s\<lparr>mq_tail := c, mq_popper := PO_Idle, mq_popped := mq_popped s @ [w]\<rparr>) xs'"
proof -
  from chain_tail [of s xs c PO_Idle] assms obtain ys where xs: "xs = MQ_Item w # c # ys"
    and chain: "mq_chain (s\<lparr>mq_tail := c, mq_popper := PO_Idle, mq_popped := mq_popped s @ [w]\<rparr>) (c # ys)" by (auto simp: mq_inv_def)
  moreover have "mq_pushers_ok (s\<lparr>mq_tail := c, mq_popper := PO_Idle, mq_popped := mq_popped s @ [w]\<rparr>) (c # ys)"
    by (rule pushers_ok_tail [where s = s and x = "MQ_Item w"]) (use assms(1) xs in \<open>simp_all add: mq_inv_def\<close>)
  ultimately show ?thesis by (auto simp: mq_inv_def)
qed

text \<open>A step that only moves the consumer.\<close>

lemma pop_moves:
  assumes "mq_inv s xs" and moved: "s' = s\<lparr>mq_popper := pc\<rparr>"
    and "\<And>w a. mq_popper s \<noteq> PO_Link w a" "\<And>w a. pc \<noteq> PO_Link w a" "mq_popper_ok s xs pc"
  shows "\<exists>xs'. mq_inv s' xs'"
proof -
  have "mq_pending (s\<lparr>mq_popper := pc\<rparr>) = mq_pending s" using assms(3,4) by (auto simp: mq_pending_def fun_eq_iff)
  then have "mq_chain (s\<lparr>mq_popper := pc\<rparr>) xs" "mq_pushers_ok (s\<lparr>mq_popper := pc\<rparr>) xs"
    using assms(1) by (auto simp: mq_inv_def mq_chain_def mq_pushers_ok_def)
  moreover have "mq_popper_ok (s\<lparr>mq_popper := pc\<rparr>) xs pc" using assms(5) by (cases pc) auto
  ultimately have "mq_inv s' xs" by (simp add: moved mq_inv_def)
  then show ?thesis ..
qed

lemma mpsc_pop_inv:
  assumes "mpsc_pop s s'" "mq_inv s xs"
  shows "\<exists>xs'. mq_inv s' xs'"
  using assms(1)
proof cases
  case (past_stub w)
  from chain_tail [of s xs "MQ_Item w" "PO_Next w"] assms(2) past_stub obtain ys where xs: "xs = MQ_Stub # MQ_Item w # ys"
    and chain: "mq_chain s' (MQ_Item w # ys)" by (auto simp: mq_inv_def)
  moreover have "mq_pushers_ok s' (MQ_Item w # ys)"
    by (rule pushers_ok_tail [where s = s and x = MQ_Stub]) (use assms(2) xs past_stub in \<open>simp_all add: mq_inv_def\<close>)
  ultimately show ?thesis using past_stub by (auto simp: mq_inv_def)
next
  case (single w)
  have "xs = [MQ_Item w]" using assms(2) single by (cases xs) (auto simp: mq_inv_def mq_chain_def split: if_splits dest: last_in_set)
  then show ?thesis using assms(2) single by (intro pop_moves [OF assms(2) single(1)]) (auto simp: mq_inv_def)
next
  case (clear w)
  have stub: "MQ_Stub \<notin> set xs" "mq_tail s = MQ_Item w" using assms(2) clear by (auto simp: mq_inv_def)
  have "mq_pending s' = mq_pending s" using clear by (auto simp: mq_pending_def fun_eq_iff)
  then have "mq_chain s' xs" using assms(2) clear stub by (auto simp: mq_inv_def mq_chain_def dest: follows_in)
  moreover have "mq_pushers_ok s' xs" using assms(2) clear by (auto simp: mq_inv_def mq_pushers_ok_def)
  ultimately show ?thesis using stub clear by (auto simp: mq_inv_def)
next
  case (exchange w)
  have stub: "MQ_Stub \<notin> set xs" "mq_tail s = MQ_Item w" "mq_next s MQ_Stub = None" using assms(2) exchange by (auto simp: mq_inv_def)
  have pend: "mq_pending s' a b \<longleftrightarrow> mq_pending s a b \<or> a = mq_head s \<and> b = MQ_Stub" for a b
    using exchange by (auto simp: mq_pending_def)
  have "mq_chain s' (xs @ [MQ_Stub])" unfolding mq_chain_def pend
    using assms(2) exchange stub by (auto simp: mq_inv_def mq_chain_def follows_snoc items_append)
  moreover have "mq_pushers_ok s' (xs @ [MQ_Stub])" using assms(2) exchange by (auto simp: mq_inv_def mq_pushers_ok_def)
  ultimately show ?thesis using stub exchange by (auto simp: mq_inv_def)
next
  case (link w prev)
  have p: "mq_pending s prev MQ_Stub" using link by (auto simp: mq_pending_def)
  have chain: "mq_chain s xs" using assms(2) by (simp add: mq_inv_def)
  then have d: "distinct xs" by (simp add: mq_chain_def)
  have f: "mq_follows xs prev MQ_Stub" by (rule chain_links(2) [OF chain p])
  have "b = MQ_Stub" if "mq_pending s prev b" for b
    by (rule follows_unique [OF chain_links(2) [OF chain that] f d])
  then have "mq_pending s' a b \<longleftrightarrow> mq_pending s a b \<and> a \<noteq> prev" for a b
    using link unfolding mq_pending_def by fastforce
  then have "mq_chain s' xs" by (intro chain_link [OF chain f]) (simp_all add: link)
  moreover have "prev \<in> set xs" using f follows_in by fastforce
  then have "mq_pushers_ok s' xs" using assms(2) link by (auto simp: mq_inv_def mq_pushers_ok_def)
  ultimately show ?thesis using link assms(2) by (auto simp: mq_inv_def)
next
  case (take w c)
  then show ?thesis using pop_take [OF assms(2)] by simp
next
  case (next_take w c)
  then show ?thesis using pop_take [OF assms(2)] assms(2) by (simp add: mq_inv_def)
next
  case (last_take w c)
  then show ?thesis using pop_take [OF assms(2)] assms(2) by (simp add: mq_inv_def)
next
  case call
  then show ?thesis using assms(2) by (intro pop_moves [OF assms(2) call(1)]) (simp_all add: mq_inv_def)
next
  case empty
  then show ?thesis using assms(2) by (intro pop_moves [OF assms(2) empty(1)]) (simp_all add: mq_inv_def)
next
  case (load w)
  then show ?thesis using assms(2) by (intro pop_moves [OF assms(2) load(1)]) (simp_all add: mq_inv_def)
next
  case (next_none w)
  then show ?thesis using assms(2) by (intro pop_moves [OF assms(2) next_none(1)]) (simp_all add: mq_inv_def)
next
  case (busy w)
  then show ?thesis using assms(2) by (intro pop_moves [OF assms(2) busy(1)]) (simp_all add: mq_inv_def)
next
  case (last_none w)
  then show ?thesis using assms(2) by (intro pop_moves [OF assms(2) last_none(1)]) (simp_all add: mq_inv_def)
qed

lemma mpsc_reach_inv:
  assumes "mpsc_reach (mpsc_init nx) s"
  shows "\<exists>xs. mq_inv s xs"
  using assms
proof (induction rule: mpsc_reach.induct)
  case start
  have "mq_inv (mpsc_init nx) [MQ_Stub]"
    by (simp add: mq_inv_def mq_chain_def mq_pushers_ok_def mpsc_init_def mq_pending_def)
  then show ?case ..
next
  case (push s i s')
  then show ?case using mpsc_push_inv by blast
next
  case (pop s s')
  then show ?case using mpsc_pop_inv by blast
qed

section \<open>Properties\<close>

text \<open>The items that have been pushed and not popped, the oldest first.\<close>

definition mq_queue :: "'w mpsc_list \<Rightarrow> 'w list" where
  "mq_queue s = drop (length (mq_popped s)) (mq_pushed s)"

lemma queue_items: "mq_chain s xs \<Longrightarrow> mq_queue s = mq_items xs \<and> mq_pushed s = mq_popped s @ mq_queue s"
  by (simp add: mq_chain_def mq_queue_def)

lemma items_distinct: "distinct xs \<Longrightarrow> distinct (mq_items xs)"
  by (induction xs rule: mq_items.induct) (auto simp: items_set)

lemma push_history:
  assumes "mpsc_push i s s'"
  shows "mq_popped s' = mq_popped s" "mq_pushed s' = mq_pushed s \<or> (\<exists>w. mq_pushers s i = PU_Exchange w \<and> mq_pushed s' = mq_pushed s @ [w])"
  using assms by (cases; simp)+

lemma pop_history:
  assumes "mpsc_pop s s'"
  shows "mq_pushed s' = mq_pushed s" "mq_popped s' = mq_popped s \<or> (\<exists>w. mq_popped s' = mq_popped s @ [w])"
  using assms by (cases; simp)+

text \<open>
  C39. The list refines a first-in-first-out queue, whatever the interleaving of the threads: the exchange
  of the head in \<^verbatim>\<open>push\<close> appends the item to the queue, a \<^verbatim>\<open>pop\<close> that returns an item removes the
  oldest one, and no other step changes the queue; no item is in it twice.
\<close>

theorem mpsc_refines_queue:
  assumes "mpsc_reach (mpsc_init nx) s"
  shows "distinct (mq_queue s) \<and>
    (\<forall>i s'. mpsc_push i s s' \<longrightarrow> mq_queue s' = mq_queue s \<or> (\<exists>w. mq_pushers s i = PU_Exchange w \<and> mq_queue s' = mq_queue s @ [w])) \<and>
    (\<forall>s'. mpsc_pop s s' \<longrightarrow> mq_popped s' = mq_popped s \<and> mq_queue s' = mq_queue s \<or>
       (\<exists>w. mq_popped s' = mq_popped s @ [w] \<and> mq_queue s = w # mq_queue s'))"
proof (intro conjI allI impI)
  from mpsc_reach_inv [OF assms] obtain xs where inv: "mq_inv s xs" ..
  then have chain: "mq_chain s xs" by (simp add: mq_inv_def)
  note q = queue_items [OF chain]
  show "distinct (mq_queue s)" using q chain items_distinct by (auto simp: mq_chain_def)
  show "mq_queue s' = mq_queue s \<or> (\<exists>w. mq_pushers s i = PU_Exchange w \<and> mq_queue s' = mq_queue s @ [w])" if "mpsc_push i s s'" for i s'
  proof -
    have "length (mq_popped s) \<le> length (mq_pushed s)" using q by (metis length_append le_add1)
    then show ?thesis using push_history [OF that] by (auto simp: mq_queue_def)
  qed
  show "mq_popped s' = mq_popped s \<and> mq_queue s' = mq_queue s \<or> (\<exists>w. mq_popped s' = mq_popped s @ [w] \<and> mq_queue s = w # mq_queue s')"
    if "mpsc_pop s s'" for s'
  proof -
    from mpsc_pop_inv [OF that inv] obtain ys where "mq_chain s' ys" by (auto simp: mq_inv_def)
    then have "mq_pushed s' = mq_popped s' @ mq_queue s'" using queue_items by blast
    then show ?thesis using pop_history [OF that] q by auto
  qed
qed

text \<open>A run in which one item is pushed and popped while a second one is pushed, for the witnesses.\<close>

definition mpsc_demo :: "nat mpsc_list" where
  "mpsc_demo = \<lparr>mq_next = (\<lambda>_. None)(MQ_Stub := Some (MQ_Item 7)), mq_head = MQ_Item 7, mq_tail = MQ_Stub,
     mq_pushers = (\<lambda>_. PU_Idle), mq_popper = PO_Idle, mq_pushed = [7], mq_popped = []\<rparr>"

lemma mpsc_reach_push: "mpsc_reach s0 s \<Longrightarrow> mpsc_push i s u \<Longrightarrow> u = s' \<Longrightarrow> mpsc_reach s0 s'"
  using mpsc_reach.push by blast

lemma mpsc_demo_reach: "mpsc_reach (mpsc_init (\<lambda>_. None)) mpsc_demo"
proof -
  have 1: "mpsc_reach (mpsc_init (\<lambda>_. None)) (mpsc_init (\<lambda>_. None) :: nat mpsc_list)" by (rule mpsc_reach.start)
  have 2: "mpsc_reach (mpsc_init (\<lambda>_. None)) ((mpsc_init (\<lambda>_. None))\<lparr>mq_pushers := (\<lambda>_. PU_Idle)(0 := PU_Clear (7 :: nat))\<rparr>)"
    by (rule mpsc_reach_push [OF 1], rule mpsc_push.call [where i = 0]) (simp_all add: mpsc_init_def mq_used_def)
  have 3: "mpsc_reach (mpsc_init (\<lambda>_. None)) ((mpsc_init (\<lambda>_. None))\<lparr>mq_pushers := (\<lambda>_. PU_Idle)(0 := PU_Exchange (7 :: nat))\<rparr>)"
    by (rule mpsc_reach_push [OF 2], rule mpsc_push.clear [where i = 0]) (simp_all add: mpsc_init_def fun_eq_iff)
  have 4: "mpsc_reach (mpsc_init (\<lambda>_. None)) ((mpsc_init (\<lambda>_. None))\<lparr>mq_head := MQ_Item 7,
      mq_pushers := (\<lambda>_. PU_Idle)(0 := PU_Link (7 :: nat) MQ_Stub), mq_pushed := [7]\<rparr>)"
    by (rule mpsc_reach_push [OF 3], rule mpsc_push.exchange [where i = 0]) (simp_all add: mpsc_init_def fun_eq_iff)
  show ?thesis
    by (rule mpsc_reach_push [OF 4], rule mpsc_push.link [where i = 0]) (auto simp: mpsc_init_def mpsc_demo_def fun_eq_iff)
qed

theorem mpsc_refines_queue_witness: "mq_queue mpsc_demo = [7] \<and> distinct (mq_queue mpsc_demo)"
  using mpsc_refines_queue [OF mpsc_demo_reach] by (simp add: mpsc_demo_def mq_queue_def)

section \<open>One call of \<^verbatim>\<open>pop\<close>\<close>

text \<open>
  A call that no other thread interrupts: its first step, and then the steps of the consumer for as long
  as it is in the call.
\<close>

definition pop_goes_on :: "'w mpsc_list \<Rightarrow> 'w mpsc_list \<Rightarrow> bool" where
  "pop_goes_on s s' \<longleftrightarrow> mpsc_pop s s' \<and> mq_popper s \<noteq> PO_Idle"

definition mpsc_pop_call :: "'w mpsc_list \<Rightarrow> 'w mpsc_list \<Rightarrow> bool" where
  "mpsc_pop_call s s' \<longleftrightarrow> mq_popper s = PO_Idle \<and> (\<exists>s1. mpsc_pop s s1 \<and> pop_goes_on\<^sup>*\<^sup>* s1 s') \<and> mq_popper s' = PO_Idle"

inductive_cases pop_stepE: "mpsc_pop s s'"

lemma pop_deterministic: "mpsc_pop s a \<Longrightarrow> mpsc_pop s b \<Longrightarrow> a = b"
  by (erule pop_stepE) (erule pop_stepE; simp)+

lemma run_deterministic:
  assumes det: "\<And>x y z. R x y \<Longrightarrow> R x z \<Longrightarrow> y = z"
    and "R\<^sup>*\<^sup>* a b" "\<And>y. \<not> R b y" "R\<^sup>*\<^sup>* a c" "\<And>y. \<not> R c y"
  shows "b = c"
  using assms(2,4)
proof (induction rule: converse_rtranclp_induct)
  case base
  then show ?case using assms(3) by (metis converse_rtranclpE)
next
  case (step x y)
  from step.prems have "x = c \<or> (\<exists>z. R x z \<and> R\<^sup>*\<^sup>* z c)" by (metis converse_rtranclpE)
  then show ?case using step.hyps(1) step.IH det assms(5) by metis
qed

lemma pop_call_deterministic:
  assumes "mpsc_pop_call s a" "mpsc_pop_call s b"
  shows "a = b"
proof -
  from assms obtain s1 where s1: "mpsc_pop s s1" "pop_goes_on\<^sup>*\<^sup>* s1 a" "mq_popper a = PO_Idle" by (auto simp: mpsc_pop_call_def)
  from assms obtain s2 where s2: "mpsc_pop s s2" "pop_goes_on\<^sup>*\<^sup>* s2 b" "mq_popper b = PO_Idle" by (auto simp: mpsc_pop_call_def)
  have "s2 = s1" by (rule pop_deterministic [OF s2(1) s1(1)])
  with s1(2,3) s2(2,3) show ?thesis
    by (intro run_deterministic [of pop_goes_on s1 a b]) (auto simp: pop_goes_on_def intro: pop_deterministic)
qed

text \<open>How calls end, from where they stand.\<close>

definition pop_ends :: "'w mpsc_list \<Rightarrow> 'w list \<Rightarrow> bool" where
  "pop_ends s ws \<longleftrightarrow> (\<exists>s'. pop_goes_on\<^sup>*\<^sup>* s s' \<and> mq_popper s' = PO_Idle \<and> mq_popped s' = mq_popped s @ ws)"

lemma pop_ends_step:
  assumes "mpsc_pop s s'" "mq_popper s \<noteq> PO_Idle" "mq_popped s' = mq_popped s" "pop_ends s' ws"
  shows "pop_ends s ws"
  using assms unfolding pop_ends_def by (metis converse_rtranclp_into_rtranclp pop_goes_on_def)

lemma pop_ends_last:
  assumes "mpsc_pop s s'" "mq_popper s \<noteq> PO_Idle" "mq_popped s' = mq_popped s @ ws" "mq_popper s' = PO_Idle"
  shows "pop_ends s ws"
  using assms unfolding pop_ends_def by (metis r_into_rtranclp pop_goes_on_def)

lemma pop_single:
  assumes "mq_popper s = PO_Head w" "mq_head s = MQ_Item w" "mq_next s (MQ_Item w) = None"
  shows "pop_ends s [w]"
proof -
  let ?s1 = "s\<lparr>mq_popper := PO_Clear w\<rparr>"
  let ?s2 = "?s1\<lparr>mq_next := (mq_next s)(MQ_Stub := None), mq_popper := PO_Exchange w\<rparr>"
  let ?s3 = "?s2\<lparr>mq_head := MQ_Stub, mq_popper := PO_Link w (MQ_Item w)\<rparr>"
  let ?s4 = "?s3\<lparr>mq_next := (mq_next ?s2)(MQ_Item w := Some MQ_Stub), mq_popper := PO_Last w\<rparr>"
  let ?s5 = "?s4\<lparr>mq_tail := MQ_Stub, mq_popper := PO_Idle, mq_popped := mq_popped s @ [w]\<rparr>"
  have steps: "mpsc_pop s ?s1" "mpsc_pop ?s1 ?s2" "mpsc_pop ?s2 ?s3" "mpsc_pop ?s3 ?s4" "mpsc_pop ?s4 ?s5"
    using assms mpsc_pop.single [of s w] mpsc_pop.clear [of ?s1 w] mpsc_pop.exchange [of ?s2 w] mpsc_pop.link [of ?s3 w "MQ_Item w"]
      mpsc_pop.last_take [of ?s4 w MQ_Stub] by simp_all
  have 4: "pop_ends ?s4 [w]" by (rule pop_ends_last [OF steps(5)]) simp_all
  have 3: "pop_ends ?s3 [w]" by (rule pop_ends_step [OF steps(4) _ _ 4]) simp_all
  have 2: "pop_ends ?s2 [w]" by (rule pop_ends_step [OF steps(3) _ _ 3]) simp_all
  have 1: "pop_ends ?s1 [w]" by (rule pop_ends_step [OF steps(2) _ _ 2]) simp_all
  show ?thesis by (rule pop_ends_step [OF steps(1) _ _ 1]) (simp_all add: assms)
qed

lemma pop_at_item:
  assumes "mq_popper s = PO_Load \<and> mq_tail s = MQ_Item w \<or> mq_popper s = PO_Next w"
    and "mq_next s (MQ_Item w) = None \<longrightarrow> mq_head s = MQ_Item w"
  shows "pop_ends s [w]"
proof (cases "mq_next s (MQ_Item w)")
  case None
  let ?s = "s\<lparr>mq_popper := PO_Head w\<rparr>"
  have step: "mpsc_pop s ?s" using assms(1) None mpsc_pop.load [of s w] mpsc_pop.next_none [of s w] by auto
  have "pop_ends ?s [w]" by (rule pop_single) (use assms(2) None in simp_all)
  then show ?thesis using assms(1) by (intro pop_ends_step [OF step]) auto
next
  case (Some c)
  let ?s = "s\<lparr>mq_tail := c, mq_popper := PO_Idle, mq_popped := mq_popped s @ [w]\<rparr>"
  have step: "mpsc_pop s ?s" using assms(1) Some mpsc_pop.take [of s w c] mpsc_pop.next_take [of s w c] by auto
  show ?thesis by (rule pop_ends_last [OF step]) (use assms(1) in auto)
qed

lemma pop_quiet:
  assumes "mpsc_reach (mpsc_init nx) s" "\<And>i. mq_pushers s i = PU_Idle" "mq_popper s = PO_Load"
  shows "pop_ends s (take 1 (mq_queue s))"
proof -
  from mpsc_reach_inv [OF assms(1)] obtain xs where chain: "mq_chain s xs" by (auto simp: mq_inv_def)
  have no: "\<not> mq_pending s a b" for a b using assms(2,3) by (simp add: mq_pending_def)
  have linked: "mq_next s a = Some b" if "mq_follows xs a b" for a b using chain_links(1) [OF chain that] no by simp
  have q: "mq_queue s = mq_items xs" "hd xs = mq_tail s" "last xs = mq_head s" "mq_next s (mq_head s) = None" "distinct xs"
    using chain queue_items [OF chain] by (simp_all add: mq_chain_def)
  have next_or_head: "mq_next s (MQ_Item w) = None \<longrightarrow> mq_head s = MQ_Item w" if "xs = ys @ MQ_Item w # zs" for w ys zs
  proof (cases zs)
    case (Cons z zs')
    have "mq_follows (ys @ MQ_Item w # z # zs') (MQ_Item w) z" by (induction ys) (auto simp: follows_Cons)
    then show ?thesis using linked that Cons by simp
  qed (use q(3) that in simp)
  obtain x ys where xs: "xs = x # ys" using chain by (cases xs) (auto simp: mq_chain_def)
  show ?thesis
  proof (cases x)
    case (MQ_Item w)
    then show ?thesis using pop_at_item [of s w] next_or_head [of "[]" w ys] q(1,2) xs assms(3) by simp
  next
    case MQ_Stub
    show ?thesis
    proof (cases ys)
      case Nil
      then have step: "mpsc_pop s (s\<lparr>mq_popper := PO_Idle\<rparr>)" using MQ_Stub xs q(2-4) by (intro mpsc_pop.empty) (simp_all add: assms(3))
      show ?thesis by (rule pop_ends_last [OF step]) (use Nil MQ_Stub xs q(1) assms(3) in simp_all)
    next
      case (Cons y zs)
      then obtain w where y: "y = MQ_Item w" using q(5) xs MQ_Stub by (cases y) auto
      let ?u = "s\<lparr>mq_tail := MQ_Item w, mq_popper := PO_Next w\<rparr>"
      have step: "mpsc_pop s ?u" using linked [of x y] xs Cons MQ_Stub y q(2) by (intro mpsc_pop.past_stub) (simp_all add: assms(3))
      have "pop_ends ?u [w]" using next_or_head [of "[x]" w zs] xs Cons y by (intro pop_at_item) simp_all
      moreover have "take 1 (mq_queue s) = [w]" using q(1) xs Cons MQ_Stub y by simp
      ultimately have "pop_ends ?u (take 1 (mq_queue s))" by simp
      then show ?thesis by (intro pop_ends_step [OF step]) (simp_all add: assms(3))
    qed
  qed
qed

text \<open>
  C40. A call of \<^verbatim>\<open>pop\<close> while no push is in progress: run by the consumer alone it ends, and whenever it has
  ended this one call has returned the oldest item, or nothing when the list is empty.
\<close>

theorem mpsc_pop_returns:
  assumes "mpsc_reach (mpsc_init nx) s" "\<And>i. mq_pushers s i = PU_Idle" "mq_popper s = PO_Idle"
  shows "(\<exists>s'. mpsc_pop_call s s') \<and> (\<forall>s'. mpsc_pop_call s s' \<longrightarrow> mq_popped s' = mq_popped s @ take 1 (mq_queue s))"
proof -
  let ?s = "s\<lparr>mq_popper := PO_Load\<rparr>"
  have call: "mpsc_pop s ?s" by (rule mpsc_pop.call) (rule assms(3))
  have "pop_ends ?s (take 1 (mq_queue ?s))"
    by (rule pop_quiet [OF mpsc_reach.pop [OF assms(1) call]]) (simp_all add: assms(2))
  then obtain s' where s': "pop_goes_on\<^sup>*\<^sup>* ?s s'" "mq_popper s' = PO_Idle" "mq_popped s' = mq_popped s @ take 1 (mq_queue s)"
    unfolding pop_ends_def mq_queue_def by auto
  then have run: "mpsc_pop_call s s'" using call assms(3) unfolding mpsc_pop_call_def by blast
  have "mq_popped u = mq_popped s @ take 1 (mq_queue s)" if "mpsc_pop_call s u" for u
    using pop_call_deterministic [OF run that] s'(3) by simp
  with run show ?thesis by blast
qed

theorem mpsc_pop_returns_witness:
  "\<exists>s'. mpsc_pop_call mpsc_demo s' \<and> mq_popped s' = [7]"
proof -
  have "mq_queue mpsc_demo = [7]" "mq_popped mpsc_demo = []" by (simp_all add: mpsc_demo_def mq_queue_def)
  with mpsc_pop_returns [OF mpsc_demo_reach] show ?thesis by (auto simp: mpsc_demo_def)
qed

end
