(* ===== verification/Inplace_Run.thy ===== *)
theory Inplace_Run
  imports Btree_Correct Betree_Correct Art_Correct
begin

text \<open>
  The driver of the in-place mode, \<^verbatim>\<open>run_inplace_impl\<close> of \<^verbatim>\<open>src/src/main.cpp\<close>: it loads a tree and runs
  the transactions of a workload on it one after the other. The driver is a template over the
  interface of a tree library; here it takes the record of the library's functions. It is verified
  once from the contract of such a library and instantiated with the B+-tree, the elastic B+-tree and
  the radix tree.
\<close>

section \<open>The code\<close>

text \<open>What a library gives the driver: \<^verbatim>\<open>T::build\<close>, \<^verbatim>\<open>T::update\<close>, \<^verbatim>\<open>T::find\<close> and \<^verbatim>\<open>T::scan\<close>.\<close>

record 'm tree_interface =
  if_build :: "kv list \<Rightarrow> 'm \<Rightarrow> (addr \<times> 'm) option"
  if_update :: "addr \<Rightarrow> key \<Rightarrow> val \<Rightarrow> 'm \<Rightarrow> (addr \<times> 'm) option"
  if_find :: "addr \<Rightarrow> key \<Rightarrow> 'm \<Rightarrow> val option option"
  if_scan :: "addr \<Rightarrow> key \<Rightarrow> nat \<Rightarrow> 'm \<Rightarrow> kv list option"

record tx_context =
  tx_type :: "8 word"
  tx_arg0 :: "64 word"
  tx_arg1 :: "64 word"

text \<open>The driver drops what queries return; the model lists it.\<close>

datatype tx_answer = Found "val option" | Scanned "kv list"

fun run_txs :: "'m tree_interface \<Rightarrow> tx_context list \<Rightarrow> addr \<Rightarrow> 'm \<Rightarrow> (tx_answer list \<times> addr \<times> 'm) option" where
  "run_txs T [] t m = Some ([], t, m)"
| "run_txs T (x # txs) t m =
     (if tx_type x = 0
      then do {
        r \<leftarrow> (if tx_arg1 x = 0
              then do { r \<leftarrow> if_find T t (tx_arg0 x) m; Some (Found r) }
              else do { r \<leftarrow> if_scan T t (tx_arg0 x) (unat (tx_arg1 x)) m; Some (Scanned r) });
        (rs, t, m) \<leftarrow> run_txs T txs t m;
        Some (r # rs, t, m) }
      else if tx_type x = 1
      then do {
        (t, m) \<leftarrow> if_update T t (tx_arg0 x) (tx_arg1 x) m;
        run_txs T txs t m }
      else run_txs T txs t m)"

definition run_inplace_impl :: "'m tree_interface \<Rightarrow> kv list \<Rightarrow> tx_context list \<Rightarrow> 'm \<Rightarrow> (tx_answer list \<times> addr \<times> 'm) option" where
  "run_inplace_impl T kvs txs m =
     do { (t, m) \<leftarrow> if_build T kvs m; run_txs T txs t m }"

text \<open>
  The adapters. The first bound of fuel is for \<^verbatim>\<open>build\<close>; \<^term>\<open>h\<close> is the configured number of pipes less
  one. A radix tree is updated at byte 0 of the key.
\<close>

definition btree_interface :: "nat \<Rightarrow> nat \<Rightarrow> bmem tree_interface" where
  "btree_interface fb fuel = \<lparr>if_build = btree_build fb, if_update = btree_update_root_inplace fuel,
     if_find = btree_find fuel, if_scan = btree_scan fuel\<rparr>"

definition betree_interface :: "nat \<Rightarrow> 8 word \<Rightarrow> nat \<Rightarrow> bemem tree_interface" where
  "betree_interface fb h fuel = \<lparr>if_build = betree_build fb h, if_update = betree_update_root_inplace fuel,
     if_find = betree_find fuel, if_scan = betree_scan fuel\<rparr>"

definition art_interface :: "shifts \<Rightarrow> amem tree_interface" where
  "art_interface ub = \<lparr>if_build = art_build ub 9, if_update = (\<lambda>t. art_update_inplace ub 9 t 0),
     if_find = art_find ub 9, if_scan = art_scan ub 9\<rparr>"

section \<open>The workload on an ordered map\<close>

fun map_txs :: "tx_context list \<Rightarrow> kv list \<Rightarrow> tx_answer list \<times> kv list" where
  "map_txs [] xs = ([], xs)"
| "map_txs (x # txs) xs =
     (if tx_type x = 0
      then apfst ((#) (if tx_arg1 x = 0 then Found (map_of xs (tx_arg0 x)) else Scanned (kv_scan (tx_arg0 x) (unat (tx_arg1 x)) xs)))
        (map_txs txs xs)
      else if tx_type x = 1 then map_txs txs (kv_upd (tx_arg0 x) (tx_arg1 x) xs)
      else map_txs txs xs)"

section \<open>The driver over the contract of a library\<close>

text \<open>
  \<^term>\<open>holds m t xs\<close>: the tree at \<^term>\<open>t\<close> is as the library needs it and has the contents \<^term>\<open>xs\<close>;
  \<^term>\<open>room j m\<close>: there is memory for \<^term>\<open>j\<close> more nodes. An update takes at most \<^term>\<open>cost\<close> of them.
\<close>

locale inplace_tree =
  fixes T :: "'m tree_interface"
    and holds :: "'m \<Rightarrow> addr \<Rightarrow> kv list \<Rightarrow> bool"
    and room :: "nat \<Rightarrow> 'm \<Rightarrow> bool"
    and cost :: nat
  assumes update: "holds m t xs \<Longrightarrow> room (cost + j) m \<Longrightarrow>
      \<exists>t' m'. if_update T t k v m = Some (t', m') \<and> holds m' t' (kv_upd k v xs) \<and> room j m'"
    and find: "holds m t xs \<Longrightarrow> if_find T t k m = Some (map_of xs k)"
    and scan: "holds m t xs \<Longrightarrow> 0 < n \<Longrightarrow> if_scan T t k n m = Some (kv_scan k n xs)"
    and spare: "room j m \<Longrightarrow> i \<le> j \<Longrightarrow> room i m"
begin

lemma run_ok:
  "holds m t xs \<Longrightarrow> room (length txs * cost + j) m \<Longrightarrow>
   \<exists>t' m'. run_txs T txs t m = Some (fst (map_txs txs xs), t', m') \<and> holds m' t' (snd (map_txs txs xs)) \<and> room j m'"
proof (induction txs arbitrary: t m xs)
  case (Cons x txs)
  have room: "room (cost + (length txs * cost + j)) m" using Cons.prems(2) by (simp add: algebra_simps)
  then have less: "room (length txs * cost + j) m" by (rule spare) simp
  consider "tx_type x = 0" "tx_arg1 x = 0" | "tx_type x = 0" "0 < unat (tx_arg1 x)" | "tx_type x = 1" | "tx_type x \<noteq> 0" "tx_type x \<noteq> 1"
    by (metis unat_eq_0 neq0_conv)
  then show ?case
  proof cases
    case 1
    then show ?thesis using Cons.IH [OF Cons.prems(1) less] find [OF Cons.prems(1), of "tx_arg0 x"] by auto
  next
    case 2
    then have "tx_arg1 x \<noteq> 0" by auto
    then show ?thesis using 2 Cons.IH [OF Cons.prems(1) less] scan [OF Cons.prems(1) 2(2), of "tx_arg0 x"] by auto
  next
    case 3
    from update [OF Cons.prems(1) room, of "tx_arg0 x" "tx_arg1 x"] obtain t1 m1 where
      u: "if_update T t (tx_arg0 x) (tx_arg1 x) m = Some (t1, m1)" "holds m1 t1 (kv_upd (tx_arg0 x) (tx_arg1 x) xs)"
      "room (length txs * cost + j) m1" by blast
    from Cons.IH [OF u(2,3)] u(1) 3 show ?thesis by simp
  next
    case 4
    then show ?thesis using Cons.IH [OF Cons.prems(1) less] by simp
  qed
qed auto

end

definition btree_holds :: "bmem \<Rightarrow> addr \<Rightarrow> kv list \<Rightarrow> bool" where
  "btree_holds m a xs \<longleftrightarrow> (\<exists>t. a = addr_of t \<and> btree_inv m t \<and> btree_map t = xs)"

definition betree_holds :: "bemem \<Rightarrow> addr \<Rightarrow> kv list \<Rightarrow> bool" where
  "betree_holds m a xs \<longleftrightarrow> (\<exists>t. a = addr_of t \<and> betree_inv m t \<and> btree_map t = xs)"

definition art_holds :: "amem \<Rightarrow> addr \<Rightarrow> kv list \<Rightarrow> bool" where
  "art_holds m a xs \<longleftrightarrow> (\<exists>t. a = oroot t \<and> art_inv m t \<and> art_map t = xs)"

text \<open>Twenty-two levels are enough for every B+-tree of 64-bit keys, and nine for every radix tree.\<close>

interpretation btree_run: inplace_tree "btree_interface fb 22" btree_holds "mem_ok bnode_ok" 47 for fb
proof unfold_locales
  fix m t xs j k v
  assume "btree_holds m t xs" "mem_ok bnode_ok (47 + j) m"
  then show "\<exists>t' m'. if_update (btree_interface fb 22) t k v m = Some (t', m') \<and> btree_holds m' t' (kv_upd k v xs) \<and> mem_ok bnode_ok j m'"
    using inv_update [of m _ 22 j k v] by (auto simp: btree_holds_def btree_interface_def) metis
qed (auto simp: btree_holds_def btree_interface_def btree_inv_def version_find version_scan intro: mem_ok_mono)

interpretation betree_run: inplace_tree "betree_interface fb h 22" betree_holds "mem_ok benode_ok" 47 for fb h
proof unfold_locales
  fix m t xs j k v
  assume "betree_holds m t xs" "mem_ok benode_ok (47 + j) m"
  then show "\<exists>t' m'. if_update (betree_interface fb h 22) t k v m = Some (t', m') \<and> betree_holds m' t' (kv_upd k v xs) \<and> mem_ok benode_ok j m'"
    using betree_inv_update [of m _ 22 j k v] by (auto simp: betree_holds_def betree_interface_def) metis
next
  fix m t xs k n
  assume "betree_holds m t xs"
  then obtain u where u: "t = addr_of u" "betree_inv m u" "xs = btree_map u" by (auto simp: betree_holds_def)
  then have "aheight u < 22" using btree_version_height [of "be_mem m" u] by (simp add: betree_inv_def btree_inv_def)
  from betree_version_query [OF betree_inv_version [OF u(2)] this] u
  show "if_find (betree_interface fb h 22) t k m = Some (map_of xs k)" "if_scan (betree_interface fb h 22) t k n m = Some (kv_scan k n xs)"
    by (simp_all add: betree_interface_def)
qed (rule mem_ok_mono)

interpretation art_run: inplace_tree "art_interface ub" art_holds "mem_ok anode_blk" 2 for ub
proof unfold_locales
  fix m t xs j k v
  assume "art_holds m t xs" "mem_ok anode_blk (2 + j) m"
  then show "\<exists>t' m'. if_update (art_interface ub) t k v m = Some (t', m') \<and> art_holds m' t' (kv_upd k v xs) \<and> mem_ok anode_blk j m'"
    using inv_art_update [of m _ j ub k v] by (auto simp: art_holds_def art_interface_def) (metis oroot_def option.simps(5))
qed (auto simp: art_holds_def art_interface_def inv_find inv_scan intro: mem_ok_mono)

section \<open>The runs\<close>

text \<open>The radix tree is loaded entry by entry; with distinct keys this too gives the sorted entries.\<close>

lemma ordered_unique:
  assumes "ordered xs" "ordered ys" "map_of xs = map_of ys"
  shows "xs = ys"
proof -
  have s: "sorted (map fst xs)" "distinct (map fst xs)" "sorted (map fst ys)" "distinct (map fst ys)"
    using assms(1,2) by (simp_all add: strict_sorted_iff)
  have set: "set xs = set ys" using s assms(3) map_of_inject_set by blast
  with s show ?thesis by (intro map_sorted_distinct_set_unique [of fst]) (simp_all add: distinct_map)
qed

lemma upd_all_contents: "ordered xs \<Longrightarrow> ordered (upd_all es xs) \<and> map_of (upd_all es xs) = map_of xs ++ map_of (rev es)"
  by (induction es arbitrary: xs) (auto simp: upd_all_def map_of_kv_upd ordered_kv_upd)

lemma upd_all_sort:
  assumes "distinct (map fst kvs)"
  shows "upd_all kvs [] = sort kvs"
proof (rule ordered_unique)
  show "ordered (upd_all kvs [])" using upd_all_contents [of "[]" kvs] by simp
  show "ordered (sort kvs)" by (rule ordered_sort [OF assms])
  have "map_of (rev kvs) = map_of kvs"
    by (subst map_of_inject_set) (use assms in \<open>simp_all add: rev_map [symmetric]\<close>)
  moreover have "map_of (sort kvs) = map_of kvs"
    by (subst map_of_inject_set) (use assms ordered_sort [OF assms] in \<open>simp_all add: strict_sorted_iff\<close>)
  ultimately show "map_of (upd_all kvs []) = map_of (sort kvs)" using upd_all_contents [of "[]" kvs] by simp
qed

lemma btree_run_ok:
  assumes "distinct (map fst kvs)" "length kvs \<le> fb" "mem_ok bnode_ok (Suc (length kvs) + length txs * 47) m"
  shows "\<exists>t m'. run_inplace_impl (btree_interface fb 22) kvs txs m = Some (fst (map_txs txs (sort kvs)), addr_of t, m') \<and>
    btree_inv m' t \<and> btree_map t = snd (map_txs txs (sort kvs))"
proof (rule build_version [OF assms])
  fix t m1
  assume t: "btree_build fb kvs m = Some (addr_of t, m1)" "btree_inv m1 t" "btree_map t = sort kvs" "mem_ok bnode_ok (length txs * 47) m1"
  then have "btree_holds m1 (addr_of t) (sort kvs)" by (auto simp: btree_holds_def)
  from btree_run.run_ok [OF this, of txs 0 fb] t(1,4) show ?thesis
    by (auto simp: run_inplace_impl_def btree_holds_def) (auto simp: btree_interface_def)
qed

lemma betree_run_ok:
  assumes "distinct (map fst kvs)" "length kvs \<le> fb" "mem_ok benode_ok (Suc (length kvs) + length txs * 47) m"
  shows "\<exists>t m'. run_inplace_impl (betree_interface fb h 22) kvs txs m = Some (fst (map_txs txs (sort kvs)), addr_of t, m') \<and>
    betree_inv m' t \<and> btree_map t = snd (map_txs txs (sort kvs))"
proof -
  from betree_inv_build [OF assms, of h] obtain t m1 where
    t: "betree_build fb h kvs m = Some (addr_of t, m1)" "betree_inv m1 t" "btree_map t = sort kvs" "mem_ok benode_ok (length txs * 47) m1"
    by blast
  then have "betree_holds m1 (addr_of t) (sort kvs)" by (auto simp: betree_holds_def)
  from betree_run.run_ok [OF this, of txs 0 fb h] t(1,4) show ?thesis
    by (auto simp: run_inplace_impl_def betree_holds_def) (auto simp: betree_interface_def)
qed

lemma art_run_ok:
  assumes "distinct (map fst kvs)" "mem_ok anode_blk (2 * length kvs + length txs * 2) m"
  shows "\<exists>t m'. run_inplace_impl (art_interface ub) kvs txs m = Some (fst (map_txs txs (sort kvs)), oroot t, m') \<and>
    art_inv m' t \<and> art_map t = snd (map_txs txs (sort kvs))"
proof -
  have "art_inv m None" by (simp add: art_inv_def)
  from build_from_ok [OF this assms(2), of ub] upd_all_sort [OF assms(1)] obtain t m1 where
    t: "art_build ub 9 kvs m = Some (oroot t, m1)" "art_inv m1 t" "art_map t = sort kvs" "mem_ok anode_blk (length txs * 2) m1"
    by (auto simp: art_build_def oroot_def art_map_def)
  then have "art_holds m1 (oroot t) (sort kvs)" by (auto simp: art_holds_def)
  from art_run.run_ok [OF this, of txs 0 ub] t(1,4) show ?thesis
    by (auto simp: run_inplace_impl_def art_holds_def) (auto simp: art_interface_def)
qed

text \<open>
  C9. The whole run of the in-place driver: it loads any entries with distinct keys and performs any
  list of transactions, finds, scans and updates in any order. With the B+-tree, the elastic B+-tree and
  the radix tree it ends without a fault, gives the answers of the workload on an ordered map (so the
  three give the same ones), and leaves a tree that satisfies the invariant and has the contents of that
  map; the B+-trees are of height 21 at most, so that 22 levels are enough for every operation of
  the run, and an update takes no more than 47 blocks.
\<close>

theorem run_inplace_correct:
  assumes "distinct (map fst kvs)" "length kvs \<le> fb"
    "mem_ok bnode_ok (Suc (length kvs) + length txs * 47) m1" "mem_ok benode_ok (Suc (length kvs) + length txs * 47) m2"
    "mem_ok anode_blk (2 * length kvs + length txs * 2) m3"
  shows "\<exists>t1 m1' t2 m2' t3 m3'.
    run_inplace_impl (btree_interface fb 22) kvs txs m1 = Some (fst (map_txs txs (sort kvs)), addr_of t1, m1') \<and>
    btree_inv m1' t1 \<and> btree_map t1 = snd (map_txs txs (sort kvs)) \<and> aheight t1 \<le> 21 \<and>
    run_inplace_impl (betree_interface fb h 22) kvs txs m2 = Some (fst (map_txs txs (sort kvs)), addr_of t2, m2') \<and>
    betree_inv m2' t2 \<and> btree_map t2 = snd (map_txs txs (sort kvs)) \<and> aheight t2 \<le> 21 \<and>
    run_inplace_impl (art_interface ub) kvs txs m3 = Some (fst (map_txs txs (sort kvs)), oroot t3, m3') \<and>
    art_inv m3' t3 \<and> art_map t3 = snd (map_txs txs (sort kvs))"
proof -
  have height: "btree_inv m t \<Longrightarrow> aheight t \<le> 21" for m t using btree_version_height by (auto simp: btree_inv_def)
  then have "betree_inv m t \<Longrightarrow> aheight t \<le> 21" for m t by (simp add: betree_inv_def)
  with height btree_run_ok [OF assms(1,2,3)] betree_run_ok [OF assms(1,2,4), of h] art_run_ok [OF assms(1,5), of ub]
  show ?thesis by meson
qed

definition demo_txs :: "tx_context list" where
  "demo_txs = [\<lparr>tx_type = 1, tx_arg0 = 6, tx_arg1 = 60\<rparr>, \<lparr>tx_type = 0, tx_arg0 = 6, tx_arg1 = 0\<rparr>,
     \<lparr>tx_type = 2, tx_arg0 = 6, tx_arg1 = 1\<rparr>, \<lparr>tx_type = 0, tx_arg0 = 6, tx_arg1 = 2\<rparr>]"

theorem run_inplace_correct_witness:
  "\<exists>t1 m1 t2 m2 t3 m3.
    run_inplace_impl (btree_interface 2 22) [(7, 70), (5, 50)] demo_txs (btree_empty_mem 200) = Some ([Found (Some 60), Scanned [(6, 60), (7, 70)]], t1, m1) \<and>
    run_inplace_impl (betree_interface 2 1 22) [(7, 70), (5, 50)] demo_txs (betree_empty_mem 200) = Some ([Found (Some 60), Scanned [(6, 60), (7, 70)]], t2, m2) \<and>
    run_inplace_impl (art_interface (\<lambda>_ _ _. 0)) [(7, 70), (5, 50)] demo_txs art_empty_mem = Some ([Found (Some 60), Scanned [(6, 60), (7, 70)]], t3, m3)"
proof -
  have len: "length [(7 :: key, 70 :: val), (5, 50)] = 2" "length demo_txs = 4" by (simp_all add: demo_txs_def)
  have m: "mem_ok bnode_ok (Suc 2 + 4 * 47) (btree_empty_mem 200)" "mem_ok benode_ok (Suc 2 + 4 * 47) (betree_empty_mem 200)"
    "mem_ok anode_blk (2 * 2 + 4 * 2) art_empty_mem"
    by (simp_all add: btree_empty_mem_ok betree_empty_mem_ok art_empty_mem_ok)
  have "map_txs demo_txs (sort [(7, 70), (5, 50)]) = ([Found (Some 60), Scanned [(6, 60), (7, 70)]], [(5, 50), (6, 60), (7, 70)])"
    by (simp add: demo_txs_def kv_upd_def kv_scan_def)
  then show ?thesis
    using run_inplace_correct [of "[(7, 70), (5, 50)]" 2 demo_txs, unfolded len, OF _ _ m, of 1 "\<lambda>_ _ _. 0"] by auto
qed

end
