(* ===== verification/Aert_Node.thy ===== *)
theory Aert_Node
  imports Art_Node
begin

text \<open>
  \<^verbatim>\<open>lib/trees/aert/node.hpp\<close> and the node types \<^verbatim>\<open>leaf.hpp\<close>, \<^verbatim>\<open>node4.hpp\<close>, \<^verbatim>\<open>node16.hpp\<close>,
  \<^verbatim>\<open>nodeh4.hpp\<close>, \<^verbatim>\<open>nodeh16.hpp\<close> of the elastic radix tree, with the operations of
  \<^verbatim>\<open>node_wrapper.hpp\<close> that choose between them by the type tag.

  A node of this tree branches on a byte, or on half a byte (the types with an h). A full node of
  16 bytes is split into an upper one on the first halves and lower ones on the second halves; a
  child that is alone in its lower half is not given a node, its half byte is kept in the low bits
  of the pointer to it. Offsets and lengths count bits here. As in the radix tree, an index is a
  natural number, and a shift by 64 or more, or by a negative count, yields what the parameter says.
\<close>

section \<open>Pointers\<close>

text \<open>\<^verbatim>\<open>unembed_ptr\<close>, \<^verbatim>\<open>extract_ptr\<close> and \<^verbatim>\<open>embed_ptr\<close>: nodes are aligned to 64 bytes.\<close>

definition aert_extract_ptr :: "addr \<Rightarrow> addr" where
  "aert_extract_ptr t = t AND NOT 0x1f"

definition aert_unembed_ptr :: "addr \<Rightarrow> addr \<times> byte" where
  "aert_unembed_ptr t = (t AND NOT 0x1f, ucast (t AND 0x1f))"

definition aert_embed_ptr :: "addr \<Rightarrow> byte \<Rightarrow> addr" where
  "aert_embed_ptr t ptr_key = t OR ucast (ptr_key AND 0x1f)"

section \<open>Bits of a key\<close>

definition aert_partial_key :: "shifts \<Rightarrow> key \<Rightarrow> nat \<Rightarrow> nat \<Rightarrow> byte" where
  "aert_partial_key ub key pos len = ucast (art_shr ub key (64 - int len - int pos) AND drop_bit (8 - len) 0xff)"

definition aert_prefix_mask :: "shifts \<Rightarrow> nat \<Rightarrow> nat \<Rightarrow> 64 word" where
  "aert_prefix_mask ub ofs len =
     (if len = 0 then 0 else art_shl ub (art_shr ub (NOT 0) (64 - int len)) (64 - int len - int ofs))"

text \<open>Whether the half byte of the key before \<^term>\<open>ofs\<close> is the one in the pointer: then the result is 4.\<close>

definition aert_ptr_pfx_match :: "shifts \<Rightarrow> byte \<Rightarrow> nat \<Rightarrow> key \<Rightarrow> nat" where
  "aert_ptr_pfx_match ub ppfx ofs key =
     (let mask = art_shl ub (ucast ppfx AND 0x0f) (64 - int ofs);
          d = art_shl ub (key XOR mask) (int ofs - 4) OR push_bit 59 1
      in art_clz d)"

section \<open>Nodes\<close>

datatype aert_type = ET_NODE4 | ET_NODE16 | ET_NODEH4 | ET_NODEH16 | ET_LEAF

record enode =
  en_ver :: "64 word"
  en_type :: aert_type
  en_size :: nat
  en_ofs :: nat
  en_len :: nat
  en_cdf :: "32 word"
  en_pfx :: key
  en_val :: val
  en_keys :: "byte list"
  en_chs :: "addr list"

type_synonym emem = "enode mem"

fun aert_nkeys :: "aert_type \<Rightarrow> nat" where
  "aert_nkeys ET_NODE4 = 4" | "aert_nkeys ET_NODE16 = 16" | "aert_nkeys ET_NODEH4 = 4"
| "aert_nkeys ET_NODEH16 = 0" | "aert_nkeys ET_LEAF = 0"

fun aert_nchs :: "aert_type \<Rightarrow> nat" where
  "aert_nchs ET_NODE4 = 4" | "aert_nchs ET_NODE16 = 16" | "aert_nchs ET_NODEH4 = 4"
| "aert_nchs ET_NODEH16 = 16" | "aert_nchs ET_LEAF = 0"

fun aert_size0 :: "aert_type \<Rightarrow> nat" where
  "aert_size0 ET_NODE4 = 2" | "aert_size0 ET_NODE16 = 4" | "aert_size0 ET_NODEH4 = 2"
| "aert_size0 ET_NODEH16 = 0" | "aert_size0 ET_LEAF = 1"

text \<open>The result is rounded down to half bytes.\<close>

definition aert_prefix_match :: "shifts \<Rightarrow> enode \<Rightarrow> key \<Rightarrow> nat" where
  "aert_prefix_match ub t key =
     (let d = (key XOR en_pfx t) AND aert_prefix_mask ub (en_ofs t) (en_len t);
          d = art_shl ub d (int (en_ofs t))
      in if d = 0 then en_len t else art_clz d div 4 * 4)"

fun aert_node_key_len :: "aert_type \<Rightarrow> nat" where
  "aert_node_key_len ET_NODE4 = 8" | "aert_node_key_len ET_NODE16 = 8" | "aert_node_key_len ET_NODEH4 = 4"
| "aert_node_key_len ET_NODEH16 = 4" | "aert_node_key_len ET_LEAF = 4"

definition aert_new_node :: "shifts \<Rightarrow> 64 word \<Rightarrow> aert_type \<Rightarrow> nat \<Rightarrow> nat \<Rightarrow> key \<Rightarrow> emem \<Rightarrow> (addr \<times> emem) option" where
  "aert_new_node ub ver ty pfx_ofs pfx_len key m =
     do { (t, m) \<leftarrow> mem_alloc m;
          m \<leftarrow> mem_upd m t (\<lambda>_. Some \<lparr>en_ver = ver, en_type = ty, en_size = aert_size0 ty, en_ofs = pfx_ofs, en_len = pfx_len,
                 en_cdf = 0, en_pfx = (if ty \<noteq> ET_LEAF then key AND aert_prefix_mask ub pfx_ofs pfx_len else key),
                 en_val = 0, en_keys = replicate (aert_nkeys ty) 0, en_chs = replicate (aert_nchs ty) 0\<rparr>);
          Some (t, m) }"

definition aert_new_nodeh :: "shifts \<Rightarrow> 64 word \<Rightarrow> nat \<Rightarrow> nat \<Rightarrow> nat \<Rightarrow> key \<Rightarrow> emem \<Rightarrow> (addr \<times> emem) option" where
  "aert_new_nodeh ub ver sz pfx_ofs pfx_len key m =
     do { (t, m) \<leftarrow> aert_new_node ub ver (if sz > 4 then ET_NODEH16 else ET_NODEH4) pfx_ofs pfx_len key m;
          m \<leftarrow> mem_upd m t (\<lambda>n. Some (n\<lparr>en_size := 0\<rparr>));
          Some (t, m) }"

text \<open>
  What a block holds before it is written: the arrays of a type, as far as they go. The children
  of an internal node are not copied, a leaf is copied as a whole.
\<close>

definition aert_raw_keys :: "aert_type \<Rightarrow> enode \<Rightarrow> byte list option" where
  "aert_raw_keys ty junk = (if aert_nkeys ty \<le> length (en_keys junk) then Some (take (aert_nkeys ty) (en_keys junk)) else None)"

definition aert_raw_chs :: "aert_type \<Rightarrow> enode \<Rightarrow> addr list option" where
  "aert_raw_chs ty junk = (if aert_nchs ty \<le> length (en_chs junk) then Some (take (aert_nchs ty) (en_chs junk)) else None)"

definition aert_node_copy :: "addr \<Rightarrow> 64 word \<Rightarrow> emem \<Rightarrow> (addr \<times> emem) option" where
  "aert_node_copy t_old ver m =
     do { src \<leftarrow> mem_get m t_old;
          (t_new, m) \<leftarrow> mem_alloc m;
          m \<leftarrow> mem_upd m t_new (\<lambda>junk. do { cs \<leftarrow> aert_raw_chs (en_type src) junk; Some (src\<lparr>en_ver := ver, en_chs := cs\<rparr>) });
          Some (t_new, m) }"

text \<open>\<^verbatim>\<open>leaf.hpp\<close>: below an upper half node the leaf begins after the next half byte, which the pointer keeps.\<close>

definition aert_new_leaf :: "shifts \<Rightarrow> 64 word \<Rightarrow> nat \<Rightarrow> key \<Rightarrow> val \<Rightarrow> emem \<Rightarrow> (addr \<times> emem) option" where
  "aert_new_leaf ub ver pfx_ofs key val m =
     (if pfx_ofs mod 8 = 4
      then do {
        (t, m) \<leftarrow> aert_new_node ub ver ET_LEAF (pfx_ofs + 4) (64 - 4 - pfx_ofs) key m;
        m \<leftarrow> mem_upd m t (\<lambda>n. Some (n\<lparr>en_val := val\<rparr>));
        Some (aert_embed_ptr t (aert_partial_key ub key pfx_ofs 4 OR 0x10), m) }
      else do {
        (t, m) \<leftarrow> aert_new_node ub ver ET_LEAF pfx_ofs (64 - pfx_ofs) key m;
        m \<leftarrow> mem_upd m t (\<lambda>n. Some (n\<lparr>en_val := val\<rparr>));
        Some (t, m) })"

definition aert_leaf_update :: "64 word \<Rightarrow> addr \<Rightarrow> val \<Rightarrow> emem \<Rightarrow> (addr \<times> emem) option" where
  "aert_leaf_update ver t_old val m =
     do { (t_new, m) \<leftarrow> aert_node_copy t_old ver m;
          m \<leftarrow> mem_upd m t_new (\<lambda>n. Some (n\<lparr>en_val := val\<rparr>));
          Some (t_new, m) }"

section \<open>\<^verbatim>\<open>node4.hpp\<close>\<close>

definition aert_node4_find :: "enode \<Rightarrow> byte \<Rightarrow> nat option option" where
  "aert_node4_find t pkey =
     do { k0 \<leftarrow> arr_get (en_keys t) 0;
          if k0 = pkey then Some (Some 0)
          else do {
            k1 \<leftarrow> arr_get (en_keys t) 1;
            if k1 = pkey then Some (Some 1)
            else if en_size t = 2 then Some None
            else do {
              k2 \<leftarrow> arr_get (en_keys t) 2;
              if k2 = pkey then Some (Some 2)
              else if en_size t = 3 then Some None
              else do {
                k3 \<leftarrow> arr_get (en_keys t) 3;
                if k3 = pkey then Some (Some 3) else Some None } } } }"

function aert_node4_findgt_from :: "enode \<Rightarrow> byte \<Rightarrow> nat \<Rightarrow> nat option" where
  "aert_node4_findgt_from t pkey idx =
     (if idx < en_size t
      then do { k \<leftarrow> arr_get (en_keys t) idx; if k \<le> pkey then aert_node4_findgt_from t pkey (idx + 1) else Some idx }
      else Some idx)"
  by pat_completeness auto
termination
  by (relation "measure (\<lambda>(t, pkey, idx). en_size t - idx)") auto

declare aert_node4_findgt_from.simps [simp del]

definition aert_node4_findgt :: "enode \<Rightarrow> byte \<Rightarrow> nat option" where
  "aert_node4_findgt t pkey = aert_node4_findgt_from t pkey 0"

definition aert_node4_getch :: "enode \<Rightarrow> nat \<Rightarrow> nat option" where
  "aert_node4_getch t idx = Some idx"

definition aert_node4_findch :: "enode \<Rightarrow> byte \<Rightarrow> addr option" where
  "aert_node4_findch t pkey =
     do { idx \<leftarrow> aert_node4_find t pkey;
          case idx of None \<Rightarrow> Some nullptr | Some i \<Rightarrow> arr_get (en_chs t) i }"

definition aert_node4_append :: "enode \<Rightarrow> byte \<Rightarrow> (enode \<times> nat) option" where
  "aert_node4_append t pkey =
     do { idx \<leftarrow> aert_node4_findgt t pkey;
          ks \<leftarrow> arr_insert (en_keys t) (en_size t) idx pkey;
          Some (t\<lparr>en_keys := ks, en_size := en_size t + 1\<rparr>, idx) }"

definition aert_node4_copy_append :: "addr \<Rightarrow> 64 word \<Rightarrow> byte \<Rightarrow> emem \<Rightarrow> (addr \<times> nat \<times> emem) option" where
  "aert_node4_copy_append t ver pkey m =
     do { src \<leftarrow> mem_get m t;
          (t_new, m) \<leftarrow> mem_alloc m;
          idx \<leftarrow> aert_node4_findgt src pkey;
          m \<leftarrow> mem_upd m t_new (\<lambda>junk. do {
                 ks \<leftarrow> aert_raw_keys ET_NODE4 junk;
                 cs \<leftarrow> aert_raw_chs ET_NODE4 junk;
                 ks \<leftarrow> arr_copy_insert ks (en_keys src) (en_size src) idx pkey;
                 Some (src\<lparr>en_ver := ver, en_size := en_size src + 1, en_keys := ks, en_chs := cs\<rparr>) });
          Some (t_new, idx, m) }"

definition aert_node4_insertch :: "enode \<Rightarrow> nat \<Rightarrow> addr \<Rightarrow> enode option" where
  "aert_node4_insertch t idx ch =
     do { cs \<leftarrow> arr_insert (en_chs t) (en_size t - 1) idx ch; Some (t\<lparr>en_chs := cs\<rparr>) }"

text \<open>The four keys are copied as one 32-bit word.\<close>

definition aert_node4_extend :: "shifts \<Rightarrow> addr \<Rightarrow> 64 word \<Rightarrow> emem \<Rightarrow> (addr \<times> emem) option" where
  "aert_node4_extend ub t_old ver m =
     do { src \<leftarrow> mem_get m t_old;
          (t_new, m) \<leftarrow> aert_new_node ub ver ET_NODE16 (en_ofs src) (en_len src) (en_pfx src) m;
          m \<leftarrow> mem_upd m t_new (\<lambda>n. do { ks \<leftarrow> arr_copy (en_keys n) (en_keys src) 4; Some (n\<lparr>en_keys := ks\<rparr>) });
          Some (t_new, m) }"

definition aert_node4_extend_append :: "shifts \<Rightarrow> addr \<Rightarrow> 64 word \<Rightarrow> byte \<Rightarrow> emem \<Rightarrow> (addr \<times> nat \<times> emem) option" where
  "aert_node4_extend_append ub t ver pkey m =
     do { src \<leftarrow> mem_get m t;
          (t_new, m) \<leftarrow> aert_new_node ub ver ET_NODE16 (en_ofs src) (en_len src) (en_pfx src) m;
          idx \<leftarrow> aert_node4_findgt src pkey;
          m \<leftarrow> mem_upd m t_new (\<lambda>n. do {
                 ks \<leftarrow> arr_copy_insert (en_keys n) (en_keys src) (en_size src) idx pkey;
                 Some (n\<lparr>en_size := en_size n + 1, en_keys := ks\<rparr>) });
          Some (t_new, idx, m) }"

definition aert_node4_copych :: "enode \<Rightarrow> enode \<Rightarrow> enode option" where
  "aert_node4_copych t_new t_old =
     do { cs \<leftarrow> arr_copy (en_chs t_new) (en_chs t_old) (en_size t_old); Some (t_new\<lparr>en_chs := cs\<rparr>) }"

definition aert_node4_copych_at :: "enode \<Rightarrow> enode \<Rightarrow> nat \<Rightarrow> enode option" where
  "aert_node4_copych_at t_new t_old pos =
     do { cs \<leftarrow> arr_copy_insert (en_chs t_new) (en_chs t_old) (en_size t_old) pos nullptr; Some (t_new\<lparr>en_chs := cs\<rparr>) }"

definition aert_node4_copych_extend :: "enode \<Rightarrow> enode \<Rightarrow> enode option" where
  "aert_node4_copych_extend t_new t_old =
     do { cs \<leftarrow> arr_copy (en_chs t_new) (en_chs t_old) (en_size t_old); Some (t_new\<lparr>en_chs := cs\<rparr>) }"

definition aert_node4_copych_extend_at :: "enode \<Rightarrow> enode \<Rightarrow> nat \<Rightarrow> enode option" where
  "aert_node4_copych_extend_at t_new t_old pos =
     do { cs \<leftarrow> arr_copy_insert (en_chs t_new) (en_chs t_old) (en_size t_old) pos nullptr; Some (t_new\<lparr>en_chs := cs\<rparr>) }"

section \<open>\<^verbatim>\<open>node16.hpp\<close>\<close>

text \<open>As in the radix tree: the positions of the bits that are set below \<^verbatim>\<open>size\<close>.\<close>

definition aert_node16_bits :: "enode \<Rightarrow> (byte \<Rightarrow> bool) \<Rightarrow> nat list option" where
  "aert_node16_bits t p =
     (if length (en_keys t) = 16 then Some (filter (\<lambda>i. p (en_keys t ! i) \<and> i < en_size t) [0..<16]) else None)"

definition aert_node16_find :: "enode \<Rightarrow> byte \<Rightarrow> nat option option" where
  "aert_node16_find t pkey =
     do { bitfield \<leftarrow> aert_node16_bits t (\<lambda>k. k = pkey);
          if bitfield = [] then Some None else Some (Some (hd bitfield)) }"

definition aert_node16_findgt :: "enode \<Rightarrow> byte \<Rightarrow> nat option" where
  "aert_node16_findgt t pkey =
     do { mask \<leftarrow> aert_node16_bits t (\<lambda>k. pkey < k);
          if mask = [] then Some (en_size t) else Some (hd mask) }"

definition aert_node16_getch :: "enode \<Rightarrow> nat \<Rightarrow> nat option" where
  "aert_node16_getch t idx = Some idx"

definition aert_node16_findch :: "enode \<Rightarrow> byte \<Rightarrow> addr option" where
  "aert_node16_findch t pkey =
     do { idx \<leftarrow> aert_node16_find t pkey;
          case idx of None \<Rightarrow> Some nullptr | Some i \<Rightarrow> arr_get (en_chs t) i }"

definition aert_node16_append :: "enode \<Rightarrow> byte \<Rightarrow> (enode \<times> nat) option" where
  "aert_node16_append t pkey =
     do { idx \<leftarrow> aert_node16_findgt t pkey;
          ks \<leftarrow> arr_insert (en_keys t) (en_size t) idx pkey;
          Some (t\<lparr>en_keys := ks, en_size := en_size t + 1\<rparr>, idx) }"

definition aert_node16_copy_append :: "addr \<Rightarrow> 64 word \<Rightarrow> byte \<Rightarrow> emem \<Rightarrow> (addr \<times> nat \<times> emem) option" where
  "aert_node16_copy_append t ver pkey m =
     do { src \<leftarrow> mem_get m t;
          (t_new, m) \<leftarrow> mem_alloc m;
          idx \<leftarrow> aert_node16_findgt src pkey;
          m \<leftarrow> mem_upd m t_new (\<lambda>junk. do {
                 ks \<leftarrow> aert_raw_keys ET_NODE16 junk;
                 cs \<leftarrow> aert_raw_chs ET_NODE16 junk;
                 ks \<leftarrow> arr_copy_insert ks (en_keys src) (en_size src) idx pkey;
                 Some (src\<lparr>en_ver := ver, en_size := en_size src + 1, en_keys := ks, en_chs := cs\<rparr>) });
          Some (t_new, idx, m) }"

definition aert_node16_insertch :: "enode \<Rightarrow> nat \<Rightarrow> addr \<Rightarrow> enode option" where
  "aert_node16_insertch t idx ch =
     do { cs \<leftarrow> arr_insert (en_chs t) (en_size t - 1) idx ch; Some (t\<lparr>en_chs := cs\<rparr>) }"

definition aert_node16_copych :: "enode \<Rightarrow> enode \<Rightarrow> enode option" where
  "aert_node16_copych t_new t_old =
     do { cs \<leftarrow> arr_copy (en_chs t_new) (en_chs t_old) (en_size t_old); Some (t_new\<lparr>en_chs := cs\<rparr>) }"

definition aert_node16_copych_at :: "enode \<Rightarrow> enode \<Rightarrow> nat \<Rightarrow> enode option" where
  "aert_node16_copych_at t_new t_old pos =
     do { cs \<leftarrow> arr_copy_insert (en_chs t_new) (en_chs t_old) (en_size t_old) pos nullptr; Some (t_new\<lparr>en_chs := cs\<rparr>) }"

section \<open>\<^verbatim>\<open>nodeh4.hpp\<close>\<close>

definition aert_nodeh4_find :: "enode \<Rightarrow> byte \<Rightarrow> nat option option" where
  "aert_nodeh4_find t pkey =
     do { k0 \<leftarrow> arr_get (en_keys t) 0;
          if k0 = pkey then Some (Some 0)
          else do {
            k1 \<leftarrow> arr_get (en_keys t) 1;
            if k1 = pkey then Some (Some 1)
            else if en_size t = 2 then Some None
            else do {
              k2 \<leftarrow> arr_get (en_keys t) 2;
              if k2 = pkey then Some (Some 2)
              else if en_size t = 3 then Some None
              else do {
                k3 \<leftarrow> arr_get (en_keys t) 3;
                if k3 = pkey then Some (Some 3) else Some None } } } }"

function aert_nodeh4_findgt_from :: "enode \<Rightarrow> byte \<Rightarrow> nat \<Rightarrow> nat option" where
  "aert_nodeh4_findgt_from t pkey idx =
     (if idx < en_size t
      then do { k \<leftarrow> arr_get (en_keys t) idx; if k \<le> pkey then aert_nodeh4_findgt_from t pkey (idx + 1) else Some idx }
      else Some idx)"
  by pat_completeness auto
termination
  by (relation "measure (\<lambda>(t, pkey, idx). en_size t - idx)") auto

declare aert_nodeh4_findgt_from.simps [simp del]

definition aert_nodeh4_findgt :: "enode \<Rightarrow> byte \<Rightarrow> nat option" where
  "aert_nodeh4_findgt t pkey = aert_nodeh4_findgt_from t pkey 0"

definition aert_nodeh4_getch :: "enode \<Rightarrow> nat \<Rightarrow> nat option" where
  "aert_nodeh4_getch t idx = Some idx"

definition aert_nodeh4_findch :: "enode \<Rightarrow> byte \<Rightarrow> addr option" where
  "aert_nodeh4_findch t pkey =
     do { idx \<leftarrow> aert_nodeh4_find t pkey;
          case idx of None \<Rightarrow> Some nullptr | Some i \<Rightarrow> arr_get (en_chs t) i }"

definition aert_nodeh4_append :: "enode \<Rightarrow> byte \<Rightarrow> (enode \<times> nat) option" where
  "aert_nodeh4_append t pkey =
     do { idx \<leftarrow> aert_nodeh4_findgt t pkey;
          ks \<leftarrow> arr_insert (en_keys t) (en_size t) idx pkey;
          Some (t\<lparr>en_keys := ks, en_size := en_size t + 1\<rparr>, idx) }"

definition aert_nodeh4_copy_append :: "addr \<Rightarrow> 64 word \<Rightarrow> byte \<Rightarrow> emem \<Rightarrow> (addr \<times> nat \<times> emem) option" where
  "aert_nodeh4_copy_append t ver pkey m =
     do { src \<leftarrow> mem_get m t;
          (t_new, m) \<leftarrow> mem_alloc m;
          idx \<leftarrow> aert_nodeh4_findgt src pkey;
          m \<leftarrow> mem_upd m t_new (\<lambda>junk. do {
                 ks \<leftarrow> aert_raw_keys ET_NODEH4 junk;
                 cs \<leftarrow> aert_raw_chs ET_NODEH4 junk;
                 ks \<leftarrow> arr_copy_insert ks (en_keys src) (en_size src) idx pkey;
                 Some (src\<lparr>en_ver := ver, en_size := en_size src + 1, en_keys := ks, en_chs := cs\<rparr>) });
          Some (t_new, idx, m) }"

definition aert_nodeh4_insertch :: "enode \<Rightarrow> nat \<Rightarrow> addr \<Rightarrow> enode option" where
  "aert_nodeh4_insertch t idx ch =
     do { cs \<leftarrow> arr_insert (en_chs t) (en_size t - 1) idx ch; Some (t\<lparr>en_chs := cs\<rparr>) }"

definition aert_nodeh4_extend :: "shifts \<Rightarrow> addr \<Rightarrow> 64 word \<Rightarrow> emem \<Rightarrow> (addr \<times> emem) option" where
  "aert_nodeh4_extend ub t_old ver m =
     do { src \<leftarrow> mem_get m t_old; aert_new_node ub ver ET_NODEH16 (en_ofs src) (en_len src) (en_pfx src) m }"

definition aert_nodeh4_extend_append :: "shifts \<Rightarrow> addr \<Rightarrow> 64 word \<Rightarrow> byte \<Rightarrow> emem \<Rightarrow> (addr \<times> nat \<times> emem) option" where
  "aert_nodeh4_extend_append ub t ver pkey m =
     do { (t_new, m) \<leftarrow> aert_nodeh4_extend ub t ver m; Some (t_new, unat pkey, m) }"

definition aert_nodeh4_copych :: "enode \<Rightarrow> enode \<Rightarrow> enode option" where
  "aert_nodeh4_copych t_new t_old =
     do { cs \<leftarrow> arr_copy (en_chs t_new) (en_chs t_old) (en_size t_old); Some (t_new\<lparr>en_chs := cs\<rparr>) }"

definition aert_nodeh4_copych_at :: "enode \<Rightarrow> enode \<Rightarrow> nat \<Rightarrow> enode option" where
  "aert_nodeh4_copych_at t_new t_old pos =
     do { cs \<leftarrow> arr_copy_insert (en_chs t_new) (en_chs t_old) (en_size t_old) pos nullptr; Some (t_new\<lparr>en_chs := cs\<rparr>) }"

function aert_nodeh4_spread :: "enode \<Rightarrow> nat \<Rightarrow> addr list \<Rightarrow> addr list option" where
  "aert_nodeh4_spread t_old idx chs =
     (if idx < en_size t_old
      then do {
        k \<leftarrow> arr_get (en_keys t_old) idx;
        c \<leftarrow> arr_get (en_chs t_old) idx;
        chs \<leftarrow> arr_set chs (unat k) c;
        aert_nodeh4_spread t_old (idx + 1) chs }
      else Some chs)"
  by pat_completeness auto
termination
  by (relation "measure (\<lambda>(t_old, idx, chs). en_size t_old - idx)") auto

declare aert_nodeh4_spread.simps [simp del]

definition aert_nodeh4_copych_extend :: "enode \<Rightarrow> enode \<Rightarrow> enode option" where
  "aert_nodeh4_copych_extend t_new t_old = do { cs \<leftarrow> aert_nodeh4_spread t_old 0 (en_chs t_new); Some (t_new\<lparr>en_chs := cs\<rparr>) }"

section \<open>\<^verbatim>\<open>nodeh16.hpp\<close>\<close>

definition aert_nodeh16_find :: "enode \<Rightarrow> byte \<Rightarrow> nat option option" where
  "aert_nodeh16_find t pkey = Some (Some (unat pkey))"

definition aert_nodeh16_getch :: "enode \<Rightarrow> nat \<Rightarrow> nat option" where
  "aert_nodeh16_getch t pkey = Some pkey"

definition aert_nodeh16_findch :: "enode \<Rightarrow> byte \<Rightarrow> addr option" where
  "aert_nodeh16_findch t pkey = arr_get (en_chs t) (unat pkey)"

definition aert_nodeh16_append :: "enode \<Rightarrow> byte \<Rightarrow> (enode \<times> nat) option" where
  "aert_nodeh16_append t pkey = Some (t, unat pkey)"

definition aert_nodeh16_copy_append :: "addr \<Rightarrow> 64 word \<Rightarrow> byte \<Rightarrow> emem \<Rightarrow> (addr \<times> nat \<times> emem) option" where
  "aert_nodeh16_copy_append t ver pkey m = do { (t_new, m) \<leftarrow> aert_node_copy t ver m; Some (t_new, unat pkey, m) }"

definition aert_nodeh16_insertch :: "enode \<Rightarrow> nat \<Rightarrow> addr \<Rightarrow> enode option" where
  "aert_nodeh16_insertch t pkey ch = do { cs \<leftarrow> arr_set (en_chs t) pkey ch; Some (t\<lparr>en_chs := cs\<rparr>) }"

definition aert_nodeh16_copych :: "enode \<Rightarrow> enode \<Rightarrow> enode option" where
  "aert_nodeh16_copych t_new t_old =
     do { cs \<leftarrow> arr_copy (en_chs t_new) (en_chs t_old) 16; Some (t_new\<lparr>en_chs := cs\<rparr>) }"

section \<open>\<^verbatim>\<open>node_wrapper.hpp\<close>\<close>

definition aert_find_idx :: "enode \<Rightarrow> byte \<Rightarrow> nat option option" where
  "aert_find_idx t pkey =
     (case en_type t of
        ET_NODE4 \<Rightarrow> aert_node4_find t pkey | ET_NODE16 \<Rightarrow> aert_node16_find t pkey
      | ET_NODEH4 \<Rightarrow> aert_nodeh4_find t pkey | ET_NODEH16 \<Rightarrow> aert_nodeh16_find t pkey
      | ET_LEAF \<Rightarrow> Some None)"

text \<open>The null pointer that \<^verbatim>\<open>getch\<close> returns for a leaf cannot be used; it is the fault here.\<close>

definition aert_getch :: "enode \<Rightarrow> nat \<Rightarrow> nat option" where
  "aert_getch t idx =
     (case en_type t of
        ET_NODE4 \<Rightarrow> aert_node4_getch t idx | ET_NODE16 \<Rightarrow> aert_node16_getch t idx
      | ET_NODEH4 \<Rightarrow> aert_nodeh4_getch t idx | ET_NODEH16 \<Rightarrow> aert_nodeh16_getch t idx
      | ET_LEAF \<Rightarrow> None)"

definition aert_findch :: "enode \<Rightarrow> byte \<Rightarrow> addr option" where
  "aert_findch t pkey =
     (case en_type t of
        ET_NODE4 \<Rightarrow> aert_node4_findch t pkey | ET_NODE16 \<Rightarrow> aert_node16_findch t pkey
      | ET_NODEH4 \<Rightarrow> aert_nodeh4_findch t pkey | ET_NODEH16 \<Rightarrow> aert_nodeh16_findch t pkey
      | ET_LEAF \<Rightarrow> Some nullptr)"

definition aert_append :: "enode \<Rightarrow> byte \<Rightarrow> (enode \<times> nat) option" where
  "aert_append t pkey =
     (case en_type t of
        ET_NODE4 \<Rightarrow> aert_node4_append t pkey | ET_NODE16 \<Rightarrow> aert_node16_append t pkey
      | ET_NODEH4 \<Rightarrow> aert_nodeh4_append t pkey | ET_NODEH16 \<Rightarrow> aert_nodeh16_append t pkey
      | ET_LEAF \<Rightarrow> Some (t, 0))"

text \<open>For a leaf nothing is stored through \<^verbatim>\<open>tp\<close>, which the caller would go on to use; it is the fault here.\<close>

definition aert_copy_append :: "addr \<Rightarrow> 64 word \<Rightarrow> byte \<Rightarrow> emem \<Rightarrow> (addr \<times> nat \<times> emem) option" where
  "aert_copy_append t ver pkey m =
     do { n \<leftarrow> mem_get m t;
          case en_type n of
            ET_NODE4 \<Rightarrow> aert_node4_copy_append t ver pkey m | ET_NODE16 \<Rightarrow> aert_node16_copy_append t ver pkey m
          | ET_NODEH4 \<Rightarrow> aert_nodeh4_copy_append t ver pkey m | ET_NODEH16 \<Rightarrow> aert_nodeh16_copy_append t ver pkey m
          | ET_LEAF \<Rightarrow> None }"

definition aert_insertch :: "enode \<Rightarrow> nat \<Rightarrow> addr \<Rightarrow> enode option" where
  "aert_insertch t idx ch =
     (case en_type t of
        ET_NODE4 \<Rightarrow> aert_node4_insertch t idx ch | ET_NODE16 \<Rightarrow> aert_node16_insertch t idx ch
      | ET_NODEH4 \<Rightarrow> aert_nodeh4_insertch t idx ch | ET_NODEH16 \<Rightarrow> aert_nodeh16_insertch t idx ch
      | ET_LEAF \<Rightarrow> Some t)"

definition aert_is_full :: "enode \<Rightarrow> bool" where
  "aert_is_full t =
     (case en_type t of
        ET_NODE4 \<Rightarrow> en_size t = 4 | ET_NODE16 \<Rightarrow> en_size t = 16
      | ET_NODEH4 \<Rightarrow> en_size t = 4 | ET_NODEH16 \<Rightarrow> False
      | ET_LEAF \<Rightarrow> True)"

definition aert_node_extend :: "shifts \<Rightarrow> addr \<Rightarrow> 64 word \<Rightarrow> emem \<Rightarrow> (addr \<times> emem) option" where
  "aert_node_extend ub t ver m =
     do { n \<leftarrow> mem_get m t;
          case en_type n of
            ET_NODE4 \<Rightarrow> aert_node4_extend ub t ver m
          | ET_NODEH4 \<Rightarrow> aert_nodeh4_extend ub t ver m
          | _ \<Rightarrow> Some (nullptr, m) }"

definition aert_extend_append :: "shifts \<Rightarrow> addr \<Rightarrow> 64 word \<Rightarrow> byte \<Rightarrow> emem \<Rightarrow> (addr \<times> nat \<times> emem) option" where
  "aert_extend_append ub t ver pkey m =
     do { n \<leftarrow> mem_get m t;
          case en_type n of
            ET_NODE4 \<Rightarrow> aert_node4_extend_append ub t ver pkey m
          | ET_NODEH4 \<Rightarrow> aert_nodeh4_extend_append ub t ver pkey m
          | _ \<Rightarrow> None }"

text \<open>\<^verbatim>\<open>copych\<close>, and its overload with a position.\<close>

definition aert_copych :: "enode \<Rightarrow> enode \<Rightarrow> enode option" where
  "aert_copych t_new t_old =
     (if en_type t_old \<noteq> en_type t_new
      then (case en_type t_old of
              ET_NODE4 \<Rightarrow> aert_node4_copych_extend t_new t_old
            | ET_NODEH4 \<Rightarrow> aert_nodeh4_copych_extend t_new t_old
            | _ \<Rightarrow> Some t_new)
      else (case en_type t_new of
              ET_NODE4 \<Rightarrow> aert_node4_copych t_new t_old | ET_NODE16 \<Rightarrow> aert_node16_copych t_new t_old
            | ET_NODEH4 \<Rightarrow> aert_nodeh4_copych t_new t_old | ET_NODEH16 \<Rightarrow> aert_nodeh16_copych t_new t_old
            | ET_LEAF \<Rightarrow> Some t_new))"

definition aert_copych_at :: "enode \<Rightarrow> enode \<Rightarrow> nat \<Rightarrow> enode option" where
  "aert_copych_at t_new t_old idx =
     (if en_type t_old \<noteq> en_type t_new
      then (case en_type t_old of
              ET_NODE4 \<Rightarrow> aert_node4_copych_extend_at t_new t_old idx
            | ET_NODEH4 \<Rightarrow> aert_nodeh4_copych_extend t_new t_old
            | _ \<Rightarrow> Some t_new)
      else (case en_type t_new of
              ET_NODE4 \<Rightarrow> aert_node4_copych_at t_new t_old idx | ET_NODE16 \<Rightarrow> aert_node16_copych_at t_new t_old idx
            | ET_NODEH4 \<Rightarrow> aert_nodeh4_copych_at t_new t_old idx | ET_NODEH16 \<Rightarrow> aert_nodeh16_copych t_new t_old
            | ET_LEAF \<Rightarrow> Some t_new))"

end
