(* ===== verification/Aert_Inplace.thy ===== *)
theory Aert_Inplace
  imports Aert_Node
begin

text \<open>
  \<^verbatim>\<open>update_inplace.hpp\<close> and \<^verbatim>\<open>build.hpp\<close> of \<^verbatim>\<open>lib/trees/aert\<close>, with the split of a full node of 16 into
  an upper half and lower halves.
\<close>

section \<open>Forks\<close>

text \<open>The node that moves below a fork loses its first \<^term>\<open>d\<close> bits.\<close>

definition aert_shift :: "shifts \<Rightarrow> nat \<Rightarrow> enode \<Rightarrow> enode" where
  "aert_shift ub d n =
     (let n = n\<lparr>en_ofs := en_ofs n + d, en_len := en_len n - d\<rparr>
      in if en_type n \<noteq> ET_LEAF then n\<lparr>en_pfx := en_pfx n AND aert_prefix_mask ub (en_ofs n) (en_len n)\<rparr> else n)"

definition aert_node_fork_inplace :: "shifts \<Rightarrow> nat \<Rightarrow> addr \<Rightarrow> nat \<Rightarrow> key \<Rightarrow> val \<Rightarrow> emem \<Rightarrow> (addr \<times> emem) option" where
  "aert_node_fork_inplace ub pmlen t ofs key val m =
     do { (t_par, m) \<leftarrow> aert_new_node ub 0 ET_NODE4 ofs pmlen key m;
          n \<leftarrow> mem_get m t;
          let pk0 = aert_partial_key ub (en_pfx n) (en_ofs n + pmlen) 8;
          m \<leftarrow> mem_upd m t (\<lambda>n. Some (aert_shift ub (pmlen + 8) n));
          let ofs = ofs + pmlen;
          let pk1 = aert_partial_key ub key ofs 8;
          let idx = (if pk0 > pk1 then 1 else 0);
          m \<leftarrow> mem_upd m t_par (\<lambda>n. do {
                 ks \<leftarrow> arr_set (en_keys n) idx pk0;
                 cs \<leftarrow> arr_set (en_chs n) idx t;
                 ks \<leftarrow> arr_set ks (1 - idx) pk1;
                 Some (n\<lparr>en_keys := ks, en_chs := cs\<rparr>) });
          (l, m) \<leftarrow> aert_new_leaf ub 0 (ofs + 8) key val m;
          m \<leftarrow> mem_upd m t_par (\<lambda>n. do { cs \<leftarrow> arr_set (en_chs n) (1 - idx) l; Some (n\<lparr>en_chs := cs\<rparr>) });
          Some (t_par, m) }"

definition aert_nodeh_fork_inplace :: "shifts \<Rightarrow> addr \<Rightarrow> byte \<Rightarrow> nat \<Rightarrow> key \<Rightarrow> val \<Rightarrow> emem \<Rightarrow> (addr \<times> emem) option" where
  "aert_nodeh_fork_inplace ub t ppfx ofs key val m =
     do { (t_par, m) \<leftarrow> aert_new_node ub 0 ET_NODEH4 ofs 0 key m;
          let pk0 = ppfx AND 0x0f;
          let pk1 = aert_partial_key ub key ofs 4;
          let idx = (if pk0 > pk1 then 1 else 0);
          m \<leftarrow> mem_upd m t_par (\<lambda>n. do {
                 ks \<leftarrow> arr_set (en_keys n) idx pk0;
                 cs \<leftarrow> arr_set (en_chs n) idx t;
                 ks \<leftarrow> arr_set ks (1 - idx) pk1;
                 Some (n\<lparr>en_keys := ks, en_chs := cs\<rparr>) });
          (l, m) \<leftarrow> aert_new_leaf ub 0 (ofs + 4) key val m;
          m \<leftarrow> mem_upd m t_par (\<lambda>n. do { cs \<leftarrow> arr_set (en_chs n) (1 - idx) l; Some (n\<lparr>en_chs := cs\<rparr>) });
          Some (t_par, m) }"

section \<open>The split of a full node\<close>

text \<open>How many of the keys have a first half byte.\<close>

fun aert_count_halves :: "byte list \<Rightarrow> nat list \<Rightarrow> nat list \<Rightarrow> nat list option" where
  "aert_count_halves keys [] ch_sz = Some ch_sz"
| "aert_count_halves keys (idx # idxs) ch_sz =
     do { k \<leftarrow> arr_get keys idx;
          let hi = unat (drop_bit 4 k);
          c \<leftarrow> arr_get ch_sz hi;
          ch_sz \<leftarrow> arr_set ch_sz hi (c + 1);
          aert_count_halves keys idxs ch_sz }"

definition aert_set_slot :: "addr \<Rightarrow> nat \<Rightarrow> addr \<Rightarrow> emem \<Rightarrow> emem option" where
  "aert_set_slot t pos ch m = mem_upd m t (\<lambda>n. do { cs \<leftarrow> arr_set (en_chs n) pos ch; Some (n\<lparr>en_chs := cs\<rparr>) })"

text \<open>A lower half for every first half byte that several keys share.\<close>

fun aert_lower_halves :: "shifts \<Rightarrow> 64 word \<Rightarrow> nat list \<Rightarrow> nat \<Rightarrow> addr \<Rightarrow> nat list \<Rightarrow> emem \<Rightarrow> emem option" where
  "aert_lower_halves ub ver ch_sz ofs t_uh [] m = Some m"
| "aert_lower_halves ub ver ch_sz ofs t_uh (idx # idxs) m =
     do { c \<leftarrow> arr_get ch_sz idx;
          m \<leftarrow> (if c > 1
                then do {
                  uh \<leftarrow> mem_get m t_uh;
                  (uh, i) \<leftarrow> aert_append uh (of_nat idx);
                  m \<leftarrow> mem_upd m t_uh (\<lambda>_. Some uh);
                  pos \<leftarrow> aert_getch uh i;
                  (t_lh, m) \<leftarrow> aert_new_nodeh ub ver c ofs 0 0 m;
                  aert_set_slot t_uh pos t_lh m }
                else Some m);
          aert_lower_halves ub ver ch_sz ofs t_uh idxs m }"

definition aert_create_upper_half :: "shifts \<Rightarrow> addr \<Rightarrow> 64 word \<Rightarrow> byte \<Rightarrow> emem \<Rightarrow> (addr \<times> emem) option" where
  "aert_create_upper_half ub t_old ver pkey m =
     do { old \<leftarrow> mem_get m t_old;
          ch_sz \<leftarrow> aert_count_halves (en_keys old) [0..<16] (replicate 16 0);
          c \<leftarrow> arr_get ch_sz (unat (drop_bit 4 pkey));
          ch_sz \<leftarrow> arr_set ch_sz (unat (drop_bit 4 pkey)) (c + 1);
          let cnt = length (filter (\<lambda>c. c \<noteq> 0) ch_sz);
          (t_uh, m) \<leftarrow> aert_new_nodeh ub ver cnt (en_ofs old) (en_len old) (en_pfx old) m;
          m \<leftarrow> aert_lower_halves ub ver ch_sz (en_ofs old + en_len old + 4) t_uh [0..<16] m;
          Some (t_uh, m) }"

definition aert_insert_at :: "addr \<Rightarrow> byte \<Rightarrow> addr \<Rightarrow> emem \<Rightarrow> emem option" where
  "aert_insert_at t pkey ch m =
     do { n \<leftarrow> mem_get m t;
          (n, i) \<leftarrow> aert_append n pkey;
          n \<leftarrow> aert_insertch n i ch;
          mem_upd m t (\<lambda>_. Some n) }"

definition aert_create_lower_half :: "addr \<Rightarrow> addr \<Rightarrow> byte \<Rightarrow> emem \<Rightarrow> emem option" where
  "aert_create_lower_half t_uh t_old_ch pkey m =
     do { let hi = drop_bit 4 pkey;
          let lo = pkey AND 0x0f;
          uh \<leftarrow> mem_get m t_uh;
          t_lh \<leftarrow> aert_findch uh hi;
          if t_lh = nullptr
          then aert_insert_at t_uh hi (aert_embed_ptr t_old_ch (lo OR 0x10)) m
          else aert_insert_at t_lh lo t_old_ch m }"

text \<open>The loop \<^verbatim>\<open>for (idx = 0; idx < t->size; ++idx)\<close> over the children of the old node.\<close>

fun aert_move_children :: "addr \<Rightarrow> enode \<Rightarrow> nat list \<Rightarrow> emem \<Rightarrow> emem option" where
  "aert_move_children t_uh t [] m = Some m"
| "aert_move_children t_uh t (idx # idxs) m =
     do { ch \<leftarrow> arr_get (en_chs t) idx;
          k \<leftarrow> arr_get (en_keys t) idx;
          m \<leftarrow> aert_create_lower_half t_uh ch k m;
          aert_move_children t_uh t idxs m }"

definition aert_node_split_inplace :: "shifts \<Rightarrow> addr \<Rightarrow> byte \<Rightarrow> nat \<Rightarrow> key \<Rightarrow> val \<Rightarrow> emem \<Rightarrow> (addr \<times> emem) option" where
  "aert_node_split_inplace ub t pkey ofs key val m =
     do { (t_uh, m) \<leftarrow> aert_create_upper_half ub t 0 pkey m;
          n \<leftarrow> mem_get m t;
          m \<leftarrow> aert_move_children t_uh n [0..<en_size n] m;
          (t_leaf, m) \<leftarrow> aert_new_leaf ub 0 ofs key val m;
          m \<leftarrow> aert_create_lower_half t_uh t_leaf (aert_partial_key ub key (ofs - 8) 8) m;
          m \<leftarrow> mem_free m t;
          Some (t_uh, m) }"

section \<open>The update\<close>

fun aert_update_inplace :: "shifts \<Rightarrow> nat \<Rightarrow> addr \<Rightarrow> nat \<Rightarrow> key \<Rightarrow> val \<Rightarrow> emem \<Rightarrow> (addr \<times> emem) option" where
  "aert_update_inplace ub 0 t ofs key val m = None"
| "aert_update_inplace ub (Suc fuel) t ofs key val m =
     (if t = nullptr then aert_new_leaf ub 0 ofs key val m
      else do {
        let (t, ppfx) = aert_unembed_ptr t;
        let is_embed = (ppfx AND 0x10 \<noteq> 0);
        n \<leftarrow> mem_get m t;
        if is_embed \<and> aert_ptr_pfx_match ub ppfx (en_ofs n) key < 4
        then aert_nodeh_fork_inplace ub t ppfx ofs key val m
        else do {
          let ofs = ofs + (if is_embed then 4 else 0);
          let pmlen = aert_prefix_match ub n key div 8 * 8;
          if pmlen < en_len n
          then do { (t_new, m) \<leftarrow> aert_node_fork_inplace ub pmlen t ofs key val m; Some (aert_embed_ptr t_new ppfx, m) }
          else if en_type n = ET_LEAF
          then do { m \<leftarrow> mem_upd m t (\<lambda>n. Some (n\<lparr>en_val := val\<rparr>)); Some (aert_embed_ptr t ppfx, m) }
          else do {
            let key_len = aert_node_key_len (en_type n);
            let ofs = ofs + en_len n;
            let pkey = aert_partial_key ub key ofs key_len;
            let ofs = ofs + key_len;
            idx \<leftarrow> aert_find_idx n pkey;
            case idx of
              Some idx \<Rightarrow> do {
                pos \<leftarrow> aert_getch n idx;
                ch \<leftarrow> arr_get (en_chs n) pos;
                (ch, m) \<leftarrow> aert_update_inplace ub fuel ch ofs key val m;
                m \<leftarrow> aert_set_slot t pos ch m;
                Some (aert_embed_ptr t ppfx, m) }
            | None \<Rightarrow>
                if en_size n = 16
                then do { (t_new, m) \<leftarrow> aert_node_split_inplace ub t pkey ofs key val m; Some (aert_embed_ptr t_new ppfx, m) }
                else if aert_is_full n
                then do {
                  (t_new, i, m) \<leftarrow> aert_extend_append ub t 0 pkey m;
                  n_new \<leftarrow> mem_get m t_new;
                  n_new \<leftarrow> aert_copych_at n_new n i;
                  m \<leftarrow> mem_upd m t_new (\<lambda>_. Some n_new);
                  (l, m) \<leftarrow> aert_new_leaf ub 0 ofs key val m;
                  pos \<leftarrow> aert_getch n_new i;
                  m \<leftarrow> aert_set_slot t_new pos l m;
                  m \<leftarrow> mem_free m t;
                  Some (aert_embed_ptr t_new ppfx, m) }
                else do {
                  (n, i) \<leftarrow> aert_append n pkey;
                  m \<leftarrow> mem_upd m t (\<lambda>_. Some n);
                  (l, m) \<leftarrow> aert_new_leaf ub 0 ofs key val m;
                  m \<leftarrow> mem_upd m t (\<lambda>n. aert_insertch n i l);
                  Some (aert_embed_ptr t ppfx, m) } } } })"

fun aert_build_from :: "shifts \<Rightarrow> nat \<Rightarrow> addr \<Rightarrow> kv list \<Rightarrow> emem \<Rightarrow> (addr \<times> emem) option" where
  "aert_build_from ub fuel t [] m = Some (t, m)"
| "aert_build_from ub fuel t (e # elems) m =
     do { (t, m) \<leftarrow> aert_update_inplace ub fuel t 0 (fst e) (snd e) m; aert_build_from ub fuel t elems m }"

definition aert_build :: "shifts \<Rightarrow> nat \<Rightarrow> kv list \<Rightarrow> emem \<Rightarrow> (addr \<times> emem) option" where
  "aert_build ub fuel elems m = aert_build_from ub fuel nullptr elems m"

end
