(* ===== verification/Aert_Query.thy ===== *)
theory Aert_Query
  imports Aert_Inplace
begin

text \<open>\<^verbatim>\<open>query.hpp\<close> of \<^verbatim>\<open>lib/trees/aert\<close>.\<close>

text \<open>The loop of \<^verbatim>\<open>find\<close> goes down one node at a time.\<close>

fun aert_find :: "shifts \<Rightarrow> nat \<Rightarrow> addr \<Rightarrow> key \<Rightarrow> emem \<Rightarrow> val option option" where
  "aert_find ub 0 t key m = None"
| "aert_find ub (Suc fuel) t key m =
     (if t \<noteq> nullptr
      then do {
        let (t, ppfx) = aert_unembed_ptr t;
        n \<leftarrow> mem_get m t;
        if ppfx AND 0x10 \<noteq> 0 \<and> aert_ptr_pfx_match ub ppfx (en_ofs n) key < 4 then Some None
        else do {
          let pmlen = aert_prefix_match ub n key div 8 * 8;
          if en_len n > pmlen then Some None
          else if en_type n = ET_LEAF then Some (Some (en_val n))
          else do {
            c \<leftarrow> aert_findch n (aert_partial_key ub key (en_ofs n + en_len n) (aert_node_key_len (en_type n)));
            aert_find ub fuel c key m } } }
      else Some None)"

text \<open>As in the radix tree, the functions of the node types take the call for a child as a parameter.\<close>

type_synonym escan_fun = "addr \<Rightarrow> kv list \<Rightarrow> kv list option"

function aert_scan_children :: "escan_fun \<Rightarrow> enode \<Rightarrow> nat \<Rightarrow> nat \<Rightarrow> kv list \<Rightarrow> kv list option" where
  "aert_scan_children scan t idx n ret =
     (if length ret < n \<and> idx < en_size t
      then do { c \<leftarrow> arr_get (en_chs t) idx; ret \<leftarrow> scan c ret; aert_scan_children scan t (idx + 1) n ret }
      else Some ret)"
  by pat_completeness auto
termination
  by (relation "measure (\<lambda>(scan, t, idx, n, ret). en_size t - idx)") auto

definition aert_node4_scan_append :: "escan_fun \<Rightarrow> enode \<Rightarrow> byte option \<Rightarrow> nat \<Rightarrow> kv list \<Rightarrow> kv list option" where
  "aert_node4_scan_append scan t pkey n ret =
     do { idx \<leftarrow> (case pkey of None \<Rightarrow> Some 0 | Some p \<Rightarrow> aert_node4_findgt t p); aert_scan_children scan t idx n ret }"

definition aert_node16_scan_append :: "escan_fun \<Rightarrow> enode \<Rightarrow> byte option \<Rightarrow> nat \<Rightarrow> kv list \<Rightarrow> kv list option" where
  "aert_node16_scan_append scan t pkey n ret =
     do { idx \<leftarrow> (case pkey of None \<Rightarrow> Some 0 | Some p \<Rightarrow> aert_node16_findgt t p); aert_scan_children scan t idx n ret }"

definition aert_nodeh4_scan_append :: "escan_fun \<Rightarrow> enode \<Rightarrow> byte option \<Rightarrow> nat \<Rightarrow> kv list \<Rightarrow> kv list option" where
  "aert_nodeh4_scan_append scan t pkey n ret =
     do { idx \<leftarrow> (case pkey of None \<Rightarrow> Some 0 | Some p \<Rightarrow> aert_nodeh4_findgt t p); aert_scan_children scan t idx n ret }"

function aert_nodeh16_scan_from :: "escan_fun \<Rightarrow> enode \<Rightarrow> nat \<Rightarrow> nat \<Rightarrow> kv list \<Rightarrow> kv list option" where
  "aert_nodeh16_scan_from scan t idx n ret =
     (if length ret < n \<and> idx < 16
      then do {
        c \<leftarrow> arr_get (en_chs t) idx;
        ret \<leftarrow> (if c \<noteq> nullptr then scan c ret else Some ret);
        aert_nodeh16_scan_from scan t (idx + 1) n ret }
      else Some ret)"
  by pat_completeness auto
termination
  by (relation "measure (\<lambda>(scan, t, idx, n, ret). 16 - idx)") auto

definition aert_nodeh16_scan_append :: "escan_fun \<Rightarrow> enode \<Rightarrow> byte option \<Rightarrow> nat \<Rightarrow> kv list \<Rightarrow> kv list option" where
  "aert_nodeh16_scan_append scan t pkey n ret =
     aert_nodeh16_scan_from scan t (case pkey of None \<Rightarrow> 0 | Some p \<Rightarrow> unat p + 1) n ret"

declare aert_scan_children.simps [simp del] aert_nodeh16_scan_from.simps [simp del]

fun aert_scan_append :: "nat \<Rightarrow> addr \<Rightarrow> byte option \<Rightarrow> nat \<Rightarrow> kv list \<Rightarrow> emem \<Rightarrow> kv list option" where
  "aert_scan_append 0 t pkey n ret m = None"
| "aert_scan_append (Suc fuel) t pkey n ret m =
     do { x \<leftarrow> mem_get m (aert_extract_ptr t);
          let scan = (\<lambda>c ret. aert_scan_append fuel c None n ret m);
          case en_type x of
            ET_NODE4 \<Rightarrow> aert_node4_scan_append scan x pkey n ret
          | ET_NODE16 \<Rightarrow> aert_node16_scan_append scan x pkey n ret
          | ET_NODEH4 \<Rightarrow> aert_nodeh4_scan_append scan x pkey n ret
          | ET_NODEH16 \<Rightarrow> aert_nodeh16_scan_append scan x pkey n ret
          | ET_LEAF \<Rightarrow> Some (ret @ [(en_pfx x, en_val x)]) }"

fun aert_scan_search :: "shifts \<Rightarrow> nat \<Rightarrow> addr \<Rightarrow> key \<Rightarrow> nat \<Rightarrow> kv list \<Rightarrow> emem \<Rightarrow> kv list option" where
  "aert_scan_search ub 0 t key n ret m = None"
| "aert_scan_search ub (Suc fuel) t key n ret m =
     (if t = nullptr then Some ret
      else do {
        let (t, ppfx) = aert_unembed_ptr t;
        x \<leftarrow> mem_get m t;
        if ppfx AND 0x10 \<noteq> 0 \<and> aert_ptr_pfx_match ub ppfx (en_ofs x) key < 4
        then do {
          let hpfx = aert_partial_key ub key (en_ofs x) 4;
          if ppfx AND 0xf < hpfx then Some ret else aert_scan_append (Suc fuel) (aert_extract_ptr t) None n ret m }
        else do {
          let pmlen = aert_prefix_match ub x key div 8 * 8;
          if en_len x > pmlen
          then do {
            let t_pkey = aert_partial_key ub (en_pfx x) (en_ofs x + pmlen) 8;
            let pkey = aert_partial_key ub key (en_ofs x + pmlen) 8;
            if t_pkey < pkey then Some ret else aert_scan_append (Suc fuel) (aert_extract_ptr t) None n ret m }
          else if en_type x = ET_LEAF then Some (ret @ [(en_pfx x, en_val x)])
          else do {
            let pkey = aert_partial_key ub key (en_ofs x + en_len x) (aert_node_key_len (en_type x));
            c \<leftarrow> aert_findch x pkey;
            ret \<leftarrow> aert_scan_search ub fuel c key n ret m;
            aert_scan_append (Suc fuel) (aert_extract_ptr t) (Some pkey) n ret m } } })"

definition aert_scan :: "shifts \<Rightarrow> nat \<Rightarrow> addr \<Rightarrow> key \<Rightarrow> nat \<Rightarrow> emem \<Rightarrow> kv list option" where
  "aert_scan ub fuel t key n m = aert_scan_search ub fuel t key n [] m"

end
