(* ===== verification/Aert_Repr.thy ===== *)
theory Aert_Repr
  imports Aert_Query Art_Repr
begin

text \<open>
  The elastic radix tree as a trie: nodes are projected to those of the radix tree, so that their
  lemmas serve here, and a node of half bytes with its lower halves represents one node of the trie.
\<close>

section \<open>Pointers\<close>

definition aligned :: "addr \<Rightarrow> bool" where
  "aligned t \<longleftrightarrow> t AND 0x1f = 0"

lemma low_bits: "bit (31 :: int) i \<longleftrightarrow> i < 5"
proof -
  have m: "(31 :: int) = mask 5" by (simp add: mask_eq_exp_minus_1)
  show ?thesis unfolding m by (simp only: bit_mask_iff) simp
qed

lemma aligned_iff: "aligned t \<longleftrightarrow> (\<forall>i<5. \<not> bit t i)"
  unfolding aligned_def
proof
  assume "t AND 0x1f = 0"
  then have *: "\<not> bit (t AND 0x1f) i" for i by simp
  show "\<forall>i<5. \<not> bit t i"
  proof (intro allI impI)
    fix i :: nat
    assume "i < 5"
    then have "i < 64" by simp
    with *[of i] \<open>i < 5\<close> show "\<not> bit t i" by (simp add: bit_and_iff low_bits)
  qed
qed (auto simp: bit_eq_iff bit_and_iff low_bits)

lemma extract_embed: "aligned t \<Longrightarrow> aert_extract_ptr (aert_embed_ptr t p) = t"
  unfolding aert_extract_ptr_def aert_embed_ptr_def
  by (rule bit_word_eqI) (auto simp: bit_simps low_bits aligned_iff)

lemma unembed_embed: "aligned t \<Longrightarrow> aert_unembed_ptr (aert_embed_ptr t p) = (t, p AND 0x1f)"
proof -
  assume t: "aligned t"
  have "ucast (aert_embed_ptr t p AND 0x1f) = p AND 0x1f"
    using t unfolding aert_embed_ptr_def by (intro bit_word_eqI) (auto simp: bit_simps low_bits aligned_iff)
  with extract_embed [OF t, of p] show ?thesis by (simp add: aert_unembed_ptr_def aert_extract_ptr_def)
qed

lemma extract_aligned: "aligned t \<Longrightarrow> aert_extract_ptr t = t"
  unfolding aert_extract_ptr_def by (rule bit_word_eqI) (auto simp: bit_simps low_bits aligned_iff)

lemma unembed_aligned: "aligned t \<Longrightarrow> aert_unembed_ptr t = (t, 0)"
  using extract_aligned [of t] by (simp add: aert_unembed_ptr_def aert_extract_ptr_def aligned_def)

lemma embed_not_aligned: "aligned t \<Longrightarrow> p AND 0x1f \<noteq> 0 \<Longrightarrow> \<not> aligned (aert_embed_ptr t p)"
proof
  assume t: "aligned t" "p AND 0x1f \<noteq> 0" "aligned (aert_embed_ptr t p)"
  then have "aert_unembed_ptr (aert_embed_ptr t p) = (aert_embed_ptr t p, 0)" by (intro unembed_aligned)
  with unembed_embed [OF t(1), of p] t(2) show False by simp
qed

section \<open>Bits of a key\<close>

text \<open>Half bytes of a byte.\<close>

lemma mask_bits: "bit (drop_bit (8 - len) (0xff :: 64 word)) i \<longleftrightarrow> i < len" if "len \<le> 8"
proof -
  have m: "(0xff :: 64 word) = mask 8" by (simp add: mask_eq_exp_minus_1)
  show ?thesis using that unfolding m by (auto simp only: bit_drop_bit_eq bit_mask_iff comp_apply) auto
qed

lemma nibble_bits: "bit (15 :: int) i \<longleftrightarrow> i < 4"
proof -
  have m: "(15 :: int) = mask 4" by (simp add: mask_eq_exp_minus_1)
  show ?thesis unfolding m by (simp only: bit_mask_iff) simp
qed

lemma partial_byte: "o' < 8 \<Longrightarrow> aert_partial_key ub k (8 * o') 8 = key_byte k o'"
proof (rule bit_word_eqI)
  fix n assume o: "o' < 8" and "n < LENGTH(8)"
  moreover have "nat (56 - 8 * int o') = 56 - 8 * o'" using o by (simp add: nat_diff_distrib nat_mult_distrib)
  moreover have "bit (0xff :: 64 word) n" using mask_bits [of 8 n] \<open>n < LENGTH(8)\<close> by simp
  ultimately show "bit (aert_partial_key ub k (8 * o') 8) n = bit (key_byte k o') n"
    by (simp add: aert_partial_key_def art_shr_def bit_key_byte bit_and_iff bit_ucast_iff bit_drop_bit_eq)
qed

lemma partial_high: "o' < 8 \<Longrightarrow> aert_partial_key ub k (8 * o') 4 = drop_bit 4 (key_byte k o')"
proof (rule bit_word_eqI)
  fix n assume o: "o' < 8" and n: "n < LENGTH(8)"
  moreover have "nat (60 - 8 * int o') = 60 - 8 * o'" using o by (simp add: nat_diff_distrib nat_mult_distrib)
  moreover have "60 - 8 * o' + n = 56 - 8 * o' + (4 + n)" using o by simp
  moreover have "bit (drop_bit 4 (0xff :: 64 word)) n \<longleftrightarrow> n < 4" using mask_bits [of 4 n] by simp
  ultimately show "bit (aert_partial_key ub k (8 * o') 4) n = bit (drop_bit 4 (key_byte k o')) n"
    by (auto simp: aert_partial_key_def art_shr_def bit_key_byte bit_and_iff bit_ucast_iff bit_drop_bit_eq)
qed

lemma partial_low: "o' < 8 \<Longrightarrow> aert_partial_key ub k (8 * o' + 4) 4 = key_byte k o' AND 0x0f"
proof (rule bit_word_eqI)
  fix n assume o: "o' < 8" and n: "n < LENGTH(8)"
  moreover have "nat (64 - 4 - int (8 * o' + 4)) = 56 - 8 * o'" "0 \<le> 64 - 4 - int (8 * o' + 4)" "64 - 4 - int (8 * o' + 4) < 64" using o by auto
  moreover have "bit (drop_bit 4 (0xff :: 64 word)) n \<longleftrightarrow> n < 4" using mask_bits [of 4 n] by simp
  ultimately show "bit (aert_partial_key ub k (8 * o' + 4) 4) n = bit (key_byte k o' AND 0x0f) n"
    by (auto simp: aert_partial_key_def art_shr_def bit_key_byte bit_and_iff bit_ucast_iff bit_drop_bit_eq nibble_bits)
qed

lemma byte_halves: "(b :: byte) = c \<longleftrightarrow> drop_bit 4 b = drop_bit 4 c \<and> b AND 0x0f = c AND 0x0f"
proof
  assume h: "drop_bit 4 b = drop_bit 4 c \<and> b AND 0x0f = c AND 0x0f"
  have "bit b n = bit c n" for n
  proof (cases "n < 4")
    case True
    have "bit (b AND 0x0f) n = bit (c AND 0x0f) n" using h by simp
    with True show ?thesis by (simp add: bit_and_iff nibble_bits)
  next
    case False
    have "bit (drop_bit 4 b) (n - 4) = bit (drop_bit 4 c) (n - 4)" using h by simp
    with False show ?thesis by (simp add: bit_drop_bit_eq)
  qed
  then show "b = c" by (simp add: bit_eq_iff)
qed simp

section \<open>Matching a prefix\<close>

text \<open>The node of the radix tree, whose offsets count bytes. A node of 16 half bytes has all children by position.\<close>

fun ea_type :: "aert_type \<Rightarrow> art_type" where
  "ea_type ET_NODE4 = AT_NODE4" | "ea_type ET_NODE16 = AT_NODE16" | "ea_type ET_NODEH4 = AT_NODE4"
| "ea_type ET_NODEH16 = AT_NODE256" | "ea_type ET_LEAF = AT_LEAF"

definition ea_node :: "enode \<Rightarrow> anode" where
  "ea_node n = \<lparr>an_ver = en_ver n, an_type = ea_type (en_type n), an_size = en_size n, an_ofs = en_ofs n div 8, an_len = en_len n div 8,
     an_cdf = en_cdf n, an_pfx = en_pfx n, an_val = en_val n, an_keys = en_keys n,
     an_chs = en_chs n @ (if en_type n = ET_NODEH16 then replicate 240 0 else [])\<rparr>"

lemma prefix_mask_byte_bit:
  assumes "0 < l" "o' + l \<le> 8"
  shows "bit (aert_prefix_mask ub (8 * o') (8 * l)) j \<longleftrightarrow> 8 * (8 - l - o') \<le> j \<and> j < 64 - 8 * o'"
proof -
  have n: "nat (64 - 8 * int l) = 64 - 8 * l" "nat (64 - 8 * int l - 8 * int o') = 64 - 8 * l - 8 * o'"
    using assms by (simp_all add: nat_diff_distrib nat_mult_distrib)
  show ?thesis
    using assms by (auto simp: aert_prefix_mask_def art_shl_def art_shr_def n bit_simps)
qed

text \<open>On a node at a byte boundary the match, rounded down to bytes, is the longest common prefix.\<close>

lemma prefix_match_bytes:
  assumes ofs: "en_ofs t = 8 * o'" "en_len t = 8 * l" and le: "o' + l \<le> 8" and pos: "0 < l"
  shows "aert_prefix_match ub t key div 8 = lcp (pfx_bytes (en_pfx t) o' l) (drop o' (key_bytes key))"
proof -
  let ?x = "(key XOR en_pfx t) AND aert_prefix_mask ub (en_ofs t) (en_len t)"
  let ?d = "art_shl ub ?x (int (en_ofs t))"
  have o: "o' < 8" using le pos by simp
  have "nat (int (en_ofs t)) = 8 * o'" using ofs by simp
  then have d: "?d = push_bit (8 * o') ?x" using o ofs by (simp add: art_shl_def)
  have byte: "key_byte ?d i = (if i < l then key_byte key (o' + i) XOR key_byte (en_pfx t) (o' + i) else 0)" if "i < 8" for i
  proof (rule bit_word_eqI)
    fix n assume "n < LENGTH(8)"
    then have n: "n < 8" by simp
    have "8 * (8 - l - o') \<le> 56 - 8 * i + n - 8 * o' \<and> 56 - 8 * i + n - 8 * o' < 64 - 8 * o' \<and> 8 * o' \<le> 56 - 8 * i + n \<longleftrightarrow> i < l"
      using that n le by linarith
    moreover have "56 - 8 * i + n - 8 * o' = 56 - 8 * (o' + i) + n" if "i < l" using that le by (simp add: add_mult_distrib2)
    moreover have "56 - 8 * i + n < 64" using n by simp
    ultimately show "bit (key_byte ?d i) n = bit (if i < l then key_byte key (o' + i) XOR key_byte (en_pfx t) (o' + i) else 0) n"
      using n unfolding d by (auto simp: bit_key_byte bit_push_bit_iff bit_and_iff bit_xor_iff ofs prefix_mask_byte_bit [OF pos le])
  qed
  have eq: "key_byte ?d i = 0 \<longleftrightarrow> key_byte (en_pfx t) (o' + i) = key_byte key (o' + i)" if "i < l" for i
    using byte [of i] that le xor_zero_iff [of "key_byte key (o' + i)" "key_byte (en_pfx t) (o' + i)"] by auto
  have pm: "aert_prefix_match ub t key div 8 = (if ?d = 0 then l else art_clz ?d div 8)"
    by (simp add: aert_prefix_match_def Let_def ofs) presburger
  show ?thesis unfolding pm
  proof (cases "?d = 0")
    case True
    have "lcp (pfx_bytes (en_pfx t) o' l) (drop o' (key_bytes key)) = l"
    proof (rule lcp_eqI)
      show "pfx_bytes (en_pfx t) o' l ! i = drop o' (key_bytes key) ! i" if "i < l" for i
        using eq [OF that] that le True by (simp add: pfx_bytes_nth key_byte_def)
    qed (use le in simp_all)
    with True show "(if ?d = 0 then l else art_clz ?d div 8) = lcp (pfx_bytes (en_pfx t) o' l) (drop o' (key_bytes key))" by simp
  next
    case False
    let ?c = "art_clz ?d div 8"
    have c: "?c < 8" "key_byte ?d ?c \<noteq> 0" "\<And>i. i < ?c \<Longrightarrow> key_byte ?d i = 0" using clz_byte [OF False] by blast+
    then have cl: "?c < l" using byte [OF c(1)] by (auto split: if_splits)
    have "lcp (pfx_bytes (en_pfx t) o' l) (drop o' (key_bytes key)) = ?c"
    proof (rule lcp_eqI)
      show "pfx_bytes (en_pfx t) o' l ! i = drop o' (key_bytes key) ! i" if "i < ?c" for i
        using eq [of i] c(3) [OF that] that cl le by (simp add: pfx_bytes_nth)
      show "?c = length (pfx_bytes (en_pfx t) o' l) \<or> pfx_bytes (en_pfx t) o' l ! ?c \<noteq> drop o' (key_bytes key) ! ?c \<and> ?c < length (drop o' (key_bytes key))"
        using eq [OF cl] c(2) cl le by (simp add: pfx_bytes_nth)
    qed (use cl le in simp_all)
    with False show "(if ?d = 0 then l else art_clz ?d div 8) = lcp (pfx_bytes (en_pfx t) o' l) (drop o' (key_bytes key))" by simp
  qed
qed

lemma nibble_eq: "(x :: byte) AND 0x0f = y AND 0x0f \<longleftrightarrow> (\<forall>j<4. bit x j = bit y j)"
proof
  assume e: "x AND 0x0f = y AND 0x0f"
  show "\<forall>j<4. bit x j = bit y j"
  proof (intro allI impI)
    fix j :: nat
    assume "j < 4"
    moreover have "bit (x AND 0x0f) j = bit (y AND 0x0f) j" by (simp only: e)
    ultimately show "bit x j = bit y j" by (simp add: bit_and_iff nibble_bits)
  qed
next
  assume "\<forall>j<4. bit x j = bit y j"
  then show "x AND 0x0f = y AND 0x0f" by (intro bit_word_eqI) (auto simp: bit_and_iff nibble_bits)
qed

lemma clz_less:
  assumes "n \<le> 64"
  shows "art_clz x < n \<longleftrightarrow> (\<exists>j<n. bit x (63 - j))"
proof -
  let ?L = "rev [0..<64]" and ?P = "\<lambda>i. \<not> bit x i"
  have nth: "?L ! i = 63 - i" if "i < 64" for i using that by (simp add: rev_nth)
  show ?thesis
  proof
    assume c: "art_clz x < n"
    then have "length (takeWhile ?P ?L) < length ?L" using assms by (simp add: art_clz_def)
    from nth_length_takeWhile [OF this] have "bit x (63 - art_clz x)" using nth [of "art_clz x"] c assms by (simp add: art_clz_def)
    with c show "\<exists>j<n. bit x (63 - j)" by blast
  next
    assume "\<exists>j<n. bit x (63 - j)"
    then obtain j where j: "j < n" "bit x (63 - j)" by blast
    show "art_clz x < n"
    proof (rule ccontr)
      assume "\<not> art_clz x < n"
      then have "j < length (takeWhile ?P ?L)" using j(1) by (simp add: art_clz_def)
      then have "?P (takeWhile ?P ?L ! j)" using set_takeWhileD [of _ ?P ?L] by (metis nth_mem)
      moreover have "takeWhile ?P ?L ! j = ?L ! j" by (rule takeWhile_nth) fact
      ultimately have "?P (?L ! j)" by simp
      with j assms nth [of j] show False by simp
    qed
  qed
qed

text \<open>The half byte in a pointer to a node at the byte \<^term>\<open>Suc i\<close>.\<close>

lemma ptr_pfx_match:
  assumes "i < 8"
  shows "aert_ptr_pfx_match ub p (8 * Suc i) k < 4 \<longleftrightarrow> p AND 0x0f \<noteq> key_byte k i AND 0x0f"
proof -
  define M :: "64 word" where "M = push_bit (56 - 8 * i) (ucast p AND 0x0f)"
  define D where "D = push_bit (8 * i + 4) (k XOR M) OR push_bit 59 1"
  have n: "nat (64 - int (8 * Suc i)) = 56 - 8 * i" "nat (int (8 * Suc i) - 4) = 8 * i + 4" by simp_all
  have m: "art_shl ub (ucast p AND 0x0f) (64 - int (8 * Suc i)) = M" unfolding art_shl_def n M_def using assms by simp
  have d: "aert_ptr_pfx_match ub p (8 * Suc i) k = art_clz D"
    unfolding aert_ptr_pfx_match_def Let_def m D_def using assms by (simp add: art_shl_def nat_add_distrib nat_mult_distrib add.commute)
  have "bit D (63 - j) \<longleftrightarrow> bit k (56 - 8 * i + (3 - j)) \<noteq> bit p (3 - j)" if "j < 4" for j
  proof -
    have b: "63 - j - (8 * i + 4) = 56 - 8 * i + (3 - j)" "8 * i + 4 \<le> 63 - j" "56 - 8 * i + (3 - j) < 64" "3 - j < 4"
      using assms that by linarith+
    have "bit M (56 - 8 * i + (3 - j)) = bit p (3 - j)"
      using b(3,4) unfolding M_def by (auto simp: bit_simps nibble_bits)
    moreover have "\<not> bit (push_bit 59 (1 :: 64 word)) (63 - j)" using that by (simp only: bit_push_bit_iff bit_1_iff) simp
    moreover have "bit (push_bit (8 * i + 4) (k XOR M)) (63 - j) \<longleftrightarrow> bit (k XOR M) (63 - j - (8 * i + 4))"
    proof -
      have "63 - j < LENGTH(64)" by simp
      with b(2) show ?thesis by (simp only: bit_push_bit_iff possible_bit_word simp_thms)
    qed
    ultimately show ?thesis unfolding D_def bit_or_iff b(1) bit_xor_iff by blast
  qed
  moreover have four: "(4 :: nat) \<le> 64" by simp
  ultimately have "art_clz D < 4 \<longleftrightarrow> (\<exists>j<4. bit k (56 - 8 * i + (3 - j)) \<noteq> bit p (3 - j))" using clz_less [of 4 D, OF four] by blast
  also have "\<dots> \<longleftrightarrow> (\<exists>j<4. bit k (56 - 8 * i + j) \<noteq> bit p j)"
  proof
    assume "\<exists>j<4. bit k (56 - 8 * i + (3 - j)) \<noteq> bit p (3 - j)"
    then obtain j :: nat where "bit k (56 - 8 * i + (3 - j)) \<noteq> bit p (3 - j)" by blast
    then show "\<exists>j<4. bit k (56 - 8 * i + j) \<noteq> bit p j" by (intro exI [of _ "3 - j"]) simp
  next
    assume "\<exists>j<4. bit k (56 - 8 * i + j) \<noteq> bit p j"
    then obtain j :: nat where "j < 4" "bit k (56 - 8 * i + j) \<noteq> bit p j" by blast
    then show "\<exists>j<4. bit k (56 - 8 * i + (3 - j)) \<noteq> bit p (3 - j)" by (intro exI [of _ "3 - j"]) simp
  qed
  also have "\<dots> \<longleftrightarrow> (\<exists>j<4. bit p j \<noteq> bit (key_byte k i) j)" by (auto simp: bit_key_byte)
  also have "\<dots> \<longleftrightarrow> p AND 0x0f \<noteq> key_byte k i AND 0x0f" unfolding nibble_eq by blast
  finally show ?thesis unfolding d .
qed

section \<open>Marked half bytes\<close>

lemma unat_nibbles: "unat (b :: byte) = unat (drop_bit 4 b) * 16 + unat (b AND 0x0f)"
proof -
  have "b AND 0x0f = take_bit 4 b" by (intro bit_word_eqI) (auto simp: bit_simps nibble_bits)
  then have "unat (b AND 0x0f) = take_bit 4 (unat b)" by (simp only: unsigned_take_bit_eq)
  then have "unat (b AND 0x0f) = unat b mod 16" by (simp add: take_bit_eq_mod)
  moreover have "unat (drop_bit 4 b) = unat b div 16" unfolding unat_drop_bit_eq by (simp add: drop_bit_eq_div)
  ultimately show ?thesis by simp
qed

text \<open>A half byte with the mark, as a pointer keeps it.\<close>

abbreviation marked :: "byte \<Rightarrow> byte" where
  "marked p \<equiv> (p AND 0x0f) OR 0x10"

lemma mark_bit: "bit (16 :: int) i \<longleftrightarrow> i = 4"
  using bit_push_bit_iff [of 4 "1 :: int" i] by (auto simp: bit_1_iff)

lemma marked_bits [simp]:
  "marked p AND 0x1f = marked p" "marked p AND 0x0f = p AND 0x0f" "marked p AND 0x10 \<noteq> 0" "marked p \<noteq> 0"
proof -
  show "marked p AND 0x1f = marked p" by (intro bit_word_eqI) (auto simp: bit_simps nibble_bits low_bits mark_bit)
  show "marked p AND 0x0f = p AND 0x0f" by (intro bit_word_eqI) (auto simp: bit_simps nibble_bits mark_bit)
  have "bit (marked p AND 0x10) 4" "bit (marked p) 4" by (simp_all add: bit_simps mark_bit)
  then show "marked p AND 0x10 \<noteq> 0" "marked p \<noteq> 0" by (metis bit_0_eq bot_apply bot_bool_def)+
qed

lemma embed_marked_not_null: "aligned t \<Longrightarrow> aert_embed_ptr t (marked p) \<noteq> nullptr"
proof
  assume t: "aligned t" and n: "aert_embed_ptr t (marked p) = nullptr"
  have "aert_unembed_ptr nullptr = (nullptr, 0)" by (simp add: aert_unembed_ptr_def)
  with unembed_embed [OF t, of "marked p"] n show False by simp
qed

end
