(* ===== verification/Aert_Find.thy ===== *)
theory Aert_Find
  imports Aert_Repr Art_Query
begin

text \<open>
  Lookups in the elastic radix tree. A memory represents a trie of bytes: a node of bytes stands for
  a node of the trie, and so does a node of half bytes with its lower halves and the half bytes
  embedded in its pointers.
\<close>

section \<open>Tries in memory\<close>

definition half_type :: "aert_type \<Rightarrow> bool" where
  "half_type ty \<longleftrightarrow> ty = ET_NODEH4 \<or> ty = ET_NODEH16"

text \<open>
  Where a slot of an upper half leads for the second half of a byte: the pointer has a half byte in
  it, or it points to a lower half. The upper half ends at the bit \<^term>\<open>ofs\<close>.
\<close>

definition half_slot :: "(addr \<rightharpoonup> enode) \<Rightarrow> nat \<Rightarrow> addr \<Rightarrow> byte \<Rightarrow> addr option \<Rightarrow> bool" where
  "half_slot h ofs p lo r \<longleftrightarrow>
     (\<exists>t l. aligned t \<and> t \<noteq> nullptr \<and> p = aert_embed_ptr t (marked l) \<and> (\<exists>n. h t = Some n \<and> en_ofs n = ofs + 8) \<and>
        r = (if lo = l AND 0x0f then Some t else None)) \<or>
     (aligned p \<and> p \<noteq> nullptr \<and> (\<exists>x ks. h p = Some x \<and> half_type (en_type x) \<and> en_ofs x = ofs + 4 \<and> en_len x = 0 \<and>
        art_kids (ea_node x) ks \<and> r = map_of ks lo))"

text \<open>Where a node leads for a byte.\<close>

definition node_slot :: "(addr \<rightharpoonup> enode) \<Rightarrow> enode \<Rightarrow> byte \<Rightarrow> addr option \<Rightarrow> bool" where
  "node_slot h n b r \<longleftrightarrow>
     (\<exists>ks. art_kids (ea_node n) ks \<and>
        (if half_type (en_type n)
         then (case map_of ks (drop_bit 4 b) of None \<Rightarrow> r = None | Some p \<Rightarrow> half_slot h (en_ofs n + en_len n) p (b AND 0x0f) r)
         else r = map_of ks b))"

definition aert_head :: "enode \<Rightarrow> nat \<Rightarrow> nat \<Rightarrow> byte list \<Rightarrow> bool" where
  "aert_head n ofs l q \<longleftrightarrow> en_ofs n = 8 * ofs \<and> en_len n = 8 * l \<and> ofs + l \<le> 8 \<and> pfx_bytes (en_pfx n) ofs l = q"

fun erepr :: "(addr \<rightharpoonup> enode) \<Rightarrow> nat \<Rightarrow> addr \<Rightarrow> tr \<Rightarrow> bool" where
  "erepr h ofs a (TLeaf k v) =
     (aligned a \<and> a \<noteq> nullptr \<and> (\<exists>n. h a = Some n \<and> en_type n = ET_LEAF \<and> en_pfx n = k \<and> en_val n = v \<and>
        aert_head n ofs (8 - ofs) (drop ofs (key_bytes k))))"
| "erepr h ofs a (TNode q cs) =
     (aligned a \<and> a \<noteq> nullptr \<and> ofs + length q < 8 \<and> ordered cs \<and>
      (\<exists>n. h a = Some n \<and> en_type n \<noteq> ET_LEAF \<and> aert_head n ofs (length q) q \<and>
        (\<exists>g. (\<forall>b. node_slot h n b (g b)) \<and>
             (\<forall>b. case map_of cs b of None \<Rightarrow> g b = None | Some c \<Rightarrow> \<exists>t. g b = Some t \<and> erepr h (Suc (ofs + length q)) t c))))"

section \<open>Finding a child\<close>

lemma ea_node_simps [simp]:
  "an_type (ea_node n) = ea_type (en_type n)" "an_size (ea_node n) = en_size n" "an_keys (ea_node n) = en_keys n"
  "an_chs (ea_node n) = en_chs n @ (if en_type n = ET_NODEH16 then replicate 240 0 else [])"
  by (simp_all add: ea_node_def)

lemma aert_findch_ok:
  assumes "art_kids (ea_node n) ks" "en_type n = ET_NODEH16 \<longrightarrow> unat b < 16"
  shows "aert_findch n b = Some (case map_of ks b of None \<Rightarrow> nullptr | Some a \<Rightarrow> a)"
proof -
  have ok: "anode_ok (ea_node n)" using assms(1) by (simp add: art_kids_def art_shell_def)
  have "aert_findch n b = art_findch (ea_node n) b"
  proof (cases "en_type n")
    case ET_NODE4
    then show ?thesis
      unfolding aert_findch_def art_findch_def aert_node4_findch_def node4_findch_def aert_node4_find_def node4_find_def ea_node_simps
      by simp
  next
    case ET_NODE16
    then show ?thesis
      unfolding aert_findch_def art_findch_def aert_node16_findch_def node16_findch_def aert_node16_find_def node16_find_def
        aert_node16_bits_def node16_bits_def ea_node_simps
      by simp
  next
    case ET_NODEH4
    then show ?thesis
      unfolding aert_findch_def art_findch_def aert_nodeh4_findch_def node4_findch_def aert_nodeh4_find_def node4_find_def ea_node_simps
      by simp
  next
    case ET_NODEH16
    then have "length (en_chs n) = 16" using ok by (simp add: anode_ok_def)
    with ET_NODEH16 assms(2) show ?thesis
      by (simp add: aert_findch_def art_findch_def aert_nodeh16_findch_def node256_findch_def arr_get_def nth_append)
  next
    case ET_LEAF
    then show ?thesis using assms(1) by (simp add: art_kids_def art_shell_def)
  qed
  then show ?thesis using art_findch_ok [OF assms(1)] by simp
qed

lemma unat_halves: "unat (drop_bit 4 (b :: byte)) < 16" "unat (b AND 0x0f) < 16"
proof -
  show "unat (drop_bit 4 b) < 16" unfolding unat_drop_bit_eq using unat_byte [of b] by (simp add: drop_bit_eq_div)
  have "unat b = unat b div 16 * 16 + unat (b AND 0x0f)"
    using unat_nibbles [of b] unfolding unat_drop_bit_eq by (simp add: drop_bit_eq_div)
  then show "unat (b AND 0x0f) < 16" by presburger
qed

section \<open>One step of the loop\<close>

lemma head_match:
  assumes "aert_head n ofs l q"
  shows "aert_prefix_match ub n k div 8 * 8 < en_len n \<longleftrightarrow> take l (drop ofs (key_bytes k)) \<noteq> q"
proof (cases "l = 0")
  case True
  then show ?thesis using assms by (simp add: aert_head_def pfx_bytes_def)
next
  case False
  have h: "en_ofs n = 8 * ofs" "en_len n = 8 * l" "ofs + l \<le> 8" "pfx_bytes (en_pfx n) ofs l = q" using assms by (simp_all add: aert_head_def)
  have q: "length q = l" using h(3,4) by auto
  have m: "aert_prefix_match ub n k div 8 = lcp q (drop ofs (key_bytes k))"
    using prefix_match_bytes [OF h(1-3), of ub k] False h(4) by simp
  have "lcp q (drop ofs (key_bytes k)) * 8 < en_len n \<longleftrightarrow> lcp q (drop ofs (key_bytes k)) \<noteq> length q"
    using lcp_le(1) [of q "drop ofs (key_bytes k)"] h(2) q by auto
  then show ?thesis unfolding m lcp_full_iff [of q] unfolding q .
qed

lemma find_null [simp]: "0 < fuel \<Longrightarrow> aert_find ub fuel nullptr k m = Some None"
  by (cases fuel) simp_all

lemma find_node:
  assumes "aligned a" "a \<noteq> nullptr" "cells m a = Some n" "aert_head n ofs l q"
  shows "aert_find ub (Suc f) a k m =
    (if take l (drop ofs (key_bytes k)) \<noteq> q then Some None
     else if en_type n = ET_LEAF then Some (Some (en_val n))
     else do { c \<leftarrow> aert_findch n (aert_partial_key ub k (en_ofs n + en_len n) (aert_node_key_len (en_type n))); aert_find ub f c k m })"
  using assms(2,3) head_match [OF assms(4), of ub k] by (simp add: unembed_aligned [OF assms(1)] mem_get_def Let_def)

lemma find_through:
  assumes "aligned a" "a \<noteq> nullptr" "cells m a = Some n" "en_ofs n = 8 * Suc i" "i < 8"
  shows "aert_find ub (Suc f) (aert_embed_ptr a (marked l)) k m =
    (if key_byte k i AND 0x0f = l AND 0x0f then aert_find ub (Suc f) a k m else Some None)"
proof -
  have "aert_unembed_ptr (aert_embed_ptr a (marked l)) = (a, marked l)" using unembed_embed [OF assms(1)] by simp
  moreover have "aert_ptr_pfx_match ub (marked l) (en_ofs n) k < 4 \<longleftrightarrow> key_byte k i AND 0x0f \<noteq> l AND 0x0f"
    using ptr_pfx_match [OF assms(5), of ub "marked l" k] assms(4) by auto
  ultimately show ?thesis
    using assms(2,3) embed_marked_not_null [OF assms(1), of l] by (simp add: unembed_aligned [OF assms(1)] mem_get_def Let_def)
qed

section \<open>The loop\<close>

definition slot_find :: "shifts \<Rightarrow> nat \<Rightarrow> addr option \<Rightarrow> key \<Rightarrow> emem \<Rightarrow> val option option" where
  "slot_find ub f r k m = (case r of None \<Rightarrow> Some None | Some t \<Rightarrow> aert_find ub f t k m)"

lemma find_slot: "0 < f \<Longrightarrow> aert_find ub f (case r of None \<Rightarrow> nullptr | Some a \<Rightarrow> a) k m = slot_find ub f r k m"
  by (cases r) (simp_all add: slot_find_def)

text \<open>One or two nodes lead to the subtree for the byte.\<close>

lemma find_half_slot:
  assumes s: "half_slot (cells m) (8 * i) p (key_byte k i AND 0x0f) r" and i: "i < 8" and f: "0 < f"
  shows "\<exists>f' \<in> {f, Suc f}. aert_find ub (Suc f) p k m = slot_find ub f' r k m"
  using s unfolding half_slot_def
proof (elim disjE exE conjE)
  fix t l n
  assume t: "aligned t" "t \<noteq> nullptr" "p = aert_embed_ptr t (marked l)" "cells m t = Some n" "en_ofs n = 8 * i + 8"
    and r: "r = (if key_byte k i AND 0x0f = l AND 0x0f then Some t else None)"
  have "en_ofs n = 8 * Suc i" using t(5) by simp
  from find_through [OF t(1,2,4) this i, of ub f l k] show ?thesis unfolding t(3) r slot_find_def by auto
next
  fix x ks
  assume x: "aligned p" "p \<noteq> nullptr" "cells m p = Some x" "half_type (en_type x)" "en_ofs x = 8 * i + 4" "en_len x = 0"
    and ks: "art_kids (ea_node x) ks" "r = map_of ks (key_byte k i AND 0x0f)"
  have ty: "en_type x \<noteq> ET_LEAF" "aert_node_key_len (en_type x) = 4" using x(4) by (auto simp: half_type_def)
  have "aert_findch x (key_byte k i AND 0x0f) = Some (case r of None \<Rightarrow> nullptr | Some a \<Rightarrow> a)"
    using aert_findch_ok [OF ks(1), of "key_byte k i AND 0x0f"] unat_halves(2) unfolding ks(2) by simp
  then have "aert_find ub (Suc f) p k m = slot_find ub f r k m"
    using x(2,3,5,6) ty partial_low [OF i, of ub k] find_slot [OF f] by (simp add: unembed_aligned [OF x(1)] mem_get_def Let_def)
  then show ?thesis by blast
qed

lemma find_node_slot:
  assumes a: "aligned a" "a \<noteq> nullptr" "cells m a = Some n" "aert_head n ofs (length q) q" "en_type n \<noteq> ET_LEAF" "ofs + length q < 8"
    and s: "node_slot (cells m) n (key_byte k (ofs + length q)) r" and q: "take (length q) (drop ofs (key_bytes k)) = q" and f: "0 < f"
  shows "\<exists>f' \<in> {f, Suc f}. aert_find ub (Suc (Suc f)) a k m = slot_find ub f' r k m"
proof -
  let ?i = "ofs + length q" let ?b = "key_byte k ?i"
  from s obtain ks where ks: "art_kids (ea_node n) ks"
    and r: "if half_type (en_type n)
         then (case map_of ks (drop_bit 4 ?b) of None \<Rightarrow> r = None | Some p \<Rightarrow> half_slot (cells m) (en_ofs n + en_len n) p (?b AND 0x0f) r)
         else r = map_of ks ?b" unfolding node_slot_def by blast
  have pos: "en_ofs n + en_len n = 8 * ?i" using a(4) by (simp add: aert_head_def)
  note step = find_node [OF a(1-4), of ub "Suc f" k] 
  show ?thesis
  proof (cases "half_type (en_type n)")
    case False
    then have ty: "aert_node_key_len (en_type n) = 8" "en_type n \<noteq> ET_NODEH16" using a(5) by (cases "en_type n"; simp add: half_type_def)+
    have "aert_findch n ?b = Some (case r of None \<Rightarrow> nullptr | Some a \<Rightarrow> a)"
      using aert_findch_ok [OF ks, of ?b] ty(2) r False by simp
    then have "aert_find ub (Suc (Suc f)) a k m = slot_find ub (Suc f) r k m"
      unfolding step using q a(5) ty pos partial_byte [OF a(6), of ub k] find_slot [of "Suc f"] by simp
    then show ?thesis by blast
  next
    case True
    then have ty: "aert_node_key_len (en_type n) = 4" by (auto simp: half_type_def)
    have fc: "aert_findch n (drop_bit 4 ?b) = Some (case map_of ks (drop_bit 4 ?b) of None \<Rightarrow> nullptr | Some a \<Rightarrow> a)"
      using aert_findch_ok [OF ks, of "drop_bit 4 ?b"] unat_halves(1) by simp
    have st: "aert_find ub (Suc (Suc f)) a k m = aert_find ub (Suc f) (case map_of ks (drop_bit 4 ?b) of None \<Rightarrow> nullptr | Some a \<Rightarrow> a) k m"
      unfolding step using q a(5) ty pos partial_high [OF a(6), of ub k] fc by simp
    show ?thesis
    proof (cases "map_of ks (drop_bit 4 ?b)")
      case None
      with r True st have "aert_find ub (Suc (Suc f)) a k m = slot_find ub f r k m" by (simp add: slot_find_def del: aert_find.simps)
      then show ?thesis by blast
    next
      case (Some p)
      then have "half_slot (cells m) (8 * ?i) p (?b AND 0x0f) r" using r True pos by simp
      from find_half_slot [OF this a(6) f, of ub] st Some show ?thesis by simp
    qed
  qed
qed

lemma erepr_wf: "erepr h ofs a t \<Longrightarrow> tr_wf ofs t"
proof (induction h ofs a t rule: erepr.induct)
  case (2 h ofs a q cs)
  then obtain g where o: "ofs + length q < 8" "ordered cs"
    and g: "\<forall>b. case map_of cs b of None \<Rightarrow> g b = None | Some c \<Rightarrow> \<exists>t. g b = Some t \<and> erepr h (Suc (ofs + length q)) t c" by auto
  have "tr_wf (Suc (ofs + length q)) c" if "(b, c) \<in> set cs" for b c
  proof -
    have "distinct (map fst cs)" using o(2) by (simp add: strict_sorted_iff)
    then have "map_of cs b = Some c" using that by simp
    with g [rule_format, of b] obtain t where "erepr h (Suc (ofs + length q)) t c" by auto
    with "2.IH" \<open>map_of cs b = Some c\<close> show ?thesis by blast
  qed
  with o show ?case by auto
qed (auto simp: aert_head_def)

lemma aert_find_ok:
  "erepr (cells m) ofs a t \<Longrightarrow> 2 * tr_height t < fuel \<Longrightarrow> aert_find ub fuel a k m = Some (tr_find ofs t k)"
proof (induction "cells m" ofs a t arbitrary: fuel rule: erepr.induct)
  case (1 ofs a k' v)
  then obtain n where n: "aligned a" "a \<noteq> nullptr" "cells m a = Some n" "en_type n = ET_LEAF" "en_val n = v"
    "aert_head n ofs (8 - ofs) (drop ofs (key_bytes k'))" by auto
  obtain f where f: "fuel = Suc f" using 1(2) by (cases fuel) auto
  show ?case unfolding f find_node [OF n(1-3,6)] using n(4,5) by auto
next
  case (2 ofs a q cs)
  then obtain n g where n: "aligned a" "a \<noteq> nullptr" "cells m a = Some n" "aert_head n ofs (length q) q" "en_type n \<noteq> ET_LEAF" "ofs + length q < 8"
    and s: "\<forall>b. node_slot (cells m) n b (g b)"
    and g: "\<forall>b. case map_of cs b of None \<Rightarrow> g b = None | Some c \<Rightarrow> \<exists>t. g b = Some t \<and> erepr (cells m) (Suc (ofs + length q)) t c" by auto
  let ?b = "key_byte k (ofs + length q)"
  have "2 < fuel" using "2.prems"(2) by simp
  then obtain f where f: "fuel = Suc (Suc f)" "0 < f" by (metis Suc_less_eq less_imp_Suc_add numeral_2_eq_2 zero_less_Suc add_Suc)
  show ?case
  proof (cases "take (length q) (drop ofs (key_bytes k)) = q")
    case False
    then show ?thesis unfolding f(1) find_node [OF n(1-4)] by simp
  next
    case True
    from find_node_slot [OF n s [rule_format] True f(2), of ub] obtain f' where
      f': "f' = f \<or> f' = Suc f" "aert_find ub fuel a k m = slot_find ub f' (g ?b) k m" unfolding f(1) by auto
    show ?thesis
    proof (cases "map_of cs ?b")
      case None
      with g [rule_format, of ?b] f'(2) True show ?thesis by (simp add: slot_find_def)
    next
      case (Some c)
      with g [rule_format, of ?b] obtain t where t: "g ?b = Some t" "erepr (cells m) (Suc (ofs + length q)) t c" by auto
      have "tr_height c < tr_height (TNode q cs)" using tr_height_kid [OF map_of_SomeD [OF Some]] .
      then have "2 * tr_height c < f'" using "2.prems"(2) f'(1) f(1) by (auto simp del: tr_height.simps)
      from "2.hyps" [OF Some t(2) this] f'(2) t(1) Some True show ?thesis by (simp add: slot_find_def)
    qed
  qed
qed

end
