(* ===== verification/Aert_Cow.thy ===== *)
theory Aert_Cow
  imports Aert_Query Art_Cow
begin

text \<open>
  Copy on write in the elastic radix tree: \<^verbatim>\<open>context.hpp\<close>, \<^verbatim>\<open>update_cow.hpp\<close> and \<^verbatim>\<open>handlers.hpp\<close> of
  \<^verbatim>\<open>lib/trees/aert\<close>, and the handler table of its adapter.
\<close>

section \<open>The context\<close>

record aert_ctx = art_ctx +
  cx_embed_pfx :: byte

definition aert_SEARCH :: nat where
  "aert_SEARCH = 1"

definition aert_INSERT :: nat where
  "aert_INSERT = 2"

definition aert_FORK :: nat where
  "aert_FORK = 3"

definition aert_SPLIT :: nat where
  "aert_SPLIT = 4"

abbreviation cx_ever :: "'x ctx_scheme \<Rightarrow> 64 word" where
  "cx_ever c \<equiv> ucast (cx_sno c)"

section \<open>\<^verbatim>\<open>update_cow.hpp\<close>\<close>

definition aert_node_fork_cow :: "shifts \<Rightarrow> aert_ctx \<Rightarrow> addr \<Rightarrow> nat \<Rightarrow> emem \<Rightarrow> (addr \<times> aert_ctx \<times> emem) option" where
  "aert_node_fork_cow ub c t_past pmlen m =
     do { (t_par, m) \<leftarrow> aert_new_node ub (cx_ever c) ET_NODE4 (cx_key_ofs c) pmlen (cx_key c) m;
          (t_ch, m) \<leftarrow> aert_node_copy t_past (cx_ever c) m;
          m \<leftarrow> mem_upd m t_ch (\<lambda>n. Some (aert_shift ub (pmlen + 8) n));
          n \<leftarrow> mem_get m t_past;
          let pk0 = aert_partial_key ub (en_pfx n) (en_ofs n + pmlen) 8;
          let c = c\<lparr>cx_key_ofs := cx_key_ofs c + pmlen\<rparr>;
          let pk1 = aert_partial_key ub (cx_key c) (cx_key_ofs c) 8;
          let c = c\<lparr>cx_ch_idx := (if pk0 > pk1 then 1 else 0)\<rparr>;
          m \<leftarrow> mem_upd m t_par (\<lambda>n. do {
                 ks \<leftarrow> arr_set (en_keys n) (cx_ch_idx c) pk0;
                 cs \<leftarrow> arr_set (en_chs n) (cx_ch_idx c) t_ch;
                 ks \<leftarrow> arr_set ks (1 - cx_ch_idx c) pk1;
                 Some (n\<lparr>en_keys := ks, en_chs := cs\<rparr>) });
          (l, m) \<leftarrow> aert_new_leaf ub (cx_ever c) (cx_key_ofs c + 8) (cx_key c) (cx_val c) m;
          m \<leftarrow> mem_upd m t_par (\<lambda>n. do { cs \<leftarrow> arr_set (en_chs n) (1 - cx_ch_idx c) l; Some (n\<lparr>en_chs := cs\<rparr>) });
          Some (t_par, c, m) }"

definition aert_nodeh_fork_cow :: "shifts \<Rightarrow> aert_ctx \<Rightarrow> emem \<Rightarrow> (addr \<times> aert_ctx \<times> emem) option" where
  "aert_nodeh_fork_cow ub c m =
     do { (t_par, m) \<leftarrow> aert_new_node ub (cx_ever c) ET_NODEH4 (cx_key_ofs c) 0 (cx_key c) m;
          let pk0 = ucast (cx_t_past c AND 0x0f);
          let pk1 = aert_partial_key ub (cx_key c) (cx_key_ofs c) 4;
          let c = c\<lparr>cx_ch_idx := (if pk0 > pk1 then 1 else 0)\<rparr>;
          m \<leftarrow> mem_upd m t_par (\<lambda>n. do {
                 ks \<leftarrow> arr_set (en_keys n) (cx_ch_idx c) pk0;
                 cs \<leftarrow> arr_set (en_chs n) (cx_ch_idx c) (cx_t_past c AND NOT 0x1f);
                 ks \<leftarrow> arr_set ks (1 - cx_ch_idx c) pk1;
                 Some (n\<lparr>en_keys := ks, en_chs := cs\<rparr>) });
          (l, m) \<leftarrow> aert_new_leaf ub (cx_ever c) (cx_key_ofs c + 4) (cx_key c) (cx_val c) m;
          m \<leftarrow> mem_upd m t_par (\<lambda>n. do { cs \<leftarrow> arr_set (en_chs n) (1 - cx_ch_idx c) l; Some (n\<lparr>en_chs := cs\<rparr>) });
          Some (t_par, c, m) }"

text \<open>What \<^verbatim>\<open>update_cow\<close> stores through its second argument is a result here, which the callers store.\<close>

definition aert_update_cow :: "shifts \<Rightarrow> aert_ctx \<Rightarrow> emem \<Rightarrow> (nat \<times> addr \<times> aert_ctx \<times> emem) option" where
  "aert_update_cow ub c m =
     (let (t_past, ppfx) = aert_unembed_ptr (cx_t_past c)
      in if t_past = nullptr
         then do {
           (t, m) \<leftarrow> aert_new_leaf ub (cx_ever c) (cx_key_ofs c) (cx_key c) (cx_val c) m;
           Some (conctrl_DONE, t, c, m) }
         else do {
           n \<leftarrow> mem_get m t_past;
           let is_embed = (ppfx AND 0x10 \<noteq> 0);
           if is_embed \<and> aert_ptr_pfx_match ub ppfx (en_ofs n) (cx_key c) < 4
           then do { (t, c, m) \<leftarrow> aert_nodeh_fork_cow ub c m; Some (conctrl_DONE, t, c, m) }
           else do {
             let c = c\<lparr>cx_key_ofs := cx_key_ofs c + (if is_embed then 4 else 0)\<rparr>;
             let pmlen = aert_prefix_match ub n (cx_key c) div 8 * 8;
             if pmlen < en_len n
             then do { (t, c, m) \<leftarrow> aert_node_fork_cow ub c t_past pmlen m; Some (aert_FORK, aert_embed_ptr t ppfx, c, m) }
             else if en_type n = ET_LEAF
             then do { (t, m) \<leftarrow> aert_leaf_update (cx_ever c) t_past (cx_val c) m; Some (conctrl_DONE, aert_embed_ptr t ppfx, c, m) }
             else do {
               let key_len = aert_node_key_len (en_type n);
               let c = c\<lparr>cx_key_ofs := cx_key_ofs c + en_len n\<rparr>;
               let pkey = aert_partial_key ub (cx_key c) (cx_key_ofs c) key_len;
               let c = c\<lparr>cx_key_ofs := cx_key_ofs c + key_len\<rparr>;
               idx \<leftarrow> aert_find_idx n pkey;
               case idx of
                 Some idx \<Rightarrow> do {
                   (t, m) \<leftarrow> aert_node_copy t_past (cx_ever c) m;
                   Some (aert_SEARCH, aert_embed_ptr t ppfx, c\<lparr>cx_ch_idx := idx\<rparr>, m) }
               | None \<Rightarrow>
                   if en_size n = 16
                   then do {
                     (t, m) \<leftarrow> aert_create_upper_half ub t_past (cx_ever c) pkey m;
                     Some (aert_SPLIT, aert_embed_ptr t ppfx, c, m) }
                   else do {
                     (t, i, m) \<leftarrow> (if aert_is_full n then aert_extend_append ub t_past (cx_ever c) pkey m
                                  else aert_copy_append t_past (cx_ever c) pkey m);
                     Some (aert_INSERT, aert_embed_ptr t ppfx, c\<lparr>cx_ch_idx := i\<rparr>, m) } } } })"

section \<open>\<^verbatim>\<open>handlers.hpp\<close>\<close>

definition aert_handle_init :: "shifts \<Rightarrow> aert_ctx \<Rightarrow> emem \<Rightarrow> (nat \<times> aert_ctx \<times> emem) option" where
  "aert_handle_init ub c m =
     do { (op', t, c, m) \<leftarrow> aert_update_cow ub (c\<lparr>cx_key_ofs := 0\<rparr>) m;
          Some (op', c\<lparr>cx_root := t, cx_t_cur := t\<rparr>, m) }"

definition aert_handle_search :: "shifts \<Rightarrow> aert_ctx \<Rightarrow> emem \<Rightarrow> (nat \<times> aert_ctx \<times> emem) option" where
  "aert_handle_search ub c m =
     do { let t_cur = aert_extract_ptr (cx_t_cur c);
          cur \<leftarrow> mem_get m t_cur;
          past \<leftarrow> mem_get m (cx_t_past c);
          cur \<leftarrow> aert_copych cur past;
          m \<leftarrow> mem_upd m t_cur (\<lambda>_. Some cur);
          pos \<leftarrow> aert_getch past (cx_ch_idx c);
          t_past \<leftarrow> arr_get (en_chs past) pos;
          t_cur_next \<leftarrow> aert_getch cur (cx_ch_idx c);
          (op', t, c, m) \<leftarrow> aert_update_cow ub (c\<lparr>cx_t_past := t_past\<rparr>) m;
          m \<leftarrow> aert_set_slot t_cur t_cur_next t m;
          let (t_past, embed_pfx) = aert_unembed_ptr (cx_t_past c);
          Some (op', c\<lparr>cx_t_cur := t, cx_t_past := t_past, cx_embed_pfx := embed_pfx\<rparr>, m) }"

text \<open>Here \<^verbatim>\<open>ctx->t_cur\<close> is used as it is, with the half byte that may be in it.\<close>

definition aert_handle_split :: "shifts \<Rightarrow> aert_ctx \<Rightarrow> emem \<Rightarrow> (nat \<times> aert_ctx \<times> emem) option" where
  "aert_handle_split ub c m =
     do { past \<leftarrow> mem_get m (cx_t_past c);
          m \<leftarrow> aert_move_children (cx_t_cur c) past [0..<en_size past] m;
          (t_leaf, m) \<leftarrow> aert_new_leaf ub (cx_ever c) (cx_key_ofs c) (cx_key c) (cx_val c) m;
          let pkey = aert_partial_key ub (cx_key c) (cx_key_ofs c - 8) 8;
          m \<leftarrow> aert_create_lower_half (cx_t_cur c) t_leaf pkey m;
          Some (conctrl_DONE, c, m) }"

definition aert_handle_insert :: "shifts \<Rightarrow> aert_ctx \<Rightarrow> emem \<Rightarrow> (nat \<times> aert_ctx \<times> emem) option" where
  "aert_handle_insert ub c m =
     do { let t_cur = aert_extract_ptr (cx_t_cur c);
          cur \<leftarrow> mem_get m t_cur;
          past \<leftarrow> mem_get m (cx_t_past c);
          cur \<leftarrow> aert_copych_at cur past (cx_ch_idx c);
          m \<leftarrow> mem_upd m t_cur (\<lambda>_. Some cur);
          ch \<leftarrow> aert_getch cur (cx_ch_idx c);
          if cx_key_ofs c mod 8 = 0
          then do {
            (l, m) \<leftarrow> aert_new_leaf ub (cx_ever c) (cx_key_ofs c) (cx_key c) (cx_val c) m;
            m \<leftarrow> aert_set_slot t_cur ch l m;
            Some (conctrl_DONE, c, m) }
          else do {
            (l, m) \<leftarrow> aert_new_leaf ub (cx_ever c) (cx_key_ofs c + 4) (cx_key c) (cx_val c) m;
            m \<leftarrow> aert_set_slot t_cur ch (aert_embed_ptr l (aert_partial_key ub (cx_key c) (cx_key_ofs c) 4 OR 0x10)) m;
            Some (conctrl_DONE, c, m) } }"

definition aert_handle_fork :: "aert_ctx \<Rightarrow> emem \<Rightarrow> (nat \<times> aert_ctx \<times> emem) option" where
  "aert_handle_fork c m =
     do { par \<leftarrow> mem_get m (aert_extract_ptr (cx_t_cur c));
          t \<leftarrow> arr_get (en_chs par) (cx_ch_idx c);
          let c = c\<lparr>cx_t_cur := t\<rparr>;
          cur \<leftarrow> mem_get m (aert_extract_ptr (cx_t_cur c));
          past \<leftarrow> mem_get m (cx_t_past c);
          cur \<leftarrow> aert_copych cur past;
          m \<leftarrow> mem_upd m (aert_extract_ptr (cx_t_cur c)) (\<lambda>_. Some cur);
          Some (conctrl_DONE, c, m) }"

text \<open>\<^verbatim>\<open>interface::handlers\<close> of \<^verbatim>\<open>src/adapters/aert.hpp\<close>.\<close>

definition aert_handlers :: "shifts \<Rightarrow> (aert_ctx, emem) handlers" where
  "aert_handlers ub op' =
     (if op' = conctrl_INIT then aert_handle_init ub
      else if op' = aert_SEARCH then aert_handle_search ub
      else if op' = aert_INSERT then aert_handle_insert ub
      else if op' = aert_FORK then aert_handle_fork
      else if op' = aert_SPLIT then aert_handle_split ub
      else (\<lambda>c m. None))"

end
