(* ===== verification/Aert_Correct.thy ===== *)
theory Aert_Correct
  imports Aert_Find Aert_Cow Returns
begin

text \<open>
  Properties of the elastic radix tree: the half byte in a pointer, and the two places in which the
  code does not reckon with it.
\<close>

section \<open>Pointers\<close>

text \<open>
  A pointer to an aligned node keeps a half byte and its mark in its low bits: taking it apart
  gives the node and these five bits back.
\<close>

theorem aert_embed_roundtrip:
  assumes "aligned t"
  shows "aert_unembed_ptr (aert_embed_ptr t p) = (t, p AND 0x1f) \<and> aert_extract_ptr (aert_embed_ptr t p) = t"
  using assms by (simp add: unembed_embed extract_embed)

theorem aert_embed_roundtrip_witness:
  "aert_unembed_ptr (aert_embed_ptr 0x1240 0x1b) = (0x1240, 0x1b) \<and> aert_extract_ptr (aert_embed_ptr 0x1240 0x1b) = 0x1240"
  using aert_embed_roundtrip [of "0x1240" "0x1b"] by (simp add: aligned_def)

section \<open>Lookup\<close>

text \<open>
  C29. A lookup (\<^verbatim>\<open>find\<close>) answers from the represented map: the matches of prefixes, the half bytes in
  pointers and the upper and lower halves of nodes together are the lookup in the trie of bytes. Two
  nodes are visited per byte at most, so 17 rounds of the loop are enough.
\<close>

theorem aert_find_correct:
  assumes "erepr (cells m) 0 a t"
  shows "aert_find ub 17 a k m = Some (map_of (tr_map t) k)"
proof -
  have wf: "tr_wf 0 t" by (rule erepr_wf [OF assms])
  then have "2 * tr_height t < 17" using tr_height_wf [of 0 t] by simp
  from aert_find_ok [OF assms this] tr_map_find [OF wf] show ?thesis by simp
qed

text \<open>
  The keys \<^verbatim>\<open>0x11...\<close>, \<^verbatim>\<open>0x21...\<close> and \<^verbatim>\<open>0x23...\<close> below an upper half: the first behind an embedded half
  byte, the others in a lower half.
\<close>

definition find_demo_leaf :: "key \<Rightarrow> val \<Rightarrow> enode" where
  "find_demo_leaf k v = \<lparr>en_ver = 0, en_type = ET_LEAF, en_size = 1, en_ofs = 8, en_len = 56, en_cdf = 0, en_pfx = k, en_val = v,
     en_keys = [], en_chs = []\<rparr>"

definition find_demo_half :: "nat \<Rightarrow> byte \<Rightarrow> addr \<Rightarrow> byte \<Rightarrow> addr \<Rightarrow> enode" where
  "find_demo_half ofs b p c q = \<lparr>en_ver = 0, en_type = ET_NODEH4, en_size = 2, en_ofs = ofs, en_len = 0, en_cdf = 0, en_pfx = 0, en_val = 0,
     en_keys = [b, c, 0, 0], en_chs = [p, q, 0, 0]\<rparr>"

definition find_demo_mem :: emem where
  "find_demo_mem = \<lparr>cells = [0x40 \<mapsto> find_demo_half 0 1 (aert_embed_ptr 0x80 (marked 1)) 2 0xc0,
     0x80 \<mapsto> find_demo_leaf 0x1100000000000000 5, 0xc0 \<mapsto> find_demo_half 4 1 0x100 3 0x140,
     0x100 \<mapsto> find_demo_leaf 0x2100000000000000 6, 0x140 \<mapsto> find_demo_leaf 0x2300000000000000 7], blocks = []\<rparr>"

lemma find_demo_kids: "b < c \<Longrightarrow> p \<noteq> nullptr \<Longrightarrow> q \<noteq> nullptr \<Longrightarrow> art_kids (ea_node (find_demo_half ofs b p c q)) [(b, p), (c, q)]"
  by (auto simp: art_kids_def art_shell_def anode_ok_def art_pos_def byte_idx_def find_demo_half_def)

lemma find_demo_leaf_ok:
  assumes "cells find_demo_mem a = Some (find_demo_leaf k v)" "aligned a" "a \<noteq> nullptr"
  shows "erepr (cells find_demo_mem) 1 a (TLeaf k v)"
  using assms by (simp add: find_demo_leaf_def aert_head_def pfx_bytes_def)

definition find_demo_tr :: tr where
  "find_demo_tr = TNode [] [(0x11, TLeaf 0x1100000000000000 5), (0x21, TLeaf 0x2100000000000000 6), (0x23, TLeaf 0x2300000000000000 7)]"

definition find_demo_slot :: "byte \<Rightarrow> addr option" where
  "find_demo_slot b = (if b = 0x11 then Some 0x80 else if b = 0x21 then Some 0x100 else if b = 0x23 then Some 0x140 else None)"

lemma find_demo_bytes:
  "(b :: byte) = 0x11 \<longleftrightarrow> drop_bit 4 b = 1 \<and> b AND 0x0f = 1"
  "b = 0x21 \<longleftrightarrow> drop_bit 4 b = 2 \<and> b AND 0x0f = 1"
  "b = 0x23 \<longleftrightarrow> drop_bit 4 b = 2 \<and> b AND 0x0f = 3"
  by (simp_all add: byte_halves [of b "0x11"] byte_halves [of b "0x21"] byte_halves [of b "0x23"] drop_bit_eq_div)

lemma find_demo_slots: "node_slot (cells find_demo_mem) (find_demo_half 0 1 (aert_embed_ptr 0x80 (marked 1)) 2 0xc0) b (find_demo_slot b)"
proof -
  let ?ks = "[(1, aert_embed_ptr 0x80 (marked 1)), (2, 0xc0)]"
  have ks: "art_kids (ea_node (find_demo_half 0 1 (aert_embed_ptr 0x80 (marked 1)) 2 0xc0)) ?ks"
    by (rule find_demo_kids) (simp_all add: aert_embed_ptr_def)
  have lo: "art_kids (ea_node (find_demo_half 4 1 0x100 3 0x140)) [(1, 0x100), (3, 0x140)]" by (rule find_demo_kids) simp_all
  have one: "half_slot (cells find_demo_mem) 0 (aert_embed_ptr 0x80 (marked 1)) (b AND 0x0f) (find_demo_slot b)" if "drop_bit 4 b = 1"
    unfolding half_slot_def
    by (rule disjI1, rule exI [of _ "0x80"], rule exI [of _ 1])
       (use that in \<open>simp add: aligned_def find_demo_mem_def find_demo_leaf_def find_demo_slot_def find_demo_bytes\<close>)
  have two: "half_slot (cells find_demo_mem) 0 0xc0 (b AND 0x0f) (find_demo_slot b)" if "drop_bit 4 b = 2"
    unfolding half_slot_def
    by (rule disjI2, intro conjI exI [of _ "find_demo_half 4 1 0x100 3 0x140"] exI [of _ "[(1, 0x100), (3, 0x140)]"] lo)
       (use that in \<open>simp_all add: aligned_def find_demo_mem_def find_demo_half_def half_type_def find_demo_slot_def find_demo_bytes\<close>)
  have "case map_of ?ks (drop_bit 4 b) of None \<Rightarrow> find_demo_slot b = None | Some p \<Rightarrow> half_slot (cells find_demo_mem) 0 p (b AND 0x0f) (find_demo_slot b)"
    using one two by (auto simp: find_demo_slot_def find_demo_bytes)
  moreover have "half_type (en_type (find_demo_half 0 1 (aert_embed_ptr 0x80 (marked 1)) 2 0xc0))"
    "en_ofs (find_demo_half 0 1 (aert_embed_ptr 0x80 (marked 1)) 2 0xc0) + en_len (find_demo_half 0 1 (aert_embed_ptr 0x80 (marked 1)) 2 0xc0) = 0"
    by (simp_all add: find_demo_half_def half_type_def)
  ultimately show ?thesis unfolding node_slot_def by (intro exI [of _ ?ks] conjI ks) (simp only: if_True)
qed

lemma find_demo_repr: "erepr (cells find_demo_mem) 0 0x40 find_demo_tr"
proof -
  let ?n = "find_demo_half 0 1 (aert_embed_ptr 0x80 (marked 1)) 2 0xc0"
  have n: "cells find_demo_mem 0x40 = Some ?n" "en_type ?n \<noteq> ET_LEAF" "aert_head ?n 0 0 []"
    by (simp_all add: find_demo_mem_def find_demo_half_def aert_head_def pfx_bytes_def)
  have l: "erepr (cells find_demo_mem) 1 0x80 (TLeaf 0x1100000000000000 5)" "erepr (cells find_demo_mem) 1 0x100 (TLeaf 0x2100000000000000 6)"
    "erepr (cells find_demo_mem) 1 0x140 (TLeaf 0x2300000000000000 7)"
    by (rule find_demo_leaf_ok; simp add: find_demo_mem_def aligned_def)+
  have kids: "case map_of [(0x11, TLeaf 0x1100000000000000 5), (0x21, TLeaf 0x2100000000000000 6), (0x23, TLeaf 0x2300000000000000 7)] b of
      None \<Rightarrow> find_demo_slot b = None | Some c \<Rightarrow> \<exists>t. find_demo_slot b = Some t \<and> erepr (cells find_demo_mem) (Suc (0 + length ([] :: byte list))) t c" for b
    using l by (simp add: find_demo_slot_def del: erepr.simps)
  have "aert_head ?n 0 (length ([] :: byte list)) []" using n(3) by simp
  with n(1,2) show ?thesis
    unfolding find_demo_tr_def erepr.simps(2)
    by (intro conjI exI [of _ ?n] exI [of _ find_demo_slot] allI kids find_demo_slots) (assumption | simp add: aligned_def)+
qed

theorem aert_find_correct_witness:
  "aert_find (\<lambda>_ _ _. 0) 17 0x40 0x1100000000000000 find_demo_mem = Some (Some 5) \<and>
   aert_find (\<lambda>_ _ _. 0) 17 0x40 0x2300000000000000 find_demo_mem = Some (Some 7) \<and>
   aert_find (\<lambda>_ _ _. 0) 17 0x40 0x1300000000000000 find_demo_mem = Some None"
proof -
  have b: "key_bytes 0x1100000000000000 = [0x11, 0, 0, 0, 0, 0, 0, 0]" "key_bytes 0x2100000000000000 = [0x21, 0, 0, 0, 0, 0, 0, 0]"
    "key_bytes 0x2300000000000000 = [0x23, 0, 0, 0, 0, 0, 0, 0]"
    by (simp_all add: key_bytes_expand key_byte_def drop_bit_eq_div)
  have "tr_map find_demo_tr = [(0x1100000000000000, 5), (0x2100000000000000, 6), (0x2300000000000000, 7)]"
    by (simp add: tr_map_def find_demo_tr_def b bytes_key_def)
  with aert_find_correct [OF find_demo_repr, of "\<lambda>_ _ _. 0"] show ?thesis by simp
qed

section \<open>Memory with aligned blocks\<close>

definition aligned_mem :: "emem \<Rightarrow> bool" where
  "aligned_mem m \<longleftrightarrow> (\<forall>a \<in> dom (cells m). aligned a) \<and> (\<forall>b \<in> set (blocks m). aligned (fst b))"

lemma aligned_upd: "aligned_mem m \<Longrightarrow> returns aligned_mem (mem_upd m a f)"
  by (auto simp: returns_def mem_upd_def aligned_mem_def bind_eq_Some_conv split: if_splits)

lemma aligned_alloc: "aligned_mem m \<Longrightarrow> returns (\<lambda>(t, m'). aligned t \<and> aligned_mem m') (mem_alloc m)"
  by (auto simp: returns_def mem_alloc_def aligned_mem_def split: list.splits prod.splits)

lemma aligned_new_node: "aligned_mem m \<Longrightarrow> returns (\<lambda>(t, m'). aligned t \<and> aligned_mem m') (aert_new_node ub ver ty ofs len key m)"
  unfolding aert_new_node_def
  by (rule returns_bind_with [OF aligned_alloc], assumption, rule returns_prod, rule returns_bind_with [OF aligned_upd], simp, rule returns_Some) simp

lemma aligned_new_nodeh: "aligned_mem m \<Longrightarrow> returns (\<lambda>(t, m'). aligned t \<and> aligned_mem m') (aert_new_nodeh ub ver sz ofs len key m)"
  unfolding aert_new_nodeh_def
  by (rule returns_bind_with [OF aligned_new_node], assumption, rule returns_prod, rule returns_bind_with [OF aligned_upd], simp, rule returns_Some) simp

lemma aligned_new_leaf: "aligned_mem m \<Longrightarrow> returns (\<lambda>(t, m'). aligned_mem m') (aert_new_leaf ub ver ofs key val m)"
  unfolding aert_new_leaf_def
  by (rule returns_if; rule returns_bind_with [OF aligned_new_node], assumption, rule returns_prod, rule returns_bind_with [OF aligned_upd], simp, rule returns_Some) simp_all

lemma aligned_set_slot: "aligned_mem m \<Longrightarrow> returns aligned_mem (aert_set_slot t pos ch m)"
  unfolding aert_set_slot_def by (rule aligned_upd)

lemma aligned_lower_halves: "aligned_mem m \<Longrightarrow> returns aligned_mem (aert_lower_halves ub ver ch_sz ofs t_uh idxs m)"
proof (induction idxs arbitrary: m)
  case (Cons idx idxs)
  have "returns aligned_mem (do {
           uh \<leftarrow> mem_get m t_uh;
           (uh, i) \<leftarrow> aert_append uh (of_nat idx);
           m \<leftarrow> mem_upd m t_uh (\<lambda>_. Some uh);
           pos \<leftarrow> aert_getch uh i;
           (t_lh, m) \<leftarrow> aert_new_nodeh ub ver c ofs 0 0 m;
           aert_set_slot t_uh pos t_lh m })" (is "returns _ (?half c)") for c
    by (rule returns_bind, rule returns_bind, rule returns_prod, rule returns_bind_with [OF aligned_upd], rule Cons.prems,
        rule returns_bind, rule returns_bind_with [OF aligned_new_nodeh], assumption, rule returns_prod, rule aligned_set_slot) simp
  then have "returns aligned_mem (if c > 1 then ?half c else Some m)" for c using Cons.prems by (simp add: returns_Some)
  from returns_bind_with [OF this Cons.IH] show ?case unfolding aert_lower_halves.simps by (rule returns_bind)
qed (simp add: returns_Some)

lemma aligned_upper_half: "aligned_mem m \<Longrightarrow> returns (\<lambda>(t, m'). aligned t \<and> aligned_mem m') (aert_create_upper_half ub t_old ver pkey m)"
  unfolding aert_create_upper_half_def Let_def
  by (rule returns_bind, rule returns_bind, rule returns_bind, rule returns_bind, rule returns_bind_with [OF aligned_new_nodeh], assumption, rule returns_prod,
      rule returns_bind_with [OF aligned_lower_halves], simp, rule returns_Some) simp

lemmas operands_distinct = conctrl_DONE_def aert_FORK_def aert_SEARCH_def aert_INSERT_def aert_SPLIT_def

text \<open>Nothing is stored in a node through a pointer that is not one.\<close>

lemma create_lower_half_dangling: "cells m t = None \<Longrightarrow> aert_create_lower_half t ch k m = None"
  by (simp add: aert_create_lower_half_def mem_get_def)

lemma move_children_dangling:
  assumes "cells m t = None"
  shows "aert_move_children t n idxs m = (if idxs = [] then Some m else None)"
proof (cases idxs)
  case (Cons idx idxs')
  with create_lower_half_dangling [OF assms] show ?thesis by (simp add: bind_eq_None_conv)
qed simp

section \<open>The split of a node below an embedded pointer\<close>

definition split_result :: "aert_ctx \<Rightarrow> nat \<times> addr \<times> aert_ctx \<times> emem \<Rightarrow> bool" where
  "split_result c = (\<lambda>(op', t, c', m'). op' = aert_SPLIT \<longrightarrow>
     aligned_mem m' \<and> cx_t_past c' = cx_t_past c \<and> (\<exists>t0. aligned t0 \<and> t = aert_embed_ptr t0 (snd (aert_unembed_ptr (cx_t_past c)))))"

lemma split_resultI: "op' \<noteq> aert_SPLIT \<Longrightarrow> returns (split_result c) (Some (op', x))"
  by (cases x) (simp add: split_result_def returns_def)

lemmas not_split = split_resultI [of conctrl_DONE] split_resultI [of aert_FORK] split_resultI [of aert_SEARCH] split_resultI [of aert_INSERT]

lemma update_cow_split: "aligned_mem m \<Longrightarrow> returns (split_result c) (aert_update_cow ub c m)"
  unfolding aert_update_cow_def Let_def
  apply (rule returns_prod, rule returns_if)
  apply (intro returns_bind returns_prod not_split; simp add: operands_distinct)
  apply (rule returns_bind, rule returns_if)
  apply (intro returns_bind returns_prod not_split; simp add: operands_distinct)
  apply (rule returns_if)
  apply (intro returns_bind returns_prod not_split; simp add: operands_distinct)
  apply (rule returns_if)
  apply (intro returns_bind returns_prod not_split; simp add: operands_distinct)
  apply (rule returns_bind, rule returns_option, rule returns_if)
  apply (rule returns_bind_with [OF aligned_upper_half], assumption, rule returns_prod, rule returns_Some, force simp: split_result_def)
  apply (rule returns_bind, rule returns_prod, rule returns_prod, rule not_split, simp add: operands_distinct)
  apply (intro returns_bind returns_prod not_split; simp add: operands_distinct)
  done

definition split_ctx :: "nat \<times> aert_ctx \<times> emem \<Rightarrow> bool" where
  "split_ctx = (\<lambda>(op', c, m). op' = aert_SPLIT \<longrightarrow>
     aligned_mem m \<and> (\<exists>t0. aligned t0 \<and> cx_t_cur c = aert_embed_ptr t0 (cx_embed_pfx c)))"

lemma store_split:
  assumes "split_result c (op', t, c', m)"
  shows "returns split_ctx (do { m \<leftarrow> aert_set_slot a pos t m;
     let (t_past, embed_pfx) = aert_unembed_ptr (cx_t_past c');
     Some (op', c'\<lparr>cx_t_cur := t, cx_t_past := t_past, cx_embed_pfx := embed_pfx\<rparr>, m) })"
proof (cases "op' = aert_SPLIT")
  case True
  obtain tp e where e: "aert_unembed_ptr (cx_t_past c') = (tp, e)" by force
  from assms True e have "aligned_mem m" "\<exists>t0. aligned t0 \<and> t = aert_embed_ptr t0 e" by (auto simp: split_result_def)
  then show ?thesis
    unfolding e Let_def by (auto intro!: returns_bind_with [OF aligned_set_slot] returns_Some simp: split_ctx_def)
next
  case False
  then show ?thesis unfolding Let_def by (intro returns_steps) (simp add: split_ctx_def)
qed

text \<open>
  C30. A split below an embedded pointer: whenever \<^verbatim>\<open>handle_search\<close> asks for a split of a node that it
  reached through a pointer with a half byte in it, \<^verbatim>\<open>handle_split\<close> dereferences \<^verbatim>\<open>ctx->t_cur\<close> with that
  half byte, an address at which no node is.
\<close>

theorem aert_split_faults:
  assumes m: "\<forall>a \<in> dom (cells m). aligned a" "\<forall>b \<in> set (blocks m). aligned (fst b)"
    and s: "aert_handle_search ub c m = Some (aert_SPLIT, c', m')" and e: "cx_embed_pfx c' AND 0x10 \<noteq> 0"
  shows "aert_handle_split ub c' m' = None"
proof -
  have al: "aligned_mem m" using m by (simp add: aligned_mem_def)
  have "returns split_ctx (aert_handle_search ub c m)"
    unfolding aert_handle_search_def Let_def
    by (rule returns_bind, rule returns_bind, rule returns_bind, rule returns_bind_with [OF aligned_upd], rule al,
        rule returns_bind, rule returns_bind, rule returns_bind, rule returns_bind_with [OF update_cow_split], assumption,
        rule returns_prod, rule returns_prod, rule returns_prod, rule store_split [unfolded Let_def], simp)
  then have a: "aligned_mem m'" and "\<exists>t0. aligned t0 \<and> cx_t_cur c' = aert_embed_ptr t0 (cx_embed_pfx c')"
    using s by (auto simp: returns_def split_ctx_def)
  then obtain t0 where t0: "aligned t0" "cx_t_cur c' = aert_embed_ptr t0 (cx_embed_pfx c')" by blast
  have "cx_embed_pfx c' AND 0x1f \<noteq> 0" 
  proof
    assume "cx_embed_pfx c' AND 0x1f = 0"
    then have "(cx_embed_pfx c' AND 0x1f) AND 0x10 = 0" by simp
    with e show False by (simp add: and.assoc)
  qed
  then have "\<not> aligned (cx_t_cur c')" using embed_not_aligned [OF t0(1)] t0(2) by simp
  then have none: "cells m'' (cx_t_cur c') = None" if "aligned_mem m''" for m'' using that by (auto simp: aligned_mem_def)
  have "returns (\<lambda>_. False) (aert_handle_split ub c' m')"
    unfolding aert_handle_split_def Let_def
    by (rule returns_bind, rule returns_bind_with [where Q = aligned_mem], simp add: move_children_dangling [OF none [OF a]] returns_Some returns_None a,
        rule returns_bind_with [OF aligned_new_leaf], assumption, rule returns_prod)
       (simp add: create_lower_half_dangling [OF none] returns_None)
  then show ?thesis by (cases "aert_handle_split ub c' m'") (auto simp: returns_def)
qed

text \<open>A root with one child, a full node of 16 bytes behind the half byte \<^verbatim>\<open>0xf\<close>.\<close>

definition split_demo_node :: "aert_type \<Rightarrow> nat \<Rightarrow> byte list \<Rightarrow> addr list \<Rightarrow> enode" where
  "split_demo_node ty ofs ks cs = \<lparr>en_ver = 0, en_type = ty, en_size = (if ty = ET_NODE16 then 16 else 2), en_ofs = ofs, en_len = 0,
     en_cdf = 0, en_pfx = 0, en_val = 0, en_keys = ks, en_chs = cs\<rparr>"

definition split_demo_mem :: emem where
  "split_demo_mem =
     (let par = split_demo_node ET_NODEH4 0 [0, 1, 0, 0] [0x9f, 0xc0, 0, 0]
      in \<lparr>cells = [0x40 \<mapsto> par, 0x100 \<mapsto> par, 0x80 \<mapsto> split_demo_node ET_NODE16 8 (map of_nat [0..<16]) (replicate 16 0xc0)],
           blocks = [(0x200, par), (0x300, par), (0x400, par)]\<rparr>)"

definition split_demo_ctx :: aert_ctx where
  "split_demo_ctx = \<lparr>cx_op = aert_SEARCH, cx_retry = False, cx_wait_child = False, cx_wait_subtree = False,
     cx_new_checkpoint = False, cx_sno = 1, cx_cno = 0, cx_root = 0x100, cx_t_cur = 0x100, cx_t_past = 0x40,
     cx_key = 0x0f10000000000000, cx_val = 5, cx_key_ofs = 4, cx_ch_idx = 0, cx_embed_pfx = 0\<rparr>"

lemma split_demo_search:
  "map_option (\<lambda>(op', c, m). (op', cx_embed_pfx c AND 0x10 \<noteq> 0)) (aert_handle_search (\<lambda>_ _ _. 0) split_demo_ctx split_demo_mem) = Some (aert_SPLIT, True)"
  by code_simp

theorem aert_split_faults_witness:
  "\<exists>c' m'. aert_handle_search (\<lambda>_ _ _. 0) split_demo_ctx split_demo_mem = Some (aert_SPLIT, c', m') \<and>
     aert_handle_split (\<lambda>_ _ _. 0) c' m' = None"
proof -
  from split_demo_search obtain c' m' where
    s: "aert_handle_search (\<lambda>_ _ _. 0) split_demo_ctx split_demo_mem = Some (aert_SPLIT, c', m')" "cx_embed_pfx c' AND 0x10 \<noteq> 0" by auto
  have "\<forall>a \<in> dom (cells split_demo_mem). aligned a" "\<forall>b \<in> set (blocks split_demo_mem). aligned (fst b)"
    by (simp_all add: split_demo_mem_def Let_def aligned_def)
  from aert_split_faults [OF this s] s(1) show ?thesis by blast
qed

section \<open>A scan that meets an embedded half byte\<close>

lemma nibble_less: "drop_bit 4 (b :: byte) = drop_bit 4 c \<Longrightarrow> b AND 0x0f < c AND 0x0f \<Longrightarrow> b < c"
  unfolding word_less_nat_alt unat_nibbles [of b] unat_nibbles [of c] by simp

lemma key_less_first:
  assumes "key_byte k 0 < key_byte k' 0"
  shows "k < k'"
proof -
  have "key_bytes k < key_bytes k'" using assms by (simp add: key_bytes_expand)
  then show ?thesis using bytes_key_less [of "key_bytes k" "key_bytes k'"] by simp
qed

lemma scan_embedded_leaf:
  assumes t: "aligned t" "cells m t = Some x" and x: "en_type x = ET_LEAF" "en_ofs x = 8 * Suc i" "i < 7"
    and d: "p AND 0x0f \<noteq> key_byte key i AND 0x0f" and h: "drop_bit 4 (key_byte key (Suc i)) \<le> p AND 0x0f"
  shows "aert_scan_search ub (Suc fuel) (aert_embed_ptr t (marked p)) key n ret m = Some (ret @ [(en_pfx x, en_val x)])"
proof -
  have u: "aert_unembed_ptr (aert_embed_ptr t (marked p)) = (t, marked p)" using unembed_embed [OF t(1)] by simp
  have pm: "aert_ptr_pfx_match ub (marked p) (en_ofs x) key < 4"
    using ptr_pfx_match [of i ub "marked p" key] x(2,3) d by (simp del: mult_Suc_right)
  have hp: "aert_partial_key ub key (en_ofs x) 4 = drop_bit 4 (key_byte key (Suc i))" unfolding x(2) by (rule partial_high) (use x(3) in simp)
  show ?thesis
    using embed_marked_not_null [OF t(1), of p] u pm hp h x(1) t(2)
    by (simp add: mem_get_def extract_aligned [OF t(1)] not_less)
qed

text \<open>
  C31. A scan can return an entry below the key it starts from: at a pointer with a half byte,
  \<^verbatim>\<open>scan_search\<close> compares that half byte with the one of the key that comes after it. Here the
  leaf \<^term>\<open>x\<close> hangs below a root of half bytes in the slot of the key, its second half byte is
  smaller than that of the key, and a scan for one entry from the key on returns it.
\<close>

theorem aert_scan_below:
  assumes r: "aligned r" "r \<noteq> nullptr" "cells m r = Some y" "en_type y = ET_NODEH16" "en_ofs y = 0" "en_len y = 0" "length (en_chs y) = 16"
    and ch: "en_chs y ! unat (drop_bit 4 (key_byte key 0)) = aert_embed_ptr t (marked (key_byte (en_pfx x) 0))"
    and x: "aligned t" "cells m t = Some x" "en_type x = ET_LEAF" "en_ofs x = 8"
    and less: "drop_bit 4 (key_byte (en_pfx x) 0) = drop_bit 4 (key_byte key 0)" "key_byte (en_pfx x) 0 AND 0x0f < key_byte key 0 AND 0x0f"
    and half: "drop_bit 4 (key_byte key 1) \<le> key_byte (en_pfx x) 0 AND 0x0f"
  shows "aert_scan ub (Suc (Suc fuel)) r key 1 m = Some [(en_pfx x, en_val x)] \<and> en_pfx x < key"
proof -
  have u: "aert_unembed_ptr r = (r, 0)" by (rule unembed_aligned [OF r(1)])
  have pm: "aert_prefix_match ub y key = 0" by (simp add: aert_prefix_match_def aert_prefix_mask_def r(5,6) art_shl_def)
  have pk: "aert_partial_key ub key (en_ofs y + en_len y) 4 = drop_bit 4 (key_byte key 0)" using partial_high [of 0 ub key] by (simp add: r(5,6))
  have "unat (drop_bit 4 (key_byte key 0)) < 16"
    using unat_nibbles [of "key_byte key 0"] unat_byte [of "key_byte key 0"] by simp
  then have fc: "aert_findch y (drop_bit 4 (key_byte key 0)) = Some (aert_embed_ptr t (marked (key_byte (en_pfx x) 0)))"
    using ch r(4,7) by (simp add: aert_findch_def aert_nodeh16_findch_def arr_get_def)
  have leaf: "aert_scan_search ub (Suc fuel) (aert_embed_ptr t (marked (key_byte (en_pfx x) 0))) key 1 [] m = Some [(en_pfx x, en_val x)]"
    using scan_embedded_leaf [OF x(1,2,3), where i = 0 and p = "key_byte (en_pfx x) 0" and key = key] x(4) less(2) half by auto
  have stop: "aert_scan_append (Suc (Suc fuel)) r pk 1 [e] m = Some [e]" for pk e
    using r by (simp add: mem_get_def extract_aligned aert_nodeh16_scan_append_def aert_nodeh16_scan_from.simps)
  have "aert_scan ub (Suc (Suc fuel)) r key 1 m = Some [(en_pfx x, en_val x)]"
    unfolding aert_scan_def aert_scan_search.simps(2) [of ub "Suc fuel"]
    using r u pm pk fc leaf stop by (simp add: mem_get_def extract_aligned del: aert_scan_search.simps aert_scan_append.simps)
  moreover have "en_pfx x < key" by (rule key_less_first, rule nibble_less [OF less])
  ultimately show ?thesis by simp
qed

text \<open>A scan from \<^verbatim>\<open>0x12...\<close> returns the key \<^verbatim>\<open>0x11...\<close>.\<close>

theorem aert_scan_below_witness:
  "\<exists>m r. aert_scan (\<lambda>_ _ _. 0) 2 r 0x1200000000000000 1 m = Some [(0x1100000000000000, 7)] \<and> (0x1100000000000000 :: key) < 0x1200000000000000"
proof -
  let ?y = "\<lparr>en_ver = 0, en_type = ET_NODEH16, en_size = 0, en_ofs = 0, en_len = 0, en_cdf = 0, en_pfx = 0, en_val = 0, en_keys = [],
     en_chs = (replicate 16 0) [1 := 0x91]\<rparr>"
  let ?x = "\<lparr>en_ver = 0, en_type = ET_LEAF, en_size = 1, en_ofs = 8, en_len = 56, en_cdf = 0, en_pfx = 0x1100000000000000, en_val = 7,
     en_keys = [], en_chs = []\<rparr>"
  let ?m = "\<lparr>cells = [0x40 \<mapsto> ?y, 0x80 \<mapsto> ?x], blocks = []\<rparr>"
  have b: "key_byte 0x1200000000000000 0 = 0x12" "key_byte 0x1200000000000000 (Suc 0) = 0" "key_byte 0x1100000000000000 0 = 0x11"
    by (simp_all add: key_byte_def drop_bit_eq_div)
  have h: "drop_bit 4 (0x12 :: byte) = 1" "drop_bit 4 (0x11 :: byte) = 1" by (simp_all add: drop_bit_eq_div)
  have "aert_scan (\<lambda>_ _ _. 0) (Suc (Suc 0)) 0x40 0x1200000000000000 1 ?m = Some [(en_pfx ?x, en_val ?x)] \<and> en_pfx ?x < 0x1200000000000000"
  proof (rule aert_scan_below [where y = ?y and t = "0x80"])
    show "en_chs ?y ! unat (drop_bit 4 (key_byte 0x1200000000000000 0)) = aert_embed_ptr 0x80 (marked (key_byte (en_pfx ?x) 0))"
      by (simp add: b h aert_embed_ptr_def)
  qed (simp_all add: aligned_def b h)
  then show ?thesis by (intro exI [of _ ?m] exI [of _ "0x40"]) (simp add: numeral_2_eq_2)
qed

end
