(* ===== verification/Aert_Load.thy ===== *)
theory Aert_Load
  imports Aert_Correct
begin

text \<open>
  Loading the elastic radix tree with its first two entries: the leaf, and its fork at the first
  byte in which the keys differ.
\<close>

section \<open>New nodes\<close>

definition enode0 :: "shifts \<Rightarrow> 64 word \<Rightarrow> aert_type \<Rightarrow> nat \<Rightarrow> nat \<Rightarrow> key \<Rightarrow> enode" where
  "enode0 ub ver ty ofs len key = \<lparr>en_ver = ver, en_type = ty, en_size = aert_size0 ty, en_ofs = ofs, en_len = len, en_cdf = 0,
     en_pfx = (if ty \<noteq> ET_LEAF then key AND aert_prefix_mask ub ofs len else key),
     en_val = 0, en_keys = replicate (aert_nkeys ty) 0, en_chs = replicate (aert_nchs ty) 0\<rparr>"

lemma aert_new_node_ok:
  assumes "mem_ok P (Suc k) m" "aligned_mem m"
  obtains a m' where "aert_new_node ub ver ty ofs len key m = Some (a, m')" "mem_new P k m a (enode0 ub ver ty ofs len key) m'"
    "aligned a" "aligned_mem m'"
proof -
  obtain a junk m1 where m1: "mem_alloc m = Some (a, m1)" "mem_new P k m a junk m1" by (rule mem_alloc_new [OF assms(1)])
  let ?f = "\<lambda>_. Some (enode0 ub ver ty ofs len key)"
  obtain m2 where m2: "mem_upd m1 a ?f = Some m2" "mem_new P k m a (enode0 ub ver ty ofs len key) m2"
    using mem_upd_new [where f = ?f, OF m1(2)] by blast
  have e: "aert_new_node ub ver ty ofs len key m = Some (a, m2)" using m1(1) m2(1) by (simp add: aert_new_node_def enode0_def)
  show thesis using returnsD [OF aligned_new_node [OF assms(2)] e] by (intro that [OF e m2(2)]) auto
qed

definition eleaf :: "64 word \<Rightarrow> nat \<Rightarrow> key \<Rightarrow> val \<Rightarrow> enode" where
  "eleaf ver ofs key val = \<lparr>en_ver = ver, en_type = ET_LEAF, en_size = 1, en_ofs = 8 * ofs, en_len = 64 - 8 * ofs, en_cdf = 0, en_pfx = key,
     en_val = val, en_keys = [], en_chs = []\<rparr>"

lemma aert_new_leaf_ok:
  assumes "mem_ok P (Suc k) m" "aligned_mem m"
  obtains a m' where "aert_new_leaf ub ver (8 * ofs) key val m = Some (a, m')" "mem_new P k m a (eleaf ver ofs key val) m'"
    "aligned a" "aligned_mem m'"
proof -
  have b: "8 * ofs mod 8 \<noteq> (4 :: nat)" by simp
  obtain a m1 where m1: "aert_new_node ub ver ET_LEAF (8 * ofs) (64 - 8 * ofs) key m = Some (a, m1)"
    "mem_new P k m a (enode0 ub ver ET_LEAF (8 * ofs) (64 - 8 * ofs) key) m1" "aligned a" "aligned_mem m1"
    by (rule aert_new_node_ok [OF assms])
  let ?f = "\<lambda>n. Some (n\<lparr>en_val := val\<rparr>) :: enode option"
  obtain m2 where m2: "mem_upd m1 a ?f = Some m2" "mem_new P k m a (eleaf ver ofs key val) m2"
    using mem_upd_new [where f = ?f, OF m1(2)] by (auto simp: enode0_def eleaf_def)
  show thesis
  proof (rule that [OF _ m2(2) m1(3)])
    show e: "aert_new_leaf ub ver (8 * ofs) key val m = Some (a, m2)" unfolding aert_new_leaf_def using b m1(1) m2(1) by simp
    show "aligned_mem m2" using returnsD [OF aligned_upd [OF m1(4)] m2(1)] .
  qed
qed

lemma eleaf_repr:
  assumes "h a = Some (eleaf ver ofs k v)" "aligned a" "a \<noteq> nullptr" "ofs \<le> 8"
  shows "erepr h ofs a (TLeaf k v)"
  using assms by (simp add: eleaf_def aert_head_def pfx_bytes_def diff_mult_distrib2)

lemma embed_nothing: "aligned t \<Longrightarrow> aert_embed_ptr t 0 = t"
  by (simp add: aert_embed_ptr_def)

section \<open>The fork\<close>

lemma pfx_bytes_mask_bits:
  assumes "l \<le> 8"
  shows "pfx_bytes (k AND aert_prefix_mask ub 0 (8 * l)) 0 l = take l (key_bytes k)"
proof (rule nth_equalityI)
  fix i assume "i < length (pfx_bytes (k AND aert_prefix_mask ub 0 (8 * l)) 0 l)"
  then have i: "i < l" using assms by simp
  have "key_byte (k AND aert_prefix_mask ub 0 (8 * l)) i = key_byte k i"
  proof (rule bit_word_eqI)
    fix n assume "n < LENGTH(8)"
    then show "bit (key_byte (k AND aert_prefix_mask ub 0 (8 * l)) i) n = bit (key_byte k i) n"
      using prefix_mask_byte_bit [of l 0 ub "56 - 8 * i + n"] i assms by (auto simp: bit_key_byte bit_and_iff)
  qed
  then show "pfx_bytes (k AND aert_prefix_mask ub 0 (8 * l)) 0 l ! i = take l (key_bytes k) ! i"
    using i assms by (simp add: pfx_bytes_nth)
qed (use assms in simp)

text \<open>The new parent of two leaves.\<close>

definition fork_node :: "shifts \<Rightarrow> nat \<Rightarrow> key \<Rightarrow> byte \<Rightarrow> addr \<Rightarrow> byte \<Rightarrow> addr \<Rightarrow> enode" where
  "fork_node ub n key b a c d = (enode0 ub 0 ET_NODE4 0 (8 * n) key)
     \<lparr>en_keys := (if b > c then [c, b, 0, 0] else [b, c, 0, 0]), en_chs := (if b > c then [d, a, 0, 0] else [a, d, 0, 0])\<rparr>"

lemma fork_node_repr:
  assumes h: "h p = Some (fork_node ub n k2 (key_byte k1 n) a (key_byte k2 n) l)" "aligned p" "p \<noteq> nullptr" "n < 8"
    and d: "key_byte k1 n \<noteq> key_byte k2 n" and a: "erepr h (Suc n) a (TLeaf k1 v1)" "a \<noteq> nullptr" and l: "erepr h (Suc n) l (TLeaf k2 v2)" "l \<noteq> nullptr"
  shows "\<exists>cs. erepr h 0 p (TNode (take n (key_bytes k2)) cs) \<and> map_of cs = [key_byte k1 n \<mapsto> TLeaf k1 v1, key_byte k2 n \<mapsto> TLeaf k2 v2]"
proof -
  let ?b = "key_byte k1 n" and ?c = "key_byte k2 n" and ?n = "fork_node ub n k2 (key_byte k1 n) a (key_byte k2 n) l"
  let ?ks = "if ?b > ?c then [(?c, l), (?b, a)] else [(?b, a), (?c, l)]"
  let ?cs = "if ?b > ?c then [(?c, TLeaf k2 v2), (?b, TLeaf k1 v1)] else [(?b, TLeaf k1 v1), (?c, TLeaf k2 v2)]"
  have bc: "\<not> ?b > ?c \<Longrightarrow> ?b < ?c" using d by simp
  have ks: "art_kids (ea_node ?n) ?ks"
    using bc a(2) l(2) by (auto simp: art_kids_def art_shell_def anode_ok_def art_pos_def byte_idx_def fork_node_def enode0_def)
  have ty: "en_type ?n = ET_NODE4" by (simp add: fork_node_def enode0_def)
  have head: "aert_head ?n 0 (length (take n (key_bytes k2))) (take n (key_bytes k2))"
    using assms(4) pfx_bytes_mask_bits [of n k2 ub] by (simp add: aert_head_def fork_node_def enode0_def)
  have slot: "node_slot h ?n b (map_of ?ks b)" for b
    unfolding node_slot_def by (intro exI [of _ ?ks] conjI ks) (simp add: ty half_type_def)
  have kids: "case map_of ?cs b of None \<Rightarrow> map_of ?ks b = None
      | Some c \<Rightarrow> \<exists>t. map_of ?ks b = Some t \<and> erepr h (Suc (0 + length (take n (key_bytes k2)))) t c" for b
    using assms(4) a(1) l(1) d by (auto simp del: erepr.simps)
  have "erepr h 0 p (TNode (take n (key_bytes k2)) ?cs)"
    unfolding erepr.simps(2)
  proof (intro conjI exI [of _ ?n] exI [of _ "map_of ?ks"] allI slot kids)
    show "ordered ?cs" using bc by auto
  qed (use h head ty in auto)
  moreover have "map_of ?cs = [?b \<mapsto> TLeaf k1 v1, ?c \<mapsto> TLeaf k2 v2]" using d by (auto simp: fun_eq_iff)
  ultimately show ?thesis by blast
qed

lemma leaf_fork_ok:
  assumes m: "mem_ok P 2 m" "aligned_mem m" "cells m a = Some (eleaf 0 0 k1 v1)" and n: "n < 8"
  obtains p l m' where "aert_node_fork_inplace ub (8 * n) a 0 k2 v2 m = Some (p, m')"
    "cells m' p = Some (fork_node ub n k2 (key_byte k1 n) a (key_byte k2 n) l)" "cells m' a = Some (eleaf 0 (Suc n) k1 v1)"
    "cells m' l = Some (eleaf 0 (Suc n) k2 v2)" "aligned p" "p \<noteq> nullptr" "aligned l" "l \<noteq> nullptr"
proof -
  let ?b = "key_byte k1 n" and ?c = "key_byte k2 n"
  let ?idx = "if ?b > ?c then 1 else (0 :: nat)"
  have "mem_ok P (Suc 1) m" using m(1) by (simp add: numeral_2_eq_2)
  then obtain p m2 where m2: "aert_new_node ub 0 ET_NODE4 0 (8 * n) k2 m = Some (p, m2)"
    "mem_new P 1 m p (enode0 ub 0 ET_NODE4 0 (8 * n) k2) m2" "aligned p" "aligned_mem m2"
    by (rule aert_new_node_ok [OF _ m(2)])
  have c2: "p \<noteq> nullptr" "p \<noteq> a" "cells m2 p = Some (enode0 ub 0 ET_NODE4 0 (8 * n) k2)" "cells m2 a = Some (eleaf 0 0 k1 v1)" "mem_ok P 1 m2"
    using m2(2) m(3) by (auto simp: mem_new_def)
  have sh: "aert_shift ub (8 * n + 8) (eleaf 0 0 k1 v1) = eleaf 0 (Suc n) k1 v1" by (simp add: aert_shift_def eleaf_def Let_def)
  define m3 where "m3 = m2\<lparr>cells := (cells m2)(a \<mapsto> eleaf 0 (Suc n) k1 v1)\<rparr>"
  have u3: "mem_upd m2 a (\<lambda>n'. Some (aert_shift ub (8 * n + 8) n')) = Some m3" using c2(4) by (simp add: mem_upd_def m3_def sh)
  let ?N1 = "(enode0 ub 0 ET_NODE4 0 (8 * n) k2)\<lparr>en_keys := (if ?b > ?c then [?c, ?b, 0, 0] else [?b, ?c, 0, 0]),
    en_chs := (if ?b > ?c then [0, a, 0, 0] else [a, 0, 0, 0])\<rparr>"
  let ?f4 = "\<lambda>n. do { ks \<leftarrow> arr_set (en_keys n) ?idx ?b; cs \<leftarrow> arr_set (en_chs n) ?idx a; ks \<leftarrow> arr_set ks (1 - ?idx) ?c;
    Some (n\<lparr>en_keys := ks, en_chs := cs\<rparr>) }"
  define m4 where "m4 = m3\<lparr>cells := (cells m3)(p \<mapsto> ?N1)\<rparr>"
  have u4: "mem_upd m3 p ?f4 = Some m4"
    using c2(2,3) by (simp add: mem_upd_def m3_def m4_def arr_set_def enode0_def eval_nat_numeral)
  have al3: "aligned_mem m3" by (rule returnsD [OF aligned_upd [OF m2(4)] u3])
  have al4: "aligned_mem m4" by (rule returnsD [OF aligned_upd [OF al3] u4])
  have "mem_ok P 1 m3" unfolding m3_def by (rule mem_ok_cells [OF c2(5)]) (use c2(4) in auto)
  then have "mem_ok P 1 m4" unfolding m4_def by (rule mem_ok_cells) (use c2(2,3) in \<open>auto simp: m3_def\<close>)
  then have "mem_ok P (Suc 0) m4" by simp
  then obtain l m5 where m5: "aert_new_leaf ub 0 (8 * Suc n) k2 v2 m4 = Some (l, m5)" "mem_new P 0 m4 l (eleaf 0 (Suc n) k2 v2) m5" "aligned l"
    by (rule aert_new_leaf_ok [OF _ al4])
  have l: "l \<noteq> nullptr" "l \<noteq> p" "l \<noteq> a" "cells m5 = (cells m4)(l \<mapsto> eleaf 0 (Suc n) k2 v2)"
    using m5(2) c2 by (auto simp: mem_new_def m4_def m3_def)
  let ?f6 = "\<lambda>n. do { cs \<leftarrow> arr_set (en_chs n) (1 - ?idx) l; Some (n\<lparr>en_chs := cs\<rparr>) }"
  define m6 where "m6 = m5\<lparr>cells := (cells m5)(p \<mapsto> fork_node ub n k2 ?b a ?c l)\<rparr>"
  have u6: "mem_upd m5 p ?f6 = Some m6"
    using l(2) by (simp add: mem_upd_def l(4) m6_def m4_def arr_set_def fork_node_def enode0_def eval_nat_numeral)
  have pk: "aert_partial_key ub k1 (8 * n) 8 = ?b" "aert_partial_key ub k2 (8 * n) 8 = ?c" using partial_byte [OF n] by simp_all
  have leaf: "en_pfx (eleaf 0 0 k1 v1) = k1" "en_ofs (eleaf 0 0 k1 v1) = 0" by (simp_all add: eleaf_def)
  have "8 * n + 8 = 8 * Suc n" by simp
  then have run: "aert_node_fork_inplace ub (8 * n) a 0 k2 v2 m = Some (p, m6)"
    unfolding aert_node_fork_inplace_def Let_def m2(1) bind.bind_lunit prod.case mem_get_def c2(4) leaf add_0 pk u3 u4
    using m5(1) u6 by (auto simp: add.commute [of "8 * n" 8])
  show thesis
    by (rule that [OF run _ _ _ m2(3) c2(1) m5(3) l(1)]) (use l c2 in \<open>simp_all add: m6_def m4_def m3_def\<close>)
qed

section \<open>Two entries\<close>

lemma leaf_upsert_ok:
  assumes m: "mem_ok P 2 m" "aligned_mem m" "cells m a = Some (eleaf 0 0 k1 v1)" "aligned a" "a \<noteq> nullptr"
  shows "\<exists>t t' m'. aert_update_inplace ub (Suc f) a 0 k2 v2 m = Some (t, m') \<and> erepr (cells m') 0 t t' \<and>
    map_of (tr_map t') = (map_of [(k1, v1)])(k2 \<mapsto> v2)"
proof -
  let ?n = "lcp (key_bytes k1) (key_bytes k2)" and ?leaf = "eleaf 0 0 k1 v1"
  have u: "aert_unembed_ptr a = (a, 0)" by (rule unembed_aligned [OF m(4)])
  have pb: "pfx_bytes k1 0 8 = key_bytes k1" by (simp add: pfx_bytes_def)
  have pm: "aert_prefix_match ub ?leaf k2 div 8 = ?n"
    using prefix_match_bytes [of ?leaf 0 8 ub k2] by (simp add: eleaf_def pb)
  show ?thesis
  proof (cases "?n < 8")
    case False
    then have "lcp (key_bytes k1) (key_bytes k2) = length (key_bytes k1)" using lcp_le(1) [of "key_bytes k1" "key_bytes k2"] by simp
    from lcp_full [OF this] have k: "k2 = k1" by (simp add: key_bytes_inj)
    have pm8: "aert_prefix_match ub ?leaf k2 div 8 = 8" using pm False lcp_le(1) [of "key_bytes k1" "key_bytes k2"] by simp
    let ?m = "m\<lparr>cells := (cells m)(a \<mapsto> eleaf 0 0 k1 v2)\<rparr>"
    have "aert_update_inplace ub (Suc f) a 0 k2 v2 m = Some (a, ?m)"
      using m(3,5) u pm8 by (simp add: mem_get_def mem_upd_def eleaf_def embed_nothing [OF m(4)])
    moreover have "erepr (cells ?m) 0 a (TLeaf k1 v2)" by (rule eleaf_repr) (use m(4,5) in simp_all)
    moreover have "map_of (tr_map (TLeaf k1 v2)) = (map_of [(k1, v1)])(k2 \<mapsto> v2)" by (simp add: tr_map_def k)
    ultimately show ?thesis by blast
  next
    case True
    obtain p l m' where f: "aert_node_fork_inplace ub (8 * ?n) a 0 k2 v2 m = Some (p, m')"
      "cells m' p = Some (fork_node ub ?n k2 (key_byte k1 ?n) a (key_byte k2 ?n) l)" "cells m' a = Some (eleaf 0 (Suc ?n) k1 v1)"
      "cells m' l = Some (eleaf 0 (Suc ?n) k2 v2)" "aligned p" "p \<noteq> nullptr" "aligned l" "l \<noteq> nullptr"
      by (rule leaf_fork_ok [OF m(1-3) True])
    have d: "key_byte k1 ?n \<noteq> key_byte k2 ?n" using lcp_neq [of "key_bytes k1" "key_bytes k2"] True by simp
    have t: "take ?n (key_bytes k1) = take ?n (key_bytes k2)" by (rule lcp_take)
    have "aert_update_inplace ub (Suc f) a 0 k2 v2 m = Some (p, m')"
      using m(3,5) u pm f(1) True by (simp add: mem_get_def embed_nothing [OF f(5)] eleaf_def mult.commute [of _ 8])
    moreover have la: "erepr (cells m') (Suc ?n) a (TLeaf k1 v1)" by (rule eleaf_repr) (use f(3) m(4,5) True in simp_all)
    have ll: "erepr (cells m') (Suc ?n) l (TLeaf k2 v2)" by (rule eleaf_repr) (use f(4,7,8) True in simp_all)
    obtain cs where cs: "erepr (cells m') 0 p (TNode (take ?n (key_bytes k2)) cs)"
      "map_of cs = [key_byte k1 ?n \<mapsto> TLeaf k1 v1, key_byte k2 ?n \<mapsto> TLeaf k2 v2]"
      using fork_node_repr [OF f(2,5,6) True d la m(5) ll f(8)] by blast
    moreover have "map_of (tr_map (TNode (take ?n (key_bytes k2)) cs)) k = ((map_of [(k1, v1)])(k2 \<mapsto> v2)) k" for k
    proof -
      have eq: "take ?n (key_bytes k) = take ?n (key_bytes k') \<and> key_byte k ?n = key_byte k' ?n \<and>
          drop (Suc ?n) (key_bytes k') = drop (Suc ?n) (key_bytes k) \<longleftrightarrow> k = k'" for k'
        using id_take_nth_drop [of ?n "key_bytes k"] id_take_nth_drop [of ?n "key_bytes k'"] True
        by (metis key_bytes_inj key_bytes_nth length_key_bytes)
      have "map_of (tr_map (TNode (take ?n (key_bytes k2)) cs)) k = tr_find 0 (TNode (take ?n (key_bytes k2)) cs) k"
        by (rule tr_map_find [OF erepr_wf [OF cs(1)], symmetric])
      also have "\<dots> = ((map_of [(k1, v1)])(k2 \<mapsto> v2)) k"
        using eq [of k1] eq [of k2] t d True by (auto simp: cs(2))
      finally show ?thesis .
    qed
    ultimately show ?thesis by blast
  qed
qed

text \<open>
  C32. Loading and looking up: \<^verbatim>\<open>build\<close> of two entries ends without a fault, and \<^verbatim>\<open>find\<close> on the
  result gives back, for every key, the value of the last entry with that key, and nothing for other
  keys: whether the keys are the same or at which of the eight bytes they part.
\<close>

theorem aert_build_find:
  assumes m: "mem_ok (\<lambda>_. True) 3 m" "\<forall>a \<in> dom (cells m). aligned a" "\<forall>b \<in> set (blocks m). aligned (fst b)"
  shows "\<exists>t m'. aert_build ub 1 [(k1, v1), (k2, v2)] m = Some (t, m') \<and>
    (\<forall>k. aert_find ub 17 t k m' = Some (map_of [(k2, v2), (k1, v1)] k))"
proof -
  have "mem_ok (\<lambda>_. True) (Suc 2) m" "aligned_mem m" using m by (simp_all add: aligned_mem_def)
  then obtain a m1 where m1: "aert_new_leaf ub 0 (8 * 0) k1 v1 m = Some (a, m1)" "mem_new (\<lambda>_. True) 2 m a (eleaf 0 0 k1 v1) m1"
    "aligned a" "aligned_mem m1" by (rule aert_new_leaf_ok)
  from m1(2) have c: "mem_ok (\<lambda>_. True) 2 m1" "cells m1 a = Some (eleaf 0 0 k1 v1)" "a \<noteq> nullptr" by (simp_all add: mem_new_def)
  obtain t t' m' where t: "aert_update_inplace ub (Suc 0) a 0 k2 v2 m1 = Some (t, m')" "erepr (cells m') 0 t t'"
    "map_of (tr_map t') = (map_of [(k1, v1)])(k2 \<mapsto> v2)"
    using leaf_upsert_ok [OF c(1) m1(4) c(2) m1(3) c(3)] by blast
  have "aert_build ub 1 [(k1, v1), (k2, v2)] m = Some (t, m')" using m1(1) t(1) by (simp add: aert_build_def)
  moreover have "aert_find ub 17 t k m' = Some (map_of [(k2, v2), (k1, v1)] k)" for k
    using aert_find_ok [OF t(2), of 17 ub k] tr_height_wf [OF erepr_wf [OF t(2)]] tr_map_find [OF erepr_wf [OF t(2)], of k] t(3) by simp
  ultimately show ?thesis by blast
qed

theorem aert_build_find_witness:
  "\<exists>m t m'. aert_build (\<lambda>_ _ _. 0) 1 [(0x1200000000000000, 5), (0x1300000000000000, 6)] m = Some (t, m') \<and>
     aert_find (\<lambda>_ _ _. 0) 17 t 0x1200000000000000 m' = Some (Some 5) \<and> aert_find (\<lambda>_ _ _. 0) 17 t 0x1400000000000000 m' = Some None"
proof -
  let ?m = "\<lparr>cells = Map.empty, blocks = [(0x40, eleaf 0 0 0 0), (0x80, eleaf 0 0 0 0), (0xc0, eleaf 0 0 0 0)]\<rparr>"
  have "mem_ok (\<lambda>_. True) 3 ?m" "\<forall>a \<in> dom (cells ?m). aligned a" "\<forall>b \<in> set (blocks ?m). aligned (fst b)"
    by (simp_all add: mem_ok_def aligned_def)
  from aert_build_find [OF this, of "\<lambda>_ _ _. 0" "0x1200000000000000" 5 "0x1300000000000000" 6] obtain t m' where
    t: "aert_build (\<lambda>_ _ _. 0) 1 [(0x1200000000000000, 5), (0x1300000000000000, 6)] ?m = Some (t, m')"
    "\<forall>k. aert_find (\<lambda>_ _ _. 0) 17 t k m' = Some (map_of [(0x1300000000000000, 6), (0x1200000000000000, 5)] k)" by blast
  then show ?thesis by (intro exI [of _ ?m] exI [of _ t] exI [of _ m']) simp
qed

end
