(* ===== verification/Concow_Cyclic.thy ===== *)
theory Concow_Cyclic
  imports Concow
begin

text \<open>
  \<^verbatim>\<open>lib/conctrl/concow_cyclic.hpp\<close>: the pipeline in which every pipe takes every role in turn. Of \<open>N\<close>
  consecutive tasks each pipe is the entry of one, works on the inner levels of others, and is the
  exit of one; the pipe before it in the cycle, wherever it is not the exit, lets it go on.

  The steps are as fine as in \<open>Concow\<close>: every atomic operation and every store into a shared context
  is a step, and a call of a handler is one. The free workers are a FIFO queue, \<^verbatim>\<open>~0UL\<close> is \<open>\<infinity>\<close> as a
  stage and \<open>None\<close> as a task.
\<close>

section \<open>State\<close>

definition cyclic_BATCH_ROUNDS :: nat where
  "cyclic_BATCH_ROUNDS = conctrl_BUFFER_SIZE div 32"

definition cyclic_BATCH_SIZE :: "nat \<Rightarrow> nat" where
  "cyclic_BATCH_SIZE N = cyclic_BATCH_ROUNDS * N"

datatype cy_client = CY_Idle | CY_Claim key val | CY_Waiting nat key val | CY_Writing nat nat key val

datatype cm_pc = CM_Poll | CM_Load | CM_Init | CM_Advance | CM_Collect | CM_Publish | CM_Commit | CM_Done

datatype cp_pc = CP_Top | CP_Drain | CP_Iter | CP_Task | CP_Op | CP_Stage "32 word" | CP_Committed "32 word"
  | CP_Call | CP_Pop | CP_Assign nat | CP_Advance | CP_Done

text \<open>
  The loop variable \<^verbatim>\<open>tid\<close> of \<^verbatim>\<open>pipe_iter_\<close> and the \<^verbatim>\<open>TID\<close> of \<^verbatim>\<open>pipe_subloop_\<close> are \<open>cp_base\<close> and
  \<open>cp_off\<close>; the last three fields are the thread's cache.
\<close>

record cyclic_pipe =
  cp_pc :: cp_pc
  cp_base :: nat
  cp_off :: nat
  cp_last :: nat
  cp_epoch :: nat
  cp_final :: bool
  cp_n_tasks :: nat
  cp_pred_pace :: nat
  cp_n_compl :: nat

datatype cw_pc = CW_Poll | CW_Loop | CW_Stage "32 word" | CW_Committed "32 word" | CW_Call | CW_Store | CW_Finish | CW_Push | CW_Done

record cyclic_worker =
  cw_pc :: cw_pc
  cw_tid :: nat
  cw_last :: nat
  cw_stage :: nat

record ('c, 'm) concow_cyclic =
  cy_ctxs :: "nat \<Rightarrow> 'c"
  cy_stages :: "nat \<Rightarrow> enat"
  cy_mem :: 'm
  cy_root :: addr
  cy_submitted :: nat
  cy_inited :: nat
  cy_committed :: nat
  cy_stop :: bool
  cy_available :: "nat list"
  cy_pace :: "nat \<Rightarrow> nat"
  cy_worker_tid :: "nat \<Rightarrow> nat option"
  cm_pc :: cm_pc
  cm_stop :: bool
  cm_submitted :: nat
  cm_inited :: nat
  cm_committed :: nat
  cm_next :: nat
  cy_pipes :: "nat \<Rightarrow> cyclic_pipe"
  cy_workers :: "nat \<Rightarrow> cyclic_worker"
  cy_clients :: "nat \<Rightarrow> cy_client"

definition cy_ctx :: "('c, 'm) concow_cyclic \<Rightarrow> nat \<Rightarrow> 'c" where
  "cy_ctx s tid = cy_ctxs s (tid mod conctrl_BUFFER_SIZE)"

definition cy_set_ctx :: "nat \<Rightarrow> 'c \<Rightarrow> ('c, 'm) concow_cyclic \<Rightarrow> ('c, 'm) concow_cyclic" where
  "cy_set_ctx tid c s = s\<lparr>cy_ctxs := (cy_ctxs s)(tid mod conctrl_BUFFER_SIZE := c)\<rparr>"

definition cy_stage :: "('c, 'm) concow_cyclic \<Rightarrow> nat \<Rightarrow> enat" where
  "cy_stage s tid = cy_stages s (tid mod conctrl_BUFFER_SIZE)"

definition cy_set_stage :: "nat \<Rightarrow> enat \<Rightarrow> ('c, 'm) concow_cyclic \<Rightarrow> ('c, 'm) concow_cyclic" where
  "cy_set_stage tid x s = s\<lparr>cy_stages := (cy_stages s)(tid mod conctrl_BUFFER_SIZE := x)\<rparr>"

definition cy_set_client :: "nat \<Rightarrow> cy_client \<Rightarrow> ('c, 'm) concow_cyclic \<Rightarrow> ('c, 'm) concow_cyclic" where
  "cy_set_client i c s = s\<lparr>cy_clients := (cy_clients s)(i := c)\<rparr>"

definition cy_set_pipe :: "nat \<Rightarrow> cyclic_pipe \<Rightarrow> ('c, 'm) concow_cyclic \<Rightarrow> ('c, 'm) concow_cyclic" where
  "cy_set_pipe p x s = s\<lparr>cy_pipes := (cy_pipes s)(p := x)\<rparr>"

definition cy_set_worker :: "nat \<Rightarrow> cyclic_worker \<Rightarrow> ('c, 'm) concow_cyclic \<Rightarrow> ('c, 'm) concow_cyclic" where
  "cy_set_worker w x s = s\<lparr>cy_workers := (cy_workers s)(w := x)\<rparr>"

text \<open>The task of a pipe.\<close>

definition cp_tid :: "cyclic_pipe \<Rightarrow> nat" where
  "cp_tid x = cp_base x + cp_off x"

section \<open>Clients\<close>

text \<open>\<^verbatim>\<open>update\<close>; the stores into the context one by one.\<close>

definition cyclic_store :: "nat \<Rightarrow> nat \<Rightarrow> key \<Rightarrow> val \<Rightarrow> 'x ctx_scheme \<Rightarrow> 'x ctx_scheme" where
  "cyclic_store j tid k v c =
     (if j = 0 then c\<lparr>cx_op := conctrl_INIT\<rparr> else if j = 1 then c\<lparr>cx_sno := of_nat tid\<rparr>
      else if j = 2 then c\<lparr>cx_key := k\<rparr> else c\<lparr>cx_val := v\<rparr>)"

inductive cyclic_client_step ::
  "('x ctx_scheme, 'm) concow_cyclic \<Rightarrow> ('x ctx_scheme, 'm) concow_cyclic \<Rightarrow> bool" where
  call: "cy_clients s i = CY_Idle \<Longrightarrow> \<not> cy_stop s \<Longrightarrow> cyclic_client_step s (cy_set_client i (CY_Claim k v) s)"
| claim: "cy_clients s i = CY_Claim k v \<Longrightarrow>
    cyclic_client_step s (cy_set_client i (CY_Waiting (Suc (cy_submitted s)) k v) (s\<lparr>cy_submitted := Suc (cy_submitted s)\<rparr>))"
| place: "cy_clients s i = CY_Waiting tid k v \<Longrightarrow> tid < cy_committed s + conctrl_BUFFER_SIZE \<Longrightarrow>
    cyclic_client_step s (cy_set_client i (CY_Writing 0 tid k v) s)"
| store: "cy_clients s i = CY_Writing j tid k v \<Longrightarrow> j < 4 \<Longrightarrow>
    cyclic_client_step s (cy_set_client i (CY_Writing (Suc j) tid k v) (cy_set_ctx tid (cyclic_store j tid k v (cy_ctx s tid)) s))"
| return: "cy_clients s i = CY_Writing 4 tid k v \<Longrightarrow>
    cyclic_client_step s (cy_set_client i CY_Idle (cy_set_stage tid 0 s))"

section \<open>The monitor\<close>

text \<open>\<^verbatim>\<open>monitor_main_\<close>.\<close>

inductive cyclic_monitor_step ::
  "nat \<Rightarrow> ('x ctx_scheme, 'm) concow_cyclic \<Rightarrow> ('x ctx_scheme, 'm) concow_cyclic \<Rightarrow> bool" for N where
  poll: "cm_pc s = CM_Poll \<Longrightarrow> \<not> cm_stop s \<or> cm_committed s < cm_submitted s \<Longrightarrow>
    cyclic_monitor_step N s (s\<lparr>cm_stop := cy_stop s, cm_pc := CM_Load\<rparr>)"
| load: "cm_pc s = CM_Load \<Longrightarrow>
    cyclic_monitor_step N s (s\<lparr>cm_submitted := cy_submitted s, cm_next := cm_inited s, cm_pc := CM_Init\<rparr>)"
| init: "cm_pc s = CM_Init \<Longrightarrow> cm_next s < cm_submitted s \<Longrightarrow> cy_stage s (Suc (cm_next s)) = 0 \<Longrightarrow>
    cyclic_monitor_step N s (s\<lparr>cm_next := Suc (cm_next s)\<rparr>)"
| init_end: "cm_pc s = CM_Init \<Longrightarrow> cm_next s < cm_submitted s \<longrightarrow> cy_stage s (Suc (cm_next s)) \<noteq> 0 \<Longrightarrow>
    cyclic_monitor_step N s (s\<lparr>cm_pc := CM_Advance\<rparr>)"
| advance: "cm_pc s = CM_Advance \<Longrightarrow>
    cyclic_monitor_step N s ((if cm_next s > cm_inited s then s\<lparr>cm_inited := cm_next s, cy_inited := cm_next s\<rparr> else s)
      \<lparr>cm_next := cm_committed s, cm_pc := CM_Collect\<rparr>)"
| collect: "cm_pc s = CM_Collect \<Longrightarrow> cm_next s < cm_inited s \<Longrightarrow> cy_stage s (Suc (cm_next s)) = \<infinity> \<Longrightarrow>
    cyclic_monitor_step N s (s\<lparr>cm_next := Suc (cm_next s)\<rparr>)"
| collect_end: "cm_pc s = CM_Collect \<Longrightarrow> cm_next s < cm_inited s \<longrightarrow> cy_stage s (Suc (cm_next s)) \<noteq> \<infinity> \<Longrightarrow>
    cyclic_monitor_step N s (s\<lparr>cm_pc := CM_Publish\<rparr>)"
| publish: "cm_pc s = CM_Publish \<Longrightarrow> cm_next s > cm_committed s \<Longrightarrow>
    cyclic_monitor_step N s (s\<lparr>cm_committed := cm_next s, cy_root := cx_root (cy_ctx s (cm_next s)), cm_pc := CM_Commit\<rparr>)"
| nothing_new: "cm_pc s = CM_Publish \<Longrightarrow> \<not> cm_next s > cm_committed s \<Longrightarrow>
    cyclic_monitor_step N s (s\<lparr>cm_pc := CM_Poll\<rparr>)"
| commit: "cm_pc s = CM_Commit \<Longrightarrow>
    cyclic_monitor_step N s (s\<lparr>cy_committed := cm_committed s, cm_pc := CM_Poll\<rparr>)"
| finish: "cm_pc s = CM_Poll \<Longrightarrow> cm_stop s \<Longrightarrow> \<not> cm_committed s < cm_submitted s \<Longrightarrow>
    margin = cyclic_BATCH_SIZE N + (cyclic_BATCH_SIZE N - cm_inited s mod cyclic_BATCH_SIZE N) mod cyclic_BATCH_SIZE N \<Longrightarrow>
    cyclic_monitor_step N s (s\<lparr>cy_inited := cm_inited s + margin + N, cm_pc := CM_Done\<rparr>)"

section \<open>The pipes\<close>

text \<open>The next instance of \<^verbatim>\<open>pipe_subloop_\<close>, and after the last one the next round of \<^verbatim>\<open>pipe_iter_\<close>.\<close>

definition cyclic_next :: "nat \<Rightarrow> cyclic_pipe \<Rightarrow> cyclic_pipe" where
  "cyclic_next N x =
     (if Suc (cp_off x) < N then x\<lparr>cp_off := Suc (cp_off x), cp_pc := CP_Task\<rparr>
      else x\<lparr>cp_base := cp_base x + N, cp_off := 0, cp_pc := CP_Iter\<rparr>)"

definition cyclic_entry :: "nat \<Rightarrow> cyclic_pipe \<Rightarrow> bool" where
  "cyclic_entry p x \<longleftrightarrow> p = cp_off x"

definition cyclic_exit :: "nat \<Rightarrow> nat \<Rightarrow> cyclic_pipe \<Rightarrow> bool" where
  "cyclic_exit N p x \<longleftrightarrow> p \<noteq> cp_off x \<and> Suc p mod N = cp_off x"

text \<open>\<^verbatim>\<open>pipe_main_\<close>, \<^verbatim>\<open>pipe_iter_\<close> and \<^verbatim>\<open>pipe_subloop_\<close>.\<close>

inductive cyclic_pipe_loop :: "nat \<Rightarrow> nat \<Rightarrow> ('c, 'm) concow_cyclic \<Rightarrow> ('c, 'm) concow_cyclic \<Rightarrow> bool" for N p where
  batch: "x = cy_pipes s p \<Longrightarrow> cp_pc x = CP_Top \<Longrightarrow> \<not> cy_stop s \<Longrightarrow>
    cyclic_pipe_loop N p s (cy_set_pipe p (x\<lparr>cp_base := Suc (cp_epoch x * cyclic_BATCH_SIZE N), cp_off := 0,
      cp_last := Suc (cp_epoch x) * cyclic_BATCH_SIZE N, cp_pc := CP_Iter\<rparr>) s)"
| stop: "x = cy_pipes s p \<Longrightarrow> cp_pc x = CP_Top \<Longrightarrow> cy_stop s \<Longrightarrow>
    cyclic_pipe_loop N p s (cy_set_pipe p (x\<lparr>cp_pc := CP_Drain\<rparr>) s)"
| drain: "x = cy_pipes s p \<Longrightarrow> cp_pc x = CP_Drain \<Longrightarrow>
    cyclic_pipe_loop N p s (cy_set_pipe p (x\<lparr>cp_base := Suc (cp_epoch x * cyclic_BATCH_SIZE N), cp_off := 0,
      cp_last := cy_submitted s, cp_final := True, cp_pc := CP_Iter\<rparr>) s)"
| round: "x = cy_pipes s p \<Longrightarrow> cp_pc x = CP_Iter \<Longrightarrow> cp_base x \<le> cp_last x \<Longrightarrow>
    cyclic_pipe_loop N p s (cy_set_pipe p (x\<lparr>cp_off := 0, cp_pc := CP_Task\<rparr>) s)"
| epoch: "x = cy_pipes s p \<Longrightarrow> cp_pc x = CP_Iter \<Longrightarrow> \<not> cp_base x \<le> cp_last x \<Longrightarrow> \<not> cp_final x \<Longrightarrow>
    cyclic_pipe_loop N p s (cy_set_pipe p (x\<lparr>cp_epoch := Suc (cp_epoch x), cp_pc := CP_Top\<rparr>) s)"
| finish: "x = cy_pipes s p \<Longrightarrow> cp_pc x = CP_Iter \<Longrightarrow> \<not> cp_base x \<le> cp_last x \<Longrightarrow> cp_final x \<Longrightarrow>
    cyclic_pipe_loop N p s (cy_set_pipe p (x\<lparr>cp_pc := CP_Done\<rparr>) s)"

text \<open>\<^verbatim>\<open>process_entry\<close>: up to the call of the handler.\<close>

inductive cyclic_process_entry :: "nat \<Rightarrow> ('x ctx_scheme, 'm) concow_cyclic \<Rightarrow> ('x ctx_scheme, 'm) concow_cyclic \<Rightarrow> bool" for p where
  wait: "x = cy_pipes s p \<Longrightarrow> cp_pc x = CP_Task \<Longrightarrow> cyclic_entry p x \<Longrightarrow> cp_n_tasks x < cp_tid x \<Longrightarrow>
    cyclic_process_entry p s (cy_set_pipe p (x\<lparr>cp_n_tasks := cy_inited s\<rparr>) s)"
| start: "x = cy_pipes s p \<Longrightarrow> cp_pc x = CP_Task \<Longrightarrow> cyclic_entry p x \<Longrightarrow> \<not> cp_n_tasks x < cp_tid x \<Longrightarrow>
    cyclic_process_entry p s (cy_set_pipe p (x\<lparr>cp_pc := CP_Op\<rparr>)
      (cy_set_ctx (cp_tid x) ((cy_ctx s (cp_tid x))\<lparr>cx_t_past := cx_root (cy_ctx s (cp_tid x - 1))\<rparr>) s))"

text \<open>\<^verbatim>\<open>process_inner\<close>, whose last two lines are also those of \<^verbatim>\<open>process_entry\<close>, and whose wait is also that of \<^verbatim>\<open>process_exit\<close>.\<close>

inductive cyclic_process_inner ::
  "('x ctx_scheme, 'm) index_lib \<Rightarrow> nat \<Rightarrow> nat \<Rightarrow> ('x ctx_scheme, 'm) concow_cyclic \<Rightarrow> ('x ctx_scheme, 'm) concow_cyclic \<Rightarrow> bool" for L N p where
  wait: "x = cy_pipes s p \<Longrightarrow> cp_pc x = CP_Task \<Longrightarrow> \<not> cyclic_entry p x \<Longrightarrow> cp_pred_pace x < cp_tid x \<Longrightarrow>
    cyclic_process_inner L N p s (cy_set_pipe p (x\<lparr>cp_pred_pace := cy_pace s p\<rparr>) s)"
| start: "x = cy_pipes s p \<Longrightarrow> cp_pc x = CP_Task \<Longrightarrow> \<not> cyclic_entry p x \<Longrightarrow> \<not> cp_pred_pace x < cp_tid x \<Longrightarrow>
    cyclic_process_inner L N p s (cy_set_pipe p (x\<lparr>cp_pc := CP_Op\<rparr>) s)"
| call: "x = cy_pipes s p \<Longrightarrow> cp_pc x = CP_Op \<Longrightarrow> \<not> cyclic_exit N p x \<Longrightarrow> c = cy_ctx s (cp_tid x) \<Longrightarrow> cx_op c \<noteq> conctrl_DONE \<Longrightarrow>
    lib_handlers L (cx_op c) c (cy_mem s) = Some (op', c', m') \<Longrightarrow>
    cyclic_process_inner L N p s (cy_set_pipe p (x\<lparr>cp_pc := CP_Advance\<rparr>) (cy_set_ctx (cp_tid x) (c'\<lparr>cx_op := op'\<rparr>) (s\<lparr>cy_mem := m'\<rparr>)))"
| skip: "x = cy_pipes s p \<Longrightarrow> cp_pc x = CP_Op \<Longrightarrow> \<not> cyclic_exit N p x \<Longrightarrow> cx_op (cy_ctx s (cp_tid x)) = conctrl_DONE \<Longrightarrow>
    cyclic_process_inner L N p s (cy_set_pipe p (x\<lparr>cp_pc := CP_Advance\<rparr>) s)"
| advance: "x = cy_pipes s p \<Longrightarrow> cp_pc x = CP_Advance \<Longrightarrow>
    cyclic_process_inner L N p s (cy_set_pipe p (cyclic_next N x) (s\<lparr>cy_pace := (cy_pace s)(Suc p mod N := cp_tid x)\<rparr>))"

text \<open>\<^verbatim>\<open>process_exit\<close> with \<^verbatim>\<open>wait_stage\<close>.\<close>

inductive cyclic_process_exit ::
  "('x ctx_scheme, 'm) index_lib \<Rightarrow> nat \<Rightarrow> nat \<Rightarrow> ('x ctx_scheme, 'm) concow_cyclic \<Rightarrow> ('x ctx_scheme, 'm) concow_cyclic \<Rightarrow> bool" for L N p where
  start: "x = cy_pipes s p \<Longrightarrow> cp_pc x = CP_Op \<Longrightarrow> cyclic_exit N p x \<Longrightarrow> c = cy_ctx s (cp_tid x) \<Longrightarrow> cx_op c \<noteq> conctrl_DONE \<Longrightarrow>
    lib_ver L (cx_t_past c) (cy_mem s) = Some ver \<Longrightarrow>
    cyclic_process_exit L N p s (cy_set_pipe p (x\<lparr>cp_pc := CP_Stage ver\<rparr>)
      (cy_set_ctx (cp_tid x) (c\<lparr>cx_cno := of_nat (cp_n_compl x)\<rparr>) s))"
| stage: "x = cy_pipes s p \<Longrightarrow> cp_pc x = CP_Stage ver \<Longrightarrow> cx_cno (cy_ctx s (cp_tid x)) < ver \<Longrightarrow>
    cyclic_process_exit L N p s (cy_set_pipe p (x\<lparr>cp_pc := if cy_stage s (unat ver) \<ge> 1 then CP_Call else CP_Committed ver\<rparr>) s)"
| committed: "x = cy_pipes s p \<Longrightarrow> cp_pc x = CP_Committed ver \<Longrightarrow>
    cyclic_process_exit L N p s (cy_set_pipe p (x\<lparr>cp_pc := CP_Stage ver\<rparr>)
      (cy_set_ctx (cp_tid x) ((cy_ctx s (cp_tid x))\<lparr>cx_cno := of_nat (cy_committed s)\<rparr>) s))"
| stage_end: "x = cy_pipes s p \<Longrightarrow> cp_pc x = CP_Stage ver \<Longrightarrow> \<not> cx_cno (cy_ctx s (cp_tid x)) < ver \<Longrightarrow>
    cyclic_process_exit L N p s (cy_set_pipe p (x\<lparr>cp_pc := CP_Call\<rparr>) s)"
| call: "x = cy_pipes s p \<Longrightarrow> cp_pc x = CP_Call \<Longrightarrow> c = cy_ctx s (cp_tid x) \<Longrightarrow>
    lib_handlers L (cx_op c) c (cy_mem s) = Some (op', c', m') \<Longrightarrow>
    cyclic_process_exit L N p s (cy_set_pipe p (x\<lparr>cp_n_compl := unat (cx_cno c), cp_pc := CP_Pop\<rparr>)
      (cy_set_ctx (cp_tid x) (c'\<lparr>cx_op := op'\<rparr>) (s\<lparr>cy_mem := m'\<rparr>)))"
| pop: "x = cy_pipes s p \<Longrightarrow> cp_pc x = CP_Pop \<Longrightarrow> cy_available s = w # ws \<Longrightarrow>
    cyclic_process_exit L N p s (cy_set_pipe p (x\<lparr>cp_pc := CP_Assign w\<rparr>) (s\<lparr>cy_available := ws\<rparr>))"
| assign: "x = cy_pipes s p \<Longrightarrow> cp_pc x = CP_Assign w \<Longrightarrow>
    cyclic_process_exit L N p s (cy_set_pipe p (cyclic_next N x) (s\<lparr>cy_worker_tid := (cy_worker_tid s)(w := Some (cp_tid x))\<rparr>))"
| complete: "x = cy_pipes s p \<Longrightarrow> cp_pc x = CP_Op \<Longrightarrow> cyclic_exit N p x \<Longrightarrow> cx_op (cy_ctx s (cp_tid x)) = conctrl_DONE \<Longrightarrow>
    cyclic_process_exit L N p s (cy_set_pipe p (cyclic_next N x) (cy_set_stage (cp_tid x) \<infinity> s))"

section \<open>The workers\<close>

text \<open>\<^verbatim>\<open>worker_main_\<close> with \<^verbatim>\<open>wait_stage\<close>.\<close>

inductive cyclic_worker_step ::
  "('x ctx_scheme, 'm) index_lib \<Rightarrow> nat \<Rightarrow> ('x ctx_scheme, 'm) concow_cyclic \<Rightarrow> ('x ctx_scheme, 'm) concow_cyclic \<Rightarrow> bool" for L w where
  poll: "x = cy_workers s w \<Longrightarrow> cw_pc x = CW_Poll \<Longrightarrow> cy_worker_tid s w = Some tid \<Longrightarrow> tid \<noteq> cw_last x \<Longrightarrow>
    cyclic_worker_step L w s (cy_set_worker w (x\<lparr>cw_tid := tid, cw_stage := 1, cw_pc := CW_Loop\<rparr>) s)"
| quit: "x = cy_workers s w \<Longrightarrow> cw_pc x = CW_Poll \<Longrightarrow> cy_worker_tid s w = None \<Longrightarrow>
    cyclic_worker_step L w s (cy_set_worker w (x\<lparr>cw_pc := CW_Done\<rparr>) s)"
| loop: "x = cy_workers s w \<Longrightarrow> cw_pc x = CW_Loop \<Longrightarrow> c = cy_ctx s (cw_tid x) \<Longrightarrow> cx_op c \<noteq> conctrl_DONE \<Longrightarrow>
    lib_ver L (cx_t_past c) (cy_mem s) = Some ver \<Longrightarrow>
    cyclic_worker_step L w s (cy_set_worker w (x\<lparr>cw_pc := CW_Stage ver\<rparr>) s)"
| loop_end: "x = cy_workers s w \<Longrightarrow> cw_pc x = CW_Loop \<Longrightarrow> cx_op (cy_ctx s (cw_tid x)) = conctrl_DONE \<Longrightarrow>
    cyclic_worker_step L w s (cy_set_worker w (x\<lparr>cw_pc := CW_Finish\<rparr>) s)"
| stage: "x = cy_workers s w \<Longrightarrow> cw_pc x = CW_Stage ver \<Longrightarrow> cx_cno (cy_ctx s (cw_tid x)) < ver \<Longrightarrow>
    cyclic_worker_step L w s (cy_set_worker w
      (x\<lparr>cw_pc := if cy_stage s (unat ver) \<ge> enat (Suc (cw_stage x)) then CW_Call else CW_Committed ver\<rparr>) s)"
| committed: "x = cy_workers s w \<Longrightarrow> cw_pc x = CW_Committed ver \<Longrightarrow>
    cyclic_worker_step L w s (cy_set_worker w (x\<lparr>cw_pc := CW_Stage ver\<rparr>)
      (cy_set_ctx (cw_tid x) ((cy_ctx s (cw_tid x))\<lparr>cx_cno := of_nat (cy_committed s)\<rparr>) s))"
| stage_end: "x = cy_workers s w \<Longrightarrow> cw_pc x = CW_Stage ver \<Longrightarrow> \<not> cx_cno (cy_ctx s (cw_tid x)) < ver \<Longrightarrow>
    cyclic_worker_step L w s (cy_set_worker w (x\<lparr>cw_pc := CW_Call\<rparr>) s)"
| call: "x = cy_workers s w \<Longrightarrow> cw_pc x = CW_Call \<Longrightarrow> c = cy_ctx s (cw_tid x) \<Longrightarrow>
    lib_handlers L (cx_op c) c (cy_mem s) = Some (op', c', m') \<Longrightarrow>
    cyclic_worker_step L w s (cy_set_worker w (x\<lparr>cw_pc := CW_Store\<rparr>) (cy_set_ctx (cw_tid x) (c'\<lparr>cx_op := op'\<rparr>) (s\<lparr>cy_mem := m'\<rparr>)))"
| store: "x = cy_workers s w \<Longrightarrow> cw_pc x = CW_Store \<Longrightarrow>
    cyclic_worker_step L w s (cy_set_worker w (x\<lparr>cw_stage := Suc (cw_stage x), cw_pc := CW_Loop\<rparr>)
      (cy_set_stage (unat (cx_sno (cy_ctx s (cw_tid x)))) (enat (cw_stage x)) s))"
| finish: "x = cy_workers s w \<Longrightarrow> cw_pc x = CW_Finish \<Longrightarrow>
    cyclic_worker_step L w s (cy_set_worker w (x\<lparr>cw_last := cw_tid x, cw_pc := CW_Push\<rparr>)
      (cy_set_stage (unat (cx_sno (cy_ctx s (cw_tid x)))) \<infinity> s))"
| push: "x = cy_workers s w \<Longrightarrow> cw_pc x = CW_Push \<Longrightarrow>
    cyclic_worker_step L w s (cy_set_worker w (x\<lparr>cw_pc := CW_Poll\<rparr>) (s\<lparr>cy_available := cy_available s @ [w]\<rparr>))"

section \<open>The whole\<close>

text \<open>With \<^term>\<open>N\<close> pipes and \<^term>\<open>W\<close> workers; the last two steps are those of the destructor.\<close>

inductive cyclic_step ::
  "('x ctx_scheme, 'm) index_lib \<Rightarrow> nat \<Rightarrow> nat \<Rightarrow> ('x ctx_scheme, 'm) concow_cyclic \<Rightarrow> ('x ctx_scheme, 'm) concow_cyclic \<Rightarrow> bool" for L N W where
  client: "cyclic_client_step s s' \<Longrightarrow> cyclic_step L N W s s'"
| monitor: "cyclic_monitor_step N s s' \<Longrightarrow> cyclic_step L N W s s'"
| loop: "p < N \<Longrightarrow> cyclic_pipe_loop N p s s' \<Longrightarrow> cyclic_step L N W s s'"
| entry: "p < N \<Longrightarrow> cyclic_process_entry p s s' \<Longrightarrow> cyclic_step L N W s s'"
| inner: "p < N \<Longrightarrow> cyclic_process_inner L N p s s' \<Longrightarrow> cyclic_step L N W s s'"
| exit: "p < N \<Longrightarrow> cyclic_process_exit L N p s s' \<Longrightarrow> cyclic_step L N W s s'"
| worker: "w < W \<Longrightarrow> cyclic_worker_step L w s s' \<Longrightarrow> cyclic_step L N W s s'"
| stop: "\<forall>i. cy_clients s i = CY_Idle \<Longrightarrow> cyclic_step L N W s (s\<lparr>cy_stop := True\<rparr>)"
| quit: "cy_stop s \<Longrightarrow> cm_pc s = CM_Done \<Longrightarrow> \<forall>p<N. cp_pc (cy_pipes s p) = CP_Done \<Longrightarrow> w < W \<Longrightarrow>
    cyclic_step L N W s (s\<lparr>cy_worker_tid := (cy_worker_tid s)(w := None)\<rparr>)"

text \<open>The constructor.\<close>

definition cyclic_init :: "nat \<Rightarrow> 'x ctx_scheme \<Rightarrow> addr \<Rightarrow> 'm \<Rightarrow> ('x ctx_scheme, 'm) concow_cyclic" where
  "cyclic_init W zero t_init m =
     \<lparr>cy_ctxs = (\<lambda>_. zero\<lparr>cx_op := conctrl_DONE\<rparr>)(0 := zero\<lparr>cx_op := conctrl_DONE, cx_sno := 0, cx_root := t_init\<rparr>),
      cy_stages = (\<lambda>_. \<infinity>), cy_mem = m, cy_root = t_init, cy_submitted = 0, cy_inited = 0, cy_committed = 0,
      cy_stop = False, cy_available = [0..<W], cy_pace = (\<lambda>_. 0), cy_worker_tid = (\<lambda>_. Some 0),
      cm_pc = CM_Poll, cm_stop = False, cm_submitted = 0, cm_inited = 0, cm_committed = 0, cm_next = 0,
      cy_pipes = (\<lambda>_. \<lparr>cp_pc = CP_Top, cp_base = 1, cp_off = 0, cp_last = 0, cp_epoch = 0, cp_final = False,
        cp_n_tasks = 0, cp_pred_pace = 0, cp_n_compl = 0\<rparr>),
      cy_workers = (\<lambda>_. \<lparr>cw_pc = CW_Poll, cw_tid = 0, cw_last = 0, cw_stage = 0\<rparr>),
      cy_clients = (\<lambda>_. CY_Idle)\<rparr>"

definition cyclic_query :: "(addr \<Rightarrow> 'm \<Rightarrow> 'r) \<Rightarrow> ('c, 'm) concow_cyclic \<Rightarrow> 'r" where
  "cyclic_query f s = f (cy_root s) (cy_mem s)"

definition cyclic_processed :: "nat \<Rightarrow> ('c, 'm) concow_cyclic \<Rightarrow> bool" where
  "cyclic_processed n s \<longleftrightarrow> \<not> cy_committed s < n"

inductive cyclic_reach ::
  "('x ctx_scheme, 'm) index_lib \<Rightarrow> nat \<Rightarrow> nat \<Rightarrow> ('x ctx_scheme, 'm) concow_cyclic \<Rightarrow> ('x ctx_scheme, 'm) concow_cyclic \<Rightarrow> bool" for L N W s0 where
  start: "cyclic_reach L N W s0 s0"
| step: "cyclic_reach L N W s0 s \<Longrightarrow> cyclic_step L N W s s' \<Longrightarrow> cyclic_reach L N W s0 s'"

end
