(* ===== verification/Concow_Cyclic_Correct.thy ===== *)
theory Concow_Cyclic_Correct
  imports Concow_Cyclic Concow_Correct
begin

text \<open>
  The order in which the pipes of the cyclic scheduler come to a task: from its entry once around the
  cycle, each pipe after the one before it, and a worker after all of them.
\<close>

section \<open>The order of the pipes\<close>

definition cp_working :: "cyclic_pipe \<Rightarrow> bool" where
  "cp_working x \<longleftrightarrow> cp_pc x \<notin> {CP_Top, CP_Drain, CP_Iter, CP_Task, CP_Done}"

text \<open>
  On numbers: \<^term>\<open>pos p\<close> is the task pipe \<^term>\<open>p\<close> is at, \<^term>\<open>busy p\<close> says that it has begun to work on
  it, \<^term>\<open>T\<close> are the tasks of workers. A pipe that is not the entry of a task comes to it after its
  predecessor has left it.
\<close>

definition pipe_order :: "nat \<Rightarrow> nat \<Rightarrow> (nat \<Rightarrow> nat) \<Rightarrow> (nat \<Rightarrow> bool) \<Rightarrow> nat \<Rightarrow> nat \<Rightarrow> bool" where
  "pipe_order N p pos busy q t \<longleftrightarrow> (0 < t \<and> (t - 1) mod N \<noteq> q \<and> (t < pos q \<or> t = pos q \<and> busy q) \<longrightarrow> t < pos p)"

definition cyclic_order :: "nat \<Rightarrow> (nat \<Rightarrow> nat) \<Rightarrow> (nat \<Rightarrow> bool) \<Rightarrow> (nat \<Rightarrow> nat) \<Rightarrow> (nat \<Rightarrow> nat) \<Rightarrow> nat set \<Rightarrow> bool" where
  "cyclic_order N pos busy pace cache T \<longleftrightarrow>
     (\<forall>p<N. pace (Suc p mod N) < pos p \<and> cache p \<le> pace p \<and> (\<forall>t. pipe_order N p pos busy (Suc p mod N) t)) \<and>
     (\<forall>t\<in>T. \<forall>p<N. t < pos p)"

lemma cyclic_orderD:
  assumes "cyclic_order N pos busy pace cache T" "p < N"
  shows "pace (Suc p mod N) < pos p" "cache p \<le> pace p" "pipe_order N p pos busy (Suc p mod N) t" "t \<in> T \<Longrightarrow> t < pos p"
  using assms by (auto simp: cyclic_order_def)

text \<open>Every pipe is the successor of one.\<close>

lemma cyclic_pred:
  assumes "q < (N :: nat)"
  obtains p where "p < N" "q = Suc p mod N"
proof (cases q)
  case 0
  then show thesis using assms by (intro that [of "N - 1"]) auto
next
  case (Suc p)
  then show thesis using assms by (intro that [of p]) auto
qed

lemma cyclic_order_quiet:
  assumes o: "cyclic_order N pos busy pace cache T" and p: "busy' \<longrightarrow> busy p" "c \<le> pace p"
  shows "cyclic_order N pos (busy(p := busy')) pace (cache(p := c)) T"
proof -
  have "pipe_order N q pos (busy(p := busy')) r t" if "pipe_order N q pos busy r t" for q r t
    using that p(1) by (auto simp: pipe_order_def)
  moreover have "(cache(p := c)) q \<le> pace q" if "cache q \<le> pace q" for q using that p(2) by simp
  ultimately show ?thesis using o by (simp add: cyclic_order_def)
qed

lemma cyclic_order_tasks: "cyclic_order N pos busy pace cache T \<Longrightarrow> T' \<subseteq> T \<Longrightarrow> cyclic_order N pos busy pace cache T'"
  by (auto simp: cyclic_order_def)

text \<open>A pipe begins to work on its task: it is the entry, or its predecessor has let it.\<close>

lemma cyclic_order_begin:
  assumes o: "cyclic_order N pos busy pace cache T" and p: "p < N" and b: "(pos p - 1) mod N = p \<or> pos p \<le> cache p"
  shows "cyclic_order N pos (busy(p := True)) pace cache T"
proof -
  have "pipe_order N q pos (busy(p := True)) (Suc q mod N) t" if q: "q < N" for q t
  proof (cases "Suc q mod N = p \<and> t = pos p")
    case True
    have "pos p < pos q" if "pos p \<le> cache p"
      using that cyclic_orderD(2) [OF o p] cyclic_orderD(1) [OF o q] True by simp
    with True b show ?thesis by (auto simp: pipe_order_def)
  next
    case False
    then show ?thesis using cyclic_orderD(3) [OF o q, of t] by (auto simp: pipe_order_def)
  qed
  with o show ?thesis by (simp add: cyclic_order_def)
qed

text \<open>A pipe leaves its task, for its successor, for a worker, or finished.\<close>

lemma cyclic_order_leave:
  assumes o: "cyclic_order N pos busy pace cache T" and p: "p < N" "busy p"
    and pace': "pace' = pace \<or> pace' = pace(Suc p mod N := pos p)"
  shows "cyclic_order N (pos(p := Suc (pos p))) (busy(p := False)) pace' cache T"
proof -
  have inj: "q = p" if "q < N" "Suc q mod N = Suc p mod N" for q
    using that p(1) by (metis Suc_inject Suc_lessI mod_less mod_self nat.distinct(1))
  have "pipe_order N q (pos(p := Suc (pos p))) (busy(p := False)) (Suc q mod N) t" if q: "q < N" for q t
    using cyclic_orderD(3) [OF o q, of t] p(2) by (auto simp: pipe_order_def less_Suc_eq)
  moreover have "pace' (Suc q mod N) < (pos(p := Suc (pos p))) q" if q: "q < N" for q
    using cyclic_orderD(1) [OF o q] pace' inj [OF q] by (auto simp: less_Suc_eq)
  moreover have "cache q \<le> pace' q" if q: "q < N" for q 
    using cyclic_orderD(2) [OF o q] cyclic_orderD(1) [OF o p(1)] pace' by auto
  moreover have "\<forall>t\<in>T. \<forall>q<N. t < (pos(p := Suc (pos p))) q" using o by (auto simp: cyclic_order_def less_Suc_eq)
  ultimately show ?thesis by (simp add: cyclic_order_def)
qed

text \<open>All the pipes before one, from the entry on, have left its task.\<close>

lemma cyclic_order_before:
  assumes o: "cyclic_order N pos busy pace cache T" and t: "0 < t"
  shows "i < N \<Longrightarrow> j < i \<Longrightarrow> t < pos ((t - 1 + i) mod N) \<or> t = pos ((t - 1 + i) mod N) \<and> busy ((t - 1 + i) mod N) \<Longrightarrow>
    t < pos ((t - 1 + j) mod N)"
proof (induction i arbitrary: j)
  case (Suc i)
  let ?p = "(t - 1 + i) mod N" and ?q = "(t - 1 + Suc i) mod N"
  have p: "?p < N" using Suc.prems(1) by simp
  have q: "Suc ?p mod N = ?q" by (simp add: mod_Suc_eq)
  have "?q \<noteq> (t - 1) mod N"
  proof
    assume e: "?q = (t - 1) mod N"
    then have "N dvd (t - 1 + Suc i) - (t - 1)" by (metis le_add1 mod_eq_dvd_iff_nat)
    then show False using Suc.prems(1) by (auto dest: dvd_imp_le)
  qed
  then have lt: "t < pos ?p" using cyclic_orderD(3) [OF o p, of t] Suc.prems(3) t unfolding q pipe_order_def by auto
  show ?case
  proof (cases "j = i")
    case False
    then show ?thesis using Suc.IH [of j] Suc.prems lt by auto
  qed (use lt in simp)
qed simp

text \<open>Every pipe has a place in the cycle.\<close>

lemma cyclic_place:
  assumes "r < (N :: nat)"
  obtains i where "i < N" "(t + i) mod N = r"
proof -
  let ?e = "t mod N" let ?i = "(r + N - ?e) mod N"
  have e: "?e < N" using assms by simp
  have "(t + ?i) mod N = (t + (r + N - ?e)) mod N" by (rule mod_add_right_eq)
  also have "\<dots> = (?e + (r + N - ?e)) mod N" by (rule mod_add_left_eq [symmetric])
  also have "?e + (r + N - ?e) = r + N" using e by linarith
  finally have "(t + ?i) mod N = r" using assms by simp
  then show thesis using assms by (intro that [of ?i]) simp_all
qed

lemma cyclic_order_exclusive:
  assumes o: "cyclic_order N pos busy pace cache T" and pq: "p < N" "q < N" "p \<noteq> q" "busy p" "busy q" and t: "0 < pos p"
  shows "pos p \<noteq> pos q"
proof
  assume e: "pos p = pos q"
  let ?t = "pos p"
  obtain i where i: "i < N" "(?t - 1 + i) mod N = p" using cyclic_place [OF pq(1)] .
  obtain j where j: "j < N" "(?t - 1 + j) mod N = q" using cyclic_place [OF pq(2)] .
  consider "j < i" | "i < j" using i(2) j(2) pq(3) by (metis linorder_neqE_nat)
  then show False
  proof cases
    case 1
    from cyclic_order_before [OF o t i(1) 1] i j pq(4,5) e show False by simp
  next
    case 2
    from cyclic_order_before [OF o t j(1) 2] i j pq(4,5) e show False by simp
  qed
qed

text \<open>The exit comes to a task after all the other pipes.\<close>

lemma cyclic_order_exit:
  assumes o: "cyclic_order N pos busy pace cache T" and p: "p < N" "busy p" "Suc p mod N = (pos p - 1) mod N" and q: "q < N" "q \<noteq> p" and t: "0 < pos p"
  shows "pos p < pos q"
proof -
  let ?t = "pos p"
  obtain j where j: "j < N" "(?t - 1 + j) mod N = q" using cyclic_place [OF q(1)] .
  obtain i where i: "i < N" "(?t - 1 + i) mod N = p" using cyclic_place [OF p(1)] .
  have "Suc i = N"
  proof (rule ccontr)
    assume "Suc i \<noteq> N"
    then have "Suc i < N" using i(1) by simp
    moreover have "(?t - 1 + Suc i) mod N = (?t - 1) mod N" using p(3) i(2) by (metis add_Suc_right mod_Suc_eq)
    then have "N dvd (?t - 1 + Suc i) - (?t - 1)" by (metis le_add1 mod_eq_dvd_iff_nat)
    ultimately show False by (auto dest: dvd_imp_le)
  qed
  then have "j < i" using i(2) j q(2) by (metis less_Suc_eq)
  from cyclic_order_before [OF o t i(1) this] i j p(2) show ?thesis by simp
qed

section \<open>The invariant\<close>

text \<open>A pipe goes through the tasks one by one, from batch to batch.\<close>

fun exit_pc :: "cp_pc \<Rightarrow> bool" where
  "exit_pc (CP_Stage ver) = True" | "exit_pc (CP_Committed ver) = True" | "exit_pc CP_Call = True" | "exit_pc CP_Pop = True"
| "exit_pc (CP_Assign w) = True" | "exit_pc _ = False"

definition pos_ok :: "nat \<Rightarrow> nat \<Rightarrow> cyclic_pipe \<Rightarrow> bool" where
  "pos_ok N p x \<longleftrightarrow> (exit_pc (cp_pc x) \<longrightarrow> cyclic_exit N p x) \<and> cp_off x < N \<and> (\<exists>k. cp_base x = Suc (k * N)) \<and>
     (cp_pc x = CP_Top \<or> cp_pc x = CP_Drain \<longrightarrow> \<not> cp_final x \<and> cp_off x = 0 \<and> cp_base x = Suc (cp_epoch x * cyclic_BATCH_SIZE N)) \<and>
     (cp_pc x = CP_Iter \<longrightarrow> cp_off x = 0) \<and>
     (cp_pc x \<noteq> CP_Top \<and> cp_pc x \<noteq> CP_Drain \<and> \<not> cp_final x \<longrightarrow>
        cp_last x = Suc (cp_epoch x) * cyclic_BATCH_SIZE N \<and> cp_base x \<le> Suc (cp_last x) \<and> (cp_pc x \<noteq> CP_Iter \<longrightarrow> cp_base x \<le> cp_last x))"

definition cy_tasks :: "('c, 'm) concow_cyclic \<Rightarrow> nat set" where
  "cy_tasks s = {t. \<exists>w. cy_worker_tid s w = Some t} \<union> range (\<lambda>w. cw_tid (cy_workers s w))"

definition cyclic_inv :: "nat \<Rightarrow> ('c, 'm) concow_cyclic \<Rightarrow> bool" where
  "cyclic_inv N s \<longleftrightarrow> (\<forall>p<N. pos_ok N p (cy_pipes s p)) \<and>
     cyclic_order N (\<lambda>p. cp_tid (cy_pipes s p)) (\<lambda>p. cp_working (cy_pipes s p)) (cy_pace s) (\<lambda>p. cp_pred_pace (cy_pipes s p)) (cy_tasks s)"

lemma fun_upd_proj: "(\<lambda>q. f ((g(p := x)) q)) = (\<lambda>q. f (g q))(p := f x)"
  by auto

lemma pos_ok_pos: "pos_ok N p x \<Longrightarrow> 0 < cp_tid x \<and> (cp_tid x - 1) mod N = cp_off x"
  by (auto simp: pos_ok_def cp_tid_def)

lemma cyc_inv_same:
  assumes "cyclic_inv N s" "cy_pipes s' = cy_pipes s" "cy_pace s' = cy_pace s" "cy_tasks s' \<subseteq> cy_tasks s"
  shows "cyclic_inv N s'"
  using assms cyclic_order_tasks by (auto simp: cyclic_inv_def)

lemma cyc_inv_quiet:
  assumes i: "cyclic_inv N s" and p: "p < N" and s': "cy_pipes s' = (cy_pipes s)(p := x')" "cy_pace s' = cy_pace s" "cy_tasks s' = cy_tasks s"
    and x': "pos_ok N p x'" "cp_tid x' = cp_tid (cy_pipes s p)" "cp_working x' \<longrightarrow> cp_working (cy_pipes s p)"
      "cp_pred_pace x' = cp_pred_pace (cy_pipes s p) \<or> cp_pred_pace x' = cy_pace s p"
  shows "cyclic_inv N s'"
proof -
  let ?pos = "\<lambda>p. cp_tid (cy_pipes s p)" and ?busy = "\<lambda>p. cp_working (cy_pipes s p)" and ?cache = "\<lambda>p. cp_pred_pace (cy_pipes s p)"
  have o: "cyclic_order N ?pos ?busy (cy_pace s) ?cache (cy_tasks s)" using i by (simp add: cyclic_inv_def)
  have "cp_pred_pace x' \<le> cy_pace s p" using x'(4) cyclic_orderD(2) [OF o p] by auto
  from cyclic_order_quiet [OF o x'(3) this] i x'(1,2) show ?thesis
    unfolding cyclic_inv_def s' fun_upd_proj by (simp add: fun_upd_idem)
qed

lemma cyc_inv_begin:
  assumes i: "cyclic_inv N s" and p: "p < N" and s': "cy_pipes s' = (cy_pipes s)(p := x')" "cy_pace s' = cy_pace s" "cy_tasks s' = cy_tasks s"
    and x': "x' = (cy_pipes s p)\<lparr>cp_pc := CP_Op\<rparr>" "cp_pc (cy_pipes s p) = CP_Task"
    and b: "cyclic_entry p (cy_pipes s p) \<or> cp_tid (cy_pipes s p) \<le> cp_pred_pace (cy_pipes s p)"
  shows "cyclic_inv N s'"
proof -
  let ?pos = "\<lambda>p. cp_tid (cy_pipes s p)" and ?busy = "\<lambda>p. cp_working (cy_pipes s p)" and ?cache = "\<lambda>p. cp_pred_pace (cy_pipes s p)"
  have o: "cyclic_order N ?pos ?busy (cy_pace s) ?cache (cy_tasks s)" and ok: "pos_ok N p (cy_pipes s p)" using i p by (simp_all add: cyclic_inv_def)
  have "(?pos p - 1) mod N = p \<or> ?pos p \<le> ?cache p" using b pos_ok_pos [OF ok] by (auto simp: cyclic_entry_def)
  from cyclic_order_begin [OF o p this] have "cyclic_order N ?pos (?busy(p := True)) (cy_pace s) ?cache (cy_tasks s)" .
  moreover have "pos_ok N p x'" using ok x' by (auto simp: pos_ok_def)
  ultimately show ?thesis
    using i x' unfolding cyclic_inv_def s' fun_upd_proj by (simp add: fun_upd_idem cp_tid_def cp_working_def)
qed

lemma next_ok:
  assumes "pos_ok N p x" "cp_working x"
  shows "pos_ok N p (cyclic_next N x) \<and> cp_tid (cyclic_next N x) = Suc (cp_tid x) \<and> \<not> cp_working (cyclic_next N x) \<and>
    cp_pred_pace (cyclic_next N x) = cp_pred_pace x"
proof (cases "Suc (cp_off x) < N")
  case True
  with assms show ?thesis by (auto simp: cyclic_next_def pos_ok_def cp_tid_def cp_working_def)
next
  case False
  obtain k where k: "cp_base x = Suc (k * N)" "Suc (cp_off x) = N" using assms(1) False by (auto simp: pos_ok_def)
  have base: "cp_base x + N \<le> Suc (cp_last x)" if "\<not> cp_final x"
  proof -
    have l: "cp_last x = (Suc (cp_epoch x) * cyclic_BATCH_ROUNDS) * N" "cp_base x \<le> cp_last x"
      using assms that by (auto simp: pos_ok_def cp_working_def cyclic_BATCH_SIZE_def algebra_simps)
    have "Suc (k * N) \<le> (Suc (cp_epoch x) * cyclic_BATCH_ROUNDS) * N" using l(2) unfolding l(1) k(1) .
    then have "k * N < (Suc (cp_epoch x) * cyclic_BATCH_ROUNDS) * N" by (rule Suc_le_lessD)
    then have "k < Suc (cp_epoch x) * cyclic_BATCH_ROUNDS" by (rule mult_less_cancel2 [THEN iffD1, THEN conjunct2])
    then have "Suc k * N \<le> (Suc (cp_epoch x) * cyclic_BATCH_ROUNDS) * N" by (intro mult_le_mono1) simp
    then show ?thesis using k(1) l(1) by simp
  qed
  have "Suc (k * N) + N = Suc (Suc k * N)" by simp
  with k have "\<exists>k'. cp_base x + N = Suc (k' * N)" by metis
  with assms k base show ?thesis by (auto simp: cyclic_next_def pos_ok_def cp_tid_def cp_working_def)
qed

lemma cyc_inv_leave:
  assumes i: "cyclic_inv N s" and p: "p < N" and s': "cy_pipes s' = (cy_pipes s)(p := cyclic_next N (cy_pipes s p))"
      "cy_pace s' = cy_pace s \<or> cy_pace s' = (cy_pace s)(Suc p mod N := cp_tid (cy_pipes s p))"
    and T: "cy_tasks s' \<subseteq> cy_tasks s \<or> cyclic_exit N p (cy_pipes s p) \<and> cy_tasks s' \<subseteq> insert (cp_tid (cy_pipes s p)) (cy_tasks s)"
    and w: "cp_working (cy_pipes s p)"
  shows "cyclic_inv N s'"
proof -
  let ?pos = "\<lambda>p. cp_tid (cy_pipes s p)" and ?busy = "\<lambda>p. cp_working (cy_pipes s p)" and ?cache = "\<lambda>p. cp_pred_pace (cy_pipes s p)"
  have o: "cyclic_order N ?pos ?busy (cy_pace s) ?cache (cy_tasks s)" and ok: "pos_ok N p (cy_pipes s p)" using i p by (simp_all add: cyclic_inv_def)
  note nx = next_ok [OF ok w]
  have o': "cyclic_order N (?pos(p := Suc (?pos p))) (?busy(p := False)) (cy_pace s') ?cache (cy_tasks s)"
    by (rule cyclic_order_leave [OF o p w s'(2)])
  have "\<forall>q<N. ?pos p < (?pos(p := Suc (?pos p))) q" if "cyclic_exit N p (cy_pipes s p)"
    using cyclic_order_exit [OF o p w] that pos_ok_pos [OF ok] by (auto simp: cyclic_exit_def)
  then have "\<forall>t \<in> cy_tasks s'. \<forall>q<N. t < (?pos(p := Suc (?pos p))) q" using T o' unfolding cyclic_order_def by blast
  with o' have "cyclic_order N (?pos(p := Suc (?pos p))) (?busy(p := False)) (cy_pace s') ?cache (cy_tasks s')" by (simp add: cyclic_order_def)
  with i nx show ?thesis unfolding cyclic_inv_def s'(1) fun_upd_proj by (simp add: fun_upd_idem)
qed

section \<open>The steps\<close>

lemma cy_set_simps [simp]:
  "cy_pipes (cy_set_pipe p x s) = (cy_pipes s)(p := x)" "cy_pace (cy_set_pipe p x s) = cy_pace s" "cy_tasks (cy_set_pipe p x s) = cy_tasks s"
  "cy_pipes (cy_set_ctx t c s) = cy_pipes s" "cy_pace (cy_set_ctx t c s) = cy_pace s" "cy_tasks (cy_set_ctx t c s) = cy_tasks s"
  "cy_pipes (cy_set_stage t e s) = cy_pipes s" "cy_pace (cy_set_stage t e s) = cy_pace s" "cy_tasks (cy_set_stage t e s) = cy_tasks s"
  "cy_pipes (cy_set_client j k s) = cy_pipes s" "cy_pace (cy_set_client j k s) = cy_pace s" "cy_tasks (cy_set_client j k s) = cy_tasks s"
  "cy_pipes (cy_set_worker w y s) = cy_pipes s" "cy_pace (cy_set_worker w y s) = cy_pace s"
  "cy_tasks (s\<lparr>cy_mem := m\<rparr>) = cy_tasks s" "cy_tasks (s\<lparr>cy_submitted := n\<rparr>) = cy_tasks s" "cy_tasks (s\<lparr>cy_available := ws\<rparr>) = cy_tasks s"
  "cy_tasks (s\<lparr>cy_pace := f\<rparr>) = cy_tasks s" "cy_tasks (s\<lparr>cy_stop := b\<rparr>) = cy_tasks s" "cy_tasks (s\<lparr>cm_pc := pc\<rparr>) = cy_tasks s"
  "cy_tasks (s\<lparr>cm_next := n\<rparr>) = cy_tasks s"
  by (simp_all add: cy_set_pipe_def cy_set_ctx_def cy_set_stage_def cy_set_client_def cy_set_worker_def cy_tasks_def)

lemma cyc_inv_worker_set:
  assumes "cyclic_inv N s" "cy_pipes s1 = cy_pipes s" "cy_pace s1 = cy_pace s" "cy_worker_tid s1 = cy_worker_tid s"
    "cy_workers s1 = cy_workers s" "cw_tid y = cw_tid (cy_workers s w) \<or> cy_worker_tid s w = Some (cw_tid y)"
  shows "cyclic_inv N (cy_set_worker w y s1)"
  using assms(2-6) by (intro cyc_inv_same [OF assms(1)]) (auto simp: cy_tasks_def cy_set_worker_def split: if_splits)

lemma cyc_inv_client: "cyclic_client_step s s' \<Longrightarrow> cyclic_inv N s \<Longrightarrow> cyclic_inv N s'"
  by (induction rule: cyclic_client_step.induct) (erule cyc_inv_same; simp)+

lemma cyc_inv_monitor: "cyclic_monitor_step N s s' \<Longrightarrow> cyclic_inv N s \<Longrightarrow> cyclic_inv N s'"
  by (induction rule: cyclic_monitor_step.induct) (erule cyc_inv_same; simp add: cy_tasks_def)+

lemma cyc_inv_worker: "cyclic_worker_step L w s s' \<Longrightarrow> cyclic_inv N s \<Longrightarrow> cyclic_inv N s'"
  by (induction rule: cyclic_worker_step.induct) (erule cyc_inv_worker_set; simp add: cy_set_ctx_def cy_set_stage_def)+

lemma cyc_inv_pipe_ok: "cyclic_inv N s \<Longrightarrow> p < N \<Longrightarrow> pos_ok N p (cy_pipes s p)"
  by (simp add: cyclic_inv_def)

lemma cyc_inv_loop: "cyclic_pipe_loop N p s s' \<Longrightarrow> p < N \<Longrightarrow> cyclic_inv N s \<Longrightarrow> cyclic_inv N s'"
proof (induction rule: cyclic_pipe_loop.induct)
  case (batch x s)
  have ok: "pos_ok N p x" using cyc_inv_pipe_ok [OF batch(5,4)] batch(1) by simp
  have "cp_epoch x * cyclic_BATCH_SIZE N = (cp_epoch x * cyclic_BATCH_ROUNDS) * N" by (simp add: cyclic_BATCH_SIZE_def)
  then show ?case using ok batch
    by (intro cyc_inv_quiet [OF batch(5,4)]) (auto simp: pos_ok_def cp_tid_def cp_working_def)
next
  case (epoch x s)
  have ok: "pos_ok N p x" using cyc_inv_pipe_ok [OF epoch(6,5)] epoch(1) by simp
  then show ?case using epoch by (intro cyc_inv_quiet [OF epoch(6,5)]) (auto simp: pos_ok_def cp_tid_def cp_working_def)
next
  case (stop x s)
  then show ?case using cyc_inv_pipe_ok [OF stop(5,4)] by (intro cyc_inv_quiet [OF stop(5,4)]) (auto simp: pos_ok_def cp_tid_def cp_working_def)
next
  case (drain x s)
  then show ?case using cyc_inv_pipe_ok [OF drain(4,3)] by (intro cyc_inv_quiet [OF drain(4,3)]) (auto simp: pos_ok_def cp_tid_def cp_working_def)
next
  case (round x s)
  then show ?case using cyc_inv_pipe_ok [OF round(5,4)] by (intro cyc_inv_quiet [OF round(5,4)]) (auto simp: pos_ok_def cp_tid_def cp_working_def)
next
  case (finish x s)
  then show ?case using cyc_inv_pipe_ok [OF finish(6,5)] by (intro cyc_inv_quiet [OF finish(6,5)]) (auto simp: pos_ok_def cp_tid_def cp_working_def)
qed

lemma cyc_inv_entry: "cyclic_process_entry p s s' \<Longrightarrow> p < N \<Longrightarrow> cyclic_inv N s \<Longrightarrow> cyclic_inv N s'"
proof (induction rule: cyclic_process_entry.induct)
  case (wait x s)
  then show ?case using cyc_inv_pipe_ok [OF wait(6,5)] by (intro cyc_inv_quiet [OF wait(6,5), where x' = "x\<lparr>cp_n_tasks := cy_inited s\<rparr>"]) (auto simp: pos_ok_def cp_tid_def cp_working_def cyclic_exit_def)
next
  case (start x s)
  then show ?case by (intro cyc_inv_begin [OF start(6,5)]) auto
qed

text \<open>A step within the work on a task.\<close>

lemma cyc_inv_work:
  assumes "cyclic_inv N s" "p < N" "cy_pipes s' = (cy_pipes s)(p := (cy_pipes s p)\<lparr>cp_n_compl := n, cp_pc := pc\<rparr>)" "cy_pace s' = cy_pace s" "cy_tasks s' = cy_tasks s"
    "cp_working (cy_pipes s p)" "pc \<notin> {CP_Top, CP_Drain, CP_Iter, CP_Task, CP_Done}" "exit_pc pc \<longrightarrow> exit_pc (cp_pc (cy_pipes s p)) \<or> cyclic_exit N p (cy_pipes s p)"
  shows "cyclic_inv N s'"
  using assms(6-8) cyc_inv_pipe_ok [OF assms(1,2)]
  by (intro cyc_inv_quiet [OF assms(1-5)]) (auto simp: pos_ok_def cp_tid_def cp_working_def cyclic_exit_def)

lemma cyc_inv_inner: "cyclic_process_inner L N p s s' \<Longrightarrow> p < N \<Longrightarrow> cyclic_inv N s \<Longrightarrow> cyclic_inv N s'"
proof (induction rule: cyclic_process_inner.induct)
  case (wait x s)
  then show ?case using cyc_inv_pipe_ok [OF wait(6,5)] by (intro cyc_inv_quiet [OF wait(6,5), where x' = "x\<lparr>cp_pred_pace := cy_pace s p\<rparr>"]) (auto simp: pos_ok_def cp_tid_def cp_working_def cyclic_exit_def)
next
  case (start x s)
  then show ?case by (intro cyc_inv_begin [OF start(6,5)]) auto
next
  case (call x s c op' c' m')
  then show ?case by (intro cyc_inv_work [OF call(8,7), where pc = CP_Advance and n = "cp_n_compl x"]) (simp_all add: cp_working_def)
next
  case (skip x s)
  then show ?case by (intro cyc_inv_work [OF skip(6,5), where pc = CP_Advance and n = "cp_n_compl x"]) (simp_all add: cp_working_def)
next
  case (advance x s)
  then show ?case by (intro cyc_inv_leave [OF advance(4,3)]) (simp_all add: cp_working_def)
qed

lemma cyc_inv_exit: "cyclic_process_exit L N p s s' \<Longrightarrow> p < N \<Longrightarrow> cyclic_inv N s \<Longrightarrow> cyclic_inv N s'"
proof (induction rule: cyclic_process_exit.induct)
  case (start x s c ver)
  then show ?case by (intro cyc_inv_work [OF start(8,7), where pc = "CP_Stage ver" and n = "cp_n_compl x"]) (simp_all add: cp_working_def)
next
  case (stage x s ver)
  then show ?case
    by (intro cyc_inv_work [OF stage(5,4), where pc = "if cy_stage s (unat ver) \<ge> 1 then CP_Call else CP_Committed ver" and n = "cp_n_compl x"]) (simp_all add: cp_working_def)
next
  case (committed x s ver)
  then show ?case by (intro cyc_inv_work [OF committed(4,3), where pc = "CP_Stage ver" and n = "cp_n_compl x"]) (simp_all add: cp_working_def)
next
  case (stage_end x s ver)
  then show ?case by (intro cyc_inv_work [OF stage_end(5,4), where pc = CP_Call and n = "cp_n_compl x"]) (simp_all add: cp_working_def)
next
  case (call x s c op' c' m')
  then show ?case by (intro cyc_inv_work [OF call(6,5), where pc = CP_Pop and n = "unat (cx_cno c)"]) (simp_all add: cp_working_def)
next
  case (pop x s v ws)
  then show ?case by (intro cyc_inv_work [OF pop(5,4), where pc = "CP_Assign v" and n = "cp_n_compl x"]) (simp_all add: cp_working_def)
next
  case (assign x s v)
  have "cy_tasks (cy_set_pipe p (cyclic_next N x) (s\<lparr>cy_worker_tid := (cy_worker_tid s)(v := Some (cp_tid x))\<rparr>)) \<subseteq> insert (cp_tid x) (cy_tasks s)"
    by (auto simp: cy_tasks_def cy_set_pipe_def split: if_splits)
  moreover have "cyclic_exit N p x" using cyc_inv_pipe_ok [OF assign(4,3)] assign(1,2) by (simp add: pos_ok_def)
  ultimately show ?case using assign by (intro cyc_inv_leave [OF assign(4,3)]) (simp_all add: cp_working_def)
next
  case (complete x s)
  then show ?case by (intro cyc_inv_leave [OF complete(6,5)]) (simp_all add: cp_working_def)
qed

section \<open>Reachable states\<close>

lemma cyc_inv_step: "cyclic_step L N W s s' \<Longrightarrow> cyclic_inv N s \<Longrightarrow> cyclic_inv N s'"
proof (induction rule: cyclic_step.induct)
  case (stop s)
  then show ?case by (intro cyc_inv_same [OF stop(2)]) simp_all
next
  case (quit s w)
  then show ?case by (intro cyc_inv_same [OF quit(5)]) (auto simp: cy_tasks_def split: if_splits)
qed (blast intro: cyc_inv_client cyc_inv_monitor cyc_inv_loop cyc_inv_entry cyc_inv_inner cyc_inv_exit cyc_inv_worker)+

lemma cyc_inv_init: "0 < N \<Longrightarrow> cyclic_inv N (cyclic_init W zero t_init m)"
  by (auto simp: cyclic_inv_def cyclic_order_def pipe_order_def pos_ok_def cyclic_init_def cp_tid_def cp_working_def cy_tasks_def)

lemma cyc_inv_reach: "cyclic_reach L N W (cyclic_init W zero t_init m) s \<Longrightarrow> 0 < N \<Longrightarrow> cyclic_inv N s"
  by (induction rule: cyclic_reach.induct) (auto intro: cyc_inv_init cyc_inv_step)

text \<open>The destructor at work with nothing submitted; pipe 0 has begun to work on the first bubble.\<close>

lemma cy_reach_to [trans]: "cyclic_reach L N W s0 s \<Longrightarrow> cyclic_step L N W s s' \<Longrightarrow> cyclic_reach L N W s0 s'"
  by (rule cyclic_reach.step)

lemma cy_step_to: "cyclic_step L N W s u \<Longrightarrow> u = s' \<Longrightarrow> cyclic_step L N W s s'"
  by simp

definition cy_pipe_start :: cyclic_pipe where
  "cy_pipe_start = \<lparr>cp_pc = CP_Task, cp_base = 1, cp_off = 0, cp_last = 4096, cp_epoch = 0, cp_final = False,
     cp_n_tasks = 0, cp_pred_pace = 0, cp_n_compl = 0\<rparr>"

lemma cy_batch: "cyclic_BATCH_SIZE 2 = 4096"
  by (simp add: cyclic_BATCH_SIZE_def cyclic_BATCH_ROUNDS_def cc_batch)

lemmas cy_run_simps = cyclic_init_def cy_pipe_start_def cy_set_pipe_def cy_set_ctx_def cy_ctx_def cy_stage_def cyclic_entry_def cp_tid_def
  cy_batch cc_batch fun_eq_iff

lemma cyclic_bubble_reach:
  "cyclic_reach L 2 W (cyclic_init W zero t m) ((cyclic_init W zero t m)\<lparr>cy_pipes := (cy_pipes (cyclic_init W zero t m))
     (0 := cy_pipe_start\<lparr>cp_n_tasks := 4098, cp_pc := CP_Op\<rparr>), cy_stop := True, cm_stop := True, cm_pc := CM_Done, cy_inited := 4098,
     cy_ctxs := (cy_ctxs (cyclic_init W zero t m))(1 := zero\<lparr>cx_op := conctrl_DONE, cx_t_past := t\<rparr>)\<rparr>)" (is "cyclic_reach L 2 W ?s ?t")
proof -
  let ?x = cy_pipe_start
  have "cyclic_reach L 2 W ?s ?s" by (rule cyclic_reach.start)
  also have "cyclic_step L 2 W \<dots> (?s\<lparr>cy_pipes := (cy_pipes ?s)(0 := ?x\<lparr>cp_pc := CP_Iter\<rparr>)\<rparr>)"
    by (rule cy_step_to, rule cyclic_step.loop [where p = 0], simp, rule cyclic_pipe_loop.batch, rule refl, (simp add: cy_run_simps)+)
  also have "cyclic_step L 2 W \<dots> (?s\<lparr>cy_pipes := (cy_pipes ?s)(0 := ?x)\<rparr>)"
    by (rule cy_step_to, rule cyclic_step.loop [where p = 0], simp, rule cyclic_pipe_loop.round, rule refl, (simp add: cy_run_simps)+)
  also have "cyclic_step L 2 W \<dots> (?s\<lparr>cy_pipes := (cy_pipes ?s)(0 := ?x), cy_stop := True\<rparr>)"
    by (rule cy_step_to, rule cyclic_step.stop, (simp add: cy_run_simps)+)
  also have "cyclic_step L 2 W \<dots> (?s\<lparr>cy_pipes := (cy_pipes ?s)(0 := ?x), cy_stop := True, cm_stop := True, cm_pc := CM_Load\<rparr>)"
    by (rule cy_step_to, rule cyclic_step.monitor, rule cyclic_monitor_step.poll, (simp add: cy_run_simps)+)
  also have "cyclic_step L 2 W \<dots> (?s\<lparr>cy_pipes := (cy_pipes ?s)(0 := ?x), cy_stop := True, cm_stop := True, cm_pc := CM_Init\<rparr>)"
    by (rule cy_step_to, rule cyclic_step.monitor, rule cyclic_monitor_step.load, (simp add: cy_run_simps)+)
  also have "cyclic_step L 2 W \<dots> (?s\<lparr>cy_pipes := (cy_pipes ?s)(0 := ?x), cy_stop := True, cm_stop := True, cm_pc := CM_Advance\<rparr>)"
    by (rule cy_step_to, rule cyclic_step.monitor, rule cyclic_monitor_step.init_end, (simp add: cy_run_simps)+)
  also have "cyclic_step L 2 W \<dots> (?s\<lparr>cy_pipes := (cy_pipes ?s)(0 := ?x), cy_stop := True, cm_stop := True, cm_pc := CM_Collect\<rparr>)"
    by (rule cy_step_to, rule cyclic_step.monitor, rule cyclic_monitor_step.advance, (simp add: cy_run_simps)+)
  also have "cyclic_step L 2 W \<dots> (?s\<lparr>cy_pipes := (cy_pipes ?s)(0 := ?x), cy_stop := True, cm_stop := True, cm_pc := CM_Publish\<rparr>)"
    by (rule cy_step_to, rule cyclic_step.monitor, rule cyclic_monitor_step.collect_end, (simp add: cy_run_simps)+)
  also have "cyclic_step L 2 W \<dots> (?s\<lparr>cy_pipes := (cy_pipes ?s)(0 := ?x), cy_stop := True, cm_stop := True, cm_pc := CM_Poll\<rparr>)"
    by (rule cy_step_to, rule cyclic_step.monitor, rule cyclic_monitor_step.nothing_new, (simp add: cy_run_simps)+)
  also have "cyclic_step L 2 W \<dots> (?s\<lparr>cy_pipes := (cy_pipes ?s)(0 := ?x), cy_stop := True, cm_stop := True, cm_pc := CM_Done, cy_inited := 4098\<rparr>)"
    by (rule cy_step_to, rule cyclic_step.monitor, rule cyclic_monitor_step.finish, (simp add: cy_run_simps)+)
  also have "cyclic_step L 2 W \<dots> (?s\<lparr>cy_pipes := (cy_pipes ?s)(0 := ?x\<lparr>cp_n_tasks := 4098\<rparr>), cy_stop := True, cm_stop := True, cm_pc := CM_Done, cy_inited := 4098\<rparr>)"
    by (rule cy_step_to, rule cyclic_step.entry [where p = 0], simp, rule cyclic_process_entry.wait, rule refl, (simp add: cy_run_simps)+)
  also have "cyclic_step L 2 W \<dots> (?t)"
    by (rule cy_step_to, rule cyclic_step.entry [where p = 0], simp, rule cyclic_process_entry.start, rule refl, (simp add: cy_run_simps)+)
  finally show ?thesis .
qed

text \<open>
  C38. In every reachable state of the cyclic scheduler no two pipes work on the same task, a pipe
  works on a task as its entry, and reads the root of the task before it, only after the pipe before
  it in the cycle, the entry of that task, has left that one, and the task of a worker is one that
  every pipe at work has left.
\<close>

theorem cyclic_exclusive:
  assumes r: "cyclic_reach L N W (cyclic_init W zero t_init m) s" and N: "2 \<le> N" and p: "p < N" "cp_working (cy_pipes s p)"
  shows "(\<forall>q<N. q \<noteq> p \<longrightarrow> cp_working (cy_pipes s q) \<longrightarrow> cp_tid (cy_pipes s q) \<noteq> cp_tid (cy_pipes s p)) \<and>
    (\<forall>q<N. p = Suc q mod N \<longrightarrow> 1 < cp_tid (cy_pipes s p) \<longrightarrow> cyclic_entry p (cy_pipes s p) \<longrightarrow> cp_tid (cy_pipes s p) \<le> cp_tid (cy_pipes s q)) \<and>
    (\<forall>w. cw_tid (cy_workers s w) < cp_tid (cy_pipes s p))"
proof -
  let ?pos = "\<lambda>p. cp_tid (cy_pipes s p)" and ?busy = "\<lambda>p. cp_working (cy_pipes s p)" and ?cache = "\<lambda>p. cp_pred_pace (cy_pipes s p)"
  have i: "cyclic_inv N s" using cyc_inv_reach [OF r] N by simp
  then have o: "cyclic_order N ?pos ?busy (cy_pace s) ?cache (cy_tasks s)" by (simp add: cyclic_inv_def)
  note t = pos_ok_pos [OF cyc_inv_pipe_ok [OF i p(1)]]
  have "?pos q \<noteq> ?pos p" if "q < N" "q \<noteq> p" "?busy q" for q
    using cyclic_order_exclusive [OF o p(1) that(1) _ p(2) that(3)] that(2) t by auto
  moreover have "?pos p \<le> ?pos q" if q: "q < N" "p = Suc q mod N" "1 < ?pos p" "cyclic_entry p (cy_pipes s p)" for q
  proof -
    let ?t = "?pos p - 1"
    have e: "?t mod N = p" using t q(4) by (simp add: cyclic_entry_def)
    have "(?t - 1) mod N \<noteq> p"
    proof
      assume "(?t - 1) mod N = p"
      then have "?t mod N = Suc p mod N" using q(3) by (metis Suc_diff_1 mod_Suc_eq zero_less_diff)
      with e have "Suc p mod N = p" by simp
      then show False using p(1) N by (cases "Suc p = N") simp_all
    qed
    then have "?t < ?pos q" using cyclic_orderD(3) [OF o q(1), of ?t] q(2,3) by (simp add: pipe_order_def)
    then show ?thesis by simp
  qed
  moreover have "cw_tid (cy_workers s w) < ?pos p" for w
    by (rule cyclic_orderD(4) [OF o p(1)]) (simp add: cy_tasks_def)
  ultimately show ?thesis by blast
qed

theorem cyclic_exclusive_witness:
  "\<exists>s. cyclic_reach btree_lib 2 1 (cyclic_init 1 (btree_demo_ctx 0 0) 1 (btree_demo 1 [])) s \<and> cp_working (cy_pipes s 0) \<and>
     cp_tid (cy_pipes s 0) = 1 \<and> (\<forall>w. cw_tid (cy_workers s w) < 1)"
proof -
  let ?s = "cyclic_init 1 (btree_demo_ctx 0 0) 1 (btree_demo 1 [])"
  let ?t = "?s\<lparr>cy_pipes := (cy_pipes ?s)(0 := cy_pipe_start\<lparr>cp_n_tasks := 4098, cp_pc := CP_Op\<rparr>), cy_stop := True, cm_stop := True,
     cm_pc := CM_Done, cy_inited := 4098, cy_ctxs := (cy_ctxs ?s)(1 := (btree_demo_ctx 0 0)\<lparr>cx_op := conctrl_DONE, cx_t_past := 1\<rparr>)\<rparr>"
  have r: "cyclic_reach btree_lib 2 1 ?s ?t" by (rule cyclic_bubble_reach)
  have p: "cp_working (cy_pipes ?t 0)" "cp_tid (cy_pipes ?t 0) = 1" by (simp_all add: cp_working_def cp_tid_def cy_pipe_start_def)
  from cyclic_exclusive [OF r _ _ p(1)] have "\<forall>w. cw_tid (cy_workers ?t w) < 1" unfolding p(2) by simp
  with r p show ?thesis by blast
qed

end
