(* ===== verification/Spec2Isabelle.thy ===== *)
theory Spec2Isabelle
  imports Btree_Seqcow Betree_Correct Art_Seqcow Concow_Correct Mpsc_List Inplace_Run Aert_Load Concow_Cyclic_Correct
begin

text \<open>
  Contrees: indexes that are updated by copy on write and read without locks. The repository
  has tree libraries under \<^verbatim>\<open>src/lib/trees\<close> (\<^verbatim>\<open>btree\<close>, the elastic \<^verbatim>\<open>betree\<close>, the radix
  trees \<^verbatim>\<open>art\<close> and \<^verbatim>\<open>aert\<close>), schedulers under \<^verbatim>\<open>src/lib/conctrl\<close> that drive the updates of
  such a library from many threads (\<^verbatim>\<open>seqcow\<close>, \<^verbatim>\<open>concow\<close>, \<^verbatim>\<open>concow_cyclic\<close>), adapters in
  \<^verbatim>\<open>src/src/adapters\<close> that put the two together, and a benchmark around them.

  How the parts interact. An index has three kinds of operations: an in-place update for the
  loader, queries, and a copy-on-write update, split into stages. A stage is a handler that takes
  the context of the update, does the work of one node and returns the number of the next stage;
  a scheduler calls the handlers of a table until the stage is \<^verbatim>\<open>DONE\<close>, and publishes the root.

  Memory. The prelude models the heap as a partial map from 64-bit addresses to node records and
  the allocator as a list of blocks not yet handed out, with arbitrary contents. Every access
  through a pointer and every access to an array in a node is an option: \<open>None\<close> is a fault (a
  null or freed pointer, an index outside the array, no block left), so a theorem that an
  operation returns \<open>Some\<close> says that it makes no invalid access. An assumption \<open>mem_ok P k m\<close>
  says that \<open>k\<close> more blocks can be allocated. Loops that follow pointers take fuel, \<open>None\<close> when
  it runs out, and every theorem says which fuel is enough. The queries of the abstract
  specification, the update \<open>kv_upd\<close> and the scan \<open>kv_scan\<close> of an ordered list of bindings, are in
  \<open>Ordered_Map\<close>; the record of a context and the loop over stages are in \<open>Conctrl_Context\<close>
  (\<^verbatim>\<open>lib/conctrl/context.hpp\<close>).

  \<^item> \<open>Prelude\<close>: arrays (\<^verbatim>\<open>lib/common/arrayops.hpp\<close>), memory, \<open>heap_step\<close> for what an operation
    may change: the cells it owns before and after, all others unchanged.
  \<^item> \<open>Btree_Node\<close>, \<open>Btree_Query\<close>, \<open>Btree_Leaf\<close>, \<open>Btree_Inplace\<close>, \<open>Btree_Cow\<close>, \<open>Btree_Build\<close>:
    \<^verbatim>\<open>lib/trees/btree\<close>, file by file, each with the lemmas that relate it to the functional tree of
    \<open>Btree_Spec\<close> through the representation relation of \<open>Btree_Repr\<close>. \<open>Btree_Correct\<close> has the
    properties: refinement of the ordered map by both kinds of update, queries, bulk loading, old
    versions unchanged, the height bound of 21 for 64-bit keys, on which the fuel rests, and two faults
    of the code.
  \<^item> \<open>Seqcow\<close>, \<open>Seqcow_Correct\<close>: \<^verbatim>\<open>lib/conctrl/seqcow.hpp\<close> as interleaved atomic steps of
    clients, worker and readers, and its contract with a tree library as a locale;
    \<open>Btree_Seqcow\<close> interprets the locale on the B+-tree and states the properties of the
    composition. \<^verbatim>\<open>BUFFER_SIZE\<close> is the constant of the code; a stage run gets 22 steps of fuel and an
    update at most 47 blocks, which the height bound makes enough.
  \<^item> \<open>Betree_Node\<close>, \<open>Betree_Query\<close>, \<open>Betree_Inplace\<close>, \<open>Betree_Child\<close>, \<open>Betree_Cow\<close>,
    \<open>Betree_Build\<close>, \<open>Betree_Rebuild\<close>: \<^verbatim>\<open>lib/trees/betree\<close>. Its nodes carry those of the B+-tree,
    and a projection lets the lemmas of the B+-tree serve it. \<open>Betree_Correct\<close> has the
    properties: updates, queries, bulk loading for any boundary height, rebuilding, and a fault.
  \<^item> \<open>Art_Node\<close>: the nodes of \<^verbatim>\<open>lib/trees/art\<close>, the four inner types and the leaf, and the
    operations of \<^verbatim>\<open>node_wrapper.hpp\<close>. A shift by 64 bits has no defined result in C++ and the code
    makes some; its result is the parameter \<open>ub\<close> of the definitions, so the theorems hold whatever it
    is. \<open>Art_Bytes\<close>: keys as byte strings. \<open>Art_Kids\<close>, \<open>Art_Grow\<close>, \<open>Art_Copy\<close>: a node of any
    type as a map from bytes to children, and what searching, appending and copying do to it.
    \<open>Art_Spec\<close>: the functional trie and its contents as an ordered map; its height is at most 8.
    \<open>Art_Repr\<close>: tries in memory, constructors and copies. \<open>Art_Query\<close>, \<open>Art_Inplace\<close>:
    \<^verbatim>\<open>query.hpp\<close>, \<^verbatim>\<open>update_inplace.hpp\<close> and \<^verbatim>\<open>build.hpp\<close>. \<open>Art_Correct\<close> has the properties: the
    in-place update refines the ordered map, queries, bulk loading; 9 levels of fuel are enough.
    \<open>Art_Cow\<close>: \<^verbatim>\<open>update_cow.hpp\<close>, \<^verbatim>\<open>handlers.hpp\<close>; \<open>Art_Cow_Correct\<close>: ten stages and eleven blocks are
    enough for an update, which refines the ordered map and leaves old versions alone; the fork of a
    leaf destroys its key, so a version made by updates (\<open>art_version\<close>) supports lookups, and only a
    loaded tree (\<open>art_inv\<close>) supports scans. \<open>Art_Seqcow\<close>: the radix tree under \<^verbatim>\<open>seqcow\<close>.
  \<^item> \<open>Inplace_Run\<close>: \<^verbatim>\<open>run_inplace_impl\<close> of \<^verbatim>\<open>src/src/main.cpp\<close>, which loads a tree and runs a workload on it,
    over the contract of a tree library as a locale, interpreted on \<^verbatim>\<open>btree\<close>, \<^verbatim>\<open>betree\<close> and \<^verbatim>\<open>art\<close>: any
    workload gets the answers of an ordered map from each of the three.
  \<^item> \<open>Aert_Node\<close>, \<open>Aert_Inplace\<close>, \<open>Aert_Query\<close>, \<open>Aert_Cow\<close>: \<^verbatim>\<open>lib/trees/aert\<close>, the radix tree whose nodes may
    branch on half a byte, with the half byte of a lone child kept in the pointer to it. \<open>Aert_Repr\<close>:
    pointers, half bytes and prefixes. \<open>Aert_Find\<close>: the tries of bytes that such nodes represent, and
    the loop of \<^verbatim>\<open>find\<close>, for which 17 rounds are enough. \<open>Aert_Correct\<close>: lookups, pointers give back
    what was put into them, and the two places where the code does not reckon with the half byte in a
    pointer, in the split of a copy and in scans. \<open>Aert_Load\<close>: loading two entries, with the fork of
    a leaf. Its other updates, into larger trees and by copy on write, have no functional theorem.
  \<^item> \<open>Concow\<close>: \<^verbatim>\<open>lib/conctrl/concow.hpp\<close> as interleaved steps of clients, monitor, pipes and
    workers. \<open>Concow_Inv\<close>: its invariant, which says in whose hands every task in the window of the
    ring is; \<open>Concow_Safe\<close>, \<open>Concow_Clients\<close>: every step keeps it. \<open>Concow_Index\<close>: what it asks of
    a tree library, as a locale (shown with the rules of \<open>Returns\<close>), interpreted on \<^verbatim>\<open>btree\<close>, \<^verbatim>\<open>betree\<close> and \<^verbatim>\<open>art\<close>. \<open>Concow_Use\<close>,
    \<open>Concow_Correct\<close>: contexts are used by one thread at a time, what queries see, the end of the
    pipeline. \<open>Concow_Calls\<close>: runs with the numbers of the calls of \<^verbatim>\<open>update\<close> that have returned, and how
    many of them a wait for a number of tasks covers; \<open>Concow_Long\<close>: a run of 65536 calls in which such a
    wait ends too early. A call of a handler is one step, and so is what the entry does between two waits.
  \<^item> \<open>Concow_Cyclic\<close>: \<^verbatim>\<open>lib/conctrl/concow_cyclic.hpp\<close> in the same style, where every pipe takes every
    role in turn. \<open>Concow_Cyclic_Correct\<close>: the order in which pipes and workers come to a task, on
    numbers first and then as an invariant of the steps.
  \<^item> \<open>Mpsc_List\<close>: \<^verbatim>\<open>lib/conctrl/mpsc_list.hpp\<close>, the lock-free list of free workers, every access to
    a shared field a step; it refines the FIFO queue that \<open>Concow\<close> uses in its place, and a call of \<^verbatim>\<open>pop\<close>
    that no push overlaps returns the oldest item.

  Not modelled: memory orderings weaker than sequential consistency, thread creation and pinning,
  the 64-bit task counters (natural numbers here), the functions that print trees, the
  statistics fields \<^verbatim>\<open>cdf\<close> and \<^verbatim>\<open>flt\<close> that no code reads; of the benchmark the input of files and
  options, the threads that run a workload on a scheduler, the workload generator and the timing
  (\<^verbatim>\<open>src/src/main.cpp\<close>, \<^verbatim>\<open>src/ycsbc\<close>, \<^verbatim>\<open>src/utils\<close>).
\<close>

end
